(* ===== verification/Prelude.thy ===== *)
theory Prelude
  imports Main "HOL-Library.Word"
begin

text \<open>
  Shared foundations of the development: the machine integer types of the C code as fixed-width words, the
  relation \<open>denotes\<close> (a word holds this integer, and the integer is at most this bound) with the collection
  \<open>denotes_intros\<close> that discharges the absence of overflow in C expressions, values of limb and byte
  sequences, carry chains, and the locale \<open>power_chain\<close> for the addition chains that compute inverses and
  square roots.
\<close>

unbundle bit_operations_syntax

subsection \<open>Machine integers\<close>

type_synonym u8 = "8 word"
type_synonym u32 = "32 word"
type_synonym u64 = "64 word"
type_synonym u128 = "128 word"

abbreviation low64 :: "u128 \<Rightarrow> u64" where
  "low64 t \<equiv> ucast (t AND 0xFFFFFFFFFFFFFFFF)"

text \<open>A 64 bit limb from eight big-endian bytes and back, as \<open>scalar_set_b32\<close> and \<open>scalar_get_b32\<close> write it out.\<close>

definition read_be64 :: "u8 list \<Rightarrow> nat \<Rightarrow> u64" where
  "read_be64 b i =
     (((((((ucast (b ! (i + 7)) OR push_bit 8 (ucast (b ! (i + 6)))) OR push_bit 16 (ucast (b ! (i + 5))))
     OR push_bit 24 (ucast (b ! (i + 4)))) OR push_bit 32 (ucast (b ! (i + 3))))
     OR push_bit 40 (ucast (b ! (i + 2)))) OR push_bit 48 (ucast (b ! (i + 1))))
     OR push_bit 56 (ucast (b ! i)))"

definition write_be64 :: "u64 \<Rightarrow> u8 list" where
  "write_be64 d =
     [ucast (drop_bit 56 d), ucast (drop_bit 48 d), ucast (drop_bit 40 d), ucast (drop_bit 32 d),
      ucast (drop_bit 24 d), ucast (drop_bit 16 d), ucast (drop_bit 8 d), ucast d]"

text \<open>Copying bytes into a buffer at an offset.\<close>

definition memcpy_at :: "u8 list \<Rightarrow> nat \<Rightarrow> u8 list \<Rightarrow> u8 list" where
  "memcpy_at buf off src = take off buf @ src @ drop (off + length src) buf"

text \<open>\<open>denotes w n B\<close>: the word \<open>w\<close> holds the integer \<open>n\<close>, which is at most \<open>B\<close>.\<close>

named_theorems denotes_intros

definition denotes :: "'a::len word \<Rightarrow> int \<Rightarrow> int \<Rightarrow> bool" where
  "denotes w n B \<longleftrightarrow> uint w = n \<and> n \<le> B"

lemma denotes_uint: "denotes w n B \<Longrightarrow> uint w = n"
  by (simp add: denotes_def)

lemma denotes_bound: "denotes w n B \<Longrightarrow> 0 \<le> n \<and> n \<le> B"
  by (auto simp: denotes_def)

lemma denotes_weaken: "denotes w n A \<Longrightarrow> A \<le> B \<Longrightarrow> denotes w n B"
  by (simp add: denotes_def)

lemma denotes_add [denotes_intros]:
  fixes a b :: "'a::len word"
  assumes "denotes a n A" and "denotes b m B" and "A + B < 2 ^ LENGTH('a)"
  shows "denotes (a + b) (n + m) (A + B)"
  using assms by (auto simp: denotes_def uint_word_ariths)

lemma denotes_mult [denotes_intros]:
  fixes a b :: "'a::len word"
  assumes a: "denotes a n A" and b: "denotes b m B" and "A * B < 2 ^ LENGTH('a)"
  shows "denotes (a * b) (n * m) (A * B)"
proof -
  have "n * m \<le> A * B"
    using denotes_bound [OF a] denotes_bound [OF b] by (intro mult_mono) auto
  moreover have "0 \<le> n * m"
    using denotes_bound [OF a] denotes_bound [OF b] by simp
  ultimately show ?thesis
    using assms by (simp add: denotes_def uint_word_ariths)
qed

lemma denotes_ucast [denotes_intros]:
  fixes a :: "'a::len word"
  assumes "denotes a n A" and "A < 2 ^ LENGTH('b)"
  shows "denotes (ucast a :: 'b::len word) n A"
  using assms denotes_bound [OF assms(1)]
  by (auto simp: denotes_def unsigned_ucast_eq take_bit_int_eq_self_iff)

lemma uint_drop_bit: "uint (drop_bit k a) = uint a div 2 ^ k" for a :: "'a::len word"
proof -
  have "take_bit LENGTH('a) (uint a) = uint a"
    by (simp add: take_bit_int_eq_self_iff)
  then show ?thesis
    by (simp only: unsigned_drop_bit_eq) (simp add: drop_bit_eq_div)
qed

lemma uint_ucast_up:
  "LENGTH('a) \<le> LENGTH('b) \<Longrightarrow> uint (ucast x :: 'b::len word) = uint x" for x :: "'a::len word"
  by (simp add: unsigned_ucast_eq take_bit_int_eq_self_iff)
     (meson order_less_le_trans power_increasing one_le_numeral uint_bounded)

lemmas uint_ucast [simp] =
  uint_ucast_up [where 'a = 8 and 'b = 32, simplified]
  uint_ucast_up [where 'a = 8 and 'b = 64, simplified]
  uint_ucast_up [where 'a = 32 and 'b = 64, simplified]
  uint_ucast_up [where 'a = 32 and 'b = 128, simplified]
  uint_ucast_up [where 'a = 64 and 'b = 128, simplified]

lemma denotes_drop_bit [denotes_intros]:
  assumes "denotes a n A"
  shows "denotes (drop_bit k a) (n div 2 ^ k) (A div 2 ^ k)"
  using assms by (auto simp: denotes_def uint_drop_bit zdiv_mono1 simp del: drop_bit_eq_div)

lemma uint_and_mask:
  "uint (a AND mask k) = uint a mod 2 ^ k" for a :: "'a::len word"
  by (simp add: flip: take_bit_eq_mask take_bit_eq_mod add: unsigned_take_bit_eq)


lemma denotes_self: "uint (w :: 'a::len word) \<le> B \<Longrightarrow> denotes w (uint w) B"
  by (simp add: denotes_def)

lemma uint64_le: "uint (x :: u64) \<le> 0xFFFFFFFFFFFFFFFF"
  using uint_bounded [of x] by simp

lemma uint_gt: "-1 < uint (x :: 'a::len word)"
  using uint_ge_0 [of x] by linarith

lemma ucast_minus1: "ucast (-1 :: u64) = (0xFFFFFFFFFFFFFFFF :: u128)"
  by (simp add: word_uint_eq_iff unsigned_minus_1_eq_mask mask_numeral)

lemma uint32_le: "uint (x :: u32) \<le> 0xFFFFFFFF"
  using uint_bounded [of x] by simp

lemmas denotes_u64 [denotes_intros] = denotes_self [OF uint64_le]

lemma denotes_low64:
  "denotes (t :: u128) n A \<Longrightarrow> denotes (ucast (t AND 0xFFFFFFFFFFFFFFFF) :: u64) (n mod 2 ^ 64) 0xFFFFFFFFFFFFFFFF"
  using uint_and_mask [of t 64] pos_mod_bound [of "2 ^ 64" "uint t"]
  by (auto simp: denotes_def unsigned_ucast_eq mask_numeral take_bit_int_eq_self_iff)

subsection \<open>Limbs\<close>

primrec limbs_val :: "nat \<Rightarrow> 'a::len word list \<Rightarrow> int" where
  "limbs_val k [] = 0"
| "limbs_val k (w # ws) = uint w + 2 ^ k * limbs_val k ws"

lemma limbs_val_nonneg: "0 \<le> limbs_val k ws"
  by (induction ws) auto

lemmas limbs_val_Cons = limbs_val.simps(2)
declare limbs_val_Cons [simp del]

lemma limb_le_iff:
  fixes x0 x1 c0 c1 B :: int
  assumes "0 \<le> x0" "x0 < B" "0 \<le> c0" "c0 < B"
  shows "c0 + B * c1 \<le> x0 + B * x1 \<longleftrightarrow> c1 < x1 \<or> c1 = x1 \<and> c0 \<le> x0"
proof (cases c1 x1 rule: linorder_cases)
  case less
  then have "B * (c1 + 1) \<le> B * x1" using assms by (intro mult_left_mono) auto
  then show ?thesis using assms less by (simp add: algebra_simps)
next
  case equal
  then show ?thesis by simp
next
  case greater
  then have "B * (x1 + 1) \<le> B * c1" using assms by (intro mult_left_mono) auto
  then show ?thesis using assms greater by (auto simp add: algebra_simps)
qed

lemma limbs_val_le_Cons:
  fixes c w :: "'a::len word"
  shows "limbs_val LENGTH('a) (c # cs) \<le> limbs_val LENGTH('a) (w # ws) \<longleftrightarrow>
    limbs_val LENGTH('a) cs < limbs_val LENGTH('a) ws \<or>
    limbs_val LENGTH('a) cs = limbs_val LENGTH('a) ws \<and> c \<le> w"
  using limb_le_iff [of "uint w" "2 ^ LENGTH('a)" "uint c"] by (simp add: limbs_val_Cons word_le_def)

lemma limbs_val_less_Cons:
  fixes c w :: "'a::len word"
  shows "limbs_val LENGTH('a) (c # cs) < limbs_val LENGTH('a) (w # ws) \<longleftrightarrow>
    limbs_val LENGTH('a) cs < limbs_val LENGTH('a) ws \<or>
    limbs_val LENGTH('a) cs = limbs_val LENGTH('a) ws \<and> c < w"
  by (auto simp: limbs_val_le_Cons [of w ws c cs] simp flip: not_le)

lemma limbs_val_eq_Cons:
  fixes c w :: "'a::len word"
  shows "limbs_val LENGTH('a) (c # cs) = limbs_val LENGTH('a) (w # ws) \<longleftrightarrow>
    limbs_val LENGTH('a) cs = limbs_val LENGTH('a) ws \<and> c = w"
proof
  assume "limbs_val LENGTH('a) (c # cs) = limbs_val LENGTH('a) (w # ws)"
  then show "limbs_val LENGTH('a) cs = limbs_val LENGTH('a) ws \<and> c = w"
    using limbs_val_le_Cons [of c cs w ws] limbs_val_less_Cons [of c cs w ws] by auto
qed (simp add: limbs_val_Cons)


lemma limbs_val_bound:
  fixes ws :: "'a::len word list"
  shows "limbs_val LENGTH('a) ws < 2 ^ (LENGTH('a) * length ws)"
proof (induction ws)
  case (Cons w ws)
  have "uint w + 2 ^ LENGTH('a) * limbs_val LENGTH('a) ws < 2 ^ LENGTH('a) * (1 + limbs_val LENGTH('a) ws)"
    using uint_bounded [of w] by (simp add: algebra_simps)
  also have "\<dots> \<le> 2 ^ LENGTH('a) * 2 ^ (LENGTH('a) * length ws)"
    using Cons by (intro mult_left_mono) auto
  finally show ?case by (simp add: limbs_val_Cons power_add)
qed simp

lemma limbs_val_append: "limbs_val k (xs @ ys) = limbs_val k xs + 2 ^ (k * length xs) * limbs_val k ys"
  by (induction xs) (simp_all add: limbs_val_Cons power_add algebra_simps)

lemma div_round_half:
  fixes L :: int
  assumes "0 < s"
  shows "L div 2 ^ s + of_bool (bit L (s - 1)) = (L + 2 ^ (s - 1)) div 2 ^ s"
proof -
  define q where "q = L div 2 ^ (s - 1)"
  have p: "(2 :: int) ^ s = 2 ^ (s - 1) * 2" using assms by (simp add: power_eq_if)
  have "(L + 2 ^ (s - 1)) div 2 ^ (s - 1) = q + 1"
    unfolding q_def by (rule div_add_self2) simp
  then have "L div 2 ^ s = q div 2" "(L + 2 ^ (s - 1)) div 2 ^ s = (q + 1) div 2"
    unfolding p q_def zdiv_zmult2_eq [OF zero_le_numeral] by (simp_all only:)
  moreover have "bit L (s - 1) \<longleftrightarrow> odd q" by (simp add: bit_iff_odd q_def)
  ultimately show ?thesis by auto
qed

lemma div_mod_unique_int:
  fixes v c X M :: int
  assumes "v + M * c = X" "0 \<le> v" "v < M"
  shows "X mod M = v" "X div M = c"
  using assms by (auto simp: mod_pos_pos_trivial div_pos_pos_trivial)

lemma word_xor_eq_0_iff: "a XOR b = 0 \<longleftrightarrow> a = b" for a b :: "'a::len word"
  by (auto simp: bit_eq_iff bit_simps)

lemma uint_not64: "uint (NOT x) = 0xFFFFFFFFFFFFFFFF - uint x" for x :: u64
proof -
  have "(- uint x - 1) mod 2 ^ 64 = 0xFFFFFFFFFFFFFFFF - uint x"
    by (rule div_mod_unique_int(1) [of _ _ "-1"])
       (use uint_bounded [of x] uint_gt [of x] in simp_all)
  then show ?thesis
    by (simp add: unsigned_not_eq not_int_def take_bit_eq_mod)
qed

subsection \<open>Carry chains\<close>

lemma low64_split: "uint (low64 t) + 2 ^ 64 * uint (drop_bit 64 t) = uint t"
  using denotes_low64 [OF denotes_self [OF order_refl], of t]
  by (simp add: denotes_def uint_drop_bit)

lemma carry_add:
  fixes t x :: u128
  assumes "uint x < 2 ^ 127"
  shows "uint (drop_bit 64 t + x) = uint (drop_bit 64 t) + uint x"
proof -
  have "uint (drop_bit 64 t) < 2 ^ 64"
    using uint_bounded [of t] by (simp add: uint_drop_bit)
  then show ?thesis
    using assms by (simp add: uint_word_ariths)
qed

lemma carry_chain4:
  fixes x0 x1 x2 x3 :: u128
  assumes "uint x1 < 2 ^ 127" "uint x2 < 2 ^ 127" "uint x3 < 2 ^ 127"
  defines "t1 \<equiv> drop_bit 64 x0 + x1"
  defines "t2 \<equiv> drop_bit 64 t1 + x2"
  defines "t3 \<equiv> drop_bit 64 t2 + x3"
  shows "limbs_val 64 [low64 x0, low64 t1, low64 t2, low64 t3] + 2 ^ 256 * uint (drop_bit 64 t3)
    = uint x0 + 2 ^ 64 * uint x1 + 2 ^ 128 * uint x2 + 2 ^ 192 * uint x3"
  using low64_split [of x0] low64_split [of t1] low64_split [of t2] low64_split [of t3]
    carry_add [OF assms(1), of x0, folded t1_def] carry_add [OF assms(2), of t1, folded t2_def] 
    carry_add [OF assms(3), of t2, folded t3_def]
  by (simp add: limbs_val_Cons)

lemma carry_chain4_mod:
  fixes x0 x1 x2 x3 :: u128
  assumes "uint x1 < 2 ^ 127" "uint x2 < 2 ^ 127" "uint x3 < 2 ^ 127"
  defines "t1 \<equiv> drop_bit 64 x0 + x1"
  defines "t2 \<equiv> drop_bit 64 t1 + x2"
  defines "t3 \<equiv> drop_bit 64 t2 + x3"
  defines "X \<equiv> uint x0 + 2 ^ 64 * uint x1 + 2 ^ 128 * uint x2 + 2 ^ 192 * uint x3"
  shows "limbs_val 64 [low64 x0, low64 t1, low64 t2, low64 t3] = X mod 2 ^ 256"
    and "uint (drop_bit 64 t3) = X div 2 ^ 256"
proof -
  have "limbs_val 64 [low64 x0, low64 t1, low64 t2, low64 t3] < 2 ^ 256"
    using limbs_val_bound [of "[low64 x0, low64 t1, low64 t2, low64 t3]"] by simp
  note u = div_mod_unique_int [OF carry_chain4 [OF assms(1-3), of x0, folded assms(4-7)] limbs_val_nonneg this]
  show "limbs_val 64 [low64 x0, low64 t1, low64 t2, low64 t3] = X mod 2 ^ 256"
    by (rule u(1) [symmetric])
  show "uint (drop_bit 64 t3) = X div 2 ^ 256"
    by (rule u(2) [symmetric])
qed

subsection \<open>Byte strings\<close>

definition be_val :: "u8 list \<Rightarrow> int" where
  "be_val bs = foldl (\<lambda>v b. 256 * v + uint b) 0 bs"

lemma be_val_foldl: "foldl (\<lambda>v b. 256 * v + uint b) v bs = 256 ^ length bs * v + be_val bs" for bs :: "u8 list"
  unfolding be_val_def
proof (induction bs arbitrary: v)
  case (Cons b bs)
  show ?case
    using Cons [of "256 * v + uint b"] Cons [of "uint b"] by (simp add: algebra_simps)
qed simp

lemma be_val_Nil [simp]: "be_val [] = 0"
  by (simp add: be_val_def)

lemma be_val_append: "be_val (xs @ ys) = 256 ^ length ys * be_val xs + be_val ys"
  unfolding be_val_def [of "xs @ ys"] foldl_append be_val_foldl [of _ ys] be_val_def [symmetric] ..

lemma be_val_Cons: "be_val (b # bs) = 256 ^ length bs * uint b + be_val bs"
  using be_val_append [of "[b]" bs] by (simp add: be_val_def)

lemma be_val_bounds: "0 \<le> be_val bs" "be_val bs < 256 ^ length bs"
proof -
  have "0 \<le> be_val bs \<and> be_val bs < 256 ^ length bs"
  proof (induction bs)
    case (Cons b bs)
    have "(256::int) ^ length bs * uint b \<le> 256 ^ length bs * 255"
      using uint_bounded [of b] by (intro mult_left_mono) auto
    moreover have "0 \<le> (256::int) ^ length bs * uint b" by simp
    ultimately show ?case
      using Cons unfolding be_val_Cons length_Cons power_Suc by linarith
  qed simp
  then show "0 \<le> be_val bs" "be_val bs < 256 ^ length bs" by auto
qed

lemma be_val_inject: "length xs = length ys \<Longrightarrow> be_val xs = be_val ys \<longleftrightarrow> xs = ys"
proof (induction xs ys rule: list_induct2)
  case (Cons x xs y ys)
  have "be_val (x # xs) mod 256 ^ length xs = be_val xs" "be_val (x # xs) div 256 ^ length xs = uint x"
    using div_mod_unique_int [OF _ be_val_bounds [of xs]] by (simp_all add: be_val_Cons)
  moreover have "be_val (y # ys) mod 256 ^ length ys = be_val ys" "be_val (y # ys) div 256 ^ length ys = uint y"
    using div_mod_unique_int [OF _ be_val_bounds [of ys]] by (simp_all add: be_val_Cons)
  ultimately have "be_val (x # xs) = be_val (y # ys) \<longleftrightarrow> uint x = uint y \<and> be_val xs = be_val ys"
    using Cons.hyps by (metis be_val_Cons)
  then show ?case using Cons by (simp add: word_uint_eq_iff)
qed simp

lemma denotes_or_push:
  fixes x y :: "'a::len word"
  assumes x: "denotes x n A" and y: "denotes y m B" and A: "A < 2 ^ k" and B: "2 ^ k * B < 2 ^ LENGTH('a)"
  shows "denotes (x OR push_bit k y) (n + 2 ^ k * m) (A + 2 ^ k * B)"
proof -
  have *: "0 \<le> n" "n \<le> A" "0 \<le> m" "m \<le> B" using denotes_bound [OF x] denotes_bound [OF y] by auto
  have "2 ^ k * m < 2 ^ LENGTH('a)"
    using mult_left_mono [OF *(4), of "2 ^ k"] B by (rule order_le_less_trans) simp
  then have p: "uint (push_bit k y) = 2 ^ k * m"
    using y * by (simp only: unsigned_push_bit_eq denotes_def push_bit_eq_mult [of k m]) (simp add: take_bit_int_eq_self ac_simps push_bit_eq_mult)
  have "n OR push_bit k m = n + push_bit k m"
  proof (rule disjunctive_add [symmetric])
    fix i
    have "\<not> bit n i" if "k \<le> i" 
    proof -
      have "(2::int) ^ k \<le> 2 ^ i" using that by (rule power_increasing) simp
      then have "n < 2 ^ i" using * A by linarith
      then show ?thesis using *(1) by (simp add: bit_iff_odd)
    qed
    then show "\<not> bit n i \<or> \<not> bit (push_bit k m) i"
      by (auto simp: bit_push_bit_iff_int)
  qed
  then have "uint (x OR push_bit k y) = n + 2 ^ k * m"
    using x p by (simp add: unsigned_or_eq denotes_def push_bit_eq_mult ac_simps)
  moreover have "n + 2 ^ k * m \<le> A + 2 ^ k * B" using * by (intro add_mono mult_left_mono) auto
  ultimately show ?thesis by (simp add: denotes_def)
qed

lemma denotes_u8: "denotes (b :: u8) (uint b) 255"
  using uint_bounded [of b] by (simp add: denotes_def)

lemma uint_read_be64:
  "uint (read_be64 b i) = be_val [b ! i, b ! (i + 1), b ! (i + 2), b ! (i + 3), b ! (i + 4), b ! (i + 5), b ! (i + 6), b ! (i + 7)]"
proof -
  have "denotes (read_be64 b i) (uint (b ! (i + 7)) + 2 ^ 8 * uint (b ! (i + 6)) + 2 ^ 16 * uint (b ! (i + 5))
    + 2 ^ 24 * uint (b ! (i + 4)) + 2 ^ 32 * uint (b ! (i + 3)) + 2 ^ 40 * uint (b ! (i + 2))
    + 2 ^ 48 * uint (b ! (i + 1)) + 2 ^ 56 * uint (b ! i)) (2 ^ 64)"
    unfolding read_be64_def
    by (rule denotes_weaken) (rule denotes_or_push denotes_ucast denotes_u8 | simp)+ 
  then show ?thesis by (simp add: denotes_def be_val_Cons)
qed

lemma be_val_write_be64: "be_val (write_be64 d) = uint d"
proof -
  have u: "uint (ucast d :: u8) = uint d mod 256" for d :: u64
    by (simp add: unsigned_ucast_eq take_bit_eq_mod)
  have step: "x div 2 ^ k mod 256 + 256 * (x div 2 ^ (k + 8)) = x div 2 ^ k" for x :: int and k
    by (simp add: power_add zdiv_zmult2_eq)
  define q where "q k = uint d div 2 ^ k" for k
  have "q 56 mod 256 = q 56"
    using uint64_le [of d] unfolding q_def
    by (intro mod_pos_pos_trivial) (simp_all add: div_less_iff_less_mult pos_imp_zdiv_nonneg_iff)
  moreover have "q k mod 256 + 256 * q (k + 8) = q k" for k
    unfolding q_def by (rule step)
  note this [of 0] this [of 8] this [of 16] this [of 24] this [of 32] this [of 40] this [of 48]
  ultimately have "q 0 = 72057594037927936 * (q 56 mod 256) + 281474976710656 * (q 48 mod 256)
    + 1099511627776 * (q 40 mod 256) + 4294967296 * (q 32 mod 256)
    + 16777216 * (q 24 mod 256) + 65536 * (q 16 mod 256) + 256 * (q 8 mod 256) + q 0 mod 256"
    by (simp only: add_0 add_numeral_left numeral_plus_numeral add_num_simps)
  then show ?thesis
    by (simp add: write_be64_def be_val_Cons u uint_drop_bit q_def)
qed

lemma bit_limbs_val:
  fixes ws :: "'a::len word list"
  shows "bit (limbs_val LENGTH('a) ws) k \<longleftrightarrow>
    k < LENGTH('a) * length ws \<and> bit (ws ! (k div LENGTH('a))) (k mod LENGTH('a))"
proof (induction ws arbitrary: k)
  case (Cons w ws)
  have l: "0 < LENGTH('a)" by simp
  have "limbs_val LENGTH('a) (w # ws) = uint w OR push_bit LENGTH('a) (limbs_val LENGTH('a) ws)"
  proof -
    have "uint w + push_bit LENGTH('a) (limbs_val LENGTH('a) ws) = uint w OR push_bit LENGTH('a) (limbs_val LENGTH('a) ws)"
      by (rule disjunctive_add) (auto simp: bit_push_bit_iff_int dest: bit_imp_le_length simp: bit_uint_iff)
    then show ?thesis by (simp add: limbs_val_Cons push_bit_eq_mult mult.commute)
  qed
  then have "bit (limbs_val LENGTH('a) (w # ws)) k \<longleftrightarrow>
      bit w k \<or> LENGTH('a) \<le> k \<and> bit (limbs_val LENGTH('a) ws) (k - LENGTH('a))"
    by (auto simp: bit_or_iff bit_push_bit_iff_int bit_uint_iff dest: bit_imp_le_length)
  then show ?case
    using l by (cases "k < LENGTH('a)") (auto simp: Cons le_div_geq le_mod_geq nth_Cons' dest: bit_imp_le_length)
qed simp

lemma unat_drop_bit: "unat (drop_bit k a) = unat a div 2 ^ k" for a :: "'a::len word"
proof -
  have "take_bit LENGTH('a) (unat a) = unat a"
    by (simp add: take_bit_nat_eq_self_iff)
  then show ?thesis
    by (simp only: unsigned_drop_bit_eq) (simp add: drop_bit_eq_div)
qed

lemma div_mod_add_nat:
  fixes a n m :: nat
  assumes "a mod m + n < m"
  shows "(a + n) div m = a div m" "(a + n) mod m = a mod m + n"
proof -
  have "(a + n) mod m = (a mod m + n) mod m" by (rule mod_add_left_eq [symmetric])
  with assms show "(a + n) mod m = a mod m + n" by simp
  have "n < m" using assms by simp
  with assms show "(a + n) div m = a div m" using div_add1_eq [of a n m] by simp
qed

lemma unat_and_mask: "unat (a AND mask k) = unat a mod 2 ^ k" for a :: "'a::len word"
  by (simp flip: take_bit_eq_mask take_bit_eq_mod add: unsigned_take_bit_eq)

lemma unat_and_3F: "unat (a AND 0x3F) = unat a mod 64" for a :: u32
  using unat_and_mask [of a 6] by (simp add: mask_numeral)

lemma push_bit_minus_1: "push_bit k 1 - 1 = (mask k :: 'a::len word)"
  by (simp add: mask_eq_exp_minus_1 push_bit_eq_mult)

subsection \<open>Stepping through a chain of assignments\<close>

text \<open>The rule \<open>let_step\<close> takes one assignment of a C function off a \<open>let\<close> chain: the new variable holds the
  integer its expression denotes, within a bound that excludes overflow.\<close>

lemma let_step:
  assumes "denotes e n B" and "B = C" and "\<And>v. uint v = n \<Longrightarrow> uint v \<le> C \<Longrightarrow> P (G v)"
  shows "P (Let e G)"
  using assms by (auto simp: denotes_def Let_def)

lemma denotes_and52:
  fixes t :: "'a::len word"
  assumes "denotes t n A" "LENGTH('a) > 52"
  shows "denotes (t AND 0xFFFFFFFFFFFFF) (n mod 2 ^ 52) 0xFFFFFFFFFFFFF"
  using uint_and_mask [of t 52] assms pos_mod_bound [of "2 ^ 52" n]
  by (auto simp: denotes_def mask_numeral)

lemma denotes_and48:
  fixes t :: "'a::len word"
  assumes "denotes t n A" "LENGTH('a) > 52"
  shows "denotes (t AND 0xFFFFFFFFFFFF) (n mod 2 ^ 48) 0xFFFFFFFFFFFF"
  using uint_and_mask [of t 48] assms pos_mod_bound [of "2 ^ 48" n]
  by (auto simp: denotes_def mask_numeral)

lemma denotes_push_or:
  fixes x y :: "'a::len word"
  assumes "denotes x n A" and "denotes y m B" and "A < 2 ^ k" and "2 ^ k * B < 2 ^ LENGTH('a)"
  shows "denotes (push_bit k y OR x) (n + 2 ^ k * m) (A + 2 ^ k * B)"
  using denotes_or_push [OF assms] by (simp add: or.commute)

lemma denotes_numeral:
  "(numeral k :: int) < 2 ^ LENGTH('a) \<Longrightarrow> denotes (numeral k :: 'a::len word) (numeral k) (numeral k)"
  by (simp add: denotes_def take_bit_int_eq_self_iff flip: take_bit_eq_mod) 

lemma sint_eq_uint:
  fixes a :: "'a::len word"
  assumes "uint a < 2 ^ (LENGTH('a) - 1)"
  shows "sint a = uint a"
  using assms by (simp add: sint_uint signed_take_bit_int_eq_self_iff order_trans [OF _ uint_ge_0])

lemma denotes_scast:
  fixes a :: "'a::len word"
  assumes "denotes a n A" and "A < 2 ^ (LENGTH('a) - 1)" "A < 2 ^ LENGTH('b)"
  shows "denotes (scast a :: 'b::len word) n A"
proof -
  have "sint a = n" using assms sint_eq_uint [of a] by (simp add: denotes_def)
  then show ?thesis
    using assms denotes_bound [OF assms(1)]
    by (simp add: denotes_def scast_eq unsigned_of_int take_bit_int_eq_self_iff)
qed

lemma denotes_signed_drop_bit:
  fixes a :: "'a::len word"
  assumes "denotes a n A" and "A < 2 ^ (LENGTH('a) - 1)"
  shows "denotes (signed_drop_bit k a) (n div 2 ^ k) (A div 2 ^ k)"
proof -
  have "0 \<le> sint a"
    using assms sint_eq_uint [of a] denotes_bound [OF assms(1)] by (simp add: denotes_def)
  then have "\<not> bit a (LENGTH('a) - 1)" by (simp add: not_less bit_last_iff)
  then have "signed_drop_bit k a = drop_bit k a"
    by (intro bit_word_eqI) (auto simp: bit_simps dest: bit_imp_le_length)
  then show ?thesis using denotes_drop_bit [OF assms(1)] by simp
qed

lemmas denotes_rules = denotes_scast denotes_signed_drop_bit denotes_add denotes_mult denotes_and52 denotes_and48 denotes_numeral denotes_ucast
  denotes_drop_bit denotes_push_or

subsection \<open>Power chains\<close>

locale power_chain =
  fixes mul :: "'a \<Rightarrow> 'a \<Rightarrow> 'a" and sqr :: "'a \<Rightarrow> 'a" and val :: "'a \<Rightarrow> int" and m :: int and ok :: "'a \<Rightarrow> bool"
  assumes mul: "ok a \<Longrightarrow> ok b \<Longrightarrow> ok (mul a b) \<and> val (mul a b) mod m = val a * val b mod m"
    and sqr: "ok a \<Longrightarrow> ok (sqr a) \<and> val (sqr a) mod m = val a * val a mod m"
begin

definition pw :: "'a \<Rightarrow> nat \<Rightarrow> 'a \<Rightarrow> bool" where
  "pw x e t \<longleftrightarrow> ok t \<and> val t mod m = val x ^ e mod m"

lemma pw_self: "ok x \<Longrightarrow> pw x 1 x"
  by (simp add: pw_def)

lemma pw_end: "pw x e t \<Longrightarrow> e = f \<Longrightarrow> pw x f t"
  by simp

lemma pw_mul: "pw x i a \<Longrightarrow> pw x j b \<Longrightarrow> pw x (i + j) (mul a b)"
  unfolding pw_def power_add by (metis mul mod_mult_eq)

lemma pw_sqr: "pw x i a \<Longrightarrow> pw x (2 * i) (sqr a)"
  unfolding pw_def mult_2 power_add by (metis sqr mod_mult_eq)

lemma pw_sqrs: "pw x i a \<Longrightarrow> pw x (2 ^ k * i) ((sqr ^^ k) a)"
  by (induction k) (auto simp: mult.assoc dest: pw_sqr)

lemma pw_lets:
  "pw x i a \<Longrightarrow> pw x j b \<Longrightarrow> i + j = k \<Longrightarrow> (\<And>t. pw x k t \<Longrightarrow> P (G t)) \<Longrightarrow> P (Let (mul a b) G)"
  "pw x i a \<Longrightarrow> 2 * i = k \<Longrightarrow> (\<And>t. pw x k t \<Longrightarrow> P (G t)) \<Longrightarrow> P (Let (sqr a) G)"
  "pw x i a \<Longrightarrow> 2 ^ n * i = k \<Longrightarrow> (\<And>t. pw x k t \<Longrightarrow> P (G t)) \<Longrightarrow> P (Let ((sqr ^^ n) a) G)"
  unfolding Let_def by (blast intro: pw_mul pw_sqr pw_sqrs)+

end

end
