(* ===== verification/Scalar.thy ===== *)
theory Scalar
  imports Prelude
begin

text \<open>
  The representation independent scalar code, \<open>scalar_impl.h\<close>: the addition chain of the inverse and the
  endomorphism split. The C file is compiled on top of one of the scalar representations; here it is a family
  of functions over \<open>scalar_ops\<close>, the operations of \<open>scalar.h\<close> it calls. The locale \<open>scalar_arith\<close>
  states what those operations promise; the lemmas about the generic code are proved from it once.
\<close>

subsection \<open>The generic code\<close>

record 's scalar_ops =
  sc_add :: "'s \<Rightarrow> 's \<Rightarrow> u32 \<times> 's"
  sc_mul :: "'s \<Rightarrow> 's \<Rightarrow> 's"
  sc_sqr :: "'s \<Rightarrow> 's"
  sc_mul_shift_var :: "'s \<Rightarrow> 's \<Rightarrow> u32 \<Rightarrow> 's"
  sc_const :: "u32 \<Rightarrow> u32 \<Rightarrow> u32 \<Rightarrow> u32 \<Rightarrow> u32 \<Rightarrow> u32 \<Rightarrow> u32 \<Rightarrow> u32 \<Rightarrow> 's"

text \<open>A loop that squares \<open>k\<close> times in place is \<open>sc_sqr ops ^^ k\<close>. The C function is split in two: the powers
  \<open>x^(2^N - 1)\<close>, and the accumulation that starts from \<open>x127\<close>.\<close>

definition scalar_inverse_powers :: "'s scalar_ops \<Rightarrow> 's \<Rightarrow> 's \<times> 's \<times> 's \<times> 's \<times> 's \<times> 's" where
  "scalar_inverse_powers ops x =
    (let x2 = sc_sqr ops x;
         x2 = sc_mul ops x2 x;
         x3 = sc_sqr ops x2;
         x3 = sc_mul ops x3 x;
         x4 = sc_sqr ops x3;
         x4 = sc_mul ops x4 x;
         x6 = sc_sqr ops x4;
         x6 = sc_sqr ops x6;
         x6 = sc_mul ops x6 x2;
         x7 = sc_sqr ops x6;
         x7 = sc_mul ops x7 x;
         x8 = sc_sqr ops x7;
         x8 = sc_mul ops x8 x;
         x15 = sc_sqr ops x8;
         x15 = (sc_sqr ops ^^ 6) x15;
         x15 = sc_mul ops x15 x7;
         x30 = sc_sqr ops x15;
         x30 = (sc_sqr ops ^^ 14) x30;
         x30 = sc_mul ops x30 x15;
         x60 = sc_sqr ops x30;
         x60 = (sc_sqr ops ^^ 29) x60;
         x60 = sc_mul ops x60 x30;
         x120 = sc_sqr ops x60;
         x120 = (sc_sqr ops ^^ 59) x120;
         x120 = sc_mul ops x120 x60;
         x127 = sc_sqr ops x120;
         x127 = (sc_sqr ops ^^ 6) x127;
         x127 = sc_mul ops x127 x7
     in (x2, x3, x4, x6, x8, x127))"

definition scalar_inverse :: "'s scalar_ops \<Rightarrow> 's \<Rightarrow> 's" where
  "scalar_inverse ops x =
    (let (x2, x3, x4, x6, x8, x127) = scalar_inverse_powers ops x;
         t = (sc_sqr ops ^^ 2) x127;
         t = sc_mul ops t x;
         t = (sc_sqr ops ^^ 4) t;
         t = sc_mul ops t x3;
         t = (sc_sqr ops ^^ 2) t;
         t = sc_mul ops t x;
         t = (sc_sqr ops ^^ 2) t;
         t = sc_mul ops t x;
         t = (sc_sqr ops ^^ 2) t;
         t = sc_mul ops t x;
         t = (sc_sqr ops ^^ 4) t;
         t = sc_mul ops t x3;
         t = (sc_sqr ops ^^ 3) t;
         t = sc_mul ops t x2;
         t = (sc_sqr ops ^^ 4) t;
         t = sc_mul ops t x3;
         t = (sc_sqr ops ^^ 5) t;
         t = sc_mul ops t x3;
         t = (sc_sqr ops ^^ 4) t;
         t = sc_mul ops t x2;
         t = (sc_sqr ops ^^ 2) t;
         t = sc_mul ops t x;
         t = (sc_sqr ops ^^ 2) t;
         t = sc_mul ops t x;
         t = (sc_sqr ops ^^ 5) t;
         t = sc_mul ops t x4;
         t = (sc_sqr ops ^^ 2) t;
         t = sc_mul ops t x;
         t = (sc_sqr ops ^^ 3) t;
         t = sc_mul ops t x;
         t = (sc_sqr ops ^^ 4) t;
         t = sc_mul ops t x;
         t = (sc_sqr ops ^^ 2) t;
         t = sc_mul ops t x;
         t = (sc_sqr ops ^^ 10) t;
         t = sc_mul ops t x3;
         t = (sc_sqr ops ^^ 4) t;
         t = sc_mul ops t x3;
         t = (sc_sqr ops ^^ 9) t;
         t = sc_mul ops t x8;
         t = (sc_sqr ops ^^ 2) t;
         t = sc_mul ops t x;
         t = (sc_sqr ops ^^ 3) t;
         t = sc_mul ops t x;
         t = (sc_sqr ops ^^ 3) t;
         t = sc_mul ops t x;
         t = (sc_sqr ops ^^ 5) t;
         t = sc_mul ops t x4;
         t = (sc_sqr ops ^^ 2) t;
         t = sc_mul ops t x;
         t = (sc_sqr ops ^^ 5) t;
         t = sc_mul ops t x2;
         t = (sc_sqr ops ^^ 4) t;
         t = sc_mul ops t x2;
         t = (sc_sqr ops ^^ 2) t;
         t = sc_mul ops t x;
         t = (sc_sqr ops ^^ 8) t;
         t = sc_mul ops t x2;
         t = (sc_sqr ops ^^ 3) t;
         t = sc_mul ops t x2;
         t = (sc_sqr ops ^^ 3) t;
         t = sc_mul ops t x;
         t = (sc_sqr ops ^^ 6) t;
         t = sc_mul ops t x;
         t = (sc_sqr ops ^^ 8) t;
         r = sc_mul ops t x6
     in r)"

text \<open>The builtin configuration (\<open>USE_SCALAR_INV_BUILTIN\<close>); the other one calls GMP.\<close>

definition scalar_inverse_var :: "'s scalar_ops \<Rightarrow> 's \<Rightarrow> 's" where
  "scalar_inverse_var ops x = scalar_inverse ops x"

definition scalar_split_lambda :: "'s scalar_ops \<Rightarrow> 's \<Rightarrow> 's \<times> 's" where
  "scalar_split_lambda ops a =
    (let minus_lambda = sc_const ops 0xAC9C52B3 0x3FA3CF1F 0x5AD9E3FD 0x77ED9BA4
                                     0xA880B9FC 0x8EC739C2 0xE0CFC810 0xB51283CF;
         minus_b1 = sc_const ops 0x00000000 0x00000000 0x00000000 0x00000000
                                 0xE4437ED6 0x010E8828 0x6F547FA9 0x0ABFE4C3;
         minus_b2 = sc_const ops 0xFFFFFFFF 0xFFFFFFFF 0xFFFFFFFF 0xFFFFFFFE
                                 0x8A280AC5 0x0774346D 0xD765CDA8 0x3DB1562C;
         g1 = sc_const ops 0x00000000 0x00000000 0x00000000 0x00003086
                           0xD221A7D4 0x6BCDE86C 0x90E49284 0xEB153DAB;
         g2 = sc_const ops 0x00000000 0x00000000 0x00000000 0x0000E443
                           0x7ED6010E 0x88286F54 0x7FA90ABF 0xE4C42212;
         c1 = sc_mul_shift_var ops a g1 272;
         c2 = sc_mul_shift_var ops a g2 272;
         c1 = sc_mul ops c1 minus_b1;
         c2 = sc_mul ops c2 minus_b2;
         (_, r2) = sc_add ops c1 c2;
         r1 = sc_mul ops r2 minus_lambda;
         (_, r1) = sc_add ops r1 a
     in (r1, r2))"

subsection \<open>The group order and the interface\<close>

definition order_n :: int where
  "order_n = 0xFFFFFFFFFFFFFFFFFFFFFFFFFFFFFFFEBAAEDCE6AF48A03BBFD25E8CD0364141"

definition half_order :: int where
  "half_order = 0x7FFFFFFFFFFFFFFFFFFFFFFFFFFFFFFF5D576E7357A4501DDFE92F46681B20A0"

definition order_c :: int where "order_c = 2 ^ 256 - order_n"

text \<open>The cube root of unity modulo the order, from the comment above \<open>scalar_split_lambda\<close>.\<close>

definition scalar_lambda :: int where
  "scalar_lambda = 0x5363AD4CC05C30E0A5261C028812645A122E22EA20816678DF02967C1B23BD72"

text \<open>The representative of a residue that is smallest in absolute value.\<close>

definition signed_mod :: "int \<Rightarrow> int" where
  "signed_mod v = (if 2 * v < order_n then v else v - order_n)"

lemma signed_mod_unique: "2 * \<bar>k\<bar> < order_n \<Longrightarrow> signed_mod (k mod order_n) = k"
proof (cases "0 \<le> k")
  case False
  assume "2 * \<bar>k\<bar> < order_n"
  with False have "k mod order_n = k + order_n" "\<not> 2 * (k + order_n) < order_n"
    by (auto intro!: div_mod_unique_int(1) [of "k + order_n" order_n "-1"])
  then show ?thesis by (simp add: signed_mod_def)
qed (simp add: signed_mod_def)

lemma mod_order_cond:
  assumes "0 \<le> V" "V < 2 * order_n"
  shows "(V + of_bool (order_n \<le> V) * (2 ^ 256 - order_n)) mod 2 ^ 256 = V mod order_n"
proof (cases "order_n \<le> V")
  case True
  have "(V + (2 ^ 256 - order_n)) mod 2 ^ 256 = V - order_n"
    by (rule div_mod_unique_int(1) [of _ _ 1]) (use assms True in \<open>simp_all add: order_n_def\<close>)
  moreover have "V mod order_n = V - order_n"
    by (rule div_mod_unique_int(1) [of _ _ 1]) (use assms True in simp_all)
  ultimately show ?thesis using True by simp
next
  case False
  then show ?thesis using assms by (simp add: order_n_def)
qed

lemma mod_order_fold: "(a + 2 ^ 256 * b) mod order_n = (a + b * order_c) mod order_n"
proof -
  have "a + 2 ^ 256 * b = a + b * order_c + b * order_n"
    unfolding order_c_def by (simp only: right_diff_distrib) simp
  then show ?thesis by (simp only: mod_mult_self1)
qed

lemma order_c_square: "order_c * order_c < 2 ^ 257"
  by (simp add: order_c_def order_n_def)

locale scalar_arith =
  fixes ops :: "'s scalar_ops" and sval :: "'s \<Rightarrow> int"
  assumes sval_nonneg: "0 \<le> sval a"
    and mul_val: "sval (sc_mul ops a b) = sval a * sval b mod order_n"
    and sqr_val: "sval (sc_sqr ops a) = sval a * sval a mod order_n"
    and add_val: "sval a < order_n \<Longrightarrow> sval b < order_n \<Longrightarrow>
      sval (snd (sc_add ops a b)) = (sval a + sval b) mod order_n"
    and mul_shift_val: "256 \<le> unat shift \<Longrightarrow> unat shift \<le> 512 \<Longrightarrow>
      sval (sc_mul_shift_var ops a b shift) = (sval a * sval b + 2 ^ (unat shift - 1)) div 2 ^ unat shift"
    and const_val: "sval (sc_const ops d7 d6 d5 d4 d3 d2 d1 d0) = limbs_val 32 [d0, d1, d2, d3, d4, d5, d6, d7]"

sublocale scalar_arith \<subseteq> chain: power_chain "sc_mul ops" "sc_sqr ops" sval order_n "\<lambda>_. True"
  by unfold_locales (simp_all add: mul_val sqr_val)

context scalar_arith
begin

lemma inverse_powers:
  "case scalar_inverse_powers ops x of (x2, x3, x4, x6, x8, x127) \<Rightarrow>
     chain.pw x (2 ^ 2 - 1) x2 \<and> chain.pw x (2 ^ 3 - 1) x3 \<and> chain.pw x (2 ^ 4 - 1) x4 \<and>
     chain.pw x (2 ^ 6 - 1) x6 \<and> chain.pw x (2 ^ 8 - 1) x8 \<and> chain.pw x (2 ^ 127 - 1) x127"
  (is "?P (scalar_inverse_powers ops x)")
proof -
  have "chain.pw x 1 x" by (rule chain.pw_self) simp
  then show ?thesis
    unfolding scalar_inverse_powers_def
    by - ((rule chain.pw_lets [where P = ?P], assumption, assumption?, simp (no_asm))+, simp)
qed

lemma inverse_chain: "chain.pw x (nat (order_n - 2)) (scalar_inverse ops x)"
proof -
  obtain x2 x3 x4 x6 x8 x127 where p: "scalar_inverse_powers ops x = (x2, x3, x4, x6, x8, x127)"
    by (metis prod.exhaust)
  have "chain.pw x 1 x" by (rule chain.pw_self) simp
  moreover note inverse_powers [of x, unfolded p prod.case]
  then have "chain.pw x 3 x2" "chain.pw x 7 x3" "chain.pw x 15 x4" "chain.pw x 63 x6" "chain.pw x 255 x8"
    "chain.pw x (2 ^ 127 - 1) x127" by simp_all
  ultimately show ?thesis
    unfolding scalar_inverse_def p Let_def [of "(_, _)"] prod.case
    by - ((rule chain.pw_lets [where P = "chain.pw x (nat (order_n - 2))"], assumption, assumption?, simp (no_asm))+,
        rule chain.pw_end, assumption, simp (no_asm) add: order_n_def)
qed

lemma inverse_val: "sval (scalar_inverse ops x) mod order_n = sval x ^ nat (order_n - 2) mod order_n"
  using inverse_chain by (simp add: chain.pw_def)

lemma split_lambda_eqs:
  assumes "sval a < order_n" and "scalar_split_lambda ops a = (r1, r2)"
  defines "q1 \<equiv> (sval a * 0x3086D221A7D46BCDE86C90E49284EB153DAB + 2 ^ 271) div 2 ^ 272"
    and "q2 \<equiv> (sval a * 0xE4437ED6010E88286F547FA90ABFE4C42212 + 2 ^ 271) div 2 ^ 272"
  shows "sval r2 = (q1 * 0xE4437ED6010E88286F547FA90ABFE4C3 + q2 * (order_n - 0x3086D221A7D46BCDE86C90E49284EB15)) mod order_n"
    and "sval r1 = (sval r2 * (order_n - scalar_lambda) + sval a) mod order_n"
proof -
  have less: "x mod order_n < order_n" for x by (simp add: order_n_def)
  have s: "unat (272 :: u32) = 272" by simp
  have q: "sval (sc_mul_shift_var ops a (sc_const ops 0 0 0 0x3086 0xD221A7D4 0x6BCDE86C 0x90E49284 0xEB153DAB) 272) = q1"
    "sval (sc_mul_shift_var ops a (sc_const ops 0 0 0 0xE443 0x7ED6010E 0x88286F54 0x7FA90ABF 0xE4C42212) 272) = q2"
    unfolding q1_def q2_def by (simp_all add: mul_shift_val const_val limbs_val_Cons)
  have c: "sval (sc_const ops 0xAC9C52B3 0x3FA3CF1F 0x5AD9E3FD 0x77ED9BA4 0xA880B9FC 0x8EC739C2 0xE0CFC810 0xB51283CF) = order_n - scalar_lambda"
    "sval (sc_const ops 0 0 0 0 0xE4437ED6 0x010E8828 0x6F547FA9 0x0ABFE4C3) = 0xE4437ED6010E88286F547FA90ABFE4C3"
    "sval (sc_const ops 0xFFFFFFFF 0xFFFFFFFF 0xFFFFFFFF 0xFFFFFFFE 0x8A280AC5 0x0774346D 0xD765CDA8 0x3DB1562C) = order_n - 0x3086D221A7D46BCDE86C90E49284EB15"
    by (simp_all add: const_val limbs_val_Cons order_n_def scalar_lambda_def)
  note r = assms(2) [unfolded scalar_split_lambda_def Let_def case_prod_beta prod.inject]
  have "sval r2 = (q1 * 0xE4437ED6010E88286F547FA90ABFE4C3 mod order_n + q2 * (order_n - 0x3086D221A7D46BCDE86C90E49284EB15) mod order_n) mod order_n"
    using r by (auto simp only: add_val mul_val less q c)
  then show "sval r2 = (q1 * 0xE4437ED6010E88286F547FA90ABFE4C3 + q2 * (order_n - 0x3086D221A7D46BCDE86C90E49284EB15)) mod order_n"
    by (simp only: mod_add_eq)
  have "sval r1 = (sval r2 * (order_n - scalar_lambda) mod order_n + sval a) mod order_n"
    using r assms(1) by (auto simp only: add_val mul_val less c)
  then show "sval r1 = (sval r2 * (order_n - scalar_lambda) + sval a) mod order_n"
    by (simp only: mod_add_left_eq)
qed

lemma split_lambda_sum:
  assumes "sval a < order_n" and "scalar_split_lambda ops a = (r1, r2)"
  shows "(sval r1 + scalar_lambda * sval r2) mod order_n = sval a"
proof -
  have "(sval r1 + scalar_lambda * sval r2) mod order_n =
      (sval r2 * (order_n - scalar_lambda) + sval a + scalar_lambda * sval r2) mod order_n"
    unfolding split_lambda_eqs(2) [OF assms] by (rule mod_add_left_eq)
  also have "\<dots> = (sval a + sval r2 * order_n) mod order_n"
    by (simp only: algebra_simps) simp
  also have "\<dots> = sval a"
    using assms(1) sval_nonneg [of a] by (simp only: mod_mult_self1) simp
  finally show ?thesis .
qed

lemma split_lambda_short:
  assumes "sval a < order_n" and "scalar_split_lambda ops a = (r1, r2)"
  shows "\<bar>signed_mod (sval r1)\<bar> < 2 ^ 128" and "\<bar>signed_mod (sval r2)\<bar> < 2 ^ 128"
proof -
  define k where "k = sval a"
  define q1 where "q1 = (k * 0x3086D221A7D46BCDE86C90E49284EB153DAB + 2 ^ 271) div 2 ^ 272"
  define q2 where "q2 = (k * 0xE4437ED6010E88286F547FA90ABFE4C42212 + 2 ^ 271) div 2 ^ 272"
  note eqs = split_lambda_eqs [OF assms, folded k_def, folded q1_def q2_def]
  have k: "0 \<le> k" "k < order_n" using assms(1) sval_nonneg [of a] by (simp_all add: k_def)
  define e1 where "e1 = (k * 0x3086D221A7D46BCDE86C90E49284EB153DAB + 2 ^ 271) mod 2 ^ 272"
  define e2 where "e2 = (k * 0xE4437ED6010E88286F547FA90ABFE4C42212 + 2 ^ 271) mod 2 ^ 272"
  have e: "0 \<le> e1" "e1 < 2 ^ 272" "0 \<le> e2" "e2 < 2 ^ 272"
    by (simp_all add: e1_def e2_def)
  have q: "2 ^ 272 * q1 + e1 = k * 0x3086D221A7D46BCDE86C90E49284EB153DAB + 2 ^ 271"
    "2 ^ 272 * q2 + e2 = k * 0xE4437ED6010E88286F547FA90ABFE4C42212 + 2 ^ 271"
    unfolding q1_def e1_def q2_def e2_def by (rule mult_div_mod_eq)+
  define k2 where "k2 = q1 * 0xE4437ED6010E88286F547FA90ABFE4C3 - q2 * 0x3086D221A7D46BCDE86C90E49284EB15"
  define k1 where "k1 = k - q1 * 0x3086D221A7D46BCDE86C90E49284EB15 - q2 * 0x114CA50F7A8E2F3F657C1108D9D44CFD8"
  note bounds = e [unfolded power_numeral Num.pow.simps Num.sqr.simps] k [unfolded order_n_def]
    q [unfolded power_numeral Num.pow.simps Num.sqr.simps]
  have "k2 < 2 ^ 128" "- (2 ^ 128) < k2" "k1 < 2 ^ 128" "- (2 ^ 128) < k1"
    using bounds unfolding k1_def k2_def by simp_all
  then have b: "\<bar>k1\<bar> < 2 ^ 128" "\<bar>k2\<bar> < 2 ^ 128" by linarith+
  have r2: "sval r2 = k2 mod order_n"
  proof -
    have "q1 * 0xE4437ED6010E88286F547FA90ABFE4C3 + q2 * (order_n - 0x3086D221A7D46BCDE86C90E49284EB15) = k2 + q2 * order_n"
      by (simp add: k2_def algebra_simps)
    then show ?thesis unfolding eqs(1) by (simp only: mod_mult_self1)
  qed
  have "sval r1 = (k2 * (order_n - scalar_lambda) + k) mod order_n"
    unfolding eqs(2) r2 by (metis mod_add_left_eq mod_mult_left_eq)
  also have "k2 * (order_n - scalar_lambda) + k =
      k1 + (k2 - q1 * 98834128363575826231712400374302886273 + q2 * 21011179226632705335158493575954588082) * order_n"
    by (simp add: k1_def k2_def order_n_def scalar_lambda_def)
  finally have r1: "sval r1 = k1 mod order_n" by (simp only: mod_mult_self1)
  have "2 * \<bar>k1\<bar> < order_n" "2 * \<bar>k2\<bar> < order_n"
    using b by (simp_all add: order_n_def)
  then show "\<bar>signed_mod (sval r1)\<bar> < 2 ^ 128" "\<bar>signed_mod (sval r2)\<bar> < 2 ^ 128"
    using b unfolding r1 r2 by (simp_all only: signed_mod_unique)
qed

end

end
