(* ===== verification/Scalar_4x64.thy ===== *)
theory Scalar_4x64
  imports Scalar
begin

text \<open>
  Scalars modulo the group order in four 64 bit limbs: \<open>scalar_4x64.h\<close> and the portable C paths of
  \<open>scalar_4x64_impl.h\<close> (the branches without \<open>USE_ASM_X86_64\<close>). Every operation of the file is a
  definition here; a pointer argument that is written becomes a result. The lemmas show that each operation
  computes the function of the represented integer that \<open>scalar.h\<close> promises, with the carries and
  wrap-around of the \<open>u64\<close> and \<open>u128\<close> arithmetic as in the code, and the theory ends with the
  interpretation of the scalar interface of theory \<open>Scalar\<close>.
\<close>

subsection \<open>The struct and its constants (scalar_4x64.h, scalar_4x64_impl.h 13--33)\<close>

record scalar_4x64 =
  sd0 :: u64
  sd1 :: u64
  sd2 :: u64
  sd3 :: u64

abbreviation Scalar4 :: "u64 \<Rightarrow> u64 \<Rightarrow> u64 \<Rightarrow> u64 \<Rightarrow> scalar_4x64" where
  "Scalar4 a b c e \<equiv> \<lparr>sd0 = a, sd1 = b, sd2 = c, sd3 = e\<rparr>"

definition scalar_const_4x64 :: "u32 \<Rightarrow> u32 \<Rightarrow> u32 \<Rightarrow> u32 \<Rightarrow> u32 \<Rightarrow> u32 \<Rightarrow> u32 \<Rightarrow> u32 \<Rightarrow> scalar_4x64" where
  "scalar_const_4x64 d7 d6 d5 d4 d3 d2 d1 d0 =
    Scalar4 (push_bit 32 (ucast d1) OR ucast d0) (push_bit 32 (ucast d3) OR ucast d2)
            (push_bit 32 (ucast d5) OR ucast d4) (push_bit 32 (ucast d7) OR ucast d6)"

definition scalar_limb_4x64 :: "scalar_4x64 \<Rightarrow> u32 \<Rightarrow> u64" where
  "scalar_limb_4x64 a i = [sd0 a, sd1 a, sd2 a, sd3 a] ! unat i"

definition SECP256K1_N_0 :: u64 where "SECP256K1_N_0 = 0xBFD25E8CD0364141"

definition SECP256K1_N_1 :: u64 where "SECP256K1_N_1 = 0xBAAEDCE6AF48A03B"

definition SECP256K1_N_2 :: u64 where "SECP256K1_N_2 = 0xFFFFFFFFFFFFFFFE"

definition SECP256K1_N_3 :: u64 where "SECP256K1_N_3 = 0xFFFFFFFFFFFFFFFF"

definition SECP256K1_N_C_0 :: u64 where "SECP256K1_N_C_0 = NOT SECP256K1_N_0 + 1"

definition SECP256K1_N_C_1 :: u64 where "SECP256K1_N_C_1 = NOT SECP256K1_N_1"

definition SECP256K1_N_C_2 :: u32 where "SECP256K1_N_C_2 = 1"

definition SECP256K1_N_H_0 :: u64 where "SECP256K1_N_H_0 = 0xDFE92F46681B20A0"

definition SECP256K1_N_H_1 :: u64 where "SECP256K1_N_H_1 = 0x5D576E7357A4501D"

definition SECP256K1_N_H_2 :: u64 where "SECP256K1_N_H_2 = 0xFFFFFFFFFFFFFFFF"

definition SECP256K1_N_H_3 :: u64 where "SECP256K1_N_H_3 = 0x7FFFFFFFFFFFFFFF"

subsection \<open>Additive operations\<close>

definition scalar_clear_4x64 :: "scalar_4x64 \<Rightarrow> scalar_4x64" where
  "scalar_clear_4x64 r = r\<lparr>sd0 := 0, sd1 := 0, sd2 := 0, sd3 := 0\<rparr>"

definition scalar_set_int_4x64 :: "u32 \<Rightarrow> scalar_4x64" where
  "scalar_set_int_4x64 v = Scalar4 (ucast v) 0 0 0"

definition scalar_set_u64_4x64 :: "u64 \<Rightarrow> scalar_4x64" where
  "scalar_set_u64_4x64 v = Scalar4 v 0 0 0"

definition scalar_get_bits_4x64 :: "scalar_4x64 \<Rightarrow> u32 \<Rightarrow> u32 \<Rightarrow> u32" where
  "scalar_get_bits_4x64 a offset count =
    ucast (drop_bit (unat (offset AND 0x3F)) (scalar_limb_4x64 a (drop_bit 6 offset))
      AND (push_bit (unat count) 1 - 1))"

definition scalar_get_bits_var_4x64 :: "scalar_4x64 \<Rightarrow> u32 \<Rightarrow> u32 \<Rightarrow> u32" where
  "scalar_get_bits_var_4x64 a offset count =
    (if drop_bit 6 (offset + count - 1) = drop_bit 6 offset
     then scalar_get_bits_4x64 a offset count
     else ucast ((drop_bit (unat (offset AND 0x3F)) (scalar_limb_4x64 a (drop_bit 6 offset))
            OR push_bit (unat (64 - (offset AND 0x3F))) (scalar_limb_4x64 a (drop_bit 6 offset + 1)))
          AND (push_bit (unat count) 1 - 1)))"

definition scalar_check_overflow_4x64 :: "scalar_4x64 \<Rightarrow> u32" where
  "scalar_check_overflow_4x64 a =
    (let yes = 0; no = 0;
         no = no OR of_bool (sd3 a < SECP256K1_N_3);
         no = no OR of_bool (sd2 a < SECP256K1_N_2);
         yes = yes OR (of_bool (sd2 a > SECP256K1_N_2) AND NOT no);
         no = no OR of_bool (sd1 a < SECP256K1_N_1);
         yes = yes OR (of_bool (sd1 a > SECP256K1_N_1) AND NOT no);
         yes = yes OR (of_bool (sd0 a \<ge> SECP256K1_N_0) AND NOT no)
     in yes)"

definition scalar_reduce_4x64 :: "scalar_4x64 \<Rightarrow> u32 \<Rightarrow> u32 \<times> scalar_4x64" where
  "scalar_reduce_4x64 r overflow =
    (let t = (ucast (sd0 r) :: u128) + ucast (ucast overflow * SECP256K1_N_C_0);
         r0 = low64 t; t = drop_bit 64 t;
         t = t + (ucast (sd1 r) + ucast (ucast overflow * SECP256K1_N_C_1));
         r1 = low64 t; t = drop_bit 64 t;
         t = t + (ucast (sd2 r) + ucast (overflow * SECP256K1_N_C_2));
         r2 = low64 t; t = drop_bit 64 t;
         t = t + ucast (sd3 r);
         r3 = low64 t
     in (overflow, Scalar4 r0 r1 r2 r3))"

definition scalar_add_4x64 :: "scalar_4x64 \<Rightarrow> scalar_4x64 \<Rightarrow> u32 \<times> scalar_4x64" where
  "scalar_add_4x64 a b =
    (let t = (ucast (sd0 a) :: u128) + ucast (sd0 b);
         r0 = low64 t; t = drop_bit 64 t;
         t = t + (ucast (sd1 a) + ucast (sd1 b));
         r1 = low64 t; t = drop_bit 64 t;
         t = t + (ucast (sd2 a) + ucast (sd2 b));
         r2 = low64 t; t = drop_bit 64 t;
         t = t + (ucast (sd3 a) + ucast (sd3 b));
         r3 = low64 t; t = drop_bit 64 t;
         r = Scalar4 r0 r1 r2 r3;
         overflow = ucast (t + ucast (scalar_check_overflow_4x64 r));
         (_, r) = scalar_reduce_4x64 r overflow
     in (overflow, r))"

definition scalar_cadd_bit_4x64 :: "scalar_4x64 \<Rightarrow> u32 \<Rightarrow> u32 \<Rightarrow> scalar_4x64" where
  "scalar_cadd_bit_4x64 r bit0 flag =
    (let bit = bit0 + ((flag - 1) AND 0x100);
         t = (ucast (sd0 r) :: u128) + ucast (push_bit (unat (bit AND 0x3F)) (of_bool (drop_bit 6 bit = 0)) :: u64);
         r0 = low64 t; t = drop_bit 64 t;
         t = t + (ucast (sd1 r) + ucast (push_bit (unat (bit AND 0x3F)) (of_bool (drop_bit 6 bit = 1)) :: u64));
         r1 = low64 t; t = drop_bit 64 t;
         t = t + (ucast (sd2 r) + ucast (push_bit (unat (bit AND 0x3F)) (of_bool (drop_bit 6 bit = 2)) :: u64));
         r2 = low64 t; t = drop_bit 64 t;
         t = t + (ucast (sd3 r) + ucast (push_bit (unat (bit AND 0x3F)) (of_bool (drop_bit 6 bit = 3)) :: u64));
         r3 = low64 t
     in Scalar4 r0 r1 r2 r3)"

definition scalar_set_b32_4x64 :: "u8 list \<Rightarrow> u32 \<times> scalar_4x64" where
  "scalar_set_b32_4x64 b32 =
    (let r = Scalar4 (read_be64 b32 24) (read_be64 b32 16) (read_be64 b32 8) (read_be64 b32 0)
     in scalar_reduce_4x64 r (scalar_check_overflow_4x64 r))"

definition scalar_get_b32_4x64 :: "scalar_4x64 \<Rightarrow> u8 list" where
  "scalar_get_b32_4x64 a =
    write_be64 (sd3 a) @ write_be64 (sd2 a) @ write_be64 (sd1 a) @ write_be64 (sd0 a)"

definition scalar_is_zero_4x64 :: "scalar_4x64 \<Rightarrow> bool" where
  "scalar_is_zero_4x64 a \<longleftrightarrow> (sd0 a OR sd1 a OR sd2 a OR sd3 a) = 0"

definition scalar_negate_4x64 :: "scalar_4x64 \<Rightarrow> scalar_4x64" where
  "scalar_negate_4x64 a =
    (let nonzero = (0xFFFFFFFFFFFFFFFF :: u64) * of_bool (\<not> scalar_is_zero_4x64 a);
         t = (ucast (NOT (sd0 a)) :: u128) + ucast SECP256K1_N_0 + 1;
         r0 = ucast (t AND ucast nonzero); t = drop_bit 64 t;
         t = t + (ucast (NOT (sd1 a)) + ucast SECP256K1_N_1);
         r1 = ucast (t AND ucast nonzero); t = drop_bit 64 t;
         t = t + (ucast (NOT (sd2 a)) + ucast SECP256K1_N_2);
         r2 = ucast (t AND ucast nonzero); t = drop_bit 64 t;
         t = t + (ucast (NOT (sd3 a)) + ucast SECP256K1_N_3);
         r3 = ucast (t AND ucast nonzero)
     in Scalar4 r0 r1 r2 r3)"

definition scalar_is_one_4x64 :: "scalar_4x64 \<Rightarrow> bool" where
  "scalar_is_one_4x64 a \<longleftrightarrow> ((sd0 a XOR 1) OR sd1 a OR sd2 a OR sd3 a) = 0"

definition scalar_is_high_4x64 :: "scalar_4x64 \<Rightarrow> u32" where
  "scalar_is_high_4x64 a =
    (let yes = 0; no = 0;
         no = no OR of_bool (sd3 a < SECP256K1_N_H_3);
         yes = yes OR (of_bool (sd3 a > SECP256K1_N_H_3) AND NOT no);
         no = no OR (of_bool (sd2 a < SECP256K1_N_H_2) AND NOT yes);
         no = no OR (of_bool (sd1 a < SECP256K1_N_H_1) AND NOT yes);
         yes = yes OR (of_bool (sd1 a > SECP256K1_N_H_1) AND NOT no);
         yes = yes OR (of_bool (sd0 a > SECP256K1_N_H_0) AND NOT no)
     in yes)"

definition scalar_cond_negate_4x64 :: "scalar_4x64 \<Rightarrow> u32 \<Rightarrow> u32 \<times> scalar_4x64" where
  "scalar_cond_negate_4x64 r flag =
    (let msk = of_bool (flag = 0) - 1 :: u64;
         nonzero = of_bool (scalar_is_zero_4x64 r) - 1 :: u64;
         t = (ucast (sd0 r XOR msk) :: u128) + ucast ((SECP256K1_N_0 + 1) AND msk);
         r0 = ucast (t AND ucast nonzero); t = drop_bit 64 t;
         t = t + (ucast (sd1 r XOR msk) + ucast (SECP256K1_N_1 AND msk));
         r1 = ucast (t AND ucast nonzero); t = drop_bit 64 t;
         t = t + (ucast (sd2 r XOR msk) + ucast (SECP256K1_N_2 AND msk));
         r2 = ucast (t AND ucast nonzero); t = drop_bit 64 t;
         t = t + (ucast (sd3 r XOR msk) + ucast (SECP256K1_N_3 AND msk));
         r3 = ucast (t AND ucast nonzero)
     in (2 * of_bool (msk = 0) - 1, Scalar4 r0 r1 r2 r3))"

subsection \<open>The accumulator macros and the multiplicative operations\<close>

text \<open>The macros of the C code keep a 160 bit (in \<open>mul_512\<close>, \<open>sqr_512\<close>) or 192 bit (in \<open>reduce_512\<close>) accumulator in the variables \<open>c0\<close>, \<open>c1\<close>, \<open>c2\<close>; it is a triple here, and each macro is a function on it. \<open>extract_limb\<close> is the macro \<open>extract\<close>.\<close>

type_synonym 'c acc = "u64 \<times> u64 \<times> 'c word"

definition muladd :: "u64 \<Rightarrow> u64 \<Rightarrow> ('c::len) acc \<Rightarrow> 'c acc" where
  "muladd a b = (\<lambda>(c0, c1, c2).
    let t = (ucast a :: u128) * ucast b;
        th = ucast (drop_bit 64 t) :: u64;
        tl = ucast t :: u64;
        c0 = c0 + tl;
        th = th + (if c0 < tl then 1 else 0);
        c1 = c1 + th;
        c2 = c2 + (if c1 < th then 1 else 0)
    in (c0, c1, c2))"

definition muladd_fast :: "u64 \<Rightarrow> u64 \<Rightarrow> ('c::len) acc \<Rightarrow> 'c acc" where
  "muladd_fast a b = (\<lambda>(c0, c1, c2).
    let t = (ucast a :: u128) * ucast b;
        th = ucast (drop_bit 64 t) :: u64;
        tl = ucast t :: u64;
        c0 = c0 + tl;
        th = th + (if c0 < tl then 1 else 0);
        c1 = c1 + th
    in (c0, c1, c2))"

definition muladd2 :: "u64 \<Rightarrow> u64 \<Rightarrow> ('c::len) acc \<Rightarrow> 'c acc" where
  "muladd2 a b = (\<lambda>(c0, c1, c2).
    let t = (ucast a :: u128) * ucast b;
        th = ucast (drop_bit 64 t) :: u64;
        tl = ucast t :: u64;
        th2 = th + th;
        c2 = c2 + (if th2 < th then 1 else 0);
        tl2 = tl + tl;
        th2 = th2 + (if tl2 < tl then 1 else 0);
        c0 = c0 + tl2;
        th2 = th2 + (if c0 < tl2 then 1 else 0);
        c2 = c2 + of_bool (c0 < tl2 \<and> th2 = 0);
        c1 = c1 + th2;
        c2 = c2 + (if c1 < th2 then 1 else 0)
    in (c0, c1, c2))"

definition sumadd :: "u64 \<Rightarrow> ('c::len) acc \<Rightarrow> 'c acc" where
  "sumadd a = (\<lambda>(c0, c1, c2).
    let c0 = c0 + a;
        over = (if c0 < a then 1 else 0 :: u32);
        c1 = c1 + ucast over;
        c2 = c2 + (if c1 < ucast over then 1 else 0)
    in (c0, c1, c2))"

definition sumadd_fast :: "u64 \<Rightarrow> ('c::len) acc \<Rightarrow> 'c acc" where
  "sumadd_fast a = (\<lambda>(c0, c1, c2).
    let c0 = c0 + a;
        c1 = c1 + (if c0 < a then 1 else 0)
    in (c0, c1, c2))"

definition extract_limb :: "('c::len) acc \<Rightarrow> u64 \<times> 'c acc" where
  "extract_limb = (\<lambda>(c0, c1, c2). (c0, (c1, ucast c2, 0)))"

definition extract_fast :: "('c::len) acc \<Rightarrow> u64 \<times> 'c acc" where
  "extract_fast = (\<lambda>(c0, c1, c2). (c0, (c1, 0, c2)))"

text \<open>The reduction of a 512 bit value is one C function; its first two passes are definitions of their own.\<close>

definition scalar_reduce_512_m_4x64 :: "u64 list \<Rightarrow> u64 list \<times> u32" where
  "scalar_reduce_512_m_4x64 l =
    (let n0 = l ! 4; n1 = l ! 5; n2 = l ! 6; n3 = l ! 7;
         c = (l ! 0, 0, 0) :: 64 acc;
         c = muladd_fast n0 SECP256K1_N_C_0 c;
         (m0, c) = extract_fast c;
         c = sumadd_fast (l ! 1) c;
         c = muladd n1 SECP256K1_N_C_0 c;
         c = muladd n0 SECP256K1_N_C_1 c;
         (m1, c) = extract_limb c;
         c = sumadd (l ! 2) c;
         c = muladd n2 SECP256K1_N_C_0 c;
         c = muladd n1 SECP256K1_N_C_1 c;
         c = sumadd n0 c;
         (m2, c) = extract_limb c;
         c = sumadd (l ! 3) c;
         c = muladd n3 SECP256K1_N_C_0 c;
         c = muladd n2 SECP256K1_N_C_1 c;
         c = sumadd n1 c;
         (m3, c) = extract_limb c;
         c = muladd n3 SECP256K1_N_C_1 c;
         c = sumadd n2 c;
         (m4, c) = extract_limb c;
         c = sumadd_fast n3 c;
         (m5, c) = extract_fast c;
         m6 = ucast (fst c)
     in ([m0, m1, m2, m3, m4, m5], m6))"

definition scalar_reduce_512_p_4x64 :: "u64 list \<times> u32 \<Rightarrow> u64 list \<times> u32" where
  "scalar_reduce_512_p_4x64 = (\<lambda>(m, m6).
    let c = (m ! 0, 0, 0) :: 64 acc;
        c = muladd_fast (m ! 4) SECP256K1_N_C_0 c;
        (p0, c) = extract_fast c;
        c = sumadd_fast (m ! 1) c;
        c = muladd (m ! 5) SECP256K1_N_C_0 c;
        c = muladd (m ! 4) SECP256K1_N_C_1 c;
        (p1, c) = extract_limb c;
        c = sumadd (m ! 2) c;
        c = muladd (ucast m6) SECP256K1_N_C_0 c;
        c = muladd (m ! 5) SECP256K1_N_C_1 c;
        c = sumadd (m ! 4) c;
        (p2, c) = extract_limb c;
        c = sumadd_fast (m ! 3) c;
        c = muladd_fast (ucast m6) SECP256K1_N_C_1 c;
        c = sumadd_fast (m ! 5) c;
        (p3, c) = extract_fast c;
        p4 = ucast (fst c + ucast m6)
    in ([p0, p1, p2, p3], p4))"

definition scalar_reduce_512_4x64 :: "u64 list \<Rightarrow> scalar_4x64" where
  "scalar_reduce_512_4x64 l =
    (let (p, p4) = scalar_reduce_512_p_4x64 (scalar_reduce_512_m_4x64 l);
         c = (ucast (p ! 0) :: u128) + ucast SECP256K1_N_C_0 * ucast p4;
         r0 = low64 c; c = drop_bit 64 c;
         c = c + (ucast (p ! 1) + ucast SECP256K1_N_C_1 * ucast p4);
         r1 = low64 c; c = drop_bit 64 c;
         c = c + (ucast (p ! 2) + ucast p4);
         r2 = low64 c; c = drop_bit 64 c;
         c = c + ucast (p ! 3);
         r3 = low64 c; c = drop_bit 64 c;
         r = Scalar4 r0 r1 r2 r3
     in snd (scalar_reduce_4x64 r (ucast (c + ucast (scalar_check_overflow_4x64 r)))))"

definition scalar_mul_512_4x64 :: "scalar_4x64 \<Rightarrow> scalar_4x64 \<Rightarrow> u64 list" where
  "scalar_mul_512_4x64 a b =
    (let c = (0, 0, 0) :: 32 acc;
         c = muladd_fast (sd0 a) (sd0 b) c;
         (l0, c) = extract_fast c;
         c = muladd (sd0 a) (sd1 b) c;
         c = muladd (sd1 a) (sd0 b) c;
         (l1, c) = extract_limb c;
         c = muladd (sd0 a) (sd2 b) c;
         c = muladd (sd1 a) (sd1 b) c;
         c = muladd (sd2 a) (sd0 b) c;
         (l2, c) = extract_limb c;
         c = muladd (sd0 a) (sd3 b) c;
         c = muladd (sd1 a) (sd2 b) c;
         c = muladd (sd2 a) (sd1 b) c;
         c = muladd (sd3 a) (sd0 b) c;
         (l3, c) = extract_limb c;
         c = muladd (sd1 a) (sd3 b) c;
         c = muladd (sd2 a) (sd2 b) c;
         c = muladd (sd3 a) (sd1 b) c;
         (l4, c) = extract_limb c;
         c = muladd (sd2 a) (sd3 b) c;
         c = muladd (sd3 a) (sd2 b) c;
         (l5, c) = extract_limb c;
         c = muladd_fast (sd3 a) (sd3 b) c;
         (l6, c) = extract_fast c;
         l7 = fst c
     in [l0, l1, l2, l3, l4, l5, l6, l7])"

definition scalar_sqr_512_4x64 :: "scalar_4x64 \<Rightarrow> u64 list" where
  "scalar_sqr_512_4x64 a =
    (let c = (0, 0, 0) :: 32 acc;
         c = muladd_fast (sd0 a) (sd0 a) c;
         (l0, c) = extract_fast c;
         c = muladd2 (sd0 a) (sd1 a) c;
         (l1, c) = extract_limb c;
         c = muladd2 (sd0 a) (sd2 a) c;
         c = muladd (sd1 a) (sd1 a) c;
         (l2, c) = extract_limb c;
         c = muladd2 (sd0 a) (sd3 a) c;
         c = muladd2 (sd1 a) (sd2 a) c;
         (l3, c) = extract_limb c;
         c = muladd2 (sd1 a) (sd3 a) c;
         c = muladd (sd2 a) (sd2 a) c;
         (l4, c) = extract_limb c;
         c = muladd2 (sd2 a) (sd3 a) c;
         (l5, c) = extract_limb c;
         c = muladd_fast (sd3 a) (sd3 a) c;
         (l6, c) = extract_fast c;
         l7 = fst c
     in [l0, l1, l2, l3, l4, l5, l6, l7])"

definition scalar_mul_4x64 :: "scalar_4x64 \<Rightarrow> scalar_4x64 \<Rightarrow> scalar_4x64" where
  "scalar_mul_4x64 a b = scalar_reduce_512_4x64 (scalar_mul_512_4x64 a b)"

definition scalar_shr_int_4x64 :: "scalar_4x64 \<Rightarrow> u32 \<Rightarrow> u32 \<times> scalar_4x64" where
  "scalar_shr_int_4x64 r n =
    (let ret = ucast (sd0 r AND ucast (push_bit (unat n) 1 - 1 :: u32));
         r0 = drop_bit (unat n) (sd0 r) + push_bit (unat (64 - n)) (sd1 r);
         r1 = drop_bit (unat n) (sd1 r) + push_bit (unat (64 - n)) (sd2 r);
         r2 = drop_bit (unat n) (sd2 r) + push_bit (unat (64 - n)) (sd3 r);
         r3 = drop_bit (unat n) (sd3 r)
     in (ret, Scalar4 r0 r1 r2 r3))"

definition scalar_sqr_4x64 :: "scalar_4x64 \<Rightarrow> scalar_4x64" where
  "scalar_sqr_4x64 a = scalar_reduce_512_4x64 (scalar_sqr_512_4x64 a)"

definition scalar_split_128_4x64 :: "scalar_4x64 \<Rightarrow> scalar_4x64 \<times> scalar_4x64" where
  "scalar_split_128_4x64 a = (Scalar4 (sd0 a) (sd1 a) 0 0, Scalar4 (sd2 a) (sd3 a) 0 0)"

definition scalar_eq_4x64 :: "scalar_4x64 \<Rightarrow> scalar_4x64 \<Rightarrow> bool" where
  "scalar_eq_4x64 a b \<longleftrightarrow>
    ((sd0 a XOR sd0 b) OR (sd1 a XOR sd1 b) OR (sd2 a XOR sd2 b) OR (sd3 a XOR sd3 b)) = 0"

definition scalar_mul_shift_var_4x64 :: "scalar_4x64 \<Rightarrow> scalar_4x64 \<Rightarrow> u32 \<Rightarrow> scalar_4x64" where
  "scalar_mul_shift_var_4x64 a b shift =
    (let l = scalar_mul_512_4x64 a b;
         shiftlimbs = unat (drop_bit 6 shift);
         shiftlow = shift AND 0x3F;
         lo = unat shiftlow;
         shifthigh = unat (64 - shiftlow);
         r0 = (if shift < 512 then drop_bit lo (l ! (0 + shiftlimbs)) OR
                 (if shift < 448 \<and> shiftlow \<noteq> 0 then push_bit shifthigh (l ! (1 + shiftlimbs)) else 0) else 0);
         r1 = (if shift < 448 then drop_bit lo (l ! (1 + shiftlimbs)) OR
                 (if shift < 384 \<and> shiftlow \<noteq> 0 then push_bit shifthigh (l ! (2 + shiftlimbs)) else 0) else 0);
         r2 = (if shift < 384 then drop_bit lo (l ! (2 + shiftlimbs)) OR
                 (if shift < 320 \<and> shiftlow \<noteq> 0 then push_bit shifthigh (l ! (3 + shiftlimbs)) else 0) else 0);
         r3 = (if shift < 320 then drop_bit lo (l ! (3 + shiftlimbs)) else 0)
     in scalar_cadd_bit_4x64 (Scalar4 r0 r1 r2 r3) 0
          (ucast (drop_bit (unat ((shift - 1) AND 0x3F)) (l ! unat (drop_bit 6 (shift - 1))) AND 1)))"

definition scalar_is_even_4x64 :: "scalar_4x64 \<Rightarrow> bool" where
  "scalar_is_even_4x64 a \<longleftrightarrow> sd0 a AND 1 = 0"

definition scalar_ops_4x64 :: "scalar_4x64 scalar_ops" where
  "scalar_ops_4x64 =
    \<lparr>sc_add = scalar_add_4x64, sc_mul = scalar_mul_4x64, sc_sqr = scalar_sqr_4x64,
     sc_mul_shift_var = scalar_mul_shift_var_4x64, sc_const = scalar_const_4x64\<rparr>"

subsection \<open>What the operations mean\<close>

text \<open>\<open>scalar_val\<close> reads the limbs as an integer; \<open>scalar_ok\<close> is the invariant of the type, a value below the group order.\<close>

definition scalar_limbs :: "scalar_4x64 \<Rightarrow> u64 list" where
  "scalar_limbs a = [sd0 a, sd1 a, sd2 a, sd3 a]"

definition scalar_val :: "scalar_4x64 \<Rightarrow> int" where
  "scalar_val a = limbs_val 64 (scalar_limbs a)"

definition scalar_ok :: "scalar_4x64 \<Rightarrow> bool" where
  "scalar_ok a \<longleftrightarrow> scalar_val a < order_n"

definition acc_val :: "('c::len) acc \<Rightarrow> int" where
  "acc_val = (\<lambda>(c0, c1, c2). uint c0 + 2 ^ 64 * uint c1 + 2 ^ 128 * uint c2)"

definition acc_is :: "('c::len) acc \<Rightarrow> int \<Rightarrow> int \<Rightarrow> bool" where
  "acc_is c V B \<longleftrightarrow> acc_val c = V \<and> V \<le> B"

text \<open>\<open>adds f x D\<close>: the step \<open>f\<close> adds \<open>x\<close>, at most \<open>D\<close>, to any accumulator with room for it. \<open>columns\<close> runs one step per output limb and extracts the limb after each.\<close>

definition adds :: "(('c::len) acc \<Rightarrow> 'c acc) \<Rightarrow> int \<Rightarrow> int \<Rightarrow> bool" where
  "adds f x D \<longleftrightarrow> (\<forall>c V B. acc_is c V B \<longrightarrow> B + D < 2 ^ (128 + LENGTH('c)) \<longrightarrow> acc_is (f c) (V + x) (B + D))"

fun columns :: "(('c::len) acc \<Rightarrow> 'c acc) list \<Rightarrow> 'c acc \<Rightarrow> u64 list \<times> 'c acc" where
  "columns [] c = ([], c)"
| "columns (f # fs) c = (let (n, c) = extract_limb (f c); (ns, c) = columns fs c in (n # ns, c))"

fun horner :: "int \<Rightarrow> int list \<Rightarrow> int" where
  "horner M [] = 0"
| "horner M (x # xs) = x + M * horner M xs"

subsection \<open>Comparison with the order, addition, negation\<close>

lemmas N_limbs = SECP256K1_N_0_def SECP256K1_N_1_def SECP256K1_N_2_def SECP256K1_N_3_def

lemma order_n_limbs:
  "order_n = limbs_val 64 [SECP256K1_N_0, SECP256K1_N_1, SECP256K1_N_2, SECP256K1_N_3]"
  by (simp add: order_n_def N_limbs limbs_val_Cons)

lemmas limbs_val_cmp_64 =
  limbs_val_le_Cons [where 'a = 64, simplified] limbs_val_less_Cons [where 'a = 64, simplified] 
   limbs_val_eq_Cons [where 'a = 64, simplified]

lemma N_3_max: "x < SECP256K1_N_3 \<longleftrightarrow> x \<noteq> SECP256K1_N_3" "\<not> SECP256K1_N_3 < x"
  using uint64_le [of x] by (auto simp add: SECP256K1_N_3_def word_less_def word_uint_eq_iff order_less_le)

lemma check_overflow: "scalar_check_overflow_4x64 a = of_bool (order_n \<le> scalar_val a)"
  unfolding order_n_limbs scalar_val_def scalar_limbs_def
  by (cases "sd2 a" SECP256K1_N_2 rule: linorder_cases;
      cases "sd1 a" SECP256K1_N_1 rule: linorder_cases)
     (auto simp: scalar_check_overflow_4x64_def Let_def limbs_val_cmp_64 N_3_max not_less)

lemma N_C_denotes:
  "denotes SECP256K1_N_C_0 4624529908474429119 4624529908474429119"
  "denotes SECP256K1_N_C_1 4994812053365940164 4994812053365940164"
  "denotes SECP256K1_N_C_2 1 1"
  by (simp_all add: denotes_def SECP256K1_N_C_0_def SECP256K1_N_C_1_def SECP256K1_N_C_2_def N_limbs)

lemma reduce_val:
  assumes "uint overflow \<le> 1"
  shows "scalar_val (snd (scalar_reduce_4x64 r overflow)) =
    (scalar_val r + uint overflow * (2 ^ 256 - order_n)) mod 2 ^ 256"
proof -
  let ?o = "uint overflow"
  let ?x0 = "ucast (sd0 r) + ucast (ucast overflow * SECP256K1_N_C_0) :: u128"
  let ?x1 = "ucast (sd1 r) + ucast (ucast overflow * SECP256K1_N_C_1) :: u128"
  let ?x2 = "ucast (sd2 r) + ucast (overflow * SECP256K1_N_C_2) :: u128"
  let ?x3 = "ucast (sd3 r) :: u128"
  note ov = denotes_self [OF assms]
  have x0: "denotes ?x0 (uint (sd0 r) + ?o * 4624529908474429119) (2 ^ 126)"
    by (rule denotes_weaken) (rule ov N_C_denotes denotes_intros | simp)+
  have x1: "denotes ?x1 (uint (sd1 r) + ?o * 4994812053365940164) (2 ^ 126)"
    by (rule denotes_weaken) (rule ov N_C_denotes denotes_intros | simp)+
  have x2: "denotes ?x2 (uint (sd2 r) + ?o * 1) (2 ^ 126)"
    by (rule denotes_weaken) (rule ov N_C_denotes denotes_intros | simp)+
  have x3: "denotes ?x3 (uint (sd3 r)) (2 ^ 126)"
    by (rule denotes_weaken) (rule denotes_intros | simp)+
  have "scalar_val (snd (scalar_reduce_4x64 r overflow)) =
    (uint ?x0 + 2 ^ 64 * uint ?x1 + 2 ^ 128 * uint ?x2 + 2 ^ 192 * uint ?x3) mod 2 ^ 256"
    using carry_chain4_mod(1) [of ?x1 ?x2 ?x3 ?x0] x1 x2 x3
    by (simp add: scalar_reduce_4x64_def Let_def scalar_val_def scalar_limbs_def denotes_def)
  then show ?thesis
    unfolding x0 [THEN denotes_uint] x1 [THEN denotes_uint] x2 [THEN denotes_uint] x3 [THEN denotes_uint]
    by (simp add: scalar_val_def scalar_limbs_def limbs_val_Cons order_n_def algebra_simps)
qed

lemma scalar_val_bounds: "0 \<le> scalar_val a" "scalar_val a < 2 ^ 256"
  using limbs_val_bound [of "scalar_limbs a"] 
  by (simp_all add: scalar_val_def limbs_val_nonneg scalar_limbs_def)

lemma final_reduce:
  fixes c :: u128
  assumes V: "scalar_val r + 2 ^ 256 * uint c = V" "V < 2 * order_n"
  defines "ov \<equiv> (ucast (c + ucast (scalar_check_overflow_4x64 r)) :: u32)"
  shows "ov = of_bool (order_n \<le> V)"
    and "scalar_val (snd (scalar_reduce_4x64 r ov)) = V mod order_n"
proof -
  have V0: "0 \<le> V" unfolding V(1) [symmetric] using scalar_val_bounds [of r] by simp
  have c: "uint c = 0 \<or> uint c = 1"
    using V scalar_val_bounds [of r] uint_ge_0 [of c] by (simp add: order_n_def; linarith)
  then show ov: "ov = of_bool (order_n \<le> V)"
  proof
    assume "uint c = 0"
    then show ?thesis using V by (auto simp: ov_def check_overflow unsigned_eq_0_iff)
  next
    assume "uint c = 1"
    then have "c = 1" by (simp add: word_uint_eq_iff)
    then show ?thesis using V scalar_val_bounds [of r] by (simp add: ov_def check_overflow order_n_def)
  qed
  have "scalar_val (snd (scalar_reduce_4x64 r ov)) = (scalar_val r + of_bool (order_n \<le> V) * (2 ^ 256 - order_n)) mod 2 ^ 256"
    using reduce_val [of ov r] by (simp add: ov)
  also have "\<dots> = (scalar_val r + of_bool (order_n \<le> V) * (2 ^ 256 - order_n) + 2 ^ 256 * uint c) mod 2 ^ 256"
    by (simp only: mod_mult_self2)
  also have "\<dots> = (V + of_bool (order_n \<le> V) * (2 ^ 256 - order_n)) mod 2 ^ 256"
    by (simp only: V(1) [symmetric] ac_simps)
  finally show "scalar_val (snd (scalar_reduce_4x64 r ov)) = V mod order_n"
    using mod_order_cond [OF V0 V(2)] by simp
qed

lemma uint_ucast_add64:
  "uint (ucast x + ucast y :: u128) = uint x + uint y" for x y :: u64
  using uint64_le [of x] uint64_le [of y] by (simp add: uint_word_ariths)

lemma uint_ucast_add64_less: "uint (ucast x + ucast y :: u128) < 2 ^ 127" for x y :: u64
  unfolding uint_ucast_add64 using uint64_le [of x] uint64_le [of y] by simp

lemma scalar_add_correct:
  assumes "scalar_ok a" "scalar_ok b"
  shows "fst (scalar_add_4x64 a b) = of_bool (order_n \<le> scalar_val a + scalar_val b)" (is ?A)
    and "scalar_val (snd (scalar_add_4x64 a b)) = (scalar_val a + scalar_val b) mod order_n" (is ?B)
proof -
  let ?x0 = "ucast (sd0 a) + ucast (sd0 b) :: u128"
  let ?x1 = "ucast (sd1 a) + ucast (sd1 b) :: u128"
  let ?x2 = "ucast (sd2 a) + ucast (sd2 b) :: u128"
  let ?x3 = "ucast (sd3 a) + ucast (sd3 b) :: u128"
  let ?t1 = "drop_bit 64 ?x0 + ?x1"
  let ?t2 = "drop_bit 64 ?t1 + ?x2"
  let ?t3 = "drop_bit 64 ?t2 + ?x3"
  define r where "r = Scalar4 (low64 ?x0) (low64 ?t1) (low64 ?t2) (low64 ?t3)"
  define ov where "ov = (ucast (drop_bit 64 ?t3 + ucast (scalar_check_overflow_4x64 r)) :: u32)"
  let ?V = "scalar_val a + scalar_val b"
  have "scalar_val r + 2 ^ 256 * uint (drop_bit 64 ?t3) = ?V"
    unfolding r_def scalar_val_def scalar_limbs_def scalar_4x64.select_convs
      carry_chain4 [OF uint_ucast_add64_less uint_ucast_add64_less uint_ucast_add64_less]
    by (simp add: uint_ucast_add64 limbs_val_Cons)
  moreover have "?V < 2 * order_n"
    using assms by (simp add: scalar_ok_def)
  ultimately have "ov = of_bool (order_n \<le> ?V)" "scalar_val (snd (scalar_reduce_4x64 r ov)) = ?V mod order_n"
    unfolding ov_def by (fact final_reduce)+
  moreover have "scalar_add_4x64 a b = (ov, snd (scalar_reduce_4x64 r ov))"
    by (simp only: scalar_add_4x64_def Let_def ov_def r_def case_prod_beta)
  ultimately show ?A ?B by simp_all
qed

lemma is_zero_iff: "scalar_is_zero_4x64 a \<longleftrightarrow> scalar_val a = 0"
proof -
  have "scalar_val a = 0 \<longleftrightarrow> sd0 a = 0 \<and> sd1 a = 0 \<and> sd2 a = 0 \<and> sd3 a = 0"
    using limbs_val_eq_Cons [where 'a = 64]
    by (auto simp: scalar_val_def scalar_limbs_def limbs_val_Cons add_nonneg_eq_0_iff unsigned_eq_0_iff)
  then show ?thesis
    by (simp add: scalar_is_zero_4x64_def or_eq_0_iff)
qed

lemma scalar_val_inject: "scalar_val a = scalar_val b \<longleftrightarrow> a = b"
  by (auto simp: scalar_val_def scalar_limbs_def limbs_val_cmp_64)

lemma is_one_iff: "scalar_is_one_4x64 a \<longleftrightarrow> scalar_val a = 1"
  using scalar_val_inject [of a "Scalar4 1 0 0 0"]
  by (auto simp: scalar_is_one_4x64_def or_eq_0_iff word_xor_eq_0_iff scalar_val_def scalar_limbs_def limbs_val_Cons)

lemma scalar_negate_correct:
  assumes "scalar_ok a"
  shows "scalar_val (scalar_negate_4x64 a) = (- scalar_val a) mod order_n"
proof (cases "scalar_is_zero_4x64 a")
  case True
  then show ?thesis
    by (simp add: scalar_negate_4x64_def Let_def) (simp add: is_zero_iff scalar_val_def scalar_limbs_def limbs_val_Cons)
next
  case False
  let ?x0 = "ucast (NOT (sd0 a)) + ucast SECP256K1_N_0 + 1 :: u128"
  let ?x1 = "ucast (NOT (sd1 a)) + ucast SECP256K1_N_1 :: u128"
  let ?x2 = "ucast (NOT (sd2 a)) + ucast SECP256K1_N_2 :: u128"
  let ?x3 = "ucast (NOT (sd3 a)) + ucast SECP256K1_N_3 :: u128"
  have x0: "uint ?x0 = 0xFFFFFFFFFFFFFFFF - uint (sd0 a) + uint SECP256K1_N_0 + 1"
    using uint_gt [of "sd0 a"] uint64_le [of "sd0 a"]
    by (simp add: uint_plus_if' uint_ucast_add64 uint_not64 N_limbs)
  have "scalar_val (scalar_negate_4x64 a) =
     (uint ?x0 + 2 ^ 64 * uint ?x1 + 2 ^ 128 * uint ?x2 + 2 ^ 192 * uint ?x3) mod 2 ^ 256"
    unfolding scalar_negate_4x64_def Let_def scalar_val_def scalar_limbs_def scalar_4x64.select_convs
    using carry_chain4_mod(1) [OF uint_ucast_add64_less uint_ucast_add64_less uint_ucast_add64_less, 
      of ?x0 "NOT (sd1 a)" SECP256K1_N_1 "NOT (sd2 a)" SECP256K1_N_2 "NOT (sd3 a)" SECP256K1_N_3] False
    by simp
  also have "\<dots> = (2 ^ 256 + order_n - scalar_val a) mod 2 ^ 256"
    unfolding x0 uint_ucast_add64 uint_not64 order_n_limbs scalar_val_def scalar_limbs_def
    by (simp add: limbs_val_Cons algebra_simps)
  also have "\<dots> = order_n - scalar_val a"
    by (rule div_mod_unique_int(1) [of _ _ 1])
       (use assms scalar_val_bounds [of a] False in \<open>simp_all add: scalar_ok_def is_zero_iff order_n_def\<close>)
  also have "\<dots> = (- scalar_val a) mod order_n"
    by (rule div_mod_unique_int(1) [of _ _ "-1", symmetric])
       (use assms scalar_val_bounds [of a] False in \<open>simp_all add: scalar_ok_def is_zero_iff\<close>)
  finally show ?thesis .
qed

lemma low64_ucast [simp]: "low64 (ucast x) = x" "drop_bit 64 (ucast x :: u128) = 0" for x :: u64
proof -
  show "drop_bit 64 (ucast x :: u128) = 0"
    using uint64_le [of x] by (simp add: word_uint_eq_iff uint_drop_bit)
  then show "low64 (ucast x) = x"
    using low64_split [of "ucast x"] by (simp add: word_uint_eq_iff [where a = "low64 _"])
qed

lemma cond_negate_eq:
  "scalar_cond_negate_4x64 r flag = (if flag = 0 then (1, r) else (-1, scalar_negate_4x64 r))"
proof (cases "flag = 0")
  case True
  then show ?thesis
    by (auto simp add: ucast_minus1 scalar_cond_negate_4x64_def Let_def scalar_is_zero_4x64_def or_eq_0_iff)
next
  case False
  have "ucast (SECP256K1_N_0 + 1) = (ucast SECP256K1_N_0 + 1 :: u128)" by (simp add: N_limbs)
  with False show ?thesis
    by (simp add: ucast_minus1 scalar_cond_negate_4x64_def scalar_negate_4x64_def Let_def add.assoc)
qed

lemmas N_H_limbs = SECP256K1_N_H_0_def SECP256K1_N_H_1_def SECP256K1_N_H_2_def SECP256K1_N_H_3_def

lemma half_order_limbs:
  "half_order = limbs_val 64 [SECP256K1_N_H_0, SECP256K1_N_H_1, SECP256K1_N_H_2, SECP256K1_N_H_3]"
  by (simp add: half_order_def N_H_limbs limbs_val_Cons)

lemma N_H_2_eq: "SECP256K1_N_H_2 = SECP256K1_N_3"
  by (simp add: N_limbs N_H_limbs)

lemma scalar_is_high_iff: "scalar_is_high_4x64 a = of_bool (half_order < scalar_val a)"
  unfolding half_order_limbs scalar_val_def scalar_limbs_def
  by (cases "sd3 a" SECP256K1_N_H_3 rule: linorder_cases;
      cases "sd1 a" SECP256K1_N_H_1 rule: linorder_cases)
     (auto simp: scalar_is_high_4x64_def Let_def limbs_val_cmp_64 N_H_2_eq N_3_max not_less)

lemma be_val_take32:
  assumes "length b = 32"
  shows "be_val b = limbs_val 64 [read_be64 b 24, read_be64 b 16, read_be64 b 8, read_be64 b 0]"
proof -
  have b: "b = map (\<lambda>i. b ! i) [0..<32]" using assms by (metis map_nth)
  have u: "[0..<32] = [0,1,2,3,4,5,6,7,8,9,10,11,12,13,14,15,16,17,18,19,20,21,22,23,24,25,26,27,28,29,30,31]"
    by (simp add: upt_rec)
  show ?thesis
    by (subst b, unfold u) (simp add: limbs_val_Cons uint_read_be64 be_val_Cons numeral_2_eq_2)
qed

lemma scalar_set_b32_correct:
  assumes "length b = 32"
  shows "fst (scalar_set_b32_4x64 b) = of_bool (order_n \<le> be_val b)"
    and "scalar_val (snd (scalar_set_b32_4x64 b)) = be_val b mod order_n"
proof -
  let ?r = "Scalar4 (read_be64 b 24) (read_be64 b 16) (read_be64 b 8) (read_be64 b 0)"
  have v: "scalar_val ?r = be_val b"
    by (simp add: be_val_take32 [OF assms] scalar_val_def scalar_limbs_def)
  have "be_val b < 2 * order_n"
    using be_val_bounds(2) [of b] assms by (simp add: order_n_def)
  then have "scalar_check_overflow_4x64 ?r = of_bool (order_n \<le> be_val b)" 
    and "scalar_val (snd (scalar_reduce_4x64 ?r (scalar_check_overflow_4x64 ?r))) = be_val b mod order_n"
    using final_reduce [of ?r 0 "be_val b"] v by (simp_all add: check_overflow)
  moreover have "fst (scalar_reduce_4x64 r x) = x" for r x
    by (simp add: scalar_reduce_4x64_def Let_def)
  ultimately show "fst (scalar_set_b32_4x64 b) = of_bool (order_n \<le> be_val b)"
    and "scalar_val (snd (scalar_set_b32_4x64 b)) = be_val b mod order_n"
    by (simp_all add: scalar_set_b32_4x64_def Let_def)
qed

lemma scalar_get_b32_correct: "be_val (scalar_get_b32_4x64 a) = scalar_val a" "length (scalar_get_b32_4x64 a) = 32"
proof -
  have l: "length (write_be64 x) = 8" for x by (simp add: write_be64_def)
  show "length (scalar_get_b32_4x64 a) = 32" by (simp add: scalar_get_b32_4x64_def l)
  show "be_val (scalar_get_b32_4x64 a) = scalar_val a"
    by (simp add: scalar_get_b32_4x64_def be_val_append l be_val_write_be64 scalar_val_def scalar_limbs_def limbs_val_Cons)
qed

lemma bit_scalar_val:
  "bit (scalar_val a) k \<longleftrightarrow> k < 256 \<and> bit (scalar_limbs a ! (k div 64)) (k mod 64)"
  using bit_limbs_val [of "scalar_limbs a" k] by (simp add: scalar_val_def scalar_limbs_def)

lemma scalar_limb_nth: "scalar_limb_4x64 a i = scalar_limbs a ! unat i"
  by (simp add: scalar_limb_4x64_def scalar_limbs_def)

lemma scalar_get_bits_correct:
  assumes "unat offset mod 64 + unat count \<le> 64" "unat count \<le> 32" "unat offset + unat count \<le> 256"
  shows "uint (scalar_get_bits_4x64 a offset count) = scalar_val a div 2 ^ unat offset mod 2 ^ unat count"
proof -
  have "uint (scalar_get_bits_4x64 a offset count) = take_bit (unat count) (drop_bit (unat offset) (scalar_val a))"
  proof (rule bit_eqI)
    fix n
    have "(unat offset + n) div 64 = unat offset div 64 \<and> (unat offset + n) mod 64 = unat offset mod 64 + n" if "n < unat count"
      using that assms by (intro conjI div_mod_add_nat) simp_all
    then show "bit (uint (scalar_get_bits_4x64 a offset count)) n = bit (take_bit (unat count) (drop_bit (unat offset) (scalar_val a))) n"
      using assms unfolding scalar_get_bits_4x64_def push_bit_minus_1
      by (auto simp: bit_simps bit_scalar_val scalar_limb_nth unat_drop_bit unat_and_3F)
  qed
  then show ?thesis by (simp add: take_bit_eq_mod drop_bit_eq_div)
qed

lemma scalar_get_bits_var_correct:
  assumes "0 < unat count" "unat count < 32" "unat offset + unat count \<le> 256"
  shows "uint (scalar_get_bits_var_4x64 a offset count) = scalar_val a div 2 ^ unat offset mod 2 ^ unat count"
proof -
  have "unat (offset + count - 1) = unat offset + unat count - 1"
    using assms by (simp add: unat_word_ariths unat_sub_if')
  then have same: "drop_bit 6 (offset + count - 1) = drop_bit 6 offset \<longleftrightarrow> (unat offset + unat count - 1) div 64 = unat offset div 64"
    by (simp add: word_unat_eq_iff unat_drop_bit)
  show ?thesis
  proof (cases "unat offset mod 64 + unat count \<le> 64")
    case True
    then have "(unat offset + (unat count - 1)) div 64 = unat offset div 64"
      using assms by (intro div_mod_add_nat) simp
    then show ?thesis
      using scalar_get_bits_correct [OF True _ assms(3)] assms same by (simp add: scalar_get_bits_var_4x64_def)
  next
    case False
    define q r where "q = unat offset div 64" and "r = unat offset mod 64"
    have o: "unat offset = 64 * q + r" "r < 64" unfolding q_def r_def by simp_all
    have cross: "(64 * q + r + n) div 64 = q + 1" "(64 * q + r + n) mod 64 = n + r - 64" if "64 \<le> r + n" "r + n < 128" for n
    proof -
      show d: "(64 * q + r + n) div 64 = q + 1"
        by (rule div_nat_eqI) (use that in simp_all)
      show "(64 * q + r + n) mod 64 = n + r - 64"
        unfolding minus_mult_div_eq_mod [symmetric] d by simp
    qed
    have within: "(64 * q + r + n) div 64 = q" "(64 * q + r + n) mod 64 = r + n" if "r + n < 64" for n
      using that by (simp_all add: add.assoc)
    have diff: "drop_bit 6 (offset + count - 1) \<noteq> drop_bit 6 offset"
      using same cross(1) [of "unat count - 1"] False assms o(2) by (simp add: o(1) add.assoc)
    have "q < 3" using o assms False by (simp add: r_def)
    then have idx: "unat (drop_bit 6 offset) = q" "unat (drop_bit 6 offset + 1) = q + 1" "unat (64 - (offset AND 0x3F)) = 64 - r"
      using o(2) by (simp_all add: unat_drop_bit q_def r_def unat_word_ariths unat_sub_if' unat_and_3F)
    have "uint (scalar_get_bits_var_4x64 a offset count) = take_bit (unat count) (drop_bit (unat offset) (scalar_val a))"
    proof (rule bit_eqI)
      fix n
      show "bit (uint (scalar_get_bits_var_4x64 a offset count)) n = bit (take_bit (unat count) (drop_bit (unat offset) (scalar_val a))) n"
      proof (cases "n < unat count")
        case True
        then have "64 * q + r + n < 256" using assms o by simp
        with True show ?thesis
        using diff False assms o \<open>q < 3\<close> cross [of n] within [of n] unfolding scalar_get_bits_var_4x64_def push_bit_minus_1
        by (cases "r + n < 64") 
          (auto simp: bit_simps bit_scalar_val scalar_limb_nth idx unat_and_3F r_def [symmetric] dest: bit_imp_le_length)
      next
        case False
        then show ?thesis using diff unfolding scalar_get_bits_var_4x64_def push_bit_minus_1
           by (simp add: bit_simps)
      qed
    qed
    then show ?thesis by (simp add: take_bit_eq_mod drop_bit_eq_div)
  qed
qed

lemma uint_push_bit_of_bool:
  assumes "s < 64"
  shows "uint (push_bit s (of_bool b) :: u64) = of_bool b * 2 ^ s"
proof -
  have "take_bit 64 (2 ^ s :: int) = 2 ^ s"
    using assms by simp
  then show ?thesis
    unfolding unsigned_push_bit_eq by (simp add: push_bit_eq_mult)
qed

lemma cadd_bit_val:
  fixes q :: nat
  assumes "q \<le> 7"
  shows "scalar_val r + (of_bool (q = 0) * 2 ^ s + 2 ^ 64 * (of_bool (q = 1) * 2 ^ s) + 2 ^ 128 * (of_bool (q = 2) * 2 ^ s)
    + 2 ^ 192 * (of_bool (q = 3) * 2 ^ s)) = scalar_val r + of_bool (q < 4) * 2 ^ (64 * q + s)"
proof -
  have "q = 0 \<or> q = 1 \<or> q = 2 \<or> q = 3 \<or> 4 \<le> q" by auto
  then show ?thesis by (auto simp: power_add)
qed

lemma unat_numeral_32: "unat (2 :: u32) = 2" "unat (3 :: u32) = 3"
  by simp_all

lemma scalar_cadd_bit_correct:
  assumes "unat bit0 < 256" "flag = 0 \<or> flag = 1"
  shows "scalar_val (scalar_cadd_bit_4x64 r bit0 flag) = (scalar_val r + uint flag * 2 ^ unat bit0) mod 2 ^ 256"
proof -
  define bi where "bi = bit0 + ((flag - 1) AND 0x100)"
  have bi: "unat bi = (if flag = 0 then unat bit0 + 256 else unat bit0)"
    using assms by (auto simp: bi_def unat_word_ariths)
  define q s where "q = unat bi div 64" and "s = unat bi mod 64"
  have qs: "unat bi = 64 * q + s" "s < 64" unfolding q_def s_def by simp_all
  have d: "drop_bit 6 bi = k \<longleftrightarrow> q = unat k" for k :: u32
    by (simp add: word_unat_eq_iff unat_drop_bit q_def)
  let ?p = "\<lambda>i. push_bit s (of_bool (q = i)) :: u64"
  let ?x0 = "ucast (sd0 r) + ucast (?p 0) :: u128"
  have "scalar_val (scalar_cadd_bit_4x64 r bit0 flag) =
    (uint (sd0 r) + uint (?p 0) + 2 ^ 64 * (uint (sd1 r) + uint (?p 1)) + 2 ^ 128 * (uint (sd2 r) + uint (?p 2))
      + 2 ^ 192 * (uint (sd3 r) + uint (?p 3))) mod 2 ^ 256"
    using carry_chain4_mod(1) [OF uint_ucast_add64_less uint_ucast_add64_less uint_ucast_add64_less,
      of ?x0 "sd1 r" "?p 1" "sd2 r" "?p 2" "sd3 r" "?p 3"]
    unfolding scalar_cadd_bit_4x64_def Let_def bi_def [symmetric] unat_and_3F s_def [symmetric] d uint_ucast_add64
      scalar_val_def scalar_limbs_def scalar_4x64.select_convs unsigned_0 unsigned_1 unat_numeral_32
    by (simp only: add.assoc)
  also have "\<dots> = (scalar_val r + (of_bool (q = 0) * 2 ^ s + 2 ^ 64 * (of_bool (q = 1) * 2 ^ s) + 2 ^ 128 * (of_bool (q = 2) * 2 ^ s)
    + 2 ^ 192 * (of_bool (q = 3) * 2 ^ s))) mod 2 ^ 256"
    unfolding uint_push_bit_of_bool [OF qs(2)] by (simp add: scalar_val_def scalar_limbs_def limbs_val_Cons algebra_simps)
  also have "\<dots> = (scalar_val r + of_bool (q < 4) * 2 ^ (64 * q + s)) mod 2 ^ 256"
    using bi assms by (subst cadd_bit_val) (auto simp: q_def)
  also have "\<dots> = (scalar_val r + uint flag * 2 ^ unat bit0) mod 2 ^ 256"
  proof (cases "flag = 0")
    case True
    then have "\<not> q < 4" using bi qs by simp
    with True show ?thesis by simp
  next
    case False
    then have "flag = 1" "q < 4" "64 * q + s = unat bit0" using assms bi qs by simp_all
    then show ?thesis by simp
  qed
  finally show ?thesis .
qed

lemma mul_split:
  fixes a b :: u64
  defines "t \<equiv> (ucast a :: u128) * ucast b"
  shows "uint (ucast t :: u64) + 2 ^ 64 * uint (ucast (drop_bit 64 t) :: u64) = uint a * uint b"
    and "uint (ucast (drop_bit 64 t) :: u64) \<le> 0xFFFFFFFFFFFFFFFE"
proof -
  have p: "uint a * uint b \<le> 0xFFFFFFFFFFFFFFFF * 0xFFFFFFFFFFFFFFFF"
    by (intro mult_mono uint64_le) simp_all
  then have t: "uint t = uint a * uint b"
    by (simp add: t_def uint_word_ariths)
  have h: "uint (ucast (drop_bit 64 t) :: u64) = uint t div 2 ^ 64"
    using uint_bounded [of t] unfolding unsigned_ucast_eq uint_drop_bit
    by (simp add: take_bit_int_eq_self_iff pos_imp_zdiv_nonneg_iff div_less_iff_less_mult)
  have l: "uint (ucast t :: u64) = uint t mod 2 ^ 64"
    by (simp add: unsigned_ucast_eq take_bit_eq_mod)
  show "uint (ucast t :: u64) + 2 ^ 64 * uint (ucast (drop_bit 64 t) :: u64) = uint a * uint b"
    unfolding h l t by simp
  have "uint t div 2 ^ 64 \<le> (0xFFFFFFFFFFFFFFFF * 0xFFFFFFFFFFFFFFFF) div 2 ^ 64"
    using p unfolding t by (intro zdiv_mono1) simp_all
  then show "uint (ucast (drop_bit 64 t) :: u64) \<le> 0xFFFFFFFFFFFFFFFE"
    unfolding h by simp
qed

lemma add_carry64:
  fixes x y :: u64
  shows "uint (x + y) + 2 ^ 64 * of_bool (x + y < y) = uint x + uint y"
  using uint_bounded [of x] uint_bounded [of y] uint_gt [of x] uint_gt [of y]
  by (auto simp: uint_plus_if' word_less_def)

lemma acc_top:
  fixes c2 :: "'c::len word"
  assumes "V = x + 2 ^ 128 * (uint c2 + of_bool k)" "0 \<le> x" "V < 2 ^ (128 + LENGTH('c))"
  shows "uint (c2 + of_bool k) = uint c2 + of_bool k"
proof -
  have "2 ^ 128 * (uint c2 + of_bool k) < 2 ^ 128 * (2 ^ LENGTH('c) :: int)"
    using assms by (simp add: power_add)
  then have "uint c2 + of_bool k < 2 ^ LENGTH('c)"
    by (subst (asm) mult_less_cancel_left_pos) simp_all
  then show ?thesis by (auto simp: uint_word_ariths intro!: mod_pos_pos_trivial)
qed

lemma if_of_bool: "(if P then 1 else 0) = (of_bool P :: 'a::len word)"
  by simp

lemma muladd_is:
  fixes c :: "('c::len) acc"
  assumes "acc_is c V B" and "V + uint a * uint b \<le> B'" and "B' < 2 ^ (128 + LENGTH('c))"
  shows "acc_is (muladd a b c) (V + uint a * uint b) B'"
proof -
  obtain c0 c1 c2 where c: "c = (c0, c1, c2)" by (cases c) auto
  define tl where "tl = (ucast ((ucast a :: u128) * ucast b) :: u64)"
  define th where "th = (ucast (drop_bit 64 ((ucast a :: u128) * ucast b)) :: u64)"
  let ?k0 = "c0 + tl < tl" let ?th = "th + of_bool ?k0"
  let ?k1 = "c1 + ?th < ?th"
  have m: "muladd a b c = (c0 + tl, c1 + ?th, c2 + of_bool ?k1)"
    unfolding muladd_def c tl_def th_def Let_def if_of_bool by simp
  have th: "uint ?th = uint th + of_bool ?k0"
    using mul_split(2) [of a b, folded th_def] by (simp add: uint_word_ariths)
  have p: "uint tl + 2 ^ 64 * uint th = uint a * uint b"
    unfolding tl_def th_def by (rule mul_split(1))
  have V: "V + uint a * uint b = uint (c0 + tl) + 2 ^ 64 * uint (c1 + ?th) + 2 ^ 128 * (uint c2 + of_bool ?k1)"
    using assms(1) p th add_carry64 [of c0 tl] add_carry64 [of c1 ?th]
    unfolding acc_is_def acc_val_def c by (simp add: algebra_simps) 
  have "uint (c2 + of_bool ?k1) = uint c2 + of_bool ?k1"
    using assms by (intro acc_top [OF V]) (simp_all add: acc_is_def)
  with V assms(2) show ?thesis
    unfolding m by (simp add: acc_is_def acc_val_def)
qed

lemma acc_small:
  fixes c2 :: "'c::len word"
  assumes "acc_is (c0, c1, c2) V B" "B < 2 ^ 128"
  shows "c2 = 0"
proof (rule ccontr)
  assume "c2 \<noteq> 0"
  then have "uint c2 \<noteq> 0" by (simp add: unsigned_eq_0_iff)
  then have "1 \<le> uint c2"
    using uint_ge_0 [of c2] by linarith
  then show False
    using assms uint_gt [of c0] uint_gt [of c1] by (simp add: acc_is_def acc_val_def)
qed

lemma uint_of_bool: "uint (of_bool k :: 'a::len word) = of_bool k"
  by (cases k) simp_all

lemma carry64:
  "uint (x + y) + 18446744073709551616 * of_bool (x + y < y) = uint x + uint y" for x y :: u64
  using add_carry64 [of x y] by (simp only: power_numeral Num.pow.simps Num.sqr.simps)

lemma acc_is_numeral:
  "acc_is (c0, c1, c2) V B \<longleftrightarrow>
    V = uint c0 + 18446744073709551616 * uint c1 + 340282366920938463463374607431768211456 * uint c2 \<and> V \<le> B"
  by (auto simp: acc_is_def acc_val_def)

lemma muladd_fast_is:
  fixes c :: "('c::len) acc"
  assumes "acc_is c V B" and "V + uint a * uint b \<le> B'" and "B' < 2 ^ 128"
  shows "acc_is (muladd_fast a b c) (V + uint a * uint b) B'"
proof -
  obtain c0 c1 c2 where c: "c = (c0, c1, c2)" by (cases c) auto
  have "2 ^ 128 \<le> (2 ^ (128 + LENGTH('c)) :: int)" by (rule power_increasing) simp_all
  then have *: "acc_is (muladd a b c) (V + uint a * uint b) B'"
    using assms by (intro muladd_is [OF assms(1,2)]) simp
  obtain m0 m1 m2 where m: "muladd a b c = (m0, m1, m2)" by (cases "muladd a b c") auto
  have "m2 = 0" using acc_small [of m0 m1 m2] * assms(3) by (simp add: m)
  moreover have "V \<le> B'"
    using assms(2) mult_nonneg_nonneg [OF uint_ge_0 uint_ge_0, of a b] by linarith
  then have "acc_is (c0, c1, c2) V B'" using assms(1) by (simp add: c acc_is_def)
  then have "c2 = 0" by (rule acc_small) (rule assms(3))
  moreover have "muladd_fast a b c = (m0, m1, c2)"
    using m by (auto simp: c muladd_def muladd_fast_def Let_def)
  ultimately show ?thesis using * by (simp add: m)
qed

lemma sumadd_arith:
  fixes V :: int
  assumes "V = c0 + M * c1 + M * M * c2" "x0 + M * k0 = c0 + a" "x1 + M * k1 = c1 + k0"
  shows "V + a = x0 + M * x1 + M * M * (c2 + k1)"
  using assms by algebra

lemma sumadd_is:
  fixes c :: "('c::len) acc"
  assumes "acc_is c V B" and "V + uint a \<le> B'" and "B' < 2 ^ (128 + LENGTH('c))"
  shows "acc_is (sumadd a c) (V + uint a) B'"
proof -
  obtain c0 c1 c2 where c: "c = (c0, c1, c2)" by (cases c) auto
  let ?k0 = "c0 + a < a" let ?o = "of_bool ?k0 :: u64"
  let ?k1 = "c1 + ?o < ?o"
  have m: "sumadd a c = (c0 + a, c1 + ?o, c2 + of_bool ?k1)"
    unfolding sumadd_def c Let_def if_of_bool by simp
  have "V = uint c0 + 2 ^ 64 * uint c1 + 2 ^ 64 * 2 ^ 64 * uint c2"
    using assms(1) by (simp add: c acc_is_def acc_val_def)
  from sumadd_arith [OF this add_carry64 [of c0 a] add_carry64 [of c1 ?o, unfolded uint_of_bool]]
  have V: "V + uint a = uint (c0 + a) + 2 ^ 64 * uint (c1 + ?o) + 2 ^ 128 * (uint c2 + of_bool ?k1)"
    by (simp only: power_add [symmetric] numeral_plus_numeral add_num_simps)
  have "uint (c2 + of_bool ?k1) = uint c2 + of_bool ?k1"
    using assms by (intro acc_top [OF V]) (simp_all add: acc_is_def)
  with V assms(2) show ?thesis
    unfolding m by (simp add: acc_is_def acc_val_def)
qed

lemma sumadd_fast_is:
  fixes c :: "('c::len) acc"
  assumes "acc_is c V B" and "V + uint a \<le> B'" and "B' < 2 ^ 128"
  shows "acc_is (sumadd_fast a c) (V + uint a) B'"
proof -
  obtain c0 c1 c2 where c: "c = (c0, c1, c2)" by (cases c) auto
  let ?k0 = "c0 + a < a" let ?o = "of_bool ?k0 :: u64"
  have m: "sumadd_fast a c = (c0 + a, c1 + ?o, c2)"
    unfolding sumadd_fast_def c Let_def if_of_bool by simp
  have "acc_is (c0, c1, c2) V B'"
    using assms(1,2) uint_gt [of a] by (simp add: c acc_is_def)
  then have z: "c2 = 0" by (rule acc_small) (rule assms(3))
  have V: "V + uint a = uint (c0 + a) + 18446744073709551616 * (uint c1 + of_bool ?k0)"
    using assms(1) carry64 [of c0 a] unfolding c acc_is_numeral z by simp
  have "uint (c1 + ?o) = uint c1 + of_bool ?k0"
    using V assms uint64_le [of a] uint_gt [of c1] uint_gt [of "c0 + a"] unfolding acc_is_def uint_word_ariths uint_of_bool
    by (intro mod_pos_pos_trivial) simp_all
  with V assms(2) z show ?thesis
    unfolding m by (simp add: acc_is_def acc_val_def)
qed

lemma extract_is:
  fixes c :: "('c::len) acc"
  assumes "acc_is c V B" and "LENGTH('c) \<le> 64" and "extract_limb c = (n, c')"
  shows "acc_is c' (V div 2 ^ 64) (B div 2 ^ 64)" "uint n = V mod 2 ^ 64"
proof -
  obtain c0 c1 c2 where c: "c = (c0, c1, c2)" by (cases c) auto
  have V: "V = uint c0 + 2 ^ 64 * (uint c1 + 2 ^ 64 * uint c2)" "V \<le> B"
    using assms(1) by (simp_all add: c acc_is_def acc_val_def)
  have d: "V mod 2 ^ 64 = uint c0" "V div 2 ^ 64 = uint c1 + 2 ^ 64 * uint c2"
    using div_mod_unique_int [OF V(1) [symmetric]] uint_bounded [of c0] by simp_all
  have e: "n = c0" "c' = (c1, ucast c2, 0)"
    using assms(3) by (simp_all add: c extract_limb_def)
  show "uint n = V mod 2 ^ 64" unfolding d e ..
  show "acc_is c' (V div 2 ^ 64) (B div 2 ^ 64)"
    using zdiv_mono1 [OF V(2), of "2 ^ 64"] assms(2) unfolding d by (simp add: acc_is_def acc_val_def e uint_ucast_up)
qed

lemma extract_fast_is:
  fixes c :: "('c::len) acc"
  assumes "acc_is c V B" and "B < 2 ^ 128" and "extract_fast c = (n, c')"
  shows "acc_is c' (V div 2 ^ 64) (B div 2 ^ 64)" "uint n = V mod 2 ^ 64"
proof -
  obtain c0 c1 c2 where c: "c = (c0, c1, c2)" by (cases c) auto
  have z: "c2 = 0" using acc_small [of c0 c1 c2 V B] assms by (simp add: c)
  have V: "V = uint c0 + 2 ^ 64 * uint c1" "V \<le> B"
    using assms(1) by (simp_all add: c acc_is_def acc_val_def z)
  have d: "V mod 2 ^ 64 = uint c0" "V div 2 ^ 64 = uint c1"
    using div_mod_unique_int [OF V(1) [symmetric]] uint_bounded [of c0] by simp_all
  have e: "n = c0" "c' = (c1, 0, 0)"
    using assms(3) by (simp_all add: c extract_fast_def z)
  show "uint n = V mod 2 ^ 64" unfolding d e ..
  show "acc_is c' (V div 2 ^ 64) (B div 2 ^ 64)"
    using zdiv_mono1 [OF V(2), of "2 ^ 64"] unfolding d by (simp add: acc_is_def acc_val_def e)
qed

lemma double_even_bound:
  fixes x :: u64
  shows "uint (x + x) \<le> 0xFFFFFFFFFFFFFFFE"
proof -
  have "even (uint (x + x))"
    by (simp add: uint_word_ariths dvd_mod)
  moreover have "uint (x + x) \<le> 0xFFFFFFFFFFFFFFFF" by (rule uint64_le)
  ultimately show ?thesis by presburger
qed

lemma add_carry_of_bool:
  fixes x :: u64
  shows "uint (x + of_bool k) + 18446744073709551616 * of_bool (k \<and> x + of_bool k = 0) = uint x + of_bool k"
proof (cases k)
  case True
  then show ?thesis
    using carry64 [of x 1] by simp
qed simp

lemma uint_add_of_bool3:
  fixes c2 :: "'c::len word"
  assumes "V = x + 2 ^ 128 * (uint c2 + of_bool i + of_bool j + of_bool k)" "0 \<le> x" "V < 2 ^ (128 + LENGTH('c))"
  shows "uint (c2 + of_bool i + of_bool j + of_bool k) = uint c2 + of_bool i + of_bool j + of_bool k"
proof -
  have "2 ^ 128 * (uint c2 + of_bool i + of_bool j + of_bool k) < 2 ^ 128 * (2 ^ LENGTH('c) :: int)"
    using assms by (simp add: power_add)
  then have less: "uint c2 + of_bool i + of_bool j + of_bool k < 2 ^ LENGTH('c)"
    by (subst (asm) mult_less_cancel_left_pos) simp_all
  have "uint (c2 + of_bool i + of_bool j + of_bool k) = (uint c2 + of_bool i + of_bool j + of_bool k) mod 2 ^ LENGTH('c)"
    by (simp only: uint_word_ariths uint_of_bool mod_simps)
  with less show ?thesis by (simp add: mod_pos_pos_trivial)
qed

lemma muladd2_arith:
  fixes V :: int
  assumes "V = c0 + M * c1 + M * M * c2" "lo + M * hi = ab" "s = hh + kb" "t3 + M * kd = s + kc"
    "hh + M * ka = hi + hi" "ll + M * kb = lo + lo" "x0 + M * kc = c0 + ll" "x1 + M * ke = c1 + t3"
  shows "V + 2 * ab = x0 + M * x1 + M * M * (c2 + ka + kd + ke)"
  using assms by algebra

lemma muladd2_is:
  fixes c :: "('c::len) acc"
  assumes "acc_is c V B" and "V + 2 * (uint a * uint b) \<le> B'" and "B' < 2 ^ (128 + LENGTH('c))"
  shows "acc_is (muladd2 a b c) (V + 2 * (uint a * uint b)) B'"
proof -
  obtain c0 c1 c2 where c: "c = (c0, c1, c2)" by (cases c) auto
  define tl where "tl = (ucast ((ucast a :: u128) * ucast b) :: u64)"
  define th where "th = (ucast (drop_bit 64 ((ucast a :: u128) * ucast b)) :: u64)"
  define th2 where "th2 = th + th + of_bool (tl + tl < tl)"
  define kc where "kc \<longleftrightarrow> c0 + (tl + tl) < tl + tl"
  define th3 where "th3 = th2 + of_bool kc"
  let ?ka = "th + th < th" let ?kd = "kc \<and> th3 = 0" let ?ke = "c1 + th3 < th3"
  have m: "muladd2 a b c = (c0 + (tl + tl), c1 + th3, c2 + of_bool ?ka + of_bool ?kd + of_bool ?ke)"
    unfolding muladd2_def c tl_def th_def th2_def th3_def kc_def Let_def if_of_bool by simp
  have p: "uint tl + 18446744073709551616 * uint th = uint a * uint b"
    using mul_split(1) [of a b] unfolding tl_def th_def by simp
  have th2: "uint th2 = uint (th + th) + of_bool (tl + tl < tl)"
    using double_even_bound [of th] unfolding th2_def uint_word_ariths(1) [of "th + th"] uint_of_bool
    by (intro mod_pos_pos_trivial) auto
  have th3: "uint th3 + 18446744073709551616 * of_bool ?kd = uint th2 + of_bool kc"
    unfolding th3_def by (rule add_carry_of_bool)
  have V: "V + 2 * (uint a * uint b) = uint (c0 + (tl + tl)) + 2 ^ 64 * uint (c1 + th3)
      + 2 ^ 128 * (uint c2 + of_bool ?ka + of_bool ?kd + of_bool ?ke)"
    using muladd2_arith [OF _ p th2 th3 carry64 [of th th] carry64 [of tl tl]
        carry64 [of c0 "tl + tl", folded kc_def] carry64 [of c1 th3], of V "uint c2"] assms(1)
    unfolding c acc_is_numeral by simp
  have "uint (c2 + of_bool ?ka + of_bool ?kd + of_bool ?ke) = uint c2 + of_bool ?ka + of_bool ?kd + of_bool ?ke"
    using assms by (intro uint_add_of_bool3 [OF V]) (simp_all add: acc_is_def)
  with V assms(2) show ?thesis
    unfolding m acc_is_def acc_val_def by simp
qed

lemma acc_zero: "acc_is (0, 0, 0) 0 0"
  by (simp add: acc_is_def acc_val_def)

lemma acc_fst:
  assumes "acc_is c V B" "V < 2 ^ 64"
  shows "uint (fst c) = V"
proof -
  obtain c0 c1 c2 where c: "c = (c0, c1, c2)" by (cases c) auto
  have "V = uint c0 + 2 ^ 64 * (uint c1 + 2 ^ 64 * uint c2)"
    using assms(1) by (simp add: c acc_is_def acc_val_def)
  from div_mod_unique_int(1) [OF this [symmetric]] this
  show ?thesis
    using assms uint_bounded [of c0] by (simp add: c)
qed

lemma uint_mult64_le: "uint (a :: u64) * uint (b :: u64) \<le> 0xFFFFFFFFFFFFFFFE0000000000000001"
  using mult_mono [OF uint64_le [of a] uint64_le [of b]] by simp

lemma adds_muladd: "adds (muladd a b) (uint a * uint b) 0xFFFFFFFFFFFFFFFE0000000000000001"
  unfolding adds_def
  by (intro allI impI, rule muladd_is) (use uint_mult64_le [of a b] in \<open>auto simp: acc_is_def\<close>)

lemma adds_muladd2: "adds (muladd2 a b) (2 * (uint a * uint b)) 0x1FFFFFFFFFFFFFFFC0000000000000002"
  unfolding adds_def
  by (intro allI impI, rule muladd2_is) (use uint_mult64_le [of a b] in \<open>auto simp: acc_is_def\<close>)

lemma adds_sumadd: "adds (sumadd a) (uint a) 0xFFFFFFFFFFFFFFFF"
  unfolding adds_def
  by (intro allI impI, rule sumadd_is) (use uint64_le [of a] in \<open>auto simp: acc_is_def\<close>)

lemma adds_is:
  "adds f x D \<Longrightarrow> acc_is c V B \<Longrightarrow> B + D < 2 ^ (128 + LENGTH('c)) \<Longrightarrow> acc_is (f c) (V + x) (B + D)"
  for c :: "('c::len) acc"
  unfolding adds_def by blast

lemma adds_comp:
  fixes f g :: "('c::len) acc \<Rightarrow> 'c acc"
  assumes f: "adds f x D" and g: "adds g y E" and E: "0 \<le> E"
  shows "adds (\<lambda>c. g (f c)) (x + y) (D + E)"
  unfolding adds_def
proof (intro allI impI)
  fix c :: "'c acc" and V B :: int
  assume c: "acc_is c V B" and B: "B + (D + E) < 2 ^ (128 + LENGTH('c))"
  have "acc_is (f c) (V + x) (B + D)" using B E by (intro adds_is [OF f c]) linarith
  then have "acc_is (g (f c)) (V + x + y) (B + D + E)" using B by (intro adds_is [OF g]) (simp_all add: add.assoc)
  then show "acc_is (g (f c)) (V + (x + y)) (B + (D + E))" by (simp add: add.assoc)
qed

lemma adds_weaken:
  fixes f :: "('c::len) acc \<Rightarrow> 'c acc"
  assumes f: "adds f x D" and "D \<le> E"
  shows "adds f x E"
  unfolding adds_def
proof (intro allI impI)
  fix c :: "'c acc" and V B :: int
  assume c: "acc_is c V B" and B: "B + E < 2 ^ (128 + LENGTH('c))"
  have "acc_is (f c) (V + x) (B + D)" using B assms(2) by (intro adds_is [OF f c]) linarith
  with assms(2) show "acc_is (f c) (V + x) (B + E)" by (simp add: acc_is_def)
qed

lemma columns_is:
  fixes c :: "('c::len) acc"
  assumes "list_all2 (\<lambda>f x. adds f x (2 ^ 131)) fs xs" "acc_is c V (2 ^ 68)" 
    and "columns fs c = (ns, c')" and "32 \<le> LENGTH('c)" "LENGTH('c) \<le> 64"
  shows "acc_is c' (acc_val c') (2 ^ 68) \<and> length ns = length fs \<and>
    limbs_val 64 ns + 2 ^ (64 * length fs) * acc_val c' = V + horner (2 ^ 64) xs"
  using assms(1-3)
proof (induction fs xs arbitrary: c V ns rule: list_all2_induct)
  case Nil
  then show ?case by (auto simp: acc_is_def)
next
  case (Cons f fs x xs)
  obtain n d where e: "extract_limb (f c) = (n, d)" by (cases "extract_limb (f c)")
  obtain ms where ns: "ns = n # ms" and ms: "columns fs d = (ms, c')"
    using Cons.prems(2) by (auto simp: e Let_def split: prod.splits)
  have "(2 ^ 160 :: int) \<le> 2 ^ (128 + LENGTH('c))" using assms(4) by (intro power_increasing) simp_all
  then have "(2 ^ 68 :: int) + 2 ^ 131 < 2 ^ (128 + LENGTH('c))" by (rule order_less_le_trans [rotated]) simp
  then have f: "acc_is (f c) (V + x) (2 ^ 68 + 2 ^ 131)"
    using Cons.hyps(1) Cons.prems(1) unfolding adds_def by blast
  note d = extract_is [OF f assms(5) e]
  have "acc_is d ((V + x) div 2 ^ 64) (2 ^ 68)"
    using d(1) by (auto simp: acc_is_def)
  note IH = Cons.IH [OF this ms]
  have "limbs_val 64 ns + 2 ^ (64 * length (f # fs)) * acc_val c'
      = uint n + 2 ^ 64 * (limbs_val 64 ms + 2 ^ (64 * length fs) * acc_val c')"
    by (simp add: ns limbs_val_Cons power_add algebra_simps)
  also have "\<dots> = (V + x) mod 2 ^ 64 + 2 ^ 64 * ((V + x) div 2 ^ 64) + 2 ^ 64 * horner (2 ^ 64) xs"
    using IH d(2) by (simp add: algebra_simps)
  also have "\<dots> = V + horner (2 ^ 64) (x # xs)"
    by (simp only: mod_mult_div_eq horner.simps add.assoc)
  finally show ?case using IH by (simp add: ns)
qed

lemma acc_val_nonneg: "0 \<le> acc_val c"
  by (cases c) (simp add: acc_val_def)

lemma muladd_fast_eq:
  fixes c :: "('c::len) acc"
  assumes "acc_val c + uint a * uint b < 2 ^ 128"
  shows "muladd_fast a b c = muladd a b c"
proof -
  obtain c0 c1 c2 where c: "c = (c0, c1, c2)" by (cases c) auto
  obtain m0 m1 m2 where m: "muladd a b c = (m0, m1, m2)" by (cases "muladd a b c") auto
  have "2 ^ 128 \<le> (2 ^ (128 + LENGTH('c)) :: int)" by (rule power_increasing) simp_all
  then have "acc_is (m0, m1, m2) (acc_val c + uint a * uint b) (acc_val c + uint a * uint b)"
    using assms unfolding m [symmetric] by (intro muladd_is [of c "acc_val c" "acc_val c"]) (simp_all add: acc_is_def)
  then have "m2 = 0" by (rule acc_small) (rule assms)
  moreover have "acc_is (c0, c1, c2) (acc_val c) (acc_val c + uint a * uint b)"
    by (simp add: acc_is_def c)
  then have "c2 = 0" by (rule acc_small) (rule assms)
  moreover have "muladd_fast a b c = (m0, m1, c2)"
    using m by (auto simp: c muladd_def muladd_fast_def Let_def)
  ultimately show ?thesis by (simp add: m)
qed

lemma sumadd_fast_eq:
  fixes c :: "('c::len) acc"
  assumes "acc_val c + uint a < 2 ^ 128"
  shows "sumadd_fast a c = sumadd a c"
proof -
  obtain c0 c1 c2 where c: "c = (c0, c1, c2)" by (cases c) auto
  obtain m0 m1 m2 where m: "sumadd a c = (m0, m1, m2)" by (cases "sumadd a c") auto
  have "2 ^ 128 \<le> (2 ^ (128 + LENGTH('c)) :: int)" by (rule power_increasing) simp_all
  then have "acc_is (m0, m1, m2) (acc_val c + uint a) (acc_val c + uint a)"
    using assms unfolding m [symmetric] by (intro sumadd_is [of c "acc_val c" "acc_val c"]) (simp_all add: acc_is_def)
  then have "m2 = 0" by (rule acc_small) (rule assms)
  moreover have "acc_is (c0, c1, c2) (acc_val c) (acc_val c + uint a)"
    by (simp add: acc_is_def c)
  then have "c2 = 0" by (rule acc_small) (rule assms)
  moreover have "sumadd_fast a c = (m0, m1, c2)"
    using m by (auto simp: c sumadd_def sumadd_fast_def Let_def)
  ultimately show ?thesis by (simp add: m)
qed

lemma extract_fast_eq:
  fixes c :: "('c::len) acc"
  assumes "acc_val c < 2 ^ 128"
  shows "extract_fast c = extract_limb c"
proof -
  obtain c0 c1 c2 where c: "c = (c0, c1, c2)" by (cases c) auto
  have "acc_is (c0, c1, c2) (acc_val c) (acc_val c)" by (simp add: acc_is_def c)
  then have "c2 = 0" by (rule acc_small) (rule assms)
  then show ?thesis by (simp add: c extract_fast_def extract_limb_def)
qed

lemmas adds_rules = adds_muladd adds_muladd2 adds_sumadd
  adds_comp [OF _ adds_muladd, simplified] adds_comp [OF _ adds_muladd2, simplified] adds_comp [OF _ adds_sumadd, simplified]

lemma first_column:
  fixes a b l :: u64
  defines "c \<equiv> muladd a b (l, 0, 0) :: ('c::len) acc"
  shows "muladd_fast a b (l, 0, 0) = c" "extract_fast c = extract_limb c" "acc_val c = uint l + uint a * uint b"
proof -
  have less: "acc_val ((l, 0, 0) :: 'c acc) + uint a * uint b < 2 ^ 128"
    using uint_mult64_le [of a b] uint64_le [of l] by (simp add: acc_val_def)
  then show "muladd_fast a b (l, 0, 0) = c" unfolding c_def by (rule muladd_fast_eq)
  have "2 ^ 128 \<le> (2 ^ (128 + LENGTH('c)) :: int)" by (rule power_increasing) simp_all
  with less have "acc_is c (uint l + uint a * uint b) (uint l + uint a * uint b)"
    unfolding c_def by (intro muladd_is [of _ "uint l" "uint l"]) (simp_all add: acc_is_def acc_val_def)
  then show v: "acc_val c = uint l + uint a * uint b" by (simp add: acc_is_def)
  show "extract_fast c = extract_limb c"
    by (rule extract_fast_eq) (use less in \<open>simp add: v, simp add: acc_val_def\<close>)
qed

lemma last_column:
  fixes C :: "('c::len) acc"
  assumes "acc_val C + uint a * uint b < 2 ^ 128" and "extract_fast (muladd_fast a b C) = (l6, C6)"
  shows "limbs_val 64 [l6, fst C6] = acc_val C + uint a * uint b"
proof -
  let ?V = "acc_val C + uint a * uint b"
  have "acc_is (muladd_fast a b C) ?V ?V"
    using assms(1) by (intro muladd_fast_is [of C "acc_val C" "acc_val C"]) (simp_all add: acc_is_def)
  note e = extract_fast_is [OF this assms]
  have "uint (fst C6) = ?V div 2 ^ 64"
    using assms(1) by (intro acc_fst [OF e(1)]) (simp add: div_less_iff_less_mult)
  then show ?thesis
    unfolding limbs_val_Cons limbs_val.simps(1) e(2) by simp
qed

lemma comba_512:
  assumes fs: "list_all2 (\<lambda>f x. adds f x (2 ^ 131)) fs xs" "length fs = 6"
    and col: "columns fs ((0, 0, 0) :: 32 acc) = (ns, C)" and e: "extract_fast (muladd_fast a b C) = (l6, C6)"
    and T: "horner (2 ^ 64) xs + 2 ^ 384 * (uint a * uint b) = T" "T < 2 ^ 512"
  shows "limbs_val 64 (ns @ [l6, fst C6]) = T" "length (ns @ [l6, fst C6]) = 8"
proof -
  have C: "length ns = 6" "limbs_val 64 ns + 2 ^ 384 * acc_val C = horner (2 ^ 64) xs"
    using columns_is [OF fs(1) _ col, of 0] fs(2) by (simp_all add: acc_is_def acc_val_def)
  then show "length (ns @ [l6, fst C6]) = 8" by simp
  have T': "limbs_val 64 ns + 2 ^ 384 * (acc_val C + uint a * uint b) = T"
    using C(2) T(1) by (simp add: algebra_simps)
  then have "2 ^ 384 * (acc_val C + uint a * uint b) < 2 ^ 384 * 2 ^ 128"
    using T(2) limbs_val_nonneg [of 64 ns] by simp
  then have "acc_val C + uint a * uint b < 2 ^ 128"
    by (subst (asm) mult_less_cancel_left_pos) simp_all
  from last_column [OF this e] T' C(1)
  show "limbs_val 64 (ns @ [l6, fst C6]) = T"
    by (simp add: limbs_val_append)
qed

lemma scalar_val_prod_less: "scalar_val a * scalar_val b < 2 ^ 512"
  using mult_strict_mono' [OF scalar_val_bounds(2) scalar_val_bounds(2) scalar_val_bounds(1) scalar_val_bounds(1), of a b]
  by simp

lemma scalar_mul_512_correct:
  "limbs_val 64 (scalar_mul_512_4x64 a b) = scalar_val a * scalar_val b"
  "length (scalar_mul_512_4x64 a b) = 8"
proof -
  let ?fs = "[muladd (sd0 a) (sd0 b),
    \<lambda>c. muladd (sd1 a) (sd0 b) (muladd (sd0 a) (sd1 b) c),
    \<lambda>c. muladd (sd2 a) (sd0 b) (muladd (sd1 a) (sd1 b) (muladd (sd0 a) (sd2 b) c)),
    \<lambda>c. muladd (sd3 a) (sd0 b) (muladd (sd2 a) (sd1 b) (muladd (sd1 a) (sd2 b) (muladd (sd0 a) (sd3 b) c))),
    \<lambda>c. muladd (sd3 a) (sd1 b) (muladd (sd2 a) (sd2 b) (muladd (sd1 a) (sd3 b) c)),
    \<lambda>c. muladd (sd3 a) (sd2 b) (muladd (sd2 a) (sd3 b) c)] :: (32 acc \<Rightarrow> 32 acc) list"
  let ?a = "\<lambda>i. uint (scalar_limbs a ! i)" let ?b = "\<lambda>i. uint (scalar_limbs b ! i)"
  let ?xs = "[?a 0 * ?b 0, ?a 0 * ?b 1 + ?a 1 * ?b 0, ?a 0 * ?b 2 + ?a 1 * ?b 1 + ?a 2 * ?b 0,
    ?a 0 * ?b 3 + ?a 1 * ?b 2 + ?a 2 * ?b 1 + ?a 3 * ?b 0, ?a 1 * ?b 3 + ?a 2 * ?b 2 + ?a 3 * ?b 1,
    ?a 2 * ?b 3 + ?a 3 * ?b 2]"
  obtain ns C where col: "columns ?fs (0, 0, 0) = (ns, C)" by (cases "columns ?fs (0, 0, 0)")
  obtain l6 C6 where e: "extract_fast (muladd_fast (sd3 a) (sd3 b) C) = (l6, C6)"
    by (cases "extract_fast (muladd_fast (sd3 a) (sd3 b) C)")
  have fs: "list_all2 (\<lambda>f x. adds f x (2 ^ 131)) ?fs ?xs"
    unfolding scalar_limbs_def by (simp, intro conjI; rule adds_weaken, (rule adds_rules | simp)+)
  have T: "horner (2 ^ 64) ?xs + 2 ^ 384 * (uint (sd3 a) * uint (sd3 b)) = scalar_val a * scalar_val b"
    unfolding scalar_val_def by (simp add: scalar_limbs_def limbs_val_Cons algebra_simps)
  have "scalar_mul_512_4x64 a b = ns @ [l6, fst C6]"
    using col e by (simp add: scalar_mul_512_4x64_def Let_def case_prod_beta first_column)
  then show "limbs_val 64 (scalar_mul_512_4x64 a b) = scalar_val a * scalar_val b"
    and "length (scalar_mul_512_4x64 a b) = 8"
    using comba_512 [OF fs _ col e T scalar_val_prod_less] by simp_all
qed

lemma scalar_sqr_512_correct:
  "limbs_val 64 (scalar_sqr_512_4x64 a) = scalar_val a * scalar_val a"
  "length (scalar_sqr_512_4x64 a) = 8"
proof -
  let ?fs = "[muladd (sd0 a) (sd0 a), muladd2 (sd0 a) (sd1 a),
    \<lambda>c. muladd (sd1 a) (sd1 a) (muladd2 (sd0 a) (sd2 a) c),
    \<lambda>c. muladd2 (sd1 a) (sd2 a) (muladd2 (sd0 a) (sd3 a) c),
    \<lambda>c. muladd (sd2 a) (sd2 a) (muladd2 (sd1 a) (sd3 a) c),
    muladd2 (sd2 a) (sd3 a)] :: (32 acc \<Rightarrow> 32 acc) list"
  let ?a = "\<lambda>i. uint (scalar_limbs a ! i)"
  let ?xs = "[?a 0 * ?a 0, 2 * (?a 0 * ?a 1), 2 * (?a 0 * ?a 2) + ?a 1 * ?a 1,
    2 * (?a 0 * ?a 3) + 2 * (?a 1 * ?a 2), 2 * (?a 1 * ?a 3) + ?a 2 * ?a 2, 2 * (?a 2 * ?a 3)]"
  obtain ns C where col: "columns ?fs (0, 0, 0) = (ns, C)" by (cases "columns ?fs (0, 0, 0)")
  obtain l6 C6 where e: "extract_fast (muladd_fast (sd3 a) (sd3 a) C) = (l6, C6)"
    by (cases "extract_fast (muladd_fast (sd3 a) (sd3 a) C)")
  have fs: "list_all2 (\<lambda>f x. adds f x (2 ^ 131)) ?fs ?xs"
    unfolding scalar_limbs_def by (simp, intro conjI; rule adds_weaken, (rule adds_rules | simp)+)
  have T: "horner (2 ^ 64) ?xs + 2 ^ 384 * (uint (sd3 a) * uint (sd3 a)) = scalar_val a * scalar_val a"
    unfolding scalar_val_def by (simp add: scalar_limbs_def limbs_val_Cons algebra_simps)
  have "scalar_sqr_512_4x64 a = ns @ [l6, fst C6]"
    using col e by (simp add: scalar_sqr_512_4x64_def Let_def case_prod_beta first_column)
  then show "limbs_val 64 (scalar_sqr_512_4x64 a) = scalar_val a * scalar_val a"
    and "length (scalar_sqr_512_4x64 a) = 8"
    using comba_512 [OF fs _ col e T scalar_val_prod_less] by simp_all
qed

lemma order_c_limbs: "order_c = uint SECP256K1_N_C_0 + 2 ^ 64 * uint SECP256K1_N_C_1 + 2 ^ 128"
  using N_C_denotes by (simp add: denotes_def order_c_def order_n_def)

lemma horner_nonneg: "list_all (\<lambda>x. 0 \<le> x) xs \<Longrightarrow> 0 \<le> M \<Longrightarrow> 0 \<le> horner M xs"
  by (induction xs) auto

lemma second_column:
  fixes n n0 l0 l1 :: u64
  defines "d \<equiv> snd (extract_limb (muladd n0 SECP256K1_N_C_0 ((l0, 0, 0) :: 64 acc)))"
  shows "sumadd_fast l1 d = sumadd l1 d"
proof (rule sumadd_fast_eq)
  obtain n d' where e: "extract_limb (muladd n0 SECP256K1_N_C_0 ((l0, 0, 0) :: 64 acc)) = (n, d')"
    by (cases "extract_limb (muladd n0 SECP256K1_N_C_0 ((l0, 0, 0) :: 64 acc))")
  have "acc_is ((l0, 0, 0) :: 64 acc) (uint l0) (2 ^ 64)"
    using uint64_le [of l0] by (simp add: acc_is_def acc_val_def)
  then have "acc_is (muladd n0 SECP256K1_N_C_0 ((l0, 0, 0) :: 64 acc)) (uint l0 + uint n0 * uint SECP256K1_N_C_0)
      (2 ^ 64 + 0xFFFFFFFFFFFFFFFE0000000000000001)"
    by (rule adds_is [OF adds_muladd]) simp
  from extract_is(1) [OF this _ e]
  show "acc_val d + uint l1 < 2 ^ 128"
    using uint64_le [of l1] by (simp add: d_def e acc_is_def)
qed

lemma list_nth4: "length l = 4 \<Longrightarrow> l = [l ! 0, l ! 1, l ! 2, l ! 3]"
  by (simp add: list_eq_iff_nth_eq less_Suc_eq numeral_eq_Suc)

lemma list_nth6: "length l = 6 \<Longrightarrow> l = [l ! 0, l ! 1, l ! 2, l ! 3, l ! 4, l ! 5]"
  by (simp add: list_eq_iff_nth_eq less_Suc_eq numeral_eq_Suc)

lemma extract_fast_end:
  assumes "acc_is c W B" "B < 2 ^ 128" "extract_fast c = (n, c')"
  shows "uint n + 2 ^ 64 * uint (fst c') = W"
proof -
  note e = extract_fast_is [OF assms]
  have "W < 2 ^ 128" using assms(1,2) by (simp add: acc_is_def)
  then have "uint (fst c') = W div 2 ^ 64"
    by (intro acc_fst [OF e(1)]) (simp add: div_less_iff_less_mult)
  then show ?thesis unfolding e(2) by simp
qed

lemma list_nth8: "length l = 8 \<Longrightarrow> l = [l ! 0, l ! 1, l ! 2, l ! 3, l ! 4, l ! 5, l ! 6, l ! 7]"
  by (simp add: list_eq_iff_nth_eq less_Suc_eq numeral_eq_Suc)

lemma scalar_reduce_512_m_correct:
  assumes "length l = 8" and m: "scalar_reduce_512_m_4x64 l = (m, m6)"
  shows "limbs_val 64 m + 2 ^ 384 * uint m6 = limbs_val 64 (take 4 l) + limbs_val 64 (drop 4 l) * order_c"
    and "length m = 6" "uint m6 \<le> 1"
proof -
  let ?n = "\<lambda>i. uint (l ! (4 + i))" let ?l = "\<lambda>i. uint (l ! i)"
  let ?C0 = SECP256K1_N_C_0 let ?C1 = SECP256K1_N_C_1
  let ?fs = "[muladd (l ! 4) ?C0,
     \<lambda>c. muladd (l ! 4) ?C1 (muladd (l ! 5) ?C0 (sumadd (l ! 1) c)),
     \<lambda>c. sumadd (l ! 4) (muladd (l ! 5) ?C1 (muladd (l ! 6) ?C0 (sumadd (l ! 2) c))),
     \<lambda>c. sumadd (l ! 5) (muladd (l ! 6) ?C1 (muladd (l ! 7) ?C0 (sumadd (l ! 3) c))),
     \<lambda>c. sumadd (l ! 6) (muladd (l ! 7) ?C1 c)] :: (64 acc \<Rightarrow> 64 acc) list"
  let ?xs = "[?n 0 * uint ?C0, ?l 1 + ?n 1 * uint ?C0 + ?n 0 * uint ?C1,
     ?l 2 + ?n 2 * uint ?C0 + ?n 1 * uint ?C1 + ?n 0, ?l 3 + ?n 3 * uint ?C0 + ?n 2 * uint ?C1 + ?n 1,
     ?n 3 * uint ?C1 + ?n 2]"
  obtain ns C where col: "columns ?fs (l ! 0, 0, 0) = (ns, C)" by (cases "columns ?fs (l ! 0, 0, 0)")
  have fs: "list_all2 (\<lambda>f x. adds f x (2 ^ 131)) ?fs ?xs"
    by (simp, intro conjI; rule adds_weaken, (rule adds_rules | simp)+)
  have i: "acc_is ((l ! 0, 0, 0) :: 64 acc) (?l 0) (2 ^ 68)"
    using uint64_le [of "l ! 0"] by (simp add: acc_is_def acc_val_def)
  have C: "acc_is C (acc_val C) (2 ^ 68)" "length ns = 5" 
    "limbs_val 64 ns + 2 ^ 320 * acc_val C = ?l 0 + horner (2 ^ 64) ?xs"
    using columns_is [OF fs i col] by simp_all
  show "length m = 6"
    using m by (auto simp: scalar_reduce_512_m_4x64_def Let_def case_prod_beta)
  have L: "limbs_val 64 (take 4 l) + limbs_val 64 (drop 4 l) * order_c = ?l 0 + horner (2 ^ 64) ?xs + 2 ^ 320 * ?n 3"
    by (subst (1 2) list_nth8 [OF assms(1)]) (simp add: limbs_val_Cons order_c_limbs algebra_simps)
  have "acc_val C + uint (l ! 7) < 2 ^ 128"
    using C(1) uint64_le [of "l ! 7"] by (simp add: acc_is_def)
  then have W: "acc_is (sumadd_fast (l ! 7) C) (acc_val C + uint (l ! 7)) (acc_val C + uint (l ! 7))"
    by (intro sumadd_fast_is [of C "acc_val C" "acc_val C"]) (simp_all add: acc_is_def)
  obtain m5 C' where e: "extract_fast (sumadd_fast (l ! 7) C) = (m5, C')"
    by (cases "extract_fast (sumadd_fast (l ! 7) C)")
  have W': "uint m5 + 2 ^ 64 * uint (fst C') = acc_val C + uint (l ! 7)"
    using \<open>acc_val C + uint (l ! 7) < 2 ^ 128\<close> by (intro extract_fast_end [OF W _ e]) simp
  have M: "limbs_val 64 (ns @ [m5]) + 2 ^ 384 * uint (fst C') = limbs_val 64 (take 4 l) + limbs_val 64 (drop 4 l) * order_c"
    using C(2,3) W' unfolding L by (simp add: limbs_val_append limbs_val_Cons algebra_simps)
  have "limbs_val 64 (take 4 l) < 2 ^ 256" "limbs_val 64 (drop 4 l) < 2 ^ 256"
    using limbs_val_bound [of "take 4 l"] limbs_val_bound [of "drop 4 l"] assms(1) by simp_all
  then have "2 ^ 384 * uint (fst C') < 2 ^ 384 * 2"
    using M limbs_val_nonneg [of 64 "ns @ [m5]"] by (simp add: order_c_def order_n_def)
  then have c: "uint (fst C') \<le> 1"
    by (subst (asm) mult_less_cancel_left_pos) simp_all
  have "m = ns @ [m5]" "m6 = ucast (fst C')"
    using m col e by (auto simp: scalar_reduce_512_m_4x64_def Let_def case_prod_beta first_column second_column)
  moreover have "uint (ucast (fst C') :: u32) = uint (fst C')"
    using denotes_uint [OF denotes_ucast [OF denotes_self [OF c], where 'b = 32]] by simp
  ultimately show "uint m6 \<le> 1" 
    and "limbs_val 64 m + 2 ^ 384 * uint m6 = limbs_val 64 (take 4 l) + limbs_val 64 (drop 4 l) * order_c"
    using c M by simp_all
qed

lemma limbs_val_split4:
  assumes "4 \<le> length l"
  shows "limbs_val 64 l = limbs_val 64 (take 4 l) + 2 ^ 256 * limbs_val 64 (drop 4 l)"
  using limbs_val_append [of 64 "take 4 l" "drop 4 l"] assms by (simp add: min_absorb2)

lemma scalar_reduce_512_p_correct:
  assumes "length m = 6" "uint m6 \<le> 1" and p: "scalar_reduce_512_p_4x64 (m, m6) = (p, p4)"
    and mv: "limbs_val 64 m + 2 ^ 384 * uint m6 < 2 ^ 256 * (1 + order_c)"
  shows "limbs_val 64 p + 2 ^ 256 * uint p4 =
      limbs_val 64 (take 4 m) + (limbs_val 64 (drop 4 m) + 2 ^ 128 * uint m6) * order_c"
    and "length p = 4" "uint p4 \<le> 2"
proof -
  let ?m = "\<lambda>i. uint (m ! i)" let ?m6 = "uint m6"
  let ?C0 = SECP256K1_N_C_0 let ?C1 = SECP256K1_N_C_1
  let ?fs = "[muladd (m ! 4) ?C0,
     \<lambda>c. muladd (m ! 4) ?C1 (muladd (m ! 5) ?C0 (sumadd (m ! 1) c)),
     \<lambda>c. sumadd (m ! 4) (muladd (m ! 5) ?C1 (muladd (ucast m6) ?C0 (sumadd (m ! 2) c)))] :: (64 acc \<Rightarrow> 64 acc) list"
  let ?xs = "[?m 4 * uint ?C0, ?m 1 + ?m 5 * uint ?C0 + ?m 4 * uint ?C1,
     ?m 2 + uint (ucast m6 :: u64) * uint ?C0 + ?m 5 * uint ?C1 + ?m 4]"
  obtain ns C where col: "columns ?fs (m ! 0, 0, 0) = (ns, C)" by (cases "columns ?fs (m ! 0, 0, 0)")
  have fs: "list_all2 (\<lambda>f x. adds f x (2 ^ 131)) ?fs ?xs"
    by (simp del: uint_ucast, intro conjI; rule adds_weaken, (rule adds_rules | simp del: uint_ucast)+)
  have i: "acc_is ((m ! 0, 0, 0) :: 64 acc) (?m 0) (2 ^ 68)"
    using uint64_le [of "m ! 0"] by (simp add: acc_is_def acc_val_def)
  have C: "acc_is C (acc_val C) (2 ^ 68)" "length ns = 3" 
    "limbs_val 64 ns + 2 ^ 192 * acc_val C = ?m 0 + horner (2 ^ 64) ?xs"
    using columns_is [OF fs i col] by simp_all
  show "length p = 4"
    using p by (auto simp: scalar_reduce_512_p_4x64_def Let_def case_prod_beta)
  let ?X = "limbs_val 64 (take 4 m) + (limbs_val 64 (drop 4 m) + 2 ^ 128 * ?m6) * order_c"
  have m4: "take 4 m = [m ! 0, m ! 1, m ! 2, m ! 3]" "drop 4 m = [m ! 4, m ! 5]"
    by (subst list_nth6 [OF assms(1)], simp)+
  have L: "?X = ?m 0 + horner (2 ^ 64) ?xs + 2 ^ 192 * (?m 3 + ?m6 * uint ?C1 + ?m 5) + 2 ^ 256 * ?m6"
    unfolding m4 by (simp add: limbs_val_Cons order_c_limbs algebra_simps)
  let ?c = "sumadd_fast (m ! 5) (muladd_fast (ucast m6) ?C1 (sumadd_fast (m ! 3) C))"
  let ?W = "acc_val C + ?m 3 + ?m6 * uint ?C1 + ?m 5"
  have b: "?m6 * uint ?C1 \<le> 2 ^ 64" "acc_val C \<le> 2 ^ 68" "0 \<le> ?m6 * uint ?C1"
    using mult_mono [OF assms(2) uint64_le [of ?C1]] C(1) by (simp_all add: acc_is_def)
  have "acc_is (sumadd_fast (m ! 3) C) (acc_val C + ?m 3) (2 ^ 70)"
    using b uint64_le [of "m ! 3"] by (intro sumadd_fast_is [OF C(1)]) simp_all
  then have "acc_is (muladd_fast (ucast m6) ?C1 (sumadd_fast (m ! 3) C)) (acc_val C + ?m 3 + uint (ucast m6 :: u64) * uint ?C1) (2 ^ 71)"
    using b uint64_le [of "m ! 3"] by (intro muladd_fast_is) simp_all
  then have W: "acc_is ?c ?W (2 ^ 72)"
    using b uint64_le [of "m ! 3"] uint64_le [of "m ! 5"] by (intro sumadd_fast_is) simp_all
  obtain p3 C' where e: "extract_fast ?c = (p3, C')" by (cases "extract_fast ?c")
  have W': "uint p3 + 2 ^ 64 * uint (fst C') = ?W"
    by (intro extract_fast_end [OF W _ e]) simp
  have M: "limbs_val 64 (ns @ [p3]) + 2 ^ 256 * (uint (fst C') + ?m6) = ?X"
    using C(2,3) W' unfolding L by (simp add: limbs_val_append limbs_val_Cons algebra_simps)
  have lo: "limbs_val 64 (take 4 m) < 2 ^ 256" "0 \<le> limbs_val 64 (take 4 m)"
    using limbs_val_bound [of "take 4 m"] assms(1) by (simp_all add: limbs_val_nonneg)
  have "2 ^ 256 * (limbs_val 64 (drop 4 m) + 2 ^ 128 * ?m6) < 2 ^ 256 * (1 + order_c)"
    using mv lo limbs_val_split4 [of m] assms(1) by simp
  then have "limbs_val 64 (drop 4 m) + 2 ^ 128 * ?m6 \<le> order_c"
    by (subst (asm) mult_less_cancel_left_pos) simp_all
  then have "(limbs_val 64 (drop 4 m) + 2 ^ 128 * ?m6) * order_c \<le> order_c * order_c"
    by (rule mult_right_mono) (simp add: order_c_def order_n_def)
  then have "2 ^ 256 * (uint (fst C') + ?m6) < 2 ^ 256 * 3"
    using M lo limbs_val_nonneg [of 64 "ns @ [p3]"] order_c_square by simp
  then have c: "uint (fst C') + ?m6 \<le> 2"
    by (subst (asm) mult_less_cancel_left_pos) simp_all
  then have "uint (fst C') \<le> 2" using uint_gt [of m6] by simp
  have "denotes (fst C' + ucast m6) (uint (fst C') + ?m6) (2 + 1)"
    by (rule denotes_intros denotes_self \<open>uint (fst C') \<le> 2\<close> assms(2) | simp)+
  then have "denotes (ucast (fst C' + ucast m6) :: u32) (uint (fst C') + ?m6) (2 + 1)"
    by (rule denotes_ucast) simp
  moreover have "p = ns @ [p3]" "p4 = ucast (fst C' + ucast m6)"
    using p col e by (auto simp: scalar_reduce_512_p_4x64_def Let_def case_prod_beta first_column second_column)
  ultimately show "limbs_val 64 p + 2 ^ 256 * uint p4 = ?X" "uint p4 \<le> 2"
    using c M by (simp_all add: denotes_def)
qed

lemma scalar_reduce_512_correct:
  assumes "length l = 8"
  shows "scalar_val (scalar_reduce_512_4x64 l) = limbs_val 64 l mod order_n"
proof -
  obtain m m6 where m: "scalar_reduce_512_m_4x64 l = (m, m6)" by (cases "scalar_reduce_512_m_4x64 l")
  obtain p p4 where p: "scalar_reduce_512_p_4x64 (m, m6) = (p, p4)" by (cases "scalar_reduce_512_p_4x64 (m, m6)")
  note M = scalar_reduce_512_m_correct [OF assms m]
  have lo: "limbs_val 64 (take 4 l) < 2 ^ 256" "limbs_val 64 (drop 4 l) < 2 ^ 256"
    using limbs_val_bound [of "take 4 l"] limbs_val_bound [of "drop 4 l"] assms by simp_all
  have "limbs_val 64 m + 2 ^ 384 * uint m6 < 2 ^ 256 * (1 + order_c)"
    using lo unfolding M(1) by (simp add: order_c_def order_n_def)
  note P = scalar_reduce_512_p_correct [OF M(2,3) p this]
  let ?x0 = "ucast (p ! 0) + ucast SECP256K1_N_C_0 * ucast p4 :: u128"
  let ?x1 = "ucast (p ! 1) + ucast SECP256K1_N_C_1 * ucast p4 :: u128"
  let ?x2 = "ucast (p ! 2) + ucast p4 :: u128"
  let ?x3 = "ucast (p ! 3) :: u128"
  let ?t1 = "drop_bit 64 ?x0 + ?x1"
  let ?t2 = "drop_bit 64 ?t1 + ?x2"
  let ?t3 = "drop_bit 64 ?t2 + ?x3"
  define r where "r = Scalar4 (low64 ?x0) (low64 ?t1) (low64 ?t2) (low64 ?t3)"
  note p4 = denotes_self [OF P(3)]
  have x0: "denotes ?x0 (uint (p ! 0) + 4624529908474429119 * uint p4) (2 ^ 126)"
    by (rule denotes_weaken) (rule p4 N_C_denotes denotes_intros | simp)+
  have x1: "denotes ?x1 (uint (p ! 1) + 4994812053365940164 * uint p4) (2 ^ 126)"
    by (rule denotes_weaken) (rule p4 N_C_denotes denotes_intros | simp)+
  have x2: "denotes ?x2 (uint (p ! 2) + uint p4) (2 ^ 126)"
    by (rule denotes_weaken) (rule p4 denotes_intros | simp)+
  have x3: "denotes ?x3 (uint (p ! 3)) (2 ^ 126)"
    by (rule denotes_weaken) (rule denotes_intros | simp)+
  let ?V = "limbs_val 64 p + uint p4 * order_c"
  have "scalar_val r + 2 ^ 256 * uint (drop_bit 64 ?t3) =
      uint ?x0 + 2 ^ 64 * uint ?x1 + 2 ^ 128 * uint ?x2 + 2 ^ 192 * uint ?x3"
    unfolding r_def scalar_val_def scalar_limbs_def scalar_4x64.select_convs
    by (rule carry_chain4) (use x1 x2 x3 in \<open>simp_all add: denotes_def\<close>)
  also have "\<dots> = ?V"
    unfolding denotes_uint [OF x0] denotes_uint [OF x1] denotes_uint [OF x2] denotes_uint [OF x3]
    by (subst list_nth4 [OF P(2)]) (simp add: limbs_val_Cons order_c_def order_n_def algebra_simps)
  finally have V: "scalar_val r + 2 ^ 256 * uint (drop_bit 64 ?t3) = ?V" .
  have "?V < 2 * order_n"
    using limbs_val_bound [of p] P(2,3) by (simp add: order_c_def order_n_def)
  from final_reduce(2) [OF V this]
  have "scalar_val (scalar_reduce_512_4x64 l) = ?V mod order_n"
    by (simp add: scalar_reduce_512_4x64_def m p r_def Let_def)
  also have "\<dots> = (limbs_val 64 (take 4 m) + (limbs_val 64 (drop 4 m) + 2 ^ 128 * uint m6) * order_c) mod order_n"
    unfolding mod_order_fold [symmetric] P(1) ..
  also have "\<dots> = (limbs_val 64 m + 2 ^ 384 * uint m6) mod order_n"
    unfolding mod_order_fold [symmetric] using limbs_val_split4 [of m] M(2) by (simp add: algebra_simps)
  also have "\<dots> = limbs_val 64 l mod order_n"
    unfolding M(1) mod_order_fold [symmetric] using limbs_val_split4 [of l] assms by simp
  finally show ?thesis .
qed

lemma scalar_mul_correct: "scalar_val (scalar_mul_4x64 a b) = scalar_val a * scalar_val b mod order_n"
  by (simp add: scalar_mul_4x64_def scalar_reduce_512_correct scalar_mul_512_correct)

lemma scalar_sqr_correct: "scalar_val (scalar_sqr_4x64 a) = scalar_val a * scalar_val a mod order_n"
  by (simp add: scalar_sqr_4x64_def scalar_reduce_512_correct scalar_sqr_512_correct)

lemma scalar_eq_iff: "scalar_eq_4x64 a b \<longleftrightarrow> a = b"
  by (auto simp: scalar_eq_4x64_def or_eq_0_iff word_xor_eq_0_iff)

lemma scalar_split_128_correct:
  assumes "scalar_split_128_4x64 a = (r1, r2)"
  shows "scalar_val a = scalar_val r1 + 2 ^ 128 * scalar_val r2" "scalar_val r1 < 2 ^ 128" "scalar_val r2 < 2 ^ 128"
proof -
  have r: "r1 = Scalar4 (sd0 a) (sd1 a) 0 0" "r2 = Scalar4 (sd2 a) (sd3 a) 0 0"
    using assms by (simp_all add: scalar_split_128_4x64_def)
  show "scalar_val a = scalar_val r1 + 2 ^ 128 * scalar_val r2" "scalar_val r1 < 2 ^ 128" "scalar_val r2 < 2 ^ 128"
    using limbs_val_bound [of "[sd0 a, sd1 a]"] limbs_val_bound [of "[sd2 a, sd3 a]"]
    by (simp_all add: r scalar_val_def scalar_limbs_def limbs_val_Cons)
qed

lemma shr_limb:
  fixes w v :: u64 and n :: u32
  assumes "0 < unat n" "unat n < 16" "j < 64"
  shows "bit (drop_bit (unat n) w + push_bit (unat (64 - n)) v) j \<longleftrightarrow>
    (if j + unat n < 64 then bit w (j + unat n) else bit v (j + unat n - 64))"
proof -
  have k: "unat (64 - n) = 64 - unat n" using assms by (simp add: unat_sub_if')
  have "drop_bit (unat n) w + push_bit (unat (64 - n)) v = drop_bit (unat n) w OR push_bit (unat (64 - n)) v"
    by (rule disjunctive_add) (use assms in \<open>auto simp: bit_simps k dest: bit_imp_le_length\<close>)
  then show ?thesis using assms
    by (auto simp: bit_simps k add.commute [of "unat n"] dest: bit_imp_le_length)
qed

lemma less4_cases: "(k::nat) < 4 \<Longrightarrow> k = 0 \<or> k = 1 \<or> k = 2 \<or> k = 3"
  by auto

lemma div_mod_64:
  fixes q m :: nat
  assumes "m < 128"
  shows "(64 * q + m) div 64 = (if m < 64 then q else q + 1)" "(64 * q + m) mod 64 = (if m < 64 then m else m - 64)"
  using assms by (auto simp: le_div_geq le_mod_geq)

lemma scalar_shr_int_correct:
  assumes "0 < unat n" "unat n < 16"
  shows "scalar_val (snd (scalar_shr_int_4x64 r n)) = scalar_val r div 2 ^ unat n"
    and "uint (fst (scalar_shr_int_4x64 r n)) = scalar_val r mod 2 ^ unat n"
proof -
  define L where "L i = (scalar_limbs r @ [0]) ! i" for i
  have "limbs_val 64 (scalar_limbs r @ [0]) = scalar_val r"
    by (simp add: scalar_val_def limbs_val_append limbs_val_Cons)
  then have bL: "bit (scalar_val r) m \<longleftrightarrow> m < 320 \<and> bit (L (m div 64)) (m mod 64)" for m
    using bit_limbs_val [of "scalar_limbs r @ [0]" m] by (simp add: L_def scalar_limbs_def)
  define R where "R i = drop_bit (unat n) (L i) + push_bit (unat (64 - n)) (L (i + 1))" for i
  have R: "snd (scalar_shr_int_4x64 r n) = Scalar4 (R 0) (R 1) (R 2) (R 3)"
    by (simp add: R_def L_def scalar_shr_int_4x64_def scalar_limbs_def Let_def)
  have "scalar_val (snd (scalar_shr_int_4x64 r n)) = drop_bit (unat n) (scalar_val r)"
  proof (rule bit_eqI)
    fix k
    show "bit (scalar_val (snd (scalar_shr_int_4x64 r n))) k = bit (drop_bit (unat n) (scalar_val r)) k"
    proof (cases "k < 256")
      case True
      define i j where "i = k div 64" and "j = k mod 64"
      have k: "k = 64 * i + j" "j < 64" by (simp_all add: i_def j_def)
      have "i < 4" using True by (simp add: i_def div_less_iff_less_mult)
      then have "bit (scalar_val (snd (scalar_shr_int_4x64 r n))) k \<longleftrightarrow> bit (R i) j"
        using True by (auto dest!: less4_cases simp: bit_scalar_val R scalar_limbs_def simp flip: i_def j_def)
      also have "\<dots> \<longleftrightarrow> bit (scalar_val r) (64 * i + (j + unat n))"
        using assms True k div_mod_64 [of "j + unat n" i] shr_limb [OF assms k(2), of "L i" "L (i + 1)"]
        by (simp add: R_def bL)
      finally show ?thesis by (simp add: bit_simps k ac_simps)
    qed (auto simp: bit_scalar_val bit_simps)
  qed
  then show "scalar_val (snd (scalar_shr_int_4x64 r n)) = scalar_val r div 2 ^ unat n"
    by (simp add: drop_bit_eq_div)
  have "uint (fst (scalar_shr_int_4x64 r n)) = take_bit (unat n) (scalar_val r)"
    unfolding scalar_shr_int_4x64_def push_bit_minus_1
    by (rule bit_eqI) (use assms in \<open>auto simp: bit_scalar_val scalar_limbs_def bit_simps Let_def\<close>)
  then show "uint (fst (scalar_shr_int_4x64 r n)) = scalar_val r mod 2 ^ unat n"
    by (simp add: take_bit_eq_mod)
qed

lemma mul_shift_limb:
  fixes l :: "u64 list" and shift :: u32
  assumes "j < 64" and "i \<le> 3" "256 \<le> unat shift"
  defines "lo \<equiv> shift AND 0x3F" and "q \<equiv> unat (drop_bit 6 shift)"
  shows "bit (if unat shift < 512 - 64 * i then drop_bit (unat lo) (l ! (i + q)) OR
        (if unat shift < 448 - 64 * i \<and> lo \<noteq> 0 then push_bit (unat (64 - lo)) (l ! (i + 1 + q)) else 0) else 0) j \<longleftrightarrow>
    64 * i + j + unat shift < 512 \<and> bit (l ! ((64 * i + j + unat shift) div 64)) ((64 * i + j + unat shift) mod 64)"
proof -
  define s where "s = unat lo"
  have s: "s = unat shift mod 64" "s < 64"
    by (simp_all add: s_def lo_def unat_and_3F)
  have s0: "lo = 0 \<longleftrightarrow> s = 0" by (simp add: s_def unsigned_eq_0_iff)
  have q: "unat shift = 64 * q + s" by (simp add: q_def unat_drop_bit s)
  have "lo < 64" using s(2) by (simp add: s_def word_less_nat_alt)
  then have h: "unat (64 - lo) = 64 - s" by (simp add: s_def unat_sub_if' word_less_nat_alt)
  have d: "(64 * i + j + unat shift) div 64 = i + q + (if j + s < 64 then 0 else 1)"
    "(64 * i + j + unat shift) mod 64 = (if j + s < 64 then j + s else j + s - 64)"
    using div_mod_64 [of "j + s" "i + q"] assms(1) s(2) by (simp_all add: q add_ac distrib_left)
  have c: "unat shift < 512 - 64 * i \<longleftrightarrow> i + q < 8" "unat shift < 448 - 64 * i \<longleftrightarrow> i + q < 7"
    "64 * i + j + unat shift < 512 \<longleftrightarrow> i + q + (if j + s < 64 then 0 else 1) < 8"
    unfolding q using assms(1,2) s(2) by auto
  show ?thesis
    unfolding d c h s_def [symmetric] s0 using assms(1) s(2)
    by (auto simp: bit_simps add.commute [of s] dest: bit_imp_le_length)
qed

lemma scalar_mul_shift_var_correct:
  assumes "256 \<le> unat shift" "unat shift \<le> 512"
  shows "scalar_val (scalar_mul_shift_var_4x64 a b shift) =
    (scalar_val a * scalar_val b + 2 ^ (unat shift - 1)) div 2 ^ unat shift"
proof -
  define l where "l = scalar_mul_512_4x64 a b"
  define L where "L = scalar_val a * scalar_val b"
  let ?s = "unat shift"
  have L: "limbs_val 64 l = L" "length l = 8" "0 \<le> L"
    by (simp_all add: l_def L_def scalar_mul_512_correct scalar_val_bounds)
  have bL: "bit L k \<longleftrightarrow> k < 512 \<and> bit (l ! (k div 64)) (k mod 64)" for k
    using bit_limbs_val [of l k] L by simp
  define W where "W i = l ! (i + unat (drop_bit 6 shift))" for i
  define lo hi where "lo = unat (shift AND 0x3F)" and "hi = unat (64 - (shift AND 0x3F))"
  define R where "R i = (if unat shift < 512 - 64 * i then drop_bit lo (W i) OR
        (if unat shift < 448 - 64 * i \<and> shift AND 0x3F \<noteq> 0 then push_bit hi (W (i + 1)) else 0) else 0)" for i
  let ?r = "Scalar4 (R 0) (R 1) (R 2) (R 3)"
  define flag where "flag = (ucast (drop_bit (unat ((shift - 1) AND 0x3F)) (l ! unat (drop_bit 6 (shift - 1))) AND 1) :: u32)"
  have r: "scalar_val ?r = L div 2 ^ ?s"
  proof -
    have "scalar_val ?r = drop_bit ?s L"
    proof (rule bit_eqI)
      fix k
      show "bit (scalar_val ?r) k = bit (drop_bit ?s L) k"
      proof (cases "k < 256")
        case True
        then have "k div 64 < 4" by (simp add: div_less_iff_less_mult)
        then have "k div 64 \<le> 3" by simp
        have "scalar_limbs ?r ! (k div 64) = R (k div 64)"
          using \<open>k div 64 < 4\<close> by (auto dest!: less4_cases simp: scalar_limbs_def)
        then have "bit (scalar_val ?r) k \<longleftrightarrow> bit (R (k div 64)) (k mod 64)"
          using True by (simp add: bit_scalar_val)
        also have "\<dots> \<longleftrightarrow> bit L (k + ?s)"
          using mul_shift_limb [of "k mod 64" "k div 64" shift l] \<open>k div 64 \<le> 3\<close> assms(1) unfolding bL R_def W_def lo_def hi_def by simp
        finally show ?thesis by (simp add: bit_simps add.commute)
      qed (use assms in \<open>auto simp: bit_scalar_val bit_simps bL\<close>)
    qed
    then show ?thesis by (simp add: drop_bit_eq_div)
  qed
  have s1: "unat (shift - 1) = ?s - 1" using assms by (simp add: unat_sub_if')
  have f: "flag = of_bool (bit L (?s - 1))"
    using assms by (intro bit_word_eqI) (auto simp: flag_def bL unat_and_3F unat_drop_bit s1 bit_simps)
  have sh: "shift < 512 \<longleftrightarrow> unat shift < 512" "shift < 448 \<longleftrightarrow> unat shift < 448" "shift < 384 \<longleftrightarrow> unat shift < 384"
    "shift < 320 \<longleftrightarrow> unat shift < 320" "\<not> unat shift < 256"
    using assms(1) by (simp_all add: word_less_nat_alt)
  have R: "R 0 = (if unat shift < 512 then drop_bit lo (W 0) OR (if unat shift < 448 \<and> shift AND 0x3F \<noteq> 0 then push_bit hi (W 1) else 0) else 0)"
    "R 1 = (if unat shift < 448 then drop_bit lo (W 1) OR (if unat shift < 384 \<and> shift AND 0x3F \<noteq> 0 then push_bit hi (W 2) else 0) else 0)"
    "R 2 = (if unat shift < 384 then drop_bit lo (W 2) OR (if unat shift < 320 \<and> shift AND 0x3F \<noteq> 0 then push_bit hi (W 3) else 0) else 0)"
    "R 3 = (if unat shift < 320 then drop_bit lo (W 3) else 0)"
    using sh(5) by (simp_all only: R_def) (simp_all add: eval_nat_numeral)
  have "scalar_mul_shift_var_4x64 a b shift = scalar_cadd_bit_4x64 ?r 0 flag"
    unfolding scalar_mul_shift_var_4x64_def Let_def flag_def l_def [symmetric] R sh(1-4) W_def lo_def hi_def ..
  then have "scalar_val (scalar_mul_shift_var_4x64 a b shift) = (L div 2 ^ ?s + of_bool (bit L (?s - 1))) mod 2 ^ 256"
    using scalar_cadd_bit_correct [of 0 flag ?r] unfolding r f by simp
  also have "\<dots> = L div 2 ^ ?s + of_bool (bit L (?s - 1))"
  proof (rule mod_pos_pos_trivial)
    have "L \<le> (2 ^ 256 - 1) * (2 ^ 256 - 1)"
      unfolding L_def using scalar_val_bounds [of a] scalar_val_bounds [of b] by (intro mult_mono) simp_all
    moreover have "(2 ^ 256 :: int) \<le> 2 ^ ?s" using assms by (intro power_increasing) simp_all
    then have "L div 2 ^ ?s \<le> L div 2 ^ 256" using L(3) by (intro zdiv_mono2) simp_all
    ultimately have "L div 2 ^ ?s < 2 ^ 256 - 1" by (simp add: div_less_iff_less_mult order_le_less_trans)
    then show "L div 2 ^ ?s + of_bool (bit L (?s - 1)) < 2 ^ 256" by auto
  qed (use L(3) in \<open>simp add: pos_imp_zdiv_nonneg_iff\<close>)
  also have "\<dots> = (L + 2 ^ (?s - 1)) div 2 ^ ?s"
    using assms by (intro div_round_half) simp
  finally show ?thesis by (simp add: L_def)
qed

lemma scalar_const_val:
  "scalar_val (scalar_const_4x64 d7 d6 d5 d4 d3 d2 d1 d0) = limbs_val 32 [d0, d1, d2, d3, d4, d5, d6, d7]"
proof -
  have p: "uint (push_bit 32 (ucast x) OR ucast y :: u64) = uint y + 2 ^ 32 * uint x" for x y :: u32
    unfolding or.commute [of "push_bit 32 _"]
    by (rule denotes_uint [OF denotes_or_push [where A = "2 ^ 32 - 1" and B = "2 ^ 32 - 1"]])
       (use uint32_le [of x] uint32_le [of y] in \<open>simp_all add: denotes_def\<close>)
  show ?thesis
    unfolding scalar_val_def scalar_limbs_def scalar_const_4x64_def scalar_4x64.select_convs limbs_val_Cons p
    by simp
qed

lemma scalar_is_even_iff: "scalar_is_even_4x64 a \<longleftrightarrow> even (scalar_val a)"
proof -
  have "even (scalar_val a) \<longleftrightarrow> even (uint (sd0 a))"
    by (simp add: scalar_val_def scalar_limbs_def limbs_val_Cons)
  then show ?thesis
    using bit_uint_iff [of "sd0 a" 0] by (simp add: scalar_is_even_4x64_def bit_0 and_one_eq flip: even_iff_mod_2_eq_zero odd_iff_mod_2_eq_one)
qed

interpretation s4: scalar_arith scalar_ops_4x64 scalar_val
  by unfold_locales
     (simp_all add: scalar_ops_4x64_def scalar_val_bounds scalar_mul_correct scalar_sqr_correct scalar_ok_def
       scalar_add_correct scalar_mul_shift_var_correct scalar_const_val)

subsection \<open>Properties\<close>

lemmas scalar_eval = scalar_ok_def scalar_val_def scalar_limbs_def limbs_val_Cons order_n_def

text \<open>Addition of two reduced scalars gives the reduced sum modulo the group order,
  and the returned flag is 1 exactly when the sum of the integers reached the order.\<close>

theorem scalar_add_mod:
  assumes "scalar_ok a" "scalar_ok b" and "scalar_add_4x64 a b = (overflow, r)"
  shows "scalar_ok r \<and> scalar_val r = (scalar_val a + scalar_val b) mod order_n \<and>
    overflow = of_bool (order_n \<le> scalar_val a + scalar_val b)"
  using scalar_add_correct [OF assms(1,2)] assms(3) by (simp add: scalar_ok_def order_n_def)

theorem scalar_add_mod_witness:
  "scalar_val (snd (scalar_add_4x64 (Scalar4 0xBFD25E8CD0364140 0xBAAEDCE6AF48A03B 0xFFFFFFFFFFFFFFFE 0xFFFFFFFFFFFFFFFF)
     (Scalar4 3 0 0 0))) = 2"
  using scalar_add_mod [of "Scalar4 0xBFD25E8CD0364140 0xBAAEDCE6AF48A03B 0xFFFFFFFFFFFFFFFE 0xFFFFFFFFFFFFFFFF"
     "Scalar4 3 0 0 0", OF _ _ surjective_pairing]
  by (simp add: scalar_eval)

text \<open>Multiplication and squaring, the 512 bit product of 64 bit limbs followed by the
  three reduction passes, give the reduced product modulo the group order for all limbs, reduced or not.\<close>

theorem scalar_mul_mod:
  "scalar_val (scalar_mul_4x64 a b) = scalar_val a * scalar_val b mod order_n \<and>
   scalar_val (scalar_sqr_4x64 a) = scalar_val a * scalar_val a mod order_n \<and>
   scalar_ok (scalar_mul_4x64 a b) \<and> scalar_ok (scalar_sqr_4x64 a)"
  by (simp add: scalar_mul_correct scalar_sqr_correct scalar_ok_def order_n_def)

text \<open>The reduction of any eight limbs is their value modulo the group order; in
  particular no carry is lost in the passes through 385 and 258 bits.\<close>

theorem scalar_reduce_512_mod:
  assumes "length l = 8"
  shows "scalar_val (scalar_reduce_512_4x64 l) = limbs_val 64 l mod order_n"
  by (rule scalar_reduce_512_correct [OF assms])

theorem scalar_reduce_512_mod_witness:
  "scalar_val (scalar_reduce_512_4x64 [0, 0, 0, 0, 1, 0, 0, 0]) = 2 ^ 256 - order_n"
  using scalar_reduce_512_mod [of "[0, 0, 0, 0, 1, 0, 0, 0]"] by (simp add: limbs_val_Cons order_n_def)

text \<open>Reading 32 bytes gives the big-endian value modulo the order together with the
  overflow flag; writing gives 32 bytes; and reading back what was written from a reduced scalar returns that
  scalar without overflow.\<close>

theorem scalar_b32_roundtrip:
  assumes "length b = 32" and "scalar_ok a"
  shows "scalar_val (snd (scalar_set_b32_4x64 b)) = be_val b mod order_n \<and>
    fst (scalar_set_b32_4x64 b) = of_bool (order_n \<le> be_val b) \<and>
    scalar_set_b32_4x64 (scalar_get_b32_4x64 a) = (0, a) \<and>
    (be_val b < order_n \<longrightarrow> scalar_get_b32_4x64 (snd (scalar_set_b32_4x64 b)) = b)"
proof (intro conjI impI)
  have "scalar_val (snd (scalar_set_b32_4x64 (scalar_get_b32_4x64 a))) = scalar_val a"
    using scalar_set_b32_correct(2) [of "scalar_get_b32_4x64 a"] assms(2) scalar_val_bounds [of a]
    by (simp add: scalar_get_b32_correct scalar_ok_def)
  moreover have "fst (scalar_set_b32_4x64 (scalar_get_b32_4x64 a)) = 0"
    using scalar_set_b32_correct(1) [of "scalar_get_b32_4x64 a"] assms(2)
    by (simp add: scalar_get_b32_correct scalar_ok_def)
  ultimately show "scalar_set_b32_4x64 (scalar_get_b32_4x64 a) = (0, a)"
    by (simp add: prod_eq_iff scalar_val_inject)
  assume "be_val b < order_n"
  then have "be_val (scalar_get_b32_4x64 (snd (scalar_set_b32_4x64 b))) = be_val b"
    using scalar_set_b32_correct(2) [OF assms(1)] be_val_bounds(1) [of b] by (simp add: scalar_get_b32_correct)
  then show "scalar_get_b32_4x64 (snd (scalar_set_b32_4x64 b)) = b"
    using assms(1) by (simp add: be_val_inject scalar_get_b32_correct(2))
qed (simp_all add: scalar_set_b32_correct assms(1))

theorem scalar_b32_roundtrip_witness:
  "scalar_set_b32_4x64 (scalar_get_b32_4x64 (Scalar4 1 2 3 4)) = (0, Scalar4 1 2 3 4)"
  using scalar_b32_roundtrip [of "replicate 32 0" "Scalar4 1 2 3 4"] by (simp add: scalar_eval)

text \<open>Negation of a reduced scalar is negation modulo the order (zero stays zero), and the
  constant-time conditional negation returns its input with 1 for a zero flag and the negation with -1 otherwise.\<close>

theorem scalar_negate_mod:
  assumes "scalar_ok a"
  shows "scalar_val (scalar_negate_4x64 a) = (- scalar_val a) mod order_n \<and> scalar_ok (scalar_negate_4x64 a) \<and>
    scalar_cond_negate_4x64 a flag = (if flag = 0 then (1, a) else (-1, scalar_negate_4x64 a))"
  using scalar_negate_correct [OF assms] by (simp add: cond_negate_eq scalar_ok_def order_n_def)

theorem scalar_negate_mod_witness:
  "scalar_cond_negate_4x64 (Scalar4 1 0 0 0) 7 = (-1, scalar_negate_4x64 (Scalar4 1 0 0 0)) \<and>
   scalar_val (scalar_negate_4x64 (Scalar4 1 0 0 0)) = order_n - 1"
  using scalar_negate_mod [of "Scalar4 1 0 0 0" 7] by (simp add: scalar_eval)

text \<open>The branch-free tests decide what they say: zero, one, above half the order, even, and equal.\<close>

theorem scalar_compare_spec:
  "(scalar_is_zero_4x64 a \<longleftrightarrow> scalar_val a = 0) \<and> (scalar_is_one_4x64 a \<longleftrightarrow> scalar_val a = 1) \<and>
   scalar_is_high_4x64 a = of_bool (scalar_val a > order_n div 2) \<and>
   scalar_check_overflow_4x64 a = of_bool (scalar_val a \<ge> order_n) \<and>
   (scalar_is_even_4x64 a \<longleftrightarrow> even (scalar_val a)) \<and>
   (scalar_eq_4x64 a b \<longleftrightarrow> scalar_val a = scalar_val b)"
  by (simp add: is_zero_iff is_one_iff scalar_is_high_iff half_order_def order_n_def [simplified] check_overflow
      scalar_is_even_iff scalar_eq_iff scalar_val_inject)

text \<open>Reading \<open>count\<close> bits at \<open>offset\<close>, also across a limb boundary, gives that bit field of
  the scalar.\<close>

theorem scalar_bits_spec:
  assumes "0 < unat count" "unat count < 32" "unat offset + unat count \<le> 256"
  shows "uint (scalar_get_bits_var_4x64 a offset count) = scalar_val a div 2 ^ unat offset mod 2 ^ unat count"
  by (rule scalar_get_bits_var_correct [OF assms])

theorem scalar_bits_spec_witness:
  "uint (scalar_get_bits_var_4x64 (Scalar4 0xF000000000000000 5 0 0) 60 8) = 0x5F"
  using scalar_bits_spec [of 8 60 "Scalar4 0xF000000000000000 5 0 0"] by (simp add: scalar_eval)

text \<open>Shifting right by one to fifteen bits divides the scalar and returns the bits shifted out;
  \<open>mul_shift_var\<close> is the product divided by \<open>2^shift\<close> and rounded to the nearest integer, for every shift from
  256 to 512.\<close>

theorem scalar_shift_spec:
  assumes "0 < unat n" "unat n < 16" and "256 \<le> unat shift" "unat shift \<le> 512"
  shows "scalar_val (snd (scalar_shr_int_4x64 a n)) = scalar_val a div 2 ^ unat n \<and>
    uint (fst (scalar_shr_int_4x64 a n)) = scalar_val a mod 2 ^ unat n \<and>
    scalar_val (scalar_mul_shift_var_4x64 a b shift) =
      (scalar_val a * scalar_val b + 2 ^ (unat shift - 1)) div 2 ^ unat shift"
  using assms by (simp add: scalar_shr_int_correct scalar_mul_shift_var_correct)

theorem scalar_shift_spec_witness:
  "scalar_val (scalar_mul_shift_var_4x64 (Scalar4 0 0 0 0x8000000000000000) (Scalar4 3 0 0 0) 256) = 2"
  using scalar_shift_spec [of 1 256 "Scalar4 0 0 0 0x8000000000000000" "Scalar4 3 0 0 0"] by (simp add: scalar_eval)

text \<open>Adding a power of two under a flag adds \<open>2^pos\<close> or nothing, modulo \<open>2^256\<close>.\<close>

theorem scalar_cadd_bit_spec:
  assumes "unat pos < 256" "flag = 0 \<or> flag = 1"
  shows "scalar_val (scalar_cadd_bit_4x64 r pos flag) = (scalar_val r + uint flag * 2 ^ unat pos) mod 2 ^ 256"
  by (rule scalar_cadd_bit_correct [OF assms])

theorem scalar_cadd_bit_spec_witness:
  "scalar_val (scalar_cadd_bit_4x64 (Scalar4 0 0xFFFFFFFFFFFFFFFF 0 0) 64 1) = 2 ^ 128"
  using scalar_cadd_bit_spec [of 64 1 "Scalar4 0 0xFFFFFFFFFFFFFFFF 0 0"] by (simp add: scalar_eval)

text \<open>The addition chain of the inverse raises its argument to the power \<open>n - 2\<close> modulo the
  order \<open>n\<close>, the exponent of Fermat's inverse.\<close>

theorem scalar_inverse_power:
  "scalar_val (scalar_inverse scalar_ops_4x64 x) mod order_n = scalar_val x ^ nat (order_n - 2) mod order_n"
  by (rule s4.inverse_val)

text \<open>The endomorphism split of a reduced scalar \<open>k\<close> gives \<open>k1\<close> and \<open>k2\<close> with
  \<open>k1 + lambda * k2 = k\<close> modulo the order, and both are short: read as signed residues they are below \<open>2^128\<close> in
  absolute value.\<close>

theorem scalar_split_lambda_spec:
  assumes "scalar_ok a" and "scalar_split_lambda scalar_ops_4x64 a = (r1, r2)"
  shows "(scalar_val r1 + scalar_lambda * scalar_val r2) mod order_n = scalar_val a \<and>
    \<bar>signed_mod (scalar_val r1)\<bar> < 2 ^ 128 \<and> \<bar>signed_mod (scalar_val r2)\<bar> < 2 ^ 128"
  using s4.split_lambda_sum [OF _ assms(2)] s4.split_lambda_short [OF _ assms(2)] assms(1) by (simp add: scalar_ok_def)

theorem scalar_split_lambda_spec_witness:
  "let (r1, r2) = scalar_split_lambda scalar_ops_4x64 (Scalar4 1 2 3 4)
   in (scalar_val r1 + scalar_lambda * scalar_val r2) mod order_n = scalar_val (Scalar4 1 2 3 4)"
  using scalar_split_lambda_spec [of "Scalar4 1 2 3 4", OF _ surjective_pairing]
  by (simp add: scalar_eval case_prod_beta)

end
