(* ===== verification/Limb_Acc.thy ===== *)
theory Limb_Acc
  imports Prelude
begin

text \<open>
  Accumulators of three words \<open>(c0, c1, c2)\<close>, as the multiplication code of the scalars keeps them, for any limb width: one step adds
  a product, a doubled product or a limb; then the lowest limb is extracted. The generic steps here are the arithmetic of the C
  macros, with the width of the double word as a type argument. \<open>acc_is c V B\<close> says that the accumulator holds \<open>V\<close>, at most \<open>B\<close>;
  \<open>adds f x D\<close> that \<open>f\<close> adds \<open>x\<close>, at most \<open>D\<close>, whenever there is room; \<open>columns\<close> runs one step per output limb.
\<close>

subsection \<open>The steps\<close>

type_synonym ('w, 'c) limb_acc = "'w word \<times> 'w word \<times> 'c word"

definition acc_muladd :: "'d::len itself \<Rightarrow> 'w::len word \<Rightarrow> 'w word \<Rightarrow> ('w, 'c::len) limb_acc \<Rightarrow> ('w, 'c) limb_acc" where
  "acc_muladd d a b = (\<lambda>(c0, c1, c2).
    let t = (ucast a :: 'd word) * ucast b;
        th = ucast (drop_bit LENGTH('w) t) :: 'w word;
        tl = ucast t :: 'w word;
        c0 = c0 + tl;
        th = th + of_bool (c0 < tl);
        c1 = c1 + th
    in (c0, c1, c2 + of_bool (c1 < th)))"

definition acc_muladd_fast :: "'d::len itself \<Rightarrow> 'w::len word \<Rightarrow> 'w word \<Rightarrow> ('w, 'c::len) limb_acc \<Rightarrow> ('w, 'c) limb_acc" where
  "acc_muladd_fast d a b = (\<lambda>(c0, c1, c2). case acc_muladd d a b (c0, c1, c2) of (m0, m1, _) \<Rightarrow> (m0, m1, c2))"

definition acc_muladd2 :: "'d::len itself \<Rightarrow> 'w::len word \<Rightarrow> 'w word \<Rightarrow> ('w, 'c::len) limb_acc \<Rightarrow> ('w, 'c) limb_acc" where
  "acc_muladd2 d a b = (\<lambda>(c0, c1, c2).
    let t = (ucast a :: 'd word) * ucast b;
        th = ucast (drop_bit LENGTH('w) t) :: 'w word;
        tl = ucast t :: 'w word;
        th2 = th + th;
        c2 = c2 + of_bool (th2 < th);
        tl2 = tl + tl;
        th2 = th2 + of_bool (tl2 < tl);
        c0 = c0 + tl2;
        th2 = th2 + of_bool (c0 < tl2);
        c2 = c2 + of_bool (c0 < tl2 \<and> th2 = 0);
        c1 = c1 + th2
    in (c0, c1, c2 + of_bool (c1 < th2)))"

definition acc_sumadd :: "'w::len word \<Rightarrow> ('w, 'c::len) limb_acc \<Rightarrow> ('w, 'c) limb_acc" where
  "acc_sumadd a = (\<lambda>(c0, c1, c2).
    let c0 = c0 + a;
        over = of_bool (c0 < a);
        c1 = c1 + over
    in (c0, c1, c2 + of_bool (c1 < over)))"

definition acc_sumadd_fast :: "'w::len word \<Rightarrow> ('w, 'c::len) limb_acc \<Rightarrow> ('w, 'c) limb_acc" where
  "acc_sumadd_fast a = (\<lambda>(c0, c1, c2). case acc_sumadd a (c0, c1, c2) of (m0, m1, _) \<Rightarrow> (m0, m1, c2))"

definition acc_extract :: "('w::len, 'c::len) limb_acc \<Rightarrow> 'w word \<times> ('w, 'c) limb_acc" where
  "acc_extract = (\<lambda>(c0, c1, c2). (c0, (c1, ucast c2, 0)))"

definition acc_extract_fast :: "('w::len, 'c::len) limb_acc \<Rightarrow> 'w word \<times> ('w, 'c) limb_acc" where
  "acc_extract_fast = (\<lambda>(c0, c1, c2). (c0, (c1, 0, c2)))"

definition limb_acc_val :: "('w::len, 'c::len) limb_acc \<Rightarrow> int" where
  "limb_acc_val = (\<lambda>(c0, c1, c2). uint c0 + 2 ^ LENGTH('w) * (uint c1 + 2 ^ LENGTH('w) * uint c2))"

definition holds :: "('w::len, 'c::len) limb_acc \<Rightarrow> int \<Rightarrow> int \<Rightarrow> bool" where
  "holds c V B \<longleftrightarrow> limb_acc_val c = V \<and> V \<le> B"

definition room :: "('w::len, 'c::len) limb_acc itself \<Rightarrow> int" where
  "room _ = 2 ^ LENGTH('w) * 2 ^ LENGTH('w) * 2 ^ LENGTH('c)"

definition acc_adds :: "(('w::len, 'c::len) limb_acc \<Rightarrow> ('w, 'c) limb_acc) \<Rightarrow> int \<Rightarrow> int \<Rightarrow> bool" where
  "acc_adds f x D \<longleftrightarrow> 0 \<le> x \<and> x \<le> D \<and>
    (\<forall>c V B. holds c V B \<longrightarrow> B + D < room TYPE(('w, 'c) limb_acc) \<longrightarrow> holds (f c) (V + x) (B + D))"

fun acc_columns :: "(('w::len, 'c::len) limb_acc \<Rightarrow> ('w, 'c) limb_acc) list \<Rightarrow> ('w, 'c) limb_acc \<Rightarrow> 'w word list \<times> ('w, 'c) limb_acc" where
  "acc_columns [] c = ([], c)"
| "acc_columns (f # fs) c = (let (n, c) = acc_extract (f c); (ns, c) = acc_columns fs c in (n # ns, c))"

subsection \<open>Carries\<close>

lemma double_word_split:
  fixes a b :: "'w::len word"
  assumes d: "LENGTH('d::len) = 2 * LENGTH('w)"
  defines "t \<equiv> (ucast a :: 'd word) * ucast b"
  shows "uint (ucast t :: 'w word) + 2 ^ LENGTH('w) * uint (ucast (drop_bit LENGTH('w) t) :: 'w word) = uint a * uint b"
    and "uint (ucast (drop_bit LENGTH('w) t) :: 'w word) + 1 < 2 ^ LENGTH('w)"
proof -
  define M :: int where "M = 2 ^ LENGTH('w)"
  have M: "2 \<le> M" unfolding M_def using power_increasing [of 1 "LENGTH('w)" "2 :: int"] by simp
  have le: "uint a \<le> M - 1" "uint b \<le> M - 1" using uint_bounded [of a] uint_bounded [of b] by (simp_all add: M_def)
  then have p: "uint a * uint b \<le> (M - 1) * (M - 1)" using M by (intro mult_mono) auto
  also have less: "(M - 1) * (M - 1) < M * (M - 1)" using M by (intro mult_strict_right_mono) auto
  finally have pq: "uint a * uint b < M * (M - 1)" .
  have MM: "M * M = 2 ^ LENGTH('d)" unfolding M_def d by (simp add: mult_2 power_add)
  have "M * (M - 1) < 2 ^ LENGTH('d)" unfolding MM [symmetric] using M by (intro mult_strict_left_mono) auto
  moreover have "LENGTH('w) \<le> LENGTH('d)" using d by simp
  ultimately have t: "uint t = uint a * uint b"
    using pq by (simp add: t_def uint_word_ariths uint_ucast_up)
  have "0 < M" using M by simp
  have "M * (uint t div M) < M * (M - 1)" using pq mult_div_mod_eq [of M "uint t"] pos_mod_sign [OF \<open>0 < M\<close>, of "uint t"] unfolding t by linarith
  then have q: "uint t div M < M - 1" using \<open>0 < M\<close> by simp
  have "0 \<le> uint t div M" using M by (simp add: pos_imp_zdiv_nonneg_iff)
  then have h: "uint (ucast (drop_bit LENGTH('w) t) :: 'w word) = uint t div M"
    using q unfolding unsigned_ucast_eq uint_drop_bit M_def [symmetric]
    by (simp add: take_bit_int_eq_self_iff M_def)
  have l: "uint (ucast t :: 'w word) = uint t mod M"
    by (simp add: unsigned_ucast_eq take_bit_eq_mod M_def)
  show "uint (ucast t :: 'w word) + 2 ^ LENGTH('w) * uint (ucast (drop_bit LENGTH('w) t) :: 'w word) = uint a * uint b"
    unfolding h l t [symmetric] M_def [symmetric] by simp
  show "uint (ucast (drop_bit LENGTH('w) t) :: 'w word) + 1 < 2 ^ LENGTH('w)"
    using q unfolding h M_def [symmetric] by simp
qed

lemma word_carry:
  fixes x y :: "'w::len word"
  shows "uint (x + y) + 2 ^ LENGTH('w) * of_bool (x + y < y) = uint x + uint y"
  using uint_bounded [of x] uint_bounded [of y] uint_gt [of x] uint_gt [of y]
  by (auto simp: uint_plus_if' word_less_def)

lemma uint_bool: "uint (of_bool k :: 'a::len word) = of_bool k"
  by (cases k) simp_all

lemma word_carry_bool:
  fixes x :: "'w::len word"
  shows "uint (x + of_bool k) + 2 ^ LENGTH('w) * of_bool (k \<and> x + of_bool k = 0) = uint x + of_bool k"
  using word_carry [of x "of_bool k"] by (cases k) auto

lemma word_add_bool:
  fixes x :: "'w::len word"
  assumes "uint x + 1 < 2 ^ LENGTH('w)"
  shows "uint (x + of_bool k) = uint x + of_bool k"
  using assms by (cases k) (simp_all add: uint_word_ariths)

lemma double_max:
  fixes x :: "'w::len word"
  shows "uint (x + x) + 1 < 2 ^ LENGTH('w)"
proof -
  have "even (uint (x + x))" by (simp add: uint_word_ariths dvd_mod)
  then have "odd (uint (x + x) + 1)" by simp
  then have "uint (x + x) + 1 \<noteq> 2 ^ LENGTH('w)" by (metis even_power len_gt_0 even_numeral)
  moreover have "uint (x + x) < 2 ^ LENGTH('w)" by (rule uint_bounded)
  ultimately show ?thesis by linarith
qed

subsection \<open>The steps add\<close>

lemma holds_top:
  fixes c2 k :: int
  assumes "V = x + M * (y + M * c2)" "0 \<le> x" "0 \<le> y" "0 < M" "V < M * M * K"
  shows "c2 < K"
proof -
  have "M * M * c2 \<le> V" using assms by (simp add: algebra_simps)
  then have "M * M * c2 < M * M * K" using assms(5) by linarith
  then show ?thesis using assms(4) by (subst (asm) mult_less_cancel_left_pos) simp_all
qed

lemma uint_add_bools:
  fixes c2 :: "'c::len word"
  assumes "uint c2 + of_bool i + of_bool j + of_bool k < 2 ^ LENGTH('c)"
  shows "uint (c2 + of_bool i + of_bool j + of_bool k) = uint c2 + of_bool i + of_bool j + of_bool k"
proof -
  have "uint (c2 + of_bool i + of_bool j + of_bool k) = (uint c2 + of_bool i + of_bool j + of_bool k) mod 2 ^ LENGTH('c)"
    by (simp only: uint_word_ariths uint_bool mod_simps)
  with assms show ?thesis by (simp add: mod_pos_pos_trivial)
qed

lemma holds_intro:
  fixes c0 c1 :: "'w::len word" and c2 :: "'c::len word"
  assumes "V = uint c0 + 2 ^ LENGTH('w) * (uint c1 + 2 ^ LENGTH('w) * (uint c2 + of_bool i + of_bool j + of_bool k))"
    and "V \<le> B" "B < room TYPE(('w, 'c) limb_acc)"
  shows "holds (c0, c1, c2 + of_bool i + of_bool j + of_bool k) V B"
proof -
  have "uint c2 + of_bool i + of_bool j + of_bool k < 2 ^ LENGTH('c)"
    by (rule holds_top [OF assms(1)]) (use assms(2,3) in \<open>simp_all add: room_def\<close>)
  from uint_add_bools [OF this] show ?thesis using assms(1,2) by (simp add: holds_def limb_acc_val_def)
qed

lemma muladd_identity:
  fixes V :: int
  assumes "V = c0 + M * (c1 + M * c2)" "lo + M * hi = ab" "t = hi + k0" "x0 + M * k0 = c0 + lo" "x1 + M * k1 = c1 + t"
  shows "V + ab = x0 + M * (x1 + M * (c2 + of_bool False + of_bool False + k1))"
  using assms unfolding of_bool_eq add_0_right by algebra

lemma holds_muladd:
  fixes c :: "('w::len, 'c::len) limb_acc"
  assumes d: "LENGTH('d::len) = 2 * LENGTH('w)"
    and "holds c V B" and "V + uint a * uint b \<le> B'" and "B' < room TYPE(('w, 'c) limb_acc)"
  shows "holds (acc_muladd TYPE('d) a b c) (V + uint a * uint b) B'"
proof -
  obtain c0 c1 c2 where c: "c = (c0, c1, c2)" by (cases c) auto
  define tl where "tl = (ucast ((ucast a :: 'd word) * ucast b) :: 'w word)"
  define th where "th = (ucast (drop_bit LENGTH('w) ((ucast a :: 'd word) * ucast b)) :: 'w word)"
  let ?k0 = "c0 + tl < tl" let ?th = "th + of_bool ?k0"
  let ?k1 = "c1 + ?th < ?th"
  have m: "acc_muladd TYPE('d) a b c = (c0 + tl, c1 + ?th, c2 + of_bool False + of_bool False + of_bool ?k1)"
    by (simp add: acc_muladd_def c tl_def th_def Let_def)
  have p: "uint tl + 2 ^ LENGTH('w) * uint th = uint a * uint b" "uint ?th = uint th + of_bool ?k0"
    unfolding tl_def th_def by (rule double_word_split [OF d] word_add_bool)+
  have V: "V = uint c0 + 2 ^ LENGTH('w) * (uint c1 + 2 ^ LENGTH('w) * uint c2)"
    using assms(2) by (simp add: c holds_def limb_acc_val_def)
  show ?thesis unfolding m
    by (rule holds_intro [OF muladd_identity [OF V p word_carry word_carry]]) (rule assms)+
qed

lemma muladd2_identity:
  fixes V :: int
  assumes "V = c0 + M * (c1 + M * c2)" "lo + M * hi = ab" "s = hh + kb" "t3 + M * kd = s + kc"
    "hh + M * ka = hi + hi" "ll + M * kb = lo + lo" "x0 + M * kc = c0 + ll" "x1 + M * ke = c1 + t3"
  shows "V + 2 * ab = x0 + M * (x1 + M * (c2 + ka + kd + ke))"
  using assms by algebra

lemma holds_muladd2:
  fixes c :: "('w::len, 'c::len) limb_acc"
  assumes d: "LENGTH('d::len) = 2 * LENGTH('w)"
    and "holds c V B" and "V + 2 * (uint a * uint b) \<le> B'" and "B' < room TYPE(('w, 'c) limb_acc)"
  shows "holds (acc_muladd2 TYPE('d) a b c) (V + 2 * (uint a * uint b)) B'"
proof -
  obtain c0 c1 c2 where c: "c = (c0, c1, c2)" by (cases c) auto
  define tl where "tl = (ucast ((ucast a :: 'd word) * ucast b) :: 'w word)"
  define th where "th = (ucast (drop_bit LENGTH('w) ((ucast a :: 'd word) * ucast b)) :: 'w word)"
  define th2 where "th2 = th + th + of_bool (tl + tl < tl)"
  define kc where "kc \<longleftrightarrow> c0 + (tl + tl) < tl + tl"
  define th3 where "th3 = th2 + of_bool kc"
  let ?ka = "th + th < th" let ?kd = "kc \<and> th3 = 0" let ?ke = "c1 + th3 < th3"
  have m: "acc_muladd2 TYPE('d) a b c = (c0 + (tl + tl), c1 + th3, c2 + of_bool ?ka + of_bool ?kd + of_bool ?ke)"
    unfolding acc_muladd2_def c tl_def th_def th2_def th3_def kc_def Let_def by simp
  have V: "V = uint c0 + 2 ^ LENGTH('w) * (uint c1 + 2 ^ LENGTH('w) * uint c2)"
    using assms(2) by (simp add: c holds_def limb_acc_val_def)
  note p = double_word_split(1) [OF d, of a b, folded tl_def th_def]
  show ?thesis
    unfolding m
    by (rule holds_intro [OF muladd2_identity [OF V p word_add_bool [OF double_max, of th "tl + tl < tl", folded th2_def]
        word_carry_bool [of th2 kc, folded th3_def] word_carry [of th th] word_carry [of tl tl]
        word_carry [of c0 "tl + tl", folded kc_def] word_carry [of c1 th3]]]) (rule assms)+
qed

lemma holds_sumadd:
  fixes c :: "('w::len, 'c::len) limb_acc"
  assumes "holds c V B" and "V + uint a \<le> B'" and "B' < room TYPE(('w, 'c) limb_acc)"
  shows "holds (acc_sumadd a c) (V + uint a) B'"
proof -
  obtain c0 c1 c2 where c: "c = (c0, c1, c2)" by (cases c) auto
  let ?k0 = "c0 + a < a" let ?o = "of_bool ?k0 :: 'w word"
  let ?k1 = "c1 + ?o < ?o"
  have m: "acc_sumadd a c = (c0 + a, c1 + ?o, c2 + of_bool False + of_bool False + of_bool ?k1)"
    by (simp add: acc_sumadd_def c Let_def)
  have V: "V = uint c0 + 2 ^ LENGTH('w) * (uint c1 + 2 ^ LENGTH('w) * uint c2)"
    using assms(1) by (simp add: c holds_def limb_acc_val_def)
  have a: "uint a + 2 ^ LENGTH('w) * 0 = uint a" "uint ?o = 0 + of_bool ?k0" by (simp_all add: uint_bool)
  show ?thesis unfolding m
    by (rule holds_intro [OF muladd_identity [OF V a word_carry word_carry]]) (rule assms)+
qed

text \<open>With a value below two limbs the fast variants do the same as the full ones.\<close>

lemma top_zero:
  fixes c0 c1 :: "'w::len word" and c2 :: "'c::len word"
  assumes "limb_acc_val (c0, c1, c2) < 2 ^ LENGTH('w) * 2 ^ LENGTH('w)"
  shows "c2 = 0"
proof -
  have "uint c2 < 1"
    by (rule holds_top [OF refl, of "uint c0" "uint c1" "2 ^ LENGTH('w)"])
       (use assms in \<open>simp_all add: limb_acc_val_def\<close>)
  then show ?thesis using uint_gt [of c2] by (intro word_uint_eqI) simp
qed

lemma limb_acc_val_nonneg [simp]: "0 \<le> limb_acc_val c"
  by (cases c) (simp add: limb_acc_val_def)

lemma room_gt: "2 ^ LENGTH('w) * 2 ^ LENGTH('w) < room TYPE(('w::len, 'c::len) limb_acc)"
proof -
  have "(1 :: int) < 2 ^ LENGTH('c)" by (rule one_less_power) simp_all
  then show ?thesis by (simp add: room_def)
qed

lemma muladd_fast:
  fixes c :: "('w::len, 'c::len) limb_acc"
  assumes d: "LENGTH('d::len) = 2 * LENGTH('w)" and "limb_acc_val c + uint a * uint b < 2 ^ LENGTH('w) * 2 ^ LENGTH('w)"
  shows "acc_muladd_fast TYPE('d) a b c = acc_muladd TYPE('d) a b c"
proof -
  obtain c0 c1 c2 where c: "c = (c0, c1, c2)" by (cases c) auto
  obtain m0 m1 m2 where m: "acc_muladd TYPE('d) a b c = (m0, m1, m2)" by (cases "acc_muladd TYPE('d) a b c") auto
  have "holds (m0, m1, m2) (limb_acc_val c + uint a * uint b) (limb_acc_val c + uint a * uint b)"
    unfolding m [symmetric]
    by (rule holds_muladd [OF d]) (use assms(2) room_gt [where 'w = 'w and 'c = 'c] in \<open>auto simp: holds_def\<close>)
  then have "m2 = 0" using assms(2) by (intro top_zero [of m0 m1]) (simp add: holds_def)
  moreover have "0 \<le> uint a * uint b" by simp
  then have "limb_acc_val (c0, c1, c2) < 2 ^ LENGTH('w) * 2 ^ LENGTH('w)" using assms(2) unfolding c by linarith
  then have "c2 = 0" by (rule top_zero)
  ultimately show ?thesis using m by (simp add: acc_muladd_fast_def c)
qed

lemma sumadd_fast:
  fixes c :: "('w::len, 'c::len) limb_acc"
  assumes "limb_acc_val c + uint a < 2 ^ LENGTH('w) * 2 ^ LENGTH('w)"
  shows "acc_sumadd_fast a c = acc_sumadd a c"
proof -
  obtain c0 c1 c2 where c: "c = (c0, c1, c2)" by (cases c) auto
  obtain m0 m1 m2 where m: "acc_sumadd a c = (m0, m1, m2)" by (cases "acc_sumadd a c") auto
  have "holds (m0, m1, m2) (limb_acc_val c + uint a) (limb_acc_val c + uint a)"
    unfolding m [symmetric]
    by (rule holds_sumadd) (use assms room_gt [where 'w = 'w and 'c = 'c] in \<open>auto simp: holds_def\<close>)
  then have "m2 = 0" using assms by (intro top_zero [of m0 m1]) (simp add: holds_def)
  moreover have "limb_acc_val (c0, c1, c2) < 2 ^ LENGTH('w) * 2 ^ LENGTH('w)" using assms uint_gt [of a] unfolding c by linarith
  then have "c2 = 0" by (rule top_zero)
  ultimately show ?thesis using m by (simp add: acc_sumadd_fast_def c)
qed

lemma extract_fast_same:
  fixes c :: "('w::len, 'c::len) limb_acc"
  assumes "limb_acc_val c < 2 ^ LENGTH('w) * 2 ^ LENGTH('w)"
  shows "acc_extract_fast c = acc_extract c"
proof -
  obtain c0 c1 c2 where c: "c = (c0, c1, c2)" by (cases c) auto
  then have "c2 = 0" using assms by (intro top_zero [of c0 c1]) simp
  then show ?thesis by (simp add: c acc_extract_fast_def acc_extract_def)
qed

lemma extract_value:
  fixes c :: "('w::len, 'c::len) limb_acc"
  assumes "LENGTH('c) \<le> LENGTH('w)" and "acc_extract c = (n, c')"
  shows "limb_acc_val c' = limb_acc_val c div 2 ^ LENGTH('w)" "uint n = limb_acc_val c mod 2 ^ LENGTH('w)"
proof -
  obtain c0 c1 c2 where c: "c = (c0, c1, c2)" by (cases c) auto
  have e: "n = c0" "c' = (c1, ucast c2, 0)" using assms(2) by (simp_all add: c acc_extract_def)
  have "uint c0 + 2 ^ LENGTH('w) * (uint c1 + 2 ^ LENGTH('w) * uint c2) = limb_acc_val c" by (simp add: c limb_acc_val_def)
  note d = div_mod_unique_int [OF this]
  show "limb_acc_val c' = limb_acc_val c div 2 ^ LENGTH('w)" "uint n = limb_acc_val c mod 2 ^ LENGTH('w)"
    using d uint_bounded [of c0] assms(1) by (simp_all add: e limb_acc_val_def uint_ucast_up)
qed

subsection \<open>Columns\<close>

lemma uint_max: "uint a \<le> 2 ^ LENGTH('w) - 1" for a :: "'w::len word"
  using uint_bounded [of a] by linarith

lemma product_max: "uint (a :: 'w::len word) * uint (b :: 'w word) \<le> (2 ^ LENGTH('w) - 1) * (2 ^ LENGTH('w) - 1)"
  using uint_max [of a] uint_max [of b] by (intro mult_mono) auto

lemma acc_addsI:
  fixes f :: "('w::len, 'c::len) limb_acc \<Rightarrow> ('w, 'c) limb_acc"
  assumes "0 \<le> x" "x \<le> D" "\<And>c V B. holds c V B \<Longrightarrow> B + D < room TYPE(('w, 'c) limb_acc) \<Longrightarrow> holds (f c) (V + x) (B + D)"
  shows "acc_adds f x D"
  using assms by (simp add: acc_adds_def)

lemma acc_addsD:
  fixes f :: "('w::len, 'c::len) limb_acc \<Rightarrow> ('w, 'c) limb_acc"
  assumes "acc_adds f x D"
  shows "0 \<le> x" "x \<le> D" "holds c V B \<Longrightarrow> B + D < room TYPE(('w, 'c) limb_acc) \<Longrightarrow> holds (f c) (V + x) (B + D)"
  using assms unfolding acc_adds_def by blast+

lemma acc_adds_muladd:
  fixes a b :: "'w::len word"
  assumes "LENGTH('d::len) = 2 * LENGTH('w)"
  shows "acc_adds (acc_muladd TYPE('d) a b) (uint a * uint b) ((2 ^ LENGTH('w) - 1) * (2 ^ LENGTH('w) - 1))"
  using product_max [of a b] by (intro acc_addsI holds_muladd [OF assms]) (auto simp: holds_def)

lemma acc_adds_muladd2:
  fixes a b :: "'w::len word"
  assumes "LENGTH('d::len) = 2 * LENGTH('w)"
  shows "acc_adds (acc_muladd2 TYPE('d) a b) (2 * (uint a * uint b)) (2 * ((2 ^ LENGTH('w) - 1) * (2 ^ LENGTH('w) - 1)))"
  using product_max [of a b] by (intro acc_addsI holds_muladd2 [OF assms]) (auto simp: holds_def)

lemma acc_adds_sumadd: "acc_adds (acc_sumadd a) (uint a) (2 ^ LENGTH('w) - 1)" for a :: "'w::len word"
  using uint_max [of a] by (intro acc_addsI holds_sumadd) (simp_all add: holds_def add_mono)

lemma acc_adds_comp:
  fixes f g :: "('w::len, 'c::len) limb_acc \<Rightarrow> ('w, 'c) limb_acc"
  assumes f: "acc_adds f x D" and g: "acc_adds g y E"
  shows "acc_adds (\<lambda>c. g (f c)) (x + y) (D + E)"
proof (rule acc_addsI)
  note fg = acc_addsD [OF f] acc_addsD [OF g]
  show "0 \<le> x + y" "x + y \<le> D + E" using fg(1,2,4,5) by simp_all
  fix c :: "('w, 'c) limb_acc" and V B
  assume c: "holds c V B" and B: "B + (D + E) < room TYPE(('w, 'c) limb_acc)"
  have "holds (f c) (V + x) (B + D)" by (rule fg(3) [OF c]) (use B fg(4,5) in linarith)
  then have "holds (g (f c)) (V + x + y) (B + D + E)" by (rule fg(6)) (use B in linarith)
  then show "holds (g (f c)) (V + (x + y)) (B + (D + E))" by (simp only: add.assoc)
qed

lemma acc_adds_weaken:
  fixes f :: "('w::len, 'c::len) limb_acc \<Rightarrow> ('w, 'c) limb_acc"
  assumes f: "acc_adds f x D" and "D \<le> E"
  shows "acc_adds f x E"
proof (rule acc_addsI)
  show "0 \<le> x" "x \<le> E" using acc_addsD(1,2) [OF f] assms(2) by simp_all
  fix c :: "('w, 'c) limb_acc" and V B
  assume c: "holds c V B" and B: "B + E < room TYPE(('w, 'c) limb_acc)"
  have "holds (f c) (V + x) (B + D)" by (rule acc_addsD(3) [OF f c]) (use B assms(2) in linarith)
  then show "holds (f c) (V + x) (B + E)" using assms(2) by (simp add: holds_def)
qed

fun horner_val :: "int \<Rightarrow> int list \<Rightarrow> int" where
  "horner_val M [] = 0"
| "horner_val M (x # xs) = x + M * horner_val M xs"

text \<open>Running the columns: with carries at most \<open>K\<close> before and after every column, the limbs and the rest are the sum of the columns.\<close>

lemma acc_columns_val:
  fixes c :: "('w::len, 'c::len) limb_acc"
  assumes "list_all2 (\<lambda>f x. acc_adds f x D) fs xs" "limb_acc_val c \<le> K" "acc_columns fs c = (ns, c')"
    and "LENGTH('c) \<le> LENGTH('w)" "K + D < room TYPE(('w, 'c) limb_acc)" "(K + D) div 2 ^ LENGTH('w) \<le> K"
  shows "limb_acc_val c' \<le> K \<and> length ns = length fs \<and>
    limbs_val LENGTH('w) ns + (2 ^ LENGTH('w)) ^ length fs * limb_acc_val c' = limb_acc_val c + horner_val (2 ^ LENGTH('w)) xs"
  using assms(1-3)
proof (induction fs xs arbitrary: c ns rule: list_all2_induct)
  case (Cons f fs x xs)
  let ?M = "2 ^ LENGTH('w) :: int"
  obtain n d where e: "acc_extract (f c) = (n, d)" by (cases "acc_extract (f c)")
  obtain ms where ns: "ns = n # ms" and ms: "acc_columns fs d = (ms, c')"
    using Cons.prems(2) by (auto simp: e Let_def split: prod.splits)
  have "holds c (limb_acc_val c) K" using Cons.prems(1) by (simp add: holds_def)
  then have "holds (f c) (limb_acc_val c + x) (K + D)" by (rule acc_addsD(3) [OF Cons.hyps(1)]) (rule assms)
  then have f: "limb_acc_val (f c) = limb_acc_val c + x" "limb_acc_val (f c) \<le> K + D" by (simp_all add: holds_def)
  note d = extract_value [OF assms(4) e]
  have "limb_acc_val d \<le> K" using zdiv_mono1 [OF f(2), of ?M] assms(6) by (simp add: d(1))
  note IH = Cons.IH [OF this ms]
  have "limbs_val LENGTH('w) ns + ?M ^ length (f # fs) * limb_acc_val c' = uint n + ?M * (limbs_val LENGTH('w) ms + ?M ^ length fs * limb_acc_val c')"
    by (simp add: ns limbs_val_Cons algebra_simps)
  also have "\<dots> = limb_acc_val (f c) mod ?M + ?M * (limb_acc_val (f c) div ?M) + ?M * horner_val ?M xs"
    using IH d by (simp add: algebra_simps)
  also have "\<dots> = limb_acc_val c + horner_val ?M (x # xs)"
    unfolding mod_mult_div_eq f(1) by simp
  finally show ?case using IH by (simp add: ns)
qed simp

lemma first_column_fast:
  fixes a b l :: "'w::len word"
  assumes d: "LENGTH('d::len) = 2 * LENGTH('w)"
  defines "c \<equiv> acc_muladd TYPE('d) a b (l, 0, 0) :: ('w, 'c::len) limb_acc"
  shows "acc_muladd_fast TYPE('d) a b (l, 0, 0) = c" "acc_extract_fast c = acc_extract c"
    and "limb_acc_val c = uint l + uint a * uint b"
proof -
  let ?M = "2 ^ LENGTH('w) :: int"
  have "uint l + uint a * uint b \<le> (?M - 1) + (?M - 1) * (?M - 1)" by (intro add_mono uint_max product_max)
  also have "\<dots> = ?M * (?M - 1)" by (simp add: algebra_simps)
  also have "\<dots> < ?M * ?M" by simp
  finally have less: "uint l + uint a * uint b < ?M * ?M" .
  have v0: "limb_acc_val ((l, 0, 0) :: ('w, 'c) limb_acc) = uint l" by (simp add: limb_acc_val_def)
  show "acc_muladd_fast TYPE('d) a b (l, 0, 0) = c"
    unfolding c_def by (rule muladd_fast [OF d]) (use less in \<open>simp add: v0\<close>)
  have "holds c (uint l + uint a * uint b) (uint l + uint a * uint b)"
    unfolding c_def by (rule holds_muladd [OF d, of _ _ "uint l"]) (use less room_gt [where 'w = 'w and 'c = 'c] in \<open>auto simp: holds_def v0\<close>)
  then show v: "limb_acc_val c = uint l + uint a * uint b" by (simp add: holds_def)
  show "acc_extract_fast c = acc_extract c" by (rule extract_fast_same) (use less v in simp)
qed

text \<open>The last two limbs, where the rest fits.\<close>

lemma last_limbs:
  fixes c :: "('w::len, 'c::len) limb_acc"
  assumes "limb_acc_val c < 2 ^ LENGTH('w) * 2 ^ LENGTH('w)" "acc_extract_fast c = (n, c')" "LENGTH('c) \<le> LENGTH('w)"
  shows "uint n + 2 ^ LENGTH('w) * uint (fst c') = limb_acc_val c"
proof -
  obtain c0 c1 c2 where c: "c = (c0, c1, c2)" by (cases c) auto
  then have "c2 = 0" using assms(1) by (intro top_zero [of c0 c1]) simp
  then show ?thesis using assms(2) by (auto simp: c acc_extract_fast_def limb_acc_val_def)
qed

lemma holds_fast:
  fixes c :: "('w::len, 'c::len) limb_acc"
  assumes "limb_acc_val c + x \<le> B" "B < 2 ^ LENGTH('w) * 2 ^ LENGTH('w)"
  shows "LENGTH('d::len) = 2 * LENGTH('w) \<Longrightarrow> x = uint a * uint b \<Longrightarrow> limb_acc_val (acc_muladd_fast TYPE('d) a b c) = limb_acc_val c + x"
    and "x = uint a \<Longrightarrow> limb_acc_val (acc_sumadd_fast a c) = limb_acc_val c + x"
proof -
  have r: "limb_acc_val c + x < room TYPE(('w, 'c) limb_acc)" using assms room_gt [where 'w = 'w and 'c = 'c] by linarith
  show "limb_acc_val (acc_muladd_fast TYPE('d) a b c) = limb_acc_val c + x" if "LENGTH('d) = 2 * LENGTH('w)" "x = uint a * uint b"
    using muladd_fast [OF that(1), of c a b] holds_muladd [OF that(1), of c "limb_acc_val c" "limb_acc_val c" a b "limb_acc_val c + x"] assms that(2) r
    by (simp add: holds_def)
  show "limb_acc_val (acc_sumadd_fast a c) = limb_acc_val c + x" if "x = uint a"
    using sumadd_fast [of c a] holds_sumadd [of c "limb_acc_val c" "limb_acc_val c" a "limb_acc_val c + x"] assms that r
    by (simp add: holds_def)
qed

text \<open>A whole product: one column per limb, with the last product added by the fast macros.\<close>

lemma comba:
  fixes C :: "('w::len, 'c::len) limb_acc"
  assumes d: "LENGTH('d::len) = 2 * LENGTH('w)" and fs: "list_all2 (\<lambda>f x. acc_adds f x D) fs xs"
    and col: "acc_columns fs (0, 0, 0) = (ns, C)" and e: "acc_extract_fast (acc_muladd_fast TYPE('d) a b C) = (n, C')"
    and T: "horner_val (2 ^ LENGTH('w)) xs + (2 ^ LENGTH('w)) ^ length fs * (uint a * uint b) = T" "T < (2 ^ LENGTH('w)) ^ (length fs + 2)"
    and "LENGTH('c) \<le> LENGTH('w)" "0 \<le> K" "K + D < room TYPE(('w, 'c) limb_acc)" "(K + D) div 2 ^ LENGTH('w) \<le> K"
  shows "limbs_val LENGTH('w) (ns @ [n, fst C']) = T \<and> length ns = length fs"
proof -
  let ?M = "2 ^ LENGTH('w) :: int"
  have C: "length ns = length fs" "limbs_val LENGTH('w) ns + ?M ^ length fs * limb_acc_val C = horner_val ?M xs"
    using acc_columns_val [OF fs _ col assms(7,9,10)] assms(8) by (simp_all add: limb_acc_val_def)
  let ?V = "limb_acc_val C + uint a * uint b"
  have T': "limbs_val LENGTH('w) ns + ?M ^ length fs * ?V = T" using C(2) T(1) by (simp add: algebra_simps)
  then have "?M ^ length fs * ?V < ?M ^ length fs * (?M * ?M)"
    using T(2) limbs_val_nonneg [of "LENGTH('w)" ns] unfolding power_add power2_eq_square by linarith
  then have V: "?V < ?M * ?M" using mult_less_cancel_left_pos [of "?M ^ length fs"] by simp
  have v: "limb_acc_val (acc_muladd_fast TYPE('d) a b C) = ?V" by (rule holds_fast(1) [OF order_refl V d refl])
  have "uint n + ?M * uint (fst C') = ?V" using last_limbs [OF _ e assms(7)] V unfolding v by simp
  then show ?thesis
    using T' C(1) by (simp add: limbs_val_append limbs_val_Cons power_mult)
qed

subsection \<open>Carry chains of 32 bit limbs\<close>

abbreviation low32 :: "u64 \<Rightarrow> u32" where
  "low32 t \<equiv> ucast (t AND 0xFFFFFFFF)"

fun carry32 :: "u64 \<Rightarrow> u64 list \<Rightarrow> u32 list \<times> u64" where
  "carry32 t [] = ([low32 t], drop_bit 32 t)"
| "carry32 t (x # xs) = (let (ls, c) = carry32 (drop_bit 32 t + x) xs in (low32 t # ls, c))"

lemma low32_split: "uint (low32 t) + 2 ^ 32 * uint (drop_bit 32 t) = uint t"
proof -
  have "uint (t AND 0xFFFFFFFF) = uint t mod 2 ^ 32" using uint_and_mask [of t 32] by (simp add: mask_numeral)
  then have "uint (low32 t) = uint t mod 2 ^ 32" by (simp add: unsigned_ucast_eq take_bit_eq_mod)
  then show ?thesis by (simp add: uint_drop_bit)
qed

lemma carry32_val:
  assumes "carry32 t xs = (ls, c)" "\<forall>x\<in>set xs. uint x < 2 ^ 63"
  shows "limbs_val 32 ls + (2 ^ 32) ^ Suc (length xs) * uint c = uint t + 2 ^ 32 * horner_val (2 ^ 32) (map uint xs)"
    and "length ls = Suc (length xs)"
proof -
  have "limbs_val 32 ls + (2 ^ 32) ^ Suc (length xs) * uint c = uint t + 2 ^ 32 * horner_val (2 ^ 32) (map uint xs) \<and> length ls = Suc (length xs)"
    using assms
  proof (induction xs arbitrary: t ls)
    case Nil
    then show ?case using low32_split [of t] by (auto simp: limbs_val_Cons)
  next
    case (Cons x xs)
    obtain ms where m: "carry32 (drop_bit 32 t + x) xs = (ms, c)" "ls = low32 t # ms"
      using Cons.prems(1) by (auto split: prod.splits)
    have "uint (drop_bit 32 t) < 2 ^ 32" using uint_bounded [of t] by (simp add: uint_drop_bit)
    then have "uint (drop_bit 32 t + x) = uint (drop_bit 32 t) + uint x" using Cons.prems(2) by (simp add: uint_word_ariths)
    then show ?case
      using Cons.IH [OF m(1)] Cons.prems(2) low32_split [of t] by (auto simp: m(2) limbs_val_Cons algebra_simps)
  qed
  then show "limbs_val 32 ls + (2 ^ 32) ^ Suc (length xs) * uint c = uint t + 2 ^ 32 * horner_val (2 ^ 32) (map uint xs)"
    and "length ls = Suc (length xs)" by simp_all
qed

text \<open>With eight limbs: the value modulo \<open>2^256\<close> and the carry.\<close>

lemma carry32_mod:
  assumes "carry32 t xs = (ls, c)" "length xs = 7" "\<forall>x\<in>set xs. uint x < 2 ^ 63"
  shows "limbs_val 32 ls = (uint t + 2 ^ 32 * horner_val (2 ^ 32) (map uint xs)) mod 2 ^ 256"
    and "limbs_val 32 ls + 2 ^ 256 * uint c = uint t + 2 ^ 32 * horner_val (2 ^ 32) (map uint xs)"
proof -
  have v: "limbs_val 32 ls + 2 ^ 256 * uint c = uint t + 2 ^ 32 * horner_val (2 ^ 32) (map uint xs)" "length ls = 8"
    using carry32_val [OF assms(1,3)] assms(2) by simp_all
  have "limbs_val 32 ls < 2 ^ 256" using limbs_val_bound [of ls] v(2) by simp
  from div_mod_unique_int(1) [OF v(1) limbs_val_nonneg this]
  show "limbs_val 32 ls = (uint t + 2 ^ 32 * horner_val (2 ^ 32) (map uint xs)) mod 2 ^ 256" ..
qed (use carry32_val(1) [OF assms(1,3)] assms(2) in simp)

end
