(* ===== verification/Scalar_8x32.thy ===== *)
theory Scalar_8x32
  imports Scalar Limb_Acc
begin

text \<open>
  Scalars modulo the group order in eight 32 bit limbs: \<open>scalar_8x32.h\<close> and \<open>scalar_8x32_impl.h\<close>, the representation that the build
  of the program selects. Every operation of the file is a definition; the lemmas show that each computes the function of the
  represented integer that \<open>scalar.h\<close> promises. The accumulator macros are instances of the generic steps of
  theory \<open>Limb_Acc\<close>. The theory ends with the interpretation of the scalar interface.
\<close>

subsection \<open>The struct and its constants (scalar_8x32.h, scalar_8x32_impl.h 10--36)\<close>

record scalar_8x32 =
  se0 :: u32
  se1 :: u32
  se2 :: u32
  se3 :: u32
  se4 :: u32
  se5 :: u32
  se6 :: u32
  se7 :: u32

abbreviation Scalar8 :: "u32 \<Rightarrow> u32 \<Rightarrow> u32 \<Rightarrow> u32 \<Rightarrow> u32 \<Rightarrow> u32 \<Rightarrow> u32 \<Rightarrow> u32 \<Rightarrow> scalar_8x32" where
  "Scalar8 d0 d1 d2 d3 d4 d5 d6 d7 \<equiv> \<lparr>se0 = d0, se1 = d1, se2 = d2, se3 = d3, se4 = d4, se5 = d5, se6 = d6, se7 = d7\<rparr>"

definition scalar_const_8x32 :: "u32 \<Rightarrow> u32 \<Rightarrow> u32 \<Rightarrow> u32 \<Rightarrow> u32 \<Rightarrow> u32 \<Rightarrow> u32 \<Rightarrow> u32 \<Rightarrow> scalar_8x32" where
  "scalar_const_8x32 d7 d6 d5 d4 d3 d2 d1 d0 = Scalar8 d0 d1 d2 d3 d4 d5 d6 d7"

definition scalar_limb_8x32 :: "scalar_8x32 \<Rightarrow> u32 \<Rightarrow> u32" where
  "scalar_limb_8x32 a i = [se0 a, se1 a, se2 a, se3 a, se4 a, se5 a, se6 a, se7 a] ! unat i"

definition N_0_8x32 :: u32 where "N_0_8x32 = 0xD0364141"

definition N_1_8x32 :: u32 where "N_1_8x32 = 0xBFD25E8C"

definition N_2_8x32 :: u32 where "N_2_8x32 = 0xAF48A03B"

definition N_3_8x32 :: u32 where "N_3_8x32 = 0xBAAEDCE6"

definition N_4_8x32 :: u32 where "N_4_8x32 = 0xFFFFFFFE"

definition N_5_8x32 :: u32 where "N_5_8x32 = 0xFFFFFFFF"

definition N_6_8x32 :: u32 where "N_6_8x32 = 0xFFFFFFFF"

definition N_7_8x32 :: u32 where "N_7_8x32 = 0xFFFFFFFF"

definition N_C_0_8x32 :: u32 where "N_C_0_8x32 = NOT N_0_8x32 + 1"

definition N_C_1_8x32 :: u32 where "N_C_1_8x32 = NOT N_1_8x32"

definition N_C_2_8x32 :: u32 where "N_C_2_8x32 = NOT N_2_8x32"

definition N_C_3_8x32 :: u32 where "N_C_3_8x32 = NOT N_3_8x32"

definition N_C_4_8x32 :: u32 where "N_C_4_8x32 = 1"

definition N_H_0_8x32 :: u32 where "N_H_0_8x32 = 0x681B20A0"

definition N_H_1_8x32 :: u32 where "N_H_1_8x32 = 0xDFE92F46"

definition N_H_2_8x32 :: u32 where "N_H_2_8x32 = 0x57A4501D"

definition N_H_3_8x32 :: u32 where "N_H_3_8x32 = 0x5D576E73"

definition N_H_4_8x32 :: u32 where "N_H_4_8x32 = 0xFFFFFFFF"

definition N_H_5_8x32 :: u32 where "N_H_5_8x32 = 0xFFFFFFFF"

definition N_H_6_8x32 :: u32 where "N_H_6_8x32 = 0xFFFFFFFF"

definition N_H_7_8x32 :: u32 where "N_H_7_8x32 = 0x7FFFFFFF"

subsection \<open>Additive operations\<close>

definition scalar_clear_8x32 :: "scalar_8x32 \<Rightarrow> scalar_8x32" where
  "scalar_clear_8x32 r = r\<lparr>se0 := 0, se1 := 0, se2 := 0, se3 := 0, se4 := 0, se5 := 0, se6 := 0, se7 := 0\<rparr>"

definition scalar_set_int_8x32 :: "u32 \<Rightarrow> scalar_8x32" where
  "scalar_set_int_8x32 v = Scalar8 v 0 0 0 0 0 0 0"

definition scalar_set_u64_8x32 :: "u64 \<Rightarrow> scalar_8x32" where
  "scalar_set_u64_8x32 v = Scalar8 (ucast v) (ucast (drop_bit 32 v)) 0 0 0 0 0 0"

definition scalar_get_bits_8x32 :: "scalar_8x32 \<Rightarrow> u32 \<Rightarrow> u32 \<Rightarrow> u32" where
  "scalar_get_bits_8x32 a offset count =
    drop_bit (unat (offset AND 0x1F)) (scalar_limb_8x32 a (drop_bit 5 offset)) AND (push_bit (unat count) 1 - 1)"

definition scalar_get_bits_var_8x32 :: "scalar_8x32 \<Rightarrow> u32 \<Rightarrow> u32 \<Rightarrow> u32" where
  "scalar_get_bits_var_8x32 a offset count =
    (if drop_bit 5 (offset + count - 1) = drop_bit 5 offset
     then scalar_get_bits_8x32 a offset count
     else (drop_bit (unat (offset AND 0x1F)) (scalar_limb_8x32 a (drop_bit 5 offset))
            OR push_bit (unat (32 - (offset AND 0x1F))) (scalar_limb_8x32 a (drop_bit 5 offset + 1)))
          AND (push_bit (unat count) 1 - 1))"

definition scalar_check_overflow_8x32 :: "scalar_8x32 \<Rightarrow> u32" where
  "scalar_check_overflow_8x32 a =
    (let yes = 0; no = 0;
         no = no OR of_bool (se7 a < N_7_8x32);
         no = no OR of_bool (se6 a < N_6_8x32);
         no = no OR of_bool (se5 a < N_5_8x32);
         no = no OR of_bool (se4 a < N_4_8x32);
         yes = yes OR (of_bool (se4 a > N_4_8x32) AND NOT no);
         no = no OR (of_bool (se3 a < N_3_8x32) AND NOT yes);
         yes = yes OR (of_bool (se3 a > N_3_8x32) AND NOT no);
         no = no OR (of_bool (se2 a < N_2_8x32) AND NOT yes);
         yes = yes OR (of_bool (se2 a > N_2_8x32) AND NOT no);
         no = no OR (of_bool (se1 a < N_1_8x32) AND NOT yes);
         yes = yes OR (of_bool (se1 a > N_1_8x32) AND NOT no);
         yes = yes OR (of_bool (se0 a \<ge> N_0_8x32) AND NOT no)
     in yes)"

definition scalar_reduce_8x32 :: "scalar_8x32 \<Rightarrow> u32 \<Rightarrow> u32 \<times> scalar_8x32" where
  "scalar_reduce_8x32 r overflow =
    (let t = (ucast (se0 r) :: u64) + ucast (overflow * N_C_0_8x32);
         r0 = low32 t; t = drop_bit 32 t;
         t = t + (ucast (se1 r) + ucast (overflow * N_C_1_8x32));
         r1 = low32 t; t = drop_bit 32 t;
         t = t + (ucast (se2 r) + ucast (overflow * N_C_2_8x32));
         r2 = low32 t; t = drop_bit 32 t;
         t = t + (ucast (se3 r) + ucast (overflow * N_C_3_8x32));
         r3 = low32 t; t = drop_bit 32 t;
         t = t + (ucast (se4 r) + ucast (overflow * N_C_4_8x32));
         r4 = low32 t; t = drop_bit 32 t;
         t = t + ucast (se5 r);
         r5 = low32 t; t = drop_bit 32 t;
         t = t + ucast (se6 r);
         r6 = low32 t; t = drop_bit 32 t;
         t = t + ucast (se7 r);
         r7 = low32 t
     in (overflow, Scalar8 r0 r1 r2 r3 r4 r5 r6 r7))"

definition scalar_add_8x32 :: "scalar_8x32 \<Rightarrow> scalar_8x32 \<Rightarrow> u32 \<times> scalar_8x32" where
  "scalar_add_8x32 a b =
    (let t = (ucast (se0 a) :: u64) + ucast (se0 b);
         r0 = low32 t; t = drop_bit 32 t;
         t = t + (ucast (se1 a) + ucast (se1 b));
         r1 = low32 t; t = drop_bit 32 t;
         t = t + (ucast (se2 a) + ucast (se2 b));
         r2 = low32 t; t = drop_bit 32 t;
         t = t + (ucast (se3 a) + ucast (se3 b));
         r3 = low32 t; t = drop_bit 32 t;
         t = t + (ucast (se4 a) + ucast (se4 b));
         r4 = low32 t; t = drop_bit 32 t;
         t = t + (ucast (se5 a) + ucast (se5 b));
         r5 = low32 t; t = drop_bit 32 t;
         t = t + (ucast (se6 a) + ucast (se6 b));
         r6 = low32 t; t = drop_bit 32 t;
         t = t + (ucast (se7 a) + ucast (se7 b));
         r7 = low32 t; t = drop_bit 32 t;
         r = Scalar8 r0 r1 r2 r3 r4 r5 r6 r7;
         overflow = ucast (t + ucast (scalar_check_overflow_8x32 r));
         (_, r) = scalar_reduce_8x32 r overflow
     in (overflow, r))"

definition scalar_cadd_bit_8x32 :: "scalar_8x32 \<Rightarrow> u32 \<Rightarrow> u32 \<Rightarrow> scalar_8x32" where
  "scalar_cadd_bit_8x32 r bit0 flag =
    (let bit = bit0 + ((flag - 1) AND 0x100);
         t = (ucast (se0 r) :: u64) + ucast (push_bit (unat (bit AND 0x1F)) (of_bool (drop_bit 5 bit = 0)) :: u32);
         r0 = low32 t; t = drop_bit 32 t;
         t = t + (ucast (se1 r) + ucast (push_bit (unat (bit AND 0x1F)) (of_bool (drop_bit 5 bit = 1)) :: u32));
         r1 = low32 t; t = drop_bit 32 t;
         t = t + (ucast (se2 r) + ucast (push_bit (unat (bit AND 0x1F)) (of_bool (drop_bit 5 bit = 2)) :: u32));
         r2 = low32 t; t = drop_bit 32 t;
         t = t + (ucast (se3 r) + ucast (push_bit (unat (bit AND 0x1F)) (of_bool (drop_bit 5 bit = 3)) :: u32));
         r3 = low32 t; t = drop_bit 32 t;
         t = t + (ucast (se4 r) + ucast (push_bit (unat (bit AND 0x1F)) (of_bool (drop_bit 5 bit = 4)) :: u32));
         r4 = low32 t; t = drop_bit 32 t;
         t = t + (ucast (se5 r) + ucast (push_bit (unat (bit AND 0x1F)) (of_bool (drop_bit 5 bit = 5)) :: u32));
         r5 = low32 t; t = drop_bit 32 t;
         t = t + (ucast (se6 r) + ucast (push_bit (unat (bit AND 0x1F)) (of_bool (drop_bit 5 bit = 6)) :: u32));
         r6 = low32 t; t = drop_bit 32 t;
         t = t + (ucast (se7 r) + ucast (push_bit (unat (bit AND 0x1F)) (of_bool (drop_bit 5 bit = 7)) :: u32));
         r7 = low32 t
     in Scalar8 r0 r1 r2 r3 r4 r5 r6 r7)"

text \<open>A limb from four big-endian bytes and back.\<close>

definition read_be32 :: "u8 list \<Rightarrow> nat \<Rightarrow> u32" where
  "read_be32 b i = ((ucast (b ! (i + 3)) OR push_bit 8 (ucast (b ! (i + 2)))) OR push_bit 16 (ucast (b ! (i + 1)))) OR push_bit 24 (ucast (b ! i))"

definition write_be32 :: "u32 \<Rightarrow> u8 list" where
  "write_be32 d = [ucast (drop_bit 24 d), ucast (drop_bit 16 d), ucast (drop_bit 8 d), ucast d]"

definition scalar_set_b32_8x32 :: "u8 list \<Rightarrow> u32 \<times> scalar_8x32" where
  "scalar_set_b32_8x32 b32 =
    (let r = Scalar8 (read_be32 b32 28) (read_be32 b32 24) (read_be32 b32 20) (read_be32 b32 16)
                     (read_be32 b32 12) (read_be32 b32 8) (read_be32 b32 4) (read_be32 b32 0)
     in scalar_reduce_8x32 r (scalar_check_overflow_8x32 r))"

definition scalar_get_b32_8x32 :: "scalar_8x32 \<Rightarrow> u8 list" where
  "scalar_get_b32_8x32 a = write_be32 (se7 a) @ write_be32 (se6 a) @ write_be32 (se5 a) @ write_be32 (se4 a)
     @ write_be32 (se3 a) @ write_be32 (se2 a) @ write_be32 (se1 a) @ write_be32 (se0 a)"

definition scalar_is_zero_8x32 :: "scalar_8x32 \<Rightarrow> bool" where
  "scalar_is_zero_8x32 a \<longleftrightarrow> (se0 a OR se1 a OR se2 a OR se3 a OR se4 a OR se5 a OR se6 a OR se7 a) = 0"

definition scalar_negate_8x32 :: "scalar_8x32 \<Rightarrow> scalar_8x32" where
  "scalar_negate_8x32 a =
    (let nonzero = (0xFFFFFFFF :: u32) * of_bool (\<not> scalar_is_zero_8x32 a);
         t = (ucast (NOT (se0 a)) :: u64) + ucast N_0_8x32 + 1;
         r0 = ucast (t AND ucast nonzero); t = drop_bit 32 t;
         t = t + (ucast (NOT (se1 a)) + ucast N_1_8x32);
         r1 = ucast (t AND ucast nonzero); t = drop_bit 32 t;
         t = t + (ucast (NOT (se2 a)) + ucast N_2_8x32);
         r2 = ucast (t AND ucast nonzero); t = drop_bit 32 t;
         t = t + (ucast (NOT (se3 a)) + ucast N_3_8x32);
         r3 = ucast (t AND ucast nonzero); t = drop_bit 32 t;
         t = t + (ucast (NOT (se4 a)) + ucast N_4_8x32);
         r4 = ucast (t AND ucast nonzero); t = drop_bit 32 t;
         t = t + (ucast (NOT (se5 a)) + ucast N_5_8x32);
         r5 = ucast (t AND ucast nonzero); t = drop_bit 32 t;
         t = t + (ucast (NOT (se6 a)) + ucast N_6_8x32);
         r6 = ucast (t AND ucast nonzero); t = drop_bit 32 t;
         t = t + (ucast (NOT (se7 a)) + ucast N_7_8x32);
         r7 = ucast (t AND ucast nonzero)
     in Scalar8 r0 r1 r2 r3 r4 r5 r6 r7)"

definition scalar_is_one_8x32 :: "scalar_8x32 \<Rightarrow> bool" where
  "scalar_is_one_8x32 a \<longleftrightarrow> ((se0 a XOR 1) OR se1 a OR se2 a OR se3 a OR se4 a OR se5 a OR se6 a OR se7 a) = 0"

definition scalar_is_high_8x32 :: "scalar_8x32 \<Rightarrow> u32" where
  "scalar_is_high_8x32 a =
    (let yes = 0; no = 0;
         no = no OR of_bool (se7 a < N_H_7_8x32);
         yes = yes OR (of_bool (se7 a > N_H_7_8x32) AND NOT no);
         no = no OR (of_bool (se6 a < N_H_6_8x32) AND NOT yes);
         no = no OR (of_bool (se5 a < N_H_5_8x32) AND NOT yes);
         no = no OR (of_bool (se4 a < N_H_4_8x32) AND NOT yes);
         no = no OR (of_bool (se3 a < N_H_3_8x32) AND NOT yes);
         yes = yes OR (of_bool (se3 a > N_H_3_8x32) AND NOT no);
         no = no OR (of_bool (se2 a < N_H_2_8x32) AND NOT yes);
         yes = yes OR (of_bool (se2 a > N_H_2_8x32) AND NOT no);
         no = no OR (of_bool (se1 a < N_H_1_8x32) AND NOT yes);
         yes = yes OR (of_bool (se1 a > N_H_1_8x32) AND NOT no);
         yes = yes OR (of_bool (se0 a > N_H_0_8x32) AND NOT no)
     in yes)"

definition scalar_cond_negate_8x32 :: "scalar_8x32 \<Rightarrow> u32 \<Rightarrow> u32 \<times> scalar_8x32" where
  "scalar_cond_negate_8x32 r flag =
    (let msk = of_bool (flag = 0) - 1 :: u32;
         nonzero = (0xFFFFFFFF :: u32) * of_bool (\<not> scalar_is_zero_8x32 r);
         t = (ucast (se0 r XOR msk) :: u64) + ucast ((N_0_8x32 + 1) AND msk);
         r0 = ucast (t AND ucast nonzero); t = drop_bit 32 t;
         t = t + (ucast (se1 r XOR msk) + ucast (N_1_8x32 AND msk));
         r1 = ucast (t AND ucast nonzero); t = drop_bit 32 t;
         t = t + (ucast (se2 r XOR msk) + ucast (N_2_8x32 AND msk));
         r2 = ucast (t AND ucast nonzero); t = drop_bit 32 t;
         t = t + (ucast (se3 r XOR msk) + ucast (N_3_8x32 AND msk));
         r3 = ucast (t AND ucast nonzero); t = drop_bit 32 t;
         t = t + (ucast (se4 r XOR msk) + ucast (N_4_8x32 AND msk));
         r4 = ucast (t AND ucast nonzero); t = drop_bit 32 t;
         t = t + (ucast (se5 r XOR msk) + ucast (N_5_8x32 AND msk));
         r5 = ucast (t AND ucast nonzero); t = drop_bit 32 t;
         t = t + (ucast (se6 r XOR msk) + ucast (N_6_8x32 AND msk));
         r6 = ucast (t AND ucast nonzero); t = drop_bit 32 t;
         t = t + (ucast (se7 r XOR msk) + ucast (N_7_8x32 AND msk));
         r7 = ucast (t AND ucast nonzero)
     in (2 * of_bool (msk = 0) - 1, Scalar8 r0 r1 r2 r3 r4 r5 r6 r7))"

subsection \<open>The accumulator macros and the multiplicative operations\<close>

text \<open>The macros keep a 96 bit accumulator in the variables \<open>c0\<close>, \<open>c1\<close>, \<open>c2\<close>.\<close>

type_synonym acc96 = "(32, 32) limb_acc"

definition muladd_8x32 :: "u32 \<Rightarrow> u32 \<Rightarrow> acc96 \<Rightarrow> acc96" where
  "muladd_8x32 a b = (\<lambda>(c0, c1, c2).
    let t = (ucast a :: u64) * ucast b;
        th = ucast (drop_bit 32 t);
        tl = ucast t;
        c0 = c0 + tl;
        th = th + (if c0 < tl then 1 else 0);
        c1 = c1 + th;
        c2 = c2 + (if c1 < th then 1 else 0)
    in (c0, c1, c2))"

definition muladd_fast_8x32 :: "u32 \<Rightarrow> u32 \<Rightarrow> acc96 \<Rightarrow> acc96" where
  "muladd_fast_8x32 a b = (\<lambda>(c0, c1, c2).
    let t = (ucast a :: u64) * ucast b;
        th = ucast (drop_bit 32 t);
        tl = ucast t;
        c0 = c0 + tl;
        th = th + (if c0 < tl then 1 else 0);
        c1 = c1 + th
    in (c0, c1, c2))"

definition muladd2_8x32 :: "u32 \<Rightarrow> u32 \<Rightarrow> acc96 \<Rightarrow> acc96" where
  "muladd2_8x32 a b = (\<lambda>(c0, c1, c2).
    let t = (ucast a :: u64) * ucast b;
        th = ucast (drop_bit 32 t);
        tl = ucast t;
        th2 = th + th;
        c2 = c2 + (if th2 < th then 1 else 0);
        tl2 = tl + tl;
        th2 = th2 + (if tl2 < tl then 1 else 0);
        c0 = c0 + tl2;
        th2 = th2 + (if c0 < tl2 then 1 else 0);
        c2 = c2 + (of_bool (c0 < tl2) AND of_bool (th2 = 0));
        c1 = c1 + th2;
        c2 = c2 + (if c1 < th2 then 1 else 0)
    in (c0, c1, c2))"

definition sumadd_8x32 :: "u32 \<Rightarrow> acc96 \<Rightarrow> acc96" where
  "sumadd_8x32 a = (\<lambda>(c0, c1, c2).
    let c0 = c0 + a;
        over = (if c0 < a then 1 else 0);
        c1 = c1 + over;
        c2 = c2 + (if c1 < over then 1 else 0)
    in (c0, c1, c2))"

definition sumadd_fast_8x32 :: "u32 \<Rightarrow> acc96 \<Rightarrow> acc96" where
  "sumadd_fast_8x32 a = (\<lambda>(c0, c1, c2).
    let c0 = c0 + a;
        c1 = c1 + (if c0 < a then 1 else 0)
    in (c0, c1, c2))"

definition extract_8x32 :: "acc96 \<Rightarrow> u32 \<times> acc96" where
  "extract_8x32 = (\<lambda>(c0, c1, c2). (c0, (c1, c2, 0)))"

definition extract_fast_8x32 :: "acc96 \<Rightarrow> u32 \<times> acc96" where
  "extract_fast_8x32 = (\<lambda>(c0, c1, c2). (c0, (c1, 0, c2)))"

text \<open>The reduction of a 512 bit value is one C function; its first two passes are definitions of their own.\<close>

definition scalar_reduce_512_m_8x32 :: "u32 list \<Rightarrow> u32 list \<times> u32" where
  "scalar_reduce_512_m_8x32 l =
    (let n0 = l ! 8; n1 = l ! 9; n2 = l ! 10; n3 = l ! 11; n4 = l ! 12; n5 = l ! 13; n6 = l ! 14; n7 = l ! 15;
         c = (l ! 0, 0, 0);
         c = muladd_fast_8x32 n0 N_C_0_8x32 c;
         (m0, c) = extract_fast_8x32 c;
         c = sumadd_fast_8x32 (l ! 1) c;
         c = muladd_8x32 n1 N_C_0_8x32 c;
         c = muladd_8x32 n0 N_C_1_8x32 c;
         (m1, c) = extract_8x32 c;
         c = sumadd_8x32 (l ! 2) c;
         c = muladd_8x32 n2 N_C_0_8x32 c;
         c = muladd_8x32 n1 N_C_1_8x32 c;
         c = muladd_8x32 n0 N_C_2_8x32 c;
         (m2, c) = extract_8x32 c;
         c = sumadd_8x32 (l ! 3) c;
         c = muladd_8x32 n3 N_C_0_8x32 c;
         c = muladd_8x32 n2 N_C_1_8x32 c;
         c = muladd_8x32 n1 N_C_2_8x32 c;
         c = muladd_8x32 n0 N_C_3_8x32 c;
         (m3, c) = extract_8x32 c;
         c = sumadd_8x32 (l ! 4) c;
         c = muladd_8x32 n4 N_C_0_8x32 c;
         c = muladd_8x32 n3 N_C_1_8x32 c;
         c = muladd_8x32 n2 N_C_2_8x32 c;
         c = muladd_8x32 n1 N_C_3_8x32 c;
         c = sumadd_8x32 n0 c;
         (m4, c) = extract_8x32 c;
         c = sumadd_8x32 (l ! 5) c;
         c = muladd_8x32 n5 N_C_0_8x32 c;
         c = muladd_8x32 n4 N_C_1_8x32 c;
         c = muladd_8x32 n3 N_C_2_8x32 c;
         c = muladd_8x32 n2 N_C_3_8x32 c;
         c = sumadd_8x32 n1 c;
         (m5, c) = extract_8x32 c;
         c = sumadd_8x32 (l ! 6) c;
         c = muladd_8x32 n6 N_C_0_8x32 c;
         c = muladd_8x32 n5 N_C_1_8x32 c;
         c = muladd_8x32 n4 N_C_2_8x32 c;
         c = muladd_8x32 n3 N_C_3_8x32 c;
         c = sumadd_8x32 n2 c;
         (m6, c) = extract_8x32 c;
         c = sumadd_8x32 (l ! 7) c;
         c = muladd_8x32 n7 N_C_0_8x32 c;
         c = muladd_8x32 n6 N_C_1_8x32 c;
         c = muladd_8x32 n5 N_C_2_8x32 c;
         c = muladd_8x32 n4 N_C_3_8x32 c;
         c = sumadd_8x32 n3 c;
         (m7, c) = extract_8x32 c;
         c = muladd_8x32 n7 N_C_1_8x32 c;
         c = muladd_8x32 n6 N_C_2_8x32 c;
         c = muladd_8x32 n5 N_C_3_8x32 c;
         c = sumadd_8x32 n4 c;
         (m8, c) = extract_8x32 c;
         c = muladd_8x32 n7 N_C_2_8x32 c;
         c = muladd_8x32 n6 N_C_3_8x32 c;
         c = sumadd_8x32 n5 c;
         (m9, c) = extract_8x32 c;
         c = muladd_8x32 n7 N_C_3_8x32 c;
         c = sumadd_8x32 n6 c;
         (m10, c) = extract_8x32 c;
         c = sumadd_fast_8x32 n7 c;
         (m11, c) = extract_fast_8x32 c;
         m12 = fst c
     in ([m0, m1, m2, m3, m4, m5, m6, m7, m8, m9, m10, m11], m12))"

definition scalar_reduce_512_p_8x32 :: "u32 list \<times> u32 \<Rightarrow> u32 list \<times> u32" where
  "scalar_reduce_512_p_8x32 = (\<lambda>(m, m12).
     let c = (m ! 0, 0, 0);
         c = muladd_fast_8x32 (m ! 8) N_C_0_8x32 c;
         (p0, c) = extract_fast_8x32 c;
         c = sumadd_fast_8x32 (m ! 1) c;
         c = muladd_8x32 (m ! 9) N_C_0_8x32 c;
         c = muladd_8x32 (m ! 8) N_C_1_8x32 c;
         (p1, c) = extract_8x32 c;
         c = sumadd_8x32 (m ! 2) c;
         c = muladd_8x32 (m ! 10) N_C_0_8x32 c;
         c = muladd_8x32 (m ! 9) N_C_1_8x32 c;
         c = muladd_8x32 (m ! 8) N_C_2_8x32 c;
         (p2, c) = extract_8x32 c;
         c = sumadd_8x32 (m ! 3) c;
         c = muladd_8x32 (m ! 11) N_C_0_8x32 c;
         c = muladd_8x32 (m ! 10) N_C_1_8x32 c;
         c = muladd_8x32 (m ! 9) N_C_2_8x32 c;
         c = muladd_8x32 (m ! 8) N_C_3_8x32 c;
         (p3, c) = extract_8x32 c;
         c = sumadd_8x32 (m ! 4) c;
         c = muladd_8x32 m12 N_C_0_8x32 c;
         c = muladd_8x32 (m ! 11) N_C_1_8x32 c;
         c = muladd_8x32 (m ! 10) N_C_2_8x32 c;
         c = muladd_8x32 (m ! 9) N_C_3_8x32 c;
         c = sumadd_8x32 (m ! 8) c;
         (p4, c) = extract_8x32 c;
         c = sumadd_8x32 (m ! 5) c;
         c = muladd_8x32 m12 N_C_1_8x32 c;
         c = muladd_8x32 (m ! 11) N_C_2_8x32 c;
         c = muladd_8x32 (m ! 10) N_C_3_8x32 c;
         c = sumadd_8x32 (m ! 9) c;
         (p5, c) = extract_8x32 c;
         c = sumadd_8x32 (m ! 6) c;
         c = muladd_8x32 m12 N_C_2_8x32 c;
         c = muladd_8x32 (m ! 11) N_C_3_8x32 c;
         c = sumadd_8x32 (m ! 10) c;
         (p6, c) = extract_8x32 c;
         c = sumadd_fast_8x32 (m ! 7) c;
         c = muladd_fast_8x32 m12 N_C_3_8x32 c;
         c = sumadd_fast_8x32 (m ! 11) c;
         (p7, c) = extract_fast_8x32 c;
         p8 = fst c + m12
     in ([p0, p1, p2, p3, p4, p5, p6, p7], p8))"

definition scalar_reduce_512_8x32 :: "u32 list \<Rightarrow> scalar_8x32" where
  "scalar_reduce_512_8x32 l =
    (let (p, p8) = scalar_reduce_512_p_8x32 (scalar_reduce_512_m_8x32 l);
         c = (ucast (p ! 0) :: u64) + ucast N_C_0_8x32 * ucast p8;
         r0 = low32 c; c = drop_bit 32 c;
         c = c + (ucast (p ! 1) + ucast N_C_1_8x32 * ucast p8);
         r1 = low32 c; c = drop_bit 32 c;
         c = c + (ucast (p ! 2) + ucast N_C_2_8x32 * ucast p8);
         r2 = low32 c; c = drop_bit 32 c;
         c = c + (ucast (p ! 3) + ucast N_C_3_8x32 * ucast p8);
         r3 = low32 c; c = drop_bit 32 c;
         c = c + (ucast (p ! 4) + ucast p8);
         r4 = low32 c; c = drop_bit 32 c;
         c = c + ucast (p ! 5);
         r5 = low32 c; c = drop_bit 32 c;
         c = c + ucast (p ! 6);
         r6 = low32 c; c = drop_bit 32 c;
         c = c + ucast (p ! 7);
         r7 = low32 c; c = drop_bit 32 c;
         r = Scalar8 r0 r1 r2 r3 r4 r5 r6 r7
     in snd (scalar_reduce_8x32 r (ucast (c + ucast (scalar_check_overflow_8x32 r)))))"

definition scalar_mul_512_8x32 :: "scalar_8x32 \<Rightarrow> scalar_8x32 \<Rightarrow> u32 list" where
  "scalar_mul_512_8x32 a b =
    (let c = (0, 0, 0);
         c = muladd_fast_8x32 (se0 a) (se0 b) c;
         (l0, c) = extract_fast_8x32 c;
         c = muladd_8x32 (se0 a) (se1 b) c;
         c = muladd_8x32 (se1 a) (se0 b) c;
         (l1, c) = extract_8x32 c;
         c = muladd_8x32 (se0 a) (se2 b) c;
         c = muladd_8x32 (se1 a) (se1 b) c;
         c = muladd_8x32 (se2 a) (se0 b) c;
         (l2, c) = extract_8x32 c;
         c = muladd_8x32 (se0 a) (se3 b) c;
         c = muladd_8x32 (se1 a) (se2 b) c;
         c = muladd_8x32 (se2 a) (se1 b) c;
         c = muladd_8x32 (se3 a) (se0 b) c;
         (l3, c) = extract_8x32 c;
         c = muladd_8x32 (se0 a) (se4 b) c;
         c = muladd_8x32 (se1 a) (se3 b) c;
         c = muladd_8x32 (se2 a) (se2 b) c;
         c = muladd_8x32 (se3 a) (se1 b) c;
         c = muladd_8x32 (se4 a) (se0 b) c;
         (l4, c) = extract_8x32 c;
         c = muladd_8x32 (se0 a) (se5 b) c;
         c = muladd_8x32 (se1 a) (se4 b) c;
         c = muladd_8x32 (se2 a) (se3 b) c;
         c = muladd_8x32 (se3 a) (se2 b) c;
         c = muladd_8x32 (se4 a) (se1 b) c;
         c = muladd_8x32 (se5 a) (se0 b) c;
         (l5, c) = extract_8x32 c;
         c = muladd_8x32 (se0 a) (se6 b) c;
         c = muladd_8x32 (se1 a) (se5 b) c;
         c = muladd_8x32 (se2 a) (se4 b) c;
         c = muladd_8x32 (se3 a) (se3 b) c;
         c = muladd_8x32 (se4 a) (se2 b) c;
         c = muladd_8x32 (se5 a) (se1 b) c;
         c = muladd_8x32 (se6 a) (se0 b) c;
         (l6, c) = extract_8x32 c;
         c = muladd_8x32 (se0 a) (se7 b) c;
         c = muladd_8x32 (se1 a) (se6 b) c;
         c = muladd_8x32 (se2 a) (se5 b) c;
         c = muladd_8x32 (se3 a) (se4 b) c;
         c = muladd_8x32 (se4 a) (se3 b) c;
         c = muladd_8x32 (se5 a) (se2 b) c;
         c = muladd_8x32 (se6 a) (se1 b) c;
         c = muladd_8x32 (se7 a) (se0 b) c;
         (l7, c) = extract_8x32 c;
         c = muladd_8x32 (se1 a) (se7 b) c;
         c = muladd_8x32 (se2 a) (se6 b) c;
         c = muladd_8x32 (se3 a) (se5 b) c;
         c = muladd_8x32 (se4 a) (se4 b) c;
         c = muladd_8x32 (se5 a) (se3 b) c;
         c = muladd_8x32 (se6 a) (se2 b) c;
         c = muladd_8x32 (se7 a) (se1 b) c;
         (l8, c) = extract_8x32 c;
         c = muladd_8x32 (se2 a) (se7 b) c;
         c = muladd_8x32 (se3 a) (se6 b) c;
         c = muladd_8x32 (se4 a) (se5 b) c;
         c = muladd_8x32 (se5 a) (se4 b) c;
         c = muladd_8x32 (se6 a) (se3 b) c;
         c = muladd_8x32 (se7 a) (se2 b) c;
         (l9, c) = extract_8x32 c;
         c = muladd_8x32 (se3 a) (se7 b) c;
         c = muladd_8x32 (se4 a) (se6 b) c;
         c = muladd_8x32 (se5 a) (se5 b) c;
         c = muladd_8x32 (se6 a) (se4 b) c;
         c = muladd_8x32 (se7 a) (se3 b) c;
         (l10, c) = extract_8x32 c;
         c = muladd_8x32 (se4 a) (se7 b) c;
         c = muladd_8x32 (se5 a) (se6 b) c;
         c = muladd_8x32 (se6 a) (se5 b) c;
         c = muladd_8x32 (se7 a) (se4 b) c;
         (l11, c) = extract_8x32 c;
         c = muladd_8x32 (se5 a) (se7 b) c;
         c = muladd_8x32 (se6 a) (se6 b) c;
         c = muladd_8x32 (se7 a) (se5 b) c;
         (l12, c) = extract_8x32 c;
         c = muladd_8x32 (se6 a) (se7 b) c;
         c = muladd_8x32 (se7 a) (se6 b) c;
         (l13, c) = extract_8x32 c;
         c = muladd_fast_8x32 (se7 a) (se7 b) c;
         (l14, c) = extract_fast_8x32 c;
         l15 = fst c
     in [l0, l1, l2, l3, l4, l5, l6, l7, l8, l9, l10, l11, l12, l13, l14, l15])"

definition scalar_sqr_512_8x32 :: "scalar_8x32 \<Rightarrow> u32 list" where
  "scalar_sqr_512_8x32 a =
    (let c = (0, 0, 0);
         c = muladd_fast_8x32 (se0 a) (se0 a) c;
         (l0, c) = extract_fast_8x32 c;
         c = muladd2_8x32 (se0 a) (se1 a) c;
         (l1, c) = extract_8x32 c;
         c = muladd2_8x32 (se0 a) (se2 a) c;
         c = muladd_8x32 (se1 a) (se1 a) c;
         (l2, c) = extract_8x32 c;
         c = muladd2_8x32 (se0 a) (se3 a) c;
         c = muladd2_8x32 (se1 a) (se2 a) c;
         (l3, c) = extract_8x32 c;
         c = muladd2_8x32 (se0 a) (se4 a) c;
         c = muladd2_8x32 (se1 a) (se3 a) c;
         c = muladd_8x32 (se2 a) (se2 a) c;
         (l4, c) = extract_8x32 c;
         c = muladd2_8x32 (se0 a) (se5 a) c;
         c = muladd2_8x32 (se1 a) (se4 a) c;
         c = muladd2_8x32 (se2 a) (se3 a) c;
         (l5, c) = extract_8x32 c;
         c = muladd2_8x32 (se0 a) (se6 a) c;
         c = muladd2_8x32 (se1 a) (se5 a) c;
         c = muladd2_8x32 (se2 a) (se4 a) c;
         c = muladd_8x32 (se3 a) (se3 a) c;
         (l6, c) = extract_8x32 c;
         c = muladd2_8x32 (se0 a) (se7 a) c;
         c = muladd2_8x32 (se1 a) (se6 a) c;
         c = muladd2_8x32 (se2 a) (se5 a) c;
         c = muladd2_8x32 (se3 a) (se4 a) c;
         (l7, c) = extract_8x32 c;
         c = muladd2_8x32 (se1 a) (se7 a) c;
         c = muladd2_8x32 (se2 a) (se6 a) c;
         c = muladd2_8x32 (se3 a) (se5 a) c;
         c = muladd_8x32 (se4 a) (se4 a) c;
         (l8, c) = extract_8x32 c;
         c = muladd2_8x32 (se2 a) (se7 a) c;
         c = muladd2_8x32 (se3 a) (se6 a) c;
         c = muladd2_8x32 (se4 a) (se5 a) c;
         (l9, c) = extract_8x32 c;
         c = muladd2_8x32 (se3 a) (se7 a) c;
         c = muladd2_8x32 (se4 a) (se6 a) c;
         c = muladd_8x32 (se5 a) (se5 a) c;
         (l10, c) = extract_8x32 c;
         c = muladd2_8x32 (se4 a) (se7 a) c;
         c = muladd2_8x32 (se5 a) (se6 a) c;
         (l11, c) = extract_8x32 c;
         c = muladd2_8x32 (se5 a) (se7 a) c;
         c = muladd_8x32 (se6 a) (se6 a) c;
         (l12, c) = extract_8x32 c;
         c = muladd2_8x32 (se6 a) (se7 a) c;
         (l13, c) = extract_8x32 c;
         c = muladd_fast_8x32 (se7 a) (se7 a) c;
         (l14, c) = extract_fast_8x32 c;
         l15 = fst c
     in [l0, l1, l2, l3, l4, l5, l6, l7, l8, l9, l10, l11, l12, l13, l14, l15])"

definition scalar_mul_8x32 :: "scalar_8x32 \<Rightarrow> scalar_8x32 \<Rightarrow> scalar_8x32" where
  "scalar_mul_8x32 a b = scalar_reduce_512_8x32 (scalar_mul_512_8x32 a b)"

definition scalar_shr_int_8x32 :: "scalar_8x32 \<Rightarrow> u32 \<Rightarrow> u32 \<times> scalar_8x32" where
  "scalar_shr_int_8x32 r n =
    (let ret = se0 r AND (push_bit (unat n) 1 - 1);
         r0 = drop_bit (unat n) (se0 r) + push_bit (unat (32 - n)) (se1 r);
         r1 = drop_bit (unat n) (se1 r) + push_bit (unat (32 - n)) (se2 r);
         r2 = drop_bit (unat n) (se2 r) + push_bit (unat (32 - n)) (se3 r);
         r3 = drop_bit (unat n) (se3 r) + push_bit (unat (32 - n)) (se4 r);
         r4 = drop_bit (unat n) (se4 r) + push_bit (unat (32 - n)) (se5 r);
         r5 = drop_bit (unat n) (se5 r) + push_bit (unat (32 - n)) (se6 r);
         r6 = drop_bit (unat n) (se6 r) + push_bit (unat (32 - n)) (se7 r);
         r7 = drop_bit (unat n) (se7 r)
     in (ret, Scalar8 r0 r1 r2 r3 r4 r5 r6 r7))"

definition scalar_sqr_8x32 :: "scalar_8x32 \<Rightarrow> scalar_8x32" where
  "scalar_sqr_8x32 a = scalar_reduce_512_8x32 (scalar_sqr_512_8x32 a)"

definition scalar_split_128_8x32 :: "scalar_8x32 \<Rightarrow> scalar_8x32 \<times> scalar_8x32" where
  "scalar_split_128_8x32 a = (Scalar8 (se0 a) (se1 a) (se2 a) (se3 a) 0 0 0 0, Scalar8 (se4 a) (se5 a) (se6 a) (se7 a) 0 0 0 0)"

definition scalar_eq_8x32 :: "scalar_8x32 \<Rightarrow> scalar_8x32 \<Rightarrow> bool" where
  "scalar_eq_8x32 a b \<longleftrightarrow>
    ((se0 a XOR se0 b) OR (se1 a XOR se1 b) OR (se2 a XOR se2 b) OR (se3 a XOR se3 b) OR (se4 a XOR se4 b) OR (se5 a XOR se5 b) OR (se6 a XOR se6 b) OR (se7 a XOR se7 b)) = 0"

definition scalar_mul_shift_var_8x32 :: "scalar_8x32 \<Rightarrow> scalar_8x32 \<Rightarrow> u32 \<Rightarrow> scalar_8x32" where
  "scalar_mul_shift_var_8x32 a b shift =
    (let l = scalar_mul_512_8x32 a b;
         shiftlimbs = unat (drop_bit 5 shift);
         shiftlow = shift AND 0x1F;
         lo = unat shiftlow;
         shifthigh = unat (32 - shiftlow);
         r0 = (if shift < 512 then drop_bit lo (l ! (0 + shiftlimbs)) OR
                 (if shift < 480 \<and> shiftlow \<noteq> 0 then push_bit shifthigh (l ! (1 + shiftlimbs)) else 0) else 0);
         r1 = (if shift < 480 then drop_bit lo (l ! (1 + shiftlimbs)) OR
                 (if shift < 448 \<and> shiftlow \<noteq> 0 then push_bit shifthigh (l ! (2 + shiftlimbs)) else 0) else 0);
         r2 = (if shift < 448 then drop_bit lo (l ! (2 + shiftlimbs)) OR
                 (if shift < 416 \<and> shiftlow \<noteq> 0 then push_bit shifthigh (l ! (3 + shiftlimbs)) else 0) else 0);
         r3 = (if shift < 416 then drop_bit lo (l ! (3 + shiftlimbs)) OR
                 (if shift < 384 \<and> shiftlow \<noteq> 0 then push_bit shifthigh (l ! (4 + shiftlimbs)) else 0) else 0);
         r4 = (if shift < 384 then drop_bit lo (l ! (4 + shiftlimbs)) OR
                 (if shift < 352 \<and> shiftlow \<noteq> 0 then push_bit shifthigh (l ! (5 + shiftlimbs)) else 0) else 0);
         r5 = (if shift < 352 then drop_bit lo (l ! (5 + shiftlimbs)) OR
                 (if shift < 320 \<and> shiftlow \<noteq> 0 then push_bit shifthigh (l ! (6 + shiftlimbs)) else 0) else 0);
         r6 = (if shift < 320 then drop_bit lo (l ! (6 + shiftlimbs)) OR
                 (if shift < 288 \<and> shiftlow \<noteq> 0 then push_bit shifthigh (l ! (7 + shiftlimbs)) else 0) else 0);
         r7 = (if shift < 288 then drop_bit lo (l ! (7 + shiftlimbs)) else 0)
     in scalar_cadd_bit_8x32 (Scalar8 r0 r1 r2 r3 r4 r5 r6 r7) 0
          (drop_bit (unat ((shift - 1) AND 0x1F)) (l ! unat (drop_bit 5 (shift - 1))) AND 1))"

text \<open>From \<open>scalar_impl.h\<close>.\<close>

definition scalar_is_even_8x32 :: "scalar_8x32 \<Rightarrow> bool" where
  "scalar_is_even_8x32 a \<longleftrightarrow> se0 a AND 1 = 0"

definition scalar_ops_8x32 :: "scalar_8x32 scalar_ops" where
  "scalar_ops_8x32 =
    \<lparr>sc_add = scalar_add_8x32, sc_mul = scalar_mul_8x32, sc_sqr = scalar_sqr_8x32,
     sc_mul_shift_var = scalar_mul_shift_var_8x32, sc_const = scalar_const_8x32\<rparr>"
subsection \<open>What the operations mean\<close>

definition scalar_limbs_8x32 :: "scalar_8x32 \<Rightarrow> u32 list" where
  "scalar_limbs_8x32 a = [se0 a, se1 a, se2 a, se3 a, se4 a, se5 a, se6 a, se7 a]"

definition scalar_val_8x32 :: "scalar_8x32 \<Rightarrow> int" where
  "scalar_val_8x32 a = limbs_val 32 (scalar_limbs_8x32 a)"

definition scalar_ok_8x32 :: "scalar_8x32 \<Rightarrow> bool" where
  "scalar_ok_8x32 a \<longleftrightarrow> scalar_val_8x32 a < order_n"

lemmas val_8x32 = scalar_val_8x32_def scalar_limbs_8x32_def scalar_8x32.select_convs

lemma val_8x32_bounds: "0 \<le> scalar_val_8x32 a" "scalar_val_8x32 a < 2 ^ 256"
  using limbs_val_bound [of "scalar_limbs_8x32 a"]
  by (simp_all add: scalar_val_8x32_def limbs_val_nonneg scalar_limbs_8x32_def)

lemmas N_8x32 = N_0_8x32_def N_1_8x32_def N_2_8x32_def N_3_8x32_def N_4_8x32_def N_5_8x32_def N_6_8x32_def N_7_8x32_def
lemmas N_C_8x32 = N_C_0_8x32_def N_C_1_8x32_def N_C_2_8x32_def N_C_3_8x32_def N_C_4_8x32_def
lemmas N_H_8x32 = N_H_0_8x32_def N_H_1_8x32_def N_H_2_8x32_def N_H_3_8x32_def N_H_4_8x32_def N_H_5_8x32_def N_H_6_8x32_def N_H_7_8x32_def

lemma order_n_8x32:
  "order_n = limbs_val 32 [N_0_8x32, N_1_8x32, N_2_8x32, N_3_8x32, N_4_8x32, N_5_8x32, N_6_8x32, N_7_8x32]"
  by (simp add: order_n_def N_8x32 limbs_val_Cons)

lemma half_order_8x32:
  "half_order = limbs_val 32 [N_H_0_8x32, N_H_1_8x32, N_H_2_8x32, N_H_3_8x32, N_H_4_8x32, N_H_5_8x32, N_H_6_8x32, N_H_7_8x32]"
  by (simp add: half_order_def N_H_8x32 limbs_val_Cons)

lemmas limbs_val_cmp_32 =
  limbs_val_le_Cons [where 'a = 32, simplified] limbs_val_less_Cons [where 'a = 32, simplified]
  limbs_val_eq_Cons [where 'a = 32, simplified]

lemma val_8x32_inject: "scalar_val_8x32 a = scalar_val_8x32 b \<longleftrightarrow> a = b"
  by (auto simp: scalar_val_8x32_def scalar_limbs_8x32_def limbs_val_cmp_32)

subsection \<open>Comparisons\<close>

lemma max_32: "x < 0xFFFFFFFF \<longleftrightarrow> x \<noteq> 0xFFFFFFFF" "\<not> 0xFFFFFFFF < x" for x :: u32
  using uint32_le [of x] by (auto simp add: word_less_def word_uint_eq_iff order_less_le)

lemma flag_simps:
  "of_bool p OR of_bool q = (of_bool (p \<or> q) :: u32)" "of_bool p AND NOT (of_bool q) = (of_bool (p \<and> \<not> q) :: u32)"
  by auto

text \<open>The two flags of a comparison from the top limb down: \<open>no\<close> for less, \<open>yes\<close> for greater.\<close>

lemma lex_flags:
  fixes x c :: u32
  shows "limbs_val 32 xs < limbs_val 32 cs \<or> x < c \<and> \<not> limbs_val 32 cs < limbs_val 32 xs \<longleftrightarrow> limbs_val 32 (x # xs) < limbs_val 32 (c # cs)"
    and "limbs_val 32 cs < limbs_val 32 xs \<or> c < x \<and> \<not> limbs_val 32 (x # xs) < limbs_val 32 (c # cs) \<longleftrightarrow> limbs_val 32 (c # cs) < limbs_val 32 (x # xs)"
    and "limbs_val 32 cs < limbs_val 32 xs \<or> c \<le> x \<and> \<not> limbs_val 32 xs < limbs_val 32 cs \<longleftrightarrow> limbs_val 32 (c # cs) \<le> limbs_val 32 (x # xs)"
  by (auto simp: limbs_val_cmp_32)

lemma check_overflow_8x32: "scalar_check_overflow_8x32 a = of_bool (order_n \<le> scalar_val_8x32 a)"
proof -
  let ?xs = "[se4 a, se5 a, se6 a, se7 a]" let ?ns = "[N_4_8x32, N_5_8x32, N_6_8x32, N_7_8x32]"
  have no: "((se7 a < N_7_8x32 \<or> se6 a < N_6_8x32) \<or> se5 a < N_5_8x32) \<or> se4 a < N_4_8x32 \<longleftrightarrow> limbs_val 32 ?xs < limbs_val 32 ?ns"
    by (auto simp: limbs_val_cmp_32 N_5_8x32_def N_6_8x32_def N_7_8x32_def max_32)
  have yes: "se4 a > N_4_8x32 \<and> \<not> limbs_val 32 ?xs < limbs_val 32 ?ns \<longleftrightarrow> limbs_val 32 ?ns < limbs_val 32 ?xs"
    by (auto simp: limbs_val_cmp_32 N_5_8x32_def N_6_8x32_def N_7_8x32_def max_32)
  show ?thesis
    unfolding scalar_check_overflow_8x32_def Let_def or.left_neutral flag_simps order_n_8x32 val_8x32 no yes lex_flags ..
qed

lemma is_high_8x32_iff: "scalar_is_high_8x32 a = of_bool (half_order < scalar_val_8x32 a)"
proof -
  let ?xs = "[se4 a, se5 a, se6 a, se7 a]" let ?ns = "[N_H_4_8x32, N_H_5_8x32, N_H_6_8x32, N_H_7_8x32]"
  have yes: "se7 a > N_H_7_8x32 \<and> \<not> se7 a < N_H_7_8x32 \<longleftrightarrow> limbs_val 32 ?ns < limbs_val 32 ?xs"
    by (auto simp: limbs_val_cmp_32 N_H_4_8x32_def N_H_5_8x32_def N_H_6_8x32_def max_32)
  have no: "((se7 a < N_H_7_8x32 \<or> se6 a < N_H_6_8x32 \<and> \<not> limbs_val 32 ?ns < limbs_val 32 ?xs) \<or>
      se5 a < N_H_5_8x32 \<and> \<not> limbs_val 32 ?ns < limbs_val 32 ?xs) \<or>
      se4 a < N_H_4_8x32 \<and> \<not> limbs_val 32 ?ns < limbs_val 32 ?xs \<longleftrightarrow> limbs_val 32 ?xs < limbs_val 32 ?ns"
    by (auto simp: limbs_val_cmp_32 N_H_4_8x32_def N_H_5_8x32_def N_H_6_8x32_def max_32)
  show ?thesis
    unfolding scalar_is_high_8x32_def Let_def or.left_neutral flag_simps half_order_8x32 val_8x32 yes no lex_flags ..
qed

lemma is_zero_8x32_iff: "scalar_is_zero_8x32 a \<longleftrightarrow> scalar_val_8x32 a = 0"
  using val_8x32_inject [of a "Scalar8 0 0 0 0 0 0 0 0"]
  by (auto simp: scalar_is_zero_8x32_def or_eq_0_iff scalar_val_8x32_def scalar_limbs_8x32_def limbs_val_Cons)

lemma is_one_8x32_iff: "scalar_is_one_8x32 a \<longleftrightarrow> scalar_val_8x32 a = 1"
  using val_8x32_inject [of a "Scalar8 1 0 0 0 0 0 0 0"]
  by (auto simp: scalar_is_one_8x32_def or_eq_0_iff word_xor_eq_0_iff scalar_val_8x32_def scalar_limbs_8x32_def limbs_val_Cons)

lemma eq_8x32_iff: "scalar_eq_8x32 a b \<longleftrightarrow> a = b"
  by (auto simp: scalar_eq_8x32_def or_eq_0_iff word_xor_eq_0_iff)

lemma is_even_8x32_iff: "scalar_is_even_8x32 a \<longleftrightarrow> even (scalar_val_8x32 a)"
proof -
  have "even (scalar_val_8x32 a) \<longleftrightarrow> even (uint (se0 a))"
    by (simp add: scalar_val_8x32_def scalar_limbs_8x32_def limbs_val_Cons)
  then show ?thesis
    using bit_uint_iff [of "se0 a" 0] by (simp add: scalar_is_even_8x32_def bit_0 and_one_eq flip: even_iff_mod_2_eq_zero odd_iff_mod_2_eq_one)
qed

subsection \<open>Additive operations\<close>

lemmas denotes_u32 = denotes_self [OF uint32_le]

lemma N_C_denotes_8x32:
  "denotes N_C_0_8x32 0x2FC9BEBF 0x2FC9BEBF" "denotes N_C_1_8x32 0x402DA173 0x402DA173" "denotes N_C_2_8x32 0x50B75FC4 0x50B75FC4"
  "denotes N_C_3_8x32 0x45512319 0x45512319" "denotes N_C_4_8x32 1 1"
  by (simp_all add: denotes_def N_C_8x32 N_8x32)

lemma denotes_less: "denotes w n B \<Longrightarrow> B < C \<Longrightarrow> uint w < C"
  by (simp add: denotes_def)

lemma reduce_8x32_val:
  assumes "uint overflow \<le> 1"
  shows "scalar_val_8x32 (snd (scalar_reduce_8x32 r overflow)) = (scalar_val_8x32 r + uint overflow * (2 ^ 256 - order_n)) mod 2 ^ 256"
proof -
  let ?o = "uint overflow"
  let ?x0 = "ucast (se0 r) + ucast (overflow * N_C_0_8x32) :: u64"
  let ?x1 = "ucast (se1 r) + ucast (overflow * N_C_1_8x32) :: u64" let ?x2 = "ucast (se2 r) + ucast (overflow * N_C_2_8x32) :: u64"
  let ?x3 = "ucast (se3 r) + ucast (overflow * N_C_3_8x32) :: u64" let ?x4 = "ucast (se4 r) + ucast (overflow * N_C_4_8x32) :: u64"
  note ov = denotes_self [OF assms]
  have x0: "denotes ?x0 (uint (se0 r) + ?o * 0x2FC9BEBF) (2 ^ 34)"
    by (rule denotes_weaken) (rule ov N_C_denotes_8x32 denotes_u32 denotes_intros | simp)+
  have x1: "denotes ?x1 (uint (se1 r) + ?o * 0x402DA173) (2 ^ 34)"
    by (rule denotes_weaken) (rule ov N_C_denotes_8x32 denotes_u32 denotes_intros | simp)+
  have x2: "denotes ?x2 (uint (se2 r) + ?o * 0x50B75FC4) (2 ^ 34)"
    by (rule denotes_weaken) (rule ov N_C_denotes_8x32 denotes_u32 denotes_intros | simp)+
  have x3: "denotes ?x3 (uint (se3 r) + ?o * 0x45512319) (2 ^ 34)"
    by (rule denotes_weaken) (rule ov N_C_denotes_8x32 denotes_u32 denotes_intros | simp)+
  have x4: "denotes ?x4 (uint (se4 r) + ?o * 1) (2 ^ 34)"
    by (rule denotes_weaken) (rule ov N_C_denotes_8x32 denotes_u32 denotes_intros | simp)+
  let ?xs = "[?x1, ?x2, ?x3, ?x4, ucast (se5 r), ucast (se6 r), ucast (se7 r)]"
  obtain ls c where c: "carry32 ?x0 ?xs = (ls, c)" by (cases "carry32 ?x0 ?xs")
  have ls: "scalar_limbs_8x32 (snd (scalar_reduce_8x32 r overflow)) = ls"
    using c by (auto simp: scalar_reduce_8x32_def Let_def scalar_limbs_8x32_def)
  have b: "\<forall>x\<in>set ?xs. uint x < 2 ^ 63"
    using x1 x2 x3 x4 uint32_le [of "se5 r"] uint32_le [of "se6 r"] uint32_le [of "se7 r"] by (auto elim: denotes_less)
  show ?thesis
    unfolding scalar_val_8x32_def ls carry32_mod(1) [OF c _ b, simplified]
    using denotes_uint [OF x0] denotes_uint [OF x1] denotes_uint [OF x2] denotes_uint [OF x3] denotes_uint [OF x4]
    by (simp add: scalar_limbs_8x32_def limbs_val_Cons order_n_def algebra_simps)
qed

lemma reduce_8x32_fst [simp]: "fst (scalar_reduce_8x32 r x) = x"
  by (simp add: scalar_reduce_8x32_def Let_def)

lemma final_reduce_8x32:
  fixes c :: u64
  assumes V: "scalar_val_8x32 r + 2 ^ 256 * uint c = V" "V < 2 * order_n"
  defines "ov \<equiv> (ucast (c + ucast (scalar_check_overflow_8x32 r)) :: u32)"
  shows "ov = of_bool (order_n \<le> V)"
    and "scalar_val_8x32 (snd (scalar_reduce_8x32 r ov)) = V mod order_n"
proof -
  have V0: "0 \<le> V" unfolding V(1) [symmetric] using val_8x32_bounds [of r] by simp
  have c: "uint c = 0 \<or> uint c = 1"
    using V val_8x32_bounds [of r] uint_ge_0 [of c] by (simp add: order_n_def; linarith)
  then show ov: "ov = of_bool (order_n \<le> V)"
  proof
    assume "uint c = 0"
    then show ?thesis using V by (auto simp: ov_def check_overflow_8x32 unsigned_eq_0_iff)
  next
    assume "uint c = 1"
    then have "c = 1" by (simp add: word_uint_eq_iff)
    then show ?thesis using V val_8x32_bounds [of r] by (simp add: ov_def check_overflow_8x32 order_n_def)
  qed
  have "scalar_val_8x32 (snd (scalar_reduce_8x32 r ov)) = (scalar_val_8x32 r + of_bool (order_n \<le> V) * (2 ^ 256 - order_n)) mod 2 ^ 256"
    using reduce_8x32_val [of ov r] by (simp add: ov)
  also have "\<dots> = (scalar_val_8x32 r + of_bool (order_n \<le> V) * (2 ^ 256 - order_n) + 2 ^ 256 * uint c) mod 2 ^ 256"
    by (simp only: mod_mult_self2)
  also have "\<dots> = (V + of_bool (order_n \<le> V) * (2 ^ 256 - order_n)) mod 2 ^ 256"
    by (simp only: V(1) [symmetric] ac_simps)
  finally show "scalar_val_8x32 (snd (scalar_reduce_8x32 r ov)) = V mod order_n"
    using mod_order_cond [OF V0 V(2)] by simp
qed

lemma uint_ucast_add32: "uint (ucast x + ucast y :: u64) = uint x + uint y" "uint (ucast x + ucast y :: u64) < 2 ^ 63" for x y :: u32
  using uint32_le [of x] uint32_le [of y] by (simp_all add: uint_word_ariths)

lemma add_8x32_correct:
  assumes "scalar_ok_8x32 a" "scalar_ok_8x32 b"
  shows "fst (scalar_add_8x32 a b) = of_bool (order_n \<le> scalar_val_8x32 a + scalar_val_8x32 b)" (is ?A)
    and "scalar_val_8x32 (snd (scalar_add_8x32 a b)) = (scalar_val_8x32 a + scalar_val_8x32 b) mod order_n" (is ?B)
proof -
  let ?x0 = "ucast (se0 a) + ucast (se0 b) :: u64"
  let ?xs = "[ucast (se1 a) + ucast (se1 b), ucast (se2 a) + ucast (se2 b), ucast (se3 a) + ucast (se3 b),
    ucast (se4 a) + ucast (se4 b), ucast (se5 a) + ucast (se5 b), ucast (se6 a) + ucast (se6 b), ucast (se7 a) + ucast (se7 b)] :: u64 list"
  obtain ls c where c: "carry32 ?x0 ?xs = (ls, c)" by (cases "carry32 ?x0 ?xs")
  obtain l0 l1 l2 l3 l4 l5 l6 l7 where ls: "ls = [l0, l1, l2, l3, l4, l5, l6, l7]" using c by auto
  define r where "r = Scalar8 l0 l1 l2 l3 l4 l5 l6 l7"
  define ov where "ov = (ucast (c + ucast (scalar_check_overflow_8x32 r)) :: u32)"
  let ?V = "scalar_val_8x32 a + scalar_val_8x32 b"
  have b: "\<forall>x\<in>set ?xs. uint x < 2 ^ 63" by (simp only: list.set ball_simps uint_ucast_add32(2) simp_thms)
  have "limbs_val 32 ls + 2 ^ 256 * uint c = uint ?x0 + 2 ^ 32 * horner_val (2 ^ 32) (map uint ?xs)"
    by (rule carry32_mod(2) [OF c _ b]) simp
  then have "limbs_val 32 ls + 2 ^ 256 * uint c = ?V"
    unfolding list.map uint_ucast_add32 by (simp add: scalar_val_8x32_def scalar_limbs_8x32_def limbs_val_Cons)
  then have "scalar_val_8x32 r + 2 ^ 256 * uint c = ?V" by (simp add: r_def val_8x32 ls)
  moreover have "?V < 2 * order_n" using assms by (simp add: scalar_ok_8x32_def)
  ultimately have "ov = of_bool (order_n \<le> ?V)" "scalar_val_8x32 (snd (scalar_reduce_8x32 r ov)) = ?V mod order_n"
    unfolding ov_def by (fact final_reduce_8x32)+
  moreover have "scalar_add_8x32 a b = (ov, snd (scalar_reduce_8x32 r ov))"
    using c by (auto simp: scalar_add_8x32_def Let_def ov_def r_def ls case_prod_beta)
  ultimately show ?A ?B by simp_all
qed

lemma uint_not32: "uint (NOT x) = 0xFFFFFFFF - uint x" for x :: u32
proof -
  have "(- uint x - 1) mod 2 ^ 32 = 0xFFFFFFFF - uint x"
    by (rule div_mod_unique_int(1) [of _ _ "-1"]) (use uint_bounded [of x] uint_gt [of x] in simp_all)
  then show ?thesis by (simp add: unsigned_not_eq not_int_def take_bit_eq_mod)
qed

lemma negate_8x32_correct:
  assumes "scalar_ok_8x32 a"
  shows "scalar_val_8x32 (scalar_negate_8x32 a) = (- scalar_val_8x32 a) mod order_n"
proof (cases "scalar_is_zero_8x32 a")
  case True
  then show ?thesis
    by (simp add: scalar_negate_8x32_def Let_def) (simp add: is_zero_8x32_iff scalar_val_8x32_def scalar_limbs_8x32_def limbs_val_Cons)
next
  case False
  let ?x0 = "ucast (NOT (se0 a)) + ucast N_0_8x32 + 1 :: u64"
  let ?xs = "[ucast (NOT (se1 a)) + ucast N_1_8x32, ucast (NOT (se2 a)) + ucast N_2_8x32, ucast (NOT (se3 a)) + ucast N_3_8x32,
    ucast (NOT (se4 a)) + ucast N_4_8x32, ucast (NOT (se5 a)) + ucast N_5_8x32, ucast (NOT (se6 a)) + ucast N_6_8x32,
    ucast (NOT (se7 a)) + ucast N_7_8x32] :: u64 list"
  obtain ls c where c: "carry32 ?x0 ?xs = (ls, c)" by (cases "carry32 ?x0 ?xs")
  have x0: "uint ?x0 = 0xFFFFFFFF - uint (se0 a) + uint N_0_8x32 + 1"
    using uint_gt [of "se0 a"] uint32_le [of "se0 a"]
    by (simp add: uint_plus_if' uint_ucast_add32 uint_not32 N_8x32)
  have "scalar_limbs_8x32 (scalar_negate_8x32 a) = ls"
    using c False by (auto simp: scalar_negate_8x32_def Let_def scalar_limbs_8x32_def)
  moreover have "\<forall>x\<in>set ?xs. uint x < 2 ^ 63" by (simp only: list.set ball_simps uint_ucast_add32(2) simp_thms)
  note m = carry32_mod(1) [OF c _ this]
  ultimately have "scalar_val_8x32 (scalar_negate_8x32 a) = (uint ?x0 + 2 ^ 32 * horner_val (2 ^ 32) (map uint ?xs)) mod 2 ^ 256"
    unfolding scalar_val_8x32_def by (simp only:) (rule m, simp)
  also have "uint ?x0 + 2 ^ 32 * horner_val (2 ^ 32) (map uint ?xs) = 2 ^ 256 + order_n - scalar_val_8x32 a"
    unfolding x0 list.map uint_ucast_add32 uint_not32 order_n_8x32 scalar_val_8x32_def scalar_limbs_8x32_def
    by (simp add: limbs_val_Cons)
  also have "\<dots> mod 2 ^ 256 = order_n - scalar_val_8x32 a"
    by (rule div_mod_unique_int(1) [of _ _ 1])
       (use assms val_8x32_bounds [of a] False in \<open>simp_all add: scalar_ok_8x32_def is_zero_8x32_iff order_n_def\<close>)
  also have "\<dots> = (- scalar_val_8x32 a) mod order_n"
    by (rule div_mod_unique_int(1) [of _ _ "-1", symmetric])
       (use assms val_8x32_bounds [of a] False in \<open>simp_all add: scalar_ok_8x32_def is_zero_8x32_iff\<close>)
  finally show ?thesis .
qed

lemma low32_ucast [simp]: "low32 (ucast x) = x" "drop_bit 32 (ucast x :: u64) = 0" for x :: u32
proof -
  show "drop_bit 32 (ucast x :: u64) = 0"
    using uint32_le [of x] by (simp add: word_uint_eq_iff uint_drop_bit)
  then show "low32 (ucast x) = x"
    using low32_split [of "ucast x"] by (simp add: word_uint_eq_iff [where a = "low32 _"])
qed

lemma cond_negate_8x32_eq: "scalar_cond_negate_8x32 r flag = (if flag = 0 then (1, r) else (-1, scalar_negate_8x32 r))"
proof (cases "flag = 0")
  case True
  then show ?thesis
    by (auto simp add: scalar_cond_negate_8x32_def Let_def scalar_is_zero_8x32_def or_eq_0_iff)
next
  case False
  have "ucast (N_0_8x32 + 1) = (ucast N_0_8x32 + 1 :: u64)" by (simp add: N_8x32)
  with False show ?thesis
    by (simp add: scalar_cond_negate_8x32_def scalar_negate_8x32_def Let_def add.assoc)
qed

subsection \<open>Bytes and bits\<close>

lemma uint_read_be32: "uint (read_be32 b i) = be_val [b ! i, b ! (i + 1), b ! (i + 2), b ! (i + 3)]"
proof -
  have "denotes (read_be32 b i) (uint (b ! (i + 3)) + 2 ^ 8 * uint (b ! (i + 2)) + 2 ^ 16 * uint (b ! (i + 1)) + 2 ^ 24 * uint (b ! i)) (2 ^ 32)"
    unfolding read_be32_def
    by (rule denotes_weaken) (rule denotes_or_push denotes_ucast denotes_u8 | simp)+
  then show ?thesis by (simp add: denotes_def be_val_Cons)
qed

lemma be_val_write_be32: "be_val (write_be32 d) = uint d" "length (write_be32 d) = 4"
proof -
  have u: "uint (ucast x :: u8) = uint x mod 256" for x :: u32
    by (simp add: unsigned_ucast_eq take_bit_eq_mod)
  have step: "x div 2 ^ k mod 256 + 256 * (x div 2 ^ (k + 8)) = x div 2 ^ k" for x :: int and k
    by (simp add: power_add zdiv_zmult2_eq)
  define q where "q k = uint d div 2 ^ k" for k
  have "q 24 mod 256 = q 24"
    using uint32_le [of d] unfolding q_def
    by (intro mod_pos_pos_trivial) (simp_all add: div_less_iff_less_mult pos_imp_zdiv_nonneg_iff)
  moreover have "q 0 mod 256 + 256 * q 8 = q 0" "q 8 mod 256 + 256 * q 16 = q 8" "q 16 mod 256 + 256 * q 24 = q 16"
    using step [of "uint d" 0] step [of "uint d" 8] step [of "uint d" 16] by (simp_all only: q_def) simp_all
  ultimately have "q 0 = 16777216 * (q 24 mod 256) + 65536 * (q 16 mod 256) + 256 * (q 8 mod 256) + q 0 mod 256" by linarith
  moreover have "be_val (write_be32 d) = 16777216 * (q 24 mod 256) + 65536 * (q 16 mod 256) + 256 * (q 8 mod 256) + q 0 mod 256"
    by (simp add: write_be32_def be_val_Cons u uint_drop_bit q_def)
  moreover have "q 0 = uint d" by (simp add: q_def)
  ultimately show "be_val (write_be32 d) = uint d" by simp
qed (simp add: write_be32_def)

lemma be_val_split32:
  assumes "length b = 32"
  shows "be_val b = limbs_val 32 [read_be32 b 28, read_be32 b 24, read_be32 b 20, read_be32 b 16,
    read_be32 b 12, read_be32 b 8, read_be32 b 4, read_be32 b 0]"
proof -
  have b: "b = map (\<lambda>i. b ! i) [0..<32]" using assms by (metis map_nth)
  have u: "[0..<32] = [0,1,2,3,4,5,6,7,8,9,10,11,12,13,14,15,16,17,18,19,20,21,22,23,24,25,26,27,28,29,30,31]"
    by (simp add: upt_rec)
  show ?thesis
    by (subst b, unfold u) (simp add: limbs_val_Cons uint_read_be32 be_val_Cons numeral_2_eq_2)
qed

lemma set_b32_8x32_correct:
  assumes "length b = 32"
  shows "fst (scalar_set_b32_8x32 b) = of_bool (order_n \<le> be_val b)"
    and "scalar_val_8x32 (snd (scalar_set_b32_8x32 b)) = be_val b mod order_n"
proof -
  let ?r = "Scalar8 (read_be32 b 28) (read_be32 b 24) (read_be32 b 20) (read_be32 b 16)
    (read_be32 b 12) (read_be32 b 8) (read_be32 b 4) (read_be32 b 0)"
  have v: "scalar_val_8x32 ?r = be_val b" by (simp add: be_val_split32 [OF assms] val_8x32)
  have "be_val b < 2 * order_n"
    using be_val_bounds(2) [of b] assms by (simp add: order_n_def)
  then have "scalar_check_overflow_8x32 ?r = of_bool (order_n \<le> be_val b)"
    and "scalar_val_8x32 (snd (scalar_reduce_8x32 ?r (scalar_check_overflow_8x32 ?r))) = be_val b mod order_n"
    using final_reduce_8x32 [of ?r 0 "be_val b"] v by (simp_all add: check_overflow_8x32)
  then show "fst (scalar_set_b32_8x32 b) = of_bool (order_n \<le> be_val b)"
    and "scalar_val_8x32 (snd (scalar_set_b32_8x32 b)) = be_val b mod order_n"
    by (simp_all add: scalar_set_b32_8x32_def Let_def)
qed

lemma get_b32_8x32_correct: "be_val (scalar_get_b32_8x32 a) = scalar_val_8x32 a" "length (scalar_get_b32_8x32 a) = 32"
  by (simp_all add: scalar_get_b32_8x32_def be_val_append be_val_write_be32 scalar_val_8x32_def scalar_limbs_8x32_def limbs_val_Cons)

lemma bit_val_8x32: "bit (scalar_val_8x32 a) k \<longleftrightarrow> k < 256 \<and> bit (scalar_limbs_8x32 a ! (k div 32)) (k mod 32)"
  using bit_limbs_val [of "scalar_limbs_8x32 a" k] by (simp add: scalar_val_8x32_def scalar_limbs_8x32_def)

lemma limb_8x32_nth: "scalar_limb_8x32 a i = scalar_limbs_8x32 a ! unat i"
  by (simp add: scalar_limb_8x32_def scalar_limbs_8x32_def)

lemma unat_and_1F: "unat (a AND 0x1F) = unat a mod 32" for a :: u32
  using unat_and_mask [of a 5] by (simp add: mask_numeral)

lemma get_bits_8x32_correct:
  assumes "unat offset mod 32 + unat count \<le> 32" "unat offset + unat count \<le> 256"
  shows "uint (scalar_get_bits_8x32 a offset count) = scalar_val_8x32 a div 2 ^ unat offset mod 2 ^ unat count"
proof -
  have "uint (scalar_get_bits_8x32 a offset count) = take_bit (unat count) (drop_bit (unat offset) (scalar_val_8x32 a))"
  proof (rule bit_eqI)
    fix n
    have "(unat offset + n) div 32 = unat offset div 32 \<and> (unat offset + n) mod 32 = unat offset mod 32 + n" if "n < unat count"
      using that assms by (intro conjI div_mod_add_nat) simp_all
    then show "bit (uint (scalar_get_bits_8x32 a offset count)) n = bit (take_bit (unat count) (drop_bit (unat offset) (scalar_val_8x32 a))) n"
      using assms unfolding scalar_get_bits_8x32_def push_bit_minus_1
      by (auto simp: bit_simps bit_val_8x32 limb_8x32_nth unat_drop_bit unat_and_1F)
  qed
  then show ?thesis by (simp add: take_bit_eq_mod drop_bit_eq_div)
qed

lemma get_bits_var_8x32_correct:
  assumes "0 < unat count" "unat count < 32" "unat offset + unat count \<le> 256"
  shows "uint (scalar_get_bits_var_8x32 a offset count) = scalar_val_8x32 a div 2 ^ unat offset mod 2 ^ unat count"
proof -
  have "unat (offset + count - 1) = unat offset + unat count - 1"
    using assms by (simp add: unat_word_ariths unat_sub_if')
  then have same: "drop_bit 5 (offset + count - 1) = drop_bit 5 offset \<longleftrightarrow> (unat offset + unat count - 1) div 32 = unat offset div 32"
    by (simp add: word_unat_eq_iff unat_drop_bit)
  show ?thesis
  proof (cases "unat offset mod 32 + unat count \<le> 32")
    case True
    then have "(unat offset + (unat count - 1)) div 32 = unat offset div 32"
      using assms by (intro div_mod_add_nat) simp
    then show ?thesis
      using get_bits_8x32_correct [OF True assms(3)] assms same by (simp add: scalar_get_bits_var_8x32_def)
  next
    case False
    define q r where "q = unat offset div 32" and "r = unat offset mod 32"
    have o: "unat offset = 32 * q + r" "r < 32" unfolding q_def r_def by simp_all
    have cross: "(32 * q + r + n) div 32 = q + 1" "(32 * q + r + n) mod 32 = n + r - 32" if "32 \<le> r + n" "r + n < 64" for n
    proof -
      show d: "(32 * q + r + n) div 32 = q + 1" by (rule div_nat_eqI) (use that in simp_all)
      show "(32 * q + r + n) mod 32 = n + r - 32" unfolding minus_mult_div_eq_mod [symmetric] d by simp
    qed
    have within: "(32 * q + r + n) div 32 = q" "(32 * q + r + n) mod 32 = r + n" if "r + n < 32" for n
      using that by (simp_all add: add.assoc)
    have diff: "drop_bit 5 (offset + count - 1) \<noteq> drop_bit 5 offset"
      using same cross(1) [of "unat count - 1"] False assms o(2) by (simp add: o(1) add.assoc)
    have "q < 7" using o assms False by (simp add: r_def)
    then have idx: "unat (drop_bit 5 offset) = q" "unat (drop_bit 5 offset + 1) = q + 1" "unat (32 - (offset AND 0x1F)) = 32 - r"
      using o(2) by (simp_all add: unat_drop_bit q_def r_def unat_word_ariths unat_sub_if' unat_and_1F)
    have "uint (scalar_get_bits_var_8x32 a offset count) = take_bit (unat count) (drop_bit (unat offset) (scalar_val_8x32 a))"
    proof (rule bit_eqI)
      fix n
      show "bit (uint (scalar_get_bits_var_8x32 a offset count)) n = bit (take_bit (unat count) (drop_bit (unat offset) (scalar_val_8x32 a))) n"
      proof (cases "n < unat count")
        case True
        then have "32 * q + r + n < 256" using assms o by simp
        with True show ?thesis
          using diff False assms o \<open>q < 7\<close> cross [of n] within [of n] unfolding scalar_get_bits_var_8x32_def push_bit_minus_1
          by (cases "r + n < 32")
            (auto simp: bit_simps bit_val_8x32 limb_8x32_nth idx unat_and_1F r_def [symmetric] dest: bit_imp_le_length)
      next
        case False
        then show ?thesis using diff unfolding scalar_get_bits_var_8x32_def push_bit_minus_1 by (simp add: bit_simps)
      qed
    qed
    then show ?thesis by (simp add: take_bit_eq_mod drop_bit_eq_div)
  qed
qed

lemma uint_push_bit_bool32:
  assumes "s < 32"
  shows "uint (push_bit s (of_bool b) :: u32) = of_bool b * 2 ^ s"
proof -
  have "take_bit 32 (2 ^ s :: int) = 2 ^ s" using assms by simp
  then show ?thesis unfolding unsigned_push_bit_eq by (simp add: push_bit_eq_mult)
qed

lemma one_limb:
  fixes q :: nat and x :: int
  assumes "q \<le> 15"
  shows "of_bool (q = 0) * x + 2 ^ 32 * horner_val (2 ^ 32) (map (\<lambda>i. of_bool (q = i) * x) [1, 2, 3, 4, 5, 6, 7]) = of_bool (q < 8) * 2 ^ (32 * q) * x"
proof -
  have "q = 0 \<or> q = 1 \<or> q = 2 \<or> q = 3 \<or> q = 4 \<or> q = 5 \<or> q = 6 \<or> q = 7 \<or> 8 \<le> q" by auto
  then show ?thesis by auto
qed

lemma cadd_bit_8x32_correct:
  assumes "unat bit0 < 256" "flag = 0 \<or> flag = 1"
  shows "scalar_val_8x32 (scalar_cadd_bit_8x32 r bit0 flag) = (scalar_val_8x32 r + uint flag * 2 ^ unat bit0) mod 2 ^ 256"
proof -
  define bi where "bi = bit0 + ((flag - 1) AND 0x100)"
  have bi: "unat bi = (if flag = 0 then unat bit0 + 256 else unat bit0)"
    using assms by (auto simp: bi_def unat_word_ariths)
  define q s where "q = unat bi div 32" and "s = unat bi mod 32"
  have qs: "unat bi = 32 * q + s" "s < 32" unfolding q_def s_def by simp_all
  have d: "drop_bit 5 bi = k \<longleftrightarrow> q = unat k" for k :: u32
    by (simp add: word_unat_eq_iff unat_drop_bit q_def)
  let ?p = "\<lambda>i. push_bit s (of_bool (q = i)) :: u32"
  let ?x0 = "ucast (se0 r) + ucast (?p 0) :: u64"
  let ?xs = "[ucast (se1 r) + ucast (?p 1), ucast (se2 r) + ucast (?p 2), ucast (se3 r) + ucast (?p 3), ucast (se4 r) + ucast (?p 4),
    ucast (se5 r) + ucast (?p 5), ucast (se6 r) + ucast (?p 6), ucast (se7 r) + ucast (?p 7)] :: u64 list"
  define p :: "nat \<Rightarrow> int" where "p i = of_bool (q = i) * 2 ^ s" for i
  obtain ls c where c: "carry32 ?x0 ?xs = (ls, c)" by (cases "carry32 ?x0 ?xs")
  have n: "unat (2 :: u32) = 2" "unat (3 :: u32) = 3" "unat (4 :: u32) = 4" "unat (5 :: u32) = 5" "unat (6 :: u32) = 6" "unat (7 :: u32) = 7"
    by simp_all
  have "scalar_limbs_8x32 (scalar_cadd_bit_8x32 r bit0 flag) = ls"
    using c unfolding scalar_cadd_bit_8x32_def Let_def bi_def [symmetric] unat_and_1F s_def [symmetric] d n unsigned_0 unsigned_1
    by (auto simp: scalar_limbs_8x32_def)
  moreover have "\<forall>x\<in>set ?xs. uint x < 2 ^ 63" by (simp only: list.set ball_simps uint_ucast_add32(2) simp_thms)
  note m = carry32_mod(1) [OF c _ this]
  ultimately have "scalar_val_8x32 (scalar_cadd_bit_8x32 r bit0 flag) = (uint ?x0 + 2 ^ 32 * horner_val (2 ^ 32) (map uint ?xs)) mod 2 ^ 256"
    unfolding scalar_val_8x32_def by (simp only:) (rule m, simp)
  also have "uint ?x0 + 2 ^ 32 * horner_val (2 ^ 32) (map uint ?xs) = scalar_val_8x32 r +
      (of_bool (q = 0) * 2 ^ s + 2 ^ 32 * horner_val (2 ^ 32) (map (\<lambda>i. of_bool (q = i) * 2 ^ s) [1, 2, 3, 4, 5, 6, 7]))"
    unfolding list.map uint_ucast_add32 uint_push_bit_bool32 [OF qs(2)] p_def [symmetric]
    by (simp add: scalar_val_8x32_def scalar_limbs_8x32_def limbs_val_Cons)
  also have "\<dots> = scalar_val_8x32 r + of_bool (q < 8) * 2 ^ (32 * q) * 2 ^ s"
    using bi assms by (subst one_limb) (auto simp: q_def)
  also have "of_bool (q < 8) * 2 ^ (32 * q) * 2 ^ s = uint flag * (2 :: int) ^ unat bit0"
  proof (cases "flag = 0")
    case True
    then have "\<not> q < 8" using bi qs by simp
    with True show ?thesis by simp
  next
    case False
    then have "flag = 1" "q < 8" "32 * q + s = unat bit0" using assms bi qs by simp_all
    then show ?thesis by (simp add: power_add [symmetric])
  qed
  finally show ?thesis .
qed

subsection \<open>Products\<close>

lemma macros_8x32:
  "muladd_8x32 = acc_muladd TYPE(64)" "muladd_fast_8x32 = acc_muladd_fast TYPE(64)" "muladd2_8x32 = acc_muladd2 TYPE(64)"
  "sumadd_8x32 = acc_sumadd" "sumadd_fast_8x32 = acc_sumadd_fast" "extract_8x32 = acc_extract" "extract_fast_8x32 = acc_extract_fast"
  by (auto simp: fun_eq_iff muladd_8x32_def acc_muladd_def muladd_fast_8x32_def acc_muladd_fast_def muladd2_8x32_def acc_muladd2_def
      sumadd_8x32_def acc_sumadd_def sumadd_fast_8x32_def acc_sumadd_fast_def extract_8x32_def acc_extract_def
      extract_fast_8x32_def acc_extract_fast_def Let_def)

lemmas adds_8x32 = acc_adds_muladd [where 'd = 64 and 'w = 32, simplified] acc_adds_muladd2 [where 'd = 64 and 'w = 32, simplified]
  acc_adds_sumadd [where 'w = 32, simplified]

lemmas adds_rules_8x32 = adds_8x32 adds_8x32 [THEN acc_adds_comp [rotated]]

lemma room_8x32: "room TYPE(acc96) = 2 ^ 96"
  by (simp add: room_def)

text \<open>A step of at most eight products, and the carry it leaves.\<close>

abbreviation adds_column :: "(acc96 \<Rightarrow> acc96) \<Rightarrow> int \<Rightarrow> bool" where
  "adds_column f x \<equiv> acc_adds f x 0x100000000000000000"

lemmas columns_8x32 = acc_columns_val [where 'w = 32 and 'c = 32 and D = "2 ^ 68" and K = "2 ^ 37", simplified room_8x32 len_num1 len_num0 len_bit0, simplified]

lemmas comba_8x32 = comba [where 'w = 32 and 'c = 32 and 'd = 64 and D = "2 ^ 68" and K = "2 ^ 37", simplified room_8x32, simplified]

lemma product_8x32_less: "scalar_val_8x32 a * scalar_val_8x32 b < 2 ^ 512"
  using mult_strict_mono' [OF val_8x32_bounds(2) val_8x32_bounds(2) val_8x32_bounds(1) val_8x32_bounds(1), of a b]
  by simp

lemma scalar_mul_512_8x32_correct:
  "limbs_val 32 (scalar_mul_512_8x32 a b) = scalar_val_8x32 a * scalar_val_8x32 b"
  "length (scalar_mul_512_8x32 a b) = 16"
proof -
  let ?fs = "[
    acc_muladd TYPE(64) (se0 a) (se0 b),
    \<lambda>c. acc_muladd TYPE(64) (se1 a) (se0 b) (acc_muladd TYPE(64) (se0 a) (se1 b) c),
    \<lambda>c. acc_muladd TYPE(64) (se2 a) (se0 b) (acc_muladd TYPE(64) (se1 a) (se1 b) (acc_muladd TYPE(64) (se0 a) (se2 b) c)),
    \<lambda>c. acc_muladd TYPE(64) (se3 a) (se0 b) (acc_muladd TYPE(64) (se2 a) (se1 b) (acc_muladd TYPE(64) (se1 a) (se2 b) (acc_muladd TYPE(64) (se0 a) (se3 b) c))),
    \<lambda>c. acc_muladd TYPE(64) (se4 a) (se0 b) (acc_muladd TYPE(64) (se3 a) (se1 b) (acc_muladd TYPE(64) (se2 a) (se2 b) (acc_muladd TYPE(64) (se1 a) (se3 b) (acc_muladd TYPE(64) (se0 a) (se4 b) c)))),
    \<lambda>c. acc_muladd TYPE(64) (se5 a) (se0 b) (acc_muladd TYPE(64) (se4 a) (se1 b) (acc_muladd TYPE(64) (se3 a) (se2 b) (acc_muladd TYPE(64) (se2 a) (se3 b) (acc_muladd TYPE(64) (se1 a) (se4 b) (acc_muladd TYPE(64) (se0 a) (se5 b) c))))),
    \<lambda>c. acc_muladd TYPE(64) (se6 a) (se0 b) (acc_muladd TYPE(64) (se5 a) (se1 b) (acc_muladd TYPE(64) (se4 a) (se2 b) (acc_muladd TYPE(64) (se3 a) (se3 b) (acc_muladd TYPE(64) (se2 a) (se4 b) (acc_muladd TYPE(64) (se1 a) (se5 b) (acc_muladd TYPE(64) (se0 a) (se6 b) c)))))),
    \<lambda>c. acc_muladd TYPE(64) (se7 a) (se0 b) (acc_muladd TYPE(64) (se6 a) (se1 b) (acc_muladd TYPE(64) (se5 a) (se2 b) (acc_muladd TYPE(64) (se4 a) (se3 b) (acc_muladd TYPE(64) (se3 a) (se4 b) (acc_muladd TYPE(64) (se2 a) (se5 b) (acc_muladd TYPE(64) (se1 a) (se6 b) (acc_muladd TYPE(64) (se0 a) (se7 b) c))))))),
    \<lambda>c. acc_muladd TYPE(64) (se7 a) (se1 b) (acc_muladd TYPE(64) (se6 a) (se2 b) (acc_muladd TYPE(64) (se5 a) (se3 b) (acc_muladd TYPE(64) (se4 a) (se4 b) (acc_muladd TYPE(64) (se3 a) (se5 b) (acc_muladd TYPE(64) (se2 a) (se6 b) (acc_muladd TYPE(64) (se1 a) (se7 b) c)))))),
    \<lambda>c. acc_muladd TYPE(64) (se7 a) (se2 b) (acc_muladd TYPE(64) (se6 a) (se3 b) (acc_muladd TYPE(64) (se5 a) (se4 b) (acc_muladd TYPE(64) (se4 a) (se5 b) (acc_muladd TYPE(64) (se3 a) (se6 b) (acc_muladd TYPE(64) (se2 a) (se7 b) c))))),
    \<lambda>c. acc_muladd TYPE(64) (se7 a) (se3 b) (acc_muladd TYPE(64) (se6 a) (se4 b) (acc_muladd TYPE(64) (se5 a) (se5 b) (acc_muladd TYPE(64) (se4 a) (se6 b) (acc_muladd TYPE(64) (se3 a) (se7 b) c)))),
    \<lambda>c. acc_muladd TYPE(64) (se7 a) (se4 b) (acc_muladd TYPE(64) (se6 a) (se5 b) (acc_muladd TYPE(64) (se5 a) (se6 b) (acc_muladd TYPE(64) (se4 a) (se7 b) c))),
    \<lambda>c. acc_muladd TYPE(64) (se7 a) (se5 b) (acc_muladd TYPE(64) (se6 a) (se6 b) (acc_muladd TYPE(64) (se5 a) (se7 b) c)),
    \<lambda>c. acc_muladd TYPE(64) (se7 a) (se6 b) (acc_muladd TYPE(64) (se6 a) (se7 b) c)] :: (acc96 \<Rightarrow> acc96) list"
  let ?xs = "[
    uint (se0 a) * uint (se0 b),
    uint (se0 a) * uint (se1 b) + uint (se1 a) * uint (se0 b),
    uint (se0 a) * uint (se2 b) + uint (se1 a) * uint (se1 b) + uint (se2 a) * uint (se0 b),
    uint (se0 a) * uint (se3 b) + uint (se1 a) * uint (se2 b) + uint (se2 a) * uint (se1 b) + uint (se3 a) * uint (se0 b),
    uint (se0 a) * uint (se4 b) + uint (se1 a) * uint (se3 b) + uint (se2 a) * uint (se2 b) + uint (se3 a) * uint (se1 b) + uint (se4 a) * uint (se0 b),
    uint (se0 a) * uint (se5 b) + uint (se1 a) * uint (se4 b) + uint (se2 a) * uint (se3 b) + uint (se3 a) * uint (se2 b) + uint (se4 a) * uint (se1 b) + uint (se5 a) * uint (se0 b),
    uint (se0 a) * uint (se6 b) + uint (se1 a) * uint (se5 b) + uint (se2 a) * uint (se4 b) + uint (se3 a) * uint (se3 b) + uint (se4 a) * uint (se2 b) + uint (se5 a) * uint (se1 b) + uint (se6 a) * uint (se0 b),
    uint (se0 a) * uint (se7 b) + uint (se1 a) * uint (se6 b) + uint (se2 a) * uint (se5 b) + uint (se3 a) * uint (se4 b) + uint (se4 a) * uint (se3 b) + uint (se5 a) * uint (se2 b) + uint (se6 a) * uint (se1 b) + uint (se7 a) * uint (se0 b),
    uint (se1 a) * uint (se7 b) + uint (se2 a) * uint (se6 b) + uint (se3 a) * uint (se5 b) + uint (se4 a) * uint (se4 b) + uint (se5 a) * uint (se3 b) + uint (se6 a) * uint (se2 b) + uint (se7 a) * uint (se1 b),
    uint (se2 a) * uint (se7 b) + uint (se3 a) * uint (se6 b) + uint (se4 a) * uint (se5 b) + uint (se5 a) * uint (se4 b) + uint (se6 a) * uint (se3 b) + uint (se7 a) * uint (se2 b),
    uint (se3 a) * uint (se7 b) + uint (se4 a) * uint (se6 b) + uint (se5 a) * uint (se5 b) + uint (se6 a) * uint (se4 b) + uint (se7 a) * uint (se3 b),
    uint (se4 a) * uint (se7 b) + uint (se5 a) * uint (se6 b) + uint (se6 a) * uint (se5 b) + uint (se7 a) * uint (se4 b),
    uint (se5 a) * uint (se7 b) + uint (se6 a) * uint (se6 b) + uint (se7 a) * uint (se5 b),
    uint (se6 a) * uint (se7 b) + uint (se7 a) * uint (se6 b)]"
  let ?last = "\<lambda>C. acc_extract_fast (acc_muladd_fast TYPE(64) (se7 a) (se7 b) C)"
  obtain ns C where col: "acc_columns ?fs (0, 0, 0) = (ns, C)" by (cases "acc_columns ?fs (0, 0, 0)")
  obtain l14 C' where e: "?last C = (l14, C')" by (cases "?last C")
  have fs: "list_all2 adds_column ?fs ?xs"
    by (simp only: list_all2_Cons list_all2_Nil simp_thms, intro conjI; rule acc_adds_weaken, (rule adds_rules_8x32)+, simp)
  have T: "horner_val (2 ^ 32) ?xs + 2 ^ 448 * (uint (se7 a) * uint (se7 b)) = scalar_val_8x32 a * scalar_val_8x32 b"
    unfolding scalar_val_8x32_def scalar_limbs_8x32_def limbs_val_Cons limbs_val.simps(1) horner_val.simps by algebra
  have "scalar_mul_512_8x32 a b = ns @ [l14, fst C']"
    using col e by (simp add: scalar_mul_512_8x32_def macros_8x32 Let_def case_prod_beta first_column_fast)
  then show "limbs_val 32 (scalar_mul_512_8x32 a b) = scalar_val_8x32 a * scalar_val_8x32 b" "length (scalar_mul_512_8x32 a b) = 16"
    using comba_8x32 [OF fs col e] T product_8x32_less [of a b] by simp_all
qed

lemma scalar_sqr_512_8x32_correct:
  "limbs_val 32 (scalar_sqr_512_8x32 a) = scalar_val_8x32 a * scalar_val_8x32 a"
  "length (scalar_sqr_512_8x32 a) = 16"
proof -
  let ?fs = "[
    acc_muladd TYPE(64) (se0 a) (se0 a),
    acc_muladd2 TYPE(64) (se0 a) (se1 a),
    \<lambda>c. acc_muladd TYPE(64) (se1 a) (se1 a) (acc_muladd2 TYPE(64) (se0 a) (se2 a) c),
    \<lambda>c. acc_muladd2 TYPE(64) (se1 a) (se2 a) (acc_muladd2 TYPE(64) (se0 a) (se3 a) c),
    \<lambda>c. acc_muladd TYPE(64) (se2 a) (se2 a) (acc_muladd2 TYPE(64) (se1 a) (se3 a) (acc_muladd2 TYPE(64) (se0 a) (se4 a) c)),
    \<lambda>c. acc_muladd2 TYPE(64) (se2 a) (se3 a) (acc_muladd2 TYPE(64) (se1 a) (se4 a) (acc_muladd2 TYPE(64) (se0 a) (se5 a) c)),
    \<lambda>c. acc_muladd TYPE(64) (se3 a) (se3 a) (acc_muladd2 TYPE(64) (se2 a) (se4 a) (acc_muladd2 TYPE(64) (se1 a) (se5 a) (acc_muladd2 TYPE(64) (se0 a) (se6 a) c))),
    \<lambda>c. acc_muladd2 TYPE(64) (se3 a) (se4 a) (acc_muladd2 TYPE(64) (se2 a) (se5 a) (acc_muladd2 TYPE(64) (se1 a) (se6 a) (acc_muladd2 TYPE(64) (se0 a) (se7 a) c))),
    \<lambda>c. acc_muladd TYPE(64) (se4 a) (se4 a) (acc_muladd2 TYPE(64) (se3 a) (se5 a) (acc_muladd2 TYPE(64) (se2 a) (se6 a) (acc_muladd2 TYPE(64) (se1 a) (se7 a) c))),
    \<lambda>c. acc_muladd2 TYPE(64) (se4 a) (se5 a) (acc_muladd2 TYPE(64) (se3 a) (se6 a) (acc_muladd2 TYPE(64) (se2 a) (se7 a) c)),
    \<lambda>c. acc_muladd TYPE(64) (se5 a) (se5 a) (acc_muladd2 TYPE(64) (se4 a) (se6 a) (acc_muladd2 TYPE(64) (se3 a) (se7 a) c)),
    \<lambda>c. acc_muladd2 TYPE(64) (se5 a) (se6 a) (acc_muladd2 TYPE(64) (se4 a) (se7 a) c),
    \<lambda>c. acc_muladd TYPE(64) (se6 a) (se6 a) (acc_muladd2 TYPE(64) (se5 a) (se7 a) c),
    acc_muladd2 TYPE(64) (se6 a) (se7 a)] :: (acc96 \<Rightarrow> acc96) list"
  let ?xs = "[
    uint (se0 a) * uint (se0 a),
    2 * (uint (se0 a) * uint (se1 a)),
    2 * (uint (se0 a) * uint (se2 a)) + uint (se1 a) * uint (se1 a),
    2 * (uint (se0 a) * uint (se3 a)) + 2 * (uint (se1 a) * uint (se2 a)),
    2 * (uint (se0 a) * uint (se4 a)) + 2 * (uint (se1 a) * uint (se3 a)) + uint (se2 a) * uint (se2 a),
    2 * (uint (se0 a) * uint (se5 a)) + 2 * (uint (se1 a) * uint (se4 a)) + 2 * (uint (se2 a) * uint (se3 a)),
    2 * (uint (se0 a) * uint (se6 a)) + 2 * (uint (se1 a) * uint (se5 a)) + 2 * (uint (se2 a) * uint (se4 a)) + uint (se3 a) * uint (se3 a),
    2 * (uint (se0 a) * uint (se7 a)) + 2 * (uint (se1 a) * uint (se6 a)) + 2 * (uint (se2 a) * uint (se5 a)) + 2 * (uint (se3 a) * uint (se4 a)),
    2 * (uint (se1 a) * uint (se7 a)) + 2 * (uint (se2 a) * uint (se6 a)) + 2 * (uint (se3 a) * uint (se5 a)) + uint (se4 a) * uint (se4 a),
    2 * (uint (se2 a) * uint (se7 a)) + 2 * (uint (se3 a) * uint (se6 a)) + 2 * (uint (se4 a) * uint (se5 a)),
    2 * (uint (se3 a) * uint (se7 a)) + 2 * (uint (se4 a) * uint (se6 a)) + uint (se5 a) * uint (se5 a),
    2 * (uint (se4 a) * uint (se7 a)) + 2 * (uint (se5 a) * uint (se6 a)),
    2 * (uint (se5 a) * uint (se7 a)) + uint (se6 a) * uint (se6 a),
    2 * (uint (se6 a) * uint (se7 a))]"
  let ?last = "\<lambda>C. acc_extract_fast (acc_muladd_fast TYPE(64) (se7 a) (se7 a) C)"
  obtain ns C where col: "acc_columns ?fs (0, 0, 0) = (ns, C)" by (cases "acc_columns ?fs (0, 0, 0)")
  obtain l14 C' where e: "?last C = (l14, C')" by (cases "?last C")
  have fs: "list_all2 adds_column ?fs ?xs"
    by (simp only: list_all2_Cons list_all2_Nil simp_thms, intro conjI; rule acc_adds_weaken, (rule adds_rules_8x32)+, simp)
  have T: "horner_val (2 ^ 32) ?xs + 2 ^ 448 * (uint (se7 a) * uint (se7 a)) = scalar_val_8x32 a * scalar_val_8x32 a"
    unfolding scalar_val_8x32_def scalar_limbs_8x32_def limbs_val_Cons limbs_val.simps(1) horner_val.simps by algebra
  have "scalar_sqr_512_8x32 a = ns @ [l14, fst C']"
    using col e by (simp add: scalar_sqr_512_8x32_def macros_8x32 Let_def case_prod_beta first_column_fast)
  then show "limbs_val 32 (scalar_sqr_512_8x32 a) = scalar_val_8x32 a * scalar_val_8x32 a" "length (scalar_sqr_512_8x32 a) = 16"
    using comba_8x32 [OF fs col e] T product_8x32_less [of a a] by simp_all
qed
subsection \<open>The reduction\<close>

lemma order_c_8x32:
  "order_c = uint N_C_0_8x32 + 2 ^ 32 * uint N_C_1_8x32 + 2 ^ 64 * uint N_C_2_8x32 + 2 ^ 96 * uint N_C_3_8x32 + 2 ^ 128"
  by (simp add: order_c_def order_n_def N_C_8x32 N_8x32)

lemma second_column_8x32:
  fixes n0 k l0 l1 :: u32
  shows "acc_sumadd_fast l1 (snd (acc_extract (acc_muladd TYPE(64) n0 k ((l0, 0, 0) :: acc96)))) =
    acc_sumadd l1 (snd (acc_extract (acc_muladd TYPE(64) n0 k (l0, 0, 0))))"
proof (rule sumadd_fast)
  let ?c = "acc_muladd TYPE(64) n0 k ((l0, 0, 0) :: acc96)"
  have v: "limb_acc_val ?c = uint l0 + uint n0 * uint k" by (rule first_column_fast(3)) simp
  have "limb_acc_val (snd (acc_extract ?c)) = limb_acc_val ?c div 2 ^ 32"
    using extract_value(1) [of ?c "fst (acc_extract ?c)" "snd (acc_extract ?c)"] by simp
  also have "\<dots> \<le> (2 ^ 32 + 2 ^ 64) div 2 ^ 32"
    using product_max [of n0 k] uint32_le [of l0] unfolding v by (intro zdiv_mono1) simp_all
  finally show "limb_acc_val (snd (acc_extract ?c)) + uint l1 < 2 ^ LENGTH(32) * 2 ^ LENGTH(32)"
    using uint32_le [of l1] by simp
qed

lemma list_nth_map: "length l = n \<Longrightarrow> l = map (\<lambda>i. l ! i) [0..<n]"
  by (metis map_nth)

lemma upt_8: "[0..<8] = [0, 1, 2, 3, 4, 5, 6, 7]" "[0..<12] = [0, 1, 2, 3, 4, 5, 6, 7, 8, 9, 10, 11]"
  "[0..<16] = [0, 1, 2, 3, 4, 5, 6, 7, 8, 9, 10, 11, 12, 13, 14, 15]"
  by (simp_all add: upt_rec)

lemma limbs_val_split8:
  "8 \<le> length l \<Longrightarrow> limbs_val 32 l = limbs_val 32 (take 8 l) + 2 ^ 256 * limbs_val 32 (drop 8 l)"
  using limbs_val_append [of 32 "take 8 l" "drop 8 l"] by (simp add: min_absorb2)

lemma reduce_512_m_8x32_correct:
  assumes "length l = 16" and m: "scalar_reduce_512_m_8x32 l = (m, m12)"
  shows "limbs_val 32 m + 2 ^ 384 * uint m12 = limbs_val 32 (take 8 l) + limbs_val 32 (drop 8 l) * order_c"
    and "length m = 12" "uint m12 \<le> 1"
proof -
  let ?fs = "[
    acc_muladd TYPE(64) (l ! 8) N_C_0_8x32,
    \<lambda>c. acc_muladd TYPE(64) (l ! 8) N_C_1_8x32 (acc_muladd TYPE(64) (l ! 9) N_C_0_8x32 (acc_sumadd (l ! 1) c)),
    \<lambda>c. acc_muladd TYPE(64) (l ! 8) N_C_2_8x32 (acc_muladd TYPE(64) (l ! 9) N_C_1_8x32 (acc_muladd TYPE(64) (l ! 10) N_C_0_8x32 (acc_sumadd (l ! 2) c))),
    \<lambda>c. acc_muladd TYPE(64) (l ! 8) N_C_3_8x32 (acc_muladd TYPE(64) (l ! 9) N_C_2_8x32 (acc_muladd TYPE(64) (l ! 10) N_C_1_8x32 (acc_muladd TYPE(64) (l ! 11) N_C_0_8x32 (acc_sumadd (l ! 3) c)))),
    \<lambda>c. acc_sumadd (l ! 8) (acc_muladd TYPE(64) (l ! 9) N_C_3_8x32 (acc_muladd TYPE(64) (l ! 10) N_C_2_8x32 (acc_muladd TYPE(64) (l ! 11) N_C_1_8x32 (acc_muladd TYPE(64) (l ! 12) N_C_0_8x32 (acc_sumadd (l ! 4) c))))),
    \<lambda>c. acc_sumadd (l ! 9) (acc_muladd TYPE(64) (l ! 10) N_C_3_8x32 (acc_muladd TYPE(64) (l ! 11) N_C_2_8x32 (acc_muladd TYPE(64) (l ! 12) N_C_1_8x32 (acc_muladd TYPE(64) (l ! 13) N_C_0_8x32 (acc_sumadd (l ! 5) c))))),
    \<lambda>c. acc_sumadd (l ! 10) (acc_muladd TYPE(64) (l ! 11) N_C_3_8x32 (acc_muladd TYPE(64) (l ! 12) N_C_2_8x32 (acc_muladd TYPE(64) (l ! 13) N_C_1_8x32 (acc_muladd TYPE(64) (l ! 14) N_C_0_8x32 (acc_sumadd (l ! 6) c))))),
    \<lambda>c. acc_sumadd (l ! 11) (acc_muladd TYPE(64) (l ! 12) N_C_3_8x32 (acc_muladd TYPE(64) (l ! 13) N_C_2_8x32 (acc_muladd TYPE(64) (l ! 14) N_C_1_8x32 (acc_muladd TYPE(64) (l ! 15) N_C_0_8x32 (acc_sumadd (l ! 7) c))))),
    \<lambda>c. acc_sumadd (l ! 12) (acc_muladd TYPE(64) (l ! 13) N_C_3_8x32 (acc_muladd TYPE(64) (l ! 14) N_C_2_8x32 (acc_muladd TYPE(64) (l ! 15) N_C_1_8x32 c))),
    \<lambda>c. acc_sumadd (l ! 13) (acc_muladd TYPE(64) (l ! 14) N_C_3_8x32 (acc_muladd TYPE(64) (l ! 15) N_C_2_8x32 c)),
    \<lambda>c. acc_sumadd (l ! 14) (acc_muladd TYPE(64) (l ! 15) N_C_3_8x32 c)] :: (acc96 \<Rightarrow> acc96) list"
  let ?xs = "[
    uint (l ! 8) * uint N_C_0_8x32,
    uint (l ! 1) + uint (l ! 9) * uint N_C_0_8x32 + uint (l ! 8) * uint N_C_1_8x32,
    uint (l ! 2) + uint (l ! 10) * uint N_C_0_8x32 + uint (l ! 9) * uint N_C_1_8x32 + uint (l ! 8) * uint N_C_2_8x32,
    uint (l ! 3) + uint (l ! 11) * uint N_C_0_8x32 + uint (l ! 10) * uint N_C_1_8x32 + uint (l ! 9) * uint N_C_2_8x32 + uint (l ! 8) * uint N_C_3_8x32,
    uint (l ! 4) + uint (l ! 12) * uint N_C_0_8x32 + uint (l ! 11) * uint N_C_1_8x32 + uint (l ! 10) * uint N_C_2_8x32 + uint (l ! 9) * uint N_C_3_8x32 + uint (l ! 8),
    uint (l ! 5) + uint (l ! 13) * uint N_C_0_8x32 + uint (l ! 12) * uint N_C_1_8x32 + uint (l ! 11) * uint N_C_2_8x32 + uint (l ! 10) * uint N_C_3_8x32 + uint (l ! 9),
    uint (l ! 6) + uint (l ! 14) * uint N_C_0_8x32 + uint (l ! 13) * uint N_C_1_8x32 + uint (l ! 12) * uint N_C_2_8x32 + uint (l ! 11) * uint N_C_3_8x32 + uint (l ! 10),
    uint (l ! 7) + uint (l ! 15) * uint N_C_0_8x32 + uint (l ! 14) * uint N_C_1_8x32 + uint (l ! 13) * uint N_C_2_8x32 + uint (l ! 12) * uint N_C_3_8x32 + uint (l ! 11),
    uint (l ! 15) * uint N_C_1_8x32 + uint (l ! 14) * uint N_C_2_8x32 + uint (l ! 13) * uint N_C_3_8x32 + uint (l ! 12),
    uint (l ! 15) * uint N_C_2_8x32 + uint (l ! 14) * uint N_C_3_8x32 + uint (l ! 13),
    uint (l ! 15) * uint N_C_3_8x32 + uint (l ! 14)]"
  define X where "X = horner_val (2 ^ 32) ?xs"
  obtain ns C where col: "acc_columns ?fs (l ! 0, 0, 0) = (ns, C)" by (cases "acc_columns ?fs (l ! 0, 0, 0)")
  have fs: "list_all2 adds_column ?fs ?xs"
    by (simp only: list_all2_Cons list_all2_Nil simp_thms, intro conjI; rule acc_adds_weaken, (rule adds_rules_8x32)+, simp)
  have i: "limb_acc_val ((l ! 0, 0, 0) :: acc96) = uint (l ! 0)" by (simp add: limb_acc_val_def)
  have C: "limb_acc_val C \<le> 2 ^ 37" "length ns = 11" "limbs_val 32 ns + 2 ^ 352 * limb_acc_val C = uint (l ! 0) + horner_val (2 ^ 32) ?xs"
    using columns_8x32 [OF fs _ col] uint32_le [of "l ! 0"] unfolding i by simp_all
  let ?A = "limbs_val 32 (take 8 l)" let ?B = "limbs_val 32 (drop 8 l)"
  have td: "take 8 l = [l ! 0, l ! 1, l ! 2, l ! 3, l ! 4, l ! 5, l ! 6, l ! 7]" "drop 8 l = [l ! 8, l ! 9, l ! 10, l ! 11, l ! 12, l ! 13, l ! 14, l ! 15]"
    by (subst list_nth_map [OF assms(1)], simp add: upt_8)+
  have L: "?A + ?B * order_c = uint (l ! 0) + horner_val (2 ^ 32) ?xs + 2 ^ 352 * uint (l ! 15)"
    unfolding td by (simp add: limbs_val_Cons order_c_8x32 algebra_simps)
  let ?c = "acc_sumadd_fast (l ! 15) C"
  have v: "limb_acc_val ?c = limb_acc_val C + uint (l ! 15)"
    by (rule holds_fast(2) [OF order_refl _ refl]) (use C(1) uint32_le [of "l ! 15"] in simp)
  obtain m11 C' where e: "acc_extract_fast ?c = (m11, C')" by (cases "acc_extract_fast ?c")
  have W: "uint m11 + 2 ^ 32 * uint (fst C') = limb_acc_val C + uint (l ! 15)"
    using last_limbs [OF _ e] C(1) uint32_le [of "l ! 15"] unfolding v by simp
  have m': "m = ns @ [m11]" "m12 = fst C'"
    using m col e by (auto simp: scalar_reduce_512_m_8x32_def macros_8x32 Let_def case_prod_beta first_column_fast second_column_8x32)
  then show M: "limbs_val 32 m + 2 ^ 384 * uint m12 = ?A + ?B * order_c" "length m = 12"
    using C(2,3) W unfolding L X_def [symmetric] by (simp_all add: limbs_val_append limbs_val_Cons)
  have "?A < 2 ^ 256" "?B < 2 ^ 256"
    using limbs_val_bound [of "take 8 l"] limbs_val_bound [of "drop 8 l"] assms(1) by simp_all
  then have "2 ^ 384 * uint m12 < 2 ^ 384 * 2"
    using M(1) limbs_val_nonneg [of 32 m] by (simp add: order_c_def order_n_def)
  then show "uint m12 \<le> 1" by simp
qed

lemma reduce_512_p_8x32_correct:
  assumes "length m = 12" "uint m12 \<le> 1" and p: "scalar_reduce_512_p_8x32 (m, m12) = (p, p8)"
    and mv: "limbs_val 32 m + 2 ^ 384 * uint m12 < 2 ^ 256 * (1 + order_c)"
  shows "limbs_val 32 p + 2 ^ 256 * uint p8 = limbs_val 32 (take 8 m) + (limbs_val 32 (drop 8 m) + 2 ^ 128 * uint m12) * order_c"
    and "length p = 8" "uint p8 \<le> 2"
proof -
  let ?fs = "[
    acc_muladd TYPE(64) (m ! 8) N_C_0_8x32,
    \<lambda>c. acc_muladd TYPE(64) (m ! 8) N_C_1_8x32 (acc_muladd TYPE(64) (m ! 9) N_C_0_8x32 (acc_sumadd (m ! 1) c)),
    \<lambda>c. acc_muladd TYPE(64) (m ! 8) N_C_2_8x32 (acc_muladd TYPE(64) (m ! 9) N_C_1_8x32 (acc_muladd TYPE(64) (m ! 10) N_C_0_8x32 (acc_sumadd (m ! 2) c))),
    \<lambda>c. acc_muladd TYPE(64) (m ! 8) N_C_3_8x32 (acc_muladd TYPE(64) (m ! 9) N_C_2_8x32 (acc_muladd TYPE(64) (m ! 10) N_C_1_8x32 (acc_muladd TYPE(64) (m ! 11) N_C_0_8x32 (acc_sumadd (m ! 3) c)))),
    \<lambda>c. acc_sumadd (m ! 8) (acc_muladd TYPE(64) (m ! 9) N_C_3_8x32 (acc_muladd TYPE(64) (m ! 10) N_C_2_8x32 (acc_muladd TYPE(64) (m ! 11) N_C_1_8x32 (acc_muladd TYPE(64) m12 N_C_0_8x32 (acc_sumadd (m ! 4) c))))),
    \<lambda>c. acc_sumadd (m ! 9) (acc_muladd TYPE(64) (m ! 10) N_C_3_8x32 (acc_muladd TYPE(64) (m ! 11) N_C_2_8x32 (acc_muladd TYPE(64) m12 N_C_1_8x32 (acc_sumadd (m ! 5) c)))),
    \<lambda>c. acc_sumadd (m ! 10) (acc_muladd TYPE(64) (m ! 11) N_C_3_8x32 (acc_muladd TYPE(64) m12 N_C_2_8x32 (acc_sumadd (m ! 6) c)))] :: (acc96 \<Rightarrow> acc96) list"
  let ?xs = "[
    uint (m ! 8) * uint N_C_0_8x32,
    uint (m ! 1) + uint (m ! 9) * uint N_C_0_8x32 + uint (m ! 8) * uint N_C_1_8x32,
    uint (m ! 2) + uint (m ! 10) * uint N_C_0_8x32 + uint (m ! 9) * uint N_C_1_8x32 + uint (m ! 8) * uint N_C_2_8x32,
    uint (m ! 3) + uint (m ! 11) * uint N_C_0_8x32 + uint (m ! 10) * uint N_C_1_8x32 + uint (m ! 9) * uint N_C_2_8x32 + uint (m ! 8) * uint N_C_3_8x32,
    uint (m ! 4) + uint m12 * uint N_C_0_8x32 + uint (m ! 11) * uint N_C_1_8x32 + uint (m ! 10) * uint N_C_2_8x32 + uint (m ! 9) * uint N_C_3_8x32 + uint (m ! 8),
    uint (m ! 5) + uint m12 * uint N_C_1_8x32 + uint (m ! 11) * uint N_C_2_8x32 + uint (m ! 10) * uint N_C_3_8x32 + uint (m ! 9),
    uint (m ! 6) + uint m12 * uint N_C_2_8x32 + uint (m ! 11) * uint N_C_3_8x32 + uint (m ! 10)]"
  define X where "X = horner_val (2 ^ 32) ?xs"
  obtain ns C where col: "acc_columns ?fs (m ! 0, 0, 0) = (ns, C)" by (cases "acc_columns ?fs (m ! 0, 0, 0)")
  have fs: "list_all2 adds_column ?fs ?xs"
    by (simp only: list_all2_Cons list_all2_Nil simp_thms, intro conjI; rule acc_adds_weaken, (rule adds_rules_8x32)+, simp)
  have i: "limb_acc_val ((m ! 0, 0, 0) :: acc96) = uint (m ! 0)" by (simp add: limb_acc_val_def)
  have C: "limb_acc_val C \<le> 2 ^ 37" "length ns = 7" "limbs_val 32 ns + 2 ^ 224 * limb_acc_val C = uint (m ! 0) + horner_val (2 ^ 32) ?xs"
    using columns_8x32 [OF fs _ col] uint32_le [of "m ! 0"] unfolding i by simp_all
  let ?A = "limbs_val 32 (take 8 m)" let ?B = "limbs_val 32 (drop 8 m) + 2 ^ 128 * uint m12"
  have td: "take 8 m = [m ! 0, m ! 1, m ! 2, m ! 3, m ! 4, m ! 5, m ! 6, m ! 7]" "drop 8 m = [m ! 8, m ! 9, m ! 10, m ! 11]"
    by (subst list_nth_map [OF assms(1)], simp add: upt_8)+
  have L: "?A + ?B * order_c = uint (m ! 0) + horner_val (2 ^ 32) ?xs +
      2 ^ 224 * (uint (m ! 7) + uint m12 * uint N_C_3_8x32 + uint (m ! 11)) + 2 ^ 256 * uint m12"
    unfolding td by (simp add: limbs_val_Cons order_c_8x32 algebra_simps)
  let ?c1 = "acc_sumadd_fast (m ! 7) C" let ?c2 = "acc_muladd_fast TYPE(64) m12 N_C_3_8x32 ?c1" let ?c3 = "acc_sumadd_fast (m ! 11) ?c2"
  have b: "uint m12 * uint N_C_3_8x32 \<le> 1 * 0xFFFFFFFF" using assms(2) uint32_le by (intro mult_mono) simp_all
  have v1: "limb_acc_val ?c1 = limb_acc_val C + uint (m ! 7)"
    by (rule holds_fast(2) [OF order_refl _ refl]) (use C(1) uint32_le [of "m ! 7"] in simp)
  have v2: "limb_acc_val ?c2 = limb_acc_val ?c1 + uint m12 * uint N_C_3_8x32"
    by (rule holds_fast(1) [OF order_refl _ _ refl]) (use C(1) b uint32_le [of "m ! 7"] in \<open>simp_all add: v1\<close>)
  have v: "limb_acc_val ?c3 = limb_acc_val ?c2 + uint (m ! 11)"
    by (rule holds_fast(2) [OF order_refl _ refl]) (use C(1) b uint32_le [of "m ! 7"] uint32_le [of "m ! 11"] in \<open>simp add: v2 v1\<close>)
  obtain p7 C' where e: "acc_extract_fast ?c3 = (p7, C')" by (cases "acc_extract_fast ?c3")
  let ?W = "limb_acc_val C + uint (m ! 7) + uint m12 * uint N_C_3_8x32 + uint (m ! 11)"
  have W: "uint p7 + 2 ^ 32 * uint (fst C') = ?W"
    using last_limbs [OF _ e] C(1) b uint32_le [of "m ! 7"] uint32_le [of "m ! 11"] unfolding v v2 v1 by simp
  have p': "p = ns @ [p7]" "p8 = fst C' + m12"
    using p col e by (auto simp: scalar_reduce_512_p_8x32_def macros_8x32 Let_def case_prod_beta first_column_fast second_column_8x32)
  then show len: "length p = 8" using C(2) by simp
  have M: "limbs_val 32 p + 2 ^ 256 * (uint (fst C') + uint m12) = ?A + ?B * order_c"
    using C(2,3) W unfolding L p' X_def [symmetric] by (simp add: limbs_val_append limbs_val_Cons)
  have A: "?A < 2 ^ 256" "0 \<le> ?A" using limbs_val_bound [of "take 8 m"] assms(1) by (simp_all add: limbs_val_nonneg)
  have "2 ^ 256 * ?B < 2 ^ 256 * (1 + order_c)" using mv A limbs_val_split8 [of m] assms(1) by simp
  then have "?B \<le> order_c" by simp
  then have "?B * order_c \<le> order_c * order_c" by (rule mult_right_mono) (simp add: order_c_def order_n_def)
  then have "2 ^ 256 * (uint (fst C') + uint m12) < 2 ^ 256 * 3"
    using M A limbs_val_nonneg [of 32 p] order_c_square by simp
  then have c: "uint (fst C') + uint m12 \<le> 2" by simp
  then have "uint p8 = uint (fst C') + uint m12" unfolding p' by (simp add: uint_word_ariths)
  then show "limbs_val 32 p + 2 ^ 256 * uint p8 = ?A + ?B * order_c" "uint p8 \<le> 2" using c M by simp_all
qed

lemma reduce_512_8x32_correct:
  assumes "length l = 16"
  shows "scalar_val_8x32 (scalar_reduce_512_8x32 l) = limbs_val 32 l mod order_n"
proof -
  obtain m m12 where m: "scalar_reduce_512_m_8x32 l = (m, m12)" by (cases "scalar_reduce_512_m_8x32 l")
  obtain p p8 where p: "scalar_reduce_512_p_8x32 (m, m12) = (p, p8)" by (cases "scalar_reduce_512_p_8x32 (m, m12)")
  note M = reduce_512_m_8x32_correct [OF assms m]
  have "limbs_val 32 (take 8 l) < 2 ^ 256" "limbs_val 32 (drop 8 l) < 2 ^ 256"
    using limbs_val_bound [of "take 8 l"] limbs_val_bound [of "drop 8 l"] assms by simp_all
  then have "limbs_val 32 m + 2 ^ 384 * uint m12 < 2 ^ 256 * (1 + order_c)"
    unfolding M(1) by (simp add: order_c_def order_n_def)
  note P = reduce_512_p_8x32_correct [OF M(2,3) p this]
  note p8 = denotes_self [OF P(3)]
  let ?x0 = "ucast (p ! 0) + ucast N_C_0_8x32 * ucast p8 :: u64"
  let ?x1 = "ucast (p ! 1) + ucast N_C_1_8x32 * ucast p8 :: u64" let ?x2 = "ucast (p ! 2) + ucast N_C_2_8x32 * ucast p8 :: u64"
  let ?x3 = "ucast (p ! 3) + ucast N_C_3_8x32 * ucast p8 :: u64" let ?x4 = "ucast (p ! 4) + ucast p8 :: u64"
  have x0: "denotes ?x0 (uint (p ! 0) + 0x2FC9BEBF * uint p8) (2 ^ 36)"
    by (rule denotes_weaken) (rule p8 N_C_denotes_8x32 denotes_u32 denotes_intros | simp)+
  have x1: "denotes ?x1 (uint (p ! 1) + 0x402DA173 * uint p8) (2 ^ 36)"
    by (rule denotes_weaken) (rule p8 N_C_denotes_8x32 denotes_u32 denotes_intros | simp)+
  have x2: "denotes ?x2 (uint (p ! 2) + 0x50B75FC4 * uint p8) (2 ^ 36)"
    by (rule denotes_weaken) (rule p8 N_C_denotes_8x32 denotes_u32 denotes_intros | simp)+
  have x3: "denotes ?x3 (uint (p ! 3) + 0x45512319 * uint p8) (2 ^ 36)"
    by (rule denotes_weaken) (rule p8 N_C_denotes_8x32 denotes_u32 denotes_intros | simp)+
  have x4: "denotes ?x4 (uint (p ! 4) + uint p8) (2 ^ 36)"
    by (rule denotes_weaken) (rule p8 denotes_u32 denotes_intros | simp)+
  let ?xs = "[?x1, ?x2, ?x3, ?x4, ucast (p ! 5), ucast (p ! 6), ucast (p ! 7)]"
  obtain ls c where c: "carry32 ?x0 ?xs = (ls, c)" by (cases "carry32 ?x0 ?xs")
  obtain l0 l1 l2 l3 l4 l5 l6 l7 where ls: "ls = [l0, l1, l2, l3, l4, l5, l6, l7]" using c by auto
  define r where "r = Scalar8 l0 l1 l2 l3 l4 l5 l6 l7"
  have b: "\<forall>x\<in>set ?xs. uint x < 2 ^ 63"
    using x1 x2 x3 x4 uint32_le [of "p ! 5"] uint32_le [of "p ! 6"] uint32_le [of "p ! 7"] by (auto elim: denotes_less)
  let ?V = "limbs_val 32 p + uint p8 * order_c"
  have "limbs_val 32 ls + 2 ^ 256 * uint c = uint ?x0 + 2 ^ 32 * horner_val (2 ^ 32) (map uint ?xs)"
    by (rule carry32_mod(2) [OF c _ b]) simp
  also have "\<dots> = ?V"
    unfolding list.map denotes_uint [OF x0] denotes_uint [OF x1] denotes_uint [OF x2] denotes_uint [OF x3] denotes_uint [OF x4]
    by (subst list_nth_map [OF P(2)], unfold upt_8) (simp add: limbs_val_Cons order_c_def order_n_def)
  finally have V: "scalar_val_8x32 r + 2 ^ 256 * uint c = ?V"
    by (simp add: scalar_val_8x32_def scalar_limbs_8x32_def r_def ls)
  have "?V < 2 * order_n"
    using limbs_val_bound [of p] P(2,3) by (simp add: order_c_def order_n_def)
  from final_reduce_8x32(2) [OF V this]
  have "scalar_val_8x32 (scalar_reduce_512_8x32 l) = ?V mod order_n"
    using c by (auto simp: scalar_reduce_512_8x32_def m p r_def ls Let_def)
  also have "\<dots> = (limbs_val 32 (take 8 m) + (limbs_val 32 (drop 8 m) + 2 ^ 128 * uint m12) * order_c) mod order_n"
    unfolding mod_order_fold [symmetric] P(1) ..
  also have "\<dots> = (limbs_val 32 m + 2 ^ 384 * uint m12) mod order_n"
    unfolding mod_order_fold [symmetric] using limbs_val_split8 [of m] M(2) by (simp add: algebra_simps)
  also have "\<dots> = limbs_val 32 l mod order_n"
    unfolding M(1) mod_order_fold [symmetric] using limbs_val_split8 [of l] assms by simp
  finally show ?thesis .
qed

lemma mul_8x32_correct: "scalar_val_8x32 (scalar_mul_8x32 a b) = scalar_val_8x32 a * scalar_val_8x32 b mod order_n"
  by (simp add: scalar_mul_8x32_def reduce_512_8x32_correct scalar_mul_512_8x32_correct)

lemma sqr_8x32_correct: "scalar_val_8x32 (scalar_sqr_8x32 a) = scalar_val_8x32 a * scalar_val_8x32 a mod order_n"
  by (simp add: scalar_sqr_8x32_def reduce_512_8x32_correct scalar_sqr_512_8x32_correct)
subsection \<open>Splitting and shifting\<close>

lemma split_128_8x32_correct:
  assumes "scalar_split_128_8x32 a = (r1, r2)"
  shows "scalar_val_8x32 a = scalar_val_8x32 r1 + 2 ^ 128 * scalar_val_8x32 r2" "scalar_val_8x32 r1 < 2 ^ 128" "scalar_val_8x32 r2 < 2 ^ 128"
proof -
  have r: "r1 = Scalar8 (se0 a) (se1 a) (se2 a) (se3 a) 0 0 0 0" "r2 = Scalar8 (se4 a) (se5 a) (se6 a) (se7 a) 0 0 0 0"
    using assms by (simp_all add: scalar_split_128_8x32_def)
  show "scalar_val_8x32 a = scalar_val_8x32 r1 + 2 ^ 128 * scalar_val_8x32 r2" "scalar_val_8x32 r1 < 2 ^ 128" "scalar_val_8x32 r2 < 2 ^ 128"
    using limbs_val_bound [of "[se0 a, se1 a, se2 a, se3 a]"] limbs_val_bound [of "[se4 a, se5 a, se6 a, se7 a]"]
    by (simp_all add: r scalar_val_8x32_def scalar_limbs_8x32_def limbs_val_Cons)
qed

lemma shr_limb_32:
  fixes w v :: u32 and n :: u32
  assumes "0 < unat n" "unat n < 16" "j < 32"
  shows "bit (drop_bit (unat n) w + push_bit (unat (32 - n)) v) j \<longleftrightarrow>
    (if j + unat n < 32 then bit w (j + unat n) else bit v (j + unat n - 32))"
proof -
  have k: "unat (32 - n) = 32 - unat n" using assms by (simp add: unat_sub_if')
  have "drop_bit (unat n) w + push_bit (unat (32 - n)) v = drop_bit (unat n) w OR push_bit (unat (32 - n)) v"
    by (rule disjunctive_add) (use assms in \<open>auto simp: bit_simps k dest: bit_imp_le_length\<close>)
  then show ?thesis using assms
    by (auto simp: bit_simps k add.commute [of "unat n"] dest: bit_imp_le_length)
qed

lemma div_mod_32:
  fixes q m :: nat
  assumes "m < 64"
  shows "(32 * q + m) div 32 = (if m < 32 then q else q + 1)" "(32 * q + m) mod 32 = (if m < 32 then m else m - 32)"
  using assms by (auto simp: le_div_geq le_mod_geq)

text \<open>A scalar with limbs \<open>R 0\<close> to \<open>R 7\<close>, bit by bit.\<close>

lemma bit_limb_list:
  fixes R :: "nat \<Rightarrow> u32"
  assumes "scalar_limbs_8x32 a = map R [0..<8]" "k < 256"
  shows "bit (scalar_val_8x32 a) k \<longleftrightarrow> bit (R (k div 32)) (k mod 32)"
  using assms by (simp add: bit_val_8x32 div_less_iff_less_mult)

lemma shr_int_8x32_correct:
  assumes "0 < unat n" "unat n < 16"
  shows "scalar_val_8x32 (snd (scalar_shr_int_8x32 r n)) = scalar_val_8x32 r div 2 ^ unat n"
    and "uint (fst (scalar_shr_int_8x32 r n)) = scalar_val_8x32 r mod 2 ^ unat n"
proof -
  define L where "L i = (scalar_limbs_8x32 r @ [0]) ! i" for i
  have "limbs_val 32 (scalar_limbs_8x32 r @ [0]) = scalar_val_8x32 r"
    by (simp add: scalar_val_8x32_def limbs_val_append limbs_val_Cons)
  then have bL: "bit (scalar_val_8x32 r) m \<longleftrightarrow> m < 288 \<and> bit (L (m div 32)) (m mod 32)" for m
    using bit_limbs_val [of "scalar_limbs_8x32 r @ [0]" m] by (simp add: L_def scalar_limbs_8x32_def)
  define R where "R i = drop_bit (unat n) (L i) + push_bit (unat (32 - n)) (L (i + 1))" for i
  have R: "scalar_limbs_8x32 (snd (scalar_shr_int_8x32 r n)) = map R [0..<8]"
    by (simp add: upt_8 R_def L_def scalar_shr_int_8x32_def scalar_limbs_8x32_def Let_def)
  have "scalar_val_8x32 (snd (scalar_shr_int_8x32 r n)) = drop_bit (unat n) (scalar_val_8x32 r)"
  proof (rule bit_eqI)
    fix k
    show "bit (scalar_val_8x32 (snd (scalar_shr_int_8x32 r n))) k = bit (drop_bit (unat n) (scalar_val_8x32 r)) k"
    proof (cases "k < 256")
      case True
      define i j where "i = k div 32" and "j = k mod 32"
      have k: "k = 32 * i + j" "j < 32" by (simp_all add: i_def j_def)
      have "bit (scalar_val_8x32 (snd (scalar_shr_int_8x32 r n))) k \<longleftrightarrow> bit (R i) j"
        using bit_limb_list [OF R True] by (simp add: i_def j_def)
      also have "\<dots> \<longleftrightarrow> bit (scalar_val_8x32 r) (32 * i + (j + unat n))"
        using assms True k div_mod_32 [of "j + unat n" i] shr_limb_32 [OF assms k(2), of "L i" "L (i + 1)"]
        by (simp add: R_def bL)
      finally show ?thesis by (simp add: bit_simps k ac_simps)
    qed (auto simp: bit_val_8x32 bit_simps)
  qed
  then show "scalar_val_8x32 (snd (scalar_shr_int_8x32 r n)) = scalar_val_8x32 r div 2 ^ unat n"
    by (simp add: drop_bit_eq_div)
  have "uint (fst (scalar_shr_int_8x32 r n)) = take_bit (unat n) (scalar_val_8x32 r)"
    unfolding scalar_shr_int_8x32_def push_bit_minus_1
    by (rule bit_eqI) (use assms in \<open>auto simp: bit_val_8x32 scalar_limbs_8x32_def bit_simps Let_def\<close>)
  then show "uint (fst (scalar_shr_int_8x32 r n)) = scalar_val_8x32 r mod 2 ^ unat n"
    by (simp add: take_bit_eq_mod)
qed

lemma mul_shift_limb_32:
  fixes l :: "u32 list" and shift :: u32
  assumes "j < 32" and "i \<le> 7" "256 \<le> unat shift"
  defines "lo \<equiv> shift AND 0x1F" and "q \<equiv> unat (drop_bit 5 shift)"
  shows "bit (if unat shift < 512 - 32 * i then drop_bit (unat lo) (l ! (i + q)) OR
        (if unat shift < 480 - 32 * i \<and> lo \<noteq> 0 then push_bit (unat (32 - lo)) (l ! (i + 1 + q)) else 0) else 0) j \<longleftrightarrow>
    32 * i + j + unat shift < 512 \<and> bit (l ! ((32 * i + j + unat shift) div 32)) ((32 * i + j + unat shift) mod 32)"
proof -
  define s where "s = unat lo"
  have s: "s = unat shift mod 32" "s < 32"
    by (simp_all add: s_def lo_def unat_and_1F)
  have s0: "lo = 0 \<longleftrightarrow> s = 0" by (simp add: s_def unsigned_eq_0_iff)
  have q: "unat shift = 32 * q + s" by (simp add: q_def unat_drop_bit s)
  have "lo < 32" using s(2) by (simp add: s_def word_less_nat_alt)
  then have h: "unat (32 - lo) = 32 - s" by (simp add: s_def unat_sub_if' word_less_nat_alt)
  have d: "(32 * i + j + unat shift) div 32 = i + q + (if j + s < 32 then 0 else 1)"
    "(32 * i + j + unat shift) mod 32 = (if j + s < 32 then j + s else j + s - 32)"
    using div_mod_32 [of "j + s" "i + q"] assms(1) s(2) by (simp_all add: q add_ac distrib_left)
  have c: "unat shift < 512 - 32 * i \<longleftrightarrow> i + q < 16" "unat shift < 480 - 32 * i \<longleftrightarrow> i + q < 15"
    "32 * i + j + unat shift < 512 \<longleftrightarrow> i + q + (if j + s < 32 then 0 else 1) < 16"
    unfolding q using assms(1,2) s(2) by auto
  show ?thesis
    unfolding d c h s_def [symmetric] s0 using assms(1) s(2)
    by (auto simp: bit_simps add.commute [of s] dest: bit_imp_le_length)
qed

lemma mul_shift_8x32_correct:
  assumes "256 \<le> unat shift" "unat shift \<le> 512"
  shows "scalar_val_8x32 (scalar_mul_shift_var_8x32 a b shift) =
    (scalar_val_8x32 a * scalar_val_8x32 b + 2 ^ (unat shift - 1)) div 2 ^ unat shift"
proof -
  define l where "l = scalar_mul_512_8x32 a b"
  define L where "L = scalar_val_8x32 a * scalar_val_8x32 b"
  let ?s = "unat shift"
  have L: "limbs_val 32 l = L" "length l = 16" "0 \<le> L"
    by (simp_all add: l_def L_def scalar_mul_512_8x32_correct val_8x32_bounds)
  have bL: "bit L k \<longleftrightarrow> k < 512 \<and> bit (l ! (k div 32)) (k mod 32)" for k
    using bit_limbs_val [of l k] L by simp
  define R where "R i = (if unat shift < 512 - 32 * i then drop_bit (unat (shift AND 0x1F)) (l ! (i + unat (drop_bit 5 shift))) OR
        (if unat shift < 480 - 32 * i \<and> shift AND 0x1F \<noteq> 0 then push_bit (unat (32 - (shift AND 0x1F))) (l ! (i + 1 + unat (drop_bit 5 shift))) else 0) else 0)" for i
  let ?r = "Scalar8 (R 0) (R 1) (R 2) (R 3) (R 4) (R 5) (R 6) (R 7)"
  define flag where "flag = drop_bit (unat ((shift - 1) AND 0x1F)) (l ! unat (drop_bit 5 (shift - 1))) AND 1"
  have R: "scalar_limbs_8x32 ?r = map R [0..<8]" by (simp add: upt_8 scalar_limbs_8x32_def)
  have r: "scalar_val_8x32 ?r = L div 2 ^ ?s"
  proof -
    have "scalar_val_8x32 ?r = drop_bit ?s L"
    proof (rule bit_eqI)
      fix k
      show "bit (scalar_val_8x32 ?r) k = bit (drop_bit ?s L) k"
      proof (cases "k < 256")
        case True
        then have "k div 32 \<le> 7" by simp
        then have "bit (R (k div 32)) (k mod 32) \<longleftrightarrow> bit L (k + ?s)"
          using mul_shift_limb_32 [of "k mod 32" "k div 32" shift l] assms(1) unfolding bL R_def by simp
        then show ?thesis unfolding bit_limb_list [OF R True] by (simp add: bit_simps add.commute)
      qed (use assms in \<open>auto simp: bit_val_8x32 bit_simps bL\<close>)
    qed
    then show ?thesis by (simp add: drop_bit_eq_div)
  qed
  have s1: "unat (shift - 1) = ?s - 1" using assms by (simp add: unat_sub_if')
  have f: "flag = of_bool (bit L (?s - 1))"
    using assms by (intro bit_word_eqI) (auto simp: flag_def bL unat_and_1F unat_drop_bit s1 bit_simps)
  have sh: "shift < 512 \<longleftrightarrow> unat shift < 512" "shift < 480 \<longleftrightarrow> unat shift < 480" "shift < 448 \<longleftrightarrow> unat shift < 448"
    "shift < 416 \<longleftrightarrow> unat shift < 416" "shift < 384 \<longleftrightarrow> unat shift < 384" "shift < 352 \<longleftrightarrow> unat shift < 352"
    "shift < 320 \<longleftrightarrow> unat shift < 320" "shift < 288 \<longleftrightarrow> unat shift < 288"
    by (simp_all add: word_less_nat_alt)
  have "\<not> unat shift < 256" using assms(1) by simp
  then have "scalar_mul_shift_var_8x32 a b shift = scalar_cadd_bit_8x32 ?r 0 flag"
    unfolding scalar_mul_shift_var_8x32_def Let_def flag_def l_def [symmetric] R_def sh by (simp cong del: if_weak_cong split del: if_split)
  then have "scalar_val_8x32 (scalar_mul_shift_var_8x32 a b shift) = (L div 2 ^ ?s + of_bool (bit L (?s - 1))) mod 2 ^ 256"
    using cadd_bit_8x32_correct [of 0 flag ?r] unfolding r f by simp
  also have "\<dots> = L div 2 ^ ?s + of_bool (bit L (?s - 1))"
  proof (rule mod_pos_pos_trivial)
    have "L \<le> (2 ^ 256 - 1) * (2 ^ 256 - 1)"
      unfolding L_def using val_8x32_bounds [of a] val_8x32_bounds [of b] by (intro mult_mono) simp_all
    moreover have "(2 ^ 256 :: int) \<le> 2 ^ ?s" using assms by (intro power_increasing) simp_all
    then have "L div 2 ^ ?s \<le> L div 2 ^ 256" using L(3) by (intro zdiv_mono2) simp_all
    ultimately have "L div 2 ^ ?s < 2 ^ 256 - 1" by (simp add: div_less_iff_less_mult order_le_less_trans)
    then show "L div 2 ^ ?s + of_bool (bit L (?s - 1)) < 2 ^ 256" by auto
  qed (use L(3) in \<open>simp add: pos_imp_zdiv_nonneg_iff\<close>)
  also have "\<dots> = (L + 2 ^ (?s - 1)) div 2 ^ ?s"
    using assms by (intro div_round_half) simp
  finally show ?thesis by (simp add: L_def)
qed

lemma const_8x32_val: "scalar_val_8x32 (scalar_const_8x32 d7 d6 d5 d4 d3 d2 d1 d0) = limbs_val 32 [d0, d1, d2, d3, d4, d5, d6, d7]"
  by (simp add: scalar_const_8x32_def scalar_val_8x32_def scalar_limbs_8x32_def)

interpretation s8: scalar_arith scalar_ops_8x32 scalar_val_8x32
  by unfold_locales
     (simp_all add: scalar_ops_8x32_def val_8x32_bounds mul_8x32_correct sqr_8x32_correct scalar_ok_8x32_def
       add_8x32_correct mul_shift_8x32_correct const_8x32_val)

subsection \<open>Properties\<close>

lemmas eval_8x32 = scalar_ok_8x32_def scalar_val_8x32_def scalar_limbs_8x32_def limbs_val_Cons order_n_def

text \<open>C35: with 32 bit limbs, multiplication and squaring give the reduced product modulo the group order for all
  limbs, reduced or not; addition and negation of reduced scalars give the reduced sum, with the exact overflow flag, and the negation;
  the conditional negation applies it under its flag.\<close>

theorem scalar_8x32_arith:
  assumes "scalar_ok_8x32 a" "scalar_ok_8x32 b"
  shows "scalar_val_8x32 (scalar_mul_8x32 x y) = scalar_val_8x32 x * scalar_val_8x32 y mod order_n \<and>
    scalar_val_8x32 (scalar_sqr_8x32 x) = scalar_val_8x32 x * scalar_val_8x32 x mod order_n \<and>
    scalar_val_8x32 (snd (scalar_add_8x32 a b)) = (scalar_val_8x32 a + scalar_val_8x32 b) mod order_n \<and>
    fst (scalar_add_8x32 a b) = of_bool (order_n \<le> scalar_val_8x32 a + scalar_val_8x32 b) \<and>
    scalar_val_8x32 (scalar_negate_8x32 a) = (- scalar_val_8x32 a) mod order_n \<and>
    scalar_cond_negate_8x32 a flag = (if flag = 0 then (1, a) else (-1, scalar_negate_8x32 a))"
  using assms by (simp add: mul_8x32_correct sqr_8x32_correct add_8x32_correct negate_8x32_correct cond_negate_8x32_eq)

theorem scalar_8x32_arith_witness:
  "scalar_val_8x32 (snd (scalar_add_8x32 (Scalar8 0xD0364140 0xBFD25E8C 0xAF48A03B 0xBAAEDCE6 0xFFFFFFFE 0xFFFFFFFF 0xFFFFFFFF 0xFFFFFFFF)
     (Scalar8 3 0 0 0 0 0 0 0))) = 2"
proof -
  have "scalar_ok_8x32 (Scalar8 0xD0364140 0xBFD25E8C 0xAF48A03B 0xBAAEDCE6 0xFFFFFFFE 0xFFFFFFFF 0xFFFFFFFF 0xFFFFFFFF)"
    "scalar_ok_8x32 (Scalar8 3 0 0 0 0 0 0 0)" by (simp_all add: eval_8x32)
  from scalar_8x32_arith [OF this, of undefined undefined 0] show ?thesis by (simp add: eval_8x32)
qed

text \<open>Reading 32 bytes gives the value modulo the order and the overflow flag, and inverts writing; the
  tests decide what they say; reading and shifting bits gives the bit fields of the scalar.\<close>

theorem scalar_8x32_bytes_bits:
  assumes "length bs = 32" "scalar_ok_8x32 a"
    and "0 < unat count" "unat count < 32" "unat offset + unat count \<le> 256" "0 < unat n" "unat n < 16"
  shows "scalar_val_8x32 (snd (scalar_set_b32_8x32 bs)) = be_val bs mod order_n \<and>
    fst (scalar_set_b32_8x32 bs) = of_bool (order_n \<le> be_val bs) \<and> scalar_set_b32_8x32 (scalar_get_b32_8x32 a) = (0, a) \<and>
    (scalar_is_zero_8x32 c \<longleftrightarrow> scalar_val_8x32 c = 0) \<and> (scalar_is_one_8x32 c \<longleftrightarrow> scalar_val_8x32 c = 1) \<and>
    scalar_is_high_8x32 c = of_bool (scalar_val_8x32 c > order_n div 2) \<and> (scalar_is_even_8x32 c \<longleftrightarrow> even (scalar_val_8x32 c)) \<and>
    uint (scalar_get_bits_var_8x32 c offset count) = scalar_val_8x32 c div 2 ^ unat offset mod 2 ^ unat count \<and>
    scalar_val_8x32 (snd (scalar_shr_int_8x32 c n)) = scalar_val_8x32 c div 2 ^ unat n \<and>
    uint (fst (scalar_shr_int_8x32 c n)) = scalar_val_8x32 c mod 2 ^ unat n"
proof -
  have "scalar_val_8x32 (snd (scalar_set_b32_8x32 (scalar_get_b32_8x32 a))) = scalar_val_8x32 a"
    using set_b32_8x32_correct(2) [of "scalar_get_b32_8x32 a"] assms(2) val_8x32_bounds [of a]
    by (simp add: get_b32_8x32_correct scalar_ok_8x32_def)
  moreover have "fst (scalar_set_b32_8x32 (scalar_get_b32_8x32 a)) = 0"
    using set_b32_8x32_correct(1) [of "scalar_get_b32_8x32 a"] assms(2)
    by (simp add: get_b32_8x32_correct scalar_ok_8x32_def)
  ultimately have "scalar_set_b32_8x32 (scalar_get_b32_8x32 a) = (0, a)"
    by (simp add: prod_eq_iff val_8x32_inject)
  moreover have "order_n div 2 = half_order" by (simp add: order_n_def half_order_def)
  ultimately show ?thesis
    using set_b32_8x32_correct [OF assms(1)] get_bits_var_8x32_correct [OF assms(3-5)] shr_int_8x32_correct [OF assms(6,7)]
    by (simp add: is_zero_8x32_iff is_one_8x32_iff is_high_8x32_iff is_even_8x32_iff)
qed

theorem scalar_8x32_bytes_bits_witness:
  "scalar_set_b32_8x32 (scalar_get_b32_8x32 (Scalar8 1 2 3 4 5 6 7 8)) = (0, Scalar8 1 2 3 4 5 6 7 8) \<and>
   uint (scalar_get_bits_var_8x32 (Scalar8 0xF0000000 5 0 0 0 0 0 0) 28 8) = 0x5F"
  using scalar_8x32_bytes_bits [of "replicate 32 0" "Scalar8 1 2 3 4 5 6 7 8" 8 28 1 "Scalar8 0xF0000000 5 0 0 0 0 0 0"]
  by (simp add: eval_8x32)

end
