(* ===== verification/Field.thy ===== *)
theory Field
  imports Prelude
begin

text \<open>
  The representation independent field code, \<open>field_impl.h\<close>: equality, square root, inversion, batch
  inversion and the quadratic residue test. As in the C file, the code is written once over the operations of
  \<open>field.h\<close>, here the record \<open>field_ops\<close>. The locale \<open>field_arith\<close> states what a representation promises, with
  the magnitudes of \<open>field.h\<close> as preconditions. The type \<open>fp\<close> of residues modulo the field prime is what field
  elements denote; it is a commutative ring, so that the client proofs are ring calculations.
\<close>

subsection \<open>The generic code\<close>

record ('fe, 'st) field_ops =
  fe_normalize :: "'fe \<Rightarrow> 'fe"
  fe_normalize_weak :: "'fe \<Rightarrow> 'fe"
  fe_normalize_var :: "'fe \<Rightarrow> 'fe"
  fe_normalizes_to_zero :: "'fe \<Rightarrow> bool"
  fe_normalizes_to_zero_var :: "'fe \<Rightarrow> bool"
  fe_set_int :: "u32 \<Rightarrow> 'fe"
  fe_clear :: "'fe \<Rightarrow> 'fe"
  fe_is_zero :: "'fe \<Rightarrow> bool"
  fe_is_odd :: "'fe \<Rightarrow> bool"
  fe_cmp_var :: "'fe \<Rightarrow> 'fe \<Rightarrow> int"
  fe_set_b32 :: "u8 list \<Rightarrow> bool \<times> 'fe"
  fe_get_b32 :: "'fe \<Rightarrow> u8 list"
  fe_negate :: "'fe \<Rightarrow> u32 \<Rightarrow> 'fe"
  fe_mul_int :: "'fe \<Rightarrow> u32 \<Rightarrow> 'fe"
  fe_add :: "'fe \<Rightarrow> 'fe \<Rightarrow> 'fe"
  fe_mul :: "'fe \<Rightarrow> 'fe \<Rightarrow> 'fe"
  fe_sqr :: "'fe \<Rightarrow> 'fe"
  fe_cmov :: "'fe \<Rightarrow> 'fe \<Rightarrow> u32 \<Rightarrow> 'fe"
  fe_to_storage :: "'fe \<Rightarrow> 'st"
  fe_from_storage :: "'st \<Rightarrow> 'fe"
  fe_storage_cmov :: "'st \<Rightarrow> 'st \<Rightarrow> u32 \<Rightarrow> 'st"
  fe_const :: "u32 \<Rightarrow> u32 \<Rightarrow> u32 \<Rightarrow> u32 \<Rightarrow> u32 \<Rightarrow> u32 \<Rightarrow> u32 \<Rightarrow> u32 \<Rightarrow> 'fe"

definition fe_equal :: "('fe, 'st) field_ops \<Rightarrow> 'fe \<Rightarrow> 'fe \<Rightarrow> bool" where
  "fe_equal ops a b =
    (let na = fe_negate ops a 1;
         na = fe_add ops na b
     in fe_normalizes_to_zero ops na)"

definition fe_equal_var :: "('fe, 'st) field_ops \<Rightarrow> 'fe \<Rightarrow> 'fe \<Rightarrow> bool" where
  "fe_equal_var ops a b =
    (let na = fe_negate ops a 1;
         na = fe_add ops na b
     in fe_normalizes_to_zero_var ops na)"

text \<open>The C functions for the square root and the inverse open with the same statements, which compute
  \<open>a^(2^N - 1)\<close> for the block lengths \<open>N\<close> of the exponents; they are one definition here. A loop that squares
  \<open>k\<close> times in place is \<open>fe_sqr ops ^^ k\<close>.\<close>

definition fe_blocks :: "('fe, 'st) field_ops \<Rightarrow> 'fe \<Rightarrow> 'fe \<times> 'fe \<times> 'fe" where
  "fe_blocks ops a =
    (let x2 = fe_sqr ops a;
         x2 = fe_mul ops x2 a;
         x3 = fe_sqr ops x2;
         x3 = fe_mul ops x3 a;
         x6 = (fe_sqr ops ^^ 3) x3;
         x6 = fe_mul ops x6 x3;
         x9 = (fe_sqr ops ^^ 3) x6;
         x9 = fe_mul ops x9 x3;
         x11 = (fe_sqr ops ^^ 2) x9;
         x11 = fe_mul ops x11 x2;
         x22 = (fe_sqr ops ^^ 11) x11;
         x22 = fe_mul ops x22 x11;
         x44 = (fe_sqr ops ^^ 22) x22;
         x44 = fe_mul ops x44 x22;
         x88 = (fe_sqr ops ^^ 44) x44;
         x88 = fe_mul ops x88 x44;
         x176 = (fe_sqr ops ^^ 88) x88;
         x176 = fe_mul ops x176 x88;
         x220 = (fe_sqr ops ^^ 44) x176;
         x220 = fe_mul ops x220 x44;
         x223 = (fe_sqr ops ^^ 3) x220;
         x223 = fe_mul ops x223 x3
     in (x2, x22, x223))"

definition fe_sqrt :: "('fe, 'st) field_ops \<Rightarrow> 'fe \<Rightarrow> bool \<times> 'fe" where
  "fe_sqrt ops a =
    (let (x2, x22, x223) = fe_blocks ops a;
         t1 = (fe_sqr ops ^^ 23) x223;
         t1 = fe_mul ops t1 x22;
         t1 = (fe_sqr ops ^^ 6) t1;
         t1 = fe_mul ops t1 x2;
         t1 = fe_sqr ops t1;
         r = fe_sqr ops t1;
         t1 = fe_sqr ops r
     in (fe_equal ops t1 a, r))"

definition fe_inv :: "('fe, 'st) field_ops \<Rightarrow> 'fe \<Rightarrow> 'fe" where
  "fe_inv ops a =
    (let (x2, x22, x223) = fe_blocks ops a;
         t1 = (fe_sqr ops ^^ 23) x223;
         t1 = fe_mul ops t1 x22;
         t1 = (fe_sqr ops ^^ 5) t1;
         t1 = fe_mul ops t1 a;
         t1 = (fe_sqr ops ^^ 3) t1;
         t1 = fe_mul ops t1 x2;
         t1 = (fe_sqr ops ^^ 2) t1
     in fe_mul ops a t1)"

text \<open>The build with \<open>USE_FIELD_INV_BUILTIN\<close>.\<close>

definition fe_inv_var :: "('fe, 'st) field_ops \<Rightarrow> 'fe \<Rightarrow> 'fe" where
  "fe_inv_var ops a = fe_inv ops a"

text \<open>The two loops of the batch inversion over the arrays \<open>r\<close> and \<open>a\<close>, which do not overlap.\<close>

function fe_inv_all_products :: "('fe, 'st) field_ops \<Rightarrow> 'fe list \<Rightarrow> nat \<Rightarrow> 'fe list \<Rightarrow> nat \<Rightarrow> 'fe list" where
  "fe_inv_all_products ops a len r i =
    (if i < len then fe_inv_all_products ops a len (r[i := fe_mul ops (r ! (i - 1)) (a ! i)]) (i + 1) else r)"
  by pat_completeness auto
termination by (relation "measure (\<lambda>(ops, a, len, r, i). len - i)") auto

declare fe_inv_all_products.simps [simp del]

fun fe_inv_all_back :: "('fe, 'st) field_ops \<Rightarrow> 'fe list \<Rightarrow> 'fe list \<Rightarrow> 'fe \<Rightarrow> nat \<Rightarrow> 'fe list \<times> 'fe" where
  "fe_inv_all_back ops a r u 0 = (r, u)"
| "fe_inv_all_back ops a r u (Suc i) =
    (let r = r[Suc i := fe_mul ops (r ! i) u];
         u = fe_mul ops u (a ! Suc i)
     in fe_inv_all_back ops a r u i)"

definition fe_inv_all_var :: "('fe, 'st) field_ops \<Rightarrow> 'fe list \<Rightarrow> 'fe list \<Rightarrow> nat \<Rightarrow> 'fe list" where
  "fe_inv_all_var ops r a len =
    (if len < 1 then r
     else let r = r[0 := a ! 0];
              r = fe_inv_all_products ops a len r 1;
              u = fe_inv_var ops (r ! (len - 1));
              (r, u) = fe_inv_all_back ops a r u (len - 1)
          in r[0 := u])"

text \<open>The build with \<open>USE_NUM_NONE\<close>.\<close>

definition fe_is_quad_var :: "('fe, 'st) field_ops \<Rightarrow> 'fe \<Rightarrow> bool" where
  "fe_is_quad_var ops a = fst (fe_sqrt ops a)"

subsection \<open>The field prime and its residues\<close>

definition field_p :: int where
  "field_p = 0xFFFFFFFFFFFFFFFFFFFFFFFFFFFFFFFFFFFFFFFFFFFFFFFFFFFFFFFEFFFFFC2F"

lemma field_p_pos: "0 < field_p"
  by (simp add: field_p_def)

typedef fp = "{0..<field_p}"
  using field_p_pos by (intro exI [of _ 0]) simp

setup_lifting type_definition_fp

instantiation fp :: comm_ring_1
begin

lift_definition zero_fp :: fp is 0
  by (simp add: field_p_pos)

lift_definition one_fp :: fp is 1
  by (simp add: field_p_def)

lift_definition plus_fp :: "fp \<Rightarrow> fp \<Rightarrow> fp" is "\<lambda>a b. (a + b) mod field_p"
  by (simp add: field_p_pos)

lift_definition minus_fp :: "fp \<Rightarrow> fp \<Rightarrow> fp" is "\<lambda>a b. (a - b) mod field_p"
  by (simp add: field_p_pos)

lift_definition uminus_fp :: "fp \<Rightarrow> fp" is "\<lambda>a. (- a) mod field_p"
  by (simp add: field_p_pos)

lift_definition times_fp :: "fp \<Rightarrow> fp \<Rightarrow> fp" is "\<lambda>a b. (a * b) mod field_p"
  by (simp add: field_p_pos)

instance
  by standard (transfer, simp add: mod_simps algebra_simps mod_pos_pos_trivial)+

end

lemma fp_of_int: "Rep_fp (of_int x) = x mod field_p"
proof (induction x rule: int_induct [where k = 0])
  case base
  show ?case by (simp add: zero_fp.rep_eq)
next
  case (step1 i)
  then show ?case by (simp add: plus_fp.rep_eq one_fp.rep_eq mod_add_left_eq)
next
  case (step2 i)
  then show ?case by (simp add: minus_fp.rep_eq one_fp.rep_eq mod_diff_left_eq)
qed

lemma fp_eq_iff: "(of_int x :: fp) = of_int y \<longleftrightarrow> x mod field_p = y mod field_p"
  by (simp add: fp_of_int flip: Rep_fp_inject)

lemma fp_eq_0_iff: "(of_int x :: fp) = 0 \<longleftrightarrow> x mod field_p = 0"
  using fp_eq_iff [of x 0] by simp

lemma fp_eqI: "x mod field_p = y mod field_p \<Longrightarrow> (of_int x :: fp) = of_int y"
  by (simp add: fp_eq_iff)

subsection \<open>What a representation promises\<close>

text \<open>\<open>val\<close> is the integer a representation stands for, \<open>mag m a\<close> that its magnitude is at most \<open>m\<close>, and \<open>nrm a\<close>
  that it is normalized.\<close>

locale field_arith =
  fixes ops :: "('fe, 'st) field_ops" and val :: "'fe \<Rightarrow> int" and mag :: "nat \<Rightarrow> 'fe \<Rightarrow> bool" and nrm :: "'fe \<Rightarrow> bool"
  assumes mag_mono: "mag m a \<Longrightarrow> m \<le> k \<Longrightarrow> mag k a"
    and nrm_mag: "nrm a \<Longrightarrow> mag 1 a"
    and nrm_val: "nrm a \<Longrightarrow> 0 \<le> val a \<and> val a < field_p"
    and nrm_inject: "nrm a \<Longrightarrow> nrm b \<Longrightarrow> val a = val b \<Longrightarrow> a = b"
    and mul: "mag 8 a \<Longrightarrow> mag 8 b \<Longrightarrow> mag 1 (fe_mul ops a b) \<and> val (fe_mul ops a b) mod field_p = val a * val b mod field_p"
    and sqr: "mag 8 a \<Longrightarrow> mag 1 (fe_sqr ops a) \<and> val (fe_sqr ops a) mod field_p = val a * val a mod field_p"
    and add: "mag m a \<Longrightarrow> mag k b \<Longrightarrow> m + k \<le> 32 \<Longrightarrow>
      mag (m + k) (fe_add ops a b) \<and> val (fe_add ops a b) mod field_p = (val a + val b) mod field_p"
    and negate: "mag m a \<Longrightarrow> m \<le> unat w \<Longrightarrow> unat w < 32 \<Longrightarrow>
      mag (unat w + 1) (fe_negate ops a w) \<and> val (fe_negate ops a w) mod field_p = - val a mod field_p"
    and mul_int: "mag m a \<Longrightarrow> unat w * m \<le> 32 \<Longrightarrow> unat w \<le> 32 \<Longrightarrow>
      mag (unat w * m) (fe_mul_int ops a w) \<and> val (fe_mul_int ops a w) mod field_p = val a * uint w mod field_p"
    and normalize: "mag 31 a \<Longrightarrow> nrm (fe_normalize ops a) \<and> val (fe_normalize ops a) = val a mod field_p"
    and normalize_weak: "mag 31 a \<Longrightarrow> mag 1 (fe_normalize_weak ops a) \<and> val (fe_normalize_weak ops a) mod field_p = val a mod field_p"
    and normalize_var: "mag 31 a \<Longrightarrow> fe_normalize_var ops a = fe_normalize ops a"
    and to_zero: "mag 31 a \<Longrightarrow> fe_normalizes_to_zero ops a \<longleftrightarrow> val a mod field_p = 0"
    and to_zero_var: "mag 31 a \<Longrightarrow> fe_normalizes_to_zero_var ops a \<longleftrightarrow> val a mod field_p = 0"
    and set_int: "uint w < 2 ^ 26 \<Longrightarrow> nrm (fe_set_int ops w) \<and> val (fe_set_int ops w) = uint w"
    and clear: "fe_clear ops a = fe_set_int ops 0"
    and is_zero: "nrm a \<Longrightarrow> fe_is_zero ops a \<longleftrightarrow> val a = 0"
    and is_odd: "nrm a \<Longrightarrow> fe_is_odd ops a \<longleftrightarrow> odd (val a)"
    and cmp_var: "nrm a \<Longrightarrow> nrm b \<Longrightarrow> fe_cmp_var ops a b = sgn (val a - val b)"
    and set_b32_val: "length bs = 32 \<Longrightarrow> val (snd (fe_set_b32 ops bs)) = be_val bs"
    and set_b32_ok: "length bs = 32 \<Longrightarrow> fst (fe_set_b32 ops bs) \<longleftrightarrow> be_val bs < field_p"
    and set_b32_nrm: "length bs = 32 \<Longrightarrow> be_val bs < field_p \<Longrightarrow> nrm (snd (fe_set_b32 ops bs))"
    and get_b32: "nrm a \<Longrightarrow> be_val (fe_get_b32 ops a) = val a \<and> length (fe_get_b32 ops a) = 32"
    and cmov: "fe_cmov ops a b 0 = a" "fe_cmov ops a b 1 = b"
    and storage: "nrm a \<Longrightarrow> fe_from_storage ops (fe_to_storage ops a) = a"
    and storage_cmov: "fe_storage_cmov ops s t 0 = s" "fe_storage_cmov ops s t 1 = t"
    and const: "limbs_val 32 [d0, d1, d2, d3, d4, d5, d6, d7] < field_p \<Longrightarrow>
      nrm (fe_const ops d7 d6 d5 d4 d3 d2 d1 d0) \<and> val (fe_const ops d7 d6 d5 d4 d3 d2 d1 d0) = limbs_val 32 [d0, d1, d2, d3, d4, d5, d6, d7]"

sublocale field_arith \<subseteq> chain: power_chain "fe_mul ops" "fe_sqr ops" val field_p "mag 8"
  by unfold_locales (use mul sqr mag_mono [of 1 _ 8] in auto)

context field_arith
begin

definition fv :: "'fe \<Rightarrow> fp" where
  "fv a = of_int (val a)"

lemma fv_0_iff: "fv a = 0 \<longleftrightarrow> val a mod field_p = 0"
  by (simp add: fv_def fp_eq_0_iff)

lemma fv_mul: "mag 8 a \<Longrightarrow> mag 8 b \<Longrightarrow> fv (fe_mul ops a b) = fv a * fv b"
  using mul unfolding fv_def of_int_mult [symmetric] fp_eq_iff by blast

lemma fv_sqr: "mag 8 a \<Longrightarrow> fv (fe_sqr ops a) = fv a * fv a"
  using sqr unfolding fv_def of_int_mult [symmetric] fp_eq_iff by blast

lemma fv_add: "mag m a \<Longrightarrow> mag k b \<Longrightarrow> m + k \<le> 32 \<Longrightarrow> fv (fe_add ops a b) = fv a + fv b"
  using add unfolding fv_def of_int_add [symmetric] fp_eq_iff by blast

lemma fv_negate: "mag m a \<Longrightarrow> m \<le> unat k \<Longrightarrow> unat k < 32 \<Longrightarrow> fv (fe_negate ops a k) = - fv a"
  using negate unfolding fv_def of_int_minus [symmetric] fp_eq_iff by blast

lemma fv_mul_int: "mag m a \<Longrightarrow> unat k * m \<le> 32 \<Longrightarrow> unat k \<le> 32 \<Longrightarrow> fv (fe_mul_int ops a k) = fv a * of_int (uint k)"
  using mul_int unfolding fv_def of_int_mult [symmetric] fp_eq_iff by blast

lemma fv_normalize: "mag 31 a \<Longrightarrow> fv (fe_normalize ops a) = fv a"
  using normalize by (simp add: fv_def fp_eq_iff)

lemma fv_normalize_weak: "mag 31 a \<Longrightarrow> fv (fe_normalize_weak ops a) = fv a"
  using normalize_weak by (simp add: fv_def fp_eq_iff)

lemma fv_to_zero: "mag 31 a \<Longrightarrow> fe_normalizes_to_zero ops a \<longleftrightarrow> fv a = 0"
  "mag 31 a \<Longrightarrow> fe_normalizes_to_zero_var ops a \<longleftrightarrow> fv a = 0"
  by (simp_all add: fv_0_iff to_zero to_zero_var)

lemma fv_set_int: "uint k < 2 ^ 26 \<Longrightarrow> fv (fe_set_int ops k) = of_int (uint k)"
  using set_int by (simp add: fv_def)

lemma nrm_fv_inject: "nrm a \<Longrightarrow> nrm b \<Longrightarrow> fv a = fv b \<longleftrightarrow> a = b"
  using nrm_val [of a] nrm_val [of b] nrm_inject [of a b] by (auto simp: fv_def fp_eq_iff mod_pos_pos_trivial)

lemma equal_iff:
  assumes "mag 1 a" "mag k b" "k \<le> 29"
  shows "fe_equal ops a b \<longleftrightarrow> fv a = fv b" "fe_equal_var ops a b \<longleftrightarrow> fv a = fv b"
proof -
  have n: "mag 2 (fe_negate ops a 1)" "fv (fe_negate ops a 1) = - fv a"
    using negate [OF assms(1), of 1] fv_negate [OF assms(1), of 1] by (simp_all add: numeral_2_eq_2)
  then have "mag 31 (fe_add ops (fe_negate ops a 1) b)" "fv (fe_add ops (fe_negate ops a 1) b) = fv b - fv a"
    using add [OF n(1) assms(2)] fv_add [OF n(1) assms(2)] assms(3) by (auto intro: mag_mono)
  then show "fe_equal ops a b \<longleftrightarrow> fv a = fv b" "fe_equal_var ops a b \<longleftrightarrow> fv a = fv b"
    by (auto simp: fe_equal_def fe_equal_var_def fv_to_zero)
qed

lemma pw_fv: "chain.pw a e t \<Longrightarrow> fv t = fv a ^ e"
  unfolding chain.pw_def fv_def of_int_power [symmetric] fp_eq_iff by blast

lemma blocks:
  assumes "mag 8 a"
  shows "case fe_blocks ops a of (x2, x22, x223) \<Rightarrow>
     chain.pw a (2 ^ 2 - 1) x2 \<and> chain.pw a (2 ^ 22 - 1) x22 \<and> chain.pw a (2 ^ 223 - 1) x223"
  (is "?P (fe_blocks ops a)")
proof -
  have "chain.pw a 1 a" by (rule chain.pw_self) (rule assms)
  then show ?thesis
    unfolding fe_blocks_def
    by - ((rule chain.pw_lets [where P = ?P], assumption, assumption?, simp (no_asm))+, simp)
qed

lemma inv_chain:
  assumes "mag 8 a"
  shows "chain.pw a (nat (field_p - 2)) (fe_inv ops a)"
proof -
  obtain x2 x22 x223 where p: "fe_blocks ops a = (x2, x22, x223)" by (metis prod.exhaust)
  have a: "chain.pw a 1 a" by (rule chain.pw_self) (rule assms)
  have "chain.pw a 3 x2" "chain.pw a (2 ^ 22 - 1) x22" "chain.pw a (2 ^ 223 - 1) x223"
    using blocks [OF assms, unfolded p prod.case] by simp_all
  with a show ?thesis
    unfolding fe_inv_def p Let_def [of "(_, _)"] prod.case
    by - ((rule chain.pw_lets [where P = "chain.pw a (nat (field_p - 2))"], assumption, assumption?, simp (no_asm))+,
        rule chain.pw_end, rule chain.pw_mul, assumption, assumption, simp (no_asm) add: field_p_def)
qed

lemma inv_power: "mag 8 a \<Longrightarrow> fv (fe_inv ops a) = fv a ^ nat (field_p - 2)"
  by (rule pw_fv, rule inv_chain)

lemma inv_mag: "mag 8 a \<Longrightarrow> mag 1 (fe_inv ops a)"
proof -
  assume a: "mag 8 a"
  obtain x2 x22 x223 where p: "fe_blocks ops a = (x2, x22, x223)" by (metis prod.exhaust)
  have b: "mag 8 x2" "mag 8 x22" "mag 8 x223"
    using blocks [OF a, unfolded p prod.case] by (simp_all add: chain.pw_def)
  have s: "mag 8 ((fe_sqr ops ^^ k) x)" if "mag 8 x" for k x
    using that by (induction k) (auto dest: chain.sqr)
  show ?thesis
    unfolding fe_inv_def p Let_def prod.case using a b by (intro mul [THEN conjunct1] s chain.mul [THEN conjunct1])
qed

lemma inv_inverse:
  assumes "mag 8 a" "fv a ^ nat (field_p - 1) = 1"
  shows "fv a * fv (fe_inv ops a) = 1"
proof -
  have "nat (field_p - 1) = Suc (nat (field_p - 2))" by (simp add: field_p_def)
  then show ?thesis using assms(2) by (simp add: inv_power [OF assms(1)])
qed

lemma sqrt_spec:
  assumes "mag 8 a"
  shows "fv (snd (fe_sqrt ops a)) = fv a ^ nat ((field_p + 1) div 4)"
    and "mag 1 (snd (fe_sqrt ops a))"
    and "fst (fe_sqrt ops a) \<longleftrightarrow> fv (snd (fe_sqrt ops a)) * fv (snd (fe_sqrt ops a)) = fv a"
proof -
  let ?r = "snd (fe_sqrt ops a)"
  let ?P = "\<lambda>x. chain.pw a (nat ((field_p + 1) div 4)) (snd x) \<and> mag 1 (snd x) \<and> (fst x \<longleftrightarrow> fv (snd x) * fv (snd x) = fv a)"
  obtain x2 x22 x223 where p: "fe_blocks ops a = (x2, x22, x223)" by (metis prod.exhaust)
  have end_step: "?P (let r = fe_sqr ops t; t1 = fe_sqr ops r in (fe_equal ops t1 a, r))"
    if "chain.pw a (nat ((field_p + 1) div 8)) t" for t
  proof -
    have t: "mag 8 t" using that by (simp add: chain.pw_def)
    have r: "mag 1 (fe_sqr ops t)" "mag 8 (fe_sqr ops t)" using sqr [OF t] by (auto intro: mag_mono)
    have "mag 1 (fe_sqr ops (fe_sqr ops t))" using sqr r(2) by blast
    then have "fe_equal ops (fe_sqr ops (fe_sqr ops t)) a \<longleftrightarrow> fv (fe_sqr ops t) * fv (fe_sqr ops t) = fv a"
      using equal_iff(1) [OF _ assms] fv_sqr [OF r(2)] by simp
    moreover have "chain.pw a (nat ((field_p + 1) div 4)) (fe_sqr ops t)"
      by (rule chain.pw_end, rule chain.pw_sqr, rule that) (simp add: field_p_def)
    ultimately show ?thesis using r(1) by (simp add: Let_def)
  qed
  have a: "chain.pw a 1 a" by (rule chain.pw_self) (rule assms)
  have "chain.pw a 3 x2" "chain.pw a (2 ^ 22 - 1) x22" "chain.pw a (2 ^ 223 - 1) x223"
    using blocks [OF assms, unfolded p prod.case] by simp_all
  with a have "?P (fe_sqrt ops a)"
    unfolding fe_sqrt_def p Let_def [of "(_, _)"] prod.case
    apply -
    apply ((rule chain.pw_lets [where P = ?P], assumption, assumption?, simp (no_asm)))
    apply ((rule chain.pw_lets [where P = ?P], assumption, assumption?, simp (no_asm)))
    apply ((rule chain.pw_lets [where P = ?P], assumption, assumption?, simp (no_asm)))
    apply ((rule chain.pw_lets [where P = ?P], assumption, assumption?, simp (no_asm)))
    apply ((rule chain.pw_lets [where P = ?P], assumption, assumption?, simp (no_asm)))
    by (rule end_step) (rule chain.pw_end, assumption, simp (no_asm) add: field_p_def)
  then show "fv ?r = fv a ^ nat ((field_p + 1) div 4)" "mag 1 ?r" "fst (fe_sqrt ops a) \<longleftrightarrow> fv ?r * fv ?r = fv a"
    using pw_fv by blast+
qed

text \<open>The running products of the batch inversion, and the invariant of its loop backwards: the product of \<open>u\<close>
  and the current running product never changes.\<close>

definition prods :: "'fe list \<Rightarrow> nat \<Rightarrow> fp" where
  "prods a n = (\<Prod>k\<le>n. fv (a ! k))"

lemma inv_all_products:
  assumes "1 \<le> i" "len \<le> length r" "\<forall>j<len. mag 8 (a ! j)" "\<forall>j<min i len. mag 8 (r ! j) \<and> fv (r ! j) = prods a j"
  shows "length (fe_inv_all_products ops a len r i) = length r \<and>
    (\<forall>j<len. mag 8 (fe_inv_all_products ops a len r i ! j) \<and> fv (fe_inv_all_products ops a len r i ! j) = prods a j)"
  using assms
proof (induction "len - i" arbitrary: r i rule: less_induct)
  case less
  show ?case
  proof (cases "i < len")
    case True
    let ?r = "r[i := fe_mul ops (r ! (i - 1)) (a ! i)]"
    have p: "mag 8 (r ! (i - 1))" "fv (r ! (i - 1)) = prods a (i - 1)" "mag 8 (a ! i)"
      using less.prems True by (auto simp: min_def)
    obtain n where n: "i = Suc n" using less.prems(1) by (cases i) auto
    have "mag 8 (fe_mul ops (r ! (i - 1)) (a ! i)) \<and> fv (fe_mul ops (r ! (i - 1)) (a ! i)) = prods a i"
      using chain.mul [OF p(1,3)] fv_mul [OF p(1,3)] p(2) by (simp add: n prods_def)
    then have "\<forall>j<min (i + 1) len. mag 8 (?r ! j) \<and> fv (?r ! j) = prods a j"
      using less.prems True by (auto simp: less_Suc_eq nth_list_update)
    then show ?thesis
      using less.hyps [of "i + 1" ?r] less.prems True by (simp add: fe_inv_all_products.simps [of ops a len r i])
  qed (use less.prems in \<open>simp add: fe_inv_all_products.simps [of ops a len r i]\<close>)
qed

lemma inv_all_back:
  assumes "i < length r" "\<forall>j\<le>i. mag 8 (a ! j)" "\<forall>j\<le>i. mag 8 (r ! j) \<and> fv (r ! j) = prods a j"
    and "mag 8 u" "fv u * prods a i = w" and "fe_inv_all_back ops a r u i = (r', u')"
  shows "length r' = length r \<and> mag 8 u' \<and> fv u' * fv (a ! 0) = w \<and>
    (\<forall>j. 1 \<le> j \<and> j \<le> i \<longrightarrow> mag 8 (r' ! j) \<and> fv (r' ! j) * fv (a ! j) = w) \<and> (\<forall>j>i. r' ! j = r ! j)"
  using assms
proof (induction i arbitrary: r u)
  case (Suc i)
  let ?r = "r[Suc i := fe_mul ops (r ! i) u]" and ?u = "fe_mul ops u (a ! Suc i)"
  have m: "mag 8 (r ! i)" "fv (r ! i) = prods a i" "mag 8 u" "mag 8 (a ! Suc i)" using Suc.prems by auto
  have w: "w = fv u * (prods a i * fv (a ! Suc i))" using Suc.prems(5) by (simp add: prods_def)
  have u: "mag 8 ?u" "fv ?u * prods a i = w"
    using chain.mul [OF m(3,4)] fv_mul [OF m(3,4)] w by (simp_all add: ac_simps)
  have r: "mag 8 (fe_mul ops (r ! i) u)" "fv (fe_mul ops (r ! i) u) * fv (a ! Suc i) = w"
    using chain.mul [OF m(1,3)] fv_mul [OF m(1,3)] w m(2) by (simp_all add: ac_simps)
  have b: "fe_inv_all_back ops a ?r ?u i = (r', u')" using Suc.prems(6) by (simp add: Let_def)
  have "length r' = length ?r \<and> mag 8 u' \<and> fv u' * fv (a ! 0) = w \<and>
      (\<forall>j. 1 \<le> j \<and> j \<le> i \<longrightarrow> mag 8 (r' ! j) \<and> fv (r' ! j) * fv (a ! j) = w) \<and> (\<forall>j>i. r' ! j = ?r ! j)"
    by (rule Suc.IH [OF _ _ _ u b]) (use Suc.prems in auto)
  then show ?case using r Suc.prems(1) by (auto simp: le_Suc_eq)
qed (simp add: prods_def)

lemma inv_all_var:
  assumes "0 < len" "len \<le> length r" "\<forall>j<len. mag 8 (a ! j)"
  shows "length (fe_inv_all_var ops r a len) = length r" (is ?L)
    and "\<forall>j<len. mag 8 (fe_inv_all_var ops r a len ! j) \<and>
      fv (fe_inv_all_var ops r a len ! j) * fv (a ! j) = (\<Prod>k<len. fv (a ! k)) ^ nat (field_p - 1)" (is ?V)
proof -
  let ?r = "fe_inv_all_products ops a len (r[0 := a ! 0]) 1"
  let ?u = "fe_inv_var ops (?r ! (len - 1))"
  let ?w = "(\<Prod>k<len. fv (a ! k)) ^ nat (field_p - 1)"
  obtain r' u' where b: "fe_inv_all_back ops a ?r ?u (len - 1) = (r', u')" by fastforce
  have e: "fe_inv_all_var ops r a len = r'[0 := u']"
    using assms(1) b by (simp add: fe_inv_all_var_def Let_def)
  have z: "r[0 := a ! 0] ! 0 = a ! 0" by (rule nth_list_update_eq) (use assms(1,2) in linarith)
  have p: "length ?r = length r" "\<forall>j<len. mag 8 (?r ! j) \<and> fv (?r ! j) = prods a j"
    using inv_all_products [of 1 len "r[0 := a ! 0]" a] assms z by (auto simp: prods_def)
  have l: "prods a (len - 1) = (\<Prod>k<len. fv (a ! k))"
    using assms(1) by (cases len) (simp_all add: prods_def lessThan_Suc_atMost)
  have i: "mag 8 ?u" "fv ?u = prods a (len - 1) ^ nat (field_p - 2)"
    using p(2) assms(1) mag_mono [OF inv_mag, of _ 8] inv_power by (auto simp: fe_inv_var_def)
  have "nat (field_p - 1) = Suc (nat (field_p - 2))" by (simp add: field_p_def)
  then have "fv ?u * prods a (len - 1) = ?w" unfolding i(2) l by (simp add: mult.commute)
  then have "length r' = length ?r \<and> mag 8 u' \<and> fv u' * fv (a ! 0) = ?w \<and>
    (\<forall>j. 1 \<le> j \<and> j \<le> len - 1 \<longrightarrow> mag 8 (r' ! j) \<and> fv (r' ! j) * fv (a ! j) = ?w) \<and> (\<forall>j>len - 1. r' ! j = ?r ! j)"
    by (intro inv_all_back [OF _ _ _ i(1) _ b]) (use assms p in auto)
  then have r': "length r' = length r" "mag 8 u'" "fv u' * fv (a ! 0) = ?w"
      "\<And>j. 1 \<le> j \<Longrightarrow> j < len \<Longrightarrow> mag 8 (r' ! j) \<and> fv (r' ! j) * fv (a ! j) = ?w"
    using p(1) by auto
  show ?L unfolding e by (simp add: r'(1))
  have "mag 8 (r'[0 := u'] ! j) \<and> fv (r'[0 := u'] ! j) * fv (a ! j) = ?w" if "j < len" for j
    using that r' less_le_trans [OF assms(1,2)] by (cases j) simp_all
  then show ?V unfolding e by blast
qed

subsection \<open>Elements with a magnitude and a residue\<close>

text \<open>\<open>den a m v\<close>: the element has magnitude at most \<open>m\<close> and denotes \<open>v\<close>. The rules compute both for every
  operation, so that a straight-line program is verified one assignment at a time with \<open>den_let\<close>.\<close>

definition den :: "'fe \<Rightarrow> nat \<Rightarrow> fp \<Rightarrow> bool" where
  "den a m v \<longleftrightarrow> mag m a \<and> fv a = v"

lemma den_self: "mag m a \<Longrightarrow> den a m (fv a)"
  by (simp add: den_def)

lemma den_mul: "den a m u \<Longrightarrow> den b k v \<Longrightarrow> m \<le> 8 \<Longrightarrow> k \<le> 8 \<Longrightarrow> den (fe_mul ops a b) 1 (u * v)"
  unfolding den_def using mul fv_mul mag_mono by blast

lemma den_sqr: "den a m u \<Longrightarrow> m \<le> 8 \<Longrightarrow> den (fe_sqr ops a) 1 (u * u)"
  unfolding den_def using sqr fv_sqr mag_mono by blast

lemma den_add: "den a m u \<Longrightarrow> den b k v \<Longrightarrow> m + k = n \<Longrightarrow> n \<le> 32 \<Longrightarrow> den (fe_add ops a b) n (u + v)"
  unfolding den_def using add fv_add by blast

lemma den_negate: "den a m u \<Longrightarrow> m \<le> unat c \<Longrightarrow> unat c + 1 = n \<Longrightarrow> n \<le> 32 \<Longrightarrow> den (fe_negate ops a c) n (- u)"
  unfolding den_def using negate [of m a c] fv_negate [of m a c] by auto

lemma den_mul_int:
  "den a m u \<Longrightarrow> unat c * m = n \<Longrightarrow> n \<le> 32 \<Longrightarrow> unat c \<le> 32 \<Longrightarrow> of_int (uint c) = (d :: fp) \<Longrightarrow> den (fe_mul_int ops a c) n (u * d)"
  unfolding den_def using mul_int fv_mul_int by blast

lemma den_normalize_weak: "den a m u \<Longrightarrow> m \<le> 31 \<Longrightarrow> den (fe_normalize_weak ops a) 1 u"
  unfolding den_def using normalize_weak fv_normalize_weak mag_mono by blast

lemma den_normalize: "den a m u \<Longrightarrow> m \<le> 31 \<Longrightarrow> den (fe_normalize ops a) 1 u \<and> nrm (fe_normalize ops a)"
  unfolding den_def using normalize fv_normalize nrm_mag mag_mono by blast

lemma den_set_int: "uint c < 2 ^ 26 \<Longrightarrow> of_int (uint c) = (d :: fp) \<Longrightarrow> den (fe_set_int ops c) 1 d"
  unfolding den_def using set_int fv_set_int nrm_mag by blast

lemma den_to_zero:
  "den a m u \<Longrightarrow> m \<le> 31 \<Longrightarrow> fe_normalizes_to_zero ops a \<longleftrightarrow> u = 0"
  "den a m u \<Longrightarrow> m \<le> 31 \<Longrightarrow> fe_normalizes_to_zero_var ops a \<longleftrightarrow> u = 0"
  unfolding den_def using fv_to_zero mag_mono by blast+

lemma den_equal:
  "den a 1 u \<Longrightarrow> den b k v \<Longrightarrow> k \<le> 29 \<Longrightarrow> fe_equal ops a b \<longleftrightarrow> u = v"
  "den a 1 u \<Longrightarrow> den b k v \<Longrightarrow> k \<le> 29 \<Longrightarrow> fe_equal_var ops a b \<longleftrightarrow> u = v"
  by (auto simp: den_def equal_iff)

lemma den_cmov: "den a m u \<Longrightarrow> den b k v \<Longrightarrow> den (fe_cmov ops a b (of_bool c)) (max m k) (if c then v else u)"
  unfolding den_def using mag_mono [of m a "max m k"] mag_mono [of k b "max m k"] cmov by (cases c) simp_all

lemma den_weaken: "den a m u \<Longrightarrow> m \<le> n \<Longrightarrow> u = v \<Longrightarrow> den a n v"
  unfolding den_def using mag_mono by blast

lemma den_let: "den e m v \<Longrightarrow> (\<And>x. den x m v \<Longrightarrow> P (F x)) \<Longrightarrow> P (Let e F)"
  by simp

lemmas den_rules = den_mul den_sqr den_add den_negate den_mul_int den_normalize_weak den_set_int

end

end
