(* ===== verification/Field_Limbs.thy ===== *)
theory Field_Limbs
  imports Field
begin

text \<open>
  What the two representations of field elements share: comparison of limb lists, masks and shifted limbs, the
  digits that the byte conversions move one by one, and the conditional subtraction of the final reduction.
\<close>

subsection \<open>The loop of \<open>fe_cmp_var\<close> over the limbs, most significant first\<close>

fun cmp_limbs :: "('a::len word \<times> 'a word) list \<Rightarrow> int" where
  "cmp_limbs [] = 0"
| "cmp_limbs ((x, y) # r) = (if x > y then 1 else if x < y then -1 else cmp_limbs r)"

lemma sgn_limb:
  fixes x0 x1 y0 y1 W :: int
  assumes "0 \<le> x0" "x0 < W" "0 \<le> y0" "y0 < W"
  shows "sgn ((x0 + W * x1) - (y0 + W * y1)) = (if sgn (x1 - y1) \<noteq> 0 then sgn (x1 - y1) else sgn (x0 - y0))"
  using limb_le_iff [OF assms(1-4), of y1 x1] limb_le_iff [OF assms(3,4,1,2), of x1 y1] by (auto simp: sgn_if not_le)

lemma cmp_limbs_sgn:
  "cmp_limbs ((x, y) # r) = (if sgn (uint x - uint y) \<noteq> 0 then sgn (uint x - uint y) else cmp_limbs r)"
  by (auto simp: word_less_def sgn_if)

subsection \<open>Limbs\<close>

lemma limb_eq_iff:
  fixes a b A B W :: int
  assumes "0 \<le> a" "a < W" "0 \<le> b" "b < W"
  shows "a + W * A = b + W * B \<longleftrightarrow> a = b \<and> A = B"
  using div_mod_unique_int [of a W A "a + W * A"] div_mod_unique_int [of b W B "b + W * B"] assms by metis

lemma and_max_iff:
  fixes a b :: "'a::len word"
  assumes "a \<le> m" "b \<le> m"
  shows "a AND b = m \<longleftrightarrow> a = m \<and> b = m"
proof -
  have "a AND b \<le> a" "a AND b \<le> b" by (simp_all add: word_and_le1 word_and_le2)
  then show ?thesis using assms by auto
qed

lemma mod_cond_sub:
  fixes V n M :: int
  assumes "0 \<le> V" "V < 2 * n" "n \<le> M"
  shows "(V + of_bool (n \<le> V) * (M - n)) mod M = V mod n"
proof (cases "n \<le> V")
  case True
  have "(V + (M - n)) mod M = V - n"
    by (rule div_mod_unique_int(1) [of _ _ 1]) (use assms True in simp_all)
  moreover have "V mod n = V - n"
    by (rule div_mod_unique_int(1) [of _ _ 1]) (use assms True in simp_all)
  ultimately show ?thesis using True by simp
qed (use assms in simp)

lemma uint_le_of_unat: "unat k \<le> n \<Longrightarrow> uint k \<le> int n" for k :: "'a::len word"
  by (metis of_nat_le_iff uint_nat)

lemma uint_ge_of_unat: "n \<le> unat k \<Longrightarrow> int n \<le> uint k" for k :: "'a::len word"
  by (metis of_nat_le_iff uint_nat)

lemma and_1_iff: "w AND 1 = 0 \<longleftrightarrow> even (uint w)" for w :: "'a::len word"
  using bit_uint_iff [of w 0] by (simp add: bit_0 and_one_eq flip: even_iff_mod_2_eq_zero odd_iff_mod_2_eq_one)

lemma uint_take_bit: "uint (take_bit n y) = uint y mod 2 ^ n" for y :: "'a::len word"
  unfolding unsigned_take_bit_eq by (rule take_bit_eq_mod)

lemma div_pow_less: "x < 2 ^ n \<Longrightarrow> j \<le> n \<Longrightarrow> x div 2 ^ j < 2 ^ (n - j)" for x :: int
proof -
  assume "x < 2 ^ n" "j \<le> n"
  then have "x < 2 ^ (n - j) * 2 ^ j" by (simp flip: power_add)
  moreover have "2 ^ (n - j) * 2 ^ j \<le> x" if "2 ^ (n - j) \<le> x div 2 ^ j"
  proof -
    have "2 ^ (n - j) * 2 ^ j \<le> x div 2 ^ j * 2 ^ j" using that by (intro mult_right_mono) simp_all
    moreover have "0 \<le> x mod 2 ^ j" by simp
    ultimately show ?thesis using div_mult_mod_eq [of x "2 ^ j"] by linarith
  qed
  ultimately show ?thesis by (meson not_le)
qed

lemma or_push_mod:
  fixes x y :: "'a::len word"
  assumes "uint x < 2 ^ k" "k \<le> LENGTH('a)"
  shows "uint (x OR push_bit k y) = uint x + 2 ^ k * (uint y mod 2 ^ (LENGTH('a) - k))"
proof -
  have t: "uint (take_bit (LENGTH('a) - k) y) = uint y mod 2 ^ (LENGTH('a) - k)"
    by (rule uint_take_bit)
  have "push_bit k y = push_bit k (take_bit (LENGTH('a) - k) y)"
    by (rule bit_word_eqI) (auto simp: bit_simps)
  moreover have "2 ^ k * (2 ^ (LENGTH('a) - k) - 1) < (2 ^ LENGTH('a) :: int)"
    using assms(2) by (simp add: right_diff_distrib flip: power_add)
  then have "denotes (x OR push_bit k (take_bit (LENGTH('a) - k) y)) (uint x + 2 ^ k * (uint y mod 2 ^ (LENGTH('a) - k)))
      (2 ^ k - 1 + 2 ^ k * (2 ^ (LENGTH('a) - k) - 1))"
    using assms by (intro denotes_or_push) (simp_all add: denotes_def t)
  ultimately show ?thesis by (simp add: denotes_def)
qed

lemma drop_or_push:
  fixes x y :: "'a::len word"
  assumes "uint x div 2 ^ j < 2 ^ k" "k + n \<le> LENGTH('a)"
  shows "uint (drop_bit j x OR push_bit k (take_bit n y)) = uint x div 2 ^ j + 2 ^ k * (uint y mod 2 ^ n)"
proof -
  have "uint y mod 2 ^ n mod 2 ^ (LENGTH('a) - k) = uint y mod 2 ^ n"
  proof (rule mod_pos_pos_trivial)
    have "uint y mod 2 ^ n < 2 ^ n" by simp
    also have "(2 :: int) ^ n \<le> 2 ^ (LENGTH('a) - k)" using assms(2) by (intro power_increasing) simp_all
    finally show "uint y mod 2 ^ n < 2 ^ (LENGTH('a) - k)" .
  qed simp
  then show ?thesis
    using or_push_mod [of "drop_bit j x" k "take_bit n y"] assms
    unfolding uint_drop_bit uint_take_bit by simp
qed

lemma first_nonzero:
  "(if (if x \<noteq> 0 then x else y) \<noteq> 0 then (if x \<noteq> 0 then x else y) else z) = (if x \<noteq> 0 then x else if y \<noteq> 0 then y else z)"
  "(if x \<noteq> 0 then x else 0) = x" for x y z :: int
  by simp_all

subsection \<open>Digits of a limb\<close>

text \<open>A limb put together from \<open>n\<close> digits of \<open>b\<close> bits, and the value of the digits.\<close>

primrec or_digs :: "nat \<Rightarrow> (nat \<Rightarrow> 'a::len word) \<Rightarrow> nat \<Rightarrow> nat \<Rightarrow> 'a word" where
  "or_digs b f q 0 = 0"
| "or_digs b f q (Suc n) = or_digs b f q n OR push_bit (b * n) (f (q + n))"

primrec dig_sum :: "nat \<Rightarrow> (nat \<Rightarrow> int) \<Rightarrow> nat \<Rightarrow> nat \<Rightarrow> int" where
  "dig_sum b v q 0 = 0"
| "dig_sum b v q (Suc n) = dig_sum b v q n + 2 ^ (b * n) * v (q + n)"

lemma dig_sum_add: "dig_sum b v q (m + n) = dig_sum b v q m + 2 ^ (b * m) * dig_sum b v (q + m) n"
  by (induction n) (simp_all add: power_add algebra_simps)

lemma dig_sum_cong: "(\<And>j. j < n \<Longrightarrow> v (q + j) = w (r + j)) \<Longrightarrow> dig_sum b v q n = dig_sum b w r n"
  by (induction n) simp_all

lemma dig_sum_bounds:
  assumes "\<And>i. 0 \<le> v i \<and> v i \<le> 2 ^ b - 1"
  shows "0 \<le> dig_sum b v q n \<and> dig_sum b v q n \<le> 2 ^ (b * n) - 1"
proof (induction n)
  case (Suc n)
  have "2 ^ (b * n) * v (q + n) \<le> 2 ^ (b * n) * (2 ^ b - 1)"
    using assms [of "q + n"] by (intro mult_left_mono) simp_all
  moreover have "2 ^ (b * Suc n) = 2 ^ (b * n) * (2 ^ b :: int)" by (simp add: power_add)
  ultimately show ?case using Suc assms [of "q + n"] by (simp add: algebra_simps)
qed simp

lemma or_digs_val:
  fixes f :: "nat \<Rightarrow> 'a::len word"
  assumes v: "\<And>i. uint (f i) \<le> 2 ^ b - 1" and "b * n \<le> LENGTH('a)"
  shows "uint (or_digs b f q n) = dig_sum b (\<lambda>i. uint (f i)) q n"
  using assms(2)
proof (induction n)
  case (Suc n)
  let ?s = "dig_sum b (\<lambda>i. uint (f i)) q n"
  have b: "?s \<le> 2 ^ (b * n) - 1" using dig_sum_bounds [of "\<lambda>i. uint (f i)" b q n] v by simp
  have "2 ^ (b * n) * (2 ^ b - 1) < (2 ^ (b * n + b) :: int)" by (simp add: power_add)
  also have "\<dots> \<le> 2 ^ LENGTH('a)" using Suc.prems by (intro power_increasing) simp_all
  finally have "denotes (or_digs b f q n OR push_bit (b * n) (f (q + n))) (?s + 2 ^ (b * n) * uint (f (q + n)))
      (2 ^ (b * n) - 1 + 2 ^ (b * n) * (2 ^ b - 1))"
    using Suc b v [of "q + n"] by (intro denotes_or_push) (simp_all add: denotes_def)
  then show ?case by (simp add: denotes_def)
qed simp

lemma dig_sum_mod: "dig_sum b (\<lambda>j. x div 2 ^ (b * j) mod 2 ^ b) 0 n = x mod 2 ^ (b * n)" for x :: int
proof (induction n)
  case (Suc n)
  have "x mod (2 ^ (b * n) * 2 ^ b) = 2 ^ (b * n) * (x div 2 ^ (b * n) mod 2 ^ b) + x mod 2 ^ (b * n)"
    by (rule zmod_zmult2_eq) simp
  then show ?case using Suc by (simp add: power_add mult.commute)
qed simp

text \<open>The loop of the byte reader: digit \<open>q\<close> goes to limb \<open>q div 13\<close>.\<close>

lemma set_limbs:
  fixes N :: "nat \<Rightarrow> 'a::len word" and b l :: nat
  assumes "m \<le> 13 * l"
  defines "S \<equiv> foldl (\<lambda>n q. n[q div 13 := n ! (q div 13) OR push_bit (b * (q mod 13)) (N q)]) (replicate l 0)"
  shows "length (S [0..<m]) = l \<and> (\<forall>k < l. S [0..<m] ! k = or_digs b N (13 * k) (min 13 (m - 13 * k)))"
  using assms(1)
proof (induction m)
  case 0
  show ?case by (simp add: S_def)
next
  case (Suc m)
  define j s where "j = m div 13" and "s = m mod 13"
  have m: "m = 13 * j + s" "s < 13" by (simp_all add: j_def s_def)
  have step: "S [0..<Suc m] = (S [0..<m])[j := S [0..<m] ! j OR push_bit (b * s) (N m)]"
    by (simp add: S_def j_def s_def)
  have IH: "length (S [0..<m]) = l" "\<And>k. k < l \<Longrightarrow> S [0..<m] ! k = or_digs b N (13 * k) (min 13 (m - 13 * k))"
    using Suc by simp_all
  have "S [0..<Suc m] ! k = or_digs b N (13 * k) (min 13 (Suc m - 13 * k))" if k: "k < l" for k
  proof (cases k j rule: linorder_cases)
    case less
    then have "13 * k + 13 \<le> 13 * j" by simp
    then have "13 \<le> m - 13 * k" "13 \<le> Suc m - 13 * k" using m by simp_all
    then show ?thesis using less IH(2) [OF k] unfolding step by (simp add: min_absorb1)
  next
    case equal
    then have "m - 13 * k = s" "Suc m - 13 * k = Suc s" "13 * k + s = m" using m by simp_all
    then show ?thesis using k IH m(2) equal unfolding step by (simp add: min_absorb2)
  next
    case greater
    then have "13 * j + 13 \<le> 13 * k" by simp
    then have "m - 13 * k = 0" "Suc m - 13 * k = 0" using m by simp_all
    then show ?thesis using greater IH(2) [OF k] unfolding step by simp
  qed
  moreover have "length (S [0..<Suc m]) = l" unfolding step by (simp add: IH(1))
  ultimately show ?case by blast
qed

text \<open>Digit \<open>q\<close> of 32 bytes that are read from the last one on, with \<open>8 div b\<close> digits in a byte.\<close>

definition b32_dig :: "nat \<Rightarrow> u8 list \<Rightarrow> nat \<Rightarrow> 'a::len word" where
  "b32_dig b a q = ucast (drop_bit (b * (q mod (8 div b))) (a ! (31 - q div (8 div b))) AND mask b)"

lemma b32_dig_val:
  assumes "8 \<le> LENGTH('a)"
  shows "uint (b32_dig b a q :: 'a::len word) = uint (a ! (31 - q div (8 div b))) div 2 ^ (b * (q mod (8 div b))) mod 2 ^ b"
proof -
  have u: "uint (ucast w :: 'a word) = uint w" for w :: u8
  proof (rule denotes_uint, rule denotes_ucast [OF denotes_u8])
    have "(2 :: int) ^ 8 \<le> 2 ^ LENGTH('a)" using assms by (intro power_increasing) simp_all
    then show "(255 :: int) < 2 ^ LENGTH('a)" by simp
  qed
  then show ?thesis by (simp add: b32_dig_def u uint_and_mask uint_drop_bit)
qed

lemma dig_sum_bytes:
  assumes "8 \<le> LENGTH('a)" "b * (8 div b) = 8"
  shows "dig_sum b (\<lambda>q. uint (b32_dig b a q :: 'a::len word)) 0 (8 div b * n) = (\<Sum>i<n. 256 ^ i * uint (a ! (31 - i)))"
proof (induction n)
  case (Suc n)
  define p where "p = 8 div b"
  have p: "b * p = 8" "0 < p" using assms(2) by (auto simp: p_def intro: Nat.gr0I)
  let ?u = "uint (a ! (31 - n))"
  have "dig_sum b (\<lambda>q. uint (b32_dig b a q :: 'a word)) (p * n) p = dig_sum b (\<lambda>j. ?u div 2 ^ (b * j) mod 2 ^ b) 0 p"
    by (rule dig_sum_cong) (use p in \<open>simp add: b32_dig_val [OF assms(1)] p_def [symmetric]\<close>)
  also have "\<dots> = ?u"
    using uint_bounded [of "a ! (31 - n)"] p by (simp add: dig_sum_mod)
  finally have "dig_sum b (\<lambda>q. uint (b32_dig b a q :: 'a word)) (p * n) p = ?u" .
  moreover have "(2 :: int) ^ (b * (p * n)) = 256 ^ n"
  proof -
    have "b * (p * n) = 8 * n" using p(1) by (simp flip: mult.assoc)
    then have "(2 :: int) ^ (b * (p * n)) = 2 ^ (8 * n)" by (rule arg_cong)
    also have "\<dots> = 256 ^ n" by (simp add: power_mult)
    finally show ?thesis .
  qed
  moreover have "dig_sum b (\<lambda>q. uint (b32_dig b a q :: 'a word)) 0 (p * Suc n) =
      dig_sum b (\<lambda>q. uint (b32_dig b a q :: 'a word)) 0 (p * n) + 2 ^ (b * (p * n)) * dig_sum b (\<lambda>q. uint (b32_dig b a q :: 'a word)) (p * n) p"
    using dig_sum_add [of b "\<lambda>q. uint (b32_dig b a q :: 'a word)" 0 "p * n" p] by (simp add: add.commute)
  ultimately show ?case using Suc unfolding p_def [symmetric] by simp
qed simp

subsection \<open>Bytes and bits of a value\<close>

lemma be_val_rev_sum: "length a = n \<Longrightarrow> be_val a = (\<Sum>i<n. 256 ^ i * uint (a ! (n - 1 - i)))"
proof (induction a arbitrary: n)
  case (Cons x a)
  have "(\<Sum>i<Suc (length a). 256 ^ i * uint ((x # a) ! (length a - i))) =
      (\<Sum>i<length a. 256 ^ i * uint ((x # a) ! (length a - i))) + 256 ^ length a * uint x" by simp
  also have "(\<Sum>i<length a. 256 ^ i * uint ((x # a) ! (length a - i))) = (\<Sum>i<length a. 256 ^ i * uint (a ! (length a - 1 - i)))"
    by (rule sum.cong) (simp_all add: nth_Cons')
  finally show ?case using Cons by (auto simp: be_val_Cons)
qed simp

lemma sum_digits: "(\<Sum>i<n. 256 ^ i * (x div 256 ^ i mod 256)) = x mod 256 ^ n" for x :: int
proof (induction n)
  case (Suc n)
  have "x mod (256 ^ n * 256) = 256 ^ n * (x div 256 ^ n mod 256) + x mod 256 ^ n"
    by (rule zmod_zmult2_eq) simp
  then show ?case using Suc by (simp add: mult.commute)
qed simp

lemma bit_limbs_val_k:
  fixes ws :: "'a::len word list"
  assumes "\<And>i. i < length ws \<Longrightarrow> uint (ws ! i) < 2 ^ k" "n < k * length ws" "0 < k"
  shows "bit (limbs_val k ws) n \<longleftrightarrow> bit (ws ! (n div k)) (n mod k)"
  using assms(1,2)
proof (induction ws arbitrary: n)
  case (Cons w ws)
  have w: "uint w < 2 ^ k" using Cons.prems(1) [of 0] by simp
  have ws: "\<And>i. i < length ws \<Longrightarrow> uint (ws ! i) < 2 ^ k" using Cons.prems(1) [of "Suc _"] by simp
  have high: "\<not> bit (uint w) m" if "k \<le> m" for m
  proof -
    have "(2 :: int) ^ k \<le> 2 ^ m" using that by (rule power_increasing) simp
    with w have "uint w < 2 ^ m" by (rule order_less_le_trans)
    then show ?thesis by (simp add: bit_iff_odd)
  qed
  have "limbs_val k (w # ws) = uint w OR push_bit k (limbs_val k ws)"
  proof -
    have "uint w + push_bit k (limbs_val k ws) = uint w OR push_bit k (limbs_val k ws)"
      by (rule disjunctive_add) (use high in \<open>auto simp: bit_push_bit_iff_int\<close>)
    then show ?thesis by (simp add: limbs_val_Cons push_bit_eq_mult mult.commute)
  qed
  then have *: "bit (limbs_val k (w # ws)) n \<longleftrightarrow> bit (uint w) n \<or> k \<le> n \<and> bit (limbs_val k ws) (n - k)"
    by (auto simp: bit_or_iff bit_push_bit_iff_int)
  show ?case
  proof (cases "n < k")
    case True
    then show ?thesis unfolding * by (simp add: bit_uint_iff)
       (metis bit_imp_le_length)
  next
    case False
    then have "n - k < k * length ws" using Cons.prems(2) by simp
    from Cons.IH [OF ws this] False show ?thesis
      unfolding * using high [of n] assms(3) by (simp add: le_div_geq le_mod_geq)
  qed
qed simp

text \<open>Digit \<open>q\<close> of a value is read from limb \<open>q div 13\<close>.\<close>

lemma limb_digit:
  fixes ws :: "'a::len word list"
  assumes "\<And>i. i < length ws \<Longrightarrow> uint (ws ! i) < 2 ^ (13 * b)" "q < 13 * length ws" "0 < b" "b \<le> LENGTH('a)"
  shows "uint (drop_bit (b * (q mod 13)) (ws ! (q div 13)) AND mask b) = limbs_val (13 * b) ws div 2 ^ (b * q) mod 2 ^ b"
proof -
  have "bit (uint (drop_bit (b * (q mod 13)) (ws ! (q div 13)) AND mask b)) t = bit (take_bit b (drop_bit (b * q) (limbs_val (13 * b) ws))) t" for t
  proof (cases "t < b")
    case True
    have "b * (q mod 13) + t < 13 * b"
    proof -
      have "q mod 13 \<le> 12" using mod_less_divisor [of 13 q] by linarith
      then have "b * (q mod 13) \<le> b * 12" by simp
      then show ?thesis using True by linarith
    qed
    moreover have "b * q = 13 * b * (q div 13) + b * (q mod 13)"
      by (metis div_mult_mod_eq distrib_left mult.assoc mult.commute)
    ultimately have "(b * q + t) div (13 * b) = q div 13" "(b * q + t) mod (13 * b) = b * (q mod 13) + t"
      using assms(3) by (simp_all add: add.assoc)
    moreover have "b * q + t < 13 * b * length ws"
    proof -
      have "b * (q + 1) \<le> b * (13 * length ws)" using assms(2) by (intro mult_left_mono) simp_all
      then show ?thesis using True by (simp add: algebra_simps)
    qed
    moreover have "0 < 13 * b" using assms(3) by simp
    ultimately show ?thesis
      using True assms(4) bit_limbs_val_k [of ws "13 * b" "b * q + t", OF assms(1)]
      by (simp add: bit_simps)
  qed (simp add: bit_simps)
  then have "uint (drop_bit (b * (q mod 13)) (ws ! (q div 13)) AND mask b) = take_bit b (drop_bit (b * q) (limbs_val (13 * b) ws))"
    by (rule bit_eqI)
  then show ?thesis by (simp only: take_bit_eq_mod drop_bit_eq_div)
qed

end
