(* ===== verification/Field_5x52.thy ===== *)
theory Field_5x52
  imports Field_Limbs
begin

text \<open>
  The field representation with five 52-bit limbs: \<open>field_5x52.h\<close>, \<open>field_5x52_impl.h\<close> and the portable C code of
  \<open>field_5x52_int128_impl.h\<close>. An element is the record of its limbs, all arithmetic is on machine words with
  wrap-around, and in-out parameters are returned. The lemmas relate each operation to the integer \<open>fe_val\<close>
  under the magnitude preconditions of \<open>field.h\<close> (\<open>fe_mag\<close>, the bound that \<open>fe_verify\<close> checks); the
  interpretation \<open>f5\<close> shows that the representation meets the field interface, which gives square root,
  inversion and batch inversion.
\<close>

subsection \<open>The struct and its constants (field_5x52.h)\<close>

record fe_5x52 =
  fn0 :: u64
  fn1 :: u64
  fn2 :: u64
  fn3 :: u64
  fn4 :: u64

abbreviation FE5 :: "u64 \<Rightarrow> u64 \<Rightarrow> u64 \<Rightarrow> u64 \<Rightarrow> u64 \<Rightarrow> fe_5x52" where
  "FE5 a b c d e \<equiv> \<lparr>fn0 = a, fn1 = b, fn2 = c, fn3 = d, fn4 = e\<rparr>"

definition fe_const_5x52 :: "u32 \<Rightarrow> u32 \<Rightarrow> u32 \<Rightarrow> u32 \<Rightarrow> u32 \<Rightarrow> u32 \<Rightarrow> u32 \<Rightarrow> u32 \<Rightarrow> fe_5x52" where
  "fe_const_5x52 d7 d6 d5 d4 d3 d2 d1 d0 = FE5
    (ucast d0 OR push_bit 32 (ucast d1 AND 0xFFFFF))
    ((drop_bit 20 (ucast d1) OR push_bit 12 (ucast d2)) OR push_bit 44 (ucast d3 AND 0xFF))
    (drop_bit 8 (ucast d3) OR push_bit 24 (ucast d4 AND 0xFFFFFFF))
    ((drop_bit 28 (ucast d4) OR push_bit 4 (ucast d5)) OR push_bit 36 (ucast d6 AND 0xFFFF))
    (drop_bit 16 (ucast d6) OR push_bit 16 (ucast d7))"

record fe_storage_5x52 =
  st0 :: u64
  st1 :: u64
  st2 :: u64
  st3 :: u64

abbreviation Storage4 :: "u64 \<Rightarrow> u64 \<Rightarrow> u64 \<Rightarrow> u64 \<Rightarrow> fe_storage_5x52" where
  "Storage4 a b c d \<equiv> \<lparr>st0 = a, st1 = b, st2 = c, st3 = d\<rparr>"

definition fe_storage_const_5x52 :: "u32 \<Rightarrow> u32 \<Rightarrow> u32 \<Rightarrow> u32 \<Rightarrow> u32 \<Rightarrow> u32 \<Rightarrow> u32 \<Rightarrow> u32 \<Rightarrow> fe_storage_5x52" where
  "fe_storage_const_5x52 d7 d6 d5 d4 d3 d2 d1 d0 = Storage4
    (ucast d0 OR push_bit 32 (ucast d1)) (ucast d2 OR push_bit 32 (ucast d3))
    (ucast d4 OR push_bit 32 (ucast d5)) (ucast d6 OR push_bit 32 (ucast d7))"

subsection \<open>Normalization (field_5x52_impl.h 33--227)\<close>

definition fe_verify_5x52 :: "fe_5x52 \<Rightarrow> int \<Rightarrow> bool \<Rightarrow> bool" where
  "fe_verify_5x52 a magnitude normalized =
    (let m = (if normalized then 1 else 2 * magnitude);
         r = (fn0 a \<le> 0xFFFFFFFFFFFFF * word_of_int m \<and> fn1 a \<le> 0xFFFFFFFFFFFFF * word_of_int m \<and>
              fn2 a \<le> 0xFFFFFFFFFFFFF * word_of_int m \<and> fn3 a \<le> 0xFFFFFFFFFFFFF * word_of_int m \<and>
              fn4 a \<le> 0x0FFFFFFFFFFFF * word_of_int m \<and> 0 \<le> magnitude \<and> magnitude \<le> 2048)
     in if normalized then
          (let r = (r \<and> magnitude \<le> 1)
           in if r \<and> fn4 a = 0x0FFFFFFFFFFFF \<and> fn3 a AND fn2 a AND fn1 a = 0xFFFFFFFFFFFFF
              then r \<and> fn0 a < 0xFFFFEFFFFFC2F else r)
        else r)"

text \<open>The carry pass that the normalization functions repeat.\<close>

definition fe_pass_5x52 :: "u64 \<Rightarrow> fe_5x52 \<Rightarrow> fe_5x52" where
  "fe_pass_5x52 x t =
    (let t0 = fn0 t + x * 0x1000003D1;
         t1 = fn1 t + drop_bit 52 t0; t0 = t0 AND 0xFFFFFFFFFFFFF;
         t2 = fn2 t + drop_bit 52 t1; t1 = t1 AND 0xFFFFFFFFFFFFF;
         t3 = fn3 t + drop_bit 52 t2; t2 = t2 AND 0xFFFFFFFFFFFFF;
         t4 = fn4 t + drop_bit 52 t3; t3 = t3 AND 0xFFFFFFFFFFFFF
     in FE5 t0 t1 t2 t3 t4)"

definition fe_normalize_5x52 :: "fe_5x52 \<Rightarrow> fe_5x52" where
  "fe_normalize_5x52 r =
    (let x = drop_bit 48 (fn4 r); t4 = fn4 r AND 0x0FFFFFFFFFFFF;
         t = fe_pass_5x52 x (r\<lparr>fn4 := t4\<rparr>);
         m = fn1 t AND fn2 t AND fn3 t;
         x = drop_bit 48 (fn4 t) OR (of_bool (fn4 t = 0x0FFFFFFFFFFFF) AND of_bool (m = 0xFFFFFFFFFFFFF)
             AND of_bool (fn0 t \<ge> 0xFFFFEFFFFFC2F));
         t = fe_pass_5x52 x t
     in t\<lparr>fn4 := fn4 t AND 0x0FFFFFFFFFFFF\<rparr>)"

definition fe_normalize_weak_5x52 :: "fe_5x52 \<Rightarrow> fe_5x52" where
  "fe_normalize_weak_5x52 r =
    (let x = drop_bit 48 (fn4 r); t4 = fn4 r AND 0x0FFFFFFFFFFFF
     in fe_pass_5x52 x (r\<lparr>fn4 := t4\<rparr>))"

definition fe_normalize_var_5x52 :: "fe_5x52 \<Rightarrow> fe_5x52" where
  "fe_normalize_var_5x52 r =
    (let x = drop_bit 48 (fn4 r); t4 = fn4 r AND 0x0FFFFFFFFFFFF;
         t = fe_pass_5x52 x (r\<lparr>fn4 := t4\<rparr>);
         m = fn1 t AND fn2 t AND fn3 t;
         x = drop_bit 48 (fn4 t) OR (of_bool (fn4 t = 0x0FFFFFFFFFFFF) AND of_bool (m = 0xFFFFFFFFFFFFF)
             AND of_bool (fn0 t \<ge> 0xFFFFEFFFFFC2F))
     in if x \<noteq> 0
        then let t = fe_pass_5x52 1 t in t\<lparr>fn4 := fn4 t AND 0x0FFFFFFFFFFFF\<rparr>
        else t)"

definition fe_normalizes_to_zero_5x52 :: "fe_5x52 \<Rightarrow> bool" where
  "fe_normalizes_to_zero_5x52 r =
    (let x = drop_bit 48 (fn4 r); t4 = fn4 r AND 0x0FFFFFFFFFFFF;
         t0 = fn0 r + x * 0x1000003D1;
         t1 = fn1 r + drop_bit 52 t0; t0 = t0 AND 0xFFFFFFFFFFFFF; z0 = t0; z1 = t0 XOR 0x1000003D0;
         t2 = fn2 r + drop_bit 52 t1; t1 = t1 AND 0xFFFFFFFFFFFFF; z0 = z0 OR t1; z1 = z1 AND t1;
         t3 = fn3 r + drop_bit 52 t2; t2 = t2 AND 0xFFFFFFFFFFFFF; z0 = z0 OR t2; z1 = z1 AND t2;
         t4 = t4 + drop_bit 52 t3; t3 = t3 AND 0xFFFFFFFFFFFFF; z0 = z0 OR t3; z1 = z1 AND t3;
         z0 = z0 OR t4; z1 = z1 AND (t4 XOR 0xF000000000000)
     in z0 = 0 \<or> z1 = 0xFFFFFFFFFFFFF)"

definition fe_normalizes_to_zero_var_5x52 :: "fe_5x52 \<Rightarrow> bool" where
  "fe_normalizes_to_zero_var_5x52 r =
    (let t0 = fn0 r; t4 = fn4 r;
         x = drop_bit 48 t4;
         t0 = t0 + x * 0x1000003D1;
         z0 = t0 AND 0xFFFFFFFFFFFFF;
         z1 = z0 XOR 0x1000003D0
     in if z0 \<noteq> 0 \<and> z1 \<noteq> 0xFFFFFFFFFFFFF then False
        else
          let t1 = fn1 r; t2 = fn2 r; t3 = fn3 r;
              t4 = t4 AND 0x0FFFFFFFFFFFF;
              t1 = t1 + drop_bit 52 t0;
              t2 = t2 + drop_bit 52 t1; t1 = t1 AND 0xFFFFFFFFFFFFF; z0 = z0 OR t1; z1 = z1 AND t1;
              t3 = t3 + drop_bit 52 t2; t2 = t2 AND 0xFFFFFFFFFFFFF; z0 = z0 OR t2; z1 = z1 AND t2;
              t4 = t4 + drop_bit 52 t3; t3 = t3 AND 0xFFFFFFFFFFFFF; z0 = z0 OR t3; z1 = z1 AND t3;
              z0 = z0 OR t4; z1 = z1 AND (t4 XOR 0xF000000000000)
          in z0 = 0 \<or> z1 = 0xFFFFFFFFFFFFF)"

subsection \<open>Conversions, comparison and linear operations (field_5x52_impl.h 229--371)\<close>

definition fe_set_int_5x52 :: "u32 \<Rightarrow> fe_5x52" where
  "fe_set_int_5x52 a = FE5 (scast a) 0 0 0 0"

definition fe_is_zero_5x52 :: "fe_5x52 \<Rightarrow> bool" where
  "fe_is_zero_5x52 a \<longleftrightarrow> (fn0 a OR fn1 a OR fn2 a OR fn3 a OR fn4 a) = 0"

definition fe_is_odd_5x52 :: "fe_5x52 \<Rightarrow> bool" where
  "fe_is_odd_5x52 a \<longleftrightarrow> fn0 a AND 1 \<noteq> 0"

definition fe_clear_5x52 :: "fe_5x52 \<Rightarrow> fe_5x52" where
  "fe_clear_5x52 a = a\<lparr>fn0 := 0, fn1 := 0, fn2 := 0, fn3 := 0, fn4 := 0\<rparr>"

definition fe_cmp_var_5x52 :: "fe_5x52 \<Rightarrow> fe_5x52 \<Rightarrow> int" where
  "fe_cmp_var_5x52 a b =
    cmp_limbs [(fn4 a, fn4 b), (fn3 a, fn3 b), (fn2 a, fn2 b), (fn1 a, fn1 b), (fn0 a, fn0 b)]"

text \<open>The pairs \<open>(i, j)\<close> that the two nested loops of the byte conversions run through.\<close>

definition fe_b32_steps :: "(nat \<times> nat) list" where
  "fe_b32_steps = concat (map (\<lambda>i. [(i, 0), (i, 1)]) [0..<32])"

definition fe_set_b32_5x52 :: "u8 list \<Rightarrow> bool \<times> fe_5x52" where
  "fe_set_b32_5x52 a =
    (let n = foldl (\<lambda>n (i, j).
               let limb = (8 * i + 4 * j) div 52; shift = (8 * i + 4 * j) mod 52
               in n[limb := n ! limb OR push_bit shift (ucast (drop_bit (4 * j) (a ! (31 - i)) AND 0xF))])
             [0, 0, 0, 0, 0] fe_b32_steps;
         r = FE5 (n ! 0) (n ! 1) (n ! 2) (n ! 3) (n ! 4)
     in (\<not> (fn4 r = 0x0FFFFFFFFFFFF \<and> fn3 r AND fn2 r AND fn1 r = 0xFFFFFFFFFFFFF \<and> fn0 r \<ge> 0xFFFFEFFFFFC2F), r))"

definition fe_get_b32_5x52 :: "fe_5x52 \<Rightarrow> u8 list" where
  "fe_get_b32_5x52 a =
    map (\<lambda>k. let i = 31 - k;
                 c = foldl (\<lambda>c j.
                       let limb = (8 * i + 4 * j) div 52; shift = (8 * i + 4 * j) mod 52
                       in c OR ucast (push_bit (4 * j) (drop_bit shift ([fn0 a, fn1 a, fn2 a, fn3 a, fn4 a] ! limb) AND 0xF)))
                     (0 :: u32) [0, 1]
             in ucast c) [0..<32]"

definition fe_negate_5x52 :: "fe_5x52 \<Rightarrow> u32 \<Rightarrow> fe_5x52" where
  "fe_negate_5x52 a m = FE5
    (0xFFFFEFFFFFC2F * 2 * scast (m + 1) - fn0 a)
    (0xFFFFFFFFFFFFF * 2 * scast (m + 1) - fn1 a)
    (0xFFFFFFFFFFFFF * 2 * scast (m + 1) - fn2 a)
    (0xFFFFFFFFFFFFF * 2 * scast (m + 1) - fn3 a)
    (0x0FFFFFFFFFFFF * 2 * scast (m + 1) - fn4 a)"

definition fe_mul_int_5x52 :: "fe_5x52 \<Rightarrow> u32 \<Rightarrow> fe_5x52" where
  "fe_mul_int_5x52 r a = FE5 (fn0 r * scast a) (fn1 r * scast a) (fn2 r * scast a) (fn3 r * scast a) (fn4 r * scast a)"

definition fe_add_5x52 :: "fe_5x52 \<Rightarrow> fe_5x52 \<Rightarrow> fe_5x52" where
  "fe_add_5x52 r a = FE5 (fn0 r + fn0 a) (fn1 r + fn1 a) (fn2 r + fn2 a) (fn3 r + fn3 a) (fn4 r + fn4 a)"

subsection \<open>Multiplication and squaring (field_5x52_int128_impl.h)\<close>

definition fe_mul_inner_5x52 :: "fe_5x52 \<Rightarrow> fe_5x52 \<Rightarrow> fe_5x52" where
  "fe_mul_inner_5x52 a b =
    (let a0 = ucast (fn0 a) :: u128; a1 = ucast (fn1 a) :: u128; a2 = ucast (fn2 a) :: u128;
         a3 = ucast (fn3 a) :: u128; a4 = ucast (fn4 a) :: u128;
         b0 = ucast (fn0 b) :: u128; b1 = ucast (fn1 b) :: u128; b2 = ucast (fn2 b) :: u128;
         b3 = ucast (fn3 b) :: u128; b4 = ucast (fn4 b) :: u128;
         d = a0 * b3 + a1 * b2 + a2 * b1 + a3 * b0;
         c = a4 * b4;
         d = d + (c AND 0xFFFFFFFFFFFFF) * 0x1000003D10; c = drop_bit 52 c;
         t3 = ucast (d AND 0xFFFFFFFFFFFFF) :: u64; d = drop_bit 52 d;
         d = d + (a0 * b4 + a1 * b3 + a2 * b2 + a3 * b1 + a4 * b0);
         d = d + c * 0x1000003D10;
         t4 = ucast (d AND 0xFFFFFFFFFFFFF) :: u64; d = drop_bit 52 d;
         tx = drop_bit 48 t4; t4 = t4 AND drop_bit 4 0xFFFFFFFFFFFFF;
         c = a0 * b0;
         d = d + (a1 * b4 + a2 * b3 + a3 * b2 + a4 * b1);
         u0 = ucast (d AND 0xFFFFFFFFFFFFF) :: u64; d = drop_bit 52 d;
         u0 = push_bit 4 u0 OR tx;
         c = c + ucast u0 * ucast (drop_bit 4 0x1000003D10 :: u64);
         r0 = ucast (c AND 0xFFFFFFFFFFFFF) :: u64; c = drop_bit 52 c;
         c = c + (a0 * b1 + a1 * b0);
         d = d + (a2 * b4 + a3 * b3 + a4 * b2);
         c = c + (d AND 0xFFFFFFFFFFFFF) * 0x1000003D10; d = drop_bit 52 d;
         r1 = ucast (c AND 0xFFFFFFFFFFFFF) :: u64; c = drop_bit 52 c;
         c = c + (a0 * b2 + a1 * b1 + a2 * b0);
         d = d + (a3 * b4 + a4 * b3);
         c = c + (d AND 0xFFFFFFFFFFFFF) * 0x1000003D10; d = drop_bit 52 d;
         r2 = ucast (c AND 0xFFFFFFFFFFFFF) :: u64; c = drop_bit 52 c;
         c = c + (d * 0x1000003D10 + ucast t3);
         r3 = ucast (c AND 0xFFFFFFFFFFFFF) :: u64; c = drop_bit 52 c;
         c = c + ucast t4;
         r4 = ucast c
     in FE5 r0 r1 r2 r3 r4)"

definition fe_sqr_inner_5x52 :: "fe_5x52 \<Rightarrow> fe_5x52" where
  "fe_sqr_inner_5x52 a =
    (let a0 = fn0 a; a1 = fn1 a; a2 = fn2 a; a3 = fn3 a; a4 = fn4 a;
         d = (ucast (a0 * 2) :: u128) * ucast a3 + ucast (a1 * 2) * ucast a2;
         c = (ucast a4 :: u128) * ucast a4;
         d = d + (c AND 0xFFFFFFFFFFFFF) * 0x1000003D10; c = drop_bit 52 c;
         t3 = ucast (d AND 0xFFFFFFFFFFFFF) :: u64; d = drop_bit 52 d;
         a4 = a4 * 2;
         d = d + (ucast a0 * ucast a4 + ucast (a1 * 2) * ucast a3 + ucast a2 * ucast a2);
         d = d + c * 0x1000003D10;
         t4 = ucast (d AND 0xFFFFFFFFFFFFF) :: u64; d = drop_bit 52 d;
         tx = signed_drop_bit 48 t4; t4 = t4 AND drop_bit 4 0xFFFFFFFFFFFFF;
         c = (ucast a0 :: u128) * ucast a0;
         d = d + (ucast a1 * ucast a4 + ucast (a2 * 2) * ucast a3);
         u0 = ucast (d AND 0xFFFFFFFFFFFFF) :: u64; d = drop_bit 52 d;
         u0 = push_bit 4 u0 OR tx;
         c = c + scast u0 * ucast (drop_bit 4 0x1000003D10 :: u64);
         r0 = ucast (c AND 0xFFFFFFFFFFFFF) :: u64; c = drop_bit 52 c;
         a0 = a0 * 2;
         c = c + ucast a0 * ucast a1;
         d = d + (ucast a2 * ucast a4 + ucast a3 * ucast a3);
         c = c + (d AND 0xFFFFFFFFFFFFF) * 0x1000003D10; d = drop_bit 52 d;
         r1 = ucast (c AND 0xFFFFFFFFFFFFF) :: u64; c = drop_bit 52 c;
         c = c + (ucast a0 * ucast a2 + ucast a1 * ucast a1);
         d = d + ucast a3 * ucast a4;
         c = c + (d AND 0xFFFFFFFFFFFFF) * 0x1000003D10; d = drop_bit 52 d;
         r2 = ucast (c AND 0xFFFFFFFFFFFFF) :: u64; c = drop_bit 52 c;
         c = c + (d * 0x1000003D10 + scast t3);
         r3 = ucast (c AND 0xFFFFFFFFFFFFF) :: u64; c = drop_bit 52 c;
         c = c + scast t4;
         r4 = ucast c
     in FE5 r0 r1 r2 r3 r4)"

definition fe_mul_5x52 :: "fe_5x52 \<Rightarrow> fe_5x52 \<Rightarrow> fe_5x52" where
  "fe_mul_5x52 a b = fe_mul_inner_5x52 a b"

definition fe_sqr_5x52 :: "fe_5x52 \<Rightarrow> fe_5x52" where
  "fe_sqr_5x52 a = fe_sqr_inner_5x52 a"

subsection \<open>Conditional moves and storage (field_5x52_impl.h 402--449)\<close>

definition fe_cmov_5x52 :: "fe_5x52 \<Rightarrow> fe_5x52 \<Rightarrow> u32 \<Rightarrow> fe_5x52" where
  "fe_cmov_5x52 r a flag =
    (let mask0 = scast flag + NOT 0; mask1 = NOT mask0
     in FE5 ((fn0 r AND mask0) OR (fn0 a AND mask1)) ((fn1 r AND mask0) OR (fn1 a AND mask1))
            ((fn2 r AND mask0) OR (fn2 a AND mask1)) ((fn3 r AND mask0) OR (fn3 a AND mask1))
            ((fn4 r AND mask0) OR (fn4 a AND mask1)))"

definition fe_storage_cmov_5x52 :: "fe_storage_5x52 \<Rightarrow> fe_storage_5x52 \<Rightarrow> u32 \<Rightarrow> fe_storage_5x52" where
  "fe_storage_cmov_5x52 r a flag =
    (let mask0 = scast flag + NOT 0; mask1 = NOT mask0
     in Storage4 ((st0 r AND mask0) OR (st0 a AND mask1)) ((st1 r AND mask0) OR (st1 a AND mask1))
            ((st2 r AND mask0) OR (st2 a AND mask1)) ((st3 r AND mask0) OR (st3 a AND mask1)))"

definition fe_to_storage_5x52 :: "fe_5x52 \<Rightarrow> fe_storage_5x52" where
  "fe_to_storage_5x52 a = Storage4
    (fn0 a OR push_bit 52 (fn1 a))
    (drop_bit 12 (fn1 a) OR push_bit 40 (fn2 a))
    (drop_bit 24 (fn2 a) OR push_bit 28 (fn3 a))
    (drop_bit 36 (fn3 a) OR push_bit 16 (fn4 a))"

definition fe_from_storage_5x52 :: "fe_storage_5x52 \<Rightarrow> fe_5x52" where
  "fe_from_storage_5x52 a = FE5
    (st0 a AND 0xFFFFFFFFFFFFF)
    (drop_bit 52 (st0 a) OR (push_bit 12 (st1 a) AND 0xFFFFFFFFFFFFF))
    (drop_bit 40 (st1 a) OR (push_bit 24 (st2 a) AND 0xFFFFFFFFFFFFF))
    (drop_bit 28 (st2 a) OR (push_bit 36 (st3 a) AND 0xFFFFFFFFFFFFF))
    (drop_bit 16 (st3 a))"

subsection \<open>The operations as a field interface\<close>

definition field_ops_5x52 :: "(fe_5x52, fe_storage_5x52) field_ops" where
  "field_ops_5x52 = \<lparr>
    fe_normalize = fe_normalize_5x52,
    fe_normalize_weak = fe_normalize_weak_5x52,
    fe_normalize_var = fe_normalize_var_5x52,
    fe_normalizes_to_zero = fe_normalizes_to_zero_5x52,
    fe_normalizes_to_zero_var = fe_normalizes_to_zero_var_5x52,
    fe_set_int = fe_set_int_5x52,
    fe_clear = fe_clear_5x52,
    fe_is_zero = fe_is_zero_5x52,
    fe_is_odd = fe_is_odd_5x52,
    fe_cmp_var = fe_cmp_var_5x52,
    fe_set_b32 = fe_set_b32_5x52,
    fe_get_b32 = fe_get_b32_5x52,
    fe_negate = fe_negate_5x52,
    fe_mul_int = fe_mul_int_5x52,
    fe_add = fe_add_5x52,
    fe_mul = fe_mul_5x52,
    fe_sqr = fe_sqr_5x52,
    fe_cmov = fe_cmov_5x52,
    fe_to_storage = fe_to_storage_5x52,
    fe_from_storage = fe_from_storage_5x52,
    fe_storage_cmov = fe_storage_cmov_5x52,
    fe_const = fe_const_5x52\<rparr>"

subsection \<open>Values, magnitudes and normal forms\<close>

definition fe_val :: "fe_5x52 \<Rightarrow> int" where
  "fe_val a = limbs_val 52 [fn0 a, fn1 a, fn2 a, fn3 a, fn4 a]"

definition limbs_le :: "fe_5x52 \<Rightarrow> int \<Rightarrow> int \<Rightarrow> bool" where
  "limbs_le a B C \<longleftrightarrow> uint (fn0 a) \<le> B \<and> uint (fn1 a) \<le> B \<and> uint (fn2 a) \<le> B \<and> uint (fn3 a) \<le> B \<and> uint (fn4 a) \<le> C"

abbreviation fe_in :: "fe_5x52 \<Rightarrow> bool" where
  "fe_in a \<equiv> limbs_le a 0xFFDFFFFFFFFFF002 0xFFDFFFFFFFFF002"

definition fe_normalized :: "fe_5x52 \<Rightarrow> bool" where
  "fe_normalized a \<longleftrightarrow> limbs_le a 0xFFFFFFFFFFFFF 0xFFFFFFFFFFFF \<and> fe_val a < field_p"

definition fe_mag :: "nat \<Rightarrow> fe_5x52 \<Rightarrow> bool" where
  "fe_mag m a \<longleftrightarrow> limbs_le a (2 * int m * 0xFFFFFFFFFFFFF) (2 * int m * 0xFFFFFFFFFFFF)"

definition storage_val :: "fe_storage_5x52 \<Rightarrow> int" where
  "storage_val s = limbs_val 64 [st0 s, st1 s, st2 s, st3 s]"

subsection \<open>Lemmas\<close>

lemma mul_inner_fold:
  fixes W R P :: int
  assumes W: "W = 2 ^ 52" and R: "R = 16 * R'" and P: "2 ^ 256 = P + R'"
    and p: "p0 = r0 + W * c4 - (tx + 16 * u) * R'" "p1 = r1 + W * c7 - c4 - d9 * R" "p2 = r2 + W * c10 - c7 - d11 * R"
      "p3 = (r3 + W * c12 - c10 - d12 * R) + W * d3 - c1 * R" "p4 = t4 + 2 ^ 48 * tx + W * d6 - d3 - c2 * R"
      "p5 = u + W * d8 - d6" "p6 = d9 + W * d10 - d8" "p7 = d11 + W * d12 - d10" "p8 = c1 + W * c2"
  shows "p0 + W * p1 + W ^ 2 * p2 + W ^ 3 * p3 + W ^ 4 * p4 + W ^ 5 * p5 + W ^ 6 * p6 + W ^ 7 * p7 + W ^ 8 * p8
   = r0 + W * r1 + W ^ 2 * r2 + W ^ 3 * r3 + W ^ 4 * (c12 + t4)
    + (16 * (W ^ 3 * c1 + W ^ 4 * c2 + W * d9 + W ^ 2 * d11 + W ^ 3 * d12) + (tx + 16 * u)) * P"
proof -
  have P': "P = 16 * 2 ^ 252 - R'" using P by simp
  show ?thesis unfolding p P' R W by (simp add: algebra_simps)
qed

lemma mul_inner_identity:
  fixes W R :: int
  assumes W: "W = 2 ^ 52" "R = 0x1000003D10" 
    and eqs: "d2 = p3 + p8 mod W * R" "c2 = p8 div W" "t3 = d2 mod W" "d3 = d2 div W"
    "d4 = d3 + p4" "d5 = d4 + c2 * R" "t4' = d5 mod W" "d6 = d5 div W" "tx = t4' div 2 ^ 48" "t4 = t4' mod 2 ^ 48"
    "d7 = d6 + p5" "u = d7 mod W" "d8 = d7 div W" "u0 = tx + 2 ^ 4 * u" 
    "c3 = p0 + u0 * 0x1000003D1" "r0 = c3 mod W" "c4 = c3 div W" "c5 = c4 + p1" "d9 = d8 + p6"
    "c6 = c5 + d9 mod W * R" "d10 = d9 div W" "r1 = c6 mod W" "c7 = c6 div W" "c8 = c7 + p2"
    "d11 = d10 + p7" "c9 = c8 + d11 mod W * R" "d12 = d11 div W" "r2 = c9 mod W" "c10 = c9 div W"
    "c11 = c10 + (d12 * R + t3)" "r3 = c11 mod W" "c12 = c11 div W" "c13 = c12 + t4" "r4 = c13"
  shows "(r0 + W * r1 + W ^ 2 * r2 + W ^ 3 * r3 + W ^ 4 * r4) mod field_p = 
    (p0 + W * p1 + W ^ 2 * p2 + W ^ 3 * p3 + W ^ 4 * p4 + W ^ 5 * p5 + W ^ 6 * p6 + W ^ 7 * p7 + W ^ 8 * p8) mod field_p"
proof -
  have s: "m + W * q = x" if "m = x mod W" "q = x div W" for x m q using that by simp
  have t: "t4 + 2 ^ 48 * tx = t4'" using eqs(9,10) by simp
  have p0: "p0 = r0 + W * c4 - (tx + 16 * u) * 0x1000003D1"
    using s [OF eqs(16,17)] eqs(14,15) by simp
  have p1: "p1 = r1 + W * c7 - c4 - d9 mod W * R"
    using s [OF eqs(22,23)] eqs(18,20) by simp
  have p2: "p2 = r2 + W * c10 - c7 - d11 mod W * R"
    using s [OF eqs(28,29)] eqs(24,26) by simp
  have p3: "p3 = (r3 + W * c12 - c10 - d12 * R) + W * d3 - p8 mod W * R"
    using s [OF eqs(31,32)] s [OF eqs(3,4)] eqs(1,30) by linarith
  have p4: "p4 = t4 + 2 ^ 48 * tx + W * d6 - d3 - c2 * R"
    unfolding t using s [OF eqs(7,8)] eqs(5,6) by linarith
  have p5: "p5 = u + W * d8 - d6" using s [OF eqs(12,13)] eqs(11) by linarith
  have p6: "p6 = d9 mod W + W * d10 - d8" using s [OF refl eqs(21)] eqs(19) by linarith
  have p7: "p7 = d11 mod W + W * d12 - d10" using s [OF refl eqs(27)] eqs(25) by linarith
  have p8: "p8 = p8 mod W + W * c2" using s [OF refl eqs(2)] by simp
  have R: "R = 16 * 0x1000003D1" "2 ^ 256 = field_p + 0x1000003D1" by (simp_all add: W field_p_def)
  show ?thesis
    unfolding mul_inner_fold [OF W(1) R p0 p1 p2 p3 p4 p5 p6 p7 p8] eqs(33,34) by (simp only: mod_mult_self1)
qed

lemma fe_val_FE5:
  "fe_val (FE5 a b c d e) = uint a + 2 ^ 52 * uint b + (2 ^ 52) ^ 2 * uint c + (2 ^ 52) ^ 3 * uint d + (2 ^ 52) ^ 4 * uint e"
  by (simp add: fe_val_def limbs_val_Cons)

lemma fe_prod_columns:
  fixes W :: int
  assumes "A = a0 + W * a1 + W ^ 2 * a2 + W ^ 3 * a3 + W ^ 4 * a4" "B = b0 + W * b1 + W ^ 2 * b2 + W ^ 3 * b3 + W ^ 4 * b4"
  shows "(a0 * b0) + W * (a0 * b1 + a1 * b0) + W ^ 2 * (a0 * b2 + a1 * b1 + a2 * b0) + W ^ 3 * (a0 * b3 + a1 * b2 + a2 * b1 + a3 * b0)
    + W ^ 4 * (a0 * b4 + a1 * b3 + a2 * b2 + a3 * b1 + a4 * b0) + W ^ 5 * (a1 * b4 + a2 * b3 + a3 * b2 + a4 * b1)
    + W ^ 6 * (a2 * b4 + a3 * b3 + a4 * b2) + W ^ 7 * (a3 * b4 + a4 * b3) + W ^ 8 * (a4 * b4) = A * B"
  unfolding assms by algebra

lemma fe_val_fields:
  "fe_val a = uint (fn0 a) + 2 ^ 52 * uint (fn1 a) + (2 ^ 52) ^ 2 * uint (fn2 a) + (2 ^ 52) ^ 3 * uint (fn3 a) + (2 ^ 52) ^ 4 * uint (fn4 a)"
  by (simp add: fe_val_def limbs_val_Cons)

lemma drop_bit_consts: "drop_bit 4 (0xFFFFFFFFFFFFF :: u64) = 0xFFFFFFFFFFFF" "drop_bit 4 (0x1000003D10 :: u64) = 0x1000003D1"
  by simp_all

lemma fe_mul_inner_steps:
  assumes "limbs_le a 0xFFFFFFFFFFFFFF 0xFFFFFFFFFFFFF" "limbs_le b 0xFFFFFFFFFFFFFF 0xFFFFFFFFFFFFF"
  shows "fe_val (fe_mul_inner_5x52 a b) mod field_p = fe_val a * fe_val b mod field_p \<and>
    limbs_le (fe_mul_inner_5x52 a b) 0xFFFFFFFFFFFFF 0x1FFFFFFFFFFFE" (is "?P (fe_mul_inner_5x52 a b)")
proof -
  have l: "uint (fn0 a) \<le> 0xFFFFFFFFFFFFFF" "uint (fn1 a) \<le> 0xFFFFFFFFFFFFFF" "uint (fn2 a) \<le> 0xFFFFFFFFFFFFFF"
    "uint (fn3 a) \<le> 0xFFFFFFFFFFFFFF" "uint (fn4 a) \<le> 0xFFFFFFFFFFFFF"
    "uint (fn0 b) \<le> 0xFFFFFFFFFFFFFF" "uint (fn1 b) \<le> 0xFFFFFFFFFFFFFF" "uint (fn2 b) \<le> 0xFFFFFFFFFFFFFF"
    "uint (fn3 b) \<le> 0xFFFFFFFFFFFFFF" "uint (fn4 b) \<le> 0xFFFFFFFFFFFFF"
    using assms by (simp_all add: limbs_le_def)
  show ?thesis
    unfolding fe_mul_inner_5x52_def drop_bit_consts
    apply (rule let_step [where P = ?P], ((rule denotes_rules | (rule denotes_self, rule l) | (rule denotes_self, assumption) | (simp (no_asm); fail))+)[2])+
    apply (rule conjI)
     apply (unfold fe_val_FE5)
     apply (rule mul_inner_identity [OF refl refl, THEN trans], assumption+)
    subgoal premises prems
      unfolding prems fe_prod_columns [OF fe_val_fields fe_val_fields] ..
    apply (unfold limbs_le_def fe_5x52.select_convs)
    apply (intro conjI, assumption+, rule order_trans, assumption, simp (no_asm))
    done
qed

lemma fe_sqr_columns:
  fixes W :: int
  assumes "A = a0 + W * a1 + W ^ 2 * a2 + W ^ 3 * a3 + W ^ 4 * a4"
  shows "(a0 * a0) + W * (a0 * 2 * a1) + W ^ 2 * (a0 * 2 * a2 + a1 * a1) + W ^ 3 * (a0 * 2 * a3 + a1 * 2 * a2)
    + W ^ 4 * (a0 * (a4 * 2) + a1 * 2 * a3 + a2 * a2) + W ^ 5 * (a1 * (a4 * 2) + a2 * 2 * a3)
    + W ^ 6 * (a2 * (a4 * 2) + a3 * a3) + W ^ 7 * (a3 * (a4 * 2)) + W ^ 8 * (a4 * a4) = A * A"
  unfolding assms by algebra

lemma fe_sqr_inner_steps:
  assumes "limbs_le a 0xFFFFFFFFFFFFFF 0xFFFFFFFFFFFFF"
  shows "fe_val (fe_sqr_inner_5x52 a) mod field_p = fe_val a * fe_val a mod field_p \<and>
    limbs_le (fe_sqr_inner_5x52 a) 0xFFFFFFFFFFFFF 0x1FFFFFFFFFFFE" (is "?P (fe_sqr_inner_5x52 a)")
proof -
  have l: "uint (fn0 a) \<le> 0xFFFFFFFFFFFFFF" "uint (fn1 a) \<le> 0xFFFFFFFFFFFFFF" "uint (fn2 a) \<le> 0xFFFFFFFFFFFFFF"
    "uint (fn3 a) \<le> 0xFFFFFFFFFFFFFF" "uint (fn4 a) \<le> 0xFFFFFFFFFFFFF"
    using assms by (simp_all add: limbs_le_def)
  show ?thesis
    unfolding fe_sqr_inner_5x52_def drop_bit_consts
    apply (rule let_step [where P = ?P], ((rule denotes_rules | (rule denotes_self, rule l) | (rule denotes_self, assumption) | (simp (no_asm); fail))+)[2])+
    apply (rule conjI)
     apply (unfold fe_val_FE5)
     apply (rule mul_inner_identity [OF refl refl, THEN trans], assumption+)
    subgoal premises prems
      unfolding prems fe_sqr_columns [OF fe_val_fields] ..
    apply (unfold limbs_le_def fe_5x52.select_convs)
    apply (intro conjI, assumption+, rule order_trans, assumption, simp (no_asm))
    done
qed

lemma pass_identity:
  fixes W :: int
  assumes "s0 = a0 + x" "s1 = a1 + s0 div W" "r0 = s0 mod W" "s2 = a2 + s1 div W" "r1 = s1 mod W"
    "s3 = a3 + s2 div W" "r2 = s2 mod W" "r4 = a4 + s3 div W" "r3 = s3 mod W"
  shows "r0 + W * r1 + W ^ 2 * r2 + W ^ 3 * r3 + W ^ 4 * r4 = a0 + W * a1 + W ^ 2 * a2 + W ^ 3 * a3 + W ^ 4 * a4 + x"
proof -
  have s: "m + W * (y div W) = y" if "m = y mod W" for y m using that by simp
  show ?thesis
    using assms(1,2,4,6,8) s [OF assms(3)] s [OF assms(5)] s [OF assms(7)] s [OF assms(9)] by algebra
qed

lemma fe_pass_val:
  assumes "limbs_le t 0xFFDFFFFFFFFFF002 0xFFFFFFFFFFFFFF" "uint x \<le> 0xFFFF"
  shows "fe_val (fe_pass_5x52 x t) = fe_val t + uint x * 0x1000003D1 \<and> 
    limbs_le (fe_pass_5x52 x t) 0xFFFFFFFFFFFFF (uint (fn4 t) + 4096)"
  (is "?P (fe_pass_5x52 x t)")
proof -
  have l: "uint (fn0 t) \<le> 0xFFDFFFFFFFFFF002" "uint (fn1 t) \<le> 0xFFDFFFFFFFFFF002" "uint (fn2 t) \<le> 0xFFDFFFFFFFFFF002"
    "uint (fn3 t) \<le> 0xFFDFFFFFFFFFF002" "uint (fn4 t) \<le> 0xFFFFFFFFFFFFFF" "uint x \<le> 0xFFFF"
    using assms by (simp_all add: limbs_le_def)
  show ?thesis
    unfolding fe_pass_5x52_def
    apply (rule let_step [where P = ?P], ((rule denotes_rules | (rule denotes_self, rule l) | (rule denotes_self, assumption) | (simp (no_asm); fail))+)[2])+
    apply (rule conjI)
     apply (unfold fe_val_FE5 fe_val_fields [of t])
     apply (rule pass_identity, assumption+)
    apply (unfold limbs_le_def fe_5x52.select_convs)
    apply (intro conjI, assumption+)
    subgoal premises prems
      unfolding prems(15) using zdiv_mono1 [OF prems(12), of "2 ^ 52"] by simp
    done
qed

lemma fe_val_horner:
  "fe_val a = uint (fn0 a) + 2 ^ 52 * (uint (fn1 a) + 2 ^ 52 * (uint (fn2 a) + 2 ^ 52 * (uint (fn3 a) + 2 ^ 52 * uint (fn4 a))))"
  by (simp add: fe_val_def limbs_val_Cons)

lemma fe_val_inject:
  assumes "limbs_le a 0xFFFFFFFFFFFFF A" "limbs_le b 0xFFFFFFFFFFFFF B"
  shows "fe_val a = fe_val b \<longleftrightarrow> a = b"
proof -
  have "uint (fn0 a) < 2 ^ 52" "uint (fn1 a) < 2 ^ 52" "uint (fn2 a) < 2 ^ 52" "uint (fn3 a) < 2 ^ 52"
    "uint (fn0 b) < 2 ^ 52" "uint (fn1 b) < 2 ^ 52" "uint (fn2 b) < 2 ^ 52" "uint (fn3 b) < 2 ^ 52"
    using assms by (auto simp: limbs_le_def)
  then show ?thesis
    unfolding fe_val_horner by (simp only: limb_eq_iff uint_ge_0) (auto simp: word_uint_eq_iff intro: fe_5x52.equality)
qed

lemma fe_val_bound:
  assumes "limbs_le a 0xFFFFFFFFFFFFF C"
  shows "0 \<le> fe_val a" "fe_val a < 2 ^ 208 * (C + 1)"
  using assms by (auto simp: fe_val_horner limbs_le_def)

lemma fe_val_top:
  "uint (fn4 r) = uint w + 2 ^ 48 * q \<Longrightarrow> fe_val (r\<lparr>fn4 := w\<rparr>) + 2 ^ 256 * q = fe_val r"
  by (simp add: fe_val_horner)

lemma normalize_weak_val:
  assumes "fe_in r"
  shows "fe_val (fe_normalize_weak_5x52 r) mod field_p = fe_val r mod field_p"
    and "limbs_le (fe_normalize_weak_5x52 r) 0xFFFFFFFFFFFFF 0x1000000000FFF"
proof -
  let ?x = "drop_bit 48 (fn4 r)" let ?t = "r\<lparr>fn4 := fn4 r AND 0xFFFFFFFFFFFF\<rparr>"
  have x: "denotes ?x (uint (fn4 r) div 2 ^ 48) 0xFFFF"
    by (rule denotes_weaken, rule denotes_drop_bit, rule denotes_self [of _ "0xFFDFFFFFFFFF002"])
       (use assms in \<open>simp_all add: limbs_le_def\<close>)
  have t4: "denotes (fn4 r AND 0xFFFFFFFFFFFF) (uint (fn4 r) mod 2 ^ 48) 0xFFFFFFFFFFFF"
    by (rule denotes_and48, rule denotes_self, rule order_refl) simp
  have p: "fe_val (fe_pass_5x52 ?x ?t) = fe_val ?t + uint ?x * 0x1000003D1"
     "limbs_le (fe_pass_5x52 ?x ?t) 0xFFFFFFFFFFFFF (uint (fn4 ?t) + 4096)"
    using fe_pass_val [of ?t ?x] x t4 assms by (simp_all add: limbs_le_def denotes_def)
  have "fe_val r = fe_val ?t + 2 ^ 256 * uint ?x"
    by (rule fe_val_top [symmetric]) (simp only: denotes_uint [OF t4] denotes_uint [OF x] mod_mult_div_eq)
  then have "fe_val r = fe_val (fe_pass_5x52 ?x ?t) + uint ?x * field_p"
    by (simp add: p(1) field_p_def)
  then show "fe_val (fe_normalize_weak_5x52 r) mod field_p = fe_val r mod field_p"
    by (simp add: fe_normalize_weak_5x52_def)
  show "limbs_le (fe_normalize_weak_5x52 r) 0xFFFFFFFFFFFFF 0x1000000000FFF"
    using p(2) t4 by (auto simp: limbs_le_def denotes_def fe_normalize_weak_5x52_def)
qed

lemma reduce_flag:
  assumes "limbs_le t 0xFFFFFFFFFFFFF 0x1000000000FFF"
  shows "drop_bit 48 (fn4 t) OR (of_bool (fn4 t = 0x0FFFFFFFFFFFF) AND of_bool (fn1 t AND fn2 t AND fn3 t = 0xFFFFFFFFFFFFF)
      AND of_bool (fn0 t \<ge> 0xFFFFEFFFFFC2F)) = (of_bool (field_p \<le> fe_val t) :: u64)"
proof (cases "uint (fn4 t) < 2 ^ 48")
  case True
  have l: "uint (fn0 t) < 2 ^ 52" "uint (fn1 t) < 2 ^ 52" "uint (fn2 t) < 2 ^ 52" "uint (fn3 t) < 2 ^ 52"
    using assms by (simp_all add: limbs_le_def)
  have m: "fn1 t \<le> 0xFFFFFFFFFFFFF" "fn2 t AND fn3 t \<le> 0xFFFFFFFFFFFFF" "fn2 t \<le> 0xFFFFFFFFFFFFF" "fn3 t \<le> 0xFFFFFFFFFFFFF"
    using l by (auto simp: word_le_def intro: order_trans [OF word_and_le1 [unfolded word_le_def]])
  have d: "drop_bit 48 (fn4 t) = 0" using True by (simp add: word_uint_eq_iff uint_drop_bit)
  have "field_p \<le> fe_val t \<longleftrightarrow> uint (fn4 t) = 0xFFFFFFFFFFFF \<and> uint (fn3 t) = 0xFFFFFFFFFFFFF \<and>
      uint (fn2 t) = 0xFFFFFFFFFFFFF \<and> uint (fn1 t) = 0xFFFFFFFFFFFFF \<and> 0xFFFFEFFFFFC2F \<le> uint (fn0 t)"
    (is "_ \<longleftrightarrow> ?R")
  proof
    assume A: "field_p \<le> fe_val t"
    have x4: "uint (fn4 t) = 0xFFFFFFFFFFFF"
      using A l True by (simp add: fe_val_horner field_p_def)
    then have x3: "uint (fn3 t) = 0xFFFFFFFFFFFFF"
      using A l by (simp add: fe_val_horner field_p_def)
    then have x2: "uint (fn2 t) = 0xFFFFFFFFFFFFF"
      using A l x4 by (simp add: fe_val_horner field_p_def)
    then have "uint (fn1 t) = 0xFFFFFFFFFFFFF"
      using A l x4 x3 by (simp add: fe_val_horner field_p_def)
    then show ?R
      using A l x4 x3 x2 by (simp add: fe_val_horner field_p_def)
  qed (simp add: fe_val_horner field_p_def)
  also have "\<dots> \<longleftrightarrow> fn4 t = 0x0FFFFFFFFFFFF \<and> fn1 t AND fn2 t AND fn3 t = 0xFFFFFFFFFFFFF \<and> fn0 t \<ge> 0xFFFFEFFFFFC2F"
    unfolding and_max_iff [OF m(1,2)] and_max_iff [OF m(3,4)] by (auto simp: word_uint_eq_iff word_le_def)
  finally show ?thesis by (simp add: d)
next
  case False
  have "uint (fn4 t) div 2 ^ 48 = 1"
    using False assms by (intro div_mod_unique_int(2) [of "uint (fn4 t) - 2 ^ 48" _ 1]) (auto simp: limbs_le_def)
  then have "drop_bit 48 (fn4 t) = 1" by (simp add: word_uint_eq_iff uint_drop_bit)
  moreover have "fn4 t \<noteq> 0xFFFFFFFFFFFF" using False by auto
  moreover have "field_p \<le> fe_val t"
    using False uint_gt [of "fn0 t"] uint_gt [of "fn1 t"] uint_gt [of "fn2 t"] uint_gt [of "fn3 t"]
    by (simp add: fe_val_horner field_p_def)
  ultimately show ?thesis by simp
qed

lemma mask_top:
  assumes "limbs_le t 0xFFFFFFFFFFFFF C"
  shows "fe_val (t\<lparr>fn4 := fn4 t AND 0xFFFFFFFFFFFF\<rparr>) = fe_val t mod 2 ^ 256"
    "limbs_le (t\<lparr>fn4 := fn4 t AND 0xFFFFFFFFFFFF\<rparr>) 0xFFFFFFFFFFFFF 0xFFFFFFFFFFFF"
proof -
  let ?r = "t\<lparr>fn4 := fn4 t AND 0xFFFFFFFFFFFF\<rparr>"
  have t4: "denotes (fn4 t AND 0xFFFFFFFFFFFF) (uint (fn4 t) mod 2 ^ 48) 0xFFFFFFFFFFFF"
    by (rule denotes_and48, rule denotes_self, rule order_refl) simp
  then show l: "limbs_le ?r 0xFFFFFFFFFFFFF 0xFFFFFFFFFFFF"
    using assms by (simp add: limbs_le_def denotes_def)
  have "fe_val ?r + 2 ^ 256 * (uint (fn4 t) div 2 ^ 48) = fe_val t"
    by (rule fe_val_top) (simp only: denotes_uint [OF t4] mod_mult_div_eq)
  from div_mod_unique_int(1) [OF this] fe_val_bound [OF l]
  show "fe_val ?r = fe_val t mod 2 ^ 256" by simp
qed

lemma normalize_val:
  assumes "fe_in r"
  shows "fe_val (fe_normalize_5x52 r) = fe_val r mod field_p" "fe_normalized (fe_normalize_5x52 r)"
proof -
  let ?t = "fe_normalize_weak_5x52 r"
  let ?x = "of_bool (field_p \<le> fe_val ?t) :: u64"
  note w = normalize_weak_val [OF assms]
  have n: "fe_normalize_5x52 r = (fe_pass_5x52 ?x ?t)\<lparr>fn4 := fn4 (fe_pass_5x52 ?x ?t) AND 0xFFFFFFFFFFFF\<rparr>"
    unfolding reduce_flag [OF w(2), symmetric] by (simp add: fe_normalize_5x52_def fe_normalize_weak_5x52_def Let_def)
  have p: "fe_val (fe_pass_5x52 ?x ?t) = fe_val ?t + uint ?x * 0x1000003D1"
      "limbs_le (fe_pass_5x52 ?x ?t) 0xFFFFFFFFFFFFF (uint (fn4 ?t) + 4096)"
    using fe_pass_val [of ?t ?x] w(2) by (simp_all add: limbs_le_def)
  have b: "0 \<le> fe_val ?t" "fe_val ?t < 2 * field_p"
    using fe_val_bound [OF w(2)] by (simp_all add: field_p_def)
  have "fe_val (fe_normalize_5x52 r) = (fe_val ?t + of_bool (field_p \<le> fe_val ?t) * (2 ^ 256 - field_p)) mod 2 ^ 256"
    unfolding n mask_top(1) [OF p(2)] p(1) by (simp add: field_p_def)
  also have "\<dots> = fe_val ?t mod field_p"
    using b by (intro mod_cond_sub) (simp_all add: field_p_def)
  finally show v: "fe_val (fe_normalize_5x52 r) = fe_val r mod field_p" using w(1) by simp
  show "fe_normalized (fe_normalize_5x52 r)"
    using mask_top(2) [OF p(2)] unfolding fe_normalized_def v by (simp add: n field_p_def)
qed

lemma normalize_var_eq:
  assumes "fe_in r"
  shows "fe_normalize_var_5x52 r = fe_normalize_5x52 r"
proof -
  let ?t = "fe_normalize_weak_5x52 r"
  note w = normalize_weak_val [OF assms]
  have f: "drop_bit 48 (fn4 ?t) OR (of_bool (fn4 ?t = 0x0FFFFFFFFFFFF) AND of_bool (fn1 ?t AND fn2 ?t AND fn3 ?t = 0xFFFFFFFFFFFFF)
      AND of_bool (fn0 ?t \<ge> 0xFFFFEFFFFFC2F)) = (of_bool (field_p \<le> fe_val ?t) :: u64)" by (rule reduce_flag [OF w(2)])
  have v: "fe_normalize_var_5x52 r = (if field_p \<le> fe_val ?t then (fe_pass_5x52 1 ?t)\<lparr>fn4 := fn4 (fe_pass_5x52 1 ?t) AND 0xFFFFFFFFFFFF\<rparr> else ?t)"
    unfolding fe_normalize_var_5x52_def Let_def fe_normalize_weak_5x52_def [unfolded Let_def, symmetric] f by simp
  have n: "fe_normalize_5x52 r = (let t = fe_pass_5x52 (of_bool (field_p \<le> fe_val ?t)) ?t in t\<lparr>fn4 := fn4 t AND 0xFFFFFFFFFFFF\<rparr>)"
    unfolding fe_normalize_5x52_def Let_def fe_normalize_weak_5x52_def [unfolded Let_def, symmetric] f by simp
  show ?thesis
  proof (cases "field_p \<le> fe_val ?t")
    case False
    have b: "0 \<le> fe_val ?t" using fe_val_bound [OF w(2)] by simp
    have l: "limbs_le ?t 0xFFFFFFFFFFFFF 0x1000000000FFF" by (rule w(2))
    have "fe_val (fe_normalize_5x52 r) = fe_val ?t"
      using normalize_val(1) [OF assms] w(1) b False by simp
    then have "fe_normalize_5x52 r = ?t"
      using fe_val_inject [of "fe_normalize_5x52 r" _ ?t] normalize_val(2) [OF assms] l unfolding fe_normalized_def by blast
    then show ?thesis using v False by simp
  qed (simp add: v n Let_def)
qed

lemma le_mask52_iff: "a \<le> 0xFFFFFFFFFFFFF \<longleftrightarrow> a AND 0xFFFFFFFFFFFFF = a" for a :: u64
proof -
  have "a AND 0xFFFFFFFFFFFFF = take_bit 52 a" by (simp add: take_bit_eq_mask mask_numeral)
  moreover have "a \<le> 0xFFFFFFFFFFFFF \<longleftrightarrow> uint a < 2 ^ 52" by (auto simp: word_le_def)
  moreover have "take_bit 52 a = a \<longleftrightarrow> uint a < 2 ^ 52"
    by (simp add: word_uint_eq_iff unsigned_take_bit_eq take_bit_int_eq_self_iff)
  ultimately show ?thesis by simp
qed

lemma xor_and_mask52: "(a XOR c) AND 0xFFFFFFFFFFFFF = (a AND 0xFFFFFFFFFFFFF) XOR (c AND 0xFFFFFFFFFFFFF)" for a c :: u64
  by (rule bit_word_eqI) (auto simp: bit_simps)

lemma normalizes_to_zero_eq:
  assumes "fe_in r"
  shows "fe_normalizes_to_zero_5x52 r \<longleftrightarrow>
    fe_normalize_weak_5x52 r = FE5 0 0 0 0 0 \<or>
    fe_normalize_weak_5x52 r = FE5 0xFFFFEFFFFFC2F 0xFFFFFFFFFFFFF 0xFFFFFFFFFFFFF 0xFFFFFFFFFFFFF 0xFFFFFFFFFFFF"
proof -
  let ?t = "fe_normalize_weak_5x52 r"
  note w = normalize_weak_val(2) [OF assms]
  have z: "fe_normalizes_to_zero_5x52 r \<longleftrightarrow>
      (((fn0 ?t OR fn1 ?t) OR fn2 ?t) OR fn3 ?t) OR fn4 ?t = 0 \<or>
      ((((fn0 ?t XOR 0x1000003D0) AND fn1 ?t) AND fn2 ?t) AND fn3 ?t) AND (fn4 ?t XOR 0xF000000000000) = 0xFFFFFFFFFFFFF"
    unfolding fe_normalizes_to_zero_5x52_def fe_normalize_weak_5x52_def fe_pass_5x52_def Let_def by simp
  have l: "fn0 ?t \<le> 0xFFFFFFFFFFFFF" "fn1 ?t \<le> 0xFFFFFFFFFFFFF" "fn2 ?t \<le> 0xFFFFFFFFFFFFF" "fn3 ?t \<le> 0xFFFFFFFFFFFFF"
    "fn4 ?t \<le> 0xFFFFFFFFFFFFF"
    using w by (simp_all add: limbs_le_def word_le_def)
  have x: "a XOR 0x1000003D0 \<le> 0xFFFFFFFFFFFFF" "a XOR 0xF000000000000 \<le> 0xFFFFFFFFFFFFF"
    if "a \<le> 0xFFFFFFFFFFFFF" for a :: u64
    using that by (simp_all add: le_mask52_iff xor_and_mask52)
  have a: "a AND b \<le> 0xFFFFFFFFFFFFF" if "a \<le> 0xFFFFFFFFFFFFF" for a b :: u64
    using that word_and_le2 [of a b] by (rule order_trans [rotated])
  have y: "a XOR c = m \<longleftrightarrow> a = m XOR c" for a c m :: u64
  proof -
    have "(a XOR c) XOR c = a" "(m XOR c) XOR c = m" by (simp_all only: xor.assoc xor_self_eq xor.right_neutral)
    then show ?thesis by metis
  qed
  show ?thesis
    unfolding z by (simp add: and_max_iff l x a y or_eq_0_iff)
       (auto intro: fe_5x52.equality)
qed

lemma normalizes_to_zero_iff:
  assumes "fe_in r"
  shows "fe_normalizes_to_zero_5x52 r \<longleftrightarrow> fe_val r mod field_p = 0"
proof -
  let ?t = "fe_normalize_weak_5x52 r"
  let ?P = "FE5 0xFFFFEFFFFFC2F 0xFFFFFFFFFFFFF 0xFFFFFFFFFFFFF 0xFFFFFFFFFFFFF 0xFFFFFFFFFFFF"
  note w = normalize_weak_val [OF assms]
  have b: "0 \<le> fe_val ?t" "fe_val ?t < 2 * field_p"
    using fe_val_bound [OF w(2)] by (simp_all add: field_p_def)
  have "limbs_le (FE5 0 0 0 0 0) 0xFFFFFFFFFFFFF 0" "limbs_le ?P 0xFFFFFFFFFFFFF 0xFFFFFFFFFFFF"
    "fe_val (FE5 0 0 0 0 0) = 0" "fe_val ?P = field_p"
    by (simp_all add: limbs_le_def fe_val_FE5 field_p_def)
  then have "fe_normalizes_to_zero_5x52 r \<longleftrightarrow> fe_val ?t = 0 \<or> fe_val ?t = field_p"
    using normalizes_to_zero_eq [OF assms] fe_val_inject [OF w(2)] by metis
  also have "\<dots> \<longleftrightarrow> fe_val ?t mod field_p = 0"
  proof (cases "fe_val ?t < field_p")
    case False
    then have "fe_val ?t mod field_p = fe_val ?t - field_p"
      using b by (intro div_mod_unique_int(1) [of _ _ 1]) simp_all
    then show ?thesis using False b by (simp add: field_p_def)
  qed (use b in simp)
  finally show ?thesis using w(1) by simp
qed

lemma normalizes_to_zero_var_eq: "fe_normalizes_to_zero_var_5x52 r = fe_normalizes_to_zero_5x52 r"
proof (cases "(fn0 r + drop_bit 48 (fn4 r) * 0x1000003D1) AND 0xFFFFFFFFFFFFF \<noteq> 0 \<and>
    ((fn0 r + drop_bit 48 (fn4 r) * 0x1000003D1) AND 0xFFFFFFFFFFFFF) XOR 0x1000003D0 \<noteq> 0xFFFFFFFFFFFFF")
  case True
  define z where "z = (fn0 r + drop_bit 48 (fn4 r) * 0x1000003D1) AND 0xFFFFFFFFFFFFF"
  have "z \<le> 0xFFFFFFFFFFFFF" by (simp add: z_def word_and_le1)
  then have "z XOR 0x1000003D0 \<le> 0xFFFFFFFFFFFFF" by (simp add: le_mask52_iff xor_and_mask52)
  then have no: "(((z XOR 0x1000003D0) AND a) AND b) AND c AND d \<noteq> 0xFFFFFFFFFFFFF" for a b c d
    using True unfolding z_def [symmetric] and.assoc
    by (metis order.antisym word_and_le2)
  have "\<not> fe_normalizes_to_zero_5x52 r"
    using True no unfolding fe_normalizes_to_zero_5x52_def Let_def z_def [symmetric] by (simp add: or_eq_0_iff and.assoc)
  moreover have "\<not> fe_normalizes_to_zero_var_5x52 r"
    unfolding fe_normalizes_to_zero_var_5x52_def Let_def using True by simp
  ultimately show ?thesis by simp
next
  case False
  then show ?thesis
    unfolding fe_normalizes_to_zero_5x52_def fe_normalizes_to_zero_var_5x52_def Let_def by (simp only: if_False)
qed

lemma fe_verify_mag:
  assumes "m \<le> 2048"
  shows "fe_verify_5x52 a (int m) False \<longleftrightarrow> fe_mag m a"
proof -
  define k where "k = 2 * int m"
  have k: "0 \<le> k" "k \<le> 4096" using assms by (simp_all add: k_def)
  then have u: "uint (word_of_int k :: u64) = k" by (simp add: unsigned_of_int take_bit_int_eq_self_iff)
  have "uint (0xFFFFFFFFFFFFF * word_of_int k :: u64) = 0xFFFFFFFFFFFFF * k"
    "uint (0x0FFFFFFFFFFFF * word_of_int k :: u64) = 0x0FFFFFFFFFFFF * k"
    using k by (simp_all add: uint_word_ariths u mod_pos_pos_trivial)
  then show ?thesis
    using assms unfolding fe_verify_5x52_def fe_mag_def k_def [symmetric] Let_def limbs_le_def word_le_def
    by (simp add: ac_simps)
qed

lemma fe_verify_normalized: "fe_verify_5x52 a 1 True \<longleftrightarrow> fe_normalized a"
proof (cases "limbs_le a 0xFFFFFFFFFFFFF 0xFFFFFFFFFFFF")
  case True
  have "limbs_le a 0xFFFFFFFFFFFFF 0x1000000000FFF" "drop_bit 48 (fn4 a) = 0"
    using True by (auto simp: limbs_le_def word_uint_eq_iff uint_drop_bit)
  from reduce_flag [OF this(1)] this(2)
  have "(fn4 a = 0x0FFFFFFFFFFFF \<and> fn1 a AND fn2 a AND fn3 a = 0xFFFFFFFFFFFFF \<and> 0xFFFFEFFFFFC2F \<le> fn0 a) \<longleftrightarrow> field_p \<le> fe_val a"
    by (auto split: if_splits simp: of_bool_def)
  moreover have "fn1 a AND fn2 a AND fn3 a = fn3 a AND fn2 a AND fn1 a" by (simp only: ac_simps)
  moreover have "fn0 a \<le> 0xFFFFFFFFFFFFF" "fn1 a \<le> 0xFFFFFFFFFFFFF" "fn2 a \<le> 0xFFFFFFFFFFFFF" "fn3 a \<le> 0xFFFFFFFFFFFFF" "fn4 a \<le> 0xFFFFFFFFFFFF"
    using True by (simp_all add: limbs_le_def word_le_def)
  ultimately show ?thesis
    using True by (simp add: fe_verify_5x52_def fe_normalized_def not_le [symmetric]) blast
qed (auto simp: fe_verify_5x52_def fe_normalized_def limbs_le_def word_le_def)

lemma fe_mag_mono: "fe_mag m a \<Longrightarrow> m \<le> m' \<Longrightarrow> fe_mag m' a"
  by (auto simp: fe_mag_def limbs_le_def intro: order_trans)

lemma fe_mag_in: "fe_mag m a \<Longrightarrow> m \<le> 2047 \<Longrightarrow> fe_in a"
  using fe_mag_mono [of m a 2047] by (simp add: fe_mag_def limbs_le_def)

lemma fe_normalized_mag: "fe_normalized a \<Longrightarrow> fe_mag 1 a"
  by (auto simp: fe_normalized_def fe_mag_def limbs_le_def)

lemma fe_mul_correct:
  assumes "fe_mag 8 a" "fe_mag 8 b"
  shows "fe_val (fe_mul_5x52 a b) mod field_p = fe_val a * fe_val b mod field_p" "fe_mag 1 (fe_mul_5x52 a b)"
  using fe_mul_inner_steps [of a b] assms by (auto simp: fe_mul_5x52_def fe_mag_def limbs_le_def)

lemma fe_sqr_correct:
  assumes "fe_mag 8 a"
  shows "fe_val (fe_sqr_5x52 a) mod field_p = fe_val a * fe_val a mod field_p" "fe_mag 1 (fe_sqr_5x52 a)"
  using fe_sqr_inner_steps [of a] assms by (auto simp: fe_sqr_5x52_def fe_mag_def limbs_le_def)

lemma fe_add_correct:
  assumes "fe_mag m a" "fe_mag k b" "m + k \<le> 2048"
  shows "fe_val (fe_add_5x52 a b) = fe_val a + fe_val b" "fe_mag (m + k) (fe_add_5x52 a b)"
proof -
  have m: "int m + int k \<le> 2048" using assms(3) by simp
  have s: "uint (x + y) = uint x + uint y"
    if "uint x \<le> 2 * int m * 0xFFFFFFFFFFFFF" "uint y \<le> 2 * int k * 0xFFFFFFFFFFFFF" for x y :: u64
    using that m uint_gt [of x] uint_gt [of y] by (simp add: uint_word_ariths mod_pos_pos_trivial)
  have l: "uint (fn0 a) \<le> 2 * int m * 0xFFFFFFFFFFFFF" "uint (fn1 a) \<le> 2 * int m * 0xFFFFFFFFFFFFF" "uint (fn2 a) \<le> 2 * int m * 0xFFFFFFFFFFFFF"
    "uint (fn3 a) \<le> 2 * int m * 0xFFFFFFFFFFFFF" "uint (fn4 a) \<le> 2 * int m * 0xFFFFFFFFFFFF" "uint (fn4 a) \<le> 2 * int m * 0xFFFFFFFFFFFFF" 
    "uint (fn0 b) \<le> 2 * int k * 0xFFFFFFFFFFFFF" "uint (fn1 b) \<le> 2 * int k * 0xFFFFFFFFFFFFF" "uint (fn2 b) \<le> 2 * int k * 0xFFFFFFFFFFFFF"
    "uint (fn3 b) \<le> 2 * int k * 0xFFFFFFFFFFFFF" "uint (fn4 b) \<le> 2 * int k * 0xFFFFFFFFFFFF" "uint (fn4 b) \<le> 2 * int k * 0xFFFFFFFFFFFFF" 
    using assms(1,2) by (auto simp: fe_mag_def limbs_le_def)
  note e = s [OF l(1,7)] s [OF l(2,8)] s [OF l(3,9)] s [OF l(4,10)] s [OF l(6,12)]
  show "fe_val (fe_add_5x52 a b) = fe_val a + fe_val b"
    by (simp add: fe_val_horner fe_add_5x52_def e)
  show "fe_mag (m + k) (fe_add_5x52 a b)"
    using l by (simp add: fe_mag_def limbs_le_def fe_add_5x52_def e)
qed

lemma scast_small: "uint w < 2 ^ 31 \<Longrightarrow> uint (scast w :: u64) = uint w" for w :: u32
  using denotes_uint [OF denotes_scast [OF denotes_self [of w "2 ^ 31 - 1"], where 'b = 64]] by simp

lemma fe_mul_int_correct:
  assumes "fe_mag m a" "unat k * m \<le> 2048" "unat k \<le> 2048"
  shows "fe_val (fe_mul_int_5x52 a k) = fe_val a * uint k" "fe_mag (unat k * m) (fe_mul_int_5x52 a k)"
proof -
  have k: "uint (scast k :: u64) = uint k" using uint_le_of_unat [OF assms(3)] by (intro scast_small) simp
  have mk: "int m * uint k \<le> 2048" 
  proof -
    have "int (unat k * m) \<le> 2048" using assms(2) by linarith
    then show ?thesis by (simp add: mult.commute)
  qed
  have s: "uint (x * scast k) = uint x * uint k \<and> uint x * uint k \<le> 2 * (int m * uint k) * C"
    if "uint x \<le> 2 * int m * C" "0 \<le> C" "C \<le> 0xFFFFFFFFFFFFF" for x :: u64 and C
  proof -
    have "uint x * uint k \<le> 2 * int m * C * uint k" using that by (intro mult_right_mono) simp_all
    also have "\<dots> = 2 * (int m * uint k) * C" by (simp add: ac_simps)
    finally have a: "uint x * uint k \<le> 2 * (int m * uint k) * C" .
    also have "\<dots> \<le> (2 * 2048) * 0xFFFFFFFFFFFFF" using mk that by (intro mult_mono) auto
    finally show ?thesis using a by (simp add: uint_word_ariths k mod_pos_pos_trivial)
  qed
  have l: "uint (fn0 a) \<le> 2 * int m * 0xFFFFFFFFFFFFF" "uint (fn1 a) \<le> 2 * int m * 0xFFFFFFFFFFFFF"
    "uint (fn2 a) \<le> 2 * int m * 0xFFFFFFFFFFFFF" "uint (fn3 a) \<le> 2 * int m * 0xFFFFFFFFFFFFF"
    "uint (fn4 a) \<le> 2 * int m * 0xFFFFFFFFFFFF"
    using assms(1) unfolding fe_mag_def limbs_le_def by blast+
  have e: "uint (fn0 a * scast k) = uint (fn0 a) * uint k" "uint (fn1 a * scast k) = uint (fn1 a) * uint k"
    "uint (fn2 a * scast k) = uint (fn2 a) * uint k" "uint (fn3 a * scast k) = uint (fn3 a) * uint k"
    "uint (fn4 a * scast k) = uint (fn4 a) * uint k"
    using s [OF l(1)] s [OF l(2)] s [OF l(3)] s [OF l(4)] s [OF l(5)] by simp_all
  show "fe_val (fe_mul_int_5x52 a k) = fe_val a * uint k"
    by (simp add: fe_val_horner fe_mul_int_5x52_def e algebra_simps)
  have "int (unat k * m) = int m * uint k" by (simp add: mult.commute)
  then show "fe_mag (unat k * m) (fe_mul_int_5x52 a k)"
    using s [OF l(1)] s [OF l(2)] s [OF l(3)] s [OF l(4)] s [OF l(5)]
    unfolding fe_mag_def limbs_le_def fe_mul_int_5x52_def by (simp add: mult.commute [of _ "uint k"])
qed

lemma fe_negate_correct:
  assumes "fe_mag m a" "m \<le> unat k" "unat k \<le> 2047"
  shows "fe_val (fe_negate_5x52 a k) = 2 * (uint k + 1) * field_p - fe_val a" "fe_mag (unat k + 1) (fe_negate_5x52 a k)"
proof -
  have "unat (k + 1) = unat k + 1" using assms(3) by (simp add: unat_word_ariths)
  then have k1: "uint (k + 1) = uint k + 1" by (metis of_nat_Suc uint_nat add.commute plus_1_eq_Suc)
  have k: "uint k \<le> 2047" "int m \<le> uint k"
    using uint_le_of_unat [OF assms(3)] uint_ge_of_unat [OF assms(2)] by simp_all
  then have k': "uint (scast (k + 1) :: u64) = uint k + 1"
    using scast_small [of "k + 1"] by (simp add: k1)
  have s: "uint (c * 2 * scast (k + 1) - x) = uint c * (2 * (uint k + 1)) - uint x"
    if "uint x \<le> 2 * int m * C" "0 \<le> C" "C * uint k \<le> uint c * (uint k + 1)" "uint c \<le> 0xFFFFFFFFFFFFF" for x c :: u64 and C
  proof -
    have a: "uint c * (2 * (uint k + 1)) \<le> 0xFFFFFFFFFFFFF * (2 * 2048)" using k that by (intro mult_mono) auto
    have "uint (c * 2 * scast (k + 1)) = uint c * (2 * (uint k + 1))"
    proof -
      have "uint (c * 2) = uint c * 2" using that(4) by (simp add: uint_word_ariths)
      then have "uint (c * 2) * uint (scast (k + 1) :: u64) = uint c * (2 * (uint k + 1))"
        by (simp add: k')
      then show ?thesis
        unfolding uint_word_ariths(3) [of "c * 2"]
        by (simp only:) (rule mod_pos_pos_trivial, simp, rule order_le_less_trans [OF a], simp)
    qed
    moreover have "2 * int m * C \<le> uint c * (2 * (uint k + 1))"
      using mult_right_mono [OF k(2) that(2)] that(3) by (simp add: algebra_simps)
    ultimately show ?thesis using that(1) by (simp add: uint_sub_if' word_le_def)
  qed
  note l = assms(1) [unfolded fe_mag_def limbs_le_def]
  have e: "uint (0xFFFFEFFFFFC2F * 2 * scast (k + 1) - fn0 a) = 0xFFFFEFFFFFC2F * (2 * (uint k + 1)) - uint (fn0 a)"
    "uint (0xFFFFFFFFFFFFF * 2 * scast (k + 1) - fn1 a) = 0xFFFFFFFFFFFFF * (2 * (uint k + 1)) - uint (fn1 a)"
    "uint (0xFFFFFFFFFFFFF * 2 * scast (k + 1) - fn2 a) = 0xFFFFFFFFFFFFF * (2 * (uint k + 1)) - uint (fn2 a)"
    "uint (0xFFFFFFFFFFFFF * 2 * scast (k + 1) - fn3 a) = 0xFFFFFFFFFFFFF * (2 * (uint k + 1)) - uint (fn3 a)"
    "uint (0xFFFFFFFFFFFF * 2 * scast (k + 1) - fn4 a) = 0xFFFFFFFFFFFF * (2 * (uint k + 1)) - uint (fn4 a)"
    using l k(1) s [of "fn0 a" "0xFFFFFFFFFFFFF" "0xFFFFEFFFFFC2F"] s [of "fn1 a" "0xFFFFFFFFFFFFF" "0xFFFFFFFFFFFFF"]
      s [of "fn2 a" "0xFFFFFFFFFFFFF" "0xFFFFFFFFFFFFF"] s [of "fn3 a" "0xFFFFFFFFFFFFF" "0xFFFFFFFFFFFFF"]
      s [of "fn4 a" "0xFFFFFFFFFFFF" "0xFFFFFFFFFFFF"] by simp_all
  show "fe_val (fe_negate_5x52 a k) = 2 * (uint k + 1) * field_p - fe_val a"
    unfolding fe_val_horner fe_negate_5x52_def fe_5x52.select_convs e by (simp add: field_p_def algebra_simps)
  have "int (unat k + 1) = uint k + 1" by simp
  then show "fe_mag (unat k + 1) (fe_negate_5x52 a k)"
    unfolding fe_mag_def limbs_le_def fe_negate_5x52_def fe_5x52.select_convs e
    using k(1) uint_gt [of "fn0 a"] uint_gt [of "fn1 a"] uint_gt [of "fn2 a"] uint_gt [of "fn3 a"] uint_gt [of "fn4 a"] uint_gt [of k] by simp
qed

lemma fe_set_int_correct:
  assumes "uint a < 2 ^ 31"
  shows "fe_val (fe_set_int_5x52 a) = uint a" "fe_normalized (fe_set_int_5x52 a)"
  using assms scast_small [OF assms] by (simp_all add: fe_val_horner fe_set_int_5x52_def fe_normalized_def limbs_le_def field_p_def)

lemma fe_is_zero_iff: "fe_is_zero_5x52 a \<longleftrightarrow> fe_val a = 0"
proof -
  have "fe_val a = 0 \<longleftrightarrow> uint (fn0 a) = 0 \<and> uint (fn1 a) = 0 \<and> uint (fn2 a) = 0 \<and> uint (fn3 a) = 0 \<and> uint (fn4 a) = 0"
    unfolding fe_val_horner by (auto simp: add_nonneg_eq_0_iff)
  then show ?thesis by (simp add: fe_is_zero_5x52_def or_eq_0_iff unsigned_eq_0_iff)
qed

lemma fe_is_odd_iff: "fe_is_odd_5x52 a \<longleftrightarrow> odd (fe_val a)"
  by (simp add: fe_is_odd_5x52_def and_1_iff fe_val_horner)

lemma fe_cmp_var_correct:
  assumes "limbs_le a 0xFFFFFFFFFFFFF A" "limbs_le b 0xFFFFFFFFFFFFF B"
  shows "fe_cmp_var_5x52 a b = sgn (fe_val a - fe_val b)"
proof -
  have l: "uint (fn0 a) < 2 ^ 52" "uint (fn1 a) < 2 ^ 52" "uint (fn2 a) < 2 ^ 52" "uint (fn3 a) < 2 ^ 52"
    "uint (fn0 b) < 2 ^ 52" "uint (fn1 b) < 2 ^ 52" "uint (fn2 b) < 2 ^ 52" "uint (fn3 b) < 2 ^ 52"
    using assms by (auto simp: limbs_le_def)
  show ?thesis
    unfolding fe_cmp_var_5x52_def cmp_limbs_sgn cmp_limbs.simps(1) fe_val_horner
      sgn_limb [OF uint_ge_0 l(1) uint_ge_0 l(5)] sgn_limb [OF uint_ge_0 l(2) uint_ge_0 l(6)]
      sgn_limb [OF uint_ge_0 l(3) uint_ge_0 l(7)] sgn_limb [OF uint_ge_0 l(4) uint_ge_0 l(8)]
    by simp
qed

lemma cmov_masks: "scast (0 :: u32) + NOT 0 = (- 1 :: u64)" "scast (1 :: u32) + NOT 0 = (0 :: u64)"
  by simp_all

lemma fe_cmov_eq: "fe_cmov_5x52 r a 0 = r" "fe_cmov_5x52 r a 1 = a"
  unfolding fe_cmov_5x52_def Let_def cmov_masks by simp_all

lemma fe_storage_cmov_eq: "fe_storage_cmov_5x52 r a 0 = r" "fe_storage_cmov_5x52 r a 1 = a"
  unfolding fe_storage_cmov_5x52_def Let_def cmov_masks by simp_all

lemma push_and_mask:
  fixes y :: u64
  assumes "k \<le> 52"
  shows "push_bit k y AND 0xFFFFFFFFFFFFF = push_bit k (take_bit (52 - k) y)"
proof -
  have "push_bit k y AND 0xFFFFFFFFFFFFF = take_bit 52 (push_bit k y)" by (simp add: take_bit_eq_mask mask_numeral)
  also have "\<dots> = push_bit k (take_bit (52 - k) y)"
    by (rule bit_word_eqI) (use assms in \<open>auto simp: bit_simps\<close>)
  finally show ?thesis .
qed

lemma to_storage_identity:
  fixes n0 :: int
  assumes "n1 = l1 + 2 ^ 12 * h1" "n2 = l2 + 2 ^ 24 * h2" "n3 = l3 + 2 ^ 36 * h3"
  shows "n0 + 2 ^ 52 * l1 + 2 ^ 64 * (h1 + 2 ^ 40 * l2 + 2 ^ 64 * (h2 + 2 ^ 28 * l3 + 2 ^ 64 * (h3 + 2 ^ 16 * n4)))
    = n0 + 2 ^ 52 * (n1 + 2 ^ 52 * (n2 + 2 ^ 52 * (n3 + 2 ^ 52 * n4)))"
  unfolding assms by simp

lemma from_storage_identity:
  fixes l0 :: int
  assumes "s0 = l0 + 2 ^ 52 * h0" "s1 = l1 + 2 ^ 40 * h1" "s2 = l2 + 2 ^ 28 * h2" "s3 = l3 + 2 ^ 16 * h3"
  shows "l0 + 2 ^ 52 * (h0 + 2 ^ 12 * l1 + 2 ^ 52 * (h1 + 2 ^ 24 * l2 + 2 ^ 52 * (h2 + 2 ^ 36 * l3 + 2 ^ 52 * h3)))
    = s0 + 2 ^ 64 * (s1 + 2 ^ 64 * (s2 + 2 ^ 64 * s3))"
  unfolding assms by simp

lemma fe_to_storage_val:
  assumes "limbs_le a 0xFFFFFFFFFFFFF 0xFFFFFFFFFFFF"
  shows "storage_val (fe_to_storage_5x52 a) = fe_val a"
proof -
  have l: "uint (fn0 a) < 2 ^ 52" "uint (fn1 a) < 2 ^ 52" "uint (fn2 a) < 2 ^ 52" "uint (fn3 a) < 2 ^ 52" "uint (fn4 a) < 2 ^ 48"
    using assms by (auto simp: limbs_le_def)
  have d: "x div 2 ^ j < 2 ^ (52 - j)" if "x < 2 ^ 52" "j \<le> 52" for x :: int and j
    using that by (rule div_pow_less)
  have "uint (fn0 a OR push_bit 52 (fn1 a)) = uint (fn0 a) + 2 ^ 52 * (uint (fn1 a) mod 2 ^ 12)"
    using or_push_mod [of "fn0 a" 52 "fn1 a"] l(1) by simp
  moreover have "uint (drop_bit 12 (fn1 a) OR push_bit 40 (fn2 a)) = uint (fn1 a) div 2 ^ 12 + 2 ^ 40 * (uint (fn2 a) mod 2 ^ 24)"
    using or_push_mod [of "drop_bit 12 (fn1 a)" 40 "fn2 a"] d [OF l(2), of 12] unfolding uint_drop_bit by simp
  moreover have "uint (drop_bit 24 (fn2 a) OR push_bit 28 (fn3 a)) = uint (fn2 a) div 2 ^ 24 + 2 ^ 28 * (uint (fn3 a) mod 2 ^ 36)"
    using or_push_mod [of "drop_bit 24 (fn2 a)" 28 "fn3 a"] d [OF l(3), of 24] unfolding uint_drop_bit by simp
  moreover have "uint (drop_bit 36 (fn3 a) OR push_bit 16 (fn4 a)) = uint (fn3 a) div 2 ^ 36 + 2 ^ 16 * uint (fn4 a)"
    using or_push_mod [of "drop_bit 36 (fn3 a)" 16 "fn4 a"] d [OF l(4), of 36] l(5) unfolding uint_drop_bit by simp
  ultimately show ?thesis
    unfolding storage_val_def fe_to_storage_5x52_def fe_storage_5x52.select_convs limbs_val_Cons limbs_val.simps(1) fe_val_horner
    by (simp only: mult_zero_right add_0_right) (rule to_storage_identity; rule mod_mult_div_eq [symmetric])
qed

lemma fe_from_storage_val:
  "fe_val (fe_from_storage_5x52 s) = storage_val s" "limbs_le (fe_from_storage_5x52 s) 0xFFFFFFFFFFFFF 0xFFFFFFFFFFFF"
proof -
  have d: "uint (w :: u64) div 2 ^ j < 2 ^ (64 - j)" if "j \<le> 64" for w j
    by (rule div_pow_less) (use uint_bounded [of w] that in simp_all)
  have e: "uint (st0 s AND 0xFFFFFFFFFFFFF) = uint (st0 s) mod 2 ^ 52"
    "uint (drop_bit 52 (st0 s) OR (push_bit 12 (st1 s) AND 0xFFFFFFFFFFFFF)) = uint (st0 s) div 2 ^ 52 + 2 ^ 12 * (uint (st1 s) mod 2 ^ 40)"
    "uint (drop_bit 40 (st1 s) OR (push_bit 24 (st2 s) AND 0xFFFFFFFFFFFFF)) = uint (st1 s) div 2 ^ 40 + 2 ^ 24 * (uint (st2 s) mod 2 ^ 28)"
    "uint (drop_bit 28 (st2 s) OR (push_bit 36 (st3 s) AND 0xFFFFFFFFFFFFF)) = uint (st2 s) div 2 ^ 28 + 2 ^ 36 * (uint (st3 s) mod 2 ^ 16)"
    "uint (drop_bit 16 (st3 s)) = uint (st3 s) div 2 ^ 16"
    using uint_and_mask [of "st0 s" 52]  apply (simp add: mask_numeral)
    using drop_or_push [of "st0 s" 52 12 40 "st1 s"] d [of 52 "st0 s"] apply (simp add: push_and_mask)
    using drop_or_push [of "st1 s" 40 24 28 "st2 s"] d [of 40 "st1 s"] apply (simp add: push_and_mask)
    using drop_or_push [of "st2 s" 28 36 16 "st3 s"] d [of 28 "st2 s"] apply (simp add: push_and_mask)
    by (rule uint_drop_bit)
  show "fe_val (fe_from_storage_5x52 s) = storage_val s"
    unfolding storage_val_def fe_from_storage_5x52_def fe_5x52.select_convs limbs_val_Cons limbs_val.simps(1) fe_val_horner e
    by (simp only: mult_zero_right add_0_right) (rule from_storage_identity; rule mod_mult_div_eq [symmetric])
  have "uint (st0 s) mod 2 ^ 52 \<le> 0xFFFFFFFFFFFFF" using pos_mod_bound [of "2 ^ 52" "uint (st0 s)"] by simp
  moreover have j: "h + 2 ^ 12 * m \<le> 0xFFFFFFFFFFFFF" if "h < 2 ^ 12" "m < 2 ^ 40" for h m :: int using that by simp
  have "uint (st0 s) div 2 ^ 52 + 2 ^ 12 * (uint (st1 s) mod 2 ^ 40) \<le> 0xFFFFFFFFFFFFF"
    by (rule j) (use d [of 52 "st0 s"] in simp_all)
  moreover have j: "h + 2 ^ 24 * m \<le> 0xFFFFFFFFFFFFF" if "h < 2 ^ 24" "m < 2 ^ 28" for h m :: int using that by simp
  have "uint (st1 s) div 2 ^ 40 + 2 ^ 24 * (uint (st2 s) mod 2 ^ 28) \<le> 0xFFFFFFFFFFFFF"
    by (rule j) (use d [of 40 "st1 s"] in simp_all)
  moreover have j: "h + 2 ^ 36 * m \<le> 0xFFFFFFFFFFFFF" if "h < 2 ^ 36" "m < 2 ^ 16" for h m :: int using that by simp
  have "uint (st2 s) div 2 ^ 28 + 2 ^ 36 * (uint (st3 s) mod 2 ^ 16) \<le> 0xFFFFFFFFFFFFF"
    by (rule j) (use d [of 28 "st2 s"] in simp_all)
  moreover have "uint (st3 s) div 2 ^ 16 \<le> 0xFFFFFFFFFFFF"
    using d [of 16 "st3 s"] by simp
  ultimately show "limbs_le (fe_from_storage_5x52 s) 0xFFFFFFFFFFFFF 0xFFFFFFFFFFFF"
    unfolding limbs_le_def fe_from_storage_5x52_def fe_5x52.select_convs e by blast
qed

lemma fe_b32_steps_eq: "fe_b32_steps = map (\<lambda>q. (q div 2, q mod 2)) [0..<64]"
proof -
  have "concat (map (\<lambda>i. [(i, 0), (i, 1)]) [0..<n]) = map (\<lambda>q. (q div 2, q mod 2)) [0..<2 * n]" for n :: nat
    by (induction n) simp_all
  from this [of 32] show ?thesis by (simp add: fe_b32_steps_def)
qed

lemma set_b32_eq:
  "snd (fe_set_b32_5x52 a) = FE5 (or_digs 4 (b32_dig 4 a) 0 13) (or_digs 4 (b32_dig 4 a) 13 13) (or_digs 4 (b32_dig 4 a) 26 13)
     (or_digs 4 (b32_dig 4 a) 39 13) (or_digs 4 (b32_dig 4 a) 52 12)"
proof -
  have i: "8 * (q div 2) + 4 * (q mod 2) = 4 * q" for q :: nat by presburger
  have d: "4 * q div 52 = q div 13" "4 * q mod 52 = 4 * (q mod 13)" for q :: nat
    using div_mult_mult1 [of 4 q 13] mult_mod_right [of 4 q 13] by simp_all
  have m: "ucast (drop_bit (4 * (q mod 2)) (a ! (31 - q div 2)) AND 0xF) = (b32_dig 4 a q :: u64)" for q
    by (simp add: b32_dig_def mask_numeral)
  define n where "n = foldl (\<lambda>n q. n[q div 13 := n ! (q div 13) OR push_bit (4 * (q mod 13)) (b32_dig 4 a q :: u64)]) (replicate 5 0) [0..<64]"
  have n: "n ! k = or_digs 4 (b32_dig 4 a) (13 * k) (min 13 (64 - 13 * k))" if "k < 5" for k
    using set_limbs [of 64 5 4 "b32_dig 4 a :: nat \<Rightarrow> u64"] that unfolding n_def by simp
  have r: "[0, 0, 0, 0, 0] = replicate 5 (0 :: u64)" by (simp add: numeral_eq_Suc)
  have "snd (fe_set_b32_5x52 a) = FE5 (n ! 0) (n ! 1) (n ! 2) (n ! 3) (n ! 4)"
    unfolding fe_set_b32_5x52_def fe_b32_steps_eq foldl_map case_prod_conv Let_def i d m r n_def snd_conv ..
  then show ?thesis by (simp add: n)
qed

lemma fe_set_b32_val:
  "fe_val (snd (fe_set_b32_5x52 a)) = dig_sum 4 (\<lambda>q. uint (b32_dig 4 a q :: u64)) 0 64"
  "limbs_le (snd (fe_set_b32_5x52 a)) 0xFFFFFFFFFFFFF 0xFFFFFFFFFFFF"
proof -
  let ?v = "\<lambda>q. uint (b32_dig 4 a q :: u64)"
  have v: "0 \<le> ?v q \<and> ?v q \<le> 2 ^ 4 - 1" for q by (simp add: b32_dig_val zle_diff1_eq [of _ 16, simplified])
  have b: "dig_sum 4 ?v q n \<le> 2 ^ (4 * n) - 1" for q n using dig_sum_bounds [of ?v 4 q n] v by simp
  have o: "uint (or_digs 4 (b32_dig 4 a :: nat \<Rightarrow> u64) q n) = dig_sum 4 ?v q n" if "n \<le> 16" for q n
    by (rule or_digs_val) (use v that in auto)
  have "dig_sum 4 ?v 0 (13 + (13 + (13 + (13 + 12)))) = dig_sum 4 ?v 0 13 + 2 ^ 52 * (dig_sum 4 ?v 13 13 + 2 ^ 52 *
     (dig_sum 4 ?v 26 13 + 2 ^ 52 * (dig_sum 4 ?v 39 13 + 2 ^ 52 * dig_sum 4 ?v 52 12)))"
    unfolding dig_sum_add by simp
  then show "fe_val (snd (fe_set_b32_5x52 a)) = dig_sum 4 ?v 0 64"
    unfolding set_b32_eq fe_val_horner fe_5x52.select_convs by (simp add: o)
  show "limbs_le (snd (fe_set_b32_5x52 a)) 0xFFFFFFFFFFFFF 0xFFFFFFFFFFFF"
    using b [of _ 13] b [of 52 12] unfolding set_b32_eq limbs_le_def fe_5x52.select_convs by (simp add: o)
qed

lemma fe_set_b32_correct:
  assumes "length a = 32"
  shows "fe_val (snd (fe_set_b32_5x52 a)) = be_val a" "fst (fe_set_b32_5x52 a) \<longleftrightarrow> be_val a < field_p"
    "fst (fe_set_b32_5x52 a) \<Longrightarrow> fe_normalized (snd (fe_set_b32_5x52 a))"
proof -
  let ?r = "snd (fe_set_b32_5x52 a)"
  show v: "fe_val ?r = be_val a"
    using dig_sum_bytes [where 'a = 64, of 4 a 32] be_val_rev_sum [OF assms] by (simp add: fe_set_b32_val)
  note l = fe_set_b32_val(2) [of a]
  have "fst (fe_set_b32_5x52 a) \<longleftrightarrow> fe_verify_5x52 ?r 1 True"
  proof -
    have "fst (fe_set_b32_5x52 a) \<longleftrightarrow>
        \<not> (fn4 ?r = 0x0FFFFFFFFFFFF \<and> fn3 ?r AND fn2 ?r AND fn1 ?r = 0xFFFFFFFFFFFFF \<and> fn0 ?r \<ge> 0xFFFFEFFFFFC2F)"
      unfolding fe_set_b32_5x52_def Let_def fst_conv snd_conv ..
    moreover have "fn0 ?r \<le> 0xFFFFFFFFFFFFF" "fn1 ?r \<le> 0xFFFFFFFFFFFFF" "fn2 ?r \<le> 0xFFFFFFFFFFFFF" "fn3 ?r \<le> 0xFFFFFFFFFFFFF" "fn4 ?r \<le> 0xFFFFFFFFFFFF"
      using l by (simp_all add: limbs_le_def word_le_def)
    ultimately show ?thesis by (simp add: fe_verify_5x52_def not_le [symmetric]) blast
  qed
  then show f: "fst (fe_set_b32_5x52 a) \<longleftrightarrow> be_val a < field_p" "fst (fe_set_b32_5x52 a) \<Longrightarrow> fe_normalized ?r"
    using l v by (simp_all add: fe_verify_normalized fe_normalized_def)
qed

lemma bit_fe_val:
  assumes "limbs_le a 0xFFFFFFFFFFFFF 0xFFFFFFFFFFFF" "n < 260"
  shows "bit (fe_val a) n \<longleftrightarrow> bit ([fn0 a, fn1 a, fn2 a, fn3 a, fn4 a] ! (n div 52)) (n mod 52)"
  unfolding fe_val_def
proof (rule bit_limbs_val_k)
  fix i assume "i < length [fn0 a, fn1 a, fn2 a, fn3 a, fn4 a]"
  then have "i = 0 \<or> i = 1 \<or> i = 2 \<or> i = 3 \<or> i = 4" by auto
  then show "uint ([fn0 a, fn1 a, fn2 a, fn3 a, fn4 a] ! i) < 2 ^ 52"
    using assms(1) by (auto simp: limbs_le_def)
qed (use assms(2) in simp_all)

lemma fe_get_b32_byte:
  assumes "limbs_le a 0xFFFFFFFFFFFFF 0xFFFFFFFFFFFF" "k < 32"
  shows "uint (fe_get_b32_5x52 a ! k) = fe_val a div 256 ^ (31 - k) mod 256"
proof -
  define i where "i = 31 - k"
  define L where "L = [fn0 a, fn1 a, fn2 a, fn3 a, fn4 a]"
  define N where "N j = drop_bit ((8 * i + 4 * j) mod 52) (L ! ((8 * i + 4 * j) div 52)) AND 0xF" for j
  have e: "fe_get_b32_5x52 a ! k = ucast (ucast (push_bit (4 * 0) (N 0)) OR ucast (push_bit (4 * 1) (N 1)) :: u32)"
    using assms(2) unfolding fe_get_b32_5x52_def N_def L_def i_def Let_def by simp
  have i: "i < 32" by (simp add: i_def)
  have n: "bit (N j) t \<longleftrightarrow> t < 4 \<and> bit (fe_val a) (8 * i + 4 * j + t)" if "j < 2" for j t
  proof (cases "t < 4")
    case True
    define q where "q = 2 * i + j"
    have q: "8 * i + 4 * j = 4 * q" by (simp add: q_def)
    have "4 * q mod 52 = 4 * (q mod 13)" using mult_mod_right [of 4 q 13] by simp
    then have "4 * q mod 52 + t < 52" using True mod_less_divisor [of 13 q] by linarith
    then have "(4 * q + t) div 52 = 4 * q div 52" "(4 * q + t) mod 52 = 4 * q mod 52 + t"
      by (rule div_mod_add_nat)+
    moreover have "4 * q + t < 260" using i that True by (simp add: q_def)
    moreover have "bit (0xF :: u64) t" using True by (auto simp: less_Suc_eq numeral_eq_Suc)
    ultimately show ?thesis
      using bit_fe_val [OF assms(1), of "4 * q + t"] True unfolding N_def q L_def
      by (simp add: bit_simps)
  next
    case False
    have m: "(0xF :: u64) = mask 4" by (simp add: mask_numeral)
    show ?thesis unfolding N_def m using False by (simp add: bit_and_iff bit_mask_iff)
  qed
  have "uint (fe_get_b32_5x52 a ! k) = take_bit 8 (drop_bit (8 * i) (fe_val a))"
  proof (rule bit_eqI)
    fix t
    show "bit (uint (fe_get_b32_5x52 a ! k)) t = bit (take_bit 8 (drop_bit (8 * i) (fe_val a))) t"
      unfolding e by (cases "t < 4") (auto simp: bit_simps n)
  qed
  then show ?thesis by (simp add: take_bit_eq_mod drop_bit_eq_div i_def power_mult)
qed

lemma fe_get_b32_correct:
  assumes "limbs_le a 0xFFFFFFFFFFFFF 0xFFFFFFFFFFFF"
  shows "be_val (fe_get_b32_5x52 a) = fe_val a" "length (fe_get_b32_5x52 a) = 32"
proof -
  show l: "length (fe_get_b32_5x52 a) = 32" by (simp add: fe_get_b32_5x52_def)
  have "be_val (fe_get_b32_5x52 a) = (\<Sum>i<32. 256 ^ i * (fe_val a div 256 ^ i mod 256))"
    unfolding be_val_rev_sum [OF l] by (rule sum.cong) (simp_all add: fe_get_b32_byte [OF assms])
  also have "\<dots> = fe_val a"
    unfolding sum_digits using fe_val_bound [OF assms] by simp
  finally show "be_val (fe_get_b32_5x52 a) = fe_val a" .
qed

lemma const_identity:
  fixes d0 :: int
  assumes "d1 = l1 + 2 ^ 20 * h1" "d3 = l3 + 2 ^ 8 * h3" "d4 = l4 + 2 ^ 28 * h4" "d6 = l6 + 2 ^ 16 * h6"
  shows "d0 + 2 ^ 32 * l1 + 2 ^ 52 * (h1 + 2 ^ 12 * d2 + 2 ^ 44 * l3 + 2 ^ 52 * (h3 + 2 ^ 24 * l4
      + 2 ^ 52 * (h4 + 2 ^ 4 * d5 + 2 ^ 36 * l6 + 2 ^ 52 * (h6 + 2 ^ 16 * d7))))
    = d0 + 2 ^ 32 * (d1 + 2 ^ 32 * (d2 + 2 ^ 32 * (d3 + 2 ^ 32 * (d4 + 2 ^ 32 * (d5 + 2 ^ 32 * (d6 + 2 ^ 32 * d7))))))"
  unfolding assms by simp

lemma fe_const_correct:
  "fe_val (fe_const_5x52 d7 d6 d5 d4 d3 d2 d1 d0) = limbs_val 32 [d0, d1, d2, d3, d4, d5, d6, d7]"
  "limbs_le (fe_const_5x52 d7 d6 d5 d4 d3 d2 d1 d0) 0xFFFFFFFFFFFFF 0xFFFFFFFFFFFF"
proof -
  note d = denotes_ucast [OF denotes_self [OF uint32_le], where 'b = 64]
  have m: "denotes (w AND 0xFFFFF) (n mod 2 ^ 20) 0xFFFFF" "denotes (w AND 0xFF) (n mod 2 ^ 8) 0xFF"
    "denotes (w AND 0xFFFFFFF) (n mod 2 ^ 28) 0xFFFFFFF" "denotes (w AND 0xFFFF) (n mod 2 ^ 16) 0xFFFF"
    if "denotes w n A" for w :: u64 and n A
    using that uint_and_mask [of w 20] uint_and_mask [of w 8] uint_and_mask [of w 28] uint_and_mask [of w 16]
    by (simp_all add: denotes_def mask_numeral zle_diff1_eq [of _ "2 ^ _", simplified])
  note rules = denotes_or_push denotes_drop_bit m d
  have l0: "denotes (ucast d0 OR push_bit 32 (ucast d1 AND 0xFFFFF) :: u64) (uint d0 + 2 ^ 32 * (uint d1 mod 2 ^ 20)) 0xFFFFFFFFFFFFF"
    by (rule denotes_weaken) (rule rules | simp)+
  have l1: "denotes ((drop_bit 20 (ucast d1) OR push_bit 12 (ucast d2)) OR push_bit 44 (ucast d3 AND 0xFF) :: u64)
      (uint d1 div 2 ^ 20 + 2 ^ 12 * uint d2 + 2 ^ 44 * (uint d3 mod 2 ^ 8)) 0xFFFFFFFFFFFFF"
    by (rule denotes_weaken) (rule rules | simp)+
  have l2: "denotes (drop_bit 8 (ucast d3) OR push_bit 24 (ucast d4 AND 0xFFFFFFF) :: u64)
      (uint d3 div 2 ^ 8 + 2 ^ 24 * (uint d4 mod 2 ^ 28)) 0xFFFFFFFFFFFFF"
    by (rule denotes_weaken) (rule rules | simp)+
  have l3: "denotes ((drop_bit 28 (ucast d4) OR push_bit 4 (ucast d5)) OR push_bit 36 (ucast d6 AND 0xFFFF) :: u64)
      (uint d4 div 2 ^ 28 + 2 ^ 4 * uint d5 + 2 ^ 36 * (uint d6 mod 2 ^ 16)) 0xFFFFFFFFFFFFF"
    by (rule denotes_weaken) (rule rules | simp)+
  have l4: "denotes (drop_bit 16 (ucast d6) OR push_bit 16 (ucast d7) :: u64) (uint d6 div 2 ^ 16 + 2 ^ 16 * uint d7) 0xFFFFFFFFFFFF"
    by (rule denotes_weaken) (rule rules | simp)+
  show "limbs_le (fe_const_5x52 d7 d6 d5 d4 d3 d2 d1 d0) 0xFFFFFFFFFFFFF 0xFFFFFFFFFFFF"
    using l0 l1 l2 l3 l4 unfolding limbs_le_def fe_const_5x52_def fe_5x52.select_convs denotes_def by metis
  show "fe_val (fe_const_5x52 d7 d6 d5 d4 d3 d2 d1 d0) = limbs_val 32 [d0, d1, d2, d3, d4, d5, d6, d7]"
    unfolding fe_val_horner fe_const_5x52_def fe_5x52.select_convs limbs_val_Cons limbs_val.simps(1)
      denotes_uint [OF l0] denotes_uint [OF l1] denotes_uint [OF l2] denotes_uint [OF l3] denotes_uint [OF l4]
    by (simp only: mult_zero_right add_0_right) (rule const_identity; rule mod_mult_div_eq [symmetric])
qed

subsection \<open>The field interface\<close>

lemma fe_val_nonneg: "0 \<le> fe_val a"
  by (simp add: fe_val_def limbs_val_nonneg)

lemma fe_normalized_inject: "fe_normalized a \<Longrightarrow> fe_normalized b \<Longrightarrow> fe_val a = fe_val b \<Longrightarrow> a = b"
  using fe_val_inject by (auto simp: fe_normalized_def)

lemma fe_storage_roundtrip_eq:
  assumes "limbs_le a 0xFFFFFFFFFFFFF 0xFFFFFFFFFFFF"
  shows "fe_from_storage_5x52 (fe_to_storage_5x52 a) = a"
  using fe_val_inject [of "fe_from_storage_5x52 (fe_to_storage_5x52 a)"] assms fe_from_storage_val fe_to_storage_val [OF assms]
  by metis

interpretation f5: field_arith field_ops_5x52 fe_val fe_mag fe_normalized
proof (unfold_locales, unfold field_ops_5x52_def field_ops.select_convs)
  fix a b :: fe_5x52 and m k :: nat and w :: u32 and bs :: "u8 list" and s t :: fe_storage_5x52
  show "fe_mag m a \<Longrightarrow> m \<le> k \<Longrightarrow> fe_mag k a" by (rule fe_mag_mono)
  show "fe_normalized a \<Longrightarrow> fe_mag 1 a" by (rule fe_normalized_mag)
  show "fe_normalized a \<Longrightarrow> 0 \<le> fe_val a \<and> fe_val a < field_p" by (simp add: fe_val_nonneg fe_normalized_def)
  show "fe_normalized a \<Longrightarrow> fe_normalized b \<Longrightarrow> fe_val a = fe_val b \<Longrightarrow> a = b" by (rule fe_normalized_inject)
  show "fe_mag 1 (fe_mul_5x52 a b) \<and> fe_val (fe_mul_5x52 a b) mod field_p = fe_val a * fe_val b mod field_p"
    if "fe_mag 8 a" "fe_mag 8 b" using fe_mul_correct [OF that] by simp
  show "fe_mag 1 (fe_sqr_5x52 a) \<and> fe_val (fe_sqr_5x52 a) mod field_p = fe_val a * fe_val a mod field_p"
    if "fe_mag 8 a" using fe_sqr_correct [OF that] by simp
  show "fe_mag (m + k) (fe_add_5x52 a b) \<and> fe_val (fe_add_5x52 a b) mod field_p = (fe_val a + fe_val b) mod field_p"
    if "fe_mag m a" "fe_mag k b" "m + k \<le> 32" using fe_add_correct [OF that(1,2)] that(3) by simp
  show "fe_mag (unat w + 1) (fe_negate_5x52 a w) \<and> fe_val (fe_negate_5x52 a w) mod field_p = - fe_val a mod field_p"
    if "fe_mag m a" "m \<le> unat w" "unat w < 32"
  proof -
    have "fe_val (fe_negate_5x52 a w) = - fe_val a + 2 * (uint w + 1) * field_p" "fe_mag (unat w + 1) (fe_negate_5x52 a w)"
      using fe_negate_correct [OF that(1,2)] that(3) by simp_all
    then show ?thesis by (simp only: mod_mult_self1)
  qed
  show "fe_mag (unat w * m) (fe_mul_int_5x52 a w) \<and> fe_val (fe_mul_int_5x52 a w) mod field_p = fe_val a * uint w mod field_p"
    if "fe_mag m a" "unat w * m \<le> 32" "unat w \<le> 32" using fe_mul_int_correct [OF that(1)] that by simp
  have i: "fe_in a" if "fe_mag 31 a" for a by (rule fe_mag_in [OF that]) simp
  show "fe_normalized (fe_normalize_5x52 a) \<and> fe_val (fe_normalize_5x52 a) = fe_val a mod field_p" if "fe_mag 31 a"
    using normalize_val i that by blast
  show "fe_mag 1 (fe_normalize_weak_5x52 a) \<and> fe_val (fe_normalize_weak_5x52 a) mod field_p = fe_val a mod field_p" if "fe_mag 31 a"
    using normalize_weak_val [OF i [OF that]] by (auto simp: fe_mag_def limbs_le_def)
  show "fe_normalize_var_5x52 a = fe_normalize_5x52 a" if "fe_mag 31 a" by (rule normalize_var_eq [OF i [OF that]])
  show "fe_normalizes_to_zero_5x52 a \<longleftrightarrow> fe_val a mod field_p = 0" if "fe_mag 31 a"
    by (rule normalizes_to_zero_iff [OF i [OF that]])
  show "fe_normalizes_to_zero_var_5x52 a \<longleftrightarrow> fe_val a mod field_p = 0" if "fe_mag 31 a"
    unfolding normalizes_to_zero_var_eq by (rule normalizes_to_zero_iff [OF i [OF that]])
  show "fe_normalized (fe_set_int_5x52 w) \<and> fe_val (fe_set_int_5x52 w) = uint w" if "uint w < 2 ^ 26"
    using fe_set_int_correct [of w] that by simp
  show "fe_clear_5x52 a = fe_set_int_5x52 0" by (simp add: fe_clear_5x52_def fe_set_int_5x52_def)
  show "fe_is_zero_5x52 a \<longleftrightarrow> fe_val a = 0" by (rule fe_is_zero_iff)
  show "fe_is_odd_5x52 a \<longleftrightarrow> odd (fe_val a)" by (rule fe_is_odd_iff)
  show "fe_cmp_var_5x52 a b = sgn (fe_val a - fe_val b)" if "fe_normalized a" "fe_normalized b"
    using fe_cmp_var_correct that unfolding fe_normalized_def by blast
  show "fe_val (snd (fe_set_b32_5x52 bs)) = be_val bs" "fst (fe_set_b32_5x52 bs) \<longleftrightarrow> be_val bs < field_p" if "length bs = 32"
    using fe_set_b32_correct [OF that] by simp_all
  show "fe_normalized (snd (fe_set_b32_5x52 bs))" if "length bs = 32" "be_val bs < field_p"
    using fe_set_b32_correct [OF that(1)] that(2) by simp
  show "be_val (fe_get_b32_5x52 a) = fe_val a \<and> length (fe_get_b32_5x52 a) = 32" if "fe_normalized a"
    using fe_get_b32_correct that by (simp add: fe_normalized_def)
  show "fe_cmov_5x52 a b 0 = a" "fe_cmov_5x52 a b 1 = b" by (rule fe_cmov_eq)+
  show "fe_from_storage_5x52 (fe_to_storage_5x52 a) = a" if "fe_normalized a"
    using fe_storage_roundtrip_eq that by (simp add: fe_normalized_def)
  show "fe_storage_cmov_5x52 s t 0 = s" "fe_storage_cmov_5x52 s t 1 = t" by (rule fe_storage_cmov_eq)+
  fix d0 d1 d2 d3 d4 d5 d6 d7 :: u32
  show "fe_normalized (fe_const_5x52 d7 d6 d5 d4 d3 d2 d1 d0) \<and>
      fe_val (fe_const_5x52 d7 d6 d5 d4 d3 d2 d1 d0) = limbs_val 32 [d0, d1, d2, d3, d4, d5, d6, d7]"
    if "limbs_val 32 [d0, d1, d2, d3, d4, d5, d6, d7] < field_p"
    using that fe_const_correct by (simp only: fe_normalized_def simp_thms)
qed

subsection \<open>Properties\<close>

lemma fv_mod: "f5.fv x = f5.fv y \<longleftrightarrow> fe_val x mod field_p = fe_val y mod field_p"
  by (simp add: f5.fv_def fp_eq_iff)

lemma fe_equal_5x52_iff:
  assumes "fe_mag 1 a" "fe_mag 30 c"
  shows "fe_equal field_ops_5x52 a c \<longleftrightarrow> fe_val a mod field_p = fe_val c mod field_p"
    "fe_equal_var field_ops_5x52 a c \<longleftrightarrow> fe_val a mod field_p = fe_val c mod field_p"
proof -
  let ?n = "fe_negate_5x52 a 1"
  have n: "fe_mag 2 ?n" "fe_val ?n mod field_p = - fe_val a mod field_p"
    using f5.negate [OF assms(1), of 1] by (simp_all add: field_ops_5x52_def numeral_2_eq_2)
  note s = fe_add_correct [OF n(1) assms(2), simplified]
  have i: "fe_in (fe_add_5x52 ?n c)" by (rule fe_mag_in [OF s(2)]) simp
  have "(of_int (fe_val ?n) :: fp) = - of_int (fe_val a)" using fp_eqI [OF n(2)] by simp
  then have "(fe_val ?n + fe_val c) mod field_p = 0 \<longleftrightarrow> fe_val a mod field_p = fe_val c mod field_p"
    unfolding fp_eq_0_iff [symmetric] fp_eq_iff [symmetric] by auto
  then show "fe_equal field_ops_5x52 a c \<longleftrightarrow> fe_val a mod field_p = fe_val c mod field_p"
    "fe_equal_var field_ops_5x52 a c \<longleftrightarrow> fe_val a mod field_p = fe_val c mod field_p"
    using normalizes_to_zero_iff [OF i] s(1)
    by (simp_all add: fe_equal_def fe_equal_var_def field_ops_5x52_def normalizes_to_zero_var_eq)
qed

lemmas fe_eval = fe_verify_5x52_def fe_mag_def limbs_le_def fe_val_def limbs_val_Cons field_p_def

text \<open>On inputs of magnitude at most 8, multiplication and squaring return an element of magnitude
  at most 1 that denotes the product modulo the field prime; no 128-bit accumulator overflows on the way.\<close>

theorem fe_mul_sqr_mod:
  assumes "fe_mag 8 a" and "fe_mag 8 b"
  shows "fe_val (fe_mul_5x52 a b) mod field_p = fe_val a * fe_val b mod field_p \<and> fe_verify_5x52 (fe_mul_5x52 a b) 1 False \<and>
    fe_val (fe_sqr_5x52 a) mod field_p = fe_val a * fe_val a mod field_p \<and> fe_verify_5x52 (fe_sqr_5x52 a) 1 False"
  using fe_mul_correct [OF assms] fe_sqr_correct [OF assms(1)] fe_verify_mag [of 1] by simp

theorem fe_mul_sqr_mod_witness:
  "fe_val (fe_mul_5x52 (FE5 2 0 0 0 0xFFFFFFFFFFFF0) (FE5 0 0 0xFFFFFFFFFFFFF 0 9)) mod field_p =
    fe_val (FE5 2 0 0 0 0xFFFFFFFFFFFF0) * fe_val (FE5 0 0 0xFFFFFFFFFFFFF 0 9) mod field_p"
  using fe_mul_sqr_mod [of "FE5 2 0 0 0 0xFFFFFFFFFFFF0" "FE5 0 0 0xFFFFFFFFFFFFF 0 9"]
  unfolding fe_mag_def limbs_le_def by simp

text \<open>On any element that passes the magnitude check for a magnitude up to 2047, the full
  normalization returns the unique normalized representative, the variable time version returns the same, the weak
  version keeps the residue and reaches magnitude 1, and both zero tests decide whether the residue is zero.\<close>

theorem fe_normalize_spec:
  assumes "fe_verify_5x52 r (int m) False" and "m \<le> 2047"
  shows "fe_val (fe_normalize_5x52 r) = fe_val r mod field_p \<and> fe_verify_5x52 (fe_normalize_5x52 r) 1 True \<and>
    fe_normalize_var_5x52 r = fe_normalize_5x52 r \<and>
    fe_val (fe_normalize_weak_5x52 r) mod field_p = fe_val r mod field_p \<and> fe_verify_5x52 (fe_normalize_weak_5x52 r) 1 False \<and>
    (fe_normalizes_to_zero_5x52 r \<longleftrightarrow> field_p dvd fe_val r) \<and>
    (fe_normalizes_to_zero_var_5x52 r \<longleftrightarrow> field_p dvd fe_val r)"
proof -
  have i: "fe_in r" using fe_verify_mag [of m r] assms by (auto intro: fe_mag_in)
  have "fe_mag 1 (fe_normalize_weak_5x52 r)"
    using normalize_weak_val(2) [OF i] by (auto simp: fe_mag_def limbs_le_def)
  then show ?thesis
    using normalize_val [OF i] normalize_var_eq [OF i] normalize_weak_val(1) [OF i] fe_verify_mag [of 1]
      normalizes_to_zero_iff [OF i] normalizes_to_zero_var_eq [of r] fe_verify_normalized
    by (simp add: dvd_eq_mod_eq_0)
qed

theorem fe_normalize_spec_witness:
  "fe_val (fe_normalize_5x52 (FE5 0x1FFFFDFFFFF85E 0x1FFFFFFFFFFFFE 0x1FFFFFFFFFFFFE 0x1FFFFFFFFFFFFE 0x1FFFFFFFFFFFE)) = 0 \<and>
   fe_normalizes_to_zero_5x52 (FE5 0x1FFFFDFFFFF85E 0x1FFFFFFFFFFFFE 0x1FFFFFFFFFFFFE 0x1FFFFFFFFFFFFE 0x1FFFFFFFFFFFE)"
proof -
  have "fe_verify_5x52 (FE5 0x1FFFFDFFFFF85E 0x1FFFFFFFFFFFFE 0x1FFFFFFFFFFFFE 0x1FFFFFFFFFFFFE 0x1FFFFFFFFFFFE) (int 1) False" by (simp add: fe_verify_5x52_def)
  moreover have "field_p dvd fe_val (FE5 0x1FFFFDFFFFF85E 0x1FFFFFFFFFFFFE 0x1FFFFFFFFFFFFE 0x1FFFFFFFFFFFFE 0x1FFFFFFFFFFFE)" by (simp add: fe_val_def limbs_val_Cons field_p_def)
  ultimately show ?thesis using fe_normalize_spec [of "(FE5 0x1FFFFDFFFFF85E 0x1FFFFFFFFFFFFE 0x1FFFFFFFFFFFFE 0x1FFFFFFFFFFFFE 0x1FFFFFFFFFFFE)" 1] by (simp add: dvd_eq_mod_eq_0)
qed

text \<open>Addition, negation and multiplication by a small integer neither overflow nor underflow a
  limb while the resulting magnitude stays within 2048; the results have the magnitudes that \<open>field.h\<close> announces.\<close>

theorem fe_linear_spec:
  assumes "fe_mag m a" and "fe_mag k b" and "m + k \<le> 2048" and "m \<le> unat c" and "unat c \<le> 2047"
    and "unat d * m \<le> 2048" and "unat d \<le> 2048"
  shows "fe_val (fe_add_5x52 a b) = fe_val a + fe_val b \<and> fe_mag (m + k) (fe_add_5x52 a b) \<and>
    fe_val (fe_negate_5x52 a c) = 2 * (uint c + 1) * field_p - fe_val a \<and> fe_mag (unat c + 1) (fe_negate_5x52 a c) \<and>
    fe_val (fe_mul_int_5x52 a d) = fe_val a * uint d \<and> fe_mag (unat d * m) (fe_mul_int_5x52 a d)"
  using fe_add_correct [OF assms(1,2,3)] fe_negate_correct [OF assms(1,4,5)] fe_mul_int_correct [OF assms(1,6,7)] by simp

theorem fe_linear_spec_witness:
  "fe_val (fe_negate_5x52 (FE5 1 2 3 4 5) 1) = 2 * (uint (1 :: u32) + 1) * field_p - fe_val (FE5 1 2 3 4 5) \<and>
   fe_mag (unat (8 :: u32) * 1) (fe_mul_int_5x52 (FE5 1 2 3 4 5) 8)"
  using fe_linear_spec [of 1 "FE5 1 2 3 4 5" 1 "FE5 5 4 3 2 1" 1 8] unfolding fe_mag_def limbs_le_def by simp

text \<open>Reading 32 bytes gives their big-endian value and succeeds exactly below the field prime;
  a normalized element is written to 32 bytes that read back to it, and bytes that are accepted are written back.\<close>

theorem fe_b32_roundtrip:
  assumes "length bs = 32" and "fe_normalized a"
  shows "(fst (fe_set_b32_5x52 bs) \<longleftrightarrow> be_val bs < field_p) \<and> fe_val (snd (fe_set_b32_5x52 bs)) = be_val bs \<and>
    fe_set_b32_5x52 (fe_get_b32_5x52 a) = (True, a) \<and>
    (fst (fe_set_b32_5x52 bs) \<longrightarrow> fe_get_b32_5x52 (snd (fe_set_b32_5x52 bs)) = bs)"
proof (intro conjI impI)
  have g: "be_val (fe_get_b32_5x52 a) = fe_val a" "length (fe_get_b32_5x52 a) = 32" "fe_val a < field_p"
    using fe_get_b32_correct assms(2) by (simp_all add: fe_normalized_def)
  have "fst (fe_set_b32_5x52 (fe_get_b32_5x52 a))" "snd (fe_set_b32_5x52 (fe_get_b32_5x52 a)) = a"
    using fe_set_b32_correct [OF g(2)] g assms(2) by (auto intro: fe_normalized_inject)
  then show "fe_set_b32_5x52 (fe_get_b32_5x52 a) = (True, a)" by (simp add: prod_eq_iff)
  show "fe_get_b32_5x52 (snd (fe_set_b32_5x52 bs)) = bs" if "fst (fe_set_b32_5x52 bs)"
  proof -
    have "fe_normalized (snd (fe_set_b32_5x52 bs))" by (rule fe_set_b32_correct(3) [OF assms(1) that])
    then show ?thesis
      using be_val_inject [of "fe_get_b32_5x52 (snd (fe_set_b32_5x52 bs))" bs] fe_set_b32_correct(1) [OF assms(1)] assms(1)
        fe_get_b32_correct [of "snd (fe_set_b32_5x52 bs)"] by (simp add: fe_normalized_def)
  qed
qed (use fe_set_b32_correct [OF assms(1)] in simp_all)

theorem fe_b32_roundtrip_witness:
  "fe_set_b32_5x52 (fe_get_b32_5x52 (FE5 1 2 3 4 5)) = (True, FE5 1 2 3 4 5) \<and>
   \<not> fst (fe_set_b32_5x52 ([0xFF, 0xFF, 0xFF, 0xFF, 0xFF, 0xFF, 0xFF, 0xFF, 0xFF, 0xFF, 0xFF, 0xFF, 0xFF, 0xFF, 0xFF, 0xFF, 0xFF, 0xFF, 0xFF, 0xFF, 0xFF, 0xFF, 0xFF, 0xFF, 0xFF, 0xFF, 0xFF, 0xFF, 0xFF, 0xFF, 0xFF, 0xFF]))"
proof -
  have "fe_normalized (FE5 1 2 3 4 5)" by (simp add: fe_normalized_def fe_eval)
  moreover have "\<not> be_val ([0xFF, 0xFF, 0xFF, 0xFF, 0xFF, 0xFF, 0xFF, 0xFF, 0xFF, 0xFF, 0xFF, 0xFF, 0xFF, 0xFF, 0xFF, 0xFF, 0xFF, 0xFF, 0xFF, 0xFF, 0xFF, 0xFF, 0xFF, 0xFF, 0xFF, 0xFF, 0xFF, 0xFF, 0xFF, 0xFF, 0xFF, 0xFF]) < field_p" by (simp add: be_val_def field_p_def)
  ultimately show ?thesis using fe_b32_roundtrip [of "[0xFF, 0xFF, 0xFF, 0xFF, 0xFF, 0xFF, 0xFF, 0xFF, 0xFF, 0xFF, 0xFF, 0xFF, 0xFF, 0xFF, 0xFF, 0xFF, 0xFF, 0xFF, 0xFF, 0xFF, 0xFF, 0xFF, 0xFF, 0xFF, 0xFF, 0xFF, 0xFF, 0xFF, 0xFF, 0xFF, 0xFF, 0xFF]" "FE5 1 2 3 4 5"] by simp
qed

text \<open>Packing a normalized element into four 64-bit words keeps its value, unpacking any
  four words keeps theirs, and the two conversions are inverse to each other.\<close>

theorem fe_storage_roundtrip:
  assumes "fe_normalized a"
  shows "storage_val (fe_to_storage_5x52 a) = fe_val a \<and> fe_from_storage_5x52 (fe_to_storage_5x52 a) = a \<and>
    fe_val (fe_from_storage_5x52 s) = storage_val s \<and>
    fe_storage_cmov_5x52 s (fe_to_storage_5x52 a) 0 = s \<and> fe_storage_cmov_5x52 s (fe_to_storage_5x52 a) 1 = fe_to_storage_5x52 a"
  using assms fe_to_storage_val fe_storage_roundtrip_eq fe_from_storage_val(1) fe_storage_cmov_eq
  by (simp add: fe_normalized_def)

theorem fe_storage_roundtrip_witness:
  "fe_from_storage_5x52 (fe_to_storage_5x52 (FE5 0xFFFFFFFFFFFFF 2 3 0xABCDEF 0xFFFFFFFFFFFF)) = FE5 0xFFFFFFFFFFFFF 2 3 0xABCDEF 0xFFFFFFFFFFFF"
  using fe_storage_roundtrip [of "FE5 0xFFFFFFFFFFFFF 2 3 0xABCDEF 0xFFFFFFFFFFFF" "Storage4 0 0 0 0"]
  by (simp add: fe_normalized_def fe_eval)

text \<open>The zero, parity, order and equality tests decide what they name; equality takes its first
  argument of magnitude 1 and its second of magnitude up to 30.\<close>

theorem fe_compare_spec:
  assumes "fe_normalized a" and "fe_normalized b" and "fe_mag 30 c"
  shows "(fe_is_zero_5x52 a \<longleftrightarrow> fe_val a = 0) \<and> (fe_is_odd_5x52 a \<longleftrightarrow> odd (fe_val a)) \<and>
    fe_cmp_var_5x52 a b = sgn (fe_val a - fe_val b) \<and>
    (fe_equal field_ops_5x52 a c \<longleftrightarrow> fe_val a mod field_p = fe_val c mod field_p) \<and>
    (fe_equal_var field_ops_5x52 a c \<longleftrightarrow> fe_val a mod field_p = fe_val c mod field_p)"
  using fe_equal_5x52_iff [OF fe_normalized_mag [OF assms(1)] assms(3)] fe_is_zero_iff fe_is_odd_iff assms(1,2) fe_cmp_var_correct
  unfolding fe_normalized_def by blast

theorem fe_compare_spec_witness:
  "fe_cmp_var_5x52 (FE5 1 2 3 4 5) (FE5 9 9 9 4 5) = -1 \<and> fe_equal field_ops_5x52 (FE5 1 0 0 0 0) (FE5 0xFFFFEFFFFFC30 0xFFFFFFFFFFFFF 0xFFFFFFFFFFFFF 0xFFFFFFFFFFFFF 0xFFFFFFFFFFFF)"
  using fe_compare_spec [of "FE5 1 2 3 4 5" "FE5 9 9 9 4 5" "FE5 0 0 0 0 0"]
    fe_compare_spec [of "FE5 1 0 0 0 0" "FE5 0 0 0 0 0" "FE5 0xFFFFEFFFFFC30 0xFFFFFFFFFFFFF 0xFFFFFFFFFFFFF 0xFFFFFFFFFFFFF 0xFFFFFFFFFFFF"]
  by (simp add: fe_normalized_def fe_eval)

text \<open>The addition chain of \<open>fe_inv\<close> computes the power with exponent \<open>p - 2\<close>; whenever the input
  satisfies Fermat's equation, the result is its inverse modulo the field prime.\<close>

theorem fe_inv_spec:
  assumes "fe_mag 8 a"
  shows "fe_val (fe_inv field_ops_5x52 a) mod field_p = fe_val a ^ nat (field_p - 2) mod field_p \<and>
    fe_mag 1 (fe_inv field_ops_5x52 a) \<and>
    (fe_val a ^ nat (field_p - 1) mod field_p = 1 \<longrightarrow> fe_val a * fe_val (fe_inv_var field_ops_5x52 a) mod field_p = 1)"
proof (intro conjI impI)
  have p: "nat (field_p - 1) = Suc (nat (field_p - 2))" by (simp add: field_p_def)
  show v: "fe_val (fe_inv field_ops_5x52 a) mod field_p = fe_val a ^ nat (field_p - 2) mod field_p"
    using f5.inv_chain [OF assms] by (simp add: f5.chain.pw_def)
  show "fe_val a * fe_val (fe_inv_var field_ops_5x52 a) mod field_p = 1" if "fe_val a ^ nat (field_p - 1) mod field_p = 1"
    using that v unfolding p power_Suc fe_inv_var_def by (metis mod_mult_right_eq)
qed (rule f5.inv_mag [OF assms])

theorem fe_inv_spec_witness:
  "fe_val (FE5 1 0 0 0 0) * fe_val (fe_inv_var field_ops_5x52 (FE5 1 0 0 0 0)) mod field_p = 1"
  using fe_inv_spec [of "FE5 1 0 0 0 0"] by (simp add: fe_mag_def limbs_le_def fe_val_def limbs_val_Cons field_p_def)

text \<open>\<open>fe_sqrt\<close> returns the power with exponent \<open>(p + 1) / 4\<close> and reports success exactly when its
  square is the input, also for inputs of magnitude 8.\<close>

theorem fe_sqrt_spec:
  assumes "fe_mag 8 a" and "fe_sqrt field_ops_5x52 a = (ok, r)"
  shows "fe_val r mod field_p = fe_val a ^ nat ((field_p + 1) div 4) mod field_p \<and> fe_mag 1 r \<and>
    (ok \<longleftrightarrow> fe_val r * fe_val r mod field_p = fe_val a mod field_p) \<and> fe_is_quad_var field_ops_5x52 a = ok"
proof -
  have e: "f5.fv r = of_int (fe_val r)" "f5.fv a = of_int (fe_val a)" by (simp_all add: f5.fv_def)
  note s = f5.sqrt_spec [OF assms(1), unfolded assms(2) fst_conv snd_conv e]
  show ?thesis
    using s unfolding of_int_power [symmetric] of_int_mult [symmetric] fp_eq_iff by (simp add: fe_is_quad_var_def assms(2))
qed

theorem fe_sqrt_spec_witness:
  "fe_val (snd (fe_sqrt field_ops_5x52 (FE5 4 0 0 0 0))) mod field_p = fe_val (FE5 4 0 0 0 0) ^ nat ((field_p + 1) div 4) mod field_p"
  using fe_sqrt_spec [of "FE5 4 0 0 0 0" "fst (fe_sqrt field_ops_5x52 (FE5 4 0 0 0 0))" "snd (fe_sqrt field_ops_5x52 (FE5 4 0 0 0 0))"]
  unfolding fe_mag_def limbs_le_def by simp

text \<open>The batch inversion uses one inversion for the whole array: every output times its input is
  the product of all inputs to the power \<open>p - 1\<close>, hence 1 when Fermat's equation holds for that product; the empty
  array is left alone.\<close>

theorem fe_inv_all_spec:
  assumes "len \<le> length r" and "\<forall>j<len. fe_mag 8 (a ! j)"
  shows "length (fe_inv_all_var field_ops_5x52 r a len) = length r \<and> (len = 0 \<longrightarrow> fe_inv_all_var field_ops_5x52 r a len = r) \<and>
    (\<forall>j<len. fe_mag 8 (fe_inv_all_var field_ops_5x52 r a len ! j) \<and>
      fe_val (fe_inv_all_var field_ops_5x52 r a len ! j) * fe_val (a ! j) mod field_p =
        (\<Prod>k<len. fe_val (a ! k)) ^ nat (field_p - 1) mod field_p)"
proof (cases "len = 0")
  case False
  have e: "f5.fv x = of_int (fe_val x)" for x by (simp add: f5.fv_def)
  show ?thesis
    using False f5.inv_all_var [OF _ assms, unfolded e of_int_mult [symmetric] of_int_prod [symmetric] of_int_power [symmetric] fp_eq_iff]
    by simp
qed (simp add: fe_inv_all_var_def)

theorem fe_inv_all_spec_witness:
  "fe_val (fe_inv_all_var field_ops_5x52 [FE5 7 7 7 7 7, FE5 0 0 0 0 0] [FE5 1 0 0 0 0, FE5 1 0 0 0 0] 2 ! 1) * fe_val (FE5 1 0 0 0 0) mod field_p = 1"
proof -
  have "\<forall>j<2. fe_mag 8 ([FE5 1 0 0 0 0, FE5 1 0 0 0 0] ! j)" by (simp add: fe_mag_def limbs_le_def less_Suc_eq numeral_2_eq_2)
  moreover have "fe_val (FE5 1 0 0 0 0) = 1" by (simp add: fe_val_def limbs_val_Cons)
  moreover from this have "(\<Prod>k<2. fe_val ([FE5 1 0 0 0 0, FE5 1 0 0 0 0] ! k)) = 1" by (simp add: numeral_2_eq_2)
  ultimately show ?thesis
    using fe_inv_all_spec [of 2 "[FE5 7 7 7 7 7, FE5 0 0 0 0 0]" "[FE5 1 0 0 0 0, FE5 1 0 0 0 0]",
      THEN conjunct2, THEN conjunct2, rule_format, of 1] by (simp add: field_p_def)
qed

text \<open>The bound 2047 is sharp. An element with all limbs at the bound of magnitude 2048, which
  \<open>fe_verify\<close> accepts, wraps around in the first carry of the normalization and comes out as another residue.\<close>

theorem fe_normalize_limit:
  "\<exists>r. fe_verify_5x52 r 2048 False \<and> fe_val (fe_normalize_5x52 r) mod field_p \<noteq> fe_val r mod field_p"
  by (rule exI [of _ "FE5 0xFFFFFFFFFFFFF000 0xFFFFFFFFFFFFF000 0xFFFFFFFFFFFFF000 0xFFFFFFFFFFFFF000 0xFFFFFFFFFFFF000"])
    (simp add: fe_eval fe_normalize_5x52_def fe_pass_5x52_def Let_def)

end
