(* ===== verification/Group.thy ===== *)
theory Group
  imports Field
begin

text \<open>
  The group code of \<open>group_impl.h\<close>: affine (\<open>ge\<close>) and Jacobian (\<open>gej\<close>) points and their arithmetic, over the
  field operations of theory \<open>Field\<close>. An out-parameter whose old contents can survive a call is an argument of
  the function as well; the optional \<open>rzr\<close> pointer is an option, with \<open>None\<close> for a null pointer. The \<open>int\<close> field
  \<open>infinity\<close>, which the code checks to be 0 or 1, is a truth value.

  The lemmas state each operation as polynomial identities over the residues \<open>fp\<close> and derive from them that the
  Jacobian formulas compute the chord and tangent construction on the points they represent.
\<close>

subsection \<open>Points (group.h)\<close>

record 'fe ge =
  gx :: 'fe
  gy :: 'fe
  ginf :: bool

record 'fe gej =
  jx :: 'fe
  jy :: 'fe
  jz :: 'fe
  jinf :: bool

record 'st ge_storage =
  sx :: 'st
  sy :: 'st

definition CURVE_B :: u32 where
  "CURVE_B = 7"

definition ge_const_g :: "('fe, 'st) field_ops \<Rightarrow> 'fe ge" where
  "ge_const_g ops = \<lparr>
    gx = fe_const ops 0x79BE667E 0xF9DCBBAC 0x55A06295 0xCE870B07 0x029BFCDB 0x2DCE28D9 0x59F2815B 0x16F81798,
    gy = fe_const ops 0x483ADA77 0x26A3C465 0x5DA4FBFC 0x0E1108A8 0xFD17B448 0xA6855419 0x9C47D08F 0xFB10D4B8,
    ginf = False\<rparr>"

subsection \<open>Conversions between coordinates\<close>

definition ge_set_gej_zinv :: "('fe, 'st) field_ops \<Rightarrow> 'fe gej \<Rightarrow> 'fe \<Rightarrow> 'fe ge" where
  "ge_set_gej_zinv ops a zi =
    (let zi2 = fe_sqr ops zi;
         zi3 = fe_mul ops zi2 zi;
         rx = fe_mul ops (jx a) zi2;
         ry = fe_mul ops (jy a) zi3
     in \<lparr>gx = rx, gy = ry, ginf = jinf a\<rparr>)"

definition ge_set_xy :: "'fe \<Rightarrow> 'fe \<Rightarrow> 'fe ge" where
  "ge_set_xy x y = \<lparr>gx = x, gy = y, ginf = False\<rparr>"

definition ge_is_infinity :: "'fe ge \<Rightarrow> bool" where
  "ge_is_infinity a = ginf a"

definition ge_neg :: "('fe, 'st) field_ops \<Rightarrow> 'fe ge \<Rightarrow> 'fe ge" where
  "ge_neg ops a =
    (let r = a;
         r = r\<lparr>gy := fe_normalize_weak ops (gy r)\<rparr>;
         r = r\<lparr>gy := fe_negate ops (gy r) 1\<rparr>
     in r)"

text \<open>The next two functions also rewrite their argument, which is the second component of the result.\<close>

definition ge_set_gej :: "('fe, 'st) field_ops \<Rightarrow> 'fe gej \<Rightarrow> 'fe ge \<times> 'fe gej" where
  "ge_set_gej ops a =
    (let az = fe_inv ops (jz a);
         z2 = fe_sqr ops az;
         z3 = fe_mul ops az z2;
         ax = fe_mul ops (jx a) z2;
         ay = fe_mul ops (jy a) z3;
         az = fe_set_int ops 1
     in (\<lparr>gx = ax, gy = ay, ginf = jinf a\<rparr>, a\<lparr>jx := ax, jy := ay, jz := az\<rparr>))"

definition ge_set_gej_var :: "('fe, 'st) field_ops \<Rightarrow> 'fe ge \<Rightarrow> 'fe gej \<Rightarrow> 'fe ge \<times> 'fe gej" where
  "ge_set_gej_var ops r a =
    (if jinf a then (r\<lparr>ginf := jinf a\<rparr>, a)
     else let az = fe_inv_var ops (jz a);
              z2 = fe_sqr ops az;
              z3 = fe_mul ops az z2;
              ax = fe_mul ops (jx a) z2;
              ay = fe_mul ops (jy a) z3;
              az = fe_set_int ops 1
          in (\<lparr>gx = ax, gy = ay, ginf = jinf a\<rparr>, a\<lparr>jx := ax, jy := ay, jz := az\<rparr>))"

text \<open>The batch conversion. \<open>azi\<close> stands for the freshly allocated block that receives the inverses.\<close>

fun ge_set_all_loop :: "('fe, 'st) field_ops \<Rightarrow> 'fe ge list \<Rightarrow> 'fe gej list \<Rightarrow> 'fe list \<Rightarrow> nat \<Rightarrow> 'fe ge list" where
  "ge_set_all_loop ops (r # rs) (a # as) azi count =
    (if jinf a then r\<lparr>ginf := jinf a\<rparr> # ge_set_all_loop ops rs as azi count
     else ge_set_gej_zinv ops a (azi ! count) # ge_set_all_loop ops rs as azi (count + 1))"
| "ge_set_all_loop ops rs as azi count = rs"

definition ge_set_all_gej_var :: "('fe, 'st) field_ops \<Rightarrow> 'fe list \<Rightarrow> 'fe ge list \<Rightarrow> 'fe gej list \<Rightarrow> 'fe ge list" where
  "ge_set_all_gej_var ops azi r a =
    (let az = map jz (filter (\<lambda>p. \<not> jinf p) a);
         count = length az;
         azi = fe_inv_all_var ops azi az count
     in ge_set_all_loop ops r a azi 0)"

fun ge_set_table_loop :: "('fe, 'st) field_ops \<Rightarrow> 'fe gej list \<Rightarrow> 'fe list \<Rightarrow> 'fe ge list \<Rightarrow> 'fe \<Rightarrow> nat \<Rightarrow> 'fe ge list" where
  "ge_set_table_loop ops a zr r zi 0 = r"
| "ge_set_table_loop ops a zr r zi (Suc i) =
    (let zi = fe_mul ops zi (zr ! Suc i)
     in ge_set_table_loop ops a zr (r[i := ge_set_gej_zinv ops (a ! i) zi]) zi i)"

definition ge_set_table_gej_var ::
  "('fe, 'st) field_ops \<Rightarrow> 'fe ge list \<Rightarrow> 'fe gej list \<Rightarrow> 'fe list \<Rightarrow> nat \<Rightarrow> 'fe ge list" where
  "ge_set_table_gej_var ops r a zr len =
    (if len > 0
     then let i = len - 1;
              zi = fe_inv ops (jz (a ! i));
              r = r[i := ge_set_gej_zinv ops (a ! i) zi]
          in ge_set_table_loop ops a zr r zi i
     else r)"

fun ge_globalz_loop :: "('fe, 'st) field_ops \<Rightarrow> nat \<Rightarrow> 'fe gej list \<Rightarrow> 'fe list \<Rightarrow> 'fe ge list \<Rightarrow> 'fe \<Rightarrow> nat \<Rightarrow> 'fe ge list" where
  "ge_globalz_loop ops len a zr r zs 0 = r"
| "ge_globalz_loop ops len a zr r zs (Suc i) =
    (let zs = if Suc i \<noteq> len - 1 then fe_mul ops zs (zr ! Suc i) else zs
     in ge_globalz_loop ops len a zr (r[i := ge_set_gej_zinv ops (a ! i) zs]) zs i)"

definition ge_globalz_set_table_gej ::
  "('fe, 'st) field_ops \<Rightarrow> nat \<Rightarrow> 'fe ge list \<Rightarrow> 'fe \<Rightarrow> 'fe gej list \<Rightarrow> 'fe list \<Rightarrow> 'fe ge list \<times> 'fe" where
  "ge_globalz_set_table_gej ops len r globalz a zr =
    (if len > 0
     then let i = len - 1;
              r = r[i := \<lparr>gx = jx (a ! i), gy = jy (a ! i), ginf = False\<rparr>];
              globalz = jz (a ! i);
              zs = zr ! i
          in (ge_globalz_loop ops len a zr r zs i, globalz)
     else (r, globalz))"

subsection \<open>Special points, decompression and validity\<close>

definition gej_set_infinity :: "('fe, 'st) field_ops \<Rightarrow> 'fe gej \<Rightarrow> 'fe gej" where
  "gej_set_infinity ops r = \<lparr>jx = fe_clear ops (jx r), jy = fe_clear ops (jy r), jz = fe_clear ops (jz r), jinf = True\<rparr>"

definition gej_clear :: "('fe, 'st) field_ops \<Rightarrow> 'fe gej \<Rightarrow> 'fe gej" where
  "gej_clear ops r = \<lparr>jx = fe_clear ops (jx r), jy = fe_clear ops (jy r), jz = fe_clear ops (jz r), jinf = False\<rparr>"

definition ge_clear :: "('fe, 'st) field_ops \<Rightarrow> 'fe ge \<Rightarrow> 'fe ge" where
  "ge_clear ops r = \<lparr>gx = fe_clear ops (gx r), gy = fe_clear ops (gy r), ginf = False\<rparr>"

definition ge_set_xquad :: "('fe, 'st) field_ops \<Rightarrow> 'fe \<Rightarrow> bool \<times> 'fe ge" where
  "ge_set_xquad ops x =
    (let x2 = fe_sqr ops x;
         x3 = fe_mul ops x x2;
         c = fe_set_int ops CURVE_B;
         c = fe_add ops c x3;
         (ok, y) = fe_sqrt ops c
     in (ok, \<lparr>gx = x, gy = y, ginf = False\<rparr>))"

definition ge_set_xo_var :: "('fe, 'st) field_ops \<Rightarrow> 'fe \<Rightarrow> int \<Rightarrow> bool \<times> 'fe ge" where
  "ge_set_xo_var ops x parity =
    (let (ok, r) = ge_set_xquad ops x
     in if \<not> ok then (False, r)
        else let r = r\<lparr>gy := fe_normalize_var ops (gy r)\<rparr>;
                 r = if of_bool (fe_is_odd ops (gy r)) \<noteq> parity then r\<lparr>gy := fe_negate ops (gy r) 1\<rparr> else r
             in (True, r))"

definition gej_set_ge :: "('fe, 'st) field_ops \<Rightarrow> 'fe ge \<Rightarrow> 'fe gej" where
  "gej_set_ge ops a = \<lparr>jx = gx a, jy = gy a, jz = fe_set_int ops 1, jinf = ginf a\<rparr>"

definition gej_eq_x_var :: "('fe, 'st) field_ops \<Rightarrow> 'fe \<Rightarrow> 'fe gej \<Rightarrow> bool" where
  "gej_eq_x_var ops x a =
    (let r = fe_sqr ops (jz a);
         r = fe_mul ops r x;
         r2 = fe_normalize_weak ops (jx a)
     in fe_equal_var ops r r2)"

definition gej_neg :: "('fe, 'st) field_ops \<Rightarrow> 'fe gej \<Rightarrow> 'fe gej" where
  "gej_neg ops a =
    (let ry = fe_normalize_weak ops (jy a);
         ry = fe_negate ops ry 1
     in \<lparr>jx = jx a, jy = ry, jz = jz a, jinf = jinf a\<rparr>)"

definition gej_is_infinity :: "'fe gej \<Rightarrow> bool" where
  "gej_is_infinity a = jinf a"

definition gej_is_valid_var :: "('fe, 'st) field_ops \<Rightarrow> 'fe gej \<Rightarrow> bool" where
  "gej_is_valid_var ops a =
    (if jinf a then False
     else let y2 = fe_sqr ops (jy a);
              x3 = fe_sqr ops (jx a);
              x3 = fe_mul ops x3 (jx a);
              z2 = fe_sqr ops (jz a);
              z6 = fe_sqr ops z2;
              z6 = fe_mul ops z6 z2;
              z6 = fe_mul_int ops z6 CURVE_B;
              x3 = fe_add ops x3 z6;
              x3 = fe_normalize_weak ops x3
          in fe_equal_var ops y2 x3)"

definition ge_is_valid_var :: "('fe, 'st) field_ops \<Rightarrow> 'fe ge \<Rightarrow> bool" where
  "ge_is_valid_var ops a =
    (if ginf a then False
     else let y2 = fe_sqr ops (gy a);
              x3 = fe_sqr ops (gx a);
              x3 = fe_mul ops x3 (gx a);
              c = fe_set_int ops CURVE_B;
              x3 = fe_add ops x3 c;
              x3 = fe_normalize_weak ops x3
          in fe_equal_var ops y2 x3)"

subsection \<open>Doubling and addition\<close>

definition gej_double_var :: "('fe, 'st) field_ops \<Rightarrow> 'fe gej \<Rightarrow> 'fe gej \<Rightarrow> 'fe option \<Rightarrow> 'fe gej \<times> 'fe option" where
  "gej_double_var ops r a rzr =
    (if jinf a then (r\<lparr>jinf := jinf a\<rparr>, map_option (\<lambda>_. fe_set_int ops 1) rzr)
     else
       let rzr = map_option (\<lambda>_. fe_mul_int ops (fe_normalize_weak ops (jy a)) 2) rzr;
           rz = fe_mul ops (jz a) (jy a);
           rz = fe_mul_int ops rz 2;
           t1 = fe_sqr ops (jx a);
           t1 = fe_mul_int ops t1 3;
           t2 = fe_sqr ops t1;
           t3 = fe_sqr ops (jy a);
           t3 = fe_mul_int ops t3 2;
           t4 = fe_sqr ops t3;
           t4 = fe_mul_int ops t4 2;
           t3 = fe_mul ops t3 (jx a);
           rx = t3;
           rx = fe_mul_int ops rx 4;
           rx = fe_negate ops rx 4;
           rx = fe_add ops rx t2;
           t2 = fe_negate ops t2 1;
           t3 = fe_mul_int ops t3 6;
           t3 = fe_add ops t3 t2;
           ry = fe_mul ops t1 t3;
           t2 = fe_negate ops t4 2;
           ry = fe_add ops ry t2
       in (\<lparr>jx = rx, jy = ry, jz = rz, jinf = jinf a\<rparr>, rzr))"

definition gej_double_nonzero :: "('fe, 'st) field_ops \<Rightarrow> 'fe gej \<Rightarrow> 'fe gej \<Rightarrow> 'fe option \<Rightarrow> 'fe gej \<times> 'fe option" where
  "gej_double_nonzero ops r a rzr = gej_double_var ops r a rzr"

text \<open>The three variable time additions end with the same statements, from the squares of \<open>i\<close> and \<open>h\<close> to the
  coordinates \<open>x\<close> and \<open>y\<close> of the sum.\<close>

definition gej_add_finish :: "('fe, 'st) field_ops \<Rightarrow> 'fe \<Rightarrow> 'fe \<Rightarrow> 'fe \<Rightarrow> 'fe \<Rightarrow> 'fe \<times> 'fe" where
  "gej_add_finish ops u1 s1 h i =
    (let i2 = fe_sqr ops i;
         h2 = fe_sqr ops h;
         h3 = fe_mul ops h h2;
         t = fe_mul ops u1 h2;
         rx = t;
         rx = fe_mul_int ops rx 2;
         rx = fe_add ops rx h3;
         rx = fe_negate ops rx 3;
         rx = fe_add ops rx i2;
         ry = fe_negate ops rx 5;
         ry = fe_add ops ry t;
         ry = fe_mul ops ry i;
         h3 = fe_mul ops h3 s1;
         h3 = fe_negate ops h3 1;
         ry = fe_add ops ry h3
     in (rx, ry))"

definition gej_add_var ::
  "('fe, 'st) field_ops \<Rightarrow> 'fe gej \<Rightarrow> 'fe gej \<Rightarrow> 'fe gej \<Rightarrow> 'fe option \<Rightarrow> 'fe gej \<times> 'fe option" where
  "gej_add_var ops r a b rzr =
    (if jinf a then (b, rzr)
     else if jinf b then (a, map_option (\<lambda>_. fe_set_int ops 1) rzr)
     else
       let r = r\<lparr>jinf := False\<rparr>;
           z22 = fe_sqr ops (jz b);
           z12 = fe_sqr ops (jz a);
           u1 = fe_mul ops (jx a) z22;
           u2 = fe_mul ops (jx b) z12;
           s1 = fe_mul ops (jy a) z22;
           s1 = fe_mul ops s1 (jz b);
           s2 = fe_mul ops (jy b) z12;
           s2 = fe_mul ops s2 (jz a);
           h = fe_negate ops u1 1;
           h = fe_add ops h u2;
           i = fe_negate ops s1 1;
           i = fe_add ops i s2
       in if fe_normalizes_to_zero_var ops h
          then (if fe_normalizes_to_zero_var ops i then gej_double_var ops r a rzr
                else (r\<lparr>jinf := True\<rparr>, map_option (\<lambda>_. fe_set_int ops 0) rzr))
          else case gej_add_finish ops u1 s1 h i of (rx, ry) \<Rightarrow>
               let h = fe_mul ops h (jz b);
                   rz = fe_mul ops (jz a) h
               in (\<lparr>jx = rx, jy = ry, jz = rz, jinf = False\<rparr>, map_option (\<lambda>_. h) rzr))"

definition gej_add_ge_var ::
  "('fe, 'st) field_ops \<Rightarrow> 'fe gej \<Rightarrow> 'fe gej \<Rightarrow> 'fe ge \<Rightarrow> 'fe option \<Rightarrow> 'fe gej \<times> 'fe option" where
  "gej_add_ge_var ops r a b rzr =
    (if jinf a then (gej_set_ge ops b, rzr)
     else if ginf b then (a, map_option (\<lambda>_. fe_set_int ops 1) rzr)
     else
       let r = r\<lparr>jinf := False\<rparr>;
           z12 = fe_sqr ops (jz a);
           u1 = fe_normalize_weak ops (jx a);
           u2 = fe_mul ops (gx b) z12;
           s1 = fe_normalize_weak ops (jy a);
           s2 = fe_mul ops (gy b) z12;
           s2 = fe_mul ops s2 (jz a);
           h = fe_negate ops u1 1;
           h = fe_add ops h u2;
           i = fe_negate ops s1 1;
           i = fe_add ops i s2
       in if fe_normalizes_to_zero_var ops h
          then (if fe_normalizes_to_zero_var ops i then gej_double_var ops r a rzr
                else (r\<lparr>jinf := True\<rparr>, map_option (\<lambda>_. fe_set_int ops 0) rzr))
          else case gej_add_finish ops u1 s1 h i of (rx, ry) \<Rightarrow>
               let rz = fe_mul ops (jz a) h
               in (\<lparr>jx = rx, jy = ry, jz = rz, jinf = False\<rparr>, map_option (\<lambda>_. h) rzr))"

definition gej_add_zinv_var ::
  "('fe, 'st) field_ops \<Rightarrow> 'fe gej \<Rightarrow> 'fe gej \<Rightarrow> 'fe ge \<Rightarrow> 'fe \<Rightarrow> 'fe gej" where
  "gej_add_zinv_var ops r a b bzinv =
    (if ginf b then a
     else if jinf a then
       let bzinv2 = fe_sqr ops bzinv;
           bzinv3 = fe_mul ops bzinv2 bzinv;
           rx = fe_mul ops (gx b) bzinv2;
           ry = fe_mul ops (gy b) bzinv3;
           rz = fe_set_int ops 1
       in \<lparr>jx = rx, jy = ry, jz = rz, jinf = ginf b\<rparr>
     else
       let r = r\<lparr>jinf := False\<rparr>;
           az = fe_mul ops (jz a) bzinv;
           z12 = fe_sqr ops az;
           u1 = fe_normalize_weak ops (jx a);
           u2 = fe_mul ops (gx b) z12;
           s1 = fe_normalize_weak ops (jy a);
           s2 = fe_mul ops (gy b) z12;
           s2 = fe_mul ops s2 az;
           h = fe_negate ops u1 1;
           h = fe_add ops h u2;
           i = fe_negate ops s1 1;
           i = fe_add ops i s2
       in if fe_normalizes_to_zero_var ops h
          then (if fe_normalizes_to_zero_var ops i then fst (gej_double_var ops r a None)
                else r\<lparr>jinf := True\<rparr>)
          else case gej_add_finish ops u1 s1 h i of (rx, ry) \<Rightarrow>
               let rz = fe_mul ops (jz a) h
               in \<lparr>jx = rx, jy = ry, jz = rz, jinf = False\<rparr>)"

text \<open>The constant time addition. Its first half computes numerator and denominator of the slope, with the alternative
  expressions where the unified formula degenerates.\<close>

definition gej_add_ge_slope :: "('fe, 'st) field_ops \<Rightarrow> 'fe gej \<Rightarrow> 'fe ge \<Rightarrow> 'fe \<times> 'fe \<times> 'fe \<times> 'fe \<times> bool" where
  "gej_add_ge_slope ops a b =
    (let zz = fe_sqr ops (jz a);
         u1 = fe_normalize_weak ops (jx a);
         u2 = fe_mul ops (gx b) zz;
         s1 = fe_normalize_weak ops (jy a);
         s2 = fe_mul ops (gy b) zz;
         s2 = fe_mul ops s2 (jz a);
         t = fe_add ops u1 u2;
         m = fe_add ops s1 s2;
         rr = fe_sqr ops t;
         m_alt = fe_negate ops u2 1;
         tt = fe_mul ops u1 m_alt;
         rr = fe_add ops rr tt;
         degenerate = (fe_normalizes_to_zero ops m \<and> fe_normalizes_to_zero ops rr);
         rr_alt = s1;
         rr_alt = fe_mul_int ops rr_alt 2;
         m_alt = fe_add ops m_alt u1;
         rr_alt = fe_cmov ops rr_alt rr (of_bool (\<not> degenerate));
         m_alt = fe_cmov ops m_alt m (of_bool (\<not> degenerate))
     in (t, m, rr_alt, m_alt, degenerate))"

definition gej_add_ge :: "('fe, 'st) field_ops \<Rightarrow> 'fe gej \<Rightarrow> 'fe ge \<Rightarrow> 'fe gej" where
  "gej_add_ge ops a b =
    (case gej_add_ge_slope ops a b of (t, m, rr_alt, m_alt, degenerate) \<Rightarrow>
     let fe_1 = fe_const ops 0 0 0 0 0 0 0 1;
         n = fe_sqr ops m_alt;
         q = fe_mul ops n t;
         n = fe_sqr ops n;
         n = fe_cmov ops n m (of_bool degenerate);
         t = fe_sqr ops rr_alt;
         rz = fe_mul ops (jz a) m_alt;
         infinity = (fe_normalizes_to_zero ops rz \<and> \<not> jinf a);
         rz = fe_mul_int ops rz 2;
         q = fe_negate ops q 1;
         t = fe_add ops t q;
         t = fe_normalize_weak ops t;
         rx = t;
         t = fe_mul_int ops t 2;
         t = fe_add ops t q;
         t = fe_mul ops t rr_alt;
         t = fe_add ops t n;
         ry = fe_negate ops t 3;
         ry = fe_normalize_weak ops ry;
         rx = fe_mul_int ops rx 4;
         ry = fe_mul_int ops ry 4;
         rx = fe_cmov ops rx (gx b) (of_bool (jinf a));
         ry = fe_cmov ops ry (gy b) (of_bool (jinf a));
         rz = fe_cmov ops rz fe_1 (of_bool (jinf a))
     in \<lparr>jx = rx, jy = ry, jz = rz, jinf = infinity\<rparr>)"

definition gej_rescale :: "('fe, 'st) field_ops \<Rightarrow> 'fe gej \<Rightarrow> 'fe \<Rightarrow> 'fe gej" where
  "gej_rescale ops r s =
    (let zz = fe_sqr ops s;
         rx = fe_mul ops (jx r) zz;
         ry = fe_mul ops (jy r) zz;
         ry = fe_mul ops ry s;
         rz = fe_mul ops (jz r) s
     in r\<lparr>jx := rx, jy := ry, jz := rz\<rparr>)"

subsection \<open>Storage, the endomorphism and the quadratic residue test\<close>

definition ge_to_storage :: "('fe, 'st) field_ops \<Rightarrow> 'fe ge \<Rightarrow> 'st ge_storage" where
  "ge_to_storage ops a =
    (let x = fe_normalize ops (gx a);
         y = fe_normalize ops (gy a)
     in \<lparr>sx = fe_to_storage ops x, sy = fe_to_storage ops y\<rparr>)"

definition ge_from_storage :: "('fe, 'st) field_ops \<Rightarrow> 'st ge_storage \<Rightarrow> 'fe ge" where
  "ge_from_storage ops a = \<lparr>gx = fe_from_storage ops (sx a), gy = fe_from_storage ops (sy a), ginf = False\<rparr>"

definition ge_storage_cmov :: "('fe, 'st) field_ops \<Rightarrow> 'st ge_storage \<Rightarrow> 'st ge_storage \<Rightarrow> u32 \<Rightarrow> 'st ge_storage" where
  "ge_storage_cmov ops r a flag =
    \<lparr>sx = fe_storage_cmov ops (sx r) (sx a) flag, sy = fe_storage_cmov ops (sy r) (sy a) flag\<rparr>"

definition ge_mul_lambda :: "('fe, 'st) field_ops \<Rightarrow> 'fe ge \<Rightarrow> 'fe ge" where
  "ge_mul_lambda ops a =
    (let beta = fe_const ops 0x7ae96a2b 0x657c0710 0x6e64479e 0xac3434e9 0x9cf04975 0x12f58995 0xc1396c28 0x719501ee
     in a\<lparr>gx := fe_mul ops (gx a) beta\<rparr>)"

definition gej_has_quad_y_var :: "('fe, 'st) field_ops \<Rightarrow> 'fe gej \<Rightarrow> bool" where
  "gej_has_quad_y_var ops a =
    (if jinf a then False
     else let yz = fe_mul ops (jy a) (jz a)
          in fe_is_quad_var ops yz)"

subsection \<open>Points of the curve and their addition\<close>

text \<open>The affine points over the residues and the chord and tangent construction. Divisions are by units of the
  residue ring, which is what the field inverse needs.\<close>

datatype point = Infinity | Affine fp fp

fun on_curve :: "point \<Rightarrow> bool" where
  "on_curve Infinity \<longleftrightarrow> True"
| "on_curve (Affine x y) \<longleftrightarrow> y ^ 2 = x ^ 3 + 7"

text \<open>The curves with the same \<open>x\<close> and \<open>y\<close> terms; the tables of multiples are computed on an isomorphic one.\<close>

fun on_curve_b :: "fp \<Rightarrow> point \<Rightarrow> bool" where
  "on_curve_b b Infinity \<longleftrightarrow> True"
| "on_curve_b b (Affine x y) \<longleftrightarrow> y ^ 2 = x ^ 3 + b"

inductive ec_add :: "point \<Rightarrow> point \<Rightarrow> point \<Rightarrow> bool" where
  left: "ec_add Infinity Q Q"
| right: "ec_add P Infinity P"
| opposite: "2 * y dvd 1 \<Longrightarrow> ec_add (Affine x y) (Affine x (- y)) Infinity"
| tangent: "2 * y dvd 1 \<Longrightarrow> 2 * y * l = 3 * x ^ 2 \<Longrightarrow> x3 = l ^ 2 - 2 * x \<Longrightarrow> y3 = l * (x - x3) - y \<Longrightarrow>
    ec_add (Affine x y) (Affine x y) (Affine x3 y3)"
| chord: "x2 - x1 dvd 1 \<Longrightarrow> (x2 - x1) * l = y2 - y1 \<Longrightarrow> x3 = l ^ 2 - x1 - x2 \<Longrightarrow> y3 = l * (x1 - x3) - y1 \<Longrightarrow>
    ec_add (Affine x1 y1) (Affine x2 y2) (Affine x3 y3)"

inductive_cases ec_add_infinityE: "ec_add Infinity Q R" "ec_add P Infinity R"

definition gej_rep :: "('fe \<Rightarrow> fp) \<Rightarrow> 'fe gej \<Rightarrow> point \<Rightarrow> bool" where
  "gej_rep fv a P = (case P of Infinity \<Rightarrow> jinf a
    | Affine x y \<Rightarrow> \<not> jinf a \<and> fv (jz a) dvd 1 \<and> fv (jx a) = x * fv (jz a) ^ 2 \<and> fv (jy a) = y * fv (jz a) ^ 3)"

definition ge_rep :: "('fe \<Rightarrow> fp) \<Rightarrow> 'fe ge \<Rightarrow> point \<Rightarrow> bool" where
  "ge_rep fv a P = (case P of Infinity \<Rightarrow> ginf a | Affine x y \<Rightarrow> \<not> ginf a \<and> fv (gx a) = x \<and> fv (gy a) = y)"

definition gej_ok :: "(nat \<Rightarrow> 'fe \<Rightarrow> bool) \<Rightarrow> 'fe gej \<Rightarrow> bool" where
  "gej_ok mag a \<longleftrightarrow> mag 8 (jx a) \<and> mag 8 (jy a) \<and> mag 8 (jz a)"

definition ge_ok :: "(nat \<Rightarrow> 'fe \<Rightarrow> bool) \<Rightarrow> 'fe ge \<Rightarrow> bool" where
  "ge_ok mag a \<longleftrightarrow> mag 8 (gx a) \<and> mag 8 (gy a)"

definition zr_ok :: "('fe \<Rightarrow> fp) \<Rightarrow> (nat \<Rightarrow> 'fe \<Rightarrow> bool) \<Rightarrow> 'fe gej list \<Rightarrow> 'fe list \<Rightarrow> nat \<Rightarrow> bool" where
  "zr_ok fv mag a zr len \<longleftrightarrow> (\<forall>i<len. gej_ok mag (a ! i) \<and> mag 8 (zr ! i) \<and> \<not> jinf (a ! i)) \<and>
    (\<forall>i. Suc i < len \<longrightarrow> fv (jz (a ! Suc i)) = fv (jz (a ! i)) * fv (zr ! Suc i))"

fun ec_neg :: "point \<Rightarrow> point" where
  "ec_neg Infinity = Infinity"
| "ec_neg (Affine x y) = Affine x (- y)"

definition field_beta :: int where
  "field_beta = 0x7ae96a2b657c07106e64479eac3434e99cf0497512f58995c1396c28719501ee"

subsection \<open>Units and the uniqueness of sums\<close>

lemma unit_cancel: "(u :: fp) dvd 1 \<Longrightarrow> u * a = u * b \<longleftrightarrow> a = b"
  by (metis dvdE mult.assoc mult.commute mult_1)

lemma unit_cancel_0: "(u :: fp) dvd 1 \<Longrightarrow> u * a = 0 \<longleftrightarrow> a = 0"
  using unit_cancel [of u a 0] by simp

lemma unit_power: "(u :: fp) dvd 1 \<Longrightarrow> u ^ n dvd 1"
  using dvd_power_same [of u 1 n] by simp

lemma unit_mult: "(u :: fp) dvd 1 \<Longrightarrow> v dvd 1 \<Longrightarrow> u * v dvd 1"
  using mult_dvd_mono [of u 1 v 1] by simp

lemma not_unit_0: "\<not> (0 :: fp) dvd 1"
  by simp

lemma two_unit: "(2 :: fp) dvd 1"
proof -
  have "(of_int (2 * ((field_p + 1) div 2)) :: fp) = of_int 1"
    unfolding fp_eq_iff by (simp add: field_p_def)
  then have "(1 :: fp) = 2 * of_int ((field_p + 1) div 2)" by (simp only: of_int_mult of_int_numeral of_int_1)
  then show ?thesis by (rule dvdI)
qed

lemmas ring_norm = algebra_simps power2_eq_square power3_eq_cube power4_eq_xxxx power_numeral_reduce

lemma ec_add_affineE:
  assumes "ec_add (Affine x1 y1) (Affine x2 y2) R"
  obtains (opposite) "R = Infinity" "x2 = x1" "y2 = - y1" "2 * y1 dvd 1"
    | (tangent) l x3 y3 where "x2 = x1" "y2 = y1" "2 * y1 dvd 1" "2 * y1 * l = 3 * x1 ^ 2" "x3 = l ^ 2 - 2 * x1"
        "y3 = l * (x1 - x3) - y1" "R = Affine x3 y3"
    | (chord) l x3 y3 where "x2 - x1 dvd 1" "(x2 - x1) * l = y2 - y1" "x3 = l ^ 2 - x1 - x2"
        "y3 = l * (x1 - x3) - y1" "R = Affine x3 y3"
  using assms by (cases rule: ec_add.cases) blast+

lemma not_self_opposite: "2 * y dvd (1 :: fp) \<Longrightarrow> - y = y \<longleftrightarrow> False"
  by (metis add.right_inverse mult_2 not_unit_0)

lemma ec_add_unique: "ec_add P Q R \<Longrightarrow> ec_add P Q R' \<Longrightarrow> R = R'"
proof (induction rule: ec_add.induct)
  case (opposite y x)
  from opposite(2) show ?case by (cases rule: ec_add_affineE) (use opposite not_self_opposite [of y] in auto)
next
  case (tangent y l x x3 y3)
  from tangent(5) show ?case
  proof (cases rule: ec_add_affineE)
    case (tangent l' x3' y3')
    moreover from this have "l' = l" using unit_cancel [OF \<open>2 * y dvd 1\<close>] \<open>2 * y * l = 3 * x ^ 2\<close> by metis
    ultimately show ?thesis using \<open>x3 = _\<close> \<open>y3 = _\<close> by simp
  qed (use tangent not_self_opposite [of y] in auto)
next
  case (chord x2 x1 l y2 y1 x3 y3)
  from chord(5) show ?case
  proof (cases rule: ec_add_affineE)
    case (chord l' x3' y3')
    moreover from this have "l' = l" using unit_cancel [OF \<open>x2 - x1 dvd 1\<close>] \<open>(x2 - x1) * l = y2 - y1\<close> by metis
    ultimately show ?thesis using \<open>x3 = _\<close> \<open>y3 = _\<close> by simp
  qed (use chord in auto)
qed (auto elim: ec_add_infinityE)

lemma slope_identity:
  fixes x1 :: fp
  assumes "y1 ^ 2 = x1 ^ 3 + b" "l * (2 * y1 + l * (x2 - x1)) = x1 ^ 2 + x1 * x2 + x2 ^ 2" "x3 = l ^ 2 - x1 - x2"
  shows "(l * (x1 - x3) - y1) ^ 2 = x3 ^ 3 + b"
proof -
  have "(l * (x1 - x3) - y1) ^ 2 - (x3 ^ 3 + b) =
      (y1 ^ 2 - (x1 ^ 3 + b)) + (x3 - x1) * (l * (2 * y1 + l * (x2 - x1)) - (x1 ^ 2 + x1 * x2 + x2 ^ 2))"
    unfolding assms(3) by (simp add: ring_norm)
  then show ?thesis using assms(1,2) by simp
qed

lemma ec_add_on_curve_b: "ec_add P Q R \<Longrightarrow> on_curve_b b P \<Longrightarrow> on_curve_b b Q \<Longrightarrow> on_curve_b b R"
proof (induction rule: ec_add.induct)
  case (tangent y l x x3 y3)
  have "l * (2 * y + l * (x - x)) = 2 * y * l" by (simp add: mult.commute)
  also have "\<dots> = x ^ 2 + x * x + x ^ 2" unfolding tangent(2) by (simp add: power2_eq_square)
  finally have "l * (2 * y + l * (x - x)) = x ^ 2 + x * x + x ^ 2" .
  moreover have "x3 = l ^ 2 - x - x" unfolding tangent(3) by (simp only: mult_2 diff_diff_eq)
  moreover have "y ^ 2 = x ^ 3 + b" using tangent(5) by simp
  ultimately have "(l * (x - x3) - y) ^ 2 = x3 ^ 3 + b" by (intro slope_identity)
  then show ?case unfolding tangent(4) by simp
next
  case (chord x2 x1 l y2 y1 x3 y3)
  have "(x2 - x1) * (l * (y1 + y2)) = (y2 - y1) * (y1 + y2)" using chord(2) by (simp add: mult.assoc [symmetric])
  also have "\<dots> = y2 ^ 2 - y1 ^ 2" by (simp add: ring_norm)
  also have "\<dots> = (x2 - x1) * (x1 ^ 2 + x1 * x2 + x2 ^ 2)" using chord(5,6) by (simp add: ring_norm)
  finally have "l * (y1 + y2) = x1 ^ 2 + x1 * x2 + x2 ^ 2" using unit_cancel [OF chord(1)] by blast
  moreover have "y2 = y1 + l * (x2 - x1)" using chord(2) by (simp add: algebra_simps)
  ultimately have "l * (2 * y1 + l * (x2 - x1)) = x1 ^ 2 + x1 * x2 + x2 ^ 2" by (simp add: algebra_simps)
  moreover have "y1 ^ 2 = x1 ^ 3 + b" using chord(5) by simp
  ultimately have "(l * (x1 - x3) - y1) ^ 2 = x3 ^ 3 + b" using chord(3) by (intro slope_identity)
  then show ?case unfolding chord(4) by simp
qed simp_all

lemma on_curve_b_7: "on_curve P \<longleftrightarrow> on_curve_b 7 P"
  by (cases P) simp_all

lemma ec_add_on_curve: "ec_add P Q R \<Longrightarrow> on_curve P \<Longrightarrow> on_curve Q \<Longrightarrow> on_curve R"
  unfolding on_curve_b_7 by (rule ec_add_on_curve_b)

subsection \<open>The Jacobian formulas\<close>

lemma chord_jacobian:
  fixes x1 :: fp
  assumes "(x2 - x1) * l = y2 - y1" "x3 = l ^ 2 - x1 - x2"
    and "U = x1 * w ^ 2" "S = y1 * w ^ 3" "H = (x2 - x1) * w ^ 2" "I = (y2 - y1) * w ^ 3" "X = I ^ 2 - H ^ 3 - 2 * U * H ^ 2"
  shows "X = x3 * (w * H) ^ 2" "(U * H ^ 2 - X) * I - S * H ^ 3 = (l * (x1 - x3) - y1) * (w * H) ^ 3"
proof -
  have I: "I = l * (w * H)" unfolding assms(5,6) assms(1) [symmetric] by (simp add: ring_norm)
  have H: "H ^ 3 = (x2 - x1) * (w * H) ^ 2" "U * H ^ 2 = x1 * (w * H) ^ 2" "S * H ^ 3 = y1 * (w * H) ^ 3"
    unfolding assms(3,4,5) by (simp_all add: ring_norm)
  show X: "X = x3 * (w * H) ^ 2"
    unfolding assms(2,7) mult.assoc [of 2 U] H I by (simp add: algebra_simps power_mult_distrib)
  show "(U * H ^ 2 - X) * I - S * H ^ 3 = (l * (x1 - x3) - y1) * (w * H) ^ 3"
    unfolding X H(2,3) I by (simp add: algebra_simps power3_eq_cube power2_eq_square)
qed

lemma tangent_jacobian:
  fixes x :: fp
  assumes "2 * y * l = 3 * x ^ 2" "x3 = l ^ 2 - 2 * x" "X = x * Z ^ 2" "Y = y * Z ^ 3" "Z3 = 2 * Y * Z"
  shows "9 * X ^ 4 - 8 * X * Y ^ 2 = x3 * Z3 ^ 2"
    and "36 * X ^ 3 * Y ^ 2 - 27 * X ^ 6 - 8 * Y ^ 4 = (l * (x - x3) - y) * Z3 ^ 3"
proof -
  have e: "3 * X ^ 2 = l * Z3"
    unfolding assms(3,4,5) power_mult_distrib mult.assoc [of 3, symmetric] assms(1) [symmetric] by (simp add: ring_norm)
  have h: "8 * X * Y ^ 2 = 2 * x * Z3 ^ 2" "8 * Y ^ 4 = y * Z3 ^ 3"
    unfolding assms(3,4,5) by (simp_all add: ring_norm)
  have q: "9 * X ^ 4 = (3 * X ^ 2) ^ 2" "27 * X ^ 6 = (3 * X ^ 2) ^ 3" "36 * X ^ 3 * Y ^ 2 = 3 * X ^ 2 * (8 * X * Y ^ 2 + 4 * X * Y ^ 2)"
    by (simp_all add: ring_norm)
  have k: "4 * X * Y ^ 2 = x * Z3 ^ 2" unfolding assms(3,4,5) by (simp add: ring_norm)
  show "9 * X ^ 4 - 8 * X * Y ^ 2 = x3 * Z3 ^ 2"
      "36 * X ^ 3 * Y ^ 2 - 27 * X ^ 6 - 8 * Y ^ 4 = (l * (x - x3) - y) * Z3 ^ 3"
    unfolding q e h k assms(2) by (simp_all add: ring_norm)
qed

lemma unified_jacobian:
  fixes x1 :: fp
  assumes "m * l = r" "2 * y3 = l * (x1 + x2 - 2 * x3) - (y1 + y2)" "x3 = l ^ 2 - x1 - x2"
    and "T = (x1 + x2) * w ^ 2" "Ra = r * w ^ k" "Ma = m * w ^ n" "k = n + 1" "N = (y1 + y2) * w ^ 3 * Ma ^ 3"
  shows "4 * (Ra ^ 2 - T * Ma ^ 2) = x3 * (2 * w * Ma) ^ 2"
    and "4 * (Ra * (3 * (T * Ma ^ 2) - 2 * Ra ^ 2) - N) = y3 * (2 * w * Ma) ^ 3"
proof -
  have R: "Ra = l * (w * Ma)" unfolding assms(5,6,7) assms(1) [symmetric] by (simp add: power_add ac_simps)
  have T: "T * Ma ^ 2 = (x1 + x2) * (w * Ma) ^ 2" unfolding assms(4) by (simp add: ring_norm)
  have N: "N = (y1 + y2) * (w * Ma) ^ 3" unfolding assms(8) by (simp add: ring_norm)
  show "4 * (Ra ^ 2 - T * Ma ^ 2) = x3 * (2 * w * Ma) ^ 2"
    unfolding T R assms(3) by (simp add: ring_norm)
  have "4 * (Ra * (3 * (T * Ma ^ 2) - 2 * Ra ^ 2) - N) =
      4 * (l * (3 * (x1 + x2) - 2 * l ^ 2) - (y1 + y2)) * (w * Ma) ^ 3"
    unfolding T R N by (simp add: ring_norm)
  also have "l * (3 * (x1 + x2) - 2 * l ^ 2) - (y1 + y2) = l * (x1 + x2 - 2 * x3) - (y1 + y2)"
    unfolding assms(3) by (simp add: ring_norm)
  also have "\<dots> = 2 * y3" using assms(2) by simp
  finally show "4 * (Ra * (3 * (T * Ma ^ 2) - 2 * Ra ^ 2) - N) = y3 * (2 * w * Ma) ^ 3"
    by (simp add: ring_norm)
qed

lemma field_beta_cube: "(of_int field_beta :: fp) ^ 3 = 1"
proof -
  define b2 :: int where "b2 = 0x851695d49a83f8ef919bb86153cbcb16630fb68aed0a766a3ec693d68e6afa40"
  have "field_beta * field_beta = b2 + field_p * 0x3b034e03cbc0e9e67adf9b678b2ea8201dd5ea436049fdc542a0960dd5579c3c"
    by (simp add: b2_def field_beta_def field_p_def)
  then have 1: "(of_int (field_beta * field_beta) :: fp) = of_int b2" unfolding fp_eq_iff by simp
  have "b2 * field_beta = 1 + field_p * 0x3fe61c2799bb1d29f384ac3721058cc97f1a5f31b2ab8bd07e98d61a9c3d65b1"
    by (simp add: b2_def field_beta_def field_p_def)
  then have 2: "(of_int (b2 * field_beta) :: fp) = of_int 1" unfolding fp_eq_iff by simp
  show ?thesis
    using 1 2 by (simp add: power3_eq_cube)
qed

subsection \<open>Correctness of the operations\<close>

text \<open>The group code relies on the field interface alone; a representation that interprets \<open>field_arith\<close> interprets this
  locale with nothing left to prove.\<close>

locale group_arith = field_arith
begin

lemma let_any: "(\<And>x. x = e \<Longrightarrow> P (F x)) \<Longrightarrow> P (Let e F)"
  by simp

lemma gej_den:
  assumes "gej_ok mag a"
  shows "den (jx a) 8 (fv (jx a))" "den (jy a) 8 (fv (jy a))" "den (jz a) 8 (fv (jz a))"
  using assms by (simp_all add: gej_ok_def den_self)

lemma ge_den:
  assumes "ge_ok mag a"
  shows "den (gx a) 8 (fv (gx a))" "den (gy a) 8 (fv (gy a))"
  using assms by (simp_all add: ge_ok_def den_self)

lemma double_formula:
  assumes "gej_ok mag a" "\<not> jinf a" "gej_double_var ops r a rzr = (r', rzr')"
  defines "X \<equiv> fv (jx a)" and "Y \<equiv> fv (jy a)" and "Z \<equiv> fv (jz a)"
  shows "den (jx r') 6 (9 * X ^ 4 - 8 * X * Y ^ 2) \<and> den (jy r') 4 (36 * X ^ 3 * Y ^ 2 - 27 * X ^ 6 - 8 * Y ^ 4) \<and>
    den (jz r') 2 (2 * Y * Z) \<and> \<not> jinf r' \<and> (\<forall>z\<in>set_option rzr'. den z 2 (2 * Y))"
proof -
  let ?P = "\<lambda>(r', rzr'). den (jx r') 6 (9 * X ^ 4 - 8 * X * Y ^ 2) \<and> den (jy r') 4 (36 * X ^ 3 * Y ^ 2 - 27 * X ^ 6 - 8 * Y ^ 4) \<and>
    den (jz r') 2 (2 * Y * Z) \<and> \<not> jinf r' \<and> (\<forall>z\<in>set_option rzr'. den z 2 (2 * Y))"
  note d = gej_den [OF assms(1), folded X_def Y_def Z_def]
  have z: "den (fe_mul_int ops (fe_normalize_weak ops (jy a)) 2) 2 (Y * 2)"
    by (rule den_mul_int, rule den_normalize_weak, rule d(2)) simp_all
  have "?P (gej_double_var ops r a rzr)"
    unfolding gej_double_var_def using assms(2) d z
    apply -
    apply (simp only: if_False)
    apply (rule let_any [where P = ?P])
    apply (rule den_let [where P = ?P], ((rule den_rules | assumption | (simp (no_asm); fail))+)[1])+
    apply (simp del: One_nat_def)
    by (intro conjI; (erule den_weaken; simp add: ring_norm)?) (auto simp: mult.commute)
  then show ?thesis unfolding assms(3) by simp
qed

lemma double_rep:
  assumes "gej_ok mag a" "gej_rep fv a (Affine x y)" "2 * y dvd 1" "2 * y * l = 3 * x ^ 2" "x3 = l ^ 2 - 2 * x"
    and "gej_double_var ops r a rzr = (r', rzr')"
  shows "gej_rep fv r' (Affine x3 (l * (x - x3) - y))" "gej_ok mag r'"
    and "\<forall>z\<in>set_option rzr'. fv (jz r') = fv (jz a) * fv z"
proof -
  have a: "\<not> jinf a" "fv (jz a) dvd 1" "fv (jx a) = x * fv (jz a) ^ 2" "fv (jy a) = y * fv (jz a) ^ 3"
    using assms(2) by (simp_all add: gej_rep_def)
  note f = double_formula [OF assms(1) a(1) assms(6)]
  have "2 * fv (jy a) * fv (jz a) = (2 * y) * fv (jz a) ^ 4" unfolding a(4) by (simp add: ring_norm)
  then have "2 * fv (jy a) * fv (jz a) dvd 1" using unit_mult [OF assms(3) unit_power [OF a(2), of 4]] by simp
  then show "gej_rep fv r' (Affine x3 (l * (x - x3) - y))"
    using f tangent_jacobian [OF assms(4,5) a(3,4) refl] by (simp add: gej_rep_def den_def)
  show "gej_ok mag r'" "\<forall>z\<in>set_option rzr'. fv (jz r') = fv (jz a) * fv z"
    using f by (auto simp: gej_ok_def den_def mult.commute intro: mag_mono)
qed

lemma add_finish_formula:
  assumes "den u1 1 U" "den s1 1 S" "den h 3 H" "den i 3 I"
  shows "case gej_add_finish ops u1 s1 h i of (rx, ry) \<Rightarrow> den rx 5 (I ^ 2 - H ^ 3 - 2 * U * H ^ 2) \<and>
    den ry 3 ((U * H ^ 2 - (I ^ 2 - H ^ 3 - 2 * U * H ^ 2)) * I - S * H ^ 3)" (is "?P (gej_add_finish ops u1 s1 h i)")
  unfolding gej_add_finish_def using assms
  apply -
  apply (rule den_let [where P = ?P], ((rule den_rules | assumption | (simp (no_asm); fail))+)[1])+
  apply (simp del: One_nat_def)
  by (intro conjI; erule den_weaken; simp add: ring_norm)

text \<open>The variable time additions.\<close>

text \<open>The common end of the three variable time additions, for points scaled by a common \<open>w\<close>.\<close>

lemma add_cases:
  assumes "den u1 1 U" "den s1 1 S" "den h mh H" "den i mi I" "mh \<le> 3" "mi \<le> 3"
    and v: "U = x1 * w ^ 2" "S = y1 * w ^ 3" "H = (x2 - x1) * w ^ 2" "I = (y2 - y1) * w ^ 3" "w dvd 1"
    and "ec_add (Affine x1 y1) (Affine x2 y2) R"
    and N: "R = Infinity \<Longrightarrow> ok N"
    and D: "\<And>l x3. x2 = x1 \<Longrightarrow> y2 = y1 \<Longrightarrow> 2 * y1 dvd 1 \<Longrightarrow> 2 * y1 * l = 3 * x1 ^ 2 \<Longrightarrow> x3 = l ^ 2 - 2 * x1 \<Longrightarrow>
      R = Affine x3 (l * (x1 - x3) - y1) \<Longrightarrow> ok D"
    and F: "\<And>x3 y3 rx ry. R = Affine x3 y3 \<Longrightarrow> H dvd 1 \<Longrightarrow> den rx 5 (x3 * (w * H) ^ 2) \<Longrightarrow> den ry 3 (y3 * (w * H) ^ 3) \<Longrightarrow> ok (F rx ry)"
  shows "ok (if fe_normalizes_to_zero_var ops h then if fe_normalizes_to_zero_var ops i then D else N
    else case gej_add_finish ops u1 s1 h i of (rx, ry) \<Rightarrow> F rx ry)"
proof -
  have hi: "den h 3 H" "den i 3 I" using den_weaken assms(3-6) by blast+
  have w: "w ^ n * c = 0 \<longleftrightarrow> c = 0" for n c using unit_cancel_0 [OF unit_power [OF v(5)]] .
  have z: "fe_normalizes_to_zero_var ops h \<longleftrightarrow> x1 = x2" "fe_normalizes_to_zero_var ops i \<longleftrightarrow> y1 = y2"
    using den_to_zero(2) [OF hi(1)] den_to_zero(2) [OF hi(2)] w [of 2 "x2 - x1"] w [of 3 "y2 - y1"] v(3,4)
    by (auto simp: mult.commute)
  from assms(12) show ?thesis
  proof (cases rule: ec_add_affineE)
    case opposite
    then have "y1 \<noteq> y2" using not_self_opposite [of y1] by auto
    then show ?thesis using N z opposite by simp
  next
    case (tangent l x3 y3)
    then show ?thesis using z D [of l x3] by simp
  next
    case (chord l x3 y3)
    then have n: "x1 \<noteq> x2" by auto
    have "H dvd 1" unfolding v(3) using chord(1) unit_power [OF v(5)] unit_mult by blast
    moreover note f = add_finish_formula [OF assms(1,2) hi] chord_jacobian [OF chord(2,3) v(1-4) refl]
    obtain rx ry where r: "gej_add_finish ops u1 s1 h i = (rx, ry)" by fastforce
    moreover have "den rx 5 (x3 * (w * H) ^ 2)" using f(1) unfolding r prod.case f(2) by simp
    moreover have "den ry 3 (y3 * (w * H) ^ 3)" using f(1) unfolding r prod.case chord(4) f(3) by simp
    ultimately show ?thesis using F [of x3 y3 rx ry] n z chord(5) by simp
  qed
qed

lemma add_result:
  assumes "R = Affine x3 y3" "den rx 5 (x3 * (w * H) ^ 2)" "den ry 3 (y3 * (w * H) ^ 3)" "den rz 1 Z" "Z = w * H" "w dvd 1" "H dvd 1"
  shows "gej_ok mag \<lparr>jx = rx, jy = ry, jz = rz, jinf = False\<rparr> \<and> gej_rep fv \<lparr>jx = rx, jy = ry, jz = rz, jinf = False\<rparr> R"
  using assms unit_mult [OF assms(6,7)] by (auto simp: den_def gej_ok_def gej_rep_def intro: mag_mono)

lemma add_var_rep:
  assumes "gej_ok mag r" "gej_ok mag a" "gej_ok mag b" "gej_rep fv a P" "gej_rep fv b Q" "ec_add P Q R"
  shows "gej_ok mag (fst (gej_add_var ops r a b rzr)) \<and> gej_rep fv (fst (gej_add_var ops r a b rzr)) R"
    (is "?P (gej_add_var ops r a b rzr)")
proof (cases "jinf a \<or> jinf b")
  case True
  then have "P = Infinity \<or> Q = Infinity" using assms(4,5) by (auto simp: gej_rep_def split: point.splits)
  then show ?thesis
    using True assms by (auto simp: gej_add_var_def gej_rep_def split: point.splits elim: ec_add_infinityE)
next
  case False
  then obtain x1 y1 x2 y2 where P: "P = Affine x1 y1" and Q: "Q = Affine x2 y2"
    using assms(4,5) by (cases P; cases Q) (auto simp: gej_rep_def)
  let ?Z1 = "fv (jz a)" let ?Z2 = "fv (jz b)"
  have v: "?Z1 dvd 1" "?Z2 dvd 1" "fv (jx a) = x1 * ?Z1 ^ 2" "fv (jy a) = y1 * ?Z1 ^ 3" "fv (jx b) = x2 * ?Z2 ^ 2" "fv (jy b) = y2 * ?Z2 ^ 3"
    using assms(4,5) unfolding P Q by (simp_all add: gej_rep_def)
  note d = gej_den [OF assms(2)] gej_den [OF assms(3)]
  have f: "jinf a = False" "jinf b = False" using False by simp_all
  show ?thesis
    unfolding gej_add_var_def f if_False using d
    apply -
    apply (rule let_any [where P = ?P])
    apply (rule den_let [where P = ?P], ((rule den_rules | assumption | (simp (no_asm); fail))+)[1])+
    apply (rule add_cases [where ok = ?P and w = "?Z1 * ?Z2" and R = R and ?x1.0 = x1 and ?x2.0 = x2 and ?y1.0 = y1 and ?y2.0 = y2], assumption+)
    apply (simp (no_asm))
    apply (simp (no_asm))
    apply (simp (no_asm) add: v ring_norm)
    apply (simp (no_asm) add: v ring_norm)
    apply (simp (no_asm) add: v ring_norm)
    apply (simp (no_asm) add: v ring_norm)
    apply (rule unit_mult [OF v(1,2)])
    apply (rule assms(6) [unfolded P Q])
    subgoal using assms(1) by (simp add: gej_ok_def gej_rep_def)
    subgoal for x xa xb xc xd xe xf xg xh xi xj xk xl l x3
      using double_rep [OF assms(2) assms(4) [unfolded P], of l x3 "r\<lparr>jinf := False\<rparr>" rzr] by (cases "gej_double_var ops x a rzr") simp
    subgoal
      unfolding Let_def fst_conv
      by (rule add_result, assumption+, (rule den_mul | assumption | (simp (no_asm); fail))+, simp add: ac_simps, rule unit_mult [OF v(1,2)], assumption)
    done
qed

lemma gej_set_ge_rep:
  assumes "ge_ok mag b" "ge_rep fv b Q"
  shows "gej_ok mag (gej_set_ge ops b) \<and> gej_rep fv (gej_set_ge ops b) Q"
proof -
  have "den (fe_set_int ops 1) 1 1" by (rule den_set_int) simp_all
  then show ?thesis
    using assms by (auto simp: gej_set_ge_def gej_ok_def ge_ok_def gej_rep_def ge_rep_def den_def intro: mag_mono split: point.splits)
qed

lemma add_ge_var_rep:
  assumes "gej_ok mag r" "gej_ok mag a" "ge_ok mag b" "gej_rep fv a P" "ge_rep fv b Q" "ec_add P Q R"
  shows "gej_ok mag (fst (gej_add_ge_var ops r a b rzr)) \<and> gej_rep fv (fst (gej_add_ge_var ops r a b rzr)) R"
    (is "?P (gej_add_ge_var ops r a b rzr)")
proof (cases "jinf a \<or> ginf b")
  case True
  then have "P = Infinity \<or> Q = Infinity" using assms(4,5) by (auto simp: gej_rep_def ge_rep_def split: point.splits)
  then have "jinf a \<and> R = Q \<or> \<not> jinf a \<and> R = P"
    using True assms(4-6) by (auto simp: gej_rep_def ge_rep_def split: point.splits elim: ec_add_infinityE)
  then show ?thesis using True assms gej_set_ge_rep by (auto simp: gej_add_ge_var_def)
next
  case False
  then obtain x1 y1 x2 y2 where P: "P = Affine x1 y1" and Q: "Q = Affine x2 y2"
    using assms(4,5) by (cases P; cases Q) (auto simp: gej_rep_def ge_rep_def)
  let ?Z1 = "fv (jz a)"
  have v: "?Z1 dvd 1" "fv (jx a) = x1 * ?Z1 ^ 2" "fv (jy a) = y1 * ?Z1 ^ 3" "fv (gx b) = x2" "fv (gy b) = y2"
    using assms(4,5) unfolding P Q by (simp_all add: gej_rep_def ge_rep_def)
  have f: "jinf a = False" "ginf b = False" using False by simp_all
  show ?thesis
    unfolding gej_add_ge_var_def f if_False using gej_den [OF assms(2)] ge_den [OF assms(3)]
    apply -
    apply (rule let_any [where P = ?P])
    apply (rule den_let [where P = ?P], ((rule den_rules | assumption | (simp (no_asm); fail))+)[1])+
    apply (rule add_cases [where ok = ?P and w = "?Z1" and R = R and ?x1.0 = x1 and ?x2.0 = x2 and ?y1.0 = y1 and ?y2.0 = y2], assumption+)
    apply (simp (no_asm))
    apply (simp (no_asm))
    apply (simp (no_asm) add: v ring_norm)
    apply (simp (no_asm) add: v ring_norm)
    apply (simp (no_asm) add: v ring_norm)
    apply (simp (no_asm) add: v ring_norm)
    apply (rule v(1))
    apply (rule assms(6) [unfolded P Q])
    subgoal using assms(1) by (simp add: gej_ok_def gej_rep_def)
    subgoal for x xa xb xc xd xe xf xg xh xi xj l x3
      using double_rep [OF assms(2) assms(4) [unfolded P], of l x3 "r\<lparr>jinf := False\<rparr>" rzr] by (cases "gej_double_var ops x a rzr") simp
    subgoal
      unfolding Let_def fst_conv
      by (rule add_result, assumption+, (rule den_mul | assumption | (simp (no_asm); fail))+, simp add: ac_simps, rule v(1), assumption)
    done
qed

text \<open>Addition of an affine point over a common \<open>z\<close>: \<open>b\<close> with the inverse \<open>bzinv\<close> of its \<open>z\<close> coordinate represents
  the point with coordinates \<open>x * bzinv^2\<close> and \<open>y * bzinv^3\<close>.\<close>

lemma add_zinv_var_rep:
  assumes "gej_ok mag r" "gej_ok mag a" "ge_ok mag b" "mag 8 bzinv" "gej_rep fv a P" "ec_add P Q R"
    and "Q = (if ginf b then Infinity else Affine (fv (gx b) * fv bzinv ^ 2) (fv (gy b) * fv bzinv ^ 3))"
  shows "gej_ok mag (gej_add_zinv_var ops r a b bzinv) \<and> gej_rep fv (gej_add_zinv_var ops r a b bzinv) R"
    (is "?P (gej_add_zinv_var ops r a b bzinv)")
proof -
  note d = gej_den [OF assms(2)] ge_den [OF assms(3)] den_self [OF assms(4)]
  consider "ginf b" | "\<not> ginf b" "jinf a" | "jinf a = False" "ginf b = False" by blast
  then show ?thesis
  proof cases
    case 1
    then have "R = P" using assms(6,7) by (auto elim: ec_add_infinityE)
    then show ?thesis using 1 assms by (simp add: gej_add_zinv_var_def)
  next
    case 2
    then have "P = Infinity" using assms(5) by (auto simp: gej_rep_def split: point.splits)
    then have R: "R = Affine (fv (gx b) * fv bzinv ^ 2) (fv (gy b) * fv bzinv ^ 3)"
      using 2 assms(6,7) by (auto elim: ec_add_infinityE)
    show ?thesis
      unfolding gej_add_zinv_var_def if_not_P [OF 2(1)] if_P [OF 2(2)] using d
      apply -
      apply (rule den_let [where P = ?P], ((rule den_rules | assumption | (simp (no_asm); fail))+)[1])+
      by (auto simp: R 2 gej_ok_def gej_rep_def den_def ring_norm intro: mag_mono)
  next
    case f: 3
    then obtain x1 y1 where P: "P = Affine x1 y1" using assms(5) by (cases P) (auto simp: gej_rep_def)
    let ?Z1 = "fv (jz a)"
    let ?x2 = "fv (gx b) * fv bzinv ^ 2" let ?y2 = "fv (gy b) * fv bzinv ^ 3"
    have Q: "Q = Affine ?x2 ?y2" using assms(7) f by simp
    have v: "?Z1 dvd 1" "fv (jx a) = x1 * ?Z1 ^ 2" "fv (jy a) = y1 * ?Z1 ^ 3"
      using assms(5) unfolding P by (simp_all add: gej_rep_def)
    show ?thesis
      unfolding gej_add_zinv_var_def f if_False using d
      apply -
      apply (rule let_any [where P = ?P])
      apply (rule den_let [where P = ?P], ((rule den_rules | assumption | (simp (no_asm); fail))+)[1])+
      apply (rule add_cases [where ok = ?P and w = "?Z1" and R = R and ?x1.0 = x1 and ?x2.0 = ?x2 and ?y1.0 = y1 and ?y2.0 = ?y2], assumption+)
      apply (simp (no_asm))
      apply (simp (no_asm))
      apply (simp (no_asm) add: v ring_norm)
      apply (simp (no_asm) add: v ring_norm)
      apply (simp (no_asm) add: v ring_norm)
      apply (simp (no_asm) add: v ring_norm)
      apply (rule v(1))
      apply (rule assms(6) [unfolded P Q])
      subgoal using assms(1) by (simp add: gej_ok_def gej_rep_def)
      subgoal for x xa xb xc xd xe xf xg xh xi xj xk l x3
        using double_rep [OF assms(2) assms(5) [unfolded P], of l x3 "r\<lparr>jinf := False\<rparr>" None] by (cases "gej_double_var ops x a None") simp
      subgoal
        unfolding Let_def
        by (rule add_result, assumption+, (rule den_mul | assumption | (simp (no_asm); fail))+, simp add: ac_simps, rule v(1), assumption)
      done
  qed
qed

text \<open>The constant time addition.\<close>

lemma add_ge_slope_formula:
  assumes "gej_ok mag a" "ge_ok mag b"
    and "U1 = fv (jx a)" "U2 = fv (gx b) * fv (jz a) ^ 2" "S1 = fv (jy a)" "S2 = fv (gy b) * fv (jz a) ^ 3"
    and "T = U1 + U2" "M = S1 + S2" "R = T ^ 2 - U1 * U2"
  shows "case gej_add_ge_slope ops a b of (t, m, rr_alt, m_alt, degenerate) \<Rightarrow> den t 2 T \<and> den m 2 M \<and>
    (degenerate \<longleftrightarrow> M = 0 \<and> R = 0) \<and> den rr_alt 3 (if degenerate then 2 * S1 else R) \<and> den m_alt 3 (if degenerate then U1 - U2 else M)"
  (is "?P (gej_add_ge_slope ops a b)")
  unfolding gej_add_ge_slope_def using gej_den [OF assms(1), folded assms(3,5)] ge_den [OF assms(2)]
  apply -
  apply ((rule den_let [where P = ?P], ((rule den_rules den_cmov | assumption | (simp (no_asm); fail))+)[1]) | (rule let_any [where P = ?P]))+
  unfolding prod.case
  apply (intro conjI)
  subgoal by (erule den_weaken) (simp_all add: assms ring_norm)
  subgoal by (erule den_weaken) (simp_all add: assms ring_norm)
  subgoal by (simp add: den_to_zero assms(4,6-9) ring_norm)
  subgoal by (erule den_weaken) (simp_all add: assms ring_norm)
  subgoal by (erule den_weaken) (simp_all add: assms ring_norm)
  done

lemma add_ge_formula:
  assumes "gej_ok mag a" "ge_ok mag b" "\<not> jinf a"
    and "U1 = fv (jx a)" "U2 = fv (gx b) * fv (jz a) ^ 2" "S1 = fv (jy a)" "S2 = fv (gy b) * fv (jz a) ^ 3"
    and "T = U1 + U2" "M = S1 + S2" "R = T ^ 2 - U1 * U2"
    and "deg \<longleftrightarrow> M = 0 \<and> R = 0" "Ra = (if deg then 2 * S1 else R)" "Ma = (if deg then U1 - U2 else M)"
  shows "den (jx (gej_add_ge ops a b)) 8 (4 * (Ra ^ 2 - T * Ma ^ 2)) \<and>
    den (jy (gej_add_ge ops a b)) 8 (4 * (Ra * (3 * (T * Ma ^ 2) - 2 * Ra ^ 2) - M * Ma ^ 3)) \<and>
    den (jz (gej_add_ge ops a b)) 2 (2 * fv (jz a) * Ma) \<and>
    (jinf (gej_add_ge ops a b) \<longleftrightarrow> fv (jz a) * Ma = 0)" (is "?P (gej_add_ge ops a b)")
proof -
  have o: "den (fe_const ops 0 0 0 0 0 0 0 1) 1 (fv (fe_const ops 0 0 0 0 0 0 0 1))"
    using const [of 1 0 0 0 0 0 0 0] nrm_mag by (simp add: den_def limbs_val_Cons field_p_def)
  obtain t m rr_alt m_alt degenerate where s: "gej_add_ge_slope ops a b = (t, m, rr_alt, m_alt, degenerate)"
    by (metis prod.exhaust)
  note f = add_ge_slope_formula [OF assms(1,2,4-10), unfolded s prod.case assms(11) [symmetric]]
  then have d: "degenerate = deg" by blast
  then have "degenerate = deg" "den t 2 T" "den m 2 M" "den rr_alt 3 Ra" "den m_alt 3 Ma"
    using f unfolding d assms(12,13) by blast+
  moreover have N: "(if deg then M else Ma * Ma * (Ma * Ma)) = M * Ma ^ 3"
    using assms(11,13) by (simp add: ring_norm)
  ultimately show ?thesis
    unfolding gej_add_ge_def s prod.case using gej_den [OF assms(1)] ge_den [OF assms(2)] o
    apply -
    apply ((rule den_let [where P = ?P], ((rule den_rules den_cmov | assumption | (simp (no_asm); fail))+)[1]) | (rule let_any [where P = ?P]))+
    apply (simp only: N gej.select_convs assms(3) if_False not_False_eq_True simp_thms)
    apply (intro conjI)
    subgoal by (erule den_weaken) (simp_all add: ring_norm)
    subgoal by (erule den_weaken) (simp_all add: ring_norm)
    subgoal by (erule den_weaken) (simp_all add: ring_norm)
    subgoal by (simp add: den_to_zero)
    done
qed

lemma add_ge_infinity:
  assumes "jinf a"
  shows "gej_add_ge ops a b = \<lparr>jx = gx b, jy = gy b, jz = fe_const ops 0 0 0 0 0 0 0 1, jinf = False\<rparr>"
  using assms by (simp add: gej_add_ge_def Let_def case_prod_beta cmov)

lemma add_ge_rep_b:
  assumes "gej_ok mag a" "ge_ok mag b" "gej_rep fv a P" "ge_rep fv b (Affine x2 y2)" "on_curve_b c P" "on_curve_b c (Affine x2 y2)"
    and R: "ec_add P (Affine x2 y2) R" and u: "\<And>x1 y1. P = Affine x1 y1 \<Longrightarrow> y1 + y2 = 0 \<or> y1 + y2 dvd 1"
  shows "gej_ok mag (gej_add_ge ops a b) \<and> gej_rep fv (gej_add_ge ops a b) R"
proof (cases P)
  case Infinity
  have "nrm (fe_const ops 0 0 0 0 0 0 0 1)" "val (fe_const ops 0 0 0 0 0 0 0 1) = 1"
    using const [of 1 0 0 0 0 0 0 0] by (simp_all add: limbs_val_Cons field_p_def)
  then have "mag 8 (fe_const ops 0 0 0 0 0 0 0 1)" "fv (fe_const ops 0 0 0 0 0 0 0 1) = 1"
    using mag_mono [OF nrm_mag, of _ 8] by (auto simp: fv_def)
  then show ?thesis
    using assms(2,3,4) R unfolding Infinity
    by (auto simp: add_ge_infinity gej_rep_def ge_rep_def gej_ok_def ge_ok_def elim: ec_add_infinityE)
next
  case P: (Affine x1 y1)
  let ?Z = "fv (jz a)"
  have v: "\<not> jinf a" "?Z dvd 1" "fv (jx a) = x1 * ?Z ^ 2" "fv (jy a) = y1 * ?Z ^ 3" "fv (gx b) = x2" "fv (gy b) = y2"
    using assms(3,4) unfolding P by (simp_all add: gej_rep_def ge_rep_def)
  define r where "r = x1 ^ 2 + x1 * x2 + x2 ^ 2"
  define T where "T = (x1 + x2) * ?Z ^ 2"
  define M where "M = (y1 + y2) * ?Z ^ 3"
  define deg where "deg \<longleftrightarrow> M = 0 \<and> r * ?Z ^ 4 = 0"
  define Ra where "Ra = (if deg then 2 * (y1 * ?Z ^ 3) else r * ?Z ^ 4)"
  define Ma where "Ma = (if deg then (x1 - x2) * ?Z ^ 2 else M)"
  have f: "den (jx (gej_add_ge ops a b)) 8 (4 * (Ra ^ 2 - T * Ma ^ 2)) \<and>
      den (jy (gej_add_ge ops a b)) 8 (4 * (Ra * (3 * (T * Ma ^ 2) - 2 * Ra ^ 2) - M * Ma ^ 3)) \<and>
      den (jz (gej_add_ge ops a b)) 2 (2 * ?Z * Ma) \<and> (jinf (gej_add_ge ops a b) \<longleftrightarrow> ?Z * Ma = 0)"
    by (rule add_ge_formula [OF assms(1,2) v(1) v(3) [symmetric] _ v(4) [symmetric], of "x2 * ?Z ^ 2" "y2 * ?Z ^ 3" _ _ "r * ?Z ^ 4" deg])
      (simp_all add: v(5,6) T_def M_def r_def deg_def Ra_def Ma_def ring_norm)
  then have ok: "gej_ok mag (gej_add_ge ops a b)" by (auto simp: gej_ok_def den_def intro: mag_mono)
  have z: "?Z ^ n * c = 0 \<longleftrightarrow> c = 0" "c * ?Z ^ n = 0 \<longleftrightarrow> c = 0" for n c
    using unit_cancel_0 [OF unit_power [OF v(2)]] by (simp_all add: mult.commute)
  have deg: "deg \<longleftrightarrow> y1 + y2 = 0 \<and> r = 0" unfolding deg_def M_def z ..
  have fin: "gej_rep fv (gej_add_ge ops a b) (Affine x3 y3)"
    if "m * l = s" "m dvd 1" "2 * y3 = l * (x1 + x2 - 2 * x3) - (y1 + y2)" "x3 = l ^ 2 - x1 - x2"
      "Ra = s * ?Z ^ k" "Ma = m * ?Z ^ n" "k = n + 1" for l m s k n x3 y3
  proof -
    have "?Z * Ma dvd 1" "?Z * Ma \<noteq> 0" unfolding that(6) using unit_mult v(2) unit_power that(2) not_unit_0 by metis+
    then have "2 * ?Z * Ma dvd 1" "\<not> jinf (gej_add_ge ops a b)" using f unit_mult [OF two_unit] by (simp_all add: mult.assoc)
    moreover note unified_jacobian [OF that(1,3,4) T_def that(5,6,7) refl, unfolded M_def [symmetric]]
    ultimately show ?thesis using f unfolding gej_rep_def point.case den_def by simp
  qed
  from R [unfolded P] have "gej_rep fv (gej_add_ge ops a b) R"
  proof (cases rule: ec_add_affineE)
    case opposite
    have "?Z * Ma = 0"
      using opposite by (simp add: Ma_def M_def)
    then show ?thesis using f opposite by (simp add: gej_rep_def)
  next
    case (tangent l x3 y3)
    have n2: "y1 + y2 = 2 * y1" unfolding tangent(2) by (simp only: mult_2)
    have n: "y1 + y2 dvd 1" "\<not> deg" unfolding deg n2 using tangent(3) not_unit_0 by metis+
    have e: "(y1 + y2) * l = r" unfolding n2 tangent(4) r_def tangent(1) by (simp add: power2_eq_square)
    have y: "2 * y3 = l * (x1 + x2 - 2 * x3) - (y1 + y2)" unfolding tangent(1,2,6) by (simp add: algebra_simps)
    have x: "x3 = l ^ 2 - x1 - x2" unfolding tangent(1,5) by (simp only: mult_2 diff_diff_eq)
    show ?thesis
      unfolding tangent(7) by (rule fin [OF e n(1) y x, of 4 3]) (simp_all add: Ra_def Ma_def M_def n(2))
  next
    case (chord l x3 y3)
    have c: "(x2 - x1) * r = (y2 - y1) * (y1 + y2)"
      using assms(5,6) unfolding P by (simp add: r_def ring_norm)
    then have e: "r = l * (y1 + y2)"
      using unit_cancel [OF chord(1), of r "l * (y1 + y2)"] unfolding chord(2) [symmetric] by (simp only: mult.assoc)
    have y: "2 * y3 = l * (x1 + x2 - 2 * x3) - (y1 + y2)"
    proof -
      have "2 * y3 = l * (x1 + x2 - 2 * x3) - (x2 - x1) * l - 2 * y1" unfolding chord(4) by (simp add: algebra_simps)
      then show ?thesis unfolding chord(2) by simp
    qed
    from u [OF P] show ?thesis
    proof
      assume s: "y1 + y2 = 0"
      then have "deg" using e by (simp add: deg)
      have "(x1 - x2) * l = - ((x2 - x1) * l)" by (simp add: algebra_simps)
      also have "\<dots> = 2 * y1" unfolding chord(2) using s by (simp add: algebra_simps eq_neg_iff_add_eq_0)
      finally have "(x1 - x2) * l = 2 * y1" .
      moreover have "x1 - x2 dvd 1" using chord(1) by (metis dvd_minus_iff minus_diff_eq minus_dvd_iff)
      ultimately show ?thesis
        unfolding chord(5) by - (rule fin [OF _ _ y chord(3), of _ _ 3 2], assumption, assumption, simp_all add: Ra_def Ma_def \<open>deg\<close> mult.assoc)
    next
      assume s: "y1 + y2 dvd 1"
      then have "\<not> deg" using not_unit_0 by (auto simp: deg)
      then show ?thesis
        unfolding chord(5) by (intro fin [OF e [symmetric, unfolded mult.commute [of l]] s y chord(3), of 4 3]) (simp_all add: Ra_def Ma_def M_def)
    qed
  qed
  with ok show ?thesis by simp
qed

lemma add_ge_rep:
  assumes "gej_ok mag a" "ge_ok mag b" "gej_rep fv a P" "ge_rep fv b (Affine x2 y2)" "on_curve P" "on_curve (Affine x2 y2)"
    and "ec_add P (Affine x2 y2) R" "\<And>x1 y1. P = Affine x1 y1 \<Longrightarrow> y1 + y2 = 0 \<or> y1 + y2 dvd 1"
  shows "gej_ok mag (gej_add_ge ops a b) \<and> gej_rep fv (gej_add_ge ops a b) R"
  by (rule add_ge_rep_b [OF assms(1-4) assms(5,6) [unfolded on_curve_b_7] assms(7)]) (rule assms(8))

text \<open>Conversions.\<close>

lemma zinv_rep:
  assumes "gej_ok mag a" "mag 8 zi" "gej_rep fv a P" "jinf a \<or> fv (jz a) * fv zi = 1"
  shows "ge_rep fv (ge_set_gej_zinv ops a zi) P \<and> ge_ok mag (ge_set_gej_zinv ops a zi)" (is "?P (ge_set_gej_zinv ops a zi)")
proof -
  have c: "x * Z ^ 2 * (i * i) = x" "y * Z ^ 3 * (i * i * i) = y" if "Z * i = 1" for Z i x y :: fp
  proof -
    have "x * Z ^ 2 * (i * i) = x * ((Z * i) * (Z * i))" "y * Z ^ 3 * (i * i * i) = y * ((Z * i) * (Z * i) * (Z * i))"
      by (simp_all add: ring_norm)
    then show "x * Z ^ 2 * (i * i) = x" "y * Z ^ 3 * (i * i * i) = y" unfolding that by simp_all
  qed
  have m: "mag 1 z \<Longrightarrow> mag 8 z" for z using mag_mono [of 1 z 8] by simp
  show ?thesis
    unfolding ge_set_gej_zinv_def using gej_den [OF assms(1)] den_self [OF assms(2)]
    apply -
    apply (rule den_let [where P = ?P], ((rule den_rules | assumption | (simp (no_asm); fail))+)[1])+
    using assms(3,4) by (cases P) (auto simp: ge_rep_def gej_rep_def ge_ok_def den_def c m)
qed

lemma set_gej_zinv: "fst (ge_set_gej ops a) = \<lparr>gx = fe_mul ops (jx a) (fe_sqr ops (fe_inv ops (jz a))),
    gy = fe_mul ops (jy a) (fe_mul ops (fe_inv ops (jz a)) (fe_sqr ops (fe_inv ops (jz a)))), ginf = jinf a\<rparr>"
  by (simp add: ge_set_gej_def Let_def)

text \<open>The conversions to affine coordinates. Fermat's equation for the \<open>z\<close> coordinate makes \<open>fe_inv\<close> an inverse.\<close>

lemma set_gej_rep:
  assumes "gej_ok mag a" "gej_rep fv a P" "jinf a \<or> fv (jz a) ^ nat (field_p - 1) = 1"
  shows "ge_rep fv (fst (ge_set_gej ops a)) P \<and> gej_rep fv (snd (ge_set_gej ops a)) P \<and>
    (\<not> jinf a \<longrightarrow> ge_set_gej_var ops r a = ge_set_gej ops a) \<and> (jinf a \<longrightarrow> ge_set_gej_var ops r a = (r\<lparr>ginf := True\<rparr>, a))"
proof -
  let ?i = "fe_inv ops (jz a)"
  have m: "mag 8 (jz a)" "mag 8 ?i" "mag 8 (jx a)" "mag 8 (jy a)"
    using assms(1) inv_mag [of "jz a"] mag_mono [of 1 _ 8] by (auto simp: gej_ok_def)
  have s: "mag 8 (fe_sqr ops ?i)" "mag 8 (fe_mul ops ?i (fe_sqr ops ?i))"
    using m(2) chain.sqr chain.mul by blast+
  have "jinf a \<or> fv (jz a) * fv ?i = 1" using assms(3) inv_inverse [OF m(1)] by blast
  then have z: "ge_rep fv (ge_set_gej_zinv ops a ?i) P" using zinv_rep [OF assms(1) m(2) assms(2)] by blast
  have e: "fv (gx (fst (ge_set_gej ops a))) = fv (gx (ge_set_gej_zinv ops a ?i))"
      "fv (gy (fst (ge_set_gej ops a))) = fv (gy (ge_set_gej_zinv ops a ?i))" "ginf (fst (ge_set_gej ops a)) = ginf (ge_set_gej_zinv ops a ?i)"
    using m s chain.mul [OF s(1) m(2)] by (simp_all add: set_gej_zinv ge_set_gej_zinv_def Let_def fv_mul fv_sqr ac_simps)
  have g: "ge_rep fv (fst (ge_set_gej ops a)) P" using z unfolding ge_rep_def by (simp add: e split: point.splits)
  have "fv (fe_set_int ops 1) = 1" by (simp add: fv_set_int)
  then have "gej_rep fv (snd (ge_set_gej ops a)) P"
    using g unfolding ge_rep_def gej_rep_def by (auto simp: ge_set_gej_def Let_def split: point.splits)
  with g show ?thesis by (simp add: ge_set_gej_var_def ge_set_gej_def Let_def fe_inv_var_def)
qed

lemma set_all_loop:
  assumes "list_all2 (gej_rep fv) a Ps" "\<forall>p\<in>set a. gej_ok mag p" "length r = length a"
    and "\<forall>j<length (filter (\<lambda>p. \<not> jinf p) a). mag 8 (azi ! (c + j)) \<and> fv (azi ! (c + j)) * fv (jz (filter (\<lambda>p. \<not> jinf p) a ! j)) = 1"
  shows "list_all2 (ge_rep fv) (ge_set_all_loop ops r a azi c) Ps"
  using assms
proof (induction a arbitrary: Ps r c)
  case (Cons p a)
  then obtain P Qs q r' where l: "Ps = P # Qs" "r = q # r'" "gej_rep fv p P" "list_all2 (gej_rep fv) a Qs" "length r' = length a"
    by (auto simp: list_all2_Cons1 length_Suc_conv)
  show ?case
  proof (cases "jinf p")
    case True
    have "list_all2 (ge_rep fv) (ge_set_all_loop ops r' a azi c) Qs"
      by (rule Cons.IH [OF l(4) _ l(5)]) (use Cons.prems(2,4) True in auto)
    moreover have "P = Infinity" using True l(3) by (cases P) (auto simp: gej_rep_def)
    then have "ge_rep fv (q\<lparr>ginf := True\<rparr>) P" by (simp add: ge_rep_def)
    ultimately show ?thesis using True by (simp add: l)
  next
    case False
    have z: "mag 8 (azi ! (c + j)) \<and> fv (azi ! (c + j)) * fv (jz ((p # filter (\<lambda>p. \<not> jinf p) a) ! j)) = 1"
      if "j < Suc (length (filter (\<lambda>p. \<not> jinf p) a))" for j using Cons.prems(4) False that by simp
    have "list_all2 (ge_rep fv) (ge_set_all_loop ops r' a azi (c + 1)) Qs"
      by (rule Cons.IH [OF l(4) _ l(5)]) (use Cons.prems(2) z [of "Suc _"] in auto)
    moreover have "ge_rep fv (ge_set_gej_zinv ops p (azi ! c)) P"
      using zinv_rep [of p "azi ! c" P] Cons.prems(2) z [of 0] l(3) by (simp add: mult.commute)
    ultimately show ?thesis using False by (simp add: l)
  qed
qed simp

lemma set_all_rep:
  assumes "list_all2 (gej_rep fv) a Ps" "\<forall>p\<in>set a. gej_ok mag p" "length r = length a"
    and "length (filter (\<lambda>p. \<not> jinf p) a) \<le> length azi"
    and "(\<Prod>p\<leftarrow>filter (\<lambda>p. \<not> jinf p) a. fv (jz p)) ^ nat (field_p - 1) = 1"
  shows "list_all2 (ge_rep fv) (ge_set_all_gej_var ops azi r a) Ps"
proof -
  let ?f = "filter (\<lambda>p. \<not> jinf p) a" let ?z = "map jz ?f"
  have p: "(\<Prod>k<length ?z. fv (?z ! k)) = (\<Prod>p\<leftarrow>?f. fv (jz p))"
    by (simp add: prod.list_conv_set_nth atLeast0LessThan)
  have m: "\<forall>j<length ?z. mag 8 (?z ! j)"
    using assms(2) nth_mem [of _ ?f] by (auto simp: gej_ok_def)
  have i: "mag 8 (fe_inv_all_var ops azi ?z (length ?z) ! j) \<and> fv (fe_inv_all_var ops azi ?z (length ?z) ! j) * fv (?z ! j) = 1"
    if "j < length ?z" for j
    using inv_all_var(2) [OF _ _ m, of azi, unfolded p assms(5)] that assms(4) by fastforce
  show ?thesis
    unfolding ge_set_all_gej_var_def Let_def by (rule set_all_loop [OF assms(1-3)]) (use i in auto)
qed

text \<open>Tables: consecutive points share their \<open>z\<close> coordinates up to the factors \<open>zr\<close>. Both conversions keep the
  factor that relates the current \<open>z\<close> to the last one.\<close>

lemma set_table_loop:
  assumes "zr_ok fv mag a zr len" "i < len" "len \<le> length r" "mag 8 zi" "fv (jz (a ! i)) * fv zi = 1"
    and "\<And>j. j < len \<Longrightarrow> gej_rep fv (a ! j) (P j)" "\<forall>j<len. i \<le> j \<longrightarrow> ge_rep fv (r ! j) (P j)"
  shows "length (ge_set_table_loop ops a zr r zi i) = length r \<and> (\<forall>j<len. ge_rep fv (ge_set_table_loop ops a zr r zi i ! j) (P j))"
  using assms
proof (induction i arbitrary: r zi)
  case (Suc i)
  let ?zi = "fe_mul ops zi (zr ! Suc i)"
  have m: "mag 8 zi" "mag 8 (zr ! Suc i)" "mag 8 ?zi" using Suc.prems chain.mul by (auto simp: zr_ok_def)
  have z: "fv (jz (a ! i)) * fv ?zi = 1"
    using Suc.prems(1,2,5) m by (simp add: zr_ok_def fv_mul mult.assoc mult.commute mult.left_commute)
  let ?r = "r[i := ge_set_gej_zinv ops (a ! i) ?zi]"
  have "ge_rep fv (ge_set_gej_zinv ops (a ! i) ?zi) (P i)"
    using zinv_rep [of "a ! i" ?zi "P i"] Suc.prems(1,2,6) m z by (simp add: zr_ok_def)
  then have "\<forall>j<len. i \<le> j \<longrightarrow> ge_rep fv (?r ! j) (P j)"
    using Suc.prems(2,3,7) by (auto simp: nth_list_update)
  then show ?case using Suc.IH [of ?r ?zi] Suc.prems m z by (simp add: Let_def)
qed auto

lemma set_table_rep:
  assumes "zr_ok fv mag a zr len" "len \<le> length r" "\<And>j. j < len \<Longrightarrow> gej_rep fv (a ! j) (P j)"
    and "0 < len \<Longrightarrow> fv (jz (a ! (len - 1))) ^ nat (field_p - 1) = 1"
  shows "\<forall>j<len. ge_rep fv (ge_set_table_gej_var ops r a zr len ! j) (P j)"
proof (cases "len = 0")
  case False
  let ?n = "len - 1" let ?zi = "fe_inv ops (jz (a ! ?n))"
  have m: "gej_ok mag (a ! ?n)" "mag 8 (jz (a ! ?n))" using assms(1) False by (auto simp: zr_ok_def gej_ok_def)
  have z: "mag 8 ?zi" "fv (jz (a ! ?n)) * fv ?zi = 1"
    using inv_mag [OF m(2)] inv_inverse [OF m(2)] assms(4) False mag_mono [of 1 _ 8] by auto
  let ?r = "r[?n := ge_set_gej_zinv ops (a ! ?n) ?zi]"
  have "ge_rep fv (ge_set_gej_zinv ops (a ! ?n) ?zi) (P ?n)"
    using zinv_rep [OF m(1) z(1) assms(3)] z(2) False by simp
  moreover have "j = ?n" if "j < len" "?n \<le> j" for j using that by simp
  ultimately have "\<forall>j<len. ?n \<le> j \<longrightarrow> ge_rep fv (?r ! j) (P j)"
    using assms(2) False by (metis diff_less nth_list_update_eq order_less_le_trans zero_less_iff_neq_zero zero_less_one)
  then show ?thesis
    using set_table_loop [OF assms(1), of ?n ?r ?zi P] assms(2,3) False z by (simp add: ge_set_table_gej_var_def Let_def)
qed simp

text \<open>Predicates, decompression, storage.\<close>

lemma globalz_loop:
  assumes "zr_ok fv mag a zr len" "i < len" "len \<le> length r" "mag 8 zs"
    and "i = len - 1 \<Longrightarrow> zs = zr ! i" "i \<noteq> len - 1 \<Longrightarrow> fv (jz (a ! i)) * fv zs = gz"
    and "gz = fv (jz (a ! (len - 1)))" "gz dvd 1"
    and "\<And>j. j < len \<Longrightarrow> gej_rep fv (a ! j) (P j)"
    and "\<forall>j<len. i \<le> j \<longrightarrow> \<not> ginf (r ! j) \<and> (\<exists>x y. P j = Affine x y \<and> fv (gx (r ! j)) = x * gz ^ 2 \<and> fv (gy (r ! j)) = y * gz ^ 3)"
  shows "\<forall>j<len. \<not> ginf (ge_globalz_loop ops len a zr r zs i ! j) \<and>
    (\<exists>x y. P j = Affine x y \<and> fv (gx (ge_globalz_loop ops len a zr r zs i ! j)) = x * gz ^ 2 \<and>
      fv (gy (ge_globalz_loop ops len a zr r zs i ! j)) = y * gz ^ 3)"
  using assms
proof (induction i arbitrary: r zs)
  case (Suc i)
  let ?zs = "if Suc i \<noteq> len - 1 then fe_mul ops zs (zr ! Suc i) else zs"
  have m: "mag 8 (zr ! Suc i)" "gej_ok mag (a ! i)" "\<not> jinf (a ! i)" using Suc.prems(1,2) by (auto simp: zr_ok_def)
  have zr: "fv (jz (a ! Suc i)) = fv (jz (a ! i)) * fv (zr ! Suc i)" using Suc.prems(1,2) by (simp add: zr_ok_def)
  have zs: "mag 8 ?zs" "fv (jz (a ! i)) * fv ?zs = gz"
    using Suc.prems(4-7) m(1) chain.mul zr by (auto simp: fv_mul ac_simps)
  obtain x y where P: "P i = Affine x y" "fv (jx (a ! i)) = x * fv (jz (a ! i)) ^ 2" "fv (jy (a ! i)) = y * fv (jz (a ! i)) ^ 3"
    using Suc.prems(2) Suc.prems(9) [of i] m(3) by (cases "P i") (auto simp: gej_rep_def)
  let ?g = "ge_set_gej_zinv ops (a ! i) ?zs"
  have d: "mag 8 (jx (a ! i))" "mag 8 (jy (a ! i))" using m(2) by (auto simp: gej_ok_def)
  have s: "mag 8 (fe_sqr ops ?zs)" "mag 8 (fe_mul ops (fe_sqr ops ?zs) ?zs)" using zs(1) chain.sqr chain.mul by blast+
  have g: "fv (gx ?g) = x * gz ^ 2" "fv (gy ?g) = y * gz ^ 3" "\<not> ginf ?g"
    unfolding zs(2) [symmetric] using d s zs(1) m(3) by (simp_all add: ge_set_gej_zinv_def Let_def fv_mul fv_sqr P ring_norm)
  let ?r = "r[i := ?g]"
  have "\<forall>j<len. i \<le> j \<longrightarrow> \<not> ginf (?r ! j) \<and> (\<exists>x y. P j = Affine x y \<and> fv (gx (?r ! j)) = x * gz ^ 2 \<and> fv (gy (?r ! j)) = y * gz ^ 3)"
    using Suc.prems(2,3,10) g P(1) by (auto simp: nth_list_update)
  moreover have "i \<noteq> len - 1" using Suc.prems(2) by simp
  ultimately show ?case
    using Suc.IH [of ?r ?zs] Suc.prems(1,2,3,7,8,9) zs by (simp add: Let_def)
qed auto

lemma globalz_rep:
  assumes "zr_ok fv mag a zr len" "0 < len" "len \<le> length r" "\<And>j. j < len \<Longrightarrow> gej_rep fv (a ! j) (P j)"
    and "ge_globalz_set_table_gej ops len r gz a zr = (r', gz')"
  shows "gz' = jz (a ! (len - 1)) \<and> (\<forall>j<len. \<not> ginf (r' ! j) \<and>
    gej_rep fv \<lparr>jx = gx (r' ! j), jy = gy (r' ! j), jz = gz', jinf = ginf (r' ! j)\<rparr> (P j))"
proof -
  let ?n = "len - 1" let ?r = "r[?n := \<lparr>gx = jx (a ! ?n), gy = jy (a ! ?n), ginf = False\<rparr>]"
  have l: "?n < len" "?n < length r" using assms(2,3) by simp_all
  then have m: "\<not> jinf (a ! ?n)" "mag 8 (zr ! ?n)" using assms(1) by (auto simp: zr_ok_def)
  then obtain x y where P: "P ?n = Affine x y" "fv (jx (a ! ?n)) = x * fv (jz (a ! ?n)) ^ 2" "fv (jy (a ! ?n)) = y * fv (jz (a ! ?n)) ^ 3"
      "fv (jz (a ! ?n)) dvd 1"
    using assms(4) [OF l(1)] by (cases "P ?n") (auto simp: gej_rep_def)
  have e: "r' = ge_globalz_loop ops len a zr ?r (zr ! ?n) ?n" "gz' = jz (a ! ?n)"
    using assms(2,5) by (auto simp: ge_globalz_set_table_gej_def Let_def)
  have "\<forall>j<len. \<not> ginf (r' ! j) \<and> (\<exists>x y. P j = Affine x y \<and> fv (gx (r' ! j)) = x * fv gz' ^ 2 \<and> fv (gy (r' ! j)) = y * fv gz' ^ 3)"
    unfolding e
  proof (rule globalz_loop [OF assms(1) l(1) _ m(2) refl _ refl P(4) assms(4)])
    have j: "j < len \<and> ?n \<le> j \<longleftrightarrow> j = ?n" for j using l(1) by auto
    show "\<forall>j<len. ?n \<le> j \<longrightarrow> \<not> ginf (?r ! j) \<and>
        (\<exists>x y. P j = Affine x y \<and> fv (gx (?r ! j)) = x * fv (jz (a ! ?n)) ^ 2 \<and> fv (gy (?r ! j)) = y * fv (jz (a ! ?n)) ^ 3)"
      unfolding imp_conjL [symmetric] j using P l(2) by (simp add: nth_list_update_eq)
  qed (use assms(3) in simp_all)
  then show ?thesis using P(4) e(2) by (auto simp: gej_rep_def)
qed

lemma neg_rep:
  assumes "gej_ok mag a" "gej_rep fv a P"
  shows "gej_rep fv (gej_neg ops a) (ec_neg P) \<and> gej_ok mag (gej_neg ops a)" (is "?P (gej_neg ops a)")
proof -
  have m: "mag (Suc (Suc 0)) z \<Longrightarrow> mag 8 z" for z using mag_mono [of 2 z 8] by (simp add: numeral_2_eq_2)
  show ?thesis
    unfolding gej_neg_def using gej_den [OF assms(1)]
    apply -
    apply (rule den_let [where P = ?P], ((rule den_rules | assumption | (simp (no_asm); fail))+)[1])+
    using assms(2) by (cases P) (auto simp: gej_rep_def gej_ok_def den_def m)
qed

lemma ge_neg_rep:
  assumes "ge_ok mag a" "ge_rep fv a P"
  shows "ge_rep fv (ge_neg ops a) (ec_neg P) \<and> ge_ok mag (ge_neg ops a)"
proof -
  have "den (fe_negate ops (fe_normalize_weak ops (gy a)) 1) 2 (- fv (gy a))"
    by (rule den_negate, rule den_normalize_weak, rule ge_den(2) [OF assms(1)]) simp_all
  then show ?thesis
    using assms mag_mono [of 2 _ 8] by (cases P) (auto simp: ge_neg_def Let_def ge_rep_def ge_ok_def den_def)
qed

lemma valid_iff:
  assumes "gej_ok mag a" "gej_rep fv a P"
  shows "gej_is_valid_var ops a \<longleftrightarrow> P \<noteq> Infinity \<and> on_curve P"
proof (cases P)
  case (Affine x y)
  let ?Z = "fv (jz a)"
  have v: "jinf a = False" "?Z dvd 1" "fv (jx a) = x * ?Z ^ 2" "fv (jy a) = y * ?Z ^ 3"
    using assms(2) unfolding Affine by (simp_all add: gej_rep_def)
  have b: "uint CURVE_B = 7" "unat CURVE_B = 7" by (simp_all add: CURVE_B_def)
  have "gej_is_valid_var ops a \<longleftrightarrow> ?Z ^ 6 * y ^ 2 = ?Z ^ 6 * (x ^ 3 + 7)" (is "?P (gej_is_valid_var ops a)")
    unfolding gej_is_valid_var_def v(1) if_False using gej_den [OF assms(1)]
    apply -
    apply (rule den_let [where P = ?P], ((rule den_rules | assumption | (simp (no_asm) add: b; fail))+)[1])+
    by (subst den_equal(2), assumption, assumption, simp, simp add: v ring_norm)
  then show ?thesis unfolding Affine unit_cancel [OF unit_power [OF v(2)]] by simp
qed (use assms(2) in \<open>simp add: gej_rep_def gej_is_valid_var_def\<close>)

lemma ge_valid_iff:
  assumes "ge_ok mag a" "ge_rep fv a P"
  shows "ge_is_valid_var ops a \<longleftrightarrow> P \<noteq> Infinity \<and> on_curve P"
proof (cases P)
  case (Affine x y)
  have v: "ginf a = False" "fv (gx a) = x" "fv (gy a) = y"
    using assms(2) unfolding Affine by (simp_all add: ge_rep_def)
  have b: "uint CURVE_B = 7" by (simp add: CURVE_B_def)
  have "ge_is_valid_var ops a \<longleftrightarrow> y ^ 2 = x ^ 3 + 7" (is "?P (ge_is_valid_var ops a)")
    unfolding ge_is_valid_var_def v(1) if_False using ge_den [OF assms(1)]
    apply -
    apply (rule den_let [where P = ?P], ((rule den_rules | assumption | (simp (no_asm) add: b; fail))+)[1])+
    by (subst den_equal(2), assumption, assumption, simp, simp add: v ring_norm)
  then show ?thesis unfolding Affine by simp
qed (use assms(2) in \<open>simp add: ge_rep_def ge_is_valid_var_def\<close>)

lemma eq_x_iff:
  assumes "gej_ok mag a" "mag 8 x" "gej_rep fv a (Affine px py)"
  shows "gej_eq_x_var ops x a \<longleftrightarrow> fv x = px"
proof -
  let ?Z = "fv (jz a)"
  have v: "?Z dvd 1" "fv (jx a) = px * ?Z ^ 2" using assms(3) by (simp_all add: gej_rep_def)
  have "gej_eq_x_var ops x a \<longleftrightarrow> ?Z ^ 2 * fv x = ?Z ^ 2 * px" (is "?P (gej_eq_x_var ops x a)")
    unfolding gej_eq_x_var_def using gej_den [OF assms(1)] den_self [OF assms(2)]
    apply -
    apply (rule den_let [where P = ?P], ((rule den_rules | assumption | (simp (no_asm); fail))+)[1])+
    by (subst den_equal(2), assumption, assumption, simp, simp add: v ring_norm)
  then show ?thesis unfolding unit_cancel [OF unit_power [OF v(1)]] .
qed

lemma rescale_rep:
  assumes "gej_ok mag a" "mag 8 s" "fv s dvd 1" "gej_rep fv a P"
  shows "gej_rep fv (gej_rescale ops a s) P \<and> gej_ok mag (gej_rescale ops a s)" (is "?P (gej_rescale ops a s)")
proof -
  have m: "mag (Suc 0) z \<Longrightarrow> mag 8 z" for z using mag_mono [of 1 z 8] by simp
  show ?thesis
    unfolding gej_rescale_def using gej_den [OF assms(1)] den_self [OF assms(2)]
    apply -
    apply (rule den_let [where P = ?P], ((rule den_rules | assumption | (simp (no_asm); fail))+)[1])+
    using assms(3,4) by (cases P) (auto simp: gej_rep_def gej_ok_def den_def m unit_mult ring_norm)
qed

lemma curve_b: "of_int (uint CURVE_B) = (7 :: fp)" "uint CURVE_B < 2 ^ 26"
  by (simp_all add: CURVE_B_def)

lemma xquad_spec:
  assumes "mag 8 x" "ge_set_xquad ops x = (ok, r)"
  shows "gx r = x" "\<not> ginf r" "mag 1 (gy r)" "fv (gy r) = (fv x ^ 3 + 7) ^ nat ((field_p + 1) div 4)"
    and "ok \<longleftrightarrow> on_curve (Affine (fv x) (fv (gy r)))"
proof -
  let ?c = "fe_add ops (fe_set_int ops CURVE_B) (fe_mul ops x (fe_sqr ops x))"
  have c: "den ?c 2 (7 + fv x * (fv x * fv x))"
    by (rule den_add, rule den_set_int [OF curve_b(2,1)], rule den_mul, rule den_self [OF assms(1)], rule den_sqr, rule den_self [OF assms(1)]) simp_all
  then have d: "mag 8 ?c" "fv ?c = fv x ^ 3 + 7" using mag_mono [of 2 ?c 8] by (simp_all add: den_def power3_eq_cube add.commute mult.assoc)
  have r: "ok = fst (fe_sqrt ops ?c)" "r = \<lparr>gx = x, gy = snd (fe_sqrt ops ?c), ginf = False\<rparr>"
    using assms(2) by (auto simp: ge_set_xquad_def Let_def split: prod.splits)
  show "gx r = x" "\<not> ginf r" "mag 1 (gy r)" "fv (gy r) = (fv x ^ 3 + 7) ^ nat ((field_p + 1) div 4)"
    "ok \<longleftrightarrow> on_curve (Affine (fv x) (fv (gy r)))"
    using sqrt_spec [OF d(1)] by (simp_all add: r d(2) power2_eq_square)
qed

lemma xo_spec:
  assumes "mag 8 x" "ge_set_xo_var ops x parity = (ok, r)"
  shows "ok \<longleftrightarrow> fst (ge_set_xquad ops x)"
    and "ok \<Longrightarrow> gx r = x \<and> \<not> ginf r \<and> on_curve (Affine (fv x) (fv (gy r))) \<and> mag 2 (gy r)"
    and "ok \<Longrightarrow> parity = of_bool c \<Longrightarrow> fv (gy r) \<noteq> 0 \<Longrightarrow> odd (Rep_fp (fv (gy r))) \<longleftrightarrow> c"
proof -
  obtain k s where q: "ge_set_xquad ops x = (k, s)" by fastforce
  note s = xquad_spec [OF assms(1) q]
  let ?y = "fe_normalize_var ops (gy s)"
  have m: "mag 31 (gy s)" using mag_mono [OF s(3)] by simp
  have y: "nrm ?y" "fv ?y = fv (gy s)" "val ?y < field_p" "0 \<le> val ?y" "mag 1 ?y"
    using normalize [OF m] fv_normalize [OF m] nrm_val nrm_mag by (auto simp: normalize_var [OF m] field_p_pos)
  have n: "mag 2 (fe_negate ops ?y 1)" "fv (fe_negate ops ?y 1) = - fv ?y"
    using negate [OF y(5), of 1] fv_negate [OF y(5), of 1] by (simp_all add: numeral_2_eq_2)
  have r: "ok = k" "r = (if k then if of_bool (fe_is_odd ops ?y) \<noteq> parity then s\<lparr>gy := fe_negate ops ?y 1\<rparr> else s\<lparr>gy := ?y\<rparr> else s)"
    using assms(2) by (auto simp: ge_set_xo_var_def q Let_def split: if_splits)
  show "ok \<longleftrightarrow> fst (ge_set_xquad ops x)" by (simp add: r q)
  show "ok \<Longrightarrow> gx r = x \<and> \<not> ginf r \<and> on_curve (Affine (fv x) (fv (gy r))) \<and> mag 2 (gy r)"
    using s n y mag_mono [of 1 ?y 2] by (auto simp: r)
  have R: "Rep_fp (fv ?y) = val ?y" unfolding fv_def fp_of_int using y(3,4) by simp
  have N: "Rep_fp (- fv ?y) = field_p - val ?y" if "val ?y \<noteq> 0"
  proof -
    have "Rep_fp (- fv ?y) = (- val ?y) mod field_p" using fp_of_int [of "- val ?y"] by (simp add: fv_def)
    also have "\<dots> = (- val ?y + field_p) mod field_p" by simp
    also have "\<dots> = field_p - val ?y" using that y by (subst mod_pos_pos_trivial) auto
    finally show ?thesis .
  qed
  have p: "odd field_p" by (simp add: field_p_def)
  show "odd (Rep_fp (fv (gy r))) \<longleftrightarrow> c" if "ok" "parity = of_bool c" "fv (gy r) \<noteq> 0"
  proof -
    have "val ?y \<noteq> 0" using that(1,3) n y by (auto simp: r fv_def split: if_splits)
    then show ?thesis using that(1,2) y(1) n N p by (auto simp: r is_odd R)
  qed
qed

lemma storage_rep:
  assumes "ge_ok mag a"
  shows "ge_from_storage ops (ge_to_storage ops a) = \<lparr>gx = fe_normalize ops (gx a), gy = fe_normalize ops (gy a), ginf = False\<rparr>"
    and "ge_rep fv a (Affine x y) \<Longrightarrow> ge_rep fv (ge_from_storage ops (ge_to_storage ops a)) (Affine x y)"
proof -
  have m: "mag 31 (gx a)" "mag 31 (gy a)" using assms mag_mono [of 8 _ 31] by (auto simp: ge_ok_def)
  show e: "ge_from_storage ops (ge_to_storage ops a) = \<lparr>gx = fe_normalize ops (gx a), gy = fe_normalize ops (gy a), ginf = False\<rparr>"
    using normalize m storage by (simp add: ge_from_storage_def ge_to_storage_def Let_def)
  show "ge_rep fv a (Affine x y) \<Longrightarrow> ge_rep fv (ge_from_storage ops (ge_to_storage ops a)) (Affine x y)"
    unfolding e using fv_normalize m by (simp add: ge_rep_def)
qed

lemma lambda_rep:
  assumes "ge_ok mag a" "ge_rep fv a (Affine x y)"
  shows "ge_rep fv (ge_mul_lambda ops a) (Affine (of_int field_beta * x) y)"
    and "on_curve (Affine (of_int field_beta * x) y) \<longleftrightarrow> on_curve (Affine x y)"
proof -
  let ?b = "fe_const ops 0x7ae96a2b 0x657c0710 0x6e64479e 0xac3434e9 0x9cf04975 0x12f58995 0xc1396c28 0x719501ee"
  have "nrm ?b \<and> val ?b = field_beta"
    using const [of "0x719501ee" "0xc1396c28" "0x12f58995" "0x9cf04975" "0xac3434e9" "0x6e64479e" "0x657c0710" "0x7ae96a2b"]
    by (simp add: limbs_val_Cons field_p_def field_beta_def)
  then have "mag 8 ?b" "fv ?b = of_int field_beta" using mag_mono [OF nrm_mag, of _ 8] by (auto simp: fv_def)
  then show "ge_rep fv (ge_mul_lambda ops a) (Affine (of_int field_beta * x) y)"
    using assms by (simp add: ge_mul_lambda_def ge_rep_def ge_ok_def fv_mul mult.commute)
  show "on_curve (Affine (of_int field_beta * x) y) \<longleftrightarrow> on_curve (Affine x y)"
    by (simp add: power_mult_distrib field_beta_cube)
qed

lemma has_quad_y_iff:
  assumes "gej_ok mag a"
  shows "gej_has_quad_y_var ops a \<longleftrightarrow> \<not> jinf a \<and> (let t = fv (jy a) * fv (jz a) in (t ^ nat ((field_p + 1) div 4)) ^ 2 = t)"
proof -
  have m: "mag 8 (jy a)" "mag 8 (jz a)" using assms by (auto simp: gej_ok_def)
  have y: "mag 8 (fe_mul ops (jy a) (jz a))" using chain.mul [OF m] by simp
  show ?thesis
    using sqrt_spec [OF y] by (auto simp: gej_has_quad_y_var_def fe_is_quad_var_def Let_def fv_mul [OF m] power2_eq_square)
qed

end

subsection \<open>The generator\<close>

text \<open>The generator, its tangent slope and the inverse of twice its \<open>y\<close> coordinate.\<close>

lemma generator_facts:
  fixes x y l :: fp
  defines "x \<equiv> of_int 0x79be667ef9dcbbac55a06295ce870b07029bfcdb2dce28d959f2815b16f81798" and "y \<equiv> of_int 0x483ada7726a3c4655da4fbfc0e1108a8fd17b448a68554199c47d08ffb10d4b8" and "l \<equiv> of_int 0xcb35b28428101a303eb9d1235992ac63f58857c2f631ee6936d3aebbeddcd1b1"
  shows "on_curve (Affine x y)" "2 * y dvd 1" "2 * y * l = 3 * x ^ 2"
proof -
  let ?x = "0x79be667ef9dcbbac55a06295ce870b07029bfcdb2dce28d959f2815b16f81798 :: int" let ?y = "0x483ada7726a3c4655da4fbfc0e1108a8fd17b448a68554199c47d08ffb10d4b8 :: int"
  have x2: "?x * ?x = 0x8550e7d238fcf3086ba9adcf0fb52a9de3652194d06cb5bb38d50229b854fc49 + field_p * 0x39e58a8055b6fb264b75ec8c646509784204ac15a8c24e05babc9729e58090b9" by (simp add: field_p_def)
  have x3: "0x8550e7d238fcf3086ba9adcf0fb52a9de3652194d06cb5bb38d50229b854fc49 * ?x = 0x4866d6a5ab41ab2c6bcc57ccd3735da5f16f80a548e5e20a44e4e9b8118c26eb + field_p * 0x3f6664fec7445b86bad8c9a43effc5dc7384557bb62eadd8e2177ae0a2039723" by (simp add: field_p_def)
  have y2: "?y * ?y = (0x4866d6a5ab41ab2c6bcc57ccd3735da5f16f80a548e5e20a44e4e9b8118c26eb + 7) + field_p * 9217920084583157935602994580951900810186344190718383666107426471107247357458" by (simp add: field_p_def)
  have i: "2 * ?y * 0xb7e31a064ed74d314de79011c5f0a46ac155602353dc3d340fbeaeec9767a6a6 = 1 + field_p * 46935045790725648649267782968500640161152285907695229854005833192632722118801" by (simp add: field_p_def)
  have l: "2 * ?y * 0xcb35b28428101a303eb9d1235992ac63f58857c2f631ee6936d3aebbeddcd1b1 = 3 * 0x8550e7d238fcf3086ba9adcf0fb52a9de3652194d06cb5bb38d50229b854fc49 + field_p * (51866924557054072452579121926874855386705887104427083614665170644470859381115)" by (simp add: field_p_def)
  have e: "(of_int a :: fp) = of_int b" if "a = b + field_p * q" for a b q unfolding fp_eq_iff that by simp
  note f = e [OF x2] e [OF x3] e [OF y2] e [OF i] e [OF l]
  show "on_curve (Affine x y)"
    using f(1-3) unfolding x_def y_def on_curve.simps power2_eq_square power3_eq_cube of_int_mult of_int_add by simp
  show "2 * y dvd 1"
    by (rule dvdI [where k = "of_int 0xb7e31a064ed74d314de79011c5f0a46ac155602353dc3d340fbeaeec9767a6a6"]) (use f(4) in \<open>simp only: y_def of_int_mult of_int_numeral of_int_1\<close>)
  show "2 * y * l = 3 * x ^ 2"
    using f(1,5) unfolding x_def y_def l_def power2_eq_square of_int_mult by simp
qed

context group_arith
begin

lemma generator_rep:
  "mag 8 (gx (ge_const_g ops))" "mag 8 (gy (ge_const_g ops))" "\<not> ginf (ge_const_g ops)"
  "fv (gx (ge_const_g ops)) = of_int 0x79be667ef9dcbbac55a06295ce870b07029bfcdb2dce28d959f2815b16f81798" "fv (gy (ge_const_g ops)) = of_int 0x483ada7726a3c4655da4fbfc0e1108a8fd17b448a68554199c47d08ffb10d4b8"
proof -
  note x = const [of "0x16F81798" "0x59F2815B" "0x2DCE28D9" "0x029BFCDB" "0xCE870B07" "0x55A06295" "0xF9DCBBAC" "0x79BE667E"]
  note y = const [of "0xFB10D4B8" "0x9C47D08F" "0xA6855419" "0xFD17B448" "0x0E1108A8" "0x5DA4FBFC" "0x26A3C465" "0x483ADA77"]
  show "mag 8 (gx (ge_const_g ops))" "mag 8 (gy (ge_const_g ops))" "\<not> ginf (ge_const_g ops)"
    "fv (gx (ge_const_g ops)) = of_int 0x79be667ef9dcbbac55a06295ce870b07029bfcdb2dce28d959f2815b16f81798" "fv (gy (ge_const_g ops)) = of_int 0x483ada7726a3c4655da4fbfc0e1108a8fd17b448a68554199c47d08ffb10d4b8"
    using x y mag_mono [OF nrm_mag, of _ 8] by (simp_all add: ge_const_g_def fv_def limbs_val_Cons field_p_def)
qed

text \<open>Doubling the generator is a case of the tangent construction.\<close>

lemma generator_double:
  assumes "g = ge_const_g ops"
  shows "\<exists>x3 y3. ec_add (Affine (fv (gx g)) (fv (gy g))) (Affine (fv (gx g)) (fv (gy g))) (Affine x3 y3)"
    and "ge_ok mag g" "ge_rep fv g (Affine (fv (gx g)) (fv (gy g)))"
    and "gej_ok mag (gej_set_ge ops g)" "gej_rep fv (gej_set_ge ops g) (Affine (fv (gx g)) (fv (gy g)))"
    and "on_curve (Affine (fv (gx g)) (fv (gy g)))" "fv (gy g) + fv (gy g) dvd 1"
proof -
  note f = generator_facts [folded generator_rep(4,5)]
  show "\<exists>x3 y3. ec_add (Affine (fv (gx g)) (fv (gy g))) (Affine (fv (gx g)) (fv (gy g))) (Affine x3 y3)"
    using ec_add.tangent [OF f(2,3) refl refl] unfolding assms by blast
  show g: "ge_ok mag g" "ge_rep fv g (Affine (fv (gx g)) (fv (gy g)))"
    using generator_rep by (simp_all add: assms ge_ok_def ge_rep_def)
  show "gej_ok mag (gej_set_ge ops g)" "gej_rep fv (gej_set_ge ops g) (Affine (fv (gx g)) (fv (gy g)))"
    using gej_set_ge_rep [OF g] by blast+
  show "on_curve (Affine (fv (gx g)) (fv (gy g)))" "fv (gy g) + fv (gy g) dvd 1"
    using f(1,2) unfolding assms mult_2 by blast+
qed

end

end
