(* ===== verification/Group_5x52.thy ===== *)
theory Group_5x52
  imports Group Field_5x52
begin

text \<open>
  The group code over the 5x52 field representation: the lemmas of theory \<open>Group\<close> at the interpretation \<open>g5\<close>. The points of the specification are over the residues \<open>fp\<close>; \<open>fe_fp\<close> is the residue that a limb
  vector denotes.
\<close>

definition fe_fp :: "fe_5x52 \<Rightarrow> fp" where
  "fe_fp a = of_int (fe_val a)"

interpretation g5: group_arith field_ops_5x52 fe_val fe_mag fe_normalized
  by unfold_locales

lemma fv_fe_fp: "f5.fv = fe_fp"
  by (rule ext) (simp add: f5.fv_def fe_fp_def)

lemma fe_fp_eval: "fe_fp (FE5 a b c d e) = of_int (limbs_val 52 [a, b, c, d, e])"
  by (simp add: fe_fp_def fe_val_def)

lemmas group_eval = gej_ok_def ge_ok_def gej_rep_def ge_rep_def fe_mag_def limbs_le_def fe_fp_eval limbs_val_Cons

subsection \<open>Properties\<close>

text \<open>Whenever the chord and tangent construction gives \<open>P + Q = R\<close>, the two variable time additions
  of Jacobian and of mixed coordinates return a representation of \<open>R\<close>, in every branch (infinity on either side,
  opposite points, doubling, distinct points), with all coordinates of magnitude at most 8; and \<open>R\<close> is on the curve when
  \<open>P\<close> and \<open>Q\<close> are.\<close>

theorem gej_add_refines:
  assumes "gej_ok fe_mag r" "gej_ok fe_mag a" "gej_rep fe_fp a P" "ec_add P Q R"
    and "gej_ok fe_mag b" "gej_rep fe_fp b Q" and "ge_ok fe_mag b'" "ge_rep fe_fp b' Q"
  shows "gej_rep fe_fp (fst (gej_add_var field_ops_5x52 r a b rzr)) R \<and> gej_ok fe_mag (fst (gej_add_var field_ops_5x52 r a b rzr)) \<and>
    gej_rep fe_fp (fst (gej_add_ge_var field_ops_5x52 r a b' rzr)) R \<and> gej_ok fe_mag (fst (gej_add_ge_var field_ops_5x52 r a b' rzr)) \<and>
    (on_curve P \<and> on_curve Q \<longrightarrow> on_curve R)"
  using g5.add_var_rep [OF assms(1,2,5)] g5.add_ge_var_rep [OF assms(1,2,7)] assms ec_add_on_curve
  unfolding fv_fe_fp by blast

theorem gej_add_refines_witness:
  "gej_rep fe_fp (fst (gej_add_var field_ops_5x52 \<lparr>jx = FE5 0 0 0 0 0, jy = FE5 0 0 0 0 0, jz = FE5 0 0 0 0 0, jinf = True\<rparr>
      \<lparr>jx = FE5 1 0 0 0 0, jy = FE5 1 0 0 0 0, jz = FE5 1 0 0 0 0, jinf = False\<rparr>
      \<lparr>jx = FE5 2 0 0 0 0, jy = FE5 3 0 0 0 0, jz = FE5 1 0 0 0 0, jinf = False\<rparr> None)) (Affine 1 (-1))"
proof -
  have "ec_add (Affine 1 1) (Affine 2 3) (Affine 1 (-1))" by (rule ec_add.chord [of _ _ 2]) simp_all
  then show ?thesis
    using gej_add_refines [of "\<lparr>jx = FE5 0 0 0 0 0, jy = FE5 0 0 0 0 0, jz = FE5 0 0 0 0 0, jinf = True\<rparr>"
      "\<lparr>jx = FE5 1 0 0 0 0, jy = FE5 1 0 0 0 0, jz = FE5 1 0 0 0 0, jinf = False\<rparr>" "Affine 1 1" "Affine 2 3" "Affine 1 (-1)"
      "\<lparr>jx = FE5 2 0 0 0 0, jy = FE5 3 0 0 0 0, jz = FE5 1 0 0 0 0, jinf = False\<rparr>" "\<lparr>gx = FE5 2 0 0 0 0, gy = FE5 3 0 0 0 0, ginf = False\<rparr>" None]
    by (simp add: group_eval)
qed

text \<open>Adding an affine point given over a common \<open>z\<close>, with the inverse of that \<open>z\<close>, computes the
  sum with the point \<open>(x * zinv^2, y * zinv^3)\<close>.\<close>

theorem gej_add_zinv_refines:
  assumes "gej_ok fe_mag r" "gej_ok fe_mag a" "ge_ok fe_mag b" "fe_mag 8 bzinv" "gej_rep fe_fp a P"
    and "ec_add P (if ginf b then Infinity else Affine (fe_fp (gx b) * fe_fp bzinv ^ 2) (fe_fp (gy b) * fe_fp bzinv ^ 3)) R"
  shows "gej_rep fe_fp (gej_add_zinv_var field_ops_5x52 r a b bzinv) R \<and> gej_ok fe_mag (gej_add_zinv_var field_ops_5x52 r a b bzinv)"
  using g5.add_zinv_var_rep [OF assms(1-4)] assms(5,6) unfolding fv_fe_fp by blast

theorem gej_add_zinv_refines_witness:
  "gej_rep fe_fp (gej_add_zinv_var field_ops_5x52 \<lparr>jx = FE5 0 0 0 0 0, jy = FE5 0 0 0 0 0, jz = FE5 0 0 0 0 0, jinf = True\<rparr>
      \<lparr>jx = FE5 1 0 0 0 0, jy = FE5 1 0 0 0 0, jz = FE5 1 0 0 0 0, jinf = False\<rparr>
      \<lparr>gx = FE5 3 0 0 0 0, gy = FE5 1 0 0 0 0, ginf = False\<rparr> (FE5 1 0 0 0 0)) (Affine (-4) (-1))"
proof -
  have "ec_add (Affine 1 1) (Affine 3 1) (Affine (-4) (-1))"
    by (rule ec_add.chord [of _ _ 0]) (use two_unit in simp_all)
  then show ?thesis
    using gej_add_zinv_refines [of "\<lparr>jx = FE5 0 0 0 0 0, jy = FE5 0 0 0 0 0, jz = FE5 0 0 0 0 0, jinf = True\<rparr>"
      "\<lparr>jx = FE5 1 0 0 0 0, jy = FE5 1 0 0 0 0, jz = FE5 1 0 0 0 0, jinf = False\<rparr>" "\<lparr>gx = FE5 3 0 0 0 0, gy = FE5 1 0 0 0 0, ginf = False\<rparr>"
      "FE5 1 0 0 0 0" "Affine 1 1" "Affine (-4) (-1)"]
    by (simp add: group_eval)
qed

text \<open>Doubling computes the tangent construction and its optional third output is the factor between
  the \<open>z\<close> coordinates; the point at infinity is its own double.\<close>

theorem gej_double_refines:
  assumes "gej_ok fe_mag a" "gej_rep fe_fp a P" "ec_add P P R" "R \<noteq> Infinity \<or> P = Infinity"
    and "gej_double_var field_ops_5x52 r a rzr = (r', rzr')"
  shows "gej_rep fe_fp r' R \<and> (P \<noteq> Infinity \<longrightarrow> gej_ok fe_mag r' \<and> (\<forall>z\<in>set_option rzr'. fe_fp (jz r') = fe_fp (jz a) * fe_fp z))"
proof (cases P)
  case Infinity
  then have "jinf a" "R = Infinity" using assms(2,3) by (auto simp: gej_rep_def elim: ec_add_infinityE)
  then show ?thesis using assms(5) Infinity by (auto simp: gej_double_var_def gej_rep_def)
next
  case (Affine x y)
  from assms(3) [unfolded Affine] show ?thesis
  proof (cases rule: ec_add_affineE)
    case opposite
    then show ?thesis using assms(4) Affine by simp
  next
    case (tangent l x3 y3)
    then show ?thesis
      using g5.double_rep [OF assms(1) _ tangent(3-5) assms(5)] assms(2) Affine unfolding fv_fe_fp by simp
  next
    case (chord l x3 y3)
    then show ?thesis by simp
  qed
qed

theorem gej_double_refines_witness:
  "gej_rep fe_fp (fst (gej_double_var field_ops_5x52 \<lparr>jx = FE5 0 0 0 0 0, jy = FE5 0 0 0 0 0, jz = FE5 0 0 0 0 0, jinf = True\<rparr>
      \<lparr>jx = FE5 2 0 0 0 0, jy = FE5 1 0 0 0 0, jz = FE5 1 0 0 0 0, jinf = False\<rparr> None)) (Affine 32 (-181))"
proof -
  let ?r = "\<lparr>jx = FE5 0 0 0 0 0, jy = FE5 0 0 0 0 0, jz = FE5 0 0 0 0 0, jinf = True\<rparr>"
  let ?a = "\<lparr>jx = FE5 2 0 0 0 0, jy = FE5 1 0 0 0 0, jz = FE5 1 0 0 0 0, jinf = False\<rparr>"
  have "ec_add (Affine 2 1) (Affine 2 1) (Affine 32 (-181))"
    by (rule ec_add.tangent [of _ 6]) (use two_unit in simp_all)
  then show ?thesis
    using gej_double_refines [of ?a "Affine 2 1" "Affine 32 (-181)" ?r None "fst (gej_double_var field_ops_5x52 ?r ?a None)" "snd (gej_double_var field_ops_5x52 ?r ?a None)"]
    by (simp add: group_eval)
qed

text \<open>The constant time addition, whose single formula covers addition and doubling and switches to
  the alternative slope in the degenerate case, also computes the sum, for every curve point \<open>P\<close> (infinity included)
  and every finite curve point \<open>(x2, y2)\<close>, as long as \<open>y1 + y2\<close> is zero or invertible.\<close>

theorem gej_add_ge_refines:
  assumes "gej_ok fe_mag a" "ge_ok fe_mag b" "gej_rep fe_fp a P" "ge_rep fe_fp b (Affine x2 y2)"
    and "on_curve P" "on_curve (Affine x2 y2)" "ec_add P (Affine x2 y2) R"
    and "\<And>x1 y1. P = Affine x1 y1 \<Longrightarrow> y1 + y2 = 0 \<or> y1 + y2 dvd 1"
  shows "gej_rep fe_fp (gej_add_ge field_ops_5x52 a b) R \<and> gej_ok fe_mag (gej_add_ge field_ops_5x52 a b)"
  using g5.add_ge_rep [OF assms(1,2)] assms(3-8) unfolding fv_fe_fp by blast

lemma generator_5x52:
  "fe_mag 8 (gx (ge_const_g field_ops_5x52))" "fe_mag 8 (gy (ge_const_g field_ops_5x52))" "\<not> ginf (ge_const_g field_ops_5x52)"
  "fe_fp (gx (ge_const_g field_ops_5x52)) = of_int 0x79be667ef9dcbbac55a06295ce870b07029bfcdb2dce28d959f2815b16f81798" "fe_fp (gy (ge_const_g field_ops_5x52)) = of_int 0x483ada7726a3c4655da4fbfc0e1108a8fd17b448a68554199c47d08ffb10d4b8"
  using fe_const_correct(1) [of "0x79BE667E" "0xF9DCBBAC" "0x55A06295" "0xCE870B07" "0x029BFCDB" "0x2DCE28D9" "0x59F2815B" "0x16F81798"]
    fe_const_correct(1) [of "0x483ADA77" "0x26A3C465" "0x5DA4FBFC" "0x0E1108A8" "0xFD17B448" "0xA6855419" "0x9C47D08F" "0xFB10D4B8"]
    fe_const_correct(2) [of "0x79BE667E" "0xF9DCBBAC" "0x55A06295" "0xCE870B07" "0x029BFCDB" "0x2DCE28D9" "0x59F2815B" "0x16F81798"]
    fe_const_correct(2) [of "0x483ADA77" "0x26A3C465" "0x5DA4FBFC" "0x0E1108A8" "0xFD17B448" "0xA6855419" "0x9C47D08F" "0xFB10D4B8"]
  by (simp_all add: ge_const_g_def field_ops_5x52_def fe_fp_def limbs_val_Cons fe_mag_def limbs_le_def)

theorem gej_add_ge_refines_witness:
  "\<exists>x3 y3. ec_add (Affine (fe_fp (gx (ge_const_g field_ops_5x52))) (fe_fp (gy (ge_const_g field_ops_5x52))))
      (Affine (fe_fp (gx (ge_const_g field_ops_5x52))) (fe_fp (gy (ge_const_g field_ops_5x52)))) (Affine x3 y3) \<and>
    gej_rep fe_fp (gej_add_ge field_ops_5x52 (gej_set_ge field_ops_5x52 (ge_const_g field_ops_5x52)) (ge_const_g field_ops_5x52)) (Affine x3 y3)"
proof -
  let ?g = "ge_const_g field_ops_5x52" let ?x = "fe_fp (gx ?g)" let ?y = "fe_fp (gy ?g)"
  note f = generator_facts [folded generator_5x52(4,5)]
  obtain x3 y3 where R: "ec_add (Affine ?x ?y) (Affine ?x ?y) (Affine x3 y3)" using ec_add.tangent [OF f(2,3) refl refl] by blast
  have g: "ge_ok fe_mag ?g" "ge_rep fe_fp ?g (Affine ?x ?y)" using generator_5x52 by (simp_all add: ge_ok_def ge_rep_def)
  then have j: "gej_ok fe_mag (gej_set_ge field_ops_5x52 ?g)" "gej_rep fe_fp (gej_set_ge field_ops_5x52 ?g) (Affine ?x ?y)"
    using g5.gej_set_ge_rep [of ?g "Affine ?x ?y"] unfolding fv_fe_fp by blast+
  have d: "\<And>x1 y1. Affine ?x ?y = Affine x1 y1 \<Longrightarrow> y1 + ?y = 0 \<or> y1 + ?y dvd 1" using f(2) by (auto simp only: mult_2 point.inject)
  have "gej_rep fe_fp (gej_add_ge field_ops_5x52 (gej_set_ge field_ops_5x52 ?g) ?g) (Affine x3 y3)"
    using gej_add_ge_refines [OF j(1) g(1) j(2) g(2) f(1) f(1) R] d by blast
  with R show ?thesis by blast
qed

text \<open>The conversions to affine coordinates return the point that the Jacobian coordinates represent,
  when Fermat's equation holds for \<open>z\<close>; the variable time version agrees with the other one on finite points and leaves
  the coordinates alone on infinity. The batch conversion does the same for every point of an array, with infinities
  anywhere in it and a single field inversion.\<close>

theorem ge_set_gej_refines:
  assumes "gej_ok fe_mag a" "gej_rep fe_fp a P" "jinf a \<or> fe_fp (jz a) ^ nat (field_p - 1) = 1"
    and "list_all2 (gej_rep fe_fp) as Ps" "\<forall>p\<in>set as. gej_ok fe_mag p" "length rs = length as"
    and "length (filter (\<lambda>p. \<not> jinf p) as) \<le> length azi"
    and "(\<Prod>p\<leftarrow>filter (\<lambda>p. \<not> jinf p) as. fe_fp (jz p)) ^ nat (field_p - 1) = 1"
  shows "ge_rep fe_fp (fst (ge_set_gej field_ops_5x52 a)) P \<and> gej_rep fe_fp (snd (ge_set_gej field_ops_5x52 a)) P \<and>
    (\<not> jinf a \<longrightarrow> ge_set_gej_var field_ops_5x52 r a = ge_set_gej field_ops_5x52 a) \<and>
    (jinf a \<longrightarrow> ge_set_gej_var field_ops_5x52 r a = (r\<lparr>ginf := True\<rparr>, a)) \<and>
    list_all2 (ge_rep fe_fp) (ge_set_all_gej_var field_ops_5x52 azi rs as) Ps"
  using g5.set_gej_rep [OF assms(1), of P r] g5.set_all_rep [of as Ps rs azi] assms unfolding fv_fe_fp by blast

theorem ge_set_gej_refines_witness:
  "list_all2 (ge_rep fe_fp) (ge_set_all_gej_var field_ops_5x52 [FE5 9 9 9 9 9]
     [\<lparr>gx = FE5 0 0 0 0 0, gy = FE5 0 0 0 0 0, ginf = False\<rparr>, \<lparr>gx = FE5 0 0 0 0 0, gy = FE5 0 0 0 0 0, ginf = False\<rparr>]
     [\<lparr>jx = FE5 0 0 0 0 0, jy = FE5 0 0 0 0 0, jz = FE5 0 0 0 0 0, jinf = True\<rparr>,
      \<lparr>jx = FE5 2 0 0 0 0, jy = FE5 1 0 0 0 0, jz = FE5 1 0 0 0 0, jinf = False\<rparr>]) [Infinity, Affine 2 1]"
  using ge_set_gej_refines [of "\<lparr>jx = FE5 0 0 0 0 0, jy = FE5 0 0 0 0 0, jz = FE5 0 0 0 0 0, jinf = True\<rparr>" Infinity
     "[\<lparr>jx = FE5 0 0 0 0 0, jy = FE5 0 0 0 0 0, jz = FE5 0 0 0 0 0, jinf = True\<rparr>,
      \<lparr>jx = FE5 2 0 0 0 0, jy = FE5 1 0 0 0 0, jz = FE5 1 0 0 0 0, jinf = False\<rparr>]" "[Infinity, Affine 2 1]"
     "[\<lparr>gx = FE5 0 0 0 0 0, gy = FE5 0 0 0 0 0, ginf = False\<rparr>, \<lparr>gx = FE5 0 0 0 0 0, gy = FE5 0 0 0 0 0, ginf = False\<rparr>]" "[FE5 9 9 9 9 9]"]
  by (simp add: gej_ok_def gej_rep_def fe_mag_def limbs_le_def fe_fp_eval limbs_val_Cons)

text \<open>Converting a table of points whose \<open>z\<close> coordinates are related by the factors \<open>zr\<close>: one routine
  brings every entry to affine coordinates, the other brings all entries to the \<open>z\<close> of the last one; in both every entry
  still stands for its point.\<close>

theorem ge_table_refines:
  assumes "zr_ok fe_fp fe_mag a zr len" "0 < len" "len \<le> length r" "\<And>j. j < len \<Longrightarrow> gej_rep fe_fp (a ! j) (P j)"
    and "fe_fp (jz (a ! (len - 1))) ^ nat (field_p - 1) = 1" "ge_globalz_set_table_gej field_ops_5x52 len r gz a zr = (r', gz')"
  shows "(\<forall>j<len. ge_rep fe_fp (ge_set_table_gej_var field_ops_5x52 r a zr len ! j) (P j)) \<and> gz' = jz (a ! (len - 1)) \<and>
    (\<forall>j<len. \<not> ginf (r' ! j) \<and> gej_rep fe_fp \<lparr>jx = gx (r' ! j), jy = gy (r' ! j), jz = gz', jinf = ginf (r' ! j)\<rparr> (P j))"
  using g5.set_table_rep [of a zr len r P] g5.globalz_rep [of a zr len r P gz r' gz'] assms unfolding fv_fe_fp by blast

theorem ge_table_refines_witness:
  "ge_rep fe_fp (ge_set_table_gej_var field_ops_5x52 [\<lparr>gx = FE5 0 0 0 0 0, gy = FE5 0 0 0 0 0, ginf = False\<rparr>]
     [\<lparr>jx = FE5 2 0 0 0 0, jy = FE5 1 0 0 0 0, jz = FE5 1 0 0 0 0, jinf = False\<rparr>] [FE5 1 0 0 0 0] 1 ! 0) (Affine 2 1)"
proof -
  let ?a = "[\<lparr>jx = FE5 2 0 0 0 0, jy = FE5 1 0 0 0 0, jz = FE5 1 0 0 0 0, jinf = False\<rparr>]"
  let ?r = "[\<lparr>gx = FE5 0 0 0 0 0, gy = FE5 0 0 0 0 0, ginf = False\<rparr>]"
  obtain r' gz' where e: "ge_globalz_set_table_gej field_ops_5x52 1 ?r (FE5 0 0 0 0 0) ?a [FE5 1 0 0 0 0] = (r', gz')" by fastforce
  have z: "zr_ok fe_fp fe_mag ?a [FE5 1 0 0 0 0] 1" by (simp add: zr_ok_def gej_ok_def fe_mag_def limbs_le_def)
  have p: "gej_rep fe_fp (?a ! j) (Affine 2 1)" if "j < 1" for j
    using that by (simp add: gej_rep_def fe_fp_eval limbs_val_Cons)
  show ?thesis
    using ge_table_refines [OF z _ _ p _ e] by (simp add: fe_fp_eval limbs_val_Cons)
qed

text \<open>The validity tests accept exactly the finite points on the curve; the comparison of an \<open>x\<close>
  coordinate, negation and rescaling act on the represented point; the quadratic residue test of \<open>y\<close> is the square root
  test of \<open>y * z\<close>.\<close>

theorem gej_predicates_spec:
  assumes "gej_ok fe_mag a" "gej_rep fe_fp a P" "ge_ok fe_mag b" "ge_rep fe_fp b Q" "fe_mag 8 x" "fe_mag 8 s" "fe_fp s dvd 1"
  shows "(gej_is_valid_var field_ops_5x52 a \<longleftrightarrow> P \<noteq> Infinity \<and> on_curve P) \<and>
    (ge_is_valid_var field_ops_5x52 b \<longleftrightarrow> Q \<noteq> Infinity \<and> on_curve Q) \<and>
    (\<forall>px py. P = Affine px py \<longrightarrow> (gej_eq_x_var field_ops_5x52 x a \<longleftrightarrow> fe_fp x = px)) \<and>
    gej_rep fe_fp (gej_neg field_ops_5x52 a) (ec_neg P) \<and> ge_rep fe_fp (ge_neg field_ops_5x52 b) (ec_neg Q) \<and>
    gej_rep fe_fp (gej_rescale field_ops_5x52 a s) P \<and>
    (gej_has_quad_y_var field_ops_5x52 a \<longleftrightarrow>
      P \<noteq> Infinity \<and> ((fe_fp (jy a) * fe_fp (jz a)) ^ nat ((field_p + 1) div 4)) ^ 2 = fe_fp (jy a) * fe_fp (jz a))"
proof -
  have "jinf a \<longleftrightarrow> P = Infinity" using assms(2) by (cases P) (auto simp: gej_rep_def)
  then show ?thesis
    using g5.valid_iff [OF assms(1)] g5.ge_valid_iff [OF assms(3)] g5.eq_x_iff [OF assms(1,5)] g5.neg_rep [OF assms(1)]
      g5.ge_neg_rep [OF assms(3)] g5.rescale_rep [OF assms(1,6)] g5.has_quad_y_iff [OF assms(1)] assms(2,4,7)
    unfolding fv_fe_fp Let_def by blast
qed

theorem gej_predicates_spec_witness:
  "ge_is_valid_var field_ops_5x52 (ge_const_g field_ops_5x52)"
proof -
  let ?g = "ge_const_g field_ops_5x52" let ?x = "fe_fp (gx ?g)" let ?y = "fe_fp (gy ?g)"
  have g: "ge_ok fe_mag ?g" "ge_rep fe_fp ?g (Affine ?x ?y)" using generator_5x52 by (simp_all add: ge_ok_def ge_rep_def)
  then have j: "gej_ok fe_mag (gej_set_ge field_ops_5x52 ?g)" "gej_rep fe_fp (gej_set_ge field_ops_5x52 ?g) (Affine ?x ?y)"
    using g5.gej_set_ge_rep [of ?g "Affine ?x ?y"] unfolding fv_fe_fp by blast+
  have s: "fe_mag 8 (FE5 1 0 0 0 0)" "fe_fp (FE5 1 0 0 0 0) dvd 1" by (simp_all add: fe_mag_def limbs_le_def fe_fp_eval limbs_val_Cons)
  show ?thesis
    using gej_predicates_spec [OF j g s(1) s] generator_facts(1) [folded generator_5x52(4,5)] by blast
qed

text \<open>Decompression of an \<open>x\<close> coordinate succeeds exactly when the candidate root gives a curve point;
  on success the result is that point, and with the parity as a flag its nonzero \<open>y\<close> coordinate has that parity.\<close>

theorem ge_decompress_spec:
  assumes "fe_mag 8 x" "ge_set_xquad field_ops_5x52 x = (ok, r)" "ge_set_xo_var field_ops_5x52 x (of_bool c) = (ok', r')"
  shows "fe_fp (gy r) = (fe_fp x ^ 3 + 7) ^ nat ((field_p + 1) div 4) \<and> (ok \<longleftrightarrow> on_curve (Affine (fe_fp x) (fe_fp (gy r)))) \<and> ok' = ok \<and>
    (ok' \<longrightarrow> gx r' = x \<and> \<not> ginf r' \<and> on_curve (Affine (fe_fp x) (fe_fp (gy r'))) \<and>
      (fe_fp (gy r') \<noteq> 0 \<longrightarrow> (odd (Rep_fp (fe_fp (gy r'))) \<longleftrightarrow> c)))"
  using g5.xquad_spec [OF assms(1,2)] g5.xo_spec [OF assms(1,3)] unfolding fv_fe_fp assms(2) by auto

theorem ge_decompress_spec_witness:
  "fe_fp (gy (snd (ge_set_xquad field_ops_5x52 (FE5 1 0 0 0 0)))) = (fe_fp (FE5 1 0 0 0 0) ^ 3 + 7) ^ nat ((field_p + 1) div 4)"
proof -
  have "fe_mag 8 (FE5 1 0 0 0 0)" by (simp add: fe_mag_def limbs_le_def)
  then show ?thesis using ge_decompress_spec [of "FE5 1 0 0 0 0"] by (metis prod.collapse)
qed

text \<open>Storing and loading a finite point normalizes its coordinates and keeps the point; the
  endomorphism multiplies \<open>x\<close> by the cube root of unity \<open>beta\<close>, so the result is on the curve exactly when the point is.\<close>

theorem ge_storage_endo_spec:
  assumes "ge_ok fe_mag a" "ge_rep fe_fp a (Affine x y)"
  shows "ge_from_storage field_ops_5x52 (ge_to_storage field_ops_5x52 a) =
      \<lparr>gx = fe_normalize_5x52 (gx a), gy = fe_normalize_5x52 (gy a), ginf = False\<rparr> \<and>
    ge_rep fe_fp (ge_from_storage field_ops_5x52 (ge_to_storage field_ops_5x52 a)) (Affine x y) \<and>
    ge_rep fe_fp (ge_mul_lambda field_ops_5x52 a) (Affine (of_int field_beta * x) y) \<and>
    (on_curve (Affine (of_int field_beta * x) y) \<longleftrightarrow> on_curve (Affine x y))"
  using g5.storage_rep [OF assms(1)] g5.lambda_rep [OF assms(1)] assms(2)
  unfolding fv_fe_fp by (simp add: field_ops_5x52_def)

theorem ge_storage_endo_spec_witness:
  "ge_rep fe_fp (ge_from_storage field_ops_5x52 (ge_to_storage field_ops_5x52 \<lparr>gx = FE5 2 0 0 0 0, gy = FE5 1 0 0 0 0, ginf = False\<rparr>)) (Affine 2 1)"
proof -
  have "ge_ok fe_mag \<lparr>gx = FE5 2 0 0 0 0, gy = FE5 1 0 0 0 0, ginf = False\<rparr>" by (simp add: ge_ok_def fe_mag_def limbs_le_def)
  moreover have "ge_rep fe_fp \<lparr>gx = FE5 2 0 0 0 0, gy = FE5 1 0 0 0 0, ginf = False\<rparr> (Affine 2 1)"
    by (simp add: ge_rep_def fe_fp_eval limbs_val_Cons)
  ultimately show ?thesis by (rule ge_storage_endo_spec [THEN conjunct2, THEN conjunct1])
qed

end
