(* ===== verification/Hash.thy ===== *)
theory Hash
  imports Prelude
begin

text \<open>
  SHA-256, HMAC and the RFC 6979 generator of \<open>hash_impl.h\<close>. The model is of a little-endian build with a 64-bit
  \<open>size_t\<close>: the buffer is its 64 bytes, and a block is read as sixteen little-endian words that \<open>BE32\<close> swaps. The
  locale \<open>message_digest\<close> is the interface of a streaming digest; SHA-256 and, on top of it, HMAC under a key interpret
  it, so feeding a message in pieces of any size gives the digest of the whole message.
\<close>

subsection \<open>The compression function (hash_impl.h 16--34, 49--129)\<close>

definition Ch :: "u32 \<Rightarrow> u32 \<Rightarrow> u32 \<Rightarrow> u32" where
  "Ch x y z = z XOR (x AND (y XOR z))"

definition Maj :: "u32 \<Rightarrow> u32 \<Rightarrow> u32 \<Rightarrow> u32" where
  "Maj x y z = (x AND y) OR (z AND (x OR y))"

definition Sigma0 :: "u32 \<Rightarrow> u32" where
  "Sigma0 x = (drop_bit 2 x OR push_bit 30 x) XOR (drop_bit 13 x OR push_bit 19 x) XOR (drop_bit 22 x OR push_bit 10 x)"

definition Sigma1 :: "u32 \<Rightarrow> u32" where
  "Sigma1 x = (drop_bit 6 x OR push_bit 26 x) XOR (drop_bit 11 x OR push_bit 21 x) XOR (drop_bit 25 x OR push_bit 7 x)"

definition sigma0 :: "u32 \<Rightarrow> u32" where
  "sigma0 x = (drop_bit 7 x OR push_bit 25 x) XOR (drop_bit 18 x OR push_bit 14 x) XOR drop_bit 3 x"

definition sigma1 :: "u32 \<Rightarrow> u32" where
  "sigma1 x = (drop_bit 17 x OR push_bit 15 x) XOR (drop_bit 19 x OR push_bit 13 x) XOR drop_bit 10 x"

text \<open>The macro assigns to its arguments \<open>d\<close> and \<open>h\<close>, which are returned.\<close>

definition Round :: "u32 \<Rightarrow> u32 \<Rightarrow> u32 \<Rightarrow> u32 \<Rightarrow> u32 \<Rightarrow> u32 \<Rightarrow> u32 \<Rightarrow> u32 \<Rightarrow> u32 \<Rightarrow> u32 \<Rightarrow> u32 \<times> u32" where
  "Round a b c d e f g h k w =
    (let t1 = h + Sigma1 e + Ch e f g + k + w;
         t2 = Sigma0 a + Maj a b c
     in (d + t1, t1 + t2))"

definition BE32 :: "'a::len word \<Rightarrow> 'a word" where
  "BE32 p = push_bit 24 (p AND 0xFF) OR push_bit 8 (p AND 0xFF00) OR drop_bit 8 (p AND 0xFF0000) OR drop_bit 24 (p AND 0xFF000000)"

definition sha256_transform :: "u32 list \<Rightarrow> u32 list \<Rightarrow> u32 list" where
  "sha256_transform s chunk =
    (let a = s ! 0; b = s ! 1; c = s ! 2; d = s ! 3; e = s ! 4; f = s ! 5; g = s ! 6; h = s ! 7;
         w0 = BE32 (chunk ! 0);
         (d, h) = Round a b c d e f g h 0x428a2f98 w0;
         w1 = BE32 (chunk ! 1);
         (c, g) = Round h a b c d e f g 0x71374491 w1;
         w2 = BE32 (chunk ! 2);
         (b, f) = Round g h a b c d e f 0xb5c0fbcf w2;
         w3 = BE32 (chunk ! 3);
         (a, e) = Round f g h a b c d e 0xe9b5dba5 w3;
         w4 = BE32 (chunk ! 4);
         (h, d) = Round e f g h a b c d 0x3956c25b w4;
         w5 = BE32 (chunk ! 5);
         (g, c) = Round d e f g h a b c 0x59f111f1 w5;
         w6 = BE32 (chunk ! 6);
         (f, b) = Round c d e f g h a b 0x923f82a4 w6;
         w7 = BE32 (chunk ! 7);
         (e, a) = Round b c d e f g h a 0xab1c5ed5 w7;
         w8 = BE32 (chunk ! 8);
         (d, h) = Round a b c d e f g h 0xd807aa98 w8;
         w9 = BE32 (chunk ! 9);
         (c, g) = Round h a b c d e f g 0x12835b01 w9;
         w10 = BE32 (chunk ! 10);
         (b, f) = Round g h a b c d e f 0x243185be w10;
         w11 = BE32 (chunk ! 11);
         (a, e) = Round f g h a b c d e 0x550c7dc3 w11;
         w12 = BE32 (chunk ! 12);
         (h, d) = Round e f g h a b c d 0x72be5d74 w12;
         w13 = BE32 (chunk ! 13);
         (g, c) = Round d e f g h a b c 0x80deb1fe w13;
         w14 = BE32 (chunk ! 14);
         (f, b) = Round c d e f g h a b 0x9bdc06a7 w14;
         w15 = BE32 (chunk ! 15);
         (e, a) = Round b c d e f g h a 0xc19bf174 w15;
         w0 = w0 + (sigma1 w14 + w9 + sigma0 w1);
         (d, h) = Round a b c d e f g h 0xe49b69c1 w0;
         w1 = w1 + (sigma1 w15 + w10 + sigma0 w2);
         (c, g) = Round h a b c d e f g 0xefbe4786 w1;
         w2 = w2 + (sigma1 w0 + w11 + sigma0 w3);
         (b, f) = Round g h a b c d e f 0x0fc19dc6 w2;
         w3 = w3 + (sigma1 w1 + w12 + sigma0 w4);
         (a, e) = Round f g h a b c d e 0x240ca1cc w3;
         w4 = w4 + (sigma1 w2 + w13 + sigma0 w5);
         (h, d) = Round e f g h a b c d 0x2de92c6f w4;
         w5 = w5 + (sigma1 w3 + w14 + sigma0 w6);
         (g, c) = Round d e f g h a b c 0x4a7484aa w5;
         w6 = w6 + (sigma1 w4 + w15 + sigma0 w7);
         (f, b) = Round c d e f g h a b 0x5cb0a9dc w6;
         w7 = w7 + (sigma1 w5 + w0 + sigma0 w8);
         (e, a) = Round b c d e f g h a 0x76f988da w7;
         w8 = w8 + (sigma1 w6 + w1 + sigma0 w9);
         (d, h) = Round a b c d e f g h 0x983e5152 w8;
         w9 = w9 + (sigma1 w7 + w2 + sigma0 w10);
         (c, g) = Round h a b c d e f g 0xa831c66d w9;
         w10 = w10 + (sigma1 w8 + w3 + sigma0 w11);
         (b, f) = Round g h a b c d e f 0xb00327c8 w10;
         w11 = w11 + (sigma1 w9 + w4 + sigma0 w12);
         (a, e) = Round f g h a b c d e 0xbf597fc7 w11;
         w12 = w12 + (sigma1 w10 + w5 + sigma0 w13);
         (h, d) = Round e f g h a b c d 0xc6e00bf3 w12;
         w13 = w13 + (sigma1 w11 + w6 + sigma0 w14);
         (g, c) = Round d e f g h a b c 0xd5a79147 w13;
         w14 = w14 + (sigma1 w12 + w7 + sigma0 w15);
         (f, b) = Round c d e f g h a b 0x06ca6351 w14;
         w15 = w15 + (sigma1 w13 + w8 + sigma0 w0);
         (e, a) = Round b c d e f g h a 0x14292967 w15;
         w0 = w0 + (sigma1 w14 + w9 + sigma0 w1);
         (d, h) = Round a b c d e f g h 0x27b70a85 w0;
         w1 = w1 + (sigma1 w15 + w10 + sigma0 w2);
         (c, g) = Round h a b c d e f g 0x2e1b2138 w1;
         w2 = w2 + (sigma1 w0 + w11 + sigma0 w3);
         (b, f) = Round g h a b c d e f 0x4d2c6dfc w2;
         w3 = w3 + (sigma1 w1 + w12 + sigma0 w4);
         (a, e) = Round f g h a b c d e 0x53380d13 w3;
         w4 = w4 + (sigma1 w2 + w13 + sigma0 w5);
         (h, d) = Round e f g h a b c d 0x650a7354 w4;
         w5 = w5 + (sigma1 w3 + w14 + sigma0 w6);
         (g, c) = Round d e f g h a b c 0x766a0abb w5;
         w6 = w6 + (sigma1 w4 + w15 + sigma0 w7);
         (f, b) = Round c d e f g h a b 0x81c2c92e w6;
         w7 = w7 + (sigma1 w5 + w0 + sigma0 w8);
         (e, a) = Round b c d e f g h a 0x92722c85 w7;
         w8 = w8 + (sigma1 w6 + w1 + sigma0 w9);
         (d, h) = Round a b c d e f g h 0xa2bfe8a1 w8;
         w9 = w9 + (sigma1 w7 + w2 + sigma0 w10);
         (c, g) = Round h a b c d e f g 0xa81a664b w9;
         w10 = w10 + (sigma1 w8 + w3 + sigma0 w11);
         (b, f) = Round g h a b c d e f 0xc24b8b70 w10;
         w11 = w11 + (sigma1 w9 + w4 + sigma0 w12);
         (a, e) = Round f g h a b c d e 0xc76c51a3 w11;
         w12 = w12 + (sigma1 w10 + w5 + sigma0 w13);
         (h, d) = Round e f g h a b c d 0xd192e819 w12;
         w13 = w13 + (sigma1 w11 + w6 + sigma0 w14);
         (g, c) = Round d e f g h a b c 0xd6990624 w13;
         w14 = w14 + (sigma1 w12 + w7 + sigma0 w15);
         (f, b) = Round c d e f g h a b 0xf40e3585 w14;
         w15 = w15 + (sigma1 w13 + w8 + sigma0 w0);
         (e, a) = Round b c d e f g h a 0x106aa070 w15;
         w0 = w0 + (sigma1 w14 + w9 + sigma0 w1);
         (d, h) = Round a b c d e f g h 0x19a4c116 w0;
         w1 = w1 + (sigma1 w15 + w10 + sigma0 w2);
         (c, g) = Round h a b c d e f g 0x1e376c08 w1;
         w2 = w2 + (sigma1 w0 + w11 + sigma0 w3);
         (b, f) = Round g h a b c d e f 0x2748774c w2;
         w3 = w3 + (sigma1 w1 + w12 + sigma0 w4);
         (a, e) = Round f g h a b c d e 0x34b0bcb5 w3;
         w4 = w4 + (sigma1 w2 + w13 + sigma0 w5);
         (h, d) = Round e f g h a b c d 0x391c0cb3 w4;
         w5 = w5 + (sigma1 w3 + w14 + sigma0 w6);
         (g, c) = Round d e f g h a b c 0x4ed8aa4a w5;
         w6 = w6 + (sigma1 w4 + w15 + sigma0 w7);
         (f, b) = Round c d e f g h a b 0x5b9cca4f w6;
         w7 = w7 + (sigma1 w5 + w0 + sigma0 w8);
         (e, a) = Round b c d e f g h a 0x682e6ff3 w7;
         w8 = w8 + (sigma1 w6 + w1 + sigma0 w9);
         (d, h) = Round a b c d e f g h 0x748f82ee w8;
         w9 = w9 + (sigma1 w7 + w2 + sigma0 w10);
         (c, g) = Round h a b c d e f g 0x78a5636f w9;
         w10 = w10 + (sigma1 w8 + w3 + sigma0 w11);
         (b, f) = Round g h a b c d e f 0x84c87814 w10;
         w11 = w11 + (sigma1 w9 + w4 + sigma0 w12);
         (a, e) = Round f g h a b c d e 0x8cc70208 w11;
         w12 = w12 + (sigma1 w10 + w5 + sigma0 w13);
         (h, d) = Round e f g h a b c d 0x90befffa w12;
         w13 = w13 + (sigma1 w11 + w6 + sigma0 w14);
         (g, c) = Round d e f g h a b c 0xa4506ceb w13;
         (f, b) = Round c d e f g h a b 0xbef9a3f7 (w14 + sigma1 w12 + w7 + sigma0 w15);
         (e, a) = Round b c d e f g h a 0xc67178f2 (w15 + sigma1 w13 + w8 + sigma0 w0)
     in [s ! 0 + a, s ! 1 + b, s ! 2 + c, s ! 3 + d, s ! 4 + e, s ! 5 + f, s ! 6 + g, s ! 7 + h])"

subsection \<open>Streaming SHA-256 (hash_impl.h 36--46, 131--162)\<close>

record sha256 =
  hs :: "u32 list"
  hbuf :: "u8 list"
  hbytes :: u64

definition sha256_initialize :: "sha256 \<Rightarrow> sha256" where
  "sha256_initialize hash = hash\<lparr>
    hs := [0x6a09e667, 0xbb67ae85, 0x3c6ef372, 0xa54ff53a, 0x510e527f, 0x9b05688c, 0x1f83d9ab, 0x5be0cd19],
    hbytes := 0\<rparr>"

text \<open>The byte view of 32-bit words on a little-endian machine.\<close>

definition load_le32 :: "u8 list \<Rightarrow> nat \<Rightarrow> u32" where
  "load_le32 buf i = ucast (buf ! (4 * i)) OR push_bit 8 (ucast (buf ! (4 * i + 1))) OR
     push_bit 16 (ucast (buf ! (4 * i + 2))) OR push_bit 24 (ucast (buf ! (4 * i + 3)))"

definition store_le32 :: "u32 \<Rightarrow> u8 list" where
  "store_le32 w = [ucast w, ucast (drop_bit 8 w), ucast (drop_bit 16 w), ucast (drop_bit 24 w)]"

definition transform_buf :: "u32 list \<Rightarrow> u8 list \<Rightarrow> u32 list" where
  "transform_buf s buf = sha256_transform s (map (load_le32 buf) [0..<16])"

function sha256_write_loop :: "u32 list \<Rightarrow> u8 list \<Rightarrow> nat \<Rightarrow> u8 list \<Rightarrow> u32 list \<times> u8 list \<times> nat \<times> u8 list" where
  "sha256_write_loop s buf bufsize data =
    (if bufsize + length data \<ge> 64
     then let buf = memcpy_at buf bufsize (take (64 - bufsize) data);
              data = drop (64 - bufsize) data;
              s = transform_buf s buf
          in sha256_write_loop s buf 0 data
     else (s, buf, bufsize, data))"
  by pat_completeness auto
termination by (relation "measures [\<lambda>(s, buf, n, d). length d, \<lambda>(s, buf, n, d). n]") auto

declare sha256_write_loop.simps [simp del]

definition sha256_write :: "sha256 \<Rightarrow> u8 list \<Rightarrow> sha256" where
  "sha256_write hash data =
    (let bufsize = unat (hbytes hash AND 0x3F);
         bytes = hbytes hash + of_nat (length data);
         (s, buf, bufsize, data) = sha256_write_loop (hs hash) (hbuf hash) bufsize data;
         buf = (if data \<noteq> [] then memcpy_at buf bufsize data else buf)
     in hash\<lparr>hs := s, hbuf := buf, hbytes := bytes\<rparr>)"

definition sha256_pad :: "u8 list" where
  "sha256_pad = 0x80 # replicate 63 0"

definition sha256_finalize :: "sha256 \<Rightarrow> sha256 \<times> u8 list" where
  "sha256_finalize hash =
    (let sizedesc = [ucast (BE32 (drop_bit 29 (hbytes hash))), ucast (BE32 (push_bit 3 (hbytes hash)))] :: u32 list;
         hash = sha256_write hash (take (unat (1 + ((119 - (hbytes hash mod 64)) mod 64))) sha256_pad);
         hash = sha256_write hash (concat (map store_le32 sizedesc));
         out = map BE32 (hs hash)
     in (hash\<lparr>hs := replicate 8 0\<rparr>, concat (map store_le32 out)))"

subsection \<open>HMAC (hash_impl.h 164--202)\<close>

record hmac_sha256 =
  h_inner :: sha256
  h_outer :: sha256

definition hmac_sha256_initialize :: "hmac_sha256 \<Rightarrow> sha256 \<Rightarrow> u8 list \<Rightarrow> hmac_sha256" where
  "hmac_sha256_initialize hash sha key =
    (let rkey = (if length key \<le> 64 then key @ replicate (64 - length key) 0
                 else let sha = sha256_initialize sha;
                          sha = sha256_write sha key;
                          (sha, out) = sha256_finalize sha
                      in out @ replicate 32 0);
         outer = sha256_initialize (h_outer hash);
         rkey = map (\<lambda>b. b XOR 0x5c) rkey;
         outer = sha256_write outer rkey;
         inner = sha256_initialize (h_inner hash);
         rkey = map (\<lambda>b. b XOR (0x5c XOR 0x36)) rkey;
         inner = sha256_write inner rkey
     in \<lparr>h_inner = inner, h_outer = outer\<rparr>)"

definition hmac_sha256_write :: "hmac_sha256 \<Rightarrow> u8 list \<Rightarrow> hmac_sha256" where
  "hmac_sha256_write hash data = hash\<lparr>h_inner := sha256_write (h_inner hash) data\<rparr>"

definition hmac_sha256_finalize :: "hmac_sha256 \<Rightarrow> hmac_sha256 \<times> u8 list" where
  "hmac_sha256_finalize hash =
    (let (inner, temp) = sha256_finalize (h_inner hash);
         outer = sha256_write (h_outer hash) temp;
         (outer, out32) = sha256_finalize outer
     in (\<lparr>h_inner = inner, h_outer = outer\<rparr>, out32))"

subsection \<open>The RFC 6979 generator (hash_impl.h 205--270)\<close>

record rfc6979 =
  rng_v :: "u8 list"
  rng_k :: "u8 list"
  rng_retry :: bool

text \<open>\<open>hmac\<close> and \<open>sha\<close> stand for the uninitialized local structs. The sequence initialize, writes, finalize recurs in
  the code; \<open>hmac_pieces\<close> is that sequence.\<close>

definition hmac_pieces :: "hmac_sha256 \<Rightarrow> sha256 \<Rightarrow> u8 list \<Rightarrow> u8 list list \<Rightarrow> hmac_sha256 \<times> u8 list" where
  "hmac_pieces hmac sha key ds =
    (let hmac = hmac_sha256_initialize hmac sha key;
         hmac = foldl hmac_sha256_write hmac ds
     in hmac_sha256_finalize hmac)"

definition rfc6979_initialize :: "hmac_sha256 \<Rightarrow> sha256 \<Rightarrow> u8 list \<Rightarrow> rfc6979" where
  "rfc6979_initialize hmac sha key =
    (let v = replicate 32 0x01;
         k = replicate 32 0x00;
         (hmac, k) = hmac_pieces hmac sha k [v, [0x00], key];
         (hmac, v) = hmac_pieces hmac sha k [v];
         (hmac, k) = hmac_pieces hmac sha k [v, [0x01], key];
         (hmac, v) = hmac_pieces hmac sha k [v]
     in \<lparr>rng_v = v, rng_k = k, rng_retry = False\<rparr>)"

text \<open>The loop converts \<open>outlen\<close> to an \<open>int\<close>. When that gives a negative number it is passed to \<open>memcpy\<close> as a
  huge count, and when it gives zero the loop repeats for ever; both are \<open>None\<close>.\<close>

function rfc6979_generate_loop :: "hmac_sha256 \<Rightarrow> sha256 \<Rightarrow> u8 list \<Rightarrow> u8 list \<Rightarrow> nat \<Rightarrow> (u8 list \<times> u8 list) option" where
  "rfc6979_generate_loop hmac sha k v outlen =
    (if outlen > 0
     then let now = sint (of_nat outlen :: u32);
              (hmac', v) = hmac_pieces hmac sha k [v];
              now = (if now > 32 then 32 else now)
          in if now \<le> 0 then None
             else case rfc6979_generate_loop hmac sha k v (outlen - nat now) of
               None \<Rightarrow> None
             | Some (v', out) \<Rightarrow> Some (v', take (nat now) v @ out)
     else Some (v, []))"
  by pat_completeness auto
termination by (relation "measure (\<lambda>(hmac, sha, k, v, outlen). outlen)") auto

declare rfc6979_generate_loop.simps [simp del]

definition rfc6979_generate :: "hmac_sha256 \<Rightarrow> sha256 \<Rightarrow> rfc6979 \<Rightarrow> nat \<Rightarrow> (rfc6979 \<times> u8 list) option" where
  "rfc6979_generate hmac sha rng outlen =
    (let rng = (if rng_retry rng
                then let (hmac', k) = hmac_pieces hmac sha (rng_k rng) [rng_v rng, [0x00]];
                         (hmac', v) = hmac_pieces hmac sha k [rng_v rng]
                     in rng\<lparr>rng_k := k, rng_v := v\<rparr>
                else rng)
     in case rfc6979_generate_loop hmac sha (rng_k rng) (rng_v rng) outlen of
          None \<Rightarrow> None
        | Some (v, out) \<Rightarrow> Some (rng\<lparr>rng_v := v, rng_retry := True\<rparr>, out))"

definition rfc6979_finalize :: "rfc6979 \<Rightarrow> rfc6979" where
  "rfc6979_finalize rng = rng\<lparr>rng_k := replicate 32 0, rng_v := replicate 32 0, rng_retry := False\<rparr>"

subsection \<open>Reference definitions\<close>

text \<open>\<open>absorb s xs\<close> compresses the full blocks of \<open>xs\<close> and returns the state and the rest.\<close>

function absorb :: "u32 list \<Rightarrow> u8 list \<Rightarrow> u32 list \<times> u8 list" where
  "absorb s xs = (if length xs \<ge> 64 then absorb (transform_buf s (take 64 xs)) (drop 64 xs) else (s, xs))"
  by pat_completeness auto
termination by (relation "measure (\<lambda>(s, xs). length xs)") auto

declare absorb.simps [simp del]

definition sha256_iv :: "u32 list" where
  "sha256_iv = [0x6a09e667, 0xbb67ae85, 0x3c6ef372, 0xa54ff53a, 0x510e527f, 0x9b05688c, 0x1f83d9ab, 0x5be0cd19]"

definition store_be32 :: "u32 \<Rightarrow> u8 list" where
  "store_be32 w = [ucast (drop_bit 24 w), ucast (drop_bit 16 w), ucast (drop_bit 8 w), ucast w]"

definition sha256_padding :: "nat \<Rightarrow> u8 list" where
  "sha256_padding n = 0x80 # replicate ((119 - n mod 64) mod 64) 0 @ write_be64 (of_nat (8 * n))"

definition sha256_digest :: "u8 list \<Rightarrow> u8 list" where
  "sha256_digest m = concat (map store_be32 (fst (absorb sha256_iv (m @ sha256_padding (length m)))))"

definition hmac_key :: "u8 list \<Rightarrow> u8 list" where
  "hmac_key key = (if length key \<le> 64 then key @ replicate (64 - length key) 0 else sha256_digest key @ replicate 32 0)"

definition hmac_digest :: "u8 list \<Rightarrow> u8 list \<Rightarrow> u8 list" where
  "hmac_digest key m = sha256_digest (map (\<lambda>b. b XOR 0x5c) (hmac_key key) @ sha256_digest (map (\<lambda>b. b XOR 0x36) (hmac_key key) @ m))"

subsection \<open>Streaming digests\<close>

locale message_digest =
  fixes init :: 'h and wr :: "'h \<Rightarrow> u8 list \<Rightarrow> 'h" and fin :: "'h \<Rightarrow> 'h \<times> u8 list"
    and inv :: "'h \<Rightarrow> u8 list \<Rightarrow> bool" and digest :: "u8 list \<Rightarrow> u8 list"
  assumes init: "inv init []"
    and wr: "inv h m \<Longrightarrow> inv (wr h d) (m @ d)"
    and fin: "inv h m \<Longrightarrow> snd (fin h) = digest m"
begin

lemma pieces_inv: "inv h m \<Longrightarrow> inv (foldl wr h ds) (m @ concat ds)"
proof (induction ds arbitrary: h m)
  case (Cons d ds)
  then show ?case using Cons.IH [OF wr [OF Cons.prems, of d]] by simp
qed simp

lemma pieces: "snd (fin (foldl wr init ds)) = digest (concat ds)"
  using fin [OF pieces_inv [OF init]] by simp

end

subsection \<open>SHA-256 as a streaming digest\<close>

lemma absorb_less: "length xs < 64 \<Longrightarrow> absorb s xs = (s, xs)"
  by (simp add: absorb.simps)

lemma absorb_append: "absorb s xs = (s', r) \<Longrightarrow> absorb s (xs @ ys) = absorb s' (r @ ys)"
proof (induction s xs rule: absorb.induct)
  case (1 s xs)
  show ?case
  proof (cases "64 \<le> length xs")
    case True
    then have "absorb s (xs @ ys) = absorb (transform_buf s (take 64 xs)) (drop 64 xs @ ys)"
      by (subst absorb.simps) simp
    then show ?thesis using 1 True by (simp add: absorb.simps [of s xs])
  qed (use 1 in \<open>simp add: absorb.simps [of s xs]\<close>)
qed

lemma absorb_rest: "length (snd (absorb s xs)) = length xs mod 64"
proof (induction s xs rule: absorb.induct)
  case (1 s xs)
  show ?case
    using 1 by (cases "64 \<le> length xs") (simp_all add: absorb.simps [of s xs] le_mod_geq)
qed

lemma write_loop_absorb:
  assumes "bufsize < 64" "length buf = 64" "sha256_write_loop s buf bufsize data = (s', buf', n', d')"
  shows "absorb s (take bufsize buf @ data) = (s', take n' buf' @ d') \<and> n' + length d' < 64 \<and> length buf' = 64"
  using assms
proof (induction s buf bufsize data rule: sha256_write_loop.induct)
  case (1 s buf bufsize data)
  show ?case
  proof (cases "64 \<le> bufsize + length data")
    case True
    let ?b = "memcpy_at buf bufsize (take (64 - bufsize) data)"
    have b: "?b = take 64 (take bufsize buf @ data)" "length ?b = 64"
      using True "1.prems"(1,2) by (simp_all add: memcpy_at_def)
    have "drop 64 (take bufsize buf @ data) = drop (64 - bufsize) data" using "1.prems"(1,2) by simp
    then have a: "absorb s (take bufsize buf @ data) = absorb (transform_buf s ?b) (drop (64 - bufsize) data)"
      unfolding b(1) using True "1.prems"(1,2) by (subst absorb.simps) simp
    have "sha256_write_loop (transform_buf s ?b) ?b 0 (drop (64 - bufsize) data) = (s', buf', n', d')"
      using "1.prems"(3) True by (simp add: sha256_write_loop.simps [of s buf] Let_def)
    then show ?thesis
      using "1.IH" [OF True refl refl refl _ b(2)] unfolding a by simp
  next
    case False
    then show ?thesis
      using "1.prems" by (auto simp: sha256_write_loop.simps [of s buf] absorb_less)
  qed
qed

definition sha_inv :: "sha256 \<Rightarrow> u8 list \<Rightarrow> bool" where
  "sha_inv h m \<longleftrightarrow> absorb sha256_iv m = (hs h, take (length m mod 64) (hbuf h)) \<and> length (hbuf h) = 64 \<and> hbytes h = of_nat (length m)"

lemma of_nat_mod64: "unat (of_nat n mod 64 :: u64) = n mod 64"
  by (simp add: unat_mod_distrib unat_of_nat mod_mod_cancel)

lemma and_3F: "unat (x AND 0x3F :: u64) = unat x mod 64"
  using unat_and_mask [of x 6] by (simp add: mask_numeral)

lemma sha_inv_init: "length (hbuf h) = 64 \<Longrightarrow> sha_inv (sha256_initialize h) []"
  by (simp add: sha_inv_def sha256_initialize_def sha256_iv_def absorb_less)

lemma sha_inv_write:
  assumes "sha_inv h m"
  shows "sha_inv (sha256_write h d) (m @ d)"
proof -
  let ?n = "length m mod 64"
  have h: "absorb sha256_iv m = (hs h, take ?n (hbuf h))" "length (hbuf h) = 64" "hbytes h = of_nat (length m)"
    using assms by (simp_all add: sha_inv_def)
  have n: "unat (hbytes h AND 0x3F) = ?n" by (simp add: h(3) and_3F unat_of_nat mod_mod_cancel)
  obtain s buf n' d' where l: "sha256_write_loop (hs h) (hbuf h) ?n d = (s, buf, n', d')" by (metis prod.exhaust)
  have a: "absorb (hs h) (take ?n (hbuf h) @ d) = (s, take n' buf @ d')" "n' + length d' < 64" "length buf = 64"
    using write_loop_absorb [OF _ h(2) l] by simp_all
  define buf' where "buf' = (if d' \<noteq> [] then memcpy_at buf n' d' else buf)"
  have w: "sha256_write h d = h\<lparr>hs := s, hbuf := buf', hbytes := of_nat (length (m @ d))\<rparr>"
    unfolding sha256_write_def Let_def n unfolding l prod.case buf'_def h(3) by simp
  have b: "absorb sha256_iv (m @ d) = (s, take n' buf @ d')" using absorb_append [OF h(1)] a(1) by simp
  then have r: "length (m @ d) mod 64 = n' + length d'" using absorb_rest [of sha256_iv "m @ d"] a by (simp add: min_def)
  have "take (n' + length d') buf' = take n' buf @ d'" "length buf' = 64"
    using a(2,3) by (simp_all add: buf'_def memcpy_at_def)
  then show ?thesis unfolding sha_inv_def w using b r by simp
qed

lemma bit_BE32:
  fixes p :: "'a::len word"
  assumes "32 \<le> LENGTH('a)"
  shows "bit (BE32 p) k \<longleftrightarrow> k < 32 \<and> bit p (if k < 8 then k + 24 else if k < 16 then k + 8 else if k < 24 then k - 8 else k - 24)"
proof -
  have m: "(0xFF :: 'a word) = mask 8" "(0xFF00 :: 'a word) = push_bit 8 (mask 8)" "(0xFF0000 :: 'a word) = push_bit 16 (mask 8)"
    "(0xFF000000 :: 'a word) = push_bit 24 (mask 8)" by (simp_all add: mask_numeral)
  show ?thesis
    unfolding BE32_def m using assms by (auto simp: bit_simps add.commute dest: bit_imp_le_length)
qed

lemma store_BE32: "store_le32 (BE32 w) = store_be32 w"
proof -
  have *: "ucast (BE32 w) = (ucast (drop_bit 24 w) :: u8)" "ucast (drop_bit 8 (BE32 w)) = (ucast (drop_bit 16 w) :: u8)"
    "ucast (drop_bit 16 (BE32 w)) = (ucast (drop_bit 8 w) :: u8)" "ucast (drop_bit 24 (BE32 w)) = (ucast w :: u8)"
    by (rule bit_word_eqI, simp add: bit_simps bit_BE32 add.commute)+
  show ?thesis unfolding store_le32_def store_be32_def * ..
qed

lemma store_sizedesc:
  "concat (map store_le32 [ucast (BE32 (drop_bit 29 x)), ucast (BE32 (push_bit 3 x))]) = write_be64 (push_bit 3 x)" for x :: u64
proof -
  have "ucast (BE32 y) = BE32 (ucast y :: u32)" for y :: u64
    by (rule bit_word_eqI) (auto simp: bit_simps bit_BE32)
  then have "concat (map store_le32 [ucast (BE32 (drop_bit 29 x)), ucast (BE32 (push_bit 3 x))]) =
      store_be32 (ucast (drop_bit 29 x)) @ store_be32 (ucast (push_bit 3 x))" by (simp add: store_BE32)
  also have "\<dots> = write_be64 (push_bit 3 x)"
    unfolding store_be32_def write_be64_def append.simps list.inject
    by (intro conjI refl; rule bit_word_eqI; auto simp: bit_simps)
  finally show ?thesis .
qed

lemma sha_inv_final:
  assumes "sha_inv h m"
  shows "snd (sha256_finalize h) = sha256_digest m"
proof -
  let ?n = "length m" let ?k = "(119 - ?n mod 64) mod 64"
  have b: "hbytes h = of_nat ?n" using assms by (simp add: sha_inv_def)
  have "unat (119 - (of_nat ?n mod 64) :: u64) = 119 - ?n mod 64"
    using of_nat_mod64 [of ?n] by (subst unat_sub) (simp_all add: word_le_nat_alt)
  then have "unat ((119 - (of_nat ?n mod 64)) mod 64 :: u64) = ?k" by (simp add: unat_mod_distrib)
  then have "unat (1 + ((119 - (hbytes h mod 64)) mod 64)) = Suc ?k"
    unfolding b by (subst unat_plus_simple [THEN iffD1]) (simp_all add: word_le_nat_alt unat_word_ariths)
  then have p: "take (unat (1 + ((119 - (hbytes h mod 64)) mod 64))) sha256_pad = 0x80 # replicate ?k 0"
    by (simp add: sha256_pad_def min_def mod_less_divisor less_imp_le)
  have z: "push_bit 3 (hbytes h) = of_nat (8 * ?n)" by (simp add: b push_bit_eq_mult)
  have sz: "concat (map store_le32 [ucast (BE32 (drop_bit 29 (hbytes h))), ucast (BE32 (push_bit 3 (hbytes h)))]) = write_be64 (of_nat (8 * ?n))"
    using store_sizedesc [of "hbytes h"] unfolding z .
  let ?h = "sha256_write (sha256_write h (0x80 # replicate ?k 0)) (write_be64 (of_nat (8 * ?n)))"
  have "sha_inv ?h (m @ sha256_padding ?n)"
    using sha_inv_write [OF sha_inv_write [OF assms], of "0x80 # replicate ?k 0" "write_be64 (of_nat (8 * ?n))"] by (simp add: sha256_padding_def)
  then have "hs ?h = fst (absorb sha256_iv (m @ sha256_padding ?n))" by (simp add: sha_inv_def)
  moreover have "snd (sha256_finalize h) = concat (map store_le32 (map BE32 (hs ?h)))"
    unfolding sha256_finalize_def Let_def p sz by simp
  ultimately show ?thesis by (simp add: sha256_digest_def store_BE32 o_def)
qed

interpretation sha: message_digest "sha256_initialize \<lparr>hs = s, hbuf = replicate 64 0, hbytes = b\<rparr>" sha256_write sha256_finalize sha_inv sha256_digest
  by unfold_locales (simp_all add: sha_inv_init sha_inv_write sha_inv_final)

lemma let_all:
  "(\<And>x. P (F x)) \<Longrightarrow> P (Let e F)" "(\<And>x y. P (G x y)) \<Longrightarrow> P (Let e' (\<lambda>(x, y). G x y))"
  by (simp_all add: case_prod_beta)

lemma transform_length: "length (sha256_transform s chunk) = 8"
  unfolding sha256_transform_def by ((rule let_all(2) [where P = "\<lambda>l. length l = 8"] | rule let_all(1) [where P = "\<lambda>l. length l = 8"])+, simp (no_asm))

lemma absorb_length: "length s = 8 \<Longrightarrow> length (fst (absorb s xs)) = 8"
proof (induction s xs rule: absorb.induct)
  case (1 s xs)
  have "length (transform_buf s (take 64 xs)) = 8"
    by (simp add: transform_buf_def transform_length)
  then show ?case using 1 by (cases "64 \<le> length xs") (simp_all add: absorb.simps [of s xs])
qed

lemma sha256_digest_length: "length (sha256_digest m) = 32"
proof -
  have "length (concat (map store_be32 s)) = 4 * length s" for s by (induction s) (simp_all add: store_be32_def)
  then show ?thesis using absorb_length [of sha256_iv] by (simp add: sha256_digest_def sha256_iv_def)
qed

subsection \<open>HMAC as a streaming digest\<close>

definition hmac_mem :: "hmac_sha256 \<Rightarrow> sha256 \<Rightarrow> bool" where
  "hmac_mem hash sha \<longleftrightarrow> length (hbuf (h_inner hash)) = 64 \<and> length (hbuf (h_outer hash)) = 64 \<and> length (hbuf sha) = 64"

definition hmac_inv :: "u8 list \<Rightarrow> hmac_sha256 \<Rightarrow> u8 list \<Rightarrow> bool" where
  "hmac_inv key h m \<longleftrightarrow> sha_inv (h_inner h) (map (\<lambda>b. b XOR 0x36) (hmac_key key) @ m) \<and>
    sha_inv (h_outer h) (map (\<lambda>b. b XOR 0x5c) (hmac_key key))"

lemma hmac_inv_init:
  assumes "hmac_mem hash sha"
  shows "hmac_inv key (hmac_sha256_initialize hash sha key) []"
proof -
  let ?rkey = "if length key \<le> 64 then key @ replicate (64 - length key) 0
    else let sha = sha256_initialize sha; sha = sha256_write sha key; (sha, out) = sha256_finalize sha in out @ replicate 32 0"
  have k: "?rkey = hmac_key key"
    using sha_inv_final [OF sha_inv_write [OF sha_inv_init, of sha key]] assms
    by (simp add: hmac_key_def hmac_mem_def Let_def case_prod_beta)
  have x: "map (\<lambda>b. b XOR (0x5c XOR 0x36)) (map (\<lambda>b. b XOR 0x5c) r) = map (\<lambda>b. b XOR 0x36) r" for r :: "u8 list"
  proof -
    have "(b XOR a) XOR (a XOR c) = b XOR c" for a b c :: u8 by (rule bit_word_eqI) (auto simp: bit_xor_iff)
    then show ?thesis by (simp only: map_map o_def)
  qed
  have i: "sha_inv (sha256_write (sha256_initialize h) d) d" if "length (hbuf h) = 64" for h d
    using sha_inv_write [OF sha_inv_init [OF that], of d] by simp
  show ?thesis
    unfolding hmac_inv_def hmac_sha256_initialize_def k Let_def [of ?rkey] Let_def [of "hmac_key key"]
    unfolding Let_def x hmac_sha256.select_convs append_Nil2 using assms i by (simp add: hmac_mem_def)
qed

lemma hmac_inv_write: "hmac_inv key h m \<Longrightarrow> hmac_inv key (hmac_sha256_write h d) (m @ d)"
  using sha_inv_write [of "h_inner h" "map (\<lambda>b. b XOR 0x36) (hmac_key key) @ m" d] by (simp add: hmac_inv_def hmac_sha256_write_def)

lemma hmac_inv_final:
  assumes "hmac_inv key h m"
  shows "snd (hmac_sha256_finalize h) = hmac_digest key m"
proof -
  have h: "sha_inv (h_inner h) (map (\<lambda>b. b XOR 0x36) (hmac_key key) @ m)" "sha_inv (h_outer h) (map (\<lambda>b. b XOR 0x5c) (hmac_key key))"
    using assms by (simp_all add: hmac_inv_def)
  show ?thesis
    using sha_inv_final [OF h(1)] sha_inv_final [OF sha_inv_write [OF h(2), of "snd (sha256_finalize (h_inner h))"]]
    by (simp add: hmac_sha256_finalize_def hmac_digest_def Let_def case_prod_beta)
qed

definition sha_zero :: sha256 where
  "sha_zero = \<lparr>hs = [], hbuf = replicate 64 0, hbytes = 0\<rparr>"

interpretation mac: message_digest "hmac_sha256_initialize \<lparr>h_inner = sha_zero, h_outer = sha_zero\<rparr> sha_zero key"
    hmac_sha256_write hmac_sha256_finalize "hmac_inv key" "hmac_digest key"
  by unfold_locales (simp_all add: hmac_inv_init hmac_inv_write hmac_inv_final hmac_mem_def sha_zero_def)

lemma hmac_digest_length: "length (hmac_digest key m) = 32"
  by (simp add: hmac_digest_def sha256_digest_length)

lemma hmac_pieces_correct:
  assumes "hmac_mem hmac sha"
  shows "snd (hmac_pieces hmac sha key ds) = hmac_digest key (concat ds)" "hmac_mem (fst (hmac_pieces hmac sha key ds)) sha"
proof -
  have i: "hmac_inv key (foldl hmac_sha256_write (hmac_sha256_initialize hmac sha key) ds) (concat ds)"
    using mac.pieces_inv [OF hmac_inv_init [OF assms]] by simp
  show "snd (hmac_pieces hmac sha key ds) = hmac_digest key (concat ds)"
    using hmac_inv_final [OF i] by (simp add: hmac_pieces_def)
  have w: "length (hbuf (sha256_write h d)) = 64" if "sha_inv h m" for h d m
    using sha_inv_write [OF that, of d] by (simp add: sha_inv_def)
  have "length (hbuf (fst (sha256_finalize h))) = 64" if "sha_inv h m" for h m
    using w [OF sha_inv_write [OF that]] by (simp add: sha256_finalize_def Let_def)
  then show "hmac_mem (fst (hmac_pieces hmac sha key ds)) sha"
    using i assms sha_inv_write unfolding hmac_pieces_def hmac_inv_def hmac_sha256_finalize_def hmac_mem_def Let_def case_prod_beta
    by (metis fst_conv hmac_sha256.select_convs)
qed

subsection \<open>The generator\<close>

text \<open>RFC 6979, 3.2: the key and value after initialization, and the output blocks.\<close>

definition rfc_seed :: "u8 list \<Rightarrow> u8 list \<times> u8 list" where
  "rfc_seed key =
    (let v0 = replicate 32 0x01; k1 = hmac_digest (replicate 32 0x00) (v0 @ 0x00 # key); v1 = hmac_digest k1 v0;
         k2 = hmac_digest k1 (v1 @ 0x01 # key) in (k2, hmac_digest k2 v1))"

primrec rfc_blocks :: "u8 list \<Rightarrow> u8 list \<Rightarrow> nat \<Rightarrow> u8 list \<times> u8 list" where
  "rfc_blocks k v 0 = (v, [])"
| "rfc_blocks k v (Suc n) = (let v' = hmac_digest k v; (v'', out) = rfc_blocks k v' n in (v'', v' @ out))"

lemma int_of_size: "n < 2 ^ 31 \<Longrightarrow> sint (of_nat n :: u32) = int n"
  by (simp add: sint_uint unsigned_of_nat take_bit_int_eq_self take_bit_nat_eq_self signed_take_bit_int_eq_self_iff)

lemma generate_loop_correct:
  assumes "hmac_mem hmac sha" "n < 2 ^ 31"
  shows "rfc6979_generate_loop hmac sha k v n =
    Some (fst (rfc_blocks k v ((n + 31) div 32)), take n (snd (rfc_blocks k v ((n + 31) div 32))))"
  using assms(2)
proof (induction n arbitrary: v rule: less_induct)
  case (less n)
  note p = hmac_pieces_correct [OF assms(1), of k "[v]"]
  show ?case
  proof (cases "n = 0")
    case False
    let ?now = "if n > 32 then 32 else n"
    have d: "(n + 31) div 32 = Suc ((n - ?now + 31) div 32)" using False by (auto simp: le_div_geq)
    have t: "take n (x @ y) = take ?now x @ take (n - ?now) y" if "length x = 32" for x y :: "u8 list"
      using that by auto
    have w: "(if int n > 32 then 32 else int n) = int ?now" by simp
    have e: "rfc6979_generate_loop hmac sha k v n = (let v' = hmac_digest k v in case rfc6979_generate_loop hmac sha k v' (n - ?now) of
        None \<Rightarrow> None | Some (v'', out) \<Rightarrow> Some (v'', take ?now v' @ out))"
      using False p(1) by (subst rfc6979_generate_loop.simps) (simp only: int_of_size [OF less.prems] w, simp add: case_prod_beta Let_def cong: option.case_cong)
    have "n - ?now < n" "n - ?now < 2 ^ 31" using False less.prems by simp_all
    note i = less.IH [OF this, of "hmac_digest k v"]
    show ?thesis
      unfolding e d Let_def i option.case case_prod_beta rfc_blocks.simps fst_conv snd_conv t [OF hmac_digest_length] ..
  qed (simp add: rfc6979_generate_loop.simps)
qed

lemma rfc_blocks_length: "length (snd (rfc_blocks k v m)) = 32 * m"
  by (induction m arbitrary: v) (simp_all add: Let_def case_prod_beta hmac_digest_length)

lemma rfc6979_generate_correct:
  assumes "hmac_mem hmac sha" "n < 2 ^ 31"
    and "k = (if rng_retry rng then hmac_digest (rng_k rng) (rng_v rng @ [0x00]) else rng_k rng)"
    and "v = (if rng_retry rng then hmac_digest k (rng_v rng) else rng_v rng)" "b = rfc_blocks k v ((n + 31) div 32)"
  shows "rfc6979_generate hmac sha rng n = Some (rng\<lparr>rng_k := k, rng_v := fst b, rng_retry := True\<rparr>, take n (snd b))"
    and "length (take n (snd b)) = n"
proof -
  show "rfc6979_generate hmac sha rng n = Some (rng\<lparr>rng_k := k, rng_v := fst b, rng_retry := True\<rparr>, take n (snd b))"
    using assms(3-5) by (simp add: rfc6979_generate_def hmac_pieces_correct(1) [OF assms(1)] generate_loop_correct [OF assms(1,2)] Let_def case_prod_beta)
  have "n \<le> 32 * ((n + 31) div 32)" by (simp add: mult.commute)
  then show "length (take n (snd b)) = n" by (simp add: assms(5) rfc_blocks_length)
qed

text \<open>A request of exactly 2^31 bytes becomes a negative \<open>int\<close>.\<close>

lemma rfc6979_generate_int_overflow: "rfc6979_generate hmac sha rng (2 ^ 31) = None"
proof -
  have "sint (of_nat (2 ^ 31) :: u32) \<le> 0" by simp
  then have "rfc6979_generate_loop hmac sha k v (2 ^ 31) = None" for k v
    by (subst rfc6979_generate_loop.simps) (simp add: case_prod_beta Let_def)
  then show ?thesis by (simp add: rfc6979_generate_def Let_def)
qed

subsection \<open>The compression function of FIPS 180-4\<close>

text \<open>The round constants are the first 32 bits of the fractional parts of the cube roots of the first 64 primes. \<open>cbrt\<close> finds
  the integer cube root bit by bit; the roots below have 35 bits.\<close>

fun cbrt :: "int \<Rightarrow> int \<Rightarrow> int \<Rightarrow> int" where
  "cbrt b x r = (if b \<le> 0 then r else cbrt (b div 2) x (if (r + b) * (r + b) * (r + b) \<le> x then r + b else r))"

declare cbrt.simps [simp del]

definition fips_primes :: "int list" where
  "fips_primes = [2, 3, 5, 7, 11, 13, 17, 19, 23, 29, 31, 37, 41, 43, 47, 53, 59, 61, 67, 71, 73, 79, 83, 89, 97, 101, 103, 107,
    109, 113, 127, 131, 137, 139, 149, 151, 157, 163, 167, 173, 179, 181, 191, 193, 197, 199, 211, 223, 227, 229, 233, 239,
    241, 251, 257, 263, 269, 271, 277, 281, 283, 293, 307, 311]"

definition fips_K :: "nat \<Rightarrow> u32" where
  "fips_K t = of_int (cbrt (2 ^ 34) (fips_primes ! t * 2 ^ 96) 0 mod 2 ^ 32)"

lemma cube_mono: "0 \<le> a \<Longrightarrow> a \<le> b \<Longrightarrow> a * a * a \<le> b * b * b" for a b :: int
  by (intro mult_mono) auto

lemma cbrt_bounds:
  "0 \<le> r \<Longrightarrow> r * r * r \<le> x \<Longrightarrow> x < (r + 2 ^ Suc n) * (r + 2 ^ Suc n) * (r + 2 ^ Suc n) \<Longrightarrow>
    (let c = cbrt (2 ^ n) x r in 0 \<le> c \<and> c * c * c \<le> x \<and> x < (c + 1) * (c + 1) * (c + 1))"
proof (induction n arbitrary: r)
  case 0
  have z: "cbrt 0 x s = s" for s by (simp add: cbrt.simps)
  show ?case using 0 by (subst (1) cbrt.simps) (simp add: z Let_def add.commute)
next
  case (Suc n)
  let ?s = "if (r + 2 ^ Suc n) * (r + 2 ^ Suc n) * (r + 2 ^ Suc n) \<le> x then r + 2 ^ Suc n else r"
  have e: "cbrt (2 ^ Suc n) x r = cbrt (2 ^ n) x ?s" by (subst cbrt.simps) simp
  have "r + 2 ^ Suc n + 2 ^ Suc n = r + 2 ^ Suc (Suc n)" by simp
  then have "x < (?s + 2 ^ Suc n) * (?s + 2 ^ Suc n) * (?s + 2 ^ Suc n)" using Suc.prems(3) by (auto simp only: not_le split: if_split)
  moreover have "0 \<le> ?s" "?s * ?s * ?s \<le> x" using Suc.prems by simp_all
  ultimately show ?case using Suc.IH [of ?s] by (simp only: e)
qed

lemma fips_K_cert:
  assumes "p = fips_primes ! t" "r = cbrt 4 p 0 * 2 ^ 32 + uint k" "0 \<le> p" "p < 512" "0 \<le> r"
    "r * r * r \<le> p * 2 ^ 96" "p * 2 ^ 96 < (r + 1) * (r + 1) * (r + 1)"
  shows "fips_K t = k"
proof -
  define c where "c = cbrt (2 ^ 34) (p * 2 ^ 96) 0"
  have "p * 2 ^ 96 < 512 * 2 ^ 96" using assms(4) by simp
  then have c: "0 \<le> c" "c * c * c \<le> p * 2 ^ 96" "p * 2 ^ 96 < (c + 1) * (c + 1) * (c + 1)"
    using cbrt_bounds [of 0 "p * 2 ^ 96" 34] assms(3) by (simp_all add: c_def Let_def)
  have "c < r + 1" using cube_mono [of "r + 1" c] assms(5,7) c by linarith
  moreover have "r < c + 1" using cube_mono [of "c + 1" r] assms(6) c by linarith
  ultimately have "c = r" by simp
  then show ?thesis using uint_bounded [of k] by (simp add: fips_K_def c_def assms(1,2) mod_pos_pos_trivial)
qed

definition fips_Ch :: "u32 \<Rightarrow> u32 \<Rightarrow> u32 \<Rightarrow> u32" where
  "fips_Ch x y z = (x AND y) XOR (NOT x AND z)"

definition fips_Maj :: "u32 \<Rightarrow> u32 \<Rightarrow> u32 \<Rightarrow> u32" where
  "fips_Maj x y z = (x AND y) XOR (x AND z) XOR (y AND z)"

fun fips_W :: "(nat \<Rightarrow> u32) \<Rightarrow> nat \<Rightarrow> u32" where
  "fips_W m t = (if t < 16 then m t
     else sigma1 (fips_W m (t - 2)) + fips_W m (t - 7) + sigma0 (fips_W m (t - 15)) + fips_W m (t - 16))"

declare fips_W.simps [simp del]

type_synonym sha_vars = "u32 \<times> u32 \<times> u32 \<times> u32 \<times> u32 \<times> u32 \<times> u32 \<times> u32"

definition fips_round :: "u32 \<Rightarrow> u32 \<Rightarrow> sha_vars \<Rightarrow> sha_vars" where
  "fips_round k w = (\<lambda>(a, b, c, d, e, f, g, h).
    let t1 = h + Sigma1 e + fips_Ch e f g + k + w; t2 = Sigma0 a + fips_Maj a b c in (t1 + t2, a, b, c, d + t1, e, f, g))"

primrec fips_rounds :: "(nat \<Rightarrow> u32) \<Rightarrow> sha_vars \<Rightarrow> nat \<Rightarrow> sha_vars" where
  "fips_rounds m s 0 = s"
| "fips_rounds m s (Suc t) = fips_round (fips_K t) (fips_W m t) (fips_rounds m s t)"

definition fips_compress :: "u32 list \<Rightarrow> (nat \<Rightarrow> u32) \<Rightarrow> u32 list" where
  "fips_compress s m = (case fips_rounds m (s ! 0, s ! 1, s ! 2, s ! 3, s ! 4, s ! 5, s ! 6, s ! 7) 64 of
    (a, b, c, d, e, f, g, h) \<Rightarrow> [s ! 0 + a, s ! 1 + b, s ! 2 + c, s ! 3 + d, s ! 4 + e, s ! 5 + f, s ! 6 + g, s ! 7 + h])"

lemma Ch_fips: "Ch x y z = fips_Ch x y z"
  unfolding Ch_def fips_Ch_def by (rule bit_word_eqI) (auto simp: bit_simps)

lemma Maj_fips: "Maj x y z = fips_Maj x y z"
  unfolding Maj_def fips_Maj_def by (rule bit_word_eqI) (auto simp: bit_simps)

lemma round_let:
  assumes "fips_rounds m s n = (a, b, c, d, e, f, g, h)" "w = fips_W m n" "fips_K n = k" "n + 1 = n'"
    and "\<And>x y. fips_rounds m s n' = (y, a, b, c, x, e, f, g) \<Longrightarrow> P (F x y)"
  shows "P (Let (Round a b c d e f g h k w) (\<lambda>(x, y). F x y))"
proof -
  let ?t1 = "h + Sigma1 e + Ch e f g + k + w" and ?t2 = "Sigma0 a + Maj a b c"
  have "fips_rounds m s n' = (?t1 + ?t2, a, b, c, d + ?t1, e, f, g)"
    using assms(1-4) by (auto simp: fips_round_def Let_def Ch_fips Maj_fips)
  then show ?thesis using assms(5) by (simp add: Round_def Let_def)
qed

lemma schedule_expr:
  assumes "x0 = fips_W m j" "x1 = fips_W m j1" "x2 = fips_W m j2" "x3 = fips_W m j3" "j1 = j + 14" "j2 = j + 9" "j3 = j + 1" "j + 16 = n"
  shows "x0 + (sigma1 x1 + x2 + sigma0 x3) = fips_W m n" "x0 + sigma1 x1 + x2 + sigma0 x3 = fips_W m n"
proof -
  have "n - 2 = j1" "n - 7 = j2" "n - 15 = j3" "n - 16 = j" "\<not> n < 16" using assms(5-8) by auto
  then show "x0 + (sigma1 x1 + x2 + sigma0 x3) = fips_W m n" "x0 + sigma1 x1 + x2 + sigma0 x3 = fips_W m n"
    unfolding assms(1-4) by (simp_all add: fips_W.simps [of m n] add_ac)
qed

lemma schedule_let:
  assumes "x0 = fips_W m j" "x1 = fips_W m j1" "x2 = fips_W m j2" "x3 = fips_W m j3" "j1 = j + 14" "j2 = j + 9" "j3 = j + 1" "j + 16 = n"
    and "\<And>x. x = fips_W m n \<Longrightarrow> P (F x)"
  shows "P (Let (x0 + (sigma1 x1 + x2 + sigma0 x3)) F)"
  using schedule_expr(1) [OF assms(1-8)] assms(9) by simp

lemma load_let: "n < 16 \<Longrightarrow> (\<And>x. x = fips_W (\<lambda>t. BE32 (chunk ! t)) n \<Longrightarrow> P (F x)) \<Longrightarrow> P (Let (BE32 (chunk ! n)) F)"
  by (simp add: fips_W.simps)

lemma compress_end:
  "fips_rounds m (s ! 0, s ! 1, s ! 2, s ! 3, s ! 4, s ! 5, s ! 6, s ! 7) 64 = (a, b, c, d, e, f, g, h) \<Longrightarrow>
    [s ! 0 + a, s ! 1 + b, s ! 2 + c, s ! 3 + d, s ! 4 + e, s ! 5 + f, s ! 6 + g, s ! 7 + h] = fips_compress s m"
  by (simp add: fips_compress_def)

lemma let_sub: "P (F e) \<Longrightarrow> P (Let e F)"
  by simp

lemma transform_fips: "sha256_transform s chunk = fips_compress s (\<lambda>t. BE32 (chunk ! t))"
proof -
  let ?m = "\<lambda>t. BE32 (chunk ! t)"
  let ?P = "\<lambda>r. r = fips_compress s ?m"
  have "fips_rounds ?m (s ! 0, s ! 1, s ! 2, s ! 3, s ! 4, s ! 5, s ! 6, s ! 7) 0 = (s ! 0, s ! 1, s ! 2, s ! 3, s ! 4, s ! 5, s ! 6, s ! 7)"
    by simp
  then show ?thesis
    unfolding sha256_transform_def
    apply -
    apply (rule let_sub [where P = ?P], rule let_sub [where P = ?P], rule let_sub [where P = ?P], rule let_sub [where P = ?P], rule let_sub [where P = ?P], rule let_sub [where P = ?P], rule let_sub [where P = ?P], rule let_sub [where P = ?P])
    apply ((rule load_let [where P = ?P], (simp (no_asm); fail)) |
      (rule schedule_let [where P = ?P and m = ?m], assumption, assumption, assumption, assumption, (simp (no_asm); fail), (simp (no_asm); fail), (simp (no_asm); fail), (simp (no_asm); fail)) |
      (rule round_let [where P = ?P and m = ?m], assumption, (assumption | (rule schedule_expr(2), assumption, assumption, assumption, assumption, (simp (no_asm); fail), (simp (no_asm); fail), (simp (no_asm); fail), (simp (no_asm); fail))),
        (rule fips_K_cert [OF refl refl], (simp (no_asm) add: fips_primes_def cbrt.simps; fail)+)[1], (simp (no_asm) del: One_nat_def; fail)))+
    apply (rule compress_end, assumption)
    done
qed

subsection \<open>Properties\<close>


text \<open>C31: whatever the pieces a message is written in, initialize, write and finalize return the SHA-256
  digest of the concatenation: the padded message compressed block by block.\<close>

theorem sha256_stream_digest:
  assumes "length (hbuf h) = 64"
  shows "snd (sha256_finalize (foldl sha256_write (sha256_initialize h) ds)) = sha256_digest (concat ds) \<and>
    length (sha256_digest (concat ds)) = 32"
  using sha_inv_final [OF sha.pieces_inv [OF sha_inv_init [OF assms]]] sha256_digest_length by simp

theorem sha256_stream_digest_witness:
  "snd (sha256_finalize (foldl sha256_write (sha256_initialize sha_zero) [[0x61], [], [0x62, 0x63]])) = sha256_digest [0x61, 0x62, 0x63]"
  using sha256_stream_digest [of sha_zero "[[0x61], [], [0x62, 0x63]]"] by (simp add: sha_zero_def)

text \<open>C32: HMAC over a message written in pieces is \<open>H((K xor opad) || H((K xor ipad) || m))\<close>, also for keys
  longer than a block, which are hashed first.\<close>

theorem hmac_stream_digest:
  assumes "hmac_mem hash sha"
  shows "snd (hmac_sha256_finalize (foldl hmac_sha256_write (hmac_sha256_initialize hash sha key) ds)) = hmac_digest key (concat ds)"
  using hmac_inv_final [OF mac.pieces_inv [OF hmac_inv_init [OF assms]]] by simp

theorem hmac_stream_digest_witness:
  "snd (hmac_sha256_finalize (foldl hmac_sha256_write (hmac_sha256_initialize \<lparr>h_inner = sha_zero, h_outer = sha_zero\<rparr> sha_zero [1, 2]) [[3], [4]])) = hmac_digest [1, 2] [3, 4]"
  using hmac_stream_digest [of "\<lparr>h_inner = sha_zero, h_outer = sha_zero\<rparr>" sha_zero "[1, 2]" "[[3], [4]]"]
  by (simp add: hmac_mem_def sha_zero_def)

text \<open>C33: initialization computes the key and value of RFC 6979, 3.2 b to g; for a request of fewer than 2^31
  bytes the generation loop ends, returns exactly the requested number of bytes, and these are the first bytes of the HMAC
  block sequence, after the key update of step h on every call but the first. At 2^31 the conversion to \<open>int\<close> is negative
  and the copy has no defined result.\<close>

theorem rfc6979_spec:
  assumes "hmac_mem hmac sha" "n < 2 ^ 31"
  shows "rfc6979_initialize hmac sha key = \<lparr>rng_v = snd (rfc_seed key), rng_k = fst (rfc_seed key), rng_retry = False\<rparr> \<and>
    (let k = if rng_retry rng then hmac_digest (rng_k rng) (rng_v rng @ [0x00]) else rng_k rng;
         v = if rng_retry rng then hmac_digest k (rng_v rng) else rng_v rng;
         b = rfc_blocks k v ((n + 31) div 32)
     in rfc6979_generate hmac sha rng n = Some (rng\<lparr>rng_k := k, rng_v := fst b, rng_retry := True\<rparr>, take n (snd b)) \<and>
        length (take n (snd b)) = n) \<and>
    rfc6979_generate hmac sha rng (2 ^ 31) = None"
proof -
  note p = hmac_pieces_correct(1)
  have c: "rfc6979_initialize hmac sha key = \<lparr>rng_v = snd (rfc_seed key), rng_k = fst (rfc_seed key), rng_retry = False\<rparr>"
    unfolding rfc6979_initialize_def Let_def case_prod_beta
    by (simp add: p assms hmac_pieces_correct(2) rfc_seed_def Let_def)
  show ?thesis
    unfolding Let_def using c rfc6979_generate_correct [OF assms refl refl refl] rfc6979_generate_int_overflow by simp
qed

theorem rfc6979_spec_witness:
  "\<exists>rng' out. rfc6979_generate \<lparr>h_inner = sha_zero, h_outer = sha_zero\<rparr> sha_zero
     \<lparr>rng_v = replicate 32 1, rng_k = replicate 32 0, rng_retry = True\<rparr> 45 = Some (rng', out) \<and> length out = 45"
proof -
  have "hmac_mem \<lparr>h_inner = sha_zero, h_outer = sha_zero\<rparr> sha_zero" by (simp add: hmac_mem_def sha_zero_def)
  moreover have "(45 :: nat) < 2 ^ 31" by simp
  ultimately show ?thesis
    using rfc6979_spec [of "\<lparr>h_inner = sha_zero, h_outer = sha_zero\<rparr>" sha_zero 45 "[]"
      "\<lparr>rng_v = replicate 32 1, rng_k = replicate 32 0, rng_retry = True\<rparr>"] unfolding Let_def by metis
qed

end
