(* ===== verification/Ecdsa_Der.thy ===== *)
theory Ecdsa_Der
  imports Scalar_4x64
begin

text \<open>
  The DER encoding of signatures, \<open>ecdsa_impl.h\<close>: the strict parser and the serializer, over the 4x64 scalars. A read
  pointer together with the end of the buffer is the list of the bytes that are left. Every dereference goes through
  \<open>deref\<close>, which fails (\<open>None\<close>) outside the buffer; that the parser never fails in this way is its memory safety. The
  error returns of the code are values of the model.
\<close>

subsection \<open>Parsing (ecdsa_impl.h 49--177)\<close>

definition deref :: "u8 list \<Rightarrow> nat \<Rightarrow> u8 option" where
  "deref sig i = (if i < length sig then Some (sig ! i) else None)"

text \<open>The loop over the long form length octets. The result is returned as an \<open>int\<close>.\<close>

fun der_len_loop :: "nat \<Rightarrow> u64 \<Rightarrow> u8 list \<Rightarrow> (int \<times> u8 list) option" where
  "der_len_loop 0 ret sig = Some (if ret < 128 then (- 1, sig) else (sint (ucast ret :: u32), sig))"
| "der_len_loop (Suc lenleft) ret sig =
    Option.bind (deref sig 0) (\<lambda>b.
      let ret = push_bit 8 ret OR ucast b
      in if ret + of_nat (Suc lenleft) > of_nat (length sig) then Some (- 1, sig)
         else der_len_loop lenleft ret (tl sig))"

definition der_read_len :: "u8 list \<Rightarrow> (int \<times> u8 list) option" where
  "der_read_len sig =
    (if sig = [] then Some (- 1, sig)
     else Option.bind (deref sig 0) (\<lambda>b1.
       let sig = tl sig
       in if b1 = 0xFF then Some (- 1, sig)
          else if b1 AND 0x80 = 0 then Some (uint b1, sig)
          else if b1 = 0x80 then Some (- 1, sig)
          else let lenleft = unat (b1 AND 0x7F)
               in if lenleft > length sig then Some (- 1, sig)
                  else Option.bind (deref sig 0) (\<lambda>b.
                    if b = 0 then Some (- 1, sig)
                    else if lenleft > 8 then Some (- 1, sig)
                    else der_len_loop lenleft 0 sig)))"

text \<open>The loop that skips leading zero bytes.\<close>

fun der_skip_zeros :: "nat \<Rightarrow> u8 list \<Rightarrow> (nat \<times> u8 list) option" where
  "der_skip_zeros 0 sig = Some (0, sig)"
| "der_skip_zeros (Suc rlen) sig =
    Option.bind (deref sig 0) (\<lambda>b. if b = 0 then der_skip_zeros rlen (tl sig) else Some (Suc rlen, sig))"

definition der_parse_integer :: "scalar_4x64 \<Rightarrow> u8 list \<Rightarrow> (bool \<times> scalar_4x64 \<times> u8 list) option" where
  "der_parse_integer r sig =
    (if sig = [] then Some (False, r, sig)
     else Option.bind (deref sig 0) (\<lambda>tag.
       if tag \<noteq> 0x02 then Some (False, r, sig)
       else Option.bind (der_read_len (tl sig)) (\<lambda>(rlen, sig).
         if rlen \<le> 0 \<or> rlen > int (length sig) then Some (False, r, sig)
         else Option.bind (deref sig 0) (\<lambda>b0.
           Option.bind (if rlen > 1 then deref sig 1 else Some 0) (\<lambda>b1.
             if b0 = 0x00 \<and> rlen > 1 \<and> b1 AND 0x80 = 0x00 then Some (False, r, sig)
             else if b0 = 0xFF \<and> rlen > 1 \<and> b1 AND 0x80 = 0x80 then Some (False, r, sig)
             else
               let overflow = (b0 AND 0x80 = 0x80)
               in Option.bind (der_skip_zeros (nat rlen) sig) (\<lambda>(rlen, sig).
                 let overflow = overflow \<or> rlen > 32
                 in if \<not> overflow \<and> length sig < rlen then None
                    else let (overflow, r) =
                           (if \<not> overflow
                            then let (ov, r) = scalar_set_b32_4x64 (replicate (32 - rlen) 0 @ take rlen sig) in (ov \<noteq> 0, r)
                            else (overflow, r));
                         r = (if overflow then scalar_set_int_4x64 0 else r)
                         in Some (True, r, drop rlen sig)))))))"

definition ecdsa_sig_parse :: "scalar_4x64 \<Rightarrow> scalar_4x64 \<Rightarrow> u8 list \<Rightarrow> (bool \<times> scalar_4x64 \<times> scalar_4x64) option" where
  "ecdsa_sig_parse rr rs sig =
    (if sig = [] then Some (False, rr, rs)
     else Option.bind (deref sig 0) (\<lambda>tag.
       if tag \<noteq> 0x30 then Some (False, rr, rs)
       else Option.bind (der_read_len (tl sig)) (\<lambda>(rlen, sig).
         if rlen < 0 \<or> rlen > int (length sig) then Some (False, rr, rs)
         else if rlen \<noteq> int (length sig) then Some (False, rr, rs)
         else Option.bind (der_parse_integer rr sig) (\<lambda>(ok, rr, sig).
           if \<not> ok then Some (False, rr, rs)
           else Option.bind (der_parse_integer rs sig) (\<lambda>(ok, rs, sig).
             if \<not> ok then Some (False, rr, rs)
             else if sig \<noteq> [] then Some (False, rr, rs)
             else Some (True, rr, rs))))))"

subsection \<open>Serialization (ecdsa_impl.h 179--201)\<close>

fun der_trim :: "u8 list \<Rightarrow> u8 list" where
  "der_trim (a # b # r) = (if a = 0 \<and> b < 0x80 then der_trim (b # r) else a # b # r)"
| "der_trim r = r"

definition ecdsa_sig_serialize :: "u8 list \<Rightarrow> nat \<Rightarrow> scalar_4x64 \<Rightarrow> scalar_4x64 \<Rightarrow> bool \<times> u8 list \<times> nat" where
  "ecdsa_sig_serialize sig cap ar as =
    (let r = 0 # scalar_get_b32_4x64 ar;
         s = 0 # scalar_get_b32_4x64 as;
         rp = der_trim r; lenR = length rp;
         sp = der_trim s; lenS = length sp
     in if cap < 6 + lenS + lenR then (False, sig, 6 + lenS + lenR)
        else
          let cap = 6 + lenS + lenR;
              sig = sig[0 := 0x30];
              sig = sig[1 := of_nat (4 + lenS + lenR)];
              sig = sig[2 := 0x02];
              sig = sig[3 := of_nat lenR];
              sig = memcpy_at sig 4 rp;
              sig = sig[4 + lenR := 0x02];
              sig = sig[5 + lenR := of_nat lenS];
              sig = memcpy_at sig (lenR + 6) sp
          in (True, sig, cap))"

subsection \<open>Memory safety of the parser\<close>

lemma unat_less_256: "unat b < 256" for b :: u8
proof -
  have "(unsigned b :: nat) < 2 ^ LENGTH(8)" by (rule unsigned_less)
  then show ?thesis by simp
qed

lemma der_len_loop_safe:
  "lenleft \<le> length sig \<Longrightarrow> \<exists>n s. der_len_loop lenleft ret sig = Some (n, s)"
proof (induction lenleft arbitrary: ret sig)
  case (Suc lenleft)
  then show ?case using Suc.IH [of "tl sig"] by (auto simp: deref_def Let_def)
qed simp

lemma der_read_len_safe: "\<exists>n s. der_read_len sig = Some (n, s)"
proof (cases sig)
  case (Cons b1 s)
  have "0 < unat (b1 AND 0x7F)" if "b1 AND 0x80 \<noteq> 0" "b1 \<noteq> 0x80"
  proof (rule ccontr)
    assume "\<not> 0 < unat (b1 AND 0x7F)"
    then have z: "unat b1 mod 128 = 0" using unat_and_mask [of b1 7] by (simp add: mask_numeral)
    have "unat b1 < 256" by (rule unat_less_256)
    with z have "unat b1 = 0 \<or> unat b1 = unat (0x80 :: u8)" by (auto simp: mod_eq_0_iff_dvd elim!: dvdE)
    then have "b1 = 0 \<or> b1 = 0x80" using unsigned_word_eqI [of b1 "0x80"] by (auto simp: unat_eq_0)
    then show False using that by auto
  qed
  then show ?thesis
    unfolding Cons using der_len_loop_safe [of "unat (b1 AND 0x7F)" s 0] by (auto simp: der_read_len_def deref_def Let_def)
qed (simp add: der_read_len_def)

lemma der_skip_zeros_spec:
  "n \<le> length sig \<Longrightarrow> \<exists>k s. der_skip_zeros n sig = Some (k, s) \<and> k \<le> n \<and> s = drop (n - k) sig \<and>
    take (n - k) sig = replicate (n - k) 0 \<and> (0 < k \<longrightarrow> s ! 0 \<noteq> 0)"
proof (induction n arbitrary: sig)
  case (Suc n)
  then obtain b s where s: "sig = b # s" by (cases sig) auto
  show ?case
  proof (cases "b = 0")
    case True
    obtain k t where "der_skip_zeros n s = Some (k, t)" "k \<le> n" "t = drop (n - k) s" "take (n - k) s = replicate (n - k) 0" "0 < k \<longrightarrow> t ! 0 \<noteq> 0"
      using Suc.IH [of s] Suc.prems s by auto
    then show ?thesis using True by (auto simp: s deref_def Suc_diff_le)
  qed (simp add: s deref_def)
qed simp

lemma der_parse_integer_safe: "der_parse_integer r sig \<noteq> None"
proof (cases sig)
  case (Cons tag t)
  obtain n s where l: "der_read_len t = Some (n, s)" using der_read_len_safe by blast
  show ?thesis
  proof (cases "tag \<noteq> 0x02 \<or> n \<le> 0 \<or> int (length s) < n")
    case True
    then show ?thesis by (auto simp: der_parse_integer_def Cons deref_def l)
  next
    case False
    then have n: "nat n \<le> length s" "0 < length s" "1 < n \<Longrightarrow> 1 < length s" by auto
    obtain k u where k: "der_skip_zeros (nat n) s = Some (k, u)" "\<not> length u < k"
      using der_skip_zeros_spec [OF n(1)] n(1) by fastforce
    then show ?thesis
      using False n(2,3) by (simp add: der_parse_integer_def Cons deref_def l Let_def case_prod_beta del: not_None_eq)
  qed
qed (simp add: der_parse_integer_def)

lemma ecdsa_sig_parse_safe: "ecdsa_sig_parse rr rs sig \<noteq> None"
proof (cases sig)
  case (Cons tag t)
  obtain n s where l: "der_read_len t = Some (n, s)" using der_read_len_safe by blast
  obtain ok r' s' where p: "der_parse_integer rr s = Some (ok, r', s')" using der_parse_integer_safe by fast
  obtain ok2 r2 s2 where q: "der_parse_integer rs s' = Some (ok2, r2, s2)" using der_parse_integer_safe by fast
  show ?thesis by (simp add: ecdsa_sig_parse_def Cons deref_def l p q del: not_None_eq)
qed (simp add: ecdsa_sig_parse_def)

subsection \<open>Round trip\<close>

lemma be_val_zeros: "be_val (replicate n 0 @ xs) = be_val xs"
  by (induction n) (simp_all add: be_val_Cons)

lemma der_trim_spec:
  "xs \<noteq> [] \<Longrightarrow> \<exists>n. xs = replicate n 0 @ der_trim xs \<and> der_trim xs \<noteq> [] \<and>
    (length (der_trim xs) > 1 \<and> der_trim xs ! 0 = 0 \<longrightarrow> \<not> der_trim xs ! 1 < 0x80)"
proof (induction xs rule: der_trim.induct)
  case (1 a b r)
  show ?case
  proof (cases "a = 0 \<and> b < 0x80")
    case True
    then obtain n where "b # r = replicate n 0 @ der_trim (b # r)" "der_trim (b # r) \<noteq> []"
      "length (der_trim (b # r)) > 1 \<and> der_trim (b # r) ! 0 = 0 \<longrightarrow> \<not> der_trim (b # r) ! 1 < 0x80" using 1 by auto
    then show ?thesis using True by (intro exI [of _ "Suc n"]) simp
  qed (intro exI [of _ 0], auto)
qed auto

lemma der_trim_head: "xs ! 0 < 0x80 \<Longrightarrow> xs \<noteq> [] \<Longrightarrow> der_trim xs ! 0 < 0x80"
  by (induction xs rule: der_trim.induct) auto

lemma and_0x80: "b AND 0x80 = (if b < 0x80 then 0 else 0x80)" for b :: u8
proof -
  have e: "bit (0x80 :: u8) n \<longleftrightarrow> n = 7" for n using bit_exp_iff [where ?'a = u8, of 7 n] by (auto simp: possible_bit_def)
  have "unat b < 256" by (rule unat_less_256)
  then have "unat b div 128 = (if 128 \<le> unat b then 1 else 0)" by auto
  then have "odd (unat b div 128) \<longleftrightarrow> 128 \<le> unat b" by simp
  then have "bit b 7 \<longleftrightarrow> \<not> b < 0x80"
    using bit_unsigned_iff [of b 7, where ?'a = nat] bit_iff_odd [of "unat b" 7] by (simp add: word_less_nat_alt not_less)
  then show ?thesis by (auto intro!: bit_word_eqI simp: bit_and_iff e simp del: bit_numeral_word_iff)
qed

definition der_int :: "scalar_4x64 \<Rightarrow> u8 list" where
  "der_int x = der_trim (0 # scalar_get_b32_4x64 x)"

lemma der_int_spec:
  shows "der_int x \<noteq> []" "length (der_int x) \<le> 33" "der_int x ! 0 < 0x80" "be_val (der_int x) = scalar_val x"
    and "length (der_int x) > 1 \<Longrightarrow> der_int x ! 0 = 0 \<Longrightarrow> \<not> der_int x ! 1 < 0x80"
    and "length (der_int x) = 33 \<Longrightarrow> der_int x ! 0 = 0"
proof -
  obtain n where n: "0 # scalar_get_b32_4x64 x = replicate n 0 @ der_int x" "der_int x \<noteq> []"
      "length (der_int x) > 1 \<and> der_int x ! 0 = 0 \<longrightarrow> \<not> der_int x ! 1 < 0x80"
    using der_trim_spec [of "0 # scalar_get_b32_4x64 x"] by (auto simp: der_int_def)
  show "der_int x \<noteq> []" "length (der_int x) > 1 \<Longrightarrow> der_int x ! 0 = 0 \<Longrightarrow> \<not> der_int x ! 1 < 0x80" using n by auto
  have l: "33 = n + length (der_int x)" using arg_cong [OF n(1), of length] by (simp add: scalar_get_b32_correct)
  then show "length (der_int x) \<le> 33" by simp
  show "der_int x ! 0 < 0x80" using der_trim_head [of "0 # scalar_get_b32_4x64 x"] by (simp add: der_int_def)
  show "be_val (der_int x) = scalar_val x"
    using arg_cong [OF n(1), of be_val] by (simp add: be_val_zeros be_val_Cons scalar_get_b32_correct)
  show "length (der_int x) = 33 \<Longrightarrow> der_int x ! 0 = 0" using l n(1) by (metis add_right_cancel append_Nil add_0 nth_Cons_0 replicate_0)
qed

lemma der_read_len_short: "n < 128 \<Longrightarrow> der_read_len (of_nat n # sig) = Some (int n, sig)"
proof -
  assume n: "n < 128"
  then have u: "unat (of_nat n :: u8) = n" by (simp add: unat_of_nat)
  then have "(of_nat n :: u8) < 0x80" "(of_nat n :: u8) \<noteq> 0xFF" using n by (auto simp: word_less_nat_alt word_unat_eq_iff)
  then show ?thesis using u by (simp add: der_read_len_def deref_def and_0x80) (metis of_nat_unat)
qed

lemma der_parse_int:
  assumes "scalar_ok x"
  shows "der_parse_integer r (0x02 # of_nat (length (der_int x)) # der_int x @ rest) = Some (True, x, rest)"
proof -
  define n where "n = length (der_int x)"
  define w where "w = der_int x @ rest"
  note e = der_int_spec [of x, folded n_def]
  have n: "0 < n" "n \<le> length w" using e(1) by (simp_all add: n_def w_def)
  have w0: "w ! 0 = der_int x ! 0" "1 < n \<Longrightarrow> w ! 1 = der_int x ! 1" using n by (simp_all add: w_def n_def nth_append)
  obtain k where k: "der_skip_zeros n w = Some (k, drop (n - k) w)" "k \<le> n"
      "take (n - k) w = replicate (n - k) 0" "0 < k \<longrightarrow> drop (n - k) w ! 0 \<noteq> 0"
    using der_skip_zeros_spec [OF n(2)] by auto
  have k32: "k \<le> 32"
  proof (rule ccontr)
    assume "\<not> k \<le> 32"
    then have "k = 33" "n = 33" using k(2) e(2) by auto
    then show False using k(4) e(6) w0(1) by auto
  qed
  define u where "u = drop (n - k) w"
  have u: "k \<le> length u" "drop k u = rest" using n(2) k(2) by (simp_all add: u_def w_def n_def)
  have "der_int x = take n w" by (simp add: w_def n_def)
  also have "\<dots> = replicate (n - k) 0 @ take k u"
    using take_add [of "n - k" k w] k(2,3) by (simp add: u_def)
  finally have "be_val (take k u) = scalar_val x" using e(4) by (metis be_val_zeros)
  then have v: "be_val (replicate (32 - k) 0 @ take k u) = scalar_val x" by (simp add: be_val_zeros)
  have l: "length (replicate (32 - k) 0 @ take k u) = 32" using k32 u(1) by simp
  have "scalar_val x < order_n" using assms by (simp add: scalar_ok_def)
  then have s: "scalar_set_b32_4x64 (replicate (32 - k) 0 @ take k u) = (0, x)"
    using scalar_set_b32_correct [OF l] v scalar_val_bounds [of x] by (simp add: prod_eq_iff scalar_val_inject [symmetric])
  have c: "der_read_len (of_nat n # w) = Some (int n, w)" using e(2) by (intro der_read_len_short) simp
  have g: "\<not> (w ! 0 = 0 \<and> 1 < n \<and> w ! 1 AND 0x80 = 0)" using e(5) w0 by (auto simp: and_0x80)
  have f: "w ! 0 \<noteq> 0xFF" "w ! 0 AND 0x80 \<noteq> 0x80" using e(3) w0 by (auto simp: and_0x80)
  have t: "der_skip_zeros n w = Some (k, u)" using k(1) by (simp add: u_def)
  have m: "0 < length w" "1 < n \<Longrightarrow> 1 < length w" using n by auto
  show ?thesis
    unfolding n_def [symmetric] w_def [symmetric] der_parse_integer_def
    using m n g f k32 u s by (cases "1 < n") (auto simp: deref_def c t Let_def)
qed

text \<open>The canonical encoding.\<close>

definition der_sig :: "scalar_4x64 \<Rightarrow> scalar_4x64 \<Rightarrow> u8 list" where
  "der_sig r s = 0x30 # of_nat (4 + length (der_int s) + length (der_int r)) # 0x02 # of_nat (length (der_int r)) # der_int r @
     0x02 # of_nat (length (der_int s)) # der_int s"

lemma ecdsa_sig_parse_der:
  assumes "scalar_ok r" "scalar_ok s"
  shows "ecdsa_sig_parse rr rs (der_sig r s) = Some (True, r, s)"
proof -
  let ?t = "0x02 # of_nat (length (der_int r)) # der_int r @ 0x02 # of_nat (length (der_int s)) # der_int s"
  have "der_read_len (of_nat (4 + length (der_int s) + length (der_int r)) # ?t) = Some (int (4 + length (der_int s) + length (der_int r)), ?t)"
    using der_int_spec(2) [of r] der_int_spec(2) [of s] by (intro der_read_len_short) simp
  then show ?thesis
    using der_parse_int [OF assms(1), of rr "0x02 # of_nat (length (der_int s)) # der_int s"] der_parse_int [OF assms(2), of rs "[]"]
    by (simp add: ecdsa_sig_parse_def der_sig_def deref_def)
qed

lemma split_buffer:
  assumes "6 + q + p \<le> length sig"
  obtains a b c d z e f y x where "sig = a # b # c # d # z @ e # f # y @ x" "length z = p" "length y = q" "x = drop (6 + q + p) sig"
proof -
  obtain a b c d t where s: "sig = a # b # c # d # t" and "2 + q + p \<le> length t"
    using assms by (auto simp: Suc_le_length_iff numeral_eq_Suc)
  then have t: "2 + q \<le> length (drop p t)" "p \<le> length t" by simp_all
  then obtain e f w where d: "drop p t = e # f # w" and w: "q \<le> length w"
    using Suc_le_length_iff [of "Suc q" "drop p t"] by (auto simp: Suc_le_length_iff simp del: length_drop)
  have "t = take p t @ e # f # take q w @ drop q w" using d append_take_drop_id [of p t] by simp
  moreover have "drop q w = drop (6 + q + p) sig"
    using arg_cong [OF d, of "drop (2 + q)"] by (simp add: s add_ac numeral_eq_Suc)
  ultimately show ?thesis using that [of a b c d "take p t" e f "take q w" "drop q w"] s t(2) w by simp
qed

lemma ecdsa_sig_serialize_eq:
  assumes "length sig = cap"
  shows "ecdsa_sig_serialize sig cap r s = (if cap < length (der_sig r s) then (False, sig, length (der_sig r s))
    else (True, der_sig r s @ drop (length (der_sig r s)) sig, length (der_sig r s)))"
proof -
  define p q where "p = der_int r" and "q = der_int s"
  have l: "length (der_sig r s) = 6 + length q + length p" by (simp add: der_sig_def p_def q_def)
  have d: "der_sig r s = 0x30 # of_nat (4 + length q + length p) # 0x02 # of_nat (length p) # p @ 0x02 # of_nat (length q) # q"
    by (simp add: der_sig_def p_def q_def)
  show ?thesis
  proof (cases "cap < 6 + length q + length p")
    case False
    then have "6 + length q + length p \<le> length sig" using assms by simp
    then obtain a b c d' z e f y x where s: "sig = a # b # c # d' # z @ e # f # y @ x" "length z = length p" "length y = length q"
      and x: "x = drop (6 + length q + length p) sig" by (rule split_buffer)
    show ?thesis
      unfolding l d x [symmetric] using False s(2,3)
      unfolding ecdsa_sig_serialize_def Let_def der_int_def [symmetric] p_def [symmetric] q_def [symmetric] s(1)
      by (simp add: memcpy_at_def numeral_eq_Suc list_update_append)
  qed (simp add: ecdsa_sig_serialize_def Let_def l p_def q_def der_int_def)
qed

subsection \<open>Strictness\<close>

text \<open>Of the long form only lengths of at least 128 are accepted, so a shorter length is in the short form.\<close>

lemma der_len_step:
  assumes "uint ret < 2 ^ 31" "l \<le> 8" "n < 2 ^ 31" "\<not> of_nat n < (push_bit 8 ret OR ucast (b :: u8)) + of_nat l"
  shows "uint (push_bit 8 ret OR ucast b :: u64) < 2 ^ 31"
proof -
  have d: "denotes (ucast b :: u64) (uint b) 255" using denotes_u8 [of b] by (simp add: denotes_def uint_ucast_up)
  have "uint (push_bit 8 ret OR ucast b :: u64) = uint ret * 2 ^ 8 + uint b"
    using denotes_push_or [OF d, of ret "uint ret" "2 ^ 31 - 1" 8] assms(1) by (simp add: denotes_def)
  moreover have "uint b < 2 ^ 8" using uint_bounded [of b] by simp
  ultimately have "uint (push_bit 8 ret OR ucast b :: u64) < 2 ^ 40" using assms(1) by simp
  then have "uint ((push_bit 8 ret OR ucast b) + of_nat l :: u64) = uint (push_bit 8 ret OR ucast b :: u64) + int l"
    using assms(2) by (simp add: uint_add_lem [symmetric] unsigned_of_nat take_bit_nat_eq_self uint_plus_if')
  then show ?thesis using assms(3,4) by (simp add: word_less_def unsigned_of_nat take_bit_nat_eq_self)
qed

lemma der_len_loop_long:
  "der_len_loop l ret sig = Some (n, s) \<Longrightarrow> length sig < 2 ^ 31 \<Longrightarrow> uint ret < 2 ^ 31 \<Longrightarrow> l \<le> 8 \<Longrightarrow> n = - 1 \<or> 128 \<le> n"
proof (induction l arbitrary: ret sig)
  case 0
  have "sint (ucast ret :: u32) = uint ret"
    using 0(3) order_trans [of "- 2147483648" 0 "uint ret"] by (simp add: sint_uint unsigned_ucast_eq take_bit_int_eq_self signed_take_bit_int_eq_self_iff)
  then show ?case using 0 by (auto simp: word_less_def split: if_splits)
next
  case (Suc l)
  let ?r = "push_bit 8 ret OR ucast (sig ! 0) :: u64"
  show ?case
  proof (cases "?r + of_nat (Suc l) > of_nat (length sig)")
    case True
    then show ?thesis using Suc.prems(1) by (auto simp: deref_def Let_def split: if_splits)
  next
    case False
    have "uint ?r < 2 ^ 31" using der_len_step [OF Suc.prems(3,4,2) False] .
    then show ?thesis using Suc.IH [of ?r "tl sig"] Suc.prems False by (auto simp: deref_def Let_def split: if_splits)
  qed
qed

lemma der_read_len_inverse:
  assumes "der_read_len sig = Some (n, s)" "0 \<le> n" "n < 128" "length sig < 2 ^ 31"
  shows "sig = of_int n # s"
proof -
  obtain b t where t: "sig = b # t" using assms(1,2) by (cases sig) (auto simp: der_read_len_def)
  show ?thesis
  proof (cases "b AND 0x80 = 0")
    case True
    then show ?thesis using assms(1,2) by (auto simp: t der_read_len_def deref_def split: if_splits)
  next
    case False
    obtain l where "der_len_loop l 0 t = Some (n, s)" "l \<le> 8"
      using assms(1,2) False by (auto simp: t der_read_len_def deref_def Let_def split: if_splits bind_splits)
    then show ?thesis using der_len_loop_long [of l 0 t n s] assms by (simp add: t)
  qed
qed

lemma der_len_loop_suffix: "der_len_loop l ret sig = Some (n, s) \<Longrightarrow> length s \<le> length sig"
  by (induction l ret sig rule: der_len_loop.induct) (fastforce simp: deref_def Let_def split: if_splits)+

lemma der_read_len_suffix: "der_read_len sig = Some (n, s) \<Longrightarrow> length s \<le> length sig"
  by (cases sig) (auto simp: der_read_len_def deref_def Let_def split: if_splits dest!: der_len_loop_suffix)

lemma der_trim_minimal:
  assumes "ys \<noteq> []" "ys ! 0 < 0x80" "1 < length ys \<Longrightarrow> ys ! 0 = 0 \<Longrightarrow> \<not> ys ! 1 < 0x80"
  shows "der_trim (replicate m 0 @ ys) = ys"
proof (induction m)
  case 0
  show ?case using assms by (cases ys rule: der_trim.cases) auto
next
  case (Suc m)
  show ?case
  proof (cases m)
    case 0
    obtain y r where "ys = y # r" using assms(1) by (cases ys) auto
    then show ?thesis using assms(2) Suc 0 by simp
  qed (use Suc in simp)
qed

lemma der_parse_integerE:
  assumes "der_parse_integer r sig = Some (True, x, rest)"
  obtains t n s k u where "sig = 0x02 # t" "der_read_len t = Some (n, s)" "0 < n" "n \<le> int (length s)"
    "\<not> (s ! 0 = 0 \<and> 1 < n \<and> s ! 1 AND 0x80 = 0)" "der_skip_zeros (nat n) s = Some (k, u)" "rest = drop k u"
    "x = scalar_set_int_4x64 0 \<or> s ! 0 AND 0x80 = 0 \<and> k \<le> 32 \<and> scalar_set_b32_4x64 (replicate (32 - k) 0 @ take k u) = (0, x)"
proof -
  obtain b t where t: "sig = b # t" using assms by (cases sig) (auto simp: der_parse_integer_def)
  obtain n s where l: "der_read_len t = Some (n, s)" using der_read_len_safe by blast
  have b: "b = 0x02" "0 < n" "n \<le> int (length s)" using assms by (auto simp: der_parse_integer_def t deref_def l split: if_splits)
  obtain k u where k: "der_skip_zeros (nat n) s = Some (k, u)" using der_skip_zeros_spec [of "nat n" s] b(3) by fastforce
  show ?thesis
    using assms b by (intro that [of t n s k u])
      (auto simp: der_parse_integer_def t deref_def l k Let_def and_0x80 prod_eq_iff split: if_splits prod.splits)
qed

lemma set_b32_ok:
  assumes "scalar_set_b32_4x64 b = (0, x)" "length b = 32"
  shows "scalar_val x = be_val b" "scalar_ok x"
proof -
  have "be_val b < order_n" "scalar_val x = be_val b mod order_n"
    using scalar_set_b32_correct [OF assms(2)] assms(1) by auto
  then show "scalar_val x = be_val b" "scalar_ok x" using be_val_bounds [of b] by (simp_all add: scalar_ok_def)
qed

lemma scalar_val_zero: "scalar_val (scalar_set_int_4x64 0) = 0"
  by (simp add: scalar_set_int_4x64_def scalar_val_def scalar_limbs_def limbs_val_Cons)

lemma der_parse_integer_inverse:
  assumes "der_parse_integer r sig = Some (True, x, rest)" "scalar_val x \<noteq> 0" "length sig < 2 ^ 31"
  shows "sig = 0x02 # of_nat (length (der_int x)) # der_int x @ rest"
proof -
  obtain t n s k u where e: "sig = 0x02 # t" "der_read_len t = Some (n, s)" "0 < n" "n \<le> int (length s)"
    "\<not> (s ! 0 = 0 \<and> 1 < n \<and> s ! 1 AND 0x80 = 0)" "der_skip_zeros (nat n) s = Some (k, u)" "rest = drop k u"
    "x = scalar_set_int_4x64 0 \<or> s ! 0 AND 0x80 = 0 \<and> k \<le> 32 \<and> scalar_set_b32_4x64 (replicate (32 - k) 0 @ take k u) = (0, x)"
    using assms(1) by (rule der_parse_integerE)
  define m where "m = nat n"
  have m: "n = int m" "0 < m" "m \<le> length s" using e(3,4) by (simp_all add: m_def)
  have s0: "s ! 0 < 0x80" and k: "k \<le> 32" and b: "scalar_set_b32_4x64 (replicate (32 - k) 0 @ take k u) = (0, x)"
    using e(8) assms(2) scalar_val_zero by (auto simp: and_0x80 split: if_splits)
  have z: "k \<le> m" "u = drop (m - k) s" "take (m - k) s = replicate (m - k) 0"
    using der_skip_zeros_spec [OF m(3)] e(6) by (auto simp: m_def)
  have "m \<le> 33"
  proof (rule ccontr)
    assume "\<not> m \<le> 33"
    then have i: "i < 2 \<Longrightarrow> s ! i = 0" for i
      using k arg_cong [OF z(3), of "\<lambda>l. l ! i"] by simp
    show False using e(5) i [of 0] i [of 1] m \<open>\<not> m \<le> 33\<close> by simp
  qed
  then have t: "t = of_int n # s" using der_read_len_inverse [OF e(2)] m(1) assms(3) by (simp add: e(1))
  have u: "k \<le> length u" using z(1,2) m(3) by simp
  have v: "be_val (take k u) = scalar_val x" using set_b32_ok(1) [OF b] u k by (simp add: be_val_zeros)
  have w: "take m s = replicate (m - k) 0 @ take k u" using take_add [of "m - k" k s] z by simp
  have "replicate (33 - m) 0 @ take m s = 0 # scalar_get_b32_4x64 x"
  proof (rule be_val_inject [THEN iffD1])
    show "length (replicate (33 - m) 0 @ take m s) = length (0 # scalar_get_b32_4x64 x)"
      using m(3) \<open>m \<le> 33\<close> by (simp add: scalar_get_b32_correct)
    show "be_val (replicate (33 - m) 0 @ take m s) = be_val (0 # scalar_get_b32_4x64 x)"
      using v by (simp add: be_val_zeros w be_val_Cons scalar_get_b32_correct)
  qed
  then have "der_int x = der_trim (replicate (33 - m) 0 @ take m s)" by (simp add: der_int_def)
  also have "\<dots> = take m s"
    using m s0 e(5) by (intro der_trim_minimal) (auto simp: and_0x80)
  finally have d: "der_int x = take m s" .
  moreover have "rest = drop m s" using e(7) z(1,2) by simp
  ultimately show ?thesis using m by (simp add: e(1) t)
qed

lemma der_parse_integer_ok:
  assumes "der_parse_integer r sig = Some (True, x, rest)"
  shows "scalar_ok x"
proof -
  obtain n s k u where n: "0 < n" "n \<le> int (length s)" "der_skip_zeros (nat n) s = Some (k, u)"
    "x = scalar_set_int_4x64 0 \<or> k \<le> 32 \<and> scalar_set_b32_4x64 (replicate (32 - k) 0 @ take k u) = (0, x)"
    using assms by (rule der_parse_integerE) blast
  have "k \<le> length u" using der_skip_zeros_spec [of "nat n" s] n(1-3) by fastforce
  then show ?thesis using n(4) set_b32_ok(2) scalar_val_zero by (auto simp: scalar_ok_def order_n_def)
qed

lemma ecdsa_sig_parseE:
  assumes "ecdsa_sig_parse rr rs sig = Some (True, r, s)"
  obtains t u where "sig = 0x30 # t" "der_read_len t = Some (int (length u), u)" "\<exists>v. der_parse_integer rr u = Some (True, r, v) \<and>
    der_parse_integer rs v = Some (True, s, [])"
  using assms by (cases sig) (auto simp: ecdsa_sig_parse_def deref_def split: if_splits bind_splits)

lemma ecdsa_sig_parse_inverse:
  assumes "ecdsa_sig_parse rr rs sig = Some (True, r, s)" "scalar_val r \<noteq> 0" "scalar_val s \<noteq> 0" "length sig < 2 ^ 31"
  shows "sig = der_sig r s"
proof -
  obtain t u v where e: "sig = 0x30 # t" "der_read_len t = Some (int (length u), u)" "der_parse_integer rr u = Some (True, r, v)"
    "der_parse_integer rs v = Some (True, s, [])" using assms(1) by (rule ecdsa_sig_parseE) blast
  have "length u \<le> length t" by (rule der_read_len_suffix [OF e(2)])
  then have l: "length u < 2 ^ 31" "length t < 2 ^ 31" using assms(4) e(1) by simp_all
  have u: "u = 0x02 # of_nat (length (der_int r)) # der_int r @ v" by (rule der_parse_integer_inverse [OF e(3) assms(2) l(1)])
  moreover have "v = 0x02 # of_nat (length (der_int s)) # der_int s @ []"
    using l(1) by (intro der_parse_integer_inverse [OF e(4) assms(3)]) (simp add: u)
  ultimately have u: "u = 0x02 # of_nat (length (der_int r)) # der_int r @ 0x02 # of_nat (length (der_int s)) # der_int s" by simp
  then have "t = of_int (int (length u)) # u"
    using der_int_spec(2) [of r] der_int_spec(2) [of s] by (intro der_read_len_inverse [OF e(2)] l) simp_all
  then show ?thesis by (simp add: e(1) der_sig_def u)
qed

subsection \<open>Properties\<close>

text \<open>C39: whatever the input, the signature parser reads only inside the buffer and returns, and
  the two scalars it returns with success are reduced.\<close>

theorem ecdsa_sig_parse_safe_spec:
  "\<exists>ok r s. ecdsa_sig_parse rr rs sig = Some (ok, r, s) \<and> (ok \<longrightarrow> scalar_ok r \<and> scalar_ok s)"
proof -
  obtain ok r s where e: "ecdsa_sig_parse rr rs sig = Some (ok, r, s)" using ecdsa_sig_parse_safe [of rr rs sig] by auto
  moreover have "scalar_ok r \<and> scalar_ok s" if "ok"
    using ecdsa_sig_parseE [of rr rs sig r s] e that by (metis der_parse_integer_ok)
  ultimately show ?thesis by blast
qed

theorem ecdsa_sig_parse_safe_spec_witness:
  "\<exists>ok r s. ecdsa_sig_parse (Scalar4 0 0 0 0) (Scalar4 0 0 0 0) [0x30, 6, 2, 1, 5, 2, 1, 7] = Some (ok, r, s) \<and> ok \<and> scalar_ok r \<and> scalar_ok s"
proof -
  have ok: "scalar_ok (Scalar4 5 0 0 0)" "scalar_ok (Scalar4 7 0 0 0)"
    by (simp_all add: scalar_ok_def scalar_val_def scalar_limbs_def limbs_val_Cons order_n_def)
  have "der_sig (Scalar4 5 0 0 0) (Scalar4 7 0 0 0) = [0x30, 6, 2, 1, 5, 2, 1, 7]"
    by (simp add: der_sig_def der_int_def scalar_get_b32_4x64_def write_be64_def)
  then show ?thesis
    using ecdsa_sig_parse_safe_spec [of "Scalar4 0 0 0 0" "Scalar4 0 0 0 0" "[0x30, 6, 2, 1, 5, 2, 1, 7]"] ecdsa_sig_parse_der [OF ok, of "Scalar4 0 0 0 0" "Scalar4 0 0 0 0"] by auto
qed

text \<open>C34: the parser accepts exactly one encoding of every signature: it reads the canonical encoding
  back, and an input below 2^31 bytes that it accepts with two nonzero components is their canonical encoding.\<close>

theorem ecdsa_sig_parse_strict:
  assumes "scalar_ok r" "scalar_ok s" "scalar_val r \<noteq> 0" "scalar_val s \<noteq> 0" "length sig < 2 ^ 31"
  shows "ecdsa_sig_parse rr rs sig = Some (True, r, s) \<longleftrightarrow> sig = der_sig r s"
  using ecdsa_sig_parse_inverse [of rr rs sig r s] ecdsa_sig_parse_der [OF assms(1,2)] assms(3-5) by blast

theorem ecdsa_sig_parse_strict_witness:
  "ecdsa_sig_parse (Scalar4 0 0 0 0) (Scalar4 0 0 0 0) [0x30, 6, 2, 1, 5, 2, 1, 7] = Some (True, Scalar4 5 0 0 0, Scalar4 7 0 0 0) \<longleftrightarrow>
    [0x30, 6, 2, 1, 5, 2, 1, 7] = der_sig (Scalar4 5 0 0 0) (Scalar4 7 0 0 0)"
  by (rule ecdsa_sig_parse_strict) (simp_all add: scalar_ok_def scalar_val_def scalar_limbs_def limbs_val_Cons order_n_def)

text \<open>The serializer writes the canonical encoding, of at most 72 bytes, at the start of
  the buffer and leaves the rest alone, or reports the size it needs and writes nothing; what it writes parses back to the
  same scalars.\<close>

theorem ecdsa_sig_serialize_roundtrip:
  assumes "scalar_ok r" "scalar_ok s" "length sig = cap"
  shows "case ecdsa_sig_serialize sig cap r s of (ok, sig', n) \<Rightarrow>
    n = length (der_sig r s) \<and> n \<le> 72 \<and> ok = (n \<le> cap) \<and>
    (if ok then take n sig' = der_sig r s \<and> drop n sig' = drop n sig \<and>
       ecdsa_sig_parse rr rs (take n sig') = Some (True, r, s)
     else sig' = sig)"
proof -
  have "length (der_sig r s) \<le> 72" using der_int_spec(2) [of r] der_int_spec(2) [of s] by (simp add: der_sig_def)
  then show ?thesis
    by (simp add: ecdsa_sig_serialize_eq [OF assms(3)] ecdsa_sig_parse_der [OF assms(1,2)] not_less)
qed

theorem ecdsa_sig_serialize_roundtrip_witness:
  "ecdsa_sig_parse (Scalar4 0 0 0 0) (Scalar4 0 0 0 0) (take 8 (fst (snd (ecdsa_sig_serialize (replicate 10 0) 10 (Scalar4 5 0 0 0) (Scalar4 7 0 0 0))))) =
    Some (True, Scalar4 5 0 0 0, Scalar4 7 0 0 0)"
proof -
  have ok: "scalar_ok (Scalar4 5 0 0 0)" "scalar_ok (Scalar4 7 0 0 0)"
    by (simp_all add: scalar_ok_def scalar_val_def scalar_limbs_def limbs_val_Cons order_n_def)
  have "length (der_sig (Scalar4 5 0 0 0) (Scalar4 7 0 0 0)) = 8"
    by (simp add: der_sig_def der_int_def scalar_get_b32_4x64_def write_be64_def)
  then show ?thesis
    using ecdsa_sig_serialize_roundtrip [OF ok, of "replicate 10 0" 10 "Scalar4 0 0 0 0" "Scalar4 0 0 0 0"] by (auto split: prod.splits if_splits)
qed

end
