(* ===== verification/Wnaf.thy ===== *)
theory Wnaf
  imports Scalar_4x64
begin

text \<open>
  Signed digit recodings of a scalar: the windowed non-adjacent form of \<open>ecmult_impl.h\<close> and the fixed-length form with
  odd digits of \<open>ecmult_const_impl.h\<close>. Both work on any representation of scalars through the operations of
  \<open>scalar.h\<close> collected in \<open>digit_ops\<close>; the locale \<open>scalar_digits\<close> states what they rely on, and the 4x64 scalars
  interpret it. A digit array is a list of integers, its value \<open>digit_sum\<close>.
\<close>

subsection \<open>The recodings\<close>

record 's digit_ops =
  dg_get_bits :: "'s \<Rightarrow> u32 \<Rightarrow> u32 \<Rightarrow> u32"
  dg_get_bits_var :: "'s \<Rightarrow> u32 \<Rightarrow> u32 \<Rightarrow> u32"
  dg_shr_int :: "'s \<Rightarrow> u32 \<Rightarrow> u32 \<times> 's"
  dg_negate :: "'s \<Rightarrow> 's"
  dg_cond_negate :: "'s \<Rightarrow> u32 \<Rightarrow> u32 \<times> 's"
  dg_cadd_bit :: "'s \<Rightarrow> u32 \<Rightarrow> u32 \<Rightarrow> 's"
  dg_is_high :: "'s \<Rightarrow> u32"
  dg_is_even :: "'s \<Rightarrow> bool"
  dg_is_one :: "'s \<Rightarrow> bool"

text \<open>The loop of \<open>secp256k1_ecmult_wnaf\<close> (ecmult_impl.h 254--276). Its step is at least one bit when \<open>w\<close> is positive;
  for \<open>w = 0\<close>, which the source excludes, it would not end, which is \<open>None\<close>.\<close>

partial_function (option) ecmult_wnaf_loop ::
  "'s digit_ops \<Rightarrow> 's \<Rightarrow> nat \<Rightarrow> nat \<Rightarrow> int \<Rightarrow> nat \<Rightarrow> int \<Rightarrow> int \<Rightarrow> int list \<Rightarrow> (int list \<times> int) option" where
  "ecmult_wnaf_loop ops s len w sign pos carry last_set_bit wnaf =
    (if pos < len
     then if uint (dg_get_bits ops s (of_nat pos) 1) = carry
          then ecmult_wnaf_loop ops s len w sign (pos + 1) carry last_set_bit wnaf
          else
            let now = w;
                now = (if now > len - pos then len - pos else now);
                wd = uint (dg_get_bits_var ops s (of_nat pos) (of_nat now)) + carry;
                carry = wd div 2 ^ (w - 1) mod 2;
                wd = wd - carry * 2 ^ w;
                wnaf = wnaf[pos := sign * wd];
                last_set_bit = int pos
            in ecmult_wnaf_loop ops s len w sign (pos + now) carry last_set_bit wnaf
     else Some (wnaf, last_set_bit))"

definition ecmult_wnaf :: "'s digit_ops \<Rightarrow> nat \<Rightarrow> 's \<Rightarrow> nat \<Rightarrow> (int list \<times> int) option" where
  "ecmult_wnaf ops len a w =
    (let s = a;
         last_set_bit = - 1;
         pos = 0;
         sign = 1;
         carry = 0;
         wnaf = replicate len 0;
         (s, sign) = (if dg_get_bits ops s 255 1 \<noteq> 0 then (dg_negate ops s, - 1) else (s, sign))
     in map_option (\<lambda>(wnaf, last_set_bit). (wnaf, last_set_bit + 1)) (ecmult_wnaf_loop ops s len w sign pos carry last_set_bit wnaf))"

text \<open>\<open>secp256k1_wnaf_const\<close> (ecmult_const_impl.h 52--122), its sign handling and its loop. The loop runs at least once; with \<open>w = 0\<close> it would not end.\<close>

partial_function (option) wnaf_const_loop ::
  "'s digit_ops \<Rightarrow> nat \<Rightarrow> nat \<Rightarrow> int \<Rightarrow> 's \<Rightarrow> int \<Rightarrow> nat \<Rightarrow> int list \<Rightarrow> (int list \<times> nat \<times> int) option" where
  "wnaf_const_loop ops w sz global_sign s u_last wd wnaf =
    (let us = dg_shr_int ops s (of_nat w);
         s = snd us;
         u = uint (fst us);
         ev = of_bool (u mod 2 = 0);
         sign = 2 * of_bool (u_last > 0) - 1;
         u = u + sign * ev;
         u_last = u_last - sign * ev * 2 ^ w;
         wnaf = wnaf[wd := u_last * global_sign];
         wd = wd + 1;
         u_last = u
     in if wd * w < sz then wnaf_const_loop ops w sz global_sign s u_last wd wnaf
        else Some (wnaf, wd, u))"

definition wnaf_const_setup :: "'s digit_ops \<Rightarrow> 's \<Rightarrow> bool \<Rightarrow> 's \<times> nat \<times> int" where
  "wnaf_const_setup ops s maybe_negative =
    (if maybe_negative
     then let flip = dg_is_high ops s;
              k = flip XOR of_bool (\<not> dg_is_even ops s);
              neg_s = dg_negate ops s;
              not_neg_one = of_bool (\<not> dg_is_one ops neg_s);
              s = dg_cadd_bit ops s k not_neg_one;
              (global_sign, s) = dg_cond_negate ops s flip;
              global_sign = sint global_sign * (sint not_neg_one * 2 - 1)
          in (s, 2 ^ unat k, global_sign)
     else let k = of_bool (\<not> dg_is_even ops s);
              s = dg_cadd_bit ops s k 1
          in (s, 2 ^ unat k, 1))"

definition wnaf_const :: "'s digit_ops \<Rightarrow> int list \<Rightarrow> 's \<Rightarrow> nat \<Rightarrow> nat \<Rightarrow> bool \<Rightarrow> (int list \<times> nat) option" where
  "wnaf_const ops wnaf s w sz maybe_negative =
    (let (s, skew, global_sign) = wnaf_const_setup ops s maybe_negative;
         (u_last, s) = dg_shr_int ops s (of_nat w)
     in case wnaf_const_loop ops w sz global_sign s (uint u_last) 0 wnaf of
          None \<Rightarrow> None
        | Some (wnaf, wd, u) \<Rightarrow> Some (wnaf[wd := u * global_sign], skew))"

subsection \<open>The windowed form\<close>

primrec digit_sum :: "nat \<Rightarrow> int list \<Rightarrow> int" where
  "digit_sum k [] = 0"
| "digit_sum k (d # ds) = d + 2 ^ k * digit_sum k ds"

lemma digit_sum_replicate [simp]: "digit_sum k (replicate n 0) = 0"
  by (induction n) simp_all

lemma digit_sum_update: "i < length ds \<Longrightarrow> digit_sum k (ds[i := x]) = digit_sum k ds + 2 ^ (k * i) * (x - ds ! i)"
proof (induction ds arbitrary: i)
  case (Cons d ds)
  show ?case
  proof (cases i)
    case (Suc j)
    then have "digit_sum k (ds[j := x]) = digit_sum k ds + 2 ^ (k * j) * (x - ds ! j)" using Cons by simp
    then show ?thesis by (simp add: Suc) (simp add: algebra_simps power_add)
  qed simp
qed simp

definition wnaf_digits :: "nat \<Rightarrow> int list \<Rightarrow> bool" where
  "wnaf_digits w ds \<longleftrightarrow> (\<forall>i<length ds. ds ! i \<noteq> 0 \<longrightarrow> odd (ds ! i) \<and> \<bar>ds ! i\<bar> < 2 ^ (w - 1)) \<and>
    (\<forall>i j. i < j \<and> j < length ds \<and> ds ! i \<noteq> 0 \<and> ds ! j \<noteq> 0 \<longrightarrow> i + w \<le> j)"

definition wnaf_inv :: "int \<Rightarrow> nat \<Rightarrow> nat \<Rightarrow> int \<Rightarrow> nat \<Rightarrow> int \<Rightarrow> int \<Rightarrow> int list \<Rightarrow> bool" where
  "wnaf_inv s len w sign pos carry lst ds \<longleftrightarrow> length ds = len \<and> pos \<le> len \<and>
    (carry = 0 \<or> carry = 1 \<and> 0 < pos \<and> odd (s div 2 ^ (pos - 1))) \<and>
    sign * digit_sum 1 ds + 2 ^ pos * (s div 2 ^ pos + carry) = s \<and> wnaf_digits w ds \<and>
    (\<forall>i<len. ds ! i \<noteq> 0 \<longrightarrow> i < pos \<and> (i + w \<le> pos \<or> pos = len) \<and> int i \<le> lst) \<and> - 1 \<le> lst \<and> lst < int len"

lemma wnaf_inv_skip:
  assumes "wnaf_inv s len w sign pos carry lst ds" "pos < len" "s div 2 ^ pos mod 2 = carry"
  shows "wnaf_inv s len w sign (pos + 1) carry lst ds"
proof -
  define q where "q = s div 2 ^ pos div 2"
  have q: "s div 2 ^ (pos + 1) = q" "s div 2 ^ pos = 2 * q + carry"
    using assms(3) mult_div_mod_eq [of 2 "s div 2 ^ pos"] zdiv_zmult2_eq [of 2 s "2 ^ pos"] by (simp_all add: q_def mult.commute)
  note i = assms(1) [unfolded wnaf_inv_def q(2)]
  have "sign * digit_sum 1 ds + 2 ^ (pos + 1) * (q + carry) = sign * digit_sum 1 ds + 2 ^ pos * (2 * q + carry + carry)"
    by (simp add: algebra_simps)
  then have v: "sign * digit_sum 1 ds + 2 ^ (pos + 1) * (q + carry) = s" using i by (simp only: simp_thms)
  have "carry = 1 \<Longrightarrow> odd (s div 2 ^ pos)" using assms(3) by presburger
  moreover have "carry = 0 \<or> carry = 1" using i by blast
  ultimately have c: "carry = 0 \<or> carry = 1 \<and> 0 < pos + 1 \<and> odd (s div 2 ^ (pos + 1 - 1))" by auto
  have z: "\<forall>i<len. ds ! i \<noteq> 0 \<longrightarrow> i < pos + 1 \<and> (i + w \<le> pos + 1 \<or> pos + 1 = len) \<and> int i \<le> lst" using i assms(2) by fastforce
  have "length ds = len" "pos + 1 \<le> len" "wnaf_digits w ds" "- 1 \<le> lst" "lst < int len" using i assms(2) by auto
  then show ?thesis unfolding wnaf_inv_def q(1) using v c z by blast
qed

lemma wnaf_digit_bounds:
  fixes m carry :: int
  assumes "0 < now" "now \<le> w" "2 \<le> w" "0 \<le> m" "m < 2 ^ now" "carry = 0 \<or> carry = 1" "m mod 2 \<noteq> carry"
  defines "wd \<equiv> m + carry" and "c \<equiv> (m + carry) div 2 ^ (w - 1) mod 2"
  shows "odd (wd - c * 2 ^ w)" "\<bar>wd - c * 2 ^ w\<bar> < 2 ^ (w - 1)" "c = 0 \<or> c = 1 \<and> now = w \<and> odd (m div 2 ^ (w - 1))"
proof -
  define h :: int where "h = 2 ^ (w - 1)"
  have h: "0 < h" "even h" "2 ^ w = 2 * h"
    using assms(3) power_Suc [of 2 "w - 1"] by (simp_all add: h_def)
  have odd: "odd wd" using assms(6,7) by (auto simp: wd_def)
  define k :: int where "k = 2 ^ (now - 1)"
  have k: "2 ^ now = 2 * k" using assms(1) power_Suc [of 2 "now - 1"] by (simp add: k_def)
  have "m + carry < 2 * k"
  proof (cases "carry = 0")
    case False
    then have "carry = 1" "even m" using assms(6,7) by (auto simp: even_iff_mod_2_eq_zero)
    then show ?thesis using assms(5) unfolding k by (auto elim!: evenE)
  qed (use assms(5) k in simp)
  then have "m + carry < 2 ^ now" by (simp only: k)
  then have wd: "0 \<le> wd" "wd < 2 ^ now" using assms(4,6) by (auto simp: wd_def)
  have le: "(2 :: int) ^ now \<le> 2 * h" using assms(2) by (simp add: h(3) [symmetric])
  have c_h: "c = wd div h mod 2" by (simp only: c_def h_def wd_def)
  show o: "odd (wd - c * 2 ^ w)" using odd by (simp add: h)
  show "\<bar>wd - c * 2 ^ w\<bar> < 2 ^ (w - 1)" "c = 0 \<or> c = 1 \<and> now = w \<and> odd (m div 2 ^ (w - 1))"
  proof -
    consider "wd < h" | "h < wd" using odd h(2) by (metis linorder_neqE_linordered_idom)
    then have "\<bar>wd - c * (2 * h)\<bar> < h \<and> (c = 0 \<or> c = 1 \<and> now = w \<and> odd (m div h))"
    proof cases
      case 1
      then have "c = 0" using wd by (simp add: c_h)
      then show ?thesis using 1 wd by simp
    next
      case 2
      have "wd div h = 1" using 2 wd le h(1) by (simp add: div_pos_geq div_pos_pos_trivial)
      then have c: "c = 1" by (simp add: c_h)
      have "now = w"
      proof (rule ccontr)
        assume "now \<noteq> w"
        then have "(2 :: int) ^ now \<le> h" using assms(2) by (simp add: h_def)
        then show False using 2 wd by simp
      qed
      moreover have "m div h = 1"
        using 2 wd le h(1) assms(6) by (auto simp: wd_def div_pos_geq div_pos_pos_trivial)
      ultimately show ?thesis using 2 wd le c by simp
    qed
    then show "\<bar>wd - c * 2 ^ w\<bar> < 2 ^ (w - 1)" "c = 0 \<or> c = 1 \<and> now = w \<and> odd (m div 2 ^ (w - 1))"
      unfolding h(3) h_def [symmetric] by auto
  qed
qed

lemma wnaf_inv_digit:
  assumes "wnaf_inv s len w sign pos carry lst ds" "pos < len" "s div 2 ^ pos mod 2 \<noteq> carry" "2 \<le> w" "sign * sign = 1"
    and "now = (if w > len - pos then len - pos else w)" "wd = s div 2 ^ pos mod 2 ^ now + carry" "c = wd div 2 ^ (w - 1) mod 2"
  shows "wnaf_inv s len w sign (pos + now) c (int pos) (ds[pos := sign * (wd - c * 2 ^ w)])"
proof -
  define m where "m = s div 2 ^ pos mod 2 ^ now"
  define q where "q = s div 2 ^ pos div 2 ^ now"
  define d where "d = wd - c * 2 ^ w"
  note i = assms(1) [unfolded wnaf_inv_def]
  have now: "0 < now" "now \<le> w" "pos + now \<le> len" "now = w \<or> pos + now = len" using assms(2,4,6) by (auto split: if_splits)
  have m: "0 \<le> m" "m < 2 ^ now" "m mod 2 \<noteq> carry" "wd = m + carry"
    using assms(3,7) now(1) by (simp_all add: m_def mod_mod_cancel)
  note b = wnaf_digit_bounds [OF now(1,2) assms(4) m(1,2) _ m(3), folded m(4), folded assms(8) d_def]
  have c01: "carry = 0 \<or> carry = 1" using i by blast
  note b = b [OF this]
  have s: "s div 2 ^ (pos + now) = q" "s div 2 ^ pos = 2 ^ now * q + m"
    by (simp_all add: q_def m_def power_add zdiv_zmult2_eq)
  have sum: "2 ^ pos * d + 2 ^ (pos + now) * (q + c) = 2 ^ pos * (2 ^ now * q + m + carry)"
    using b(3) by (auto simp: d_def m(4) power_add algebra_simps)
  have z: "ds ! pos = 0" using i assms(2) by auto
  have "sign * digit_sum 1 (ds[pos := sign * d]) = sign * digit_sum 1 ds + (sign * sign) * (2 ^ pos * d)"
    using i assms(2) by (simp add: digit_sum_update z algebra_simps)
  moreover have "sign * digit_sum 1 ds + 2 ^ pos * (2 ^ now * q + m + carry) = s" using i unfolding s(2) by blast
  ultimately have v: "sign * digit_sum 1 (ds[pos := sign * d]) + 2 ^ (pos + now) * (q + c) = s"
    using sum unfolding assms(5) by linarith
  have sg: "\<bar>sign\<bar> = 1" "odd sign" using assms(5) by (auto simp: zmult_eq_1_iff)
  have c: "c = 0 \<or> c = 1 \<and> 0 < pos + now \<and> odd (s div 2 ^ (pos + now - 1))"
  proof -
    have "s div 2 ^ (pos + w - 1) mod 2 = m div 2 ^ (w - 1) mod 2" if "now = w"
    proof -
      have "s div 2 ^ (pos + w - 1) = s div 2 ^ pos div 2 ^ (w - 1)"
        using assms(4) zdiv_zmult2_eq [of "2 ^ (w - 1)" s "2 ^ pos"] by (simp flip: power_add)
      also have "s div 2 ^ pos = m + q * 2 * 2 ^ (w - 1)"
        using assms(4) power_Suc [of "2 :: int" "w - 1"] by (simp add: s(2) that)
      also have "\<dots> div 2 ^ (w - 1) = q * 2 + m div 2 ^ (w - 1)" by simp
      finally show ?thesis by simp
    qed
    then show ?thesis using b(3) now(1) by (auto simp: odd_iff_mod_2_eq_one)
  qed
  have pos: "i < pos \<and> i + w \<le> pos \<and> int i \<le> lst" if "i < len" "ds ! i \<noteq> 0" for i using i that assms(2) by auto
  have l: "length ds = len" using i by blast
  have dg: "wnaf_digits w (ds[pos := sign * d])"
    unfolding wnaf_digits_def
  proof (intro conjI allI impI)
    fix j assume "j < length (ds[pos := sign * d])" "ds[pos := sign * d] ! j \<noteq> 0"
    then show "odd (ds[pos := sign * d] ! j)" "\<bar>ds[pos := sign * d] ! j\<bar> < 2 ^ (w - 1)"
      using i b(1,2) sg by (cases "j = pos"; simp add: abs_mult wnaf_digits_def)+
  next
    fix j k assume "j < k \<and> k < length (ds[pos := sign * d]) \<and> ds[pos := sign * d] ! j \<noteq> 0 \<and> ds[pos := sign * d] ! k \<noteq> 0"
    then show "j + w \<le> k"
      using i pos [of j] pos [of k] l by (cases "k = pos"; cases "j = pos") (auto simp: nth_list_update wnaf_digits_def)
  qed
  have "pos < pos + now" "int pos < int len" using now assms(2) by simp_all
  then have "\<forall>i<len. ds[pos := sign * d] ! i \<noteq> 0 \<longrightarrow> i < pos + now \<and> (i + w \<le> pos + now \<or> pos + now = len) \<and> int i \<le> int pos"
    using pos now(4) l by (fastforce simp: nth_list_update)
  then show ?thesis
    unfolding wnaf_inv_def d_def [symmetric] s(1) using l now(3) c v dg assms(2) by simp
qed

lemma wnaf_inv_end:
  assumes "wnaf_inv s len w sign len carry lst ds" "0 \<le> s" "s < 2 ^ (len - 1)" 
  shows "sign * digit_sum 1 ds = s"
proof -
  have "carry = 0" using assms by (auto simp: wnaf_inv_def)
  moreover have "s < 2 ^ len" by (rule order.strict_trans2 [OF assms(3) power_increasing]) simp_all
  ultimately show ?thesis using assms(1,2) by (simp add: wnaf_inv_def)
qed

subsection \<open>The fixed-length form\<close>

lemma digit_sum_append: "digit_sum k (xs @ ys) = digit_sum k xs + 2 ^ (k * length xs) * digit_sum k ys"
  by (induction xs) (simp_all add: power_add algebra_simps)

lemma take_Suc_update: "n < length xs \<Longrightarrow> take (Suc n) (xs[n := x]) = take n xs @ [x]"
  by (simp add: take_Suc_conv_app_nth)

definition odd_digit :: "nat \<Rightarrow> int \<Rightarrow> bool" where
  "odd_digit w d \<longleftrightarrow> odd d \<and> \<bar>d\<bar> < 2 ^ w"

lemma odd_digit_step:
  assumes "0 < w" "odd_digit w l" "ev = of_bool (S mod 2 ^ w mod 2 = 0)" "sign = 2 * of_bool (l > 0) - 1"
  defines "u \<equiv> S mod 2 ^ w + sign * ev" and "l' \<equiv> l - sign * ev * 2 ^ w"
  shows "odd_digit w u" "odd_digit w l'" "l' + 2 ^ w * (u + 2 ^ w * (S div 2 ^ w)) = l + 2 ^ w * S"
proof -
  have e: "even (2 ^ w :: int)" using assms(1) by simp
  define r where "r = S mod 2 ^ w"
  have r: "0 \<le> r" "r < 2 ^ w" by (simp_all add: r_def)
  have l: "odd l" "\<bar>l\<bar> < 2 ^ w" "l \<noteq> 0" using assms(2) by (auto simp: odd_digit_def)
  have sg: "sign = (if 0 < l then 1 else - 1)" using assms(4) by simp
  have ev: "ev = (if even r then 1 else 0)" using assms(3) by (simp add: r_def even_iff_mod_2_eq_zero)
  have "even r \<Longrightarrow> r + 1 < 2 ^ w" using r(2) e by (metis add_le_cancel_right even_plus_one_iff less_le zle_add1_eq_le zless_imp_add1_zle)
  then show "odd_digit w u" using r ev sg by (auto simp: u_def r_def [symmetric] odd_digit_def)
  show "odd_digit w l'" using l e ev sg by (auto simp: l'_def odd_digit_def)
  have S: "S = 2 ^ w * (S div 2 ^ w) + r" by (simp add: r_def)
  have "l' + 2 ^ w * (u + 2 ^ w * (S div 2 ^ w)) = l + 2 ^ w * (2 ^ w * (S div 2 ^ w) + r)"
    by (simp add: u_def l'_def r_def [symmetric] algebra_simps)
  then show "l' + 2 ^ w * (u + 2 ^ w * (S div 2 ^ w)) = l + 2 ^ w * S" using S by simp
qed

definition wnaf_const_inv :: "nat \<Rightarrow> nat \<Rightarrow> int \<Rightarrow> int \<Rightarrow> int \<Rightarrow> nat \<Rightarrow> int \<Rightarrow> int \<Rightarrow> int list \<Rightarrow> bool" where
  "wnaf_const_inv w N gs t S0 wd l S ds \<longleftrightarrow> length ds = Suc N \<and> wd \<le> N \<and> odd_digit w l \<and> 0 \<le> S \<and> S * 2 ^ (w * wd) \<le> S0 \<and>
    gs * digit_sum w (take wd ds) + 2 ^ (w * wd) * (l + 2 ^ w * S) = t \<and> (\<forall>i<wd. odd_digit w (ds ! i))"

lemma odd_digit_sign: "gs * gs = 1 \<Longrightarrow> odd_digit w d \<Longrightarrow> odd_digit w (d * gs)"
  by (auto simp: zmult_eq_1_iff odd_digit_def)

lemma wnaf_const_inv_step:
  assumes "wnaf_const_inv w N gs t S0 wd l S ds" "wd < N" "0 < w" "gs * gs = 1"
    and "ev = of_bool (S mod 2 ^ w mod 2 = 0)" "sign = 2 * of_bool (l > 0) - 1"
  shows "wnaf_const_inv w N gs t S0 (wd + 1) (S mod 2 ^ w + sign * ev) (S div 2 ^ w) (ds[wd := (l - sign * ev * 2 ^ w) * gs])"
proof -
  note i = assms(1) [unfolded wnaf_const_inv_def]
  have l: "odd_digit w l" using i by blast
  note st = odd_digit_step [OF assms(3) l assms(5,6)]
  let ?l = "l - sign * ev * 2 ^ w" and ?u = "S mod 2 ^ w + sign * ev"
  have w: "wd < length ds" using i assms(2) by simp
  have "gs * digit_sum w (take (wd + 1) (ds[wd := ?l * gs])) = gs * digit_sum w (take wd ds) + (gs * gs) * (2 ^ (w * wd) * ?l)"
    using w by (simp add: take_Suc_update digit_sum_append algebra_simps)
  moreover have p: "2 ^ (w * (wd + 1)) = (2 ^ (w * wd) * 2 ^ w :: int)" by (simp add: power_add)
  ultimately have "gs * digit_sum w (take (wd + 1) (ds[wd := ?l * gs])) + 2 ^ (w * (wd + 1)) * (?u + 2 ^ w * (S div 2 ^ w)) =
      gs * digit_sum w (take wd ds) + 2 ^ (w * wd) * (?l + 2 ^ w * (?u + 2 ^ w * (S div 2 ^ w)))"
    unfolding assms(4) by (simp only: p distrib_left mult.assoc add.assoc mult_1)
  also have "\<dots> = t" unfolding st(3) using i by blast
  finally have v: "gs * digit_sum w (take (wd + 1) (ds[wd := ?l * gs])) + 2 ^ (w * (wd + 1)) * (?u + 2 ^ w * (S div 2 ^ w)) = t" .
  have "S div 2 ^ w * 2 ^ w \<le> S" by (simp add: div_mult_mod_eq [symmetric] minus_mod_eq_div_mult [symmetric])
  then have "S div 2 ^ w * 2 ^ w * 2 ^ (w * wd) \<le> S * 2 ^ (w * wd)" by (rule mult_right_mono) simp
  also have "S div 2 ^ w * 2 ^ w * 2 ^ (w * wd) = S div 2 ^ w * 2 ^ (w * (wd + 1))" by (simp add: power_add)
  finally have b: "S div 2 ^ w * 2 ^ (w * (wd + 1)) \<le> S0" using i by linarith
  have d: "\<forall>i<wd + 1. odd_digit w (ds[wd := ?l * gs] ! i)"
    using i w odd_digit_sign [OF assms(4) st(2)] by (auto simp: nth_list_update less_Suc_eq)
  show ?thesis
    unfolding wnaf_const_inv_def using v b d st(1) i assms(2) by (simp add: pos_imp_zdiv_nonneg_iff)
qed

subsection \<open>The interface\<close>

locale scalar_digits =
  fixes ops :: "'s digit_ops" and sval :: "'s \<Rightarrow> int"
  assumes sval_range: "0 \<le> sval a" "sval a < 2 ^ 256"
    and get_bits_val: "unat offset mod 32 + unat count \<le> 32 \<Longrightarrow> unat offset + unat count \<le> 256 \<Longrightarrow>
      uint (dg_get_bits ops a offset count) = sval a div 2 ^ unat offset mod 2 ^ unat count"
    and get_bits_var_val: "0 < unat count \<Longrightarrow> unat count < 32 \<Longrightarrow> unat offset + unat count \<le> 256 \<Longrightarrow>
      uint (dg_get_bits_var ops a offset count) = sval a div 2 ^ unat offset mod 2 ^ unat count"
    and shr_int_val: "0 < unat n \<Longrightarrow> unat n < 16 \<Longrightarrow> sval (snd (dg_shr_int ops a n)) = sval a div 2 ^ unat n \<and>
      uint (fst (dg_shr_int ops a n)) = sval a mod 2 ^ unat n"
    and negate_val: "sval a < order_n \<Longrightarrow> sval (dg_negate ops a) = (- sval a) mod order_n"
    and cond_negate: "dg_cond_negate ops a flag = (if flag = 0 then (1, a) else (- 1, dg_negate ops a))"
    and cadd_bit_val: "unat k < 256 \<Longrightarrow> flag = 0 \<or> flag = 1 \<Longrightarrow>
      sval (dg_cadd_bit ops a k flag) = (sval a + uint flag * 2 ^ unat k) mod 2 ^ 256"
    and is_high_val: "dg_is_high ops a = of_bool (order_n < 2 * sval a)"
    and is_even_val: "dg_is_even ops a \<longleftrightarrow> even (sval a)"
    and is_one_val: "dg_is_one ops a \<longleftrightarrow> sval a = 1"

definition digit_ops_4x64 :: "scalar_4x64 digit_ops" where
  "digit_ops_4x64 = \<lparr>dg_get_bits = scalar_get_bits_4x64, dg_get_bits_var = scalar_get_bits_var_4x64, dg_shr_int = scalar_shr_int_4x64,
     dg_negate = scalar_negate_4x64, dg_cond_negate = scalar_cond_negate_4x64, dg_cadd_bit = scalar_cadd_bit_4x64,
     dg_is_high = scalar_is_high_4x64, dg_is_even = scalar_is_even_4x64, dg_is_one = scalar_is_one_4x64\<rparr>"

context scalar_digits
begin

lemma unat_of_nat_small: "n < 2 ^ 32 \<Longrightarrow> unat (of_nat n :: u32) = n"
  by (simp add: unat_of_nat)

lemma wnaf_loop_spec:
  assumes "wnaf_inv (sval s) len w sign pos carry lst ds" "2 \<le> w" "w \<le> 31" "len \<le> 256" "sign * sign = 1"
  shows "\<exists>ds' lst' carry'. ecmult_wnaf_loop ops s len w sign pos carry lst ds = Some (ds', lst') \<and>
    wnaf_inv (sval s) len w sign len carry' lst' ds'"
  using assms(1)
proof (induction "len - pos" arbitrary: pos carry lst ds rule: less_induct)
  case less
  show ?case
  proof (cases "pos < len")
    case True
    have g: "uint (dg_get_bits ops s (of_nat pos) 1) = sval s div 2 ^ pos mod 2"
      using True assms(4) get_bits_val [of "of_nat pos" 1 s] by (simp add: unat_of_nat_small Suc_le_eq)
    show ?thesis
    proof (cases "sval s div 2 ^ pos mod 2 = carry")
      case eq: True
      have "wnaf_inv (sval s) len w sign (pos + 1) carry lst ds" using wnaf_inv_skip [OF less.prems True eq] .
      then show ?thesis using less.hyps [of "pos + 1"] True eq g by (subst ecmult_wnaf_loop.simps) simp
    next
      case ne: False
      define now where "now = (if w > len - pos then len - pos else w)"
      have now: "0 < now" "now < 32" "pos + now \<le> len" using True assms(2,3) by (auto simp: now_def)
      have v: "uint (dg_get_bits_var ops s (of_nat pos) (of_nat now)) = sval s div 2 ^ pos mod 2 ^ now"
        using get_bits_var_val [of "of_nat now" "of_nat pos" s] now assms(4) by (simp add: unat_of_nat_small)
      note st = wnaf_inv_digit [OF less.prems True ne assms(2,5) now_def refl refl]
      have "len - (pos + now) < len - pos" using now by simp
      from less.hyps [OF this st] show ?thesis
        using True ne by (subst ecmult_wnaf_loop.simps) (simp only: g if_True if_False Let_def now_def [symmetric] v)
    qed
  next
    case False
    then have "pos = len" using less.prems by (simp add: wnaf_inv_def)
    then show ?thesis using less.prems by (subst ecmult_wnaf_loop.simps) auto
  qed
qed

lemma ecmult_wnaf_val:
  assumes "sval a < order_n" "2 \<le> w" "w \<le> 30" "len \<le> 256"
    and v: "v = (if sval a < 2 ^ 255 then sval a else sval a - order_n)" "\<bar>v\<bar> < 2 ^ (len - 1)"
  shows "\<exists>ds n. ecmult_wnaf ops len a w = Some (ds, n) \<and> length ds = len \<and> digit_sum 1 ds = v \<and> wnaf_digits w ds \<and>
    0 \<le> n \<and> n \<le> int len \<and> (\<forall>i<len. n \<le> int i \<longrightarrow> ds ! i = 0)"
proof -
  define sn where "sn = (if sval a < 2 ^ 255 then (a, 1) else (dg_negate ops a, - 1 :: int))"
  obtain s sign where sn': "sn = (s, sign)" by (cases sn)
  have n: "2 ^ 255 < order_n" "order_n < 2 ^ 256" by (simp_all add: order_n_def)
  have s: "sval s = sign * v" "0 \<le> sign * v" "sign * sign = 1"
  proof -
    have "sval (dg_negate ops a) = order_n - sval a" if "2 ^ 255 \<le> sval a"
      using negate_val [OF assms(1)] assms(1) that by (simp add: zmod_zminus1_eq_if)
    then show "sval s = sign * v" "0 \<le> sign * v" "sign * sign = 1"
      using sn' assms(1) sval_range(1) [of a] by (auto simp: sn_def v(1) split: if_splits)
  qed
  then have less: "0 \<le> sval s" "sval s < 2 ^ (len - 1)" using v(2) by (auto simp: abs_mult zmult_eq_1_iff)
  have "uint (dg_get_bits ops a 255 1) = sval a div 2 ^ 255 mod 2" using get_bits_val [of 255 1 a] by simp
  also have "\<dots> = (if sval a < 2 ^ 255 then 0 else 1)"
    using assms(1) n sval_range [of a] by (simp add: div_pos_geq div_pos_pos_trivial)
  finally have b: "dg_get_bits ops a 255 1 \<noteq> 0 \<longleftrightarrow> \<not> sval a < 2 ^ 255" by (auto simp: uint_0_iff [symmetric] split: if_splits)
  have "wnaf_inv (sval s) len w sign 0 0 (- 1) (replicate len 0)"
    by (auto simp: wnaf_inv_def wnaf_digits_def)
  then obtain ds lst carry where r: "ecmult_wnaf_loop ops s len w sign 0 0 (- 1) (replicate len 0) = Some (ds, lst)"
      "wnaf_inv (sval s) len w sign len carry lst ds"
    using wnaf_loop_spec assms(2-4) s(3) by fastforce
  have "sign * digit_sum 1 ds = sign * v" using wnaf_inv_end [OF r(2) less] s(1) by simp
  then have "digit_sum 1 ds = v" using s(3) by auto
  moreover have "ecmult_wnaf ops len a w = Some (ds, lst + 1)"
    using r(1) sn' unfolding sn_def by (simp add: ecmult_wnaf_def b Let_def split: if_splits)
  moreover have "length ds = len" "wnaf_digits w ds" "0 \<le> lst + 1" "lst + 1 \<le> int len" "\<forall>i<len. lst + 1 \<le> int i \<longrightarrow> ds ! i = 0"
    using r(2) unfolding wnaf_inv_def by fastforce+
  ultimately show ?thesis by blast
qed

lemma wnaf_const_loop_spec:
  assumes "wnaf_const_inv w N gs t S0 wd l (sval s) ds" "wd * w < sz"
    and "0 < w" "w < 16" "gs * gs = 1" "N = (sz + w - 1) div w" "S0 < 2 ^ sz"
  shows "\<exists>ds' u. wnaf_const_loop ops w sz gs s l wd ds = Some (ds', N, u) \<and> wnaf_const_inv w N gs t S0 N u 0 ds'"
  using assms(1,2)
proof (induction "N - wd" arbitrary: wd l s ds rule: less_induct)
  case less
  have lt: "wd' < N \<longleftrightarrow> wd' * w < sz" for wd'
    using assms(3) by (simp add: assms(6) less_eq_Suc_le [of wd'] less_eq_div_iff_mult_less_eq) linarith
  let ?s = "snd (dg_shr_int ops s (of_nat w))"
  define ev :: int where "ev = of_bool (sval s mod 2 ^ w mod 2 = 0)"
  define sign :: int where "sign = 2 * of_bool (l > 0) - 1"
  have u: "sval ?s = sval s div 2 ^ w" "uint (fst (dg_shr_int ops s (of_nat w))) = sval s mod 2 ^ w"
    using shr_int_val [of "of_nat w" s] assms(3,4) by (simp_all add: unat_of_nat_small)
  have wd: "wd < N" using less.prems(2) lt by simp
  note st = wnaf_const_inv_step [OF less.prems(1) wd assms(3,5) ev_def sign_def]
  show ?case
  proof (cases "(wd + 1) * w < sz")
    case True
    have "N - (wd + 1) < N - wd" using wd by simp
    from less.hyps [OF this st [folded u(1)] True] True show ?thesis
      by (subst wnaf_const_loop.simps) (simp only: Let_def u ev_def [symmetric] sign_def [symmetric] if_True)
  next
    case False
    then have N: "wd + 1 = N" using lt [of "wd + 1"] wd by simp
    have "sz \<le> w * N" using False by (simp add: N [symmetric] mult.commute)
    then have "S0 < 2 ^ (w * N)" by (intro order.strict_trans2 [OF assms(7) power_increasing]) simp_all
    then have "sval s div 2 ^ w * 2 ^ (w * N) < 1 * 2 ^ (w * N)" "0 \<le> sval s div 2 ^ w"
      using st unfolding wnaf_const_inv_def N by (simp_all only: mult_1) linarith+
    then have "sval s div 2 ^ w = 0" by (simp only: mult_less_cancel_right) auto
    then show ?thesis using st False N
      by (subst wnaf_const_loop.simps) (simp only: Let_def u ev_def [symmetric] sign_def [symmetric] if_False, blast)
  qed
qed

lemma wnaf_const_setup_spec:
  assumes "sval a < order_n" "neg \<or> 2 * sval a \<le> order_n" "v = (if neg then signed_mod (sval a) else sval a)"
  shows "case wnaf_const_setup ops a neg of (s, skew, gs) \<Rightarrow> (skew = 1 \<or> skew = 2) \<and> gs * gs = 1 \<and> gs * sval s = v + int skew \<and>
    odd (sval s) \<and> sval s \<le> \<bar>v\<bar> + 2"
proof -
  have n: "odd order_n" "order_n < 2 ^ 256 - 2" "5 < order_n" by (simp_all add: order_n_def)
  have cadd: "sval (dg_cadd_bit ops a k f) = sval a + uint f * 2 ^ unat k" if "k = 0 \<or> k = 1" "f = 0 \<or> f = 1" for k f :: u32
    using cadd_bit_val [of k f a] that assms(1) n(2) sval_range(1) [of a] by auto
  show ?thesis
  proof (cases "neg \<and> order_n < 2 * sval a")
    case False
    have k: "(of_bool (\<not> dg_is_even ops a) :: u32) = (if even (sval a) then 0 else 1)" by (simp add: is_even_val)
    have z: "dg_is_high ops a = 0" if neg using False that by (simp add: is_high_val)
    have o: "\<not> dg_is_one ops (dg_negate ops a)" if neg
      using False that negate_val [OF assms(1)] n(3) assms(1) sval_range(1) [of a] by (auto simp: is_one_val zmod_zminus1_eq_if split: if_splits)
    have v: "v = sval a"
    proof -
      have "2 * sval a \<noteq> order_n" using n(1) by (metis dvd_triv_left)
      then show ?thesis using False assms(3) by (auto simp: signed_mod_def)
    qed
    show ?thesis
      using v z o sval_range(1) [of a]
      by (cases neg; cases "even (sval a)")
         (simp_all add: wnaf_const_setup_def Let_def k cadd cond_negate)
  next
    case True
    then have v: "v = sval a - order_n" "neg" using assms(3) by (auto simp: signed_mod_def)
    have h: "dg_is_high ops a = 1" using True by (simp add: is_high_val)
    have one: "dg_is_one ops (dg_negate ops a) \<longleftrightarrow> v = - 1"
      using negate_val [OF assms(1)] n(3) v assms(1) True by (auto simp: is_one_val zmod_zminus1_eq_if split: if_splits)
    define k :: u32 where "k = 1 XOR of_bool (\<not> dg_is_even ops a)"
    have k: "k = (if even v then 0 else 1)" using n(1) by (auto simp: k_def is_even_val v(1))
    define f :: u32 where "f = of_bool (v \<noteq> - 1)"
    define c where "c = dg_cadd_bit ops a k f"
    have v2: "even v \<Longrightarrow> v \<le> - 2" "v < 0" using v(1) assms(1) by presburger+
    have c: "sval c = sval a + uint f * 2 ^ unat k" unfolding c_def by (rule cadd) (simp_all add: k f_def)
    have cn: "sval c < order_n"
    proof -
      have "odd v \<Longrightarrow> v \<noteq> - 1 \<Longrightarrow> v \<le> - 3" using v2(2) by presburger
      then show ?thesis using c v v2 by (cases "v = - 1"; cases "even v"; simp add: f_def k)
    qed
    have "sval (dg_negate ops c) = order_n - sval c"
    proof -
      have "0 < sval c" using c True n(3) sval_range(1) [of a] uint_ge_0 [of f] by (smt (verit) zero_le_mult_iff zero_le_power)
      then show ?thesis using negate_val [OF cn] cn by (simp add: zmod_zminus1_eq_if)
    qed
    moreover have "wnaf_const_setup ops a neg = (dg_negate ops c, 2 ^ unat k, - (sint f * 2 - 1))"
      by (simp add: wnaf_const_setup_def Let_def v(2) h one cond_negate c_def k_def f_def)
    moreover have "v = - 1 \<Longrightarrow> sval a = order_n - 1" using v(1) by simp
    then have "v = - 1 \<Longrightarrow> even (sval a)" using n(1) by simp
    ultimately show ?thesis
      using c v v2 n(1) by (cases "v = - 1"; cases "even v"; simp add: k f_def)
  qed
qed

lemma wnaf_const_val:
  assumes "sval a < order_n" "0 < w" "w < 16" "0 < sz" "N = (sz + w - 1) div w" "length buf = Suc N"
    and "neg \<or> 2 * sval a \<le> order_n" "v = (if neg then signed_mod (sval a) else sval a)" "\<bar>v\<bar> + 2 < 2 ^ (sz + w)"
  shows "\<exists>ds skew. wnaf_const ops buf a w sz neg = Some (ds, skew) \<and> length ds = Suc N \<and> digit_sum w ds = v + int skew \<and>
    (skew = 1 \<or> skew = 2) \<and> (\<forall>d\<in>set ds. odd_digit w d)"
proof -
  obtain s skew gs where st: "wnaf_const_setup ops a neg = (s, skew, gs)" by (metis prod_cases3)
  have s: "skew = 1 \<or> skew = 2" "gs * gs = 1" "gs * sval s = v + int skew" "odd (sval s)" "sval s \<le> \<bar>v\<bar> + 2"
    using wnaf_const_setup_spec [OF assms(1,7,8)] by (simp_all add: st)
  obtain l s1 where sh: "dg_shr_int ops s (of_nat w) = (l, s1)" by fastforce
  have sv: "sval s1 = sval s div 2 ^ w" "uint l = sval s mod 2 ^ w"
    using shr_int_val [of "of_nat w" s] sh assms(2,3) by (simp_all add: unat_of_nat_small)
  have "sval s < 2 ^ sz * 2 ^ w" using s(5) assms(9) by (simp add: power_add)
  then have "sval s div 2 ^ w * 2 ^ w < 2 ^ sz * 2 ^ w" using div_mult_mod_eq [of "sval s" "2 ^ w"] pos_mod_sign [of "2 ^ w" "sval s"] zero_less_power [of "2 :: int" w] by linarith
  then have S0: "sval s1 < 2 ^ sz" by (simp add: sv(1))
  have "odd_digit w (sval s mod 2 ^ w)" using s(4) assms(2) by (simp add: odd_digit_def dvd_mod_iff)
  then have "wnaf_const_inv w N gs (sval s) (sval s1) 0 (uint l) (sval s1) buf"
    using sval_range(1) [of s1] assms(6) sv by (simp add: wnaf_const_inv_def)
  from wnaf_const_loop_spec [OF this _ assms(2,3) s(2) assms(5) S0]
  obtain ds u where r: "wnaf_const_loop ops w sz gs s1 (uint l) 0 buf = Some (ds, N, u)"
    "wnaf_const_inv w N gs (sval s) (sval s1) N u 0 ds" using assms(4) by auto
  have ds: "length ds = Suc N" "odd_digit w u" "gs * digit_sum w (take N ds) + 2 ^ (w * N) * u = sval s" "\<forall>i<N. odd_digit w (ds ! i)"
    using r(2) by (simp_all add: wnaf_const_inv_def)
  have e: "ds[N := u * gs] = take N ds @ [u * gs]" using ds(1) take_Suc_update [of N ds "u * gs"] by simp
  have "digit_sum w (ds[N := u * gs]) = digit_sum w (take N ds) + 2 ^ (w * N) * (u * gs)"
    using ds(1) by (simp add: e digit_sum_append)
  also have "\<dots> = gs * (gs * digit_sum w (take N ds) + 2 ^ (w * N) * u)" using s(2) by (auto simp: zmult_eq_1_iff)
  also have "\<dots> = v + int skew" using ds(3) s(3) by simp
  finally have "digit_sum w (ds[N := u * gs]) = v + int skew" .
  moreover have "\<forall>d\<in>set (ds[N := u * gs]). odd_digit w d"
    using ds odd_digit_sign [OF s(2) ds(2)] by (auto simp: e in_set_conv_nth)
  ultimately show ?thesis using s(1) ds(1) by (auto simp: wnaf_const_def st sh r(1))
qed

end

lemma get_bits_4x64:
  assumes "unat offset mod 32 + unat count \<le> 32" "unat offset + unat count \<le> 256"
  shows "uint (scalar_get_bits_4x64 a offset count) = scalar_val a div 2 ^ unat offset mod 2 ^ unat count"
proof -
  have "unat offset mod (32 * 2) = 32 * (unat offset div 32 mod 2) + unat offset mod 32" by (rule mod_mult2_eq)
  then have "unat offset mod 64 + unat count \<le> 64" "unat count \<le> 32" using assms(1) by simp_all
  then show ?thesis using scalar_get_bits_correct assms(2) by blast
qed

lemma is_high_4x64: "scalar_is_high_4x64 a = of_bool (order_n < 2 * scalar_val a)"
  unfolding scalar_is_high_iff half_order_def order_n_def by (rule arg_cong [where f = of_bool]) linarith

interpretation d4: scalar_digits digit_ops_4x64 scalar_val
  by unfold_locales
     (simp_all add: digit_ops_4x64_def scalar_val_bounds(1) scalar_val_bounds(2) [simplified] get_bits_4x64 scalar_get_bits_var_correct scalar_shr_int_correct
       scalar_negate_correct scalar_ok_def cond_negate_eq scalar_cadd_bit_correct is_high_4x64 scalar_is_even_iff is_one_iff)

subsection \<open>Properties\<close>

text \<open>C40: the recoding for variable-time multiplication ends; the digits sum up to the scalar, or to the scalar
  minus the group order when its top bit is set; every nonzero digit is odd and below 2^(w-1) in absolute value, two
  nonzero digits are at least w places apart, and the returned count is the position after the last one.\<close>

theorem ecmult_wnaf_spec:
  assumes "scalar_ok a" "2 \<le> w" "w \<le> 30" "len \<le> 256"
    and "v = (if scalar_val a < 2 ^ 255 then scalar_val a else scalar_val a - order_n)" "\<bar>v\<bar> < 2 ^ (len - 1)"
  shows "\<exists>ds n. ecmult_wnaf digit_ops_4x64 len a w = Some (ds, n) \<and> length ds = len \<and> digit_sum 1 ds = v \<and> wnaf_digits w ds \<and>
    0 \<le> n \<and> n \<le> int len \<and> (\<forall>i<len. n \<le> int i \<longrightarrow> ds ! i = 0)"
  using assms(1) by (intro d4.ecmult_wnaf_val [OF _ assms(2-6)]) (simp add: scalar_ok_def)

theorem ecmult_wnaf_spec_witness:
  "\<exists>ds n. ecmult_wnaf digit_ops_4x64 130 (Scalar4 23 0 0 0) 5 = Some (ds, n) \<and> digit_sum 1 ds = 23 \<and> wnaf_digits 5 ds"
proof -
  have "scalar_ok (Scalar4 23 0 0 0)" "scalar_val (Scalar4 23 0 0 0) = 23"
    by (simp_all add: scalar_ok_def scalar_val_def scalar_limbs_def limbs_val_Cons order_n_def)
  then show ?thesis using ecmult_wnaf_spec [of "Scalar4 23 0 0 0" 5 130 23] by force
qed

text \<open>The recoding for constant-time multiplication ends and fills the whole array; its digits, in base 2^w,
  are odd and below 2^w in absolute value, and sum up to the scalar plus the returned skew, which is 1 or 2. With
  \<open>maybe_negative\<close> a scalar above half the order stands for a negative number.\<close>

theorem wnaf_const_spec:
  assumes "scalar_ok a" "0 < w" "w < 16" "0 < sz" "N = (sz + w - 1) div w" "length buf = Suc N"
    and "neg \<or> 2 * scalar_val a \<le> order_n" "v = (if neg then signed_mod (scalar_val a) else scalar_val a)" "\<bar>v\<bar> + 2 < 2 ^ (sz + w)"
  shows "\<exists>ds skew. wnaf_const digit_ops_4x64 buf a w sz neg = Some (ds, skew) \<and> length ds = Suc N \<and>
    digit_sum w ds = v + int skew \<and> (skew = 1 \<or> skew = 2) \<and> (\<forall>d\<in>set ds. odd_digit w d)"
  using assms(1) by (intro d4.wnaf_const_val [OF _ assms(2-9)]) (simp add: scalar_ok_def)

theorem wnaf_const_spec_witness:
  "\<exists>ds skew. wnaf_const digit_ops_4x64 (replicate 65 0) (Scalar4 6 0 0 0) 4 256 True = Some (ds, skew) \<and> digit_sum 4 ds = 6 + int skew"
proof -
  have "scalar_ok (Scalar4 6 0 0 0)" "scalar_val (Scalar4 6 0 0 0) = 6" "signed_mod 6 = 6"
    by (simp_all add: scalar_ok_def scalar_val_def scalar_limbs_def limbs_val_Cons order_n_def signed_mod_def)
  then show ?thesis using wnaf_const_spec [of "Scalar4 6 0 0 0" 4 256 64 "replicate 65 0" True 6] by fastforce
qed

end
