(* ===== verification/Ecmult.thy ===== *)
theory Ecmult
  imports Group Wnaf
begin

text \<open>
  Point multiplication with variable time, \<open>ecmult_impl.h\<close>, in the configuration with the endomorphism: tables of odd
  multiples, the context with the tables of the generator, and the interleaved double-and-add loop of
  \<open>R = na*A + ng*G\<close>. The code works on field operations \<open>ops\<close> and scalar operations as the theories it imports.
  Local arrays and freshly allocated blocks are not initialized; their contents are arguments.

  The abstract algorithm is double-and-add with the chord and tangent construction on points (\<open>ec_horner\<close>). The code
  computes it on an isomorphic curve, with all table entries scaled to a common \<open>z\<close> coordinate; \<open>ec_scale\<close> is that
  isomorphism on points.
\<close>

subsection \<open>Tables (ecmult_impl.h 31--155)\<close>

definition WINDOW_A :: nat where
  "WINDOW_A = 5"

definition WINDOW_G :: nat where
  "WINDOW_G = 15"

definition ECMULT_TABLE_SIZE :: "nat \<Rightarrow> nat" where
  "ECMULT_TABLE_SIZE w = 2 ^ (w - 2)"

definition odd_multiples_step :: "('fe, 'st) field_ops \<Rightarrow> 'fe ge \<Rightarrow> nat \<Rightarrow> 'fe gej list \<times> 'fe list \<Rightarrow> 'fe gej list \<times> 'fe list" where
  "odd_multiples_step ops d_ge i = (\<lambda>(prej, zr).
    let (p, z) = gej_add_ge_var ops (prej ! i) (prej ! (i - 1)) d_ge (Some (zr ! i))
    in (prej[i := p], zr[i := the z]))"

definition ecmult_odd_multiples_table ::
  "('fe, 'st) field_ops \<Rightarrow> 'fe gej \<Rightarrow> nat \<Rightarrow> 'fe gej list \<Rightarrow> 'fe list \<Rightarrow> 'fe gej \<Rightarrow> 'fe gej list \<times> 'fe list" where
  "ecmult_odd_multiples_table ops d n prej zr a =
    (let d = fst (gej_double_var ops d a None);
         d_ge = \<lparr>gx = jx d, gy = jy d, ginf = False\<rparr>;
         a_ge = ge_set_gej_zinv ops a (jz d);
         prej = prej[0 := \<lparr>jx = gx a_ge, jy = gy a_ge, jz = jz a, jinf = False\<rparr>];
         zr = zr[0 := jz d];
         (prej, zr) = fold (odd_multiples_step ops d_ge) [1..<n] (prej, zr);
         prej = prej[n - 1 := (prej ! (n - 1))\<lparr>jz := fe_mul ops (jz (prej ! (n - 1))) (jz d)\<rparr>]
     in (prej, zr))"

text \<open>The uninitialized locals of the table functions.\<close>

record 'fe table_mem =
  tm_d :: "'fe gej"
  tm_prej :: "'fe gej list"
  tm_zr :: "'fe list"

definition ecmult_odd_multiples_table_globalz_windowa ::
  "('fe, 'st) field_ops \<Rightarrow> 'fe table_mem \<Rightarrow> 'fe ge list \<Rightarrow> 'fe \<Rightarrow> 'fe gej \<Rightarrow> 'fe ge list \<times> 'fe" where
  "ecmult_odd_multiples_table_globalz_windowa ops mem pre globalz a =
    (let (prej, zr) = ecmult_odd_multiples_table ops (tm_d mem) (ECMULT_TABLE_SIZE WINDOW_A) (tm_prej mem) (tm_zr mem) a
     in ge_globalz_set_table_gej ops (ECMULT_TABLE_SIZE WINDOW_A) pre globalz prej zr)"

definition ecmult_odd_multiples_table_storage_var ::
  "('fe, 'st) field_ops \<Rightarrow> 'fe table_mem \<Rightarrow> 'fe ge list \<Rightarrow> nat \<Rightarrow> 'fe gej \<Rightarrow> 'st ge_storage list" where
  "ecmult_odd_multiples_table_storage_var ops mem prea n a =
    (let (prej, zr) = ecmult_odd_multiples_table ops (tm_d mem) n (tm_prej mem) (tm_zr mem) a;
         prea = ge_set_table_gej_var ops prea prej zr n
     in map (\<lambda>i. ge_to_storage ops (prea ! i)) [0..<n])"

definition ECMULT_TABLE_GET_GE :: "('fe, 'st) field_ops \<Rightarrow> 'fe ge list \<Rightarrow> int \<Rightarrow> 'fe ge" where
  "ECMULT_TABLE_GET_GE ops pre n = (if n > 0 then pre ! nat ((n - 1) div 2) else ge_neg ops (pre ! nat ((- n - 1) div 2)))"

definition ECMULT_TABLE_GET_GE_STORAGE :: "('fe, 'st) field_ops \<Rightarrow> 'st ge_storage list \<Rightarrow> int \<Rightarrow> 'fe ge" where
  "ECMULT_TABLE_GET_GE_STORAGE ops pre n =
    (if n > 0 then ge_from_storage ops (pre ! nat ((n - 1) div 2))
     else let r = ge_from_storage ops (pre ! nat ((- n - 1) div 2)) in ge_neg ops r)"

subsection \<open>The context (ecmult.h 13--19, ecmult_impl.h 157--226)\<close>

record 'st ecmult_context =
  ec_pre_g :: "'st ge_storage list option"
  ec_pre_g_128 :: "'st ge_storage list option"

definition ecmult_context_init :: "'st ecmult_context \<Rightarrow> 'st ecmult_context" where
  "ecmult_context_init ctx = ctx\<lparr>ec_pre_g := None, ec_pre_g_128 := None\<rparr>"

definition ecmult_context_build ::
  "('fe, 'st) field_ops \<Rightarrow> 'fe table_mem \<times> 'fe ge list \<Rightarrow> 'fe table_mem \<times> 'fe ge list \<Rightarrow> 'st ecmult_context \<Rightarrow> 'st ecmult_context" where
  "ecmult_context_build ops mem1 mem2 ctx =
    (if ec_pre_g ctx \<noteq> None then ctx
     else
       let gj = gej_set_ge ops (ge_const_g ops);
           ctx = ctx\<lparr>ec_pre_g := Some (ecmult_odd_multiples_table_storage_var ops (fst mem1) (snd mem1) (ECMULT_TABLE_SIZE WINDOW_G) gj)\<rparr>;
           g_128j = gj;
           g_128j = ((\<lambda>g. fst (gej_double_var ops g g None)) ^^ 128) g_128j
       in ctx\<lparr>ec_pre_g_128 := Some (ecmult_odd_multiples_table_storage_var ops (fst mem2) (snd mem2) (ECMULT_TABLE_SIZE WINDOW_G) g_128j)\<rparr>)"

definition ecmult_context_clone :: "'st ecmult_context \<Rightarrow> 'st ecmult_context \<Rightarrow> 'st ecmult_context" where
  "ecmult_context_clone dst src =
    (let dst = (case ec_pre_g src of None \<Rightarrow> dst\<lparr>ec_pre_g := None\<rparr>
                | Some g \<Rightarrow> dst\<lparr>ec_pre_g := Some (take (ECMULT_TABLE_SIZE WINDOW_G) g)\<rparr>)
     in case ec_pre_g_128 src of None \<Rightarrow> dst\<lparr>ec_pre_g_128 := None\<rparr>
        | Some g \<Rightarrow> dst\<lparr>ec_pre_g_128 := Some (take (ECMULT_TABLE_SIZE WINDOW_G) g)\<rparr>)"

definition ecmult_context_is_built :: "'st ecmult_context \<Rightarrow> bool" where
  "ecmult_context_is_built ctx \<longleftrightarrow> ec_pre_g ctx \<noteq> None"

definition ecmult_context_clear :: "'st ecmult_context \<Rightarrow> 'st ecmult_context" where
  "ecmult_context_clear ctx = ecmult_context_init ctx"

subsection \<open>The multiplication (ecmult_impl.h 286--404)\<close>

record 's ecmult_scalar =
  em_digits :: "'s digit_ops"
  em_split_lambda :: "'s \<Rightarrow> 's \<times> 's"
  em_split_128 :: "'s \<Rightarrow> 's \<times> 's"

text \<open>One pass of the loop. A digit array is paired with its length; a digit past the length or zero adds nothing.\<close>

definition wnaf_digit :: "int list \<times> int \<Rightarrow> nat \<Rightarrow> int" where
  "wnaf_digit wnaf i = (if int i < snd wnaf then fst wnaf ! i else 0)"

definition ecmult_step :: "('fe, 'st) field_ops \<Rightarrow> 'fe ge list \<Rightarrow> 'fe ge list \<Rightarrow> 'st ge_storage list \<Rightarrow> 'st ge_storage list \<Rightarrow> 'fe \<Rightarrow>
    int list \<times> int \<Rightarrow> int list \<times> int \<Rightarrow> int list \<times> int \<Rightarrow> int list \<times> int \<Rightarrow> nat \<Rightarrow> 'fe gej \<Rightarrow> 'fe gej" where
  "ecmult_step ops pre_a pre_a_lam pre_g pre_g_128 Z na_1 na_lam ng_1 ng_128 i r =
    (let r = fst (gej_double_var ops r r None);
         n = wnaf_digit na_1 i;
         r = (if n \<noteq> 0 then fst (gej_add_ge_var ops r r (ECMULT_TABLE_GET_GE ops pre_a n) None) else r);
         n = wnaf_digit na_lam i;
         r = (if n \<noteq> 0 then fst (gej_add_ge_var ops r r (ECMULT_TABLE_GET_GE ops pre_a_lam n) None) else r);
         n = wnaf_digit ng_1 i;
         r = (if n \<noteq> 0 then gej_add_zinv_var ops r r (ECMULT_TABLE_GET_GE_STORAGE ops pre_g n) Z else r);
         n = wnaf_digit ng_128 i;
         r = (if n \<noteq> 0 then gej_add_zinv_var ops r r (ECMULT_TABLE_GET_GE_STORAGE ops pre_g_128 n) Z else r)
     in r)"

text \<open>A context whose tables are not built has no tables to read: the result is \<open>None\<close>.\<close>

definition ecmult :: "('fe, 'st) field_ops \<Rightarrow> 's ecmult_scalar \<Rightarrow> 'fe table_mem \<Rightarrow> 'fe ge list \<Rightarrow> 'fe \<Rightarrow>
    'st ecmult_context \<Rightarrow> 'fe gej \<Rightarrow> 'fe gej \<Rightarrow> 's \<Rightarrow> 's \<Rightarrow> 'fe gej option" where
  "ecmult ops sc mem pre_a Z ctx r a na ng =
    (let (na_1, na_lam) = em_split_lambda sc na
     in Option.bind (ecmult_wnaf (em_digits sc) 130 na_1 WINDOW_A) (\<lambda>wnaf_na_1.
        Option.bind (ecmult_wnaf (em_digits sc) 130 na_lam WINDOW_A) (\<lambda>wnaf_na_lam.
          let bits = max (snd wnaf_na_1) (snd wnaf_na_lam);
              (pre_a, Z) = ecmult_odd_multiples_table_globalz_windowa ops mem pre_a Z a;
              pre_a_lam = map (\<lambda>i. ge_mul_lambda ops (pre_a ! i)) [0..<ECMULT_TABLE_SIZE WINDOW_A];
              (ng_1, ng_128) = em_split_128 sc ng
          in Option.bind (ecmult_wnaf (em_digits sc) 129 ng_1 WINDOW_G) (\<lambda>wnaf_ng_1.
             Option.bind (ecmult_wnaf (em_digits sc) 129 ng_128 WINDOW_G) (\<lambda>wnaf_ng_128.
             Option.bind (ec_pre_g ctx) (\<lambda>pre_g.
             Option.bind (ec_pre_g_128 ctx) (\<lambda>pre_g_128.
               let bits = max bits (max (snd wnaf_ng_1) (snd wnaf_ng_128));
                   r = gej_set_infinity ops r;
                   r = fold (ecmult_step ops pre_a pre_a_lam pre_g pre_g_128 Z wnaf_na_1 wnaf_na_lam wnaf_ng_1 wnaf_ng_128)
                         (rev [0..<nat bits]) r
               in Some (if \<not> jinf r then r\<lparr>jz := fe_mul ops (jz r) Z\<rparr> else r))))))))"

subsection \<open>Points on an isomorphic curve\<close>

fun ec_scale :: "fp \<Rightarrow> point \<Rightarrow> point" where
  "ec_scale k Infinity = Infinity"
| "ec_scale k (Affine x y) = Affine (x * k ^ 2) (y * k ^ 3)"

lemma ec_scale_iff [simp]: "ec_scale k P = Infinity \<longleftrightarrow> P = Infinity"
  by (cases P) simp_all

lemma ec_scale_neg: "ec_scale k (ec_neg P) = ec_neg (ec_scale k P)"
  by (cases P) simp_all

lemma ec_add_scale:
  assumes "k dvd 1"
  shows "ec_add P Q R \<Longrightarrow> ec_add (ec_scale k P) (ec_scale k Q) (ec_scale k R)"
proof (induction rule: ec_add.induct)
  case (opposite y x)
  have "2 * (y * k ^ 3) dvd 1" using unit_mult [OF opposite unit_power [OF assms, of 3]] by (simp add: mult.assoc)
  then show ?case using ec_add.opposite [of "y * k ^ 3" "x * k ^ 2"] by simp
next
  case (tangent y l x x3 y3)
  have "2 * (y * k ^ 3) dvd 1" using unit_mult [OF tangent(1) unit_power [OF assms, of 3]] by (simp add: mult.assoc)
  moreover have "2 * (y * k ^ 3) * (l * k) = (2 * y * l) * k ^ 4" by (simp add: ring_norm)
  then have "2 * (y * k ^ 3) * (l * k) = 3 * (x * k ^ 2) ^ 2" unfolding tangent(2) by (simp add: ring_norm)
  moreover have "x3 * k ^ 2 = (l * k) ^ 2 - 2 * (x * k ^ 2)" unfolding tangent(3) by (simp add: ring_norm)
  moreover have "y3 * k ^ 3 = l * k * (x * k ^ 2 - x3 * k ^ 2) - y * k ^ 3" unfolding tangent(4) by (simp add: ring_norm)
  ultimately show ?case unfolding ec_scale.simps by (rule ec_add.tangent)
next
  case (chord x2 x1 l y2 y1 x3 y3)
  have "x2 * k ^ 2 - x1 * k ^ 2 dvd 1" using unit_mult [OF chord(1) unit_power [OF assms, of 2]] by (simp add: left_diff_distrib)
  moreover have "(x2 * k ^ 2 - x1 * k ^ 2) * (l * k) = ((x2 - x1) * l) * k ^ 3" by (simp add: ring_norm)
  then have "(x2 * k ^ 2 - x1 * k ^ 2) * (l * k) = y2 * k ^ 3 - y1 * k ^ 3" unfolding chord(2) by (simp add: left_diff_distrib)
  moreover have "x3 * k ^ 2 = (l * k) ^ 2 - x1 * k ^ 2 - x2 * k ^ 2" unfolding chord(3) by (simp add: ring_norm)
  moreover have "y3 * k ^ 3 = l * k * (x1 * k ^ 2 - x3 * k ^ 2) - y1 * k ^ 3" unfolding chord(4) by (simp add: ring_norm)
  ultimately show ?case unfolding ec_scale.simps by (rule ec_add.chord)
qed (simp_all add: ec_add.intros)

text \<open>Multiplying the \<open>z\<close> coordinate by \<open>k\<close> undoes the scaling.\<close>

lemma gej_rep_scale:
  assumes "k dvd 1" "fv z = fv (jz a) * k"
  shows "gej_rep fv (a\<lparr>jz := z\<rparr>) P \<longleftrightarrow> gej_rep fv a (ec_scale k P)"
proof -
  have "fv (jz a) * k dvd 1 \<longleftrightarrow> fv (jz a) dvd 1" using assms(1) unit_mult [of "fv (jz a)" k] by (meson dvd_mult_left)
  then show ?thesis by (cases P) (simp_all add: gej_rep_def assms(2) power_mult_distrib ac_simps)
qed

text \<open>The abstract algorithm: a list of points added one after the other, and double-and-add where \<open>f i\<close> lists the points
  added at position \<open>i\<close>.\<close>

inductive ec_sum :: "point \<Rightarrow> point list \<Rightarrow> point \<Rightarrow> bool" where
  Nil: "ec_sum P [] P"
| Cons: "ec_add P Q R \<Longrightarrow> ec_sum R Qs S \<Longrightarrow> ec_sum P (Q # Qs) S"

inductive ec_horner :: "(nat \<Rightarrow> point list) \<Rightarrow> nat \<Rightarrow> point \<Rightarrow> point \<Rightarrow> bool" for f where
  zero: "ec_horner f 0 P P"
| step: "ec_add P P D \<Longrightarrow> ec_sum D (f i) S \<Longrightarrow> ec_horner f i S R \<Longrightarrow> ec_horner f (Suc i) P R"

inductive_cases ec_sum_elims: "ec_sum P [] R" "ec_sum P (Q # Qs) R"
inductive_cases ec_horner_elims: "ec_horner f 0 P R" "ec_horner f (Suc i) P R"

text \<open>Odd multiples: \<open>T 0\<close> is the point itself, \<open>T i\<close> adds its double \<open>i\<close> times. The entry for the odd digit \<open>n\<close>.\<close>

definition odd_multiples :: "point \<Rightarrow> nat \<Rightarrow> (nat \<Rightarrow> point) \<Rightarrow> bool" where
  "odd_multiples P n T \<longleftrightarrow> T 0 = P \<and> (\<forall>i<n. T i \<noteq> Infinity) \<and>
    (\<exists>D. D \<noteq> Infinity \<and> ec_add P P D \<and> (\<forall>i. Suc i < n \<longrightarrow> ec_add (T i) D (T (Suc i))))"

definition table_point :: "(nat \<Rightarrow> point) \<Rightarrow> int \<Rightarrow> point" where
  "table_point T n = (if n > 0 then T (nat ((n - 1) div 2)) else ec_neg (T (nat ((- n - 1) div 2))))"

definition digit_points :: "(nat \<Rightarrow> point) \<Rightarrow> int \<Rightarrow> point list" where
  "digit_points T n = (if n \<noteq> 0 then [table_point T n] else [])"

text \<open>The endomorphism, which multiplies the \<open>x\<close> coordinate by a cube root of unity.\<close>

fun ec_lambda :: "point \<Rightarrow> point" where
  "ec_lambda Infinity = Infinity"
| "ec_lambda (Affine x y) = Affine (of_int field_beta * x) y"

text \<open>A table whose entries represent the points \<open>T j\<close>, scaled by \<open>k\<close>, or in storage form; the digits that index such a table.\<close>

definition ge_table :: "('fe \<Rightarrow> fp) \<Rightarrow> (nat \<Rightarrow> 'fe \<Rightarrow> bool) \<Rightarrow> 'fe ge list \<Rightarrow> nat \<Rightarrow> fp \<Rightarrow> (nat \<Rightarrow> point) \<Rightarrow> bool" where
  "ge_table fv mag pre n k T \<longleftrightarrow> n \<le> length pre \<and> (\<forall>j<n. ge_ok mag (pre ! j) \<and> ge_rep fv (pre ! j) (ec_scale k (T j)))"

definition st_table ::
  "('fe, 'st) field_ops \<Rightarrow> ('fe \<Rightarrow> fp) \<Rightarrow> (nat \<Rightarrow> 'fe \<Rightarrow> bool) \<Rightarrow> 'st ge_storage list \<Rightarrow> nat \<Rightarrow> (nat \<Rightarrow> point) \<Rightarrow> bool" where
  "st_table ops fv mag pre n T \<longleftrightarrow> n \<le> length pre \<and>
    (\<forall>j<n. T j \<noteq> Infinity \<and> ge_ok mag (ge_from_storage ops (pre ! j)) \<and> ge_rep fv (ge_from_storage ops (pre ! j)) (T j))"

definition digit_ok :: "nat \<Rightarrow> int \<Rightarrow> bool" where
  "digit_ok n d \<longleftrightarrow> odd d \<and> \<bar>d\<bar> < 2 * int n"

definition wnaf_ok :: "nat \<Rightarrow> int list \<times> int \<Rightarrow> bool" where
  "wnaf_ok n d \<longleftrightarrow> (\<forall>i. wnaf_digit d i = 0 \<or> digit_ok n (wnaf_digit d i))"

definition ecmult_addends :: "(nat \<Rightarrow> point) \<Rightarrow> (nat \<Rightarrow> point) \<Rightarrow> (nat \<Rightarrow> point) \<Rightarrow> int list \<times> int \<Rightarrow> int list \<times> int \<Rightarrow> int list \<times> int \<Rightarrow>
    int list \<times> int \<Rightarrow> nat \<Rightarrow> point list" where
  "ecmult_addends A G H d1 d2 d3 d4 i = digit_points A (wnaf_digit d1 i) @ digit_points (\<lambda>i. ec_lambda (A i)) (wnaf_digit d2 i) @
     digit_points G (wnaf_digit d3 i) @ digit_points H (wnaf_digit d4 i)"

subsection \<open>Correctness\<close>

locale ecmult_arith = group_arith
begin

lemma double_var_rep:
  assumes "P = Infinity \<Longrightarrow> gej_ok mag r" "gej_ok mag a" "gej_rep fv a P" "ec_add P P R"
  shows "gej_ok mag (fst (gej_double_var ops r a rzr)) \<and> gej_rep fv (fst (gej_double_var ops r a rzr)) R"
proof (cases P)
  case Infinity
  then have "R = Infinity" "jinf a" using assms(3,4) by (auto simp: gej_rep_def elim: ec_add_infinityE)
  then show ?thesis using assms(1) Infinity by (simp add: gej_double_var_def gej_rep_def gej_ok_def)
next
  case (Affine x y)
  from assms(4) [unfolded Affine] show ?thesis
  proof (cases rule: ec_add_affineE)
    case opposite
    then show ?thesis using not_self_opposite [of y] by auto
  next
    case (tangent l x3 y3)
    then show ?thesis
      using double_rep [OF assms(2) assms(3) [unfolded Affine] tangent(3-5), of r rzr] by (cases "gej_double_var ops r a rzr") simp
  qed simp
qed

lemma double_var_ratio:
  assumes "gej_ok mag a" "gej_rep fv a (Affine x y)" "2 * y dvd 1" "2 * y * l = 3 * x ^ 2" "x3 = l ^ 2 - 2 * x"
  shows "case gej_double_var ops r a (Some z) of (r', z') \<Rightarrow> gej_ok mag r' \<and> gej_rep fv r' (Affine x3 (l * (x - x3) - y)) \<and>
    (\<exists>c. z' = Some c \<and> mag 8 c \<and> fv (jz r') = fv (jz a) * fv c)"
proof -
  obtain r' z' where d: "gej_double_var ops r a (Some z) = (r', z')" by fastforce
  have a: "\<not> jinf a" using assms(2) by (simp add: gej_rep_def)
  have "snd (gej_double_var ops r a (Some z)) \<noteq> None" by (simp add: gej_double_var_def Let_def)
  then obtain c where c: "z' = Some c" using d by auto
  have "mag 8 c" using double_formula [OF assms(1) a d] mag_mono [of 2 c 8] by (simp add: c den_def)
  then show ?thesis using double_rep [OF assms d] by (simp add: d c)
qed

text \<open>The ratio of the \<open>z\<close> coordinates that the mixed addition returns. When the sum is finite the old contents of the result do
  not matter.\<close>

lemma add_ge_var_rzr:
  assumes "gej_ok mag a" "ge_ok mag b" "gej_rep fv a P" "ge_rep fv b Q" "ec_add P Q R" "P \<noteq> Infinity" "Q \<noteq> Infinity" "R \<noteq> Infinity"
  shows "case gej_add_ge_var ops r a b (Some z) of (r', z') \<Rightarrow> gej_ok mag r' \<and> gej_rep fv r' R \<and>
    (\<exists>c. z' = Some c \<and> mag 8 c \<and> fv (jz r') = fv (jz a) * fv c)"
    (is "?P (gej_add_ge_var ops r a b (Some z))")
proof -
  obtain x1 y1 x2 y2 where P: "P = Affine x1 y1" and Q: "Q = Affine x2 y2"
    using assms(6,7) by (cases P; cases Q) auto
  let ?Z1 = "fv (jz a)"
  have v: "?Z1 dvd 1" "fv (jx a) = x1 * ?Z1 ^ 2" "fv (jy a) = y1 * ?Z1 ^ 3" "fv (gx b) = x2" "fv (gy b) = y2"
    and f: "jinf a = False" "ginf b = False"
    using assms(3,4) unfolding P Q by (simp_all add: gej_rep_def ge_rep_def)
  have m3: "mag (Suc (Suc (Suc 0))) c \<Longrightarrow> mag 8 c" for c using mag_mono [of 3 c 8] by (simp add: eval_nat_numeral)
  show ?thesis
    unfolding gej_add_ge_var_def f if_False using gej_den [OF assms(1)] ge_den [OF assms(2)]
    apply -
    apply (rule let_any [where P = ?P])
    apply (rule den_let [where P = ?P], ((rule den_rules | assumption | (simp (no_asm); fail))+)[1])+
    apply (rule add_cases [where ok = ?P and w = "?Z1" and R = R and ?x1.0 = x1 and ?x2.0 = x2 and ?y1.0 = y1 and ?y2.0 = y2], assumption+)
    apply (simp (no_asm))
    apply (simp (no_asm))
    apply (simp (no_asm) add: v ring_norm)
    apply (simp (no_asm) add: v ring_norm)
    apply (simp (no_asm) add: v ring_norm)
    apply (simp (no_asm) add: v ring_norm)
    apply (rule v(1))
    apply (rule assms(5) [unfolded P Q])
    subgoal using assms(8) by simp
    subgoal for x xa xb xc xd xe xf xg xh xi xj l x3
      using double_var_ratio [OF assms(1) assms(3) [unfolded P], of l x3 x z] by simp
    subgoal
      unfolding Let_def prod.case conj_assoc [symmetric] option.map
      apply (rule conjI)
       apply (rule add_result, assumption+, (rule den_mul | assumption | (simp (no_asm); fail))+, simp add: ac_simps, rule v(1), assumption)
      using assms(1) by (auto simp: den_def gej_ok_def fv_mul m3)
    done
qed

text \<open>The table of odd multiples. \<open>a'\<close> is the table with every \<open>z\<close> coordinate corrected as the code corrects the last one.\<close>

definition odd_table_inv :: "nat \<Rightarrow> fp \<Rightarrow> (nat \<Rightarrow> point) \<Rightarrow> nat \<Rightarrow> 'a gej list \<times> 'a list \<Rightarrow> bool" where
  "odd_table_inv n k T m = (\<lambda>(prej, zr). length prej = n \<and> length zr = n \<and>
    (\<forall>j<m. gej_ok mag (prej ! j) \<and> gej_rep fv (prej ! j) (ec_scale k (T j)) \<and> mag 8 (zr ! j)) \<and>
    (\<forall>j. Suc j < m \<longrightarrow> fv (jz (prej ! Suc j)) = fv (jz (prej ! j)) * fv (zr ! Suc j)))"

lemma odd_table_step:
  assumes "odd_table_inv n k T m s" "0 < m" "m < n" "k dvd 1" "\<forall>j<n. T j \<noteq> Infinity" "D \<noteq> Infinity" "ec_add (T (m - 1)) D (T m)"
    and "ge_ok mag d" "ge_rep fv d (ec_scale k D)"
  shows "odd_table_inv n k T (Suc m) (odd_multiples_step ops d m s)"
proof -
  obtain prej zr where s: "s = (prej, zr)" by fastforce
  note i = assms(1) [unfolded odd_table_inv_def s prod.case]
  obtain p z where p: "gej_add_ge_var ops (prej ! m) (prej ! (m - 1)) d (Some (zr ! m)) = (p, z)" by fastforce
  have "gej_ok mag (prej ! (m - 1))" "gej_rep fv (prej ! (m - 1)) (ec_scale k (T (m - 1)))" using i assms(2) by simp_all
  then obtain c where c: "gej_ok mag p" "gej_rep fv p (ec_scale k (T m))" "z = Some c" "mag 8 c" "fv (jz p) = fv (jz (prej ! (m - 1))) * fv c"
    using add_ge_var_rzr [of "prej ! (m - 1)" d _ _ "ec_scale k (T m)" "prej ! m" "zr ! m"] assms(2,3,5,6,8,9)
      ec_add_scale [OF assms(4,7)] p by fastforce
  have e: "odd_multiples_step ops d m s = (prej[m := p], zr[m := c])"
    using c(3) by (simp add: odd_multiples_step_def s p del: One_nat_def)
  have z: "Suc j = m \<Longrightarrow> j = m - 1" for j by simp
  show ?thesis
    unfolding e odd_table_inv_def prod.case
    using i c assms(2,3) by (auto simp: nth_list_update less_Suc_eq dest: z)
qed

lemma odd_table_fold:
  assumes "odd_table_inv n k T 1 s" "m < n" "k dvd 1" "\<forall>j<n. T j \<noteq> Infinity" "D \<noteq> Infinity"
    and "\<forall>i. Suc i < n \<longrightarrow> ec_add (T i) D (T (Suc i))" "ge_ok mag d" "ge_rep fv d (ec_scale k D)"
  shows "odd_table_inv n k T (Suc m) (fold (odd_multiples_step ops d) [1..<Suc m] s)"
  using assms(2)
proof (induction m)
  case 0
  then show ?case using assms(1) by simp
next
  case (Suc m)
  have "ec_add (T (Suc m - 1)) D (T (Suc m))" using assms(6) Suc.prems by simp
  then show ?case
    using odd_table_step [OF Suc.IH _ Suc.prems assms(3-5) _ assms(7,8)] Suc.prems by simp
qed

lemma zinv_values:
  assumes "gej_ok mag a" "mag 8 zi"
  shows "ge_ok mag (ge_set_gej_zinv ops a zi)" "fv (gx (ge_set_gej_zinv ops a zi)) = fv (jx a) * fv zi ^ 2"
    "fv (gy (ge_set_gej_zinv ops a zi)) = fv (jy a) * fv zi ^ 3" "ginf (ge_set_gej_zinv ops a zi) = jinf a"
proof -
  have m: "mag 8 (jx a)" "mag 8 (jy a)" "mag 8 (fe_sqr ops zi)" "mag 8 (fe_mul ops (fe_sqr ops zi) zi)"
    using assms chain.sqr chain.mul by (auto simp: gej_ok_def)
  then show "ge_ok mag (ge_set_gej_zinv ops a zi)" using chain.mul by (simp add: ge_set_gej_zinv_def ge_ok_def Let_def)
  show "fv (gx (ge_set_gej_zinv ops a zi)) = fv (jx a) * fv zi ^ 2" "fv (gy (ge_set_gej_zinv ops a zi)) = fv (jy a) * fv zi ^ 3"
    using m assms(2) by (simp_all add: ge_set_gej_zinv_def Let_def fv_mul fv_sqr power2_eq_square power3_eq_cube)
qed (simp add: ge_set_gej_zinv_def Let_def)

lemma gej_rep_ge:
  assumes "gej_rep fv p P" "P \<noteq> Infinity"
  shows "fv (jz p) dvd 1" "\<not> jinf p" "ge_rep fv \<lparr>gx = jx p, gy = jy p, ginf = False\<rparr> (ec_scale (fv (jz p)) P)"
  using assms by (cases P; simp add: gej_rep_def ge_rep_def)+

lemma odd_table_rep:
  assumes "gej_ok mag a" "gej_rep fv a A" "odd_multiples A n T" "0 < n" "length prej = n" "length zr = n"
    and "ecmult_odd_multiples_table ops d n prej zr a = (prej', zr')"
  shows "\<exists>a'. zr_ok fv mag a' zr' n \<and> (\<forall>j<n. gej_rep fv (a' ! j) (T j)) \<and>
    (\<forall>j<n. jx (prej' ! j) = jx (a' ! j) \<and> jy (prej' ! j) = jy (a' ! j) \<and> jinf (prej' ! j) = jinf (a' ! j)) \<and>
    prej' ! (n - 1) = a' ! (n - 1)"
proof -
  obtain D where D: "D \<noteq> Infinity" "ec_add A A D" "\<forall>i. Suc i < n \<longrightarrow> ec_add (T i) D (T (Suc i))"
    and T: "T 0 = A" "\<forall>i<n. T i \<noteq> Infinity" using assms(3) by (auto simp: odd_multiples_def)
  have A: "A \<noteq> Infinity" using T assms(4) by auto
  define d' where "d' = fst (gej_double_var ops d a None)"
  define k where "k = fv (jz d')"
  define dge where "dge = \<lparr>gx = jx d', gy = jy d', ginf = False\<rparr>"
  have d': "gej_ok mag d'" "gej_rep fv d' D" using double_var_rep [OF _ assms(1,2) D(2)] A by (simp_all add: d'_def)
  have k: "k dvd 1" "ge_rep fv dge (ec_scale k D)" using gej_rep_ge [OF d'(2) D(1)] by (simp_all add: k_def dge_def)
  have g: "ge_ok mag dge" "mag 8 (jz d')" using d'(1) by (simp_all add: dge_def ge_ok_def gej_ok_def)
  let ?a = "ge_set_gej_zinv ops a (jz d')"
  define p0 where "p0 = \<lparr>jx = gx ?a, jy = gy ?a, jz = jz a, jinf = False\<rparr>"
  have p0: "gej_ok mag p0" "gej_rep fv p0 (ec_scale k A)"
    using zinv_values [OF assms(1) g(2)] assms(1,2) A
    by (cases A; simp add: p0_def gej_ok_def ge_ok_def gej_rep_def k_def power_mult_distrib ac_simps)+
  have "odd_table_inv n k T 1 (prej[0 := p0], zr[0 := jz d'])"
    using p0 g(2) assms(4-6) T(1) by (simp add: odd_table_inv_def)
  from odd_table_fold [OF this _ k(1) T(2) D(1,3) g(1) k(2), of "n - 1"]
  have inv: "odd_table_inv n k T n (fold (odd_multiples_step ops dge) [1..<n] (prej[0 := p0], zr[0 := jz d']))" using assms(4) by simp
  obtain P Z where f: "fold (odd_multiples_step ops dge) [1..<n] (prej[0 := p0], zr[0 := jz d']) = (P, Z)" by fastforce
  note i = inv [unfolded f odd_table_inv_def prod.case]
  let ?fix = "\<lambda>p. p\<lparr>jz := fe_mul ops (jz p) (jz d')\<rparr>"
  have r: "prej' = P[n - 1 := ?fix (P ! (n - 1))]" "zr' = Z"
    using assms(7) f by (simp_all add: ecmult_odd_multiples_table_def Let_def d'_def [symmetric] dge_def [symmetric] p0_def [symmetric] del: One_nat_def)
  have z: "mag 8 (fe_mul ops (jz (P ! j)) (jz d'))" "fv (fe_mul ops (jz (P ! j)) (jz d')) = fv (jz (P ! j)) * k" if "j < n" for j
  proof -
    have "mag 8 (jz (P ! j))" using i that by (simp add: gej_ok_def)
    then show "mag 8 (fe_mul ops (jz (P ! j)) (jz d'))" "fv (fe_mul ops (jz (P ! j)) (jz d')) = fv (jz (P ! j)) * k"
      using chain.mul g(2) fv_mul by (simp_all add: k_def)
  qed
  have rep: "gej_rep fv (?fix (P ! j)) (T j)" if "j < n" for j
    using i that gej_rep_scale [of k fv "fe_mul ops (jz (P ! j)) (jz d')" "P ! j" "T j", OF k(1) z(2) [OF that]] by blast
  have "zr_ok fv mag (map ?fix P) zr' n"
    unfolding zr_ok_def r(2)
  proof (intro conjI allI impI)
    fix j assume j: "j < n"
    show "gej_ok mag (map ?fix P ! j)" "mag 8 (Z ! j)" using i j z(1) by (simp_all add: gej_ok_def)
    show "\<not> jinf (map ?fix P ! j)" using gej_rep_ge(2) [OF rep [OF j]] T(2) j i by simp
  next
    fix j assume "Suc j < n"
    then show "fv (jz (map ?fix P ! Suc j)) = fv (jz (map ?fix P ! j)) * fv (Z ! Suc j)"
      using i z(2) [of j] z(2) [of "Suc j"] by (simp add: ac_simps)
  qed
  moreover have "\<forall>j<n. gej_rep fv (map ?fix P ! j) (T j)" using rep i by simp
  moreover have "\<forall>j<n. jx (prej' ! j) = jx (map ?fix P ! j) \<and> jy (prej' ! j) = jy (map ?fix P ! j) \<and> jinf (prej' ! j) = jinf (map ?fix P ! j)"
    using i by (auto simp: r(1) nth_list_update)
  moreover have "prej' ! (n - 1) = map ?fix P ! (n - 1)" using i assms(4) by (simp add: r(1))
  ultimately show ?thesis by blast
qed

text \<open>The conversions of a table read only the \<open>x\<close> and \<open>y\<close> coordinates of all entries but the last.\<close>

definition same_xy :: "nat \<Rightarrow> 'a gej list \<Rightarrow> 'a gej list \<Rightarrow> bool" where
  "same_xy n a b \<longleftrightarrow> (\<forall>j<n. jx (a ! j) = jx (b ! j) \<and> jy (a ! j) = jy (b ! j) \<and> jinf (a ! j) = jinf (b ! j))"

lemma zinv_same: "same_xy n a b \<Longrightarrow> j < n \<Longrightarrow> ge_set_gej_zinv ops (a ! j) zi = ge_set_gej_zinv ops (b ! j) zi"
  by (simp add: same_xy_def ge_set_gej_zinv_def)

lemma globalz_loop_same: "same_xy n a b \<Longrightarrow> i \<le> n \<Longrightarrow> ge_globalz_loop ops len a zr r zs i = ge_globalz_loop ops len b zr r zs i"
  by (induction i arbitrary: r zs) (simp_all add: zinv_same [of n a b] Let_def)

lemma globalz_same:
  assumes "same_xy n a b" "a ! (n - 1) = b ! (n - 1)"
  shows "ge_globalz_set_table_gej ops n r gz a zr = ge_globalz_set_table_gej ops n r gz b zr"
  using assms globalz_loop_same [OF assms(1), of "n - 1"] by (simp add: ge_globalz_set_table_gej_def Let_def)

lemma set_table_loop_same: "same_xy n a b \<Longrightarrow> i \<le> n \<Longrightarrow> ge_set_table_loop ops a zr r zi i = ge_set_table_loop ops b zr r zi i"
  by (induction i arbitrary: r zi) (simp_all add: zinv_same [of n a b] Let_def)

lemma set_table_same:
  assumes "same_xy n a b" "a ! (n - 1) = b ! (n - 1)"
  shows "ge_set_table_gej_var ops r a zr n = ge_set_table_gej_var ops r b zr n"
  using assms set_table_loop_same [OF assms(1), of "n - 1"] by (simp add: ge_set_table_gej_var_def Let_def)

lemma globalz_loop_ok:
  assumes "zr_ok fv mag a zr len" "i < len" "len \<le> length r" "mag 8 zs" "\<forall>j<len. i \<le> j \<longrightarrow> ge_ok mag (r ! j)"
  shows "\<forall>j<len. ge_ok mag (ge_globalz_loop ops len a zr r zs i ! j)"
  using assms
proof (induction i arbitrary: r zs)
  case (Suc i)
  let ?zs = "if Suc i \<noteq> len - 1 then fe_mul ops zs (zr ! Suc i) else zs"
  have zs: "mag 8 ?zs" using Suc.prems(1,2,4) chain.mul by (simp add: zr_ok_def)
  have "gej_ok mag (a ! i)" using Suc.prems(1,2) by (simp add: zr_ok_def)
  from zinv_values(1) [OF this zs] have "\<forall>j<len. i \<le> j \<longrightarrow> ge_ok mag (r[i := ge_set_gej_zinv ops (a ! i) ?zs] ! j)"
    using Suc.prems(3,5) by (auto simp: nth_list_update le_less_Suc_eq)
  then show ?case using Suc.IH [OF Suc.prems(1) _ _ zs] Suc.prems(2,3) by (simp add: Let_def)
qed simp

lemma length_globalz_loop: "length (ge_globalz_loop ops len a zr r zs i) = length r"
  by (induction i arbitrary: r zs) (simp_all add: Let_def)

lemma windowa_rep:
  assumes "gej_ok mag a" "gej_rep fv a A" "odd_multiples A n T" "n = ECMULT_TABLE_SIZE WINDOW_A"
    and "length (tm_prej mem) = n" "length (tm_zr mem) = n" "length pre = n"
    and "ecmult_odd_multiples_table_globalz_windowa ops mem pre gz a = (pre', Z)"
  shows "fv Z dvd 1 \<and> mag 8 Z \<and> ge_table fv mag pre' n (fv Z) T"
proof -
  have n: "0 < n" by (simp add: assms(4) ECMULT_TABLE_SIZE_def)
  obtain prej zr where t: "ecmult_odd_multiples_table ops (tm_d mem) n (tm_prej mem) (tm_zr mem) a = (prej, zr)" by fastforce
  from odd_table_rep [OF assms(1-3) n assms(5,6) t] obtain b where
    b: "zr_ok fv mag b zr n" "\<And>j. j < n \<Longrightarrow> gej_rep fv (b ! j) (T j)" "same_xy n prej b" "prej ! (n - 1) = b ! (n - 1)"
    by (auto simp: same_xy_def)
  have g: "ge_globalz_set_table_gej ops n pre gz b zr = (pre', Z)"
    using assms(8) t globalz_same [OF b(3,4), of pre gz zr] by (simp add: ecmult_odd_multiples_table_globalz_windowa_def assms(4))
  have r: "Z = jz (b ! (n - 1))" "\<forall>j<n. \<not> ginf (pre' ! j) \<and> gej_rep fv \<lparr>jx = gx (pre' ! j), jy = gy (pre' ! j), jz = Z, jinf = ginf (pre' ! j)\<rparr> (T j)"
    using globalz_rep [OF b(1) n _ b(2) g] assms(7) by blast+
  have fin: "T j \<noteq> Infinity" if "j < n" for j using assms(3) that by (simp add: odd_multiples_def)
  have bn: "gej_ok mag (b ! (n - 1))" "mag 8 (zr ! (n - 1))" using b(1) n by (simp_all add: zr_ok_def)
  have z: "fv Z dvd 1" "mag 8 Z" using gej_rep_ge(1) [OF b(2) fin, of "n - 1"] bn(1) n by (simp_all add: r(1) gej_ok_def)
  have "ge_ok mag (pre' ! j)" if "j < n" for j
  proof -
    have "\<forall>j<n. n - 1 \<le> j \<longrightarrow> ge_ok mag (pre[n - 1 := \<lparr>gx = jx (b ! (n - 1)), gy = jy (b ! (n - 1)), ginf = False\<rparr>] ! j)"
      using bn(1) n assms(7) by (auto simp: nth_list_update gej_ok_def ge_ok_def)
    from globalz_loop_ok [OF b(1) _ _ bn(2) this] show ?thesis
      using g n that assms(7) by (auto simp: ge_globalz_set_table_gej_def Let_def)
  qed
  moreover have "ge_rep fv (pre' ! j) (ec_scale (fv Z) (T j))" if "j < n" for j
    using r(2) that by (cases "T j") (auto simp: gej_rep_def ge_rep_def)
  moreover have "length pre' = length pre" using g n by (auto simp: ge_globalz_set_table_gej_def Let_def length_globalz_loop)
  ultimately show ?thesis using z assms(7) by (simp add: ge_table_def)
qed

text \<open>Looking up a digit.\<close>

lemma digit_index: "digit_ok n d \<Longrightarrow> 0 < d \<Longrightarrow> nat ((d - 1) div 2) < n" "digit_ok n d \<Longrightarrow> \<not> 0 < d \<Longrightarrow> nat ((- d - 1) div 2) < n"
  by (auto simp: digit_ok_def)

lemma ge_neg_scale:
  assumes "ge_ok mag a" "ge_rep fv a (ec_scale k P)"
  shows "ge_ok mag (ge_neg ops a)" "ge_rep fv (ge_neg ops a) (ec_scale k (ec_neg P))"
  using ge_neg_rep [OF assms] by (simp_all add: ec_scale_neg)

lemma get_ge_rep:
  assumes "ge_table fv mag pre n k T" "digit_ok n d"
  shows "ge_ok mag (ECMULT_TABLE_GET_GE ops pre d)" "ge_rep fv (ECMULT_TABLE_GET_GE ops pre d) (ec_scale k (table_point T d))"
  using assms(1) digit_index [OF assms(2)] ge_neg_scale
  by (auto simp: ge_table_def ECMULT_TABLE_GET_GE_def table_point_def)

lemma get_ge_storage_rep:
  assumes "st_table ops fv mag pre n T" "digit_ok n d"
  shows "ge_ok mag (ECMULT_TABLE_GET_GE_STORAGE ops pre d)" "ge_rep fv (ECMULT_TABLE_GET_GE_STORAGE ops pre d) (table_point T d)"
  using assms(1) digit_index [OF assms(2)] ge_neg_rep
  by (auto simp: st_table_def ECMULT_TABLE_GET_GE_STORAGE_def table_point_def)

text \<open>The endomorphism on points and on tables.\<close>

lemma lambda_scale:
  assumes "ge_ok mag a" "ge_rep fv a (ec_scale k P)"
  shows "ge_ok mag (ge_mul_lambda ops a)" "ge_rep fv (ge_mul_lambda ops a) (ec_scale k (ec_lambda P))"
proof -
  have "mag 8 (fe_const ops 0x7ae96a2b 0x657c0710 0x6e64479e 0xac3434e9 0x9cf04975 0x12f58995 0xc1396c28 0x719501ee)"
    using const [of "0x719501ee" "0xc1396c28" "0x12f58995" "0x9cf04975" "0xac3434e9" "0x6e64479e" "0x657c0710" "0x7ae96a2b"] mag_mono [OF nrm_mag, of _ 8]
    by (simp add: limbs_val_Cons field_p_def)
  then show "ge_ok mag (ge_mul_lambda ops a)" using assms(1) chain.mul by (simp add: ge_mul_lambda_def ge_ok_def)
  show "ge_rep fv (ge_mul_lambda ops a) (ec_scale k (ec_lambda P))"
    using assms(2) lambda_rep(1) [OF assms(1)]
    by (cases P) (auto simp: mult.assoc ge_rep_def ge_mul_lambda_def)
qed

lemma lambda_table:
  assumes "ge_table fv mag pre n k T"
  shows "ge_table fv mag (map (\<lambda>i. ge_mul_lambda ops (pre ! i)) [0..<n]) n k (\<lambda>i. ec_lambda (T i))"
  using assms lambda_scale by (auto simp: ge_table_def)

text \<open>The four optional additions of a pass, and the pass.\<close>

lemma opt_add_ge:
  assumes "gej_ok mag r" "gej_rep fv r (ec_scale k P)" "k dvd 1" "ec_sum P (digit_points T d @ Qs) S"
    and "ge_table fv mag pre n k T" "d = 0 \<or> digit_ok n d"
    and "r' = (if d \<noteq> 0 then fst (gej_add_ge_var ops r r (ECMULT_TABLE_GET_GE ops pre d) None) else r)"
  shows "\<exists>P'. ec_sum P' Qs S \<and> gej_ok mag r' \<and> gej_rep fv r' (ec_scale k P')"
proof (cases "d = 0")
  case False
  then obtain P' where p: "ec_add P (table_point T d) P'" "ec_sum P' Qs S"
    using assms(4) by (auto simp: digit_points_def elim: ec_sum_elims)
  note t = get_ge_rep [OF assms(5), of d]
  show ?thesis
    using add_ge_var_rep [OF assms(1,1) t(1) assms(2) t(2) ec_add_scale [OF assms(3) p(1)], of None] False p(2) assms(6,7) by auto
qed (use assms in \<open>auto simp: digit_points_def\<close>)

lemma opt_add_zinv:
  assumes "gej_ok mag r" "gej_rep fv r (ec_scale (fv Z) P)" "fv Z dvd 1" "mag 8 Z" "ec_sum P (digit_points T d @ Qs) S"
    and "st_table ops fv mag pre n T" "d = 0 \<or> digit_ok n d"
    and "r' = (if d \<noteq> 0 then gej_add_zinv_var ops r r (ECMULT_TABLE_GET_GE_STORAGE ops pre d) Z else r)"
  shows "\<exists>P'. ec_sum P' Qs S \<and> gej_ok mag r' \<and> gej_rep fv r' (ec_scale (fv Z) P')"
proof (cases "d = 0")
  case False
  let ?b = "ECMULT_TABLE_GET_GE_STORAGE ops pre d"
  obtain P' where p: "ec_add P (table_point T d) P'" "ec_sum P' Qs S"
    using assms(5) False by (auto simp: digit_points_def elim: ec_sum_elims)
  have d: "digit_ok n d" using assms(7) False by simp
  note t = get_ge_storage_rep [OF assms(6) d]
  have "ec_scale (fv Z) (table_point T d) = (if ginf ?b then Infinity else Affine (fv (gx ?b) * fv Z ^ 2) (fv (gy ?b) * fv Z ^ 3))"
    using t(2) by (cases "table_point T d") (auto simp: ge_rep_def)
  from add_zinv_var_rep [OF assms(1,1) t(1) assms(4,2) ec_add_scale [OF assms(3) p(1)] this]
  show ?thesis using False p(2) assms(8) by auto
qed (use assms in \<open>auto simp: digit_points_def\<close>)

lemma step_rep:
  assumes "gej_ok mag r" "gej_rep fv r (ec_scale (fv Z) P)" "fv Z dvd 1" "mag 8 Z"
    and "ge_table fv mag pa n (fv Z) A" "ge_table fv mag pl n (fv Z) (\<lambda>i. ec_lambda (A i))" "st_table ops fv mag pg m G" "st_table ops fv mag ph m H"
    and "wnaf_ok n d1" "wnaf_ok n d2" "wnaf_ok m d3" "wnaf_ok m d4"
    and "ec_add P P D" "ec_sum D (ecmult_addends A G H d1 d2 d3 d4 i) S"
  shows "gej_ok mag (ecmult_step ops pa pl pg ph Z d1 d2 d3 d4 i r) \<and> gej_rep fv (ecmult_step ops pa pl pg ph Z d1 d2 d3 d4 i r) (ec_scale (fv Z) S)"
proof -
  define r0 where "r0 = fst (gej_double_var ops r r None)"
  define r1 where "r1 = (if wnaf_digit d1 i \<noteq> 0 then fst (gej_add_ge_var ops r0 r0 (ECMULT_TABLE_GET_GE ops pa (wnaf_digit d1 i)) None) else r0)"
  define r2 where "r2 = (if wnaf_digit d2 i \<noteq> 0 then fst (gej_add_ge_var ops r1 r1 (ECMULT_TABLE_GET_GE ops pl (wnaf_digit d2 i)) None) else r1)"
  define r3 where "r3 = (if wnaf_digit d3 i \<noteq> 0 then gej_add_zinv_var ops r2 r2 (ECMULT_TABLE_GET_GE_STORAGE ops pg (wnaf_digit d3 i)) Z else r2)"
  define r4 where "r4 = (if wnaf_digit d4 i \<noteq> 0 then gej_add_zinv_var ops r3 r3 (ECMULT_TABLE_GET_GE_STORAGE ops ph (wnaf_digit d4 i)) Z else r3)"
  have e: "ecmult_step ops pa pl pg ph Z d1 d2 d3 d4 i r = r4"
    by (simp add: ecmult_step_def Let_def r0_def r1_def r2_def r3_def r4_def)
  have d: "wnaf_digit d1 i = 0 \<or> digit_ok n (wnaf_digit d1 i)" "wnaf_digit d2 i = 0 \<or> digit_ok n (wnaf_digit d2 i)"
    "wnaf_digit d3 i = 0 \<or> digit_ok m (wnaf_digit d3 i)" "wnaf_digit d4 i = 0 \<or> digit_ok m (wnaf_digit d4 i)"
    using assms(9-12) by (simp_all add: wnaf_ok_def)
  have 0: "gej_ok mag r0" "gej_rep fv r0 (ec_scale (fv Z) D)"
    using double_var_rep [OF assms(1,1,2) ec_add_scale [OF assms(3,13)], of None] by (simp_all add: r0_def)
  obtain P1 where 1: "ec_sum P1 (digit_points (\<lambda>i. ec_lambda (A i)) (wnaf_digit d2 i) @ digit_points G (wnaf_digit d3 i) @ digit_points H (wnaf_digit d4 i)) S"
      "gej_ok mag r1" "gej_rep fv r1 (ec_scale (fv Z) P1)"
    using opt_add_ge [OF 0 assms(3) assms(14) [unfolded ecmult_addends_def] assms(5) d(1) r1_def] by blast
  obtain P2 where 2: "ec_sum P2 (digit_points G (wnaf_digit d3 i) @ digit_points H (wnaf_digit d4 i)) S"
      "gej_ok mag r2" "gej_rep fv r2 (ec_scale (fv Z) P2)"
    using opt_add_ge [OF 1(2,3) assms(3) 1(1) assms(6) d(2) r2_def] by blast
  obtain P3 where 3: "ec_sum P3 (digit_points H (wnaf_digit d4 i) @ []) S" "gej_ok mag r3" "gej_rep fv r3 (ec_scale (fv Z) P3)"
    using opt_add_zinv [OF 2(2,3) assms(3,4) 2(1) assms(7) d(3) r3_def] by auto
  obtain P4 where "ec_sum P4 [] S" "gej_ok mag r4" "gej_rep fv r4 (ec_scale (fv Z) P4)"
    using opt_add_zinv [OF 3(2,3) assms(3,4) 3(1) assms(8) d(4) r4_def] by blast
  then show ?thesis unfolding e by (auto elim: ec_sum_elims)
qed

lemma loop_rep:
  assumes "fv Z dvd 1" "mag 8 Z"
    and "ge_table fv mag pa n (fv Z) A" "ge_table fv mag pl n (fv Z) (\<lambda>i. ec_lambda (A i))" "st_table ops fv mag pg m G" "st_table ops fv mag ph m H"
    and "wnaf_ok n d1" "wnaf_ok n d2" "wnaf_ok m d3" "wnaf_ok m d4"
    and "ec_horner (ecmult_addends A G H d1 d2 d3 d4) k P R" "gej_ok mag r" "gej_rep fv r (ec_scale (fv Z) P)"
    and "r' = fold (ecmult_step ops pa pl pg ph Z d1 d2 d3 d4) (rev [0..<k]) r"
  shows "gej_ok mag r' \<and> gej_rep fv r' (ec_scale (fv Z) R)"
  using assms(11-14)
proof (induction k arbitrary: P r)
  case 0
  then show ?case by (auto elim: ec_horner_elims)
next
  case (Suc k)
  from Suc.prems(1) obtain D S where h: "ec_add P P D" "ec_sum D (ecmult_addends A G H d1 d2 d3 d4 k) S"
      "ec_horner (ecmult_addends A G H d1 d2 d3 d4) k S R" by (auto elim: ec_horner_elims)
  from step_rep [OF Suc.prems(2,3) assms(1-10) h(1,2)] show ?case
    using Suc.IH [OF h(3)] Suc.prems(4) by simp
qed

lemma ecmult_rep:
  assumes "em_split_lambda sc na = (n1, n2)" "em_split_128 sc ng = (g1, g2)"
    and "ecmult_wnaf (em_digits sc) 130 n1 WINDOW_A = Some d1" "ecmult_wnaf (em_digits sc) 130 n2 WINDOW_A = Some d2"
    and "ecmult_wnaf (em_digits sc) 129 g1 WINDOW_G = Some d3" "ecmult_wnaf (em_digits sc) 129 g2 WINDOW_G = Some d4"
    and "n = ECMULT_TABLE_SIZE WINDOW_A" "m = ECMULT_TABLE_SIZE WINDOW_G"
    and "wnaf_ok n d1" "wnaf_ok n d2" "wnaf_ok m d3" "wnaf_ok m d4"
    and "gej_ok mag a" "gej_rep fv a A" "odd_multiples A n T" "length (tm_prej mem) = n" "length (tm_zr mem) = n" "length pre = n"
    and "ec_pre_g ctx = Some pg" "ec_pre_g_128 ctx = Some ph" "st_table ops fv mag pg m G" "st_table ops fv mag ph m H"
    and "ec_horner (ecmult_addends T G H d1 d2 d3 d4) (nat (max (max (snd d1) (snd d2)) (max (snd d3) (snd d4)))) Infinity R"
  shows "\<exists>r'. ecmult ops sc mem pre Z ctx r a na ng = Some r' \<and> gej_ok mag r' \<and> gej_rep fv r' R"
proof -
  obtain pa Z' where w: "ecmult_odd_multiples_table_globalz_windowa ops mem pre Z a = (pa, Z')" by fastforce
  have t: "fv Z' dvd 1" "mag 8 Z'" "ge_table fv mag pa n (fv Z') T" using windowa_rep [OF assms(13-15,7,16-18) w] by simp_all
  let ?pl = "map (\<lambda>i. ge_mul_lambda ops (pa ! i)) [0..<n]"
  let ?k = "nat (max (max (snd d1) (snd d2)) (max (snd d3) (snd d4)))"
  define r0 where "r0 = gej_set_infinity ops r"
  define r1 where "r1 = fold (ecmult_step ops pa ?pl pg ph Z' d1 d2 d3 d4) (rev [0..<?k]) r0"
  have z: "mag 8 (fe_clear ops x)" for x using set_int [of 0] nrm_mag mag_mono [of 1 _ 8] by (simp add: clear)
  have r0: "gej_ok mag r0" "gej_rep fv r0 (ec_scale (fv Z') Infinity)"
    using z by (simp_all add: r0_def gej_set_infinity_def gej_ok_def gej_rep_def)
  have r1: "gej_ok mag r1" "gej_rep fv r1 (ec_scale (fv Z') R)"
    using loop_rep [OF t(1-3) lambda_table [OF t(3)] assms(21,22,9-12,23) r0 r1_def] by simp_all
  have m: "mag 8 (fe_mul ops (jz r1) Z')" "fv (fe_mul ops (jz r1) Z') = fv (jz r1) * fv Z'"
    using r1(1) t(2) chain.mul fv_mul by (simp_all add: gej_ok_def)
  have "gej_rep fv (if \<not> jinf r1 then r1\<lparr>jz := fe_mul ops (jz r1) Z'\<rparr> else r1) R"
    using gej_rep_scale [of "fv Z'" fv, OF t(1) m(2), of R] r1(2) by (cases R) (auto simp: gej_rep_def)
  moreover have "gej_ok mag (if \<not> jinf r1 then r1\<lparr>jz := fe_mul ops (jz r1) Z'\<rparr> else r1)" using r1(1) m(1) by (simp add: gej_ok_def)
  moreover have "ecmult ops sc mem pre Z ctx r a na ng = Some (if \<not> jinf r1 then r1\<lparr>jz := fe_mul ops (jz r1) Z'\<rparr> else r1)"
    by (simp add: ecmult_def assms(1-6,19,20) w Let_def assms(7) [symmetric] r0_def [symmetric] r1_def [symmetric])
  ultimately show ?thesis by blast
qed

lemma set_table_loop_ok:
  assumes "zr_ok fv mag a zr len" "i < len" "len \<le> length r" "mag 8 zi" "\<forall>j<len. i \<le> j \<longrightarrow> ge_ok mag (r ! j)"
  shows "\<forall>j<len. ge_ok mag (ge_set_table_loop ops a zr r zi i ! j)"
  using assms
proof (induction i arbitrary: r zi)
  case (Suc i)
  let ?zi = "fe_mul ops zi (zr ! Suc i)"
  have zi: "mag 8 ?zi" using Suc.prems(1,2,4) chain.mul by (simp add: zr_ok_def)
  have "gej_ok mag (a ! i)" using Suc.prems(1,2) by (simp add: zr_ok_def)
  from zinv_values(1) [OF this zi] have "\<forall>j<len. i \<le> j \<longrightarrow> ge_ok mag (r[i := ge_set_gej_zinv ops (a ! i) ?zi] ! j)"
    using Suc.prems(3,5) by (auto simp: nth_list_update le_less_Suc_eq)
  then show ?case using Suc.IH [OF Suc.prems(1) _ _ zi] Suc.prems(2,3) by (simp add: Let_def)
qed simp

lemma storage_ok:
  assumes "ge_ok mag a"
  shows "ge_ok mag (ge_from_storage ops (ge_to_storage ops a))"
proof -
  have "mag 31 (gx a)" "mag 31 (gy a)" using assms mag_mono [of 8 _ 31] by (auto simp: ge_ok_def)
  then have "mag 8 (fe_normalize ops (gx a))" "mag 8 (fe_normalize ops (gy a))"
    using normalize nrm_mag mag_mono [of 1 _ 8] by auto
  then show ?thesis using storage_rep(1) [OF assms] by (simp add: ge_ok_def)
qed

text \<open>The table in storage form. The inversion of the last \<open>z\<close> coordinate needs Fermat's equation for it.\<close>

lemma storage_table_rep:
  assumes "gej_ok mag a" "gej_rep fv a A" "odd_multiples A n T" "0 < n" "length (tm_prej mem) = n" "length (tm_zr mem) = n" "length prea = n"
    and "fv (jz (fst (ecmult_odd_multiples_table ops (tm_d mem) n (tm_prej mem) (tm_zr mem) a) ! (n - 1))) ^ nat (field_p - 1) = 1"
  shows "st_table ops fv mag (ecmult_odd_multiples_table_storage_var ops mem prea n a) n T"
proof -
  obtain prej zr where t: "ecmult_odd_multiples_table ops (tm_d mem) n (tm_prej mem) (tm_zr mem) a = (prej, zr)" by fastforce
  from odd_table_rep [OF assms(1-6) t] obtain b where
    b: "zr_ok fv mag b zr n" "\<And>j. j < n \<Longrightarrow> gej_rep fv (b ! j) (T j)" "same_xy n prej b" "prej ! (n - 1) = b ! (n - 1)"
    by (auto simp: same_xy_def)
  let ?r = "ge_set_table_gej_var ops prea b zr n"
  have f: "fv (jz (b ! (n - 1))) ^ nat (field_p - 1) = 1" using assms(8) b(4) by (simp add: t)
  have rep: "\<forall>j<n. ge_rep fv (?r ! j) (T j)" by (rule set_table_rep [OF b(1) _ b(2) f]) (simp_all add: assms(7))
  have bn: "gej_ok mag (b ! (n - 1))" using b(1) assms(4) by (simp add: zr_ok_def)
  have zi: "mag 8 (fe_inv ops (jz (b ! (n - 1))))" using inv_mag [of "jz (b ! (n - 1))"] bn mag_mono [of 1 _ 8] by (simp add: gej_ok_def)
  have "\<forall>j<n. n - 1 \<le> j \<longrightarrow> ge_ok mag (prea[n - 1 := ge_set_gej_zinv ops (b ! (n - 1)) (fe_inv ops (jz (b ! (n - 1))))] ! j)"
    using zinv_values(1) [OF bn zi] assms(4,7) by (auto simp: nth_list_update)
  from set_table_loop_ok [OF b(1) _ _ zi this] have ok: "\<forall>j<n. ge_ok mag (?r ! j)"
    using assms(4,7) by (simp add: ge_set_table_gej_var_def Let_def)
  have "T j \<noteq> Infinity \<and> ge_ok mag (ge_from_storage ops (ge_to_storage ops (?r ! j))) \<and> ge_rep fv (ge_from_storage ops (ge_to_storage ops (?r ! j))) (T j)"
    if j: "j < n" for j
  proof -
    have T: "T j \<noteq> Infinity" using assms(3) j by (simp add: odd_multiples_def)
    have "ge_ok mag (ge_from_storage ops (ge_to_storage ops (?r ! j)))" using storage_ok ok j by blast
    then show ?thesis using T storage_rep(2) [of "?r ! j"] ok rep j by (cases "T j") auto
  qed
  then show ?thesis
    using set_table_same [OF b(3,4), of prea zr] by (simp add: st_table_def ecmult_odd_multiples_table_storage_var_def t)
qed

end

subsection \<open>The life of a context\<close>

text \<open>A context has both tables, of full length, or none.\<close>

definition ecmult_context_ok :: "'st ecmult_context \<Rightarrow> bool" where
  "ecmult_context_ok ctx \<longleftrightarrow> ec_pre_g ctx = None \<and> ec_pre_g_128 ctx = None \<or>
    (\<exists>g h. ec_pre_g ctx = Some g \<and> ec_pre_g_128 ctx = Some h \<and> length g = ECMULT_TABLE_SIZE WINDOW_G \<and> length h = ECMULT_TABLE_SIZE WINDOW_G)"

lemma storage_var_length [simp]: "length (ecmult_odd_multiples_table_storage_var ops mem prea n a) = n"
  by (simp add: ecmult_odd_multiples_table_storage_var_def Let_def split: prod.split)

subsection \<open>The recodings of the four scalars\<close>

lemma wnaf_digits_ok:
  assumes "wnaf_digits w ds" "n \<le> int (length ds)" "2 \<le> w"
  shows "wnaf_ok (ECMULT_TABLE_SIZE w) (ds, n)"
proof -
  have e: "(2 :: int) ^ (w - 1) = 2 * 2 ^ (w - 2)" using assms(3) power_Suc [of "2 :: int" "w - 2"] by (simp add: Suc_diff_Suc numeral_2_eq_2)
  show ?thesis
    unfolding wnaf_ok_def
  proof
    fix i
    show "wnaf_digit (ds, n) i = 0 \<or> digit_ok (ECMULT_TABLE_SIZE w) (wnaf_digit (ds, n) i)"
      using assms(1,2) e by (cases "int i < n") (auto simp: wnaf_digit_def wnaf_digits_def digit_ok_def ECMULT_TABLE_SIZE_def)
  qed
qed

context scalar_digits
begin

lemma wnaf_short:
  assumes "sval a < order_n" "2 \<le> w" "w \<le> 30" "len \<le> 256" "129 \<le> len" "\<bar>signed_mod (sval a)\<bar> < 2 ^ 128"
  shows "\<exists>d. ecmult_wnaf ops len a w = Some d \<and> length (fst d) = len \<and> digit_sum 1 (fst d) = signed_mod (sval a) \<and>
    wnaf_ok (ECMULT_TABLE_SIZE w) d \<and> 0 \<le> snd d \<and> snd d \<le> int len"
proof -
  have v: "signed_mod (sval a) = (if sval a < 2 ^ 255 then sval a else sval a - order_n)"
    using assms(6) sval_range(1) [of a] by (auto simp: signed_mod_def order_n_def split: if_splits)
  have "(2 :: int) ^ 128 \<le> 2 ^ (len - 1)" using assms(5) by (intro power_increasing) auto
  then have "\<bar>signed_mod (sval a)\<bar> < 2 ^ (len - 1)" using assms(6) by linarith
  from ecmult_wnaf_val [OF assms(1-4) v this] obtain ds n where d: "ecmult_wnaf ops len a w = Some (ds, n)" "length ds = len"
      "digit_sum 1 ds = signed_mod (sval a)" "wnaf_digits w ds" "0 \<le> n" "n \<le> int len" by blast
  then show ?thesis using wnaf_digits_ok [OF d(4) _ assms(2), of n] by (intro exI [of _ "(ds, n)"]) simp
qed

lemma wnaf_of_zero:
  assumes "sval s = 0" "len \<le> 256"
  shows "ecmult_wnaf ops len s w = Some (replicate len 0, 0)"
proof -
  have g: "uint (dg_get_bits ops s (of_nat k) 1) = 0" if "k < 256" for k
    using get_bits_val [of "of_nat k" 1 s] that by (simp add: unat_of_nat Suc_le_eq assms(1))
  have "k \<le> len \<Longrightarrow> ecmult_wnaf_loop ops s len w 1 (len - k) 0 (- 1) ds = Some (ds, - 1)" for k ds
  proof (induction k)
    case (Suc k)
    then show ?case using g [of "len - Suc k"] assms(2) by (subst ecmult_wnaf_loop.simps) (simp add: Suc_diff_Suc)
  qed (simp add: ecmult_wnaf_loop.simps)
  from this [of len "replicate len 0"] show ?thesis
    using g [of 255] by (simp add: ecmult_wnaf_def Let_def uint_0_iff)
qed

end

text \<open>The scalar side of \<open>ecmult\<close>: the digit operations, the generic scalar code and the two splits of one representation.\<close>

locale ecmult_recode = dg: scalar_digits "em_digits sc" sval + ar: scalar_arith sops sval
  for sc :: "'s ecmult_scalar" and sops :: "'s scalar_ops" and sval :: "'s \<Rightarrow> int" +
  assumes split_lambda: "em_split_lambda sc = scalar_split_lambda sops"
    and split_128: "em_split_128 sc a = (r1, r2) \<Longrightarrow> sval a = sval r1 + 2 ^ 128 * sval r2 \<and> sval r1 < 2 ^ 128 \<and> sval r2 < 2 ^ 128"
begin

lemma signed_mod_lambda: "(signed_mod a + scalar_lambda * signed_mod b) mod order_n = (a + scalar_lambda * b) mod order_n"
proof -
  have "signed_mod c mod order_n = c mod order_n" for c by (simp add: signed_mod_def)
  then show ?thesis by (metis mod_add_cong mod_mult_cong)
qed

lemma split_digits:
  assumes na: "sval na < order_n" and "em_split_lambda sc na = (n1, n2)" "em_split_128 sc ng = (g1, g2)"
  shows "\<exists>d1 d2 d3 d4. ecmult_wnaf (em_digits sc) 130 n1 WINDOW_A = Some d1 \<and> ecmult_wnaf (em_digits sc) 130 n2 WINDOW_A = Some d2 \<and>
    ecmult_wnaf (em_digits sc) 129 g1 WINDOW_G = Some d3 \<and> ecmult_wnaf (em_digits sc) 129 g2 WINDOW_G = Some d4 \<and>
    wnaf_ok (ECMULT_TABLE_SIZE WINDOW_A) d1 \<and> wnaf_ok (ECMULT_TABLE_SIZE WINDOW_A) d2 \<and>
    wnaf_ok (ECMULT_TABLE_SIZE WINDOW_G) d3 \<and> wnaf_ok (ECMULT_TABLE_SIZE WINDOW_G) d4 \<and>
    (digit_sum 1 (fst d1) + scalar_lambda * digit_sum 1 (fst d2)) mod order_n = sval na \<and>
    digit_sum 1 (fst d3) + 2 ^ 128 * digit_sum 1 (fst d4) = sval ng"
proof -
  note s = assms(2) [unfolded split_lambda] and g = split_128 [OF assms(3)]
  have less: "sval n1 < order_n" "sval n2 < order_n"
    unfolding ar.split_lambda_eqs [OF na s] by (rule pos_mod_bound, simp add: order_n_def)+
  note short = ar.split_lambda_short [OF na s]
  have gs: "signed_mod (sval g1) = sval g1" "signed_mod (sval g2) = sval g2" and gl: "sval g1 < order_n" "sval g2 < order_n"
    using g by (simp_all add: signed_mod_def order_n_def)
  have ga: "\<bar>signed_mod (sval g1)\<bar> < 2 ^ 128" "\<bar>signed_mod (sval g2)\<bar> < 2 ^ 128"
    unfolding gs using g dg.sval_range(1) [of g1] dg.sval_range(1) [of g2] by simp_all
  have w: "2 \<le> WINDOW_A" "WINDOW_A \<le> 30" "2 \<le> WINDOW_G" "WINDOW_G \<le> 30" by (simp_all add: WINDOW_A_def WINDOW_G_def)
  have len: "(130 :: nat) \<le> 256" "(129 :: nat) \<le> 130" "(129 :: nat) \<le> 256" "(129 :: nat) \<le> 129" by simp_all
  obtain d1 where d1: "ecmult_wnaf (em_digits sc) 130 n1 WINDOW_A = Some d1" "digit_sum 1 (fst d1) = signed_mod (sval n1)"
      "wnaf_ok (ECMULT_TABLE_SIZE WINDOW_A) d1" using dg.wnaf_short [OF less(1) w(1,2) len(1,2) short(1)] by blast
  obtain d2 where d2: "ecmult_wnaf (em_digits sc) 130 n2 WINDOW_A = Some d2" "digit_sum 1 (fst d2) = signed_mod (sval n2)"
      "wnaf_ok (ECMULT_TABLE_SIZE WINDOW_A) d2" using dg.wnaf_short [OF less(2) w(1,2) len(1,2) short(2)] by blast
  obtain d3 where d3: "ecmult_wnaf (em_digits sc) 129 g1 WINDOW_G = Some d3" "digit_sum 1 (fst d3) = sval g1"
      "wnaf_ok (ECMULT_TABLE_SIZE WINDOW_G) d3" using dg.wnaf_short [OF gl(1) w(3,4) len(3,4) ga(1)] unfolding gs by blast
  obtain d4 where d4: "ecmult_wnaf (em_digits sc) 129 g2 WINDOW_G = Some d4" "digit_sum 1 (fst d4) = sval g2"
      "wnaf_ok (ECMULT_TABLE_SIZE WINDOW_G) d4" using dg.wnaf_short [OF gl(2) w(3,4) len(3,4) ga(2)] unfolding gs by blast
  have "(digit_sum 1 (fst d1) + scalar_lambda * digit_sum 1 (fst d2)) mod order_n = sval na"
    unfolding d1(2) d2(2) signed_mod_lambda by (rule ar.split_lambda_sum [OF na s])
  moreover have "digit_sum 1 (fst d3) + 2 ^ 128 * digit_sum 1 (fst d4) = sval ng" unfolding d3(2) d4(2) using g by simp
  ultimately show ?thesis
    by (intro exI [of _ d1] exI [of _ d2] exI [of _ d3] exI [of _ d4] conjI d1 d2 d3 d4)
qed

lemma split_of_zero:
  assumes "sval s = 0" "em_split_lambda sc s = (n1, n2)" "em_split_128 sc s = (g1, g2)"
  shows "sval n1 = 0" "sval n2 = 0" "sval g1 = 0" "sval g2 = 0"
proof -
  have l: "sval s < order_n" by (simp add: assms(1) order_n_def)
  note e = ar.split_lambda_eqs [OF l assms(2) [unfolded split_lambda]]
  show "sval n2 = 0" using e(1) by (simp add: assms(1) order_n_def)
  then show "sval n1 = 0" using e(2) by (simp add: assms(1) order_n_def)
  have n: "0 \<le> sval g1" "0 \<le> sval g2" "sval g1 + 0x100000000000000000000000000000000 * sval g2 = 0"
    using split_128 [OF assms(3)] dg.sval_range(1) assms(1) by simp_all
  show "sval g1 = 0" using n by linarith
  show "sval g2 = 0" using n by linarith
qed

end

locale ecmult_full = ecmult_arith fops val mag nrm + ecmult_recode sc sops sval
  for fops :: "('fe, 'st) field_ops" and val mag nrm and sc :: "'s ecmult_scalar" and sops :: "'s scalar_ops" and sval
begin

lemma ecmult_correct:
  assumes "sval na < order_n" "gej_ok mag a" "gej_rep fv a A" "odd_multiples A 8 T"
    and "length (tm_prej mem) = 8" "length (tm_zr mem) = 8" "length pre = 8"
    and "ec_pre_g ctx = Some pg" "ec_pre_g_128 ctx = Some ph" "st_table fops fv mag pg 8192 G" "st_table fops fv mag ph 8192 H"
    and s: "em_split_lambda sc na = (n1, n2)" "em_split_128 sc ng = (g1, g2)"
  shows "\<exists>d1 d2 d3 d4. ecmult_wnaf (em_digits sc) 130 n1 WINDOW_A = Some d1 \<and> ecmult_wnaf (em_digits sc) 130 n2 WINDOW_A = Some d2 \<and>
    ecmult_wnaf (em_digits sc) 129 g1 WINDOW_G = Some d3 \<and> ecmult_wnaf (em_digits sc) 129 g2 WINDOW_G = Some d4 \<and>
    (digit_sum 1 (fst d1) + scalar_lambda * digit_sum 1 (fst d2)) mod order_n = sval na \<and>
    digit_sum 1 (fst d3) + 2 ^ 128 * digit_sum 1 (fst d4) = sval ng \<and>
    wnaf_ok 8 d1 \<and> wnaf_ok 8 d2 \<and> wnaf_ok 8192 d3 \<and> wnaf_ok 8192 d4 \<and>
    (\<forall>R. ec_horner (ecmult_addends T G H d1 d2 d3 d4) (nat (max (max (snd d1) (snd d2)) (max (snd d3) (snd d4)))) Infinity R \<longrightarrow>
      (\<exists>r'. ecmult fops sc mem pre Z ctx r a na ng = Some r' \<and> gej_ok mag r' \<and> gej_rep fv r' R))"
proof -
  have sz: "ECMULT_TABLE_SIZE WINDOW_A = 8" "ECMULT_TABLE_SIZE WINDOW_G = 8192"
    by (simp_all add: ECMULT_TABLE_SIZE_def WINDOW_A_def WINDOW_G_def)
  from split_digits [OF assms(1) s] obtain d1 d2 d3 d4 where
    d: "ecmult_wnaf (em_digits sc) 130 n1 WINDOW_A = Some d1" "ecmult_wnaf (em_digits sc) 130 n2 WINDOW_A = Some d2"
      "ecmult_wnaf (em_digits sc) 129 g1 WINDOW_G = Some d3" "ecmult_wnaf (em_digits sc) 129 g2 WINDOW_G = Some d4"
    and ok: "wnaf_ok 8 d1" "wnaf_ok 8 d2" "wnaf_ok 8192 d3" "wnaf_ok 8192 d4"
    and v: "(digit_sum 1 (fst d1) + scalar_lambda * digit_sum 1 (fst d2)) mod order_n = sval na"
      "digit_sum 1 (fst d3) + 2 ^ 128 * digit_sum 1 (fst d4) = sval ng" unfolding sz by blast
  have "\<exists>r'. ecmult fops sc mem pre Z ctx r a na ng = Some r' \<and> gej_ok mag r' \<and> gej_rep fv r' R"
    if "ec_horner (ecmult_addends T G H d1 d2 d3 d4) (nat (max (max (snd d1) (snd d2)) (max (snd d3) (snd d4)))) Infinity R" for R
    by (rule ecmult_rep [OF s d sz(1) [symmetric] sz(2) [symmetric] ok assms(2-11) that])
  then show ?thesis using d v ok by blast
qed

text \<open>Multiplying by zero gives the point at infinity.\<close>

lemma ecmult_zero:
  assumes "sval na = 0" "gej_ok mag a" "gej_rep fv a A" "odd_multiples A 8 T"
    and "length (tm_prej mem) = 8" "length (tm_zr mem) = 8" "length pre = 8"
    and "ec_pre_g ctx = Some pg" "ec_pre_g_128 ctx = Some ph" "st_table fops fv mag pg 8192 G" "st_table fops fv mag ph 8192 H"
  shows "\<exists>r'. ecmult fops sc mem pre Z ctx r a na na = Some r' \<and> gej_rep fv r' Infinity"
proof -
  obtain n1 n2 where n: "em_split_lambda sc na = (n1, n2)" by fastforce
  obtain g1 g2 where g: "em_split_128 sc na = (g1, g2)" by fastforce
  note z = split_of_zero [OF assms(1) n g]
  have l: "(130 :: nat) \<le> 256" "(129 :: nat) \<le> 256" by simp_all
  have na: "sval na < order_n" by (simp add: assms(1) order_n_def)
  note w = dg.wnaf_of_zero [OF z(1) l(1)] dg.wnaf_of_zero [OF z(2) l(1)] dg.wnaf_of_zero [OF z(3) l(2)] dg.wnaf_of_zero [OF z(4) l(2)]
  from ecmult_correct [OF na assms(2-11) n g, where Z = Z and r = r]
  show ?thesis unfolding w using ec_horner.zero by fastforce
qed

end

subsection \<open>A table with three points\<close>

text \<open>The odd multiples of a point of order six are three points in turn.\<close>

definition small_table :: "nat \<Rightarrow> point" where
  "small_table j = [Affine 2 3, Affine (- 1) 0, Affine 2 (- 3)] ! (j mod 3)"

lemma units: "(2 :: fp) dvd 1" "(6 :: fp) dvd 1"
proof -
  show two: "(2 :: fp) dvd 1" by (rule two_unit)
  have "(of_int (3 * ((2 * field_p + 1) div 3)) :: fp) = of_int 1" unfolding fp_eq_iff by (simp add: field_p_def)
  then have "(3 :: fp) dvd 1" by (metis of_int_1 of_int_mult of_int_numeral dvdI)
  then show "(6 :: fp) dvd 1" using unit_mult [OF two] by fastforce
qed

lemma small_multiples: "odd_multiples (Affine 2 3) n small_table"
  unfolding odd_multiples_def
proof (intro conjI exI [of _ "Affine 0 1"] allI impI)
  show "small_table 0 = Affine 2 3" by (simp add: small_table_def)
  show "small_table i \<noteq> Infinity" for i
  proof -
    have "i mod 3 = 0 \<or> i mod 3 = 1 \<or> i mod 3 = 2" by linarith
    then show ?thesis by (auto simp: small_table_def)
  qed
  show "ec_add (Affine 2 3) (Affine 2 3) (Affine 0 1)" by (rule ec_add.tangent [of _ 2]) (simp_all add: units)
  have a: "ec_add (Affine 2 3) (Affine 0 1) (Affine (- 1) 0)" by (rule ec_add.chord [of _ _ 1]) (simp_all add: units)
  have b: "ec_add (Affine (- 1) 0) (Affine 0 1) (Affine 2 (- 3))" by (rule ec_add.chord [of _ _ 1]) simp_all
  have c: "ec_add (Affine 2 (- 3)) (Affine 0 1) (Affine 2 3)" by (rule ec_add.chord [of _ _ "- 2"]) (simp_all add: units)
  show "ec_add (small_table i) (Affine 0 1) (small_table (Suc i))" for i
  proof -
    have "i mod 3 = 0 \<and> Suc i mod 3 = 1 \<or> i mod 3 = 1 \<and> Suc i mod 3 = 2 \<or> i mod 3 = 2 \<and> Suc i mod 3 = 0" by presburger
    then show ?thesis using a b c by (auto simp: small_table_def)
  qed
qed simp

text \<open>The three points in coordinates, and a stored table of them.\<close>

definition small_ge :: "('fe, 'st) field_ops \<Rightarrow> nat \<Rightarrow> 'fe ge" where
  "small_ge ops j = [\<lparr>gx = fe_set_int ops 2, gy = fe_set_int ops 3, ginf = False\<rparr>,
     \<lparr>gx = fe_negate ops (fe_set_int ops 1) 1, gy = fe_set_int ops 0, ginf = False\<rparr>,
     \<lparr>gx = fe_set_int ops 2, gy = fe_negate ops (fe_set_int ops 3) 1, ginf = False\<rparr>] ! (j mod 3)"

definition small_pre_g :: "('fe, 'st) field_ops \<Rightarrow> nat \<Rightarrow> 'st ge_storage list" where
  "small_pre_g ops n = map (\<lambda>j. ge_to_storage ops (small_ge ops j)) [0..<n]"

lemma small_pre_g_length [simp]: "length (small_pre_g ops n) = n"
  by (simp add: small_pre_g_def)

context ecmult_arith
begin

lemma small_ge_rep: "ge_ok mag (small_ge ops j)" "ge_rep fv (small_ge ops j) (small_table j)"
proof -
  have s: "mag 1 (fe_set_int ops k)" "fv (fe_set_int ops k) = of_int (uint k)" if "uint k < 2 ^ 26" for k
    using set_int [OF that] nrm_mag fv_set_int [OF that] by blast+
  have m: "mag 8 (fe_set_int ops k)" if "uint k < 2 ^ 26" for k by (rule mag_mono [OF s(1) [OF that]]) simp
  have n: "mag 8 (fe_negate ops (fe_set_int ops k) 1)" "fv (fe_negate ops (fe_set_int ops k) 1) = - of_int (uint k)" if "uint k < 2 ^ 26" for k
    using negate [OF s(1) [OF that], of 1] fv_negate [OF s(1) [OF that], of 1] s(2) [OF that] by (auto intro: mag_mono)
  have j: "j mod 3 = 0 \<or> j mod 3 = 1 \<or> j mod 3 = 2" by linarith
  show "ge_ok mag (small_ge ops j)" using j m n by (auto simp: small_ge_def ge_ok_def)
  show "ge_rep fv (small_ge ops j) (small_table j)" using j s(2) n(2) by (auto simp: small_ge_def ge_rep_def small_table_def)
qed

lemma small_pre_g_table: "st_table ops fv mag (small_pre_g ops n) n small_table"
proof -
  have f: "small_table j \<noteq> Infinity" for j
  proof -
    have "j mod 3 = 0 \<or> j mod 3 = 1 \<or> j mod 3 = 2" by linarith
    then show ?thesis by (auto simp: small_table_def)
  qed
  have "ge_rep fv (ge_from_storage ops (ge_to_storage ops (small_ge ops j))) (small_table j)" for j
    using storage_rep(2) [OF small_ge_rep(1) [of j]] small_ge_rep(2) [of j] f [of j] by (cases "small_table j") auto
  then show ?thesis using f storage_ok [OF small_ge_rep(1)] by (simp add: st_table_def small_pre_g_def)
qed

end

end
