(* ===== verification/Ecmult_5x52.thy ===== *)
theory Ecmult_5x52
  imports Ecmult Group_5x52
begin

text \<open>
  Point multiplication over the 5x52 field and the 4x64 scalars: the lemmas of theory \<open>Ecmult\<close> at the interpretation
  \<open>e5\<close>, together with the recoding of theory \<open>Wnaf\<close> and the scalar splits.
\<close>

interpretation e5: ecmult_arith field_ops_5x52 fe_val fe_mag fe_normalized
  by unfold_locales

definition ecmult_scalar_4x64 :: "scalar_4x64 ecmult_scalar" where
  "ecmult_scalar_4x64 = \<lparr>em_digits = digit_ops_4x64, em_split_lambda = scalar_split_lambda scalar_ops_4x64, em_split_128 = scalar_split_128_4x64\<rparr>"

interpretation ef5: ecmult_full field_ops_5x52 fe_val fe_mag fe_normalized ecmult_scalar_4x64 scalar_ops_4x64 scalar_val
proof (intro ecmult_full.intro ecmult_recode.intro ecmult_recode_axioms.intro, unfold ecmult_scalar_4x64_def ecmult_scalar.select_convs)
  show "scalar_split_lambda scalar_ops_4x64 = scalar_split_lambda scalar_ops_4x64" ..
  show "scalar_val a = scalar_val r1 + 2 ^ 128 * scalar_val r2 \<and> scalar_val r1 < 2 ^ 128 \<and> scalar_val r2 < 2 ^ 128"
    if "scalar_split_128_4x64 a = (r1, r2)" for a r1 r2 using scalar_split_128_correct [OF that] by blast
qed (rule e5.ecmult_arith_axioms d4.scalar_digits_axioms s4.scalar_arith_axioms)+

subsection \<open>Properties\<close>

text \<open>\<open>ecmult\<close> splits and recodes both scalars into digits that sum up to them, \<open>na\<close> modulo the group order
  through the eigenvalue \<open>lambda\<close> of the endomorphism and \<open>ng\<close> through \<open>2^128\<close>; and whenever the double-and-add
  computation over the points of the four tables gives \<open>R\<close>, the Jacobian result represents \<open>R\<close>, with coordinates in the
  magnitude bounds: the common denominator, the scaled tables and the final correction of \<open>z\<close> are right.\<close>

theorem ecmult_refines:
  assumes "scalar_ok na" "scalar_ok ng" "gej_ok fe_mag a" "gej_rep fe_fp a A" "odd_multiples A 8 T"
    and "length (tm_prej mem) = 8" "length (tm_zr mem) = 8" "length pre = 8"
    and "ec_pre_g ctx = Some pg" "ec_pre_g_128 ctx = Some ph"
    and "st_table field_ops_5x52 fe_fp fe_mag pg 8192 G" "st_table field_ops_5x52 fe_fp fe_mag ph 8192 H"
    and "scalar_split_lambda scalar_ops_4x64 na = (n1, n2)" "scalar_split_128_4x64 ng = (g1, g2)"
  shows "\<exists>d1 d2 d3 d4. ecmult_wnaf digit_ops_4x64 130 n1 WINDOW_A = Some d1 \<and> ecmult_wnaf digit_ops_4x64 130 n2 WINDOW_A = Some d2 \<and>
    ecmult_wnaf digit_ops_4x64 129 g1 WINDOW_G = Some d3 \<and> ecmult_wnaf digit_ops_4x64 129 g2 WINDOW_G = Some d4 \<and>
    (digit_sum 1 (fst d1) + scalar_lambda * digit_sum 1 (fst d2)) mod order_n = scalar_val na \<and>
    digit_sum 1 (fst d3) + 2 ^ 128 * digit_sum 1 (fst d4) = scalar_val ng \<and>
    wnaf_ok 8 d1 \<and> wnaf_ok 8 d2 \<and> wnaf_ok 8192 d3 \<and> wnaf_ok 8192 d4 \<and>
    (\<forall>R. ec_horner (ecmult_addends T G H d1 d2 d3 d4) (nat (max (max (snd d1) (snd d2)) (max (snd d3) (snd d4)))) Infinity R \<longrightarrow>
      (\<exists>r'. ecmult field_ops_5x52 ecmult_scalar_4x64 mem pre Z ctx r a na ng = Some r' \<and> gej_ok fe_mag r' \<and> gej_rep fe_fp r' R))"
  using ef5.ecmult_correct [of na a A T mem pre ctx pg ph G H n1 n2 ng g1 g2 Z r] assms
  by (simp add: ecmult_scalar_4x64_def fv_fe_fp scalar_ok_def)

text \<open>The witness multiplies a point of order six by zero, with tables of its odd multiples.\<close>

lemma ecmult_refines_witness:
  "\<exists>r. ecmult field_ops_5x52 ecmult_scalar_4x64
      \<lparr>tm_d = \<lparr>jx = FE5 0 0 0 0 0, jy = FE5 0 0 0 0 0, jz = FE5 0 0 0 0 0, jinf = False\<rparr>,
        tm_prej = replicate 8 \<lparr>jx = FE5 0 0 0 0 0, jy = FE5 0 0 0 0 0, jz = FE5 0 0 0 0 0, jinf = False\<rparr>, tm_zr = replicate 8 (FE5 0 0 0 0 0)\<rparr>
      (replicate 8 \<lparr>gx = FE5 0 0 0 0 0, gy = FE5 0 0 0 0 0, ginf = False\<rparr>) (FE5 0 0 0 0 0)
      \<lparr>ec_pre_g = Some (small_pre_g field_ops_5x52 8192), ec_pre_g_128 = Some (small_pre_g field_ops_5x52 8192)\<rparr>
      \<lparr>jx = FE5 0 0 0 0 0, jy = FE5 0 0 0 0 0, jz = FE5 0 0 0 0 0, jinf = False\<rparr>
      \<lparr>jx = FE5 2 0 0 0 0, jy = FE5 3 0 0 0 0, jz = FE5 1 0 0 0 0, jinf = False\<rparr>
      (Scalar4 0 0 0 0) (Scalar4 0 0 0 0) = Some r \<and> gej_rep fe_fp r Infinity"
    (is "\<exists>r. ecmult _ _ ?mem ?pre ?Z ?ctx ?r ?a ?s ?s = Some r \<and> _")
proof -
  have z: "scalar_ok ?s" by (simp add: scalar_ok_def scalar_val_def scalar_limbs_def limbs_val_Cons order_n_def)
  have a: "gej_ok fe_mag ?a" "gej_rep fe_fp ?a (Affine 2 3)"
    by (simp_all add: gej_ok_def gej_rep_def fe_mag_def limbs_le_def fe_fp_eval limbs_val_Cons)
  have l: "length (tm_prej ?mem) = 8" "length (tm_zr ?mem) = 8" "length ?pre = 8" by simp_all
  have c: "ec_pre_g ?ctx = Some (small_pre_g field_ops_5x52 8192)" "ec_pre_g_128 ?ctx = Some (small_pre_g field_ops_5x52 8192)" by simp_all
  note g = e5.small_pre_g_table [of 8192, unfolded fv_fe_fp]
  obtain n1 n2 g1 g2 where sp: "scalar_split_lambda scalar_ops_4x64 ?s = (n1, n2)" "scalar_split_128_4x64 ?s = (g1, g2)" by fastforce
  have v: "scalar_val ?s = 0" by (simp add: scalar_val_def scalar_limbs_def limbs_val_Cons)
  note s0 = ef5.split_of_zero [OF v, unfolded ecmult_scalar_4x64_def ecmult_scalar.select_convs, OF sp]
  have l2: "(130 :: nat) \<le> 256" "(129 :: nat) \<le> 256" by simp_all
  note w = d4.wnaf_of_zero [OF s0(1) l2(1)] d4.wnaf_of_zero [OF s0(2) l2(1)] d4.wnaf_of_zero [OF s0(3) l2(2)] d4.wnaf_of_zero [OF s0(4) l2(2)]
  from ecmult_refines [OF z z a small_multiples l c g g sp, where Z = ?Z and r = ?r]
  show ?thesis unfolding w using ec_horner.zero by fastforce
qed

text \<open>Whatever the memory held before, an initialized context is well formed and has no tables; building gives it both
  tables at full length and a second build changes nothing; a clone of a well-formed context has the same tables, and a
  cleared context has none, so that \<open>ecmult\<close> cannot run on it.\<close>

theorem ecmult_context_life:
  assumes "ecmult_context_ok ctx"
  shows "ecmult_context_ok (ecmult_context_init any) \<and> \<not> ecmult_context_is_built (ecmult_context_init any) \<and>
    ecmult_context_ok (ecmult_context_build ops m1 m2 ctx) \<and> ecmult_context_is_built (ecmult_context_build ops m1 m2 ctx) \<and>
    ecmult_context_build ops m3 m4 (ecmult_context_build ops m1 m2 ctx) = ecmult_context_build ops m1 m2 ctx \<and>
    ecmult_context_clone any ctx = any\<lparr>ec_pre_g := ec_pre_g ctx, ec_pre_g_128 := ec_pre_g_128 ctx\<rparr> \<and>
    ecmult_context_ok (ecmult_context_clone any ctx) \<and>
    ecmult ops sc mem pre Z (ecmult_context_clear any) r a na ng = None"
  using assms
  by (auto simp: ecmult_context_ok_def ecmult_context_init_def ecmult_context_is_built_def ecmult_context_build_def Let_def
      ecmult_context_clone_def ecmult_context_clear_def ecmult_def bind_eq_None_conv split: prod.split option.split)

lemma ecmult_context_life_witness:
  "ecmult_context_clone \<lparr>ec_pre_g = None, ec_pre_g_128 = None\<rparr> \<lparr>ec_pre_g = Some (small_pre_g field_ops_5x52 8192), ec_pre_g_128 = Some (small_pre_g field_ops_5x52 8192)\<rparr> =
    \<lparr>ec_pre_g = Some (small_pre_g field_ops_5x52 8192), ec_pre_g_128 = Some (small_pre_g field_ops_5x52 8192)\<rparr>"
proof -
  have "ecmult_context_ok \<lparr>ec_pre_g = Some (small_pre_g field_ops_5x52 8192), ec_pre_g_128 = Some (small_pre_g field_ops_5x52 8192)\<rparr>"
    by (simp add: ecmult_context_ok_def ECMULT_TABLE_SIZE_def WINDOW_G_def)
  from ecmult_context_life [OF this, of "\<lparr>ec_pre_g = None, ec_pre_g_128 = None\<rparr>",
      THEN conjunct2, THEN conjunct2, THEN conjunct2, THEN conjunct2, THEN conjunct2, THEN conjunct1]
  show ?thesis by simp
qed

end
