(* ===== verification/Field_10x26.thy ===== *)
theory Field_10x26
  imports Field_Limbs
begin

text \<open>
  The field representation with ten 26-bit limbs in 32-bit words: \<open>field_10x26.h\<close> and \<open>field_10x26_impl.h\<close>, the one that the
  build of the program selects. Every operation is a definition on machine words; the lemmas relate it to the
  integer \<open>fe_val_10x26\<close> under the magnitude preconditions of \<open>field.h\<close>. The constants with suffix \<open>UL\<close> are taken at the width of
  the limbs: where \<open>unsigned long\<close> is wider, the assignment to a limb drops the difference and the compared sums do not carry.
  The theory ends with the interpretation \<open>f10\<close> of the field interface.
\<close>

subsection \<open>The struct and its constants (field_10x26.h)\<close>

record fe_10x26 =
  xn0 :: u32
  xn1 :: u32
  xn2 :: u32
  xn3 :: u32
  xn4 :: u32
  xn5 :: u32
  xn6 :: u32
  xn7 :: u32
  xn8 :: u32
  xn9 :: u32

abbreviation FE10 :: "u32 \<Rightarrow> u32 \<Rightarrow> u32 \<Rightarrow> u32 \<Rightarrow> u32 \<Rightarrow> u32 \<Rightarrow> u32 \<Rightarrow> u32 \<Rightarrow> u32 \<Rightarrow> u32 \<Rightarrow> fe_10x26" where
  "FE10 a b c d e f g h i j \<equiv> \<lparr>xn0 = a, xn1 = b, xn2 = c, xn3 = d, xn4 = e, xn5 = f, xn6 = g, xn7 = h, xn8 = i, xn9 = j\<rparr>"

definition fe_const_10x26 :: "u32 \<Rightarrow> u32 \<Rightarrow> u32 \<Rightarrow> u32 \<Rightarrow> u32 \<Rightarrow> u32 \<Rightarrow> u32 \<Rightarrow> u32 \<Rightarrow> fe_10x26" where
  "fe_const_10x26 d7 d6 d5 d4 d3 d2 d1 d0 = FE10
    (d0 AND 0x3FFFFFF)
    (drop_bit 26 d0 OR push_bit 6 (d1 AND 0xFFFFF))
    (drop_bit 20 d1 OR push_bit 12 (d2 AND 0x3FFF))
    (drop_bit 14 d2 OR push_bit 18 (d3 AND 0xFF))
    (drop_bit 8 d3 OR push_bit 24 (d4 AND 0x3))
    (drop_bit 2 d4 AND 0x3FFFFFF)
    (drop_bit 28 d4 OR push_bit 4 (d5 AND 0x3FFFFF))
    (drop_bit 22 d5 OR push_bit 10 (d6 AND 0xFFFF))
    (drop_bit 16 d6 OR push_bit 16 (d7 AND 0x3FF))
    (drop_bit 10 d7)"

record fe_storage_10x26 =
  sx0 :: u32
  sx1 :: u32
  sx2 :: u32
  sx3 :: u32
  sx4 :: u32
  sx5 :: u32
  sx6 :: u32
  sx7 :: u32

abbreviation Storage8 :: "u32 \<Rightarrow> u32 \<Rightarrow> u32 \<Rightarrow> u32 \<Rightarrow> u32 \<Rightarrow> u32 \<Rightarrow> u32 \<Rightarrow> u32 \<Rightarrow> fe_storage_10x26" where
  "Storage8 a b c d e f g h \<equiv> \<lparr>sx0 = a, sx1 = b, sx2 = c, sx3 = d, sx4 = e, sx5 = f, sx6 = g, sx7 = h\<rparr>"

definition fe_storage_const_10x26 :: "u32 \<Rightarrow> u32 \<Rightarrow> u32 \<Rightarrow> u32 \<Rightarrow> u32 \<Rightarrow> u32 \<Rightarrow> u32 \<Rightarrow> u32 \<Rightarrow> fe_storage_10x26" where
  "fe_storage_const_10x26 d7 d6 d5 d4 d3 d2 d1 d0 = Storage8 d0 d1 d2 d3 d4 d5 d6 d7"

subsection \<open>Normalization (field_10x26_impl.h 15--264)\<close>

definition fe_verify_10x26 :: "fe_10x26 \<Rightarrow> int \<Rightarrow> bool \<Rightarrow> bool" where
  "fe_verify_10x26 a magnitude normalized =
    (let m = (if normalized then 1 else 2 * magnitude);
         r = (xn0 a \<le> 0x3FFFFFF * word_of_int m \<and> xn1 a \<le> 0x3FFFFFF * word_of_int m \<and> xn2 a \<le> 0x3FFFFFF * word_of_int m \<and> xn3 a \<le> 0x3FFFFFF * word_of_int m \<and> xn4 a \<le> 0x3FFFFFF * word_of_int m \<and> xn5 a \<le> 0x3FFFFFF * word_of_int m \<and> xn6 a \<le> 0x3FFFFFF * word_of_int m \<and> xn7 a \<le> 0x3FFFFFF * word_of_int m \<and> xn8 a \<le> 0x3FFFFFF * word_of_int m \<and>
              xn9 a \<le> 0x03FFFFF * word_of_int m \<and> 0 \<le> magnitude \<and> magnitude \<le> 32)
     in if normalized then
          (let r = (r \<and> magnitude \<le> 1)
           in if r \<and> xn9 a = 0x03FFFFF
              then (let mid = ((((((xn8 a AND xn7 a) AND xn6 a) AND xn5 a) AND xn4 a) AND xn3 a) AND xn2 a)
                    in if mid = 0x3FFFFFF then r \<and> xn1 a + 0x40 + drop_bit 26 (xn0 a + 0x3D1) \<le> 0x3FFFFFF else r)
              else r)
        else r)"

text \<open>The carries of a pass, from limb to limb, which the normalization functions repeat.\<close>

definition fe_carry_10x26 :: "fe_10x26 \<Rightarrow> fe_10x26" where
  "fe_carry_10x26 t =
    (let t0 = xn0 t;
         t1 = xn1 t + drop_bit 26 t0; t0 = t0 AND 0x3FFFFFF;
         t2 = xn2 t + drop_bit 26 t1; t1 = t1 AND 0x3FFFFFF;
         t3 = xn3 t + drop_bit 26 t2; t2 = t2 AND 0x3FFFFFF;
         t4 = xn4 t + drop_bit 26 t3; t3 = t3 AND 0x3FFFFFF;
         t5 = xn5 t + drop_bit 26 t4; t4 = t4 AND 0x3FFFFFF;
         t6 = xn6 t + drop_bit 26 t5; t5 = t5 AND 0x3FFFFFF;
         t7 = xn7 t + drop_bit 26 t6; t6 = t6 AND 0x3FFFFFF;
         t8 = xn8 t + drop_bit 26 t7; t7 = t7 AND 0x3FFFFFF;
         t9 = xn9 t + drop_bit 26 t8; t8 = t8 AND 0x3FFFFFF
     in FE10 t0 t1 t2 t3 t4 t5 t6 t7 t8 t9)"

text \<open>The start of a pass: the bits of the top limb above bit 22 are folded into the low limbs.\<close>

definition fe_first_pass_10x26 :: "fe_10x26 \<Rightarrow> fe_10x26" where
  "fe_first_pass_10x26 r =
    (let x = drop_bit 22 (xn9 r); t9 = xn9 r AND 0x03FFFFF;
         t0 = xn0 r + x * 0x3D1; t1 = xn1 r + push_bit 6 x
     in fe_carry_10x26 (r\<lparr>xn0 := t0, xn1 := t1, xn9 := t9\<rparr>))"

definition fe_reduce_flag_10x26 :: "fe_10x26 \<Rightarrow> u32" where
  "fe_reduce_flag_10x26 t =
    (let m = ((((((xn2 t AND xn3 t) AND xn4 t) AND xn5 t) AND xn6 t) AND xn7 t) AND xn8 t)
     in drop_bit 22 (xn9 t) OR ((of_bool (xn9 t = 0x03FFFFF) AND of_bool (m = 0x3FFFFFF))
          AND of_bool (xn1 t + 0x40 + drop_bit 26 (xn0 t + 0x3D1) > 0x3FFFFFF)))"

definition fe_normalize_10x26 :: "fe_10x26 \<Rightarrow> fe_10x26" where
  "fe_normalize_10x26 r =
    (let t = fe_first_pass_10x26 r;
         x = fe_reduce_flag_10x26 t;
         t0 = xn0 t + x * 0x3D1; t1 = xn1 t + push_bit 6 x;
         t = fe_carry_10x26 (t\<lparr>xn0 := t0, xn1 := t1\<rparr>)
     in t\<lparr>xn9 := xn9 t AND 0x03FFFFF\<rparr>)"

definition fe_normalize_weak_10x26 :: "fe_10x26 \<Rightarrow> fe_10x26" where
  "fe_normalize_weak_10x26 r = fe_first_pass_10x26 r"

definition fe_normalize_var_10x26 :: "fe_10x26 \<Rightarrow> fe_10x26" where
  "fe_normalize_var_10x26 r =
    (let t = fe_first_pass_10x26 r;
         x = fe_reduce_flag_10x26 t
     in if x \<noteq> 0
        then let t0 = xn0 t + 0x3D1; t1 = xn1 t + push_bit 6 x;
                 t = fe_carry_10x26 (t\<lparr>xn0 := t0, xn1 := t1\<rparr>)
             in t\<lparr>xn9 := xn9 t AND 0x03FFFFF\<rparr>
        else t)"

definition fe_normalizes_to_zero_10x26 :: "fe_10x26 \<Rightarrow> bool" where
  "fe_normalizes_to_zero_10x26 r =
    (let x = drop_bit 22 (xn9 r); t9 = xn9 r AND 0x03FFFFF;
         t0 = xn0 r + x * 0x3D1; t1 = xn1 r + push_bit 6 x;
         t1 = t1 + drop_bit 26 t0; t0 = t0 AND 0x3FFFFFF; z0 = t0; z1 = t0 XOR 0x3D0;
         t2 = xn2 r + drop_bit 26 t1; t1 = t1 AND 0x3FFFFFF; z0 = z0 OR t1; z1 = z1 AND (t1 XOR 0x40);
         t3 = xn3 r + drop_bit 26 t2; t2 = t2 AND 0x3FFFFFF; z0 = z0 OR t2; z1 = z1 AND t2;
         t4 = xn4 r + drop_bit 26 t3; t3 = t3 AND 0x3FFFFFF; z0 = z0 OR t3; z1 = z1 AND t3;
         t5 = xn5 r + drop_bit 26 t4; t4 = t4 AND 0x3FFFFFF; z0 = z0 OR t4; z1 = z1 AND t4;
         t6 = xn6 r + drop_bit 26 t5; t5 = t5 AND 0x3FFFFFF; z0 = z0 OR t5; z1 = z1 AND t5;
         t7 = xn7 r + drop_bit 26 t6; t6 = t6 AND 0x3FFFFFF; z0 = z0 OR t6; z1 = z1 AND t6;
         t8 = xn8 r + drop_bit 26 t7; t7 = t7 AND 0x3FFFFFF; z0 = z0 OR t7; z1 = z1 AND t7;
         t9 = t9 + drop_bit 26 t8; t8 = t8 AND 0x3FFFFFF; z0 = z0 OR t8; z1 = z1 AND t8;
         z0 = z0 OR t9; z1 = z1 AND (t9 XOR 0x3C00000)
     in z0 = 0 \<or> z1 = 0x3FFFFFF)"

definition fe_normalizes_to_zero_var_10x26 :: "fe_10x26 \<Rightarrow> bool" where
  "fe_normalizes_to_zero_var_10x26 r =
    (let t0 = xn0 r; t9 = xn9 r;
         x = drop_bit 22 t9;
         t0 = t0 + x * 0x3D1;
         z0 = t0 AND 0x3FFFFFF;
         z1 = z0 XOR 0x3D0
     in if z0 \<noteq> 0 \<and> z1 \<noteq> 0x3FFFFFF then False
        else
          let t1 = xn1 r; t2 = xn2 r; t3 = xn3 r; t4 = xn4 r; t5 = xn5 r; t6 = xn6 r; t7 = xn7 r; t8 = xn8 r;
              t9 = t9 AND 0x03FFFFF;
              t1 = t1 + push_bit 6 x;
              t1 = t1 + drop_bit 26 t0;
              t2 = t2 + drop_bit 26 t1; t1 = t1 AND 0x3FFFFFF; z0 = z0 OR t1; z1 = z1 AND (t1 XOR 0x40);
              t3 = t3 + drop_bit 26 t2; t2 = t2 AND 0x3FFFFFF; z0 = z0 OR t2; z1 = z1 AND t2;
              t4 = t4 + drop_bit 26 t3; t3 = t3 AND 0x3FFFFFF; z0 = z0 OR t3; z1 = z1 AND t3;
              t5 = t5 + drop_bit 26 t4; t4 = t4 AND 0x3FFFFFF; z0 = z0 OR t4; z1 = z1 AND t4;
              t6 = t6 + drop_bit 26 t5; t5 = t5 AND 0x3FFFFFF; z0 = z0 OR t5; z1 = z1 AND t5;
              t7 = t7 + drop_bit 26 t6; t6 = t6 AND 0x3FFFFFF; z0 = z0 OR t6; z1 = z1 AND t6;
              t8 = t8 + drop_bit 26 t7; t7 = t7 AND 0x3FFFFFF; z0 = z0 OR t7; z1 = z1 AND t7;
              t9 = t9 + drop_bit 26 t8; t8 = t8 AND 0x3FFFFFF; z0 = z0 OR t8; z1 = z1 AND t8;
              z0 = z0 OR t9; z1 = z1 AND (t9 XOR 0x3C00000)
          in z0 = 0 \<or> z1 = 0x3FFFFFF)"

subsection \<open>Conversions, comparison and linear operations (field_10x26_impl.h 266--424)\<close>

definition fe_set_int_10x26 :: "u32 \<Rightarrow> fe_10x26" where
  "fe_set_int_10x26 a = FE10 a 0 0 0 0 0 0 0 0 0"

definition fe_is_zero_10x26 :: "fe_10x26 \<Rightarrow> bool" where
  "fe_is_zero_10x26 a \<longleftrightarrow> (xn0 a OR xn1 a OR xn2 a OR xn3 a OR xn4 a OR xn5 a OR xn6 a OR xn7 a OR xn8 a OR xn9 a) = 0"

definition fe_is_odd_10x26 :: "fe_10x26 \<Rightarrow> bool" where
  "fe_is_odd_10x26 a \<longleftrightarrow> xn0 a AND 1 \<noteq> 0"

definition fe_clear_10x26 :: "fe_10x26 \<Rightarrow> fe_10x26" where
  "fe_clear_10x26 a = a\<lparr>xn0 := 0, xn1 := 0, xn2 := 0, xn3 := 0, xn4 := 0, xn5 := 0, xn6 := 0, xn7 := 0, xn8 := 0, xn9 := 0\<rparr>"

definition fe_cmp_var_10x26 :: "fe_10x26 \<Rightarrow> fe_10x26 \<Rightarrow> int" where
  "fe_cmp_var_10x26 a b = cmp_limbs [(xn9 a, xn9 b), (xn8 a, xn8 b), (xn7 a, xn7 b), (xn6 a, xn6 b), (xn5 a, xn5 b), (xn4 a, xn4 b), (xn3 a, xn3 b), (xn2 a, xn2 b), (xn1 a, xn1 b), (xn0 a, xn0 b)]"

text \<open>The pairs \<open>(i, j)\<close> that the two nested loops of the byte conversions run through.\<close>

definition fe_b32_steps_10x26 :: "(nat \<times> nat) list" where
  "fe_b32_steps_10x26 = concat (map (\<lambda>i. map (\<lambda>j. (i, j)) [0..<4]) [0..<32])"

definition fe_set_b32_10x26 :: "u8 list \<Rightarrow> bool \<times> fe_10x26" where
  "fe_set_b32_10x26 a =
    (let n = foldl (\<lambda>n (i, j).
               let limb = (8 * i + 2 * j) div 26; shift = (8 * i + 2 * j) mod 26
               in n[limb := n ! limb OR push_bit shift (ucast (drop_bit (2 * j) (a ! (31 - i)) AND 0x3))])
             [0, 0, 0, 0, 0, 0, 0, 0, 0, 0] fe_b32_steps_10x26;
         r = FE10 (n ! 0) (n ! 1) (n ! 2) (n ! 3) (n ! 4) (n ! 5) (n ! 6) (n ! 7) (n ! 8) (n ! 9)
     in (\<not> (xn9 r = 0x3FFFFF \<and>
            ((((((xn8 r AND xn7 r) AND xn6 r) AND xn5 r) AND xn4 r) AND xn3 r) AND xn2 r) = 0x3FFFFFF \<and>
            xn1 r + 0x40 + drop_bit 26 (xn0 r + 0x3D1) > 0x3FFFFFF), r))"

definition fe_get_b32_10x26 :: "fe_10x26 \<Rightarrow> u8 list" where
  "fe_get_b32_10x26 a =
    map (\<lambda>k. let i = 31 - k;
                 c = foldl (\<lambda>c j.
                       let limb = (8 * i + 2 * j) div 26; shift = (8 * i + 2 * j) mod 26
                       in c OR push_bit (2 * j) (drop_bit shift ([xn0 a, xn1 a, xn2 a, xn3 a, xn4 a, xn5 a, xn6 a, xn7 a, xn8 a, xn9 a] ! limb) AND 0x3))
                     (0 :: u32) [0..<4]
             in ucast c) [0..<32]"

definition fe_negate_10x26 :: "fe_10x26 \<Rightarrow> u32 \<Rightarrow> fe_10x26" where
  "fe_negate_10x26 a m = FE10
    (0x3FFFC2F * 2 * (m + 1) - xn0 a)
    (0x3FFFFBF * 2 * (m + 1) - xn1 a)
    (0x3FFFFFF * 2 * (m + 1) - xn2 a)
    (0x3FFFFFF * 2 * (m + 1) - xn3 a)
    (0x3FFFFFF * 2 * (m + 1) - xn4 a)
    (0x3FFFFFF * 2 * (m + 1) - xn5 a)
    (0x3FFFFFF * 2 * (m + 1) - xn6 a)
    (0x3FFFFFF * 2 * (m + 1) - xn7 a)
    (0x3FFFFFF * 2 * (m + 1) - xn8 a)
    (0x03FFFFF * 2 * (m + 1) - xn9 a)"

definition fe_mul_int_10x26 :: "fe_10x26 \<Rightarrow> u32 \<Rightarrow> fe_10x26" where
  "fe_mul_int_10x26 r a = FE10 (xn0 r * a) (xn1 r * a) (xn2 r * a) (xn3 r * a) (xn4 r * a) (xn5 r * a) (xn6 r * a) (xn7 r * a) (xn8 r * a) (xn9 r * a)"

definition fe_add_10x26 :: "fe_10x26 \<Rightarrow> fe_10x26 \<Rightarrow> fe_10x26" where
  "fe_add_10x26 r a = FE10 (xn0 r + xn0 a) (xn1 r + xn1 a) (xn2 r + xn2 a) (xn3 r + xn3 a) (xn4 r + xn4 a) (xn5 r + xn5 a) (xn6 r + xn6 a) (xn7 r + xn7 a) (xn8 r + xn8 a) (xn9 r + xn9 a)"

subsection \<open>Multiplication and squaring (field_10x26_impl.h 440--1041)\<close>

text \<open>The body of each kernel is cut in three: columns 9 to 12 with 0 to 2, columns 13 to 16 with 3 to 6, and the rest with the
  final fold. A part calls the next one with the values that are still needed. All limbs of the operands are read before the
  first limb of the result is written, so the result may be stored over the first operand.\<close>

definition fe_mul_inner_end_10x26 :: "fe_10x26 \<Rightarrow> fe_10x26 \<Rightarrow> u64 \<Rightarrow> u64 \<Rightarrow> u32 \<Rightarrow> u32 \<Rightarrow> u32 \<Rightarrow> u32 \<Rightarrow> u32 \<Rightarrow> u32 \<Rightarrow> u32 \<Rightarrow> u32 \<Rightarrow> fe_10x26" where
  "fe_mul_inner_end_10x26 a b c d t9 t0 t1 t2 t3 t4 t5 t6 =
    (let a0 = xn0 a; a1 = xn1 a; a2 = xn2 a; a3 = xn3 a; a4 = xn4 a;
         a5 = xn5 a; a6 = xn6 a; a7 = xn7 a; a8 = xn8 a; a9 = xn9 a;
         b0 = xn0 b; b1 = xn1 b; b2 = xn2 b; b3 = xn3 b; b4 = xn4 b;
         b5 = xn5 b; b6 = xn6 b; b7 = xn7 b; b8 = xn8 b; b9 = xn9 b;
         c = c + ((ucast a0 :: u64) * ucast b7 + ucast a1 * ucast b6 + ucast a2 * ucast b5 + ucast a3 * ucast b4 + ucast a4 * ucast b3
           + ucast a5 * ucast b2 + ucast a6 * ucast b1 + ucast a7 * ucast b0);
         d = d + ((ucast a8 :: u64) * ucast b9 + ucast a9 * ucast b8);
         u7 = d AND 0x3FFFFFF; d = drop_bit 26 d; c = c + u7 * 0x3D10;
         t7 = ucast (c AND 0x3FFFFFF) :: u32; c = drop_bit 26 c; c = c + u7 * 0x400;
         c = c + ((ucast a0 :: u64) * ucast b8 + ucast a1 * ucast b7 + ucast a2 * ucast b6 + ucast a3 * ucast b5 + ucast a4 * ucast b4
           + ucast a5 * ucast b3 + ucast a6 * ucast b2 + ucast a7 * ucast b1 + ucast a8 * ucast b0);
         d = d + (ucast a9 :: u64) * ucast b9;
         u8 = d AND 0x3FFFFFF; d = drop_bit 26 d; c = c + u8 * 0x3D10;
         r3 = t3; r4 = t4; r5 = t5; r6 = t6; r7 = t7;
         r8 = ucast (c AND 0x3FFFFFF) :: u32; c = drop_bit 26 c; c = c + u8 * 0x400; c = c + (d * 0x3D10 + ucast t9);
         r9 = ucast (c AND drop_bit 4 0x3FFFFFF) :: u32; c = drop_bit 22 c; c = c + d * push_bit 4 0x400;
         d = c * drop_bit 4 0x3D10 + ucast t0;
         r0 = ucast (d AND 0x3FFFFFF) :: u32; d = drop_bit 26 d; d = d + (c * drop_bit 4 0x400 + ucast t1);
         r1 = ucast (d AND 0x3FFFFFF) :: u32; d = drop_bit 26 d;
         d = d + ucast t2;
         r2 = ucast d :: u32
     in FE10 r0 r1 r2 r3 r4 r5 r6 r7 r8 r9)"

definition fe_mul_inner_mid_10x26 :: "fe_10x26 \<Rightarrow> fe_10x26 \<Rightarrow> u64 \<Rightarrow> u64 \<Rightarrow> u32 \<Rightarrow> u32 \<Rightarrow> u32 \<Rightarrow> u32 \<Rightarrow> fe_10x26" where
  "fe_mul_inner_mid_10x26 a b c d t9 t0 t1 t2 =
    (let a0 = xn0 a; a1 = xn1 a; a2 = xn2 a; a3 = xn3 a; a4 = xn4 a;
         a5 = xn5 a; a6 = xn6 a; a7 = xn7 a; a8 = xn8 a; a9 = xn9 a;
         b0 = xn0 b; b1 = xn1 b; b2 = xn2 b; b3 = xn3 b; b4 = xn4 b;
         b5 = xn5 b; b6 = xn6 b; b7 = xn7 b; b8 = xn8 b; b9 = xn9 b;
         c = c + ((ucast a0 :: u64) * ucast b3 + ucast a1 * ucast b2 + ucast a2 * ucast b1 + ucast a3 * ucast b0);
         d = d + ((ucast a4 :: u64) * ucast b9 + ucast a5 * ucast b8 + ucast a6 * ucast b7 + ucast a7 * ucast b6 + ucast a8 * ucast b5 + ucast a9 * ucast b4);
         u3 = d AND 0x3FFFFFF; d = drop_bit 26 d; c = c + u3 * 0x3D10;
         t3 = ucast (c AND 0x3FFFFFF) :: u32; c = drop_bit 26 c; c = c + u3 * 0x400;
         c = c + ((ucast a0 :: u64) * ucast b4 + ucast a1 * ucast b3 + ucast a2 * ucast b2 + ucast a3 * ucast b1 + ucast a4 * ucast b0);
         d = d + ((ucast a5 :: u64) * ucast b9 + ucast a6 * ucast b8 + ucast a7 * ucast b7 + ucast a8 * ucast b6 + ucast a9 * ucast b5);
         u4 = d AND 0x3FFFFFF; d = drop_bit 26 d; c = c + u4 * 0x3D10;
         t4 = ucast (c AND 0x3FFFFFF) :: u32; c = drop_bit 26 c; c = c + u4 * 0x400;
         c = c + ((ucast a0 :: u64) * ucast b5 + ucast a1 * ucast b4 + ucast a2 * ucast b3 + ucast a3 * ucast b2 + ucast a4 * ucast b1 + ucast a5 * ucast b0);
         d = d + ((ucast a6 :: u64) * ucast b9 + ucast a7 * ucast b8 + ucast a8 * ucast b7 + ucast a9 * ucast b6);
         u5 = d AND 0x3FFFFFF; d = drop_bit 26 d; c = c + u5 * 0x3D10;
         t5 = ucast (c AND 0x3FFFFFF) :: u32; c = drop_bit 26 c; c = c + u5 * 0x400;
         c = c + ((ucast a0 :: u64) * ucast b6 + ucast a1 * ucast b5 + ucast a2 * ucast b4 + ucast a3 * ucast b3 + ucast a4 * ucast b2
           + ucast a5 * ucast b1 + ucast a6 * ucast b0);
         d = d + ((ucast a7 :: u64) * ucast b9 + ucast a8 * ucast b8 + ucast a9 * ucast b7);
         u6 = d AND 0x3FFFFFF; d = drop_bit 26 d; c = c + u6 * 0x3D10;
         t6 = ucast (c AND 0x3FFFFFF) :: u32; c = drop_bit 26 c; c = c + u6 * 0x400
     in fe_mul_inner_end_10x26 a b c d t9 t0 t1 t2 t3 t4 t5 t6)"

definition fe_mul_inner_10x26 :: "fe_10x26 \<Rightarrow> fe_10x26 \<Rightarrow> fe_10x26" where
  "fe_mul_inner_10x26 a b =
    (let a0 = xn0 a; a1 = xn1 a; a2 = xn2 a; a3 = xn3 a; a4 = xn4 a;
         a5 = xn5 a; a6 = xn6 a; a7 = xn7 a; a8 = xn8 a; a9 = xn9 a;
         b0 = xn0 b; b1 = xn1 b; b2 = xn2 b; b3 = xn3 b; b4 = xn4 b;
         b5 = xn5 b; b6 = xn6 b; b7 = xn7 b; b8 = xn8 b; b9 = xn9 b;
         d = (ucast a0 :: u64) * ucast b9 + ucast a1 * ucast b8 + ucast a2 * ucast b7 + ucast a3 * ucast b6 + ucast a4 * ucast b5
           + ucast a5 * ucast b4 + ucast a6 * ucast b3 + ucast a7 * ucast b2 + ucast a8 * ucast b1 + ucast a9 * ucast b0;
         t9 = ucast (d AND 0x3FFFFFF) :: u32; d = drop_bit 26 d;
         c = (ucast a0 :: u64) * ucast b0;
         d = d + ((ucast a1 :: u64) * ucast b9 + ucast a2 * ucast b8 + ucast a3 * ucast b7 + ucast a4 * ucast b6 + ucast a5 * ucast b5
           + ucast a6 * ucast b4 + ucast a7 * ucast b3 + ucast a8 * ucast b2 + ucast a9 * ucast b1);
         u0 = d AND 0x3FFFFFF; d = drop_bit 26 d; c = c + u0 * 0x3D10;
         t0 = ucast (c AND 0x3FFFFFF) :: u32; c = drop_bit 26 c; c = c + u0 * 0x400;
         c = c + ((ucast a0 :: u64) * ucast b1 + ucast a1 * ucast b0);
         d = d + ((ucast a2 :: u64) * ucast b9 + ucast a3 * ucast b8 + ucast a4 * ucast b7 + ucast a5 * ucast b6 + ucast a6 * ucast b5
           + ucast a7 * ucast b4 + ucast a8 * ucast b3 + ucast a9 * ucast b2);
         u1 = d AND 0x3FFFFFF; d = drop_bit 26 d; c = c + u1 * 0x3D10;
         t1 = ucast (c AND 0x3FFFFFF) :: u32; c = drop_bit 26 c; c = c + u1 * 0x400;
         c = c + ((ucast a0 :: u64) * ucast b2 + ucast a1 * ucast b1 + ucast a2 * ucast b0);
         d = d + ((ucast a3 :: u64) * ucast b9 + ucast a4 * ucast b8 + ucast a5 * ucast b7 + ucast a6 * ucast b6 + ucast a7 * ucast b5
           + ucast a8 * ucast b4 + ucast a9 * ucast b3);
         u2 = d AND 0x3FFFFFF; d = drop_bit 26 d; c = c + u2 * 0x3D10;
         t2 = ucast (c AND 0x3FFFFFF) :: u32; c = drop_bit 26 c; c = c + u2 * 0x400
     in fe_mul_inner_mid_10x26 a b c d t9 t0 t1 t2)"

definition fe_sqr_inner_end_10x26 :: "fe_10x26 \<Rightarrow> u64 \<Rightarrow> u64 \<Rightarrow> u32 \<Rightarrow> u32 \<Rightarrow> u32 \<Rightarrow> u32 \<Rightarrow> u32 \<Rightarrow> u32 \<Rightarrow> u32 \<Rightarrow> u32 \<Rightarrow> fe_10x26" where
  "fe_sqr_inner_end_10x26 a c d t9 t0 t1 t2 t3 t4 t5 t6 =
    (let a0 = xn0 a; a1 = xn1 a; a2 = xn2 a; a3 = xn3 a; a4 = xn4 a;
         a5 = xn5 a; a6 = xn6 a; a7 = xn7 a; a8 = xn8 a; a9 = xn9 a;
         c = c + ((ucast (a0 * 2) :: u64) * ucast a7 + ucast (a1 * 2) * ucast a6 + ucast (a2 * 2) * ucast a5 + ucast (a3 * 2) * ucast a4);
         d = d + (ucast (a8 * 2) :: u64) * ucast a9;
         u7 = d AND 0x3FFFFFF; d = drop_bit 26 d; c = c + u7 * 0x3D10;
         t7 = ucast (c AND 0x3FFFFFF) :: u32; c = drop_bit 26 c; c = c + u7 * 0x400;
         c = c + ((ucast (a0 * 2) :: u64) * ucast a8 + ucast (a1 * 2) * ucast a7 + ucast (a2 * 2) * ucast a6 + ucast (a3 * 2) * ucast a5 + ucast a4 * ucast a4);
         d = d + (ucast a9 :: u64) * ucast a9;
         u8 = d AND 0x3FFFFFF; d = drop_bit 26 d; c = c + u8 * 0x3D10;
         r3 = t3; r4 = t4; r5 = t5; r6 = t6; r7 = t7;
         r8 = ucast (c AND 0x3FFFFFF) :: u32; c = drop_bit 26 c; c = c + u8 * 0x400; c = c + (d * 0x3D10 + ucast t9);
         r9 = ucast (c AND drop_bit 4 0x3FFFFFF) :: u32; c = drop_bit 22 c; c = c + d * push_bit 4 0x400;
         d = c * drop_bit 4 0x3D10 + ucast t0;
         r0 = ucast (d AND 0x3FFFFFF) :: u32; d = drop_bit 26 d; d = d + (c * drop_bit 4 0x400 + ucast t1);
         r1 = ucast (d AND 0x3FFFFFF) :: u32; d = drop_bit 26 d;
         d = d + ucast t2;
         r2 = ucast d :: u32
     in FE10 r0 r1 r2 r3 r4 r5 r6 r7 r8 r9)"

definition fe_sqr_inner_mid_10x26 :: "fe_10x26 \<Rightarrow> u64 \<Rightarrow> u64 \<Rightarrow> u32 \<Rightarrow> u32 \<Rightarrow> u32 \<Rightarrow> u32 \<Rightarrow> fe_10x26" where
  "fe_sqr_inner_mid_10x26 a c d t9 t0 t1 t2 =
    (let a0 = xn0 a; a1 = xn1 a; a2 = xn2 a; a3 = xn3 a; a4 = xn4 a;
         a5 = xn5 a; a6 = xn6 a; a7 = xn7 a; a8 = xn8 a; a9 = xn9 a;
         c = c + ((ucast (a0 * 2) :: u64) * ucast a3 + ucast (a1 * 2) * ucast a2);
         d = d + ((ucast (a4 * 2) :: u64) * ucast a9 + ucast (a5 * 2) * ucast a8 + ucast (a6 * 2) * ucast a7);
         u3 = d AND 0x3FFFFFF; d = drop_bit 26 d; c = c + u3 * 0x3D10;
         t3 = ucast (c AND 0x3FFFFFF) :: u32; c = drop_bit 26 c; c = c + u3 * 0x400;
         c = c + ((ucast (a0 * 2) :: u64) * ucast a4 + ucast (a1 * 2) * ucast a3 + ucast a2 * ucast a2);
         d = d + ((ucast (a5 * 2) :: u64) * ucast a9 + ucast (a6 * 2) * ucast a8 + ucast a7 * ucast a7);
         u4 = d AND 0x3FFFFFF; d = drop_bit 26 d; c = c + u4 * 0x3D10;
         t4 = ucast (c AND 0x3FFFFFF) :: u32; c = drop_bit 26 c; c = c + u4 * 0x400;
         c = c + ((ucast (a0 * 2) :: u64) * ucast a5 + ucast (a1 * 2) * ucast a4 + ucast (a2 * 2) * ucast a3);
         d = d + ((ucast (a6 * 2) :: u64) * ucast a9 + ucast (a7 * 2) * ucast a8);
         u5 = d AND 0x3FFFFFF; d = drop_bit 26 d; c = c + u5 * 0x3D10;
         t5 = ucast (c AND 0x3FFFFFF) :: u32; c = drop_bit 26 c; c = c + u5 * 0x400;
         c = c + ((ucast (a0 * 2) :: u64) * ucast a6 + ucast (a1 * 2) * ucast a5 + ucast (a2 * 2) * ucast a4 + ucast a3 * ucast a3);
         d = d + ((ucast (a7 * 2) :: u64) * ucast a9 + ucast a8 * ucast a8);
         u6 = d AND 0x3FFFFFF; d = drop_bit 26 d; c = c + u6 * 0x3D10;
         t6 = ucast (c AND 0x3FFFFFF) :: u32; c = drop_bit 26 c; c = c + u6 * 0x400
     in fe_sqr_inner_end_10x26 a c d t9 t0 t1 t2 t3 t4 t5 t6)"

definition fe_sqr_inner_10x26 :: "fe_10x26 \<Rightarrow> fe_10x26" where
  "fe_sqr_inner_10x26 a =
    (let a0 = xn0 a; a1 = xn1 a; a2 = xn2 a; a3 = xn3 a; a4 = xn4 a;
         a5 = xn5 a; a6 = xn6 a; a7 = xn7 a; a8 = xn8 a; a9 = xn9 a;
         d = (ucast (a0 * 2) :: u64) * ucast a9 + ucast (a1 * 2) * ucast a8 + ucast (a2 * 2) * ucast a7 + ucast (a3 * 2) * ucast a6 + ucast (a4 * 2) * ucast a5;
         t9 = ucast (d AND 0x3FFFFFF) :: u32; d = drop_bit 26 d;
         c = (ucast a0 :: u64) * ucast a0;
         d = d + ((ucast (a1 * 2) :: u64) * ucast a9 + ucast (a2 * 2) * ucast a8 + ucast (a3 * 2) * ucast a7 + ucast (a4 * 2) * ucast a6 + ucast a5 * ucast a5);
         u0 = d AND 0x3FFFFFF; d = drop_bit 26 d; c = c + u0 * 0x3D10;
         t0 = ucast (c AND 0x3FFFFFF) :: u32; c = drop_bit 26 c; c = c + u0 * 0x400;
         c = c + (ucast (a0 * 2) :: u64) * ucast a1;
         d = d + ((ucast (a2 * 2) :: u64) * ucast a9 + ucast (a3 * 2) * ucast a8 + ucast (a4 * 2) * ucast a7 + ucast (a5 * 2) * ucast a6);
         u1 = d AND 0x3FFFFFF; d = drop_bit 26 d; c = c + u1 * 0x3D10;
         t1 = ucast (c AND 0x3FFFFFF) :: u32; c = drop_bit 26 c; c = c + u1 * 0x400;
         c = c + ((ucast (a0 * 2) :: u64) * ucast a2 + ucast a1 * ucast a1);
         d = d + ((ucast (a3 * 2) :: u64) * ucast a9 + ucast (a4 * 2) * ucast a8 + ucast (a5 * 2) * ucast a7 + ucast a6 * ucast a6);
         u2 = d AND 0x3FFFFFF; d = drop_bit 26 d; c = c + u2 * 0x3D10;
         t2 = ucast (c AND 0x3FFFFFF) :: u32; c = drop_bit 26 c; c = c + u2 * 0x400
     in fe_sqr_inner_mid_10x26 a c d t9 t0 t1 t2)"

definition fe_mul_10x26 :: "fe_10x26 \<Rightarrow> fe_10x26 \<Rightarrow> fe_10x26" where
  "fe_mul_10x26 a b = fe_mul_inner_10x26 a b"

definition fe_sqr_10x26 :: "fe_10x26 \<Rightarrow> fe_10x26" where
  "fe_sqr_10x26 a = fe_sqr_inner_10x26 a"

subsection \<open>Conditional moves and storage (field_10x26_impl.h 1073--1138)\<close>

definition fe_cmov_10x26 :: "fe_10x26 \<Rightarrow> fe_10x26 \<Rightarrow> u32 \<Rightarrow> fe_10x26" where
  "fe_cmov_10x26 r a flag =
    (let mask0 = flag + NOT 0; mask1 = NOT mask0
     in FE10 ((xn0 r AND mask0) OR (xn0 a AND mask1))
            ((xn1 r AND mask0) OR (xn1 a AND mask1))
            ((xn2 r AND mask0) OR (xn2 a AND mask1))
            ((xn3 r AND mask0) OR (xn3 a AND mask1))
            ((xn4 r AND mask0) OR (xn4 a AND mask1))
            ((xn5 r AND mask0) OR (xn5 a AND mask1))
            ((xn6 r AND mask0) OR (xn6 a AND mask1))
            ((xn7 r AND mask0) OR (xn7 a AND mask1))
            ((xn8 r AND mask0) OR (xn8 a AND mask1))
            ((xn9 r AND mask0) OR (xn9 a AND mask1)))"

definition fe_storage_cmov_10x26 :: "fe_storage_10x26 \<Rightarrow> fe_storage_10x26 \<Rightarrow> u32 \<Rightarrow> fe_storage_10x26" where
  "fe_storage_cmov_10x26 r a flag =
    (let mask0 = flag + NOT 0; mask1 = NOT mask0
     in Storage8 ((sx0 r AND mask0) OR (sx0 a AND mask1))
            ((sx1 r AND mask0) OR (sx1 a AND mask1))
            ((sx2 r AND mask0) OR (sx2 a AND mask1))
            ((sx3 r AND mask0) OR (sx3 a AND mask1))
            ((sx4 r AND mask0) OR (sx4 a AND mask1))
            ((sx5 r AND mask0) OR (sx5 a AND mask1))
            ((sx6 r AND mask0) OR (sx6 a AND mask1))
            ((sx7 r AND mask0) OR (sx7 a AND mask1)))"

definition fe_to_storage_10x26 :: "fe_10x26 \<Rightarrow> fe_storage_10x26" where
  "fe_to_storage_10x26 a = Storage8
    (xn0 a OR push_bit 26 (xn1 a))
    (drop_bit 6 (xn1 a) OR push_bit 20 (xn2 a))
    (drop_bit 12 (xn2 a) OR push_bit 14 (xn3 a))
    (drop_bit 18 (xn3 a) OR push_bit 8 (xn4 a))
    ((drop_bit 24 (xn4 a) OR push_bit 2 (xn5 a)) OR push_bit 28 (xn6 a))
    (drop_bit 4 (xn6 a) OR push_bit 22 (xn7 a))
    (drop_bit 10 (xn7 a) OR push_bit 16 (xn8 a))
    (drop_bit 16 (xn8 a) OR push_bit 10 (xn9 a))"

definition fe_from_storage_10x26 :: "fe_storage_10x26 \<Rightarrow> fe_10x26" where
  "fe_from_storage_10x26 a = FE10
    (sx0 a AND 0x3FFFFFF)
    (drop_bit 26 (sx0 a) OR (push_bit 6 (sx1 a) AND 0x3FFFFFF))
    (drop_bit 20 (sx1 a) OR (push_bit 12 (sx2 a) AND 0x3FFFFFF))
    (drop_bit 14 (sx2 a) OR (push_bit 18 (sx3 a) AND 0x3FFFFFF))
    (drop_bit 8 (sx3 a) OR (push_bit 24 (sx4 a) AND 0x3FFFFFF))
    (drop_bit 2 (sx4 a) AND 0x3FFFFFF)
    (drop_bit 28 (sx4 a) OR (push_bit 4 (sx5 a) AND 0x3FFFFFF))
    (drop_bit 22 (sx5 a) OR (push_bit 10 (sx6 a) AND 0x3FFFFFF))
    (drop_bit 16 (sx6 a) OR (push_bit 16 (sx7 a) AND 0x3FFFFFF))
    (drop_bit 10 (sx7 a))"

subsection \<open>The operations as a field interface\<close>

definition field_ops_10x26 :: "(fe_10x26, fe_storage_10x26) field_ops" where
  "field_ops_10x26 = \<lparr>
    fe_normalize = fe_normalize_10x26,
    fe_normalize_weak = fe_normalize_weak_10x26,
    fe_normalize_var = fe_normalize_var_10x26,
    fe_normalizes_to_zero = fe_normalizes_to_zero_10x26,
    fe_normalizes_to_zero_var = fe_normalizes_to_zero_var_10x26,
    fe_set_int = fe_set_int_10x26,
    fe_clear = fe_clear_10x26,
    fe_is_zero = fe_is_zero_10x26,
    fe_is_odd = fe_is_odd_10x26,
    fe_cmp_var = fe_cmp_var_10x26,
    fe_set_b32 = fe_set_b32_10x26,
    fe_get_b32 = fe_get_b32_10x26,
    fe_negate = fe_negate_10x26,
    fe_mul_int = fe_mul_int_10x26,
    fe_add = fe_add_10x26,
    fe_mul = fe_mul_10x26,
    fe_sqr = fe_sqr_10x26,
    fe_cmov = fe_cmov_10x26,
    fe_to_storage = fe_to_storage_10x26,
    fe_from_storage = fe_from_storage_10x26,
    fe_storage_cmov = fe_storage_cmov_10x26,
    fe_const = fe_const_10x26\<rparr>"

subsection \<open>Values, magnitudes and normal forms\<close>

definition fe_val_10x26 :: "fe_10x26 \<Rightarrow> int" where
  "fe_val_10x26 a = limbs_val 26 [xn0 a, xn1 a, xn2 a, xn3 a, xn4 a, xn5 a, xn6 a, xn7 a, xn8 a, xn9 a]"

definition limbs_le_10x26 :: "fe_10x26 \<Rightarrow> int \<Rightarrow> int \<Rightarrow> bool" where
  "limbs_le_10x26 a B C \<longleftrightarrow> uint (xn0 a) \<le> B \<and> uint (xn1 a) \<le> B \<and> uint (xn2 a) \<le> B \<and> uint (xn3 a) \<le> B \<and> uint (xn4 a) \<le> B \<and> uint (xn5 a) \<le> B \<and> uint (xn6 a) \<le> B \<and> uint (xn7 a) \<le> B \<and> uint (xn8 a) \<le> B \<and> uint (xn9 a) \<le> C"

abbreviation fe_in_10x26 :: "fe_10x26 \<Rightarrow> bool" where
  "fe_in_10x26 a \<equiv> limbs_le_10x26 a 0xF7FFFFC2 0xF7FFFC2"

definition fe_normalized_10x26 :: "fe_10x26 \<Rightarrow> bool" where
  "fe_normalized_10x26 a \<longleftrightarrow> limbs_le_10x26 a 0x3FFFFFF 0x3FFFFF \<and> fe_val_10x26 a < field_p"

definition fe_mag_10x26 :: "nat \<Rightarrow> fe_10x26 \<Rightarrow> bool" where
  "fe_mag_10x26 m a \<longleftrightarrow> limbs_le_10x26 a (2 * int m * 0x3FFFFFF) (2 * int m * 0x3FFFFF)"

definition storage_val_10x26 :: "fe_storage_10x26 \<Rightarrow> int" where
  "storage_val_10x26 s = limbs_val 32 [sx0 s, sx1 s, sx2 s, sx3 s, sx4 s, sx5 s, sx6 s, sx7 s]"

subsection \<open>The kernels\<close>

lemma denotes_and26:
  fixes t :: "'a::len word"
  assumes "denotes t n A" "LENGTH('a) > 26"
  shows "denotes (t AND 0x3FFFFFF) (n mod 2 ^ 26) 0x3FFFFFF"
  using assms uint_and_mask [of t 26] pos_mod_bound [of "2 ^ 26" n]
  by (auto simp: denotes_def mask_numeral)

lemma denotes_and22:
  fixes t :: "'a::len word"
  assumes "denotes t n A" "LENGTH('a) > 22"
  shows "denotes (t AND 0x3FFFFF) (n mod 2 ^ 22) 0x3FFFFF"
  using assms uint_and_mask [of t 22] pos_mod_bound [of "2 ^ 22" n]
  by (auto simp: denotes_def mask_numeral)

lemmas denotes_rules_10x26 = denotes_add denotes_mult denotes_and26 denotes_and22 denotes_numeral denotes_ucast denotes_drop_bit

lemma kernel_consts:
  "drop_bit 4 (0x3FFFFFF :: u64) = 0x3FFFFF" "drop_bit 4 (0x3D10 :: u64) = 0x3D1" "drop_bit 4 (0x400 :: u64) = 0x40"
  "push_bit 4 (0x400 :: u64) = 0x4000"
  by simp_all

lemma fe_val_FE10:
  "fe_val_10x26 (FE10 a b c d e f g h i j) = uint a + 2 ^ 26 * uint b + (2 ^ 26) ^ 2 * uint c + (2 ^ 26) ^ 3 * uint d + (2 ^ 26) ^ 4 * uint e + (2 ^ 26) ^ 5 * uint f + (2 ^ 26) ^ 6 * uint g + (2 ^ 26) ^ 7 * uint h + (2 ^ 26) ^ 8 * uint i + (2 ^ 26) ^ 9 * uint j"
  by (simp add: fe_val_10x26_def limbs_val_Cons)

lemma fe_val_10x26_fields:
  "fe_val_10x26 a = uint (xn0 a) + 2 ^ 26 * uint (xn1 a) + (2 ^ 26) ^ 2 * uint (xn2 a) + (2 ^ 26) ^ 3 * uint (xn3 a) + (2 ^ 26) ^ 4 * uint (xn4 a) + (2 ^ 26) ^ 5 * uint (xn5 a) + (2 ^ 26) ^ 6 * uint (xn6 a) + (2 ^ 26) ^ 7 * uint (xn7 a) + (2 ^ 26) ^ 8 * uint (xn8 a) + (2 ^ 26) ^ 9 * uint (xn9 a)"
  by (simp add: fe_val_10x26_def limbs_val_Cons)

text \<open>The columns \<open>p0\<close> to \<open>p18\<close> of the product, expressed by what the kernel leaves of them, add up to the result and a
  multiple of the prime.\<close>

lemma kernel_fold:
  fixes W N P :: int
  assumes W: "W = 16 * N" and P: "P = W ^ 9 * N - 977 - 64 * W" and cc: "cc = c22 + D9 * (16 * (16 * 64))"
    and p: "p0 = r0 + W * e2 - cc * 977 + W * g0 - u0 * (16 * 977)"
      "p1 = r1 + W * e4 - e2 - cc * 64 + W * g1 - (g0 + u0 * (16 * 64)) - u1 * (16 * 977)"
      "p2 = r2 - e4 + W * g2 - (g1 + u1 * (16 * 64)) - u2 * (16 * 977)"
      "p3 = r3 + W * g3 - (g2 + u2 * (16 * 64)) - u3 * (16 * 977)"
      "p4 = r4 + W * g4 - (g3 + u3 * (16 * 64)) - u4 * (16 * 977)"
      "p5 = r5 + W * g5 - (g4 + u4 * (16 * 64)) - u5 * (16 * 977)"
      "p6 = r6 + W * g6 - (g5 + u5 * (16 * 64)) - u6 * (16 * 977)"
      "p7 = r7 + W * g7 - (g6 + u6 * (16 * 64)) - u7 * (16 * 977)"
      "p8 = r8 + W * g8 - (g7 + u7 * (16 * 64)) - u8 * (16 * 977)"
      "p9 = r9 + N * c22 - g8 - u8 * (16 * 64) - D9 * (16 * 977) + W * D0"
      "p10 = u0 + W * D1 - D0"
      "p11 = u1 + W * D2 - D1"
      "p12 = u2 + W * D3 - D2"
      "p13 = u3 + W * D4 - D3"
      "p14 = u4 + W * D5 - D4"
      "p15 = u5 + W * D6 - D5"
      "p16 = u6 + W * D7 - D6"
      "p17 = u7 + W * D8 - D7"
      "p18 = u8 + W * D9 - D8"
  shows "p0 + W * p1 + W ^ 2 * p2 + W ^ 3 * p3 + W ^ 4 * p4 + W ^ 5 * p5 + W ^ 6 * p6 + W ^ 7 * p7 + W ^ 8 * p8 + W ^ 9 * p9 + W ^ 10 * p10 + W ^ 11 * p11 + W ^ 12 * p12 + W ^ 13 * p13 + W ^ 14 * p14 + W ^ 15 * p15 + W ^ 16 * p16 + W ^ 17 * p17 + W ^ 18 * p18
    = r0 + W * r1 + W ^ 2 * r2 + W ^ 3 * r3 + W ^ 4 * r4 + W ^ 5 * r5 + W ^ 6 * r6 + W ^ 7 * r7 + W ^ 8 * r8 + W ^ 9 * r9
      + (16 * (u0 + W * u1 + W ^ 2 * u2 + W ^ 3 * u3 + W ^ 4 * u4 + W ^ 5 * u5 + W ^ 6 * u6 + W ^ 7 * u7 + W ^ 8 * u8 + W ^ 9 * D9) + cc) * P"
  unfolding p P cc W by algebra

lemma kernel_identity:
  fixes W :: int
  assumes W: "W = 2 ^ 26" and eqs: "r2 = e5" "e5 = e4 + s2" "e4 = e3 div W" "r1 = e3 mod W" "e3 = e2 + (cc * 0x40 + s1)" "e2 = e1 div W" "r0 = e1 mod W" "e1 = cc * 0x3D1 + s0" "cc = c22 + D9 * 0x4000" "c22 = cA div 2 ^ 22" "r9 = cA mod 2 ^ 22" "cA = cB + (D9 * 0x3D10 + t9)" "cB = g8 + u8 * 0x400" "g8 = h8 div W" "r8 = h8 mod W" "h8 = c8 + u8 * 0x3D10" "D9 = d8 div W" "u8 = d8 mod W" "d8 = D8 + p18" "c8 = f8 + p8" "r7 = t7" "f8 = g7 + u7 * 0x400" "g7 = h7 div W" "t7 = h7 mod W" "h7 = c7 + u7 * 0x3D10" "D8 = d7 div W" "u7 = d7 mod W" "d7 = D7 + p17" "c7 = f7 + p7" "r6 = t6" "f7 = g6 + u6 * 0x400" "g6 = h6 div W" "t6 = h6 mod W" "h6 = c6 + u6 * 0x3D10" "D7 = d6 div W" "u6 = d6 mod W" "d6 = D6 + p16" "c6 = f6 + p6" "r5 = t5" "f6 = g5 + u5 * 0x400" "g5 = h5 div W" "t5 = h5 mod W" "h5 = c5 + u5 * 0x3D10" "D6 = d5 div W" "u5 = d5 mod W" "d5 = D5 + p15" "c5 = f5 + p5" "r4 = t4" "f5 = g4 + u4 * 0x400" "g4 = h4 div W" "t4 = h4 mod W" "h4 = c4 + u4 * 0x3D10" "D5 = d4 div W" "u4 = d4 mod W" "d4 = D4 + p14" "c4 = f4 + p4" "r3 = t3" "f4 = g3 + u3 * 0x400" "g3 = h3 div W" "t3 = h3 mod W" "h3 = c3 + u3 * 0x3D10" "D4 = d3 div W" "u3 = d3 mod W" "d3 = D3 + p13" "c3 = f3 + p3" "f3 = g2 + u2 * 0x400" "g2 = h2 div W" "s2 = h2 mod W" "h2 = c2 + u2 * 0x3D10" "D3 = d2 div W" "u2 = d2 mod W" "d2 = D2 + p12" "c2 = f2 + p2" "f2 = g1 + u1 * 0x400" "g1 = h1 div W" "s1 = h1 mod W" "h1 = c1 + u1 * 0x3D10" "D2 = d1 div W" "u1 = d1 mod W" "d1 = D1 + p11" "c1 = f1 + p1" "f1 = g0 + u0 * 0x400" "g0 = h0 div W" "s0 = h0 mod W" "h0 = c0 + u0 * 0x3D10" "D1 = d0 div W" "u0 = d0 mod W" "d0 = D0 + p10" "c0 = p0" "D0 = d9 div W" "t9 = d9 mod W" "d9 = p9"
  shows "(r0 + W * r1 + W ^ 2 * r2 + W ^ 3 * r3 + W ^ 4 * r4 + W ^ 5 * r5 + W ^ 6 * r6 + W ^ 7 * r7 + W ^ 8 * r8 + W ^ 9 * r9) mod field_p =
    (p0 + W * p1 + W ^ 2 * p2 + W ^ 3 * p3 + W ^ 4 * p4 + W ^ 5 * p5 + W ^ 6 * p6 + W ^ 7 * p7 + W ^ 8 * p8 + W ^ 9 * p9 + W ^ 10 * p10 + W ^ 11 * p11 + W ^ 12 * p12 + W ^ 13 * p13 + W ^ 14 * p14 + W ^ 15 * p15 + W ^ 16 * p16 + W ^ 17 * p17 + W ^ 18 * p18) mod field_p"
proof -
  have s: "m + W * q = x" if "q = x div W" "m = x mod W" for x m q using that by simp
  have t9: "r9 + 2 ^ 22 * c22 = cA" using eqs(10,11) by simp
  have cc: "cc = c22 + D9 * (16 * (16 * 64))" using eqs(9) by simp
  have W16: "W = 16 * 2 ^ 22" using W by simp
  have P: "field_p = W ^ 9 * 2 ^ 22 - 977 - 64 * W" by (simp add: W field_p_def)
  have p0: "p0 = r0 + W * e2 - cc * 977 + W * g0 - u0 * (16 * 977)"
    using s [OF eqs(6) eqs(7)] s [OF eqs(83) eqs(84)] eqs(8,85,89) by linarith
  have p1: "p1 = r1 + W * e4 - e2 - cc * 64 + W * g1 - (g0 + u0 * (16 * 64)) - u1 * (16 * 977)"
    using s [OF eqs(3) eqs(4)] s [OF eqs(75) eqs(76)] eqs(5,77,81,82) by linarith
  have p2: "p2 = r2 - e4 + W * g2 - (g1 + u1 * (16 * 64)) - u2 * (16 * 977)"
    using s [OF eqs(67) eqs(68)] eqs(1,2,69,73,74) by linarith
  have p3: "p3 = r3 + W * g3 - (g2 + u2 * (16 * 64)) - u3 * (16 * 977)"
    using s [OF eqs(59) eqs(60)] eqs(57,61,65,66) by linarith
  have p4: "p4 = r4 + W * g4 - (g3 + u3 * (16 * 64)) - u4 * (16 * 977)"
    using s [OF eqs(50) eqs(51)] eqs(48,52,56,58) by linarith
  have p5: "p5 = r5 + W * g5 - (g4 + u4 * (16 * 64)) - u5 * (16 * 977)"
    using s [OF eqs(41) eqs(42)] eqs(39,43,47,49) by linarith
  have p6: "p6 = r6 + W * g6 - (g5 + u5 * (16 * 64)) - u6 * (16 * 977)"
    using s [OF eqs(32) eqs(33)] eqs(30,34,38,40) by linarith
  have p7: "p7 = r7 + W * g7 - (g6 + u6 * (16 * 64)) - u7 * (16 * 977)"
    using s [OF eqs(23) eqs(24)] eqs(21,25,29,31) by linarith
  have p8: "p8 = r8 + W * g8 - (g7 + u7 * (16 * 64)) - u8 * (16 * 977)"
    using s [OF eqs(14) eqs(15)] eqs(16,20,22) by linarith
  have p9: "p9 = r9 + 2 ^ 22 * c22 - g8 - u8 * (16 * 64) - D9 * (16 * 977) + W * D0"
    using t9 s [OF eqs(90) eqs(91)] eqs(12,13,92) by linarith
  have p10: "p10 = u0 + W * D1 - D0"
    using s [OF eqs(86) eqs(87)] eqs(88) by linarith
  have p11: "p11 = u1 + W * D2 - D1"
    using s [OF eqs(78) eqs(79)] eqs(80) by linarith
  have p12: "p12 = u2 + W * D3 - D2"
    using s [OF eqs(70) eqs(71)] eqs(72) by linarith
  have p13: "p13 = u3 + W * D4 - D3"
    using s [OF eqs(62) eqs(63)] eqs(64) by linarith
  have p14: "p14 = u4 + W * D5 - D4"
    using s [OF eqs(53) eqs(54)] eqs(55) by linarith
  have p15: "p15 = u5 + W * D6 - D5"
    using s [OF eqs(44) eqs(45)] eqs(46) by linarith
  have p16: "p16 = u6 + W * D7 - D6"
    using s [OF eqs(35) eqs(36)] eqs(37) by linarith
  have p17: "p17 = u7 + W * D8 - D7"
    using s [OF eqs(26) eqs(27)] eqs(28) by linarith
  have p18: "p18 = u8 + W * D9 - D8"
    using s [OF eqs(17) eqs(18)] eqs(19) by linarith
  show ?thesis
    unfolding kernel_fold [OF W16 P cc p0 p1 p2 p3 p4 p5 p6 p7 p8 p9 p10 p11 p12 p13 p14 p15 p16 p17 p18] by (simp only: mod_mult_self1)
qed

lemma fe_prod_columns_10x26:
  fixes W :: int
  assumes "A = a0 + W * a1 + W ^ 2 * a2 + W ^ 3 * a3 + W ^ 4 * a4 + W ^ 5 * a5 + W ^ 6 * a6 + W ^ 7 * a7 + W ^ 8 * a8 + W ^ 9 * a9" "B = b0 + W * b1 + W ^ 2 * b2 + W ^ 3 * b3 + W ^ 4 * b4 + W ^ 5 * b5 + W ^ 6 * b6 + W ^ 7 * b7 + W ^ 8 * b8 + W ^ 9 * b9"
  shows "(a0 * b0) + W * (a0 * b1 + a1 * b0) + W ^ 2 * (a0 * b2 + a1 * b1 + a2 * b0) + W ^ 3 * (a0 * b3 + a1 * b2 + a2 * b1 + a3 * b0) + W ^ 4 * (a0 * b4 + a1 * b3 + a2 * b2 + a3 * b1 + a4 * b0) + W ^ 5 * (a0 * b5 + a1 * b4 + a2 * b3 + a3 * b2 + a4 * b1 + a5 * b0) + W ^ 6 * (a0 * b6 + a1 * b5 + a2 * b4 + a3 * b3 + a4 * b2 + a5 * b1 + a6 * b0) + W ^ 7 * (a0 * b7 + a1 * b6 + a2 * b5 + a3 * b4 + a4 * b3 + a5 * b2 + a6 * b1 + a7 * b0) + W ^ 8 * (a0 * b8 + a1 * b7 + a2 * b6 + a3 * b5 + a4 * b4 + a5 * b3 + a6 * b2 + a7 * b1 + a8 * b0) + W ^ 9 * (a0 * b9 + a1 * b8 + a2 * b7 + a3 * b6 + a4 * b5 + a5 * b4 + a6 * b3 + a7 * b2 + a8 * b1 + a9 * b0) + W ^ 10 * (a1 * b9 + a2 * b8 + a3 * b7 + a4 * b6 + a5 * b5 + a6 * b4 + a7 * b3 + a8 * b2 + a9 * b1) + W ^ 11 * (a2 * b9 + a3 * b8 + a4 * b7 + a5 * b6 + a6 * b5 + a7 * b4 + a8 * b3 + a9 * b2) + W ^ 12 * (a3 * b9 + a4 * b8 + a5 * b7 + a6 * b6 + a7 * b5 + a8 * b4 + a9 * b3) + W ^ 13 * (a4 * b9 + a5 * b8 + a6 * b7 + a7 * b6 + a8 * b5 + a9 * b4) + W ^ 14 * (a5 * b9 + a6 * b8 + a7 * b7 + a8 * b6 + a9 * b5) + W ^ 15 * (a6 * b9 + a7 * b8 + a8 * b7 + a9 * b6) + W ^ 16 * (a7 * b9 + a8 * b8 + a9 * b7) + W ^ 17 * (a8 * b9 + a9 * b8) + W ^ 18 * (a9 * b9) = A * B"
  unfolding assms by algebra

lemma fe_sqr_columns_10x26:
  fixes W :: int
  assumes "A = a0 + W * a1 + W ^ 2 * a2 + W ^ 3 * a3 + W ^ 4 * a4 + W ^ 5 * a5 + W ^ 6 * a6 + W ^ 7 * a7 + W ^ 8 * a8 + W ^ 9 * a9"
  shows "(a0 * a0) + W * (a0 * 2 * a1) + W ^ 2 * (a0 * 2 * a2 + a1 * a1) + W ^ 3 * (a0 * 2 * a3 + a1 * 2 * a2) + W ^ 4 * (a0 * 2 * a4 + a1 * 2 * a3 + a2 * a2) + W ^ 5 * (a0 * 2 * a5 + a1 * 2 * a4 + a2 * 2 * a3) + W ^ 6 * (a0 * 2 * a6 + a1 * 2 * a5 + a2 * 2 * a4 + a3 * a3) + W ^ 7 * (a0 * 2 * a7 + a1 * 2 * a6 + a2 * 2 * a5 + a3 * 2 * a4) + W ^ 8 * (a0 * 2 * a8 + a1 * 2 * a7 + a2 * 2 * a6 + a3 * 2 * a5 + a4 * a4) + W ^ 9 * (a0 * 2 * a9 + a1 * 2 * a8 + a2 * 2 * a7 + a3 * 2 * a6 + a4 * 2 * a5) + W ^ 10 * (a1 * 2 * a9 + a2 * 2 * a8 + a3 * 2 * a7 + a4 * 2 * a6 + a5 * a5) + W ^ 11 * (a2 * 2 * a9 + a3 * 2 * a8 + a4 * 2 * a7 + a5 * 2 * a6) + W ^ 12 * (a3 * 2 * a9 + a4 * 2 * a8 + a5 * 2 * a7 + a6 * a6) + W ^ 13 * (a4 * 2 * a9 + a5 * 2 * a8 + a6 * 2 * a7) + W ^ 14 * (a5 * 2 * a9 + a6 * 2 * a8 + a7 * a7) + W ^ 15 * (a6 * 2 * a9 + a7 * 2 * a8) + W ^ 16 * (a7 * 2 * a9 + a8 * a8) + W ^ 17 * (a8 * 2 * a9) + W ^ 18 * (a9 * a9) = A * A"
  unfolding assms by algebra

lemma fe_mul_inner_10x26_steps:
  assumes "limbs_le_10x26 a 0x3FFFFFFF 0x3FFFFFF" "limbs_le_10x26 b 0x3FFFFFFF 0x3FFFFFF"
  shows "fe_val_10x26 (fe_mul_inner_10x26 a b) mod field_p = fe_val_10x26 a * fe_val_10x26 b mod field_p \<and>
    limbs_le_10x26 (fe_mul_inner_10x26 a b) 0x7FFFFFE 0x3FFFFF" (is "?P (fe_mul_inner_10x26 a b)")
proof -
  have l: "uint (xn0 a) \<le> 0x3FFFFFFF" "uint (xn1 a) \<le> 0x3FFFFFFF" "uint (xn2 a) \<le> 0x3FFFFFFF" "uint (xn3 a) \<le> 0x3FFFFFFF" "uint (xn4 a) \<le> 0x3FFFFFFF" "uint (xn5 a) \<le> 0x3FFFFFFF" "uint (xn6 a) \<le> 0x3FFFFFFF" "uint (xn7 a) \<le> 0x3FFFFFFF" "uint (xn8 a) \<le> 0x3FFFFFFF" "uint (xn9 a) \<le> 0x3FFFFFF" "uint (xn0 b) \<le> 0x3FFFFFFF" "uint (xn1 b) \<le> 0x3FFFFFFF" "uint (xn2 b) \<le> 0x3FFFFFFF" "uint (xn3 b) \<le> 0x3FFFFFFF" "uint (xn4 b) \<le> 0x3FFFFFFF" "uint (xn5 b) \<le> 0x3FFFFFFF" "uint (xn6 b) \<le> 0x3FFFFFFF" "uint (xn7 b) \<le> 0x3FFFFFFF" "uint (xn8 b) \<le> 0x3FFFFFFF" "uint (xn9 b) \<le> 0x3FFFFFF"
    using assms by (simp_all add: limbs_le_10x26_def)
  show ?thesis
    unfolding fe_mul_inner_10x26_def fe_mul_inner_mid_10x26_def fe_mul_inner_end_10x26_def kernel_consts
    apply (rule let_step [where P = ?P], ((rule denotes_rules_10x26 | (rule denotes_self, rule l) | (rule denotes_self, assumption) | (simp (no_asm); fail))+)[2])+
    apply (rule conjI)
     apply (unfold fe_val_FE10)
     apply (rule kernel_identity [OF refl, THEN trans], assumption+)
    subgoal premises prems
      unfolding prems fe_prod_columns_10x26 [OF fe_val_10x26_fields fe_val_10x26_fields] ..
    apply (unfold limbs_le_10x26_def fe_10x26.select_convs)
    apply (intro conjI; rule order_trans, assumption, simp (no_asm))
    done
qed

lemma fe_sqr_inner_10x26_steps:
  assumes "limbs_le_10x26 a 0x3FFFFFFF 0x3FFFFFF"
  shows "fe_val_10x26 (fe_sqr_inner_10x26 a) mod field_p = fe_val_10x26 a * fe_val_10x26 a mod field_p \<and>
    limbs_le_10x26 (fe_sqr_inner_10x26 a) 0x7FFFFFE 0x3FFFFF" (is "?P (fe_sqr_inner_10x26 a)")
proof -
  have l: "uint (xn0 a) \<le> 0x3FFFFFFF" "uint (xn1 a) \<le> 0x3FFFFFFF" "uint (xn2 a) \<le> 0x3FFFFFFF" "uint (xn3 a) \<le> 0x3FFFFFFF" "uint (xn4 a) \<le> 0x3FFFFFFF" "uint (xn5 a) \<le> 0x3FFFFFFF" "uint (xn6 a) \<le> 0x3FFFFFFF" "uint (xn7 a) \<le> 0x3FFFFFFF" "uint (xn8 a) \<le> 0x3FFFFFFF" "uint (xn9 a) \<le> 0x3FFFFFF"
    using assms by (simp_all add: limbs_le_10x26_def)
  show ?thesis
    unfolding fe_sqr_inner_10x26_def fe_sqr_inner_mid_10x26_def fe_sqr_inner_end_10x26_def kernel_consts
    apply (rule let_step [where P = ?P], ((rule denotes_rules_10x26 | (rule denotes_self, rule l) | (rule denotes_self, assumption) | (simp (no_asm); fail))+)[2])+
    apply (rule conjI)
     apply (unfold fe_val_FE10)
     apply (rule kernel_identity [OF refl, THEN trans], assumption+)
    subgoal premises prems
      unfolding prems fe_sqr_columns_10x26 [OF fe_val_10x26_fields] ..
    apply (unfold limbs_le_10x26_def fe_10x26.select_convs)
    apply (intro conjI; rule order_trans, assumption, simp (no_asm))
    done
qed

subsection \<open>Normalization\<close>

lemma fe_val_10x26_horner:
  "fe_val_10x26 a = uint (xn0 a) + 2 ^ 26 * (uint (xn1 a) + 2 ^ 26 * (uint (xn2 a) + 2 ^ 26 * (uint (xn3 a) + 2 ^ 26 * (uint (xn4 a) + 2 ^ 26 * (uint (xn5 a) + 2 ^ 26 * (uint (xn6 a) + 2 ^ 26 * (uint (xn7 a) + 2 ^ 26 * (uint (xn8 a) + 2 ^ 26 * uint (xn9 a)))))))))"
  by (simp add: fe_val_10x26_def limbs_val_Cons)

lemma fe_val_10x26_nonneg: "0 \<le> fe_val_10x26 a"
  by (simp add: fe_val_10x26_def limbs_val_nonneg)

lemma carry_identity_10x26:
  fixes W :: int
  assumes eqs: "s0 = a0" "s1 = a1 + s0 div W" "r0 = s0 mod W" "s2 = a2 + s1 div W" "r1 = s1 mod W" "s3 = a3 + s2 div W" "r2 = s2 mod W" "s4 = a4 + s3 div W" "r3 = s3 mod W" "s5 = a5 + s4 div W" "r4 = s4 mod W" "s6 = a6 + s5 div W" "r5 = s5 mod W" "s7 = a7 + s6 div W" "r6 = s6 mod W" "s8 = a8 + s7 div W" "r7 = s7 mod W" "s9 = a9 + s8 div W" "r8 = s8 mod W"
  shows "r0 + W * r1 + W ^ 2 * r2 + W ^ 3 * r3 + W ^ 4 * r4 + W ^ 5 * r5 + W ^ 6 * r6 + W ^ 7 * r7 + W ^ 8 * r8 + W ^ 9 * s9 = a0 + W * a1 + W ^ 2 * a2 + W ^ 3 * a3 + W ^ 4 * a4 + W ^ 5 * a5 + W ^ 6 * a6 + W ^ 7 * a7 + W ^ 8 * a8 + W ^ 9 * a9"
proof -
  have s: "m + W * (y div W) = y" if "m = y mod W" for y m using that by simp
  have a0: "a0 = r0 + W * (s0 div W)" using s [OF eqs(3)] eqs(1) by linarith
  have a1: "a1 = r1 + W * (s1 div W) - s0 div W" using s [OF eqs(5)] eqs(2) by linarith
  have a2: "a2 = r2 + W * (s2 div W) - s1 div W" using s [OF eqs(7)] eqs(4) by linarith
  have a3: "a3 = r3 + W * (s3 div W) - s2 div W" using s [OF eqs(9)] eqs(6) by linarith
  have a4: "a4 = r4 + W * (s4 div W) - s3 div W" using s [OF eqs(11)] eqs(8) by linarith
  have a5: "a5 = r5 + W * (s5 div W) - s4 div W" using s [OF eqs(13)] eqs(10) by linarith
  have a6: "a6 = r6 + W * (s6 div W) - s5 div W" using s [OF eqs(15)] eqs(12) by linarith
  have a7: "a7 = r7 + W * (s7 div W) - s6 div W" using s [OF eqs(17)] eqs(14) by linarith
  have a8: "a8 = r8 + W * (s8 div W) - s7 div W" using s [OF eqs(19)] eqs(16) by linarith
  have a9: "a9 = s9 - s8 div W" using eqs(18) by linarith
  show ?thesis unfolding a0 a1 a2 a3 a4 a5 a6 a7 a8 a9 by algebra
qed

lemma carry_bound_10x26: "m = n + d div 2 ^ 26 \<Longrightarrow> d \<le> 0xFFFFFFFF \<Longrightarrow> m \<le> n + 0x3F" for m n d :: int
  using zdiv_mono1 [of d "0xFFFFFFFF" "2 ^ 26"] by simp

lemma fe_carry_10x26_val:
  assumes "limbs_le_10x26 t 0xFFFFFFC0 C" "C \<le> 0xFFFFFFC0"
  shows "fe_val_10x26 (fe_carry_10x26 t) = fe_val_10x26 t \<and> limbs_le_10x26 (fe_carry_10x26 t) 0x3FFFFFF (uint (xn9 t) + 0x3F)"
  (is "?P (fe_carry_10x26 t)")
proof -
  have l: "uint (xn0 t) \<le> 0xFFFFFFC0" "uint (xn1 t) \<le> 0xFFFFFFC0" "uint (xn2 t) \<le> 0xFFFFFFC0" "uint (xn3 t) \<le> 0xFFFFFFC0" "uint (xn4 t) \<le> 0xFFFFFFC0" "uint (xn5 t) \<le> 0xFFFFFFC0" "uint (xn6 t) \<le> 0xFFFFFFC0" "uint (xn7 t) \<le> 0xFFFFFFC0" "uint (xn8 t) \<le> 0xFFFFFFC0" "uint (xn9 t) \<le> 0xFFFFFFC0"
    using assms by (simp_all add: limbs_le_10x26_def)
  show ?thesis
    unfolding fe_carry_10x26_def
    apply (rule let_step [where P = ?P], ((rule denotes_rules_10x26 | (rule denotes_self, rule l) | (rule denotes_self, assumption) | (simp (no_asm); fail))+)[2])+
    apply (rule conjI)
     apply (unfold fe_val_FE10 fe_val_10x26_fields [of t])
     apply (rule carry_identity_10x26, assumption+)
    apply (unfold limbs_le_10x26_def fe_10x26.select_convs)
    apply (intro conjI, assumption+)
    apply (rule carry_bound_10x26, assumption, rule uint32_le)
    done
qed

lemma push6: "push_bit 6 (x :: u32) = x * 0x40"
  by (simp add: push_bit_eq_mult)

lemma fold_low_10x26:
  assumes "limbs_le_10x26 t 0xF7FFFFC2 C" "uint x \<le> 63"
  shows "fe_val_10x26 (t\<lparr>xn0 := xn0 t + x * 0x3D1, xn1 := xn1 t + push_bit 6 x\<rparr>) = fe_val_10x26 t + uint x * 0x1000003D1"
    "limbs_le_10x26 (t\<lparr>xn0 := xn0 t + x * 0x3D1, xn1 := xn1 t + push_bit 6 x\<rparr>) 0xFFFFFFC0 C"
proof -
  have d1: "denotes (w + x * 0x3D1) (uint w + uint x * 0x3D1) 0xFFFFFFC0" if "uint w \<le> 0xF7FFFFC2" for w
    by (rule denotes_weaken, (rule denotes_add denotes_mult denotes_numeral denotes_self | rule that assms(2) | (simp (no_asm); fail))+)
  have d2: "denotes (w + push_bit 6 x) (uint w + uint x * 0x40) 0xFFFFFFC0" if "uint w \<le> 0xF7FFFFC2" for w
    unfolding push6 by (rule denotes_weaken, (rule denotes_add denotes_mult denotes_numeral denotes_self | rule that assms(2) | (simp (no_asm); fail))+)
  have l: "uint (xn0 t) \<le> 0xF7FFFFC2" "uint (xn1 t) \<le> 0xF7FFFFC2" using assms(1) by (simp_all add: limbs_le_10x26_def)
  note e = denotes_uint [OF d1 [OF l(1)]] denotes_uint [OF d2 [OF l(2)]]
  show "fe_val_10x26 (t\<lparr>xn0 := xn0 t + x * 0x3D1, xn1 := xn1 t + push_bit 6 x\<rparr>) = fe_val_10x26 t + uint x * 0x1000003D1"
    by (simp add: fe_val_10x26_horner e)
  show "limbs_le_10x26 (t\<lparr>xn0 := xn0 t + x * 0x3D1, xn1 := xn1 t + push_bit 6 x\<rparr>) 0xFFFFFFC0 C"
    using assms(1) denotes_bound [OF d1 [OF l(1)]] denotes_bound [OF d2 [OF l(2)]] by (simp add: limbs_le_10x26_def e)
qed

lemma fe_val_10x26_top:
  "uint (xn9 r) = uint w + 2 ^ 22 * q \<Longrightarrow> fe_val_10x26 (r\<lparr>xn9 := w\<rparr>) + 2 ^ 256 * q = fe_val_10x26 r"
  by (simp add: fe_val_10x26_horner)

lemma first_pass_10x26:
  assumes "fe_in_10x26 r"
  shows "fe_val_10x26 (fe_first_pass_10x26 r) + uint (drop_bit 22 (xn9 r)) * field_p = fe_val_10x26 r"
    and "limbs_le_10x26 (fe_first_pass_10x26 r) 0x3FFFFFF 0x40003E"
proof -
  let ?x = "drop_bit 22 (xn9 r)" let ?t9 = "xn9 r AND 0x3FFFFF"
  let ?r = "r\<lparr>xn9 := ?t9\<rparr>"
  let ?t = "?r\<lparr>xn0 := xn0 ?r + ?x * 0x3D1, xn1 := xn1 ?r + push_bit 6 ?x\<rparr>"
  have x: "denotes ?x (uint (xn9 r) div 2 ^ 22) 0x3D"
    by (rule denotes_weaken, rule denotes_drop_bit, rule denotes_self [of _ "0xF7FFFC2"])
       (use assms in \<open>simp_all add: limbs_le_10x26_def\<close>)
  have t9: "denotes ?t9 (uint (xn9 r) mod 2 ^ 22) 0x3FFFFF"
    by (rule denotes_and22, rule denotes_self, rule order_refl) simp
  have l: "limbs_le_10x26 ?r 0xF7FFFFC2 0x3FFFFF" using assms t9 by (simp add: limbs_le_10x26_def denotes_def)
  have x63: "uint ?x \<le> 63" using x by (simp add: denotes_def)
  note f = fold_low_10x26 [OF l x63]
  have e: "fe_first_pass_10x26 r = fe_carry_10x26 ?t" by (cases r) (simp add: fe_first_pass_10x26_def Let_def)
  have c: "fe_val_10x26 (fe_carry_10x26 ?t) = fe_val_10x26 ?t" "limbs_le_10x26 (fe_carry_10x26 ?t) 0x3FFFFFF (uint (xn9 ?t) + 0x3F)"
    using fe_carry_10x26_val [OF f(2)] by simp_all
  have "fe_val_10x26 r = fe_val_10x26 ?r + 2 ^ 256 * uint ?x"
    by (rule fe_val_10x26_top [symmetric]) (simp only: denotes_uint [OF t9] denotes_uint [OF x] mod_mult_div_eq)
  then show "fe_val_10x26 (fe_first_pass_10x26 r) + uint ?x * field_p = fe_val_10x26 r"
    unfolding e c(1) f(1) by (simp add: field_p_def)
  show "limbs_le_10x26 (fe_first_pass_10x26 r) 0x3FFFFFF 0x40003E"
    using c(2) denotes_bound [OF t9] t9 unfolding e by (auto simp: limbs_le_10x26_def denotes_def)
qed

lemma weak_10x26_val:
  assumes "fe_in_10x26 r"
  shows "fe_val_10x26 (fe_normalize_weak_10x26 r) mod field_p = fe_val_10x26 r mod field_p"
    and "limbs_le_10x26 (fe_normalize_weak_10x26 r) 0x3FFFFFF 0x40003E"
proof -
  show "fe_val_10x26 (fe_normalize_weak_10x26 r) mod field_p = fe_val_10x26 r mod field_p"
    unfolding first_pass_10x26(1) [OF assms, symmetric] fe_normalize_weak_10x26_def by simp
  show "limbs_le_10x26 (fe_normalize_weak_10x26 r) 0x3FFFFFF 0x40003E"
    unfolding fe_normalize_weak_10x26_def by (rule first_pass_10x26(2) [OF assms])
qed

lemma fe_val_10x26_bound:
  assumes "limbs_le_10x26 a 0x3FFFFFF C"
  shows "fe_val_10x26 a < 2 ^ 234 * (C + 1)"
  using assms by (auto simp: fe_val_10x26_horner limbs_le_10x26_def)

lemma limbs_less_10x26:
  assumes "limbs_le_10x26 a 0x3FFFFFF A"
  shows "uint (xn0 a) < 2 ^ 26" "uint (xn1 a) < 2 ^ 26" "uint (xn2 a) < 2 ^ 26" "uint (xn3 a) < 2 ^ 26" "uint (xn4 a) < 2 ^ 26" "uint (xn5 a) < 2 ^ 26" "uint (xn6 a) < 2 ^ 26" "uint (xn7 a) < 2 ^ 26" "uint (xn8 a) < 2 ^ 26"
  using assms by (auto simp: limbs_le_10x26_def)

lemma fe_val_10x26_inject:
  assumes "limbs_le_10x26 a 0x3FFFFFF A" "limbs_le_10x26 b 0x3FFFFFF B"
  shows "fe_val_10x26 a = fe_val_10x26 b \<longleftrightarrow> a = b"
  unfolding fe_val_10x26_horner
  by (simp only: limb_eq_iff uint_ge_0 limbs_less_10x26 [OF assms(1)] limbs_less_10x26 [OF assms(2)])
     (auto simp: word_uint_eq_iff intro: fe_10x26.equality)

text \<open>The test for a value that is not below the prime.\<close>

lemma high_limbs_10x26:
  assumes "limbs_le_10x26 t 0x3FFFFFF 0x3FFFFF"
  defines "H \<equiv> uint (xn2 t) + 2 ^ 26 * (uint (xn3 t) + 2 ^ 26 * (uint (xn4 t) + 2 ^ 26 * (uint (xn5 t) + 2 ^ 26 * (uint (xn6 t) + 2 ^ 26 * (uint (xn7 t) + 2 ^ 26 * (uint (xn8 t) + 2 ^ 26 * uint (xn9 t)))))))"
  shows "H \<le> 2 ^ 204 - 1" "H = 2 ^ 204 - 1 \<longleftrightarrow> uint (xn9 t) = 0x3FFFFF \<and> uint (xn2 t) = 0x3FFFFFF \<and> uint (xn3 t) = 0x3FFFFFF \<and> uint (xn4 t) = 0x3FFFFFF \<and> uint (xn5 t) = 0x3FFFFFF \<and> uint (xn6 t) = 0x3FFFFFF \<and> uint (xn7 t) = 0x3FFFFFF \<and> uint (xn8 t) = 0x3FFFFFF"
proof -
  show "H \<le> 2 ^ 204 - 1" using assms(1) by (simp add: H_def limbs_le_10x26_def)
  have m: "2 ^ 204 - 1 = (0x3FFFFFF + 2 ^ 26 * (0x3FFFFFF + 2 ^ 26 * (0x3FFFFFF + 2 ^ 26 * (0x3FFFFFF + 2 ^ 26 * (0x3FFFFFF + 2 ^ 26 * (0x3FFFFFF + 2 ^ 26 * (0x3FFFFFF + 2 ^ 26 * 0x3FFFFF)))))) :: int)" by simp
  have k: "(0 :: int) \<le> 0x3FFFFFF" "(0x3FFFFFF :: int) < 2 ^ 26" by simp_all
  show "H = 2 ^ 204 - 1 \<longleftrightarrow> uint (xn9 t) = 0x3FFFFF \<and> uint (xn2 t) = 0x3FFFFFF \<and> uint (xn3 t) = 0x3FFFFFF \<and> uint (xn4 t) = 0x3FFFFFF \<and> uint (xn5 t) = 0x3FFFFFF \<and> uint (xn6 t) = 0x3FFFFFF \<and> uint (xn7 t) = 0x3FFFFFF \<and> uint (xn8 t) = 0x3FFFFFF"
    unfolding m H_def by (simp only: limb_eq_iff uint_ge_0 k limbs_less_10x26 [OF assms(1)]) blast
qed

lemma low_limbs_10x26:
  fixes x0 x1 :: int
  assumes "0 \<le> x0" "x0 < 2 ^ 26"
  shows "2 ^ 52 - 0x1000003D1 \<le> x0 + 2 ^ 26 * x1 \<longleftrightarrow> 0x3FFFFFF < x1 + 0x40 + (x0 + 0x3D1) div 2 ^ 26"
proof -
  define q where "q = (x0 + 0x3D1) div 2 ^ 26"
  define m where "m = (x0 + 0x3D1) mod 2 ^ 26"
  have "0 \<le> m" "m < 2 ^ 26" by (simp_all add: m_def)
  moreover have "2 ^ 26 * q + m = x0 + 0x3D1" unfolding q_def m_def by (rule mult_div_mod_eq)
  ultimately show ?thesis unfolding q_def [symmetric] by simp linarith
qed

lemma p_le_10x26:
  assumes "limbs_le_10x26 t 0x3FFFFFF 0x3FFFFF"
  shows "field_p \<le> fe_val_10x26 t \<longleftrightarrow> uint (xn9 t) = 0x3FFFFF \<and> (uint (xn2 t) = 0x3FFFFFF \<and> uint (xn3 t) = 0x3FFFFFF \<and> uint (xn4 t) = 0x3FFFFFF \<and> uint (xn5 t) = 0x3FFFFFF \<and> uint (xn6 t) = 0x3FFFFFF \<and> uint (xn7 t) = 0x3FFFFFF \<and> uint (xn8 t) = 0x3FFFFFF) \<and>
    0x3FFFFFF < uint (xn1 t) + 0x40 + (uint (xn0 t) + 0x3D1) div 2 ^ 26"
proof -
  define H where "H = uint (xn2 t) + 2 ^ 26 * (uint (xn3 t) + 2 ^ 26 * (uint (xn4 t) + 2 ^ 26 * (uint (xn5 t) + 2 ^ 26 * (uint (xn6 t) + 2 ^ 26 * (uint (xn7 t) + 2 ^ 26 * (uint (xn8 t) + 2 ^ 26 * uint (xn9 t)))))))"
  note h = high_limbs_10x26 [OF assms, folded H_def]
  have l: "0 \<le> uint (xn0 t)" "uint (xn0 t) < 2 ^ 26" "0 \<le> uint (xn1 t)" "uint (xn1 t) < 2 ^ 26"
    using limbs_less_10x26 [OF assms] by simp_all
  have v: "fe_val_10x26 t = uint (xn0 t) + 2 ^ 26 * uint (xn1 t) + 2 ^ 52 * H"
    by (simp add: fe_val_10x26_horner H_def)
  have "field_p \<le> fe_val_10x26 t \<longleftrightarrow> H = 2 ^ 204 - 1 \<and> 2 ^ 52 - 0x1000003D1 \<le> uint (xn0 t) + 2 ^ 26 * uint (xn1 t)"
    unfolding v field_p_def using l h(1) by simp linarith
  then show ?thesis unfolding h(2) low_limbs_10x26 [OF l(1,2)] by blast
qed

lemma low_sum_10x26:
  assumes "uint a < 2 ^ 26" "uint b < 2 ^ 26"
  shows "uint (b + 0x40 + drop_bit 26 (a + 0x3D1) :: u32) = uint b + 0x40 + (uint a + 0x3D1) div 2 ^ 26"
proof -
  have l: "uint a \<le> 0x3FFFFFF" "uint b \<le> 0x3FFFFFF" using assms by simp_all
  have "denotes (b + 0x40 + drop_bit 26 (a + 0x3D1)) (uint b + 0x40 + (uint a + 0x3D1) div 2 ^ 26) 0xFFFFFFFF"
    by (rule denotes_weaken, (rule denotes_add denotes_drop_bit denotes_numeral denotes_self | rule l | (simp (no_asm); fail))+)
  then show ?thesis by (rule denotes_uint)
qed

text \<open>The form of the test in the code, for any order of the masked limbs.\<close>

lemma and_limbs_10x26:
  assumes "limbs_le_10x26 t 0x3FFFFFF C"
  shows "((((((xn2 t AND xn3 t) AND xn4 t) AND xn5 t) AND xn6 t) AND xn7 t) AND xn8 t) = 0x3FFFFFF \<longleftrightarrow> uint (xn2 t) = 0x3FFFFFF \<and> uint (xn3 t) = 0x3FFFFFF \<and> uint (xn4 t) = 0x3FFFFFF \<and> uint (xn5 t) = 0x3FFFFFF \<and> uint (xn6 t) = 0x3FFFFFF \<and> uint (xn7 t) = 0x3FFFFFF \<and> uint (xn8 t) = 0x3FFFFFF"
    and "((((((xn8 t AND xn7 t) AND xn6 t) AND xn5 t) AND xn4 t) AND xn3 t) AND xn2 t) = 0x3FFFFFF \<longleftrightarrow> uint (xn2 t) = 0x3FFFFFF \<and> uint (xn3 t) = 0x3FFFFFF \<and> uint (xn4 t) = 0x3FFFFFF \<and> uint (xn5 t) = 0x3FFFFFF \<and> uint (xn6 t) = 0x3FFFFFF \<and> uint (xn7 t) = 0x3FFFFFF \<and> uint (xn8 t) = 0x3FFFFFF"
proof -
  have l: "xn0 t \<le> 0x3FFFFFF" "xn1 t \<le> 0x3FFFFFF" "xn2 t \<le> 0x3FFFFFF" "xn3 t \<le> 0x3FFFFFF" "xn4 t \<le> 0x3FFFFFF" "xn5 t \<le> 0x3FFFFFF" "xn6 t \<le> 0x3FFFFFF" "xn7 t \<le> 0x3FFFFFF" "xn8 t \<le> 0x3FFFFFF"
    using assms by (simp_all add: limbs_le_10x26_def word_le_def)
  have a: "b AND c \<le> 0x3FFFFFF" if "b \<le> 0x3FFFFFF" for b c :: u32
    using that word_and_le2 [of b c] by (rule order_trans [rotated])
  have u: "w = 0x3FFFFFF \<longleftrightarrow> uint w = 0x3FFFFFF" for w :: u32 by (simp add: word_uint_eq_iff)
  show "((((((xn2 t AND xn3 t) AND xn4 t) AND xn5 t) AND xn6 t) AND xn7 t) AND xn8 t) = 0x3FFFFFF \<longleftrightarrow> uint (xn2 t) = 0x3FFFFFF \<and> uint (xn3 t) = 0x3FFFFFF \<and> uint (xn4 t) = 0x3FFFFFF \<and> uint (xn5 t) = 0x3FFFFFF \<and> uint (xn6 t) = 0x3FFFFFF \<and> uint (xn7 t) = 0x3FFFFFF \<and> uint (xn8 t) = 0x3FFFFFF"
    "((((((xn8 t AND xn7 t) AND xn6 t) AND xn5 t) AND xn4 t) AND xn3 t) AND xn2 t) = 0x3FFFFFF \<longleftrightarrow> uint (xn2 t) = 0x3FFFFFF \<and> uint (xn3 t) = 0x3FFFFFF \<and> uint (xn4 t) = 0x3FFFFFF \<and> uint (xn5 t) = 0x3FFFFFF \<and> uint (xn6 t) = 0x3FFFFFF \<and> uint (xn7 t) = 0x3FFFFFF \<and> uint (xn8 t) = 0x3FFFFFF"
    by (simp_all only: and_max_iff l a u [symmetric]) blast+
qed

lemma p_test_10x26:
  assumes "limbs_le_10x26 t 0x3FFFFFF 0x3FFFFF"
  shows "xn9 t = 0x3FFFFF \<and> ((((((xn2 t AND xn3 t) AND xn4 t) AND xn5 t) AND xn6 t) AND xn7 t) AND xn8 t) = 0x3FFFFFF \<and>
      xn1 t + 0x40 + drop_bit 26 (xn0 t + 0x3D1) > 0x3FFFFFF \<longleftrightarrow> field_p \<le> fe_val_10x26 t"
    "xn9 t = 0x3FFFFF \<and> ((((((xn8 t AND xn7 t) AND xn6 t) AND xn5 t) AND xn4 t) AND xn3 t) AND xn2 t) = 0x3FFFFFF \<and>
      xn1 t + 0x40 + drop_bit 26 (xn0 t + 0x3D1) > 0x3FFFFFF \<longleftrightarrow> field_p \<le> fe_val_10x26 t"
proof -
  have g: "xn1 t + 0x40 + drop_bit 26 (xn0 t + 0x3D1) > 0x3FFFFFF \<longleftrightarrow>
      0x3FFFFFF < uint (xn1 t) + 0x40 + (uint (xn0 t) + 0x3D1) div 2 ^ 26"
    unfolding word_less_def low_sum_10x26 [OF limbs_less_10x26(1) [OF assms] limbs_less_10x26(2) [OF assms]] by simp
  have n: "xn9 t = 0x3FFFFF \<longleftrightarrow> uint (xn9 t) = 0x3FFFFF" by (simp add: word_uint_eq_iff)
  show "xn9 t = 0x3FFFFF \<and> ((((((xn2 t AND xn3 t) AND xn4 t) AND xn5 t) AND xn6 t) AND xn7 t) AND xn8 t) = 0x3FFFFFF \<and>
      xn1 t + 0x40 + drop_bit 26 (xn0 t + 0x3D1) > 0x3FFFFFF \<longleftrightarrow> field_p \<le> fe_val_10x26 t"
    "xn9 t = 0x3FFFFF \<and> ((((((xn8 t AND xn7 t) AND xn6 t) AND xn5 t) AND xn4 t) AND xn3 t) AND xn2 t) = 0x3FFFFFF \<and>
      xn1 t + 0x40 + drop_bit 26 (xn0 t + 0x3D1) > 0x3FFFFFF \<longleftrightarrow> field_p \<le> fe_val_10x26 t"
    unfolding p_le_10x26 [OF assms] and_limbs_10x26 [OF assms] g n by (rule refl)+
qed

lemma reduce_flag_10x26:
  assumes "limbs_le_10x26 t 0x3FFFFFF 0x40003E"
  shows "fe_reduce_flag_10x26 t = of_bool (field_p \<le> fe_val_10x26 t)"
proof (cases "uint (xn9 t) < 2 ^ 22")
  case True
  then have l: "limbs_le_10x26 t 0x3FFFFFF 0x3FFFFF" using assms by (simp add: limbs_le_10x26_def)
  have d: "drop_bit 22 (xn9 t) = 0" using True by (simp add: word_uint_eq_iff uint_drop_bit)
  have b: "of_bool p AND of_bool q AND of_bool r = (of_bool (p \<and> q \<and> r) :: u32)" for p q r by simp
  show ?thesis unfolding fe_reduce_flag_10x26_def Let_def d and.assoc b p_test_10x26(1) [OF l, unfolded and.assoc] by simp
next
  case False
  have "uint (xn9 t) div 2 ^ 22 = 1"
    using False assms by (intro div_mod_unique_int(2) [of "uint (xn9 t) - 2 ^ 22" _ 1]) (auto simp: limbs_le_10x26_def)
  then have "drop_bit 22 (xn9 t) = 1" by (simp add: word_uint_eq_iff uint_drop_bit)
  moreover have "xn9 t \<noteq> 0x3FFFFF" using False by auto
  moreover have "field_p \<le> fe_val_10x26 t"
    using False uint_gt [of "xn0 t"] uint_gt [of "xn1 t"] uint_gt [of "xn2 t"] uint_gt [of "xn3 t"] uint_gt [of "xn4 t"] uint_gt [of "xn5 t"] uint_gt [of "xn6 t"] uint_gt [of "xn7 t"] uint_gt [of "xn8 t"]
    by (simp add: fe_val_10x26_horner field_p_def)
  ultimately show ?thesis by (simp add: fe_reduce_flag_10x26_def)
qed

lemma mask_top_10x26:
  assumes "limbs_le_10x26 t 0x3FFFFFF C"
  shows "fe_val_10x26 (t\<lparr>xn9 := xn9 t AND 0x3FFFFF\<rparr>) = fe_val_10x26 t mod 2 ^ 256"
    "limbs_le_10x26 (t\<lparr>xn9 := xn9 t AND 0x3FFFFF\<rparr>) 0x3FFFFFF 0x3FFFFF"
proof -
  let ?r = "t\<lparr>xn9 := xn9 t AND 0x3FFFFF\<rparr>"
  have t9: "denotes (xn9 t AND 0x3FFFFF) (uint (xn9 t) mod 2 ^ 22) 0x3FFFFF"
    by (rule denotes_and22, rule denotes_self, rule order_refl) simp
  then show l: "limbs_le_10x26 ?r 0x3FFFFFF 0x3FFFFF"
    using assms by (simp add: limbs_le_10x26_def denotes_def)
  have "fe_val_10x26 ?r + 2 ^ 256 * (uint (xn9 t) div 2 ^ 22) = fe_val_10x26 t"
    by (rule fe_val_10x26_top) (simp only: denotes_uint [OF t9] mod_mult_div_eq)
  from div_mod_unique_int(1) [OF this] fe_val_10x26_bound [OF l] fe_val_10x26_nonneg [of ?r]
  show "fe_val_10x26 ?r = fe_val_10x26 t mod 2 ^ 256" by simp
qed

text \<open>The final reduction, with the flag as a word.\<close>

definition second_pass_10x26 :: "u32 \<Rightarrow> fe_10x26 \<Rightarrow> fe_10x26" where
  "second_pass_10x26 x t =
    (let t = fe_carry_10x26 (t\<lparr>xn0 := xn0 t + x * 0x3D1, xn1 := xn1 t + push_bit 6 x\<rparr>)
     in t\<lparr>xn9 := xn9 t AND 0x3FFFFF\<rparr>)"

lemma second_pass_10x26:
  assumes "limbs_le_10x26 t 0x3FFFFFF 0x40003E"
  shows "fe_val_10x26 (second_pass_10x26 (of_bool (field_p \<le> fe_val_10x26 t)) t) = fe_val_10x26 t mod field_p"
    "limbs_le_10x26 (second_pass_10x26 (of_bool (field_p \<le> fe_val_10x26 t)) t) 0x3FFFFFF 0x3FFFFF"
proof -
  let ?x = "of_bool (field_p \<le> fe_val_10x26 t) :: u32"
  let ?t = "t\<lparr>xn0 := xn0 t + ?x * 0x3D1, xn1 := xn1 t + push_bit 6 ?x\<rparr>"
  have l: "limbs_le_10x26 t 0xF7FFFFC2 0x40003E" using assms by (simp add: limbs_le_10x26_def)
  have x: "uint ?x \<le> 63" by simp
  note f = fold_low_10x26 [OF l x]
  have c: "fe_val_10x26 (fe_carry_10x26 ?t) = fe_val_10x26 ?t" "limbs_le_10x26 (fe_carry_10x26 ?t) 0x3FFFFFF (uint (xn9 ?t) + 0x3F)"
    using fe_carry_10x26_val [OF f(2)] by simp_all
  have b: "0 \<le> fe_val_10x26 t" "fe_val_10x26 t < 2 * field_p"
    using fe_val_10x26_bound [OF assms] fe_val_10x26_nonneg by (simp_all add: field_p_def)
  have "fe_val_10x26 (second_pass_10x26 ?x t) = (fe_val_10x26 t + of_bool (field_p \<le> fe_val_10x26 t) * (2 ^ 256 - field_p)) mod 2 ^ 256"
    unfolding second_pass_10x26_def Let_def mask_top_10x26(1) [OF c(2)] c(1) f(1) by (simp add: field_p_def)
  also have "\<dots> = fe_val_10x26 t mod field_p"
    using b by (intro mod_cond_sub) (simp_all add: field_p_def)
  finally show "fe_val_10x26 (second_pass_10x26 ?x t) = fe_val_10x26 t mod field_p" .
  show "limbs_le_10x26 (second_pass_10x26 ?x t) 0x3FFFFFF 0x3FFFFF"
    unfolding second_pass_10x26_def Let_def by (rule mask_top_10x26(2) [OF c(2)])
qed

lemma normalize_10x26_eq:
  assumes "fe_in_10x26 r"
  shows "fe_normalize_10x26 r = (let t = fe_normalize_weak_10x26 r in second_pass_10x26 (of_bool (field_p \<le> fe_val_10x26 t)) t)"
  unfolding fe_normalize_10x26_def fe_normalize_weak_10x26_def [symmetric] Let_def
    reduce_flag_10x26 [OF weak_10x26_val(2) [OF assms]] second_pass_10x26_def ..

lemma normalize_10x26_val:
  assumes "fe_in_10x26 r"
  shows "fe_val_10x26 (fe_normalize_10x26 r) = fe_val_10x26 r mod field_p" "fe_normalized_10x26 (fe_normalize_10x26 r)"
proof -
  note w = weak_10x26_val [OF assms]
  note s = second_pass_10x26 [OF w(2)]
  show v: "fe_val_10x26 (fe_normalize_10x26 r) = fe_val_10x26 r mod field_p"
    unfolding normalize_10x26_eq [OF assms] Let_def s(1) w(1) ..
  show "fe_normalized_10x26 (fe_normalize_10x26 r)"
    unfolding fe_normalized_10x26_def v using s(2) by (simp add: normalize_10x26_eq [OF assms] Let_def field_p_pos)
qed

lemma normalize_var_10x26_eq:
  assumes "fe_in_10x26 r"
  shows "fe_normalize_var_10x26 r = fe_normalize_10x26 r"
proof -
  let ?t = "fe_normalize_weak_10x26 r"
  note w = weak_10x26_val [OF assms]
  have v: "fe_normalize_var_10x26 r = (if field_p \<le> fe_val_10x26 ?t then second_pass_10x26 1 ?t else ?t)"
    unfolding fe_normalize_var_10x26_def fe_normalize_weak_10x26_def [symmetric] Let_def reduce_flag_10x26 [OF w(2)] second_pass_10x26_def
    by simp
  show ?thesis
  proof (cases "field_p \<le> fe_val_10x26 ?t")
    case True
    then show ?thesis by (simp add: v normalize_10x26_eq [OF assms] Let_def)
  next
    case False
    then have "fe_val_10x26 (fe_normalize_10x26 r) = fe_val_10x26 ?t"
      using normalize_10x26_val(1) [OF assms] w(1) fe_val_10x26_nonneg [of ?t] by simp
    then have "fe_normalize_10x26 r = ?t"
      using fe_val_10x26_inject [of "fe_normalize_10x26 r" _ ?t] normalize_10x26_val(2) [OF assms] w(2)
      unfolding fe_normalized_10x26_def by blast
    then show ?thesis using v False by simp
  qed
qed

lemma le_mask26_iff: "a \<le> 0x3FFFFFF \<longleftrightarrow> a AND 0x3FFFFFF = a" for a :: u32
proof -
  have "a AND 0x3FFFFFF = take_bit 26 a" by (simp add: take_bit_eq_mask mask_numeral)
  moreover have "a \<le> 0x3FFFFFF \<longleftrightarrow> uint a < 2 ^ 26" by (auto simp: word_le_def)
  moreover have "take_bit 26 a = a \<longleftrightarrow> uint a < 2 ^ 26"
    by (simp add: word_uint_eq_iff unsigned_take_bit_eq take_bit_int_eq_self_iff)
  ultimately show ?thesis by simp
qed

lemma xor_and_mask26: "(a XOR c) AND 0x3FFFFFF = (a AND 0x3FFFFFF) XOR (c AND 0x3FFFFFF)" for a c :: u32
  by (rule bit_word_eqI) (auto simp: bit_simps)

lemma to_zero_10x26_form:
  "fe_normalizes_to_zero_10x26 r \<longleftrightarrow> (let t = fe_normalize_weak_10x26 r in
    (((((((((xn0 t OR xn1 t) OR xn2 t) OR xn3 t) OR xn4 t) OR xn5 t) OR xn6 t) OR xn7 t) OR xn8 t) OR xn9 t) = 0 \<or>
    ((((((((((xn0 t XOR 0x3D0) AND (xn1 t XOR 0x40)) AND xn2 t) AND xn3 t) AND xn4 t) AND xn5 t) AND xn6 t) AND xn7 t) AND xn8 t) AND (xn9 t XOR 0x3C00000)) = 0x3FFFFFF)"
  unfolding fe_normalizes_to_zero_10x26_def fe_normalize_weak_10x26_def fe_first_pass_10x26_def fe_carry_10x26_def Let_def
  by (cases r) (simp only: fe_10x26.simps)

lemma to_zero_10x26_eq:
  assumes "fe_in_10x26 r"
  shows "fe_normalizes_to_zero_10x26 r \<longleftrightarrow> fe_normalize_weak_10x26 r = FE10 0 0 0 0 0 0 0 0 0 0 \<or> fe_normalize_weak_10x26 r = FE10 0x3FFFC2F 0x3FFFFBF 0x3FFFFFF 0x3FFFFFF 0x3FFFFFF 0x3FFFFFF 0x3FFFFFF 0x3FFFFFF 0x3FFFFFF 0x3FFFFF"
proof -
  define t where "t = fe_normalize_weak_10x26 r"
  have l: "xn0 t \<le> 0x3FFFFFF" "xn1 t \<le> 0x3FFFFFF" "xn2 t \<le> 0x3FFFFFF" "xn3 t \<le> 0x3FFFFFF" "xn4 t \<le> 0x3FFFFFF" "xn5 t \<le> 0x3FFFFFF" "xn6 t \<le> 0x3FFFFFF" "xn7 t \<le> 0x3FFFFFF" "xn8 t \<le> 0x3FFFFFF" "xn9 t \<le> 0x3FFFFFF"
    using weak_10x26_val(2) [OF assms] by (simp_all add: limbs_le_10x26_def word_le_def t_def)
  have x: "a XOR 0x3D0 \<le> 0x3FFFFFF" "a XOR 0x40 \<le> 0x3FFFFFF" "a XOR 0x3C00000 \<le> 0x3FFFFFF" if "a \<le> 0x3FFFFFF" for a :: u32
    using that by (simp_all add: le_mask26_iff xor_and_mask26)
  have a: "a AND b \<le> 0x3FFFFFF" if "a \<le> 0x3FFFFFF" for a b :: u32
    using that word_and_le2 [of a b] by (rule order_trans [rotated])
  have y: "a XOR c = m \<longleftrightarrow> a = m XOR c" for a c m :: u32
  proof -
    have "(a XOR c) XOR c = a" "(m XOR c) XOR c = m" by (simp_all only: xor.assoc xor_self_eq xor.right_neutral)
    then show ?thesis by metis
  qed
  show ?thesis
    unfolding to_zero_10x26_form Let_def t_def [symmetric] by (simp add: and_max_iff l x a y or_eq_0_iff)
       (auto intro: fe_10x26.equality)
qed

lemma to_zero_10x26_iff:
  assumes "fe_in_10x26 r"
  shows "fe_normalizes_to_zero_10x26 r \<longleftrightarrow> fe_val_10x26 r mod field_p = 0"
proof -
  let ?t = "fe_normalize_weak_10x26 r"
  let ?Z = "FE10 0 0 0 0 0 0 0 0 0 0" let ?P = "FE10 0x3FFFC2F 0x3FFFFBF 0x3FFFFFF 0x3FFFFFF 0x3FFFFFF 0x3FFFFFF 0x3FFFFFF 0x3FFFFFF 0x3FFFFFF 0x3FFFFF"
  note w = weak_10x26_val [OF assms]
  have b: "0 \<le> fe_val_10x26 ?t" "fe_val_10x26 ?t < 2 * field_p"
    using fe_val_10x26_bound [OF w(2)] fe_val_10x26_nonneg by (simp_all add: field_p_def)
  have "limbs_le_10x26 ?Z 0x3FFFFFF 0" "limbs_le_10x26 ?P 0x3FFFFFF 0x3FFFFF" "fe_val_10x26 ?Z = 0" "fe_val_10x26 ?P = field_p"
    by (simp_all add: limbs_le_10x26_def fe_val_FE10 field_p_def)
  then have "fe_normalizes_to_zero_10x26 r \<longleftrightarrow> fe_val_10x26 ?t = 0 \<or> fe_val_10x26 ?t = field_p"
    using to_zero_10x26_eq [OF assms] fe_val_10x26_inject [OF w(2)] by metis
  also have "\<dots> \<longleftrightarrow> fe_val_10x26 ?t mod field_p = 0"
  proof (cases "fe_val_10x26 ?t < field_p")
    case False
    then have "fe_val_10x26 ?t mod field_p = fe_val_10x26 ?t - field_p"
      using b by (intro div_mod_unique_int(1) [of _ _ 1]) simp_all
    then show ?thesis using False b by (simp add: field_p_def)
  qed (use b in simp)
  finally show ?thesis using w(1) by simp
qed

lemma to_zero_var_10x26_eq: "fe_normalizes_to_zero_var_10x26 r = fe_normalizes_to_zero_10x26 r"
proof (cases "(xn0 r + drop_bit 22 (xn9 r) * 0x3D1) AND 0x3FFFFFF \<noteq> 0 \<and>
    ((xn0 r + drop_bit 22 (xn9 r) * 0x3D1) AND 0x3FFFFFF) XOR 0x3D0 \<noteq> 0x3FFFFFF")
  case True
  define z where "z = (xn0 r + drop_bit 22 (xn9 r) * 0x3D1) AND 0x3FFFFFF"
  have "z \<le> 0x3FFFFFF" by (simp add: z_def word_and_le1)
  then have "z XOR 0x3D0 \<le> 0x3FFFFFF" by (simp add: le_mask26_iff xor_and_mask26)
  then have no: "(z XOR 0x3D0) AND a \<noteq> 0x3FFFFFF" for a
    using True unfolding z_def [symmetric] by (metis order.antisym word_and_le2)
  have "\<not> fe_normalizes_to_zero_10x26 r"
    using True no unfolding fe_normalizes_to_zero_10x26_def Let_def z_def [symmetric] or_eq_0_iff and.assoc by simp
  moreover have "\<not> fe_normalizes_to_zero_var_10x26 r"
    unfolding fe_normalizes_to_zero_var_10x26_def Let_def using True by simp
  ultimately show ?thesis by simp
next
  case False
  then show ?thesis
    unfolding fe_normalizes_to_zero_10x26_def fe_normalizes_to_zero_var_10x26_def Let_def by (simp only: if_False)
qed

subsection \<open>Magnitudes\<close>

lemma fe_verify_10x26_mag:
  assumes "m \<le> 32"
  shows "fe_verify_10x26 a (int m) False \<longleftrightarrow> fe_mag_10x26 m a"
proof -
  define k where "k = 2 * int m"
  have k: "0 \<le> k" "k \<le> 64" using assms by (simp_all add: k_def)
  then have u: "uint (word_of_int k :: u32) = k" by (simp add: unsigned_of_int take_bit_int_eq_self_iff)
  have "uint (0x3FFFFFF * word_of_int k :: u32) = 0x3FFFFFF * k" "uint (0x03FFFFF * word_of_int k :: u32) = 0x03FFFFF * k"
    using k by (simp_all add: uint_word_ariths u mod_pos_pos_trivial)
  then show ?thesis
    using assms unfolding fe_verify_10x26_def fe_mag_10x26_def k_def [symmetric] Let_def limbs_le_10x26_def word_le_def
    by (simp add: ac_simps)
qed

lemma fe_verify_10x26_normalized: "fe_verify_10x26 a 1 True \<longleftrightarrow> fe_normalized_10x26 a"
proof (cases "limbs_le_10x26 a 0x3FFFFFF 0x3FFFFF")
  case True
  then have "xn0 a \<le> 0x3FFFFFF \<and> xn1 a \<le> 0x3FFFFFF \<and> xn2 a \<le> 0x3FFFFFF \<and> xn3 a \<le> 0x3FFFFFF \<and> xn4 a \<le> 0x3FFFFFF \<and> xn5 a \<le> 0x3FFFFFF \<and> xn6 a \<le> 0x3FFFFFF \<and> xn7 a \<le> 0x3FFFFFF \<and> xn8 a \<le> 0x3FFFFFF \<and> xn9 a \<le> 0x3FFFFF" by (simp add: limbs_le_10x26_def word_le_def)
  then show ?thesis
    using True p_test_10x26(2) [OF True] unfolding fe_verify_10x26_def fe_normalized_10x26_def Let_def
    by (auto simp: not_less not_le)
qed (auto simp: fe_verify_10x26_def fe_normalized_10x26_def limbs_le_10x26_def word_le_def)

lemma fe_mag_10x26_mono: "fe_mag_10x26 m a \<Longrightarrow> m \<le> m' \<Longrightarrow> fe_mag_10x26 m' a"
  by (auto simp: fe_mag_10x26_def limbs_le_10x26_def intro: order_trans)

lemma fe_mag_10x26_in: "fe_mag_10x26 m a \<Longrightarrow> m \<le> 31 \<Longrightarrow> fe_in_10x26 a"
  using fe_mag_10x26_mono [of m a 31] by (simp add: fe_mag_10x26_def limbs_le_10x26_def)

lemma fe_normalized_10x26_mag: "fe_normalized_10x26 a \<Longrightarrow> fe_mag_10x26 1 a"
  by (auto simp: fe_normalized_10x26_def fe_mag_10x26_def limbs_le_10x26_def)

subsection \<open>Linear operations\<close>

lemma fe_add_10x26_correct:
  assumes "fe_mag_10x26 m a" "fe_mag_10x26 k b" "m + k \<le> 32"
  shows "fe_val_10x26 (fe_add_10x26 a b) = fe_val_10x26 a + fe_val_10x26 b" "fe_mag_10x26 (m + k) (fe_add_10x26 a b)"
proof -
  have m: "int m + int k \<le> 32" using assms(3) by simp
  have s: "uint (x + y) = uint x + uint y"
    if "uint x \<le> 2 * int m * C" "uint y \<le> 2 * int k * C" "0 \<le> C" "C \<le> 0x3FFFFFF" for x y :: u32 and C
  proof -
    have "2 * (int m + int k) * C \<le> 64 * 0x3FFFFFF" using m that by (intro mult_mono) simp_all
    then have "uint x + uint y < 2 ^ 32" using that by (simp add: algebra_simps)
    then show ?thesis by (simp add: uint_word_ariths mod_pos_pos_trivial)
  qed
  note la = assms(1) [unfolded fe_mag_10x26_def limbs_le_10x26_def] and lb = assms(2) [unfolded fe_mag_10x26_def limbs_le_10x26_def]
  have e: "uint (xn0 a + xn0 b) = uint (xn0 a) + uint (xn0 b)" "uint (xn1 a + xn1 b) = uint (xn1 a) + uint (xn1 b)" "uint (xn2 a + xn2 b) = uint (xn2 a) + uint (xn2 b)" "uint (xn3 a + xn3 b) = uint (xn3 a) + uint (xn3 b)" "uint (xn4 a + xn4 b) = uint (xn4 a) + uint (xn4 b)" "uint (xn5 a + xn5 b) = uint (xn5 a) + uint (xn5 b)" "uint (xn6 a + xn6 b) = uint (xn6 a) + uint (xn6 b)" "uint (xn7 a + xn7 b) = uint (xn7 a) + uint (xn7 b)" "uint (xn8 a + xn8 b) = uint (xn8 a) + uint (xn8 b)" "uint (xn9 a + xn9 b) = uint (xn9 a) + uint (xn9 b)"
    by (rule s, (use la in blast), (use lb in blast), simp, simp)+
  show "fe_val_10x26 (fe_add_10x26 a b) = fe_val_10x26 a + fe_val_10x26 b"
    by (simp add: fe_val_10x26_horner fe_add_10x26_def e)
  show "fe_mag_10x26 (m + k) (fe_add_10x26 a b)"
    using la lb by (simp add: fe_mag_10x26_def limbs_le_10x26_def fe_add_10x26_def e)
qed

lemma fe_mul_int_10x26_correct:
  assumes "fe_mag_10x26 m a" "unat k * m \<le> 32"
  shows "fe_val_10x26 (fe_mul_int_10x26 a k) = fe_val_10x26 a * uint k" "fe_mag_10x26 (unat k * m) (fe_mul_int_10x26 a k)"
proof -
  have mk: "int m * uint k \<le> 32"
  proof -
    have "int (unat k * m) \<le> 32" using assms(2) by linarith
    then show ?thesis by (simp add: mult.commute)
  qed
  have s: "uint (x * k) = uint x * uint k \<and> uint x * uint k \<le> 2 * (int m * uint k) * C"
    if "uint x \<le> 2 * int m * C" "0 \<le> C" "C \<le> 0x3FFFFFF" for x :: u32 and C
  proof -
    have "uint x * uint k \<le> 2 * int m * C * uint k" using that by (intro mult_right_mono) simp_all
    also have "\<dots> = 2 * (int m * uint k) * C" by (simp add: ac_simps)
    finally have a: "uint x * uint k \<le> 2 * (int m * uint k) * C" .
    also have "\<dots> \<le> (2 * 32) * 0x3FFFFFF" using mk that by (intro mult_mono) auto
    finally show ?thesis using a by (simp add: uint_word_ariths mod_pos_pos_trivial)
  qed
  have l: "uint (xn0 a) \<le> 2 * int m * 0x3FFFFFF" "uint (xn1 a) \<le> 2 * int m * 0x3FFFFFF" "uint (xn2 a) \<le> 2 * int m * 0x3FFFFFF" "uint (xn3 a) \<le> 2 * int m * 0x3FFFFFF" "uint (xn4 a) \<le> 2 * int m * 0x3FFFFFF" "uint (xn5 a) \<le> 2 * int m * 0x3FFFFFF" "uint (xn6 a) \<le> 2 * int m * 0x3FFFFFF" "uint (xn7 a) \<le> 2 * int m * 0x3FFFFFF" "uint (xn8 a) \<le> 2 * int m * 0x3FFFFFF" "uint (xn9 a) \<le> 2 * int m * 0x3FFFFF"
    using assms(1) unfolding fe_mag_10x26_def limbs_le_10x26_def by blast+
  note b = s [OF l(1), simplified] s [OF l(2), simplified] s [OF l(3), simplified] s [OF l(4), simplified] s [OF l(5), simplified] s [OF l(6), simplified] s [OF l(7), simplified] s [OF l(8), simplified] s [OF l(9), simplified] s [OF l(10), simplified]
  have e: "uint (xn0 a * k) = uint (xn0 a) * uint k" "uint (xn1 a * k) = uint (xn1 a) * uint k" "uint (xn2 a * k) = uint (xn2 a) * uint k" "uint (xn3 a * k) = uint (xn3 a) * uint k" "uint (xn4 a * k) = uint (xn4 a) * uint k" "uint (xn5 a * k) = uint (xn5 a) * uint k" "uint (xn6 a * k) = uint (xn6 a) * uint k" "uint (xn7 a * k) = uint (xn7 a) * uint k" "uint (xn8 a * k) = uint (xn8 a) * uint k" "uint (xn9 a * k) = uint (xn9 a) * uint k"
    using b by simp_all
  show "fe_val_10x26 (fe_mul_int_10x26 a k) = fe_val_10x26 a * uint k"
    unfolding fe_val_10x26_horner fe_mul_int_10x26_def fe_10x26.select_convs e by algebra
  have "int (unat k * m) = int m * uint k" by (simp add: mult.commute)
  then show "fe_mag_10x26 (unat k * m) (fe_mul_int_10x26 a k)"
    using b unfolding fe_mag_10x26_def limbs_le_10x26_def fe_mul_int_10x26_def by (simp add: mult.commute [of _ "uint k"])
qed

lemma fe_negate_10x26_correct:
  assumes "fe_mag_10x26 m a" "m \<le> unat k" "unat k \<le> 31"
  shows "fe_val_10x26 (fe_negate_10x26 a k) = 2 * (uint k + 1) * field_p - fe_val_10x26 a" "fe_mag_10x26 (unat k + 1) (fe_negate_10x26 a k)"
proof -
  have "unat (k + 1) = unat k + 1" using assms(3) by (simp add: unat_word_ariths)
  then have k1: "uint (k + 1) = uint k + 1" by (metis of_nat_Suc uint_nat add.commute plus_1_eq_Suc)
  have k: "uint k \<le> 31" "int m \<le> uint k"
    using uint_le_of_unat [OF assms(3)] uint_ge_of_unat [OF assms(2)] by simp_all
  have s: "uint (c * 2 * (k + 1) - x) = uint c * (2 * (uint k + 1)) - uint x"
    if "uint x \<le> 2 * int m * C" "0 \<le> C" "C * uint k \<le> uint c * (uint k + 1)" "uint c \<le> 0x3FFFFFF" for x c :: u32 and C
  proof -
    have a: "uint c * (2 * (uint k + 1)) \<le> 0x3FFFFFF * (2 * 32)" using k that by (intro mult_mono) auto
    have "uint (c * 2) = uint c * 2" using that(4) by (simp add: uint_word_ariths mod_pos_pos_trivial)
    then have "uint (c * 2) * uint (k + 1) = uint c * (2 * (uint k + 1))" by (simp add: k1)
    then have "uint (c * 2 * (k + 1)) = uint c * (2 * (uint k + 1))"
      unfolding uint_word_ariths(3) [of "c * 2"]
      by (simp only:) (rule mod_pos_pos_trivial, simp, rule order_le_less_trans [OF a], simp)
    moreover have "2 * int m * C \<le> uint c * (2 * (uint k + 1))"
      using mult_right_mono [OF k(2) that(2)] that(3) by (simp add: algebra_simps)
    ultimately show ?thesis using that(1) by (simp add: uint_sub_if' word_le_def)
  qed
  note l = assms(1) [unfolded fe_mag_10x26_def limbs_le_10x26_def]
  have e: "uint (0x3FFFC2F * 2 * (k + 1) - xn0 a) = 0x3FFFC2F * (2 * (uint k + 1)) - uint (xn0 a)"
      "uint (0x3FFFFBF * 2 * (k + 1) - xn1 a) = 0x3FFFFBF * (2 * (uint k + 1)) - uint (xn1 a)"
      "uint (0x3FFFFFF * 2 * (k + 1) - xn2 a) = 0x3FFFFFF * (2 * (uint k + 1)) - uint (xn2 a)"
      "uint (0x3FFFFFF * 2 * (k + 1) - xn3 a) = 0x3FFFFFF * (2 * (uint k + 1)) - uint (xn3 a)"
      "uint (0x3FFFFFF * 2 * (k + 1) - xn4 a) = 0x3FFFFFF * (2 * (uint k + 1)) - uint (xn4 a)"
      "uint (0x3FFFFFF * 2 * (k + 1) - xn5 a) = 0x3FFFFFF * (2 * (uint k + 1)) - uint (xn5 a)"
      "uint (0x3FFFFFF * 2 * (k + 1) - xn6 a) = 0x3FFFFFF * (2 * (uint k + 1)) - uint (xn6 a)"
      "uint (0x3FFFFFF * 2 * (k + 1) - xn7 a) = 0x3FFFFFF * (2 * (uint k + 1)) - uint (xn7 a)"
      "uint (0x3FFFFFF * 2 * (k + 1) - xn8 a) = 0x3FFFFFF * (2 * (uint k + 1)) - uint (xn8 a)"
      "uint (0x3FFFFF * 2 * (k + 1) - xn9 a) = 0x3FFFFF * (2 * (uint k + 1)) - uint (xn9 a)"
    using l k(1) s [of "xn0 a" "0x3FFFFFF" "0x3FFFC2F"]
      s [of "xn1 a" "0x3FFFFFF" "0x3FFFFBF"]
      s [of "xn2 a" "0x3FFFFFF" "0x3FFFFFF"]
      s [of "xn3 a" "0x3FFFFFF" "0x3FFFFFF"]
      s [of "xn4 a" "0x3FFFFFF" "0x3FFFFFF"]
      s [of "xn5 a" "0x3FFFFFF" "0x3FFFFFF"]
      s [of "xn6 a" "0x3FFFFFF" "0x3FFFFFF"]
      s [of "xn7 a" "0x3FFFFFF" "0x3FFFFFF"]
      s [of "xn8 a" "0x3FFFFFF" "0x3FFFFFF"]
      s [of "xn9 a" "0x3FFFFF" "0x3FFFFF"] by simp_all
  show "fe_val_10x26 (fe_negate_10x26 a k) = 2 * (uint k + 1) * field_p - fe_val_10x26 a"
    unfolding fe_val_10x26_horner fe_negate_10x26_def fe_10x26.select_convs e by (simp add: field_p_def algebra_simps)
  have "int (unat k + 1) = uint k + 1" by simp
  then show "fe_mag_10x26 (unat k + 1) (fe_negate_10x26 a k)"
    unfolding fe_mag_10x26_def limbs_le_10x26_def fe_negate_10x26_def fe_10x26.select_convs e
    using k(1) uint_gt [of "xn0 a"] uint_gt [of "xn1 a"] uint_gt [of "xn2 a"] uint_gt [of "xn3 a"] uint_gt [of "xn4 a"] uint_gt [of "xn5 a"] uint_gt [of "xn6 a"] uint_gt [of "xn7 a"] uint_gt [of "xn8 a"] uint_gt [of "xn9 a"] uint_gt [of k] by simp
qed

lemma fe_set_int_10x26_correct:
  assumes "uint a < 2 ^ 26"
  shows "fe_val_10x26 (fe_set_int_10x26 a) = uint a" "fe_normalized_10x26 (fe_set_int_10x26 a)"
  using assms by (simp_all add: fe_val_10x26_horner fe_set_int_10x26_def fe_normalized_10x26_def limbs_le_10x26_def field_p_def)

lemma fe_is_zero_10x26_iff: "fe_is_zero_10x26 a \<longleftrightarrow> fe_val_10x26 a = 0"
proof -
  have "fe_val_10x26 a = 0 \<longleftrightarrow> uint (xn0 a) = 0 \<and> uint (xn1 a) = 0 \<and> uint (xn2 a) = 0 \<and> uint (xn3 a) = 0 \<and> uint (xn4 a) = 0 \<and> uint (xn5 a) = 0 \<and> uint (xn6 a) = 0 \<and> uint (xn7 a) = 0 \<and> uint (xn8 a) = 0 \<and> uint (xn9 a) = 0"
    unfolding fe_val_10x26_horner by (auto simp: add_nonneg_eq_0_iff)
  then show ?thesis by (simp add: fe_is_zero_10x26_def or_eq_0_iff unsigned_eq_0_iff)
qed

lemma fe_is_odd_10x26_iff: "fe_is_odd_10x26 a \<longleftrightarrow> odd (fe_val_10x26 a)"
  by (simp add: fe_is_odd_10x26_def and_1_iff fe_val_10x26_horner)

lemma fe_cmp_var_10x26_correct:
  assumes "limbs_le_10x26 a 0x3FFFFFF A" "limbs_le_10x26 b 0x3FFFFFF B"
  shows "fe_cmp_var_10x26 a b = sgn (fe_val_10x26 a - fe_val_10x26 b)"
proof -
  note la = limbs_less_10x26 [OF assms(1)] and lb = limbs_less_10x26 [OF assms(2)]
  show ?thesis
    unfolding fe_cmp_var_10x26_def cmp_limbs_sgn cmp_limbs.simps(1) fe_val_10x26_horner
      sgn_limb [OF uint_ge_0 la(1) uint_ge_0 lb(1)]
      sgn_limb [OF uint_ge_0 la(2) uint_ge_0 lb(2)]
      sgn_limb [OF uint_ge_0 la(3) uint_ge_0 lb(3)]
      sgn_limb [OF uint_ge_0 la(4) uint_ge_0 lb(4)]
      sgn_limb [OF uint_ge_0 la(5) uint_ge_0 lb(5)]
      sgn_limb [OF uint_ge_0 la(6) uint_ge_0 lb(6)]
      sgn_limb [OF uint_ge_0 la(7) uint_ge_0 lb(7)]
      sgn_limb [OF uint_ge_0 la(8) uint_ge_0 lb(8)]
      sgn_limb [OF uint_ge_0 la(9) uint_ge_0 lb(9)]
    by (simp only: first_nonzero)
qed

lemma cmov_masks_10x26: "(0 :: u32) + NOT 0 = - 1" "(1 :: u32) + NOT 0 = 0"
  by simp_all

lemma fe_cmov_10x26_eq: "fe_cmov_10x26 r a 0 = r" "fe_cmov_10x26 r a 1 = a"
  unfolding fe_cmov_10x26_def Let_def cmov_masks_10x26 by simp_all

lemma fe_storage_cmov_10x26_eq: "fe_storage_cmov_10x26 r a 0 = r" "fe_storage_cmov_10x26 r a 1 = a"
  unfolding fe_storage_cmov_10x26_def Let_def cmov_masks_10x26 by simp_all

lemma fe_mul_10x26_correct:
  assumes "fe_mag_10x26 8 a" "fe_mag_10x26 8 b"
  shows "fe_val_10x26 (fe_mul_10x26 a b) mod field_p = fe_val_10x26 a * fe_val_10x26 b mod field_p" "fe_mag_10x26 1 (fe_mul_10x26 a b)"
  using fe_mul_inner_10x26_steps [of a b] assms by (auto simp: fe_mul_10x26_def fe_mag_10x26_def limbs_le_10x26_def)

lemma fe_sqr_10x26_correct:
  assumes "fe_mag_10x26 8 a"
  shows "fe_val_10x26 (fe_sqr_10x26 a) mod field_p = fe_val_10x26 a * fe_val_10x26 a mod field_p" "fe_mag_10x26 1 (fe_sqr_10x26 a)"
  using fe_sqr_inner_10x26_steps [of a] assms by (auto simp: fe_sqr_10x26_def fe_mag_10x26_def limbs_le_10x26_def)

subsection \<open>Storage and constants\<close>

lemma to_storage_identity_10x26:
  fixes n0 :: int
  assumes "n1 = l1 + 2 ^ 6 * h1" "n2 = l2 + 2 ^ 12 * h2" "n3 = l3 + 2 ^ 18 * h3" "n4 = l4 + 2 ^ 24 * h4" "n6 = l6 + 2 ^ 4 * h6" "n7 = l7 + 2 ^ 10 * h7" "n8 = l8 + 2 ^ 16 * h8"
  shows "(n0 + 2 ^ 26 * l1) + 2 ^ 32 * ((h1 + 2 ^ 20 * l2) + 2 ^ 32 * ((h2 + 2 ^ 14 * l3) + 2 ^ 32 * ((h3 + 2 ^ 8 * l4) + 2 ^ 32 * ((h4 + 2 ^ 2 * n5 + 2 ^ 28 * l6) + 2 ^ 32 * ((h6 + 2 ^ 22 * l7) + 2 ^ 32 * ((h7 + 2 ^ 16 * l8) + 2 ^ 32 * (h8 + 2 ^ 10 * n9)))))))
    = n0 + 2 ^ 26 * (n1 + 2 ^ 26 * (n2 + 2 ^ 26 * (n3 + 2 ^ 26 * (n4 + 2 ^ 26 * (n5 + 2 ^ 26 * (n6 + 2 ^ 26 * (n7 + 2 ^ 26 * (n8 + 2 ^ 26 * n9))))))))"
  unfolding assms by algebra

lemma fe_to_storage_10x26_val:
  assumes "limbs_le_10x26 a 0x3FFFFFF 0x3FFFFF"
  shows "storage_val_10x26 (fe_to_storage_10x26 a) = fe_val_10x26 a"
proof -
  have l: "uint (xn0 a) < 2 ^ 26" "uint (xn1 a) < 2 ^ 26" "uint (xn2 a) < 2 ^ 26" "uint (xn3 a) < 2 ^ 26" "uint (xn4 a) < 2 ^ 26" "uint (xn5 a) < 2 ^ 26" "uint (xn6 a) < 2 ^ 26" "uint (xn7 a) < 2 ^ 26" "uint (xn8 a) < 2 ^ 26" "uint (xn9 a) < 2 ^ 22"
    using assms by (auto simp: limbs_le_10x26_def)
  have d: "uint w div 2 ^ j < 2 ^ (26 - j)" if "uint w < 2 ^ 26" "j \<le> 26" for w :: u32 and j
    using that by (rule div_pow_less)
  have e0: "uint (xn0 a OR push_bit 26 (xn1 a)) = uint (xn0 a) + 2 ^ 26 * (uint (xn1 a) mod 2 ^ 6)"
    using or_push_mod [of "xn0 a" 26 "xn1 a"] l(1) by simp
  have e1: "uint (drop_bit 6 (xn1 a) OR push_bit 20 (xn2 a)) = uint (xn1 a) div 2 ^ 6 + 2 ^ 20 * (uint (xn2 a) mod 2 ^ 12)"
    using or_push_mod [of "drop_bit 6 (xn1 a)" 20 "xn2 a"] d [OF l(2), of 6] unfolding uint_drop_bit by simp
  have e2: "uint (drop_bit 12 (xn2 a) OR push_bit 14 (xn3 a)) = uint (xn2 a) div 2 ^ 12 + 2 ^ 14 * (uint (xn3 a) mod 2 ^ 18)"
    using or_push_mod [of "drop_bit 12 (xn2 a)" 14 "xn3 a"] d [OF l(3), of 12] unfolding uint_drop_bit by simp
  have e3: "uint (drop_bit 18 (xn3 a) OR push_bit 8 (xn4 a)) = uint (xn3 a) div 2 ^ 18 + 2 ^ 8 * (uint (xn4 a) mod 2 ^ 24)"
    using or_push_mod [of "drop_bit 18 (xn3 a)" 8 "xn4 a"] d [OF l(4), of 18] unfolding uint_drop_bit by simp
  have e4: "uint ((drop_bit 24 (xn4 a) OR push_bit 2 (xn5 a)) OR push_bit 28 (xn6 a)) = uint (xn4 a) div 2 ^ 24 + 2 ^ 2 * uint (xn5 a) + 2 ^ 28 * (uint (xn6 a) mod 2 ^ 4)"
  proof -
    have m: "uint (drop_bit 24 (xn4 a) OR push_bit 2 (xn5 a)) = uint (xn4 a) div 2 ^ 24 + 2 ^ 2 * uint (xn5 a)"
      using or_push_mod [of "drop_bit 24 (xn4 a)" 2 "xn5 a"] d [OF l(5), of 24] l(6) unfolding uint_drop_bit by simp
    moreover have "uint (xn4 a) div 2 ^ 24 + 2 ^ 2 * uint (xn5 a) < 2 ^ 28" using d [OF l(5), of 24] l(6) by simp
    ultimately show ?thesis using or_push_mod [of "drop_bit 24 (xn4 a) OR push_bit 2 (xn5 a)" 28 "xn6 a"] by simp
  qed
  have e5: "uint (drop_bit 4 (xn6 a) OR push_bit 22 (xn7 a)) = uint (xn6 a) div 2 ^ 4 + 2 ^ 22 * (uint (xn7 a) mod 2 ^ 10)"
    using or_push_mod [of "drop_bit 4 (xn6 a)" 22 "xn7 a"] d [OF l(7), of 4] unfolding uint_drop_bit by simp
  have e6: "uint (drop_bit 10 (xn7 a) OR push_bit 16 (xn8 a)) = uint (xn7 a) div 2 ^ 10 + 2 ^ 16 * (uint (xn8 a) mod 2 ^ 16)"
    using or_push_mod [of "drop_bit 10 (xn7 a)" 16 "xn8 a"] d [OF l(8), of 10] unfolding uint_drop_bit by simp
  have e7: "uint (drop_bit 16 (xn8 a) OR push_bit 10 (xn9 a)) = uint (xn8 a) div 2 ^ 16 + 2 ^ 10 * uint (xn9 a)"
    using or_push_mod [of "drop_bit 16 (xn8 a)" 10 "xn9 a"] d [OF l(9), of 16] l(10) unfolding uint_drop_bit by simp
  show ?thesis
    unfolding storage_val_10x26_def fe_to_storage_10x26_def fe_storage_10x26.select_convs limbs_val_Cons limbs_val.simps(1) fe_val_10x26_horner
      e0 e1 e2 e3 e4 e5 e6 e7
    by (simp only: mult_zero_right add_0_right) (rule to_storage_identity_10x26; rule mod_mult_div_eq [symmetric])
qed

lemma from_storage_identity_10x26:
  fixes l0 :: int
  assumes "s0 = l0 + 2 ^ 26 * h0" "s1 = l1 + 2 ^ 20 * h1" "s2 = l2 + 2 ^ 14 * h2" "s3 = l3 + 2 ^ 8 * h3" "s5 = l5 + 2 ^ 22 * h5" "s6 = l6 + 2 ^ 16 * h6" "s7 = l7 + 2 ^ 10 * h7" "s4 = l4 + 2 ^ 2 * m4 + 2 ^ 28 * h4"
  shows "l0 + 2 ^ 26 * ((h0 + 2 ^ 6 * l1) + 2 ^ 26 * ((h1 + 2 ^ 12 * l2) + 2 ^ 26 * ((h2 + 2 ^ 18 * l3) + 2 ^ 26 * ((h3 + 2 ^ 24 * l4) + 2 ^ 26 * (m4 + 2 ^ 26 * ((h4 + 2 ^ 4 * l5) + 2 ^ 26 * ((h5 + 2 ^ 10 * l6) + 2 ^ 26 * ((h6 + 2 ^ 16 * l7) + 2 ^ 26 * h7))))))))
    = s0 + 2 ^ 32 * (s1 + 2 ^ 32 * (s2 + 2 ^ 32 * (s3 + 2 ^ 32 * (s4 + 2 ^ 32 * (s5 + 2 ^ 32 * (s6 + 2 ^ 32 * s7))))))"
  unfolding assms by algebra

lemma push_and_mask26: "k \<le> 26 \<Longrightarrow> push_bit k y AND 0x3FFFFFF = push_bit k (take_bit (26 - k) y)" for y :: u32
proof -
  assume k: "k \<le> 26"
  have "push_bit k y AND 0x3FFFFFF = take_bit 26 (push_bit k y)" by (simp add: take_bit_eq_mask mask_numeral)
  also have "\<dots> = push_bit k (take_bit (26 - k) y)"
    by (rule bit_word_eqI) (use k in \<open>auto simp: bit_simps\<close>)
  finally show ?thesis .
qed

lemma and_mask26: "y AND 0x3FFFFFF = take_bit 26 y" for y :: u32
  by (simp add: take_bit_eq_mask mask_numeral)

lemma fe_from_storage_10x26_val:
  "fe_val_10x26 (fe_from_storage_10x26 s) = storage_val_10x26 s" "limbs_le_10x26 (fe_from_storage_10x26 s) 0x3FFFFFF 0x3FFFFF"
proof -
  have d: "uint w div 2 ^ j < 2 ^ (32 - j)" if "j \<le> 32" for w :: u32 and j
    by (rule div_pow_less) (use uint_bounded [of w] that in simp_all)
  have j: "uint (drop_bit j x OR (push_bit k y AND 0x3FFFFFF)) = uint x div 2 ^ j + 2 ^ k * (uint y mod 2 ^ (26 - k))"
    "uint x div 2 ^ j + 2 ^ k * (uint y mod 2 ^ (26 - k)) \<le> 0x3FFFFFF"
    if "j + k = 32" "k \<le> 26" for x y :: u32 and j k
  proof -
    have x: "uint x div 2 ^ j < 2 ^ k" using d [of j x] that by (metis diff_add_inverse le_add1)
    then show "uint (drop_bit j x OR (push_bit k y AND 0x3FFFFFF)) = uint x div 2 ^ j + 2 ^ k * (uint y mod 2 ^ (26 - k))"
      unfolding push_and_mask26 [OF that(2)] by (rule drop_or_push) (use that in simp)
    have "uint y mod 2 ^ (26 - k) \<le> 2 ^ (26 - k) - 1" by (simp add: zle_diff1_eq)
    then have "2 ^ k * (uint y mod 2 ^ (26 - k)) \<le> 2 ^ k * (2 ^ (26 - k) - 1)" by (rule mult_left_mono) simp
    moreover have "2 ^ k * 2 ^ (26 - k) = (2 ^ 26 :: int)" using that(2) by (simp flip: power_add)
    ultimately show "uint x div 2 ^ j + 2 ^ k * (uint y mod 2 ^ (26 - k)) \<le> 0x3FFFFFF"
      using x by (simp add: right_diff_distrib)
  qed
  have j6: "uint (drop_bit 28 x OR (push_bit 4 y AND 0x3FFFFFF)) = uint x div 2 ^ 28 + 2 ^ 4 * (uint y mod 2 ^ 22)" for x y :: u32
    using j(1) [of 28 4] by simp
  have e1: "uint (drop_bit 26 (sx0 s) OR (push_bit 6 (sx1 s) AND 0x3FFFFFF)) = uint (sx0 s) div 2 ^ 26 + 2 ^ 6 * (uint (sx1 s) mod 2 ^ 20)"
    and b1: "uint (sx0 s) div 2 ^ 26 + 2 ^ 6 * (uint (sx1 s) mod 2 ^ 20) \<le> 0x3FFFFFF"
    using j [of 26 6] by simp_all
  have e2: "uint (drop_bit 20 (sx1 s) OR (push_bit 12 (sx2 s) AND 0x3FFFFFF)) = uint (sx1 s) div 2 ^ 20 + 2 ^ 12 * (uint (sx2 s) mod 2 ^ 14)"
    and b2: "uint (sx1 s) div 2 ^ 20 + 2 ^ 12 * (uint (sx2 s) mod 2 ^ 14) \<le> 0x3FFFFFF"
    using j [of 20 12] by simp_all
  have e3: "uint (drop_bit 14 (sx2 s) OR (push_bit 18 (sx3 s) AND 0x3FFFFFF)) = uint (sx2 s) div 2 ^ 14 + 2 ^ 18 * (uint (sx3 s) mod 2 ^ 8)"
    and b3: "uint (sx2 s) div 2 ^ 14 + 2 ^ 18 * (uint (sx3 s) mod 2 ^ 8) \<le> 0x3FFFFFF"
    using j [of 14 18] by simp_all
  have e4: "uint (drop_bit 8 (sx3 s) OR (push_bit 24 (sx4 s) AND 0x3FFFFFF)) = uint (sx3 s) div 2 ^ 8 + 2 ^ 24 * (uint (sx4 s) mod 2 ^ 2)"
    and b4: "uint (sx3 s) div 2 ^ 8 + 2 ^ 24 * (uint (sx4 s) mod 2 ^ 2) \<le> 0x3FFFFFF"
    using j [of 8 24] by simp_all
  have e6: "uint (drop_bit 28 (sx4 s) OR (push_bit 4 (sx5 s) AND 0x3FFFFFF)) = uint (sx4 s) div 2 ^ 28 + 2 ^ 4 * (uint (sx5 s) mod 2 ^ 22)"
    and b6: "uint (sx4 s) div 2 ^ 28 + 2 ^ 4 * (uint (sx5 s) mod 2 ^ 22) \<le> 0x3FFFFFF"
    using j [of 28 4] by simp_all
  have e7: "uint (drop_bit 22 (sx5 s) OR (push_bit 10 (sx6 s) AND 0x3FFFFFF)) = uint (sx5 s) div 2 ^ 22 + 2 ^ 10 * (uint (sx6 s) mod 2 ^ 16)"
    and b7: "uint (sx5 s) div 2 ^ 22 + 2 ^ 10 * (uint (sx6 s) mod 2 ^ 16) \<le> 0x3FFFFFF"
    using j [of 22 10] by simp_all
  have e8: "uint (drop_bit 16 (sx6 s) OR (push_bit 16 (sx7 s) AND 0x3FFFFFF)) = uint (sx6 s) div 2 ^ 16 + 2 ^ 16 * (uint (sx7 s) mod 2 ^ 10)"
    and b8: "uint (sx6 s) div 2 ^ 16 + 2 ^ 16 * (uint (sx7 s) mod 2 ^ 10) \<le> 0x3FFFFFF"
    using j [of 16 16] by simp_all
  have e0: "uint (sx0 s AND 0x3FFFFFF) = uint (sx0 s) mod 2 ^ 26" unfolding and_mask26 by (rule uint_take_bit)
  have e5: "uint (drop_bit 2 (sx4 s) AND 0x3FFFFFF) = uint (sx4 s) div 2 ^ 2 mod 2 ^ 26" unfolding and_mask26 uint_take_bit uint_drop_bit ..
  have e9: "uint (drop_bit 10 (sx7 s)) = uint (sx7 s) div 2 ^ 10" by (rule uint_drop_bit)
  have s4: "uint (sx4 s) = uint (sx4 s) mod 2 ^ 2 + 2 ^ 2 * (uint (sx4 s) div 2 ^ 2 mod 2 ^ 26) + 2 ^ 28 * (uint (sx4 s) div 2 ^ 28)"
  proof -
    define x m y r q where "x = uint (sx4 s)" and "m = x mod 2 ^ 2" and "y = x div 2 ^ 2" and "r = y mod 2 ^ 26" and "q = y div 2 ^ 26"
    have "x = m + 2 ^ 2 * y" unfolding m_def y_def by (rule mod_mult_div_eq [symmetric])
    moreover have "y = r + 2 ^ 26 * q" unfolding r_def q_def by (rule mod_mult_div_eq [symmetric])
    ultimately have "x = m + 2 ^ 2 * r + 2 ^ 28 * q" by simp
    moreover have "x div 2 ^ 28 = q" by (simp add: q_def y_def zdiv_zmult2_eq [symmetric])
    ultimately show ?thesis unfolding x_def m_def r_def y_def by simp
  qed
  show "fe_val_10x26 (fe_from_storage_10x26 s) = storage_val_10x26 s"
    unfolding storage_val_10x26_def fe_from_storage_10x26_def fe_10x26.select_convs limbs_val_Cons limbs_val.simps(1) fe_val_10x26_horner
      e0 e1 e2 e3 e4 e5 e6 e7 e8 e9
    by (simp only: mult_zero_right add_0_right) (rule from_storage_identity_10x26, (rule mod_mult_div_eq [symmetric])+, rule s4)
  have m: "x mod 2 ^ 26 \<le> 0x3FFFFFF" for x :: int using pos_mod_bound [of "2 ^ 26" x] by simp
  have "uint (sx7 s) div 2 ^ 10 \<le> 0x3FFFFF" using d [of 10 "sx7 s"] by simp
  then show "limbs_le_10x26 (fe_from_storage_10x26 s) 0x3FFFFFF 0x3FFFFF"
    unfolding limbs_le_10x26_def fe_from_storage_10x26_def fe_10x26.select_convs e0 e1 e2 e3 e4 e5 e6 e7 e8 e9
    by (intro conjI b1 b2 b3 b4 b6 b7 b8 m)
qed

lemma fe_const_10x26_storage:
  "fe_const_10x26 d7 d6 d5 d4 d3 d2 d1 d0 = fe_from_storage_10x26 (fe_storage_const_10x26 d7 d6 d5 d4 d3 d2 d1 d0)"
proof -
  have m: "y AND 0xFFFFF = take_bit 20 y" "y AND 0x3FFF = take_bit 14 y" "y AND 0xFF = take_bit 8 y" "y AND 0x3 = take_bit 2 y"
    "y AND 0x3FFFFF = take_bit 22 y" "y AND 0xFFFF = take_bit 16 y" "y AND 0x3FF = take_bit 10 y" for y :: u32
    by (simp_all add: take_bit_eq_mask mask_numeral)
  show ?thesis
    unfolding fe_const_10x26_def fe_from_storage_10x26_def fe_storage_const_10x26_def fe_storage_10x26.select_convs m
    by (simp add: push_and_mask26)
qed

lemma fe_const_10x26_correct:
  "fe_val_10x26 (fe_const_10x26 d7 d6 d5 d4 d3 d2 d1 d0) = limbs_val 32 [d0, d1, d2, d3, d4, d5, d6, d7]"
  "limbs_le_10x26 (fe_const_10x26 d7 d6 d5 d4 d3 d2 d1 d0) 0x3FFFFFF 0x3FFFFF"
  unfolding fe_const_10x26_storage using fe_from_storage_10x26_val [of "fe_storage_const_10x26 d7 d6 d5 d4 d3 d2 d1 d0"]
  by (simp_all add: storage_val_10x26_def fe_storage_const_10x26_def)

lemma fe_storage_10x26_roundtrip:
  assumes "limbs_le_10x26 a 0x3FFFFFF 0x3FFFFF"
  shows "fe_from_storage_10x26 (fe_to_storage_10x26 a) = a"
  using fe_val_10x26_inject [of "fe_from_storage_10x26 (fe_to_storage_10x26 a)"] assms fe_from_storage_10x26_val fe_to_storage_10x26_val [OF assms]
  by metis

subsection \<open>Bytes\<close>

lemma fe_b32_steps_10x26_eq: "fe_b32_steps_10x26 = map (\<lambda>q. (q div 4, q mod 4)) [0..<128]"
proof -
  have "concat (map (\<lambda>i. map (\<lambda>j. (i, j)) [0..<4]) [0..<n]) = map (\<lambda>q. (q div 4, q mod 4)) [0..<4 * n]" for n :: nat
  proof (induction n)
    case (Suc n)
    have u: "[4 * n..<4 * n + 4] = map (\<lambda>j. j + 4 * n) [0..<4]" by (simp add: map_add_upt add.commute)
    have "map (\<lambda>q. (q div 4, q mod 4)) [4 * n..<4 * n + 4] = map (\<lambda>j. (n, j)) [0..<4 :: nat]"
      unfolding u map_map by (rule map_cong) simp_all
    moreover have "[0..<4 * Suc n] = [0..<4 * n] @ [4 * n..<4 * n + 4]"
      using upt_add_eq_append [of 0 "4 * n" 4] by (simp add: add.commute)
    ultimately show ?case using Suc by simp
  qed simp
  from this [of 32] show ?thesis by (simp add: fe_b32_steps_10x26_def)
qed

lemma set_b32_10x26_eq:
  "snd (fe_set_b32_10x26 a) = FE10 (or_digs 2 (b32_dig 2 a) 0 13) (or_digs 2 (b32_dig 2 a) 13 13) (or_digs 2 (b32_dig 2 a) 26 13) (or_digs 2 (b32_dig 2 a) 39 13) (or_digs 2 (b32_dig 2 a) 52 13) (or_digs 2 (b32_dig 2 a) 65 13) (or_digs 2 (b32_dig 2 a) 78 13) (or_digs 2 (b32_dig 2 a) 91 13) (or_digs 2 (b32_dig 2 a) 104 13) (or_digs 2 (b32_dig 2 a) 117 11)"
proof -
  have i: "8 * (q div 4) + 2 * (q mod 4) = 2 * q" for q :: nat by presburger
  have d: "2 * q div 26 = q div 13" "2 * q mod 26 = 2 * (q mod 13)" for q :: nat
    using div_mult_mult1 [of 2 q 13] mult_mod_right [of 2 q 13] by simp_all
  have m: "ucast (drop_bit (2 * (q mod 4)) (a ! (31 - q div 4)) AND 0x3) = (b32_dig 2 a q :: u32)" for q
    by (simp add: b32_dig_def mask_numeral)
  define n where "n = foldl (\<lambda>n q. n[q div 13 := n ! (q div 13) OR push_bit (2 * (q mod 13)) (b32_dig 2 a q :: u32)]) (replicate 10 0) [0..<128]"
  have n: "n ! k = or_digs 2 (b32_dig 2 a) (13 * k) (min 13 (128 - 13 * k))" if "k < 10" for k
    using set_limbs [of 128 10 2 "b32_dig 2 a :: nat \<Rightarrow> u32"] that unfolding n_def by simp
  have r: "[0, 0, 0, 0, 0, 0, 0, 0, 0, 0] = replicate 10 (0 :: u32)" by (simp add: numeral_eq_Suc)
  have "snd (fe_set_b32_10x26 a) = FE10 (n ! 0) (n ! 1) (n ! 2) (n ! 3) (n ! 4) (n ! 5) (n ! 6) (n ! 7) (n ! 8) (n ! 9)"
    unfolding fe_set_b32_10x26_def fe_b32_steps_10x26_eq foldl_map case_prod_conv Let_def i d m r n_def snd_conv ..
  then show ?thesis by (simp add: n)
qed

lemma fe_set_b32_10x26_val:
  "fe_val_10x26 (snd (fe_set_b32_10x26 a)) = dig_sum 2 (\<lambda>q. uint (b32_dig 2 a q :: u32)) 0 128"
  "limbs_le_10x26 (snd (fe_set_b32_10x26 a)) 0x3FFFFFF 0x3FFFFF"
proof -
  let ?v = "\<lambda>q. uint (b32_dig 2 a q :: u32)"
  have v: "0 \<le> ?v q \<and> ?v q \<le> 2 ^ 2 - 1" for q by (simp add: b32_dig_val zle_diff1_eq [of _ 4, simplified])
  have b: "dig_sum 2 ?v q n \<le> 2 ^ (2 * n) - 1" for q n using dig_sum_bounds [of ?v 2 q n] v by simp
  have o: "uint (or_digs 2 (b32_dig 2 a :: nat \<Rightarrow> u32) q n) = dig_sum 2 ?v q n" if "n \<le> 16" for q n
    by (rule or_digs_val) (use v that in auto)
  have "dig_sum 2 ?v 0 (13 + (13 + (13 + (13 + (13 + (13 + (13 + (13 + (13 + 11))))))))) = dig_sum 2 ?v 0 13 + 2 ^ 26 * (dig_sum 2 ?v 13 13 + 2 ^ 26 * (dig_sum 2 ?v 26 13 + 2 ^ 26 * (dig_sum 2 ?v 39 13 + 2 ^ 26 * (dig_sum 2 ?v 52 13 + 2 ^ 26 * (dig_sum 2 ?v 65 13 + 2 ^ 26 * (dig_sum 2 ?v 78 13 + 2 ^ 26 * (dig_sum 2 ?v 91 13 + 2 ^ 26 * (dig_sum 2 ?v 104 13 + 2 ^ 26 * dig_sum 2 ?v 117 11))))))))"
    unfolding dig_sum_add by simp
  then show "fe_val_10x26 (snd (fe_set_b32_10x26 a)) = dig_sum 2 ?v 0 128"
    unfolding set_b32_10x26_eq fe_val_10x26_horner fe_10x26.select_convs by (simp add: o)
  show "limbs_le_10x26 (snd (fe_set_b32_10x26 a)) 0x3FFFFFF 0x3FFFFF"
    using b [of _ 13] b [of 117 11] unfolding set_b32_10x26_eq limbs_le_10x26_def fe_10x26.select_convs by (simp add: o)
qed

lemma fe_set_b32_10x26_correct:
  assumes "length a = 32"
  shows "fe_val_10x26 (snd (fe_set_b32_10x26 a)) = be_val a" "fst (fe_set_b32_10x26 a) \<longleftrightarrow> be_val a < field_p"
    "fst (fe_set_b32_10x26 a) \<Longrightarrow> fe_normalized_10x26 (snd (fe_set_b32_10x26 a))"
proof -
  let ?r = "snd (fe_set_b32_10x26 a)"
  show v: "fe_val_10x26 ?r = be_val a"
    using dig_sum_bytes [where 'a = 32, of 2 a 32] be_val_rev_sum [OF assms] by (simp add: fe_set_b32_10x26_val)
  note l = fe_set_b32_10x26_val(2) [of a]
  have "fst (fe_set_b32_10x26 a) \<longleftrightarrow> \<not> field_p \<le> fe_val_10x26 ?r"
    unfolding p_test_10x26(2) [OF l, symmetric] unfolding fe_set_b32_10x26_def Let_def fst_conv snd_conv ..
  then show "fst (fe_set_b32_10x26 a) \<longleftrightarrow> be_val a < field_p" "fst (fe_set_b32_10x26 a) \<Longrightarrow> fe_normalized_10x26 ?r"
    using l v by (simp_all add: fe_normalized_10x26_def not_le)
qed

lemma fe_get_b32_10x26_byte:
  assumes "limbs_le_10x26 a 0x3FFFFFF 0x3FFFFF" "k < 32"
  shows "uint (fe_get_b32_10x26 a ! k) = fe_val_10x26 a div 256 ^ (31 - k) mod 256"
proof -
  define i where "i = 31 - k"
  define L where "L = [xn0 a, xn1 a, xn2 a, xn3 a, xn4 a, xn5 a, xn6 a, xn7 a, xn8 a, xn9 a]"
  define N where "N q = (drop_bit (2 * (q mod 13)) (L ! (q div 13)) AND mask 2 :: u32)" for q
  have L: "uint (L ! j) < 2 ^ (13 * 2)" if "j < length L" for j
  proof -
    have "j = 0 \<or> j = 1 \<or> j = 2 \<or> j = 3 \<or> j = 4 \<or> j = 5 \<or> j = 6 \<or> j = 7 \<or> j = 8 \<or> j = 9"
      using that by (auto simp: L_def less_Suc_eq)
    then show ?thesis using assms(1) by (auto simp: limbs_le_10x26_def L_def)
  qed
  have q: "(8 * i + 2 * j) div 26 = (4 * i + j) div 13" "(8 * i + 2 * j) mod 26 = 2 * ((4 * i + j) mod 13)" for j
    using div_mult_mult1 [of 2 "4 * i + j" 13] mult_mod_right [of 2 "4 * i + j" 13] by simp_all
  have n: "uint (N (4 * i + j)) = fe_val_10x26 a div 2 ^ (2 * (4 * i + j)) mod 2 ^ 2" if "j < 4" for j
    using limb_digit [of L 2 "4 * i + j", OF L] that unfolding N_def fe_val_10x26_def L_def i_def by simp
  have u: "[0..<4] = [0, 1, 2, 3]" by (simp add: upt_conv_Cons)
  have o: "or_digs 2 N (4 * i) 4 = (((0 OR push_bit (2 * 0) (N (4 * i + 0))) OR push_bit (2 * 1) (N (4 * i + 1))) OR push_bit (2 * 2) (N (4 * i + 2)))
      OR push_bit (2 * 3) (N (4 * i + 3))"
    by (simp add: numeral_eq_Suc)
  have m: "(0x3 :: u32) = mask 2" by (simp add: mask_numeral)
  have "fe_get_b32_10x26 a ! k = ucast (or_digs 2 N (4 * i) 4)"
    using assms(2) unfolding fe_get_b32_10x26_def L_def [symmetric] Let_def u o m q N_def
    by (simp only: nth_map_upt diff_zero add_0 i_def [symmetric] q foldl_Cons foldl_Nil)
  moreover have "uint (or_digs 2 N (4 * i) 4) = fe_val_10x26 a div 2 ^ (8 * i) mod 256"
  proof -
    have "uint (N m) \<le> 2 ^ 2 - 1" for m unfolding N_def uint_and_mask by (simp add: zle_diff1_eq [of _ 4, simplified])
    then have "uint (or_digs 2 N (4 * i) 4) = dig_sum 2 (\<lambda>m. uint (N m)) (4 * i) 4" by (rule or_digs_val) simp
    also have "\<dots> = dig_sum 2 (\<lambda>j. fe_val_10x26 a div 2 ^ (8 * i) div 2 ^ (2 * j) mod 2 ^ 2) 0 4"
      by (rule dig_sum_cong) (simp add: n div_mult2_eq' power_add zdiv_zmult2_eq)
    also have "\<dots> = fe_val_10x26 a div 2 ^ (8 * i) mod 256" unfolding dig_sum_mod by simp
    finally show ?thesis .
  qed
  ultimately show ?thesis
    by (simp add: unsigned_ucast_eq take_bit_eq_mod power_mult flip: i_def)
qed

lemma fe_get_b32_10x26_correct:
  assumes "limbs_le_10x26 a 0x3FFFFFF 0x3FFFFF"
  shows "be_val (fe_get_b32_10x26 a) = fe_val_10x26 a" "length (fe_get_b32_10x26 a) = 32"
proof -
  show l: "length (fe_get_b32_10x26 a) = 32" by (simp add: fe_get_b32_10x26_def)
  have "be_val (fe_get_b32_10x26 a) = (\<Sum>i<32. 256 ^ i * (fe_val_10x26 a div 256 ^ i mod 256))"
    unfolding be_val_rev_sum [OF l] by (rule sum.cong) (simp_all add: fe_get_b32_10x26_byte [OF assms])
  also have "\<dots> = fe_val_10x26 a"
    unfolding sum_digits using fe_val_10x26_bound [OF assms] fe_val_10x26_nonneg [of a] by simp
  finally show "be_val (fe_get_b32_10x26 a) = fe_val_10x26 a" .
qed

subsection \<open>The field interface\<close>

lemma fe_normalized_10x26_inject:
  "fe_normalized_10x26 a \<Longrightarrow> fe_normalized_10x26 b \<Longrightarrow> fe_val_10x26 a = fe_val_10x26 b \<Longrightarrow> a = b"
  using fe_val_10x26_inject by (auto simp: fe_normalized_10x26_def)

interpretation f10: field_arith field_ops_10x26 fe_val_10x26 fe_mag_10x26 fe_normalized_10x26
proof (unfold_locales, unfold field_ops_10x26_def field_ops.select_convs)
  fix a b :: fe_10x26 and m k :: nat and w :: u32 and bs :: "u8 list" and s t :: fe_storage_10x26
  show "fe_mag_10x26 m a \<Longrightarrow> m \<le> k \<Longrightarrow> fe_mag_10x26 k a" by (rule fe_mag_10x26_mono)
  show "fe_normalized_10x26 a \<Longrightarrow> fe_mag_10x26 1 a" by (rule fe_normalized_10x26_mag)
  show "fe_normalized_10x26 a \<Longrightarrow> 0 \<le> fe_val_10x26 a \<and> fe_val_10x26 a < field_p" by (simp add: fe_val_10x26_nonneg fe_normalized_10x26_def)
  show "fe_normalized_10x26 a \<Longrightarrow> fe_normalized_10x26 b \<Longrightarrow> fe_val_10x26 a = fe_val_10x26 b \<Longrightarrow> a = b" by (rule fe_normalized_10x26_inject)
  show "fe_mag_10x26 1 (fe_mul_10x26 a b) \<and> fe_val_10x26 (fe_mul_10x26 a b) mod field_p = fe_val_10x26 a * fe_val_10x26 b mod field_p"
    if "fe_mag_10x26 8 a" "fe_mag_10x26 8 b" using fe_mul_10x26_correct [OF that] by simp
  show "fe_mag_10x26 1 (fe_sqr_10x26 a) \<and> fe_val_10x26 (fe_sqr_10x26 a) mod field_p = fe_val_10x26 a * fe_val_10x26 a mod field_p"
    if "fe_mag_10x26 8 a" using fe_sqr_10x26_correct [OF that] by simp
  show "fe_mag_10x26 (m + k) (fe_add_10x26 a b) \<and> fe_val_10x26 (fe_add_10x26 a b) mod field_p = (fe_val_10x26 a + fe_val_10x26 b) mod field_p"
    if "fe_mag_10x26 m a" "fe_mag_10x26 k b" "m + k \<le> 32" using fe_add_10x26_correct [OF that(1,2)] that(3) by simp
  show "fe_mag_10x26 (unat w + 1) (fe_negate_10x26 a w) \<and> fe_val_10x26 (fe_negate_10x26 a w) mod field_p = - fe_val_10x26 a mod field_p"
    if "fe_mag_10x26 m a" "m \<le> unat w" "unat w < 32"
  proof -
    have "fe_val_10x26 (fe_negate_10x26 a w) = - fe_val_10x26 a + 2 * (uint w + 1) * field_p" "fe_mag_10x26 (unat w + 1) (fe_negate_10x26 a w)"
      using fe_negate_10x26_correct [OF that(1,2)] that(3) by simp_all
    then show ?thesis by (simp only: mod_mult_self1)
  qed
  show "fe_mag_10x26 (unat w * m) (fe_mul_int_10x26 a w) \<and> fe_val_10x26 (fe_mul_int_10x26 a w) mod field_p = fe_val_10x26 a * uint w mod field_p"
    if "fe_mag_10x26 m a" "unat w * m \<le> 32" "unat w \<le> 32" using fe_mul_int_10x26_correct [OF that(1,2)] by simp
  have i: "fe_in_10x26 a" if "fe_mag_10x26 31 a" for a by (rule fe_mag_10x26_in [OF that]) simp
  show "fe_normalized_10x26 (fe_normalize_10x26 a) \<and> fe_val_10x26 (fe_normalize_10x26 a) = fe_val_10x26 a mod field_p" if "fe_mag_10x26 31 a"
    using normalize_10x26_val i that by blast
  show "fe_mag_10x26 1 (fe_normalize_weak_10x26 a) \<and> fe_val_10x26 (fe_normalize_weak_10x26 a) mod field_p = fe_val_10x26 a mod field_p" if "fe_mag_10x26 31 a"
    using weak_10x26_val [OF i [OF that]] by (auto simp: fe_mag_10x26_def limbs_le_10x26_def)
  show "fe_normalize_var_10x26 a = fe_normalize_10x26 a" if "fe_mag_10x26 31 a" by (rule normalize_var_10x26_eq [OF i [OF that]])
  show "fe_normalizes_to_zero_10x26 a \<longleftrightarrow> fe_val_10x26 a mod field_p = 0" if "fe_mag_10x26 31 a"
    by (rule to_zero_10x26_iff [OF i [OF that]])
  show "fe_normalizes_to_zero_var_10x26 a \<longleftrightarrow> fe_val_10x26 a mod field_p = 0" if "fe_mag_10x26 31 a"
    unfolding to_zero_var_10x26_eq by (rule to_zero_10x26_iff [OF i [OF that]])
  show "fe_normalized_10x26 (fe_set_int_10x26 w) \<and> fe_val_10x26 (fe_set_int_10x26 w) = uint w" if "uint w < 2 ^ 26"
    using fe_set_int_10x26_correct [of w] that by simp
  show "fe_clear_10x26 a = fe_set_int_10x26 0" by (simp add: fe_clear_10x26_def fe_set_int_10x26_def)
  show "fe_is_zero_10x26 a \<longleftrightarrow> fe_val_10x26 a = 0" by (rule fe_is_zero_10x26_iff)
  show "fe_is_odd_10x26 a \<longleftrightarrow> odd (fe_val_10x26 a)" by (rule fe_is_odd_10x26_iff)
  show "fe_cmp_var_10x26 a b = sgn (fe_val_10x26 a - fe_val_10x26 b)" if "fe_normalized_10x26 a" "fe_normalized_10x26 b"
    using fe_cmp_var_10x26_correct that unfolding fe_normalized_10x26_def by blast
  show "fe_val_10x26 (snd (fe_set_b32_10x26 bs)) = be_val bs" "fst (fe_set_b32_10x26 bs) \<longleftrightarrow> be_val bs < field_p" if "length bs = 32"
    using fe_set_b32_10x26_correct [OF that] by simp_all
  show "fe_normalized_10x26 (snd (fe_set_b32_10x26 bs))" if "length bs = 32" "be_val bs < field_p"
    using fe_set_b32_10x26_correct [OF that(1)] that(2) by simp
  show "be_val (fe_get_b32_10x26 a) = fe_val_10x26 a \<and> length (fe_get_b32_10x26 a) = 32" if "fe_normalized_10x26 a"
    using fe_get_b32_10x26_correct that by (simp add: fe_normalized_10x26_def)
  show "fe_cmov_10x26 a b 0 = a" "fe_cmov_10x26 a b 1 = b" by (rule fe_cmov_10x26_eq)+
  show "fe_from_storage_10x26 (fe_to_storage_10x26 a) = a" if "fe_normalized_10x26 a"
    using fe_storage_10x26_roundtrip that by (simp add: fe_normalized_10x26_def)
  show "fe_storage_cmov_10x26 s t 0 = s" "fe_storage_cmov_10x26 s t 1 = t" by (rule fe_storage_cmov_10x26_eq)+
  fix d0 d1 d2 d3 d4 d5 d6 d7 :: u32
  show "fe_normalized_10x26 (fe_const_10x26 d7 d6 d5 d4 d3 d2 d1 d0) \<and>
      fe_val_10x26 (fe_const_10x26 d7 d6 d5 d4 d3 d2 d1 d0) = limbs_val 32 [d0, d1, d2, d3, d4, d5, d6, d7]"
    if "limbs_val 32 [d0, d1, d2, d3, d4, d5, d6, d7] < field_p"
    using that fe_const_10x26_correct by (simp only: fe_normalized_10x26_def simp_thms)
qed

subsection \<open>Properties\<close>

lemmas fe_eval_10x26 = fe_verify_10x26_def fe_mag_10x26_def limbs_le_10x26_def fe_val_10x26_def limbs_val_Cons field_p_def

text \<open>C36: in the representation the program is built with, products and squares of elements of magnitude at most 8
  have magnitude 1 and denote the product modulo the field prime; no 64-bit accumulator wraps around. Sums, negations and
  small multiples stay within the magnitudes that \<open>field.h\<close> announces, up to 32.\<close>

theorem fe_10x26_arith:
  assumes "fe_mag_10x26 8 a" and "fe_mag_10x26 8 b" and "fe_mag_10x26 m c" and "fe_mag_10x26 k d" and "m + k \<le> 32"
    and "m \<le> unat e" and "unat e \<le> 31" and "unat f * m \<le> 32"
  shows "fe_val_10x26 (fe_mul_10x26 a b) mod field_p = fe_val_10x26 a * fe_val_10x26 b mod field_p \<and> fe_verify_10x26 (fe_mul_10x26 a b) 1 False \<and>
    fe_val_10x26 (fe_sqr_10x26 a) mod field_p = fe_val_10x26 a * fe_val_10x26 a mod field_p \<and> fe_verify_10x26 (fe_sqr_10x26 a) 1 False \<and>
    fe_val_10x26 (fe_add_10x26 c d) = fe_val_10x26 c + fe_val_10x26 d \<and> fe_mag_10x26 (m + k) (fe_add_10x26 c d) \<and>
    fe_val_10x26 (fe_negate_10x26 c e) = 2 * (uint e + 1) * field_p - fe_val_10x26 c \<and> fe_mag_10x26 (unat e + 1) (fe_negate_10x26 c e) \<and>
    fe_val_10x26 (fe_mul_int_10x26 c f) = fe_val_10x26 c * uint f \<and> fe_mag_10x26 (unat f * m) (fe_mul_int_10x26 c f)"
  using fe_mul_10x26_correct [OF assms(1,2)] fe_sqr_10x26_correct [OF assms(1)] fe_verify_10x26_mag [of 1]
    fe_add_10x26_correct [OF assms(3,4,5)] fe_negate_10x26_correct [OF assms(3,6,7)] fe_mul_int_10x26_correct [OF assms(3,8)] by simp

theorem fe_10x26_arith_witness:
  "fe_val_10x26 (fe_mul_10x26 (FE10 2 0 0 0 0 0 0 0 0 0x3FFFFF) (FE10 0 0 0x3FFFFFF 0 0 0 0 0 0 9)) mod field_p =
     fe_val_10x26 (FE10 2 0 0 0 0 0 0 0 0 0x3FFFFF) * fe_val_10x26 (FE10 0 0 0x3FFFFFF 0 0 0 0 0 0 9) mod field_p \<and>
   fe_mag_10x26 (unat (8 :: u32) * 1) (fe_mul_int_10x26 (FE10 1 2 3 4 5 6 7 8 9 10) 8)"
  using fe_10x26_arith [of "FE10 2 0 0 0 0 0 0 0 0 0x3FFFFF" "FE10 0 0 0x3FFFFFF 0 0 0 0 0 0 9" 1 "FE10 1 2 3 4 5 6 7 8 9 10" 1 "FE10 1 2 3 4 5 6 7 8 9 10" 1 8]
  unfolding fe_mag_10x26_def limbs_le_10x26_def by simp

text \<open>Up to magnitude 31 the full normalization returns the one normalized representative, the variable time
  version the same, the weak version keeps the residue at magnitude 1, and both zero tests decide whether the residue is zero.\<close>

theorem fe_10x26_normalize:
  assumes "fe_verify_10x26 r (int m) False" and "m \<le> 31"
  shows "fe_val_10x26 (fe_normalize_10x26 r) = fe_val_10x26 r mod field_p \<and> fe_verify_10x26 (fe_normalize_10x26 r) 1 True \<and>
    fe_normalize_var_10x26 r = fe_normalize_10x26 r \<and>
    fe_val_10x26 (fe_normalize_weak_10x26 r) mod field_p = fe_val_10x26 r mod field_p \<and> fe_verify_10x26 (fe_normalize_weak_10x26 r) 1 False \<and>
    (fe_normalizes_to_zero_10x26 r \<longleftrightarrow> field_p dvd fe_val_10x26 r) \<and>
    (fe_normalizes_to_zero_var_10x26 r \<longleftrightarrow> field_p dvd fe_val_10x26 r)"
proof -
  have i: "fe_in_10x26 r" using fe_verify_10x26_mag [of m r] assms by (auto intro: fe_mag_10x26_in)
  have "fe_mag_10x26 1 (fe_normalize_weak_10x26 r)"
    using weak_10x26_val(2) [OF i] by (auto simp: fe_mag_10x26_def limbs_le_10x26_def)
  then show ?thesis
    using normalize_10x26_val [OF i] normalize_var_10x26_eq [OF i] weak_10x26_val(1) [OF i] fe_verify_10x26_mag [of 1]
      to_zero_10x26_iff [OF i] to_zero_var_10x26_eq [of r] fe_verify_10x26_normalized
    by (simp add: dvd_eq_mod_eq_0)
qed

theorem fe_10x26_normalize_witness:
  "fe_val_10x26 (fe_normalize_10x26 (FE10 0x7FFF85E 0x7FFFF7E 0x7FFFFFE 0x7FFFFFE 0x7FFFFFE 0x7FFFFFE 0x7FFFFFE 0x7FFFFFE 0x7FFFFFE 0x7FFFFE)) = 0 \<and> fe_normalizes_to_zero_10x26 (FE10 0x7FFF85E 0x7FFFF7E 0x7FFFFFE 0x7FFFFFE 0x7FFFFFE 0x7FFFFFE 0x7FFFFFE 0x7FFFFFE 0x7FFFFFE 0x7FFFFE)"
proof -
  have "fe_verify_10x26 (FE10 0x7FFF85E 0x7FFFF7E 0x7FFFFFE 0x7FFFFFE 0x7FFFFFE 0x7FFFFFE 0x7FFFFFE 0x7FFFFFE 0x7FFFFFE 0x7FFFFE) (int 1) False" by (simp add: fe_verify_10x26_def)
  moreover have "field_p dvd fe_val_10x26 (FE10 0x7FFF85E 0x7FFFF7E 0x7FFFFFE 0x7FFFFFE 0x7FFFFFE 0x7FFFFFE 0x7FFFFFE 0x7FFFFFE 0x7FFFFFE 0x7FFFFE)" by (simp add: fe_val_10x26_def limbs_val_Cons field_p_def)
  ultimately show ?thesis using fe_10x26_normalize [of "FE10 0x7FFF85E 0x7FFFF7E 0x7FFFFFE 0x7FFFFFE 0x7FFFFFE 0x7FFFFFE 0x7FFFFFE 0x7FFFFFE 0x7FFFFFE 0x7FFFFE" 1] by (simp add: dvd_eq_mod_eq_0)
qed


text \<open>The 32-byte and the storage form of normalized elements. Bytes are read as their big-endian value and
  accepted exactly below the field prime; what is written reads back, and accepted bytes are written back; a normalized element
  survives its storage form, which has the same value; comparison, parity and the zero test are those of the value.\<close>

theorem fe_10x26_encode:
  assumes "length bs = 32" and "fe_normalized_10x26 a" and "fe_normalized_10x26 b"
  shows "(fst (fe_set_b32_10x26 bs) \<longleftrightarrow> be_val bs < field_p) \<and> fe_val_10x26 (snd (fe_set_b32_10x26 bs)) = be_val bs \<and>
    fe_set_b32_10x26 (fe_get_b32_10x26 a) = (True, a) \<and>
    (fst (fe_set_b32_10x26 bs) \<longrightarrow> fe_get_b32_10x26 (snd (fe_set_b32_10x26 bs)) = bs) \<and>
    storage_val_10x26 (fe_to_storage_10x26 a) = fe_val_10x26 a \<and> fe_from_storage_10x26 (fe_to_storage_10x26 a) = a \<and>
    fe_cmp_var_10x26 a b = sgn (fe_val_10x26 a - fe_val_10x26 b) \<and> (fe_is_odd_10x26 a \<longleftrightarrow> odd (fe_val_10x26 a)) \<and>
    (fe_is_zero_10x26 a \<longleftrightarrow> fe_val_10x26 a = 0)"
proof -
  have la: "limbs_le_10x26 a 0x3FFFFFF 0x3FFFFF" and lb: "limbs_le_10x26 b 0x3FFFFFF 0x3FFFFF"
    using assms(2,3) by (simp_all add: fe_normalized_10x26_def)
  have g: "be_val (fe_get_b32_10x26 a) = fe_val_10x26 a" "length (fe_get_b32_10x26 a) = 32" "fe_val_10x26 a < field_p"
    using fe_get_b32_10x26_correct [OF la] assms(2) by (simp_all add: fe_normalized_10x26_def)
  have "fst (fe_set_b32_10x26 (fe_get_b32_10x26 a))" "snd (fe_set_b32_10x26 (fe_get_b32_10x26 a)) = a"
    using fe_set_b32_10x26_correct [OF g(2)] g assms(2) by (auto intro: fe_normalized_10x26_inject)
  moreover have "fe_get_b32_10x26 (snd (fe_set_b32_10x26 bs)) = bs" if "fst (fe_set_b32_10x26 bs)"
  proof -
    have "fe_normalized_10x26 (snd (fe_set_b32_10x26 bs))" by (rule fe_set_b32_10x26_correct(3) [OF assms(1) that])
    then show ?thesis
      using be_val_inject [of "fe_get_b32_10x26 (snd (fe_set_b32_10x26 bs))" bs] fe_set_b32_10x26_correct(1) [OF assms(1)] assms(1)
        fe_get_b32_10x26_correct [of "snd (fe_set_b32_10x26 bs)"] by (simp add: fe_normalized_10x26_def)
  qed
  ultimately show ?thesis
    using fe_set_b32_10x26_correct [OF assms(1)] fe_to_storage_10x26_val [OF la] fe_storage_10x26_roundtrip [OF la] fe_cmp_var_10x26_correct [OF la lb]
      fe_is_odd_10x26_iff fe_is_zero_10x26_iff by (simp add: prod_eq_iff)
qed

theorem fe_10x26_encode_witness:
  "fe_set_b32_10x26 (fe_get_b32_10x26 (FE10 1 2 3 4 5 6 7 8 9 10)) = (True, FE10 1 2 3 4 5 6 7 8 9 10) \<and>
   \<not> fst (fe_set_b32_10x26 [0xFF, 0xFF, 0xFF, 0xFF, 0xFF, 0xFF, 0xFF, 0xFF, 0xFF, 0xFF, 0xFF, 0xFF, 0xFF, 0xFF, 0xFF, 0xFF, 0xFF, 0xFF, 0xFF, 0xFF, 0xFF, 0xFF, 0xFF, 0xFF, 0xFF, 0xFF, 0xFF, 0xFF, 0xFF, 0xFF, 0xFF, 0xFF]) \<and> fe_cmp_var_10x26 (FE10 1 2 3 4 5 6 7 8 9 10) (FE10 2 2 3 4 5 6 7 8 9 10) = - 1"
proof -
  have n: "fe_normalized_10x26 (FE10 1 2 3 4 5 6 7 8 9 10)" "fe_normalized_10x26 (FE10 2 2 3 4 5 6 7 8 9 10)"
    by (simp_all add: fe_normalized_10x26_def fe_eval_10x26)
  have "\<not> be_val ([0xFF, 0xFF, 0xFF, 0xFF, 0xFF, 0xFF, 0xFF, 0xFF, 0xFF, 0xFF, 0xFF, 0xFF, 0xFF, 0xFF, 0xFF, 0xFF, 0xFF, 0xFF, 0xFF, 0xFF, 0xFF, 0xFF, 0xFF, 0xFF, 0xFF, 0xFF, 0xFF, 0xFF, 0xFF, 0xFF, 0xFF, 0xFF]) < field_p" by (simp add: be_val_def field_p_def)
  then show ?thesis
    using fe_10x26_encode [OF _ n, of "[0xFF, 0xFF, 0xFF, 0xFF, 0xFF, 0xFF, 0xFF, 0xFF, 0xFF, 0xFF, 0xFF, 0xFF, 0xFF, 0xFF, 0xFF, 0xFF, 0xFF, 0xFF, 0xFF, 0xFF, 0xFF, 0xFF, 0xFF, 0xFF, 0xFF, 0xFF, 0xFF, 0xFF, 0xFF, 0xFF, 0xFF, 0xFF]"] by (simp add: fe_eval_10x26)
qed

end
