(* ===== verification/Ecmult_10x26.thy ===== *)
theory Ecmult_10x26
  imports Ecmult Scalar_8x32 Field_10x26
begin

text \<open>
  The configuration that the build of the program selects: scalars with 32-bit limbs, field elements with 26-bit limbs, and the
  endomorphism. The interfaces of the digit recoding, the group code and point multiplication are interpreted on it.
\<close>

definition fe_fp_10x26 :: "fe_10x26 \<Rightarrow> fp" where
  "fe_fp_10x26 a = of_int (fe_val_10x26 a)"

interpretation e10: ecmult_arith field_ops_10x26 fe_val_10x26 fe_mag_10x26 fe_normalized_10x26
  by unfold_locales

lemma fv_fe_fp_10x26: "f10.fv = fe_fp_10x26"
  by (rule ext) (simp add: f10.fv_def fe_fp_10x26_def)

lemma fe_fp_FE10: "fe_fp_10x26 (FE10 a b c d e f g h i j) = of_int (limbs_val 26 [a, b, c, d, e, f, g, h, i, j])"
  by (simp add: fe_fp_10x26_def fe_val_10x26_def)

lemmas group_eval_10x26 = gej_ok_def ge_ok_def gej_rep_def ge_rep_def fe_mag_10x26_def limbs_le_10x26_def fe_fp_FE10 limbs_val_Cons

definition digit_ops_8x32 :: "scalar_8x32 digit_ops" where
  "digit_ops_8x32 = \<lparr>dg_get_bits = scalar_get_bits_8x32, dg_get_bits_var = scalar_get_bits_var_8x32, dg_shr_int = scalar_shr_int_8x32,
     dg_negate = scalar_negate_8x32, dg_cond_negate = scalar_cond_negate_8x32, dg_cadd_bit = scalar_cadd_bit_8x32,
     dg_is_high = scalar_is_high_8x32, dg_is_even = scalar_is_even_8x32, dg_is_one = scalar_is_one_8x32\<rparr>"

lemma is_high_8x32: "scalar_is_high_8x32 a = of_bool (order_n < 2 * scalar_val_8x32 a)"
  unfolding is_high_8x32_iff half_order_def order_n_def by (rule arg_cong [where f = of_bool]) linarith

definition ecmult_scalar_8x32 :: "scalar_8x32 ecmult_scalar" where
  "ecmult_scalar_8x32 = \<lparr>em_digits = digit_ops_8x32, em_split_lambda = scalar_split_lambda scalar_ops_8x32, em_split_128 = scalar_split_128_8x32\<rparr>"

lemmas digit_ops_8x32_simps = digit_ops_8x32_def digit_ops.select_convs

interpretation d8: scalar_digits digit_ops_8x32 scalar_val_8x32
proof (unfold_locales, unfold digit_ops_8x32_simps)
  show "0 \<le> scalar_val_8x32 a" "scalar_val_8x32 a < 2 ^ 256" for a by (rule val_8x32_bounds)+
  show "uint (scalar_get_bits_8x32 a offset count) = scalar_val_8x32 a div 2 ^ unat offset mod 2 ^ unat count"
    if "unat offset mod 32 + unat count \<le> 32" "unat offset + unat count \<le> 256" for a offset count
    using that by (rule get_bits_8x32_correct)
  show "uint (scalar_get_bits_var_8x32 a offset count) = scalar_val_8x32 a div 2 ^ unat offset mod 2 ^ unat count"
    if "0 < unat count" "unat count < 32" "unat offset + unat count \<le> 256" for a offset count
    using that by (rule get_bits_var_8x32_correct)
  show "scalar_val_8x32 (snd (scalar_shr_int_8x32 a n)) = scalar_val_8x32 a div 2 ^ unat n \<and>
      uint (fst (scalar_shr_int_8x32 a n)) = scalar_val_8x32 a mod 2 ^ unat n" if "0 < unat n" "unat n < 16" for a n
    using shr_int_8x32_correct [OF that] by blast
  show "scalar_val_8x32 (scalar_negate_8x32 a) = - scalar_val_8x32 a mod order_n" if "scalar_val_8x32 a < order_n" for a
    by (rule negate_8x32_correct) (use that in \<open>simp add: scalar_ok_8x32_def\<close>)
  show "scalar_val_8x32 (scalar_cadd_bit_8x32 a k flag) = (scalar_val_8x32 a + uint flag * 2 ^ unat k) mod 2 ^ 256"
    if "unat k < 256" "flag = 0 \<or> flag = 1" for a k flag using that by (rule cadd_bit_8x32_correct)
qed (rule cond_negate_8x32_eq is_high_8x32 is_even_8x32_iff is_one_8x32_iff)+

interpretation ef10: ecmult_full field_ops_10x26 fe_val_10x26 fe_mag_10x26 fe_normalized_10x26 ecmult_scalar_8x32 scalar_ops_8x32 scalar_val_8x32
proof (intro ecmult_full.intro ecmult_recode.intro ecmult_recode_axioms.intro, unfold ecmult_scalar_8x32_def ecmult_scalar.select_convs)
  show "scalar_split_lambda scalar_ops_8x32 = scalar_split_lambda scalar_ops_8x32" ..
  show "scalar_val_8x32 a = scalar_val_8x32 r1 + 2 ^ 128 * scalar_val_8x32 r2 \<and> scalar_val_8x32 r1 < 2 ^ 128 \<and> scalar_val_8x32 r2 < 2 ^ 128"
    if "scalar_split_128_8x32 a = (r1, r2)" for a r1 r2 using split_128_8x32_correct [OF that] by blast
qed (rule e10.ecmult_arith_axioms d8.scalar_digits_axioms s8.scalar_arith_axioms)+

subsection \<open>Properties\<close>



text \<open>C11: \<open>ecmult\<close> as the program runs it. Both scalars are split and recoded into digits that sum up to them, \<open>na\<close>
  modulo the group order through the eigenvalue \<open>lambda\<close> and \<open>ng\<close> through \<open>2^128\<close>; and whenever double-and-add over the
  points of the four tables gives \<open>R\<close>, the Jacobian result represents \<open>R\<close> within the magnitude bounds.\<close>

theorem ecmult_10x26_refines:
  assumes "scalar_ok_8x32 na" "gej_ok fe_mag_10x26 a" "gej_rep fe_fp_10x26 a A" "odd_multiples A 8 T"
    and "length (tm_prej mem) = 8" "length (tm_zr mem) = 8" "length pre = 8"
    and "ec_pre_g ctx = Some pg" "ec_pre_g_128 ctx = Some ph"
    and "st_table field_ops_10x26 fe_fp_10x26 fe_mag_10x26 pg 8192 G" "st_table field_ops_10x26 fe_fp_10x26 fe_mag_10x26 ph 8192 H"
    and "scalar_split_lambda scalar_ops_8x32 na = (n1, n2)" "scalar_split_128_8x32 ng = (g1, g2)"
  shows "\<exists>d1 d2 d3 d4. ecmult_wnaf digit_ops_8x32 130 n1 WINDOW_A = Some d1 \<and> ecmult_wnaf digit_ops_8x32 130 n2 WINDOW_A = Some d2 \<and>
    ecmult_wnaf digit_ops_8x32 129 g1 WINDOW_G = Some d3 \<and> ecmult_wnaf digit_ops_8x32 129 g2 WINDOW_G = Some d4 \<and>
    (digit_sum 1 (fst d1) + scalar_lambda * digit_sum 1 (fst d2)) mod order_n = scalar_val_8x32 na \<and>
    digit_sum 1 (fst d3) + 2 ^ 128 * digit_sum 1 (fst d4) = scalar_val_8x32 ng \<and>
    wnaf_ok 8 d1 \<and> wnaf_ok 8 d2 \<and> wnaf_ok 8192 d3 \<and> wnaf_ok 8192 d4 \<and>
    (\<forall>R. ec_horner (ecmult_addends T G H d1 d2 d3 d4) (nat (max (max (snd d1) (snd d2)) (max (snd d3) (snd d4)))) Infinity R \<longrightarrow>
      (\<exists>r'. ecmult field_ops_10x26 ecmult_scalar_8x32 mem pre Z ctx r a na ng = Some r' \<and> gej_ok fe_mag_10x26 r' \<and> gej_rep fe_fp_10x26 r' R))"
  using ef10.ecmult_correct [of na a A T mem pre ctx pg ph G H n1 n2 ng g1 g2 Z r] assms
  by (simp add: ecmult_scalar_8x32_def fv_fe_fp_10x26 scalar_ok_8x32_def)

text \<open>The witness multiplies a point of order six by zero, with tables of its odd multiples.\<close>

lemma ecmult_10x26_refines_witness:
  "\<exists>r. ecmult field_ops_10x26 ecmult_scalar_8x32
      \<lparr>tm_d = \<lparr>jx = FE10 0 0 0 0 0 0 0 0 0 0, jy = FE10 0 0 0 0 0 0 0 0 0 0, jz = FE10 0 0 0 0 0 0 0 0 0 0, jinf = False\<rparr>,
        tm_prej = replicate 8 \<lparr>jx = FE10 0 0 0 0 0 0 0 0 0 0, jy = FE10 0 0 0 0 0 0 0 0 0 0, jz = FE10 0 0 0 0 0 0 0 0 0 0, jinf = False\<rparr>, tm_zr = replicate 8 (FE10 0 0 0 0 0 0 0 0 0 0)\<rparr>
      (replicate 8 \<lparr>gx = FE10 0 0 0 0 0 0 0 0 0 0, gy = FE10 0 0 0 0 0 0 0 0 0 0, ginf = False\<rparr>) (FE10 0 0 0 0 0 0 0 0 0 0)
      \<lparr>ec_pre_g = Some (small_pre_g field_ops_10x26 8192), ec_pre_g_128 = Some (small_pre_g field_ops_10x26 8192)\<rparr>
      \<lparr>jx = FE10 0 0 0 0 0 0 0 0 0 0, jy = FE10 0 0 0 0 0 0 0 0 0 0, jz = FE10 0 0 0 0 0 0 0 0 0 0, jinf = False\<rparr>
      \<lparr>jx = FE10 2 0 0 0 0 0 0 0 0 0, jy = FE10 3 0 0 0 0 0 0 0 0 0, jz = FE10 1 0 0 0 0 0 0 0 0 0, jinf = False\<rparr>
      (Scalar8 0 0 0 0 0 0 0 0) (Scalar8 0 0 0 0 0 0 0 0) = Some r \<and> gej_rep fe_fp_10x26 r Infinity"
    (is "\<exists>r. ecmult _ _ ?mem ?pre ?Z ?ctx ?r ?a ?s ?s = Some r \<and> _")
proof -
  have z: "scalar_ok_8x32 ?s" by (simp add: scalar_ok_8x32_def scalar_val_8x32_def scalar_limbs_8x32_def limbs_val_Cons order_n_def)
  have a: "gej_ok fe_mag_10x26 ?a" "gej_rep fe_fp_10x26 ?a (Affine 2 3)"
    by (simp_all add: gej_ok_def gej_rep_def fe_mag_10x26_def limbs_le_10x26_def fe_fp_FE10 limbs_val_Cons)
  have l: "length (tm_prej ?mem) = 8" "length (tm_zr ?mem) = 8" "length ?pre = 8" by simp_all
  have c: "ec_pre_g ?ctx = Some (small_pre_g field_ops_10x26 8192)" "ec_pre_g_128 ?ctx = Some (small_pre_g field_ops_10x26 8192)" by simp_all
  note g = e10.small_pre_g_table [of 8192, unfolded fv_fe_fp_10x26]
  obtain n1 n2 g1 g2 where sp: "scalar_split_lambda scalar_ops_8x32 ?s = (n1, n2)" "scalar_split_128_8x32 ?s = (g1, g2)" by fastforce
  have v: "scalar_val_8x32 ?s = 0" by (simp add: scalar_val_8x32_def scalar_limbs_8x32_def limbs_val_Cons)
  note s0 = ef10.split_of_zero [OF v, unfolded ecmult_scalar_8x32_def ecmult_scalar.select_convs, OF sp]
  have l2: "(130 :: nat) \<le> 256" "(129 :: nat) \<le> 256" by simp_all
  note w = d8.wnaf_of_zero [OF s0(1) l2(1)] d8.wnaf_of_zero [OF s0(2) l2(1)] d8.wnaf_of_zero [OF s0(3) l2(2)] d8.wnaf_of_zero [OF s0(4) l2(2)]
  from ecmult_10x26_refines [OF z a small_multiples l c g g sp, where Z = ?Z and r = ?r]
  show ?thesis unfolding w using ec_horner.zero by fastforce
qed

end
