(* ===== verification/Scalar_Api.thy ===== *)
theory Scalar_Api
  imports Ecmult_10x26
begin

text \<open>
  The functions of \<open>scalar.h\<close> that the code above the arithmetic layer calls, as one record, and the locale \<open>secp_code\<close>: a
  field representation, a scalar representation and their laws. The code of signatures, keys and the constant time
  multiplications is modelled over these operations and proved inside the locale. The interpretation \<open>b10\<close> is the configuration of the
  program: 10x26 field elements and 8x32 scalars.
\<close>

record 's scalar_api =
  sa_arith :: "'s scalar_ops"
  sa_ecmult :: "'s ecmult_scalar"
  sa_clear :: "'s \<Rightarrow> 's"
  sa_set_int :: "u32 \<Rightarrow> 's"
  sa_set_b32 :: "u8 list \<Rightarrow> u32 \<times> 's"
  sa_get_b32 :: "'s \<Rightarrow> u8 list"
  sa_is_zero :: "'s \<Rightarrow> bool"
  sa_eq :: "'s \<Rightarrow> 's \<Rightarrow> bool"

abbreviation sa_digits :: "'s scalar_api \<Rightarrow> 's digit_ops" where
  "sa_digits api \<equiv> em_digits (sa_ecmult api)"

abbreviation sa_mul :: "'s scalar_api \<Rightarrow> 's \<Rightarrow> 's \<Rightarrow> 's" where
  "sa_mul api \<equiv> sc_mul (sa_arith api)"

abbreviation sa_add :: "'s scalar_api \<Rightarrow> 's \<Rightarrow> 's \<Rightarrow> 's" where
  "sa_add api a b \<equiv> snd (sc_add (sa_arith api) a b)"

abbreviation sa_negate :: "'s scalar_api \<Rightarrow> 's \<Rightarrow> 's" where
  "sa_negate api \<equiv> dg_negate (sa_digits api)"

abbreviation sa_is_high :: "'s scalar_api \<Rightarrow> 's \<Rightarrow> bool" where
  "sa_is_high api a \<equiv> dg_is_high (sa_digits api) a \<noteq> 0"

locale secp_code = ecmult_full fops val mag nrm "sa_ecmult api" "sa_arith api" sval
  for fops :: "('fe, 'st) field_ops" and val mag nrm and api :: "'s scalar_api" and sval :: "'s \<Rightarrow> int" +
  assumes sa_clear_val: "sval (sa_clear api a) = 0"
    and sa_set_int_val: "sval (sa_set_int api v) = uint v"
    and sa_set_b32_val: "length bs = 32 \<Longrightarrow> sval (snd (sa_set_b32 api bs)) = be_val bs mod order_n"
    and sa_set_b32_flag: "length bs = 32 \<Longrightarrow> fst (sa_set_b32 api bs) = of_bool (order_n \<le> be_val bs)"
    and sa_get_b32_val: "be_val (sa_get_b32 api a) = sval a \<and> length (sa_get_b32 api a) = 32"
    and sa_is_zero_iff: "sa_is_zero api a \<longleftrightarrow> sval a = 0"
    and sa_eq_iff: "sa_eq api a b \<longleftrightarrow> sval a = sval b"
    and sa_inject: "sval a = sval b \<Longrightarrow> a = b"
begin

lemma sa_mul_less: "sval (sa_mul api a b) < order_n"
  unfolding ar.mul_val by (simp add: order_n_def)

lemma sa_add_less: "sval a < order_n \<Longrightarrow> sval b < order_n \<Longrightarrow> sval (sa_add api a b) < order_n"
  by (simp add: ar.add_val order_n_def)

lemma sa_negate_less: "sval a < order_n \<Longrightarrow> sval (sa_negate api a) < order_n"
  by (simp add: dg.negate_val order_n_def)

lemma sa_is_high_iff: "sa_is_high api a \<longleftrightarrow> order_n < 2 * sval a"
  by (simp add: dg.is_high_val)

text \<open>With Fermat's equation the power that \<open>scalar_inverse\<close> computes is the inverse.\<close>

lemma sa_inverse:
  assumes "sval s ^ nat (order_n - 1) mod order_n = 1"
  shows "sval (scalar_inverse (sa_arith api) s) * sval s mod order_n = 1"
proof -
  have n: "nat (order_n - 1) = Suc (nat (order_n - 2))" by (simp add: order_n_def)
  have "sval (scalar_inverse (sa_arith api) s) * sval s mod order_n = sval s ^ nat (order_n - 2) * sval s mod order_n"
    using ar.inverse_val [of s] by (metis mod_mult_left_eq)
  also have "\<dots> = 1" using assms unfolding n by (simp only: power_Suc mult.commute)
  finally show ?thesis .
qed

end

definition scalar_api_8x32 :: "scalar_8x32 scalar_api" where
  "scalar_api_8x32 = \<lparr>sa_arith = scalar_ops_8x32, sa_ecmult = ecmult_scalar_8x32, sa_clear = scalar_clear_8x32, sa_set_int = scalar_set_int_8x32,
     sa_set_b32 = scalar_set_b32_8x32, sa_get_b32 = scalar_get_b32_8x32, sa_is_zero = scalar_is_zero_8x32, sa_eq = scalar_eq_8x32\<rparr>"

lemmas scalar_api_8x32_simps = scalar_api_8x32_def scalar_api.select_convs

interpretation b10: secp_code field_ops_10x26 fe_val_10x26 fe_mag_10x26 fe_normalized_10x26 scalar_api_8x32 scalar_val_8x32
proof (intro secp_code.intro secp_code_axioms.intro, unfold scalar_api_8x32_simps)
  show "scalar_val_8x32 (scalar_clear_8x32 a) = 0" for a by (simp add: scalar_clear_8x32_def val_8x32 limbs_val_Cons)
  show "scalar_val_8x32 (scalar_set_int_8x32 v) = uint v" for v by (simp add: scalar_set_int_8x32_def val_8x32 limbs_val_Cons)
  show "scalar_val_8x32 (snd (scalar_set_b32_8x32 b)) = be_val b mod order_n" "fst (scalar_set_b32_8x32 b) = of_bool (order_n \<le> be_val b)"
    if "length b = 32" for b using set_b32_8x32_correct [OF that] by blast+
  show "be_val (scalar_get_b32_8x32 a) = scalar_val_8x32 a \<and> length (scalar_get_b32_8x32 a) = 32" for a
    using get_b32_8x32_correct by blast
  show "a = b" if "scalar_val_8x32 a = scalar_val_8x32 b" for a b using that by (simp add: val_8x32_inject)
  show "scalar_eq_8x32 a b \<longleftrightarrow> scalar_val_8x32 a = scalar_val_8x32 b" for a b by (simp add: eq_8x32_iff val_8x32_inject)
qed (rule ef10.ecmult_full_axioms is_zero_8x32_iff)+

context secp_code
begin

text \<open>Affine and normalized coordinates of a result.\<close>

lemma set_gej_ok:
  assumes "gej_ok mag a"
  shows "ge_ok mag (fst (ge_set_gej fops a))"
proof -
  have m: "mag 8 (jx a)" "mag 8 (jy a)" "mag 8 (fe_inv fops (jz a))"
    using assms inv_mag [of "jz a"] mag_mono [of 1 _ 8] by (auto simp: gej_ok_def)
  have s: "mag 8 (fe_sqr fops (fe_inv fops (jz a)))" using m chain.sqr mag_mono [of 1 _ 8] by blast
  then have "mag 8 (fe_mul fops (fe_sqr fops (fe_inv fops (jz a))) (fe_inv fops (jz a)))" using m chain.mul mag_mono [of 1 _ 8] by blast
  with m s show ?thesis using chain.mul by (auto simp: set_gej_zinv ge_ok_def)
qed

lemma normalized:
  assumes "mag 8 a"
  shows "nrm (fe_normalize fops a)" "val (fe_normalize fops a) = Rep_fp (fv a)"
    "nrm (fe_normalize_var fops a)" "val (fe_normalize_var fops a) = Rep_fp (fv a)"
proof -
  have m: "mag 31 a" using assms mag_mono [of 8 a 31] by simp
  show "nrm (fe_normalize fops a)" "val (fe_normalize fops a) = Rep_fp (fv a)"
    "nrm (fe_normalize_var fops a)" "val (fe_normalize_var fops a) = Rep_fp (fv a)"
    using normalize [OF m] by (simp_all add: normalize_var [OF m] fv_def fp_of_int)
qed

end

subsection \<open>Adding in constant time\<close>

text \<open>The constant time addition needs a finite second operand on the same curve, and \<open>y\<close> coordinates whose sum is zero or a unit.
  A list of points is added one after the other under these conditions.\<close>

fun ct_pair :: "fp \<Rightarrow> point \<Rightarrow> point \<Rightarrow> bool" where
  "ct_pair b P Infinity \<longleftrightarrow> False"
| "ct_pair b Infinity (Affine x2 y2) \<longleftrightarrow> y2 ^ 2 = x2 ^ 3 + b"
| "ct_pair b (Affine x1 y1) (Affine x2 y2) \<longleftrightarrow> y2 ^ 2 = x2 ^ 3 + b \<and> (y1 + y2 = 0 \<or> y1 + y2 dvd 1)"

inductive ct_sum :: "fp \<Rightarrow> point \<Rightarrow> point list \<Rightarrow> point \<Rightarrow> bool" for b where
  Nil: "ct_sum b P [] P"
| Cons: "ct_pair b P Q \<Longrightarrow> ec_add P Q R \<Longrightarrow> ct_sum b R Qs S \<Longrightarrow> ct_sum b P (Q # Qs) S"

inductive_cases ct_sum_elims: "ct_sum b P [] R" "ct_sum b P (Q # Qs) R"

lemma ct_pair_iff: "ct_pair b P Q \<longleftrightarrow> (\<exists>x2 y2. Q = Affine x2 y2 \<and> on_curve_b b Q \<and> (\<forall>x1 y1. P = Affine x1 y1 \<longrightarrow> y1 + y2 = 0 \<or> y1 + y2 dvd 1))"
  by (cases Q; cases P) auto

lemma ct_sum_append: "ct_sum b P Qs R \<Longrightarrow> ct_sum b R Qs' S \<Longrightarrow> ct_sum b P (Qs @ Qs') S"
  by (induction rule: ct_sum.induct) (auto intro: ct_sum.Cons)

lemma ct_sum_ec_sum: "ct_sum b P Qs R \<Longrightarrow> ec_sum P Qs R"
  by (induction rule: ct_sum.induct) (auto intro: ec_sum.intros)

context secp_code
begin

lemma ct_add_rep:
  assumes "gej_ok mag a" "ge_ok mag q" "gej_rep fv a P" "ge_rep fv q Q" "on_curve_b b P" "ct_pair b P Q" "ec_add P Q R"
  shows "gej_ok mag (gej_add_ge fops a q)" "gej_rep fv (gej_add_ge fops a q) R" "on_curve_b b R"
proof -
  from assms(6) obtain x2 y2 where Q: "Q = Affine x2 y2" "on_curve_b b Q" and u: "\<And>x1 y1. P = Affine x1 y1 \<Longrightarrow> y1 + y2 = 0 \<or> y1 + y2 dvd 1"
    unfolding ct_pair_iff by blast
  have "gej_ok mag (gej_add_ge fops a q) \<and> gej_rep fv (gej_add_ge fops a q) R"
    by (rule add_ge_rep_b [OF assms(1,2,3) assms(4) [unfolded Q(1)] assms(5) Q(2) [unfolded Q(1)] assms(7) [unfolded Q(1)]]) (rule u)
  then show "gej_ok mag (gej_add_ge fops a q)" "gej_rep fv (gej_add_ge fops a q) R" by blast+
  show "on_curve_b b R" using ec_add_on_curve_b [OF assms(7,5) Q(2)] .
qed

end

subsection \<open>The result of point multiplication\<close>

text \<open>The points that double-and-add over the recoded halves of \<open>na\<close> and \<open>ng\<close> gives, and the memory and context it needs: arrays
  of the declared length, and the two tables of the generator.\<close>

definition ecmult_points :: "'s ecmult_scalar \<Rightarrow> (nat \<Rightarrow> point) \<Rightarrow> (nat \<Rightarrow> point) \<Rightarrow> (nat \<Rightarrow> point) \<Rightarrow> 's \<Rightarrow> 's \<Rightarrow> point \<Rightarrow> bool" where
  "ecmult_points sc T G H na ng R \<longleftrightarrow>
    (let (n1, n2) = em_split_lambda sc na; (g1, g2) = em_split_128 sc ng
     in case (ecmult_wnaf (em_digits sc) 130 n1 WINDOW_A, ecmult_wnaf (em_digits sc) 130 n2 WINDOW_A,
              ecmult_wnaf (em_digits sc) 129 g1 WINDOW_G, ecmult_wnaf (em_digits sc) 129 g2 WINDOW_G) of
          (Some d1, Some d2, Some d3, Some d4) \<Rightarrow>
            ec_horner (ecmult_addends T G H d1 d2 d3 d4) (nat (max (max (snd d1) (snd d2)) (max (snd d3) (snd d4)))) Infinity R
        | _ \<Rightarrow> False)"

record 'fe ecmult_mem =
  em_table :: "'fe table_mem"
  em_pre :: "'fe ge list"
  em_Z :: 'fe

definition ecmult_ready :: "('fe, 'st) field_ops \<Rightarrow> ('fe \<Rightarrow> fp) \<Rightarrow> (nat \<Rightarrow> 'fe \<Rightarrow> bool) \<Rightarrow> 'fe ecmult_mem \<Rightarrow> 'st ecmult_context \<Rightarrow>
    (nat \<Rightarrow> point) \<Rightarrow> (nat \<Rightarrow> point) \<Rightarrow> bool" where
  "ecmult_ready ops fv mag mem ctx G H \<longleftrightarrow> length (tm_prej (em_table mem)) = 8 \<and> length (tm_zr (em_table mem)) = 8 \<and> length (em_pre mem) = 8 \<and>
    (case (ec_pre_g ctx, ec_pre_g_128 ctx) of
       (Some pg, Some ph) \<Rightarrow> st_table ops fv mag pg 8192 G \<and> st_table ops fv mag ph 8192 H
     | _ \<Rightarrow> False)"

abbreviation ecmult_with :: "('fe, 'st) field_ops \<Rightarrow> 's scalar_api \<Rightarrow> 'fe ecmult_mem \<Rightarrow> 'st ecmult_context \<Rightarrow> 'fe gej \<Rightarrow> 'fe gej \<Rightarrow> 's \<Rightarrow> 's \<Rightarrow> 'fe gej option" where
  "ecmult_with ops api mem ctx \<equiv> ecmult ops (sa_ecmult api) (em_table mem) (em_pre mem) (em_Z mem) ctx"

context secp_code
begin

lemma ecmult_points_rep:
  assumes "ecmult_ready fops fv mag mem ctx G H" "sval na < order_n" "gej_ok mag a" "gej_rep fv a A" "odd_multiples A 8 T"
    and "ecmult_points (sa_ecmult api) T G H na ng R"
  shows "\<exists>r'. ecmult_with fops api mem ctx r a na ng = Some r' \<and> gej_ok mag r' \<and> gej_rep fv r' R"
proof -
  obtain pg ph where m: "length (tm_prej (em_table mem)) = 8" "length (tm_zr (em_table mem)) = 8" "length (em_pre mem) = 8"
    "ec_pre_g ctx = Some pg" "ec_pre_g_128 ctx = Some ph" "st_table fops fv mag pg 8192 G" "st_table fops fv mag ph 8192 H"
    using assms(1) by (auto simp: ecmult_ready_def split: option.splits)
  obtain n1 n2 where n: "em_split_lambda (sa_ecmult api) na = (n1, n2)" by fastforce
  obtain g1 g2 where g: "em_split_128 (sa_ecmult api) ng = (g1, g2)" by fastforce
  from ecmult_correct [OF assms(2-5) m n g, of "em_Z mem" r] show ?thesis
    using assms(6) unfolding ecmult_points_def n g by auto
qed

lemma fv_of_rep: "fv a = x \<longleftrightarrow> val a mod field_p = Rep_fp x"
  by (auto simp: fv_def fp_of_int simp flip: Rep_fp_inject)

lemma Rep_fp_range: "0 \<le> Rep_fp x \<and> Rep_fp x < field_p"
  using Rep_fp [of x] by simp

end

context scalar_digits
begin

text \<open>A scalar whose only digit is at position \<open>e\<close>.\<close>

lemma wnaf_loop_rest:
  assumes "\<forall>k. pos \<le> k \<and> k < len \<longrightarrow> sval s div 2 ^ k mod 2 = 0" "len \<le> 256"
  shows "ecmult_wnaf_loop ops s len w sign pos 0 l ds = Some (ds, l)"
  using assms(1)
proof (induction "len - pos" arbitrary: pos)
  case 0
  then show ?case by (simp add: ecmult_wnaf_loop.simps)
next
  case (Suc k)
  then have p: "pos < len" by simp
  have "uint (dg_get_bits ops s (of_nat pos) 1) = 0"
    using get_bits_val [of "of_nat pos" 1 s] p assms(2) Suc.prems by (simp add: unat_of_nat Suc_le_eq)
  then show ?case using Suc p by (subst ecmult_wnaf_loop.simps) simp
qed

lemma wnaf_loop_skip:
  assumes "\<forall>k<e. sval s div 2 ^ k mod 2 = 0" "e \<le> len" "len \<le> 256"
  shows "ecmult_wnaf_loop ops s len w sign 0 0 l ds = ecmult_wnaf_loop ops s len w sign e 0 l ds"
  using assms(1,2)
proof (induction e)
  case (Suc e)
  have "uint (dg_get_bits ops s (of_nat e) 1) = 0"
    using get_bits_val [of "of_nat e" 1 s] Suc.prems assms(3) by (simp add: unat_of_nat Suc_le_eq)
  then have "ecmult_wnaf_loop ops s len w sign e 0 l ds = ecmult_wnaf_loop ops s len w sign (Suc e) 0 l ds"
    using Suc.prems by (subst ecmult_wnaf_loop.simps) simp
  then show ?case using Suc by simp
qed simp

lemma wnaf_single:
  assumes "sval s = 2 ^ e * d" "odd d" "0 < d" "d < 2 ^ (w - 1)" "2 \<le> w" "w < 31" "e + w \<le> len" "len < 256"
  shows "ecmult_wnaf ops len s w = Some ((replicate len 0)[e := d], int e + 1)"
proof -
  have d: "d < 2 ^ w" by (rule less_le_trans [OF assms(4) power_increasing]) simp_all
  have lt: "sval s < 2 ^ (e + w)" unfolding assms(1) using d by (simp add: power_add)
  have hi: "sval s div 2 ^ k mod 2 = 0" if "e + w \<le> k" for k
  proof -
    have "sval s < 2 ^ k" by (rule less_le_trans [OF lt power_increasing [OF that]]) simp
    then show ?thesis using sval_range(1) [of s] by (simp add: div_pos_pos_trivial)
  qed
  have lo: "sval s div 2 ^ k mod 2 = 0" if "k < e" for k
  proof -
    have "sval s = 2 ^ k * (2 * (2 ^ (e - Suc k) * d))" unfolding assms(1) using that by (simp flip: power_Suc power_add mult.assoc)
    then show ?thesis by simp
  qed
  have at: "sval s div 2 ^ e = d" by (simp add: assms(1))
  have b: "uint (dg_get_bits ops s 255 1) = 0"
    using get_bits_val [of 255 1 s] hi [of 255] assms(7,8) by simp
  have e: "e < len" and nl: "\<not> len - e < w" using assms(5,7) by simp_all
  have g: "uint (dg_get_bits ops s (of_nat e) 1) = 1"
    using get_bits_val [of "of_nat e" 1 s] e assms(2,8) by (simp add: unat_of_nat at odd_iff_mod_2_eq_one)
  have v: "uint (dg_get_bits_var ops s (of_nat e) (of_nat w)) = d"
    using get_bits_var_val [of "of_nat w" "of_nat e" s] assms(3,5-8) d by (simp add: unat_of_nat at)
  have "ecmult_wnaf_loop ops s len w 1 0 0 (- 1) (replicate len 0) = ecmult_wnaf_loop ops s len w 1 e 0 (- 1) (replicate len 0)"
    by (rule wnaf_loop_skip) (use lo e assms(8) in auto)
  also have "\<dots> = ecmult_wnaf_loop ops s len w 1 (e + w) 0 (int e) ((replicate len 0)[e := d])"
    using e assms(3,4,7) by (subst ecmult_wnaf_loop.simps) (simp add: g v nl Let_def)
  also have "\<dots> = Some ((replicate len 0)[e := d], int e)" by (rule wnaf_loop_rest) (use hi assms(8) in auto)
  finally show ?thesis using b by (simp add: ecmult_wnaf_def Let_def uint_0_iff)
qed

end

subsection \<open>Small scalars\<close>

lemma table_point_odd: "odd a \<Longrightarrow> 0 < a \<Longrightarrow> table_point T a = T (nat (a div 2))"
  by (auto simp: table_point_def elim!: oddE)

lemma digit_bound:
  assumes "i < 50" "0 < a" "a < 2 ^ 14"
  shows "2 ^ i * a < (2 :: int) ^ 100"
proof -
  have "(2 :: int) ^ i \<le> 2 ^ 50" using assms(1) by (intro power_increasing) simp_all
  then have "2 ^ i * a \<le> 2 ^ 50 * 2 ^ 14" using assms(2,3) by (intro mult_mono) simp_all
  then show ?thesis by simp
qed

context secp_code
begin

lemma split_small:
  assumes "sval s < 2 ^ 100" "em_split_lambda (sa_ecmult api) s = (n1, n2)" "em_split_128 (sa_ecmult api) s = (g1, g2)"
  shows "sval n1 = sval s" "sval n2 = 0" "sval g1 = sval s" "sval g2 = 0"
proof -
  have l: "sval s < order_n" using assms(1) by (simp add: order_n_def)
  have r: "0 \<le> sval s" "0 \<le> sval g1" "0 \<le> sval g2" by (rule dg.sval_range)+
  have q: "(sval s * 0x3086D221A7D46BCDE86C90E49284EB153DAB + 2 ^ 271) div 2 ^ 272 = 0"
    "(sval s * 0xE4437ED6010E88286F547FA90ABFE4C42212 + 2 ^ 271) div 2 ^ 272 = 0"
    using assms(1) r(1) by (simp_all add: div_pos_pos_trivial)
  note e = ar.split_lambda_eqs [OF l assms(2) [unfolded split_lambda], unfolded q]
  show n2: "sval n2 = 0" using e(1) by (simp add: order_n_def)
  show "sval n1 = sval s" using e(2) n2 l r(1) by simp
  have g: "sval s = sval g1 + 2 ^ 128 * sval g2" using split_128 [OF assms(3)] by blast
  show g2: "sval g2 = 0" using g r assms(1) by simp
  then show "sval g1 = sval s" using g by simp
qed

text \<open>The points for two scalars with at most one digit each.\<close>

lemma points_single:
  assumes "sval na = 2 ^ i * a" "odd a" "0 < a" "a < 16" "sval ng = 2 ^ j * b" "odd b" "0 < b" "b < 2 ^ 14" "i < 50" "j < 50"
    and "ec_horner (\<lambda>k. (if k = i then [T (nat (a div 2))] else []) @ (if k = j then [G (nat (b div 2))] else [])) (Suc (max i j)) Infinity R"
  shows "ecmult_points (sa_ecmult api) T G H na ng R"
proof -
  obtain n1 n2 where n: "em_split_lambda (sa_ecmult api) na = (n1, n2)" by fastforce
  obtain g1 g2 where g: "em_split_128 (sa_ecmult api) ng = (g1, g2)" by fastforce
  obtain m1 m2 where m: "em_split_lambda (sa_ecmult api) ng = (m1, m2)" by fastforce
  obtain h1 h2 where h: "em_split_128 (sa_ecmult api) na = (h1, h2)" by fastforce
  have small: "sval na < 2 ^ 100" "sval ng < 2 ^ 100"
    using digit_bound [of i a] digit_bound [of j b] assms(1,3-5,7-10) by simp_all
  note v = split_small [OF small(1) n h] split_small [OF small(2) m g]
  have w1: "ecmult_wnaf (em_digits (sa_ecmult api)) 130 n1 WINDOW_A = Some ((replicate 130 0)[i := a], int i + 1)"
    by (rule dg.wnaf_single) (use assms v in \<open>simp_all add: WINDOW_A_def\<close>)
  have w3: "ecmult_wnaf (em_digits (sa_ecmult api)) 129 g1 WINDOW_G = Some ((replicate 129 0)[j := b], int j + 1)"
    by (rule dg.wnaf_single) (use assms v in \<open>simp_all add: WINDOW_G_def\<close>)
  have l: "(130 :: nat) \<le> 256" "(129 :: nat) \<le> 256" by simp_all
  note w = w1 dg.wnaf_of_zero [OF v(2) l(1)] w3 dg.wnaf_of_zero [OF v(8) l(2)]
  have d: "ecmult_addends T G H ((replicate 130 0)[i := a], int i + 1) (replicate 130 0, 0) ((replicate 129 0)[j := b], int j + 1) (replicate 129 0, 0) =
      (\<lambda>k. (if k = i then [T (nat (a div 2))] else []) @ (if k = j then [G (nat (b div 2))] else []))"
    using assms(2,3,6,7,9,10)
    by (auto simp: ecmult_addends_def wnaf_digit_def digit_points_def table_point_odd fun_eq_iff nth_list_update)
  have "nat (max (max (int i + 1) 0) (max (int j + 1) 0)) = Suc (max i j)" by simp
  then show ?thesis using assms(11) by (simp add: ecmult_points_def n g w d)
qed

lemma points_left:
  assumes "sval na = 2 ^ i * a" "odd a" "0 < a" "a < 16" "sval ng = 0" "i < 50"
    and "ec_horner (\<lambda>k. if k = i then [T (nat (a div 2))] else []) (Suc i) Infinity R"
  shows "ecmult_points (sa_ecmult api) T G H na ng R"
proof -
  obtain n1 n2 where n: "em_split_lambda (sa_ecmult api) na = (n1, n2)" by fastforce
  obtain g1 g2 where g: "em_split_128 (sa_ecmult api) ng = (g1, g2)" by fastforce
  obtain m1 m2 where m: "em_split_lambda (sa_ecmult api) ng = (m1, m2)" by fastforce
  obtain h1 h2 where h: "em_split_128 (sa_ecmult api) na = (h1, h2)" by fastforce
  have small: "sval na < 2 ^ 100" "sval ng < 2 ^ 100"
    using digit_bound [of i a] assms(1,3-6) by simp_all
  note v = split_small [OF small(1) n h] split_of_zero [OF assms(5) m g]
  have w1: "ecmult_wnaf (em_digits (sa_ecmult api)) 130 n1 WINDOW_A = Some ((replicate 130 0)[i := a], int i + 1)"
    by (rule dg.wnaf_single) (use assms v in \<open>simp_all add: WINDOW_A_def\<close>)
  have l: "(130 :: nat) \<le> 256" "(129 :: nat) \<le> 256" by simp_all
  note w = w1 dg.wnaf_of_zero [OF v(2) l(1)] dg.wnaf_of_zero [OF v(7) l(2)] dg.wnaf_of_zero [OF v(8) l(2)]
  have d: "ecmult_addends T G H ((replicate 130 0)[i := a], int i + 1) (replicate 130 0, 0) (replicate 129 0, 0) (replicate 129 0, 0) =
      (\<lambda>k. if k = i then [T (nat (a div 2))] else [])"
    using assms(2,3,6)
    by (auto simp: ecmult_addends_def wnaf_digit_def digit_points_def table_point_odd fun_eq_iff nth_list_update)
  have "nat (max (max (int i + 1) 0) (max 0 0)) = Suc i" by simp
  then show ?thesis using assms(7) by (simp add: ecmult_points_def n g w d)
qed

lemma points_zero:
  assumes "sval na = 0" "sval ng = 0"
  shows "ecmult_points (sa_ecmult api) T G H na ng Infinity"
proof -
  obtain n1 n2 where n: "em_split_lambda (sa_ecmult api) na = (n1, n2)" by fastforce
  obtain g1 g2 where g: "em_split_128 (sa_ecmult api) ng = (g1, g2)" by fastforce
  obtain m1 m2 where m: "em_split_lambda (sa_ecmult api) ng = (m1, m2)" by fastforce
  obtain h1 h2 where h: "em_split_128 (sa_ecmult api) na = (h1, h2)" by fastforce
  note v = split_of_zero [OF assms(1) n h] split_of_zero [OF assms(2) m g]
  have l: "(130 :: nat) \<le> 256" "(129 :: nat) \<le> 256" by simp_all
  note w = dg.wnaf_of_zero [OF v(1) l(1)] dg.wnaf_of_zero [OF v(2) l(1)] dg.wnaf_of_zero [OF v(7) l(2)] dg.wnaf_of_zero [OF v(8) l(2)]
  show ?thesis by (simp add: ecmult_points_def n g w ec_horner.zero)
qed

text \<open>On the point of order six: \<open>1 * P\<close>, and \<open>2 * P + 5 * P\<close>.\<close>

lemma points_one:
  assumes "sval na = 1" "sval ng = 0"
  shows "ecmult_points (sa_ecmult api) small_table G H na ng (Affine 2 3)"
proof (rule points_left [of na 0 1])
  have "ec_sum Infinity [Affine 2 3] (Affine 2 3)" by (rule ec_sum.Cons [OF ec_add.left ec_sum.Nil])
  then have "ec_horner (\<lambda>k. if k = 0 then [Affine 2 3] else []) (Suc 0) Infinity (Affine 2 3)"
    by (intro ec_horner.step [where D = Infinity and S = "Affine 2 3", OF ec_add.left _ ec_horner.zero]) simp
  then show "ec_horner (\<lambda>k. if k = 0 then [small_table (nat (1 div 2))] else []) (Suc 0) Infinity (Affine 2 3)"
    by (simp add: small_table_def cong: if_cong)
qed (use assms in simp_all)

lemma points_seven:
  assumes "sval na = 2" "sval ng = 5"
  shows "ecmult_points (sa_ecmult api) small_table small_table H na ng (Affine 2 3)"
proof (rule points_single [of na 1 1 ng 0 5])
  let ?f = "\<lambda>k :: nat. (if k = 1 then [small_table (nat (1 div 2))] else []) @ (if k = 0 then [small_table (nat (5 div 2))] else [])"
  have f: "?f (Suc 0) = [Affine 2 3]" "?f 0 = [Affine 2 (- 3)]" by (simp_all add: small_table_def)
  have d: "ec_add (Affine 2 3) (Affine 2 3) (Affine 0 1)" by (rule ec_add.tangent [of _ 2]) (simp_all add: units)
  have c: "ec_add (Affine 0 1) (Affine 2 (- 3)) (Affine 2 3)" by (rule ec_add.chord [of _ _ "- 2"]) (simp_all add: units)
  have s: "ec_sum Infinity (?f (Suc 0)) (Affine 2 3)" "ec_sum (Affine 0 1) (?f 0) (Affine 2 3)"
    unfolding f by (rule ec_sum.Cons [OF ec_add.left ec_sum.Nil], rule ec_sum.Cons [OF c ec_sum.Nil])
  have "ec_horner ?f (Suc 0) (Affine 2 3) (Affine 2 3)"
    by (rule ec_horner.step [where f = ?f and i = 0 and P = "Affine 2 3", OF d s(2) ec_horner.zero])
  then have "ec_horner ?f (Suc (Suc 0)) Infinity (Affine 2 3)"
    by (rule ec_horner.step [where f = ?f and i = "Suc 0" and P = Infinity, OF ec_add.left s(1)])
  then show "ec_horner ?f (Suc (max 1 0)) Infinity (Affine 2 3)" by simp
qed (use assms in simp_all)

end

end
