(* ===== verification/Ecmult_Gen.thy ===== *)
theory Ecmult_Gen
  imports Scalar_Api Hash
begin

text \<open>
  Multiplication of the generator in constant time, \<open>ecmult_gen_impl.h\<close> in the build without a static table: the context with the
  table of \<open>16^j * i * G + U_j\<close>, its blinding, and the 64 additions of \<open>ecmult_gen\<close>. The scalar is blinded before it is cut into
  hexadecimal digits, and the starting point takes the blinding back.
\<close>

subsection \<open>The context (ecmult_gen.h 13--30, ecmult_gen_impl.h 18--118)\<close>

record ('fe, 's, 'st) ecmult_gen_context =
  gen_prec :: "'st ge_storage list list option"
  gen_blind :: "'s"
  gen_initial :: "'fe gej"

definition ecmult_gen_context_init :: "('fe, 's, 'st) ecmult_gen_context \<Rightarrow> ('fe, 's, 'st) ecmult_gen_context" where
  "ecmult_gen_context_init ctx = ctx\<lparr>gen_prec := None\<rparr>"

definition ecmult_gen_context_is_built :: "('fe, 's, 'st) ecmult_gen_context \<Rightarrow> bool" where
  "ecmult_gen_context_is_built ctx \<longleftrightarrow> gen_prec ctx \<noteq> None"

definition ecmult_gen_context_clone ::
  "('fe, 's, 'st) ecmult_gen_context \<Rightarrow> ('fe, 's, 'st) ecmult_gen_context \<Rightarrow> ('fe, 's, 'st) ecmult_gen_context" where
  "ecmult_gen_context_clone dst src =
    (case gen_prec src of
       None \<Rightarrow> dst\<lparr>gen_prec := None\<rparr>
     | Some prec \<Rightarrow> dst\<lparr>gen_prec := Some (map (take 16) (take 64 prec)), gen_initial := gen_initial src, gen_blind := gen_blind src\<rparr>)"

definition ecmult_gen_context_clear ::
  "('fe, 'st) field_ops \<Rightarrow> 's scalar_api \<Rightarrow> ('fe, 's, 'st) ecmult_gen_context \<Rightarrow> ('fe, 's, 'st) ecmult_gen_context" where
  "ecmult_gen_context_clear ops api ctx =
    ctx\<lparr>gen_blind := sa_clear api (gen_blind ctx), gen_initial := gej_clear ops (gen_initial ctx), gen_prec := None\<rparr>"

subsection \<open>The multiplication (ecmult_gen_impl.h 120--153)\<close>

text \<open>\<open>adds\<close> starts with all bytes zero; that value is an argument, since the fields of a storage element belong to the
  representation. A context that is not built has no table to read, which is \<open>None\<close>.\<close>

definition ecmult_gen_select :: "('fe, 'st) field_ops \<Rightarrow> 'st ge_storage list \<Rightarrow> u32 \<Rightarrow> 'st ge_storage \<Rightarrow> 'st ge_storage" where
  "ecmult_gen_select ops row bits addst =
    fold (\<lambda>i addst. ge_storage_cmov ops addst (row ! i) (of_bool (of_nat i = bits))) [0..<16] addst"

definition ecmult_gen_step :: "('fe, 'st) field_ops \<Rightarrow> 's scalar_api \<Rightarrow> 'st ge_storage list list \<Rightarrow> 's \<Rightarrow> nat \<Rightarrow>
    'fe gej \<times> 'st ge_storage \<Rightarrow> 'fe gej \<times> 'st ge_storage" where
  "ecmult_gen_step ops api prec gnb j = (\<lambda>(r, addst).
    let bits = dg_get_bits (sa_digits api) gnb (of_nat (j * 4)) 4;
        addst = ecmult_gen_select ops (prec ! j) bits addst;
        add = ge_from_storage ops addst
    in (gej_add_ge ops r add, addst))"

definition ecmult_gen :: "('fe, 'st) field_ops \<Rightarrow> 's scalar_api \<Rightarrow> 'st ge_storage \<Rightarrow> ('fe, 's, 'st) ecmult_gen_context \<Rightarrow> 's \<Rightarrow> 'fe gej option" where
  "ecmult_gen ops api zeros ctx gn =
    (let addst = zeros;
         r = gen_initial ctx;
         gnb = sa_add api gn (gen_blind ctx)
     in map_option (\<lambda>prec. fst (fold (ecmult_gen_step ops api prec gnb) [0..<64] (r, addst))) (gen_prec ctx))"

subsection \<open>Blinding (ecmult_gen_impl.h 155--209)\<close>

text \<open>The two loops draw 32 bytes from the generator until a value is in range; nothing bounds the number of draws. They are one
  function here, with the test of each as an argument.\<close>

partial_function (option) gen_draw :: "(u8 list \<Rightarrow> 'a option) \<Rightarrow> hmac_sha256 \<Rightarrow> sha256 \<Rightarrow> rfc6979 \<Rightarrow> (rfc6979 \<times> 'a) option" where
  "gen_draw accept hmac sha rng = Option.bind (rfc6979_generate hmac sha rng 32) (\<lambda>(rng, nonce32).
     case accept nonce32 of None \<Rightarrow> gen_draw accept hmac sha rng | Some v \<Rightarrow> Some (rng, v))"

definition gen_accept_field :: "('fe, 'st) field_ops \<Rightarrow> u8 list \<Rightarrow> 'fe option" where
  "gen_accept_field ops nonce32 =
    (let (ok, s) = fe_set_b32 ops nonce32;
         retry = (\<not> ok);
         retry = (retry \<or> fe_is_zero ops s)
     in if retry then None else Some s)"

definition gen_accept_scalar :: "'s scalar_api \<Rightarrow> u8 list \<Rightarrow> 's option" where
  "gen_accept_scalar api nonce32 =
    (let (retry, b) = sa_set_b32 api nonce32;
         retry = retry OR of_bool (sa_is_zero api b)
     in if retry \<noteq> 0 then None else Some b)"

text \<open>The hash contexts inside the generator are local and not initialized.\<close>

definition ecmult_gen_blind :: "('fe, 'st) field_ops \<Rightarrow> 's scalar_api \<Rightarrow> hmac_sha256 \<times> sha256 \<Rightarrow> 'st ge_storage \<Rightarrow> ('fe, 's, 'st) ecmult_gen_context \<Rightarrow>
    u8 list option \<Rightarrow> ('fe, 's, 'st) ecmult_gen_context option" where
  "ecmult_gen_blind ops api mem zeros ctx seed32 =
    (let (hmac, sha) = mem;
         keydata = replicate 64 0;
         ctx = (if seed32 = None
                then let ctx = ctx\<lparr>gen_initial := gej_set_ge ops (ge_const_g ops)\<rparr>;
                         ctx = ctx\<lparr>gen_initial := gej_neg ops (gen_initial ctx)\<rparr>
                     in ctx\<lparr>gen_blind := sa_set_int api 1\<rparr>
                else ctx);
         nonce32 = sa_get_b32 api (gen_blind ctx);
         keydata = nonce32 @ drop 32 keydata;
         keydata = (case seed32 of None \<Rightarrow> keydata | Some seed \<Rightarrow> take 32 keydata @ take 32 seed);
         rng = rfc6979_initialize hmac sha (take (if seed32 \<noteq> None then 64 else 32) keydata)
     in Option.bind (gen_draw (gen_accept_field ops) hmac sha rng) (\<lambda>(rng, s).
          let ctx = ctx\<lparr>gen_initial := gej_rescale ops (gen_initial ctx) s\<rparr>
          in Option.bind (gen_draw (gen_accept_scalar api) hmac sha rng) (\<lambda>(rng, b).
               Option.bind (ecmult_gen ops api zeros ctx b) (\<lambda>gb.
                 let b = sa_negate api b
                 in Some (ctx\<lparr>gen_blind := b, gen_initial := gb\<rparr>)))))"

subsection \<open>Building the table (ecmult_gen_impl.h 22--92)\<close>

text \<open>The bytes of \<open>"The scalar for this x is unknown"\<close>.\<close>

definition nums_b32 :: "u8 list" where
  "nums_b32 = [0x54, 0x68, 0x65, 0x20, 0x73, 0x63, 0x61, 0x6C, 0x61, 0x72, 0x20, 0x66, 0x6F, 0x72, 0x20, 0x74,
               0x68, 0x69, 0x73, 0x20, 0x78, 0x20, 0x69, 0x73, 0x20, 0x75, 0x6E, 0x6B, 0x6E, 0x6F, 0x77, 0x6E]"

definition gen_nums_gej :: "('fe, 'st) field_ops \<Rightarrow> 'fe gej" where
  "gen_nums_gej ops =
    (let (r, nums_x) = fe_set_b32 ops nums_b32;
         (r, nums_ge) = ge_set_xo_var ops nums_x 0;
         nums_gej = gej_set_ge ops nums_ge
     in fst (gej_add_ge_var ops nums_gej nums_gej (ge_const_g ops) None))"

definition gen_table_step :: "('fe, 'st) field_ops \<Rightarrow> 'fe gej \<Rightarrow> nat \<Rightarrow> 'fe gej list \<times> 'fe gej \<times> 'fe gej \<Rightarrow> 'fe gej list \<times> 'fe gej \<times> 'fe gej" where
  "gen_table_step ops nums_gej j = (\<lambda>(precj, gbase, numsbase).
    let precj = precj[j * 16 := numsbase];
        precj = fold (\<lambda>i precj. precj[j * 16 + i := fst (gej_add_var ops (precj ! (j * 16 + i)) (precj ! (j * 16 + i - 1)) gbase None)]) [1..<16] precj;
        gbase = ((\<lambda>g. fst (gej_double_var ops g g None)) ^^ 4) gbase;
        numsbase = fst (gej_double_var ops numsbase numsbase None);
        numsbase = (if j = 62
                    then let numsbase = gej_neg ops numsbase in fst (gej_add_var ops numsbase numsbase nums_gej None)
                    else numsbase)
    in (precj, gbase, numsbase))"

text \<open>The uninitialized arrays: the Jacobian and the affine table and the block for the inverses.\<close>

record 'fe gen_mem =
  gm_precj :: "'fe gej list"
  gm_prec :: "'fe ge list"
  gm_inv :: "'fe list"

definition gen_table :: "('fe, 'st) field_ops \<Rightarrow> 'fe gen_mem \<Rightarrow> 'st ge_storage list list" where
  "gen_table ops gm =
    (let gj = gej_set_ge ops (ge_const_g ops);
         nums_gej = gen_nums_gej ops;
         (precj, _, _) = fold (gen_table_step ops nums_gej) [0..<64] (gm_precj gm, gj, nums_gej);
         prec = ge_set_all_gej_var ops (gm_inv gm) (gm_prec gm) precj
     in map (\<lambda>j. map (\<lambda>i. ge_to_storage ops (prec ! (j * 16 + i))) [0..<16]) [0..<64])"

definition ecmult_gen_context_build :: "('fe, 'st) field_ops \<Rightarrow> 's scalar_api \<Rightarrow> hmac_sha256 \<times> sha256 \<Rightarrow> 'st ge_storage \<Rightarrow> 'fe gen_mem \<Rightarrow>
    ('fe, 's, 'st) ecmult_gen_context \<Rightarrow> ('fe, 's, 'st) ecmult_gen_context option" where
  "ecmult_gen_context_build ops api mem zeros gm ctx =
    (if gen_prec ctx \<noteq> None then Some ctx
     else let ctx = ctx\<lparr>gen_prec := Some (gen_table ops gm)\<rparr>
          in ecmult_gen_blind ops api mem zeros ctx None)"

subsection \<open>Correctness\<close>

text \<open>A table of points in storage form.\<close>

definition gen_table_rep :: "('fe, 'st) field_ops \<Rightarrow> ('fe \<Rightarrow> fp) \<Rightarrow> (nat \<Rightarrow> 'fe \<Rightarrow> bool) \<Rightarrow> 'st ge_storage list list \<Rightarrow> (nat \<Rightarrow> nat \<Rightarrow> point) \<Rightarrow> bool" where
  "gen_table_rep ops fv mag prec T \<longleftrightarrow>
    list_all (\<lambda>j. list_all (\<lambda>i. ge_ok mag (ge_from_storage ops (prec ! j ! i)) \<and> ge_rep fv (ge_from_storage ops (prec ! j ! i)) (T j i)) [0..<16]) [0..<64]"

definition hex_digit :: "int \<Rightarrow> nat \<Rightarrow> nat" where
  "hex_digit v j = nat (v div 16 ^ j mod 16)"

lemma hex_digit_less: "hex_digit v j < 16"
  by (simp add: hex_digit_def nat_less_iff)

lemma hex_digits_sum: "0 \<le> v \<Longrightarrow> (\<Sum>j<n. int (hex_digit v j) * 16 ^ j) = v mod 16 ^ n"
proof (induction n)
  case (Suc n)
  have "v mod 16 ^ Suc n = 16 ^ n * (v div 16 ^ n mod 16) + v mod 16 ^ n"
    using mod_mult2_eq' [of v "16 ^ n" 16] by (simp add: mult.commute)
  then show ?case using Suc by (simp add: hex_digit_def)
qed simp

context secp_code
begin

lemma storage_cmov_eq:
  "ge_storage_cmov fops a b 0 = a" "ge_storage_cmov fops a b 1 = b"
  by (cases a; cases b; simp add: ge_storage_cmov_def storage_cmov)+

lemma select_fold:
  assumes "n < 16" "m \<le> 16"
  shows "fold (\<lambda>i addst. ge_storage_cmov fops addst (row ! i) (of_bool (of_nat i = (of_nat n :: u32)))) [0..<m] addst =
    (if n < m then row ! n else addst)"
  using assms(2)
proof (induction m)
  case (Suc m)
  have "(of_nat m = (of_nat n :: u32)) \<longleftrightarrow> m = n"
    using Suc.prems assms(1) by (simp add: word_unat_eq_iff unat_of_nat)
  then show ?case using Suc by (auto simp: storage_cmov_eq)
qed simp

lemma select_eq: "n < 16 \<Longrightarrow> ecmult_gen_select fops row (of_nat n) addst = row ! n"
  using select_fold [of n 16 row addst] by (simp add: ecmult_gen_select_def)

lemma gen_bits:
  assumes "j < 64"
  shows "dg_get_bits (sa_digits api) s (of_nat (j * 4)) 4 = of_nat (hex_digit (sval s) j)"
proof -
  have u: "unat (of_nat (j * 4) :: u32) = j * 4" unfolding unat_of_nat using assms by simp
  have m: "j * 4 mod 32 + 4 \<le> 32"
  proof -
    have "j * 4 mod 32 = 4 * (j mod 8)" using mult_mod_right [of 4 j 8] by (simp add: mult.commute)
    moreover have "j mod 8 < 8" by simp
    ultimately show ?thesis by linarith
  qed
  have "uint (dg_get_bits (sa_digits api) s (of_nat (j * 4)) 4) = sval s div 2 ^ (j * 4) mod 2 ^ 4"
    using dg.get_bits_val [of "of_nat (j * 4)" 4 s] u m assms by simp
  also have "\<dots> = int (hex_digit (sval s) j)"
    by (simp add: hex_digit_def power_mult mult.commute [of j])
  also have "\<dots> = uint (of_nat (hex_digit (sval s) j) :: u32)"
    using hex_digit_less [of "sval s" j] by (simp add: uint_nat unat_of_nat)
  finally show ?thesis by (simp add: word_uint_eq_iff)
qed

lemma gen_fold:
  assumes "gen_table_rep fops fv mag prec T" "m + length js = 64" "js = [m..<64]"
    and "ct_sum 7 P (map (\<lambda>j. T j (hex_digit (sval s) j)) js) R" "on_curve P" "gej_ok mag r" "gej_rep fv r P"
    and "r' = fst (fold (ecmult_gen_step fops api prec s) js (r, addst))"
  shows "gej_ok mag r' \<and> gej_rep fv r' R \<and> on_curve R"
  using assms(2-8)
proof (induction js arbitrary: m P r addst)
  case Nil
  then show ?case by (auto elim: ct_sum_elims)
next
  case (Cons j js)
  have m: "j = m \<and> js = [Suc m..<64] \<and> m < 64" using Cons.prems(2) [symmetric] unfolding upt_eq_Cons_conv by auto
  then have jl: "j < 64" by simp
  from Cons.prems(3) obtain S where s: "ct_pair 7 P (T j (hex_digit (sval s) j))" "ec_add P (T j (hex_digit (sval s) j)) S"
      "ct_sum 7 S (map (\<lambda>j. T j (hex_digit (sval s) j)) js) R" by (auto elim: ct_sum_elims)
  let ?q = "ge_from_storage fops (prec ! j ! hex_digit (sval s) j)"
  have q: "ge_ok mag ?q" "ge_rep fv ?q (T j (hex_digit (sval s) j))"
    using assms(1) m hex_digit_less [of "sval s" j] by (simp_all add: gen_table_rep_def list_all_iff)
  note a = ct_add_rep [OF Cons.prems(5) q(1) Cons.prems(6) q(2) Cons.prems(4) [unfolded on_curve_b_7] s(1,2), folded on_curve_b_7]
  have e: "ecmult_gen_step fops api prec s j (r, addst) = (gej_add_ge fops r ?q, prec ! j ! hex_digit (sval s) j)"
    by (simp only: ecmult_gen_step_def prod.case Let_def gen_bits [OF jl] select_eq [OF hex_digit_less])
  have r': "r' = fst (fold (ecmult_gen_step fops api prec s) js (gej_add_ge fops r ?q, prec ! j ! hex_digit (sval s) j))"
    using Cons.prems(7) by (simp add: e)
  show ?case
    using Cons.IH [of "Suc m", OF _ conjunct1 [OF conjunct2 [OF m]] s(3) a(3,1,2) r'] Cons.prems(1) by simp
qed

lemma gen_rep:
  assumes "sval gn < order_n" "sval (gen_blind ctx) < order_n" "gen_prec ctx = Some prec" "gen_table_rep fops fv mag prec T"
    and "gej_ok mag (gen_initial ctx)" "gej_rep fv (gen_initial ctx) P" "on_curve P" "v = (sval gn + sval (gen_blind ctx)) mod order_n"
    and "ct_sum 7 P (map (\<lambda>j. T j (hex_digit v j)) [0..<64]) R"
  shows "\<exists>r. ecmult_gen fops api zeros ctx gn = Some r \<and> gej_ok mag r \<and> gej_rep fv r R \<and> on_curve R"
proof -
  have v: "sval (sa_add api gn (gen_blind ctx)) = v" using ar.add_val [OF assms(1,2)] assms(8) by simp
  show ?thesis
    using gen_fold [OF assms(4) _ refl assms(9) [folded v] assms(7,5,6) refl, of zeros] assms(3) by (auto simp: ecmult_gen_def)
qed

text \<open>A table with the generator in the even rows and its negative in the odd ones.\<close>

lemma stored_generator:
  defines "g \<equiv> ge_const_g fops" and "G \<equiv> Affine (fv (gx (ge_const_g fops))) (fv (gy (ge_const_g fops)))"
  shows "ge_ok mag (ge_from_storage fops (ge_to_storage fops g))" "ge_rep fv (ge_from_storage fops (ge_to_storage fops g)) G"
    "ge_ok mag (ge_from_storage fops (ge_to_storage fops (ge_neg fops g)))" "ge_rep fv (ge_from_storage fops (ge_to_storage fops (ge_neg fops g))) (ec_neg G)"
proof -
  have g: "ge_ok mag g" "ge_rep fv g G" using generator_double(2,3) [OF refl] by (simp_all add: g_def G_def)
  have n: "ge_ok mag (ge_neg fops g)" "ge_rep fv (ge_neg fops g) (ec_neg G)" using ge_neg_rep [OF g] by simp_all
  show "ge_rep fv (ge_from_storage fops (ge_to_storage fops g)) G"
    "ge_rep fv (ge_from_storage fops (ge_to_storage fops (ge_neg fops g))) (ec_neg G)"
    using storage_rep(2) [OF g(1)] storage_rep(2) [OF n(1)] g(2) n(2) by (simp_all add: G_def)
  show "ge_ok mag (ge_from_storage fops (ge_to_storage fops g))" "ge_ok mag (ge_from_storage fops (ge_to_storage fops (ge_neg fops g)))"
    using storage_ok [OF g(1)] storage_ok [OF n(1)] by simp_all
qed

lemma alternating_table:
  defines "g \<equiv> ge_const_g fops" and "G \<equiv> Affine (fv (gx (ge_const_g fops))) (fv (gy (ge_const_g fops)))"
  shows "gen_table_rep fops fv mag (map (\<lambda>j. replicate 16 (ge_to_storage fops (if even j then g else ge_neg fops g))) [0..<64])
    (\<lambda>j i. if even j then G else ec_neg G)"
  using stored_generator by (simp add: gen_table_rep_def list_all_iff g_def G_def)

lemma alternating_sum:
  defines "G \<equiv> Affine (fv (gx (ge_const_g fops))) (fv (gy (ge_const_g fops)))"
  shows "ct_sum 7 Infinity (map (\<lambda>j. if even j then G else ec_neg G) [0..<2 * k]) Infinity"
proof (induction k)
  case (Suc k)
  have c: "on_curve G" using generator_double(6) [OF refl] by (simp add: G_def)
  have "2 * fv (gy (ge_const_g fops)) dvd 1" using generator_double(7) [OF refl] by (simp only: mult_2)
  then have "ec_add G (ec_neg G) Infinity" unfolding G_def ec_neg.simps by (rule ec_add.opposite)
  moreover have "ct_pair 7 Infinity G" "ct_pair 7 G (ec_neg G)" using c by (simp_all add: G_def)
  moreover have "ec_add Infinity G G" by (rule ec_add.left)
  ultimately have "ct_sum 7 Infinity [G, ec_neg G] Infinity" by (blast intro: ct_sum.intros)
  from ct_sum_append [OF Suc this] show ?case by simp
qed (simp add: ct_sum.Nil)

end

subsection \<open>Blinding keeps the context consistent\<close>

lemma generate_length: "hmac_mem hmac sha \<Longrightarrow> rfc6979_generate hmac sha rng 32 = Some (rng', out) \<Longrightarrow> length out = 32"
  using rfc6979_generate_correct [of hmac sha 32, OF _ _ refl refl refl, of rng] by auto

lemma gen_draw_accepts:
  assumes "hmac_mem hmac sha" "gen_draw accept hmac sha rng = Some (rng', v)"
  shows "\<exists>nonce. length nonce = 32 \<and> accept nonce = Some v"
proof -
  define Q where "Q = (\<lambda>accept' hmac' sha' (rng :: rfc6979) (r :: rfc6979 \<times> 'a). accept' = accept \<longrightarrow> hmac' = hmac \<longrightarrow> sha' = sha \<longrightarrow>
    (\<exists>nonce. length nonce = 32 \<and> accept nonce = Some (snd r)))"
  have "Q accept hmac sha rng (rng', v)"
  proof (rule gen_draw.raw_induct [OF _ assms(2)])
    fix f accept' hmac' sha' rng r
    assume IH: "\<And>accept' hmac' sha' rng r. f accept' hmac' sha' rng = Some r \<Longrightarrow> Q accept' hmac' sha' rng r"
      and body: "Option.bind (rfc6979_generate hmac' sha' rng 32) (\<lambda>(rng, nonce32).
        case accept' nonce32 of None \<Rightarrow> f accept' hmac' sha' rng | Some v \<Rightarrow> Some (rng, v)) = Some r"
    show "Q accept' hmac' sha' rng r"
      unfolding Q_def
    proof (intro impI)
      assume e: "accept' = accept" "hmac' = hmac" "sha' = sha"
      from body [unfolded e] obtain rng1 nonce where g: "rfc6979_generate hmac sha rng 32 = Some (rng1, nonce)"
        and r: "(case accept nonce of None \<Rightarrow> f accept hmac sha rng1 | Some v \<Rightarrow> Some (rng1, v)) = Some r"
        by (auto simp: bind_eq_Some_conv)
      show "\<exists>nonce. length nonce = 32 \<and> accept nonce = Some (snd r)"
        using r IH [of accept hmac sha rng1 r] generate_length [OF assms(1) g]
        by (cases "accept nonce") (auto simp: Q_def)
    qed
  qed
  then show ?thesis by (simp add: Q_def)
qed

context secp_code
begin

lemma accept_scalar_range:
  assumes "length nonce = 32" "gen_accept_scalar api nonce = Some b"
  shows "0 < sval b \<and> sval b < order_n"
proof -
  have "sval (snd (sa_set_b32 api nonce)) < order_n" unfolding sa_set_b32_val [OF assms(1)] by (simp add: order_n_def)
  then show ?thesis
    using assms(2) dg.sval_range(1) [of b]
    by (auto simp: gen_accept_scalar_def case_prod_beta Let_def or_eq_0_iff sa_is_zero_iff order_less_le split: if_splits)
qed

lemma accept_field_range:
  assumes "length nonce = 32" "gen_accept_field fops nonce = Some s"
  shows "mag 8 s \<and> fv s \<noteq> 0"
proof -
  have b: "be_val nonce < field_p" "s = snd (fe_set_b32 fops nonce)" "\<not> fe_is_zero fops s"
    using assms set_b32_ok by (auto simp: gen_accept_field_def case_prod_beta Let_def split: if_splits)
  then have n: "nrm s" using set_b32_nrm assms(1) by simp
  then show ?thesis using b(3) is_zero nrm_val nrm_mag mag_mono [of 1 s 8] by (auto simp: fv_0_iff)
qed

text \<open>Whatever was drawn, the new state takes the same value back that it adds: the blinding value is the negative of a nonzero
  scalar, and the new starting point is the multiple that the rescaled context computes for that scalar.\<close>

lemma gen_blind_state:
  assumes "hmac_mem hmac sha" "ecmult_gen_blind fops api (hmac, sha) zeros ctx seed = Some ctx'"
    and "start = (if seed = None then gej_neg fops (gej_set_ge fops (ge_const_g fops)) else gen_initial ctx)"
    and "blind = (if seed = None then sa_set_int api 1 else gen_blind ctx)"
  shows "gen_prec ctx' = gen_prec ctx \<and> (\<exists>s b. mag 8 s \<and> fv s \<noteq> 0 \<and> 0 < sval b \<and> sval (gen_blind ctx') = order_n - sval b \<and>
    ecmult_gen fops api zeros (ctx\<lparr>gen_blind := blind, gen_initial := gej_rescale fops start s\<rparr>) b = Some (gen_initial ctx'))"
proof -
  from assms(2) obtain rng rng1 rng2 s b gb where
    d: "gen_draw (gen_accept_field fops) hmac sha rng = Some (rng1, s)" "gen_draw (gen_accept_scalar api) hmac sha rng1 = Some (rng2, b)"
    and g: "ecmult_gen fops api zeros (ctx\<lparr>gen_blind := blind, gen_initial := gej_rescale fops start s\<rparr>) b = Some gb"
    and c: "ctx' = ctx\<lparr>gen_blind := sa_negate api b, gen_initial := gb\<rparr>"
    unfolding assms(3,4)
    by (cases ctx; cases "seed = None") (auto simp: ecmult_gen_blind_def Let_def bind_eq_Some_conv)
  have s: "mag 8 s \<and> fv s \<noteq> 0" using gen_draw_accepts [OF assms(1) d(1)] accept_field_range by blast
  have b: "0 < sval b \<and> sval b < order_n" using gen_draw_accepts [OF assms(1) d(2)] accept_scalar_range by blast
  have "sval (sa_negate api b) = (- sval b) mod order_n" using dg.negate_val b by blast
  also have "\<dots> = order_n - sval b" using b by (simp add: zmod_zminus1_eq_if)
  finally show ?thesis using s b g by (auto simp: c)
qed

end

definition gen_context_ok :: "('fe, 's, 'st) ecmult_gen_context \<Rightarrow> bool" where
  "gen_context_ok ctx \<longleftrightarrow> (case gen_prec ctx of None \<Rightarrow> True | Some prec \<Rightarrow> length prec = 64 \<and> list_all (\<lambda>row. length row = 16) prec)"

lemma gen_clone_eq:
  assumes "gen_context_ok ctx" "ecmult_gen_context_is_built ctx"
  shows "ecmult_gen_context_clone dst ctx = ctx"
proof -
  obtain prec where p: "gen_prec ctx = Some prec" "length prec = 64" "\<forall>row\<in>set prec. length row = 16"
    using assms by (auto simp: gen_context_ok_def ecmult_gen_context_is_built_def list_all_iff)
  have "map (take 16) (take 64 prec) = prec" using p(2,3) by (simp add: map_idI)
  then show ?thesis using p(1) by (cases ctx; cases dst) (simp add: ecmult_gen_context_clone_def)
qed

lemma gen_table_dims: "length (gen_table ops gm) = 64" "list_all (\<lambda>row. length row = 16) (gen_table ops gm)"
  by (simp_all add: gen_table_def Let_def case_prod_beta list_all_iff)

lemma gen_blind_prec: "ecmult_gen_blind ops api mem zeros ctx seed = Some ctx' \<Longrightarrow> gen_prec ctx' = gen_prec ctx"
  by (auto simp: ecmult_gen_blind_def Let_def bind_eq_Some_conv case_prod_beta split: if_splits)

lemma gen_build_ok:
  assumes "gen_context_ok ctx" "ecmult_gen_context_build ops api mem zeros gm ctx = Some ctx'"
  shows "gen_context_ok ctx' \<and> ecmult_gen_context_is_built ctx' \<and> ecmult_gen_context_build ops api mem zeros gm ctx' = Some ctx'"
proof (cases "gen_prec ctx")
  case None
  then have "gen_prec ctx' = Some (gen_table ops gm)"
    using assms(2) gen_blind_prec by (fastforce simp: ecmult_gen_context_build_def Let_def)
  then show ?thesis
    by (simp add: gen_context_ok_def ecmult_gen_context_is_built_def ecmult_gen_context_build_def gen_table_dims)
qed (use assms in \<open>auto simp: ecmult_gen_context_build_def ecmult_gen_context_is_built_def\<close>)

subsection \<open>Properties\<close>

text \<open>C12: \<open>ecmult_gen\<close> on the representations of the program. The hexadecimal digits of the blinded scalar sum up to
  it; whenever adding the table points that they select to the starting point gives \<open>R\<close>, under the conditions of the
  constant time addition, the Jacobian result represents \<open>R\<close> on the curve. A context without a table gives no result.\<close>

theorem ecmult_gen_refines:
  assumes "scalar_ok_8x32 gn" "scalar_ok_8x32 (gen_blind ctx)" "gen_prec ctx = Some prec" "gen_table_rep field_ops_10x26 fe_fp_10x26 fe_mag_10x26 prec T"
    and "gej_ok fe_mag_10x26 (gen_initial ctx)" "gej_rep fe_fp_10x26 (gen_initial ctx) P" "on_curve P"
    and "v = (scalar_val_8x32 gn + scalar_val_8x32 (gen_blind ctx)) mod order_n"
    and "ct_sum 7 P (map (\<lambda>j. T j (hex_digit v j)) [0..<64]) R"
  shows "(\<Sum>j<64. int (hex_digit v j) * 16 ^ j) = v \<and>
    (\<exists>r. ecmult_gen field_ops_10x26 scalar_api_8x32 zeros ctx gn = Some r \<and> gej_ok fe_mag_10x26 r \<and> gej_rep fe_fp_10x26 r R \<and> on_curve R) \<and>
    ecmult_gen field_ops_10x26 scalar_api_8x32 zeros (ctx\<lparr>gen_prec := None\<rparr>) gn = None"
proof -
  have "0 \<le> v" "v < order_n" unfolding assms(8) by (simp_all add: order_n_def)
  then have "v mod 16 ^ 64 = v" by (simp add: order_n_def)
  then have "(\<Sum>j<64. int (hex_digit v j) * 16 ^ j) = v" using hex_digits_sum [OF \<open>0 \<le> v\<close>, of 64] by simp
  moreover have "\<exists>r. ecmult_gen field_ops_10x26 scalar_api_8x32 zeros ctx gn = Some r \<and> gej_ok fe_mag_10x26 r \<and> gej_rep fe_fp_10x26 r R \<and> on_curve R"
    using b10.gen_rep [of gn ctx prec T P v R zeros, unfolded fv_fe_fp_10x26] assms unfolding scalar_ok_8x32_def by blast
  ultimately show ?thesis by (simp add: ecmult_gen_def Let_def)
qed

theorem ecmult_gen_refines_witness:
  "\<exists>r. ecmult_gen field_ops_10x26 scalar_api_8x32 (ge_to_storage field_ops_10x26 (ge_const_g field_ops_10x26))
      \<lparr>gen_prec = Some (map (\<lambda>j. replicate 16 (ge_to_storage field_ops_10x26 (if even j then ge_const_g field_ops_10x26
          else ge_neg field_ops_10x26 (ge_const_g field_ops_10x26)))) [0..<64]),
        gen_blind = Scalar8 1 0 0 0 0 0 0 0,
        gen_initial = \<lparr>jx = FE10 0 0 0 0 0 0 0 0 0 0, jy = FE10 0 0 0 0 0 0 0 0 0 0, jz = FE10 0 0 0 0 0 0 0 0 0 0, jinf = True\<rparr>\<rparr>
      (Scalar8 0xABCDEF 0 7 0 0 0 0 0) = Some r \<and> gej_rep fe_fp_10x26 r Infinity"
    (is "\<exists>r. ecmult_gen _ _ ?z ?ctx ?s = Some r \<and> _")
proof -
  let ?p = "map (\<lambda>j. replicate 16 (ge_to_storage field_ops_10x26 (if even j then ge_const_g field_ops_10x26
          else ge_neg field_ops_10x26 (ge_const_g field_ops_10x26)))) [0..<64]"
  have s: "scalar_ok_8x32 ?s" "scalar_ok_8x32 (gen_blind ?ctx)" by (simp_all add: eval_8x32)
  have p: "gen_prec ?ctx = Some ?p" by simp
  have i: "gej_ok fe_mag_10x26 (gen_initial ?ctx)" "gej_rep fe_fp_10x26 (gen_initial ?ctx) Infinity" "on_curve Infinity"
    by (simp_all add: gej_ok_def gej_rep_def fe_mag_10x26_def limbs_le_10x26_def)
  note t = b10.alternating_table [unfolded fv_fe_fp_10x26] and a = b10.alternating_sum [of 32, unfolded fv_fe_fp_10x26, simplified]
  show ?thesis
    using ecmult_gen_refines [OF s p t i refl a, of ?z] by blast
qed



end
