(* ===== verification/Ecmult_Const.thy ===== *)
theory Ecmult_Const
  imports Scalar_Api
begin

text \<open>
  Multiplication of a point in constant time, \<open>ecmult_const_impl.h\<close> in the configuration with the endomorphism: table lookups by
  conditional moves over the whole table, the fixed digit positions of \<open>wnaf_const\<close>, and the final correction that takes the skew
  of the digits back.
\<close>

subsection \<open>The code\<close>

definition WNAF_SIZE :: "nat \<Rightarrow> nat \<Rightarrow> nat" where
  "WNAF_SIZE bits w = (bits + w - 1) div w"

definition ECMULT_CONST_TABLE_GET_GE :: "('fe, 'st) field_ops \<Rightarrow> 'fe ge \<Rightarrow> 'fe ge list \<Rightarrow> int \<Rightarrow> nat \<Rightarrow> 'fe ge" where
  "ECMULT_CONST_TABLE_GET_GE ops r pre n w =
    (let abs_n = n * (of_bool (n > 0) * 2 - 1);
         idx_n = abs_n div 2;
         r = fold (\<lambda>m r. let r = r\<lparr>gx := fe_cmov ops (gx r) (gx (pre ! m)) (of_bool (int m = idx_n))\<rparr>
                         in r\<lparr>gy := fe_cmov ops (gy r) (gy (pre ! m)) (of_bool (int m = idx_n))\<rparr>) [0..<ECMULT_TABLE_SIZE w] r;
         r = r\<lparr>ginf := False\<rparr>;
         neg_y = fe_negate ops (gy r) 1
     in r\<lparr>gy := fe_cmov ops (gy r) neg_y (of_bool (n \<noteq> abs_n))\<rparr>)"

text \<open>The local variables, none of them initialized.\<close>

record 'fe const_mem =
  cm_table :: "'fe table_mem"
  cm_pre_a :: "'fe ge list"
  cm_Z :: 'fe
  cm_tmpa :: "'fe ge"
  cm_wnaf_1 :: "int list"
  cm_wnaf_lam :: "int list"

definition ecmult_const_step :: "('fe, 'st) field_ops \<Rightarrow> bool \<Rightarrow> 'fe ge list \<Rightarrow> 'fe ge list \<Rightarrow> int list \<Rightarrow> int list \<Rightarrow> nat \<Rightarrow>
    'fe gej \<times> 'fe ge \<Rightarrow> 'fe gej \<times> 'fe ge" where
  "ecmult_const_step ops endo pre_a pre_a_lam wnaf_1 wnaf_lam i = (\<lambda>(r, tmpa).
    let r = ((\<lambda>r. fst (gej_double_nonzero ops r r None)) ^^ (WINDOW_A - 1)) r;
        tmpa = ECMULT_CONST_TABLE_GET_GE ops tmpa pre_a (wnaf_1 ! i) WINDOW_A;
        r = gej_add_ge ops r tmpa
    in if endo
       then let tmpa = ECMULT_CONST_TABLE_GET_GE ops tmpa pre_a_lam (wnaf_lam ! i) WINDOW_A
            in (gej_add_ge ops r tmpa, tmpa)
       else (r, tmpa))"

text \<open>The end of the function: from the sum over the odd digits back to the multiple (ecmult_const_impl.h 219--260).\<close>

definition ecmult_const_correct :: "('fe, 'st) field_ops \<Rightarrow> bool \<Rightarrow> 'fe ge \<Rightarrow> nat \<Rightarrow> nat \<Rightarrow> 'fe gej \<Rightarrow> 'fe gej" where
  "ecmult_const_correct ops endo a skew_1 skew_lam r =
    (let correction = a;
         tmpj = gej_set_ge ops correction;
         tmpj = fst (gej_double_var ops tmpj tmpj None);
         (correction, tmpj) = ge_set_gej ops tmpj;
         correction_1_stor = ge_to_storage ops a;
         correction_lam_stor = ge_to_storage ops a;
         a2_stor = ge_to_storage ops correction;
         correction_1_stor = ge_storage_cmov ops correction_1_stor a2_stor (of_bool (skew_1 = 2));
         correction_lam_stor = ge_storage_cmov ops correction_lam_stor a2_stor (of_bool (skew_lam = 2));
         correction = ge_from_storage ops correction_1_stor;
         correction = ge_neg ops correction;
         r = gej_add_ge ops r correction
     in if endo
        then let correction = ge_from_storage ops correction_lam_stor;
                 correction = ge_neg ops correction;
                 correction = ge_mul_lambda ops correction
             in gej_add_ge ops r correction
        else r)"

definition ecmult_const :: "('fe, 'st) field_ops \<Rightarrow> 's scalar_api \<Rightarrow> 'fe const_mem \<Rightarrow> 'fe ge \<Rightarrow> 's \<Rightarrow> nat \<Rightarrow> 'fe gej option" where
  "ecmult_const ops api mem a sc sz =
    (let endo = sz > 128;
         rsize = (if endo then 128 else sz);
         (q_1, q_lam) = em_split_lambda (sa_ecmult api) sc
     in Option.bind (if endo then wnaf_const (sa_digits api) (cm_wnaf_1 mem) q_1 (WINDOW_A - 1) 128 True
                     else wnaf_const (sa_digits api) (cm_wnaf_1 mem) sc (WINDOW_A - 1) sz (sz = 256)) (\<lambda>(wnaf_1, skew_1).
        Option.bind (if endo then wnaf_const (sa_digits api) (cm_wnaf_lam mem) q_lam (WINDOW_A - 1) 128 True
                     else Some (cm_wnaf_lam mem, 0)) (\<lambda>(wnaf_lam, skew_lam).
          let r = gej_set_ge ops a;
              (pre_a, Z) = ecmult_odd_multiples_table_globalz_windowa ops (cm_table mem) (cm_pre_a mem) (cm_Z mem) r;
              pre_a = map (\<lambda>i. (pre_a ! i)\<lparr>gy := fe_normalize_weak ops (gy (pre_a ! i))\<rparr>) [0..<ECMULT_TABLE_SIZE WINDOW_A];
              pre_a_lam = map (\<lambda>i. ge_mul_lambda ops (pre_a ! i)) [0..<ECMULT_TABLE_SIZE WINDOW_A];
              i = wnaf_1 ! WNAF_SIZE rsize (WINDOW_A - 1);
              tmpa = ECMULT_CONST_TABLE_GET_GE ops (cm_tmpa mem) pre_a i WINDOW_A;
              r = gej_set_ge ops tmpa;
              (r, tmpa) = (if endo
                           then let i = wnaf_lam ! WNAF_SIZE rsize (WINDOW_A - 1);
                                    tmpa = ECMULT_CONST_TABLE_GET_GE ops tmpa pre_a_lam i WINDOW_A
                                in (gej_add_ge ops r tmpa, tmpa)
                           else (r, tmpa));
              (r, tmpa) = fold (ecmult_const_step ops endo pre_a pre_a_lam wnaf_1 wnaf_lam) (rev [0..<WNAF_SIZE rsize (WINDOW_A - 1)]) (r, tmpa);
              r = r\<lparr>jz := fe_mul ops (jz r) Z\<rparr>
          in Some (ecmult_const_correct ops endo a skew_1 skew_lam r))))"

subsection \<open>Points\<close>

text \<open>The path of the algorithm over points: four doublings and then the additions of one position.\<close>

inductive ec_doubles :: "nat \<Rightarrow> point \<Rightarrow> point \<Rightarrow> bool" where
  zero: "ec_doubles 0 P P"
| step: "ec_add P P Q \<Longrightarrow> ec_doubles n Q R \<Longrightarrow> ec_doubles (Suc n) P R"

inductive ct_horner :: "fp \<Rightarrow> (nat \<Rightarrow> point list) \<Rightarrow> nat \<Rightarrow> point \<Rightarrow> point \<Rightarrow> bool" for b f where
  zero: "ct_horner b f 0 P P"
| step: "ec_doubles 4 P D \<Longrightarrow> ct_sum b D (f i) S \<Longrightarrow> ct_horner b f i S R \<Longrightarrow> ct_horner b f (Suc i) P R"

inductive_cases ec_doubles_elims: "ec_doubles 0 P R" "ec_doubles (Suc n) P R"
inductive_cases ct_horner_elims: "ct_horner b f 0 P R" "ct_horner b f (Suc i) P R"

text \<open>The additions of a position: the digit of the first array and, with the endomorphism, the one of the second.\<close>

definition const_addends :: "bool \<Rightarrow> (nat \<Rightarrow> point) \<Rightarrow> int list \<Rightarrow> int list \<Rightarrow> nat \<Rightarrow> point list" where
  "const_addends endo T d1 dl i = table_point T (d1 ! i) # (if endo then [table_point (\<lambda>i. ec_lambda (T i)) (dl ! i)] else [])"

definition const_corrections :: "bool \<Rightarrow> point \<Rightarrow> point \<Rightarrow> nat \<Rightarrow> nat \<Rightarrow> point list" where
  "const_corrections endo A A2 s1 sl = ec_neg (if s1 = 2 then A2 else A) # (if endo then [ec_lambda (ec_neg (if sl = 2 then A2 else A))] else [])"

definition const_path :: "fp \<Rightarrow> bool \<Rightarrow> point \<Rightarrow> point \<Rightarrow> (nat \<Rightarrow> point) \<Rightarrow> int list \<Rightarrow> int list \<Rightarrow> nat \<Rightarrow> nat \<Rightarrow> nat \<Rightarrow> point \<Rightarrow> bool" where
  "const_path b endo A A2 T d1 dl N s1 sl R \<longleftrightarrow>
    (\<exists>P S. ct_sum b (hd (const_addends endo T d1 dl N)) (tl (const_addends endo T d1 dl N)) P \<and>
      ct_horner b (const_addends endo T d1 dl) N P S \<and> ct_sum b S (const_corrections endo A A2 s1 sl) R)"

lemma ec_scale_1: "ec_scale 1 P = P"
  by (cases P) simp_all

lemma on_curve_scale: "on_curve_b b P \<Longrightarrow> on_curve_b (b * k ^ 6) (ec_scale k P)"
  by (cases P) (auto simp: power_mult_distrib distrib_right simp flip: power_mult)

lemma ct_pair_scale:
  assumes "k dvd 1" "ct_pair b P Q"
  shows "ct_pair (b * k ^ 6) (ec_scale k P) (ec_scale k Q)"
proof -
  obtain x2 y2 where Q: "Q = Affine x2 y2" "on_curve_b b Q" "\<And>x1 y1. P = Affine x1 y1 \<Longrightarrow> y1 + y2 = 0 \<or> y1 + y2 dvd 1"
    using assms(2) unfolding ct_pair_iff by blast
  have "on_curve_b (b * k ^ 6) (ec_scale k Q)" using Q(2) by (rule on_curve_scale)
  moreover have "y1 * k ^ 3 + y2 * k ^ 3 = 0 \<or> y1 * k ^ 3 + y2 * k ^ 3 dvd 1" if "P = Affine x1 y1" for x1 y1
    using Q(3) [OF that] unit_mult [of "y1 + y2" "k ^ 3"] unit_power [OF assms(1), of 3] by (auto simp flip: distrib_right)
  ultimately show ?thesis unfolding ct_pair_iff by (cases P) (auto simp: Q(1))
qed

lemma ct_sum_scale: "ct_sum b P Qs R \<Longrightarrow> k dvd 1 \<Longrightarrow> ct_sum (b * k ^ 6) (ec_scale k P) (map (ec_scale k) Qs) (ec_scale k R)"
  by (induction rule: ct_sum.induct) (auto intro: ct_sum.intros ct_pair_scale ec_add_scale)

lemma ec_doubles_scale: "ec_doubles n P R \<Longrightarrow> k dvd 1 \<Longrightarrow> ec_doubles n (ec_scale k P) (ec_scale k R)"
  by (induction rule: ec_doubles.induct) (auto intro: ec_doubles.intros ec_add_scale)

lemma ct_horner_scale: "ct_horner b f i P R \<Longrightarrow> k dvd 1 \<Longrightarrow> ct_horner (b * k ^ 6) (\<lambda>i. map (ec_scale k) (f i)) i (ec_scale k P) (ec_scale k R)"
  by (induction rule: ct_horner.induct) (auto intro: ct_horner.intros ec_doubles_scale ct_sum_scale)

lemma ec_doubles_on_curve: "ec_doubles n P R \<Longrightarrow> on_curve_b b P \<Longrightarrow> on_curve_b b R"
  by (induction rule: ec_doubles.induct) (auto intro: ec_add_on_curve_b)

lemma ct_sum_on_curve: "ct_sum b P Qs R \<Longrightarrow> on_curve_b b P \<Longrightarrow> on_curve_b b R"
proof (induction rule: ct_sum.induct)
  case (Cons P Q R Qs S)
  then show ?case using ec_add_on_curve_b unfolding ct_pair_iff by blast
qed

lemma ct_horner_on_curve: "ct_horner b f n P R \<Longrightarrow> on_curve_b b P \<Longrightarrow> on_curve_b b R"
  by (induction rule: ct_horner.induct) (auto dest: ct_sum_on_curve ec_doubles_on_curve)

subsection \<open>A buffer that is longer than the digits\<close>

lemma wnaf_const_loop_append:
  assumes "wnaf_const_loop ops w sz gs s u wd ds = Some (ds', wd', u')" "0 < w" "Suc wd < length ds" "\<And>k. k * w < sz \<Longrightarrow> Suc k < length ds"
  shows "wnaf_const_loop ops w sz gs s u wd (ds @ rest) = Some (ds' @ rest, wd', u') \<and> length ds' = length ds \<and> wd' < length ds"
  using assms(1,3,4)
proof (induction "sz - wd * w" arbitrary: wd s u ds rule: less_induct)
  case less
  define us where "us = dg_shr_int ops s (of_nat w)"
  define ev :: int where "ev = of_bool (uint (fst us) mod 2 = 0)"
  define sg :: int where "sg = 2 * of_bool (u > 0) - 1"
  define x where "x = (u - sg * ev * 2 ^ w) * gs"
  have step: "wnaf_const_loop ops w sz gs s u wd es =
      (if (wd + 1) * w < sz then wnaf_const_loop ops w sz gs (snd us) (uint (fst us) + sg * ev) (wd + 1) (es[wd := x])
       else Some (es[wd := x], wd + 1, uint (fst us) + sg * ev))" for es
    by (subst wnaf_const_loop.simps) (simp only: Let_def us_def ev_def sg_def x_def)
  have app: "(ds @ rest)[wd := x] = ds[wd := x] @ rest" using less.prems(2) by (simp add: list_update_append1)
  show ?case
  proof (cases "(wd + 1) * w < sz")
    case True
    then have m: "sz - (wd + 1) * w < sz - wd * w" using assms(2) by simp
    show ?thesis
      unfolding step app using less.hyps [OF m, of "snd us" _ "ds[wd := x]"] less.prems less.prems(3) [OF True] True by (simp add: step)
  next
    case False
    then show ?thesis using less.prems by (auto simp: step app)
  qed
qed

lemma wnaf_const_append:
  assumes "wnaf_const ops buf s w sz neg = Some (ds, skew)" "0 < w" "0 < sz" "length buf = Suc N" "N = (sz + w - 1) div w"
  shows "wnaf_const ops (buf @ rest) s w sz neg = Some (ds @ rest, skew)"
proof -
  obtain s0 k gs where st: "wnaf_const_setup ops s neg = (s0, k, gs)" by (metis prod_cases3)
  obtain l s1 where sh: "dg_shr_int ops s0 (of_nat w) = (l, s1)" by fastforce
  obtain ds' wd u where r: "wnaf_const_loop ops w sz gs s1 (uint l) 0 buf = Some (ds', wd, u)" "ds = ds'[wd := u * gs]" "skew = k"
    using assms(1) by (auto simp: wnaf_const_def st sh split: option.splits)
  have b: "Suc i < length buf" if "i * w < sz" for i
  proof -
    have "i * w + w \<le> sz + w - 1" using that assms(2) by linarith
    then have "(i + 1) * w \<le> sz + w - 1" by simp
    then have "i + 1 \<le> N" using assms(2,5) by (simp only: less_eq_div_iff_mult_less_eq)
    then show ?thesis by (simp add: assms(4))
  qed
  have "Suc 0 < length buf" using b [of 0] assms(3) by simp
  from wnaf_const_loop_append [OF r(1) assms(2) this b]
  have "wnaf_const_loop ops w sz gs s1 (uint l) 0 (buf @ rest) = Some (ds' @ rest, wd, u)" "length ds' = length buf" "wd < length buf" by blast+
  then show ?thesis using r by (simp add: wnaf_const_def st sh list_update_append1)
qed

text \<open>With a positive sign only the low bits matter: a shift for each digit and one more.\<close>

context scalar_digits
begin

lemma shr_cong:
  assumes "0 < w" "w < 16" "sval a mod 2 ^ (w * Suc r) = sval b mod 2 ^ (w * Suc r)"
  shows "fst (dg_shr_int ops a (of_nat w)) = fst (dg_shr_int ops b (of_nat w))"
    "sval (snd (dg_shr_int ops a (of_nat w))) mod 2 ^ (w * r) = sval (snd (dg_shr_int ops b (of_nat w))) mod 2 ^ (w * r)"
proof -
  have w: "unat (of_nat w :: u32) = w" using assms(2) by (simp add: unat_of_nat_small)
  have s: "sval (snd (dg_shr_int ops c (of_nat w))) = sval c div 2 ^ w" "uint (fst (dg_shr_int ops c (of_nat w))) = sval c mod 2 ^ w" for c
    using shr_int_val [of "of_nat w" c] assms(1,2) by (simp_all add: w)
  have p: "(2 :: int) ^ (w * Suc r) = 2 ^ w * 2 ^ (w * r)" by (simp add: power_add)
  have "c mod 2 ^ (w * Suc r) mod 2 ^ w = c mod 2 ^ w" for c :: int unfolding p by (rule mod_mod_cancel) simp
  then have "sval a mod 2 ^ w = sval b mod 2 ^ w" using assms(3) by metis
  then show "fst (dg_shr_int ops a (of_nat w)) = fst (dg_shr_int ops b (of_nat w))" by (simp add: s(2) word_uint_eq_iff)
  have "(c mod 2 ^ (w * Suc r)) div 2 ^ w = c div 2 ^ w mod 2 ^ (w * r)" for c :: int
    unfolding p by (simp add: mod_mult2_eq' zmod_zmult2_eq)
  then show "sval (snd (dg_shr_int ops a (of_nat w))) mod 2 ^ (w * r) = sval (snd (dg_shr_int ops b (of_nat w))) mod 2 ^ (w * r)"
    using assms(3) unfolding s(1) by metis
qed

lemma wnaf_const_loop_low:
  assumes "0 < w" "w < 16" "\<And>k. k * w < sz \<longleftrightarrow> k < N" "wd < N" "sval a mod 2 ^ (w * (N - wd)) = sval b mod 2 ^ (w * (N - wd))"
  shows "wnaf_const_loop ops w sz gs a u wd ds = wnaf_const_loop ops w sz gs b u wd ds"
  using assms(4,5)
proof (induction "N - wd" arbitrary: wd a b u ds)
  case (Suc n)
  have n: "N - wd = Suc n" using Suc.hyps(2) by simp
  note c = shr_cong [OF assms(1,2) Suc.prems(2) [unfolded n]]
  have "wnaf_const_loop ops w sz gs (snd (dg_shr_int ops a (of_nat w))) v (wd + 1) es = wnaf_const_loop ops w sz gs (snd (dg_shr_int ops b (of_nat w))) v (wd + 1) es"
    if "(wd + 1) * w < sz" for v es
  proof (rule Suc.hyps(1))
    show m: "n = N - (wd + 1)" using n by simp
    show "wd + 1 < N" using assms(3) [of "wd + 1"] that by simp
    show "sval (snd (dg_shr_int ops a (of_nat w))) mod 2 ^ (w * (N - (wd + 1))) = sval (snd (dg_shr_int ops b (of_nat w))) mod 2 ^ (w * (N - (wd + 1)))"
      using c(2) unfolding m .
  qed
  then show ?case by (subst (1 2) wnaf_const_loop.simps) (simp add: Let_def c(1))
qed simp

lemma wnaf_const_low:
  assumes "0 < w" "w < 16" "\<And>k. k * w < sz \<longleftrightarrow> k < N" "0 < N" "w * Suc N \<le> 256" "sval a mod 2 ^ (w * Suc N) = sval b mod 2 ^ (w * Suc N)"
  shows "wnaf_const ops buf a w sz False = wnaf_const ops buf b w sz False"
proof -
  have "(2 :: int) dvd 2 ^ (w * Suc N)" using assms(1) by (simp add: dvd_power)
  then have e: "dg_is_even ops a = dg_is_even ops b" using assms(6) unfolding is_even_val by (metis dvd_mod_iff)
  define k :: u32 where "k = of_bool (\<not> dg_is_even ops b)"
  have k: "unat k < 256" by (simp add: k_def)
  have st: "wnaf_const_setup ops a False = (dg_cadd_bit ops a k 1, 2 ^ unat k, 1)" "wnaf_const_setup ops b False = (dg_cadd_bit ops b k 1, 2 ^ unat k, 1)"
    by (simp_all add: wnaf_const_setup_def Let_def e k_def)
  have d: "(2 :: int) ^ (w * Suc N) dvd 2 ^ 256" using assms(5) by (rule le_imp_power_dvd)
  have "sval (dg_cadd_bit ops c k 1) mod 2 ^ (w * Suc N) = (sval c + 2 ^ unat k) mod 2 ^ (w * Suc N)" for c
    using cadd_bit_val [OF k, of 1 c] mod_mod_cancel [OF d] by simp
  then have "sval (dg_cadd_bit ops a k 1) mod 2 ^ (w * Suc N) = sval (dg_cadd_bit ops b k 1) mod 2 ^ (w * Suc N)"
    using assms(6) by (metis mod_add_left_eq)
  note c = shr_cong [OF assms(1,2) this]
  have "wnaf_const_loop ops w sz 1 (snd (dg_shr_int ops (dg_cadd_bit ops a k 1) (of_nat w))) u 0 buf =
      wnaf_const_loop ops w sz 1 (snd (dg_shr_int ops (dg_cadd_bit ops b k 1) (of_nat w))) u 0 buf" for u
    by (rule wnaf_const_loop_low [OF assms(1-4)]) (simp add: c(2))
  then show ?thesis by (simp add: wnaf_const_def st case_prod_beta Let_def c(1))
qed

end

subsection \<open>Correctness\<close>

context secp_code
begin

lemma const_low:
  assumes "sval a mod 2 ^ 68 = sval b mod 2 ^ 68"
  shows "ecmult_const fops api mem p a 64 = ecmult_const fops api mem p b 64"
proof -
  have "wnaf_const (sa_digits api) buf a 4 64 False = wnaf_const (sa_digits api) buf b 4 64 False" for buf
    by (rule dg.wnaf_const_low [where N = 16]) (use assms in auto)
  then show ?thesis by (simp add: ecmult_const_def WINDOW_A_def Let_def case_prod_beta)
qed

lemma const_select_fold:
  assumes "0 \<le> idx"
  shows "fold (\<lambda>m r. let r = r\<lparr>gx := fe_cmov fops (gx r) (gx (pre ! m)) (of_bool (int m = idx))\<rparr>
    in r\<lparr>gy := fe_cmov fops (gy r) (gy (pre ! m)) (of_bool (int m = idx))\<rparr>) [0..<n] r =
    (if idx < int n then r\<lparr>gx := gx (pre ! nat idx), gy := gy (pre ! nat idx)\<rparr> else r)"
proof (induction n)
  case (Suc n)
  then show ?case using assms by (cases "int n = idx") (auto simp: Let_def cmov)
qed (use assms in simp)

lemma const_get_eq:
  assumes "digit_ok 8 d"
  shows "ECMULT_CONST_TABLE_GET_GE fops r pre d WINDOW_A =
    \<lparr>gx = gx (pre ! nat (\<bar>d\<bar> div 2)), gy = if 0 < d then gy (pre ! nat (\<bar>d\<bar> div 2)) else fe_negate fops (gy (pre ! nat (\<bar>d\<bar> div 2))) 1, ginf = False\<rparr>"
proof -
  have d: "odd d" "\<bar>d\<bar> < 16" using assms by (simp_all add: digit_ok_def)
  have t: "ECMULT_TABLE_SIZE WINDOW_A = 8" by (simp add: ECMULT_TABLE_SIZE_def WINDOW_A_def)
  have a: "d * (of_bool (0 < d) * 2 - 1) = \<bar>d\<bar>" by simp
  have i: "0 \<le> \<bar>d\<bar> div 2" "\<bar>d\<bar> div 2 < 8" using d(2) by linarith+
  have "d \<noteq> 0" using d(1) by auto
  then have n: "d \<noteq> \<bar>d\<bar> \<longleftrightarrow> \<not> 0 < d" by (auto simp: abs_if)
  show ?thesis
    unfolding ECMULT_CONST_TABLE_GET_GE_def t a
    by (simp only: Let_def const_select_fold [OF i(1), unfolded Let_def]) (use i n in \<open>cases r; cases "0 < d"; simp add: cmov\<close>)
qed

text \<open>A table whose entries are finite, with normalized enough \<open>y\<close>.\<close>

lemma const_get_rep:
  assumes "ge_table fv mag pre 8 k T" "\<forall>j<8. mag 1 (gy (pre ! j)) \<and> T j \<noteq> Infinity" "digit_ok 8 d"
  shows "ge_ok mag (ECMULT_CONST_TABLE_GET_GE fops r pre d WINDOW_A)"
    "ge_rep fv (ECMULT_CONST_TABLE_GET_GE fops r pre d WINDOW_A) (ec_scale k (table_point T d))"
proof -
  define j where "j = nat (\<bar>d\<bar> div 2)"
  have d: "odd d" "\<bar>d\<bar> < 16" using assms(3) by (simp_all add: digit_ok_def)
  have j: "j < 8" "0 < d \<Longrightarrow> nat ((d - 1) div 2) = j" "\<not> 0 < d \<Longrightarrow> nat ((- d - 1) div 2) = j"
    using d by (auto simp: j_def elim!: oddE)
  have e: "ge_ok mag (pre ! j)" "ge_rep fv (pre ! j) (ec_scale k (T j))" "mag 1 (gy (pre ! j))" "T j \<noteq> Infinity"
    using assms(1,2) j(1) by (simp_all add: ge_table_def)
  have n: "mag 2 (fe_negate fops (gy (pre ! j)) 1)" "fv (fe_negate fops (gy (pre ! j)) 1) = - fv (gy (pre ! j))"
    using negate [OF e(3), of 1] fv_negate [OF e(3), of 1] by (simp_all flip: numeral_2_eq_2)
  show "ge_ok mag (ECMULT_CONST_TABLE_GET_GE fops r pre d WINDOW_A)"
    unfolding const_get_eq [OF assms(3)] j_def [symmetric] using e(1) n(1) mag_mono [of 2 _ 8] by (auto simp: ge_ok_def)
  show "ge_rep fv (ECMULT_CONST_TABLE_GET_GE fops r pre d WINDOW_A) (ec_scale k (table_point T d))"
    unfolding const_get_eq [OF assms(3)] j_def [symmetric]
    using e(2,4) j(2,3) n(2) by (cases "T j") (auto simp: ge_rep_def table_point_def)
qed

lemma gen_storage_cmov_eq:
  "ge_storage_cmov fops a b (of_bool c) = (if c then b else a)"
  by (cases a; cases b; cases c; simp add: ge_storage_cmov_def storage_cmov)

text \<open>The values of the code, stated for the curve that the common denominator of the table leads to.\<close>

lemma doubles_rep:
  assumes "ec_doubles n P D" "gej_ok mag r" "gej_rep fv r P"
  shows "gej_ok mag (((\<lambda>r. fst (gej_double_nonzero fops r r None)) ^^ n) r) \<and> gej_rep fv (((\<lambda>r. fst (gej_double_nonzero fops r r None)) ^^ n) r) D"
  using assms
proof (induction arbitrary: r rule: ec_doubles.induct)
  case (step P Q n R)
  have "gej_ok mag (fst (gej_double_nonzero fops r r None)) \<and> gej_rep fv (fst (gej_double_nonzero fops r r None)) Q"
    unfolding gej_double_nonzero_def by (rule double_var_rep) (use step in auto)
  then show ?case using step.IH by (simp add: funpow_Suc_right del: funpow.simps)
qed simp

lemma ct_add1_rep:
  assumes "gej_ok mag r" "gej_rep fv r P" "on_curve_b b P" "ct_sum b P (Q # Qs) S" "ge_ok mag q" "ge_rep fv q Q"
  obtains R where "gej_ok mag (gej_add_ge fops r q)" "gej_rep fv (gej_add_ge fops r q) R" "on_curve_b b R" "ct_sum b R Qs S"
proof -
  from assms(4) obtain R where "ct_pair b P Q" "ec_add P Q R" "ct_sum b R Qs S" by (auto elim: ct_sum_elims)
  then show thesis using that ct_add_rep [OF assms(1,5,2,6,3)] by blast
qed

lemma const_step_rep:
  assumes "ge_table fv mag pa 8 k T" "\<forall>j<8. mag 1 (gy (pa ! j)) \<and> T j \<noteq> Infinity"
    and "endo \<Longrightarrow> ge_table fv mag pl 8 k (\<lambda>i. ec_lambda (T i)) \<and> (\<forall>j<8. mag 1 (gy (pl ! j)))"
    and "digit_ok 8 (d1 ! i)" "endo \<Longrightarrow> digit_ok 8 (dl ! i)"
    and "gej_ok mag r" "gej_rep fv r P" "on_curve_b b P" "ec_doubles 4 P D" "ct_sum b D (map (ec_scale k) (const_addends endo T d1 dl i)) S"
    and "r' = fst (ecmult_const_step fops endo pa pl d1 dl i (r, tmpa))"
  shows "gej_ok mag r' \<and> gej_rep fv r' S \<and> on_curve_b b S"
proof -
  let ?r1 = "((\<lambda>r. fst (gej_double_nonzero fops r r None)) ^^ (WINDOW_A - 1)) r"
  let ?q = "ECMULT_CONST_TABLE_GET_GE fops tmpa pa (d1 ! i) WINDOW_A"
  let ?ql = "ECMULT_CONST_TABLE_GET_GE fops ?q pl (dl ! i) WINDOW_A"
  have four: "WINDOW_A - 1 = 4" by (simp add: WINDOW_A_def)
  have r1: "gej_ok mag ?r1" "gej_rep fv ?r1 D" unfolding four using doubles_rep [OF assms(9,6,7)] by blast+
  have D: "on_curve_b b D" by (rule ec_doubles_on_curve [OF assms(9,8)])
  note q = const_get_rep [OF assms(1,2,4), of tmpa]
  have "ct_sum b D (ec_scale k (table_point T (d1 ! i)) # map (ec_scale k) (tl (const_addends endo T d1 dl i))) S"
    using assms(10) by (simp add: const_addends_def)
  from ct_add1_rep [OF r1 D this q]
  obtain R where R: "gej_ok mag (gej_add_ge fops ?r1 ?q)" "gej_rep fv (gej_add_ge fops ?r1 ?q) R" "on_curve_b b R"
      "ct_sum b R (map (ec_scale k) (tl (const_addends endo T d1 dl i))) S" by blast
  show ?thesis
  proof (cases endo)
    case True
    have f: "\<forall>j<8. mag 1 (gy (pl ! j)) \<and> ec_lambda (T j) \<noteq> Infinity"
    proof (intro allI impI conjI)
      fix j :: nat assume "j < 8"
      then show "mag 1 (gy (pl ! j))" "ec_lambda (T j) \<noteq> Infinity" using assms(2) assms(3) [OF True] by (auto elim: ec_lambda.elims)
    qed
    note ql = const_get_rep [OF conjunct1 [OF assms(3) [OF True]] f assms(5) [OF True], of ?q]
    have "ct_sum b R (ec_scale k (table_point (\<lambda>i. ec_lambda (T i)) (dl ! i)) # []) S" using R(4) True by (simp add: const_addends_def)
    from ct_add1_rep [OF R(1-3) this ql]
    obtain R' where "gej_ok mag (gej_add_ge fops (gej_add_ge fops ?r1 ?q) ?ql)" "gej_rep fv (gej_add_ge fops (gej_add_ge fops ?r1 ?q) ?ql) R'"
        "on_curve_b b R'" "ct_sum b R' [] S" by blast
    then show ?thesis using True by (auto simp: assms(11) ecmult_const_step_def Let_def elim: ct_sum_elims)
  next
    case False
    then have "R = S" using R(4) by (auto simp: const_addends_def elim: ct_sum_elims)
    then show ?thesis using R False by (simp add: assms(11) ecmult_const_step_def Let_def)
  qed
qed

lemma const_loop_rep:
  assumes "ge_table fv mag pa 8 k T" "\<forall>j<8. mag 1 (gy (pa ! j)) \<and> T j \<noteq> Infinity"
    and "endo \<Longrightarrow> ge_table fv mag pl 8 k (\<lambda>i. ec_lambda (T i)) \<and> (\<forall>j<8. mag 1 (gy (pl ! j)))"
    and "\<forall>i<n. digit_ok 8 (d1 ! i)" "endo \<Longrightarrow> \<forall>i<n. digit_ok 8 (dl ! i)"
    and "gej_ok mag r" "gej_rep fv r P" "on_curve_b b P" "ct_horner b (\<lambda>i. map (ec_scale k) (const_addends endo T d1 dl i)) n P R"
    and "r' = fst (fold (ecmult_const_step fops endo pa pl d1 dl) (rev [0..<n]) (r, tmpa))"
  shows "gej_ok mag r' \<and> gej_rep fv r' R \<and> on_curve_b b R"
  using assms(4-10)
proof (induction n arbitrary: P r tmpa)
  case 0
  then show ?case by (auto elim: ct_horner_elims)
next
  case (Suc n)
  from Suc.prems(6) obtain D S where h: "ec_doubles 4 P D" "ct_sum b D (map (ec_scale k) (const_addends endo T d1 dl n)) S"
      "ct_horner b (\<lambda>i. map (ec_scale k) (const_addends endo T d1 dl i)) n S R" by (auto elim: ct_horner_elims)
  obtain r1 t1 where e: "ecmult_const_step fops endo pa pl d1 dl n (r, tmpa) = (r1, t1)" by fastforce
  have d: "digit_ok 8 (d1 ! n)" "endo \<Longrightarrow> digit_ok 8 (dl ! n)" using Suc.prems(1,2) by auto
  have s: "gej_ok mag r1 \<and> gej_rep fv r1 S \<and> on_curve_b b S"
    by (rule const_step_rep [OF assms(1-3) d Suc.prems(3-5) h(1,2), where tmpa = tmpa]) (simp_all add: e)
  have l: "\<forall>i<n. digit_ok 8 (d1 ! i)" "endo \<Longrightarrow> \<forall>i<n. digit_ok 8 (dl ! i)" using Suc.prems(1,2) by auto
  have "r' = fst (fold (ecmult_const_step fops endo pa pl d1 dl) (rev [0..<n]) (r1, t1))" using Suc.prems(7) by (simp add: e)
  then show ?case using Suc.IH [OF l _ _ _ h(3)] s by blast
qed

text \<open>The correction.\<close>

lemma double_z:
  assumes "gej_ok mag a" "\<not> jinf a"
  shows "fv (jz (fst (gej_double_var fops r a None))) = 2 * (fv (jy a) * fv (jz a))"
proof -
  have m: "mag 8 (jz a)" "mag 8 (jy a)" using assms(1) by (simp_all add: gej_ok_def)
  have p: "mag 1 (fe_mul fops (jz a) (jy a))" using mul [OF m] by blast
  have "fv (fe_mul_int fops (fe_mul fops (jz a) (jy a)) 2) = fv (jz a) * fv (jy a) * 2"
    using fv_mul_int [OF p, of 2] fv_mul [OF m] by simp
  then show ?thesis using assms(2) by (simp add: gej_double_var_def Let_def mult.commute)
qed

lemma correct_rep:
  assumes "ge_ok mag a" "ge_rep fv a (Affine x y)" "y ^ 2 = x ^ 3 + b" "ec_add (Affine x y) (Affine x y) A2" "A2 \<noteq> Infinity"
    and "(2 * y) ^ nat (field_p - 1) = 1" "s1 = 1 \<or> s1 = 2" "endo \<Longrightarrow> sl = 1 \<or> sl = 2"
    and "gej_ok mag r" "gej_rep fv r P" "on_curve_b b P" "ct_sum b P (const_corrections endo (Affine x y) A2 s1 sl) R"
  shows "gej_ok mag (ecmult_const_correct fops endo a s1 sl r) \<and> gej_rep fv (ecmult_const_correct fops endo a s1 sl r) R"
proof -
  let ?j = "gej_set_ge fops a"
  let ?d = "fst (gej_double_var fops ?j ?j None)"
  let ?a2 = "fst (ge_set_gej fops ?d)"
  note j = gej_set_ge_rep [OF assms(1,2)]
  have d: "gej_ok mag ?d \<and> gej_rep fv ?d A2" by (rule double_var_rep [OF _ _ _ assms(4)]) (use j in auto)
  have i: "\<not> jinf ?j" using assms(2) by (simp add: ge_rep_def gej_set_ge_def)
  have "fv (jz ?d) = 2 * (fv (gy a) * fv (fe_set_int fops 1))" using double_z [OF conjunct1 [OF j] i] by (simp add: gej_set_ge_def)
  then have "fv (jz ?d) = 2 * y" using assms(2) fv_set_int [of 1] by (simp add: ge_rep_def)
  then have z: "ge_rep fv ?a2 A2" using set_gej_rep [of ?d A2] d assms(6) by simp
  have ok2: "ge_ok mag ?a2" using set_gej_ok d by blast
  obtain x2 y2 where A2: "A2 = Affine x2 y2" using assms(5) by (cases A2) auto
  define st where "st = (\<lambda>s :: nat. ge_from_storage fops (if s = 2 then ge_to_storage fops ?a2 else ge_to_storage fops a))"
  have st: "ge_ok mag (st s)" "ge_rep fv (st s) (if s = 2 then A2 else Affine x y)" for s :: nat
    using storage_ok [OF assms(1)] storage_ok [OF ok2] storage_rep(2) [OF assms(1,2)] storage_rep(2) [OF ok2 z [unfolded A2]]
    by (simp_all add: st_def A2)
  have n: "ge_ok mag (ge_neg fops (st s))" "ge_rep fv (ge_neg fops (st s)) (ec_scale 1 (ec_neg (if s = 2 then A2 else Affine x y)))" for s :: nat
    using ge_neg_rep [OF st [of s]] by (simp_all add: ec_scale_1)
  note l = lambda_scale [OF n]
  have c: "ge_storage_cmov fops (ge_to_storage fops a) (ge_to_storage fops ?a2) (of_bool (s = 2)) = (if s = 2 then ge_to_storage fops ?a2 else ge_to_storage fops a)"
    for s :: nat by (simp add: gen_storage_cmov_eq)
  have e: "ecmult_const_correct fops endo a s1 sl r =
      (let r = gej_add_ge fops r (ge_neg fops (st s1)) in if endo then gej_add_ge fops r (ge_mul_lambda fops (ge_neg fops (st sl))) else r)"
    by (simp only: ecmult_const_correct_def Let_def case_prod_beta c st_def)
  have "ct_sum b P (ec_neg (if s1 = 2 then A2 else Affine x y) # tl (const_corrections endo (Affine x y) A2 s1 sl)) R"
    using assms(12) by (simp add: const_corrections_def)
  from ct_add1_rep [OF assms(9-11) this n(1) n(2) [unfolded ec_scale_1]]
  obtain P1 where 1: "gej_ok mag (gej_add_ge fops r (ge_neg fops (st s1)))" "gej_rep fv (gej_add_ge fops r (ge_neg fops (st s1))) P1" "on_curve_b b P1"
      "ct_sum b P1 (tl (const_corrections endo (Affine x y) A2 s1 sl)) R" by blast
  show ?thesis
  proof (cases endo)
    case True
    have "ct_sum b P1 (ec_lambda (ec_neg (if sl = 2 then A2 else Affine x y)) # []) R" using 1(4) True by (simp add: const_corrections_def)
    from ct_add1_rep [OF 1(1-3) this l(1) l(2) [unfolded ec_scale_1]]
    obtain R' where 2: "gej_ok mag (gej_add_ge fops (gej_add_ge fops r (ge_neg fops (st s1))) (ge_mul_lambda fops (ge_neg fops (st sl))))"
        "gej_rep fv (gej_add_ge fops (gej_add_ge fops r (ge_neg fops (st s1))) (ge_mul_lambda fops (ge_neg fops (st sl)))) R'" "ct_sum b R' [] R" by blast
    have "R' = R" using 2(3) by (auto elim: ct_sum_elims)
    then show ?thesis unfolding e Let_def using True 2(1,2) by (simp only: if_True)
  next
    case False
    then have "P1 = R" using 1(4) by (auto simp: const_corrections_def elim: ct_sum_elims)
    then show ?thesis unfolding e Let_def using 1(1,2) False by (simp only: if_False)
  qed
qed

lemma weak_table:
  assumes "ge_table fv mag pre 8 k T" "pa = map (\<lambda>i. (pre ! i)\<lparr>gy := fe_normalize_weak fops (gy (pre ! i))\<rparr>) [0..<8]"
  shows "ge_table fv mag pa 8 k T" "\<forall>j<8. mag 1 (gy (pa ! j))"
proof -
  have "ge_ok mag (pa ! j) \<and> ge_rep fv (pa ! j) (ec_scale k (T j)) \<and> mag 1 (gy (pa ! j))" if "j < 8" for j
  proof -
    have e: "ge_ok mag (pre ! j)" "ge_rep fv (pre ! j) (ec_scale k (T j))" using assms(1) that by (simp_all add: ge_table_def)
    then have m: "mag 31 (gy (pre ! j))" using mag_mono [of 8 "gy (pre ! j)" 31] by (simp add: ge_ok_def)
    have w: "mag 1 (fe_normalize_weak fops (gy (pre ! j)))" using normalize_weak [OF m] by blast
    then have "mag 8 (fe_normalize_weak fops (gy (pre ! j)))" using mag_mono [of 1 _ 8] by simp
    then show ?thesis using e w fv_normalize_weak [OF m] that by (cases "T j") (auto simp: assms(2) ge_ok_def ge_rep_def)
  qed
  then show "ge_table fv mag pa 8 k T" "\<forall>j<8. mag 1 (gy (pa ! j))" by (simp_all add: ge_table_def assms(2))
qed

lemma odd_multiples_on_curve:
  assumes "odd_multiples A n T" "on_curve_b b A" "i < n"
  shows "on_curve_b b (T i)"
proof -
  obtain D where D: "ec_add A A D" "\<forall>i. Suc i < n \<longrightarrow> ec_add (T i) D (T (Suc i))" "T 0 = A" using assms(1) by (auto simp: odd_multiples_def)
  have "on_curve_b b D" using ec_add_on_curve_b [OF D(1) assms(2,2)] .
  then show ?thesis using assms(3) by (induction i) (use D assms(2) ec_add_on_curve_b in \<open>auto simp: Suc_lessD\<close>)
qed

lemma table_point_on_curve:
  assumes "odd_multiples A 8 T" "on_curve_b b A" "digit_ok 8 d"
  shows "on_curve_b b (table_point T d)"
proof -
  have n: "on_curve_b b (ec_neg P)" if "on_curve_b b P" for P using that by (cases P) simp_all
  show ?thesis using odd_multiples_on_curve [OF assms(1,2)] digit_index [OF assms(3)] n by (auto simp: table_point_def)
qed

lemma const_rep:
  assumes a: "ge_ok mag a" "ge_rep fv a (Affine x y)" "y ^ 2 = x ^ 3 + b" "odd_multiples (Affine x y) 8 T"
    and a2: "ec_add (Affine x y) (Affine x y) A2" "A2 \<noteq> Infinity" "(2 * y) ^ nat (field_p - 1) = 1"
    and mem: "length (tm_prej (cm_table mem)) = 8" "length (tm_zr (cm_table mem)) = 8" "length (cm_pre_a mem) = 8"
    and sz: "endo = (128 < sz)" "N = WNAF_SIZE (if endo then 128 else sz) (WINDOW_A - 1)" "em_split_lambda (sa_ecmult api) sc = (q1, ql)"
    and w1: "(if endo then wnaf_const (sa_digits api) (cm_wnaf_1 mem) q1 (WINDOW_A - 1) 128 True
        else wnaf_const (sa_digits api) (cm_wnaf_1 mem) sc (WINDOW_A - 1) sz (sz = 256)) = Some (d1, s1)"
    and wl: "(if endo then wnaf_const (sa_digits api) (cm_wnaf_lam mem) ql (WINDOW_A - 1) 128 True else Some (cm_wnaf_lam mem, 0)) = Some (dl, sl)"
    and d: "\<forall>i\<le>N. digit_ok 8 (d1 ! i)" "endo \<Longrightarrow> \<forall>i\<le>N. digit_ok 8 (dl ! i)" "s1 = 1 \<or> s1 = 2" "endo \<Longrightarrow> sl = 1 \<or> sl = 2"
    and path: "const_path b endo (Affine x y) A2 T d1 dl N s1 sl R"
  shows "\<exists>r. ecmult_const fops api mem a sc sz = Some r \<and> gej_ok mag r \<and> gej_rep fv r R"
proof -
  have t8: "ECMULT_TABLE_SIZE WINDOW_A = 8" by (simp add: ECMULT_TABLE_SIZE_def WINDOW_A_def)
  let ?r0 = "gej_set_ge fops a"
  obtain pre Z where pre: "ecmult_odd_multiples_table_globalz_windowa fops (cm_table mem) (cm_pre_a mem) (cm_Z mem) ?r0 = (pre, Z)" by fastforce
  define k where "k = fv Z"
  have t: "k dvd 1" "mag 8 Z" "ge_table fv mag pre 8 k T"
    using windowa_rep [OF _ _ a(4) t8 [symmetric] mem pre] gej_set_ge_rep [OF a(1,2)] by (simp_all add: k_def)
  define pa where "pa = map (\<lambda>i. (pre ! i)\<lparr>gy := fe_normalize_weak fops (gy (pre ! i))\<rparr>) [0..<8]"
  define pl where "pl = map (\<lambda>i. ge_mul_lambda fops (pa ! i)) [0..<8]"
  have fin: "\<forall>j<8. T j \<noteq> Infinity" using a(4) by (simp add: odd_multiples_def)
  have pa: "ge_table fv mag pa 8 k T" "\<forall>j<8. mag 1 (gy (pa ! j)) \<and> T j \<noteq> Infinity" using weak_table [OF t(3) pa_def] fin by simp_all
  have pl: "ge_table fv mag pl 8 k (\<lambda>i. ec_lambda (T i)) \<and> (\<forall>j<8. mag 1 (gy (pl ! j)))"
    using lambda_table [OF pa(1)] pa(2) by (auto simp: pl_def ge_mul_lambda_def)
  from path obtain P S where p: "ct_sum b (table_point T (d1 ! N)) (tl (const_addends endo T d1 dl N)) P"
      "ct_horner b (const_addends endo T d1 dl) N P S" "ct_sum b S (const_corrections endo (Affine x y) A2 s1 sl) R"
    by (auto simp: const_path_def const_addends_def)
  let ?b = "b * k ^ 6"
  define t0 where "t0 = ECMULT_CONST_TABLE_GET_GE fops (cm_tmpa mem) pa (d1 ! N) WINDOW_A"
  have t0: "ge_ok mag t0" "ge_rep fv t0 (ec_scale k (table_point T (d1 ! N)))" unfolding t0_def using const_get_rep [OF pa] d(1) by blast+
  have d1N: "digit_ok 8 (d1 ! N)" using d(1) by simp
  have A: "on_curve_b b (Affine x y)" using a(3) by simp
  have c0: "on_curve_b ?b (ec_scale k (table_point T (d1 ! N)))" by (rule on_curve_scale [OF table_point_on_curve [OF a(4) A d1N]])
  note r0 = gej_set_ge_rep [OF t0]
  define t1 where "t1 = ECMULT_CONST_TABLE_GET_GE fops t0 pl (dl ! N) WINDOW_A"
  define r1 where "r1 = (if endo then gej_add_ge fops (gej_set_ge fops t0) t1 else gej_set_ge fops t0)"
  have s1: "ct_sum ?b (ec_scale k (table_point T (d1 ! N))) (map (ec_scale k) (tl (const_addends endo T d1 dl N))) (ec_scale k P)"
    by (rule ct_sum_scale [OF p(1) t(1)])
  have r1: "gej_ok mag r1 \<and> gej_rep fv r1 (ec_scale k P) \<and> on_curve_b ?b (ec_scale k P)"
  proof (cases endo)
    case True
    have f: "\<forall>j<8. mag 1 (gy (pl ! j)) \<and> ec_lambda (T j) \<noteq> Infinity" using pl fin by (auto elim: ec_lambda.elims)
    have dN: "digit_ok 8 (dl ! N)" using d(2) [OF True] by simp
    note q = const_get_rep [OF conjunct1 [OF pl] f dN, of t0, folded t1_def]
    have "ct_sum ?b (ec_scale k (table_point T (d1 ! N))) (ec_scale k (table_point (\<lambda>i. ec_lambda (T i)) (dl ! N)) # []) (ec_scale k P)"
      using s1 True by (simp add: const_addends_def)
    from ct_add1_rep [OF conjunct1 [OF r0] conjunct2 [OF r0] c0 this q] show ?thesis
      using True by (auto simp: r1_def elim: ct_sum_elims)
  next
    case False
    then have "ec_scale k (table_point T (d1 ! N)) = ec_scale k P" using s1 by (auto simp: const_addends_def elim: ct_sum_elims)
    then show ?thesis using False r0 c0 by (simp add: r1_def)
  qed
  define r2 where "r2 = fst (fold (ecmult_const_step fops endo pa pl d1 dl) (rev [0..<N]) (r1, if endo then t1 else t0))"
  have dN: "\<forall>i<N. digit_ok 8 (d1 ! i)" "endo \<Longrightarrow> \<forall>i<N. digit_ok 8 (dl ! i)" using d(1,2) by auto
  have r2: "gej_ok mag r2 \<and> gej_rep fv r2 (ec_scale k S) \<and> on_curve_b ?b (ec_scale k S)"
    by (rule const_loop_rep [OF pa pl dN _ _ _ ct_horner_scale [OF p(2) t(1)] r2_def]) (use r1 in auto)
  define r3 where "r3 = r2\<lparr>jz := fe_mul fops (jz r2) Z\<rparr>"
  have m: "mag 8 (fe_mul fops (jz r2) Z)" "fv (fe_mul fops (jz r2) Z) = fv (jz r2) * k"
    using r2 t(2) chain.mul fv_mul by (simp_all add: gej_ok_def k_def)
  have r3: "gej_ok mag r3" "gej_rep fv r3 S"
    using r2 m(1) gej_rep_scale [of k fv, OF t(1) m(2), of S] by (simp_all add: r3_def gej_ok_def)
  have "on_curve_b b (table_point T (d1 ! N))" by (rule table_point_on_curve [OF a(4) A d1N])
  then have S: "on_curve_b b S" using ct_sum_on_curve [OF p(1)] ct_horner_on_curve [OF p(2)] by blast
  have "ecmult_const fops api mem a sc sz = Some (ecmult_const_correct fops endo a s1 sl r3)"
    unfolding ecmult_const_def Let_def sz(1) [symmetric] sz(3) prod.case w1 wl bind.simps pre t8 sz(2) [symmetric]
    by (simp add: case_prod_beta r3_def r2_def r1_def t1_def t0_def pl_def pa_def)
  then show ?thesis using correct_rep [OF a(1-3) a2 d(3,4) r3 S p(3)] by blast
qed

text \<open>The digits that the code computes, in arrays of 33 elements.\<close>

lemma const_digit:
  assumes "sval q < order_n" "0 < sz" "sz \<le> 128" "length buf = 33" "neg \<or> sval q < 2 ^ 128" "v = (if neg then signed_mod (sval q) else sval q)" "\<bar>v\<bar> < 2 ^ sz"
    and "N = WNAF_SIZE sz (WINDOW_A - 1)"
  obtains ds skew where "wnaf_const (sa_digits api) buf q (WINDOW_A - 1) sz neg = Some (ds, skew)" "N \<le> 32"
    "digit_sum 4 (take (Suc N) ds) = v + int skew" "skew = 1 \<or> skew = 2" "\<forall>i\<le>N. digit_ok 8 (ds ! i)" "length ds = 33"
proof -
  have four: "WINDOW_A - 1 = 4" by (simp add: WINDOW_A_def)
  have N: "N = (sz + 4 - 1) div 4" "N \<le> 32" using assms(3) by (simp_all add: assms(8) WINDOW_A_def WNAF_SIZE_def)
  have l: "length (take (Suc N) buf) = Suc N" using N(2) assms(4) by simp
  have b: "\<bar>v\<bar> + 2 < 2 ^ (sz + 4)"
  proof -
    have "(1 :: int) \<le> 2 ^ sz" by simp
    then show ?thesis using assms(7) by (simp add: power_add)
  qed
  have n: "neg \<or> 2 * sval q \<le> order_n" using assms(5) by (auto simp: order_n_def)
  obtain ds skew where d: "wnaf_const (sa_digits api) (take (Suc N) buf) q 4 sz neg = Some (ds, skew)" "length ds = Suc N"
      "digit_sum 4 ds = v + int skew" "skew = 1 \<or> skew = 2" "\<forall>d\<in>set ds. odd_digit 4 d"
    using dg.wnaf_const_val [OF assms(1) _ _ assms(2) N(1) l n assms(6) b] by auto
  have "wnaf_const (sa_digits api) (take (Suc N) buf @ drop (Suc N) buf) q 4 sz neg = Some (ds @ drop (Suc N) buf, skew)"
    by (rule wnaf_const_append [OF d(1) _ assms(2) l N(1)]) simp
  moreover have "\<forall>i\<le>N. digit_ok 8 ((ds @ drop (Suc N) buf) ! i)"
    using d(2,5) by (auto simp: nth_append digit_ok_def odd_digit_def)
  ultimately show thesis using that [of "ds @ drop (Suc N) buf" skew] d N(2) assms(4) by (simp add: WINDOW_A_def)
qed

lemma const_digits:
  assumes "sval sc < order_n" "0 < sz" "endo = (128 < sz)" "\<not> endo \<Longrightarrow> sval sc < 2 ^ sz" "N = WNAF_SIZE (if endo then 128 else sz) (WINDOW_A - 1)"
    and "length (cm_wnaf_1 mem) = 33" "length (cm_wnaf_lam mem) = 33" "em_split_lambda (sa_ecmult api) sc = (q1, ql)"
  obtains d1 s1 dl sl where
      "(if endo then wnaf_const (sa_digits api) (cm_wnaf_1 mem) q1 (WINDOW_A - 1) 128 True
        else wnaf_const (sa_digits api) (cm_wnaf_1 mem) sc (WINDOW_A - 1) sz (sz = 256)) = Some (d1, s1)"
      "(if endo then wnaf_const (sa_digits api) (cm_wnaf_lam mem) ql (WINDOW_A - 1) 128 True else Some (cm_wnaf_lam mem, 0)) = Some (dl, sl)"
    and "\<forall>i\<le>N. digit_ok 8 (d1 ! i)" "endo \<Longrightarrow> \<forall>i\<le>N. digit_ok 8 (dl ! i)" "s1 = 1 \<or> s1 = 2" "endo \<Longrightarrow> sl = 1 \<or> sl = 2" "length d1 = 33"
    and "(digit_sum 4 (take (Suc N) d1) - int s1 + (if endo then scalar_lambda * (digit_sum 4 (take (Suc N) dl) - int sl) else 0)) mod order_n = sval sc"
proof (cases endo)
  case True
  note s = assms(8) [unfolded split_lambda]
  have less: "sval q1 < order_n" "sval ql < order_n"
    unfolding ar.split_lambda_eqs [OF assms(1) s] by (rule pos_mod_bound, simp add: order_n_def)+
  note short = ar.split_lambda_short [OF assms(1) s]
  have N: "N = WNAF_SIZE 128 (WINDOW_A - 1)" using assms(5) True by simp
  obtain d1 s1 where 1: "wnaf_const (sa_digits api) (cm_wnaf_1 mem) q1 (WINDOW_A - 1) 128 True = Some (d1, s1)"
      "digit_sum 4 (take (Suc N) d1) = signed_mod (sval q1) + int s1" "s1 = 1 \<or> s1 = 2" "\<forall>i\<le>N. digit_ok 8 (d1 ! i)" "length d1 = 33"
    by (rule const_digit [OF less(1) _ _ assms(6) _ _ _ N, where neg = True and v = "signed_mod (sval q1)"]) (use short in auto)
  obtain dl sl where l: "wnaf_const (sa_digits api) (cm_wnaf_lam mem) ql (WINDOW_A - 1) 128 True = Some (dl, sl)"
      "digit_sum 4 (take (Suc N) dl) = signed_mod (sval ql) + int sl" "sl = 1 \<or> sl = 2" "\<forall>i\<le>N. digit_ok 8 (dl ! i)"
    by (rule const_digit [OF less(2) _ _ assms(7) _ _ _ N, where neg = True and v = "signed_mod (sval ql)"]) (use short in auto)
  have "(signed_mod (sval q1) + scalar_lambda * signed_mod (sval ql)) mod order_n = sval sc"
    unfolding signed_mod_lambda by (rule ar.split_lambda_sum [OF assms(1) s])
  then show thesis using that [of d1 s1 dl sl] 1 l True by simp
next
  case False
  then have sz: "sz \<le> 128" "N = WNAF_SIZE sz (WINDOW_A - 1)" "sval sc < 2 ^ sz" using assms(3-5) by simp_all
  have "sval sc < 2 ^ 128" by (rule less_le_trans [OF sz(3) power_increasing [OF sz(1)]]) simp
  then obtain d1 s1 where 1: "wnaf_const (sa_digits api) (cm_wnaf_1 mem) sc (WINDOW_A - 1) sz False = Some (d1, s1)"
      "digit_sum 4 (take (Suc N) d1) = sval sc + int s1" "s1 = 1 \<or> s1 = 2" "\<forall>i\<le>N. digit_ok 8 (d1 ! i)" "length d1 = 33"
    by (rule_tac const_digit [OF assms(1,2) sz(1) assms(6) _ _ _ sz(2), where neg = False and v = "sval sc"]) (use sz(3) dg.sval_range(1) [of sc] in auto)
  then show thesis using that [of d1 s1 "cm_wnaf_lam mem" 0] False sz(1) assms(1) dg.sval_range(1) [of sc] by simp
qed

end

subsection \<open>Multiplying the point of order six by zero\<close>

lemma small_const_path:
  "const_path 1 False (Affine 2 3) (Affine 0 1) small_table (replicate N (- 15) @ 1 # rest) dl N 1 sl Infinity"
proof -
  let ?d = "replicate N (- 15) @ 1 # rest"
  have d0: "const_addends False small_table ?d dl N = [Affine 2 3]"
    by (simp add: const_addends_def table_point_odd small_table_def nth_append)
  have di: "const_addends False small_table ?d dl i = [Affine (- 1) 0]" if "i < N" for i
    using that by (simp add: const_addends_def table_point_def small_table_def nth_append)
  have d2: "ec_add (Affine 2 3) (Affine 2 3) (Affine 0 1)" by (rule ec_add.tangent [of _ 2]) (simp_all add: units)
  have d4: "ec_add (Affine 0 1) (Affine 0 1) (Affine 0 (- 1))" by (rule ec_add.tangent [of _ 0]) (simp_all add: units)
  have d8: "ec_add (Affine 0 (- 1)) (Affine 0 (- 1)) (Affine 0 1)" by (rule ec_add.tangent [of _ 0]) (simp_all add: units)
  have add: "ec_add (Affine 0 (- 1)) (Affine (- 1) 0) (Affine 2 3)" by (rule ec_add.chord [of _ _ "- 1"]) (simp_all add: units)
  have four: "(4 :: nat) = Suc (Suc (Suc (Suc 0)))" by simp
  have dbl: "ec_doubles 4 (Affine 2 3) (Affine 0 (- 1))"
    unfolding four by (rule ec_doubles.step [OF d2 ec_doubles.step [OF d4 ec_doubles.step [OF d8 ec_doubles.step [OF d4 ec_doubles.zero]]]])
  have pair: "ct_pair 1 (Affine 0 (- 1)) (Affine (- 1) 0)" by simp
  have "ct_horner 1 (const_addends False small_table ?d dl) i (Affine 2 3) (Affine 2 3)" if "i \<le> N" for i
    using that
  proof (induction i)
    case (Suc i)
    then show ?case
      using ct_horner.step [OF dbl, of 1 "const_addends False small_table ?d dl" i "Affine 2 3" "Affine 2 3"]
        ct_sum.Cons [OF pair add ct_sum.Nil] di [of i] by simp
  qed (rule ct_horner.zero)
  then have h: "ct_horner 1 (const_addends False small_table ?d dl) N (Affine 2 3) (Affine 2 3)" by simp
  have "ec_add (Affine 2 3) (ec_neg (Affine 2 3)) Infinity" unfolding ec_neg.simps by (rule ec_add.opposite) (simp add: units)
  then have "ct_sum 1 (Affine 2 3) [ec_neg (Affine 2 3)] Infinity" by (intro ct_sum.Cons [OF _ _ ct_sum.Nil]) simp_all
  then show ?thesis
    unfolding const_path_def using h d0 by (auto simp: const_corrections_def intro: ct_sum.Nil)
qed

text \<open>Odd digits with sum one are determined.\<close>

lemma odd_digits_one:
  assumes "digit_sum 4 ds = 1" "length ds = Suc N" "\<forall>d\<in>set ds. odd d \<and> \<bar>d\<bar> < 16"
  shows "ds = replicate N (- 15) @ [1]"
  using assms
proof (induction N arbitrary: ds)
  case 0
  then show ?case by (cases ds) auto
next
  case (Suc N)
  then obtain d es where ds: "ds = d # es" "length es = Suc N" by (cases ds) auto
  have s: "d + 16 * digit_sum 4 es = 1" "odd d" "\<bar>d\<bar> < 16" using Suc.prems by (simp_all add: ds)
  have "odd (digit_sum 4 es)" 
    using ds(2) Suc.prems(3) by (cases es) (auto simp: ds)
  then have "d = - 15 \<and> digit_sum 4 es = 1" using s by presburger
  then show ?case using Suc.IH [of es] Suc.prems(3) ds by simp
qed

lemma small_multiple:
  assumes "(a - b) mod order_n = 0" "\<bar>a\<bar> < order_n div 2" "\<bar>b\<bar> < order_n div 2"
  shows "a = b"
proof -
  have "order_n dvd a - b" using assms(1) by (simp add: dvd_eq_mod_eq_0)
  moreover have "\<bar>a - b\<bar> < order_n" using assms(2,3) by (simp add: order_n_def)
  ultimately show ?thesis using zdvd_not_zless [of "\<bar>a - b\<bar>" order_n] by (cases "a = b") auto
qed

lemma odd_digits_bound:
  assumes "\<forall>d\<in>set ds. odd d \<and> \<bar>d\<bar> < 16"
  shows "\<bar>digit_sum 4 ds\<bar> < 16 ^ length ds" "ds \<noteq> [] \<Longrightarrow> odd (digit_sum 4 ds)"
proof -
  show "\<bar>digit_sum 4 ds\<bar> < 16 ^ length ds" using assms
  proof (induction ds)
    case (Cons d ds)
    then have "\<bar>digit_sum 4 ds\<bar> + 1 \<le> 16 ^ length ds" "\<bar>d\<bar> < 16" by auto
    then show ?case by simp
  qed simp
  show "ds \<noteq> [] \<Longrightarrow> odd (digit_sum 4 ds)" using assms by (cases ds) auto
qed

text \<open>The same points with the \<open>y\<close> coordinate \<open>1 / 2\<close>, by a change of coordinates.\<close>

definition small_scale :: fp where
  "small_scale = of_int 0x3d53d3594e6890b25f4082318064a5a09a3ae959e04949d038335cd516fa6162"

lemma fp_quotient_eqI: "a = b + q * field_p \<Longrightarrow> (of_int a :: fp) = of_int b"
  unfolding fp_eq_iff by simp

lemma small_scale: "6 * small_scale ^ 3 = 1" "small_scale dvd 1" "2 * small_scale ^ 2 = of_int 0x4ab4b35aeabb18bf98c6d83f99965e1db2a632a32de40319c49166ba71c557b8" "3 * small_scale ^ 3 = of_int 0x7fffffffffffffffffffffffffffffffffffffffffffffffffffffff7ffffe18"
proof -
  have e: "(of_int (0x3d53d3594e6890b25f4082318064a5a09a3ae959e04949d038335cd516fa6162 ^ 2) :: fp) = small_scale ^ 2" "(of_int 0x3d53d3594e6890b25f4082318064a5a09a3ae959e04949d038335cd516fa6162 :: fp) = small_scale"
    unfolding small_scale_def of_int_power by (rule refl)+
  have "(of_int (2 * 0x3d53d3594e6890b25f4082318064a5a09a3ae959e04949d038335cd516fa6162 ^ 2) :: fp) = of_int 0x4ab4b35aeabb18bf98c6d83f99965e1db2a632a32de40319c49166ba71c557b8" by (rule fp_quotient_eqI [where q = "0x1d621c5693860655a09a139a530666e87972a45d9ba0621734f84986d97fd5b0"]) (simp add: field_p_def)
  then show 2: "2 * small_scale ^ 2 = of_int 0x4ab4b35aeabb18bf98c6d83f99965e1db2a632a32de40319c49166ba71c557b8" unfolding of_int_mult e by (simp only: of_int_numeral)
  have "(of_int (3 * (0x4ab4b35aeabb18bf98c6d83f99965e1db2a632a32de40319c49166ba71c557b8 * 0x3d53d3594e6890b25f4082318064a5a09a3ae959e04949d038335cd516fa6162)) :: fp) = of_int 0x1" by (rule fp_quotient_eqI [where q = "0x35b08eff6fd1a3c0423e9829d2d99294ecedbcd923a6d79afb75c9f95a07c0e1"]) (simp add: field_p_def)
  then have "3 * (of_int 0x4ab4b35aeabb18bf98c6d83f99965e1db2a632a32de40319c49166ba71c557b8 * small_scale) = 1" unfolding of_int_mult e by (simp only: of_int_numeral of_int_1)
  then have "3 * (2 * small_scale ^ 2 * small_scale) = 1" unfolding 2 [symmetric] .
  then show u: "6 * small_scale ^ 3 = 1" by (simp add: power3_eq_cube power2_eq_square ac_simps)
  have "small_scale * (6 * small_scale ^ 2) = 1" using u by (simp add: power3_eq_cube power2_eq_square ac_simps)
  then show "small_scale dvd 1" by (metis dvdI)
  have "(of_int (2 * 0x7fffffffffffffffffffffffffffffffffffffffffffffffffffffff7ffffe18) :: fp) = of_int 0x1" by (rule fp_quotient_eqI [where q = "0x1"]) (simp add: field_p_def)
  then have h: "2 * of_int 0x7fffffffffffffffffffffffffffffffffffffffffffffffffffffff7ffffe18 = (1 :: fp)" unfolding of_int_mult by (simp only: of_int_numeral of_int_1)
  have "3 * small_scale ^ 3 = 2 * of_int 0x7fffffffffffffffffffffffffffffffffffffffffffffffffffffff7ffffe18 * (3 * small_scale ^ 3)" unfolding h by simp
  also have "\<dots> = of_int 0x7fffffffffffffffffffffffffffffffffffffffffffffffffffffff7ffffe18 * (6 * small_scale ^ 3)" by (simp only: ac_simps) simp
  also have "\<dots> = of_int 0x7fffffffffffffffffffffffffffffffffffffffffffffffffffffff7ffffe18" unfolding u by simp
  finally show "3 * small_scale ^ 3 = of_int 0x7fffffffffffffffffffffffffffffffffffffffffffffffffffffff7ffffe18" .
qed

lemma odd_multiples_scale:
  assumes "odd_multiples A n T" "k dvd 1"
  shows "odd_multiples (ec_scale k A) n (\<lambda>i. ec_scale k (T i))"
proof -
  obtain D where D: "D \<noteq> Infinity" "ec_add A A D" "\<forall>i. Suc i < n \<longrightarrow> ec_add (T i) D (T (Suc i))" using assms(1) by (auto simp: odd_multiples_def)
  then show ?thesis
    using assms(1) ec_add_scale [OF assms(2)] unfolding odd_multiples_def by (intro conjI exI [of _ "ec_scale k D"]) auto
qed

lemma const_path_scale:
  assumes "const_path b False A A2 T d1 dl N s1 sl R" "k dvd 1"
  shows "const_path (b * k ^ 6) False (ec_scale k A) (ec_scale k A2) (\<lambda>i. ec_scale k (T i)) d1 dl N s1 sl (ec_scale k R)"
proof -
  have t: "table_point (\<lambda>i. ec_scale k (T i)) d = ec_scale k (table_point T d)" for d by (simp add: table_point_def ec_scale_neg)
  then have a: "const_addends False (\<lambda>i. ec_scale k (T i)) d1 dl = (\<lambda>i. map (ec_scale k) (const_addends False T d1 dl i))"
    by (simp add: const_addends_def fun_eq_iff)
  have c: "const_corrections False (ec_scale k A) (ec_scale k A2) s1 sl = map (ec_scale k) (const_corrections False A A2 s1 sl)"
    by (simp add: const_corrections_def ec_scale_neg)
  obtain P S where p: "ct_sum b (hd (const_addends False T d1 dl N)) (tl (const_addends False T d1 dl N)) P"
      "ct_horner b (const_addends False T d1 dl) N P S" "ct_sum b S (const_corrections False A A2 s1 sl) R"
    using assms(1) by (auto simp: const_path_def)
  have "hd (map (ec_scale k) (const_addends False T d1 dl N)) = ec_scale k (hd (const_addends False T d1 dl N))" by (simp add: const_addends_def)
  then show ?thesis
    unfolding const_path_def a c map_tl [symmetric]
    by (intro exI [of _ "ec_scale k P"] exI [of _ "ec_scale k S"] conjI)
      (simp_all only: ct_sum_scale [OF p(1) assms(2)] ct_horner_scale [OF p(2) assms(2)] ct_sum_scale [OF p(3) assms(2)])
qed

definition small_const_mem :: "fe_10x26 const_mem" where
  "small_const_mem =
    \<lparr>cm_table = \<lparr>tm_d = \<lparr>jx = FE10 0 0 0 0 0 0 0 0 0 0, jy = FE10 0 0 0 0 0 0 0 0 0 0, jz = FE10 0 0 0 0 0 0 0 0 0 0, jinf = False\<rparr>,
      tm_prej = replicate 8 \<lparr>jx = FE10 0 0 0 0 0 0 0 0 0 0, jy = FE10 0 0 0 0 0 0 0 0 0 0, jz = FE10 0 0 0 0 0 0 0 0 0 0, jinf = False\<rparr>, tm_zr = replicate 8 (FE10 0 0 0 0 0 0 0 0 0 0)\<rparr>,
    cm_pre_a = replicate 8 \<lparr>gx = FE10 0 0 0 0 0 0 0 0 0 0, gy = FE10 0 0 0 0 0 0 0 0 0 0, ginf = False\<rparr>, cm_Z = FE10 0 0 0 0 0 0 0 0 0 0,
    cm_tmpa = \<lparr>gx = FE10 0 0 0 0 0 0 0 0 0 0, gy = FE10 0 0 0 0 0 0 0 0 0 0, ginf = False\<rparr>, cm_wnaf_1 = replicate 33 0, cm_wnaf_lam = replicate 33 0\<rparr>"

definition small_const_ge :: "fe_10x26 ge" where
  "small_const_ge =
    \<lparr>gx = fe_const field_ops_10x26 0x4ab4b35a 0xeabb18bf 0x98c6d83f 0x99965e1d 0xb2a632a3 0x2de40319 0xc49166ba 0x71c557b8,
    gy = fe_const field_ops_10x26 0x7fffffff 0xffffffff 0xffffffff 0xffffffff 0xffffffff 0xffffffff 0xffffffff 0x7ffffe18, ginf = False\<rparr>"

lemma small_const_mem_length:
  "length (tm_prej (cm_table small_const_mem)) = 8" "length (tm_zr (cm_table small_const_mem)) = 8" "length (cm_pre_a small_const_mem) = 8"
  "length (cm_wnaf_1 small_const_mem) = 33" "length (cm_wnaf_lam small_const_mem) = 33"
  by (simp_all add: small_const_mem_def)

lemma small_const_point:
  "ge_ok fe_mag_10x26 small_const_ge" "ge_rep fe_fp_10x26 small_const_ge (Affine (2 * small_scale ^ 2) (3 * small_scale ^ 3))"
  "(3 * small_scale ^ 3) ^ 2 = (2 * small_scale ^ 2) ^ 3 + 1 * small_scale ^ 6"
  "odd_multiples (Affine (2 * small_scale ^ 2) (3 * small_scale ^ 3)) 8 (\<lambda>i. ec_scale small_scale (small_table i))"
  "ec_add (Affine (2 * small_scale ^ 2) (3 * small_scale ^ 3)) (Affine (2 * small_scale ^ 2) (3 * small_scale ^ 3)) (ec_scale small_scale (Affine 0 1))"
  "ec_scale small_scale (Affine 0 1) \<noteq> Infinity" "(2 * (3 * small_scale ^ 3)) ^ nat (field_p - 1) = 1"
proof -
  have A: "ec_scale small_scale (Affine 2 3) = Affine (2 * small_scale ^ 2) (3 * small_scale ^ 3)" by simp
  have "limbs_val 32 [0x71c557b8, 0xc49166ba, 0x2de40319, 0xb2a632a3, 0x99965e1d, 0x98c6d83f, 0xeabb18bf, 0x4ab4b35a :: u32] < field_p" "limbs_val 32 [0x7ffffe18, 0xffffffff, 0xffffffff, 0xffffffff, 0xffffffff, 0xffffffff, 0xffffffff, 0x7fffffff :: u32] < field_p" by (simp_all add: limbs_val_Cons field_p_def)
  note c = f10.const [OF this(1)] f10.const [OF this(2)]
  have v: "fe_fp_10x26 (gx small_const_ge) = 2 * small_scale ^ 2" "fe_fp_10x26 (gy small_const_ge) = 3 * small_scale ^ 3"
    unfolding small_scale(3,4) small_const_ge_def using c by (simp_all add: limbs_val_Cons f10.fv_def flip: fv_fe_fp_10x26)
  have "fe_mag_10x26 8 (gx small_const_ge)" "fe_mag_10x26 8 (gy small_const_ge)" "\<not> ginf small_const_ge"
    unfolding small_const_ge_def using c f10.nrm_mag f10.mag_mono [of 1 _ 8] by simp_all
  then show "ge_ok fe_mag_10x26 small_const_ge" "ge_rep fe_fp_10x26 small_const_ge (Affine (2 * small_scale ^ 2) (3 * small_scale ^ 3))"
    using v by (simp_all add: ge_ok_def ge_rep_def)
  show "(3 * small_scale ^ 3) ^ 2 = (2 * small_scale ^ 2) ^ 3 + 1 * small_scale ^ 6"
    using on_curve_scale [of 1 "Affine 2 3" small_scale] by (simp add: mult.commute)
  show "odd_multiples (Affine (2 * small_scale ^ 2) (3 * small_scale ^ 3)) 8 (\<lambda>i. ec_scale small_scale (small_table i))"
    by (rule odd_multiples_scale [OF small_multiples small_scale(2), of 8, unfolded A])
  have "ec_add (Affine 2 3) (Affine 2 3) (Affine 0 1)" by (rule ec_add.tangent [of _ 2]) (simp_all add: units)
  then show "ec_add (Affine (2 * small_scale ^ 2) (3 * small_scale ^ 3)) (Affine (2 * small_scale ^ 2) (3 * small_scale ^ 3)) (ec_scale small_scale (Affine 0 1))"
    by (rule ec_add_scale [OF small_scale(2), of "Affine 2 3" "Affine 2 3", unfolded A])
  have "2 * (3 * small_scale ^ 3) = 1" using small_scale(1) by simp
  then show "(2 * (3 * small_scale ^ 3)) ^ nat (field_p - 1) = 1" by simp
qed simp

lemma small_const_zero:
  assumes "length d1 = 33" "\<forall>i\<le>16. digit_ok 8 (d1 ! i)" "s1 = 1 \<or> s1 = 2" "(digit_sum 4 (take (Suc 16) d1) - int s1) mod order_n = 0"
  shows "const_path (1 * small_scale ^ 6) False (Affine (2 * small_scale ^ 2) (3 * small_scale ^ 3)) (ec_scale small_scale (Affine 0 1))
    (\<lambda>i. ec_scale small_scale (small_table i)) d1 dl 16 s1 sl Infinity"
proof -
  have A: "ec_scale small_scale (Affine 2 3) = Affine (2 * small_scale ^ 2) (3 * small_scale ^ 3)" by simp
  have l: "length (take (Suc 16) d1) = Suc 16" using assms(1) by simp
  have o: "\<forall>d\<in>set (take (Suc 16) d1). odd d \<and> \<bar>d\<bar> < 16"
    using assms(1,2) by (auto simp: in_set_conv_nth digit_ok_def)
  have "d1 \<noteq> []" using assms(1) by auto
  then have "\<bar>digit_sum 4 (take (Suc 16) d1)\<bar> < 16 ^ Suc 16" "odd (digit_sum 4 (take (Suc 16) d1))" using odd_digits_bound [OF o] assms(1) by auto
  moreover have "digit_sum 4 (take (Suc 16) d1) = int s1"
    by (rule small_multiple [OF assms(4)]) (use assms(3) calculation(1) in \<open>auto simp: order_n_def\<close>)
  ultimately have "digit_sum 4 (take (Suc 16) d1) = 1 \<and> s1 = 1" using assms(3) by auto
  then have "take (Suc 16) d1 = replicate 16 (- 15) @ [1]" and s1: "s1 = 1" using odd_digits_one [OF _ l o] by blast+
  then have "d1 = replicate 16 (- 15) @ 1 # drop 17 d1" using append_take_drop_id [of 17 d1] by simp
  then obtain rest where d1: "d1 = replicate 16 (- 15) @ 1 # rest" by blast
  have p: "const_path 1 False (Affine 2 3) (Affine 0 1) small_table d1 dl 16 s1 sl Infinity"
    unfolding d1 s1 by (rule small_const_path)
  show ?thesis using const_path_scale [OF p small_scale(2), unfolded A] by simp
qed

lemma const_correct_10x26:
  assumes "scalar_ok_8x32 sc" "0 < sz" "endo = (128 < sz)" "endo \<or> scalar_val_8x32 sc < 2 ^ sz"
    and "ge_ok fe_mag_10x26 a" "ge_rep fe_fp_10x26 a (Affine x y)" "y ^ 2 = x ^ 3 + b" "odd_multiples (Affine x y) 8 T"
    and "ec_add (Affine x y) (Affine x y) A2" "A2 \<noteq> Infinity" "(2 * y) ^ nat (field_p - 1) = 1"
    and "length (tm_prej (cm_table mem)) = 8" "length (tm_zr (cm_table mem)) = 8" "length (cm_pre_a mem) = 8"
    and "length (cm_wnaf_1 mem) = 33" "length (cm_wnaf_lam mem) = 33"
    and "N = WNAF_SIZE (if endo then 128 else sz) (WINDOW_A - 1)"
  shows "\<exists>d1 s1 dl sl. length d1 = 33 \<and> (\<forall>i\<le>N. digit_ok 8 (d1 ! i)) \<and> (s1 = 1 \<or> s1 = 2) \<and>
    (endo \<longrightarrow> (\<forall>i\<le>N. digit_ok 8 (dl ! i)) \<and> (sl = 1 \<or> sl = 2)) \<and>
    (digit_sum 4 (take (Suc N) d1) - int s1 + (if endo then scalar_lambda * (digit_sum 4 (take (Suc N) dl) - int sl) else 0)) mod order_n = scalar_val_8x32 sc \<and>
    (\<not> endo \<longrightarrow> wnaf_const digit_ops_8x32 (cm_wnaf_1 mem) sc 4 sz False = Some (d1, s1)) \<and>
    (\<forall>R. const_path b endo (Affine x y) A2 T d1 dl N s1 sl R \<longrightarrow>
      (\<exists>r. ecmult_const field_ops_10x26 scalar_api_8x32 mem a sc sz = Some r \<and> gej_ok fe_mag_10x26 r \<and> gej_rep fe_fp_10x26 r R))"
proof -
  obtain q1 ql where q: "em_split_lambda (sa_ecmult scalar_api_8x32) sc = (q1, ql)" by fastforce
  have less: "scalar_val_8x32 sc < order_n" using assms(1) by (simp add: scalar_ok_8x32_def)
  have small: "\<not> endo \<Longrightarrow> scalar_val_8x32 sc < 2 ^ sz" using assms(4) by simp
  obtain d1 s1 dl sl where
    w: "(if endo then wnaf_const (sa_digits scalar_api_8x32) (cm_wnaf_1 mem) q1 (WINDOW_A - 1) 128 True
        else wnaf_const (sa_digits scalar_api_8x32) (cm_wnaf_1 mem) sc (WINDOW_A - 1) sz (sz = 256)) = Some (d1, s1)"
      "(if endo then wnaf_const (sa_digits scalar_api_8x32) (cm_wnaf_lam mem) ql (WINDOW_A - 1) 128 True else Some (cm_wnaf_lam mem, 0)) = Some (dl, sl)"
    and d: "\<forall>i\<le>N. digit_ok 8 (d1 ! i)" "endo \<Longrightarrow> \<forall>i\<le>N. digit_ok 8 (dl ! i)" "s1 = 1 \<or> s1 = 2" "endo \<Longrightarrow> sl = 1 \<or> sl = 2" "length d1 = 33"
    and v: "(digit_sum 4 (take (Suc N) d1) - int s1 + (if endo then scalar_lambda * (digit_sum 4 (take (Suc N) dl) - int sl) else 0)) mod order_n = scalar_val_8x32 sc"
    using b10.const_digits [OF less assms(2,3) small assms(17,15,16) q] by blast
  have r: "\<exists>r. ecmult_const field_ops_10x26 scalar_api_8x32 mem a sc sz = Some r \<and> gej_ok fe_mag_10x26 r \<and> gej_rep fe_fp_10x26 r R"
    if "const_path b endo (Affine x y) A2 T d1 dl N s1 sl R" for R
    using b10.const_rep [unfolded fv_fe_fp_10x26, OF assms(5-14,3,17) q w d(1-4) that] .
  have "\<not> endo \<longrightarrow> wnaf_const digit_ops_8x32 (cm_wnaf_1 mem) sc 4 sz False = Some (d1, s1)"
    using w(1) assms(3) by (auto simp: scalar_api_8x32_def ecmult_scalar_8x32_def WINDOW_A_def)
  then show ?thesis using d v r by blast
qed

subsection \<open>Properties\<close>

text \<open>C13: the constant time multiplication of a point on a curve \<open>y^2 = x^3 + b\<close> by a scalar of \<open>sz\<close> bits. The digits are odd and
  at fixed positions, and with the skew taken off they sum up to the scalar, through the endomorphism for more than 128
  bits. Whenever the path of doublings and additions over the odd multiples of the point, with the correction at its end, leads to
  \<open>R\<close>, the Jacobian result represents \<open>R\<close>. The doubled point of the correction is made affine, which needs Fermat's
  equation for \<open>2 y\<close>.\<close>

theorem ecmult_const_refines:
  assumes "scalar_ok_8x32 sc" "0 < sz" "endo = (128 < sz)" "endo \<or> scalar_val_8x32 sc < 2 ^ sz"
    and "ge_ok fe_mag_10x26 a" "ge_rep fe_fp_10x26 a (Affine x y)" "y ^ 2 = x ^ 3 + b" "odd_multiples (Affine x y) 8 T"
    and "ec_add (Affine x y) (Affine x y) A2" "A2 \<noteq> Infinity" "(2 * y) ^ nat (field_p - 1) = 1"
    and "length (tm_prej (cm_table mem)) = 8" "length (tm_zr (cm_table mem)) = 8" "length (cm_pre_a mem) = 8"
    and "length (cm_wnaf_1 mem) = 33" "length (cm_wnaf_lam mem) = 33"
    and "N = WNAF_SIZE (if endo then 128 else sz) (WINDOW_A - 1)"
  shows "\<exists>d1 s1 dl sl. length d1 = 33 \<and> (\<forall>i\<le>N. digit_ok 8 (d1 ! i)) \<and> (s1 = 1 \<or> s1 = 2) \<and>
    (endo \<longrightarrow> (\<forall>i\<le>N. digit_ok 8 (dl ! i)) \<and> (sl = 1 \<or> sl = 2)) \<and>
    (digit_sum 4 (take (Suc N) d1) - int s1 + (if endo then scalar_lambda * (digit_sum 4 (take (Suc N) dl) - int sl) else 0)) mod order_n = scalar_val_8x32 sc \<and>
    (\<not> endo \<longrightarrow> wnaf_const digit_ops_8x32 (cm_wnaf_1 mem) sc 4 sz False = Some (d1, s1)) \<and>
    (\<forall>R. const_path b endo (Affine x y) A2 T d1 dl N s1 sl R \<longrightarrow>
      (\<exists>r. ecmult_const field_ops_10x26 scalar_api_8x32 mem a sc sz = Some r \<and> gej_ok fe_mag_10x26 r \<and> gej_rep fe_fp_10x26 r R))"
  by (rule const_correct_10x26 [OF assms])

text \<open>The witness multiplies by zero with 64 bits: the digits are 1 and sixteen times -15.\<close>

theorem ecmult_const_refines_witness:
  "\<exists>r. ecmult_const field_ops_10x26 scalar_api_8x32 small_const_mem small_const_ge (Scalar8 0 0 0 0 0 0 0 0) 64 = Some r \<and> gej_rep fe_fp_10x26 r Infinity"
proof -
  let ?s = "Scalar8 0 0 0 0 0 0 0 0" and ?A = "Affine (2 * small_scale ^ 2) (3 * small_scale ^ 3)" and ?T = "\<lambda>i. ec_scale small_scale (small_table i)"
  have s: "scalar_ok_8x32 ?s" "scalar_val_8x32 ?s = 0" by (simp_all add: eval_8x32)
  have N: "(16 :: nat) = WNAF_SIZE (if False then 128 else 64) (WINDOW_A - 1)" by (simp add: WNAF_SIZE_def WINDOW_A_def)
  have z: "(0 :: nat) < 64" "False = ((128 :: nat) < 64)" "False \<or> scalar_val_8x32 ?s < 2 ^ 64" by (simp_all add: s(2))
  obtain d1 s1 dl sl where 1: "length d1 = 33" "\<forall>i\<le>16. digit_ok 8 (d1 ! i)" "s1 = 1 \<or> s1 = 2"
      "(digit_sum 4 (take (Suc 16) d1) - int s1 + (if False then scalar_lambda * (digit_sum 4 (take (Suc 16) dl) - int sl) else 0)) mod order_n = scalar_val_8x32 ?s"
    and r: "\<forall>R. const_path (1 * small_scale ^ 6) False ?A (ec_scale small_scale (Affine 0 1)) ?T d1 dl 16 s1 sl R \<longrightarrow>
      (\<exists>r. ecmult_const field_ops_10x26 scalar_api_8x32 small_const_mem small_const_ge ?s 64 = Some r \<and> gej_ok fe_mag_10x26 r \<and> gej_rep fe_fp_10x26 r R)"
    using ecmult_const_refines [OF s(1) z small_const_point small_const_mem_length N] by blast
  have "(digit_sum 4 (take (Suc 16) d1) - int s1) mod order_n = 0" using 1(4) by (simp only: if_False add_0_right s(2))
  from r small_const_zero [OF 1(1-3) this] show ?thesis by blast
qed

end
