(* ===== verification/Ecdsa.thy ===== *)
theory Ecdsa
  imports Ecmult_Gen
begin

text \<open>
  ECDSA, \<open>ecdsa_impl.h\<close>: verification and signing over the point multiplications. Verification compares \<open>x\<close> coordinates without a
  field inversion, in the two cases that are left modulo the group order; signing gives the low one of the two values of \<open>s\<close> and
  the recovery id that belongs to it. Clearing local variables has no effect that a caller can see and is left out.
\<close>

subsection \<open>Constants (ecdsa_impl.h 31--34 and 45--47)\<close>

definition ecdsa_const_order_as_fe :: "('fe, 'st) field_ops \<Rightarrow> 'fe" where
  "ecdsa_const_order_as_fe ops = fe_const ops 0xFFFFFFFF 0xFFFFFFFF 0xFFFFFFFF 0xFFFFFFFE 0xBAAEDCE6 0xAF48A03B 0xBFD25E8C 0xD0364141"

definition ecdsa_const_p_minus_order :: "('fe, 'st) field_ops \<Rightarrow> 'fe" where
  "ecdsa_const_p_minus_order ops = fe_const ops 0 0 0 1 0x45512319 0x50B75FC4 0x402DA172 0x2FC9BAEE"

subsection \<open>Verification (ecdsa_impl.h 203--271)\<close>

definition ecdsa_sig_verify :: "('fe, 'st) field_ops \<Rightarrow> 's scalar_api \<Rightarrow> 'fe ecmult_mem \<Rightarrow> 'fe gej \<Rightarrow> 'st ecmult_context \<Rightarrow> 's \<Rightarrow> 's \<Rightarrow> 'fe ge \<Rightarrow> 's \<Rightarrow> bool option" where
  "ecdsa_sig_verify ops api mem pr ctx sigr sigs pubkey message =
    (if sa_is_zero api sigr \<or> sa_is_zero api sigs then Some False
     else let sn = scalar_inverse_var (sa_arith api) sigs;
              u1 = sa_mul api sn message;
              u2 = sa_mul api sn sigr;
              pubkeyj = gej_set_ge ops pubkey
          in map_option (\<lambda>pr.
               if gej_is_infinity pr then False
               else let c = sa_get_b32 api sigr;
                        (ok, xr) = fe_set_b32 ops c
                    in if gej_eq_x_var ops xr pr then True
                       else if 0 \<le> fe_cmp_var ops xr (ecdsa_const_p_minus_order ops) then False
                       else let xr = fe_add ops xr (ecdsa_const_order_as_fe ops)
                            in if gej_eq_x_var ops xr pr then True else False)
             (ecmult_with ops api mem ctx pr pubkeyj u2 u1))"

subsection \<open>Signing (ecdsa_impl.h 273--313)\<close>

text \<open>The recovery id is optional; its old value is overwritten.\<close>

definition ecdsa_sig_sign :: "('fe, 'st) field_ops \<Rightarrow> 's scalar_api \<Rightarrow> 'st ge_storage \<Rightarrow> ('fe, 's, 'st) ecmult_gen_context \<Rightarrow> 's \<Rightarrow> 's \<Rightarrow> 's \<Rightarrow> int option \<Rightarrow>
    (bool \<times> 's \<times> 's \<times> int option) option" where
  "ecdsa_sig_sign ops api zeros ctx seckey message nonce recid =
    map_option (\<lambda>rp.
      let (r, rp) = ge_set_gej ops rp;
          r = r\<lparr>gx := fe_normalize ops (gx r)\<rparr>;
          r = r\<lparr>gy := fe_normalize ops (gy r)\<rparr>;
          b = fe_get_b32 ops (gx r);
          (overflow, sigr) = sa_set_b32 api b;
          recid = map_option (\<lambda>_. (if overflow \<noteq> 0 then 2 else 0) OR (if fe_is_odd ops (gy r) then 1 else 0)) recid;
          n = sa_mul api sigr seckey;
          n = sa_add api n message;
          sigs = scalar_inverse (sa_arith api) nonce;
          sigs = sa_mul api sigs n
      in if sa_is_zero api sigs then (False, sigr, sigs, recid)
         else if sa_is_high api sigs then (True, sigr, sa_negate api sigs, map_option (\<lambda>i. i XOR 1) recid)
         else (True, sigr, sigs, recid))
    (ecmult_gen ops api zeros ctx nonce)"

subsection \<open>Correctness\<close>

context secp_code
begin

lemma order_constants:
  "nrm (ecdsa_const_order_as_fe fops)" "val (ecdsa_const_order_as_fe fops) = order_n"
  "nrm (ecdsa_const_p_minus_order fops)" "val (ecdsa_const_p_minus_order fops) = field_p - order_n"
proof -
  have "limbs_val 32 [0xD0364141, 0xBFD25E8C, 0xAF48A03B, 0xBAAEDCE6, 0xFFFFFFFE, 0xFFFFFFFF, 0xFFFFFFFF, 0xFFFFFFFF :: u32] = order_n"
    "limbs_val 32 [0x2FC9BAEE, 0x402DA172, 0x50B75FC4, 0x45512319, 1, 0, 0, 0 :: u32] = field_p - order_n"
    by (simp_all add: limbs_val_Cons order_n_def field_p_def)
  moreover have "order_n < field_p" "field_p - order_n < field_p" by (simp_all add: order_n_def field_p_def)
  ultimately show "nrm (ecdsa_const_order_as_fe fops)" "val (ecdsa_const_order_as_fe fops) = order_n"
    "nrm (ecdsa_const_p_minus_order fops)" "val (ecdsa_const_p_minus_order fops) = field_p - order_n"
    using const unfolding ecdsa_const_order_as_fe_def ecdsa_const_p_minus_order_def by metis+
qed

text \<open>The comparison of the \<open>x\<close> coordinate modulo the group order.\<close>

lemma Rep_fp_eqI: "fv a = x \<longleftrightarrow> val a = Rep_fp x" if "0 \<le> val a" "val a < field_p"
  using that by (simp add: fv_of_rep)

lemma compare_x:
  assumes "gej_ok mag pr" "gej_rep fv pr (Affine x y)" "sval r < order_n" "xr = snd (fe_set_b32 fops (sa_get_b32 api r))"
  shows "(gej_eq_x_var fops xr pr \<or> \<not> 0 \<le> fe_cmp_var fops xr (ecdsa_const_p_minus_order fops) \<and>
    gej_eq_x_var fops (fe_add fops xr (ecdsa_const_order_as_fe fops)) pr) \<longleftrightarrow> Rep_fp x mod order_n = sval r"
proof -
  have b: "be_val (sa_get_b32 api r) = sval r" "length (sa_get_b32 api r) = 32" using sa_get_b32_val by blast+
  have lt: "order_n < field_p" "field_p < 2 * order_n" by (simp_all add: order_n_def field_p_def)
  have xr: "val xr = sval r" "nrm xr"
    using set_b32_val [OF b(2)] set_b32_nrm [OF b(2)] assms(3) lt by (simp_all add: assms(4) b)
  have r: "0 \<le> sval r" by (rule dg.sval_range)
  have m: "mag 1 xr" "mag 8 xr" "mag 1 (ecdsa_const_order_as_fe fops)"
    using nrm_mag order_constants xr(2) mag_mono [of 1 xr 8] by simp_all
  have e1: "gej_eq_x_var fops xr pr \<longleftrightarrow> sval r = Rep_fp x"
    using eq_x_iff [OF assms(1) m(2) assms(2)] Rep_fp_eqI [of xr x] xr(1) r assms(3) lt by simp
  have c: "0 \<le> fe_cmp_var fops xr (ecdsa_const_p_minus_order fops) \<longleftrightarrow> field_p \<le> sval r + order_n"
    using cmp_var [OF xr(2) order_constants(3)] by (auto simp: xr(1) order_constants(4) sgn_if)
  let ?a = "fe_add fops xr (ecdsa_const_order_as_fe fops)"
  have a: "mag 2 ?a" "val ?a mod field_p = (sval r + order_n) mod field_p"
    using add [OF m(1,3)] unfolding xr(1) order_constants(2) one_add_one by simp_all
  have e2: "gej_eq_x_var fops ?a pr \<longleftrightarrow> sval r + order_n = Rep_fp x" if "sval r + order_n < field_p"
    using eq_x_iff [OF assms(1) mag_mono [OF a(1)] assms(2)] that r a(2) by (simp add: fv_of_rep order_n_def)
  have x: "0 \<le> Rep_fp x" "Rep_fp x < field_p" using Rep_fp_range by simp_all
  show ?thesis
  proof (cases "Rep_fp x < order_n")
    case True
    then show ?thesis using e1 e2 c x r by auto
  next
    case False
    then have "Rep_fp x mod order_n = Rep_fp x - order_n" using x lt minus_mod_self2 [of "Rep_fp x" order_n] mod_pos_pos_trivial [of "Rep_fp x - order_n" order_n] by simp
    then show ?thesis using False e1 e2 c x r assms(3) by auto
  qed
qed

lemma verify_correct:
  assumes "ecmult_ready fops fv mag mem ctx G H" "ge_ok mag pubkey" "ge_rep fv pubkey A" "odd_multiples A 8 T"
    and "sval sigr < order_n" "sval sigs < order_n" "sval u1 < order_n" "sval u2 < order_n"
    and "sval sigs ^ nat (order_n - 1) mod order_n = 1"
    and "sval u1 * sval sigs mod order_n = sval message mod order_n" "sval u2 * sval sigs mod order_n = sval sigr mod order_n"
    and "ecmult_points (sa_ecmult api) T G H u2 u1 R"
  shows "ecdsa_sig_verify fops api mem pr ctx sigr sigs pubkey message =
    Some (sval sigr \<noteq> 0 \<and> (case R of Infinity \<Rightarrow> False | Affine x y \<Rightarrow> Rep_fp x mod order_n = sval sigr))"
proof -
  let ?sn = "scalar_inverse_var (sa_arith api) sigs"
  have s: "sval sigs \<noteq> 0" using assms(9) by (auto simp: order_n_def)
  have inv: "sval ?sn * sval sigs mod order_n = 1" using sa_inverse [OF assms(9)] by (simp add: scalar_inverse_var_def)
  have u: "sa_mul api ?sn m = u" if "sval u < order_n" "sval u * sval sigs mod order_n = sval m mod order_n" for u m
  proof -
    have "sval ?sn * sval m mod order_n = sval ?sn * (sval u * sval sigs) mod order_n" using that(2) by (metis mod_mult_right_eq)
    also have "\<dots> = sval u * (sval ?sn * sval sigs) mod order_n" by (simp only: mult.left_commute)
    also have "\<dots> = sval u" using inv that(1) dg.sval_range(1) [of u] by (metis mod_mult_right_eq mod_pos_pos_trivial mult.right_neutral)
    finally show ?thesis by (intro sa_inject) (simp only: ar.mul_val)
  qed
  note a = gej_set_ge_rep [OF assms(2,3)]
  obtain j where j: "ecmult_with fops api mem ctx pr (gej_set_ge fops pubkey) u2 u1 = Some j" "gej_ok mag j" "gej_rep fv j R"
    using ecmult_points_rep [OF assms(1,8) _ _ assms(4,12), of "gej_set_ge fops pubkey" pr] a by blast
  have R: "gej_is_infinity j \<longleftrightarrow> R = Infinity" using j(3) by (cases R) (auto simp: gej_rep_def gej_is_infinity_def)
  show ?thesis
  proof (cases R)
    case Infinity
    then show ?thesis using s R j(1) by (simp add: ecdsa_sig_verify_def u [OF assms(7,10)] u [OF assms(8,11)] sa_is_zero_iff)
  next
    case (Affine x y)
    then show ?thesis
      using s R j(1) compare_x [OF j(2) j(3) [unfolded Affine] assms(5) refl]
      by (auto simp: ecdsa_sig_verify_def Let_def case_prod_beta u [OF assms(7,10)] u [OF assms(8,11)] sa_is_zero_iff)
  qed
qed

lemma sign_correct:
  assumes "sval seckey < order_n" "sval message < order_n" "sval nonce ^ nat (order_n - 1) mod order_n = 1"
    and "ecmult_gen fops api zeros ctx nonce = Some j" "gej_ok mag j" "gej_rep fv j (Affine x y)" "fv (jz j) ^ nat (field_p - 1) = 1"
    and "e = (sval message + Rep_fp x * sval seckey) mod order_n"
    and "id0 = (if order_n \<le> Rep_fp x then 2 else 0) + of_bool (odd (Rep_fp y))"
  obtains sigr sigs recid' where "ecdsa_sig_sign fops api zeros ctx seckey message nonce (Some recid) = Some (sval sigs \<noteq> 0, sigr, sigs, Some recid')"
    and "sval sigr = Rep_fp x mod order_n" "2 * sval sigs < order_n"
    and "recid' = id0 \<and> sval sigs * sval nonce mod order_n = e \<or> recid' = id0 XOR 1 \<and> sval sigs * sval nonce mod order_n = - e mod order_n"
proof -
  let ?r = "fst (ge_set_gej fops j)"
  have z: "ge_rep fv ?r (Affine x y)" using set_gej_rep [OF assms(5,6)] assms(7) by blast
  then have v: "fv (gx ?r) = x" "fv (gy ?r) = y" by (simp_all add: ge_rep_def)
  have m: "mag 8 (gx ?r)" "mag 8 (gy ?r)" using set_gej_ok [OF assms(5)] by (simp_all add: ge_ok_def)
  note nx = normalized(1,2) [OF m(1), unfolded v] and ny = normalized(1,2) [OF m(2), unfolded v]
  define b where "b = fe_get_b32 fops (fe_normalize fops (gx ?r))"
  have b: "be_val b = Rep_fp x" "length b = 32" using get_b32 [OF nx(1)] nx(2) by (simp_all add: b_def)
  define sigr where "sigr = snd (sa_set_b32 api b)"
  have r: "sval sigr = Rep_fp x mod order_n" using sa_set_b32_val [OF b(2)] by (simp add: sigr_def b)
  have rl: "sval sigr < order_n" unfolding r by (simp add: order_n_def)
  have o: "fst (sa_set_b32 api b) = of_bool (order_n \<le> Rep_fp x)" using sa_set_b32_flag [OF b(2)] by (simp add: b)
  define inv where "inv = scalar_inverse (sa_arith api) nonce"
  have i: "sval inv * sval nonce mod order_n = 1" using sa_inverse [OF assms(3)] by (simp add: inv_def)
  define s where "s = sa_mul api inv (sa_add api (sa_mul api sigr seckey) message)"
  have "sval (sa_add api (sa_mul api sigr seckey) message) = (Rep_fp x mod order_n * sval seckey mod order_n + sval message) mod order_n"
    unfolding ar.add_val [OF sa_mul_less assms(2)] ar.mul_val r ..
  also have "\<dots> = e" unfolding assms(8) by (simp add: mod_simps add.commute)
  finally have n: "sval (sa_add api (sa_mul api sigr seckey) message) = e" .
  have e: "0 \<le> e" "e < order_n" unfolding assms(8) by (simp_all add: order_n_def)
  have "sval s * sval nonce mod order_n = sval inv * e mod order_n * sval nonce mod order_n" by (simp only: s_def ar.mul_val n)
  also have "\<dots> = e * (sval inv * sval nonce) mod order_n" by (subst mod_mult_left_eq) (simp only: ac_simps)
  also have "\<dots> = e * (sval inv * sval nonce mod order_n) mod order_n" by (simp only: mod_mult_right_eq)
  finally have sk: "sval s * sval nonce mod order_n = e" using e by (simp add: i)
  have sl: "sval s < order_n" "0 \<le> sval s" using sa_mul_less dg.sval_range(1) by (simp_all add: s_def)
  have od: "fe_is_odd fops (fe_normalize fops (gy ?r)) \<longleftrightarrow> odd (Rep_fp y)" using is_odd [OF ny(1)] ny(2) by simp
  have id: "(if fst (sa_set_b32 api b) \<noteq> 0 then 2 else 0) OR (if fe_is_odd fops (fe_normalize fops (gy ?r)) then 1 else 0) = id0"
    unfolding o od assms(9) by simp
  have eq: "ecdsa_sig_sign fops api zeros ctx seckey message nonce (Some recid) =
      (if sa_is_zero api s then Some (False, sigr, s, Some id0)
       else if sa_is_high api s then Some (True, sigr, sa_negate api s, Some (id0 XOR 1)) else Some (True, sigr, s, Some id0))"
    using assms(4) id by (simp add: ecdsa_sig_sign_def Let_def case_prod_beta flip: b_def sigr_def inv_def s_def)
  show thesis
  proof (cases "sa_is_high api s")
    case True
    then have h: "order_n < 2 * sval s" by (simp add: sa_is_high_iff)
    have ns: "sval (sa_negate api s) = order_n - sval s" using dg.negate_val [OF sl(1)] sl h by (simp add: zmod_zminus1_eq_if order_n_def)
    have "(order_n - sval s) * sval nonce mod order_n = - (sval s * sval nonce) mod order_n"
      by (simp add: left_diff_distrib mod_diff_left_eq [symmetric])
    also have "\<dots> = - e mod order_n" using sk by (metis mod_minus_eq)
    finally show thesis
      using that [of "sa_negate api s" sigr "id0 XOR 1"] eq True h sl r by (simp add: ns sa_is_zero_iff order_n_def)
  next
    case False
    moreover have "2 * sval s \<noteq> order_n"
    proof
      assume "2 * sval s = order_n"
      then have "even order_n" by (metis dvd_triv_left)
      then show False by (simp add: order_n_def)
    qed
    ultimately have "2 * sval s < order_n" by (simp add: sa_is_high_iff)
    then show thesis using that [of s sigr id0] eq False r sk by (auto simp: sa_is_zero_iff)
  qed
qed

end

subsection \<open>Properties\<close>

text \<open>C1: the verification equation on the representations of the program. Let \<open>u1\<close> and \<open>u2\<close> be the message and \<open>r\<close>
  divided by \<open>s\<close> modulo the group order, and \<open>R\<close> the point that double-and-add gives for \<open>u2 * A + u1 * G\<close>. The signature is accepted
  exactly when \<open>r\<close> is not zero, \<open>R\<close> is finite and its \<open>x\<close> coordinate is \<open>r\<close> modulo the group order; a zero \<open>s\<close> is rejected.
  The equation for the power of \<open>s\<close> is Fermat's theorem for the prime group order.\<close>

theorem ecdsa_verify_correct:
  assumes "ecmult_ready field_ops_10x26 fe_fp_10x26 fe_mag_10x26 mem ctx G H" "ge_ok fe_mag_10x26 pubkey" "ge_rep fe_fp_10x26 pubkey A"
    and "odd_multiples A 8 T" "scalar_ok_8x32 sigr" "scalar_ok_8x32 sigs" "scalar_ok_8x32 u1" "scalar_ok_8x32 u2"
    and "scalar_val_8x32 sigs ^ nat (order_n - 1) mod order_n = 1"
    and "scalar_val_8x32 u1 * scalar_val_8x32 sigs mod order_n = scalar_val_8x32 message mod order_n"
    and "scalar_val_8x32 u2 * scalar_val_8x32 sigs mod order_n = scalar_val_8x32 sigr mod order_n"
    and "ecmult_points ecmult_scalar_8x32 T G H u2 u1 R"
  shows "ecdsa_sig_verify field_ops_10x26 scalar_api_8x32 mem pr ctx sigr sigs pubkey message =
      Some (scalar_val_8x32 sigr \<noteq> 0 \<and> (case R of Infinity \<Rightarrow> False | Affine x y \<Rightarrow> Rep_fp x mod order_n = scalar_val_8x32 sigr)) \<and>
    ecdsa_sig_verify field_ops_10x26 scalar_api_8x32 mem pr ctx sigr (scalar_clear_8x32 sigs) pubkey message = Some False"
proof -
  have "sa_is_zero scalar_api_8x32 (scalar_clear_8x32 sigs)"
    using b10.sa_clear_val [of sigs] b10.sa_is_zero_iff [of "scalar_clear_8x32 sigs"] by (simp add: scalar_api_8x32_def)
  then have "ecdsa_sig_verify field_ops_10x26 scalar_api_8x32 mem pr ctx sigr (scalar_clear_8x32 sigs) pubkey message = Some False"
    by (simp add: ecdsa_sig_verify_def)
  then show ?thesis
    using b10.verify_correct [of mem ctx G H pubkey A T sigr sigs u1 u2 message R pr, unfolded fv_fe_fp_10x26] assms
    by (simp add: scalar_ok_8x32_def scalar_api_8x32_def)
qed

theorem ecdsa_verify_correct_witness:
  "ecdsa_sig_verify field_ops_10x26 scalar_api_8x32
      \<lparr>em_table = \<lparr>tm_d = \<lparr>jx = FE10 0 0 0 0 0 0 0 0 0 0, jy = FE10 0 0 0 0 0 0 0 0 0 0, jz = FE10 0 0 0 0 0 0 0 0 0 0, jinf = False\<rparr>,
          tm_prej = replicate 8 \<lparr>jx = FE10 0 0 0 0 0 0 0 0 0 0, jy = FE10 0 0 0 0 0 0 0 0 0 0, jz = FE10 0 0 0 0 0 0 0 0 0 0, jinf = False\<rparr>,
          tm_zr = replicate 8 (FE10 0 0 0 0 0 0 0 0 0 0)\<rparr>,
        em_pre = replicate 8 \<lparr>gx = FE10 0 0 0 0 0 0 0 0 0 0, gy = FE10 0 0 0 0 0 0 0 0 0 0, ginf = False\<rparr>, em_Z = FE10 0 0 0 0 0 0 0 0 0 0\<rparr>
      \<lparr>jx = FE10 0 0 0 0 0 0 0 0 0 0, jy = FE10 0 0 0 0 0 0 0 0 0 0, jz = FE10 0 0 0 0 0 0 0 0 0 0, jinf = False\<rparr>
      \<lparr>ec_pre_g = Some (small_pre_g field_ops_10x26 8192), ec_pre_g_128 = Some (small_pre_g field_ops_10x26 8192)\<rparr>
      (Scalar8 2 0 0 0 0 0 0 0) (Scalar8 1 0 0 0 0 0 0 0) \<lparr>gx = FE10 2 0 0 0 0 0 0 0 0 0, gy = FE10 3 0 0 0 0 0 0 0 0 0, ginf = False\<rparr>
      (Scalar8 5 0 0 0 0 0 0 0) = Some True"
    (is "ecdsa_sig_verify _ _ ?mem ?pr ?ctx ?r ?s ?pub ?m = _")
proof -
  have mem: "ecmult_ready field_ops_10x26 fe_fp_10x26 fe_mag_10x26 ?mem ?ctx small_table small_table"
    using e10.small_pre_g_table [of 8192, unfolded fv_fe_fp_10x26] by (simp add: ecmult_ready_def)
  have a: "ge_ok fe_mag_10x26 ?pub" "ge_rep fe_fp_10x26 ?pub (Affine 2 3)"
    by (simp_all add: ge_ok_def ge_rep_def fe_mag_10x26_def limbs_le_10x26_def fe_fp_FE10 limbs_val_Cons)
  have s: "scalar_ok_8x32 ?r" "scalar_ok_8x32 ?s" "scalar_ok_8x32 ?m" by (simp_all add: eval_8x32)
  have v: "scalar_val_8x32 ?s ^ nat (order_n - 1) mod order_n = 1"
    "scalar_val_8x32 ?m * scalar_val_8x32 ?s mod order_n = scalar_val_8x32 ?m mod order_n"
    "scalar_val_8x32 ?r * scalar_val_8x32 ?s mod order_n = scalar_val_8x32 ?r mod order_n" by (simp_all add: eval_8x32)
  have p: "ecmult_points ecmult_scalar_8x32 small_table small_table small_table ?r ?m (Affine 2 3)"
    using b10.points_seven [of ?r ?m small_table] by (simp add: scalar_api_8x32_def eval_8x32)
  have two: "Rep_fp 2 = 2" using fp_of_int [of 2] by (simp add: field_p_def)
  show ?thesis
    using ecdsa_verify_correct [OF mem a small_multiples s(1,2,3,1) v p, of ?pr] by (simp add: two eval_8x32)
qed

text \<open>C3: the signing equation. When the additions for the nonce lead to the curve point \<open>(x, y)\<close>, the code reaches a
  Jacobian form of it, and from there (with Fermat's equation for its denominator) \<open>r\<close> is \<open>x\<close> modulo the group order, \<open>s\<close> is in the low
  half, \<open>s * nonce\<close> is \<open>message + r * key\<close> up to the sign, and the recovery id has the overflow of \<open>x\<close> and the parity of \<open>y\<close>, flipped
  exactly when the sign is. Signing fails exactly when \<open>s\<close> is zero.\<close>

theorem ecdsa_sign_correct:
  assumes "scalar_ok_8x32 seckey" "scalar_ok_8x32 message" "scalar_ok_8x32 nonce" "scalar_val_8x32 nonce ^ nat (order_n - 1) mod order_n = 1"
    and "scalar_ok_8x32 (gen_blind ctx)" "gen_prec ctx = Some prec" "gen_table_rep field_ops_10x26 fe_fp_10x26 fe_mag_10x26 prec T"
    and "gej_ok fe_mag_10x26 (gen_initial ctx)" "gej_rep fe_fp_10x26 (gen_initial ctx) P" "on_curve P"
    and "v = (scalar_val_8x32 nonce + scalar_val_8x32 (gen_blind ctx)) mod order_n"
    and "ct_sum 7 P (map (\<lambda>j. T j (hex_digit v j)) [0..<64]) (Affine x y)"
    and "e = (scalar_val_8x32 message + Rep_fp x * scalar_val_8x32 seckey) mod order_n"
    and "id0 = (if order_n \<le> Rep_fp x then 2 else 0) + of_bool (odd (Rep_fp y))"
  shows "\<exists>j. ecmult_gen field_ops_10x26 scalar_api_8x32 zeros ctx nonce = Some j \<and> gej_rep fe_fp_10x26 j (Affine x y) \<and>
    (fe_fp_10x26 (jz j) ^ nat (field_p - 1) = 1 \<longrightarrow>
      (\<exists>sigr sigs recid'. ecdsa_sig_sign field_ops_10x26 scalar_api_8x32 zeros ctx seckey message nonce (Some recid) =
          Some (scalar_val_8x32 sigs \<noteq> 0, sigr, sigs, Some recid') \<and>
        scalar_val_8x32 sigr = Rep_fp x mod order_n \<and> 2 * scalar_val_8x32 sigs < order_n \<and>
        (recid' = id0 \<and> scalar_val_8x32 sigs * scalar_val_8x32 nonce mod order_n = e \<or>
         recid' = id0 XOR 1 \<and> scalar_val_8x32 sigs * scalar_val_8x32 nonce mod order_n = - e mod order_n)))"
proof -
  obtain j where j: "ecmult_gen field_ops_10x26 scalar_api_8x32 zeros ctx nonce = Some j" "gej_ok fe_mag_10x26 j" "gej_rep fe_fp_10x26 j (Affine x y)"
    using b10.gen_rep [of nonce ctx prec T P v "Affine x y" zeros, unfolded fv_fe_fp_10x26] assms(3,5-12) unfolding scalar_ok_8x32_def by blast
  note sk = assms(1,2) [unfolded scalar_ok_8x32_def]
  show ?thesis
    using b10.sign_correct [of seckey message nonce zeros ctx j x y e id0, unfolded fv_fe_fp_10x26, OF sk assms(4) j _ assms(13,14)] j
    by metis
qed

text \<open>The witness leads to \<open>2 G\<close>.\<close>

lemma ecdsa_sign_correct_witness:
  "\<exists>j x y. ecmult_gen field_ops_10x26 scalar_api_8x32 (ge_to_storage field_ops_10x26 (ge_const_g field_ops_10x26))
      \<lparr>gen_prec = Some (map (\<lambda>j. replicate 16 (ge_to_storage field_ops_10x26 (if even j \<or> j = 63 then ge_const_g field_ops_10x26
          else ge_neg field_ops_10x26 (ge_const_g field_ops_10x26)))) [0..<64]),
        gen_blind = Scalar8 1 0 0 0 0 0 0 0,
        gen_initial = \<lparr>jx = FE10 0 0 0 0 0 0 0 0 0 0, jy = FE10 0 0 0 0 0 0 0 0 0 0, jz = FE10 0 0 0 0 0 0 0 0 0 0, jinf = True\<rparr>\<rparr>
      (Scalar8 1 0 0 0 0 0 0 0) = Some j \<and> gej_rep fe_fp_10x26 j (Affine x y)"
    (is "\<exists>j x y. ecmult_gen _ _ ?z ?ctx ?k = Some j \<and> _")
proof -
  let ?g = "ge_const_g field_ops_10x26" and ?G = "Affine (fe_fp_10x26 (gx (ge_const_g field_ops_10x26))) (fe_fp_10x26 (gy (ge_const_g field_ops_10x26)))"
  let ?T = "\<lambda>j i. if even j \<or> j = 63 then ?G else ec_neg ?G"
  note g = e10.generator_double [OF refl, unfolded fv_fe_fp_10x26]
  obtain x3 y3 where R: "ec_add ?G ?G (Affine x3 y3)" using g(1) by blast
  have s: "scalar_ok_8x32 ?k" "scalar_ok_8x32 (gen_blind ?ctx)" "scalar_val_8x32 ?k ^ nat (order_n - 1) mod order_n = 1" by (simp_all add: eval_8x32)
  have i: "gej_ok fe_mag_10x26 (gen_initial ?ctx)" "gej_rep fe_fp_10x26 (gen_initial ?ctx) Infinity" "on_curve Infinity"
    by (simp_all add: gej_ok_def gej_rep_def fe_mag_10x26_def limbs_le_10x26_def)
  have t: "gen_table_rep field_ops_10x26 fe_fp_10x26 fe_mag_10x26 (map (\<lambda>j. replicate 16 (ge_to_storage field_ops_10x26 (if even j \<or> j = 63 then ?g
      else ge_neg field_ops_10x26 ?g))) [0..<64]) ?T"
    using b10.stored_generator [unfolded fv_fe_fp_10x26] by (simp add: gen_table_rep_def list_all_iff)
  have a: "ct_sum 7 Infinity (map (\<lambda>j. ?T j (h j)) [0..<64]) (Affine x3 y3)" for h :: "nat \<Rightarrow> nat"
  proof -
    have "map (\<lambda>j. ?T j (h j)) [0..<64] = map (\<lambda>j. if even j then ?G else ec_neg ?G) [0..<2 * 31] @ [?G, ?G]"
      by (simp add: upt_rec)
    moreover have "ct_sum 7 Infinity [?G, ?G] (Affine x3 y3)"
      by (rule ct_sum.Cons [OF _ ec_add.left ct_sum.Cons [OF _ R ct_sum.Nil]]) (use g(6,7) in auto)
    ultimately show ?thesis using ct_sum_append [OF b10.alternating_sum [of 31, unfolded fv_fe_fp_10x26]] by simp
  qed
  from ecdsa_sign_correct [OF s(1,1,1,3,2) _ t i refl a refl refl, where recid = 0 and zeros = ?z]
  show ?thesis by fastforce
qed

end
