(* ===== verification/Eckey.thy ===== *)
theory Eckey
  imports Scalar_Api
begin

text \<open>
  Keys, \<open>eckey_impl.h\<close>: reading and writing of public keys in the compressed, the uncompressed and the hybrid form, and the
  tweaks of private and public keys by addition and multiplication.
\<close>

subsection \<open>Parsing and serialization (eckey_impl.h 17--52)\<close>

text \<open>\<open>pub\<close> is the input with its length \<open>size\<close>. The key is returned with the state the code leaves it in when it fails.\<close>

definition eckey_pubkey_parse :: "('fe, 'st) field_ops \<Rightarrow> 'fe ge \<Rightarrow> u8 list \<Rightarrow> bool \<times> 'fe ge" where
  "eckey_pubkey_parse ops elem pub =
    (if length pub = 33 \<and> (pub ! 0 = 0x02 \<or> pub ! 0 = 0x03)
     then let (ok, x) = fe_set_b32 ops (take 32 (drop 1 pub))
          in if ok then ge_set_xo_var ops x (of_bool (pub ! 0 = 0x03)) else (False, elem)
     else if length pub = 65 \<and> (pub ! 0 = 0x04 \<or> pub ! 0 = 0x06 \<or> pub ! 0 = 0x07)
     then let (okx, x) = fe_set_b32 ops (take 32 (drop 1 pub));
              (oky, y) = fe_set_b32 ops (take 32 (drop 33 pub))
          in if \<not> okx \<or> \<not> oky then (False, elem)
             else let elem = ge_set_xy x y
                  in if (pub ! 0 = 0x06 \<or> pub ! 0 = 0x07) \<and> fe_is_odd ops y \<noteq> (pub ! 0 = 0x07) then (False, elem)
                     else (ge_is_valid_var ops elem, elem)
     else (False, elem))"

text \<open>The buffer has room for the form that is written; the result has the new key, buffer and size.\<close>

definition eckey_pubkey_serialize :: "('fe, 'st) field_ops \<Rightarrow> 'fe ge \<Rightarrow> u8 list \<Rightarrow> nat \<Rightarrow> bool \<Rightarrow> bool \<times> 'fe ge \<times> u8 list \<times> nat" where
  "eckey_pubkey_serialize ops elem pub sz compressed =
    (if ge_is_infinity elem then (False, elem, pub, sz)
     else let elem = elem\<lparr>gx := fe_normalize_var ops (gx elem)\<rparr>;
              elem = elem\<lparr>gy := fe_normalize_var ops (gy elem)\<rparr>;
              pub = take 1 pub @ fe_get_b32 ops (gx elem) @ drop 33 pub
          in if compressed
             then let sz = 33; pub = pub[0 := 0x02 OR (if fe_is_odd ops (gy elem) then 0x01 else 0x00)]
                  in (True, elem, pub, sz)
             else let sz = 65; pub = pub[0 := 0x04]; pub = take 33 pub @ fe_get_b32 ops (gy elem) @ drop 65 pub
                  in (True, elem, pub, sz))"

subsection \<open>Tweaks (eckey_impl.h 54--97)\<close>

definition eckey_privkey_tweak_add :: "'s scalar_api \<Rightarrow> 's \<Rightarrow> 's \<Rightarrow> bool \<times> 's" where
  "eckey_privkey_tweak_add api key tweak =
    (let key = sa_add api key tweak
     in if sa_is_zero api key then (False, key) else (True, key))"

definition eckey_pubkey_tweak_add :: "('fe, 'st) field_ops \<Rightarrow> 's scalar_api \<Rightarrow> 'fe ecmult_mem \<Rightarrow> 'st ecmult_context \<Rightarrow> 'fe ge \<Rightarrow> 's \<Rightarrow> (bool \<times> 'fe ge) option" where
  "eckey_pubkey_tweak_add ops api mem ctx key tweak =
    (let pt = gej_set_ge ops key;
         one = sa_set_int api 1
     in Option.bind (ecmult_with ops api mem ctx pt pt one tweak) (\<lambda>pt.
          if gej_is_infinity pt then Some (False, key)
          else let (key, pt) = ge_set_gej ops pt in Some (True, key)))"

definition eckey_privkey_tweak_mul :: "'s scalar_api \<Rightarrow> 's \<Rightarrow> 's \<Rightarrow> bool \<times> 's" where
  "eckey_privkey_tweak_mul api key tweak =
    (if sa_is_zero api tweak then (False, key)
     else let key = sa_mul api key tweak in (True, key))"

definition eckey_pubkey_tweak_mul :: "('fe, 'st) field_ops \<Rightarrow> 's scalar_api \<Rightarrow> 'fe ecmult_mem \<Rightarrow> 'st ecmult_context \<Rightarrow> 'fe ge \<Rightarrow> 's \<Rightarrow> (bool \<times> 'fe ge) option" where
  "eckey_pubkey_tweak_mul ops api mem ctx key tweak =
    (if sa_is_zero api tweak then Some (False, key)
     else let zero = sa_set_int api 0;
              pt = gej_set_ge ops key
          in map_option (\<lambda>pt. let (key, pt) = ge_set_gej ops pt in (True, key)) (ecmult_with ops api mem ctx pt pt tweak zero))"

subsection \<open>Correctness\<close>

lemma take_drop_snoc: "length (take 1 pub @ b @ drop 33 pub) = length pub" if "length b = 32" "33 \<le> length pub"
  using that by simp

context secp_code
begin

text \<open>A successful parse gives a curve point with normalized \<open>x\<close>; the second part is the inverse of serialization.\<close>

lemma parse_xo:
  assumes "length b = 32" "be_val b < field_p" "ge_set_xo_var fops (snd (fe_set_b32 fops b)) (of_bool c) = (True, r)"
  shows "gx r = snd (fe_set_b32 fops b)" "\<not> ginf r" "nrm (gx r)" "val (gx r) = be_val b" "mag 2 (gy r)"
    "on_curve (Affine (fv (gx r)) (fv (gy r)))" "fv (gy r) \<noteq> 0 \<Longrightarrow> odd (Rep_fp (fv (gy r))) \<longleftrightarrow> c"
proof -
  let ?x = "snd (fe_set_b32 fops b)"
  have n: "nrm ?x" "val ?x = be_val b" using set_b32_nrm set_b32_val assms(1,2) by blast+
  have m: "mag 8 ?x" using nrm_mag [OF n(1)] mag_mono [of 1 ?x 8] by simp
  note x = xo_spec [OF m assms(3)]
  show "gx r = ?x" "\<not> ginf r" "mag 2 (gy r)" using x(2) by blast+
  then show "nrm (gx r)" "val (gx r) = be_val b" using n by simp_all
  show "on_curve (Affine (fv (gx r)) (fv (gy r)))" using x(2) by auto
  show "fv (gy r) \<noteq> 0 \<Longrightarrow> odd (Rep_fp (fv (gy r))) \<longleftrightarrow> c" using x(3) by blast
qed

lemma serialize_eq:
  assumes "ge_ok mag a" "\<not> ginf a" "length pub = (if compressed then 33 else 65)"
  obtains a' bx "by" where "eckey_pubkey_serialize fops a pub sz compressed =
      (True, a', (if compressed then (if odd (Rep_fp (fv (gy a))) then 0x03 else 0x02) # bx else 0x04 # bx @ by), if compressed then 33 else 65)"
    and "length bx = 32" "length by = 32" "be_val bx = Rep_fp (fv (gx a))" "be_val by = Rep_fp (fv (gy a))"
    and "nrm (gx a')" "nrm (gy a')" "val (gx a') = Rep_fp (fv (gx a))" "val (gy a') = Rep_fp (fv (gy a))" "\<not> ginf a'"
proof -
  have m: "mag 8 (gx a)" "mag 8 (gy a)" using assms(1) by (simp_all add: ge_ok_def)
  let ?x = "fe_normalize_var fops (gx a)" let ?y = "fe_normalize_var fops (gy a)"
  let ?a = "a\<lparr>gx := ?x, gy := ?y\<rparr>"
  note x = normalized(3,4) [OF m(1)] and y = normalized(3,4) [OF m(2)]
  have b: "be_val (fe_get_b32 fops ?x) = Rep_fp (fv (gx a))" "length (fe_get_b32 fops ?x) = 32"
    "be_val (fe_get_b32 fops ?y) = Rep_fp (fv (gy a))" "length (fe_get_b32 fops ?y) = 32"
    using get_b32 [OF x(1)] get_b32 [OF y(1)] x(2) y(2) by simp_all
  obtain p rest where p: "pub = p # rest" "length rest = (if compressed then 32 else 64)"
    using assms(3) by (cases pub) (auto split: if_splits)
  have o: "fe_is_odd fops ?y \<longleftrightarrow> odd (Rep_fp (fv (gy a)))" using is_odd [OF y(1)] y(2) by simp
  have two: "(2 :: u8) OR 1 = 3" by simp
  have "eckey_pubkey_serialize fops a pub sz compressed =
      (True, ?a, (if compressed then (if odd (Rep_fp (fv (gy a))) then 0x03 else 0x02) # fe_get_b32 fops ?x
        else 0x04 # fe_get_b32 fops ?x @ fe_get_b32 fops ?y), if compressed then 33 else 65)"
    using assms(2) p(2) b(2,4) by (simp add: eckey_pubkey_serialize_def ge_is_infinity_def Let_def p(1) o two)
  then show thesis by (rule that) (use b x y assms(2) in simp_all)
qed

lemma parse_valid:
  assumes "eckey_pubkey_parse fops e pub = (True, r)"
  shows "ge_ok mag r" "ge_rep fv r (Affine (fv (gx r)) (fv (gy r)))" "on_curve (Affine (fv (gx r)) (fv (gy r)))"
    "length pub = 33 \<Longrightarrow> (pub ! 0 = 0x02 \<or> pub ! 0 = 0x03) \<and> be_val (drop 1 pub) = Rep_fp (fv (gx r)) \<and>
      (fv (gy r) \<noteq> 0 \<longrightarrow> (odd (Rep_fp (fv (gy r))) \<longleftrightarrow> pub ! 0 = 0x03))"
    "length pub \<noteq> 33 \<Longrightarrow> length pub = 65 \<and> be_val (take 32 (drop 1 pub)) = Rep_fp (fv (gx r)) \<and> be_val (drop 33 pub) = Rep_fp (fv (gy r)) \<and>
      (pub ! 0 = 0x04 \<or> pub ! 0 = (if odd (Rep_fp (fv (gy r))) then 0x07 else 0x06))"
proof -
  have "ge_ok mag r \<and> ge_rep fv r (Affine (fv (gx r)) (fv (gy r))) \<and> on_curve (Affine (fv (gx r)) (fv (gy r))) \<and>
    (length pub = 33 \<longrightarrow> (pub ! 0 = 0x02 \<or> pub ! 0 = 0x03) \<and> be_val (drop 1 pub) = Rep_fp (fv (gx r)) \<and>
      (fv (gy r) \<noteq> 0 \<longrightarrow> (odd (Rep_fp (fv (gy r))) \<longleftrightarrow> pub ! 0 = 0x03))) \<and>
    (length pub \<noteq> 33 \<longrightarrow> length pub = 65 \<and> be_val (take 32 (drop 1 pub)) = Rep_fp (fv (gx r)) \<and> be_val (drop 33 pub) = Rep_fp (fv (gy r)) \<and>
      (pub ! 0 = 0x04 \<or> pub ! 0 = (if odd (Rep_fp (fv (gy r))) then 0x07 else 0x06)))"
  proof (cases "length pub = 33")
    case True
    let ?b = "drop 1 pub" and ?c = "pub ! 0 = 0x03"
    have l: "length ?b = 32" "take 32 ?b = ?b" using True by simp_all
    have h: "pub ! 0 = 0x02 \<or> pub ! 0 = 0x03" and f: "fst (fe_set_b32 fops ?b)"
      and x: "ge_set_xo_var fops (snd (fe_set_b32 fops ?b)) (of_bool ?c) = (True, r)"
      using assms True l(2) by (auto simp: eckey_pubkey_parse_def case_prod_beta Let_def split: if_splits)
    have v: "be_val ?b < field_p" using set_b32_ok [OF l(1)] f by simp
    note p = parse_xo [OF l(1) v x]
    have r: "Rep_fp (fv (gx r)) = be_val ?b" using p(4) v be_val_bounds(1) [of ?b] by (simp add: fv_def fp_of_int)
    have "mag 8 (gx r)" "mag 8 (gy r)" using nrm_mag [OF p(3)] p(5) mag_mono [of 1 "gx r" 8] mag_mono [of 2 "gy r" 8] by simp_all
    then show ?thesis using p h r True by (simp add: ge_ok_def ge_rep_def)
  next
    case False
    let ?bx = "take 32 (drop 1 pub)" and ?by = "drop 33 pub"
    have l: "length pub = 65" using assms False by (auto simp: eckey_pubkey_parse_def split: if_splits)
    then have lb: "length ?bx = 32" "length ?by = 32" "take 32 ?by = ?by" by simp_all
    have h: "pub ! 0 = 0x04 \<or> pub ! 0 = 0x06 \<or> pub ! 0 = 0x07" and f: "fst (fe_set_b32 fops ?bx)" "fst (fe_set_b32 fops ?by)"
      and g: "(pub ! 0 = 0x06 \<or> pub ! 0 = 0x07) \<longrightarrow> (fe_is_odd fops (snd (fe_set_b32 fops ?by)) \<longleftrightarrow> pub ! 0 = 0x07)"
      and r: "r = ge_set_xy (snd (fe_set_b32 fops ?bx)) (snd (fe_set_b32 fops ?by))" and v: "ge_is_valid_var fops r"
      using assms False l lb(3) by (auto simp: eckey_pubkey_parse_def case_prod_beta Let_def split: if_splits)
    have b: "be_val ?bx < field_p" "be_val ?by < field_p" using set_b32_ok lb f by simp_all
    have n: "nrm (gx r)" "nrm (gy r)" "val (gx r) = be_val ?bx" "val (gy r) = be_val ?by" "\<not> ginf r"
      using set_b32_nrm set_b32_val lb b by (simp_all add: r ge_set_xy_def)
    have R: "Rep_fp (fv (gx r)) = be_val ?bx" "Rep_fp (fv (gy r)) = be_val ?by"
      using n b be_val_bounds(1) by (simp_all add: fv_def fp_of_int)
    have ok: "ge_ok mag r" using nrm_mag n(1,2) mag_mono [of 1 _ 8] by (simp add: ge_ok_def)
    have rep: "ge_rep fv r (Affine (fv (gx r)) (fv (gy r)))" using n(5) by (simp add: ge_rep_def)
    have "on_curve (Affine (fv (gx r)) (fv (gy r)))" using ge_valid_iff [OF ok rep] v by simp
    moreover have "fe_is_odd fops (gy r) \<longleftrightarrow> odd (be_val ?by)" using is_odd [OF n(2)] n(4) by simp
    ultimately show ?thesis using ok rep R h g l False by (auto simp: r ge_set_xy_def)
  qed
  then show "ge_ok mag r" "ge_rep fv r (Affine (fv (gx r)) (fv (gy r)))" "on_curve (Affine (fv (gx r)) (fv (gy r)))"
    "length pub = 33 \<Longrightarrow> (pub ! 0 = 0x02 \<or> pub ! 0 = 0x03) \<and> be_val (drop 1 pub) = Rep_fp (fv (gx r)) \<and>
      (fv (gy r) \<noteq> 0 \<longrightarrow> (odd (Rep_fp (fv (gy r))) \<longleftrightarrow> pub ! 0 = 0x03))"
    "length pub \<noteq> 33 \<Longrightarrow> length pub = 65 \<and> be_val (take 32 (drop 1 pub)) = Rep_fp (fv (gx r)) \<and> be_val (drop 33 pub) = Rep_fp (fv (gy r)) \<and>
      (pub ! 0 = 0x04 \<or> pub ! 0 = (if odd (Rep_fp (fv (gy r))) then 0x07 else 0x06))"
    by blast+
qed

text \<open>The uncompressed form of a curve point is read back.\<close>

lemma parse_uncompressed:
  assumes "on_curve (Affine x y)" "length bx = 32" "length by = 32" "be_val bx = Rep_fp x" "be_val by = Rep_fp y"
  shows "\<exists>r. eckey_pubkey_parse fops e (0x04 # bx @ by) = (True, r) \<and> ge_rep fv r (Affine x y)"
proof -
  let ?r = "ge_set_xy (snd (fe_set_b32 fops bx)) (snd (fe_set_b32 fops by))"
  have b: "be_val bx < field_p" "be_val by < field_p" using Rep_fp_range by (simp_all add: assms(4,5))
  have n: "nrm (gx ?r)" "nrm (gy ?r)" "val (gx ?r) = Rep_fp x" "val (gy ?r) = Rep_fp y"
    using set_b32_nrm set_b32_val assms(2-5) b by (simp_all add: ge_set_xy_def)
  have ok: "ge_ok mag ?r" using nrm_mag n(1,2) mag_mono [of 1 _ 8] by (simp add: ge_ok_def)
  have "fv (gx ?r) = x" "fv (gy ?r) = y" using n Rep_fp_range by (simp_all add: fv_of_rep)
  then have rep: "ge_rep fv ?r (Affine x y)" by (simp add: ge_rep_def ge_set_xy_def)
  have "ge_is_valid_var fops ?r" using ge_valid_iff [OF ok rep] assms(1) by simp
  moreover have "fst (fe_set_b32 fops bx)" "fst (fe_set_b32 fops by)" using set_b32_ok assms(2,3) b by simp_all
  ultimately have "eckey_pubkey_parse fops e (0x04 # bx @ by) = (True, ?r)"
    using assms(2,3) by (simp add: eckey_pubkey_parse_def case_prod_beta Let_def)
  with rep show ?thesis by blast
qed

lemma parse_serialize:
  assumes "eckey_pubkey_parse fops e pub = (True, r)" "length buf = length pub" "length pub = 65 \<or> fv (gy r) \<noteq> 0"
  shows "\<exists>r'. eckey_pubkey_serialize fops r buf sz (length pub = 33) = (True, r', (if length pub = 33 then pub else 0x04 # drop 1 pub), length pub)"
proof -
  note p = parse_valid [OF assms(1)]
  have i: "\<not> ginf r" using p(2) by (simp add: ge_rep_def)
  have len: "length buf = (if length pub = 33 then 33 else 65)" using p(5) assms(2) by (cases "length pub = 33") simp_all
  obtain r' bx "by" where s: "eckey_pubkey_serialize fops r buf sz (length pub = 33) =
      (True, r', (if length pub = 33 then (if odd (Rep_fp (fv (gy r))) then 0x03 else 0x02) # bx else 0x04 # bx @ by), if length pub = 33 then 33 else 65)"
    and b: "length bx = 32" "length by = 32" "be_val bx = Rep_fp (fv (gx r))" "be_val by = Rep_fp (fv (gy r))"
    using serialize_eq [OF p(1) i len] by metis
  show ?thesis
  proof (cases "length pub = 33")
    case True
    then obtain t rest where c: "pub = t # rest" "length rest = 32" by (cases pub) auto
    note h = p(4) [OF True]
    have "rest = bx" by (rule be_val_inject [THEN iffD1, rotated]) (use h b c in simp_all)
    moreover have "t = (if odd (Rep_fp (fv (gy r))) then 0x03 else 0x02)" using h assms(3) True c(1) by auto
    ultimately show ?thesis using s c by auto
  next
    case False
    note h = p(5) [OF False]
    then obtain t rest where c: "pub = t # rest" "length rest = 64" by (cases pub) auto
    have "take 32 rest = bx" by (rule be_val_inject [THEN iffD1, rotated]) (use h b c in simp_all)
    moreover have "drop 32 rest = by" by (rule be_val_inject [THEN iffD1, rotated]) (use h b c in \<open>simp_all add: drop_Cons'\<close>)
    ultimately have "rest = bx @ by" using append_take_drop_id [of 32 rest] by simp
    then show ?thesis using s c False by auto
  qed
qed

lemma pubkey_tweaks:
  assumes "ecmult_ready fops fv mag mem ctx G H" "ge_ok mag key" "ge_rep fv key A" "odd_multiples A 8 T" "sval tweak < order_n"
  shows "ecmult_points (sa_ecmult api) T G H (sa_set_int api 1) tweak R \<Longrightarrow> \<exists>j. gej_ok mag j \<and> gej_rep fv j R \<and>
      eckey_pubkey_tweak_add fops api mem ctx key tweak = Some (if R = Infinity then (False, key) else (True, fst (ge_set_gej fops j)))"
    and "ecmult_points (sa_ecmult api) T G H tweak (sa_set_int api 0) R \<Longrightarrow> sval tweak \<noteq> 0 \<Longrightarrow> \<exists>j. gej_ok mag j \<and> gej_rep fv j R \<and>
      eckey_pubkey_tweak_mul fops api mem ctx key tweak = Some (True, fst (ge_set_gej fops j))"
    and "sval tweak = 0 \<Longrightarrow> eckey_pubkey_tweak_mul fops api mem ctx key tweak = Some (False, key)"
proof -
  note a = gej_set_ge_rep [OF assms(2,3)]
  have inf: "gej_is_infinity j \<longleftrightarrow> R = Infinity" if "gej_rep fv j R" for j
    using that by (cases R) (auto simp: gej_rep_def gej_is_infinity_def)
  have one: "sval (sa_set_int api 1) < order_n" by (simp add: sa_set_int_val order_n_def)
  show "\<exists>j. gej_ok mag j \<and> gej_rep fv j R \<and>
      eckey_pubkey_tweak_add fops api mem ctx key tweak = Some (if R = Infinity then (False, key) else (True, fst (ge_set_gej fops j)))"
    if r: "ecmult_points (sa_ecmult api) T G H (sa_set_int api 1) tweak R"
    using ecmult_points_rep [OF assms(1) one _ _ assms(4) r, of "gej_set_ge fops key" "gej_set_ge fops key"] a inf
    by (auto simp: eckey_pubkey_tweak_add_def Let_def case_prod_beta)
  show "\<exists>j. gej_ok mag j \<and> gej_rep fv j R \<and> eckey_pubkey_tweak_mul fops api mem ctx key tweak = Some (True, fst (ge_set_gej fops j))"
    if r: "ecmult_points (sa_ecmult api) T G H tweak (sa_set_int api 0) R" and nz: "sval tweak \<noteq> 0"
    using ecmult_points_rep [OF assms(1,5) _ _ assms(4) r, of "gej_set_ge fops key" "gej_set_ge fops key"] a nz
    by (auto simp: eckey_pubkey_tweak_mul_def Let_def case_prod_beta sa_is_zero_iff)
  show "sval tweak = 0 \<Longrightarrow> eckey_pubkey_tweak_mul fops api mem ctx key tweak = Some (False, key)"
    by (simp add: eckey_pubkey_tweak_mul_def sa_is_zero_iff)
qed

end

subsection \<open>Properties\<close>

text \<open>C15: a key that is read is a point of the curve, and writing it in the same form gives the bytes back, except that a
  hybrid tag becomes the uncompressed one; the compressed form needs a nonzero \<open>y\<close>, whose parity the tag carries.\<close>

theorem eckey_parse_serialize:
  assumes "eckey_pubkey_parse field_ops_10x26 e pub = (True, r)" "length buf = length pub" "length pub = 65 \<or> fe_fp_10x26 (gy r) \<noteq> 0"
  shows "ge_ok fe_mag_10x26 r \<and> ge_rep fe_fp_10x26 r (Affine (fe_fp_10x26 (gx r)) (fe_fp_10x26 (gy r))) \<and>
    on_curve (Affine (fe_fp_10x26 (gx r)) (fe_fp_10x26 (gy r))) \<and>
    (length pub = 33 \<and> pub ! 0 \<in> {0x02, 0x03} \<or> length pub = 65 \<and> pub ! 0 \<in> {0x04, if odd (Rep_fp (fe_fp_10x26 (gy r))) then 0x07 else 0x06}) \<and>
    (\<exists>r'. eckey_pubkey_serialize field_ops_10x26 r buf sz (length pub = 33) =
      (True, r', (if length pub = 33 then pub else 0x04 # drop 1 pub), length pub))"
proof -
  note p = b10.parse_valid [OF assms(1), unfolded fv_fe_fp_10x26]
  have "length pub = 33 \<and> pub ! 0 \<in> {0x02, 0x03} \<or> length pub = 65 \<and> pub ! 0 \<in> {0x04, if odd (Rep_fp (fe_fp_10x26 (gy r))) then 0x07 else 0x06}"
    using p(4,5) by (cases "length pub = 33") simp_all
  then show ?thesis using p(1-3) b10.parse_serialize [OF assms(1,2), unfolded fv_fe_fp_10x26, OF assms(3)] by blast
qed

text \<open>The witness is the generator, written in the uncompressed form.\<close>

theorem eckey_parse_serialize_witness:
  "\<exists>bs r r'. length bs = 65 \<and> eckey_pubkey_parse field_ops_10x26 (ge_const_g field_ops_10x26) bs = (True, r) \<and>
    eckey_pubkey_serialize field_ops_10x26 r (replicate 65 0) 0 False = (True, r', bs, 65)"
proof -
  let ?g = "ge_const_g field_ops_10x26"
  note g = e10.generator_double [OF refl, unfolded fv_fe_fp_10x26]
  have "\<not> ginf ?g" using g(3) by (simp add: ge_rep_def)
  moreover have "length (replicate 65 (0 :: u8)) = (if False then 33 else 65)" by simp
  ultimately obtain bx "by" where b: "length bx = 32" "length by = 32" "be_val bx = Rep_fp (fe_fp_10x26 (gx ?g))" "be_val by = Rep_fp (fe_fp_10x26 (gy ?g))"
    using b10.serialize_eq [OF g(2), unfolded fv_fe_fp_10x26] by metis
  obtain r where r: "eckey_pubkey_parse field_ops_10x26 ?g (0x04 # bx @ by) = (True, r)"
    using b10.parse_uncompressed [unfolded fv_fe_fp_10x26, OF g(6) b] by blast
  show ?thesis
    using eckey_parse_serialize [OF r, of "replicate 65 0" 0] b r by (intro exI [of _ "0x04 # bx @ by"]) auto
qed

text \<open>C16: the tweaks. A private key is added or multiplied modulo the group order, and the tweak is refused exactly when the
  sum is zero or the factor is. A public key \<open>A\<close> becomes the point that double-and-add gives for \<open>1 * A + tweak * G\<close>, refused
  exactly when that is infinity, or for \<open>tweak * A\<close>; the affine form is the point itself when Fermat's equation holds
  for the denominator.\<close>

theorem eckey_tweak_refines:
  assumes "ecmult_ready field_ops_10x26 fe_fp_10x26 fe_mag_10x26 mem ctx G H" "ge_ok fe_mag_10x26 key" "ge_rep fe_fp_10x26 key A" "odd_multiples A 8 T"
    and "scalar_ok_8x32 seckey" "scalar_ok_8x32 tweak"
    and "ecmult_points ecmult_scalar_8x32 T G H (scalar_set_int_8x32 1) tweak R" "ecmult_points ecmult_scalar_8x32 T G H tweak (scalar_set_int_8x32 0) R'"
  shows "(\<exists>k. eckey_privkey_tweak_add scalar_api_8x32 seckey tweak = (scalar_val_8x32 k \<noteq> 0, k) \<and>
      scalar_val_8x32 k = (scalar_val_8x32 seckey + scalar_val_8x32 tweak) mod order_n) \<and>
    (\<exists>k. eckey_privkey_tweak_mul scalar_api_8x32 seckey tweak = (scalar_val_8x32 tweak \<noteq> 0, k) \<and>
      scalar_val_8x32 k = (if scalar_val_8x32 tweak = 0 then scalar_val_8x32 seckey else scalar_val_8x32 seckey * scalar_val_8x32 tweak mod order_n)) \<and>
    (\<exists>j. gej_rep fe_fp_10x26 j R \<and> eckey_pubkey_tweak_add field_ops_10x26 scalar_api_8x32 mem ctx key tweak =
        Some (if R = Infinity then (False, key) else (True, fst (ge_set_gej field_ops_10x26 j))) \<and>
      (fe_fp_10x26 (jz j) ^ nat (field_p - 1) = 1 \<longrightarrow> ge_rep fe_fp_10x26 (fst (ge_set_gej field_ops_10x26 j)) R)) \<and>
    (if scalar_val_8x32 tweak = 0 then eckey_pubkey_tweak_mul field_ops_10x26 scalar_api_8x32 mem ctx key tweak = Some (False, key)
     else \<exists>j. gej_rep fe_fp_10x26 j R' \<and>
       eckey_pubkey_tweak_mul field_ops_10x26 scalar_api_8x32 mem ctx key tweak = Some (True, fst (ge_set_gej field_ops_10x26 j)) \<and>
       (fe_fp_10x26 (jz j) ^ nat (field_p - 1) = 1 \<longrightarrow> ge_rep fe_fp_10x26 (fst (ge_set_gej field_ops_10x26 j)) R'))"
proof -
  have s: "scalar_val_8x32 seckey < order_n" "scalar_val_8x32 tweak < order_n" using assms(5,6) by (simp_all add: scalar_ok_8x32_def)
  note z = b10.sa_is_zero_iff and add = b10.ar.add_val [OF s] and mul = b10.ar.mul_val
  have api: "sa_ecmult scalar_api_8x32 = ecmult_scalar_8x32" "sa_set_int scalar_api_8x32 = scalar_set_int_8x32" by (simp_all add: scalar_api_8x32_def)
  note p = b10.pubkey_tweaks [of mem ctx G H key A T tweak, unfolded fv_fe_fp_10x26 api, OF assms(1-4) s(2)]
  note aff = e10.set_gej_rep [unfolded fv_fe_fp_10x26]
  have 1: "\<exists>k. eckey_privkey_tweak_add scalar_api_8x32 seckey tweak = (scalar_val_8x32 k \<noteq> 0, k) \<and>
      scalar_val_8x32 k = (scalar_val_8x32 seckey + scalar_val_8x32 tweak) mod order_n"
    using add by (intro exI [of _ "sa_add scalar_api_8x32 seckey tweak"]) (simp add: eckey_privkey_tweak_add_def Let_def z)
  have 2: "\<exists>k. eckey_privkey_tweak_mul scalar_api_8x32 seckey tweak = (scalar_val_8x32 tweak \<noteq> 0, k) \<and>
      scalar_val_8x32 k = (if scalar_val_8x32 tweak = 0 then scalar_val_8x32 seckey else scalar_val_8x32 seckey * scalar_val_8x32 tweak mod order_n)"
    using mul [of seckey tweak] by (simp add: eckey_privkey_tweak_mul_def z)
  have 3: "\<exists>j. gej_rep fe_fp_10x26 j R \<and> eckey_pubkey_tweak_add field_ops_10x26 scalar_api_8x32 mem ctx key tweak =
        Some (if R = Infinity then (False, key) else (True, fst (ge_set_gej field_ops_10x26 j))) \<and>
      (fe_fp_10x26 (jz j) ^ nat (field_p - 1) = 1 \<longrightarrow> ge_rep fe_fp_10x26 (fst (ge_set_gej field_ops_10x26 j)) R)"
    using p(1) [OF assms(7)] aff by blast
  have 4: "\<exists>j. gej_rep fe_fp_10x26 j R' \<and>
       eckey_pubkey_tweak_mul field_ops_10x26 scalar_api_8x32 mem ctx key tweak = Some (True, fst (ge_set_gej field_ops_10x26 j)) \<and>
       (fe_fp_10x26 (jz j) ^ nat (field_p - 1) = 1 \<longrightarrow> ge_rep fe_fp_10x26 (fst (ge_set_gej field_ops_10x26 j)) R')"
    if "scalar_val_8x32 tweak \<noteq> 0" using p(2) [OF assms(8) that] aff by blast
  show ?thesis
  proof (intro conjI 1 2 3)
  qed (use 4 p(3) in auto)
qed

theorem eckey_tweak_refines_witness:
  "\<exists>j. gej_rep fe_fp_10x26 j (Affine 2 3) \<and> eckey_pubkey_tweak_add field_ops_10x26 scalar_api_8x32
      \<lparr>em_table = \<lparr>tm_d = \<lparr>jx = FE10 0 0 0 0 0 0 0 0 0 0, jy = FE10 0 0 0 0 0 0 0 0 0 0, jz = FE10 0 0 0 0 0 0 0 0 0 0, jinf = False\<rparr>,
          tm_prej = replicate 8 \<lparr>jx = FE10 0 0 0 0 0 0 0 0 0 0, jy = FE10 0 0 0 0 0 0 0 0 0 0, jz = FE10 0 0 0 0 0 0 0 0 0 0, jinf = False\<rparr>,
          tm_zr = replicate 8 (FE10 0 0 0 0 0 0 0 0 0 0)\<rparr>,
        em_pre = replicate 8 \<lparr>gx = FE10 0 0 0 0 0 0 0 0 0 0, gy = FE10 0 0 0 0 0 0 0 0 0 0, ginf = False\<rparr>, em_Z = FE10 0 0 0 0 0 0 0 0 0 0\<rparr>
      \<lparr>ec_pre_g = Some (small_pre_g field_ops_10x26 8192), ec_pre_g_128 = Some (small_pre_g field_ops_10x26 8192)\<rparr>
      \<lparr>gx = FE10 2 0 0 0 0 0 0 0 0 0, gy = FE10 3 0 0 0 0 0 0 0 0 0, ginf = False\<rparr> (Scalar8 0 0 0 0 0 0 0 0) = Some (True, fst (ge_set_gej field_ops_10x26 j))"
    (is "\<exists>j. _ \<and> eckey_pubkey_tweak_add _ _ ?mem ?ctx ?pub ?t = _")
proof -
  have mem: "ecmult_ready field_ops_10x26 fe_fp_10x26 fe_mag_10x26 ?mem ?ctx small_table small_table"
    using e10.small_pre_g_table [of 8192, unfolded fv_fe_fp_10x26] by (simp add: ecmult_ready_def)
  have a: "ge_ok fe_mag_10x26 ?pub" "ge_rep fe_fp_10x26 ?pub (Affine 2 3)"
    by (simp_all add: ge_ok_def ge_rep_def fe_mag_10x26_def limbs_le_10x26_def fe_fp_FE10 limbs_val_Cons)
  have t: "scalar_ok_8x32 ?t" "scalar_val_8x32 ?t = 0" by (simp_all add: eval_8x32)
  have i: "scalar_val_8x32 (scalar_set_int_8x32 1) = 1" "scalar_val_8x32 (scalar_set_int_8x32 0) = 0"
    using b10.sa_set_int_val [of 1] b10.sa_set_int_val [of 0] by (simp_all add: scalar_api_8x32_def)
  have p: "ecmult_points ecmult_scalar_8x32 small_table small_table small_table (scalar_set_int_8x32 1) ?t (Affine 2 3)"
    "ecmult_points ecmult_scalar_8x32 small_table small_table small_table ?t (scalar_set_int_8x32 0) Infinity"
    using b10.points_one [OF i(1) t(2)] b10.points_zero [OF t(2) i(2)] by (simp_all add: scalar_api_8x32_def)
  show ?thesis
    using eckey_tweak_refines [OF mem a small_multiples t(1,1) p] by auto
qed

end
