(* ===== verification/Pedersen.thy ===== *)
theory Pedersen
  imports Ecmult_Gen Ecmult_Const
begin

text \<open>
  Commitments, \<open>modules/rangeproof/pedersen_impl.h\<close>, \<open>switch_impl.h\<close>, the commitment functions of \<open>modules/rangeproof/main_impl.h\<close> and
  the encoding of generators in \<open>modules/generator/main_impl.h\<close>: a commitment is \<open>blind * G + value * H\<close> in 33 bytes, the \<open>x\<close> coordinate
  behind a byte that tells whether \<open>y\<close> is a square. Sums of commitments and of blinding factors are what balances a transaction.
  Pointers are given, so the checks for null pointers are left out; a check of a context that fails returns 0.
\<close>

subsection \<open>Multiplication (pedersen_impl.h 20--49, switch_impl.h 13--17)\<close>

definition pedersen_scalar_set_u64 :: "'s scalar_api \<Rightarrow> u64 \<Rightarrow> 's" where
  "pedersen_scalar_set_u64 api value =
    (let data = fold (\<lambda>i data. data[i := 0]) [0..<24] (replicate 32 0);
         (value, data) = fold (\<lambda>i (value, data). (push_bit 8 value, data[i := ucast (drop_bit 56 value)])) [24..<32] (value, data)
     in snd (sa_set_b32 api data))"

definition pedersen_ecmult_small :: "('fe, 'st) field_ops \<Rightarrow> 's scalar_api \<Rightarrow> 'fe const_mem \<Rightarrow> u64 \<Rightarrow> 'fe ge \<Rightarrow> 'fe gej option" where
  "pedersen_ecmult_small ops api mem gn genp =
    (let s = pedersen_scalar_set_u64 api gn
     in ecmult_const ops api mem genp s 64)"

definition pedersen_ecmult :: "('fe, 'st) field_ops \<Rightarrow> 's scalar_api \<Rightarrow> 'fe const_mem \<Rightarrow> 'st ge_storage \<Rightarrow> ('fe, 's, 'st) ecmult_gen_context \<Rightarrow> 's \<Rightarrow> u64 \<Rightarrow> 'fe ge \<Rightarrow>
    'fe gej option" where
  "pedersen_ecmult ops api mem zeros ctx sec value genp =
    Option.bind (ecmult_gen ops api zeros ctx sec) (\<lambda>rj.
      map_option (\<lambda>vj. fst (gej_add_var ops rj rj vj None)) (pedersen_ecmult_small ops api mem value genp))"

definition switch_ecmult :: "('fe, 'st) field_ops \<Rightarrow> 's scalar_api \<Rightarrow> 'fe const_mem \<Rightarrow> 's \<Rightarrow> 'fe ge \<Rightarrow> 'fe gej option" where
  "switch_ecmult ops api mem sec genp = ecmult_const ops api mem genp sec 64"

subsection \<open>Encodings (main_impl.h 49--82, generator/main_impl.h 17--49)\<close>

definition pedersen_commitment_load :: "('fe, 'st) field_ops \<Rightarrow> u8 list \<Rightarrow> 'fe ge" where
  "pedersen_commitment_load ops commit =
    (let (ok, fe) = fe_set_b32 ops (take 32 (drop 1 commit));
         (ok, ge) = ge_set_xquad ops fe
     in if commit ! 0 AND 1 \<noteq> 0 then ge_neg ops ge else ge)"

definition pedersen_commitment_save :: "('fe, 'st) field_ops \<Rightarrow> 'fe ge \<Rightarrow> u8 list" where
  "pedersen_commitment_save ops ge =
    (let ge = ge\<lparr>gx := fe_normalize ops (gx ge)\<rparr>;
         b = fe_get_b32 ops (gx ge)
     in (9 XOR of_bool (fe_is_quad_var ops (gy ge))) # b)"

definition pedersen_commitment_parse :: "u8 list \<Rightarrow> u8 list \<Rightarrow> bool \<times> u8 list" where
  "pedersen_commitment_parse commit input = (if input ! 0 AND 0xFE \<noteq> 8 then (False, commit) else (True, take 33 input))"

definition pedersen_commitment_serialize :: "u8 list \<Rightarrow> u8 list" where
  "pedersen_commitment_serialize commit = take 33 commit"

definition generator_load :: "('fe, 'st) field_ops \<Rightarrow> u8 list \<Rightarrow> 'fe ge" where
  "generator_load ops gen =
    (let (ok, fe) = fe_set_b32 ops (take 32 (drop 1 gen));
         (ok, ge) = ge_set_xquad ops fe
     in if gen ! 0 AND 1 \<noteq> 0 then ge_neg ops ge else ge)"

definition generator_save :: "('fe, 'st) field_ops \<Rightarrow> 'fe ge \<Rightarrow> u8 list" where
  "generator_save ops ge =
    (let ge = ge\<lparr>gx := fe_normalize ops (gx ge)\<rparr>;
         b = fe_get_b32 ops (gx ge)
     in (11 XOR of_bool (fe_is_quad_var ops (gy ge))) # b)"

definition generator_parse :: "u8 list \<Rightarrow> u8 list \<Rightarrow> bool \<times> u8 list" where
  "generator_parse gen input = (if input ! 0 AND 0xFE \<noteq> 10 then (False, gen) else (True, take 33 input))"

definition generator_serialize :: "u8 list \<Rightarrow> u8 list" where
  "generator_serialize gen = take 33 gen"

text \<open>The second and the third generator (main_impl.h 23--27 and 41--45).\<close>

definition generator_h_internal :: "u8 list" where
  "generator_h_internal = [0x11, 0x50, 0x92, 0x9b, 0x74, 0xc1, 0xa0, 0x49, 0x54, 0xb7, 0x8b, 0x4b, 0x60, 0x35, 0xe9, 0x7a, 0x5e,
    0x07, 0x8a, 0x5a, 0x0f, 0x28, 0xec, 0x96, 0xd5, 0x47, 0xbf, 0xee, 0x9a, 0xce, 0x80, 0x3a, 0xc0]"

definition generator_j_internal :: "u8 list" where
  "generator_j_internal = [0x11, 0xb8, 0x60, 0xf5, 0x67, 0x95, 0xfc, 0x03, 0xf3, 0xc2, 0x16, 0x85, 0x38, 0x3d, 0x1b, 0x5a, 0x2f,
    0x29, 0x54, 0xf4, 0x9b, 0x7e, 0x39, 0x8b, 0x8d, 0x2a, 0x01, 0x93, 0x93, 0x36, 0x21, 0x15, 0x5f]"

subsection \<open>Commitments and sums (main_impl.h 85--278)\<close>

definition pedersen_commit :: "('fe, 'st) field_ops \<Rightarrow> 's scalar_api \<Rightarrow> 'fe const_mem \<Rightarrow> 'st ge_storage \<Rightarrow> ('fe, 's, 'st) ecmult_gen_context \<Rightarrow> u8 list \<Rightarrow>
    u8 list \<Rightarrow> u64 \<Rightarrow> u8 list \<Rightarrow> (bool \<times> u8 list) option" where
  "pedersen_commit ops api mem zeros ctx commit blind value gen =
    (if \<not> ecmult_gen_context_is_built ctx then Some (False, commit)
     else let genp = generator_load ops gen;
              (overflow, sec) = sa_set_b32 api blind
          in if overflow \<noteq> 0 then Some (False, commit)
             else map_option (\<lambda>rj.
                    if gej_is_infinity rj then (False, commit)
                    else let (r, rj) = ge_set_gej ops rj in (True, pedersen_commitment_save ops r))
                  (pedersen_ecmult ops api mem zeros ctx sec value genp))"

fun pedersen_blind_sum_loop :: "'s scalar_api \<Rightarrow> nat \<Rightarrow> nat \<Rightarrow> u8 list list \<Rightarrow> 's \<Rightarrow> 's option" where
  "pedersen_blind_sum_loop api npositive i [] acc = Some acc"
| "pedersen_blind_sum_loop api npositive i (b # bs) acc =
    (let (overflow, x) = sa_set_b32 api b
     in if overflow \<noteq> 0 then None
        else let x = (if npositive \<le> i then sa_negate api x else x)
             in pedersen_blind_sum_loop api npositive (i + 1) bs (sa_add api acc x))"

definition pedersen_blind_sum :: "'s scalar_api \<Rightarrow> u8 list \<Rightarrow> u8 list list \<Rightarrow> nat \<Rightarrow> bool \<times> u8 list" where
  "pedersen_blind_sum api blind_out blinds npositive =
    (if \<not> npositive \<le> length blinds then (False, blind_out)
     else case pedersen_blind_sum_loop api npositive 0 blinds (sa_set_int api 0) of
            None \<Rightarrow> (False, blind_out)
          | Some acc \<Rightarrow> (True, sa_get_b32 api acc))"

text \<open>The sum that both functions start with; the accumulator is not initialized.\<close>

definition pedersen_tally :: "('fe, 'st) field_ops \<Rightarrow> 'fe gej \<Rightarrow> u8 list list \<Rightarrow> u8 list list \<Rightarrow> 'fe gej" where
  "pedersen_tally ops accj commits ncommits =
    (let accj = gej_set_infinity ops accj;
         accj = fold (\<lambda>c accj. let add = pedersen_commitment_load ops c in fst (gej_add_ge_var ops accj accj add None)) ncommits accj;
         accj = gej_neg ops accj
     in fold (\<lambda>c accj. let add = pedersen_commitment_load ops c in fst (gej_add_ge_var ops accj accj add None)) commits accj)"

definition pedersen_commit_sum :: "('fe, 'st) field_ops \<Rightarrow> 'fe gej \<Rightarrow> u8 list \<Rightarrow> u8 list list \<Rightarrow> u8 list list \<Rightarrow> bool \<times> u8 list" where
  "pedersen_commit_sum ops accj commit_out commits ncommits =
    (let accj = pedersen_tally ops accj commits ncommits
     in if \<not> gej_is_infinity accj
        then let (acc, accj) = ge_set_gej ops accj in (True, pedersen_commitment_save ops acc)
        else (False, commit_out))"

definition pedersen_verify_tally :: "('fe, 'st) field_ops \<Rightarrow> 'fe gej \<Rightarrow> u8 list list \<Rightarrow> u8 list list \<Rightarrow> bool" where
  "pedersen_verify_tally ops accj commits ncommits = gej_is_infinity (pedersen_tally ops accj commits ncommits)"

definition switch_commit :: "('fe, 'st) field_ops \<Rightarrow> 's scalar_api \<Rightarrow> 'fe const_mem \<Rightarrow> bool \<Rightarrow> u8 list \<Rightarrow> u8 list \<Rightarrow> u8 list \<Rightarrow> (bool \<times> u8 list) option" where
  "switch_commit ops api mem built commit blind gen =
    (if \<not> built then Some (False, commit)
     else let genp = generator_load ops gen;
              (overflow, sec) = sa_set_b32 api blind
          in if overflow \<noteq> 0 then Some (False, commit)
             else map_option (\<lambda>rj.
                    if gej_is_infinity rj then (False, commit)
                    else let (r, rj) = ge_set_gej ops rj in (True, pedersen_commitment_save ops r))
                  (switch_ecmult ops api mem sec genp))"

subsection \<open>Encodings\<close>

lemma fold_clear: "fold (\<lambda>i data. data[i := 0]) js (replicate n (0 :: u8)) = replicate n 0"
proof (induction js)
  case (Cons j js)
  have "(replicate n (0 :: u8))[j := 0] = replicate n 0" by (cases "j < n") (auto simp: list_eq_iff_nth_eq nth_list_update)
  then show ?case using Cons by simp
qed simp

lemma shift_byte: "ucast (drop_bit 56 (push_bit k v)) = (ucast (drop_bit (56 - k) v) :: u8)" if "k \<le> 56" for v :: u64
  by (rule bit_word_eqI) (use that in \<open>auto simp: bit_simps ac_simps\<close>)

lemma set_u64_bytes:
  "snd (fold (\<lambda>i (value, data). (push_bit 8 value, data[i := ucast (drop_bit 56 value)])) [24..<32] (v :: u64, replicate 32 (0 :: u8))) =
    replicate 24 0 @ write_be64 v"
proof -
  have r: "[24..<32] = [24 :: nat, 25, 26, 27, 28, 29, 30, 31]" by (simp add: upt_rec)
  have d: "replicate 32 (0 :: u8) = replicate 24 0 @ [0, 0, 0, 0, 0, 0, 0, 0]" by (simp add: numeral_eq_Suc)
  have b: "ucast (drop_bit 56 (push_bit k v)) = (ucast (drop_bit (56 - k) v) :: u8)" if "k \<le> 56" for k by (rule shift_byte [OF that])
  show ?thesis
    unfolding r d by (simp add: list_update_append shift_byte write_be64_def)
qed

context secp_code
begin

lemma set_u64_val: "sval (pedersen_scalar_set_u64 api v) = uint v"
proof -
  let ?d = "replicate 24 0 @ write_be64 v"
  have "pedersen_scalar_set_u64 api v = snd (sa_set_b32 api ?d)"
    using set_u64_bytes [of v] by (simp add: pedersen_scalar_set_u64_def fold_clear case_prod_beta Let_def)
  moreover have "length ?d = 32" by (simp add: write_be64_def)
  moreover have "be_val (replicate n 0) = 0" for n by (induction n) (simp_all add: be_val_Cons)
  then have "be_val ?d = uint v" by (simp add: be_val_append be_val_write_be64)
  moreover have "uint v < order_n" using uint_bounded [of v] by (simp add: order_n_def)
  ultimately show ?thesis using sa_set_b32_val [of ?d] by simp
qed

text \<open>Reading gives a point of the curve, when there is one with this \<open>x\<close> coordinate; the byte before it chooses between the two.\<close>

lemma load_rep:
  assumes "length b = 32" "be_val b < field_p" "ge = (let (ok, fe) = fe_set_b32 fops b; (ok, ge) = ge_set_xquad fops fe in if flag then ge_neg fops ge else ge)"
    and "q = (of_int (be_val b) ^ 3 + 7) ^ nat ((field_p + 1) div 4)"
  shows "ge_ok mag ge" "ge_rep fv ge (Affine (of_int (be_val b)) (if flag then - q else q))"
proof -
  let ?x = "snd (fe_set_b32 fops b)"
  have x: "nrm ?x" "val ?x = be_val b" using set_b32_nrm set_b32_val assms(1,2) by blast+
  then have m: "mag 8 ?x" "fv ?x = of_int (be_val b)" using nrm_mag mag_mono [of 1 _ 8] by (simp_all add: fv_def)
  obtain ok r where r: "ge_set_xquad fops ?x = (ok, r)" by fastforce
  note s = xquad_spec [OF m(1) r]
  have ge: "ge = (if flag then ge_neg fops r else r)" by (simp add: assms(3) case_prod_beta r)
  have o: "ge_ok mag r" "ge_rep fv r (Affine (of_int (be_val b)) q)"
    using s m mag_mono [of 1 _ 8] by (simp_all add: ge_ok_def ge_rep_def assms(4))
  then show "ge_ok mag ge" "ge_rep fv ge (Affine (of_int (be_val b)) (if flag then - q else q))"
    using ge_neg_rep [OF o] by (simp_all add: ge)
qed

lemma root_of_square:
  fixes y :: fp
  assumes "y ^ nat ((field_p - 1) div 2) = e"
  shows "(y ^ 2) ^ nat ((field_p + 1) div 4) = e * y"
proof -
  have n: "2 * nat ((field_p + 1) div 4) = Suc (nat ((field_p - 1) div 2))" by (simp add: field_p_def)
  have "(y ^ 2) ^ nat ((field_p + 1) div 4) = y ^ Suc (nat ((field_p - 1) div 2))" unfolding power_mult [symmetric] n ..
  then show ?thesis using assms by simp
qed

text \<open>Writing and reading back: Euler's criterion for \<open>y\<close> is the hypothesis.\<close>

lemma save_load:
  assumes "ge_ok mag a" "ge_rep fv a (Affine x y)" "y ^ 2 = x ^ 3 + 7" "y ^ nat ((field_p - 1) div 2) = e" "e = 1 \<or> e = - 1" "2 * y dvd 1"
    and "bs = (t XOR of_bool (fe_is_quad_var fops (gy a))) # fe_get_b32 fops (fe_normalize fops (gx a))" "t AND 1 = (1 :: u8)"
    and "ge = (let (ok, fe) = fe_set_b32 fops (take 32 (drop 1 bs)); (ok, ge) = ge_set_xquad fops fe in if bs ! 0 AND 1 \<noteq> 0 then ge_neg fops ge else ge)"
  shows "length bs = 33" "bs ! 0 = (if e = 1 then t XOR 1 else t)" "be_val (drop 1 bs) = Rep_fp x" "ge_ok mag ge" "ge_rep fv ge (Affine x y)"
proof -
  have v: "fv (gx a) = x" "fv (gy a) = y" using assms(2) by (simp_all add: ge_rep_def)
  have m: "mag 8 (gx a)" "mag 8 (gy a)" using assms(1) by (simp_all add: ge_ok_def)
  note n = normalized(1,2) [OF m(1), unfolded v]
  let ?b = "fe_get_b32 fops (fe_normalize fops (gx a))"
  have b: "be_val ?b = Rep_fp x" "length ?b = 32" using get_b32 [OF n(1)] n(2) by simp_all
  have "of_int (Rep_fp x) = x" by (rule Rep_fp_inject [THEN iffD1]) (use Rep_fp_range [of x] in \<open>simp add: fp_of_int\<close>)
  then have x: "of_int (be_val ?b) = x" "be_val ?b < field_p" unfolding b using conjunct2 [OF Rep_fp_range [of x]] by blast+
  have y: "- y \<noteq> y" using not_self_opposite [OF assms(6)] by simp
  have e1: "e = 1 \<longleftrightarrow> e * y = y"
  proof
    assume "e * y = y"
    then have "e \<noteq> - 1" using y by auto
    then show "e = 1" using assms(5) by simp
  qed simp
  have "fe_is_quad_var fops (gy a) \<longleftrightarrow> (y ^ nat ((field_p + 1) div 4)) ^ 2 = y"
    using sqrt_spec [OF m(2)] by (simp add: fe_is_quad_var_def v power2_eq_square)
  also have "(y ^ nat ((field_p + 1) div 4)) ^ 2 = (y ^ 2) ^ nat ((field_p + 1) div 4)" by (simp only: power_mult [symmetric] mult.commute)
  finally have q: "fe_is_quad_var fops (gy a) \<longleftrightarrow> e = 1" unfolding root_of_square [OF assms(4)] e1 .
  show 0: "bs ! 0 = (if e = 1 then t XOR 1 else t)" "length bs = 33" "be_val (drop 1 bs) = Rep_fp x" by (simp_all add: assms(7) q b)
  have t1: "(t XOR 1) AND 1 = 0" using assms(8) by (simp add: bit.conj_xor_distrib2)
  have d: "take 32 (drop 1 bs) = ?b" by (simp add: assms(7) b)
  have r: "(of_int (be_val ?b) ^ 3 + 7) ^ nat ((field_p + 1) div 4) = e * y" unfolding x(1) assms(3) [symmetric] by (rule root_of_square [OF assms(4)])
  note l = load_rep [OF b(2) x(2) assms(9) [unfolded d] r [symmetric]]
  show "ge_ok mag ge" by (rule l(1))
  show "ge_rep fv ge (Affine x y)" using l(2) assms(5,8) t1 unfolding x(1) 0(1) by (auto split: if_splits)
qed

end

subsection \<open>Sums\<close>

text \<open>The point that a commitment stands for, and the signed sum of blinding factors.\<close>

definition commitment_point :: "u8 list \<Rightarrow> point" where
  "commitment_point c =
    (let x = of_int (be_val (take 32 (drop 1 c))); q = (x ^ 3 + 7) ^ nat ((field_p + 1) div 4)
     in Affine x (if c ! 0 AND 1 \<noteq> 0 then - q else q))"

definition commitment_ok :: "u8 list \<Rightarrow> bool" where
  "commitment_ok c \<longleftrightarrow> length c = 33 \<and> be_val (drop 1 c) < field_p"

fun signed_sum :: "nat \<Rightarrow> nat \<Rightarrow> u8 list list \<Rightarrow> int" where
  "signed_sum npositive i [] = 0"
| "signed_sum npositive i (b # bs) = (if npositive \<le> i then - be_val b else be_val b) + signed_sum npositive (i + 1) bs"

lemma signed_sum_negative: "npositive \<le> i \<Longrightarrow> signed_sum npositive i bs = - sum_list (map be_val bs)"
  by (induction bs arbitrary: i) simp_all

lemma signed_sum_split: "signed_sum (i + k) i bs = sum_list (map be_val (take k bs)) - sum_list (map be_val (drop k bs))"
proof (induction bs arbitrary: i k)
  case (Cons b bs)
  then show ?case using Cons.IH [of "Suc i"] by (cases k) (simp_all add: signed_sum_negative)
qed simp

context secp_code
begin

lemma commitment_load_rep:
  assumes "commitment_ok c"
  shows "ge_ok mag (pedersen_commitment_load fops c)" "ge_rep fv (pedersen_commitment_load fops c) (commitment_point c)"
proof -
  have l: "length (take 32 (drop 1 c)) = 32" "be_val (take 32 (drop 1 c)) < field_p" using assms by (simp_all add: commitment_ok_def)
  show "ge_ok mag (pedersen_commitment_load fops c)" "ge_rep fv (pedersen_commitment_load fops c) (commitment_point c)"
    unfolding commitment_point_def Let_def by (rule load_rep [OF l pedersen_commitment_load_def refl])+
qed

lemma tally_fold:
  assumes "ec_sum P (map commitment_point cs) R" "\<forall>c\<in>set cs. commitment_ok c" "gej_ok mag r" "gej_rep fv r P"
    and "r' = fold (\<lambda>c accj. let add = pedersen_commitment_load fops c in fst (gej_add_ge_var fops accj accj add None)) cs r"
  shows "gej_ok mag r' \<and> gej_rep fv r' R"
  using assms
proof (induction cs arbitrary: P r)
  case (Cons c cs)
  from Cons.prems(1) obtain Q where q: "ec_add P (commitment_point c) Q" "ec_sum Q (map commitment_point cs) R" by (auto elim: ec_sum_elims)
  note l = commitment_load_rep [of c]
  have "gej_ok mag (fst (gej_add_ge_var fops r r (pedersen_commitment_load fops c) None)) \<and>
      gej_rep fv (fst (gej_add_ge_var fops r r (pedersen_commitment_load fops c) None)) Q"
    by (rule add_ge_var_rep [OF Cons.prems(3,3) l(1) Cons.prems(4) l(2) q(1)]) (use Cons.prems(2) in simp_all)
  then show ?case using Cons.IH [OF q(2)] Cons.prems(2,5) by (simp add: Let_def)
qed (auto elim: ec_sum_elims)

lemma tally_rep:
  assumes "\<forall>c\<in>set commits. commitment_ok c" "\<forall>c\<in>set ncommits. commitment_ok c"
    and "ec_sum Infinity (map commitment_point ncommits) N" "ec_sum (ec_neg N) (map commitment_point commits) R"
  shows "gej_ok mag (pedersen_tally fops accj commits ncommits)" "gej_rep fv (pedersen_tally fops accj commits ncommits) R"
proof -
  let ?f = "\<lambda>c accj. let add = pedersen_commitment_load fops c in fst (gej_add_ge_var fops accj accj add None)"
  have z: "mag 8 (fe_clear fops x)" for x using set_int [of 0] nrm_mag mag_mono [of 1 _ 8] by (simp add: clear)
  have i: "gej_ok mag (gej_set_infinity fops accj)" "gej_rep fv (gej_set_infinity fops accj) Infinity"
    using z by (simp_all add: gej_set_infinity_def gej_ok_def gej_rep_def)
  have n: "gej_ok mag (fold ?f ncommits (gej_set_infinity fops accj)) \<and> gej_rep fv (fold ?f ncommits (gej_set_infinity fops accj)) N"
    by (rule tally_fold [OF assms(3,2) i refl])
  then have m: "gej_rep fv (gej_neg fops (fold ?f ncommits (gej_set_infinity fops accj))) (ec_neg N)"
    "gej_ok mag (gej_neg fops (fold ?f ncommits (gej_set_infinity fops accj)))" using neg_rep [of _ N] by blast+
  have "gej_ok mag (fold ?f commits (gej_neg fops (fold ?f ncommits (gej_set_infinity fops accj)))) \<and>
      gej_rep fv (fold ?f commits (gej_neg fops (fold ?f ncommits (gej_set_infinity fops accj)))) R"
    by (rule tally_fold [OF assms(4,1) m(2,1) refl])
  then show "gej_ok mag (pedersen_tally fops accj commits ncommits)" "gej_rep fv (pedersen_tally fops accj commits ncommits) R"
    by (simp_all add: pedersen_tally_def Let_def)
qed

lemma rep_infinity: "gej_rep fv j R \<Longrightarrow> gej_is_infinity j \<longleftrightarrow> R = Infinity"
  by (cases R) (auto simp: gej_rep_def gej_is_infinity_def)

lemma blind_sum_loop:
  assumes "\<forall>b\<in>set bs. length b = 32" "sval acc < order_n"
  shows "case pedersen_blind_sum_loop api npositive i bs acc of
      None \<Rightarrow> \<exists>b\<in>set bs. order_n \<le> be_val b
    | Some acc' \<Rightarrow> (\<forall>b\<in>set bs. be_val b < order_n) \<and> sval acc' = (sval acc + signed_sum npositive i bs) mod order_n"
  using assms
proof (induction bs arbitrary: i acc)
  case Nil
  then show ?case using dg.sval_range(1) [of acc] by simp
next
  case (Cons b bs)
  have l: "length b = 32" using Cons.prems(1) by simp
  define x where "x = snd (sa_set_b32 api b)"
  define x' where "x' = (if npositive \<le> i then sa_negate api x else x)"
  have f: "fst (sa_set_b32 api b) \<noteq> 0 \<longleftrightarrow> order_n \<le> be_val b" using sa_set_b32_flag [OF l] by simp
  have xv: "sval x = be_val b mod order_n" using sa_set_b32_val [OF l] by (simp add: x_def)
  then have xl: "sval x < order_n" by (simp add: order_n_def)
  have x': "sval x' = (if npositive \<le> i then - be_val b else be_val b) mod order_n"
    using dg.negate_val [OF xl] by (simp add: x'_def xv mod_minus_eq)
  then have x'l: "sval x' < order_n" by (simp add: order_n_def)
  have s: "sval (sa_add api acc x') = (sval acc + (if npositive \<le> i then - be_val b else be_val b)) mod order_n"
    using ar.add_val [OF Cons.prems(2) x'l] by (simp add: x' mod_add_right_eq)
  have e: "pedersen_blind_sum_loop api npositive i (b # bs) acc =
      (if order_n \<le> be_val b then None else pedersen_blind_sum_loop api npositive (i + 1) bs (sa_add api acc x'))"
    using f by (simp add: case_prod_beta Let_def x_def x'_def)
  show ?case
  proof (cases "order_n \<le> be_val b")
    case False
    have "case pedersen_blind_sum_loop api npositive (i + 1) bs (sa_add api acc x') of
        None \<Rightarrow> \<exists>b\<in>set bs. order_n \<le> be_val b
      | Some acc' \<Rightarrow> (\<forall>b\<in>set bs. be_val b < order_n) \<and> sval acc' = (sval (sa_add api acc x') + signed_sum npositive (i + 1) bs) mod order_n"
      by (rule Cons.IH) (use Cons.prems(1) sa_add_less [OF Cons.prems(2) x'l] in auto)
    then show ?thesis using False by (simp only: e if_False s signed_sum.simps mod_add_left_eq add.assoc) (auto split: option.splits)
  next
    case True
    then show ?thesis unfolding e by auto
  qed
qed

end

subsection \<open>Properties\<close>

text \<open>C5: the balance of a transaction. Let \<open>N\<close> be the sum of the negative commitments and \<open>R\<close> the sum of the
  positive ones added to \<open>- N\<close>, in the order of the code. The tally is accepted exactly when \<open>R\<close> is the point at infinity; the sum of the commitments
  fails then and otherwise encodes a Jacobian form of \<open>R\<close>.\<close>

theorem pedersen_tally_decides:
  assumes "\<forall>c\<in>set commits. commitment_ok c" "\<forall>c\<in>set ncommits. commitment_ok c"
    and "ec_sum Infinity (map commitment_point ncommits) N" "ec_sum (ec_neg N) (map commitment_point commits) R"
  shows "(pedersen_verify_tally field_ops_10x26 accj commits ncommits \<longleftrightarrow> R = Infinity) \<and>
    (\<exists>j. gej_ok fe_mag_10x26 j \<and> gej_rep fe_fp_10x26 j R \<and> pedersen_commit_sum field_ops_10x26 accj out commits ncommits =
      (if R = Infinity then (False, out) else (True, pedersen_commitment_save field_ops_10x26 (fst (ge_set_gej field_ops_10x26 j)))))"
  using b10.tally_rep [OF assms, of accj] b10.rep_infinity [of "pedersen_tally field_ops_10x26 accj commits ncommits" R]
  unfolding fv_fe_fp_10x26
  by (auto simp: pedersen_verify_tally_def pedersen_commit_sum_def Let_def case_prod_beta intro!: exI [of _ "pedersen_tally field_ops_10x26 accj commits ncommits"])

text \<open>The witness is a commitment against itself; its \<open>y\<close> coordinate is -1.\<close>

lemma cube_root: "(of_int 0x1fe1e5ef3fceb5c135ab7741333ce5a6e80d68167653f6b2b24bcbcfaaaff507 :: fp) ^ 3 + 7 = 1"
proof -
  have "(of_int (0x1fe1e5ef3fceb5c135ab7741333ce5a6e80d68167653f6b2b24bcbcfaaaff507 ^ 2) :: fp) = of_int 0x6ff6f417d673642e3b830d29025be1c39d61781b41b7bae151342cff89de4c1d" by (rule fp_quotient_eqI [where q = "0x3f87d05ee8821204daa4b6e80efae6f2cbb739a52a8904516f73c78d496de2c"]) (simp add: field_p_def)
  then have 2: "(of_int 0x1fe1e5ef3fceb5c135ab7741333ce5a6e80d68167653f6b2b24bcbcfaaaff507 :: fp) ^ 2 = of_int 0x6ff6f417d673642e3b830d29025be1c39d61781b41b7bae151342cff89de4c1d" unfolding of_int_power .
  have "(of_int (0x1fe1e5ef3fceb5c135ab7741333ce5a6e80d68167653f6b2b24bcbcfaaaff507 * 0x6ff6f417d673642e3b830d29025be1c39d61781b41b7bae151342cff89de4c1d + 7) :: fp) = of_int 1" by (rule fp_quotient_eqI [where q = "0xdf1b42bf7bad7eb786004ecde058c9f27c1a2edf57ab68cba25a556c2ffcdff"]) (simp add: field_p_def)
  then have "(of_int 0x1fe1e5ef3fceb5c135ab7741333ce5a6e80d68167653f6b2b24bcbcfaaaff507 :: fp) * of_int 0x6ff6f417d673642e3b830d29025be1c39d61781b41b7bae151342cff89de4c1d + 7 = 1" unfolding of_int_add of_int_mult by (simp only: of_int_numeral of_int_1)
  then show ?thesis unfolding 2 [symmetric] by (simp only: power3_eq_cube power2_eq_square mult.assoc)
qed

lemma unit_commitment:
  "be_val [0x1f, 0xe1, 0xe5, 0xef, 0x3f, 0xce, 0xb5, 0xc1, 0x35, 0xab, 0x77, 0x41, 0x33, 0x3c, 0xe5, 0xa6, 0xe8, 0xd, 0x68, 0x16, 0x76, 0x53, 0xf6, 0xb2, 0xb2, 0x4b, 0xcb, 0xcf, 0xaa, 0xaf, 0xf5, 0x7] = 0x1fe1e5ef3fceb5c135ab7741333ce5a6e80d68167653f6b2b24bcbcfaaaff507"
  "commitment_ok [0x9, 0x1f, 0xe1, 0xe5, 0xef, 0x3f, 0xce, 0xb5, 0xc1, 0x35, 0xab, 0x77, 0x41, 0x33, 0x3c, 0xe5, 0xa6, 0xe8, 0xd, 0x68, 0x16, 0x76, 0x53, 0xf6, 0xb2, 0xb2, 0x4b, 0xcb, 0xcf, 0xaa, 0xaf, 0xf5, 0x7]" "commitment_point [0x9, 0x1f, 0xe1, 0xe5, 0xef, 0x3f, 0xce, 0xb5, 0xc1, 0x35, 0xab, 0x77, 0x41, 0x33, 0x3c, 0xe5, 0xa6, 0xe8, 0xd, 0x68, 0x16, 0x76, 0x53, 0xf6, 0xb2, 0xb2, 0x4b, 0xcb, 0xcf, 0xaa, 0xaf, 0xf5, 0x7] = Affine (of_int 0x1fe1e5ef3fceb5c135ab7741333ce5a6e80d68167653f6b2b24bcbcfaaaff507) (- 1)"
proof -
  show b: "be_val [0x1f, 0xe1, 0xe5, 0xef, 0x3f, 0xce, 0xb5, 0xc1, 0x35, 0xab, 0x77, 0x41, 0x33, 0x3c, 0xe5, 0xa6, 0xe8, 0xd, 0x68, 0x16, 0x76, 0x53, 0xf6, 0xb2, 0xb2, 0x4b, 0xcb, 0xcf, 0xaa, 0xaf, 0xf5, 0x7] = 0x1fe1e5ef3fceb5c135ab7741333ce5a6e80d68167653f6b2b24bcbcfaaaff507" by (simp add: be_val_Cons)
  then show "commitment_ok [0x9, 0x1f, 0xe1, 0xe5, 0xef, 0x3f, 0xce, 0xb5, 0xc1, 0x35, 0xab, 0x77, 0x41, 0x33, 0x3c, 0xe5, 0xa6, 0xe8, 0xd, 0x68, 0x16, 0x76, 0x53, 0xf6, 0xb2, 0xb2, 0x4b, 0xcb, 0xcf, 0xaa, 0xaf, 0xf5, 0x7]" by (simp add: commitment_ok_def field_p_def)
  have "commitment_point [0x9, 0x1f, 0xe1, 0xe5, 0xef, 0x3f, 0xce, 0xb5, 0xc1, 0x35, 0xab, 0x77, 0x41, 0x33, 0x3c, 0xe5, 0xa6, 0xe8, 0xd, 0x68, 0x16, 0x76, 0x53, 0xf6, 0xb2, 0xb2, 0x4b, 0xcb, 0xcf, 0xaa, 0xaf, 0xf5, 0x7] = Affine (of_int 0x1fe1e5ef3fceb5c135ab7741333ce5a6e80d68167653f6b2b24bcbcfaaaff507) (- ((of_int 0x1fe1e5ef3fceb5c135ab7741333ce5a6e80d68167653f6b2b24bcbcfaaaff507 ^ 3 + 7) ^ nat ((field_p + 1) div 4)))"
    unfolding commitment_point_def Let_def by (simp add: b del: of_int_numeral)
  then show "commitment_point [0x9, 0x1f, 0xe1, 0xe5, 0xef, 0x3f, 0xce, 0xb5, 0xc1, 0x35, 0xab, 0x77, 0x41, 0x33, 0x3c, 0xe5, 0xa6, 0xe8, 0xd, 0x68, 0x16, 0x76, 0x53, 0xf6, 0xb2, 0xb2, 0x4b, 0xcb, 0xcf, 0xaa, 0xaf, 0xf5, 0x7] = Affine (of_int 0x1fe1e5ef3fceb5c135ab7741333ce5a6e80d68167653f6b2b24bcbcfaaaff507) (- 1)" unfolding cube_root by simp
qed

theorem pedersen_tally_decides_witness:
  "pedersen_verify_tally field_ops_10x26 (gej_set_ge field_ops_10x26 (ge_const_g field_ops_10x26))
    [[0x9, 0x1f, 0xe1, 0xe5, 0xef, 0x3f, 0xce, 0xb5, 0xc1, 0x35, 0xab, 0x77, 0x41, 0x33, 0x3c, 0xe5, 0xa6, 0xe8, 0xd, 0x68, 0x16, 0x76, 0x53, 0xf6, 0xb2, 0xb2, 0x4b, 0xcb, 0xcf, 0xaa, 0xaf, 0xf5, 0x7]]
    [[0x9, 0x1f, 0xe1, 0xe5, 0xef, 0x3f, 0xce, 0xb5, 0xc1, 0x35, 0xab, 0x77, 0x41, 0x33, 0x3c, 0xe5, 0xa6, 0xe8, 0xd, 0x68, 0x16, 0x76, 0x53, 0xf6, 0xb2, 0xb2, 0x4b, 0xcb, 0xcf, 0xaa, 0xaf, 0xf5, 0x7]]"
proof -
  let ?c = "[0x9, 0x1f, 0xe1, 0xe5, 0xef, 0x3f, 0xce, 0xb5, 0xc1, 0x35, 0xab, 0x77, 0x41, 0x33, 0x3c, 0xe5, 0xa6, 0xe8, 0xd, 0x68, 0x16, 0x76, 0x53, 0xf6, 0xb2, 0xb2, 0x4b, 0xcb, 0xcf, 0xaa, 0xaf, 0xf5, 0x7] :: u8 list"
  note u = unit_commitment(2,3)
  have o: "\<forall>c\<in>set [?c]. commitment_ok c" using u(1) by simp
  have 1: "ec_sum Infinity (map commitment_point [?c]) (commitment_point ?c)" unfolding list.map by (rule ec_sum.Cons [OF ec_add.left ec_sum.Nil])
  have "ec_add (Affine (of_int 0x1fe1e5ef3fceb5c135ab7741333ce5a6e80d68167653f6b2b24bcbcfaaaff507) 1) (Affine (of_int 0x1fe1e5ef3fceb5c135ab7741333ce5a6e80d68167653f6b2b24bcbcfaaaff507) (- 1)) Infinity" by (rule ec_add.opposite) (simp add: units)
  then have "ec_add (ec_neg (commitment_point ?c)) (commitment_point ?c) Infinity" unfolding u(2) ec_neg.simps minus_minus .
  then have 2: "ec_sum (ec_neg (commitment_point ?c)) (map commitment_point [?c]) Infinity" unfolding list.map by (rule ec_sum.Cons [OF _ ec_sum.Nil])
  show ?thesis using pedersen_tally_decides [OF o o 1 2] by blast
qed

text \<open>C17: the sum of blinding factors. It fails exactly when more positive factors are claimed than there are factors, or when
  one of them is not below the group order, and then leaves the output as it is; otherwise it is the difference of the two partial
  sums modulo the group order.\<close>

theorem pedersen_blind_sum_correct:
  assumes "\<forall>b\<in>set blinds. length b = 32"
  shows "if npositive \<le> length blinds \<and> (\<forall>b\<in>set blinds. be_val b < order_n)
    then \<exists>bs. pedersen_blind_sum scalar_api_8x32 out blinds npositive = (True, bs) \<and> length bs = 32 \<and>
      be_val bs = (sum_list (map be_val (take npositive blinds)) - sum_list (map be_val (drop npositive blinds))) mod order_n
    else pedersen_blind_sum scalar_api_8x32 out blinds npositive = (False, out)"
proof -
  have z: "scalar_val_8x32 (sa_set_int scalar_api_8x32 0) = 0" using b10.sa_set_int_val [of 0] by simp
  then have "scalar_val_8x32 (sa_set_int scalar_api_8x32 0) < order_n" by (simp add: order_n_def)
  note l = b10.blind_sum_loop [OF assms this, of npositive 0, unfolded z signed_sum_split [of 0 npositive, unfolded add_0]]
  show ?thesis
  proof (cases "pedersen_blind_sum_loop scalar_api_8x32 npositive 0 blinds (sa_set_int scalar_api_8x32 0)")
    case None
    then show ?thesis using l by (auto simp: pedersen_blind_sum_def not_less)
  next
    case (Some acc)
    then show ?thesis using l b10.sa_get_b32_val [of acc] by (auto simp: pedersen_blind_sum_def)
  qed
qed

theorem pedersen_blind_sum_correct_witness:
  "\<exists>bs. pedersen_blind_sum scalar_api_8x32 [] [replicate 31 0 @ [5], replicate 31 0 @ [7]] 1 = (True, bs) \<and> be_val bs = order_n - 2"
proof -
  have l: "\<forall>b\<in>set [replicate 31 (0 :: u8) @ [5], replicate 31 0 @ [7]]. length b = 32" by simp
  have "be_val (replicate n 0) = 0" for n by (induction n) (simp_all add: be_val_Cons)
  then have v: "be_val (replicate 31 0 @ [5]) = 5" "be_val (replicate 31 0 @ [7]) = 7" by (simp_all add: be_val_append be_val_Cons)
  have "(5 - 7 :: int) mod order_n = order_n - 2" by (simp add: order_n_def)
  then show ?thesis
    using pedersen_blind_sum_correct [OF l, of 1 "[]"] by (auto simp: v order_n_def)
qed

text \<open>C10: the commitment \<open>sec * G + value * H\<close>. The digits of the value sum up to it exactly. Let \<open>R1\<close> be what the additions of
  the generator table give for the blinding factor, \<open>R2\<close> what the constant time path gives for the value, and \<open>R\<close> their sum. The code
  reaches a Jacobian form of \<open>R\<close>, and \<open>pedersen_commit\<close> on the encoded inputs writes its affine form, or refuses when \<open>R\<close> is
  infinity.\<close>

theorem pedersen_ecmult_refines:
  assumes "ge_ok fe_mag_10x26 genp" "ge_rep fe_fp_10x26 genp (Affine x y)" "y ^ 2 = x ^ 3 + b" "odd_multiples (Affine x y) 8 T"
    and "ec_add (Affine x y) (Affine x y) A2" "A2 \<noteq> Infinity" "(2 * y) ^ nat (field_p - 1) = 1"
    and "length (tm_prej (cm_table mem)) = 8" "length (tm_zr (cm_table mem)) = 8" "length (cm_pre_a mem) = 8"
    and "length (cm_wnaf_1 mem) = 33" "length (cm_wnaf_lam mem) = 33"
    and "scalar_ok_8x32 sec" "scalar_ok_8x32 (gen_blind ctx)" "gen_prec ctx = Some prec" "gen_table_rep field_ops_10x26 fe_fp_10x26 fe_mag_10x26 prec GT"
    and "gej_ok fe_mag_10x26 (gen_initial ctx)" "gej_rep fe_fp_10x26 (gen_initial ctx) P" "on_curve P"
    and "v = (scalar_val_8x32 sec + scalar_val_8x32 (gen_blind ctx)) mod order_n"
    and "ct_sum 7 P (map (\<lambda>j. GT j (hex_digit v j)) [0..<64]) R1"
  shows "\<exists>d1 s1 dl sl. length d1 = 33 \<and> (\<forall>i\<le>16. digit_ok 8 (d1 ! i)) \<and> (s1 = 1 \<or> s1 = 2) \<and>
    (digit_sum 4 (take (Suc 16) d1) - int s1) mod order_n = uint val \<and>
    (\<forall>R2 R. const_path b False (Affine x y) A2 T d1 dl 16 s1 sl R2 \<longrightarrow> ec_add R1 R2 R \<longrightarrow>
      (\<exists>j. pedersen_ecmult field_ops_10x26 scalar_api_8x32 mem zeros ctx sec val genp = Some j \<and> gej_ok fe_mag_10x26 j \<and> gej_rep fe_fp_10x26 j R \<and>
        (genp = generator_load field_ops_10x26 gen \<and> scalar_set_b32_8x32 blind = (0, sec) \<longrightarrow>
          pedersen_commit field_ops_10x26 scalar_api_8x32 mem zeros ctx out blind val gen =
            Some (if R = Infinity then (False, out) else (True, pedersen_commitment_save field_ops_10x26 (fst (ge_set_gej field_ops_10x26 j)))))))"
proof -
  let ?s = "pedersen_scalar_set_u64 scalar_api_8x32 val"
  have s: "scalar_val_8x32 ?s = uint val" by (rule b10.set_u64_val)
  have u: "uint val < 2 ^ 64" using uint_bounded [of val] by simp
  have ok: "scalar_ok_8x32 ?s" using u by (simp add: scalar_ok_8x32_def s order_n_def)
  have z: "(0 :: nat) < 64" "False = ((128 :: nat) < 64)" "False \<or> scalar_val_8x32 ?s < 2 ^ 64" using u by (simp_all add: s)
  have N: "(16 :: nat) = WNAF_SIZE (if False then 128 else 64) (WINDOW_A - 1)" by (simp add: WNAF_SIZE_def WINDOW_A_def)
  obtain d1 s1 dl sl where 1: "length d1 = 33" "\<forall>i\<le>16. digit_ok 8 (d1 ! i)" "s1 = 1 \<or> s1 = 2"
      "(digit_sum 4 (take (Suc 16) d1) - int s1 + (if False then scalar_lambda * (digit_sum 4 (take (Suc 16) dl) - int sl) else 0)) mod order_n = scalar_val_8x32 ?s"
    and r: "\<forall>R. const_path b False (Affine x y) A2 T d1 dl 16 s1 sl R \<longrightarrow>
      (\<exists>r. ecmult_const field_ops_10x26 scalar_api_8x32 mem genp ?s 64 = Some r \<and> gej_ok fe_mag_10x26 r \<and> gej_rep fe_fp_10x26 r R)"
    using const_correct_10x26 [OF ok z assms(1-12) N] by blast
  obtain rj where g: "ecmult_gen field_ops_10x26 scalar_api_8x32 zeros ctx sec = Some rj" "gej_ok fe_mag_10x26 rj" "gej_rep fe_fp_10x26 rj R1"
    using b10.gen_rep [of sec ctx prec GT P v R1 zeros, unfolded fv_fe_fp_10x26] assms(13-21) unfolding scalar_ok_8x32_def by blast
  have "\<exists>j. pedersen_ecmult field_ops_10x26 scalar_api_8x32 mem zeros ctx sec val genp = Some j \<and> gej_ok fe_mag_10x26 j \<and> gej_rep fe_fp_10x26 j R \<and>
        (genp = generator_load field_ops_10x26 gen \<and> scalar_set_b32_8x32 blind = (0, sec) \<longrightarrow>
          pedersen_commit field_ops_10x26 scalar_api_8x32 mem zeros ctx out blind val gen =
            Some (if R = Infinity then (False, out) else (True, pedersen_commitment_save field_ops_10x26 (fst (ge_set_gej field_ops_10x26 j)))))"
    if cp: "const_path b False (Affine x y) A2 T d1 dl 16 s1 sl R2" and ea: "ec_add R1 R2 R" for R2 R
  proof -
    obtain vj where c: "ecmult_const field_ops_10x26 scalar_api_8x32 mem genp ?s 64 = Some vj" "gej_ok fe_mag_10x26 vj" "gej_rep fe_fp_10x26 vj R2"
      using r cp by blast
    let ?j = "fst (gej_add_var field_ops_10x26 rj rj vj None)"
    have j: "gej_ok fe_mag_10x26 ?j" "gej_rep fe_fp_10x26 ?j R"
      using e10.add_var_rep [of rj rj vj R1 R2 R None, unfolded fv_fe_fp_10x26] g(2,3) c(2,3) ea by blast+
    have e: "pedersen_ecmult field_ops_10x26 scalar_api_8x32 mem zeros ctx sec val genp = Some ?j"
      using g(1) c(1) by (simp add: pedersen_ecmult_def pedersen_ecmult_small_def)
    have i: "gej_is_infinity ?j \<longleftrightarrow> R = Infinity" using b10.rep_infinity [unfolded fv_fe_fp_10x26, OF j(2)] .
    have "pedersen_commit field_ops_10x26 scalar_api_8x32 mem zeros ctx out blind val gen =
        Some (if R = Infinity then (False, out) else (True, pedersen_commitment_save field_ops_10x26 (fst (ge_set_gej field_ops_10x26 ?j))))"
      if "genp = generator_load field_ops_10x26 gen" "scalar_set_b32_8x32 blind = (0, sec)"
      using that e i assms(15) by (simp add: pedersen_commit_def ecmult_gen_context_is_built_def scalar_api_8x32_def case_prod_beta Let_def)
    then show ?thesis using e j by blast
  qed
  then show ?thesis using 1 s by (intro exI [of _ d1] exI [of _ s1] exI [of _ dl] exI [of _ sl]) simp
qed

theorem pedersen_ecmult_refines_witness:
  "\<exists>j. pedersen_ecmult field_ops_10x26 scalar_api_8x32 small_const_mem (ge_to_storage field_ops_10x26 (ge_const_g field_ops_10x26))
      \<lparr>gen_prec = Some (map (\<lambda>j. replicate 16 (ge_to_storage field_ops_10x26 (if even j then ge_const_g field_ops_10x26
          else ge_neg field_ops_10x26 (ge_const_g field_ops_10x26)))) [0..<64]),
        gen_blind = Scalar8 1 0 0 0 0 0 0 0, gen_initial = \<lparr>jx = FE10 0 0 0 0 0 0 0 0 0 0, jy = FE10 0 0 0 0 0 0 0 0 0 0, jz = FE10 0 0 0 0 0 0 0 0 0 0, jinf = True\<rparr>\<rparr>
      (Scalar8 5 0 0 0 0 0 0 0) 0 small_const_ge = Some j \<and> gej_rep fe_fp_10x26 j Infinity"
    (is "\<exists>j. pedersen_ecmult _ _ _ ?z ?ctx ?s _ _ = Some j \<and> _")
proof -
  let ?p = "map (\<lambda>j. replicate 16 (ge_to_storage field_ops_10x26 (if even j then ge_const_g field_ops_10x26
          else ge_neg field_ops_10x26 (ge_const_g field_ops_10x26)))) [0..<64]"
  have s: "scalar_ok_8x32 ?s" "scalar_ok_8x32 (gen_blind ?ctx)" by (simp_all add: eval_8x32)
  have p: "gen_prec ?ctx = Some ?p" by simp
  have i: "gej_ok fe_mag_10x26 (gen_initial ?ctx)" "gej_rep fe_fp_10x26 (gen_initial ?ctx) Infinity" "on_curve Infinity"
    by (simp_all add: gej_ok_def gej_rep_def fe_mag_10x26_def limbs_le_10x26_def)
  note t = b10.alternating_table [unfolded fv_fe_fp_10x26] and a = b10.alternating_sum [of 32, unfolded fv_fe_fp_10x26, simplified]
  obtain d1 s1 dl sl where 1: "length d1 = 33" "\<forall>i\<le>16. digit_ok 8 (d1 ! i)" "s1 = 1 \<or> s1 = 2"
      "(digit_sum 4 (take (Suc 16) d1) - int s1) mod order_n = uint (0 :: u64)"
    and r: "\<forall>R2 R. const_path (1 * small_scale ^ 6) False (Affine (2 * small_scale ^ 2) (3 * small_scale ^ 3)) (ec_scale small_scale (Affine 0 1))
        (\<lambda>i. ec_scale small_scale (small_table i)) d1 dl 16 s1 sl R2 \<longrightarrow> ec_add Infinity R2 R \<longrightarrow>
      (\<exists>j. pedersen_ecmult field_ops_10x26 scalar_api_8x32 small_const_mem ?z ?ctx ?s 0 small_const_ge = Some j \<and> gej_ok fe_mag_10x26 j \<and> gej_rep fe_fp_10x26 j R \<and>
        (small_const_ge = generator_load field_ops_10x26 [] \<and> scalar_set_b32_8x32 [] = (0, ?s) \<longrightarrow>
          pedersen_commit field_ops_10x26 scalar_api_8x32 small_const_mem ?z ?ctx [] [] 0 [] =
            Some (if R = Infinity then (False, []) else (True, pedersen_commitment_save field_ops_10x26 (fst (ge_set_gej field_ops_10x26 j))))))"
    using pedersen_ecmult_refines [OF small_const_point small_const_mem_length s p t i refl a, of 0 ?z "[]" "[]" "[]"] by blast
  have "(digit_sum 4 (take (Suc 16) d1) - int s1) mod order_n = 0" using 1(4) by simp
  from r small_const_zero [OF 1(1-3) this] show ?thesis using ec_add.left by blast
qed

text \<open>C18: an affine curve point is written as a commitment and as a generator, the bytes pass the parsers and the
  serializers unchanged, and reading them gives the point back; the first byte tells whether \<open>y\<close> is a square. The hypothesis is Euler's
  criterion for \<open>y\<close>.\<close>

theorem commitment_roundtrip:
  assumes "ge_ok fe_mag_10x26 a" "ge_rep fe_fp_10x26 a (Affine x y)" "on_curve (Affine x y)"
    and "y ^ nat ((field_p - 1) div 2) = e" "e = 1 \<or> e = - 1" "2 * y dvd 1"
    and "c = pedersen_commitment_save field_ops_10x26 a" "g = generator_save field_ops_10x26 a"
  shows "commitment_ok c \<and> commitment_point c = Affine x y \<and> c ! 0 = (if e = 1 then 8 else 9) \<and>
    pedersen_commitment_parse out c = (True, c) \<and> pedersen_commitment_serialize c = c \<and>
    ge_rep fe_fp_10x26 (pedersen_commitment_load field_ops_10x26 c) (Affine x y) \<and>
    g ! 0 = (if e = 1 then 10 else 11) \<and> generator_parse out g = (True, g) \<and> generator_serialize g = g \<and>
    ge_rep fe_fp_10x26 (generator_load field_ops_10x26 g) (Affine x y)"
proof -
  have cv: "y ^ 2 = x ^ 3 + 7" using assms(3) by simp
  note b = assms(1,2) cv assms(4-6)
  have c: "c = (9 XOR of_bool (fe_is_quad_var field_ops_10x26 (gy a))) # fe_get_b32 field_ops_10x26 (fe_normalize field_ops_10x26 (gx a))"
    by (simp add: assms(7) pedersen_commitment_save_def Let_def)
  have g: "g = (11 XOR of_bool (fe_is_quad_var field_ops_10x26 (gy a))) # fe_get_b32 field_ops_10x26 (fe_normalize field_ops_10x26 (gx a))"
    by (simp add: assms(8) generator_save_def Let_def)
  have t: "9 AND 1 = (1 :: u8)" "11 AND 1 = (1 :: u8)" by simp_all
  note C = b10.save_load [unfolded fv_fe_fp_10x26, OF b c t(1) pedersen_commitment_load_def]
  note G = b10.save_load [unfolded fv_fe_fp_10x26, OF b g t(2) generator_load_def]
  have ok: "commitment_ok c" using C(1,3) b10.Rep_fp_range [of x] by (simp add: commitment_ok_def)
  have "ge_rep fe_fp_10x26 (pedersen_commitment_load field_ops_10x26 c) (commitment_point c)"
    using b10.commitment_load_rep(2) [OF ok, unfolded fv_fe_fp_10x26] .
  then have "commitment_point c = Affine x y" using C(5) by (cases "commitment_point c") (auto simp: ge_rep_def)
  then show ?thesis
    using C G ok by (simp add: pedersen_commitment_parse_def pedersen_commitment_serialize_def generator_parse_def generator_serialize_def)
qed

text \<open>The witness has the \<open>y\<close> coordinate -1, which is not a square.\<close>

theorem commitment_roundtrip_witness:
  "pedersen_commitment_save field_ops_10x26 \<lparr>gx = fe_const field_ops_10x26 0x1fe1e5ef 0x3fceb5c1 0x35ab7741 0x333ce5a6 0xe80d6816 0x7653f6b2 0xb24bcbcf 0xaaaff507,
    gy = fe_const field_ops_10x26 0xffffffff 0xffffffff 0xffffffff 0xffffffff 0xffffffff 0xffffffff 0xfffffffe 0xfffffc2e, ginf = False\<rparr> ! 0 = 9"
    (is "pedersen_commitment_save _ ?a ! 0 = 9")
proof -
  have "limbs_val 32 [0xaaaff507, 0xb24bcbcf, 0x7653f6b2, 0xe80d6816, 0x333ce5a6, 0x35ab7741, 0x3fceb5c1, 0x1fe1e5ef :: u32] < field_p" "limbs_val 32 [0xfffffc2e, 0xfffffffe, 0xffffffff, 0xffffffff, 0xffffffff, 0xffffffff, 0xffffffff, 0xffffffff :: u32] < field_p"
    by (simp_all add: limbs_val_Cons field_p_def)
  note c = f10.const [OF this(1)] f10.const [OF this(2)]
  have m: "(of_int 0xfffffffffffffffffffffffffffffffffffffffffffffffffffffffefffffc2e :: fp) = of_int (- 1)" by (rule fp_quotient_eqI [where q = 1]) (simp add: field_p_def)
  have "fe_fp_10x26 (gx ?a) = of_int 0x1fe1e5ef3fceb5c135ab7741333ce5a6e80d68167653f6b2b24bcbcfaaaff507" "fe_fp_10x26 (gy ?a) = of_int 0xfffffffffffffffffffffffffffffffffffffffffffffffffffffffefffffc2e"
    using c by (simp_all add: limbs_val_Cons f10.fv_def flip: fv_fe_fp_10x26)
  then have v: "fe_fp_10x26 (gx ?a) = of_int 0x1fe1e5ef3fceb5c135ab7741333ce5a6e80d68167653f6b2b24bcbcfaaaff507" "fe_fp_10x26 (gy ?a) = - 1" unfolding m by (simp_all only: of_int_minus of_int_1)
  have a: "ge_ok fe_mag_10x26 ?a" "ge_rep fe_fp_10x26 ?a (Affine (of_int 0x1fe1e5ef3fceb5c135ab7741333ce5a6e80d68167653f6b2b24bcbcfaaaff507) (- 1))"
    using v c f10.nrm_mag f10.mag_mono [of 1 _ 8] by (simp_all add: ge_ok_def ge_rep_def)
  have o: "on_curve (Affine (of_int 0x1fe1e5ef3fceb5c135ab7741333ce5a6e80d68167653f6b2b24bcbcfaaaff507) (- 1))" using cube_root by simp
  have "odd (nat ((field_p - 1) div 2))" by (simp add: field_p_def)
  then have e: "(- 1 :: fp) ^ nat ((field_p - 1) div 2) = - 1" by simp
  have u: "2 * (- 1 :: fp) dvd 1" by (simp add: units)
  have n: "(- 1 :: fp) \<noteq> 1"
  proof
    assume "(- 1 :: fp) = 1"
    then have "(of_int (- 1) :: fp) = of_int 1" by simp
    then show False unfolding fp_eq_iff by (simp add: field_p_def)
  qed
  show ?thesis using commitment_roundtrip [OF a o e _ u refl refl] n by simp
qed


text \<open>C19: a switch commitment multiplies its generator by a blinding factor of 256 bits with a routine that is told 64
  bits. Two factors that agree in the 68 low bits give the same commitment, whatever their other bits are.\<close>

theorem switch_commit_low_bits:
  assumes "length blind = 32" "length blind' = 32" "be_val blind < order_n" "be_val blind' < order_n" "be_val blind mod 2 ^ 68 = be_val blind' mod 2 ^ 68"
  shows "switch_commit field_ops_10x26 scalar_api_8x32 mem built out blind gen = switch_commit field_ops_10x26 scalar_api_8x32 mem built out blind' gen"
proof -
  have v: "scalar_val_8x32 (snd (sa_set_b32 scalar_api_8x32 b)) = be_val b \<and> fst (sa_set_b32 scalar_api_8x32 b) = 0" if "length b = 32" "be_val b < order_n" for b
    using b10.sa_set_b32_val [OF that(1)] b10.sa_set_b32_flag [OF that(1)] that(2) be_val_bounds(1) [of b] by simp
  have "switch_ecmult field_ops_10x26 scalar_api_8x32 mem (snd (sa_set_b32 scalar_api_8x32 blind)) g =
      switch_ecmult field_ops_10x26 scalar_api_8x32 mem (snd (sa_set_b32 scalar_api_8x32 blind')) g" for g
    unfolding switch_ecmult_def by (rule b10.const_low) (use v assms in simp)
  then show ?thesis using v [OF assms(1,3)] v [OF assms(2,4)] by (simp add: switch_commit_def case_prod_beta Let_def)
qed

theorem switch_commit_low_bits_witness:
  "switch_commit field_ops_10x26 scalar_api_8x32 small_const_mem True [] (replicate 32 0) generator_j_internal =
    switch_commit field_ops_10x26 scalar_api_8x32 small_const_mem True [] (replicate 15 0 @ [1] @ replicate 16 0) generator_j_internal"
proof -
  have z: "be_val (replicate n 0) = 0" for n by (induction n) (simp_all add: be_val_Cons)
  have v: "be_val (replicate 15 0 @ [1] @ replicate 16 0) = 2 ^ 128" by (simp add: be_val_append be_val_Cons z)
  show ?thesis by (rule switch_commit_low_bits) (simp_all add: z v order_n_def del: append.simps append_Cons)
qed

end
