(* ===== verification/Api.thy ===== *)
theory Api
  imports Ecdsa Eckey Ecdsa_Der
begin

text \<open>
  The entry points of the library, \<open>secp256k1.c\<close>: contexts, the opaque keys and signatures, and the functions that check their
  arguments, unpack these, call the components and pack the result. All pointers are valid; a failed \<open>ARG_CHECK\<close> returns 0 when the
  callback returns. Keys and signatures hold the memory of the internal structs (their sizes are 64 and 32 bytes in the
  program's configuration); the functions between the two are collected in \<open>memory_image\<close>. Clearing of local variables is left out.
\<close>

subsection \<open>Contexts (secp256k1.c 62--114)\<close>

record ('fe, 's, 'st) secp_context =
  cx_ecmult :: "'st ecmult_context"
  cx_gen :: "('fe, 's, 'st) ecmult_gen_context"
  cx_switch :: "('fe, 's, 'st) ecmult_gen_context"

record 'fe build_mem =
  bm_hash :: "hmac_sha256 \<times> sha256"
  bm_gen :: "'fe gen_mem"
  bm_table :: "'fe table_mem \<times> 'fe ge list"
  bm_table_128 :: "'fe table_mem \<times> 'fe ge list"

text \<open>\<open>ret\<close> is the new memory. The inner \<open>None\<close> is the null pointer.\<close>

definition context_create :: "('fe, 'st) field_ops \<Rightarrow> 's scalar_api \<Rightarrow> 'st ge_storage \<Rightarrow> 'fe build_mem \<Rightarrow> ('fe, 's, 'st) secp_context \<Rightarrow> u32 \<Rightarrow>
    ('fe, 's, 'st) secp_context option option" where
  "context_create ops api zeros bm ret flags =
    (if flags AND 0xFF \<noteq> 0x01 then Some None
     else let ret = ret\<lparr>cx_ecmult := ecmult_context_init (cx_ecmult ret)\<rparr>;
              ret = ret\<lparr>cx_gen := ecmult_gen_context_init (cx_gen ret)\<rparr>;
              ret = ret\<lparr>cx_switch := ecmult_gen_context_init (cx_switch ret)\<rparr>
          in map_option (\<lambda>ret. Some (if flags AND 0x100 \<noteq> 0
                 then ret\<lparr>cx_ecmult := ecmult_context_build ops (bm_table bm) (bm_table_128 bm) (cx_ecmult ret)\<rparr> else ret))
               (if flags AND 0x200 \<noteq> 0
                then Option.bind (ecmult_gen_context_build ops api (bm_hash bm) zeros (bm_gen bm) (cx_gen ret)) (\<lambda>gen.
                     map_option (\<lambda>switch. ret\<lparr>cx_gen := gen, cx_switch := switch\<rparr>)
                       (ecmult_gen_context_build ops api (bm_hash bm) zeros (bm_gen bm) (cx_switch ret)))
                else Some ret))"

definition context_clone :: "('fe, 's, 'st) secp_context \<Rightarrow> ('fe, 's, 'st) secp_context \<Rightarrow> ('fe, 's, 'st) secp_context" where
  "context_clone ret ctx =
    (let ret = ret\<lparr>cx_ecmult := ecmult_context_clone (cx_ecmult ret) (cx_ecmult ctx)\<rparr>;
         ret = ret\<lparr>cx_gen := ecmult_gen_context_clone (cx_gen ret) (cx_gen ctx)\<rparr>
     in ret\<lparr>cx_switch := ecmult_gen_context_clone (cx_switch ret) (cx_switch ctx)\<rparr>)"

definition context_randomize :: "('fe, 'st) field_ops \<Rightarrow> 's scalar_api \<Rightarrow> hmac_sha256 \<times> sha256 \<Rightarrow> 'st ge_storage \<Rightarrow> ('fe, 's, 'st) secp_context \<Rightarrow> u8 list option \<Rightarrow>
    (bool \<times> ('fe, 's, 'st) secp_context) option" where
  "context_randomize ops api mem zeros ctx seed32 =
    (if \<not> ecmult_gen_context_is_built (cx_gen ctx) then Some (False, ctx)
     else map_option (\<lambda>gen. (True, ctx\<lparr>cx_gen := gen\<rparr>)) (ecmult_gen_blind ops api mem zeros (cx_gen ctx) seed32))"

subsection \<open>Opaque data (secp256k1.c 132--163 and 203--225)\<close>

record ('s, 'st) memory_image =
  mi_fe :: "'st \<Rightarrow> u8 list"
  mi_fe_load :: "u8 list \<Rightarrow> 'st"
  mi_sc :: "'s \<Rightarrow> u8 list"
  mi_sc_load :: "u8 list \<Rightarrow> 's"

definition pubkey_load :: "('fe, 'st) field_ops \<Rightarrow> ('s, 'st) memory_image \<Rightarrow> u8 list \<Rightarrow> bool \<times> 'fe ge" where
  "pubkey_load ops mi pubkey =
    (let s = \<lparr>sx = mi_fe_load mi (take 32 pubkey), sy = mi_fe_load mi (take 32 (drop 32 pubkey))\<rparr>;
         ge = ge_from_storage ops s
     in (\<not> fe_is_zero ops (gx ge), ge))"

definition pubkey_save :: "('fe, 'st) field_ops \<Rightarrow> ('s, 'st) memory_image \<Rightarrow> 'fe ge \<Rightarrow> u8 list" where
  "pubkey_save ops mi ge = (let s = ge_to_storage ops ge in mi_fe mi (sx s) @ mi_fe mi (sy s))"

definition signature_load :: "('s, 'st) memory_image \<Rightarrow> u8 list \<Rightarrow> 's \<times> 's" where
  "signature_load mi sig = (mi_sc_load mi (take 32 sig), mi_sc_load mi (take 32 (drop 32 sig)))"

definition signature_save :: "('s, 'st) memory_image \<Rightarrow> 's \<Rightarrow> 's \<Rightarrow> u8 list" where
  "signature_save mi r s = mi_sc mi r @ mi_sc mi s"

subsection \<open>Public keys (secp256k1.c 165--201)\<close>

text \<open>\<open>Q\<close> is an uninitialized local.\<close>

definition ec_pubkey_parse :: "('fe, 'st) field_ops \<Rightarrow> ('s, 'st) memory_image \<Rightarrow> 'fe ge \<Rightarrow> u8 list \<Rightarrow> bool \<times> u8 list" where
  "ec_pubkey_parse ops mi Q input =
    (let pubkey = replicate 64 0;
         (ok, Q) = eckey_pubkey_parse ops Q input
     in if \<not> ok then (False, pubkey) else (True, pubkey_save ops mi Q))"

definition ec_pubkey_serialize :: "('fe, 'st) field_ops \<Rightarrow> ('s, 'st) memory_image \<Rightarrow> u8 list \<Rightarrow> nat \<Rightarrow> u8 list \<Rightarrow> u32 \<Rightarrow> bool \<times> u8 list \<times> nat" where
  "ec_pubkey_serialize ops mi output outputlen pubkey flags =
    (if \<not> (if flags AND 0x100 \<noteq> 0 then 33 else 65) \<le> outputlen then (False, output, outputlen)
     else let len = outputlen;
              outputlen = 0;
              output = replicate len 0 @ drop len output
          in if flags AND 0xFF \<noteq> 0x02 then (False, output, outputlen)
             else let (ok, Q) = pubkey_load ops mi pubkey
                  in if ok
                     then let (ret, Q, output, len) = eckey_pubkey_serialize ops Q output len (flags AND 0x100 \<noteq> 0)
                          in (ret, output, if ret then len else outputlen)
                     else (False, output, outputlen))"

subsection \<open>Signatures (secp256k1.c 243--323)\<close>

definition signature_parse_compact :: "'s scalar_api \<Rightarrow> ('s, 'st) memory_image \<Rightarrow> u8 list \<Rightarrow> bool \<times> u8 list" where
  "signature_parse_compact api mi input64 =
    (let ret = True;
         (overflow, r) = sa_set_b32 api (take 32 input64);
         ret = (ret \<and> overflow = 0);
         (overflow, s) = sa_set_b32 api (take 32 (drop 32 input64));
         ret = (ret \<and> overflow = 0)
     in if ret then (ret, signature_save mi r s) else (ret, replicate 64 0))"

definition signature_serialize_compact :: "'s scalar_api \<Rightarrow> ('s, 'st) memory_image \<Rightarrow> u8 list \<Rightarrow> bool \<times> u8 list" where
  "signature_serialize_compact api mi sig =
    (let (r, s) = signature_load mi sig in (True, sa_get_b32 api r @ sa_get_b32 api s))"

text \<open>The encoding of \<open>Ecdsa_Der\<close>, for the representation used there; \<open>r\<close> and \<open>s\<close> are uninitialized locals.\<close>

definition signature_parse_der :: "(scalar_4x64, 'st) memory_image \<Rightarrow> scalar_4x64 \<Rightarrow> scalar_4x64 \<Rightarrow> u8 list \<Rightarrow> (bool \<times> u8 list) option" where
  "signature_parse_der mi r s input =
    map_option (\<lambda>(ok, r, s). if ok then (True, signature_save mi r s) else (False, replicate 64 0)) (ecdsa_sig_parse r s input)"

definition signature_serialize_der :: "(scalar_4x64, 'st) memory_image \<Rightarrow> u8 list \<Rightarrow> nat \<Rightarrow> u8 list \<Rightarrow> bool \<times> u8 list \<times> nat" where
  "signature_serialize_der mi output outputlen sig = (let (r, s) = signature_load mi sig in ecdsa_sig_serialize output outputlen r s)"

text \<open>The output signature is optional.\<close>

definition signature_normalize :: "'s scalar_api \<Rightarrow> ('s, 'st) memory_image \<Rightarrow> u8 list option \<Rightarrow> u8 list \<Rightarrow> bool \<times> u8 list option" where
  "signature_normalize api mi sigout sigin =
    (let (r, s) = signature_load mi sigin;
         ret = sa_is_high api s
     in (ret, map_option (\<lambda>_. let s = (if ret then sa_negate api s else s) in signature_save mi r s) sigout))"

definition ecdsa_verify :: "('fe, 'st) field_ops \<Rightarrow> 's scalar_api \<Rightarrow> ('s, 'st) memory_image \<Rightarrow> 'fe ecmult_mem \<Rightarrow> 'fe gej \<Rightarrow> ('fe, 's, 'st) secp_context \<Rightarrow>
    u8 list \<Rightarrow> u8 list \<Rightarrow> u8 list \<Rightarrow> bool option" where
  "ecdsa_verify ops api mi mem pr ctx sig msg32 pubkey =
    (if \<not> ecmult_context_is_built (cx_ecmult ctx) then Some False
     else let (_, m) = sa_set_b32 api msg32;
              (r, s) = signature_load mi sig
          in if sa_is_high api s then Some False
             else let (ok, q) = pubkey_load ops mi pubkey
                  in if \<not> ok then Some False
                     else ecdsa_sig_verify ops api mem pr (cx_ecmult ctx) r s q m)"

subsection \<open>Nonces (secp256k1.c 325--358)\<close>

text \<open>The loop over \<open>i\<close> has the upper bound \<open>counter\<close> included, so that it does not end for the largest \<open>counter\<close>.\<close>

partial_function (option) nonce_loop :: "hmac_sha256 \<Rightarrow> sha256 \<Rightarrow> u32 \<Rightarrow> u32 \<Rightarrow> rfc6979 \<Rightarrow> u8 list \<Rightarrow> (rfc6979 \<times> u8 list) option" where
  "nonce_loop hmac sha counter i rng nonce32 =
    (if i \<le> counter
     then Option.bind (rfc6979_generate hmac sha rng 32) (\<lambda>(rng, nonce32). nonce_loop hmac sha counter (i + 1) rng nonce32)
     else Some (rng, nonce32))"

definition nonce_keydata :: "u8 list \<Rightarrow> u8 list \<Rightarrow> u8 list option \<Rightarrow> u8 list option \<Rightarrow> u8 list" where
  "nonce_keydata key32 msg32 data algo16 =
    take 32 key32 @ take 32 msg32 @ (case data of None \<Rightarrow> [] | Some d \<Rightarrow> take 32 d) @ (case algo16 of None \<Rightarrow> [] | Some a \<Rightarrow> take 16 a)"

definition nonce_function_rfc6979 :: "hmac_sha256 \<times> sha256 \<Rightarrow> u8 list \<Rightarrow> u8 list \<Rightarrow> u8 list \<Rightarrow> u8 list option \<Rightarrow> u8 list option \<Rightarrow> u32 \<Rightarrow>
    (bool \<times> u8 list) option" where
  "nonce_function_rfc6979 mem nonce32 msg32 key32 algo16 data counter =
    (let (hmac, sha) = mem;
         keydata = nonce_keydata key32 msg32 data algo16;
         rng = rfc6979_initialize hmac sha keydata
     in map_option (\<lambda>(rng, nonce32). let rng = rfc6979_finalize rng in (True, nonce32)) (nonce_loop hmac sha counter 0 rng nonce32))"

subsection \<open>Signing (secp256k1.c 360--404)\<close>

text \<open>A nonce function takes the buffer, the message, the key, the algorithm, its data and the counter; \<open>None\<close> is a call that does not
  return. The loop ends when the function fails, or with the first nonce in range that gives a signature.\<close>

type_synonym 'd nonce_function = "u8 list \<Rightarrow> u8 list \<Rightarrow> u8 list \<Rightarrow> u8 list option \<Rightarrow> 'd \<Rightarrow> u32 \<Rightarrow> (bool \<times> u8 list) option"

partial_function (option) sign_loop :: "'s scalar_api \<Rightarrow> (u32 \<Rightarrow> u8 list \<Rightarrow> (bool \<times> u8 list) option) \<Rightarrow> ('s \<Rightarrow> 'o \<Rightarrow> (bool \<times> 'o) option) \<Rightarrow> u8 list \<Rightarrow> u32 \<Rightarrow> 'o \<Rightarrow>
    (bool \<times> 'o) option" where
  "sign_loop api noncefp sign nonce32 count out =
    Option.bind (noncefp count nonce32) (\<lambda>(ret, nonce32).
      if \<not> ret then Some (ret, out)
      else let (overflow, non) = sa_set_b32 api nonce32
           in if overflow = 0 \<and> \<not> sa_is_zero api non
              then Option.bind (sign non out) (\<lambda>(ok, out).
                if ok then Some (ret, out) else sign_loop api noncefp sign nonce32 (count + 1) out)
              else sign_loop api noncefp sign nonce32 (count + 1) out)"

definition ecdsa_sign :: "('fe, 'st) field_ops \<Rightarrow> 's scalar_api \<Rightarrow> ('s, 'st) memory_image \<Rightarrow> 'st ge_storage \<Rightarrow> u8 list \<Rightarrow> 's \<times> 's \<Rightarrow> ('fe, 's, 'st) secp_context \<Rightarrow>
    u8 list \<Rightarrow> u8 list \<Rightarrow> u8 list \<Rightarrow> 'd nonce_function \<Rightarrow> 'd \<Rightarrow> (bool \<times> u8 list) option" where
  "ecdsa_sign ops api mi zeros nonce32 rs ctx signature msg32 seckey noncefp noncedata =
    (if \<not> ecmult_gen_context_is_built (cx_gen ctx) then Some (False, signature)
     else let (overflow, sec) = sa_set_b32 api seckey
          in map_option (\<lambda>(ret, r, s). (ret, if ret then signature_save mi r s else replicate 64 0))
               (if overflow = 0 \<and> \<not> sa_is_zero api sec
                then let (_, msg) = sa_set_b32 api msg32
                     in sign_loop api (\<lambda>count nonce32. noncefp nonce32 msg32 seckey None noncedata count)
                          (\<lambda>non _. map_option (\<lambda>(ok, r, s, _). (ok, r, s)) (ecdsa_sig_sign ops api zeros (cx_gen ctx) sec msg non None))
                          nonce32 0 rs
                else Some (False, rs)))"

subsection \<open>Secret keys (secp256k1.c 406--452, 469--490 and 516--536)\<close>

definition ec_seckey_verify :: "'s scalar_api \<Rightarrow> u8 list \<Rightarrow> bool" where
  "ec_seckey_verify api seckey = (let (overflow, sec) = sa_set_b32 api seckey in overflow = 0 \<and> \<not> sa_is_zero api sec)"

definition ec_privkey_negate :: "'s scalar_api \<Rightarrow> u8 list \<Rightarrow> bool \<times> u8 list" where
  "ec_privkey_negate api seckey = (let (_, sec) = sa_set_b32 api seckey; sec = sa_negate api sec in (True, sa_get_b32 api sec))"

definition ec_privkey_tweak_add :: "'s scalar_api \<Rightarrow> u8 list \<Rightarrow> u8 list \<Rightarrow> bool \<times> u8 list" where
  "ec_privkey_tweak_add api seckey tweak =
    (let (overflow, term) = sa_set_b32 api tweak;
         (_, sec) = sa_set_b32 api seckey;
         (ret, sec) = (if overflow \<noteq> 0 then (False, sec) else eckey_privkey_tweak_add api sec term)
     in (ret, if ret then sa_get_b32 api sec else replicate 32 0))"

definition ec_privkey_tweak_mul :: "'s scalar_api \<Rightarrow> u8 list \<Rightarrow> u8 list \<Rightarrow> bool \<times> u8 list" where
  "ec_privkey_tweak_mul api seckey tweak =
    (let (overflow, factor) = sa_set_b32 api tweak;
         (_, sec) = sa_set_b32 api seckey;
         (ret, sec) = (if overflow \<noteq> 0 then (False, sec) else eckey_privkey_tweak_mul api sec factor)
     in (ret, if ret then sa_get_b32 api sec else replicate 32 0))"

subsection \<open>Operations on public keys (secp256k1.c 419--467, 492--514 and 538--591)\<close>

definition ec_pubkey_create :: "('fe, 'st) field_ops \<Rightarrow> 's scalar_api \<Rightarrow> ('s, 'st) memory_image \<Rightarrow> 'st ge_storage \<Rightarrow> ('fe, 's, 'st) secp_context \<Rightarrow> u8 list \<Rightarrow>
    (bool \<times> u8 list) option" where
  "ec_pubkey_create ops api mi zeros ctx seckey =
    (let pubkey = replicate 64 0
     in if \<not> ecmult_gen_context_is_built (cx_gen ctx) then Some (False, pubkey)
        else let (overflow, sec) = sa_set_b32 api seckey
             in if overflow = 0 \<and> \<not> sa_is_zero api sec
                then map_option (\<lambda>pj. let (p, pj) = ge_set_gej ops pj in (True, pubkey_save ops mi p)) (ecmult_gen ops api zeros (cx_gen ctx) sec)
                else Some (False, pubkey))"

definition ec_pubkey_negate :: "('fe, 'st) field_ops \<Rightarrow> ('s, 'st) memory_image \<Rightarrow> u8 list \<Rightarrow> bool \<times> u8 list" where
  "ec_pubkey_negate ops mi pubkey =
    (let (ret, p) = pubkey_load ops mi pubkey
     in (ret, if ret then pubkey_save ops mi (ge_neg ops p) else replicate 64 0))"

definition ec_pubkey_tweak_add :: "('fe, 'st) field_ops \<Rightarrow> 's scalar_api \<Rightarrow> ('s, 'st) memory_image \<Rightarrow> 'fe ecmult_mem \<Rightarrow> ('fe, 's, 'st) secp_context \<Rightarrow> u8 list \<Rightarrow> u8 list \<Rightarrow>
    (bool \<times> u8 list) option" where
  "ec_pubkey_tweak_add ops api mi mem ctx pubkey tweak =
    (if \<not> ecmult_context_is_built (cx_ecmult ctx) then Some (False, pubkey)
     else let (overflow, term) = sa_set_b32 api tweak;
              (ok, p) = pubkey_load ops mi pubkey;
              ret = (overflow = 0 \<and> ok)
          in if ret
             then map_option (\<lambda>(ok, p). if ok then (True, pubkey_save ops mi p) else (False, replicate 64 0))
                    (eckey_pubkey_tweak_add ops api mem (cx_ecmult ctx) p term)
             else Some (False, replicate 64 0))"

definition ec_pubkey_tweak_mul :: "('fe, 'st) field_ops \<Rightarrow> 's scalar_api \<Rightarrow> ('s, 'st) memory_image \<Rightarrow> 'fe ecmult_mem \<Rightarrow> ('fe, 's, 'st) secp_context \<Rightarrow> u8 list \<Rightarrow> u8 list \<Rightarrow>
    (bool \<times> u8 list) option" where
  "ec_pubkey_tweak_mul ops api mi mem ctx pubkey tweak =
    (if \<not> ecmult_context_is_built (cx_ecmult ctx) then Some (False, pubkey)
     else let (overflow, factor) = sa_set_b32 api tweak;
              (ok, p) = pubkey_load ops mi pubkey;
              ret = (overflow = 0 \<and> ok)
          in if ret
             then map_option (\<lambda>(ok, p). if ok then (True, pubkey_save ops mi p) else (False, replicate 64 0))
                    (eckey_pubkey_tweak_mul ops api mem (cx_ecmult ctx) p factor)
             else Some (False, replicate 64 0))"

text \<open>The result of loading a key is not tested here.\<close>

definition ec_pubkey_combine :: "('fe, 'st) field_ops \<Rightarrow> ('s, 'st) memory_image \<Rightarrow> 'fe gej \<Rightarrow> u8 list list \<Rightarrow> bool \<times> u8 list" where
  "ec_pubkey_combine ops mi Qj pubnonces =
    (let pubnonce = replicate 64 0
     in if \<not> 1 \<le> length pubnonces then (False, pubnonce)
        else let Qj = gej_set_infinity ops Qj;
                 Qj = fold (\<lambda>p Qj. let (_, Q) = pubkey_load ops mi p in gej_add_ge ops Qj Q) pubnonces Qj
             in if gej_is_infinity Qj then (False, pubnonce)
                else let (Q, Qj) = ge_set_gej ops Qj in (True, pubkey_save ops mi Q))"

subsection \<open>The memory of the internal structs\<close>

text \<open>Eight 32-bit words on a little-endian machine, for field elements in storage form and for scalars.\<close>

definition words_image :: "u32 list \<Rightarrow> u8 list" where
  "words_image ws = concat (map store_le32 ws)"

definition fe_storage_image :: "fe_storage_10x26 \<Rightarrow> u8 list" where
  "fe_storage_image a = words_image [sx0 a, sx1 a, sx2 a, sx3 a, sx4 a, sx5 a, sx6 a, sx7 a]"

definition fe_storage_of_image :: "u8 list \<Rightarrow> fe_storage_10x26" where
  "fe_storage_of_image b = Storage8 (load_le32 b 0) (load_le32 b 1) (load_le32 b 2) (load_le32 b 3) (load_le32 b 4) (load_le32 b 5) (load_le32 b 6) (load_le32 b 7)"

definition scalar_image :: "scalar_8x32 \<Rightarrow> u8 list" where
  "scalar_image a = words_image [se0 a, se1 a, se2 a, se3 a, se4 a, se5 a, se6 a, se7 a]"

definition scalar_of_image :: "u8 list \<Rightarrow> scalar_8x32" where
  "scalar_of_image b = Scalar8 (load_le32 b 0) (load_le32 b 1) (load_le32 b 2) (load_le32 b 3) (load_le32 b 4) (load_le32 b 5) (load_le32 b 6) (load_le32 b 7)"

definition memory_image_10x26 :: "(scalar_8x32, fe_storage_10x26) memory_image" where
  "memory_image_10x26 = \<lparr>mi_fe = fe_storage_image, mi_fe_load = fe_storage_of_image, mi_sc = scalar_image, mi_sc_load = scalar_of_image\<rparr>"

lemma le32_bytes:
  "ucast (ucast w :: u8) OR push_bit 8 (ucast (ucast (drop_bit 8 w) :: u8)) OR push_bit 16 (ucast (ucast (drop_bit 16 w) :: u8)) OR
    push_bit 24 (ucast (ucast (drop_bit 24 w) :: u8)) = w" for w :: u32
proof (rule bit_word_eqI)
  fix n
  assume n: "n < LENGTH(32)"
  consider "n < 8" | "8 \<le> n" "n < 16" | "16 \<le> n" "n < 24" | "24 \<le> n" "n < 32" using n by fastforce
  then show "bit (ucast (ucast w :: u8) OR push_bit 8 (ucast (ucast (drop_bit 8 w) :: u8)) OR push_bit 16 (ucast (ucast (drop_bit 16 w) :: u8)) OR
    push_bit 24 (ucast (ucast (drop_bit 24 w) :: u8)) :: u32) n \<longleftrightarrow> bit w n"
    by cases (auto simp: bit_or_iff bit_push_bit_iff bit_unsigned_iff bit_drop_bit_eq possible_bit_word)
qed

lemma words_image_load:
  "fe_storage_of_image (fe_storage_image a) = a" "length (fe_storage_image a) = 32"
  "scalar_of_image (scalar_image b) = b" "length (scalar_image b) = 32"
  by (simp_all add: fe_storage_of_image_def fe_storage_image_def scalar_of_image_def scalar_image_def words_image_def load_le32_def store_le32_def le32_bytes)

locale secp_api = secp_code fops val mag nrm api sval
  for fops :: "('fe, 'st) field_ops" and val mag nrm and api :: "'s scalar_api" and sval +
  fixes mi :: "('s, 'st) memory_image"
  assumes mi_fe: "mi_fe_load mi (mi_fe mi st) = st" "length (mi_fe mi st) = 32"
    and mi_sc: "mi_sc_load mi (mi_sc mi s) = s" "length (mi_sc mi s) = 32"
    and mi_zero: "fe_is_zero fops (fe_from_storage fops (mi_fe_load mi (replicate 32 0)))"
begin

lemma signature_save_load: "signature_load mi (signature_save mi r s) = (r, s)"
  by (simp add: signature_load_def signature_save_def mi_sc)

lemma signature_save_length: "length (signature_save mi r s) = 64"
  by (simp add: signature_save_def mi_sc)

lemma pubkey_load_zero: "\<not> fst (pubkey_load fops mi (replicate 64 0))"
  using mi_zero by (simp add: pubkey_load_def ge_from_storage_def)

lemma pubkey_save_length: "length (pubkey_save fops mi a) = 64"
  by (simp add: pubkey_save_def Let_def mi_fe)

lemma pubkey_save_load:
  assumes "ge_ok mag a" "ge_rep fv a (Affine x y)"
  shows "pubkey_load fops mi (pubkey_save fops mi a) = (x \<noteq> 0, ge_from_storage fops (ge_to_storage fops a))"
    "ge_ok mag (ge_from_storage fops (ge_to_storage fops a))" "ge_rep fv (ge_from_storage fops (ge_to_storage fops a)) (Affine x y)"
proof -
  let ?s = "ge_to_storage fops a"
  have l: "pubkey_load fops mi (pubkey_save fops mi a) = (\<not> fe_is_zero fops (gx (ge_from_storage fops ?s)), ge_from_storage fops ?s)"
    by (cases ?s) (simp add: pubkey_load_def pubkey_save_def Let_def mi_fe)
  have m: "mag 8 (gx a)" "fv (gx a) = x" using assms by (simp_all add: ge_ok_def ge_rep_def)
  note n = normalized(1,2) [OF m(1)]
  have "fe_is_zero fops (fe_normalize fops (gx a)) \<longleftrightarrow> x = 0" using is_zero [OF n(1)] n(2) m(2) Rep_fp_inject [of x 0] by (simp add: zero_fp.rep_eq)
  then show "pubkey_load fops mi (pubkey_save fops mi a) = (x \<noteq> 0, ge_from_storage fops (ge_to_storage fops a))"
    using storage_rep(1) [OF assms(1)] unfolding l by simp
  show "ge_ok mag (ge_from_storage fops ?s)" "ge_rep fv (ge_from_storage fops ?s) (Affine x y)"
    using storage_ok storage_rep(2) assms by blast+
qed

end

interpretation a10: secp_api field_ops_10x26 fe_val_10x26 fe_mag_10x26 fe_normalized_10x26 scalar_api_8x32 scalar_val_8x32 memory_image_10x26
proof (intro secp_api.intro secp_api_axioms.intro, unfold memory_image_10x26_def memory_image.select_convs)
  have "fe_storage_of_image (replicate 32 0) = Storage8 0 0 0 0 0 0 0 0" by (simp add: fe_storage_of_image_def load_le32_def)
  then show "fe_is_zero field_ops_10x26 (fe_from_storage field_ops_10x26 (fe_storage_of_image (replicate 32 0)))"
    by (simp add: field_ops_10x26_def fe_from_storage_10x26_def fe_is_zero_10x26_def)
qed (rule b10.secp_code_axioms words_image_load)+

subsection \<open>Nonces\<close>

text \<open>The outputs of the generator of RFC 6979, 3.2.h, from a key and a value.\<close>

primrec rfc_output :: "nat \<Rightarrow> u8 list \<Rightarrow> u8 list \<Rightarrow> u8 list" where
  "rfc_output 0 k v = hmac_digest k v"
| "rfc_output (Suc n) k v = (let v1 = hmac_digest k v; k' = hmac_digest k (v1 @ [0x00]) in rfc_output n k' (hmac_digest k' v1))"

lemma rfc_output_length: "length (rfc_output n k v) = 32"
  by (induction n arbitrary: k v) (simp_all add: Let_def hmac_digest_length)

lemma nonce_loop_output:
  assumes "hmac_mem hmac sha" "counter \<noteq> - 1" "unat counter = unat i + m"
    and "k = (if rng_retry rng then hmac_digest (rng_k rng) (rng_v rng @ [0x00]) else rng_k rng)"
    and "v = (if rng_retry rng then hmac_digest k (rng_v rng) else rng_v rng)"
  shows "\<exists>rng'. nonce_loop hmac sha counter i rng nonce = Some (rng', rfc_output m k v)"
  using assms(3-5)
proof (induction m arbitrary: i rng k v nonce)
  case (0 i rng k v nonce)
  have "i = counter" using 0(1) by (simp add: word_unat_eq_iff)
  moreover have "1 + counter \<noteq> 0" using assms(2) by (metis add.commute eq_neg_iff_add_eq_0)
  then have "\<not> counter + 1 \<le> counter" using unatSuc [of counter] by (simp add: word_le_nat_alt add.commute)
  ultimately show ?case
    using rfc6979_generate_correct(1) [OF assms(1) _ 0(2,3) refl, of 32]
    by (subst nonce_loop.simps) (simp add: nonce_loop.simps hmac_digest_length Let_def)
next
  case (Suc m i rng k v nonce)
  have "i < counter" using Suc.prems(1) by (simp add: word_less_nat_alt)
  then have "1 + i \<noteq> 0" by (metis add.commute eq_neg_iff_add_eq_0 word_order.extremum_strict)
  then have s: "unat (i + 1) = Suc (unat i)" using unatSuc [of i] by (simp add: add.commute)
  let ?v = "hmac_digest k v"
  let ?rng = "rng\<lparr>rng_k := k, rng_v := ?v, rng_retry := True\<rparr>"
  have le: "i \<le> counter" using Suc.prems(1) by (simp add: word_le_nat_alt)
  obtain rng' where "nonce_loop hmac sha counter (i + 1) ?rng ?v = Some (rng', rfc_output m (hmac_digest k (?v @ [0x00])) (hmac_digest (hmac_digest k (?v @ [0x00])) ?v))"
    using Suc.IH [of "i + 1" _ ?rng _ ?v] Suc.prems(1) s by auto
  then show ?case
    using rfc6979_generate_correct(1) [OF assms(1) _ Suc.prems(2,3) refl, of 32] le
    by (subst nonce_loop.simps) (simp add: hmac_digest_length Let_def)
qed

lemma nonce_loop_stuck: "nonce_loop hmac sha (- 1) i rng nonce = None"
proof (rule ccontr)
  define Q where "Q = (\<lambda>(hmac' :: hmac_sha256) (sha' :: sha256) counter (i :: u32) (rng :: rfc6979) (nonce :: u8 list) (r :: rfc6979 \<times> u8 list). counter \<noteq> (- 1 :: u32))"
  assume "nonce_loop hmac sha (- 1) i rng nonce \<noteq> None"
  then obtain r where r: "nonce_loop hmac sha (- 1) i rng nonce = Some r" by auto
  have "Q hmac sha (- 1) i rng nonce r"
  proof (rule nonce_loop.raw_induct [OF _ r])
    fix f hmac' sha' counter and i :: u32 and rng nonce r
    assume IH: "\<And>hmac' sha' counter i rng nonce r. f hmac' sha' counter i rng nonce = Some r \<Longrightarrow> Q hmac' sha' counter i rng nonce r"
      and body: "(if i \<le> counter then Option.bind (rfc6979_generate hmac' sha' rng 32) (\<lambda>(rng, nonce32). f hmac' sha' counter (i + 1) rng nonce32)
        else Some (rng, nonce)) = Some r"
    show "Q hmac' sha' counter i rng nonce r"
      unfolding Q_def
    proof
      assume "counter = - 1"
      then obtain rng' nonce' where "f hmac' sha' (- 1) (i + 1) rng' nonce' = Some r" using body by (auto simp: bind_eq_Some_conv)
      from IH [OF this] show False by (simp add: Q_def)
    qed
  qed
  then show False by (simp add: Q_def)
qed

lemma rfc6979_initialize_seed:
  assumes "hmac_mem hmac sha"
  shows "rfc6979_initialize hmac sha key = \<lparr>rng_v = snd (rfc_seed key), rng_k = fst (rfc_seed key), rng_retry = False\<rparr>"
  unfolding rfc6979_initialize_def Let_def case_prod_beta
  by (simp add: hmac_pieces_correct(1) hmac_pieces_correct(2) assms rfc_seed_def Let_def)

subsection \<open>The signing loop\<close>

lemma sign_loop_returns:
  assumes "\<forall>i<n. \<forall>buf. noncefp (of_nat i) buf = Some (True, nonces i)"
    and "\<forall>i<n. fst (sa_set_b32 api (nonces i)) \<noteq> 0 \<or> sa_is_zero api (snd (sa_set_b32 api (nonces i))) \<or>
      (\<exists>out. sign (snd (sa_set_b32 api (nonces i))) = Some (False, out))"
  shows "\<forall>buf. noncefp (of_nat n) buf = Some (False, b buf) \<Longrightarrow> k \<le> n \<Longrightarrow>
      \<exists>out'. sign_loop api noncefp (\<lambda>non _. sign non) buf (of_nat k) out = Some (False, out')"
    and "\<forall>buf. noncefp (of_nat n) buf = Some (True, nonce) \<Longrightarrow> sa_set_b32 api nonce = (0, non) \<Longrightarrow> \<not> sa_is_zero api non \<Longrightarrow>
      sign non = Some (True, res) \<Longrightarrow> k \<le> n \<Longrightarrow> sign_loop api noncefp (\<lambda>non _. sign non) buf (of_nat k) out = Some (True, res)"
proof -
  have step: "\<exists>out'. sign_loop api noncefp (\<lambda>non _. sign non) buf (of_nat k) out = sign_loop api noncefp (\<lambda>non _. sign non) (nonces k) (of_nat (Suc k)) out'"
    if k: "k < n" for k buf out
  proof -
    obtain o1 non where s: "sa_set_b32 api (nonces k) = (o1, non)" by fastforce
    have "o1 \<noteq> 0 \<or> sa_is_zero api non \<or> (\<exists>out. sign non = Some (False, out))" using assms(2) k s by fastforce
    then show ?thesis
      using assms(1) k s by (subst sign_loop.simps) (auto simp: add.commute)
  qed
  show "\<exists>out'. sign_loop api noncefp (\<lambda>non _. sign non) buf (of_nat k) out = Some (False, out')"
    if f: "\<forall>buf. noncefp (of_nat n) buf = Some (False, b buf)" and "k \<le> n"
    using that(2)
  proof (induction "n - k" arbitrary: k buf out)
    case 0
    then show ?case using f by (subst sign_loop.simps) simp
  next
    case (Suc d)
    then show ?case using step [of k buf out] Suc.hyps(1) [of "Suc k"] by fastforce
  qed
  show "sign_loop api noncefp (\<lambda>non _. sign non) buf (of_nat k) out = Some (True, res)"
    if f: "\<forall>buf. noncefp (of_nat n) buf = Some (True, nonce)" "sa_set_b32 api nonce = (0, non)" "\<not> sa_is_zero api non" "sign non = Some (True, res)" and "k \<le> n"
    using that(5)
  proof (induction "n - k" arbitrary: k buf out)
    case 0
    then show ?case using f by (subst sign_loop.simps) simp
  next
    case (Suc d)
    then show ?case using step [of k buf out] Suc.hyps(1) [of "Suc k"] by fastforce
  qed
qed

lemma nonce_keydata_inject:
  assumes "nonce_keydata k m d a = nonce_keydata k' m' d' a'"
    and "length k = 32" "length m = 32" "pred_option (\<lambda>d. length d = 32) d" "pred_option (\<lambda>a. length a = 16) a"
    and "length k' = 32" "length m' = 32" "pred_option (\<lambda>d. length d = 32) d'" "pred_option (\<lambda>a. length a = 16) a'"
  shows "k = k' \<and> m = m' \<and> d = d' \<and> a = a'"
proof -
  have l: "length (nonce_keydata k m d a) = length (nonce_keydata k' m' d' a')" using assms(1) by simp
  show ?thesis
    using assms l by (cases d; cases d'; cases a; cases a') (auto simp: nonce_keydata_def)
qed

context secp_api
begin

lemma sa_set_b32_zero: "length b = 32 \<Longrightarrow> sa_is_zero api (snd (sa_set_b32 api b)) \<longleftrightarrow> be_val b mod order_n = 0"
  by (simp add: sa_is_zero_iff sa_set_b32_val)

lemma sa_set_b32_over: "length b = 32 \<Longrightarrow> fst (sa_set_b32 api b) = 0 \<longleftrightarrow> be_val b < order_n"
  by (simp add: sa_set_b32_flag not_le)

lemma sa_set_b32_in: "length b = 32 \<Longrightarrow> be_val b < order_n \<Longrightarrow> sval (snd (sa_set_b32 api b)) = be_val b"
  using be_val_bounds [of b] by (simp add: sa_set_b32_val)

lemma sig_sign_low:
  assumes "ecdsa_sig_sign fops api zeros ctx sec msg non rid = Some (True, r, s, rid')"
  shows "2 * sval s < order_n" "sval s \<noteq> 0"
proof -
  have odd: "2 * k \<noteq> order_n" for k by (simp add: order_n_def) presburger
  obtain rp where "ecmult_gen fops api zeros ctx non = Some rp" using assms by (auto simp: ecdsa_sig_sign_def)
  define b where "b = fe_get_b32 fops (fe_normalize fops (gx (fst (ge_set_gej fops rp))))"
  define s0 where "s0 = sa_mul api (scalar_inverse (sa_arith api) non) (sa_add api (sa_mul api (snd (sa_set_b32 api b)) sec) msg)"
  have e: "\<not> sa_is_zero api s0" "s = (if sa_is_high api s0 then sa_negate api s0 else s0)"
    using assms \<open>ecmult_gen fops api zeros ctx non = Some rp\<close>
    by (auto simp: ecdsa_sig_sign_def Let_def case_prod_beta b_def s0_def split: if_splits)
  have l: "0 < sval s0" "sval s0 < order_n" using e(1) dg.sval_range(1) [of s0] sa_mul_less by (auto simp: s0_def sa_is_zero_iff order_less_le)
  show "2 * sval s < order_n" "sval s \<noteq> 0"
    using l odd [of "sval s0"] dg.negate_val [OF l(2)] by (auto simp: e(2) sa_is_high_iff zmod_zminus1_eq_if)
qed

end

subsection \<open>The entry points on bytes\<close>

context secp_api
begin

lemma compact_roundtrip:
  assumes "length input = 64"
  shows "\<exists>ok sig. signature_parse_compact api mi input = (ok, sig) \<and> length sig = 64 \<and>
    (ok \<longleftrightarrow> be_val (take 32 input) < order_n \<and> be_val (drop 32 input) < order_n) \<and>
    (if ok then signature_serialize_compact api mi sig = (True, input) else sig = replicate 64 0)"
proof -
  let ?a = "take 32 input" and ?b = "drop 32 input"
  have l: "length ?a = 32" "length ?b = 32" "take 32 (drop 32 input) = ?b" using assms by simp_all
  have f: "fst (sa_set_b32 api b) = 0 \<longleftrightarrow> be_val b < order_n" if "length b = 32" for b by (rule sa_set_b32_over [OF that])
  have g: "sa_get_b32 api (snd (sa_set_b32 api b)) = b" if "length b = 32" "be_val b < order_n" for b
    using sa_get_b32_val [of "snd (sa_set_b32 api b)"] sa_set_b32_in [OF that] that(1) be_val_inject [of "sa_get_b32 api (snd (sa_set_b32 api b))" b] by simp
  show ?thesis
    using g [OF l(1)] g [OF l(2)]
    by (simp add: signature_parse_compact_def signature_serialize_compact_def Let_def case_prod_beta l(3) f [OF l(1)] f [OF l(2)] signature_save_load signature_save_length)
qed

lemma normalize_low:
  assumes "sval s < order_n"
  defines "s' \<equiv> if sa_is_high api s then sa_negate api s else s"
  shows "signature_normalize api mi (Some old) (signature_save mi r s) = (order_n < 2 * sval s, Some (signature_save mi r s'))"
    and "2 * sval s' < order_n" "sval s' = sval s \<or> sval s' = order_n - sval s"
    and "signature_normalize api mi (Some old) (signature_save mi r s') = (False, Some (signature_save mi r s'))"
proof -
  have odd: "2 * k \<noteq> order_n" for k by (simp add: order_n_def) presburger
  have r: "0 \<le> sval s" by (rule dg.sval_range)
  have n: "sval (sa_negate api s) = (if sval s = 0 then 0 else order_n - sval s)"
    using dg.negate_val [OF assms(1)] r assms(1) by (simp add: zmod_zminus1_eq_if)
  show s: "2 * sval s' < order_n" "sval s' = sval s \<or> sval s' = order_n - sval s"
    using n r odd [of "sval s"] assms(1) by (auto simp: s'_def sa_is_high_iff)
  show "signature_normalize api mi (Some old) (signature_save mi r s) = (order_n < 2 * sval s, Some (signature_save mi r s'))"
    by (simp add: signature_normalize_def signature_save_load Let_def s'_def sa_is_high_iff)
  show "signature_normalize api mi (Some old) (signature_save mi r s') = (False, Some (signature_save mi r s'))"
    using s(1) by (simp add: signature_normalize_def signature_save_load Let_def sa_is_high_iff)
qed

lemma verify_gate:
  assumes "ecmult_context_is_built (cx_ecmult ctx)" "ge_ok mag key" "ge_rep fv key (Affine x y)"
  shows "order_n < 2 * sval s \<Longrightarrow> ecdsa_verify fops api mi mem pr ctx (signature_save mi r s) msg pk = Some False"
    and "2 * sval s < order_n \<Longrightarrow> ecdsa_verify fops api mi mem pr ctx (signature_save mi r s) msg (pubkey_save fops mi key) =
      (if x = 0 then Some False
       else ecdsa_sig_verify fops api mem pr (cx_ecmult ctx) r s (ge_from_storage fops (ge_to_storage fops key)) (snd (sa_set_b32 api msg)))"
  using pubkey_save_load(1) [OF assms(2,3)] assms(1)
  by (simp_all add: ecdsa_verify_def signature_save_load case_prod_beta sa_is_high_iff)

lemma seckey_values:
  assumes "length key = 32" "length tweak = 32"
  shows "ec_seckey_verify api key \<longleftrightarrow> 0 < be_val key \<and> be_val key < order_n"
    and "\<exists>k. ec_privkey_negate api key = (True, k) \<and> length k = 32 \<and> be_val k = - be_val key mod order_n"
    and "\<exists>ok k. ec_privkey_tweak_add api key tweak = (ok, k) \<and> length k = 32 \<and>
      (ok \<longleftrightarrow> be_val tweak < order_n \<and> (be_val key + be_val tweak) mod order_n \<noteq> 0) \<and>
      be_val k = (if ok then (be_val key + be_val tweak) mod order_n else 0)"
    and "\<exists>ok k. ec_privkey_tweak_mul api key tweak = (ok, k) \<and> length k = 32 \<and>
      (ok \<longleftrightarrow> 0 < be_val tweak \<and> be_val tweak < order_n) \<and>
      be_val k = (if ok then be_val key * be_val tweak mod order_n else 0)"
proof -
  let ?k = "snd (sa_set_b32 api key)" and ?t = "snd (sa_set_b32 api tweak)"
  note f = sa_set_b32_over [OF assms(1)] sa_set_b32_over [OF assms(2)] and v = sa_set_b32_val [OF assms(1)] sa_set_b32_val [OF assms(2)]
  have pos: "0 \<le> be_val key" "0 \<le> be_val tweak" by (rule be_val_bounds)+
  have vl: "sval ?k < order_n" "sval ?t < order_n" unfolding v by (simp_all add: order_n_def)
  have g: "length (sa_get_b32 api s) = 32" "be_val (sa_get_b32 api s) = sval s" for s using sa_get_b32_val by blast+
  have z: "be_val (replicate 32 0 :: u8 list) = 0" using be_val_zeros [of 32 "[]"] by simp
  have t: "be_val tweak mod order_n = be_val tweak" if "be_val tweak < order_n" using that pos(2) by simp
  show "ec_seckey_verify api key \<longleftrightarrow> 0 < be_val key \<and> be_val key < order_n"
    using pos(1) mod_pos_pos_trivial [OF pos(1), of order_n]
    by (cases "be_val key < order_n") (simp_all add: ec_seckey_verify_def case_prod_beta f sa_is_zero_iff v, linarith)
  show "\<exists>k. ec_privkey_negate api key = (True, k) \<and> length k = 32 \<and> be_val k = - be_val key mod order_n"
    by (simp add: ec_privkey_negate_def Let_def case_prod_beta g dg.negate_val [OF vl(1)] v mod_minus_eq)
  show "\<exists>ok k. ec_privkey_tweak_add api key tweak = (ok, k) \<and> length k = 32 \<and>
      (ok \<longleftrightarrow> be_val tweak < order_n \<and> (be_val key + be_val tweak) mod order_n \<noteq> 0) \<and>
      be_val k = (if ok then (be_val key + be_val tweak) mod order_n else 0)"
    by (simp add: ec_privkey_tweak_add_def eckey_privkey_tweak_add_def Let_def case_prod_beta g f z sa_is_zero_iff ar.add_val [OF vl] v mod_add_eq)
  show "\<exists>ok k. ec_privkey_tweak_mul api key tweak = (ok, k) \<and> length k = 32 \<and>
      (ok \<longleftrightarrow> 0 < be_val tweak \<and> be_val tweak < order_n) \<and> be_val k = (if ok then be_val key * be_val tweak mod order_n else 0)"
    using t pos(2)
    by (auto simp: ec_privkey_tweak_mul_def eckey_privkey_tweak_mul_def Let_def case_prod_beta g f z sa_is_zero_iff ar.mul_val v mod_mult_eq mod_mult_left_eq order_less_le)
qed

lemma parse_result:
  assumes "ec_pubkey_parse fops mi Q input = (ok, pk)"
  shows "length pk = 64" "\<not> ok \<Longrightarrow> pk = replicate 64 0 \<and> \<not> fst (pubkey_load fops mi pk)"
    and "ok \<Longrightarrow> snd (pubkey_load fops mi pk) = q \<Longrightarrow> fv (gx q) \<noteq> 0 \<Longrightarrow> length input = 65 \<or> fv (gy q) \<noteq> 0 \<Longrightarrow> length out = length input \<Longrightarrow>
      flags AND 0xFF = 0x02 \<Longrightarrow> (flags AND 0x100 \<noteq> 0 \<longleftrightarrow> length input = 33) \<Longrightarrow>
      on_curve (Affine (fv (gx q)) (fv (gy q))) \<and> ec_pubkey_serialize fops mi out (length out) pk flags =
        (True, if length input = 33 then input else 0x04 # drop 1 input, length input)"
proof -
  obtain ok' r where e: "eckey_pubkey_parse fops Q input = (ok', r)" by fastforce
  have o: "ok' = ok" "pk = (if ok then pubkey_save fops mi r else replicate 64 0)"
    using assms by (auto simp: ec_pubkey_parse_def e split: if_splits)
  show "length pk = 64" by (simp add: o(2) pubkey_save_length)
  show "\<not> ok \<Longrightarrow> pk = replicate 64 0 \<and> \<not> fst (pubkey_load fops mi pk)" using pubkey_load_zero by (simp add: o(2))
  assume ok and q: "snd (pubkey_load fops mi pk) = q" "fv (gx q) \<noteq> 0" "length input = 65 \<or> fv (gy q) \<noteq> 0" "length out = length input"
    and fl: "flags AND 0xFF = 0x02" "flags AND 0x100 \<noteq> 0 \<longleftrightarrow> length input = 33"
  then have e: "eckey_pubkey_parse fops Q input = (True, r)" and pk: "pk = pubkey_save fops mi r" using e o by simp_all
  note p = parse_valid [OF e]
  note l = pubkey_save_load [OF p(1,2)]
  have qe: "q = ge_from_storage fops (ge_to_storage fops r)" using q(1) l(1) by (simp add: pk)
  have v: "fv (gx q) = fv (gx r)" "fv (gy q) = fv (gy r)" "\<not> ginf q" "ge_ok mag q" "\<not> ginf r"
    using l(2,3) p(2) by (simp_all add: qe ge_rep_def)
  have lq: "pubkey_load fops mi pk = (True, q)" using l(1) q(2) v(1) by (simp add: pk qe)
  let ?c = "length input = 33" and ?b = "replicate (length input) (0 :: u8)"
  have len: "length ?b = (if ?c then 33 else 65)" using p(5) by auto
  obtain q' bx "by" where s: "eckey_pubkey_serialize fops q ?b (length input) ?c =
      (True, q', (if ?c then (if odd (Rep_fp (fv (gy q))) then 0x03 else 0x02) # bx else 0x04 # bx @ by), if ?c then 33 else 65)"
    "length bx = 32" "length by = 32" "be_val bx = Rep_fp (fv (gx q))" "be_val by = Rep_fp (fv (gy q))"
    using serialize_eq [OF v(4,3) len] by metis
  obtain r' bx' by' where s': "eckey_pubkey_serialize fops r ?b (length input) ?c =
      (True, r', (if ?c then (if odd (Rep_fp (fv (gy r))) then 0x03 else 0x02) # bx' else 0x04 # bx' @ by'), if ?c then 33 else 65)"
    "length bx' = 32" "length by' = 32" "be_val bx' = Rep_fp (fv (gx r))" "be_val by' = Rep_fp (fv (gy r))"
    using serialize_eq [OF p(1) v(5) len] by metis
  have eq: "bx = bx'" "by = by'" using s(2-5) s'(2-5) v(1,2) be_val_inject by metis+
  have "length input = 65 \<or> fv (gy r) \<noteq> 0" using q(3) v(2) by simp
  then obtain r'' where s'': "eckey_pubkey_serialize fops r ?b (length input) ?c = (True, r'', (if ?c then input else 0x04 # drop 1 input), length input)"
    using parse_serialize [OF e, of ?b "length input"] by auto
  have "eckey_pubkey_serialize fops q ?b (length input) ?c = (True, q', (if ?c then input else 0x04 # drop 1 input), length input)"
    using s(1) s'(1) s'' unfolding eq v(1,2) by simp
  moreover have "(if flags AND 0x100 \<noteq> 0 then 33 else 65) \<le> length input" using fl(2) len by (auto split: if_splits)
  ultimately show "on_curve (Affine (fv (gx q)) (fv (gy q))) \<and> ec_pubkey_serialize fops mi out (length out) pk flags =
      (True, if ?c then input else 0x04 # drop 1 input, length input)"
    using p(3) q(4) fl lq by (simp add: ec_pubkey_serialize_def v Let_def)
qed

end

subsection \<open>Properties\<close>

text \<open>C4: signing ends. When the nonce function refuses, or offers out of range, or leads to a zero signature only for the first \<open>n\<close>
  counters, the loop stops at counter \<open>n\<close>: with an error and a cleared signature when the function fails there, and with the signature
  of that nonce otherwise, which is already the low form that normalization leaves alone. A key out of range gives an error
  without asking for a nonce.\<close>

theorem ecdsa_sign_returns:
  assumes "ecmult_gen_context_is_built (cx_gen ctx)" "length seckey = 32" "0 < be_val seckey" "be_val seckey < order_n"
    and "sec = snd (scalar_set_b32_8x32 seckey)" "msg = snd (scalar_set_b32_8x32 msg32)"
    and "\<forall>i<n. length (nonces i) = 32 \<and> (\<forall>buf. noncefp buf msg32 seckey None data (of_nat i) = Some (True, nonces i)) \<and>
      (be_val (nonces i) = 0 \<or> order_n \<le> be_val (nonces i) \<or>
       (\<exists>r s rid. ecdsa_sig_sign field_ops_10x26 scalar_api_8x32 zeros (cx_gen ctx) sec msg (snd (scalar_set_b32_8x32 (nonces i))) None = Some (False, r, s, rid)))"
  shows "((\<forall>buf. \<exists>b. noncefp buf msg32 seckey None data (of_nat n) = Some (False, b)) \<longrightarrow>
      ecdsa_sign field_ops_10x26 scalar_api_8x32 memory_image_10x26 zeros nonce32 rs ctx signature msg32 seckey noncefp data = Some (False, replicate 64 0)) \<and>
    (\<forall>nonce r s rid. (\<forall>buf. noncefp buf msg32 seckey None data (of_nat n) = Some (True, nonce)) \<longrightarrow> length nonce = 32 \<longrightarrow> 0 < be_val nonce \<longrightarrow> be_val nonce < order_n \<longrightarrow>
      ecdsa_sig_sign field_ops_10x26 scalar_api_8x32 zeros (cx_gen ctx) sec msg (snd (scalar_set_b32_8x32 nonce)) None = Some (True, r, s, rid) \<longrightarrow>
      ecdsa_sign field_ops_10x26 scalar_api_8x32 memory_image_10x26 zeros nonce32 rs ctx signature msg32 seckey noncefp data =
        Some (True, signature_save memory_image_10x26 r s) \<and>
      signature_normalize scalar_api_8x32 memory_image_10x26 (Some signature) (signature_save memory_image_10x26 r s) =
        (False, Some (signature_save memory_image_10x26 r s))) \<and>
    (\<forall>bad fp. length bad = 32 \<and> (be_val bad = 0 \<or> order_n \<le> be_val bad) \<longrightarrow>
      ecdsa_sign field_ops_10x26 scalar_api_8x32 memory_image_10x26 zeros nonce32 rs ctx signature msg32 bad fp data = Some (False, replicate 64 0))"
proof (intro conjI allI impI)
  let ?fp = "\<lambda>count nonce32. noncefp nonce32 msg32 seckey None data count"
  let ?S = "\<lambda>non. map_option (\<lambda>(ok, r, s, _). (ok, r, s)) (ecdsa_sig_sign field_ops_10x26 scalar_api_8x32 zeros (cx_gen ctx) sec msg non None)"
  have b32: "sa_set_b32 scalar_api_8x32 = scalar_set_b32_8x32" by (simp add: scalar_api_8x32_def)
  note over = a10.sa_set_b32_over [unfolded b32] and zero = a10.sa_set_b32_zero [unfolded b32]
  have sec: "scalar_set_b32_8x32 seckey = (0, sec)" "\<not> sa_is_zero scalar_api_8x32 sec"
    using over [OF assms(2)] zero [OF assms(2)] assms(3,4) by (simp_all add: assms(5) prod_eq_iff)
  have eq: "ecdsa_sign field_ops_10x26 scalar_api_8x32 memory_image_10x26 zeros nonce32 rs ctx signature msg32 seckey noncefp data =
    map_option (\<lambda>(ret, r, s). (ret, if ret then signature_save memory_image_10x26 r s else replicate 64 0)) (sign_loop scalar_api_8x32 ?fp (\<lambda>non _. ?S non) nonce32 (of_nat 0) rs)"
    using assms(1) sec by (simp add: ecdsa_sign_def b32 case_prod_beta assms(6))
  have r1: "\<forall>i<n. \<forall>buf. ?fp (of_nat i) buf = Some (True, nonces i)" using assms(7) by blast
  have r2: "\<forall>i<n. fst (sa_set_b32 scalar_api_8x32 (nonces i)) \<noteq> 0 \<or> sa_is_zero scalar_api_8x32 (snd (sa_set_b32 scalar_api_8x32 (nonces i))) \<or>
      (\<exists>out. ?S (snd (sa_set_b32 scalar_api_8x32 (nonces i))) = Some (False, out))"
  proof (intro allI impI)
    fix i assume "i < n"
    with assms(7) have l: "length (nonces i) = 32" and c: "be_val (nonces i) = 0 \<or> order_n \<le> be_val (nonces i) \<or>
       (\<exists>r s rid. ecdsa_sig_sign field_ops_10x26 scalar_api_8x32 zeros (cx_gen ctx) sec msg (snd (scalar_set_b32_8x32 (nonces i))) None = Some (False, r, s, rid))" by blast+
    show "fst (sa_set_b32 scalar_api_8x32 (nonces i)) \<noteq> 0 \<or> sa_is_zero scalar_api_8x32 (snd (sa_set_b32 scalar_api_8x32 (nonces i))) \<or>
      (\<exists>out. ?S (snd (sa_set_b32 scalar_api_8x32 (nonces i))) = Some (False, out))"
      using c over [OF l] zero [OF l] unfolding b32 by (elim disjE exE) auto
  qed
  note stop = sign_loop_returns [where sign = ?S, OF r1 r2]
  show "ecdsa_sign field_ops_10x26 scalar_api_8x32 memory_image_10x26 zeros nonce32 rs ctx signature msg32 seckey noncefp data = Some (False, replicate 64 0)"
    if f: "\<forall>buf. \<exists>b. noncefp buf msg32 seckey None data (of_nat n) = Some (False, b)"
  proof -
    obtain b where "\<forall>buf. ?fp (of_nat n) buf = Some (False, b buf)" using f by metis
    then obtain out' where "sign_loop scalar_api_8x32 ?fp (\<lambda>non _. ?S non) nonce32 (of_nat 0) rs = Some (False, out')" using stop(1) [of b 0] by blast
    then show ?thesis by (simp only: eq) (simp add: case_prod_beta)
  qed
  {
    fix nonce r s rid
    assume f: "\<forall>buf. noncefp buf msg32 seckey None data (of_nat n) = Some (True, nonce)" and l: "length nonce = 32"
      and v: "0 < be_val nonce" "be_val nonce < order_n"
      and sg: "ecdsa_sig_sign field_ops_10x26 scalar_api_8x32 zeros (cx_gen ctx) sec msg (snd (scalar_set_b32_8x32 nonce)) None = Some (True, r, s, rid)"
    have n: "sa_set_b32 scalar_api_8x32 nonce = (0, snd (scalar_set_b32_8x32 nonce))" "\<not> sa_is_zero scalar_api_8x32 (snd (scalar_set_b32_8x32 nonce))"
      using over [OF l] zero [OF l] v by (simp_all add: b32 prod_eq_iff)
    have "sign_loop scalar_api_8x32 ?fp (\<lambda>non _. ?S non) nonce32 (of_nat 0) rs = Some (True, r, s)"
      by (rule stop(2) [OF _ n]) (use f sg in simp_all)
    then show "ecdsa_sign field_ops_10x26 scalar_api_8x32 memory_image_10x26 zeros nonce32 rs ctx signature msg32 seckey noncefp data =
        Some (True, signature_save memory_image_10x26 r s)" by (simp only: eq) simp
    have "2 * scalar_val_8x32 s < order_n" using a10.sig_sign_low [OF sg] by blast
    then show "signature_normalize scalar_api_8x32 memory_image_10x26 (Some signature) (signature_save memory_image_10x26 r s) =
        (False, Some (signature_save memory_image_10x26 r s))"
      by (simp add: signature_normalize_def a10.signature_save_load b10.sa_is_high_iff)
  }
  show "ecdsa_sign field_ops_10x26 scalar_api_8x32 memory_image_10x26 zeros nonce32 rs ctx signature msg32 bad fp data = Some (False, replicate 64 0)"
    if "length bad = 32 \<and> (be_val bad = 0 \<or> order_n \<le> be_val bad)" for bad fp
    using that over [of bad] zero [of bad] assms(1) by (auto simp: ecdsa_sign_def b32 case_prod_beta)
qed

text \<open>The witness offers an all-zero nonce and then fails.\<close>

theorem ecdsa_sign_returns_witness:
  "ecdsa_sign field_ops_10x26 scalar_api_8x32 memory_image_10x26 \<lparr>sx = Storage8 0 0 0 0 0 0 0 0, sy = Storage8 0 0 0 0 0 0 0 0\<rparr> []
     (Scalar8 0 0 0 0 0 0 0 0, Scalar8 0 0 0 0 0 0 0 0)
     \<lparr>cx_ecmult = \<lparr>ec_pre_g = None, ec_pre_g_128 = None\<rparr>,
       cx_gen = \<lparr>gen_prec = Some [], gen_blind = Scalar8 1 0 0 0 0 0 0 0, gen_initial = gej_set_ge field_ops_10x26 (ge_const_g field_ops_10x26)\<rparr>,
       cx_switch = \<lparr>gen_prec = None, gen_blind = Scalar8 1 0 0 0 0 0 0 0, gen_initial = gej_set_ge field_ops_10x26 (ge_const_g field_ops_10x26)\<rparr>\<rparr>
     [] [1, 2] (replicate 31 0 @ [1]) (\<lambda>_ _ _ _ _ count. Some (count = 0, replicate 32 0)) () = Some (False, replicate 64 0)"
  (is "ecdsa_sign _ _ _ ?zeros _ ?rs ?ctx _ _ _ _ _ = _")
proof -
  have "be_val (replicate 31 0 @ [1] :: u8 list) = 1" using be_val_zeros [of 31 "[1]"] by (simp add: be_val_Cons)
  moreover have "be_val (replicate 32 0 :: u8 list) = 0" using be_val_zeros [of 32 "[]"] by simp
  ultimately show ?thesis
    using ecdsa_sign_returns [where n = 1 and nonces = "\<lambda>_. replicate 32 0" and seckey = "replicate 31 0 @ [1]" and data = "()" and
      noncefp = "\<lambda>_ _ _ _ _ count. Some (count = 0, replicate 32 0)" and ctx = ?ctx and zeros = ?zeros and rs = ?rs and ?nonce32.0 = "[]" and signature = "[]" and
      sec = "snd (scalar_set_b32_8x32 (replicate 31 0 @ [1]))" and ?msg32.0 = "[1, 2]" and msg = "snd (scalar_set_b32_8x32 [1, 2])"]
    by (simp add: ecmult_gen_context_is_built_def order_n_def)
qed

text \<open>C21: the default nonce is the output number \<open>counter\<close> of the generator of RFC 6979, seeded with the key, the message, the
  optional data and the optional algorithm; different arguments of the right lengths give different seeds. For the largest
  counter the function does not return.\<close>

theorem nonce_rfc6979_spec:
  assumes "hmac_mem hmac sha" "counter \<noteq> - 1" "length k = 32" "length m = 32" "pred_option (\<lambda>d. length d = 32) d" "pred_option (\<lambda>a. length a = 16) a"
    and "(key, v) = rfc_seed (nonce_keydata k m d a)"
  shows "nonce_function_rfc6979 (hmac, sha) nonce32 m k a d counter = Some (True, rfc_output (unat counter) key v) \<and>
    length (rfc_output (unat counter) key v) = 32 \<and> nonce_function_rfc6979 (hmac, sha) nonce32 m k a d (- 1) = None \<and>
    (\<forall>k' m' d' a'. length k' = 32 \<and> length m' = 32 \<and> pred_option (\<lambda>d. length d = 32) d' \<and> pred_option (\<lambda>a. length a = 16) a' \<and>
      nonce_keydata k m d a = nonce_keydata k' m' d' a' \<longrightarrow> k = k' \<and> m = m' \<and> d = d' \<and> a = a')"
proof -
  have init: "rfc6979_initialize hmac sha (nonce_keydata k m d a) = \<lparr>rng_v = v, rng_k = key, rng_retry = False\<rparr>"
    using rfc6979_initialize_seed [OF assms(1)] assms(7) by (metis fst_conv snd_conv)
  obtain rng' where "nonce_loop hmac sha counter 0 \<lparr>rng_v = v, rng_k = key, rng_retry = False\<rparr> nonce32 = Some (rng', rfc_output (unat counter) key v)"
    using nonce_loop_output [OF assms(1,2), of 0 "unat counter" key "\<lparr>rng_v = v, rng_k = key, rng_retry = False\<rparr>" v nonce32] by auto
  then have "nonce_function_rfc6979 (hmac, sha) nonce32 m k a d counter = Some (True, rfc_output (unat counter) key v)"
    by (simp add: nonce_function_rfc6979_def Let_def init)
  moreover have "nonce_function_rfc6979 (hmac, sha) nonce32 m k a d (- 1) = None"
    by (simp add: nonce_function_rfc6979_def Let_def nonce_loop_stuck)
  ultimately show ?thesis using rfc_output_length nonce_keydata_inject [OF _ assms(3-6)] by blast
qed

theorem nonce_rfc6979_spec_witness:
  "\<exists>out. nonce_function_rfc6979 (\<lparr>h_inner = sha_zero, h_outer = sha_zero\<rparr>, sha_zero) [] (replicate 32 1) (replicate 32 2) None (Some (replicate 32 3)) 4 = Some (True, out) \<and> length out = 32"
proof -
  have m: "hmac_mem \<lparr>h_inner = sha_zero, h_outer = sha_zero\<rparr> sha_zero" by (simp add: hmac_mem_def sha_zero_def)
  obtain key v where s: "(key, v) = rfc_seed (nonce_keydata (replicate 32 2) (replicate 32 1) (Some (replicate 32 3)) None)" by (metis surj_pair)
  show ?thesis using nonce_rfc6979_spec [OF m, of 4 "replicate 32 2" "replicate 32 1" "Some (replicate 32 3)" None key v "[]"] s by auto
qed

text \<open>C6: verification from the opaque forms. A signature whose \<open>s\<close> is in the high half is rejected without looking at the key. For
  a low one and the saved form of a key \<open>A\<close> with nonzero \<open>x\<close>, the answer is the verification equation: \<open>u1\<close> and \<open>u2\<close> are
  the message and \<open>r\<close> divided by \<open>s\<close>, and \<open>R\<close> is the point that double-and-add gives for \<open>u2 * A + u1 * G\<close>.\<close>

theorem ecdsa_verify_bytes:
  assumes "ecmult_ready field_ops_10x26 fe_fp_10x26 fe_mag_10x26 mem (cx_ecmult ctx) G H" "ge_ok fe_mag_10x26 key" "ge_rep fe_fp_10x26 key (Affine x y)" "x \<noteq> 0"
    and "odd_multiples (Affine x y) 8 T" "scalar_ok_8x32 r" "2 * scalar_val_8x32 s < order_n" "scalar_ok_8x32 u1" "scalar_ok_8x32 u2" "length msg32 = 32"
    and "scalar_val_8x32 s ^ nat (order_n - 1) mod order_n = 1"
    and "scalar_val_8x32 u1 * scalar_val_8x32 s mod order_n = be_val msg32 mod order_n"
    and "scalar_val_8x32 u2 * scalar_val_8x32 s mod order_n = scalar_val_8x32 r mod order_n"
    and "ecmult_points ecmult_scalar_8x32 T G H u2 u1 R"
  shows "ecdsa_verify field_ops_10x26 scalar_api_8x32 memory_image_10x26 mem pr ctx (signature_save memory_image_10x26 r s) msg32
      (pubkey_save field_ops_10x26 memory_image_10x26 key) =
      Some (scalar_val_8x32 r \<noteq> 0 \<and> (case R of Infinity \<Rightarrow> False | Affine x y \<Rightarrow> Rep_fp x mod order_n = scalar_val_8x32 r)) \<and>
    (\<forall>high pk. order_n < 2 * scalar_val_8x32 high \<longrightarrow>
      ecdsa_verify field_ops_10x26 scalar_api_8x32 memory_image_10x26 mem pr ctx (signature_save memory_image_10x26 r high) msg32 pk = Some False)"
proof -
  have b: "ecmult_context_is_built (cx_ecmult ctx)" using assms(1) by (auto simp: ecmult_ready_def ecmult_context_is_built_def split: option.splits)
  note gate = a10.verify_gate [OF b, unfolded fv_fe_fp_10x26, OF assms(2,3)]
  note key = a10.pubkey_save_load(2,3) [unfolded fv_fe_fp_10x26, OF assms(2,3)]
  have s: "scalar_val_8x32 s < order_n" using assms(7) b10.dg.sval_range(1) [of s] by linarith
  have m: "scalar_val_8x32 (snd (sa_set_b32 scalar_api_8x32 msg32)) mod order_n = be_val msg32 mod order_n"
    using b10.sa_set_b32_val [OF assms(10)] by simp
  have "ecdsa_sig_verify field_ops_10x26 scalar_api_8x32 mem pr (cx_ecmult ctx) r s (ge_from_storage field_ops_10x26 (ge_to_storage field_ops_10x26 key))
      (snd (sa_set_b32 scalar_api_8x32 msg32)) =
    Some (scalar_val_8x32 r \<noteq> 0 \<and> (case R of Infinity \<Rightarrow> False | Affine x y \<Rightarrow> Rep_fp x mod order_n = scalar_val_8x32 r))"
    by (rule b10.verify_correct [unfolded fv_fe_fp_10x26, OF assms(1) key assms(5) _ s _ _ assms(11) _ assms(13)])
      (use assms(6,8,9,12,14) m in \<open>simp_all add: scalar_ok_8x32_def scalar_api_8x32_def\<close>)
  then show ?thesis using gate assms(4,7) by auto
qed

theorem ecdsa_verify_bytes_witness:
  "ecdsa_verify field_ops_10x26 scalar_api_8x32 memory_image_10x26
      \<lparr>em_table = \<lparr>tm_d = \<lparr>jx = FE10 0 0 0 0 0 0 0 0 0 0, jy = FE10 0 0 0 0 0 0 0 0 0 0, jz = FE10 0 0 0 0 0 0 0 0 0 0, jinf = False\<rparr>,
          tm_prej = replicate 8 \<lparr>jx = FE10 0 0 0 0 0 0 0 0 0 0, jy = FE10 0 0 0 0 0 0 0 0 0 0, jz = FE10 0 0 0 0 0 0 0 0 0 0, jinf = False\<rparr>,
          tm_zr = replicate 8 (FE10 0 0 0 0 0 0 0 0 0 0)\<rparr>,
        em_pre = replicate 8 \<lparr>gx = FE10 0 0 0 0 0 0 0 0 0 0, gy = FE10 0 0 0 0 0 0 0 0 0 0, ginf = False\<rparr>, em_Z = FE10 0 0 0 0 0 0 0 0 0 0\<rparr>
      \<lparr>jx = FE10 0 0 0 0 0 0 0 0 0 0, jy = FE10 0 0 0 0 0 0 0 0 0 0, jz = FE10 0 0 0 0 0 0 0 0 0 0, jinf = False\<rparr>
      \<lparr>cx_ecmult = \<lparr>ec_pre_g = Some (small_pre_g field_ops_10x26 8192), ec_pre_g_128 = Some (small_pre_g field_ops_10x26 8192)\<rparr>,
        cx_gen = \<lparr>gen_prec = None, gen_blind = Scalar8 1 0 0 0 0 0 0 0, gen_initial = gej_set_ge field_ops_10x26 (ge_const_g field_ops_10x26)\<rparr>,
        cx_switch = \<lparr>gen_prec = None, gen_blind = Scalar8 1 0 0 0 0 0 0 0, gen_initial = gej_set_ge field_ops_10x26 (ge_const_g field_ops_10x26)\<rparr>\<rparr>
      (signature_save memory_image_10x26 (Scalar8 2 0 0 0 0 0 0 0) (Scalar8 1 0 0 0 0 0 0 0)) (replicate 31 0 @ [5])
      (pubkey_save field_ops_10x26 memory_image_10x26 \<lparr>gx = FE10 2 0 0 0 0 0 0 0 0 0, gy = FE10 3 0 0 0 0 0 0 0 0 0, ginf = False\<rparr>) = Some True"
    (is "ecdsa_verify _ _ _ ?mem ?pr ?ctx (signature_save _ ?r ?s) ?msg (pubkey_save _ _ ?pub) = _")
proof -
  have mem: "ecmult_ready field_ops_10x26 fe_fp_10x26 fe_mag_10x26 ?mem (cx_ecmult ?ctx) small_table small_table"
    using e10.small_pre_g_table [of 8192, unfolded fv_fe_fp_10x26] by (simp add: ecmult_ready_def)
  have a: "ge_ok fe_mag_10x26 ?pub" "ge_rep fe_fp_10x26 ?pub (Affine 2 3)"
    by (simp_all add: ge_ok_def ge_rep_def fe_mag_10x26_def limbs_le_10x26_def fe_fp_FE10 limbs_val_Cons)
  have two: "Rep_fp 2 = 2" "Rep_fp 0 = 0" using fp_of_int [of 2] by (simp_all add: field_p_def zero_fp.rep_eq)
  then have nz: "(2 :: fp) \<noteq> 0" by (metis zero_neq_numeral)
  let ?m = "Scalar8 5 0 0 0 0 0 0 0"
  have s: "scalar_ok_8x32 ?r" "2 * scalar_val_8x32 ?s < order_n" "scalar_ok_8x32 ?m" by (simp_all add: eval_8x32 order_n_def)
  have five: "be_val (?msg :: u8 list) = 5" using be_val_zeros [of 31 "[5]"] by (simp add: be_val_Cons)
  have v: "scalar_val_8x32 ?s ^ nat (order_n - 1) mod order_n = 1"
    "scalar_val_8x32 ?m * scalar_val_8x32 ?s mod order_n = be_val (?msg :: u8 list) mod order_n"
    "scalar_val_8x32 ?r * scalar_val_8x32 ?s mod order_n = scalar_val_8x32 ?r mod order_n" unfolding five by (simp_all add: eval_8x32)
  have p: "ecmult_points ecmult_scalar_8x32 small_table small_table small_table ?r ?m (Affine 2 3)"
    using b10.points_seven [of ?r ?m small_table] by (simp add: scalar_api_8x32_def eval_8x32)
  have l: "length (?msg :: u8 list) = 32" by simp
  show ?thesis
    using ecdsa_verify_bytes [OF mem a nz small_multiples s(1,2,3,1) l v p, of ?pr] by (simp add: two eval_8x32)
qed

text \<open>C23: normalization leaves \<open>s\<close> or its negative, whichever is in the low half, reports which, and is
  idempotent: its result is low and a second call changes nothing.\<close>

theorem signature_normalize_low:
  assumes "scalar_ok_8x32 s"
  shows "\<exists>s'. signature_normalize scalar_api_8x32 memory_image_10x26 (Some old) (signature_save memory_image_10x26 r s) =
      (order_n < 2 * scalar_val_8x32 s, Some (signature_save memory_image_10x26 r s')) \<and>
    2 * scalar_val_8x32 s' < order_n \<and> (scalar_val_8x32 s' = scalar_val_8x32 s \<or> scalar_val_8x32 s' = order_n - scalar_val_8x32 s) \<and>
    signature_normalize scalar_api_8x32 memory_image_10x26 (Some old) (signature_save memory_image_10x26 r s') = (False, Some (signature_save memory_image_10x26 r s'))"
  using a10.normalize_low [of s] assms unfolding scalar_ok_8x32_def by blast

theorem signature_normalize_low_witness:
  "\<exists>s'. signature_normalize scalar_api_8x32 memory_image_10x26 (Some [])
      (signature_save memory_image_10x26 (Scalar8 7 0 0 0 0 0 0 0) (Scalar8 0xD0364140 0xBFD25E8C 0xAF48A03B 0xBAAEDCE6 0xFFFFFFFE 0xFFFFFFFF 0xFFFFFFFF 0xFFFFFFFF)) =
    (True, Some (signature_save memory_image_10x26 (Scalar8 7 0 0 0 0 0 0 0) s')) \<and> scalar_val_8x32 s' = 1"
proof -
  let ?s = "Scalar8 0xD0364140 0xBFD25E8C 0xAF48A03B 0xBAAEDCE6 0xFFFFFFFE 0xFFFFFFFF 0xFFFFFFFF 0xFFFFFFFF"
  have v: "scalar_val_8x32 ?s = order_n - 1" by (simp add: eval_8x32 order_n_def)
  then have "scalar_ok_8x32 ?s" by (simp add: scalar_ok_8x32_def)
  from signature_normalize_low [OF this, of "[]" "Scalar8 7 0 0 0 0 0 0 0"] show ?thesis unfolding v by (auto simp: order_n_def)
qed

text \<open>C24: the 64 byte form is accepted exactly when both halves are below the group order, and then serialization gives
  the bytes back; otherwise the signature is cleared.\<close>

theorem signature_compact_roundtrip:
  assumes "length input = 64"
  shows "\<exists>ok sig. signature_parse_compact scalar_api_8x32 memory_image_10x26 input = (ok, sig) \<and> length sig = 64 \<and>
    (ok \<longleftrightarrow> be_val (take 32 input) < order_n \<and> be_val (drop 32 input) < order_n) \<and>
    (if ok then signature_serialize_compact scalar_api_8x32 memory_image_10x26 sig = (True, input) else sig = replicate 64 0)"
  by (rule a10.compact_roundtrip [OF assms])

theorem signature_compact_roundtrip_witness:
  "\<exists>sig. signature_parse_compact scalar_api_8x32 memory_image_10x26 (replicate 63 0 @ [5]) = (True, sig) \<and>
    signature_serialize_compact scalar_api_8x32 memory_image_10x26 sig = (True, replicate 63 0 @ [5])"
proof -
  have "be_val (replicate 32 0 :: u8 list) = 0" "be_val (replicate 31 0 @ [5] :: u8 list) = 5"
    using be_val_zeros [of 32 "[]"] be_val_zeros [of 31 "[5]"] by (simp_all add: be_val_Cons)
  then have "be_val (take 32 (replicate 63 0 @ [5 :: u8])) < order_n" "be_val (drop 32 (replicate 63 0 @ [5 :: u8])) < order_n"
    by (simp_all add: order_n_def)
  then show ?thesis using signature_compact_roundtrip [of "replicate 63 0 @ [5]"] by auto
qed

text \<open>C25: secret keys as bytes. A key is valid when it is between 1 and the group order less 1; negation, addition and
  multiplication are those of the integers modulo the group order, an operation that fails leaves a zero key, and it fails exactly for a
  tweak out of range and a zero result.\<close>

theorem seckey_operations:
  assumes "length key = 32" "length tweak = 32"
  shows "(ec_seckey_verify scalar_api_8x32 key \<longleftrightarrow> 0 < be_val key \<and> be_val key < order_n) \<and>
    (\<exists>k. ec_privkey_negate scalar_api_8x32 key = (True, k) \<and> length k = 32 \<and> be_val k = - be_val key mod order_n) \<and>
    (\<exists>ok k. ec_privkey_tweak_add scalar_api_8x32 key tweak = (ok, k) \<and> length k = 32 \<and>
      (ok \<longleftrightarrow> be_val tweak < order_n \<and> (be_val key + be_val tweak) mod order_n \<noteq> 0) \<and>
      be_val k = (if ok then (be_val key + be_val tweak) mod order_n else 0)) \<and>
    (\<exists>ok k. ec_privkey_tweak_mul scalar_api_8x32 key tweak = (ok, k) \<and> length k = 32 \<and>
      (ok \<longleftrightarrow> 0 < be_val tweak \<and> be_val tweak < order_n) \<and>
      be_val k = (if ok then be_val key * be_val tweak mod order_n else 0))"
  using a10.seckey_values [OF assms] by (intro conjI)

theorem seckey_operations_witness:
  "ec_seckey_verify scalar_api_8x32 (replicate 31 0 @ [5]) \<and> (\<exists>k. ec_privkey_tweak_add scalar_api_8x32 (replicate 31 0 @ [5]) (replicate 31 0 @ [7]) = (True, k) \<and> be_val k = 12)"
proof -
  have "be_val (replicate 31 0 @ [5] :: u8 list) = 5" "be_val (replicate 31 0 @ [7] :: u8 list) = 7"
    using be_val_zeros [of 31 "[5]"] be_val_zeros [of 31 "[7]"] by (simp_all add: be_val_Cons)
  then show ?thesis using seckey_operations [of "replicate 31 0 @ [5]" "replicate 31 0 @ [7]"] by (auto simp: order_n_def)
qed



end
