(* ===== verification/Rangeproof.thy ===== *)
theory Rangeproof
  imports Pedersen
begin

text \<open>
  Range proofs, \<open>rangeproof_impl.h\<close>: the choice of the parameters of a proof, its header, and the equations that the prover and
  the rewinding verifier use for blinding factors and nonces. Sizes are natural numbers; amounts are 64-bit words, with the wrap-around.
\<close>

subsection \<open>Counting zeros (util.h 91--104)\<close>

text \<open>The loop ends after at most 63 shifts, as the argument is not zero there.\<close>

primrec clz64_loop :: "nat \<Rightarrow> u64 \<Rightarrow> int \<Rightarrow> int" where
  "clz64_loop 0 x ret = ret"
| "clz64_loop (Suc n) x ret = (if x AND 2 ^ 63 = 0 then clz64_loop n (push_bit 1 x) (ret + 1) else ret)"

definition clz64_var :: "u64 \<Rightarrow> int" where
  "clz64_var x = (if x = 0 then 64 else clz64_loop 63 x 0)"

subsection \<open>Parameters (rangeproof_impl.h 114--189)\<close>

record range_params =
  rp_v :: u64
  rp_rings :: nat
  rp_rsizes :: "nat list"
  rp_npub :: nat
  rp_secidx :: "nat list"
  rp_min_value :: u64
  rp_mantissa :: int
  rp_scale :: u64
  rp_exp :: int
  rp_min_bits :: int

function range_shrink :: "int \<Rightarrow> nat \<Rightarrow> u64 \<Rightarrow> u64 \<Rightarrow> nat \<times> u64" where
  "range_shrink exp i v v2 = (if int i < exp \<and> v2 \<le> - 1 div 10 then range_shrink exp (i + 1) (v div 10) (v2 * 10) else (i, v))"
  by pat_completeness auto
termination by (relation "measure (\<lambda>(exp, i, v, v2). nat (exp - int i))") auto

declare range_shrink.simps [simp del]

definition range_proveparams :: "u64 \<Rightarrow> int \<Rightarrow> int \<Rightarrow> u64 \<Rightarrow> range_params option" where
  "range_proveparams min_value exp min_bits value =
    (let exp = (if min_value = - 1 then - 1 else exp)
     in if exp \<ge> 0
        then if min_value \<noteq> 0 \<and> value > 0x7FFFFFFFFFFFFFFF \<or> value \<noteq> 0 \<and> min_value \<ge> 0x7FFFFFFFFFFFFFFF then None
             else let max_bits = (if min_value \<noteq> 0 then clz64_var min_value else 64);
                      min_bits = (if min_bits > max_bits then max_bits else min_bits);
                      exp = (if min_bits > 61 \<or> value > 0x7FFFFFFFFFFFFFFF then 0 else exp);
                      v = value - min_value;
                      v2 = (if min_bits \<noteq> 0 then drop_bit (nat (64 - min_bits)) (- 1) else 0);
                      (i, v) = range_shrink exp 0 v v2;
                      exp = int i;
                      v2 = v;
                      (v2, scale) = fold (\<lambda>_ (v2, scale). (v2 * 10, scale * 10)) [0..<i] (v2, 1);
                      min_value = value - v2;
                      mantissa = (if v \<noteq> 0 then 64 - clz64_var v else 1);
                      mantissa = (if min_bits > mantissa then min_bits else mantissa);
                      rings = nat ((mantissa + 1) div 2);
                      rsizes = map (\<lambda>i. if i < rings - 1 \<or> even mantissa then 4 else 2) [0..<rings];
                      npub = sum_list rsizes;
                      secidx = map (\<lambda>i. unat (drop_bit (i * 2) v AND 3)) [0..<rings]
                  in Some \<lparr>rp_v = v, rp_rings = rings, rp_rsizes = rsizes, rp_npub = npub, rp_secidx = secidx, rp_min_value = min_value,
                       rp_mantissa = mantissa, rp_scale = scale, rp_exp = exp, rp_min_bits = min_bits\<rparr>
        else Some \<lparr>rp_v = 0, rp_rings = 1, rp_rsizes = [1], rp_npub = 2, rp_secidx = [0], rp_min_value = value,
                 rp_mantissa = 0, rp_scale = 1, rp_exp = 0, rp_min_bits = min_bits\<rparr>)"

subsection \<open>The header (rangeproof_impl.h 223--235 and 487--538)\<close>

text \<open>The start of a proof, as \<open>rangeproof_sign_impl\<close> writes it.\<close>

definition rangeproof_header :: "range_params \<Rightarrow> u8 list" where
  "rangeproof_header p =
    [(if rp_rsizes p ! 0 > 1 then 64 OR of_int (rp_exp p) else 0) OR (if rp_min_value p \<noteq> 0 then 32 else 0)] @
    (if rp_rsizes p ! 0 > 1 then [of_int (rp_mantissa p - 1)] else []) @
    (if rp_min_value p \<noteq> 0 then map (\<lambda>i. ucast (drop_bit ((7 - i) * 8) (rp_min_value p) AND 255)) [0..<8] else [])"

primrec header_scale :: "nat \<Rightarrow> u64 \<Rightarrow> u64 \<Rightarrow> (u64 \<times> u64) option" where
  "header_scale 0 max_value scale = Some (max_value, scale)"
| "header_scale (Suc n) max_value scale = (if max_value > - 1 div 10 then None else header_scale n (max_value * 10) (scale * 10))"

text \<open>The result has the new offset, the exponent, the mantissa, the scale, the minimum and the maximum. What a failed call leaves in
  these is not modelled.\<close>

definition rangeproof_getheader :: "nat \<Rightarrow> u8 list \<Rightarrow> (nat \<times> int \<times> int \<times> u64 \<times> u64 \<times> u64) option" where
  "rangeproof_getheader offset proof =
    (if length proof < 65 \<or> proof ! offset AND 128 \<noteq> 0 then None
     else let has_nz_range = (proof ! offset AND 64 \<noteq> 0);
              has_min = (proof ! offset AND 32 \<noteq> 0)
          in Option.bind (if has_nz_range
                          then let exp = uint (proof ! offset AND 31);
                                   offset = offset + 1
                               in if exp > 18 then None
                                  else let mantissa = uint (proof ! offset) + 1
                                       in if mantissa > 64 then None else Some (offset, exp, mantissa, drop_bit (nat (64 - mantissa)) (- 1))
                          else Some (offset, - 1, 0, 0)) (\<lambda>(offset, exp, mantissa, max_value).
             let offset = offset + 1
             in Option.bind (header_scale (nat exp) max_value 1) (\<lambda>(max_value, scale).
                Option.bind (if has_min
                             then if length proof - offset < 8 then None
                                  else Some (offset + 8, fold (\<lambda>i min_value. push_bit 8 min_value OR ucast (proof ! (offset + i))) [0..<8] 0)
                             else Some (offset, 0)) (\<lambda>(offset, min_value).
                if max_value > - 1 - min_value then None
                else Some (offset, exp, mantissa, scale, min_value, max_value + min_value)))))"

subsection \<open>Blinding factors and nonces (rangeproof_impl.h 339--355)\<close>

definition rangeproof_recover_x :: "'s scalar_api \<Rightarrow> 's \<Rightarrow> 's \<Rightarrow> 's \<Rightarrow> 's" where
  "rangeproof_recover_x api k e s =
    (let x = sa_negate api s;
         x = sa_add api x k;
         stmp = scalar_inverse (sa_arith api) e
     in sa_mul api x stmp)"

definition rangeproof_recover_k :: "'s scalar_api \<Rightarrow> 's \<Rightarrow> 's \<Rightarrow> 's \<Rightarrow> 's" where
  "rangeproof_recover_k api x e s = (let stmp = sa_mul api x e in sa_add api s stmp)"

text \<open>The response that a ring signature (\<open>borromean_impl.h\<close> 189--191) computes for the member that is not forged.\<close>

definition borromean_response :: "'s scalar_api \<Rightarrow> 's \<Rightarrow> 's \<Rightarrow> 's \<Rightarrow> 's" where
  "borromean_response api ens sec k =
    (let s = sa_mul api ens sec;
         s = sa_negate api s
     in sa_add api s k)"

subsection \<open>Correctness of the parameters\<close>

lemma clz64_loop_spec:
  assumes "n \<le> 63" "2 ^ (63 - n) \<le> uint x"
  shows "\<exists>c\<le>n. clz64_loop n x ret = ret + int c \<and> 2 ^ (63 - c) \<le> uint x \<and> uint x < 2 ^ (64 - c)"
  using assms
proof (induction n arbitrary: x ret)
  case 0
  then show ?case using uint_bounded [of x] by simp
next
  case (Suc n x ret)
  have b: "x AND 2 ^ 63 = 0 \<longleftrightarrow> uint x < 2 ^ 63"
  proof -
    have "x AND 2 ^ 63 = 0 \<longleftrightarrow> \<not> bit (uint x) 63" by (simp only: and_exp_eq_0_iff_not_bit bit_uint_iff) simp
    also have "\<dots> \<longleftrightarrow> even (uint x div 2 ^ 63)" by (simp add: bit_iff_odd)
    also have "uint x div 2 ^ 63 = (if uint x < 2 ^ 63 then 0 else 1)"
    proof (cases "uint x < 2 ^ 63")
      case False
      have "uint x div 2 ^ 63 = 1"
        by (rule int_div_pos_eq [where r = "uint x - 2 ^ 63"]) (use False uint_bounded [of x] in simp_all)
      then show ?thesis using False by simp
    qed (simp add: div_pos_pos_trivial)
    finally show ?thesis by simp
  qed
  show ?case
  proof (cases "uint x < 2 ^ 63")
    case True
    then have p: "uint (push_bit 1 x) = 2 * uint x" by (simp add: uint_word_ariths push_bit_eq_mult uint_mult_lem)
    have "2 ^ (63 - n) = 2 * (2 :: int) ^ (63 - Suc n)" using Suc.prems(1) by (simp add: Suc_diff_Suc flip: power_Suc)
    then have "2 ^ (63 - n) \<le> uint (push_bit 1 x)" using Suc.prems(2) p by simp
    then obtain c where c: "c \<le> n" "clz64_loop n (push_bit 1 x) (ret + 1) = ret + 1 + int c" "2 ^ (63 - c) \<le> 2 * uint x" "2 * uint x < 2 ^ (64 - c)"
      using Suc.IH [of "push_bit 1 x" "ret + 1"] Suc.prems(1) unfolding p by auto
    have "2 ^ (63 - c) = 2 * (2 :: int) ^ (63 - Suc c)" "2 ^ (64 - c) = 2 * (2 :: int) ^ (64 - Suc c)"
      using Suc.prems(1) c(1) by (simp_all flip: power_Suc)
    then show ?thesis using True b c by (intro exI [of _ "Suc c"]) simp
  next
    case False
    then show ?thesis using b uint_bounded [of x] by (intro exI [of _ 0]) simp
  qed
qed

lemma clz64_spec:
  assumes "x \<noteq> 0"
  obtains c where "c \<le> 63" "clz64_var x = int c" "2 ^ (63 - c) \<le> uint x" "uint x < 2 ^ (64 - c)"
proof -
  have "uint x \<noteq> 0" using assms by (simp add: unsigned_eq_0_iff)
  then have "0 < uint x" using uint_ge_0 [of x] by linarith
  then have "2 ^ (63 - 63) \<le> uint x" by simp
  from clz64_loop_spec [OF _ this, of 0] show thesis using that assms by (auto simp: clz64_var_def)
qed

lemma range_shrink_spec:
  assumes "0 \<le> exp" "range_shrink exp i v v2 = (j, v')" "int i \<le> exp"
  shows "i \<le> j \<and> int j \<le> exp \<and> uint v' = uint v div 10 ^ (j - i) \<and> uint v2 * 10 ^ (j - i) < 2 ^ 64"
  using assms
proof (induction exp i v v2 rule: range_shrink.induct)
  case (1 exp i v v2)
  show ?case
  proof (cases "int i < exp \<and> v2 \<le> - 1 div 10")
    case True
    then have v2: "uint v2 \<le> 1844674407370955161" by (simp add: word_le_def uint_div_distrib)
    then have m: "uint (v2 * 10) = uint v2 * 10" by (simp add: uint_mult_lem uint_word_ariths)
    have "range_shrink exp (i + 1) (v div 10) (v2 * 10) = (j, v')" using "1.prems"(2) True by (subst (asm) range_shrink.simps) simp
    note IH = "1.IH" [OF True "1.prems"(1) this]
    have h: "i + 1 \<le> j" "int j \<le> exp" "uint v' = uint v div 10 div 10 ^ (j - (i + 1))" "uint v2 * 10 * 10 ^ (j - (i + 1)) < 2 ^ 64"
      using IH True by (simp_all add: m uint_div_distrib)
    have "j - i = Suc (j - (i + 1))" using h(1) by simp
    then show ?thesis using h by (simp add: zdiv_zmult2_eq mult.assoc)
  next
    case False
    then show ?thesis using "1.prems" uint_bounded [of v2] by (subst (asm) range_shrink.simps) auto
  qed
qed

lemma grow_fold:
  fixes v :: u64
  assumes "uint v * 10 ^ i < 2 ^ 64" "i \<le> 19"
  shows "fold (\<lambda>_ (v2, scale). (v2 * 10, scale * 10)) [0..<i] (v, 1 :: u64) = (v2, s) \<Longrightarrow> uint v2 = uint v * 10 ^ i \<and> uint s = 10 ^ i"
  using assms
proof (induction i arbitrary: v2 s)
  case (Suc i)
  obtain a b where f: "fold (\<lambda>_ (v2, scale). (v2 * 10, scale * 10)) [0..<i] (v, 1 :: u64) = (a, b)" by fastforce
  have lt: "uint v * 10 ^ i * 10 < 2 ^ 64" using Suc.prems(2) by simp
  have "uint v * 10 ^ i \<le> uint v * 10 ^ i * 10" by simp
  then have h: "uint a = uint v * 10 ^ i" "uint b = 10 ^ i" using Suc.IH [OF f] lt Suc.prems(3) by simp_all
  have "(10 :: int) ^ i * 10 \<le> 10 ^ 19" using Suc.prems(3) power_increasing [of "Suc i" 19 "10 :: int"] by simp
  then show ?case using Suc.prems(1) f h lt by (auto simp: uint_mult_lem uint_word_ariths)
qed auto

lemma ones_64: "uint (drop_bit k (- 1 :: u64)) = 2 ^ (64 - k) - 1" if "k \<le> 64"
proof -
  have "(2 :: int) ^ 64 = 2 ^ k * 2 ^ (64 - k)" using that by (simp flip: power_add)
  moreover have "uint (- 1 :: u64) = 2 ^ 64 - 1" by (simp add: unsigned_minus_1_eq_mask mask_eq_exp_minus_1)
  ultimately have "uint (- 1 :: u64) div 2 ^ k = 2 ^ (64 - k) - 1"
    by (intro int_div_pos_eq [where r = "2 ^ k - 1"]) (simp_all add: right_diff_distrib)
  then show ?thesis by (simp only: uint_drop_bit)
qed

text \<open>The scaled mantissa and the offset fit together, checked for every size and exponent.\<close>

definition scale_fits :: "int \<Rightarrow> int \<Rightarrow> bool" where
  "scale_fits B C \<longleftrightarrow> list_all (\<lambda>A. (B - 1) * A < 0x10000000000000000 \<longrightarrow> B * A + C \<le> 0x10000000000000001)
    [1, 10, 100, 1000, 10000, 100000, 1000000, 10000000, 100000000, 1000000000, 10000000000, 100000000000, 1000000000000, 10000000000000,
     100000000000000, 1000000000000000, 10000000000000000, 100000000000000000, 1000000000000000000]"

primrec scales_fit :: "nat \<Rightarrow> int \<Rightarrow> int \<Rightarrow> bool" where
  "scales_fit 0 B C \<longleftrightarrow> True"
| "scales_fit (Suc n) B C \<longleftrightarrow> scale_fits B C \<and> scales_fit n (2 * B) (C div 2)"

lemma scales_fit_all: "scales_fit n B C \<Longrightarrow> i < n \<Longrightarrow> scale_fits (2 ^ i * B) (C div 2 ^ i)"
proof (induction n arbitrary: B C i)
  case (Suc n)
  show ?case
  proof (cases i)
    case (Suc k)
    then show ?thesis using Suc.IH [of "2 * B" "C div 2" k] Suc.prems by (simp add: mult_ac zdiv_zmult2_eq)
  qed (use Suc.prems in simp)
qed simp

lemma scales_fit_60: "scales_fit 60 4 0x4000000000000000"
  by code_simp

lemma shifted_scale:
  assumes "2 \<le> b" "b \<le> 64" "j \<le> 18" "(2 ^ b - 1) * 10 ^ j < (2 :: int) ^ 64" "b \<le> 61 \<or> j = 0"
  shows "2 ^ b * 10 ^ j + 2 ^ (64 - b) \<le> (2 :: int) ^ 64 + 1"
proof (cases "j = 0")
  case True
  have "0 \<le> (2 ^ b - 1) * ((2 :: int) ^ (64 - b) - 1)" by simp
  moreover have "(2 :: int) ^ b * 2 ^ (64 - b) = 2 ^ 64" using assms(2) by (simp flip: power_add)
  ultimately show ?thesis using True by (simp add: algebra_simps)
next
  case False
  have "b = b - 2 + 2" using assms(1) by simp
  then have "(2 :: int) ^ b = 2 ^ (b - 2) * 2 ^ 2" by (metis power_add)
  moreover have "(4 :: int) = 2 ^ 2" by simp
  ultimately have b: "b - 2 < 60" "2 ^ (b - 2) * 4 = (2 :: int) ^ b" using assms(1,5) False by (linarith, metis)
  have c: "0x4000000000000000 div 2 ^ (b - 2) = (2 :: int) ^ (64 - b)"
  proof -
    have "(0x4000000000000000 :: int) = 2 ^ (64 - b) * 2 ^ (b - 2)" using assms(1,2) by (simp flip: power_add)
    then have "0x4000000000000000 div 2 ^ (b - 2) = 2 ^ (64 - b) * 2 ^ (b - 2) div (2 :: int) ^ (b - 2)" by (rule arg_cong)
    also have "\<dots> = 2 ^ (64 - b)" by (rule nonzero_mult_div_cancel_right) simp
    finally show ?thesis .
  qed
  have "10 ^ j \<in> set (map (\<lambda>j. (10 :: int) ^ j) [0..<19])" using assms(3) by simp
  also have "map (\<lambda>j. (10 :: int) ^ j) [0..<19] = [1, 10, 100, 1000, 10000, 100000, 1000000, 10000000, 100000000, 1000000000, 10000000000, 100000000000, 1000000000000, 10000000000000,
     100000000000000, 1000000000000000, 10000000000000000, 100000000000000000, 1000000000000000000]" by (simp add: upt_rec)
  finally show ?thesis
    using scales_fit_all [OF scales_fit_60 b(1)] assms(4) unfolding b(2) c scale_fits_def list_all_iff by fastforce
qed

lemma mantissa_spec:
  assumes "m = (if v \<noteq> 0 then 64 - clz64_var v else 1)"
  shows "1 \<le> m" "m \<le> 64" "uint v < 2 ^ nat m" "v \<noteq> 0 \<Longrightarrow> 2 ^ nat m \<le> 2 * uint v"
proof -
  have "1 \<le> m \<and> m \<le> 64 \<and> uint v < 2 ^ nat m \<and> (v \<noteq> 0 \<longrightarrow> 2 ^ nat m \<le> 2 * uint v)"
  proof (cases "v = 0")
    case False
    then obtain c where c: "c \<le> 63" "clz64_var v = int c" "2 ^ (63 - c) \<le> uint v" "uint v < 2 ^ (64 - c)" by (rule clz64_spec)
    have m: "1 \<le> m" "m \<le> 64" "nat m = 64 - c" using assms False c(1,2) by simp_all
    have "(2 :: int) ^ (64 - c) = 2 * 2 ^ (63 - c)" using c(1) by (simp flip: power_Suc add: Suc_diff_le)
    then show ?thesis using m(1,2) c(3,4) unfolding m(3) by simp
  qed (use assms in simp)
  then show "1 \<le> m" "m \<le> 64" "uint v < 2 ^ nat m" "v \<noteq> 0 \<Longrightarrow> 2 ^ nat m \<le> 2 * uint v" by blast+
qed

lemma range_limit:
  fixes min_value "value" v :: u64
  assumes "uint min_value < 2 ^ nat (64 - b)" "0 \<le> b" "b \<le> 64" "j \<le> 18" "(2 ^ nat b - 1) * 10 ^ j < (2 :: int) ^ 64" "b \<le> 61 \<and> uint value < 2 ^ 63 \<or> j = 0"
    and "min_value \<le> value" "min_value = 0 \<or> uint value < 2 ^ 63" "min_value \<noteq> - 1" "uint v = (uint value - uint min_value) div 10 ^ j"
    and "m = (if v \<noteq> 0 then 64 - clz64_var v else 1)" "m' = (if b > m then b else m)"
  shows "(2 ^ nat m' - 1) * 10 ^ j + (uint value - uint v * 10 ^ j) < 2 ^ 64"
proof -
  note m = mantissa_spec [OF assms(11)]
  let ?d = "uint value - uint min_value"
  have le: "uint min_value \<le> uint value" using assms(7) by (simp add: word_le_def)
  have ten: "(0 :: int) < 10 ^ j" by simp
  have d: "uint v * 10 ^ j \<le> ?d" "?d < uint v * 10 ^ j + 10 ^ j"
    unfolding assms(10) using div_mult_mod_eq [of ?d "10 ^ j"] pos_mod_bound [of "10 ^ j" ?d] pos_mod_sign [of "10 ^ j" ?d] ten by linarith+
  show ?thesis
  proof (cases "b > m")
    case True
    have b: "2 \<le> nat b" "nat b \<le> 64" "nat b \<le> 61 \<or> j = 0" using True m(1) assms(3,6) by auto
    note s = shifted_scale [OF b(1,2) assms(4,5) b(3)]
    have "nat (64 - b) = 64 - nat b" using assms(2,3) by simp
    then show ?thesis using True assms(1,12) d(2) s by (simp add: left_diff_distrib)
  next
    case False
    then have m': "m' = m" by (simp add: assms(12))
    have ten18: "(10 :: int) ^ j \<le> 10 ^ 18" using assms(4) by (intro power_increasing) simp_all
    show ?thesis
    proof (cases "v = 0")
      case v: True
      have "uint value \<noteq> 2 ^ 64 - 1" if "j = 0"
      proof
        assume "uint value = 2 ^ 64 - 1"
        then have "uint min_value = 2 ^ 64 - 1" using d v that le by simp
        then have "min_value = - 1" by (intro word_uint_eqI) (simp add: unsigned_minus_1_eq_mask mask_eq_exp_minus_1)
        then show False using assms(9) by simp
      qed
      then show ?thesis
        using v m' assms(6,11) ten18 uint_bounded [of "value"] by (cases "j = 0") auto
    next
      case v: False
      have p: "(2 ^ nat m - 1) * 10 ^ j \<le> 2 * (uint v * 10 ^ j) - 10 ^ j"
        using mult_right_mono [OF m(4) [OF v], of "10 ^ j"] by (simp add: left_diff_distrib)
      have one: "(1 :: int) \<le> 10 ^ j" by simp
      show ?thesis
      proof (cases "uint value < 2 ^ 63")
        case True
        then have "2 * uint value < 2 ^ 64" by simp
        then show ?thesis using p d le one uint_ge_0 [of min_value] unfolding m' by linarith
      next
        case big: False
        then have z: "min_value = 0" "j = 0" using assms(6,8) by auto
        have "(2 :: int) ^ nat m \<le> 2 ^ 64" using m(2) by (intro power_increasing) simp_all
        then show ?thesis using assms(10) z unfolding m' by simp
      qed
    qed
  qed
qed

lemma proveparams_ranged:
  assumes "min_value \<le> value" "0 \<le> exp" "exp \<le> 18" "0 \<le> min_bits" "min_bits \<le> 64" "min_value \<noteq> - 1"
    and "range_proveparams min_value exp min_bits value = Some p"
  shows "\<exists>j\<le>18. \<exists>m. rp_exp p = int j \<and> rp_mantissa p = int m \<and> 1 \<le> m \<and> m \<le> 64 \<and> uint (rp_scale p) = 10 ^ j \<and>
    uint (rp_v p) * 10 ^ j + uint (rp_min_value p) = uint value \<and> min_value \<le> rp_min_value p \<and>
    uint (rp_v p) < 2 ^ m \<and> (2 ^ m - 1) * 10 ^ j + uint (rp_min_value p) < 2 ^ 64 \<and>
    rp_rings p = (m + 1) div 2 \<and> rp_rsizes p = map (\<lambda>i. if i < rp_rings p - 1 \<or> even m then 4 else 2) [0..<rp_rings p] \<and>
    rp_npub p = sum_list (rp_rsizes p) \<and> rp_secidx p = map (\<lambda>i. unat (drop_bit (i * 2) (rp_v p) AND 3)) [0..<rp_rings p]"
proof -
  define M where "M = (0x7FFFFFFFFFFFFFFF :: u64)"
  have M: "uint M = 2 ^ 63 - 1" by (simp add: M_def)
  define b where "b = (if min_bits > (if min_value \<noteq> 0 then clz64_var min_value else 64) then (if min_value \<noteq> 0 then clz64_var min_value else 64) else min_bits)"
  define e where "e = (if b > 61 \<or> value > M then 0 else exp)"
  define v2 where "v2 = (if b \<noteq> 0 then drop_bit (nat (64 - b)) (- 1 :: u64) else 0)"
  obtain j v where jv: "range_shrink e 0 (value - min_value) v2 = (j, v)" by fastforce
  obtain V s where Vs: "fold (\<lambda>_ (v2, scale). (v2 * 10, scale * 10)) [0..<j] (v, 1 :: u64) = (V, s)" by fastforce
  define m where "m = (if v \<noteq> 0 then 64 - clz64_var v else 1)"
  define m' where "m' = (if b > m then b else m)"
  have min: "(if min_value = - 1 then - 1 else exp) = exp" using assms(6) by simp
  have eq: "range_proveparams min_value exp min_bits value =
    (if min_value \<noteq> 0 \<and> value > M \<or> value \<noteq> 0 \<and> min_value \<ge> M then None
     else Some \<lparr>rp_v = v, rp_rings = nat ((m' + 1) div 2),
      rp_rsizes = map (\<lambda>i. if i < nat ((m' + 1) div 2) - 1 \<or> even m' then 4 else 2) [0..<nat ((m' + 1) div 2)],
      rp_npub = sum_list (map (\<lambda>i. if i < nat ((m' + 1) div 2) - 1 \<or> even m' then 4 else 2) [0..<nat ((m' + 1) div 2)]),
      rp_secidx = map (\<lambda>i. unat (drop_bit (i * 2) v AND 3)) [0..<nat ((m' + 1) div 2)], rp_min_value = value - V,
      rp_mantissa = m', rp_scale = s, rp_exp = int j, rp_min_bits = b\<rparr>)"
    unfolding range_proveparams_def Let_def min
    by (simp only: assms(2) if_True M_def [symmetric] b_def [symmetric] e_def [symmetric] v2_def [symmetric] jv prod.case Vs m_def [symmetric] m'_def [symmetric])
  have ok: "\<not> (min_value \<noteq> 0 \<and> value > M)" and p: "p = \<lparr>rp_v = v, rp_rings = nat ((m' + 1) div 2),
      rp_rsizes = map (\<lambda>i. if i < nat ((m' + 1) div 2) - 1 \<or> even m' then 4 else 2) [0..<nat ((m' + 1) div 2)],
      rp_npub = sum_list (map (\<lambda>i. if i < nat ((m' + 1) div 2) - 1 \<or> even m' then 4 else 2) [0..<nat ((m' + 1) div 2)]),
      rp_secidx = map (\<lambda>i. unat (drop_bit (i * 2) v AND 3)) [0..<nat ((m' + 1) div 2)], rp_min_value = value - V,
      rp_mantissa = m', rp_scale = s, rp_exp = int j, rp_min_bits = b\<rparr>"
    using assms(7) unfolding eq by (simp_all split: if_splits)
  have b: "0 \<le> b" "b \<le> 64" "uint min_value < 2 ^ nat (64 - b)"
  proof -
    have "0 \<le> b \<and> b \<le> 64 \<and> uint min_value < 2 ^ nat (64 - b)"
    proof (cases "min_value = 0")
      case False
      then obtain c where c: "c \<le> 63" "clz64_var min_value = int c" "uint min_value < 2 ^ (64 - c)" by (meson clz64_spec)
      have "b \<le> int c" "0 \<le> b" using False c(2) assms(4) by (auto simp: b_def)
      moreover have "(2 :: int) ^ (64 - c) \<le> 2 ^ nat (64 - b)" using calculation c(1) by (intro power_increasing) auto
      ultimately show ?thesis using c(1,3) by linarith
    qed (use assms(4,5) in \<open>auto simp: b_def\<close>)
    then show "0 \<le> b" "b \<le> 64" "uint min_value < 2 ^ nat (64 - b)" by blast+
  qed
  have v2: "uint v2 = 2 ^ nat b - 1"
  proof (cases "b = 0")
    case False
    have "64 - nat (64 - b) = nat b" using b(1,2) by simp
    then show ?thesis using False b(1,2) ones_64 [of "nat (64 - b)"] by (simp add: v2_def)
  qed (simp add: v2_def)
  have e: "0 \<le> e" "e \<le> 18" "b \<le> 61 \<and> uint value < 2 ^ 63 \<or> e = 0"
    using assms(2,3) M by (auto simp: e_def word_less_def not_less word_le_def)
  note sh = range_shrink_spec [OF e(1) jv, simplified]
  have j: "j \<le> 18" "b \<le> 61 \<and> uint value < 2 ^ 63 \<or> j = 0" using sh e by auto
  have le: "uint min_value \<le> uint value" using assms(1) by (simp add: word_le_def)
  then have d: "uint (value - min_value) = uint value - uint min_value" by (simp add: uint_minus_simple_alt word_le_def uint_sub_lem)
  have v: "uint v = (uint value - uint min_value) div 10 ^ j" using sh d e(1) by simp
  have Vle: "uint v * 10 ^ j \<le> uint value - uint min_value" 
  proof -
    have "0 \<le> (uint value - uint min_value) mod 10 ^ j" by simp
    then show ?thesis unfolding v using div_mult_mod_eq [of "uint value - uint min_value" "10 ^ j"] by linarith
  qed
  have lt64: "uint v * 10 ^ j < 2 ^ 64" 
  proof -
    have "uint value - uint min_value < 2 ^ 64" using uint_bounded [of "value"] by (simp add: less_le_trans [OF _ le_add_same_cancel1 [THEN iffD2]] diff_less_eq add_strict_increasing2)
    then show ?thesis using Vle by linarith
  qed
  have V: "uint V = uint v * 10 ^ j" "uint s = 10 ^ j" using grow_fold [OF lt64 _ Vs] j(1) by simp_all
  have mv: "uint (value - V) = uint value - uint v * 10 ^ j" 
  proof -
    have "uint V \<le> uint value" using Vle V(1) uint_ge_0 [of min_value] by linarith
    then have "uint (value - V) = uint value - uint V" by (simp only: uint_sub_lem)
    then show ?thesis by (simp only: V(1))
  qed
  have lim: "(2 ^ nat m' - 1) * 10 ^ j + (uint value - uint v * 10 ^ j) < 2 ^ 64"
  proof (rule range_limit [OF b(3,1,2) j(1) _ j(2) assms(1) _ assms(6) v m_def m'_def])
    show "(2 ^ nat b - 1) * 10 ^ j < (2 :: int) ^ 64" using sh e(1) v2 by simp
    show "min_value = 0 \<or> uint value < 2 ^ 63" using ok M by (auto simp: word_less_def not_less word_le_def)
  qed
  note ms = mantissa_spec [OF m_def]
  have mm: "(2 :: int) ^ nat m \<le> 2 ^ nat m'" by (intro power_increasing) (simp_all add: m'_def nat_mono)
  have m': "1 \<le> m'" "m' \<le> 64" "uint v < 2 ^ nat m'" using ms(1,2) less_le_trans [OF ms(3) mm] b(2) by (simp_all add: m'_def)
  obtain k where k: "m' = int k" "1 \<le> k" "k \<le> 64" using m'(1,2) nonneg_int_cases [of m'] by auto
  have r: "nat ((m' + 1) div 2) = (k + 1) div 2" unfolding k(1) by (simp add: nat_div_distrib nat_add_distrib)
  have min: "min_value \<le> value - V" unfolding word_le_def mv using Vle by simp
  show ?thesis
    by (intro exI [of _ j] exI [of _ k] conjI) (use j(1) k m'(3) V(2) mv lim min in \<open>simp_all add: p r\<close>)
qed

subsection \<open>The header\<close>

lemma le_complement: "\<not> x > - 1 - y \<longleftrightarrow> uint x + uint y < 2 ^ 64" for x y :: u64
proof -
  have m: "uint (- 1 :: u64) = 2 ^ 64 - 1" by (simp add: unsigned_minus_1_eq_mask mask_eq_exp_minus_1)
  have "uint y \<le> uint (- 1 :: u64)" unfolding m using uint_bounded [of y] by simp
  then have "uint (- 1 - y) = 2 ^ 64 - 1 - uint y" unfolding m [symmetric] by (simp only: uint_sub_lem)
  then show ?thesis by (simp only: not_less word_le_def) auto
qed

lemma ten_limit: "\<not> x > - 1 div 10 \<longleftrightarrow> uint x * 10 < 2 ^ 64" for x :: u64
proof -
  have "(- 1 :: u64) div 10 = 1844674407370955161" "uint (1844674407370955161 :: u64) = 1844674407370955161" by simp_all
  then have "\<not> x > - 1 div 10 \<longleftrightarrow> uint x \<le> 1844674407370955161" by (simp only: not_less word_le_def)
  also have "\<dots> \<longleftrightarrow> uint x * 10 < 2 ^ 64" by (rule iffI) simp_all
  finally show ?thesis .
qed

lemma times_ten: "uint x * 10 < 2 ^ 64 \<Longrightarrow> uint (x * 10) = uint x * 10" "uint x * 10 ^ Suc n < 2 ^ 64 \<Longrightarrow> uint x * 10 < 2 ^ 64" for x :: u64
proof -
  show "uint (x * 10) = uint x * 10" if "uint x * 10 < 2 ^ 64" using that by (simp add: uint_mult_lem uint_word_ariths)
  have "uint x * 10 \<le> uint x * 10 ^ Suc n" by (simp add: mult_left_mono)
  then show "uint x * 10 ^ Suc n < 2 ^ 64 \<Longrightarrow> uint x * 10 < 2 ^ 64" by linarith
qed

lemma header_scale_spec:
  "header_scale n x s = Some (x', s') \<Longrightarrow> uint s * 10 ^ n < 2 ^ 64 \<Longrightarrow> uint x' = uint x * 10 ^ n \<and> uint s' = uint s * 10 ^ n"
proof (induction n arbitrary: x s)
  case (Suc n x s)
  have lim: "\<not> x > - 1 div 10" and h: "header_scale n (x * 10) (s * 10) = Some (x', s')"
    using Suc.prems(1) by (simp_all split: if_splits)
  note x = times_ten(1) [OF ten_limit [THEN iffD1, OF lim]] and s = times_ten(1) [OF times_ten(2) [OF Suc.prems(2)]]
  show ?case using Suc.IH [OF h] Suc.prems(2) by (simp add: x s mult.assoc)
qed simp

lemma header_scale_some: "uint x * 10 ^ n < 2 ^ 64 \<Longrightarrow> \<exists>x' s'. header_scale n x s = Some (x', s')"
proof (induction n arbitrary: x s)
  case (Suc n x s)
  note lt = times_ten(2) [OF Suc.prems]
  have "uint (x * 10) * 10 ^ n < 2 ^ 64" using Suc.prems by (simp add: times_ten(1) [OF lt] mult.assoc)
  then obtain x' s' where h: "header_scale n (x * 10) (s * 10) = Some (x', s')" using Suc.IH by blast
  show ?case using h ten_limit [THEN iffD2, OF lt] by simp
qed simp

lemma getheader_spec:
  assumes "rangeproof_getheader off proof = Some (off', exp, mantissa, scale, min_value, max_value)"
  shows "- 1 \<le> exp \<and> exp \<le> 18 \<and> 0 \<le> mantissa \<and> mantissa \<le> 64 \<and> (mantissa = 0 \<longleftrightarrow> exp = - 1) \<and> off < off' \<and> off' \<le> off + 10 \<and>
    uint scale = 10 ^ nat exp \<and> uint max_value = (2 ^ nat mantissa - 1) * uint scale + uint min_value"
proof -
  obtain o1 x x1 o2 where 1: "(if proof ! off AND 64 \<noteq> 0
        then if uint (proof ! off AND 31) > 18 then None
             else if uint (proof ! (off + 1)) + 1 > 64 then None
             else Some (off + 1, uint (proof ! off AND 31), uint (proof ! (off + 1)) + 1, drop_bit (nat (64 - (uint (proof ! (off + 1)) + 1))) (- 1))
        else Some (off, - 1, 0, 0)) = Some (o1, exp, mantissa, x)"
    and 2: "header_scale (nat exp) x 1 = Some (x1, scale)" and 3: "off' = o1 + 1 \<or> off' = o1 + 9"
    and 4: "\<not> x1 > - 1 - min_value" "max_value = x1 + min_value"
    using assms unfolding rangeproof_getheader_def Let_def
    by (auto simp: bind_eq_Some_conv split: if_splits)
  define a q where "a = uint (proof ! (off + 1))" and "q = uint (proof ! off AND 31)"
  have aq: "0 \<le> a" "0 \<le> q" by (simp_all add: a_def q_def)
  have h: "- 1 \<le> exp \<and> exp \<le> 18 \<and> 0 \<le> mantissa \<and> mantissa \<le> 64 \<and> (mantissa = 0 \<longleftrightarrow> exp = - 1) \<and> off \<le> o1 \<and> o1 \<le> off + 1 \<and> uint x = 2 ^ nat mantissa - 1"
  proof (cases "proof ! off AND 64 \<noteq> 0")
    case True
    then have e: "q \<le> 18" "a + 1 \<le> 64" "o1 = off + 1" "exp = q" "mantissa = a + 1" "x = drop_bit (nat (64 - (a + 1))) (- 1)"
      using 1 [folded a_def q_def] by (simp_all split: if_splits)
    have "64 - nat (64 - (a + 1)) = nat (a + 1)" "nat (64 - (a + 1)) \<le> 64" using aq(1) e(2) by simp_all
    then have "uint x = 2 ^ nat (a + 1) - 1" using ones_64 [of "nat (64 - (a + 1))"] by (simp only: e(6))
    then show ?thesis using aq e(1-5) by simp
  qed (use 1 in simp)
  have "(10 :: int) ^ nat exp \<le> 10 ^ 18" using h by (intro power_increasing) auto
  then have s: "uint x1 = uint x * 10 ^ nat exp" "uint scale = 10 ^ nat exp" using header_scale_spec [OF 2] by simp_all
  have "uint max_value = uint x1 + uint min_value" 
    unfolding 4(2) by (rule uint_add_lem [THEN iffD1]) (use le_complement [THEN iffD1, OF 4(1)] in simp)
  then show ?thesis using h 3 s by auto
qed

lemma ucast_low_byte: "ucast (x AND 255) = (ucast x :: u8)" for x :: u64
proof -
  have t: "x AND 255 = take_bit 8 x" by (simp add: take_bit_eq_mask mask_eq_exp_minus_1)
  show ?thesis unfolding t by (rule bit_word_eqI) (auto simp: bit_unsigned_iff bit_take_bit_iff)
qed

lemma be64_read:
  assumes "\<forall>i<8. f i = ucast (drop_bit ((7 - i) * 8) w AND 255)"
  shows "fold (\<lambda>i m. push_bit 8 m OR ucast (f i :: u8)) [0..<8] 0 = (w :: u64)"
proof (rule bit_word_eqI)
  fix n
  assume n: "n < LENGTH(64)"
  have f: "f 0 = ucast (drop_bit 56 w)" "f 1 = ucast (drop_bit 48 w)" "f 2 = ucast (drop_bit 40 w)" "f 3 = ucast (drop_bit 32 w)"
    "f 4 = ucast (drop_bit 24 w)" "f 5 = ucast (drop_bit 16 w)" "f 6 = ucast (drop_bit 8 w)" "f 7 = ucast w"
    using assms ucast_low_byte by simp_all
  have idx: "[0..<8] = [0, 1, 2, 3, 4, 5, 6, 7]" by (simp add: upt_rec numeral_eq_Suc)
  have e: "fold (\<lambda>i m. push_bit 8 m OR ucast (f i :: u8)) [0..<8] (0 :: u64) =
    push_bit 56 (ucast (f 0)) OR push_bit 48 (ucast (f 1)) OR push_bit 40 (ucast (f 2)) OR push_bit 32 (ucast (f 3)) OR
    push_bit 24 (ucast (f 4)) OR push_bit 16 (ucast (f 5)) OR push_bit 8 (ucast (f 6)) OR ucast (f 7)"
    unfolding idx by (simp add: or.assoc)
  consider "n < 8" | "8 \<le> n" "n < 16" | "16 \<le> n" "n < 24" | "24 \<le> n" "n < 32" | "32 \<le> n" "n < 40" | "40 \<le> n" "n < 48" | "48 \<le> n" "n < 56" | "56 \<le> n" "n < 64"
    using n by fastforce
  then show "bit (fold (\<lambda>i m. push_bit 8 m OR ucast (f i :: u8)) [0..<8] (0 :: u64)) n \<longleftrightarrow> bit w n"
    unfolding e f by cases (auto simp: bit_or_iff bit_push_bit_iff bit_unsigned_iff bit_drop_bit_eq possible_bit_word)
qed

lemma header_first:
  assumes "j \<le> 18" "h = (64 OR of_int (int j)) OR (if c then 32 else (0 :: u8))"
  shows "h AND 128 = 0" "h AND 64 \<noteq> 0" "h AND 32 \<noteq> 0 \<longleftrightarrow> c" "uint (h AND 31) = int j"
proof -
  have "j \<in> set [0..<19]" using assms(1) by simp
  then have "h AND 128 = 0 \<and> h AND 64 \<noteq> 0 \<and> (h AND 32 \<noteq> 0 \<longleftrightarrow> c) \<and> uint (h AND 31) = int j"
    unfolding assms(2) by (cases c) (auto simp: upt_rec)
  then show "h AND 128 = 0" "h AND 64 \<noteq> 0" "h AND 32 \<noteq> 0 \<longleftrightarrow> c" "uint (h AND 31) = int j" by blast+
qed

lemma proveparams_exact:
  assumes "exp < 0 \<or> min_value = - 1" "range_proveparams min_value exp min_bits value = Some p"
  shows "p = \<lparr>rp_v = 0, rp_rings = 1, rp_rsizes = [1], rp_npub = 2, rp_secidx = [0], rp_min_value = value,
    rp_mantissa = 0, rp_scale = 1, rp_exp = 0, rp_min_bits = min_bits\<rparr>"
proof -
  have neg: "(0 \<le> (if min_value = - 1 then - 1 else exp)) = False" using assms(1) by auto
  show ?thesis using assms(2) unfolding range_proveparams_def Let_def by (simp only: neg if_False option.inject)
qed

lemma header_roundtrip:
  assumes "min_value \<le> value" "- 1 \<le> exp" "exp \<le> 18" "0 \<le> min_bits" "min_bits \<le> 64"
    and "range_proveparams min_value exp min_bits value = Some p" "65 \<le> length (rangeproof_header p @ rest)"
  shows "\<exists>max_value. rangeproof_getheader 0 (rangeproof_header p @ rest) =
      Some (length (rangeproof_header p), if rp_mantissa p = 0 then - 1 else rp_exp p, rp_mantissa p, rp_scale p, rp_min_value p, max_value)"
proof -
  define mins where "mins = (if rp_min_value p \<noteq> 0 then map (\<lambda>i. ucast (drop_bit ((7 - i) * 8) (rp_min_value p) AND 255) :: u8) [0..<8] else [])"
  have mins: "length mins = (if rp_min_value p \<noteq> 0 then 8 else 0)" by (simp add: mins_def)
  have rd: "fold (\<lambda>i m. push_bit 8 m OR ucast ((xs @ mins @ rest) ! (length xs + i))) [0..<8] 0 = rp_min_value p" if "rp_min_value p \<noteq> 0" for xs
    by (rule be64_read) (use that mins in \<open>simp add: nth_append mins_def\<close>)
  show ?thesis
  proof (cases "exp < 0 \<or> min_value = - 1")
    case True
    note p = proveparams_exact [OF True assms(6)]
    have h: "rangeproof_header p = [if rp_min_value p \<noteq> 0 then 32 else 0] @ mins" by (simp add: rangeproof_header_def p mins_def)
    have r: "rp_mantissa p = 0" "rp_scale p = 1" by (simp_all add: p)
    show ?thesis
      using assms(7) rd [of "[if rp_min_value p \<noteq> 0 then 32 else 0]"] mins
      unfolding h rangeproof_getheader_def Let_def r by (auto simp: not_less)
  next
    case False
    then obtain j m where j: "j \<le> 18" "rp_exp p = int j" "rp_mantissa p = int m" "1 \<le> m" "m \<le> 64" "uint (rp_scale p) = 10 ^ j"
      and lim: "(2 ^ m - 1) * 10 ^ j + uint (rp_min_value p) < 2 ^ 64"
      and rs: "rp_rings p = (m + 1) div 2" "rp_rsizes p = map (\<lambda>i. if i < rp_rings p - 1 \<or> even m then 4 else 2) [0..<rp_rings p]"
      using proveparams_ranged [OF assms(1) _ assms(3-5) _ assms(6)] by (auto simp: not_less)
    define h0 where "h0 = (64 OR of_int (int j)) OR (if rp_min_value p \<noteq> 0 then 32 else (0 :: u8))"
    note h0 = header_first [OF j(1) h0_def]
    have "rp_rsizes p ! 0 > 1" using j(4) by (simp add: rs)
    then have h: "rangeproof_header p = [h0, of_int (int m - 1)] @ mins" by (simp add: rangeproof_header_def mins_def h0_def j)
    have m: "uint (of_int (int m - 1) :: u8) + 1 = int m" 
    proof -
      have "(of_int (int m - 1) :: u8) = of_nat (m - 1)" using j(4) by (simp add: of_nat_diff)
      moreover have "uint (of_nat (m - 1) :: u8) = int (m - 1)" using j(5) by (simp add: unsigned_of_nat take_bit_nat_eq_self)
      ultimately show ?thesis using j(4) by simp
    qed
    define x :: u64 where "x = drop_bit (nat (64 - int m)) (- 1)"
    have nm: "64 - nat (64 - int m) = m" "nat (64 - int m) \<le> 64" using j(5) by simp_all
    have x: "uint x = 2 ^ m - 1" using ones_64 [OF nm(2)] nm(1) by (simp add: x_def)
    have "uint x * 10 ^ j < 2 ^ 64" using lim uint_ge_0 [of "rp_min_value p"] unfolding x by linarith
    then obtain x' s' where sc: "header_scale j x 1 = Some (x', s')" using header_scale_some by blast
    have "(10 :: int) ^ j \<le> 10 ^ 18" using j(1) by (intro power_increasing) auto
    then have x': "uint x' = uint x * 10 ^ j" "uint s' = 10 ^ j" using header_scale_spec [OF sc] by simp_all
    then have s': "s' = rp_scale p" using j(6) by (simp add: word_uint_eq_iff)
    have le: "\<not> x' > - 1 - rp_min_value p" by (rule le_complement [THEN iffD2]) (use lim in \<open>simp only: x'(1) x\<close>)
    have e: "nat (int j) = j" "\<not> int j > 18" "\<not> int m > 64" "rp_mantissa p \<noteq> 0" using j by simp_all
    show ?thesis
      using assms(7) rd [of "[h0, of_int (int m - 1)]"] mins h0 m sc le e j(4)
      unfolding h rangeproof_getheader_def Let_def s' x_def j(2,3) by (auto simp: not_less)
  qed
qed

subsection \<open>The digits\<close>

lemma radix_four: "0 \<le> v \<Longrightarrow> (\<Sum>i<n. v div 4 ^ i mod 4 * 4 ^ i) = v mod 4 ^ n" for v :: int
proof (induction n)
  case (Suc n)
  have "v mod 4 ^ Suc n = v mod (4 ^ n * 4)" by (simp add: mult.commute)
  also have "\<dots> = 4 ^ n * (v div 4 ^ n mod 4) + v mod 4 ^ n" by (rule zmod_zmult2_eq) simp
  finally show ?case using Suc by (simp add: mult.commute)
qed simp

lemma secidx_val: "int (unat (drop_bit (i * 2) v AND 3)) = uint v div 4 ^ i mod 4" for v :: u64
proof -
  have "drop_bit (i * 2) v AND 3 = take_bit 2 (drop_bit (i * 2) v)" by (simp add: take_bit_eq_mask mask_eq_exp_minus_1)
  then have "int (unat (drop_bit (i * 2) v AND 3)) = uint (drop_bit (i * 2) v) mod 4" by (simp add: take_bit_eq_mod uint_mod_distrib)
  then show ?thesis by (simp add: uint_drop_bit power_mult [symmetric] mult.commute [of i] power_mult)
qed

lemma ranged_digits:
  fixes v :: u64
  assumes "1 \<le> m" "m \<le> 64" "uint v < 2 ^ m" "R = (m + 1) div 2"
    and "rsizes = map (\<lambda>i. if i < R - 1 \<or> even m then 4 else 2) [0..<R]" "secidx = map (\<lambda>i. unat (drop_bit (i * 2) v AND 3)) [0..<R]"
  shows "1 \<le> R \<and> R \<le> 32 \<and> sum_list rsizes \<le> 128 \<and> (\<forall>i<R. secidx ! i < rsizes ! i) \<and> (\<Sum>i<R. int (secidx ! i) * 4 ^ i) = uint v"
proof -
  have R: "1 \<le> R" "R \<le> 32" using assms(1,2,4) by simp_all
  have "sum_list rsizes \<le> sum_list (map (\<lambda>_. 4) [0..<R])" unfolding assms(5) by (rule sum_list_mono) simp
  then have s: "sum_list rsizes \<le> 128" using R(2) by (simp add: sum_list_triv)
  have d: "int (secidx ! i) = uint v div 4 ^ i mod 4" if "i < R" for i using that secidx_val by (simp add: assms(6))
  have "(\<Sum>i<R. int (secidx ! i) * 4 ^ i) = (\<Sum>i<R. uint v div 4 ^ i mod 4 * 4 ^ i)" using d by simp
  also have "\<dots> = uint v mod 4 ^ R" by (rule radix_four) simp
  also have "\<dots> = uint v"
  proof (rule mod_pos_pos_trivial)
    have "m \<le> 2 * R" using assms(4) by simp
    then have "(2 :: int) ^ m \<le> 2 ^ (2 * R)" by (intro power_increasing) simp_all
    then show "uint v < 4 ^ R" using assms(3) by (simp add: power_mult)
  qed simp
  finally have sum: "(\<Sum>i<R. int (secidx ! i) * 4 ^ i) = uint v" .
  have "secidx ! i < rsizes ! i" if i: "i < R" for i
  proof (cases "i < R - 1 \<or> even m")
    case True
    have "int (secidx ! i) < 4" unfolding d [OF i] by simp
    then show ?thesis using i True by (simp add: assms(5))
  next
    case False
    then have m: "m = Suc (2 * i)" using i assms(4) by (auto elim!: oddE)
    have "uint v < 2 * 4 ^ i" using assms(3) unfolding m by (simp add: power_mult)
    moreover have "0 \<le> uint v mod 4 ^ i" by simp
    then have "uint v div 4 ^ i * 4 ^ i \<le> uint v" using div_mult_mod_eq [of "uint v" "4 ^ i"] by linarith
    moreover have "2 * 4 ^ i \<le> uint v div 4 ^ i * 4 ^ i" if "2 \<le> uint v div 4 ^ i" using that by (rule mult_right_mono) simp
    ultimately have "uint v div 4 ^ i < 2" by linarith
    moreover have "0 \<le> uint v div 4 ^ i" by (simp add: pos_imp_zdiv_nonneg_iff)
    ultimately have "int (secidx ! i) < 2" unfolding d [OF i] by simp
    then show ?thesis using i False by (simp add: assms(5))
  qed
  then show ?thesis using R s sum by blast
qed

context secp_code
begin

text \<open>The verifier that knows the nonce of the honest member finds its blinding factor, and the other way round.\<close>

lemma recover_values:
  assumes "sval x < order_n" "sval k < order_n" "sval e ^ nat (order_n - 1) mod order_n = 1"
  shows "rangeproof_recover_x api k e (borromean_response api e x k) = x" "rangeproof_recover_k api x e (borromean_response api e x k) = k"
proof -
  let ?s = "borromean_response api e x k"
  have m: "sval (sa_mul api e x) < order_n" by (rule sa_mul_less)
  have s: "sval ?s = (- (sval e * sval x) + sval k) mod order_n"
    unfolding borromean_response_def Let_def ar.add_val [OF sa_negate_less [OF m] assms(2)] dg.negate_val [OF m] ar.mul_val by (simp add: mod_simps)
  have sl: "sval ?s < order_n" unfolding s by (simp add: order_n_def)
  have "sval (sa_add api (sa_negate api ?s) k) = (sval e * sval x) mod order_n"
    unfolding ar.add_val [OF sa_negate_less [OF sl] assms(2)] dg.negate_val [OF sl] s by (simp add: mod_simps)
  then have "sval (rangeproof_recover_x api k e ?s) = sval e * sval x mod order_n * sval (scalar_inverse (sa_arith api) e) mod order_n"
    by (simp add: rangeproof_recover_x_def Let_def ar.mul_val)
  also have "\<dots> = sval x * (sval (scalar_inverse (sa_arith api) e) * sval e mod order_n) mod order_n"
    by (simp add: mod_simps mult_ac)
  also have "\<dots> = sval x" using sa_inverse [OF assms(3)] assms(1) dg.sval_range(1) [of x] by simp
  finally show "rangeproof_recover_x api k e ?s = x" by (rule sa_inject)
  have "sval (rangeproof_recover_k api x e ?s) = sval k"
    unfolding rangeproof_recover_k_def Let_def ar.add_val [OF sl sa_mul_less] ar.mul_val s
    using assms(2) dg.sval_range(1) [of k] by (simp add: mod_simps mult.commute)
  then show "rangeproof_recover_k api x e ?s = k" by (rule sa_inject)
qed

end

lemma proveparams_some:
  assumes "\<not> (min_value \<noteq> 0 \<and> value > 0x7FFFFFFFFFFFFFFF \<or> value \<noteq> 0 \<and> min_value \<ge> 0x7FFFFFFFFFFFFFFF)"
  shows "\<exists>p. range_proveparams min_value exp min_bits value = Some p"
proof -
  have aux: "\<not> c \<Longrightarrow> \<exists>p. (if a then if c then None else Some x else Some y) = Some p" for a c and x y :: 'a by simp
  show ?thesis unfolding range_proveparams_def Let_def case_prod_beta by (rule aux [OF assms])
qed

lemma proveparams_value:
  assumes "min_value \<le> value" "- 1 \<le> exp" "exp \<le> 18" "0 \<le> min_bits" "min_bits \<le> 64"
    and "range_proveparams min_value exp min_bits value = Some p"
  shows "uint (rp_v p) * uint (rp_scale p) + uint (rp_min_value p) = uint value" "uint (rp_v p) \<le> 2 ^ nat (rp_mantissa p) - 1"
proof -
  have "uint (rp_v p) * uint (rp_scale p) + uint (rp_min_value p) = uint value \<and> uint (rp_v p) \<le> 2 ^ nat (rp_mantissa p) - 1"
  proof (cases "exp < 0 \<or> min_value = - 1")
    case True
    show ?thesis using proveparams_exact [OF True assms(6)] by simp
  next
    case False
    then show ?thesis using proveparams_ranged [OF assms(1) _ assms(3-5) _ assms(6)] by (auto simp: not_less)
  qed
  then show "uint (rp_v p) * uint (rp_scale p) + uint (rp_min_value p) = uint value" "uint (rp_v p) \<le> 2 ^ nat (rp_mantissa p) - 1" by blast+
qed

subsection \<open>Properties\<close>

text \<open>C2: the parameters that the prover chooses. They encode the value: the masked value times the scale plus the
  public minimum is the value, and the minimum has only grown. The proven range, up to the largest mantissa, does not overflow 64 bits
  whatever precision was asked for. The radix 4 digits sum up to the masked value, each is a member of its ring, and
  rings and members fit the arrays of 32 and 128 entries.\<close>

theorem range_params_correct:
  assumes "min_value \<le> value" "- 1 \<le> exp" "exp \<le> 18" "0 \<le> min_bits" "min_bits \<le> 64"
    and "range_proveparams min_value exp min_bits value = Some p"
  shows "uint (rp_v p) * uint (rp_scale p) + uint (rp_min_value p) = uint value \<and> min_value \<le> rp_min_value p \<and>
    uint (rp_v p) < 2 ^ nat (rp_mantissa p) \<and> (2 ^ nat (rp_mantissa p) - 1) * uint (rp_scale p) + uint (rp_min_value p) < 2 ^ 64 \<and>
    1 \<le> rp_rings p \<and> rp_rings p \<le> 32 \<and> length (rp_rsizes p) = rp_rings p \<and> length (rp_secidx p) = rp_rings p \<and>
    (\<forall>i<rp_rings p. rp_secidx p ! i < rp_rsizes p ! i) \<and> (\<Sum>i<rp_rings p. int (rp_secidx p ! i) * 4 ^ i) = uint (rp_v p) \<and>
    sum_list (rp_rsizes p) \<le> rp_npub p \<and> rp_npub p \<le> 128"
proof (cases "exp < 0 \<or> min_value = - 1")
  case True
  show ?thesis using proveparams_exact [OF True assms(6)] assms(1) uint_bounded [of "value"] by simp
next
  case False
  then obtain j m where p: "rp_mantissa p = int m" "1 \<le> m" "m \<le> 64" "uint (rp_scale p) = 10 ^ j"
      "uint (rp_v p) * 10 ^ j + uint (rp_min_value p) = uint value" "min_value \<le> rp_min_value p"
      "uint (rp_v p) < 2 ^ m" "(2 ^ m - 1) * 10 ^ j + uint (rp_min_value p) < 2 ^ 64"
    and r: "rp_rings p = (m + 1) div 2" "rp_rsizes p = map (\<lambda>i. if i < rp_rings p - 1 \<or> even m then 4 else 2) [0..<rp_rings p]"
      "rp_npub p = sum_list (rp_rsizes p)" "rp_secidx p = map (\<lambda>i. unat (drop_bit (i * 2) (rp_v p) AND 3)) [0..<rp_rings p]"
    using proveparams_ranged [OF assms(1) _ assms(3-5) _ assms(6)] by (auto simp: not_less)
  have l: "length (rp_rsizes p) = rp_rings p" "length (rp_secidx p) = rp_rings p" by (simp_all add: r(2,4))
  show ?thesis
    using ranged_digits [OF p(2,3,7) r(1,2,4)] p l r(3) by simp
qed

text \<open>The witness asks for 20 bits of 123456789 with the last three decimal digits public.\<close>

theorem range_params_correct_witness:
  "\<exists>p. range_proveparams 5 3 20 123456789 = Some p \<and> uint (rp_v p) * uint (rp_scale p) + uint (rp_min_value p) = 123456789 \<and> rp_rings p \<le> 32"
proof -
  obtain p where p: "range_proveparams 5 3 20 123456789 = Some p" using proveparams_some [of 5 123456789] by auto
  show ?thesis using range_params_correct [OF _ _ _ _ _ p] p by auto
qed

text \<open>C7: the verifier reads back from the header, whatever follows it, exactly the parameters the prover chose (for an
  exact value the exponent is -1), and the maximum it computes is the largest value these can prove.\<close>

theorem rangeproof_header_roundtrip:
  assumes "min_value \<le> value" "- 1 \<le> exp" "exp \<le> 18" "0 \<le> min_bits" "min_bits \<le> 64"
    and "range_proveparams min_value exp min_bits value = Some p" "65 \<le> length (rangeproof_header p @ rest)"
  shows "length (rangeproof_header p) \<le> 10 \<and> (\<exists>max_value. rangeproof_getheader 0 (rangeproof_header p @ rest) =
      Some (length (rangeproof_header p), if rp_mantissa p = 0 then - 1 else rp_exp p, rp_mantissa p, rp_scale p, rp_min_value p, max_value) \<and>
    uint max_value = (2 ^ nat (rp_mantissa p) - 1) * uint (rp_scale p) + uint (rp_min_value p) \<and> value \<le> max_value)"
proof -
  obtain max_value where h: "rangeproof_getheader 0 (rangeproof_header p @ rest) =
      Some (length (rangeproof_header p), if rp_mantissa p = 0 then - 1 else rp_exp p, rp_mantissa p, rp_scale p, rp_min_value p, max_value)"
    using header_roundtrip [OF assms] by blast
  note s = getheader_spec [OF h]
  have "uint (rp_v p) * uint (rp_scale p) \<le> (2 ^ nat (rp_mantissa p) - 1) * uint (rp_scale p)"
    by (rule mult_right_mono) (use proveparams_value [OF assms(1-6)] in simp_all)
  then have "value \<le> max_value" using s proveparams_value [OF assms(1-6)] unfolding word_le_def by linarith
  then show ?thesis using h s by simp
qed

theorem rangeproof_header_roundtrip_witness:
  "\<exists>p max_value. range_proveparams 5 3 20 123456789 = Some p \<and>
    rangeproof_getheader 0 (rangeproof_header p @ replicate 64 0) = Some (length (rangeproof_header p), rp_exp p, rp_mantissa p, rp_scale p, rp_min_value p, max_value) \<and>
    123456789 \<le> max_value"
proof -
  obtain p where p: "range_proveparams 5 3 20 123456789 = Some p" using proveparams_some [of 5 123456789] by auto
  have m: "rp_mantissa p \<noteq> 0" using proveparams_ranged [OF _ _ _ _ _ _ p] by auto
  have "65 \<le> length (rangeproof_header p @ replicate 64 0)" by (simp add: rangeproof_header_def)
  from rangeproof_header_roundtrip [OF _ _ _ _ _ p this] show ?thesis using p m by auto
qed

text \<open>C22: whatever bytes a verifier is given, an accepted header has parameters in range, at most ten bytes
  were read, and the maximum is exact: the range ends below \<open>2^64\<close>.\<close>

theorem rangeproof_getheader_sound:
  assumes "rangeproof_getheader offset proof = Some (offset', exp, mantissa, scale, min_value, max_value)"
  shows "- 1 \<le> exp \<and> exp \<le> 18 \<and> 0 \<le> mantissa \<and> mantissa \<le> 64 \<and> (mantissa = 0 \<longleftrightarrow> exp = - 1) \<and> offset < offset' \<and> offset' \<le> offset + 10 \<and>
    uint scale = 10 ^ nat exp \<and> uint max_value = (2 ^ nat mantissa - 1) * uint scale + uint min_value \<and> min_value \<le> max_value"
  using getheader_spec [OF assms] by (auto simp: word_le_def)

theorem rangeproof_getheader_sound_witness:
  "rangeproof_getheader 0 (0x63 # 0x13 # replicate 7 0 @ [5] @ replicate 60 0) = Some (10, 3, 20, 1000, 5, 1048575005) \<and> (5 :: u64) \<le> 1048575005"
proof -
  have "rangeproof_getheader 0 (0x63 # 0x13 # replicate 7 0 @ [5] @ replicate 60 0) = Some (10, 3, 20, 1000, 5, 1048575005)"
    by code_simp
  from this rangeproof_getheader_sound [OF this] show ?thesis by blast
qed

text \<open>C27: rewinding. From the response of a ring signature for the honest member, its challenge and one of the blinding factor
  and the nonce, the verifier computes the other. The division needs Fermat's equation for the challenge.\<close>

theorem rangeproof_recover_values:
  assumes "scalar_ok_8x32 x" "scalar_ok_8x32 k" "scalar_val_8x32 e ^ nat (order_n - 1) mod order_n = 1"
  shows "rangeproof_recover_x scalar_api_8x32 k e (borromean_response scalar_api_8x32 e x k) = x \<and>
    rangeproof_recover_k scalar_api_8x32 x e (borromean_response scalar_api_8x32 e x k) = k"
  using b10.recover_values [of x k e] assms by (simp add: scalar_ok_8x32_def)

theorem rangeproof_recover_values_witness:
  "rangeproof_recover_x scalar_api_8x32 (Scalar8 7 0 0 0 0 0 0 0) (Scalar8 1 0 0 0 0 0 0 0)
    (borromean_response scalar_api_8x32 (Scalar8 1 0 0 0 0 0 0 0) (Scalar8 5 0 0 0 0 0 0 0) (Scalar8 7 0 0 0 0 0 0 0)) = Scalar8 5 0 0 0 0 0 0 0"
  by (rule rangeproof_recover_values [THEN conjunct1]) (simp_all add: eval_8x32)

end
