(* ===== verification/Borromean.thy ===== *)
theory Borromean
  imports Pedersen Eckey
begin

text \<open>
  The parts of a range proof under its header: the encoding of points, the random values of the prover, the candidate
  points of the digits (\<open>rangeproof_impl.h\<close>), and the ring signatures over them (\<open>borromean_impl.h\<close>).
\<close>

subsection \<open>Ring signatures (borromean_impl.h 29--110)\<close>

text \<open>\<open>sha\<close> is the uninitialized local hash context, \<open>rge\<close> and \<open>rgej\<close> are the local points, assigned before every use.\<close>

definition borromean_hash :: "sha256 \<Rightarrow> u8 list \<Rightarrow> u8 list \<Rightarrow> nat \<Rightarrow> nat \<Rightarrow> u8 list" where
  "borromean_hash sha m e ridx eidx =
    (let sha256_en = sha256_initialize sha;
         ring = BE32 (of_nat ridx);
         epos = BE32 (of_nat eidx);
         sha256_en = sha256_write sha256_en e;
         sha256_en = sha256_write sha256_en m;
         sha256_en = sha256_write sha256_en (store_le32 ring);
         sha256_en = sha256_write sha256_en (store_le32 epos)
     in snd (sha256_finalize sha256_en))"

text \<open>One ring, as the list of its scalars and keys from member \<open>j\<close> on. The inner \<open>None\<close> is a return of 0. The challenges that are
  used are collected in \<open>evalues\<close>, which the code stores when it is asked to.\<close>

fun borromean_ring :: "('fe, 'st) field_ops \<Rightarrow> 's scalar_api \<Rightarrow> 'fe ecmult_mem \<Rightarrow> 'fe ge \<Rightarrow> sha256 \<Rightarrow> 'st ecmult_context \<Rightarrow> u8 list \<Rightarrow> nat \<Rightarrow> nat \<Rightarrow>
    ('s \<times> 'fe gej) list \<Rightarrow> u32 \<times> 's \<Rightarrow> 'fe gej \<Rightarrow> sha256 \<Rightarrow> 's list \<Rightarrow> ('fe gej \<times> sha256 \<times> 's list) option option" where
  "borromean_ring ops api mem rge sha ctx m i j [] challenge rgej sha256_e0 evalues = Some (Some (rgej, sha256_e0, evalues))"
| "borromean_ring ops api mem rge sha ctx m i j ((s, pub) # members) (overflow, ens) rgej sha256_e0 evalues =
    (if overflow \<noteq> 0 \<or> sa_is_zero api s \<or> sa_is_zero api ens \<or> gej_is_infinity pub then Some None
     else let evalues = evalues @ [ens]
          in Option.bind (ecmult_with ops api mem ctx rgej pub ens s) (\<lambda>rgej.
               if gej_is_infinity rgej then Some None
               else let (rge', rgej) = ge_set_gej_var ops rge rgej;
                        (_, _, tmp, sz) = eckey_pubkey_serialize ops rge' (replicate 33 0) 0 True
                    in if members \<noteq> []
                       then let tmp = borromean_hash sha m (take 33 tmp) i (j + 1)
                            in borromean_ring ops api mem rge sha ctx m i (j + 1) members (sa_set_b32 api tmp) rgej sha256_e0 evalues
                       else Some (Some (rgej, sha256_write sha256_e0 (take sz tmp), evalues))))"

fun borromean_rings :: "('fe, 'st) field_ops \<Rightarrow> 's scalar_api \<Rightarrow> 'fe ecmult_mem \<Rightarrow> 'fe ge \<Rightarrow> sha256 \<Rightarrow> 'st ecmult_context \<Rightarrow> u8 list \<Rightarrow> u8 list \<Rightarrow> nat \<Rightarrow>
    ('s \<times> 'fe gej) list list \<Rightarrow> 'fe gej \<Rightarrow> sha256 \<Rightarrow> 's list \<Rightarrow> (sha256 \<times> 's list) option option" where
  "borromean_rings ops api mem rge sha ctx m e0 i [] rgej sha256_e0 evalues = Some (Some (sha256_e0, evalues))"
| "borromean_rings ops api mem rge sha ctx m e0 i (members # rings) rgej sha256_e0 evalues =
    (let tmp = borromean_hash sha m (take 32 e0) i 0
     in Option.bind (borromean_ring ops api mem rge sha ctx m i 0 members (sa_set_b32 api tmp) rgej sha256_e0 evalues) (\<lambda>r.
          case r of None \<Rightarrow> Some None
          | Some (rgej, sha256_e0, evalues) \<Rightarrow> borromean_rings ops api mem rge sha ctx m e0 (i + 1) rings rgej sha256_e0 evalues))"

text \<open>The scalars and the keys of all rings come one after the other; \<open>rsizes\<close> has the sizes of the rings.\<close>

fun split_rings :: "nat list \<Rightarrow> 'a list \<Rightarrow> 'a list list" where
  "split_rings [] xs = []"
| "split_rings (n # ns) xs = take n xs # split_rings ns (drop n xs)"

definition borromean_verify :: "('fe, 'st) field_ops \<Rightarrow> 's scalar_api \<Rightarrow> 'fe ecmult_mem \<Rightarrow> 'fe ge \<Rightarrow> 'fe gej \<Rightarrow> sha256 \<Rightarrow> 'st ecmult_context \<Rightarrow> u8 list \<Rightarrow>
    's list \<Rightarrow> 'fe gej list \<Rightarrow> nat list \<Rightarrow> u8 list \<Rightarrow> (bool \<times> 's list) option" where
  "borromean_verify ops api mem rge rgej sha ctx e0 s pubs rsizes m =
    (let sha256_e0 = sha256_initialize sha
     in map_option (\<lambda>r. case r of None \<Rightarrow> (False, [])
          | Some (sha256_e0, evalues) \<Rightarrow>
              let sha256_e0 = sha256_write sha256_e0 m;
                  tmp = snd (sha256_finalize sha256_e0)
              in (take 32 e0 = tmp, evalues))
        (borromean_rings ops api mem rge sha ctx m e0 0 (split_rings rsizes (zip s pubs)) rgej sha256_e0 []))"

subsection \<open>Points and random values (rangeproof_impl.h 21--112)\<close>

definition rangeproof_pub_expand :: "('fe, 'st) field_ops \<Rightarrow> 'fe gej list \<Rightarrow> int \<Rightarrow> nat list \<Rightarrow> 'fe ge \<Rightarrow> 'fe gej list" where
  "rangeproof_pub_expand ops pubs exp rsizes genp =
    (let exp = (if exp < 0 then 0 else exp);
         base = gej_set_ge ops genp;
         base = gej_neg ops base;
         base = ((\<lambda>base.
           let tmp = fst (gej_double_var ops base base None);
               base = fst (gej_double_var ops base tmp None);
               base = fst (gej_double_var ops base base None)
           in fst (gej_add_var ops base base tmp None)) ^^ nat exp) base;
         rings = length rsizes;
         (pubs, base, npub) = fold (\<lambda>i (pubs, base, npub).
           let pubs = fold (\<lambda>j pubs. pubs[npub + j := fst (gej_add_var ops (pubs ! (npub + j)) (pubs ! (npub + j - 1)) base None)]) [1..<rsizes ! i] pubs;
               base = (if i < rings - 1
                       then let base = fst (gej_double_var ops base base None) in fst (gej_double_var ops base base None)
                       else base)
           in (pubs, base, npub + rsizes ! i)) [0..<rings] (pubs, base, 0)
     in pubs)"

definition rangeproof_serialize_point :: "('fe, 'st) field_ops \<Rightarrow> 'fe ge \<Rightarrow> u8 list" where
  "rangeproof_serialize_point ops point =
    (let pointx = fe_normalize ops (gx point)
     in of_bool (\<not> fe_is_quad_var ops (gy point)) # fe_get_b32 ops pointx)"

text \<open>One member of ring \<open>i\<close>: the message is optional and is combined in place with the output of the generator.\<close>

definition genrand_member :: "'s scalar_api \<Rightarrow> hmac_sha256 \<Rightarrow> sha256 \<Rightarrow> nat \<Rightarrow> nat \<Rightarrow> rfc6979 \<times> u8 list option \<times> bool \<times> 's list \<Rightarrow>
    (rfc6979 \<times> u8 list option \<times> bool \<times> 's list) option" where
  "genrand_member api hmac sha i j = (\<lambda>(rng, message, ret, s).
    Option.bind (rfc6979_generate hmac sha rng 32) (\<lambda>(rng, tmp).
      let (tmp, message) = (case message of None \<Rightarrow> (tmp, None)
            | Some msg \<Rightarrow> let tmp = map2 (\<lambda>a b. a XOR b) tmp (take 32 (drop ((i * 4 + j) * 32) msg))
                          in (tmp, Some (memcpy_at msg ((i * 4 + j) * 32) tmp)));
          (overflow, x) = sa_set_b32 api tmp;
          ret = (ret \<and> \<not> (overflow \<noteq> 0 \<or> sa_is_zero api x))
      in Some (rng, message, ret, s @ [x])))"

definition genrand_ring :: "'s scalar_api \<Rightarrow> hmac_sha256 \<Rightarrow> sha256 \<Rightarrow> nat list \<Rightarrow> nat \<Rightarrow> 's list \<times> 's \<times> rfc6979 \<times> u8 list option \<times> bool \<times> 's list \<Rightarrow>
    ('s list \<times> 's \<times> rfc6979 \<times> u8 list option \<times> bool \<times> 's list) option" where
  "genrand_ring api hmac sha rsizes i = (\<lambda>(sec, acc, rng, message, ret, s).
    Option.bind (if i < length rsizes - 1
                 then Option.bind (rfc6979_generate hmac sha rng 32) (\<lambda>(rng, tmp).
                      Option.bind (gen_draw (gen_accept_scalar api) hmac sha rng) (\<lambda>(rng, x). Some (sec @ [x], sa_add api acc x, rng)))
                 else let acc = sa_negate api acc in Some (sec @ [acc], acc, rng)) (\<lambda>(sec, acc, rng).
    Option.bind (fold (\<lambda>j st. Option.bind st (genrand_member api hmac sha i j)) [0..<rsizes ! i] (Some (rng, message, ret, s)))
      (\<lambda>(rng, message, ret, s). Some (sec, acc, rng, message, ret, s))))"

text \<open>The result has the flag, the blinding factors, the signatures and the message.\<close>

definition rangeproof_genrand :: "('fe, 'st) field_ops \<Rightarrow> 's scalar_api \<Rightarrow> hmac_sha256 \<Rightarrow> sha256 \<Rightarrow> 's \<Rightarrow> u8 list option \<Rightarrow> nat list \<Rightarrow> u8 list \<Rightarrow> 'fe ge \<Rightarrow> u8 list \<Rightarrow> 'fe ge \<Rightarrow>
    (bool \<times> 's list \<times> 's list \<times> u8 list option) option" where
  "rangeproof_genrand ops api hmac sha acc message rsizes nonce commit proof genp =
    (let rngseed = take 32 nonce @ rangeproof_serialize_point ops commit @ rangeproof_serialize_point ops genp @ proof;
         rng = rfc6979_initialize hmac sha rngseed;
         acc = sa_clear api acc
     in map_option (\<lambda>(sec, acc, rng, message, ret, s). (ret, sec, s, message))
          (fold (\<lambda>i st. Option.bind st (genrand_ring api hmac sha rsizes i)) [0..<length rsizes] (Some ([], acc, rng, message, True, []))))"

subsection \<open>Correctness\<close>

lemma borromean_hash_digest:
  assumes "length (hbuf sha) = 64"
  shows "borromean_hash sha m e ridx eidx = sha256_digest (e @ m @ store_be32 (of_nat ridx) @ store_be32 (of_nat eidx))"
  using sha_inv_final [OF sha.pieces_inv [OF sha_inv_init [OF assms]], of "[e, m, store_be32 (of_nat ridx), store_be32 (of_nat eidx)]"]
  by (simp add: borromean_hash_def store_BE32)

text \<open>A ring that is accepted has nonzero scalars, finite keys and nonzero challenges.\<close>

lemma ring_members:
  "borromean_ring ops api mem rge sha ctx m i j members c rgej h ev = Some (Some (rgej', h', ev')) \<Longrightarrow>
    (\<forall>(s, pub) \<in> set members. \<not> sa_is_zero api s \<and> \<not> gej_is_infinity pub) \<and>
    (\<exists>es. ev' = ev @ es \<and> length es = length members \<and> (\<forall>e \<in> set es. \<not> sa_is_zero api e))"
proof (induction ops api mem rge sha ctx m i j members c rgej h ev rule: borromean_ring.induct)
  case (2 ops api mem rge sha ctx m i j s pub members overflow ens rgej h ev)
  have nz: "\<not> (overflow \<noteq> 0 \<or> sa_is_zero api s \<or> sa_is_zero api ens \<or> gej_is_infinity pub)" using "2.prems" by (auto split: if_splits)
  obtain r where r: "ecmult_with ops api mem ctx rgej pub ens s = Some r" "\<not> gej_is_infinity r"
    using "2.prems" nz by (auto simp: bind_eq_Some_conv Let_def split: if_splits)
  obtain rge' r1 where a: "ge_set_gej_var ops rge r = (rge', r1)" by fastforce
  obtain o1 o2 tmp sz where b: "eckey_pubkey_serialize ops rge' (replicate 33 0) 0 True = (o1, o2, tmp, sz)" by (metis prod_cases4)
  show ?case
  proof (cases "members = []")
    case True
    then show ?thesis using "2.prems" nz r a b by auto
  next
    case False
    then have h: "borromean_ring ops api mem rge sha ctx m i (j + 1) members (sa_set_b32 api (borromean_hash sha m (take 33 tmp) i (j + 1))) r1 h (ev @ [ens]) =
        Some (Some (rgej', h', ev'))" using "2.prems" nz r a b by simp
    note IH = "2.IH" [OF nz refl r refl a [symmetric] refl b [symmetric] refl refl False refl h]
    then show ?thesis using nz by auto
  qed
qed simp

lemma rings_members:
  "borromean_rings ops api mem rge sha ctx m e0 i rings rgej h ev = Some (Some (h', ev')) \<Longrightarrow>
    (\<forall>ms \<in> set rings. \<forall>(s, pub) \<in> set ms. \<not> sa_is_zero api s \<and> \<not> gej_is_infinity pub)"
proof (induction rings arbitrary: i rgej h ev)
  case (Cons ms rings)
  then obtain r h1 ev1 where r: "borromean_ring ops api mem rge sha ctx m i 0 ms (sa_set_b32 api (borromean_hash sha m (take 32 e0) i 0)) rgej h ev = Some (Some (r, h1, ev1))"
    and n: "borromean_rings ops api mem rge sha ctx m e0 (i + 1) rings r h1 ev1 = Some (Some (h', ev'))"
    by (auto simp: bind_eq_Some_conv Let_def split: option.splits)
  show ?case using ring_members [OF r] Cons.IH [OF n] by auto
qed simp

lemma split_rings_members: "sum_list rsizes = length xs \<Longrightarrow> x \<in> set xs \<Longrightarrow> \<exists>ms \<in> set (split_rings rsizes xs). x \<in> set ms"
proof (induction rsizes arbitrary: xs)
  case (Cons n ns)
  have "x \<in> set (take n xs) \<or> x \<in> set (drop n xs)" using Cons.prems(2) append_take_drop_id [of n xs] by (metis Un_iff set_append)
  moreover have "sum_list ns = length (drop n xs)" using Cons.prems(1) by simp
  ultimately show ?case using Cons.IH [of "drop n xs"] by auto
qed simp

context secp_code
begin

text \<open>The running sum of the blinding factors, before the last ring takes it back.\<close>

lemma genrand_partial:
  assumes "hmac_mem hmac sha" "sval acc0 = 0" "k < length rsizes"
    and "fold (\<lambda>i st. Option.bind st (genrand_ring api hmac sha rsizes i)) [0..<k] (Some ([], acc0, rng, message, ret, s)) = Some (sec, acc, rng', message', ret', s')"
  shows "sval acc < order_n \<and> sval acc = sum_list (map sval sec) mod order_n \<and> length sec = k \<and> (\<forall>x \<in> set sec. 0 < sval x \<and> sval x < order_n)"
  using assms(3,4)
proof (induction k arbitrary: sec acc rng' message' ret' s')
  case 0
  then show ?case using assms(2) by (simp add: order_n_def)
next
  case (Suc k)
  obtain sec1 acc1 rng1 message1 ret1 s1 where f: "fold (\<lambda>i st. Option.bind st (genrand_ring api hmac sha rsizes i)) [0..<k] (Some ([], acc0, rng, message, ret, s)) =
      Some (sec1, acc1, rng1, message1, ret1, s1)"
    and g: "genrand_ring api hmac sha rsizes k (sec1, acc1, rng1, message1, ret1, s1) = Some (sec, acc, rng', message', ret', s')"
    using Suc.prems(2) by (auto simp: bind_eq_Some_conv)
  have IH: "sval acc1 < order_n" "sval acc1 = sum_list (map sval sec1) mod order_n" "length sec1 = k" "\<forall>x \<in> set sec1. 0 < sval x \<and> sval x < order_n"
    using Suc.IH [OF _ f] Suc.prems(1) by simp_all
  from g Suc.prems(1) obtain rng2 rng3 x where d: "gen_draw (gen_accept_scalar api) hmac sha rng2 = Some (rng3, x)" and e: "sec = sec1 @ [x]" "acc = sa_add api acc1 x"
    by (auto simp: genrand_ring_def bind_eq_Some_conv split: if_splits)
  have x: "0 < sval x \<and> sval x < order_n" using gen_draw_accepts [OF assms(1) d] accept_scalar_range by blast
  then show ?case using IH ar.add_val [OF IH(1), of x] sa_add_less [OF IH(1), of x] by (auto simp: e mod_simps)
qed

lemma genrand_sum:
  assumes "hmac_mem hmac sha" "rsizes \<noteq> []" "rangeproof_genrand fops api hmac sha acc message rsizes nonce commit pf genp = Some (ret, sec, s, message')"
  shows "length sec = length rsizes \<and> sum_list (map sval sec) mod order_n = 0 \<and> (\<forall>i<length rsizes - 1. 0 < sval (sec ! i) \<and> sval (sec ! i) < order_n)"
proof -
  define k where "k = length rsizes - 1"
  have k: "length rsizes = Suc k" using assms(2) by (cases rsizes) (simp_all add: k_def)
  from assms(3) obtain rng0 acc' rng' where
    "fold (\<lambda>i st. Option.bind st (genrand_ring api hmac sha rsizes i)) [0..<Suc k] (Some ([], sa_clear api acc, rng0, message, True, [])) =
      Some (sec, acc', rng', message', ret, s)"
    unfolding rangeproof_genrand_def Let_def k by auto
  then obtain sec1 acc1 rng1 message1 ret1 s1 where
    f: "fold (\<lambda>i st. Option.bind st (genrand_ring api hmac sha rsizes i)) [0..<k] (Some ([], sa_clear api acc, rng0, message, True, [])) =
      Some (sec1, acc1, rng1, message1, ret1, s1)"
    and g: "genrand_ring api hmac sha rsizes k (sec1, acc1, rng1, message1, ret1, s1) = Some (sec, acc', rng', message', ret, s)"
    by (auto simp: bind_eq_Some_conv)
  have e: "sec = sec1 @ [sa_negate api acc1]"
    using g by (auto simp: genrand_ring_def bind_eq_Some_conv Let_def k)
  note p = genrand_partial [OF assms(1) sa_clear_val _ f, unfolded k, OF lessI]
  have "sval (sa_negate api acc1) = - sval acc1 mod order_n" using dg.negate_val p by blast
  then have "sum_list (map sval sec) mod order_n = 0" using p by (simp add: e mod_simps)
  then show ?thesis using p k by (auto simp: e nth_append)
qed

end

subsection \<open>Properties\<close>

text \<open>C9: the challenge hash of the ring signatures is SHA-256 over the point, the message and the big-endian indices of ring and
  member. Verification never accepts when a scalar is zero or a key is the point at infinity, in whatever ring it is.\<close>

theorem borromean_challenges:
  assumes "length (hbuf sha) = 64" "length s = length pubs" "sum_list rsizes = length pubs" "k < length pubs"
    and "scalar_val_8x32 (s ! k) = 0 \<or> gej_is_infinity (pubs ! k)"
  shows "borromean_hash sha m e ridx eidx = sha256_digest (e @ m @ store_be32 (of_nat ridx) @ store_be32 (of_nat eidx)) \<and>
    (\<forall>evalues. borromean_verify field_ops_10x26 scalar_api_8x32 mem rge rgej sha ctx e0 s pubs rsizes m \<noteq> Some (True, evalues))"
proof (intro conjI allI notI)
  show "borromean_hash sha m e ridx eidx = sha256_digest (e @ m @ store_be32 (of_nat ridx) @ store_be32 (of_nat eidx))"
    by (rule borromean_hash_digest [OF assms(1)])
  fix evalues
  assume "borromean_verify field_ops_10x26 scalar_api_8x32 mem rge rgej sha ctx e0 s pubs rsizes m = Some (True, evalues)"
  then obtain h ev where r: "borromean_rings field_ops_10x26 scalar_api_8x32 mem rge sha ctx m e0 0 (split_rings rsizes (zip s pubs)) rgej (sha256_initialize sha) [] = Some (Some (h, ev))"
    by (auto simp: borromean_verify_def Let_def split: option.splits)
  have "(s ! k, pubs ! k) \<in> set (zip s pubs)" using assms(2,4) by (auto simp: set_zip)
  then obtain ms where "ms \<in> set (split_rings rsizes (zip s pubs))" "(s ! k, pubs ! k) \<in> set ms"
    using split_rings_members [of rsizes "zip s pubs"] assms(2,3) by auto
  then show False using rings_members [OF r] assms(5) b10.sa_is_zero_iff by fastforce
qed

theorem borromean_challenges_witness:
  "borromean_verify field_ops_10x26 scalar_api_8x32
      \<lparr>em_table = \<lparr>tm_d = \<lparr>jx = FE10 0 0 0 0 0 0 0 0 0 0, jy = FE10 0 0 0 0 0 0 0 0 0 0, jz = FE10 0 0 0 0 0 0 0 0 0 0, jinf = False\<rparr>, tm_prej = [], tm_zr = []\<rparr>,
        em_pre = [], em_Z = FE10 0 0 0 0 0 0 0 0 0 0\<rparr>
      (ge_const_g field_ops_10x26) (gej_set_ge field_ops_10x26 (ge_const_g field_ops_10x26)) sha_zero \<lparr>ec_pre_g = None, ec_pre_g_128 = None\<rparr> (replicate 32 0)
      [Scalar8 0 0 0 0 0 0 0 0] [gej_set_ge field_ops_10x26 (ge_const_g field_ops_10x26)] [1] (replicate 32 0) \<noteq> Some (True, [])"
  by (rule borromean_challenges [THEN conjunct2, rule_format, where k = 0]) (simp_all add: sha_zero_def eval_8x32)

text \<open>C8: the random blinding factors of a range proof, one for each ring, sum up to zero modulo the group order, so that the digit
  commitments add up to the commitment itself; all but the last are drawn between 1 and the group order less 1.\<close>

theorem genrand_blinds_cancel:
  assumes "hmac_mem hmac sha" "rsizes \<noteq> []"
    and "rangeproof_genrand field_ops_10x26 scalar_api_8x32 hmac sha acc message rsizes nonce commit pf genp = Some (ret, sec, s, message')"
  shows "length sec = length rsizes \<and> sum_list (map scalar_val_8x32 sec) mod order_n = 0 \<and>
    (\<forall>i<length rsizes - 1. 0 < scalar_val_8x32 (sec ! i) \<and> scalar_val_8x32 (sec ! i) < order_n)"
  by (rule b10.genrand_sum [OF assms])

theorem genrand_blinds_cancel_witness:
  "\<exists>ret sec s. rangeproof_genrand field_ops_10x26 scalar_api_8x32 \<lparr>h_inner = sha_zero, h_outer = sha_zero\<rparr> sha_zero (Scalar8 5 0 0 0 0 0 0 0) None [1] (replicate 32 1)
      (ge_const_g field_ops_10x26) [0x20] (ge_const_g field_ops_10x26) = Some (ret, sec, s, None) \<and> length sec = 1 \<and> sum_list (map scalar_val_8x32 sec) mod order_n = 0"
proof -
  have m: "hmac_mem \<lparr>h_inner = sha_zero, h_outer = sha_zero\<rparr> sha_zero" by (simp add: hmac_mem_def sha_zero_def)
  have g: "\<exists>rng' out. rfc6979_generate \<lparr>h_inner = sha_zero, h_outer = sha_zero\<rparr> sha_zero rng 32 = Some (rng', out)" for rng
    using rfc6979_generate_correct(1) [OF m, of 32, OF _ refl refl refl] by auto
  obtain ret sec s where e: "rangeproof_genrand field_ops_10x26 scalar_api_8x32 \<lparr>h_inner = sha_zero, h_outer = sha_zero\<rparr> sha_zero (Scalar8 5 0 0 0 0 0 0 0) None [1] (replicate 32 1)
      (ge_const_g field_ops_10x26) [0x20] (ge_const_g field_ops_10x26) = Some (ret, sec, s, None)"
    using g [of "rfc6979_initialize \<lparr>h_inner = sha_zero, h_outer = sha_zero\<rparr> sha_zero (take 32 (replicate 32 1) @
      rangeproof_serialize_point field_ops_10x26 (ge_const_g field_ops_10x26) @ rangeproof_serialize_point field_ops_10x26 (ge_const_g field_ops_10x26) @ [0x20])"]
    by (auto simp: rangeproof_genrand_def Let_def genrand_ring_def genrand_member_def case_prod_beta)
  show ?thesis using genrand_blinds_cancel [OF m _ e] e by auto
qed

end
