(* ===== verification/Modules.thy ===== *)
theory Modules
  imports Api Ecmult_Const
begin

text \<open>
  Two modules over the entry points: the Diffie-Hellman exchange (\<open>modules/ecdh\<close>), which hashes a secret multiple of a public
  key, and recoverable signatures (\<open>modules/recovery\<close>), which carry the two bits that tell the key of a signature from the other candidates.
\<close>

subsection \<open>Diffie-Hellman (modules/ecdh/main_impl.h)\<close>

text \<open>The result of loading the key is not tested.\<close>

definition ecdh :: "('fe, 'st) field_ops \<Rightarrow> 's scalar_api \<Rightarrow> ('s, 'st) memory_image \<Rightarrow> 'fe const_mem \<Rightarrow> sha256 \<Rightarrow> u8 list \<Rightarrow> u8 list \<Rightarrow> u8 list \<Rightarrow>
    (bool \<times> u8 list) option" where
  "ecdh ops api mi mem sha result point scalar =
    (let (_, pt) = pubkey_load ops mi point;
         (overflow, s) = sa_set_b32 api scalar
     in if overflow \<noteq> 0 \<or> sa_is_zero api s then Some (False, result)
        else map_option (\<lambda>res.
          let (pt, res) = ge_set_gej ops res;
              pt = pt\<lparr>gx := fe_normalize ops (gx pt)\<rparr>;
              pt = pt\<lparr>gy := fe_normalize ops (gy pt)\<rparr>;
              x = fe_get_b32 ops (gx pt);
              y = 0x02 OR (if fe_is_odd ops (gy pt) then 1 else 0);
              sha = sha256_initialize sha;
              sha = sha256_write sha [y];
              sha = sha256_write sha x
          in (True, snd (sha256_finalize sha))) (ecmult_const ops api mem pt s 256))"

subsection \<open>Recoverable signatures (modules/recovery/main_impl.h)\<close>

definition recoverable_load :: "('s, 'st) memory_image \<Rightarrow> u8 list \<Rightarrow> 's \<times> 's \<times> int" where
  "recoverable_load mi sig = (mi_sc_load mi (take 32 sig), mi_sc_load mi (take 32 (drop 32 sig)), uint (sig ! 64))"

definition recoverable_save :: "('s, 'st) memory_image \<Rightarrow> 's \<Rightarrow> 's \<Rightarrow> int \<Rightarrow> u8 list" where
  "recoverable_save mi r s recid = mi_sc mi r @ mi_sc mi s @ [of_int recid]"

definition recoverable_parse_compact :: "'s scalar_api \<Rightarrow> ('s, 'st) memory_image \<Rightarrow> u8 list \<Rightarrow> u8 list \<Rightarrow> int \<Rightarrow> bool \<times> u8 list" where
  "recoverable_parse_compact api mi sig input64 recid =
    (if \<not> (recid \<ge> 0 \<and> recid \<le> 3) then (False, sig)
     else let ret = True;
              (overflow, r) = sa_set_b32 api (take 32 input64);
              ret = (ret \<and> overflow = 0);
              (overflow, s) = sa_set_b32 api (take 32 (drop 32 input64));
              ret = (ret \<and> overflow = 0)
          in if ret then (ret, recoverable_save mi r s recid) else (ret, replicate 65 0))"

definition recoverable_serialize_compact :: "'s scalar_api \<Rightarrow> ('s, 'st) memory_image \<Rightarrow> u8 list \<Rightarrow> bool \<times> u8 list \<times> int" where
  "recoverable_serialize_compact api mi sig =
    (let (r, s, recid) = recoverable_load mi sig in (True, sa_get_b32 api r @ sa_get_b32 api s, recid))"

definition recoverable_convert :: "('s, 'st) memory_image \<Rightarrow> u8 list \<Rightarrow> bool \<times> u8 list" where
  "recoverable_convert mi sigin = (let (r, s, recid) = recoverable_load mi sigin in (True, signature_save mi r s))"

definition ecdsa_sig_recover :: "('fe, 'st) field_ops \<Rightarrow> 's scalar_api \<Rightarrow> 'fe ecmult_mem \<Rightarrow> 'fe gej \<Rightarrow> 'st ecmult_context \<Rightarrow> 's \<Rightarrow> 's \<Rightarrow> 'fe ge \<Rightarrow> 's \<Rightarrow> int \<Rightarrow>
    (bool \<times> 'fe ge) option" where
  "ecdsa_sig_recover ops api mem qj ctx sigr sigs pubkey message recid =
    (if sa_is_zero api sigr \<or> sa_is_zero api sigs then Some (False, pubkey)
     else let brx = sa_get_b32 api sigr;
              (r, fx) = fe_set_b32 ops brx
          in if recid AND 2 \<noteq> 0 \<and> 0 \<le> fe_cmp_var ops fx (ecdsa_const_p_minus_order ops) then Some (False, pubkey)
             else let fx = (if recid AND 2 \<noteq> 0 then fe_add ops fx (ecdsa_const_order_as_fe ops) else fx);
                      (ok, x) = ge_set_xo_var ops fx (of_int (recid AND 1))
                  in if \<not> ok then Some (False, pubkey)
                     else let xj = gej_set_ge ops x;
                              rn = scalar_inverse_var (sa_arith api) sigr;
                              u1 = sa_mul api rn message;
                              u1 = sa_negate api u1;
                              u2 = sa_mul api rn sigs
                          in map_option (\<lambda>qj. let (pubkey, qj) = ge_set_gej_var ops pubkey qj in (\<not> gej_is_infinity qj, pubkey))
                               (ecmult_with ops api mem ctx qj xj u2 u1))"

definition ecdsa_sign_recoverable :: "('fe, 'st) field_ops \<Rightarrow> 's scalar_api \<Rightarrow> ('s, 'st) memory_image \<Rightarrow> 'st ge_storage \<Rightarrow> u8 list \<Rightarrow> 's \<times> 's \<times> int \<Rightarrow> ('fe, 's, 'st) secp_context \<Rightarrow>
    u8 list \<Rightarrow> u8 list \<Rightarrow> u8 list \<Rightarrow> 'd nonce_function \<Rightarrow> 'd \<Rightarrow> (bool \<times> u8 list) option" where
  "ecdsa_sign_recoverable ops api mi zeros nonce32 rs ctx signature msg32 seckey noncefp noncedata =
    (if \<not> ecmult_gen_context_is_built (cx_gen ctx) then Some (False, signature)
     else let (overflow, sec) = sa_set_b32 api seckey
          in map_option (\<lambda>(ret, r, s, recid). (ret, if ret then recoverable_save mi r s recid else replicate 65 0))
               (if overflow = 0 \<and> \<not> sa_is_zero api sec
                then let (_, msg) = sa_set_b32 api msg32
                     in sign_loop api (\<lambda>count nonce32. noncefp nonce32 msg32 seckey None noncedata count)
                          (\<lambda>non (_, _, recid). map_option (\<lambda>(ok, r, s, rid). (ok, r, s, case rid of None \<Rightarrow> recid | Some rid \<Rightarrow> rid))
                            (ecdsa_sig_sign ops api zeros (cx_gen ctx) sec msg non (Some recid)))
                          nonce32 0 rs
                else Some (False, rs)))"

definition ecdsa_recover :: "('fe, 'st) field_ops \<Rightarrow> 's scalar_api \<Rightarrow> ('s, 'st) memory_image \<Rightarrow> 'fe ecmult_mem \<Rightarrow> 'fe gej \<Rightarrow> 'fe ge \<Rightarrow> ('fe, 's, 'st) secp_context \<Rightarrow>
    u8 list \<Rightarrow> u8 list \<Rightarrow> u8 list \<Rightarrow> (bool \<times> u8 list) option" where
  "ecdsa_recover ops api mi mem qj q ctx pubkey signature msg32 =
    (if \<not> ecmult_context_is_built (cx_ecmult ctx) then Some (False, pubkey)
     else let (r, s, recid) = recoverable_load mi signature;
              (_, m) = sa_set_b32 api msg32
          in map_option (\<lambda>(ok, q). if ok then (True, pubkey_save ops mi q) else (False, replicate 64 0))
               (ecdsa_sig_recover ops api mem qj (cx_ecmult ctx) r s q m recid))"

subsection \<open>Correctness\<close>

context secp_api
begin

lemma ecdh_shared:
  assumes "length (hbuf sha) = 64" "length sk = 32" "0 < be_val sk" "be_val sk < order_n"
    and "ecmult_const fops api mem (snd (pubkey_load fops mi point)) (snd (sa_set_b32 api sk)) 256 = Some j"
    and "gej_ok mag j" "gej_rep fv j (Affine x y)" "fv (jz j) ^ nat (field_p - 1) = 1"
  shows "\<exists>bx. length bx = 32 \<and> be_val bx = Rep_fp x \<and>
    ecdh fops api mi mem sha result point sk = Some (True, sha256_digest ((if odd (Rep_fp y) then 0x03 else 0x02) # bx))"
proof -
  let ?r = "fst (ge_set_gej fops j)"
  have z: "ge_rep fv ?r (Affine x y)" using set_gej_rep [OF assms(6,7)] assms(8) by blast
  then have v: "fv (gx ?r) = x" "fv (gy ?r) = y" by (simp_all add: ge_rep_def)
  have m: "mag 8 (gx ?r)" "mag 8 (gy ?r)" using set_gej_ok [OF assms(6)] by (simp_all add: ge_ok_def)
  note nx = normalized(1,2) [OF m(1), unfolded v] and ny = normalized(1,2) [OF m(2), unfolded v]
  let ?b = "fe_get_b32 fops (fe_normalize fops (gx ?r))"
  have b: "be_val ?b = Rep_fp x" "length ?b = 32" using get_b32 [OF nx(1)] nx(2) by simp_all
  have od: "fe_is_odd fops (fe_normalize fops (gy ?r)) \<longleftrightarrow> odd (Rep_fp y)" using is_odd [OF ny(1)] ny(2) by simp
  have s: "fst (sa_set_b32 api sk) = 0" "\<not> sa_is_zero api (snd (sa_set_b32 api sk))"
    using sa_set_b32_over [OF assms(2)] sa_set_b32_zero [OF assms(2)] assms(3,4) by simp_all
  have h: "snd (sha256_finalize (sha256_write (sha256_write (sha256_initialize sha) [t]) ?b)) = sha256_digest (t # ?b)" for t
    using sha_inv_final [OF sha.pieces_inv [OF sha_inv_init [OF assms(1)]], of "[[t], ?b]"] by simp
  have two: "(2 :: u8) OR 1 = 3" by simp
  have "ecdh fops api mi mem sha result point sk = Some (True, sha256_digest ((if odd (Rep_fp y) then 0x03 else 0x02) # ?b))"
    using s assms(5) by (simp add: ecdh_def Let_def case_prod_beta h od two)
  then show ?thesis using b by blast
qed

lemma ecdh_refuses:
  assumes "length sk = 32" "be_val sk = 0 \<or> order_n \<le> be_val sk"
  shows "ecdh fops api mi mem sha result point sk = Some (False, result)"
  using sa_set_b32_over [OF assms(1)] sa_set_b32_zero [OF assms(1)] assms(2) by (auto simp: ecdh_def case_prod_beta)

lemma recoverable_save_load: "0 \<le> recid \<Longrightarrow> recid \<le> 3 \<Longrightarrow> recoverable_load mi (recoverable_save mi r s recid) = (r, s, recid)"
  by (simp add: recoverable_load_def recoverable_save_def mi_sc nth_append unsigned_of_int take_bit_int_eq_self)

lemma recoverable_roundtrip:
  assumes "length input = 64" "0 \<le> recid" "recid \<le> 3"
  shows "\<exists>ok sig. recoverable_parse_compact api mi old input recid = (ok, sig) \<and> length sig = 65 \<and>
    (ok \<longleftrightarrow> be_val (take 32 input) < order_n \<and> be_val (drop 32 input) < order_n) \<and>
    (if ok then recoverable_serialize_compact api mi sig = (True, input, recid) \<and> recoverable_convert mi sig = signature_parse_compact api mi input
     else sig = replicate 65 0)"
proof -
  let ?a = "take 32 input" and ?b = "drop 32 input"
  have l: "length ?a = 32" "length ?b = 32" "take 32 (drop 32 input) = ?b" using assms(1) by simp_all
  have f: "fst (sa_set_b32 api b) = 0 \<longleftrightarrow> be_val b < order_n" if "length b = 32" for b by (rule sa_set_b32_over [OF that])
  have g: "sa_get_b32 api (snd (sa_set_b32 api b)) = b" if "length b = 32" "be_val b < order_n" for b
    using sa_get_b32_val [of "snd (sa_set_b32 api b)"] sa_set_b32_in [OF that] that(1) be_val_inject [of "sa_get_b32 api (snd (sa_set_b32 api b))" b] by simp
  have len: "length (recoverable_save mi r s recid) = 65" for r s by (simp add: recoverable_save_def mi_sc)
  show ?thesis
    using g [OF l(1)] g [OF l(2)] assms(2,3)
    by (simp add: recoverable_parse_compact_def recoverable_serialize_compact_def recoverable_convert_def signature_parse_compact_def Let_def case_prod_beta
        l(3) f [OF l(1)] f [OF l(2)] recoverable_save_load len)
qed

end

subsection \<open>Properties\<close>



text \<open>C29: the 64 byte form with its recovery id is accepted exactly when both halves are below the group order; serialization
  then gives the bytes and the id back, and converting drops the id and gives the plain signature of the same bytes. Otherwise the signature
  is cleared.\<close>

theorem recoverable_compact_roundtrip:
  assumes "length input = 64" "0 \<le> recid" "recid \<le> 3"
  shows "\<exists>ok sig. recoverable_parse_compact scalar_api_8x32 memory_image_10x26 old input recid = (ok, sig) \<and> length sig = 65 \<and>
    (ok \<longleftrightarrow> be_val (take 32 input) < order_n \<and> be_val (drop 32 input) < order_n) \<and>
    (if ok then recoverable_serialize_compact scalar_api_8x32 memory_image_10x26 sig = (True, input, recid) \<and>
       recoverable_convert memory_image_10x26 sig = signature_parse_compact scalar_api_8x32 memory_image_10x26 input
     else sig = replicate 65 0)"
  by (rule a10.recoverable_roundtrip [OF assms])

theorem recoverable_compact_roundtrip_witness:
  "\<exists>sig. recoverable_parse_compact scalar_api_8x32 memory_image_10x26 [] (replicate 63 0 @ [5]) 3 = (True, sig) \<and>
    recoverable_serialize_compact scalar_api_8x32 memory_image_10x26 sig = (True, replicate 63 0 @ [5], 3)"
proof -
  have "be_val (replicate 32 0 :: u8 list) = 0" "be_val (replicate 31 0 @ [5] :: u8 list) = 5"
    using be_val_zeros [of 32 "[]"] be_val_zeros [of 31 "[5]"] by (simp_all add: be_val_Cons)
  then have "be_val (take 32 (replicate 63 0 @ [5 :: u8])) < order_n" "be_val (drop 32 (replicate 63 0 @ [5 :: u8])) < order_n"
    by (simp_all add: order_n_def)
  then show ?thesis using recoverable_compact_roundtrip [of "replicate 63 0 @ [5]" 3 "[]"] by auto
qed

end
