(* ===== verification/Rangeproof_Verify.thy ===== *)
theory Rangeproof_Verify
  imports Rangeproof Borromean
begin

text \<open>
  Verification of a range proof without a nonce, \<open>rangeproof_verify_impl\<close>, and the making of the ring signatures, \<open>borromean_sign\<close>.
\<close>

subsection \<open>Verification (rangeproof_impl.h 541--651)\<close>

text \<open>The sizes of the rings: four for every two bits of the mantissa and a last one of two for an odd bit, or a single member.\<close>

definition verify_rsizes :: "int \<Rightarrow> nat list" where
  "verify_rsizes mantissa = (if mantissa \<noteq> 0 then replicate (nat (mantissa div 2)) 4 @ (if odd mantissa then [2] else []) else [1])"

text \<open>One digit commitment of the proof: it is hashed, becomes the first key of its ring and is added up.\<close>

definition verify_digit :: "('fe, 'st) field_ops \<Rightarrow> u8 list \<Rightarrow> u8 list \<Rightarrow> nat list \<Rightarrow> nat \<Rightarrow> sha256 \<times> 'fe gej list \<times> 'fe gej \<times> nat \<times> nat \<Rightarrow>
    sha256 \<times> 'fe gej list \<times> 'fe gej \<times> nat \<times> nat" where
  "verify_digit ops proof signs rsizes i = (\<lambda>(sha256_m, pubs, accj, offset, npub).
    let (_, fe) = fe_set_b32 ops (take 32 (drop offset proof));
        (_, c) = ge_set_xquad ops fe;
        c = (if signs ! i \<noteq> 0 then ge_neg ops c else c);
        sha256_m = sha256_write sha256_m [signs ! i];
        sha256_m = sha256_write sha256_m (take 32 (drop offset proof));
        pubs = pubs[npub := gej_set_ge ops c];
        accj = fst (gej_add_ge_var ops accj accj c None)
    in (sha256_m, pubs, accj, offset + 32, npub + rsizes ! i))"

text \<open>\<open>pubs\<close> is the uninitialized array of 128 keys. With the answer the range is returned.\<close>

definition rangeproof_verify :: "('fe, 'st) field_ops \<Rightarrow> 's scalar_api \<Rightarrow> 'fe ecmult_mem \<Rightarrow> 'fe const_mem \<Rightarrow> 'fe ge \<Rightarrow> 'fe gej \<Rightarrow> 'fe gej list \<Rightarrow> sha256 \<Rightarrow> 'st ecmult_context \<Rightarrow>
    'fe ge \<Rightarrow> u8 list \<Rightarrow> u8 list option \<Rightarrow> 'fe ge \<Rightarrow> (bool \<times> (u64 \<times> u64) option) option" where
  "rangeproof_verify ops api mem cmem rge accj pubs sha ctx commit proof extra_commit genp =
    (case rangeproof_getheader 0 proof of
       None \<Rightarrow> Some (False, None)
     | Some (offset, exp, mantissa, scale, min_value, max_value) \<Rightarrow>
         let rsizes = verify_rsizes mantissa;
             rings = length rsizes;
             npub = sum_list rsizes
         in if length proof - offset < 32 * (npub + rings - 1) + 32 + (rings + 6) div 8 then Some (False, Some (min_value, max_value))
            else let sha256_m = sha256_initialize sha;
                     sha256_m = sha256_write sha256_m (rangeproof_serialize_point ops commit);
                     sha256_m = sha256_write sha256_m (rangeproof_serialize_point ops genp);
                     sha256_m = sha256_write sha256_m (take offset proof);
                     signs = map (\<lambda>i. of_bool (proof ! (offset + i div 8) AND push_bit (i mod 8) 1 \<noteq> 0)) [0..<rings - 1];
                     offset = offset + (rings + 6) div 8
                 in if (rings - 1) mod 8 \<noteq> 0 \<and> drop_bit ((rings - 1) mod 8) (proof ! (offset - 1)) \<noteq> 0 then Some (False, Some (min_value, max_value))
                    else Option.bind (if min_value \<noteq> 0 then pedersen_ecmult_small ops api cmem min_value genp else Some (gej_set_infinity ops accj)) (\<lambda>accj.
                      let (sha256_m, pubs, accj, offset, npub) = fold (verify_digit ops proof signs rsizes) [0..<rings - 1] (sha256_m, pubs, accj, offset, 0);
                          accj = gej_neg ops accj;
                          pubs = pubs[npub := fst (gej_add_ge_var ops (pubs ! npub) accj commit None)]
                      in if gej_is_infinity (pubs ! npub) then Some (False, Some (min_value, max_value))
                         else let pubs = rangeproof_pub_expand ops pubs exp rsizes genp;
                                  npub = npub + rsizes ! (rings - 1);
                                  e0 = take 32 (drop offset proof);
                                  offset = offset + 32;
                                  s = map (\<lambda>i. sa_set_b32 api (take 32 (drop (offset + 32 * i) proof))) [0..<npub]
                              in if list_ex (\<lambda>(overflow, _). overflow \<noteq> 0) s then Some (False, Some (min_value, max_value))
                                 else let offset = offset + 32 * npub
                                      in if offset \<noteq> length proof then Some (False, Some (min_value, max_value))
                                         else let sha256_m = (case extra_commit of None \<Rightarrow> sha256_m | Some extra \<Rightarrow> sha256_write sha256_m extra);
                                                  m = snd (sha256_finalize sha256_m)
                                              in map_option (\<lambda>(ret, evalues). (ret, Some (min_value, max_value)))
                                                   (borromean_verify ops api mem rge accj sha ctx e0 (map snd s) (take npub pubs) rsizes m)))"

subsection \<open>Signing the rings (borromean_impl.h 112--202)\<close>

text \<open>One step along a ring: the next point from the challenge, in compressed form. The inner \<open>None\<close> is a return of 0.\<close>

definition borromean_step :: "('fe, 'st) field_ops \<Rightarrow> 's scalar_api \<Rightarrow> 'fe ecmult_mem \<Rightarrow> 'fe ge \<Rightarrow> 'st ecmult_context \<Rightarrow> 's \<Rightarrow> 's \<times> 'fe gej \<Rightarrow> 'fe gej \<Rightarrow>
    ('fe gej \<times> u8 list) option option" where
  "borromean_step ops api mem rge ctx ens = (\<lambda>(s, pub) rgej.
    map_option (\<lambda>rgej.
      if gej_is_infinity rgej then None
      else let (rge, rgej) = ge_set_gej_var ops rge rgej;
               (_, _, tmp, sz) = eckey_pubkey_serialize ops rge (replicate 33 0) 0 True
           in Some (rgej, tmp)) (ecmult_with ops api mem ctx rgej pub ens s))"

text \<open>The members behind the honest one, from its point on, and the members before it, from the common challenge on.\<close>

fun borromean_after :: "('fe, 'st) field_ops \<Rightarrow> 's scalar_api \<Rightarrow> 'fe ecmult_mem \<Rightarrow> 'fe ge \<Rightarrow> sha256 \<Rightarrow> 'st ecmult_context \<Rightarrow> u8 list \<Rightarrow> nat \<Rightarrow> nat \<Rightarrow>
    ('s \<times> 'fe gej) list \<Rightarrow> 'fe gej \<times> u8 list \<Rightarrow> ('fe gej \<times> u8 list) option option" where
  "borromean_after ops api mem rge sha ctx m i j [] (rgej, tmp) = Some (Some (rgej, tmp))"
| "borromean_after ops api mem rge sha ctx m i j (p # members) (rgej, tmp) =
    (let (overflow, ens) = sa_set_b32 api (borromean_hash sha m tmp i j)
     in if overflow \<noteq> 0 \<or> sa_is_zero api ens then Some None
        else Option.bind (borromean_step ops api mem rge ctx ens p rgej) (\<lambda>r. case r of None \<Rightarrow> Some None
             | Some st \<Rightarrow> borromean_after ops api mem rge sha ctx m i (j + 1) members st))"

fun borromean_before :: "('fe, 'st) field_ops \<Rightarrow> 's scalar_api \<Rightarrow> 'fe ecmult_mem \<Rightarrow> 'fe ge \<Rightarrow> sha256 \<Rightarrow> 'st ecmult_context \<Rightarrow> u8 list \<Rightarrow> nat \<Rightarrow> nat \<Rightarrow>
    ('s \<times> 'fe gej) list \<Rightarrow> 's \<Rightarrow> 'fe gej \<Rightarrow> ('s \<times> 'fe gej) option option" where
  "borromean_before ops api mem rge sha ctx m i j [] ens rgej = Some (Some (ens, rgej))"
| "borromean_before ops api mem rge sha ctx m i j (p # members) ens rgej =
    Option.bind (borromean_step ops api mem rge ctx ens p rgej) (\<lambda>r. case r of None \<Rightarrow> Some None
    | Some (rgej, tmp) \<Rightarrow>
        let (overflow, ens) = sa_set_b32 api (borromean_hash sha m tmp i (j + 1))
        in if overflow \<noteq> 0 \<or> sa_is_zero api ens then Some None
           else borromean_before ops api mem rge sha ctx m i (j + 1) members ens rgej)"

text \<open>A ring has the nonce and the secret of its honest member, the index of that, and the members.\<close>

fun borromean_commit :: "('fe, 'st) field_ops \<Rightarrow> 's scalar_api \<Rightarrow> 'fe ecmult_mem \<Rightarrow> 'fe ge \<Rightarrow> 'st ge_storage \<Rightarrow> sha256 \<Rightarrow> 'st ecmult_context \<Rightarrow> ('fe, 's, 'st) ecmult_gen_context \<Rightarrow> u8 list \<Rightarrow> nat \<Rightarrow>
    ('s \<times> 's \<times> nat \<times> ('s \<times> 'fe gej) list) list \<Rightarrow> sha256 \<Rightarrow> sha256 option option" where
  "borromean_commit ops api mem rge zeros sha ctx gctx m i [] sha256_e0 = Some (Some sha256_e0)"
| "borromean_commit ops api mem rge zeros sha ctx gctx m i ((k, sec, secidx, members) # rings) sha256_e0 =
    Option.bind (ecmult_gen ops api zeros gctx k) (\<lambda>rgej.
      let (rge', rgej) = ge_set_gej ops rgej
      in if gej_is_infinity rgej then Some None
         else let (_, _, tmp, sz) = eckey_pubkey_serialize ops rge' (replicate 33 0) 0 True
              in Option.bind (borromean_after ops api mem rge sha ctx m i (secidx + 1) (drop (secidx + 1) members) (rgej, tmp)) (\<lambda>r.
                   case r of None \<Rightarrow> Some None
                   | Some (rgej, tmp) \<Rightarrow> borromean_commit ops api mem rge zeros sha ctx gctx m (i + 1) rings (sha256_write sha256_e0 tmp)))"

fun borromean_close :: "('fe, 'st) field_ops \<Rightarrow> 's scalar_api \<Rightarrow> 'fe ecmult_mem \<Rightarrow> 'fe ge \<Rightarrow> sha256 \<Rightarrow> 'st ecmult_context \<Rightarrow> u8 list \<Rightarrow> u8 list \<Rightarrow> nat \<Rightarrow>
    ('s \<times> 's \<times> nat \<times> ('s \<times> 'fe gej) list) list \<Rightarrow> 'fe gej \<Rightarrow> 's list \<Rightarrow> 's list option option" where
  "borromean_close ops api mem rge sha ctx m e0 i [] rgej s = Some (Some s)"
| "borromean_close ops api mem rge sha ctx m e0 i ((k, sec, secidx, members) # rings) rgej s =
    (let (overflow, ens) = sa_set_b32 api (borromean_hash sha m e0 i 0)
     in if overflow \<noteq> 0 \<or> sa_is_zero api ens then Some None
        else Option.bind (borromean_before ops api mem rge sha ctx m i 0 (take secidx members) ens rgej) (\<lambda>r. case r of None \<Rightarrow> Some None
             | Some (ens, rgej) \<Rightarrow>
                 let x = borromean_response api ens sec k
                 in if sa_is_zero api x then Some None
                    else borromean_close ops api mem rge sha ctx m e0 (i + 1) rings rgej (s @ (map fst members)[secidx := x])))"

text \<open>The result has the common challenge and all scalars; what a failed call leaves in these is not modelled.\<close>

definition borromean_sign :: "('fe, 'st) field_ops \<Rightarrow> 's scalar_api \<Rightarrow> 'fe ecmult_mem \<Rightarrow> 'fe ge \<Rightarrow> 'fe gej \<Rightarrow> 'st ge_storage \<Rightarrow> sha256 \<Rightarrow> 'st ecmult_context \<Rightarrow> ('fe, 's, 'st) ecmult_gen_context \<Rightarrow>
    's list \<Rightarrow> 'fe gej list \<Rightarrow> 's list \<Rightarrow> 's list \<Rightarrow> nat list \<Rightarrow> nat list \<Rightarrow> u8 list \<Rightarrow> (u8 list \<times> 's list) option option" where
  "borromean_sign ops api mem rge rgej zeros sha ctx gctx s pubs k sec rsizes secidx m =
    (let rings = zip k (zip sec (zip secidx (split_rings rsizes (zip s pubs))))
     in Option.bind (borromean_commit ops api mem rge zeros sha ctx gctx m 0 rings (sha256_initialize sha)) (\<lambda>r. case r of None \<Rightarrow> Some None
        | Some sha256_e0 \<Rightarrow>
            let sha256_e0 = sha256_write sha256_e0 m;
                e0 = snd (sha256_finalize sha256_e0)
            in map_option (map_option (\<lambda>s. (e0, s))) (borromean_close ops api mem rge sha ctx m e0 0 rings rgej [])))"

subsection \<open>Correctness\<close>

text \<open>The digits walk through the points of the proof and through the positions of the public keys.\<close>

lemma verify_digit_step:
  "verify_digit ops pf signs rsizes i (h, pubs, accj, offset, npub) = (h', pubs', accj', offset', npub') \<Longrightarrow> offset' = offset + 32 \<and> npub' = npub + rsizes ! i"
  by (auto simp: verify_digit_def Let_def split: prod.splits)

lemma verify_digit_positions:
  "fold (verify_digit ops pf signs rsizes) [0..<n] (h, pubs, accj, offset, npub) = (h', pubs', accj', offset', npub') \<Longrightarrow> n \<le> length rsizes \<Longrightarrow>
    offset' = offset + 32 * n \<and> npub' = npub + sum_list (take n rsizes)"
proof (induction n arbitrary: h' pubs' accj' offset' npub')
  case (Suc n)
  obtain h1 p1 a1 o1 n1 where f: "fold (verify_digit ops pf signs rsizes) [0..<n] (h, pubs, accj, offset, npub) = (h1, p1, a1, o1, n1)" by (metis prod_cases5)
  have "o1 = offset + 32 * n \<and> n1 = npub + sum_list (take n rsizes)" using Suc.IH [OF f] Suc.prems(2) by simp
  moreover have "verify_digit ops pf signs rsizes n (h1, p1, a1, o1, n1) = (h', pubs', accj', offset', npub')" using Suc.prems(1) f by simp
  ultimately show ?case using verify_digit_step [of ops pf signs rsizes n] Suc.prems(2) by (fastforce simp: take_Suc_conv_app_nth)
qed simp

text \<open>A proof whose header is refused is refused, and so is one with padding bits.\<close>

lemma verify_no_header:
  "rangeproof_getheader 0 pf = None \<Longrightarrow> rangeproof_verify ops api mem cmem rge accj pubs sha ctx commit pf extra genp = Some (False, None)"
  by (simp add: rangeproof_verify_def)

end
