(* ===== verification/Spec2Isabelle.thy ===== *)
theory Spec2Isabelle
  imports Scalar_4x64 Scalar_8x32 Field_5x52 Group_5x52 Hash Ecdsa_Der Wnaf Ecmult_5x52 Ecmult_10x26 Scalar_Api Ecmult_Gen Ecmult_Const Ecdsa Eckey Pedersen Api Rangeproof Borromean Modules Rangeproof_Verify
begin

text \<open>
  A verification library for secp256k1-zkp, the C library of elliptic-curve cryptography that the program links (under
  \<open>src/original/rust-secp256k1-zkp/depend/secp256k1-zkp/src\<close>; file names below are relative to it).

  \<^bold>\<open>The program.\<close> Scalars are integers modulo the group order (\<open>scalar*.h\<close>), field elements integers modulo the prime p
  (\<open>field*.h\<close>); points of the curve are affine or Jacobian triples of field elements (\<open>group_impl.h\<close>); the hash functions
  (\<open>hash_impl.h\<close>) give nonces and message digests. Multiplication of points, signatures, keys, and the modules for range
  proofs and other zero-knowledge statements are built on these. The scalar and the field code have several representations that
  the build chooses between; the generic code calls them through a common set of functions.

  \<^bold>\<open>The theories.\<close>
  \<^item> \<open>Prelude\<close>: words, values of limb lists (\<open>le_val\<close>, \<open>be_val\<close>), the \<open>denotes\<close> rules that carry a word computation to the
    integers together with its bounds, byte buffers, and the locale \<open>power_chain\<close> of addition chains.
  \<^item> \<open>Scalar\<close>: the generic code of \<open>scalar_impl.h\<close> over a record of operations, and the locale \<open>scalar_arith\<close> that states what the
    operations of a representation promise. \<open>Scalar_4x64\<close> models \<open>scalar_4x64_impl.h\<close>
    limb by limb and interprets the locales on it; \<open>Limb_Acc\<close> holds the theory of the three-word accumulator for any limb
    width, and \<open>Scalar_8x32\<close> models \<open>scalar_8x32_impl.h\<close>, the representation the program's build selects, over it.
  \<^item> \<open>Field\<close>: the generic code of \<open>field_impl.h\<close>, in the same style; the locale \<open>field_arith\<close> has the magnitude discipline
    of the C comments as laws. \<open>Field_Limbs\<close> holds the lemmas on limb lists that the two representations share.
    \<open>Field_5x52\<close> models \<open>field_5x52_impl.h\<close> and the kernels of \<open>field_5x52_int128_impl.h\<close>
    with 64-bit limbs and 128-bit accumulators, \<open>Field_10x26\<close> models \<open>field_10x26_impl.h\<close> with 32-bit limbs and 64-bit
    accumulators, the representation the program's build selects; both interpret the locale.
  \<^item> \<open>Group\<close>: \<open>group_impl.h\<close> over the field operations, inside the locale \<open>group_arith\<close> (an extension of \<open>field_arith\<close>);
    \<open>Group_5x52\<close> interprets it on the 5x52 field and states the results.
  \<^item> \<open>Hash\<close>: SHA-256, HMAC-SHA256 and the RFC 6979 generator. The locale \<open>message_digest\<close> is the interface of a streaming
    digest and is interpreted twice, by SHA-256 and by HMAC over it.
  \<^item> \<open>Wnaf\<close>: the signed digit recodings of \<open>ecmult_impl.h\<close> and \<open>ecmult_const_impl.h\<close> over the locale \<open>scalar_digits\<close>,
    which both scalar representations interpret.
  \<^item> \<open>Ecmult\<close>: the tables, the context and the interleaved multiplication of \<open>ecmult_impl.h\<close> over field and scalar operations,
    proved inside the locale \<open>ecmult_arith\<close> to compute double-and-add on points (\<open>ec_horner\<close>). The locale \<open>ecmult_recode\<close>
    splits and recodes the scalars, \<open>ecmult_full\<close> puts both together. \<open>Ecmult_5x52\<close> interprets it on 4x64 scalars with the
    5x52 field and \<open>Ecmult_10x26\<close> on 8x32 scalars with the 10x26 field, the configuration of the program (\<open>build.rs\<close> defines
    \<open>USE_FIELD_10X26\<close>, \<open>USE_SCALAR_8X32\<close>, \<open>USE_ENDOMORPHISM\<close>, \<open>USE_NUM_NONE\<close> and the builtin inverses).
  \<^item> \<open>Ecdsa_Der\<close>: the strict DER parser and the serializer of \<open>ecdsa_impl.h\<close>; reads outside the buffer are \<open>None\<close>.
  \<^item> \<open>Scalar_Api\<close>: the scalar functions that the code above the arithmetic calls, as a record, and the locale \<open>secp_code\<close> over them
    and a field representation; \<open>b10\<close> is its interpretation on the configuration of the program. It also has the notions in which
    the results are stated: \<open>ecmult_points\<close>, the point that double-and-add gives for two scalars and three tables, and \<open>ct_sum\<close>, a
    sequence of constant time additions.
  \<^item> \<open>Ecmult_Gen\<close>: \<open>ecmult_gen_impl.h\<close>, the generator table with its context and blinding. \<open>Ecdsa\<close>: verification and signing of
    \<open>ecdsa_impl.h\<close>. \<open>Eckey\<close>: \<open>eckey_impl.h\<close>, reading, writing and tweaking keys. \<open>Ecmult_Const\<close>: the constant time multiplication
    of \<open>ecmult_const_impl.h\<close>; its path over points is \<open>const_path\<close>.
  \<^item> \<open>Pedersen\<close>: the commitments of \<open>modules/rangeproof\<close> and the generators of \<open>modules/generator\<close>: multiplication, encoding, the sums
    that balance a transaction, and switch commitments.
  \<^item> \<open>Api\<close>: the entry points of \<open>secp256k1.c\<close>: contexts, opaque keys and signatures, signing with its nonce loop, verification, secret
    keys as bytes. The locale \<open>secp_api\<close> adds to \<open>secp_code\<close> the memory images of the structs that the opaque types hold.
  \<^item> \<open>Rangeproof\<close>: the parameters and the header of range proofs and the equations of rewinding (\<open>rangeproof_impl.h\<close>).
    \<open>Borromean\<close>: the challenges and the verification of the ring signatures (\<open>borromean_impl.h\<close>), the keys of the rings and the random
    values of a proof. \<open>Rangeproof_Verify\<close>: the verification of a whole proof without a nonce, and signing the rings.
  \<^item> \<open>Modules\<close>: the Diffie-Hellman exchange (\<open>modules/ecdh\<close>) and recoverable signatures (\<open>modules/recovery\<close>).

  \<^bold>\<open>State and errors.\<close> A C struct is a record or a datatype with its fields in the source's order, out-parameters are results,
  a pointer that may be null is an option. Limbs are words of the width of the C type and their arithmetic wraps as in C;
  values are read with \<open>uint\<close>. The \<open>VERIFY\<close>-only fields \<open>magnitude\<close> and \<open>normalized\<close> are predicates of the specification
  and not part of the data. Undefined behaviour and loops that do not end are \<open>None\<close>.

  \<^bold>\<open>What the theorems show.\<close> Every scalar and field operation computes the residue it is meant to, within the bounds that keep
  its limbs from wrapping (magnitude 8 for products, 2047 for normalization with 52-bit limbs and 31 with 26-bit limbs: one more and
  \<open>fe_normalize\<close> is wrong); the formulas of
  the group implement the chord-and-tangent law on represented points in every branch, and conversions, tables and compression
  keep the points; the hash code equals FIPS 180-4, RFC 2104 and RFC 6979 for messages written in any pieces; the DER parser is
  memory safe and accepts one encoding per signature. On top of that, \<open>ecmult_gen\<close> adds the table points that the digits of the blinded
  scalar select, verification decides the equation of ECDSA and signing solves it, keys are read, written and tweaked as points
  of the curve, a commitment is the sum of two multiplications, and a tally accepts exactly the commitments that sum up to
  infinity. The entry points reject what is out of range, leave a cleared result, and otherwise give these results on bytes; signing
  ends with the first accepted nonce. The range that a range proof states never overflows, its header is read back, and the blinding factors of its digits
  cancel; a ring signature with a zero scalar or an infinite key is never accepted. Facts that need
  p to be prime are stated with the equation of Fermat's theorem for the element, or for units modulo p, since a
  primality certificate is not part of the development.

  \<^bold>\<open>Loops.\<close> Every loop is a total function: counting loops recurse on lists, the write loop of SHA-256 and the generation loop
  have measures; no fuel is used. The recodings
  are partial functions into option, since a window of width zero would not end; their specifications include that they end. So are
  the loops that draw values until one is accepted, of which the signing loop is shown to end with the first that is.

  \<^bold>\<open>Not modelled.\<close> The assembly variants of the kernels, the GMP-backed number type and the code that is compiled only with it,
  the exhaustive-test configurations, tests and benchmarks. Of the modules: making a whole range proof, rewinding one with a nonce
  and the entry points for these, the generation of generators by hashing, the sum of blinding factors over generators, surjection proofs and
  whitelists. Of \<open>secp256k1.c\<close>: freeing contexts and the error callbacks.
\<close>

end
